(* ===== verification/Prelude.thy ===== *)
theory Prelude
  imports Main "HOL-Library.Word"
begin

text \<open>
  Shared vocabulary of the development: machine bytes, the result type that
  stands for \<^verbatim>\<open>anyhow::Result\<close> and for panics, fixed-width integer
  encodings, byte-buffer slices, and the generic list lemmas the component
  theories rest on. Nothing here models one particular function of the crate.
\<close>

unbundle bit_operations_syntax

type_synonym byte = "8 word"
type_synonym bytes = "8 word list"
type_synonym nibs = "8 word list"
type_synonym u16 = "16 word"
type_synonym u32 = "32 word"
type_synonym u64 = "64 word"
type_synonym u256 = "256 word"

named_theorems codec "facts that carry the encode/decode proofs"
named_theorems res_simps "characterisations of successful results"

section \<open>Results\<close>

text \<open>
  \<open>Bail\<close> is an error value returned to the caller, \<open>Panic\<close> an abort
  (failed \<^verbatim>\<open>assert!\<close>, \<^verbatim>\<open>unreachable!\<close>, out-of-range index),
  \<open>IoErr\<close> a failed file operation, and \<open>NoFuel\<close> marks a recursion bound
  that ran out (shown to be unreachable wherever it occurs).
\<close>

datatype err = Bail string | Panic string | IoErr string | NoFuel

datatype 'a res = Ok 'a | Err err

fun res_bind :: "'a res \<Rightarrow> ('a \<Rightarrow> 'b res) \<Rightarrow> 'b res" where
  "res_bind (Ok x) f = f x"
| "res_bind (Err e) f = Err e"

definition res_map :: "('a \<Rightarrow> 'b) \<Rightarrow> 'a res \<Rightarrow> 'b res" where
  "res_map f m = res_bind m (\<lambda>x. Ok (f x))"

fun res_mapM :: "('a \<Rightarrow> 'b res) \<Rightarrow> 'a list \<Rightarrow> 'b list res" where
  "res_mapM f [] = Ok []"
| "res_mapM f (x # xs) =
     res_bind (f x) (\<lambda>y. res_bind (res_mapM f xs) (\<lambda>ys. Ok (y # ys)))"

fun res_foldM :: "('s \<Rightarrow> 'a \<Rightarrow> 's res) \<Rightarrow> 's \<Rightarrow> 'a list \<Rightarrow> 's res" where
  "res_foldM f s [] = Ok s"
| "res_foldM f s (x # xs) = res_bind (f s x) (\<lambda>s'. res_foldM f s' xs)"

lemma res_bind_cong [fundef_cong]:
  "m = m' \<Longrightarrow> (\<And>x. m' = Ok x \<Longrightarrow> f x = g x) \<Longrightarrow> res_bind m f = res_bind m' g"
  by (cases m') auto

lemma res_map_cong [fundef_cong]:
  "m = m' \<Longrightarrow> (\<And>x. m' = Ok x \<Longrightarrow> f x = g x) \<Longrightarrow> res_map f m = res_map g m'"
  by (cases m') (auto simp: res_map_def)

lemma res_mapM_cong [fundef_cong]:
  "xs = ys \<Longrightarrow> (\<And>x. x \<in> set ys \<Longrightarrow> f x = g x) \<Longrightarrow> res_mapM f xs = res_mapM g ys"
proof (induction ys arbitrary: xs)
  case Nil
  then show ?case by simp
next
  case (Cons y ys)
  from Cons.IH [of ys] Cons.prems(2) have "res_mapM f ys = res_mapM g ys" by simp
  with Cons.prems show ?case by simp
qed

lemma res_bind_Ok [res_simps]:
  "(res_bind m f = Ok y) = (\<exists>x. m = Ok x \<and> f x = Ok y)"
  by (cases m) auto

lemma res_bind_Err [res_simps]:
  "(res_bind m f = Err e) = (m = Err e \<or> (\<exists>x. m = Ok x \<and> f x = Err e))"
  by (cases m) auto

lemma res_map_simps [simp]:
  "res_map f (Ok x) = Ok (f x)" "res_map f (Err e) = Err e"
  by (auto simp: res_map_def)

lemma res_map_Ok [res_simps]: "(res_map f m = Ok y) = (\<exists>x. m = Ok x \<and> y = f x)"
  by (cases m) auto

lemma res_bind_assoc: "res_bind (res_bind m f) g = res_bind m (\<lambda>x. res_bind (f x) g)"
  by (cases m) auto

lemma res_bind_ret [simp]: "res_bind m Ok = m"
  by (cases m) auto

lemma res_mapM_all_Ok: "(\<And>x. x \<in> set xs \<Longrightarrow> f x = Ok (g x)) \<Longrightarrow> res_mapM f xs = Ok (map g xs)"
  by (induction xs) auto

lemma res_foldM_append:
  "res_foldM f s (xs @ ys) = res_bind (res_foldM f s xs) (\<lambda>s'. res_foldM f s' ys)"
  by (induction xs arbitrary: s) (auto simp: res_bind_assoc)

fun is_ok :: "'a res \<Rightarrow> bool" where
  "is_ok (Ok x) = True"
| "is_ok (Err e) = False"

section \<open>Fixed-width integer encodings\<close>

text \<open>\<open>le_bytes k n\<close> is \<^verbatim>\<open>to_le_bytes\<close> of the low \<open>k\<close> bytes of \<open>n\<close>.\<close>

primrec le_bytes :: "nat \<Rightarrow> nat \<Rightarrow> bytes" where
  "le_bytes 0 n = []"
| "le_bytes (Suc k) n = word_of_nat (n mod 256) # le_bytes k (n div 256)"

primrec le_val :: "bytes \<Rightarrow> nat" where
  "le_val [] = 0"
| "le_val (b # bs) = unat b + 256 * le_val bs"

definition be_bytes :: "nat \<Rightarrow> nat \<Rightarrow> bytes" where
  "be_bytes k n = rev (le_bytes k n)"

definition be_val :: "bytes \<Rightarrow> nat" where
  "be_val bs = le_val (rev bs)"

lemma length_le_bytes [simp]: "length (le_bytes k n) = k"
  by (induction k arbitrary: n) auto

lemma length_be_bytes [simp]: "length (be_bytes k n) = k"
  by (simp add: be_bytes_def)

lemma unat_byte_of_nat: "unat (word_of_nat n :: byte) = n mod 256"
  by (simp add: unat_of_nat)

lemma le_val_le_bytes [codec]: "le_val (le_bytes k n) = n mod 256 ^ k"
proof (induction k arbitrary: n)
  case 0
  then show ?case by simp
next
  case (Suc k)
  have "le_val (le_bytes (Suc k) n) = n mod 256 + 256 * (n div 256 mod 256 ^ k)"
    by (simp add: Suc unat_byte_of_nat)
  also have "\<dots> = n mod (256 * 256 ^ k)"
    by (simp add: mod_mult2_eq)
  finally show ?case by simp
qed

lemma be_val_be_bytes [codec]: "be_val (be_bytes k n) = n mod 256 ^ k"
  by (simp add: be_val_def be_bytes_def le_val_le_bytes)

lemma unat_byte_less: "unat (b :: byte) < 256"
  using unsigned_less [of b, where ?'a = nat] by simp

lemma le_val_bound: "le_val bs < 256 ^ length bs"
proof (induction bs)
  case Nil
  then show ?case by simp
next
  case (Cons b bs)
  have "unat b < 256" by (rule unat_byte_less)
  with Cons show ?case by simp
qed

section \<open>Slices of a byte buffer\<close>

definition slice :: "'a list \<Rightarrow> nat \<Rightarrow> nat \<Rightarrow> 'a list" where
  "slice xs off len = take len (drop off xs)"

text \<open>\<open>has_at buf pos xs\<close>: the bytes \<open>xs\<close> stand in \<open>buf\<close> from position \<open>pos\<close> on.\<close>

definition has_at :: "'a list \<Rightarrow> nat \<Rightarrow> 'a list \<Rightarrow> bool" where
  "has_at buf pos xs = (pos + length xs \<le> length buf \<and> slice buf pos (length xs) = xs)"

lemma length_slice [simp]: "off + len \<le> length xs \<Longrightarrow> length (slice xs off len) = len"
  by (simp add: slice_def)

lemma has_at_le: "has_at buf pos xs \<Longrightarrow> pos + length xs \<le> length buf"
  by (simp add: has_at_def)

lemma has_at_slice: "has_at buf pos xs \<Longrightarrow> slice buf pos (length xs) = xs"
  by (simp add: has_at_def)

lemma has_at_append [codec]:
  "has_at buf pos (xs @ ys) = (has_at buf pos xs \<and> has_at buf (pos + length xs) ys)"
  by (auto simp: has_at_def slice_def take_add add.commute add.left_commute append_eq_append_conv)

lemma has_at_ConsD:
  assumes "has_at buf pos (x # xs)"
  shows "has_at buf pos [x]" and "has_at buf (Suc pos) xs"
  using assms has_at_append [of buf pos "[x]" xs] by simp_all

lemma has_at_Nil [simp]: "has_at buf pos [] = (pos \<le> length buf)"
  by (simp add: has_at_def slice_def)

lemma has_at_whole [simp]: "has_at xs 0 xs"
  by (simp add: has_at_def slice_def)

lemma has_at_prefix: "has_at (xs @ ys) 0 xs"
  by (simp add: has_at_def slice_def)

lemma has_at_slice_conv:
  "off + len \<le> length buf \<Longrightarrow> slice buf off len = xs \<Longrightarrow> has_at buf off xs"
  by (auto simp: has_at_def slice_def)

lemma has_at_sub:
  "has_at buf pos xs \<Longrightarrow> has_at xs i ys \<Longrightarrow> has_at buf (pos + i) ys"
proof -
  assume a: "has_at buf pos xs" and b: "has_at xs i ys"
  define pre post where "pre = take i xs" and "post = drop (i + length ys) xs"
  have le: "i + length ys \<le> length xs" and sl: "take (length ys) (drop i xs) = ys"
    using b by (auto simp: has_at_def slice_def)
  have "xs = pre @ ys @ post"
    unfolding pre_def post_def
    by (metis append_take_drop_id drop_drop sl add.commute)
  with a have "has_at buf (pos + length pre) ys"
    by (simp add: has_at_append)
  moreover have "length pre = i" using le by (simp add: pre_def)
  ultimately show ?thesis by simp
qed

section \<open>Options and 16-slot arrays\<close>

text \<open>The present children of a slot array, in slot order (\<^verbatim>\<open>iter().flatten()\<close>).\<close>

definition somes :: "'a option list \<Rightarrow> 'a list" where
  "somes xs = List.map_filter (\<lambda>x. x) xs"

lemma somes_simps [simp]:
  "somes [] = []" "somes (None # xs) = somes xs" "somes (Some x # xs) = x # somes xs"
  by (simp_all add: somes_def List.map_filter_def)

lemma somes_append [simp]: "somes (xs @ ys) = somes xs @ somes ys"
  by (simp add: somes_def List.map_filter_def)

lemma somes_map: "somes (map (map_option f) xs) = map f (somes xs)"
proof (induction xs)
  case (Cons x xs)
  then show ?case by (cases x) auto
qed simp

lemma set_somes: "set (somes xs) = {x. Some x \<in> set xs}"
proof (induction xs)
  case (Cons x xs)
  then show ?case by (cases x) auto
qed simp

lemma somes_replicate_None [simp]: "somes (replicate n None) = []"
  by (induction n) auto

lemma length_somes: "length (somes xs) = length (filter (\<lambda>x. x \<noteq> None) xs)"
proof (induction xs)
  case (Cons x xs)
  then show ?case by (cases x) auto
qed simp

lemma length_somes_le: "length (somes xs) \<le> length xs"
  by (simp add: length_somes)

lemma somes_update:
  "i < length xs \<Longrightarrow> somes (xs[i := y]) = somes (take i xs) @ somes [y] @ somes (drop (Suc i) xs)"
  by (simp add: upd_conv_take_nth_drop flip: somes_append)

lemma somes_split:
  "i < length xs \<Longrightarrow> somes xs = somes (take i xs) @ somes [xs ! i] @ somes (drop (Suc i) xs)"
  by (metis append_take_drop_id Cons_nth_drop_Suc somes_append append_Cons append_Nil)

lemma somes_mem: "i < length xs \<Longrightarrow> xs ! i = Some x \<Longrightarrow> x \<in> set (somes xs)"
  by (auto simp: set_somes) (metis nth_mem)

lemma list_all2_rel_option_somes:
  "list_all2 (rel_option R) xs ys \<Longrightarrow> list_all2 R (somes xs) (somes ys)"
proof (induction xs ys rule: list_all2_induct)
  case (Cons x xs y ys)
  then show ?case by (cases x; cases y) auto
qed simp

lemma list_all2_rel_option_present:
  "list_all2 (rel_option R) xs ys \<Longrightarrow> map (\<lambda>c. c \<noteq> None) xs = map (\<lambda>c. c \<noteq> None) ys"
proof (induction xs ys rule: list_all2_induct)
  case (Cons x xs y ys)
  then show ?case by (cases x; cases y) auto
qed simp

lemma slots_rel_mono:
  assumes "list_all2 (rel_option R) xs ys" and "\<And>x y. Some y \<in> set ys \<Longrightarrow> R x y \<Longrightarrow> S x y"
  shows "list_all2 (rel_option S) xs ys"
  using assms
proof (induction xs ys rule: list_all2_induct)
  case (Cons x xs y ys)
  then show ?case by (cases x; cases y) auto
qed simp

lemma length_concat_mem: "x \<in> set xs \<Longrightarrow> length x \<le> length (concat xs)"
  by (induction xs) auto

section \<open>Common prefixes\<close>

text \<open>\<^verbatim>\<open>common_prefix\<close> of \<^verbatim>\<open>src/lib.rs\<close> counts equal leading elements.\<close>

fun common_prefix :: "'a list \<Rightarrow> 'a list \<Rightarrow> nat" where
  "common_prefix (a # as) (b # bs) = (if a = b then Suc (common_prefix as bs) else 0)"
| "common_prefix as bs = 0"

lemma common_prefix_le1: "common_prefix xs ys \<le> length xs"
  by (induction xs ys rule: common_prefix.induct) auto

lemma common_prefix_le2: "common_prefix xs ys \<le> length ys"
  by (induction xs ys rule: common_prefix.induct) auto

lemma common_prefix_take: "take (common_prefix xs ys) xs = take (common_prefix xs ys) ys"
  by (induction xs ys rule: common_prefix.induct) auto

lemma common_prefix_differs:
  "common_prefix xs ys < length xs \<Longrightarrow> common_prefix xs ys < length ys \<Longrightarrow>
     xs ! common_prefix xs ys \<noteq> ys ! common_prefix xs ys"
  by (induction xs ys rule: common_prefix.induct) auto

lemma common_prefix_full:
  "common_prefix xs ys = length xs \<longleftrightarrow> take (length xs) ys = xs"
  by (induction xs ys rule: common_prefix.induct) auto

lemma common_prefix_eqI:
  "length xs = length ys \<Longrightarrow> common_prefix xs ys = length xs \<longleftrightarrow> xs = ys"
  using common_prefix_full [of xs ys] by auto

lemma common_prefix_split:
  assumes "common_prefix xs ys < length xs" and "common_prefix xs ys < length ys"
  obtains c where "c = common_prefix xs ys"
    and "xs = take c xs @ xs ! c # drop (Suc c) xs"
    and "ys = take c xs @ ys ! c # drop (Suc c) ys"
    and "xs ! c \<noteq> ys ! c"
proof -
  let ?c = "common_prefix xs ys"
  have "xs = take ?c xs @ xs ! ?c # drop (Suc ?c) xs"
    using assms(1) by (simp add: id_take_nth_drop)
  moreover have "ys = take ?c xs @ ys ! ?c # drop (Suc ?c) ys"
    using assms(2) by (subst common_prefix_take) (simp add: id_take_nth_drop)
  ultimately show thesis using that common_prefix_differs [OF assms] by blast
qed

end
