(* ===== verification/Eth.thy ===== *)
theory Eth
  imports Prelude "HOL-Library.List_Lexorder"
begin

text \<open>
  Ethereum encoding primitives and the reference trie-root builder
  (\<^verbatim>\<open>src/eth.rs\<close>). The third-party crates the file calls are a parameter
  of the model: a record \<open>prims\<close> of functions, passed to every definition
  that uses one of them. The reference builder is the oracle the storage
  engine's roots are compared with.
\<close>

section \<open>Third-party primitives\<close>

text \<open>
  \<open>keccak256\<close> stands for \<^verbatim>\<open>alloy_primitives::keccak256\<close> and for
  \<^verbatim>\<open>sha3::Keccak256::digest\<close> (one function, two crates);
  \<open>rlp_encode_bytes\<close> and \<open>rlp_header\<close> for \<^verbatim>\<open>alloy_rlp\<close>'s encoder of a
  byte string and of a \<^verbatim>\<open>Header\<close>; \<open>rlp_encode_u256\<close> for its encoder of
  a \<^verbatim>\<open>U256\<close>, \<open>rlp_decode_u256\<close> for its decoder; \<open>account_encode\<close> and \<open>account_decode\<close> for the derived
  \<^verbatim>\<open>RlpEncodable\<close> and \<^verbatim>\<open>RlpDecodable\<close> instances of \<^verbatim>\<open>Account\<close>
  (\<open>None\<close>: the decoder returned an error).
\<close>

record account =
  a_nonce :: u64
  a_balance :: u256
  a_storage_root :: bytes
  a_code_hash :: bytes

record prims =
  keccak256 :: "bytes \<Rightarrow> bytes"
  rlp_encode_bytes :: "bytes \<Rightarrow> bytes"
  rlp_header :: "bool \<Rightarrow> nat \<Rightarrow> bytes"
  rlp_encode_u256 :: "u256 \<Rightarrow> bytes"
  account_encode :: "account \<Rightarrow> bytes"
  account_decode :: "bytes \<Rightarrow> account option"
  rlp_decode_u256 :: "bytes \<Rightarrow> u256 option"

text \<open>What the code relies on, as named hypotheses: the digest has 32 bytes.\<close>

definition keccak_len :: "prims \<Rightarrow> bool" where
  "keccak_len P = (\<forall>x. length (keccak256 P x) = 32)"

text \<open>The RLP of the empty string is the single byte \<^verbatim>\<open>0x80\<close>.\<close>

definition rlp_empty :: "prims \<Rightarrow> bool" where
  "rlp_empty P = (rlp_encode_bytes P [] = [0x80])"

text \<open>The derived account decoder inverts the derived encoder.\<close>

definition account_rt :: "prims \<Rightarrow> bool" where
  "account_rt P = (\<forall>a. length (a_storage_root a) = 32 \<longrightarrow> length (a_code_hash a) = 32 \<longrightarrow>
     account_decode P (account_encode P a) = Some a)"

text \<open>The decoder of a \<^verbatim>\<open>U256\<close> inverts its encoder, and an encoding has a first byte.\<close>

definition u256_rt :: "prims \<Rightarrow> bool" where
  "u256_rt P = (\<forall>v. rlp_decode_u256 P (rlp_encode_u256 P v) = Some v \<and> rlp_encode_u256 P v \<noteq> [])"

section \<open>Constants and accounts\<close>

definition EMPTY_ROOT :: bytes where
  "EMPTY_ROOT =
    [0x56, 0xe8, 0x1f, 0x17, 0x1b, 0xcc, 0x55, 0xa6, 0xff, 0x83, 0x45, 0xe6, 0x92, 0xc0, 0xf8, 0x6e,
     0x5b, 0x48, 0xe0, 0x1b, 0x99, 0x6c, 0xad, 0xc0, 0x01, 0x62, 0x2f, 0xb5, 0xe3, 0x63, 0xb4, 0x21]"

definition EMPTY_CODE_HASH :: bytes where
  "EMPTY_CODE_HASH =
    [0xc5, 0xd2, 0x46, 0x01, 0x86, 0xf7, 0x23, 0x3c, 0x92, 0x7e, 0x7d, 0xb2, 0xdc, 0xc7, 0x03, 0xc0,
     0xe5, 0x00, 0xb6, 0x53, 0xca, 0x82, 0x27, 0x3b, 0x7b, 0xfa, 0xd8, 0x04, 0x5d, 0x85, 0xa4, 0x70]"

text \<open>\<open>EMPTY_ROOT\<close> is documented as \<^verbatim>\<open>keccak256(RLP(""))\<close>.\<close>

definition empty_root_ok :: "prims \<Rightarrow> bool" where
  "empty_root_ok P = (keccak256 P (rlp_encode_bytes P []) = EMPTY_ROOT)"

definition account_eoa :: "u64 \<Rightarrow> u256 \<Rightarrow> account" where
  "account_eoa nonce balance =
     \<lparr>a_nonce = nonce, a_balance = balance, a_storage_root = EMPTY_ROOT,
      a_code_hash = EMPTY_CODE_HASH\<rparr>"

definition account_contract :: "u64 \<Rightarrow> u256 \<Rightarrow> bytes \<Rightarrow> bytes \<Rightarrow> account" where
  "account_contract nonce balance storage_root code_hash =
     \<lparr>a_nonce = nonce, a_balance = balance, a_storage_root = storage_root,
      a_code_hash = code_hash\<rparr>"

definition account_rlp :: "prims \<Rightarrow> account \<Rightarrow> bytes" where
  "account_rlp P a = account_encode P a"

definition storage_value_rlp :: "prims \<Rightarrow> u256 \<Rightarrow> bytes" where
  "storage_value_rlp P v = rlp_encode_u256 P v"

section \<open>Hex-prefix paths and RLP items\<close>

text \<open>\<^verbatim>\<open>chunks(2)\<close> packed high nibble first; a lone last nibble is padded with 0.\<close>

fun pack_pairs :: "nibs \<Rightarrow> bytes" where
  "pack_pairs [] = []"
| "pack_pairs [a] = [push_bit 4 a]"
| "pack_pairs (a # b # rest) = (push_bit 4 a OR b) # pack_pairs rest"

definition hex_prefix :: "nibs \<Rightarrow> bool \<Rightarrow> bytes" where
  "hex_prefix nibbles leaf =
     (let odd = length nibbles mod 2 = 1;
          flag = (if leaf then 2 else 0 :: byte)
      in if odd then (push_bit 4 (flag OR 1) OR hd nibbles) # pack_pairs (tl nibbles)
         else push_bit 4 flag # pack_pairs nibbles)"

definition rlp_string :: "prims \<Rightarrow> bytes \<Rightarrow> bytes" where
  "rlp_string P bs = rlp_encode_bytes P bs"

definition rlp_list :: "prims \<Rightarrow> bytes list \<Rightarrow> bytes" where
  "rlp_list P items = rlp_header P True (sum_list (map length items)) @ concat items"

definition node_ref :: "prims \<Rightarrow> bytes \<Rightarrow> bytes" where
  "node_ref P node_rlp =
     (if length node_rlp < 32 then node_rlp else rlp_string P (keccak256 P node_rlp))"

section \<open>The reference root builder\<close>

text \<open>\<open>[]\<close> has no first entry: the index panics in the source.\<close>

fun common_prefix_len :: "(nibs \<times> bytes) list \<Rightarrow> nat res" where
  "common_prefix_len [] = Err (Panic ''index out of bounds'')"
| "common_prefix_len (e # es) = Ok (common_prefix (fst e) (fst (last (e # es))))"

definition strip_entries :: "nat \<Rightarrow> (nibs \<times> bytes) list \<Rightarrow> (nibs \<times> bytes) list" where
  "strip_entries cp entries = map (\<lambda>(k, v). (drop cp k, v)) entries"

definition bucket :: "(nibs \<times> bytes) list \<Rightarrow> nat \<Rightarrow> (nibs \<times> bytes) list" where
  "bucket entries i =
     map (\<lambda>(k, v). (tl k, v)) (filter (\<lambda>(k, v). k \<noteq> [] \<and> unat (hd k) = i) entries)"

definition key_bytes :: "(nibs \<times> bytes) list \<Rightarrow> nat" where
  "key_bytes es = sum_list (map (length \<circ> fst) es)"

lemma key_bytes_strip:
  assumes "es \<noteq> []" and "0 < cp" and "\<forall>(k, v) \<in> set es. cp \<le> length k"
  shows "key_bytes (strip_entries cp es) < key_bytes es"
  using assms
proof (induction es)
  case (Cons e es)
  then show ?case
    by (cases "es = []") (auto simp: key_bytes_def strip_entries_def split: prod.splits)
qed simp

lemma key_bytes_bucket_le: "key_bytes (bucket es i) + length (bucket es i) \<le> key_bytes es"
proof (induction es)
  case (Cons e es)
  then show ?case
    by (cases "fst e") (auto simp: key_bytes_def bucket_def split: prod.splits)
qed (simp add: bucket_def key_bytes_def)

lemma key_bytes_bucket: "bucket es i \<noteq> [] \<Longrightarrow> key_bytes (bucket es i) < key_bytes es"
  using key_bytes_bucket_le [of es i] by (cases "bucket es i") auto

function encode_node :: "prims \<Rightarrow> (nibs \<times> bytes) list \<Rightarrow> bytes res" where
  "encode_node P entries =
     (if length entries = 1 then
        (let (k, v) = hd entries
         in Ok (rlp_list P [rlp_string P (hex_prefix k True), rlp_string P v]))
      else res_bind (common_prefix_len entries) (\<lambda>cp.
        if 0 < cp then
          (if \<exists>(k, v) \<in> set entries. length k < cp then Err (Panic ''slice out of range'')
           else res_bind (encode_node P (strip_entries cp entries)) (\<lambda>child.
             Ok (rlp_list P [rlp_string P (hex_prefix (take cp (fst (hd entries))) False),
                             node_ref P child])))
        else res_bind (res_mapM (\<lambda>i.
               if bucket entries i = [] then Ok (rlp_string P [])
               else res_map (node_ref P) (encode_node P (bucket entries i))) [0..<16])
             (\<lambda>items.
               (case find (\<lambda>(k, v). k = []) entries of
                  Some (k, v) \<Rightarrow> Ok (rlp_list P (items @ [rlp_string P v]))
                | None \<Rightarrow> Ok (rlp_list P (items @ [rlp_string P []]))))))"
  by pat_completeness auto
termination
proof (relation "measure (\<lambda>(P, es). key_bytes es)", goal_cases)
  case 1
  then show ?case by simp
next
  case (2 P entries cp)
  then have "entries \<noteq> []" by (cases entries) auto
  moreover have "\<forall>(k, v) \<in> set entries. cp \<le> length k" using 2 by (auto simp: not_less)
  ultimately show ?case using 2 by (simp add: key_bytes_strip)
next
  case (3 P entries cp i)
  then show ?case by (simp add: key_bytes_bucket)
qed

declare encode_node.simps [simp del]

definition eth_key_nibbles :: "bytes \<Rightarrow> nibs" where
  "eth_key_nibbles key = concat (map (\<lambda>b. [drop_bit 4 b, b AND 0x0f]) key)"

text \<open>A \<^verbatim>\<open>BTreeMap\<close> is an association list kept sorted by key.\<close>

fun bt_insert :: "'k::linorder \<Rightarrow> 'v \<Rightarrow> ('k \<times> 'v) list \<Rightarrow> ('k \<times> 'v) list" where
  "bt_insert k v [] = [(k, v)]"
| "bt_insert k v ((k', v') # m) =
     (if k < k' then (k, v) # (k', v') # m
      else if k = k' then (k, v) # m
      else (k', v') # bt_insert k v m)"

definition bt_remove :: "'k::linorder \<Rightarrow> ('k \<times> 'v) list \<Rightarrow> ('k \<times> 'v) list" where
  "bt_remove k m = filter (\<lambda>(k', v'). k' \<noteq> k) m"

definition root_map :: "(bytes \<times> bytes) list \<Rightarrow> (nibs \<times> bytes) list" where
  "root_map entries =
     foldl (\<lambda>m (k, v). if v = [] then bt_remove (eth_key_nibbles k) m
                       else bt_insert (eth_key_nibbles k) v m) [] entries"

definition eth_root :: "prims \<Rightarrow> (bytes \<times> bytes) list \<Rightarrow> bytes res" where
  "eth_root P entries =
     (let m = root_map entries
      in if m = [] then Ok (keccak256 P [0x80])
         else res_map (keccak256 P) (encode_node P m))"

definition secure_root :: "prims \<Rightarrow> (bytes \<times> bytes) list \<Rightarrow> bytes res" where
  "secure_root P entries = eth_root P (map (\<lambda>(k, v). (keccak256 P k, v)) entries)"

section \<open>Lemmas\<close>

abbreviation sorted_keys :: "('k::linorder \<times> 'v) list \<Rightarrow> bool" where
  "sorted_keys m \<equiv> sorted_wrt (<) (map fst m)"

lemma map_of_bt_insert [simp]: "map_of (bt_insert k v m) = (map_of m)(k \<mapsto> v)"
  by (induction k v m rule: bt_insert.induct) (auto simp: fun_upd_twist)

lemma set_keys_bt_insert [simp]: "fst ` set (bt_insert k v m) = insert k (fst ` set m)"
  by (induction k v m rule: bt_insert.induct) auto

lemma sorted_bt_insert: "sorted_keys m \<Longrightarrow> sorted_keys (bt_insert k v m)"
proof (induction k v m rule: bt_insert.induct)
  case (2 k v k' v' m)
  have *: "\<forall>x \<in> set (map fst (bt_insert k v m)). x = k \<or> x \<in> set (map fst m)"
    using set_keys_bt_insert [of k v m] by (metis image_set insertE)
  show ?case
    using 2 * by (auto simp del: set_map list.set_map)
qed auto

lemma map_of_bt_remove [simp]: "map_of (bt_remove k m) = (map_of m)(k := None)"
  by (induction m) (auto simp: bt_remove_def)

lemma sorted_bt_remove: "sorted_keys m \<Longrightarrow> sorted_keys (bt_remove k m)"
  by (induction m) (auto simp: bt_remove_def)

lemma sorted_keys_distinct: "sorted_keys m \<Longrightarrow> distinct (map fst m)"
  by (simp add: strict_sorted_iff)

lemma distinct_keys_rebuild:
  "distinct (map fst m) \<Longrightarrow> m = map (\<lambda>k. (k, the (map_of m k))) (map fst m)"
proof (induction m)
  case (Cons e m)
  obtain k v where e: "e = (k, v)" by (cases e)
  have "map (\<lambda>k'. (k', the (map_of (e # m) k'))) (map fst m) = map (\<lambda>k'. (k', the (map_of m k'))) (map fst m)"
    using Cons.prems e by (intro map_cong) auto
  with Cons show ?case by (simp add: e)
qed simp

lemma sorted_keys_unique:
  assumes "sorted_keys m" and "sorted_keys m'" and "map_of m = map_of m'"
  shows "m = m'"
proof -
  have "set (map fst m) = set (map fst m')"
    using assms(3) by (metis dom_map_of_conv_image_fst image_set)
  then have "map fst m = map fst m'"
    using assms(1,2) by (metis strict_sorted_equal)
  then show ?thesis
    using distinct_keys_rebuild [OF sorted_keys_distinct [OF assms(1)]]
      distinct_keys_rebuild [OF sorted_keys_distinct [OF assms(2)]] assms(3)
    by metis
qed

end
