(* ===== verification/Node.thy ===== *)
theory Node
  imports Eth
begin

text \<open>
  Record nodes of \<^verbatim>\<open>src/lib.rs\<close>: node references and their RLP rules
  (\<^verbatim>\<open>NodeRef\<close>, \<^verbatim>\<open>mk_ref\<close>, \<^verbatim>\<open>leaf_ref\<close>, \<^verbatim>\<open>ext_ref\<close>,
  \<^verbatim>\<open>branch_ref\<close>), the \<^verbatim>\<open>Node\<close> tree with its cached references, the
  constructors that compute them, and the byte sizes of the flat-file format.
\<close>

section \<open>Node references\<close>

datatype node_ref = NHash bytes | NInline bytes

fun embed :: "prims \<Rightarrow> node_ref \<Rightarrow> bytes" where
  "embed P (NHash h) = rlp_string P h"
| "embed P (NInline rlp) = rlp"

fun finalize :: "prims \<Rightarrow> node_ref \<Rightarrow> bytes" where
  "finalize P (NHash h) = h"
| "finalize P (NInline rlp) = keccak256 P rlp"

definition mk_ref :: "prims \<Rightarrow> bytes \<Rightarrow> node_ref" where
  "mk_ref P rlp = (if length rlp < 32 then NInline rlp else NHash (keccak256 P rlp))"

definition empty_hash :: "prims \<Rightarrow> bytes" where
  "empty_hash P = keccak256 P (rlp_string P [])"

definition ext_ref :: "prims \<Rightarrow> nibs \<Rightarrow> node_ref \<Rightarrow> node_ref" where
  "ext_ref P path child =
     mk_ref P (rlp_list P [rlp_string P (hex_prefix path False), embed P child])"

definition leaf_ref :: "prims \<Rightarrow> nibs \<Rightarrow> bytes \<Rightarrow> node_ref" where
  "leaf_ref P path value =
     mk_ref P (rlp_list P [rlp_string P (hex_prefix path True), rlp_string P value])"

definition has_bit :: "u16 \<Rightarrow> nat \<Rightarrow> bool" where
  "has_bit bitmap i = (bitmap AND push_bit i 1 \<noteq> 0)"

fun branch_items :: "prims \<Rightarrow> u16 \<Rightarrow> nat list \<Rightarrow> node_ref list \<Rightarrow> bytes list res" where
  "branch_items P bitmap [] refs = Ok []"
| "branch_items P bitmap (i # is) refs =
     (if has_bit bitmap i then
        (case refs of
           [] \<Rightarrow> Err (Panic ''bitmap/child-ref count mismatch'')
         | ch # refs' \<Rightarrow> res_map (Cons (embed P ch)) (branch_items P bitmap is refs'))
      else res_map (Cons (rlp_string P [])) (branch_items P bitmap is refs))"

definition branch_ref :: "prims \<Rightarrow> u16 \<Rightarrow> node_ref list \<Rightarrow> node_ref res" where
  "branch_ref P bitmap child_refs =
     res_map (\<lambda>items. mk_ref P (rlp_list P (items @ [rlp_string P []])))
       (branch_items P bitmap [0..<16] child_refs)"

definition branch_bitmap :: "bool list \<Rightarrow> u16" where
  "branch_bitmap present =
     foldl (\<lambda>bm (i, p). if p then bm OR push_bit i 1 else bm) 0 (enumerate 0 present)"

definition count_ones :: "u16 \<Rightarrow> nat" where
  "count_ones w = length (filter (has_bit w) [0..<16])"

section \<open>Record nodes\<close>

record disk_ptr =
  dp_unit :: u32
  dp_len :: u32

text \<open>
  Children are a list of 16 slots. \<open>Raw buf off len nref\<close> is a still-serialized
  subtree: the slice \<open>[off, off + len)\<close> of a shared record buffer.
\<close>

datatype node =
    Empty
  | Leaf nibs bytes node_ref
  | Extension nibs node node_ref
  | Branch "node option list" node_ref
  | Overflow disk_ptr bytes
  | Raw bytes nat nat node_ref
  | Account nibs u64 u256 bytes node bytes node_ref

record disk_subtree =
  ds_prefix :: nibs
  ds_node :: node

fun hash_node :: "prims \<Rightarrow> node \<Rightarrow> node_ref" where
  "hash_node P Empty = NHash (empty_hash P)"
| "hash_node P (Leaf path value nref) = nref"
| "hash_node P (Extension path child nref) = nref"
| "hash_node P (Branch children nref) = nref"
| "hash_node P (Account path nonce balance code_hash storage storage_root nref) = nref"
| "hash_node P (Overflow ptr root) = NHash root"
| "hash_node P (Raw buf off len nref) = nref"

definition leaf_node :: "prims \<Rightarrow> nibs \<Rightarrow> bytes \<Rightarrow> node" where
  "leaf_node P path value = Leaf path value (leaf_ref P path value)"

definition account_node :: "prims \<Rightarrow> nibs \<Rightarrow> u64 \<Rightarrow> u256 \<Rightarrow> bytes \<Rightarrow> node \<Rightarrow> node" where
  "account_node P path nonce balance code_hash storage =
     (let storage_root = finalize P (hash_node P storage);
          account_rlp = account_rlp P (account_contract nonce balance storage_root code_hash);
          nref = leaf_ref P path account_rlp
      in Account path nonce balance code_hash storage storage_root nref)"

definition make_extension :: "prims \<Rightarrow> nibs \<Rightarrow> node \<Rightarrow> node" where
  "make_extension P path child = Extension path child (ext_ref P path (hash_node P child))"

definition branch_node_ref :: "prims \<Rightarrow> node option list \<Rightarrow> node_ref res" where
  "branch_node_ref P children =
     branch_ref P (branch_bitmap (map (\<lambda>c. c \<noteq> None) children))
       (map (hash_node P) (somes children))"

definition make_branch :: "prims \<Rightarrow> node option list \<Rightarrow> node res" where
  "make_branch P children = res_map (Branch children) (branch_node_ref P children)"

definition empty_box_children :: "node option list" where
  "empty_box_children = replicate 16 None"

definition key_nibbles :: "bytes \<Rightarrow> nibs" where
  "key_nibbles key = concat (map (\<lambda>b. [drop_bit 4 b, b AND 0x0f]) key)"

definition nibble_at :: "bytes \<Rightarrow> nat \<Rightarrow> byte" where
  "nibble_at key i =
     (let b = key ! (i div 2) in if i mod 2 = 0 then drop_bit 4 b else b AND 0x0f)"

section \<open>Sizes of the flat-file format\<close>

definition div_ceil2 :: "nat \<Rightarrow> nat" where
  "div_ceil2 n = (n + 1) div 2"

fun ref_size :: "node_ref \<Rightarrow> nat" where
  "ref_size (NHash h) = 1 + 32"
| "ref_size (NInline rlp) = 1 + (1 + length rlp)"

primrec node_size :: "node \<Rightarrow> nat" where
  "node_size Empty = 1"
| "node_size (Leaf path value nref) =
     1 + (1 + div_ceil2 (length path)) + 4 + length value + ref_size nref"
| "node_size (Extension path child nref) =
     1 + (1 + div_ceil2 (length path)) + ref_size nref + node_size child"
| "node_size (Branch children nref) =
     (let n = length (somes children)
      in 1 + 2 + ref_size nref + n * 4 +
         sum_list (somes (map (map_option node_size) children)))"
| "node_size (Account path nonce balance code_hash storage storage_root nref) =
     1 + (1 + div_ceil2 (length path)) + 8 + 32 + 32 + node_size storage"
| "node_size (Overflow ptr root) = 1 + 4 + 4 + 32"
| "node_size (Raw buf off len nref) = len"

definition record_size :: "nat \<Rightarrow> node \<Rightarrow> nat" where
  "record_size prefix_len nd = (1 + div_ceil2 prefix_len) + node_size nd"

section \<open>Lemmas\<close>

subsection \<open>Bitmaps\<close>

lemma bit_push_one: "bit ((2::u16) ^ i) j = (i = j \<and> j < 16)"
  by (auto simp: bit_exp_iff)

lemma has_bit_bit: "i < 16 \<Longrightarrow> has_bit w i = bit w i"
proof -
  assume i: "i < 16"
  have "(w AND push_bit i 1 \<noteq> 0) = (\<exists>j. bit (w AND push_bit i 1) j)"
    by (metis bit_0_eq bit_eq_iff bot_apply bot_bool_def)
  also have "\<dots> = bit w i"
    using i by (auto simp: bit_and_iff bit_push_one)
  finally show ?thesis by (simp add: has_bit_def)
qed

lemma bitmap_fold_bit:
  "n + length bs \<le> 16 \<Longrightarrow> j < 16 \<Longrightarrow>
   bit (foldl (\<lambda>bm (i, p). if p then bm OR push_bit i 1 else bm) (w::u16) (enumerate n bs)) j
     = (bit w j \<or> (n \<le> j \<and> j < n + length bs \<and> bs ! (j - n)))"
proof (induction bs arbitrary: n w)
  case Nil
  then show ?case by auto
next
  case (Cons b bs)
  have eq: "foldl (\<lambda>bm (i, p). if p then bm OR push_bit i 1 else bm) w (enumerate n (b # bs))
     = foldl (\<lambda>bm (i, p). if p then bm OR push_bit i 1 else bm)
         (if b then w OR push_bit n 1 else w) (enumerate (Suc n) bs)"
    by simp
  show ?case
    unfolding eq using Cons.prems
    by (subst Cons.IH)
      (auto simp: bit_or_iff bit_push_one nth_Cons' le_eq_less_or_eq Suc_diff_Suc split: if_splits)
qed

lemma has_bit_branch_bitmap:
  assumes "length bs = 16" and "i < 16"
  shows "has_bit (branch_bitmap bs) i = bs ! i"
  using assms bitmap_fold_bit [of 0 bs i 0] by (simp add: has_bit_bit branch_bitmap_def)

lemma length_filter_nth: "length (filter (\<lambda>i. P (xs ! i)) [0..<length xs]) = length (filter P xs)"
  by (simp add: length_filter_conv_card cong: conj_cong)

lemma count_ones_bitmap:
  assumes "length cs = 16"
  shows "count_ones (branch_bitmap (map (\<lambda>c. c \<noteq> None) cs)) = length (somes cs)"
proof -
  let ?bs = "map (\<lambda>c. c \<noteq> None) cs"
  have "filter (has_bit (branch_bitmap ?bs)) [0..<16] = filter (\<lambda>i. cs ! i \<noteq> None) [0..<length cs]"
    using assms by (intro filter_cong) (auto simp: has_bit_branch_bitmap)
  then show ?thesis
    using length_filter_nth [of "\<lambda>c. c \<noteq> None" cs] assms by (simp add: count_ones_def length_somes)
qed

end
