(* ===== verification/Codec.thy ===== *)
theory Codec
  imports Node
begin

text \<open>
  The flat-file record format of \<^verbatim>\<open>src/lib.rs\<close>: the writer
  (\<^verbatim>\<open>write_node\<close>, \<^verbatim>\<open>write_nibble_path\<close>, \<^verbatim>\<open>write_ref\<close>,
  \<^verbatim>\<open>serialize_subtree\<close>), the eager reader (\<^verbatim>\<open>CompactReader\<close>) and the
  lazy reader (\<^verbatim>\<open>LazyReader\<close>), which leaves branch children as \<open>Raw\<close>
  slices. A reader's state is the buffer and a position; every reading function
  returns its value with the new position. The node readers recurse with a fuel
  argument (the nesting depth) and are called with the buffer length plus one;
  that this is enough for every written record is part of the round-trip
  lemmas of \<^verbatim>\<open>Repr\<close>.
\<close>

section \<open>Writing\<close>

definition write_nibble_path :: "nibs \<Rightarrow> bytes res" where
  "write_nibble_path path =
     (if 255 < length path then Err (Bail ''nibble path too long'')
      else if \<exists>nibble \<in> set path. 0x0f < nibble then Err (Bail ''invalid nibble path'')
      else Ok (word_of_nat (length path) # pack_pairs path))"

fun write_ref :: "node_ref \<Rightarrow> bytes" where
  "write_ref (NHash h) = 0 # h"
| "write_ref (NInline rlp) = 1 # word_of_nat (length rlp) # rlp"

primrec write_node :: "node \<Rightarrow> bytes res" where
  "write_node Empty = Ok [0]"
| "write_node (Leaf path value nref) =
     res_bind (write_nibble_path path) (\<lambda>p.
       Ok ([1] @ p @ le_bytes 4 (length value) @ value @ write_ref nref))"
| "write_node (Extension path child nref) =
     res_bind (write_nibble_path path) (\<lambda>p.
     res_bind (write_node child) (\<lambda>c.
       Ok ([2] @ p @ write_ref nref @ c)))"
| "write_node (Branch children nref) =
     res_bind (res_mapM (\<lambda>x. x) (somes (map (map_option write_node) children))) (\<lambda>bs.
       Ok ([3] @ le_bytes 2 (unat (branch_bitmap (map (\<lambda>c. c \<noteq> None) children))) @
           write_ref nref @ concat (map (\<lambda>b. le_bytes 4 (length b)) bs) @ concat bs))"
| "write_node (Overflow ptr root) =
     Ok ([4] @ le_bytes 4 (unat (dp_unit ptr)) @ le_bytes 4 (unat (dp_len ptr)) @ root)"
| "write_node (Account path nonce balance code_hash storage storage_root nref) =
     res_bind (write_nibble_path path) (\<lambda>p.
     res_bind (write_node storage) (\<lambda>s.
       Ok ([5] @ p @ le_bytes 8 (unat nonce) @ be_bytes 32 (unat balance) @ code_hash @ s)))"
| "write_node (Raw buf off len nref) =
     (if off + len \<le> length buf then Ok (slice buf off len)
      else Err (Panic ''range end index out of range''))"

definition serialize_subtree :: "disk_subtree \<Rightarrow> (bytes \<times> nat) res" where
  "serialize_subtree subtree =
     (let total = record_size (length (ds_prefix subtree)) (ds_node subtree) in
      res_bind (write_nibble_path (ds_prefix subtree)) (\<lambda>p.
      res_bind (write_node (ds_node subtree)) (\<lambda>n.
        Ok (p @ n, total))))"

section \<open>The eager reader\<close>

definition read_bytes :: "bytes \<Rightarrow> nat \<Rightarrow> nat \<Rightarrow> (bytes \<times> nat) res" where
  "read_bytes buf pos len =
     (if length buf < pos + len then Err (Bail ''truncated compact subtree record'')
      else Ok (slice buf pos len, pos + len))"

definition is_finished :: "bytes \<Rightarrow> nat \<Rightarrow> bool" where
  "is_finished buf pos = (pos = length buf)"

definition read_u8 :: "bytes \<Rightarrow> nat \<Rightarrow> (byte \<times> nat) res" where
  "read_u8 buf pos = res_map (\<lambda>(bs, pos). (hd bs, pos)) (read_bytes buf pos 1)"

definition read_u16 :: "bytes \<Rightarrow> nat \<Rightarrow> (u16 \<times> nat) res" where
  "read_u16 buf pos = res_map (\<lambda>(bs, pos). (word_of_nat (le_val bs), pos)) (read_bytes buf pos 2)"

definition read_u32 :: "bytes \<Rightarrow> nat \<Rightarrow> (u32 \<times> nat) res" where
  "read_u32 buf pos = res_map (\<lambda>(bs, pos). (word_of_nat (le_val bs), pos)) (read_bytes buf pos 4)"

definition read_hash :: "bytes \<Rightarrow> nat \<Rightarrow> (bytes \<times> nat) res" where
  "read_hash buf pos = read_bytes buf pos 32"

fun nibble_loop :: "nat \<Rightarrow> nat \<Rightarrow> nibs \<Rightarrow> bytes \<Rightarrow> nat \<Rightarrow> (nibs \<times> nat) res" where
  "nibble_loop 0 len path buf pos = Ok (path, pos)"
| "nibble_loop (Suc k) len path buf pos =
     res_bind (read_u8 buf pos) (\<lambda>(b, pos).
       (let path = path @ [drop_bit 4 b];
            path = (if length path < len then path @ [b AND 0x0f] else path)
        in nibble_loop k len path buf pos))"

definition read_nibble_path :: "bytes \<Rightarrow> nat \<Rightarrow> (nibs \<times> nat) res" where
  "read_nibble_path buf pos =
     res_bind (read_u8 buf pos) (\<lambda>(l, pos).
       (let len = unat l in
        if 128 < len then Err (Bail ''compact subtree nibble path too long'')
        else nibble_loop (div_ceil2 len) len [] buf pos))"

definition skip_nibble_path :: "bytes \<Rightarrow> nat \<Rightarrow> nat res" where
  "skip_nibble_path buf pos =
     res_bind (read_u8 buf pos) (\<lambda>(l, pos).
       (let len = unat l in
        if 128 < len then Err (Bail ''compact subtree nibble path too long'')
        else res_map snd (read_bytes buf pos (div_ceil2 len))))"

definition read_ref :: "bytes \<Rightarrow> nat \<Rightarrow> (node_ref \<times> nat) res" where
  "read_ref buf pos =
     res_bind (read_u8 buf pos) (\<lambda>(t, pos).
       if t = 0 then res_map (\<lambda>(h, pos). (NHash h, pos)) (read_hash buf pos)
       else if t = 1 then
         res_bind (read_u8 buf pos) (\<lambda>(l, pos).
           res_map (\<lambda>(bs, pos). (NInline bs, pos)) (read_bytes buf pos (unat l)))
       else Err (Bail ''invalid node-ref tag''))"

text \<open>The 16-slot loop of the branch case, over the slot indices still to visit.\<close>

fun read_slots :: "(nat \<Rightarrow> (node \<times> nat) res) \<Rightarrow> u16 \<Rightarrow> nat list \<Rightarrow> nat \<Rightarrow> (node option list \<times> nat) res" where
  "read_slots rd bitmap [] pos = Ok ([], pos)"
| "read_slots rd bitmap (i # is) pos =
     (if has_bit bitmap i then
        res_bind (rd pos) (\<lambda>(n, pos).
          res_map (\<lambda>(cs, pos). (Some n # cs, pos)) (read_slots rd bitmap is pos))
      else res_map (\<lambda>(cs, pos). (None # cs, pos)) (read_slots rd bitmap is pos))"

primrec read_node :: "prims \<Rightarrow> nat \<Rightarrow> bytes \<Rightarrow> nat \<Rightarrow> (node \<times> nat) res" where
  "read_node P 0 buf pos = Err NoFuel"
| "read_node P (Suc fuel) buf pos =
     res_bind (read_u8 buf pos) (\<lambda>(tag, pos).
       if tag = 0 then Ok (Empty, pos)
       else if tag = 1 then
         res_bind (read_nibble_path buf pos) (\<lambda>(path, pos).
         res_bind (read_u32 buf pos) (\<lambda>(vlen, pos).
         res_bind (read_bytes buf pos (unat vlen)) (\<lambda>(val, pos).
         res_bind (read_ref buf pos) (\<lambda>(nref, pos).
           Ok (Leaf path val nref, pos)))))
       else if tag = 2 then
         res_bind (read_nibble_path buf pos) (\<lambda>(path, pos).
         res_bind (read_ref buf pos) (\<lambda>(nref, pos).
         res_bind (read_node P fuel buf pos) (\<lambda>(child, pos).
           Ok (Extension path child nref, pos))))
       else if tag = 3 then
         res_bind (read_u16 buf pos) (\<lambda>(bitmap, pos).
         res_bind (read_ref buf pos) (\<lambda>(nref, pos).
         res_bind (read_bytes buf pos (count_ones bitmap * 4)) (\<lambda>(_, pos).
         res_bind (read_slots (read_node P fuel buf) bitmap [0..<16] pos) (\<lambda>(children, pos).
           Ok (Branch children nref, pos)))))
       else if tag = 4 then
         res_bind (read_u32 buf pos) (\<lambda>(unit, pos).
         res_bind (read_u32 buf pos) (\<lambda>(len, pos).
         res_bind (read_hash buf pos) (\<lambda>(root, pos).
           Ok (Overflow \<lparr>dp_unit = unit, dp_len = len\<rparr> root, pos))))
       else if tag = 5 then
         res_bind (read_nibble_path buf pos) (\<lambda>(path, pos).
         res_bind (read_bytes buf pos 8) (\<lambda>(nonce, pos).
         res_bind (read_bytes buf pos 32) (\<lambda>(balance, pos).
         res_bind (read_bytes buf pos 32) (\<lambda>(code_hash, pos).
         res_bind (read_node P fuel buf pos) (\<lambda>(storage, pos).
           Ok (account_node P path (word_of_nat (le_val nonce)) (word_of_nat (be_val balance))
                 code_hash storage, pos))))))
       else Err (Bail ''invalid compact subtree node tag''))"

definition deserialize_subtree :: "prims \<Rightarrow> bytes \<Rightarrow> disk_subtree res" where
  "deserialize_subtree P payload =
     res_bind (read_nibble_path payload 0) (\<lambda>(prefix, pos).
     res_bind (read_node P (Suc (length payload)) payload pos) (\<lambda>(nd, pos).
       if \<not> is_finished payload pos then Err (Bail ''trailing bytes in flat-file record'')
       else Ok \<lparr>ds_prefix = prefix, ds_node = nd\<rparr>))"

definition parse_prefix :: "bytes \<Rightarrow> nibs res" where
  "parse_prefix payload = res_map fst (read_nibble_path payload 0)"

definition extract_ref :: "prims \<Rightarrow> bytes \<Rightarrow> node_ref res" where
  "extract_ref P bytes =
     res_bind (read_u8 bytes 0) (\<lambda>(tag, pos).
       if tag = 0 then Ok (NHash (empty_hash P))
       else if tag = 1 then
         res_bind (skip_nibble_path bytes pos) (\<lambda>pos.
         res_bind (read_u32 bytes pos) (\<lambda>(vlen, pos).
         res_bind (read_bytes bytes pos (unat vlen)) (\<lambda>(_, pos).
           res_map fst (read_ref bytes pos))))
       else if tag = 2 then
         res_bind (skip_nibble_path bytes pos) (\<lambda>pos. res_map fst (read_ref bytes pos))
       else if tag = 3 then
         res_bind (read_u16 bytes pos) (\<lambda>(_, pos). res_map fst (read_ref bytes pos))
       else if tag = 4 then
         res_bind (read_bytes bytes pos (4 + 4)) (\<lambda>(_, pos).
           res_map (\<lambda>(h, pos). NHash h) (read_hash bytes pos))
       else Err (Bail ''invalid compact subtree node tag''))"

section \<open>The lazy reader\<close>

definition lz_take :: "bytes \<Rightarrow> nat \<Rightarrow> nat \<Rightarrow> (bytes \<times> nat) res" where
  "lz_take buf pos len =
     (if length buf < pos + len then Err (Bail ''truncated compact subtree record'')
      else Ok (slice buf pos len, pos + len))"

definition lz_u8 :: "bytes \<Rightarrow> nat \<Rightarrow> (byte \<times> nat) res" where
  "lz_u8 buf pos = res_map (\<lambda>(bs, pos). (hd bs, pos)) (lz_take buf pos 1)"

definition peek_u8 :: "bytes \<Rightarrow> nat \<Rightarrow> byte res" where
  "peek_u8 buf pos =
     (if pos < length buf then Ok (buf ! pos)
      else Err (Bail ''truncated compact subtree record''))"

definition lz_u16 :: "bytes \<Rightarrow> nat \<Rightarrow> (u16 \<times> nat) res" where
  "lz_u16 buf pos = res_map (\<lambda>(bs, pos). (word_of_nat (le_val bs), pos)) (lz_take buf pos 2)"

definition lz_u32 :: "bytes \<Rightarrow> nat \<Rightarrow> (u32 \<times> nat) res" where
  "lz_u32 buf pos = res_map (\<lambda>(bs, pos). (word_of_nat (le_val bs), pos)) (lz_take buf pos 4)"

definition lz_hash :: "bytes \<Rightarrow> nat \<Rightarrow> (bytes \<times> nat) res" where
  "lz_hash buf pos = lz_take buf pos 32"

definition lz_nibble_path :: "bytes \<Rightarrow> nat \<Rightarrow> (nibs \<times> nat) res" where
  "lz_nibble_path buf pos =
     res_bind (lz_u8 buf pos) (\<lambda>(l, pos).
       (let len = unat l in
        if 128 < len then Err (Bail ''compact subtree nibble path too long'')
        else nibble_loop (div_ceil2 len) len [] buf pos))"

definition lz_node_ref :: "bytes \<Rightarrow> nat \<Rightarrow> (node_ref \<times> nat) res" where
  "lz_node_ref buf pos =
     res_bind (lz_u8 buf pos) (\<lambda>(t, pos).
       if t = 0 then res_map (\<lambda>(h, pos). (NHash h, pos)) (lz_hash buf pos)
       else if t = 1 then
         res_bind (lz_u8 buf pos) (\<lambda>(l, pos).
           res_map (\<lambda>(bs, pos). (NInline bs, pos)) (lz_take buf pos (unat l)))
       else Err (Bail ''invalid node-ref tag''))"

fun lz_lens :: "nat \<Rightarrow> bytes \<Rightarrow> nat \<Rightarrow> (nat list \<times> nat) res" where
  "lz_lens 0 buf pos = Ok ([], pos)"
| "lz_lens (Suc n) buf pos =
     res_bind (lz_u32 buf pos) (\<lambda>(l, pos).
       res_map (\<lambda>(ls, pos). (unat l # ls, pos)) (lz_lens n buf pos))"

text \<open>
  One slot per index: subtrees with tag 1, 2 or 3 stay \<open>Raw\<close> and are jumped over
  by the length table; the others are parsed. \<open>lens\<close> is the rest of the table.
\<close>

fun lz_slots :: "prims \<Rightarrow> (nat \<Rightarrow> (node \<times> nat) res) \<Rightarrow> bytes \<Rightarrow> u16 \<Rightarrow> nat list \<Rightarrow> nat list \<Rightarrow> nat
    \<Rightarrow> (node option list \<times> nat) res" where
  "lz_slots P rd buf bitmap [] lens pos = Ok ([], pos)"
| "lz_slots P rd buf bitmap (i # is) lens pos =
     (if \<not> has_bit bitmap i then
        res_map (\<lambda>(cs, pos). (None # cs, pos)) (lz_slots P rd buf bitmap is lens pos)
      else (let len = (case lens of [] \<Rightarrow> 0 | l # _ \<Rightarrow> l); lens = tl lens in
        res_bind (peek_u8 buf pos) (\<lambda>tag.
          if tag = 1 \<or> tag = 2 \<or> tag = 3 then
            (if length buf < pos + len then Err (Panic ''range end index out of range'')
             else res_bind (extract_ref P (slice buf pos len)) (\<lambda>nref.
               res_map (\<lambda>(cs, pos'). (Some (Raw buf pos len nref) # cs, pos'))
                 (lz_slots P rd buf bitmap is lens (pos + len))))
          else res_bind (rd pos) (\<lambda>(n, pos).
            res_map (\<lambda>(cs, pos). (Some n # cs, pos)) (lz_slots P rd buf bitmap is lens pos)))))"

primrec lz_node :: "prims \<Rightarrow> nat \<Rightarrow> bytes \<Rightarrow> nat \<Rightarrow> (node \<times> nat) res" where
  "lz_node P 0 buf pos = Err NoFuel"
| "lz_node P (Suc fuel) buf pos =
     res_bind (lz_u8 buf pos) (\<lambda>(tag, pos).
       if tag = 0 then Ok (Empty, pos)
       else if tag = 1 then
         res_bind (lz_nibble_path buf pos) (\<lambda>(path, pos).
         res_bind (lz_u32 buf pos) (\<lambda>(vlen, pos).
         res_bind (lz_take buf pos (unat vlen)) (\<lambda>(val, pos).
         res_bind (lz_node_ref buf pos) (\<lambda>(nref, pos).
           Ok (Leaf path val nref, pos)))))
       else if tag = 2 then
         res_bind (lz_nibble_path buf pos) (\<lambda>(path, pos).
         res_bind (lz_node_ref buf pos) (\<lambda>(nref, pos).
         res_bind (lz_node P fuel buf pos) (\<lambda>(child, pos).
           Ok (Extension path child nref, pos))))
       else if tag = 3 then
         res_bind (lz_u16 buf pos) (\<lambda>(bitmap, pos).
         res_bind (lz_node_ref buf pos) (\<lambda>(nref, pos).
         res_bind (lz_lens (count_ones bitmap) buf pos) (\<lambda>(lens, pos).
         res_bind (lz_slots P (lz_node P fuel buf) buf bitmap [0..<16] lens pos) (\<lambda>(children, pos).
           Ok (Branch children nref, pos)))))
       else if tag = 4 then
         res_bind (lz_u32 buf pos) (\<lambda>(unit, pos).
         res_bind (lz_u32 buf pos) (\<lambda>(len, pos).
         res_bind (lz_hash buf pos) (\<lambda>(root, pos).
           Ok (Overflow \<lparr>dp_unit = unit, dp_len = len\<rparr> root, pos))))
       else if tag = 5 then
         res_bind (lz_nibble_path buf pos) (\<lambda>(path, pos).
         res_bind (lz_take buf pos 8) (\<lambda>(nonce, pos).
         res_bind (lz_take buf pos 32) (\<lambda>(balance, pos).
         res_bind (lz_take buf pos 32) (\<lambda>(code_hash, pos).
         res_bind (lz_node P fuel buf pos) (\<lambda>(storage, pos).
           Ok (account_node P path (word_of_nat (le_val nonce)) (word_of_nat (be_val balance))
                 code_hash storage, pos))))))
       else Err (Bail ''invalid compact subtree node tag''))"

definition parse_node_lazy :: "prims \<Rightarrow> bytes \<Rightarrow> nat \<Rightarrow> nat \<Rightarrow> node res" where
  "parse_node_lazy P buf off len =
     res_bind (lz_node P (Suc (length buf)) buf off) (\<lambda>(nd, pos).
       if pos \<noteq> off + len then Err (Bail ''trailing bytes in raw node'') else Ok nd)"

definition deserialize_subtree_lazy :: "prims \<Rightarrow> bytes \<Rightarrow> disk_subtree res" where
  "deserialize_subtree_lazy P buf =
     res_bind (lz_nibble_path buf 0) (\<lambda>(prefix, pos).
     res_bind (lz_node P (Suc (length buf)) buf pos) (\<lambda>(nd, pos).
       if pos \<noteq> length buf then Err (Bail ''trailing bytes in flat-file record'')
       else Ok \<lparr>ds_prefix = prefix, ds_node = nd\<rparr>))"

definition deserialize_subtree_lazy_at :: "prims \<Rightarrow> bytes \<Rightarrow> nat \<Rightarrow> nat \<Rightarrow> disk_subtree res" where
  "deserialize_subtree_lazy_at P buf off len =
     (if length buf < off + len then Err (Bail ''span record out of range'')
      else
        res_bind (lz_nibble_path buf off) (\<lambda>(prefix, pos).
        res_bind (lz_node P (Suc (length buf)) buf pos) (\<lambda>(nd, pos).
          if pos \<noteq> off + len then Err (Bail ''trailing bytes in span record'')
          else Ok \<lparr>ds_prefix = prefix, ds_node = nd\<rparr>)))"

text \<open>\<^verbatim>\<open>parse_payload_lazy\<close> is the lazy reader on a RAM-resident payload.\<close>

definition parse_payload_lazy :: "prims \<Rightarrow> bytes \<Rightarrow> disk_subtree res" where
  "parse_payload_lazy P bs = deserialize_subtree_lazy P bs"

section \<open>The two readers share their primitives\<close>

lemma lz_prims [simp]:
  "lz_take = read_bytes" "lz_u8 = read_u8" "lz_u16 = read_u16" "lz_u32 = read_u32"
  "lz_hash = read_hash" "lz_nibble_path = read_nibble_path" "lz_node_ref = read_ref"
proof -
  show t: "lz_take = read_bytes"
    by (simp add: fun_eq_iff lz_take_def read_bytes_def)
  then show u8: "lz_u8 = read_u8" "lz_u16 = read_u16" "lz_u32 = read_u32" and h: "lz_hash = read_hash"
    by (simp_all add: fun_eq_iff lz_u8_def read_u8_def lz_u16_def read_u16_def lz_u32_def
        read_u32_def lz_hash_def read_hash_def)
  then show "lz_nibble_path = read_nibble_path" "lz_node_ref = read_ref"
    unfolding lz_nibble_path_def read_nibble_path_def lz_node_ref_def read_ref_def fun_eq_iff t u8 h
    by simp_all
qed

section \<open>Reading what stands at a position\<close>

lemma read_bytes_at [codec]:
  "has_at buf pos xs \<Longrightarrow> n = length xs \<Longrightarrow> read_bytes buf pos n = Ok (xs, pos + n)"
  by (simp add: read_bytes_def has_at_def)

lemma read_u8_at [codec]: "has_at buf pos [b] \<Longrightarrow> read_u8 buf pos = Ok (b, Suc pos)"
  by (simp add: read_u8_def read_bytes_at)

lemma read_u16_at [codec]:
  "has_at buf pos (le_bytes 2 (unat w)) \<Longrightarrow> read_u16 buf pos = Ok (w, pos + 2)"
  using unsigned_less [of w, where ?'a = nat] by (simp add: read_u16_def read_bytes_at codec)

lemma read_u32_at [codec]:
  "has_at buf pos (le_bytes 4 n) \<Longrightarrow> n < 2 ^ 32 \<Longrightarrow> read_u32 buf pos = Ok (word_of_nat n, pos + 4)"
  by (simp add: read_u32_def read_bytes_at codec)

lemma peek_u8_at: "has_at buf pos (b # xs) \<Longrightarrow> peek_u8 buf pos = Ok b"
  unfolding peek_u8_def has_at_def slice_def
  by (cases "drop pos buf") (auto simp: nth_via_drop)

lemma unat_word32: "n < 2 ^ 32 \<Longrightarrow> unat (word_of_nat n :: u32) = n"
  by (simp add: unat_of_nat)

subsection \<open>Nibble paths\<close>

lemma length_pack_pairs: "length (pack_pairs p) = div_ceil2 (length p)"
  by (induction p rule: pack_pairs.induct) (auto simp: div_ceil2_def)

lemma nibble_high_bits: "(a :: byte) < 16 \<Longrightarrow> 4 \<le> n \<Longrightarrow> \<not> bit a n"
proof -
  assume "a < 16" and n: "4 \<le> n"
  then have "unat (take_bit 4 a) = unat a"
    by (simp add: unsigned_take_bit_eq take_bit_nat_eq_self word_less_nat_alt)
  then have "take_bit 4 a = a" by (simp only: word_unat_eq_iff)
  then show ?thesis using n by (metis bit_take_bit_iff not_less)
qed

lemma unpack_high: "(a :: byte) < 16 \<Longrightarrow> b < 16 \<Longrightarrow> drop_bit 4 (push_bit 4 a OR b) = a"
  by (rule bit_word_eqI)
    (use nibble_high_bits not_less in \<open>auto simp: bit_drop_bit_eq bit_or_iff bit_push_bit_iff\<close>, blast)

lemma unpack_low: "(a :: byte) < 16 \<Longrightarrow> b < 16 \<Longrightarrow> (push_bit 4 a OR b) AND 0x0f = b"
proof -
  assume "a < 16" and b: "b < 16"
  have "(push_bit 4 a OR b) AND mask 4 = b"
    by (rule bit_word_eqI)
      (use nibble_high_bits [OF b] in
        \<open>force simp: bit_and_iff bit_or_iff bit_push_bit_iff bit_mask_iff not_le\<close>)
  then show ?thesis by (simp add: mask_eq_exp_minus_1)
qed

lemma unpack_lone: "(a :: byte) < 16 \<Longrightarrow> drop_bit 4 (push_bit 4 a) = a"
  using unpack_high [of a 0] by simp

lemma drop_nibble: "(b :: byte) < 16 \<Longrightarrow> drop_bit 4 b = 0"
  using unpack_high [of 0 b] by simp

lemma nibble_loop_at:
  assumes "has_at buf pos (pack_pairs p)" and "\<forall>x \<in> set p. x < 16"
  shows "nibble_loop (length (pack_pairs p)) (length acc + length p) acc buf pos =
    Ok (acc @ p, pos + length (pack_pairs p))"
  using assms
proof (induction p arbitrary: acc pos rule: pack_pairs.induct)
  case (2 a)
  then show ?case by (simp add: read_u8_at unpack_lone)
next
  case (3 a b rest)
  from 3(2) have h: "has_at buf pos [push_bit 4 a OR b]" "has_at buf (Suc pos) (pack_pairs rest)"
    using has_at_ConsD [of buf pos "push_bit 4 a OR b" "pack_pairs rest"] by simp_all
  have "nibble_loop (length (pack_pairs rest)) (length (acc @ [a, b]) + length rest) (acc @ [a, b]) buf (Suc pos)
      = Ok ((acc @ [a, b]) @ rest, Suc pos + length (pack_pairs rest))"
    using h 3(3) by (intro 3(1)) auto
  then show ?case using h 3(3) by (simp add: read_u8_at unpack_lone drop_nibble unpack_low)
qed simp

lemma read_nibble_path_at [codec]:
  assumes "has_at buf pos (word_of_nat (length p) # pack_pairs p)"
    and "\<forall>x \<in> set p. x < 16" and "length p \<le> 128"
  shows "read_nibble_path buf pos = Ok (p, Suc pos + div_ceil2 (length p))"
proof -
  have h: "has_at buf pos [word_of_nat (length p)]" "has_at buf (Suc pos) (pack_pairs p)"
    using has_at_ConsD [OF assms(1)] .
  moreover have "unat (word_of_nat (length p) :: byte) = length p"
    using assms(3) by (simp add: unat_byte_of_nat)
  ultimately show ?thesis
    using nibble_loop_at [of buf "Suc pos" p "[]"] assms(2,3)
    by (simp add: read_nibble_path_def read_u8_at length_pack_pairs)
qed

lemma skip_nibble_path_at [codec]:
  assumes "has_at buf pos (word_of_nat (length p) # pack_pairs p)" and "length p \<le> 128"
  shows "skip_nibble_path buf pos = Ok (Suc pos + div_ceil2 (length p))"
proof -
  have h: "has_at buf pos [word_of_nat (length p)]" "has_at buf (Suc pos) (pack_pairs p)"
    using has_at_ConsD [OF assms(1)] .
  moreover have "unat (word_of_nat (length p) :: byte) = length p"
    using assms(2) by (simp add: unat_byte_of_nat)
  ultimately show ?thesis
    using assms(2) by (simp add: skip_nibble_path_def read_u8_at read_bytes_at length_pack_pairs)
qed

subsection \<open>References\<close>

fun ref_ok :: "node_ref \<Rightarrow> bool" where
  "ref_ok (NHash h) = (length h = 32)"
| "ref_ok (NInline rlp) = (length rlp < 32)"

lemma read_ref_at [codec]:
  assumes "has_at buf pos (write_ref r)" and "ref_ok r"
  shows "read_ref buf pos = Ok (r, pos + length (write_ref r))"
proof (cases r)
  case (NHash h)
  then have h: "has_at buf pos [0]" "has_at buf (Suc pos) h" "length h = 32"
    using assms has_at_ConsD [of buf pos 0 h] by auto
  then show ?thesis using NHash
    by (simp add: read_ref_def read_hash_def read_u8_at read_bytes_at)
next
  case (NInline x)
  then have h: "has_at buf pos [1]" "has_at buf (Suc pos) [word_of_nat (length x)]"
      "has_at buf (Suc (Suc pos)) x" "length x < 32"
    using assms has_at_ConsD [of buf pos 1 "word_of_nat (length x) # x"]
      has_at_ConsD [of buf "Suc pos" "word_of_nat (length x)" x] by auto
  moreover have "unat (word_of_nat (length x) :: byte) = length x"
    using h by (simp add: unat_byte_of_nat)
  ultimately show ?thesis using NInline
    by (simp add: read_ref_def read_u8_at read_bytes_at)
qed

lemma length_write_ref: "ref_ok r \<Longrightarrow> length (write_ref r) = ref_size r"
  by (cases r) auto

end
