(* ===== verification/Trie.thy ===== *)
theory Trie
  imports Node
begin

text \<open>
  The abstract specification of a record: a Merkle Patricia trie without cached
  references, lazily parsed slices or byte layout. Its meaning is a map from
  nibble paths to leaves (\<open>tlook\<close>) and, equivalently, the sorted list of its
  entries; its reference (\<open>tref\<close>) is shown to be what the reference builder of
  \<^verbatim>\<open>src/eth.rs\<close> computes from those entries.
\<close>

section \<open>Tries and their references\<close>

datatype trie =
    TEmpty
  | TLeaf nibs bytes
  | TExt nibs trie
  | TBranch "trie option list"
  | TAcct nibs u64 u256 bytes trie

definition acct_value :: "prims \<Rightarrow> u64 \<Rightarrow> u256 \<Rightarrow> bytes \<Rightarrow> bytes \<Rightarrow> bytes" where
  "acct_value P nonce balance code_hash storage_root =
     account_rlp P (account_contract nonce balance storage_root code_hash)"

text \<open>One item per slot of a branch: the embedded child reference or the empty string.\<close>

definition slot_items :: "prims \<Rightarrow> node_ref option list \<Rightarrow> bytes list" where
  "slot_items P refs = map (\<lambda>r. case r of None \<Rightarrow> rlp_string P [] | Some r \<Rightarrow> embed P r) refs"

primrec tref :: "prims \<Rightarrow> trie \<Rightarrow> node_ref" where
  "tref P TEmpty = NHash (empty_hash P)"
| "tref P (TLeaf p v) = leaf_ref P p v"
| "tref P (TExt p t) = ext_ref P p (tref P t)"
| "tref P (TBranch ts) =
     mk_ref P (rlp_list P (slot_items P (map (map_option (tref P)) ts) @ [rlp_string P []]))"
| "tref P (TAcct p n b c s) = leaf_ref P p (acct_value P n b c (finalize P (tref P s)))"

definition troot :: "prims \<Rightarrow> trie \<Rightarrow> bytes" where
  "troot P t = finalize P (tref P t)"

text \<open>The RLP whose reference \<open>tref\<close> is (defined for non-empty tries).\<close>

primrec trlp :: "prims \<Rightarrow> trie \<Rightarrow> bytes" where
  "trlp P TEmpty = rlp_string P []"
| "trlp P (TLeaf p v) = rlp_list P [rlp_string P (hex_prefix p True), rlp_string P v]"
| "trlp P (TExt p t) =
     rlp_list P [rlp_string P (hex_prefix p False), embed P (tref P t)]"
| "trlp P (TBranch ts) =
     rlp_list P (slot_items P (map (map_option (tref P)) ts) @ [rlp_string P []])"
| "trlp P (TAcct p n b c s) =
     rlp_list P [rlp_string P (hex_prefix p True),
                 rlp_string P (acct_value P n b c (finalize P (tref P s)))]"

section \<open>Canonical form\<close>

definition nibs_ok :: "nibs \<Rightarrow> bool" where
  "nibs_ok p = (\<forall>x \<in> set p. x < 16)"

fun is_branch :: "trie \<Rightarrow> bool" where
  "is_branch (TBranch ts) = True"
| "is_branch _ = False"

text \<open>Storage tries hold value leaves only.\<close>

primrec val_only :: "trie \<Rightarrow> bool" where
  "val_only TEmpty = True"
| "val_only (TLeaf p v) = True"
| "val_only (TExt p t) = val_only t"
| "val_only (TBranch ts) = list_all (pred_option val_only) ts"
| "val_only (TAcct p n b c s) = False"

text \<open>
  \<open>wf t r\<close>: \<open>t\<close> is a non-empty canonical trie all of whose keys have \<open>r\<close> more
  nibbles: leaves hold the whole rest of the key, extensions are non-empty and
  sit on a branch, branches have 16 slots and at least two children.
\<close>

primrec wf :: "trie \<Rightarrow> nat \<Rightarrow> bool" where
  "wf TEmpty = (\<lambda>r. False)"
| "wf (TLeaf p v) = (\<lambda>r. length p = r \<and> nibs_ok p)"
| "wf (TExt p t) = (\<lambda>r. p \<noteq> [] \<and> nibs_ok p \<and> length p < r \<and> is_branch t \<and> wf t (r - length p))"
| "wf (TBranch ts) = (\<lambda>r. length ts = 16 \<and> 0 < r \<and> 2 \<le> length (somes ts) \<and>
     list_all (pred_option (\<lambda>w. w (r - 1))) (map (map_option wf) ts))"
| "wf (TAcct p n b c s) = (\<lambda>r. length p = r \<and> nibs_ok p \<and> length c = 32 \<and>
     (s = TEmpty \<or> (wf s 64 \<and> val_only s)))"

definition wf0 :: "trie \<Rightarrow> nat \<Rightarrow> bool" where
  "wf0 t r = (t = TEmpty \<or> wf t r)"

lemma wf_TBranch [simp]:
  "wf (TBranch ts) r =
     (length ts = 16 \<and> 0 < r \<and> 2 \<le> length (somes ts) \<and> (\<forall>t. Some t \<in> set ts \<longrightarrow> wf t (r - 1)))"
proof -
  have "list_all (pred_option (\<lambda>w. w (r - 1))) (map (map_option wf) ts) =
      (\<forall>t. Some t \<in> set ts \<longrightarrow> wf t (r - 1))"
    by (induction ts) (auto split: option.splits simp: option.pred_map comp_def, (metis option.exhaust option.pred_inject)+)
  then show ?thesis by simp
qed

lemma val_only_TBranch [simp]:
  "val_only (TBranch ts) = (\<forall>t. Some t \<in> set ts \<longrightarrow> val_only t)"
  by (auto simp: list_all_iff) (metis option.exhaust option.pred_inject)+

declare wf.simps(4) [simp del] val_only.simps(4) [simp del]

section \<open>Lookup\<close>

datatype leaf = LVal bytes | LAcct u64 u256 bytes trie

primrec tlook :: "trie \<Rightarrow> nibs \<Rightarrow> leaf option" where
  "tlook TEmpty = (\<lambda>k. None)"
| "tlook (TLeaf p v) = (\<lambda>k. if k = p then Some (LVal v) else None)"
| "tlook (TExt p t) =
     (\<lambda>k. if take (length p) k = p then tlook t (drop (length p) k) else None)"
| "tlook (TBranch ts) = (\<lambda>k. case k of [] \<Rightarrow> None
     | x # k' \<Rightarrow> (if unat x < length ts
                 then case map (map_option tlook) ts ! unat x of None \<Rightarrow> None | Some f \<Rightarrow> f k'
                 else None))"
| "tlook (TAcct p n b c s) = (\<lambda>k. if k = p then Some (LAcct n b c s) else None)"

lemma tlook_TBranch_Nil [simp]: "tlook (TBranch ts) [] = None"
  by simp

lemma tlook_TBranch_Cons [simp]:
  "tlook (TBranch ts) (x # k) =
     (if unat x < length ts then case ts ! unat x of None \<Rightarrow> None | Some t \<Rightarrow> tlook t k else None)"
  by (auto split: option.splits)

declare tlook.simps(4) [simp del]

section \<open>Entries\<close>

fun leaf_value :: "prims \<Rightarrow> leaf \<Rightarrow> bytes" where
  "leaf_value P (LVal v) = v"
| "leaf_value P (LAcct n b c s) = acct_value P n b c (troot P s)"

definition pre_entries :: "nibs \<Rightarrow> (nibs \<times> bytes) list \<Rightarrow> (nibs \<times> bytes) list" where
  "pre_entries p es = map (\<lambda>(k, v). (p @ k, v)) es"

definition branch_entries :: "(nibs \<times> bytes) list option list \<Rightarrow> (nibs \<times> bytes) list" where
  "branch_entries es =
     concat (map (\<lambda>(i, e). case e of None \<Rightarrow> [] | Some e \<Rightarrow> pre_entries [word_of_nat i] e)
       (enumerate 0 es))"

primrec entries :: "prims \<Rightarrow> trie \<Rightarrow> (nibs \<times> bytes) list" where
  "entries P TEmpty = []"
| "entries P (TLeaf p v) = [(p, v)]"
| "entries P (TExt p t) = pre_entries p (entries P t)"
| "entries P (TBranch ts) = branch_entries (map (map_option (entries P)) ts)"
| "entries P (TAcct p n b c s) = [(p, acct_value P n b c (troot P s))]"

section \<open>Updates\<close>

fun mk_leaf :: "nibs \<Rightarrow> leaf \<Rightarrow> trie" where
  "mk_leaf p (LVal v) = TLeaf p v"
| "mk_leaf p (LAcct n b c s) = TAcct p n b c s"

definition ext_if :: "nibs \<Rightarrow> trie \<Rightarrow> trie" where
  "ext_if p t = (if p = [] then t else TExt p t)"

text \<open>A branch with exactly the two given children, below the shared path \<open>p\<close>.\<close>

definition fork :: "nibs \<Rightarrow> byte \<Rightarrow> trie \<Rightarrow> byte \<Rightarrow> trie \<Rightarrow> trie" where
  "fork p i t j u =
     ext_if p (TBranch ((replicate 16 None)[unat i := Some t, unat j := Some u]))"

definition leaf_put :: "nibs \<Rightarrow> leaf \<Rightarrow> nibs \<Rightarrow> leaf \<Rightarrow> trie" where
  "leaf_put p old k l =
     (let c = common_prefix p k in
      if c = length p then mk_leaf p l
      else fork (take c p) (p ! c) (mk_leaf (drop (Suc c) p) old)
             (k ! c) (mk_leaf (drop (Suc c) k) l))"

text \<open>Put the leaf \<open>l\<close> at path \<open>k\<close>, keeping the trie canonical.\<close>

primrec tput :: "trie \<Rightarrow> nibs \<Rightarrow> leaf \<Rightarrow> trie" where
  "tput TEmpty = (\<lambda>k l. mk_leaf k l)"
| "tput (TLeaf p v) = (\<lambda>k l. leaf_put p (LVal v) k l)"
| "tput (TAcct p n b ch s) = (\<lambda>k l. leaf_put p (LAcct n b ch s) k l)"
| "tput (TExt p t) = (\<lambda>k l.
     (let c = common_prefix p k in
      if c = length p then TExt p (tput t (drop c k) l)
      else fork (take c p) (p ! c) (ext_if (drop (Suc c) p) t)
             (k ! c) (mk_leaf (drop (Suc c) k) l)))"
| "tput (TBranch ts) = (\<lambda>k l.
     TBranch (ts[unat (hd k) :=
       (case map (map_option tput) ts ! unat (hd k) of
          None \<Rightarrow> Some (mk_leaf (tl k) l)
        | Some f \<Rightarrow> Some (f (tl k) l))]))"

fun tprep :: "nibs \<Rightarrow> trie \<Rightarrow> trie" where
  "tprep e TEmpty = TEmpty"
| "tprep e (TLeaf p v) = TLeaf (e @ p) v"
| "tprep e (TAcct p n b c s) = TAcct (e @ p) n b c s"
| "tprep e (TExt p t) = TExt (e @ p) t"
| "tprep e (TBranch ts) = ext_if e (TBranch ts)"

text \<open>What is left of a branch after a child changed: nothing, its lone survivor one
  level up, or the branch.\<close>

definition collapse :: "trie option list \<Rightarrow> trie" where
  "collapse ts =
     (case filter (\<lambda>i. ts ! i \<noteq> None) [0..<16] of
        [] \<Rightarrow> TEmpty
      | [i] \<Rightarrow> tprep [word_of_nat i] (the (ts ! i))
      | _ \<Rightarrow> TBranch ts)"

definition opt_trie :: "trie \<Rightarrow> trie option" where
  "opt_trie t = (if t = TEmpty then None else Some t)"

text \<open>Remove path \<open>k\<close>, keeping the trie canonical.\<close>

primrec tdel :: "trie \<Rightarrow> nibs \<Rightarrow> trie" where
  "tdel TEmpty = (\<lambda>k. TEmpty)"
| "tdel (TLeaf p v) = (\<lambda>k. if p = k then TEmpty else TLeaf p v)"
| "tdel (TAcct p n b c s) = (\<lambda>k. if p = k then TEmpty else TAcct p n b c s)"
| "tdel (TExt p t) = (\<lambda>k.
     if take (length p) k = p then tprep p (tdel t (drop (length p) k)) else TExt p t)"
| "tdel (TBranch ts) = (\<lambda>k.
     (case map (map_option tdel) ts ! unat (hd k) of
        None \<Rightarrow> TBranch ts
      | Some f \<Rightarrow> collapse (ts[unat (hd k) := opt_trie (f (tl k))])))"

section \<open>Lookup after an update\<close>

lemma tput_TBranch [simp]:
  "unat x < length ts \<Longrightarrow> tput (TBranch ts) (x # k) l =
     TBranch (ts[unat x := Some (case ts ! unat x of None \<Rightarrow> mk_leaf k l | Some t \<Rightarrow> tput t k l)])"
  by (auto split: option.splits)

lemma tdel_TBranch [simp]:
  "unat x < length ts \<Longrightarrow> tdel (TBranch ts) (x # k) =
     (case ts ! unat x of None \<Rightarrow> TBranch ts
      | Some t \<Rightarrow> collapse (ts[unat x := opt_trie (tdel t k)]))"
  by (auto split: option.splits)

declare tput.simps(5) [simp del] tdel.simps(5) [simp del]

lemma nibs_ok_simps [simp]:
  "nibs_ok []" "nibs_ok (x # p) = (x < 16 \<and> nibs_ok p)" "nibs_ok (p @ q) = (nibs_ok p \<and> nibs_ok q)"
  by (auto simp: nibs_ok_def)

lemma nibs_ok_take [intro]: "nibs_ok p \<Longrightarrow> nibs_ok (take n p)"
  by (auto simp: nibs_ok_def dest: in_set_takeD)

lemma nibs_ok_drop [intro]: "nibs_ok p \<Longrightarrow> nibs_ok (drop n p)"
  by (auto simp: nibs_ok_def dest: in_set_dropD)

lemma nibs_ok_nth [intro]: "nibs_ok p \<Longrightarrow> n < length p \<Longrightarrow> p ! n < 16"
  by (auto simp: nibs_ok_def)

lemma nibble_unat: "(x :: byte) < 16 \<Longrightarrow> unat x < 16"
  by (simp add: word_less_nat_alt)

lemma tlook_mk_leaf [simp]: "tlook (mk_leaf p l) k = (if k = p then Some l else None)"
  by (cases l) auto

lemma tlook_ext_if [simp]:
  "tlook (ext_if p t) k = (if take (length p) k = p then tlook t (drop (length p) k) else None)"
  by (auto simp: ext_if_def)

lemma wf_key_length: "wf t r \<Longrightarrow> tlook t k \<noteq> None \<Longrightarrow> length k = r"
proof (induction t arbitrary: k r)
  case (TExt p t)
  then have "wf t (r - length p)" "tlook t (drop (length p) k) \<noteq> None" by (auto split: if_splits)
  then have "length (drop (length p) k) = r - length p" by (rule TExt.IH)
  moreover have "length p < r" "take (length p) k = p" using TExt.prems by (auto split: if_splits)
  then have "length p \<le> length k" by (metis length_take min.cobounded1)
  ultimately show ?case using \<open>length p < r\<close> by auto
next
  case (TBranch ts)
  then obtain x k' t where k: "k = x # k'" and x: "unat x < length ts" "ts ! unat x = Some t"
      and l: "tlook t k' \<noteq> None"
    by (cases k) (auto split: if_splits option.splits)
  then have m: "Some t \<in> set ts" by (metis nth_mem)
  then have "length k' = r - 1" using TBranch.IH [of "Some t" t "r - 1" k'] TBranch.prems l by auto
  then show ?case using TBranch.prems k by auto
qed (auto split: if_splits)

lemma tlook_fork:
  assumes "i \<noteq> j" and "i < 16" and "j < 16"
  shows "tlook (fork p i t j u) k =
    (if take (length p) k = p then
       (case drop (length p) k of [] \<Rightarrow> None
        | x # k' \<Rightarrow> if x = i then tlook t k' else if x = j then tlook u k' else None)
     else None)"
  using assms
  by (auto simp: fork_def nth_list_update nth_replicate nibble_unat word_unat_eq_iff split: list.splits)

lemma diverge:
  assumes "common_prefix p k \<noteq> length p" and "length p \<le> length k"
  obtains c q i p' j k' where "common_prefix p k = c" "c < length p" "c < length k"
    "take c p = q" "p ! c = i" "drop (Suc c) p = p'" "k ! c = j" "drop (Suc c) k = k'"
    "p = q @ i # p'" "k = q @ j # k'" "i \<noteq> j"
proof -
  have c: "common_prefix p k < length p" "common_prefix p k < length k"
    using common_prefix_le1 [of p k] assms by auto
  obtain d where d: "d = common_prefix p k" "p = take d p @ p ! d # drop (Suc d) p"
    "k = take d p @ k ! d # drop (Suc d) k" "p ! d \<noteq> k ! d"
    using c by (rule common_prefix_split)
  show thesis using that [OF d(1) [symmetric] _ _ refl refl refl refl refl d(2-4)] c d(1) by simp
qed

lemma take_drop_iff: "(take (length q) x = q) = (\<exists>y. x = q @ y)"
  by (metis append_eq_conv_conj)

lemma tlook_fork_new:
  assumes k: "k = q @ j # k'" and p: "p = q @ i # p'" and ij: "i \<noteq> j" "i < 16" "j < 16"
    and t: "\<And>y. tlook old (p @ y) = f y" "\<And>x. \<nexists>y. x = p @ y \<Longrightarrow> tlook old x = None"
    and t': "\<And>y. tlook t (p' @ y) = f y" "\<And>x. \<nexists>y. x = p' @ y \<Longrightarrow> tlook t x = None"
  shows "tlook (fork q i t j (mk_leaf k' l)) = (tlook old)(k \<mapsto> l)"
proof
  fix x
  show "tlook (fork q i t j (mk_leaf k' l)) x = ((tlook old)(k \<mapsto> l)) x"
  proof (cases "\<exists>y. x = q @ y")
    case False
    then have "\<nexists>y. x = p @ y" "x \<noteq> k" using p k by auto
    then show ?thesis using False ij t(2) [of x] by (auto simp: tlook_fork take_drop_iff)
  next
    case True
    then obtain y where x: "x = q @ y" by blast
    show ?thesis
    proof (cases y)
      case Nil
      then have "\<nexists>y. x = p @ y" "x \<noteq> k" using p k x by auto
      then show ?thesis using Nil x ij t(2) [of x] by (auto simp: tlook_fork)
    next
      case (Cons z w)
      show ?thesis
      proof (cases "z = i")
        case True
        then have "x \<noteq> k" using x Cons k ij by simp
        moreover have "tlook t w = tlook old x"
        proof (cases "\<exists>y. w = p' @ y")
          case True
          then show ?thesis using t(1) t'(1) x Cons p \<open>z = i\<close> by auto
        next
          case False
          then have "\<nexists>y. x = p @ y" using x Cons p \<open>z = i\<close> by auto
          then show ?thesis using t(2) [of x] t'(2) [of w] False by simp
        qed
        ultimately show ?thesis using x Cons True ij by (simp add: tlook_fork)
      next
        case False
        then have "\<nexists>y. x = p @ y" using x Cons p by auto
        then show ?thesis using x Cons False ij t(2) [of x] k by (auto simp: tlook_fork)
      qed
    qed
  qed
qed

lemma tlook_leaf_put:
  assumes "length k = length p" and "nibs_ok k" and "nibs_ok p"
  shows "tlook (leaf_put p old k l) = (tlook (mk_leaf p old))(k \<mapsto> l)"
proof (cases "common_prefix p k = length p")
  case True
  then have "p = k" using assms common_prefix_eqI [of p k] by simp
  then show ?thesis using True by (auto simp: fun_eq_iff leaf_put_def)
next
  case False
  then obtain c q i p' j k' where d: "common_prefix p k = c" "c < length p" "c < length k"
    "take c p = q" "p ! c = i" "drop (Suc c) p = p'" "k ! c = j" "drop (Suc c) k = k'"
    "p = q @ i # p'" "k = q @ j # k'" "i \<noteq> j"
    by (rule diverge) (use assms in simp)
  have "leaf_put p old k l = fork q i (mk_leaf p' old) j (mk_leaf k' l)"
    using False d by (simp add: leaf_put_def)
  also have "tlook \<dots> = (tlook (mk_leaf p old))(k \<mapsto> l)"
    using d(9-11) assms
    by (intro tlook_fork_new [where f = "\<lambda>y. if y = [] then Some old else None"]) auto
  finally show ?thesis .
qed

lemma tlook_tput:
  assumes "wf t r" and "length k = r" and "nibs_ok k"
  shows "tlook (tput t k l) = (tlook t)(k \<mapsto> l)"
  using assms
proof (induction t arbitrary: k r)
  case (TLeaf p v)
  then show ?case using tlook_leaf_put [of k p "LVal v" l] by simp
next
  case (TAcct p n b ch s)
  then show ?case using tlook_leaf_put [of k p "LAcct n b ch s" l] by simp
next
  case (TExt p t)
  show ?case
  proof (cases "common_prefix p k = length p")
    case True
    then obtain k' where k: "k = p @ k'" by (auto simp: common_prefix_full take_drop_iff)
    have "tlook (tput t k' l) = (tlook t)(k' \<mapsto> l)"
      using TExt.prems k by (intro TExt.IH [where r = "r - length p"]) auto
    then show ?thesis using True k by (auto simp: fun_eq_iff take_drop_iff)
  next
    case False
    moreover have "length p \<le> length k" using TExt.prems by simp
    ultimately obtain c q i p' j k' where d: "common_prefix p k = c" "c < length p" "c < length k"
      "take c p = q" "p ! c = i" "drop (Suc c) p = p'" "k ! c = j" "drop (Suc c) k = k'"
      "p = q @ i # p'" "k = q @ j # k'" "i \<noteq> j"
      by (rule diverge)
    have "tput (TExt p t) k l = fork q i (ext_if p' t) j (mk_leaf k' l)"
      using False d by (simp add: Let_def)
    also have "tlook \<dots> = (tlook (TExt p t))(k \<mapsto> l)"
      using d(9-11) TExt.prems
      by (intro tlook_fork_new [where f = "tlook t"]) (auto simp flip: take_drop_iff)
    finally show ?thesis .
  qed
next
  case (TBranch ts)
  obtain x k' where k: "k = x # k'" using TBranch.prems by (cases k) auto
  have x: "unat x < 16" using TBranch.prems k by (simp add: nibble_unat)
  have IH: "tlook (tput t k' l) = (tlook t)(k' \<mapsto> l)" if "ts ! unat x = Some t" for t
    using TBranch.IH [of "Some t" t "r - 1" k'] that TBranch.prems x k nth_mem [of "unat x" ts]
    by auto
  show ?case
  proof
    fix y
    show "tlook (tput (TBranch ts) k l) y = ((tlook (TBranch ts))(k \<mapsto> l)) y"
      using TBranch.prems x k IH
      by (cases y) (auto simp: nth_list_update word_unat_eq_iff split: option.splits)
  qed
qed simp

section \<open>Updates keep the canonical form\<close>

fun leaf_ok :: "leaf \<Rightarrow> bool" where
  "leaf_ok (LVal v) = True"
| "leaf_ok (LAcct n b c s) = (length c = 32 \<and> (s = TEmpty \<or> (wf s 64 \<and> val_only s)))"

lemma wf_mk_leaf [simp]: "wf (mk_leaf p l) r = (length p = r \<and> nibs_ok p \<and> leaf_ok l)"
  by (cases l) auto

lemma wf_pos: "wf t r \<Longrightarrow> is_branch t \<Longrightarrow> 0 < r"
  by (cases t) auto

lemma wf_ext_if:
  assumes "wf t m" and "p = [] \<or> is_branch t" and "nibs_ok p" and "r = length p + m"
  shows "wf (ext_if p t) r"
  using assms wf_pos [of t m] by (auto simp: ext_if_def)

lemma slot_mem: "i < length ts \<Longrightarrow> ts ! i = Some t \<Longrightarrow> Some t \<in> set ts"
  by (metis nth_mem)

lemma fork_slots:
  fixes i j :: byte
  assumes "i \<noteq> j" and "i < 16" and "j < 16"
  shows "set ((replicate 16 None)[unat i := Some t, unat j := Some u]) \<subseteq> {None, Some t, Some u}"
    and "length (somes ((replicate 16 None)[unat i := Some t, unat j := Some u])) = 2"
proof -
  let ?l = "(replicate 16 None)[unat i := Some t, unat j := Some u]"
  show "set ?l \<subseteq> {None, Some t, Some u}"
    by (auto dest!: subsetD [OF set_update_subset_insert])
  have ij: "unat i \<noteq> unat j" "unat i < 16" "unat j < 16"
    using assms nibble_unat [of i] nibble_unat [of j] by (auto simp: word_unat_eq_iff)
  have "{n. n < 16 \<and> ?l ! n \<noteq> None} = {unat i, unat j}"
    using ij by (auto simp: nth_list_update)
  then show "length (somes ?l) = 2"
    using ij by (simp add: length_somes length_filter_conv_card)
qed

lemma wf_fork:
  assumes "i \<noteq> j" and "i < 16" and "j < 16" and "nibs_ok q"
    and "wf t m" and "wf u m" and "r = length q + Suc m"
  shows "wf (fork q i t j u) r"
  unfolding fork_def using assms fork_slots [OF assms(1-3), of t u]
  by (intro wf_ext_if [where m = "Suc m"]) auto

lemma wf_leaf_put:
  assumes "length k = length p" and "nibs_ok k" and "nibs_ok p" and "leaf_ok old" and "leaf_ok l"
  shows "wf (leaf_put p old k l) (length p)"
proof (cases "common_prefix p k = length p")
  case True
  then show ?thesis using assms by (simp add: leaf_put_def)
next
  case False
  then obtain c q i p' j k' where d: "common_prefix p k = c" "c < length p" "c < length k"
    "take c p = q" "p ! c = i" "drop (Suc c) p = p'" "k ! c = j" "drop (Suc c) k = k'"
    "p = q @ i # p'" "k = q @ j # k'" "i \<noteq> j"
    by (rule diverge) (use assms in simp)
  have "leaf_put p old k l = fork q i (mk_leaf p' old) j (mk_leaf k' l)"
    using False d by (simp add: leaf_put_def)
  also have "wf \<dots> (length p)"
    using d(9-11) assms by (intro wf_fork [where m = "length p'"]) auto
  finally show ?thesis .
qed

lemma is_branch_tput: "is_branch t \<Longrightarrow> is_branch (tput t k l)"
  by (cases t) (auto simp: tput.simps(5))

lemma length_somes_update_Some:
  "i < length ts \<Longrightarrow> length (somes ts) \<le> length (somes (ts[i := Some t]))"
  by (subst somes_split [of i]) (cases "ts ! i"; simp add: somes_update)+

lemma wf_tput:
  assumes "wf t r" and "length k = r" and "nibs_ok k" and "leaf_ok l"
  shows "wf (tput t k l) r"
  using assms
proof (induction t arbitrary: k r)
  case (TLeaf p v)
  then show ?case using wf_leaf_put [of k p "LVal v" l] by simp
next
  case (TAcct p n b ch s)
  then show ?case using wf_leaf_put [of k p "LAcct n b ch s" l] by simp
next
  case (TExt p t)
  show ?case
  proof (cases "common_prefix p k = length p")
    case True
    then obtain k' where k: "k = p @ k'" by (auto simp: common_prefix_full take_drop_iff)
    have "wf (tput t k' l) (r - length p)"
      using TExt.prems k by (intro TExt.IH) auto
    then show ?thesis using True k TExt.prems by (simp add: is_branch_tput)
  next
    case False
    moreover have "length p \<le> length k" using TExt.prems by simp
    ultimately obtain c q i p' j k' where d: "common_prefix p k = c" "c < length p" "c < length k"
      "take c p = q" "p ! c = i" "drop (Suc c) p = p'" "k ! c = j" "drop (Suc c) k = k'"
      "p = q @ i # p'" "k = q @ j # k'" "i \<noteq> j"
      by (rule diverge)
    have "tput (TExt p t) k l = fork q i (ext_if p' t) j (mk_leaf k' l)"
      using False d by (simp add: Let_def)
    also have "wf \<dots> r"
      using d(9-11) TExt.prems
      by (intro wf_fork [where m = "length k'"] wf_ext_if [where m = "r - length p"]) auto
    finally show ?thesis .
  qed
next
  case (TBranch ts)
  obtain x k' where k: "k = x # k'" using TBranch.prems by (cases k) auto
  have x: "unat x < length ts" using TBranch.prems k by (simp add: nibble_unat)
  let ?t = "case ts ! unat x of None \<Rightarrow> mk_leaf k' l | Some t \<Rightarrow> tput t k' l"
  have "wf ?t (r - 1)"
    using TBranch.IH [of "ts ! unat x" _ "r - 1" k'] TBranch.prems k x slot_mem [OF x]
    by (cases "ts ! unat x") auto
  moreover have "set (ts[unat x := Some ?t]) \<subseteq> insert (Some ?t) (set ts)"
    by (rule set_update_subset_insert)
  ultimately show ?case
    using TBranch.prems x k length_somes_update_Some [OF x, of ?t] by auto
qed simp

lemma val_only_mk_leaf [simp]: "val_only (mk_leaf p (LVal v))"
  by simp

lemma val_only_fork: "val_only t \<Longrightarrow> val_only u \<Longrightarrow> val_only (fork p i t j u)"
  by (auto simp: fork_def ext_if_def dest!: subsetD [OF set_update_subset_insert])

lemma val_only_tput: "wf t r \<Longrightarrow> length k = r \<Longrightarrow> nibs_ok k \<Longrightarrow> val_only t \<Longrightarrow> val_only (tput t k (LVal v))"
proof (induction t arbitrary: k r)
  case (TExt p t)
  then have "common_prefix p k = length p \<Longrightarrow> val_only (tput t (drop (length p) k) (LVal v))"
    by (intro TExt.IH [where r = "r - length p"]) auto
  then show ?case using TExt.prems by (auto simp: Let_def ext_if_def intro!: val_only_fork)
next
  case (TBranch ts)
  obtain x k' where k: "k = x # k'" using TBranch.prems by (cases k) auto
  have x: "unat x < length ts" using TBranch.prems k by (simp add: nibble_unat)
  have "val_only (case ts ! unat x of None \<Rightarrow> mk_leaf k' (LVal v) | Some t \<Rightarrow> tput t k' (LVal v))"
    using TBranch.IH [of "ts ! unat x" _ "r - 1" k'] TBranch.prems k x slot_mem [OF x]
    by (cases "ts ! unat x") auto
  then show ?case using TBranch.prems x k
    by (auto dest!: subsetD [OF set_update_subset_insert])
qed (auto simp: leaf_put_def Let_def intro!: val_only_fork)

lemma tlook_val_only: "val_only t \<Longrightarrow> tlook t k = Some l \<Longrightarrow> \<exists>v. l = LVal v"
proof (induction t arbitrary: k)
  case (TBranch ts)
  then show ?case
    using slot_mem [of _ ts] by (cases k) (fastforce split: if_splits option.splits)+
qed (auto split: if_splits)

lemma tlook_leaf_ok: "wf t r \<Longrightarrow> tlook t k = Some l \<Longrightarrow> leaf_ok l"
proof (induction t arbitrary: k r)
  case (TBranch ts)
  then show ?case
    using slot_mem [of _ ts] by (cases k) (fastforce split: if_splits option.splits)+
qed (auto split: if_splits)

section \<open>Removal\<close>

lemma tlook_tprep:
  "tlook (tprep e t) k = (if take (length e) k = e then tlook t (drop (length e) k) else None)"
proof (cases "\<exists>y. k = e @ y")
  case True
  then obtain y where "k = e @ y" by blast
  then show ?thesis by (cases t) auto
next
  case False
  then have "take (length e) k \<noteq> e" "\<And>p y. k \<noteq> e @ p @ y" "\<And>p. k \<noteq> e @ p"
    by (auto simp: take_drop_iff)
  moreover from this(2) have "\<And>p. take (length e + length p) k \<noteq> e @ p"
    by (metis append.assoc length_append take_drop_iff)
  ultimately show ?thesis by (cases t) auto
qed

lemma tprep_nonempty [simp]: "tprep e t = TEmpty \<longleftrightarrow> t = TEmpty"
  by (cases t) (auto simp: ext_if_def)

lemma wf_tprep:
  assumes "wf t m" and "nibs_ok e" and "e \<noteq> []" and "r = length e + m"
  shows "wf (tprep e t) r"
  using assms wf_pos [of t m] by (cases t) (auto simp: ext_if_def)

lemma val_only_tprep [simp]: "val_only (tprep e t) = val_only t"
  by (cases t) (auto simp: ext_if_def)

lemma collapse_cases:
  assumes "length ts = 16"
  obtains (none) "\<forall>i<16. ts ! i = None" "collapse ts = TEmpty"
  | (one) i t where "i < 16" "ts ! i = Some t" "\<forall>j<16. j \<noteq> i \<longrightarrow> ts ! j = None"
      "collapse ts = tprep [word_of_nat i] t"
  | (many) "2 \<le> length (somes ts)" "collapse ts = TBranch ts"
proof -
  let ?l = "filter (\<lambda>i. ts ! i \<noteq> None) [0..<16]"
  have s: "set ?l = {i. i < 16 \<and> ts ! i \<noteq> None}" by auto
  have n: "length ?l = length (somes ts)"
    using length_filter_nth [of "\<lambda>c. c \<noteq> None" ts] assms by (simp add: length_somes)
  consider "?l = []" | i where "?l = [i]" | i j l where "?l = i # j # l"
    by (metis list.exhaust)
  then show thesis
  proof cases
    case 1
    then have "collapse ts = TEmpty" unfolding collapse_def by simp
    then show thesis using 1 s none by auto
  next
    case 2
    then have "{j. j < 16 \<and> ts ! j \<noteq> None} = {i}" using s by (simp only: 2 list.set)
    then have "i < 16" "ts ! i \<noteq> None" "\<forall>j<16. j \<noteq> i \<longrightarrow> ts ! j = None" by blast+
    moreover have "collapse ts = tprep [word_of_nat i] (the (ts ! i))"
      unfolding collapse_def 2 by simp
    ultimately show thesis using one by auto
  next
    case 3
    then have "2 \<le> length (somes ts)" using n by simp
    moreover have "collapse ts = TBranch ts" unfolding collapse_def 3 by simp
    ultimately show thesis using many by blast
  qed
qed

lemma tlook_collapse:
  assumes "length ts = 16"
  shows "tlook (collapse ts) = tlook (TBranch ts)"
proof
  fix k
  from assms show "tlook (collapse ts) k = tlook (TBranch ts) k"
  proof (cases rule: collapse_cases)
    case none
    then show ?thesis using assms by (cases k) auto
  next
    case (one i t)
    have "unat (word_of_nat i :: byte) = i" using one by (simp add: unat_byte_of_nat)
    then show ?thesis using one assms by (cases k) (auto simp: tlook_tprep word_unat_eq_iff)
  next
    case many
    then show ?thesis by simp
  qed
qed

lemma wf_collapse:
  assumes "length ts = 16" and "0 < r" and "\<forall>t. Some t \<in> set ts \<longrightarrow> wf t (r - 1)"
  shows "wf0 (collapse ts) r"
  using assms(1)
proof (cases rule: collapse_cases)
  case (one i t)
  have "word_of_nat i < (16 :: byte)" using one by (simp add: word_less_nat_alt unat_byte_of_nat)
  moreover have "wf t (r - 1)" using one assms slot_mem [of i ts t] by auto
  ultimately show ?thesis using one assms by (simp add: wf0_def wf_tprep)
qed (use assms in \<open>auto simp: wf0_def\<close>)

lemma tlook_opt_trie: "(case opt_trie t of None \<Rightarrow> None | Some t \<Rightarrow> tlook t k) = tlook t k"
  by (simp add: opt_trie_def)

lemma wf_tdel: "wf t r \<Longrightarrow> length k = r \<Longrightarrow> nibs_ok k \<Longrightarrow> wf0 (tdel t k) r"
proof (induction t arbitrary: k r)
  case (TExt p t)
  then have "take (length p) k = p \<Longrightarrow> wf0 (tdel t (drop (length p) k)) (r - length p)"
    by (intro TExt.IH) auto
  then show ?case using TExt.prems by (auto simp: wf0_def intro!: wf_tprep)
next
  case (TBranch ts)
  obtain x k' where k: "k = x # k'" using TBranch.prems by (cases k) auto
  have x: "unat x < length ts" using TBranch.prems k by (simp add: nibble_unat)
  show ?case
  proof (cases "ts ! unat x")
    case None
    then show ?thesis using TBranch.prems k x by (simp add: wf0_def)
  next
    case (Some t)
    then have "wf0 (tdel t k') (r - 1)"
      using TBranch.IH [of "Some t" t "r - 1" k'] TBranch.prems k slot_mem [OF x] by auto
    then have "\<forall>u. Some u \<in> set (ts[unat x := opt_trie (tdel t k')]) \<longrightarrow> wf u (r - 1)"
      using TBranch.prems
      by (auto simp: opt_trie_def wf0_def dest!: subsetD [OF set_update_subset_insert])
    then have "wf0 (collapse (ts[unat x := opt_trie (tdel t k')])) r"
      using TBranch.prems by (intro wf_collapse) auto
    then show ?thesis using k x Some by simp
  qed
next
  case (TAcct p n b c s)
  from TAcct.prems show ?case by (auto simp: wf0_def)
next
  case (TLeaf p v)
  from TLeaf.prems show ?case by (auto simp: wf0_def)
next
  case TEmpty
  from TEmpty.prems show ?case by simp
qed

lemma tlook_tdel: "wf t r \<Longrightarrow> length k = r \<Longrightarrow> nibs_ok k \<Longrightarrow> tlook (tdel t k) = (tlook t)(k := None)"
proof (induction t arbitrary: k r)
  case (TExt p t)
  show ?case
  proof (cases "\<exists>k'. k = p @ k'")
    case True
    then obtain k' where k: "k = p @ k'" by blast
    have "tlook (tdel t k') = (tlook t)(k' := None)"
      using TExt.prems k by (intro TExt.IH [where r = "r - length p"]) auto
    then show ?thesis using k by (auto simp: fun_eq_iff tlook_tprep take_drop_iff)
  next
    case False
    then show ?thesis by (auto simp: fun_eq_iff take_drop_iff)
  qed
next
  case (TBranch ts)
  obtain x k' where k: "k = x # k'" using TBranch.prems by (cases k) auto
  have x: "unat x < length ts" using TBranch.prems k by (simp add: nibble_unat)
  show ?case
  proof (cases "ts ! unat x")
    case None
    then show ?thesis using TBranch.prems k x by (auto simp: fun_eq_iff)
  next
    case (Some t)
    then have IH: "tlook (tdel t k') = (tlook t)(k' := None)"
      using TBranch.IH [of "Some t" t "r - 1" k'] TBranch.prems k slot_mem [OF x] by auto
    have "tlook (tdel (TBranch ts) k) = tlook (TBranch (ts[unat x := opt_trie (tdel t k')]))"
      using TBranch.prems k x Some by (simp add: tlook_collapse)
    also have "\<dots> = (tlook (TBranch ts))(k := None)"
    proof
      fix y
      show "tlook (TBranch (ts[unat x := opt_trie (tdel t k')])) y = ((tlook (TBranch ts))(k := None)) y"
        using IH x k Some
        by (cases y) (auto simp: nth_list_update tlook_opt_trie word_unat_eq_iff)
    qed
    finally show ?thesis .
  qed
qed auto

lemma val_only_collapse:
  assumes "length ts = 16" and "val_only (TBranch ts)"
  shows "val_only (collapse ts)"
  using assms(1)
proof (cases rule: collapse_cases)
  case (one i t)
  then show ?thesis using slot_mem [of i ts t] assms by simp
qed (use assms in simp_all)

lemma val_only_tdel: "wf t r \<Longrightarrow> length k = r \<Longrightarrow> nibs_ok k \<Longrightarrow> val_only t \<Longrightarrow> val_only (tdel t k)"
proof (induction t arbitrary: k r)
  case (TExt p t)
  then have "val_only (tdel t (drop (length p) k))"
    by (intro TExt.IH [where r = "r - length p"]) auto
  then show ?case using TExt.prems by auto
next
  case (TBranch ts)
  obtain x k' where k: "k = x # k'" using TBranch.prems by (cases k) auto
  have x: "unat x < length ts" using TBranch.prems k by (simp add: nibble_unat)
  have "ts ! unat x = Some t \<Longrightarrow> val_only (tdel t k')" for t
    using TBranch.IH [of "Some t" t "r - 1" k'] TBranch.prems k x slot_mem [OF x] by auto
  then show ?case using TBranch.prems k x
    by (auto simp: opt_trie_def split: option.splits dest!: subsetD [OF set_update_subset_insert]
        intro!: val_only_collapse)
qed auto

end
