(* ===== verification/TrieRoot.thy ===== *)
theory TrieRoot
  imports Trie
begin

text \<open>
  The entries of a canonical trie and the reference root builder of
  \<^verbatim>\<open>src/eth.rs\<close>: the entries are sorted and say exactly what lookup says
  (\<open>map_of_entries\<close>, \<open>sorted_entries\<close>), and \<open>encode_node\<close> run on them returns
  the node encoding whose reference the engine caches (\<open>encode_node_entries\<close>).
\<close>

section \<open>Entries below a path\<close>

lemma map_of_pre_entries:
  "map_of (pre_entries p es) k =
     (if take (length p) k = p then map_of es (drop (length p) k) else None)"
proof (induction es)
  case (Cons e es)
  obtain a v where e: "e = (a, v)" by (cases e)
  have "k = p @ a \<longleftrightarrow> take (length p) k = p \<and> drop (length p) k = a"
    by (metis append_eq_conv_conj)
  with Cons show ?case by (auto simp: pre_entries_def e)
qed (simp add: pre_entries_def)

lemma set_pre_entries: "set (pre_entries p es) = (\<lambda>(k, v). (p @ k, v)) ` set es"
  by (simp add: pre_entries_def)

lemma pre_entries_Nil [simp]: "pre_entries p es = [] \<longleftrightarrow> es = []" "pre_entries p [] = []"
  by (auto simp: pre_entries_def)

lemma length_pre_entries [simp]: "length (pre_entries p es) = length es"
  by (simp add: pre_entries_def)

lemma strip_pre_entries [simp]: "strip_entries (length p) (pre_entries p es) = es"
  by (induction es) (auto simp: strip_entries_def pre_entries_def)

lemma append_less_cancel: "(p @ a < p @ b) = (a < (b :: 'a :: linorder list))"
  by (induction p) auto

lemma sorted_pre_entries [simp]: "sorted_keys (pre_entries p es) = sorted_keys es"
  by (simp add: pre_entries_def sorted_wrt_map append_less_cancel case_prod_beta)

section \<open>Entries of a branch\<close>

abbreviation slot_entries :: "nat \<Rightarrow> (nibs \<times> bytes) list option list \<Rightarrow> (nibs \<times> bytes) list" where
  "slot_entries n es \<equiv>
     concat (map (\<lambda>(i, e). case e of None \<Rightarrow> [] | Some e \<Rightarrow> pre_entries [word_of_nat i] e)
       (enumerate n es))"

lemma map_of_slot_entries:
  "n + length es \<le> 256 \<Longrightarrow>
   map_of (slot_entries n es) k =
     (case k of [] \<Rightarrow> None
      | x # k' \<Rightarrow> if n \<le> unat x \<and> unat x < n + length es then
                  (case es ! (unat x - n) of None \<Rightarrow> None | Some e \<Rightarrow> map_of e k') else None)"
proof (induction es arbitrary: n)
  case Nil
  then show ?case by (auto split: list.splits)
next
  case (Cons e es)
  have u: "unat (word_of_nat n :: byte) = n" using Cons.prems by (simp add: unat_byte_of_nat)
  have IH: "map_of (slot_entries (Suc n) es) k =
     (case k of [] \<Rightarrow> None
      | x # k' \<Rightarrow> if Suc n \<le> unat x \<and> unat x < Suc n + length es then
                  (case es ! (unat x - Suc n) of None \<Rightarrow> None | Some e \<Rightarrow> map_of e k') else None)"
    using Cons.prems by (intro Cons.IH) simp
  have s: "map_of (slot_entries n (e # es)) k =
      (case map_of (case e of None \<Rightarrow> [] | Some e \<Rightarrow> pre_entries [word_of_nat n] e) k of
         None \<Rightarrow> map_of (slot_entries (Suc n) es) k | Some v \<Rightarrow> Some v)"
    by (simp add: map_add_def)
  show ?case
  proof (cases k)
    case Nil
    then show ?thesis unfolding s IH by (cases e) (auto simp: map_of_pre_entries)
  next
    case k: (Cons x k')
    consider "unat x = n" | "unat x < n" | m where "unat x = Suc n + m"
      by (metis less_iff_Suc_add linorder_neqE_nat add_Suc)
    then show ?thesis
      unfolding s IH using u k
      by cases (auto simp: map_of_pre_entries word_unat_eq_iff split: option.splits)
  qed
qed

lemma in_slot_entries:
  "(k, v) \<in> set (slot_entries n es) \<longleftrightarrow>
     (\<exists>i e k'. n \<le> i \<and> i < n + length es \<and> es ! (i - n) = Some e \<and> k = word_of_nat i # k' \<and>
        (k', v) \<in> set e)"
  by (fastforce simp: in_set_enumerate_eq set_pre_entries split: option.splits)

lemma sorted_slot_entries:
  assumes "n + length es \<le> 256" and "\<And>e. Some e \<in> set es \<Longrightarrow> sorted_keys e"
  shows "sorted_keys (slot_entries n es)"
  using assms
proof (induction es arbitrary: n)
  case (Cons e es)
  have IH: "sorted_keys (slot_entries (Suc n) es)" using Cons by simp
  show ?case
  proof (cases e)
    case None
    then show ?thesis using IH by simp
  next
    case (Some e')
    have "sorted_keys (pre_entries [word_of_nat n] e')" using Cons.prems Some by simp
    moreover have "a < b" if a: "a \<in> fst ` set (pre_entries [word_of_nat n] e')"
      and b: "b \<in> fst ` set (slot_entries (Suc n) es)" for a b
    proof -
      obtain a' where "a = word_of_nat n # a'" using a by (auto simp: set_pre_entries)
      moreover obtain i b' where "Suc n \<le> i" "i < Suc n + length es" "b = word_of_nat i # b'"
        using b in_slot_entries [of _ _ "Suc n" es] by fastforce
      moreover from this have "(word_of_nat n :: byte) < word_of_nat i"
        using Cons.prems by (simp add: word_less_nat_alt unat_byte_of_nat)
      ultimately show ?thesis by simp
    qed
    ultimately show ?thesis using IH Some by (auto simp: sorted_wrt_append)
  qed
qed simp

lemma bucket_append: "bucket (xs @ ys) i = bucket xs i @ bucket ys i"
  by (simp add: bucket_def)

lemma bucket_pre_entries:
  "n < 256 \<Longrightarrow> bucket (pre_entries [word_of_nat n] es) i = (if n = i then es else [])"
  by (induction es) (auto simp: bucket_def pre_entries_def unat_byte_of_nat)

lemma bucket_slot_entries:
  assumes "n + length es \<le> 256"
  shows "bucket (slot_entries n es) i =
    (if n \<le> i \<and> i < n + length es then (case es ! (i - n) of None \<Rightarrow> [] | Some e \<Rightarrow> e) else [])"
  using assms
proof (induction es arbitrary: n)
  case (Cons e es)
  then show ?case
    by (cases e) (auto simp: bucket_append bucket_pre_entries nth_Cons')
qed (auto simp: bucket_def)

section \<open>Entries of a trie\<close>

lemma entries_TBranch: "entries P (TBranch ts) = slot_entries 0 (map (map_option (entries P)) ts)"
  by (simp add: branch_entries_def)

lemma map_of_entries:
  "wf0 t r \<Longrightarrow> map_of (entries P t) k = map_option (leaf_value P) (tlook t k)"
proof (induction t arbitrary: k r)
  case (TExt p t)
  then show ?case by (auto simp: map_of_pre_entries wf0_def)
next
  case (TBranch ts)
  then have l: "length ts = 16" by (simp add: wf0_def)
  show ?case
  proof (cases k)
    case Nil
    then show ?thesis using l by (simp add: entries_TBranch map_of_slot_entries del: entries.simps)
  next
    case (Cons x k')
    have "map_of (entries P t) k' = map_option (leaf_value P) (tlook t k')"
      if "unat x < 16" "ts ! unat x = Some t" for t
      using TBranch.IH [of "Some t" t "r - 1"] TBranch.prems that l slot_mem [of "unat x" ts t]
      by (auto simp: wf0_def)
    then show ?thesis using l Cons
      by (auto simp: entries_TBranch map_of_slot_entries simp del: entries.simps split: option.splits)
  qed
qed (auto simp: wf0_def troot_def)

lemma sorted_entries: "wf0 t r \<Longrightarrow> sorted_keys (entries P t)"
proof (induction t arbitrary: r)
  case (TBranch ts)
  then have "sorted_keys (entries P t)" if "Some t \<in> set ts" for t
    using TBranch.IH [of "Some t" t "r - 1"] that by (auto simp: wf0_def)
  then show ?case using TBranch.prems
    by (simp only: entries_TBranch, intro sorted_slot_entries) (auto simp: wf0_def map_option_case split: option.splits)
qed (auto simp: wf0_def)

lemma entries_key_length: "wf0 t r \<Longrightarrow> (k, v) \<in> set (entries P t) \<Longrightarrow> length k = r"
  using map_of_entries [of t r P k] sorted_keys_distinct [OF sorted_entries [of t r P]]
    wf_key_length [of t r k] by (auto simp: wf0_def map_option_case split: option.splits)

lemma entries_nonempty: "wf t r \<Longrightarrow> entries P t \<noteq> []"
proof (induction t arbitrary: r)
  case (TBranch ts)
  then obtain t where t: "t \<in> set (somes ts)" by (cases "somes ts") auto
  then have m: "Some t \<in> set ts" by (simp add: set_somes)
  then obtain i where i: "i < length ts" "ts ! i = Some t" by (metis in_set_conv_nth)
  have "entries P t \<noteq> []" using TBranch.IH [of "Some t" t "r - 1"] m TBranch.prems by auto
  then obtain k v where "(k, v) \<in> set (entries P t)" by (metis list.set_intros(1) neq_Nil_conv prod.exhaust)
  then have "(word_of_nat i # k, v) \<in> set (entries P (TBranch ts))"
    unfolding entries_TBranch in_slot_entries using i by auto
  then show ?case by fastforce
qed auto

section \<open>The reference builder on the entries of a trie\<close>

lemma node_ref_embed: "node_ref P x = embed P (mk_ref P x)"
  by (simp add: node_ref_def mk_ref_def)

lemma tref_trlp: "t \<noteq> TEmpty \<Longrightarrow> tref P t = mk_ref P (trlp P t)"
  by (cases t) (auto simp: leaf_ref_def ext_ref_def)

lemma troot_trlp: "t \<noteq> TEmpty \<Longrightarrow> troot P t = keccak256 P (trlp P t)"
  by (simp add: troot_def tref_trlp mk_ref_def)

lemma troot_TEmpty: "troot P TEmpty = keccak256 P (rlp_string P [])"
  by (simp add: troot_def empty_hash_def)

text \<open>The first and the last key of a branch start with different nibbles.\<close>

lemma branch_ends_differ:
  assumes "wf (TBranch ts) r"
  shows "common_prefix (fst (hd (entries P (TBranch ts)))) (fst (last (entries P (TBranch ts)))) = 0"
proof -
  let ?es = "entries P (TBranch ts)"
  have l: "length ts = 16" using assms by simp
  have ne: "?es \<noteq> []" using assms by (rule entries_nonempty)
  have srt: "sorted_wrt (<) (map fst ?es)" using assms sorted_entries [of "TBranch ts" r P] by (simp add: wf0_def)
  have "\<not> card {i. i < 16 \<and> ts ! i \<noteq> None} \<le> Suc 0"
    using assms l by (simp add: length_somes length_filter_conv_card)
  then have "\<exists>i j. i < 16 \<and> ts ! i \<noteq> None \<and> j < 16 \<and> ts ! j \<noteq> None \<and> i \<noteq> j"
    by (subst (asm) card_le_Suc0_iff_eq) auto
  then obtain i j where ij: "i < 16" "ts ! i \<noteq> None" "j < 16" "ts ! j \<noteq> None" "i < j"
    by (metis linorder_neqE_nat)
  have key: "\<exists>k v. (word_of_nat n # k, v) \<in> set ?es" if n: "n < 16" "ts ! n \<noteq> None" for n
  proof -
    obtain t where t: "ts ! n = Some t" using n(2) by blast
    then have "wf t (r - 1)" using assms slot_mem [of n ts t] n l by auto
    then obtain k v where "(k, v) \<in> set (entries P t)"
      using entries_nonempty [of t "r - 1" P] by (metis list.set_intros(1) neq_Nil_conv prod.exhaust)
    then have "(word_of_nat n # k, v) \<in> set ?es"
      unfolding entries_TBranch in_slot_entries using t n l by auto
    then show ?thesis by blast
  qed
  obtain a v where a: "(word_of_nat i # a, v) \<in> set ?es" using key ij by blast
  obtain b w where b: "(word_of_nat j # b, w) \<in> set ?es" using key ij by blast
  have lo: "fst (hd ?es) \<le> k" if "(k, v) \<in> set ?es" for k v
    using srt ne that by (cases ?es) force+
  have hi: "k \<le> fst (last ?es)" if "(k, v) \<in> set ?es" for k v
  proof -
    have "?es = butlast ?es @ [last ?es]" using ne by simp
    then have "sorted_wrt (<) (map fst (butlast ?es @ [last ?es]))" "(k, v) \<in> set (butlast ?es @ [last ?es])"
      using srt that by metis+
    then show ?thesis by (auto simp: sorted_wrt_append simp del: entries.simps) (metis fst_conv order_refl)
  qed
  have "\<exists>x k. fst e = x # k" if "e \<in> set ?es" for e
    using that in_slot_entries [of "fst e" "snd e" 0] by (fastforce simp: entries_TBranch simp del: entries.simps)
  then obtain x p y q where x: "fst (hd ?es) = x # p" and y: "fst (last ?es) = y # q"
    using ne by (meson hd_in_set last_in_set)
  have "(word_of_nat i :: byte) < word_of_nat j"
    using ij by (simp add: word_less_nat_alt unat_byte_of_nat)
  moreover have "x \<le> word_of_nat i" using lo [OF a] x by (auto simp: le_less)
  moreover have "word_of_nat j \<le> y" using hi [OF b] y by (auto simp: le_less)
  ultimately have "x \<noteq> y" by auto
  then show ?thesis unfolding x y by simp
qed

lemma common_prefix_append [simp]:
  "common_prefix (p @ a) (p @ b) = length p + common_prefix a b"
  by (induction p) auto

lemma common_prefix_len_entries:
  "es \<noteq> [] \<Longrightarrow> common_prefix_len es = Ok (common_prefix (fst (hd es)) (fst (last es)))"
  by (cases es) auto

lemma length_entries_branch:
  assumes "wf (TBranch ts) r"
  shows "length (entries P (TBranch ts)) \<noteq> 1"
proof
  let ?es = "entries P (TBranch ts)"
  assume "length ?es = 1"
  then obtain e where "?es = [e]" by (auto simp: length_Suc_conv)
  then have "common_prefix (fst e) (fst e) = 0" using branch_ends_differ [OF assms, of P] by simp
  moreover have "fst e \<noteq> []"
    using \<open>?es = [e]\<close> assms entries_key_length [of "TBranch ts" r "fst e" "snd e" P]
    by (auto simp: wf0_def)
  ultimately show False by (cases "fst e") auto
qed

lemma encode_node_entries: "wf t r \<Longrightarrow> encode_node P (entries P t) = Ok (trlp P t)"
proof (induction t arbitrary: r)
  case TEmpty
  then show ?case by simp
next
  case (TLeaf p v)
  show ?case by (subst encode_node.simps) simp
next
  case (TAcct p n b c s)
  show ?case by (subst encode_node.simps) (simp add: troot_def)
next
  case (TExt p t)
  then obtain ts where t: "t = TBranch ts" by (cases t) auto
  have tne: "t \<noteq> TEmpty" using t by simp
  have wft: "wf t (r - length p)" using TExt.prems by simp
  let ?es = "entries P t"
  have ne: "?es \<noteq> []" using wft by (rule entries_nonempty)
  have cp: "common_prefix_len (pre_entries p ?es) = Ok (length p)"
    using branch_ends_differ [of ts "r - length p" P] wft ne unfolding t
    by (simp add: common_prefix_len_entries pre_entries_def hd_map last_map case_prod_beta
        del: entries.simps wf_TBranch)
  have len: "length (pre_entries p ?es) \<noteq> 1"
    using length_entries_branch [of ts "r - length p" P] wft unfolding t length_pre_entries by blast
  have long: "\<not> (\<exists>(k, v) \<in> set (pre_entries p ?es). length k < length p)"
    by (auto simp: set_pre_entries)
  have hd: "take (length p) (fst (hd (pre_entries p ?es))) = p"
    using ne by (simp add: pre_entries_def hd_map case_prod_beta)
  show ?case
    using TExt.IH [OF wft] TExt.prems ne len tne
    by (subst encode_node.simps) (simp add: cp long hd node_ref_embed tref_trlp del: One_nat_def)
next
  case (TBranch ts)
  let ?es = "entries P (TBranch ts)"
  have l: "length ts = 16" using TBranch.prems by simp
  have cp: "common_prefix_len ?es = Ok 0"
    using branch_ends_differ [OF TBranch.prems, of P] entries_nonempty [OF TBranch.prems, of P]
    by (simp add: common_prefix_len_entries del: entries.simps)
  have b: "bucket ?es i = (case ts ! i of None \<Rightarrow> [] | Some t \<Rightarrow> entries P t)" if "i < 16" for i
    unfolding entries_TBranch using that l by (subst bucket_slot_entries) (auto split: option.splits)
  let ?item = "\<lambda>i. case ts ! i of None \<Rightarrow> rlp_string P [] | Some t \<Rightarrow> embed P (tref P t)"
  have "(if bucket ?es i = [] then Ok (rlp_string P [])
         else res_map (node_ref P) (encode_node P (bucket ?es i))) = Ok (?item i)"
    if "i \<in> set [0..<16]" for i
  proof (cases "ts ! i")
    case None
    then show ?thesis using that b by simp
  next
    case (Some t)
    then have m: "Some t \<in> set ts" using that l by (auto intro: slot_mem)
    then have w: "wf t (r - 1)" using TBranch.prems by auto
    then have "encode_node P (entries P t) = Ok (trlp P t)" using TBranch.IH [OF m] by simp
    moreover have "t \<noteq> TEmpty" using w by auto
    ultimately show ?thesis
      using b that Some entries_nonempty [OF w, of P] by (simp add: node_ref_embed tref_trlp)
  qed
  then have items: "res_mapM (\<lambda>i. if bucket ?es i = [] then Ok (rlp_string P [])
         else res_map (node_ref P) (encode_node P (bucket ?es i))) [0..<16] = Ok (map ?item [0..<16])"
    by (rule res_mapM_all_Ok)
  have "map ?item [0..<16] = slot_items P (map (map_option (tref P)) ts)"
    using l by (intro nth_equalityI) (auto simp: slot_items_def split: option.splits)
  moreover have "find (\<lambda>(k, v). k = []) ?es = None"
    using entries_key_length [of "TBranch ts" r] TBranch.prems
    by (fastforce simp: find_None_iff wf0_def)
  ultimately show ?case
    using length_entries_branch [OF TBranch.prems, of P] items
    by (subst encode_node.simps) (simp add: cp del: entries.simps One_nat_def)
qed

section \<open>The reference root\<close>

lemma sorted_root_map: "sorted_keys (root_map es)"
  unfolding root_map_def
  by (induction es rule: rev_induct) (auto simp: sorted_bt_insert sorted_bt_remove split: prod.splits)

definition final_map :: "(bytes \<times> bytes) list \<Rightarrow> (nibs \<rightharpoonup> bytes)" where
  "final_map es = foldl (\<lambda>m (k, v). if v = [] then m(eth_key_nibbles k := None)
                         else m(eth_key_nibbles k \<mapsto> v)) Map.empty es"

lemma map_of_root_map: "map_of (root_map es) = final_map es"
proof -
  have "map_of (foldl (\<lambda>m (k, v). if v = [] then bt_remove (eth_key_nibbles k) m
                       else bt_insert (eth_key_nibbles k) v m) m es) =
    foldl (\<lambda>m (k, v). if v = [] then m(eth_key_nibbles k := None)
                         else m(eth_key_nibbles k \<mapsto> v)) (map_of m) es" for m
    by (induction es arbitrary: m) (auto split: prod.splits)
  from this [of "[]"] show ?thesis by (simp add: root_map_def final_map_def)
qed

lemma root_map_entries:
  assumes "wf0 t r" and "final_map es = map_option (leaf_value P) \<circ> tlook t"
  shows "root_map es = entries P t"
proof (rule sorted_keys_unique [OF sorted_root_map sorted_entries [OF assms(1)]])
  show "map_of (root_map es) = map_of (entries P t)"
    by (simp add: fun_eq_iff map_of_root_map assms(2) map_of_entries [OF assms(1)])
qed

lemma eth_root_trie:
  assumes "rlp_empty P" and "wf0 t r" and "final_map es = map_option (leaf_value P) \<circ> tlook t"
  shows "eth_root P es = Ok (troot P t)"
proof (cases "t = TEmpty")
  case True
  then show ?thesis
    using root_map_entries [OF assms(2,3)] assms(1)
    by (simp add: eth_root_def troot_TEmpty rlp_string_def rlp_empty_def)
next
  case False
  then have w: "wf t r" using assms(2) by (simp add: wf0_def)
  then show ?thesis
    using root_map_entries [OF assms(2,3)] entries_nonempty [OF w, of P] encode_node_entries [OF w, of P]
      troot_trlp [OF False, of P]
    by (simp add: eth_root_def)
qed

end
