(* ===== verification/Repr.thy ===== *)
theory Repr
  imports Codec TrieRoot
begin

text \<open>
  The refinement relation between record nodes and tries, and the codec proofs.
  \<open>enc P t\<close> is the byte layout of a trie, \<open>mat P t\<close> its fully parsed node and
  \<open>repr P n t\<close> says that \<open>n\<close> (possibly with \<open>Raw\<close> slices below it) stands for
  \<open>t\<close> with every cached reference right. The writer produces \<open>enc\<close> from any
  represented node, the eager reader rebuilds \<open>mat\<close> from it and the lazy reader
  a node that represents the same trie.
\<close>

section \<open>Layout and representation\<close>

definition nib_path :: "nibs \<Rightarrow> bytes" where
  "nib_path p = word_of_nat (length p) # pack_pairs p"

primrec enc :: "prims \<Rightarrow> trie \<Rightarrow> bytes" where
  "enc P TEmpty = [0]"
| "enc P (TLeaf p v) =
     [1] @ nib_path p @ le_bytes 4 (length v) @ v @ write_ref (tref P (TLeaf p v))"
| "enc P (TExt p t) = [2] @ nib_path p @ write_ref (tref P (TExt p t)) @ enc P t"
| "enc P (TBranch ts) =
     (let bs = somes (map (map_option (enc P)) ts)
      in [3] @ le_bytes 2 (unat (branch_bitmap (map (\<lambda>c. c \<noteq> None) ts))) @
         write_ref (tref P (TBranch ts)) @ concat (map (\<lambda>b. le_bytes 4 (length b)) bs) @ concat bs)"
| "enc P (TAcct p n b c s) =
     [5] @ nib_path p @ le_bytes 8 (unat n) @ be_bytes 32 (unat b) @ c @ enc P s"

primrec mat :: "prims \<Rightarrow> trie \<Rightarrow> node" where
  "mat P TEmpty = Empty"
| "mat P (TLeaf p v) = Leaf p v (tref P (TLeaf p v))"
| "mat P (TExt p t) = Extension p (mat P t) (tref P (TExt p t))"
| "mat P (TBranch ts) = Branch (map (map_option (mat P)) ts) (tref P (TBranch ts))"
| "mat P (TAcct p n b c s) = Account p n b c (mat P s) (troot P s) (tref P (TAcct p n b c s))"

text \<open>Only leaves, extensions and branches are left unparsed by the lazy reader.\<close>

fun rawable :: "trie \<Rightarrow> bool" where
  "rawable (TLeaf p v) = True"
| "rawable (TExt p t) = True"
| "rawable (TBranch ts) = True"
| "rawable _ = False"

inductive repr :: "prims \<Rightarrow> node \<Rightarrow> trie \<Rightarrow> bool" for P where
  repr_Empty: "repr P Empty TEmpty"
| repr_Leaf: "r = tref P (TLeaf p v) \<Longrightarrow> repr P (Leaf p v r) (TLeaf p v)"
| repr_Ext: "repr P n t \<Longrightarrow> r = tref P (TExt p t) \<Longrightarrow> repr P (Extension p n r) (TExt p t)"
| repr_Branch: "list_all2 (rel_option (\<lambda>n t. repr P n t)) cs ts \<Longrightarrow> r = tref P (TBranch ts) \<Longrightarrow>
     repr P (Branch cs r) (TBranch ts)"
| repr_Account: "repr P s ts \<Longrightarrow> sr = troot P ts \<Longrightarrow> r = tref P (TAcct p n b c ts) \<Longrightarrow>
     repr P (Account p n b c s sr r) (TAcct p n b c ts)"
| repr_Raw: "has_at buf off (enc P t) \<Longrightarrow> len = length (enc P t) \<Longrightarrow> len < 2 ^ 32 \<Longrightarrow> rawable t \<Longrightarrow>
     r = tref P t \<Longrightarrow> repr P (Raw buf off len r) t"
monos list_all2_mono option.rel_mono_strong

inductive_simps repr_simps [simp]:
  "repr P Empty t" "repr P (Leaf p v r) t" "repr P (Extension p n r) t" "repr P (Branch cs r) t"
  "repr P (Account p n b c s sr r) t" "repr P (Overflow ptr root) t" "repr P (Raw buf off len r) t"

section \<open>References and sizes\<close>

lemma ref_ok_mk_ref: "keccak_len P \<Longrightarrow> ref_ok (mk_ref P x)"
  by (simp add: mk_ref_def keccak_len_def)

lemma ref_ok_tref: "keccak_len P \<Longrightarrow> ref_ok (tref P t)"
  by (cases t) (auto simp: ref_ok_mk_ref leaf_ref_def ext_ref_def, simp add: keccak_len_def empty_hash_def)

lemma hash_node_repr: "repr P n t \<Longrightarrow> hash_node P n = tref P t"
  by (cases n) auto

lemma hash_node_mat [simp]: "hash_node P (mat P t) = tref P t"
  by (cases t) auto

lemma repr_mat: "repr P (mat P t) t"
proof (induction t)
  case (TBranch ts)
  have "rel_option (repr P) (map_option (mat P) c) c" if "c \<in> set ts" for c
    using TBranch [OF that] by (cases c) auto
  then show ?case by (simp add: list_all2_conv_all_nth)
qed (auto simp: troot_def)

lemma length_nib_path [simp]: "length (nib_path p) = Suc (div_ceil2 (length p))"
  by (simp add: nib_path_def length_pack_pairs)

lemma write_nibble_path_ok: "nibs_ok p \<Longrightarrow> length p \<le> 255 \<Longrightarrow> write_nibble_path p = Ok (nib_path p)"
  by (auto simp: write_nibble_path_def nib_path_def nibs_ok_def word_less_nat_alt)

lemma enc_nonempty [simp]: "enc P t \<noteq> []"
  by (cases t) (auto simp: Let_def)

lemma enc_child_less:
  "Some t \<in> set ts \<Longrightarrow> length (enc P t) < length (enc P (TBranch ts))"
proof -
  assume "Some t \<in> set ts"
  then have "enc P t \<in> set (somes (map (map_option (enc P)) ts))"
    by (auto simp: set_somes image_iff) (metis option.simps(9))
  then have "length (enc P t) \<le> length (concat (somes (map (map_option (enc P)) ts)))"
    by (rule length_concat_mem)
  then show ?thesis by (simp add: Let_def)
qed

section \<open>Writing\<close>

lemma repr_branch_child:
  assumes "list_all2 (rel_option (repr P)) cs ts" and "i < length ts"
  shows "rel_option (repr P) (cs ! i) (ts ! i)"
  using assms by (simp add: list_all2_conv_all_nth)

lemma repr_present:
  "list_all2 (rel_option R) cs ts \<Longrightarrow> map (\<lambda>c. c \<noteq> None) cs = map (\<lambda>c. c \<noteq> None) ts"
  by (rule list_all2_rel_option_present)

lemma write_slots:
  assumes "list_all2 (rel_option (\<lambda>n t. w n = Ok (e t))) cs ts"
  shows "res_mapM (\<lambda>x. x) (somes (map (map_option w) cs)) = Ok (somes (map (map_option e) ts))"
  using assms
proof (induction cs ts rule: list_all2_induct)
  case (Cons c cs t ts)
  then show ?case by (cases c; cases t) auto
qed simp

lemma wf_lengths:
  "wf0 (TLeaf p v) r \<Longrightarrow> length p \<le> r \<and> nibs_ok p"
  "wf0 (TExt p t) r \<Longrightarrow> length p \<le> r \<and> nibs_ok p \<and> wf0 t (r - length p)"
  "wf0 (TBranch ts) r \<Longrightarrow> Some t \<in> set ts \<Longrightarrow> wf0 t (r - 1)"
  "wf0 (TAcct p n b c s) r \<Longrightarrow> length p \<le> r \<and> nibs_ok p \<and> wf0 s 64 \<and> length c = 32"
  by (auto simp: wf0_def)

lemma write_node_repr:
  "repr P n t \<Longrightarrow> wf0 t r \<Longrightarrow> r \<le> 128 \<Longrightarrow> write_node n = Ok (enc P t)"
proof (induction n t arbitrary: r rule: repr.induct)
  case (repr_Ext n t r' p)
  then have "write_node n = Ok (enc P t)" using wf_lengths(2) by (meson diff_le_self le_trans)
  then show ?case using repr_Ext wf_lengths(2) [of p t r] by (simp add: write_nibble_path_ok)
next
  case (repr_Branch cs ts r')
  have "list_all2 (rel_option (\<lambda>n t. write_node n = Ok (enc P t))) cs ts"
    using repr_Branch(1)
  proof (rule slots_rel_mono)
    fix n t
    assume "Some t \<in> set ts"
    then have "wf0 t (r - 1)" using repr_Branch.prems wf_lengths(3) by blast
    then show "repr P n t \<and> (\<forall>x. wf0 t x \<longrightarrow> x \<le> 128 \<longrightarrow> write_node n = Ok (enc P t)) \<Longrightarrow>
        write_node n = Ok (enc P t)"
      using repr_Branch.prems by (meson diff_le_self le_trans)
  qed
  then show ?case
    using repr_Branch(2) by (simp add: write_slots repr_present Let_def del: not_None_eq)
next
  case (repr_Account s ts sr r' p n b c)
  have "write_node s = Ok (enc P ts)"
    by (rule repr_Account.IH [of 64]) (use repr_Account.prems wf_lengths(4) in auto)
  then show ?case using repr_Account wf_lengths(4) [of p n b c ts r] by (simp add: write_nibble_path_ok)
next
  case (repr_Leaf r' p v)
  then show ?case using wf_lengths(1) [of p v r] by (simp add: write_nibble_path_ok)
next
  case (repr_Raw buf off t len r')
  then show ?case by (simp add: has_at_def)
qed simp

lemma repr_node_size:
  "repr P n t \<Longrightarrow> keccak_len P \<Longrightarrow> wf0 t r \<Longrightarrow> node_size n = length (enc P t)"
proof (induction n t arbitrary: r rule: repr.induct)
  case (repr_Ext n t r' p)
  then show ?case
    using wf_lengths(2) [of p t r] length_write_ref [OF ref_ok_tref, of P "TExt p t"] by auto
next
  case (repr_Branch cs ts r')
  have "list_all2 (rel_option (\<lambda>n t. node_size n = length (enc P t))) cs ts"
    using repr_Branch(1) by (rule slots_rel_mono) (use repr_Branch.prems wf_lengths(3) in blast)
  then have "somes (map (map_option node_size) cs) = map length (somes (map (map_option (enc P)) ts))"
    by (induction cs ts rule: list_all2_induct) (auto simp: option_rel_Some2 rel_option_iff split: option.splits)
  moreover from this have "length (somes cs) = length (somes (map (map_option (enc P)) ts))"
    by (metis length_map somes_map)
  ultimately show ?case
    using repr_Branch.prems repr_Branch(2) length_write_ref [OF ref_ok_tref, of P "TBranch ts"]
    by (simp add: Let_def length_concat comp_def sum_list_triv)
next
  case (repr_Account s ts sr r' p n b c)
  then have "node_size s = length (enc P ts)"
    by (intro repr_Account.IH [of 64]) (use wf_lengths(4) in auto)
  then show ?case using wf_lengths(4) [of p n b c ts r] repr_Account.prems by simp
next
  case (repr_Leaf r' p v)
  then show ?case using length_write_ref [OF ref_ok_tref, of P "TLeaf p v"] by simp
qed simp_all

section \<open>Reading\<close>

lemma read_nib_path_at [codec]:
  "has_at buf pos (nib_path p) \<Longrightarrow> nibs_ok p \<Longrightarrow> length p \<le> 128 \<Longrightarrow>
     read_nibble_path buf pos = Ok (p, Suc (pos + div_ceil2 (length p)))"
  using read_nibble_path_at [of buf pos p] by (simp add: nib_path_def nibs_ok_def)

lemma skip_nib_path_at [codec]:
  "has_at buf pos (nib_path p) \<Longrightarrow> length p \<le> 128 \<Longrightarrow>
     skip_nibble_path buf pos = Ok (Suc (pos + div_ceil2 (length p)))"
  using skip_nibble_path_at [of buf pos p] by (simp add: nib_path_def)

lemma read_tref_at:
  "keccak_len P \<Longrightarrow> has_at buf pos (write_ref (tref P t)) \<Longrightarrow>
     read_ref buf pos = Ok (tref P t, pos + length (write_ref (tref P t)))"
  by (rule read_ref_at) (auto intro: ref_ok_tref)

lemma read_slots_at:
  assumes "list_all2 (\<lambda>i t. has_bit bm i = (t \<noteq> None)) is ts"
    and "has_at buf pos (concat (somes (map (map_option e) ts)))"
    and "\<And>t pos. Some t \<in> set ts \<Longrightarrow> has_at buf pos (e t) \<Longrightarrow> rd pos = Ok (f t, pos + length (e t))"
  shows "read_slots rd bm is pos =
    Ok (map (map_option f) ts, pos + length (concat (somes (map (map_option e) ts))))"
  using assms
proof (induction "is" ts arbitrary: pos rule: list_all2_induct)
  case (Cons i "is" t ts)
  show ?case
  proof (cases t)
    case None
    then show ?thesis using Cons by auto
  next
    case (Some u)
    then have h: "has_at buf pos (e u)" "has_at buf (pos + length (e u)) (concat (somes (map (map_option e) ts)))"
      using Cons.prems(1) by (auto simp: has_at_append)
    have "rd pos = Ok (f u, pos + length (e u))" using Cons.prems(2) Some h by simp
    moreover have "read_slots rd bm is (pos + length (e u)) = Ok (map (map_option f) ts,
        pos + length (e u) + length (concat (somes (map (map_option e) ts))))"
      using Cons.prems(2) h by (intro Cons.IH) auto
    ultimately show ?thesis using Some Cons.hyps by simp
  qed
qed simp

lemma bitmap_slots:
  assumes "length ts = 16"
  shows "list_all2 (\<lambda>i t. has_bit (branch_bitmap (map (\<lambda>c. c \<noteq> None) ts)) i = (t \<noteq> None)) [0..<16] ts"
  using assms by (auto simp: list_all2_conv_all_nth has_bit_branch_bitmap simp del: not_None_eq)

lemma length_len_table: "length (concat (map (\<lambda>b. le_bytes 4 (length b)) bs)) = length bs * 4"
  by (induction bs) auto

lemma nonce_rt: "word_of_nat (le_val (le_bytes 8 (unat (n :: u64)))) = n"
  using unsigned_less [of n, where ?'a = nat] by (simp add: le_val_le_bytes)

lemma balance_rt: "word_of_nat (be_val (be_bytes 32 (unat (b :: u256)))) = b"
  using unsigned_less [of b, where ?'a = nat] by (simp add: be_val_be_bytes)

lemma account_node_mat:
  "hash_node P s = tref P ts \<Longrightarrow>
     account_node P p n b c s = Account p n b c s (troot P ts) (tref P (TAcct p n b c ts))"
  by (simp add: account_node_def Let_def troot_def acct_value_def)

lemma read_node_enc:
  assumes "keccak_len P" and "wf0 t r" and "r \<le> 128" and "has_at buf pos (enc P t)"
    and "length (enc P t) < 2 ^ 32" and "length (enc P t) \<le> fuel"
  shows "read_node P fuel buf pos = Ok (mat P t, pos + length (enc P t))"
  using assms(2-6)
proof (induction t arbitrary: r pos fuel)
  case TEmpty
  then show ?case by (cases fuel) (auto simp: codec)
next
  case (TLeaf p v)
  then obtain f where f: "fuel = Suc f" by (cases fuel) auto
  have h: "has_at buf pos [1]" "has_at buf (Suc pos) (nib_path p)"
    "has_at buf (Suc (Suc pos) + div_ceil2 (length p)) (le_bytes 4 (length v))"
    "has_at buf (Suc (Suc pos) + div_ceil2 (length p) + 4) v"
    "has_at buf (Suc (Suc pos) + div_ceil2 (length p) + 4 + length v) (write_ref (tref P (TLeaf p v)))"
    using TLeaf.prems(3) unfolding enc.simps has_at_append by simp_all
  show ?case
    using wf_lengths(1) [of p v r] TLeaf.prems h read_tref_at [OF assms(1) h(5)]
    by (simp add: f codec unat_word32)
next
  case (TExt p t)
  then obtain f where f: "fuel = Suc f" by (cases fuel) auto
  let ?k = "Suc (Suc pos) + div_ceil2 (length p)"
  let ?m = "?k + length (write_ref (tref P (TExt p t)))"
  have h: "has_at buf pos [2]" "has_at buf (Suc pos) (nib_path p)"
    "has_at buf ?k (write_ref (tref P (TExt p t)))" "has_at buf ?m (enc P t)"
    using TExt.prems(3) unfolding enc.simps has_at_append by simp_all
  have "read_node P f buf ?m = Ok (mat P t, ?m + length (enc P t))"
    using TExt.prems wf_lengths(2) [of p t r] h f by (intro TExt.IH [of "r - length p"]) auto
  then show ?case
    using wf_lengths(2) [of p t r] TExt.prems h read_tref_at [OF assms(1) h(3)]
    by (simp add: f codec)
next
  case (TBranch ts)
  then obtain f where f: "fuel = Suc f" by (cases fuel) (simp_all del: enc.simps)
  let ?bm = "branch_bitmap (map (\<lambda>c. c \<noteq> None) ts)"
  let ?bs = "somes (map (map_option (enc P)) ts)"
  let ?r = "length (write_ref (tref P (TBranch ts)))"
  have l: "length ts = 16" using TBranch.prems(1) by (simp add: wf0_def)
  have h: "has_at buf pos [3]" "has_at buf (Suc pos) (le_bytes 2 (unat ?bm))"
    "has_at buf (Suc pos + 2) (write_ref (tref P (TBranch ts)))"
    "has_at buf (Suc pos + 2 + ?r) (concat (map (\<lambda>b. le_bytes 4 (length b)) ?bs))"
    "has_at buf (Suc pos + 2 + ?r + length ?bs * 4) (concat ?bs)"
    using TBranch.prems(3) unfolding enc.simps Let_def has_at_append
    by (simp_all add: length_len_table del: not_None_eq)
  have ones: "count_ones ?bm = length ?bs" using count_ones_bitmap [OF l] by (simp add: somes_map)
  have "read_slots (read_node P f buf) ?bm [0..<16] (Suc pos + 2 + ?r + length ?bs * 4) =
     Ok (map (map_option (mat P)) ts, Suc pos + 2 + ?r + length ?bs * 4 + length (concat ?bs))"
  proof (rule read_slots_at [OF bitmap_slots [OF l] h(5)])
    fix t pos
    assume "Some t \<in> set ts" and "has_at buf pos (enc P t)"
    then show "read_node P f buf pos = Ok (mat P t, pos + length (enc P t))"
      using TBranch.prems enc_child_less [of t ts P] f wf_lengths(3) [of ts r t]
      by (intro TBranch.IH [of "Some t" t "r - 1"]) (auto simp del: enc.simps)
  qed
  then show ?case
    using TBranch.prems h read_tref_at [OF assms(1) h(3)] ones
    by (simp add: f codec Let_def length_len_table del: not_None_eq)
next
  case (TAcct p n b c s)
  then obtain f where f: "fuel = Suc f" by (cases fuel) auto
  let ?k = "Suc (Suc pos) + div_ceil2 (length p)"
  have w: "length p \<le> r" "nibs_ok p" "wf0 s 64" "length c = 32"
    using TAcct.prems(1) wf_lengths(4) by blast+
  have h: "has_at buf pos [5]" "has_at buf (Suc pos) (nib_path p)"
    "has_at buf ?k (le_bytes 8 (unat n))" "has_at buf (?k + 8) (be_bytes 32 (unat b))"
    "has_at buf (?k + 8 + 32) c" "has_at buf (?k + 8 + 32 + 32) (enc P s)"
    using TAcct.prems(3) w(4) unfolding enc.simps has_at_append by simp_all
  have "read_node P f buf (?k + 8 + 32 + 32) = Ok (mat P s, ?k + 8 + 32 + 32 + length (enc P s))"
    using TAcct.prems w h f by (intro TAcct.IH [of 64]) auto
  then show ?case
    using TAcct.prems w h account_node_mat [of P "mat P s" s]
    by (simp add: f read_u8_at read_nib_path_at read_bytes_at nonce_rt balance_rt)
qed

lemma extract_ref_enc:
  assumes "keccak_len P" and "wf t r" and "r \<le> 128" and "rawable t" and "length (enc P t) < 2 ^ 32"
  shows "extract_ref P (enc P t) = Ok (tref P t)"
proof (cases t)
  case (TLeaf p v)
  let ?k = "Suc (Suc 0) + div_ceil2 (length p)"
  have h0: "has_at (enc P t) 0 (enc P t)" by simp
  have h: "has_at (enc P t) 0 [1]" "has_at (enc P t) (Suc 0) (nib_path p)"
    "has_at (enc P t) ?k (le_bytes 4 (length v))" "has_at (enc P t) (?k + 4) v"
    "has_at (enc P t) (?k + 4 + length v) (write_ref (tref P (TLeaf p v)))"
    using h0 unfolding TLeaf enc.simps has_at_append by simp_all
  have v: "length v < 2 ^ 32" using assms(5) TLeaf by simp
  show ?thesis
    using wf_lengths(1) [of p v r] assms TLeaf h v read_tref_at [OF assms(1) h(5)]
    by (simp add: extract_ref_def codec unat_word32 wf0_def del: enc.simps)
next
  case (TExt p u)
  let ?k = "Suc (Suc 0) + div_ceil2 (length p)"
  have h0: "has_at (enc P t) 0 (enc P t)" by simp
  have h: "has_at (enc P t) 0 [2]" "has_at (enc P t) (Suc 0) (nib_path p)"
    "has_at (enc P t) ?k (write_ref (tref P (TExt p u)))"
    using h0 unfolding TExt enc.simps has_at_append by simp_all
  show ?thesis
    using wf_lengths(2) [of p u r] assms TExt h read_tref_at [OF assms(1) h(3)]
    by (simp add: extract_ref_def codec wf0_def del: enc.simps)
next
  case (TBranch ts)
  let ?bm = "branch_bitmap (map (\<lambda>c. c \<noteq> None) ts)"
  have h0: "has_at (enc P t) 0 (enc P t)" by simp
  have h: "has_at (enc P t) 0 [3]" "has_at (enc P t) (Suc 0) (le_bytes 2 (unat ?bm))"
    "has_at (enc P t) (Suc 0 + 2) (write_ref (tref P (TBranch ts)))"
    using h0 unfolding TBranch enc.simps Let_def has_at_append by (simp_all del: not_None_eq)
  show ?thesis
    using TBranch h(1,2) read_tref_at [OF assms(1) h(3)]
    by (simp add: extract_ref_def codec del: enc.simps not_None_eq)
qed (use assms in auto)

lemma lz_lens_at:
  "has_at buf pos (concat (map (\<lambda>b. le_bytes 4 (length b)) bs)) \<Longrightarrow> \<forall>b \<in> set bs. length b < 2 ^ 32 \<Longrightarrow>
     lz_lens (length bs) buf pos = Ok (map length bs, pos + length bs * 4)"
proof (induction bs arbitrary: pos)
  case (Cons b bs)
  then have "has_at buf pos (le_bytes 4 (length b))"
    "has_at buf (pos + 4) (concat (map (\<lambda>b. le_bytes 4 (length b)) bs))"
    by (simp_all add: has_at_append)
  then show ?case using Cons by (simp add: read_u32_at unat_word32)
qed simp

lemma enc_tag:
  "\<exists>tl. enc P t = (case t of TEmpty \<Rightarrow> 0 | TLeaf _ _ \<Rightarrow> 1 | TExt _ _ \<Rightarrow> 2 | TBranch _ \<Rightarrow> 3 | TAcct _ _ _ _ _ \<Rightarrow> 5) # tl"
  by (cases t) (auto simp: Let_def)

lemma lz_slots_at:
  assumes "list_all2 (\<lambda>i t. has_bit bm i = (t \<noteq> None)) is ts"
    and "has_at buf pos (concat (somes (map (map_option (enc P)) ts)))"
    and "\<And>t. Some t \<in> set ts \<Longrightarrow> wf t r \<and> length (enc P t) < 2 ^ 32"
    and "\<And>t pos. Some t \<in> set ts \<Longrightarrow> has_at buf pos (enc P t) \<Longrightarrow>
       \<exists>n. rd pos = Ok (n, pos + length (enc P t)) \<and> repr P n t"
    and "keccak_len P" and "r \<le> 128"
  shows "\<exists>cs. lz_slots P rd buf bm is (map length (somes (map (map_option (enc P)) ts))) pos =
    Ok (cs, pos + length (concat (somes (map (map_option (enc P)) ts)))) \<and>
    list_all2 (rel_option (repr P)) cs ts"
  using assms(1-4)
proof (induction "is" ts arbitrary: pos rule: list_all2_induct)
  case (Cons i "is" t ts)
  show ?case
  proof (cases t)
    case None
    then obtain cs where "lz_slots P rd buf bm is (map length (somes (map (map_option (enc P)) ts))) pos =
        Ok (cs, pos + length (concat (somes (map (map_option (enc P)) ts))))"
        "list_all2 (rel_option (repr P)) cs ts"
      using Cons.IH [of pos] Cons.prems by auto
    then show ?thesis using None Cons.hyps by auto
  next
    case (Some u)
    let ?k = "pos + length (enc P u)"
    have h: "has_at buf pos (enc P u)" "has_at buf ?k (concat (somes (map (map_option (enc P)) ts)))"
      using Cons.prems(1) Some by (auto simp: has_at_append)
    obtain cs where cs: "lz_slots P rd buf bm is (map length (somes (map (map_option (enc P)) ts))) ?k =
        Ok (cs, ?k + length (concat (somes (map (map_option (enc P)) ts))))"
        "list_all2 (rel_option (repr P)) cs ts"
      using Cons.IH [of ?k] Cons.prems h by auto
    have u: "wf u r" "length (enc P u) < 2 ^ 32" using Cons.prems(2) Some by auto
    obtain tl where tl: "enc P u = (case u of TEmpty \<Rightarrow> 0 | TLeaf _ _ \<Rightarrow> 1 | TExt _ _ \<Rightarrow> 2 |
        TBranch _ \<Rightarrow> 3 | TAcct _ _ _ _ _ \<Rightarrow> 5) # tl" using enc_tag by blast
    then have tag: "peek_u8 buf pos = Ok (case u of TEmpty \<Rightarrow> 0 | TLeaf _ _ \<Rightarrow> 1 | TExt _ _ \<Rightarrow> 2 |
        TBranch _ \<Rightarrow> 3 | TAcct _ _ _ _ _ \<Rightarrow> 5)" using h(1) peek_u8_at by metis
    show ?thesis
    proof (cases "rawable u")
      case True
      have "extract_ref P (slice buf pos (length (enc P u))) = Ok (tref P u)"
        using extract_ref_enc [OF assms(5) u(1) assms(6) True u(2)] h(1) by (simp add: has_at_slice)
      moreover have "\<not> length buf < ?k" using has_at_le [OF h(1)] by simp
      moreover have "peek_u8 buf pos \<in> {Ok 1, Ok 2, Ok 3}" using tag True by (cases u) auto
      moreover have "repr P (Raw buf pos (length (enc P u)) (tref P u)) u"
        using h(1) u(2) True by simp
      ultimately show ?thesis using Some Cons.hyps cs by (auto simp: Let_def)
    next
      case False
      then have "peek_u8 buf pos = Ok 0 \<or> peek_u8 buf pos = Ok 5" using tag by (cases u) auto
      moreover obtain n where "rd pos = Ok (n, ?k)" "repr P n u"
        using Cons.prems(3) [of u pos] Some h(1) by auto
      ultimately show ?thesis using Some Cons.hyps cs by auto
    qed
  qed
qed simp

fun is_raw :: "node \<Rightarrow> bool" where
  "is_raw (Raw buf off len nref) = True"
| "is_raw _ = False"

lemma lz_node_enc:
  assumes "keccak_len P" and "wf0 t r" and "r \<le> 128" and "has_at buf pos (enc P t)"
    and "length (enc P t) < 2 ^ 32" and "length (enc P t) \<le> fuel"
  shows "\<exists>n. lz_node P fuel buf pos = Ok (n, pos + length (enc P t)) \<and> repr P n t \<and> \<not> is_raw n"
  using assms(2-6)
proof (induction t arbitrary: r pos fuel)
  case TEmpty
  then show ?case by (cases fuel) (auto simp: codec)
next
  case (TLeaf p v)
  then obtain f where f: "fuel = Suc f" by (cases fuel) auto
  have h: "has_at buf pos [1]" "has_at buf (Suc pos) (nib_path p)"
    "has_at buf (Suc (Suc pos) + div_ceil2 (length p)) (le_bytes 4 (length v))"
    "has_at buf (Suc (Suc pos) + div_ceil2 (length p) + 4) v"
    "has_at buf (Suc (Suc pos) + div_ceil2 (length p) + 4 + length v) (write_ref (tref P (TLeaf p v)))"
    using TLeaf.prems(3) unfolding enc.simps has_at_append by simp_all
  show ?case
    using wf_lengths(1) [of p v r] TLeaf.prems h read_tref_at [OF assms(1) h(5)]
    by (simp add: f codec unat_word32)
next
  case (TExt p t)
  then obtain f where f: "fuel = Suc f" by (cases fuel) auto
  let ?k = "Suc (Suc pos) + div_ceil2 (length p)"
  let ?m = "?k + length (write_ref (tref P (TExt p t)))"
  have h: "has_at buf pos [2]" "has_at buf (Suc pos) (nib_path p)"
    "has_at buf ?k (write_ref (tref P (TExt p t)))" "has_at buf ?m (enc P t)"
    using TExt.prems(3) unfolding enc.simps has_at_append by simp_all
  have "r - length p \<le> 128" using TExt.prems(2) by simp
  then obtain n where "lz_node P f buf ?m = Ok (n, ?m + length (enc P t))" "repr P n t"
    using TExt.IH [of "r - length p" ?m f] TExt.prems wf_lengths(2) [of p t r] h f by auto
  then show ?case
    using wf_lengths(2) [of p t r] TExt.prems h read_tref_at [OF assms(1) h(3)]
    by (simp add: f codec)
next
  case (TBranch ts)
  then obtain f where f: "fuel = Suc f" by (cases fuel) (simp_all del: enc.simps)
  let ?bm = "branch_bitmap (map (\<lambda>c. c \<noteq> None) ts)"
  let ?bs = "somes (map (map_option (enc P)) ts)"
  let ?r = "length (write_ref (tref P (TBranch ts)))"
  have l: "length ts = 16" using TBranch.prems(1) by (simp add: wf0_def)
  have h: "has_at buf pos [3]" "has_at buf (Suc pos) (le_bytes 2 (unat ?bm))"
    "has_at buf (Suc pos + 2) (write_ref (tref P (TBranch ts)))"
    "has_at buf (Suc pos + 2 + ?r) (concat (map (\<lambda>b. le_bytes 4 (length b)) ?bs))"
    "has_at buf (Suc pos + 2 + ?r + length ?bs * 4) (concat ?bs)"
    using TBranch.prems(3) unfolding enc.simps Let_def has_at_append
    by (simp_all add: length_len_table del: not_None_eq)
  have ones: "count_ones ?bm = length ?bs" using count_ones_bitmap [OF l] by (simp add: somes_map)
  have small: "length (enc P t) < 2 ^ 32" "length (enc P t) \<le> f" if "Some t \<in> set ts" for t
    using enc_child_less [OF that, of P] TBranch.prems(4,5) f by (auto simp del: enc.simps)
  have lens: "lz_lens (length ?bs) buf (Suc pos + 2 + ?r) =
      Ok (map length ?bs, Suc pos + 2 + ?r + length ?bs * 4)"
    using h(4) small(1) by (intro lz_lens_at) (auto simp: somes_map set_somes)
  have "\<exists>cs. lz_slots P (lz_node P f buf) buf ?bm [0..<16] (map length ?bs) (Suc pos + 2 + ?r + length ?bs * 4) =
     Ok (cs, Suc pos + 2 + ?r + length ?bs * 4 + length (concat ?bs)) \<and>
     list_all2 (rel_option (repr P)) cs ts"
  proof (rule lz_slots_at [OF bitmap_slots [OF l] h(5)])
    fix t
    assume t: "Some t \<in> set ts"
    then show "wf t (r - 1) \<and> length (enc P t) < 2 ^ 32"
      using TBranch.prems(1) small(1) by (simp add: wf0_def)
    fix pos
    assume "has_at buf pos (enc P t)"
    then show "\<exists>n. lz_node P f buf pos = Ok (n, pos + length (enc P t)) \<and> repr P n t"
      using TBranch.IH [of "Some t" t "r - 1" pos f] TBranch.prems(2) small t
        wf_lengths(3) [OF TBranch.prems(1) t] le_trans [OF diff_le_self TBranch.prems(2)] by auto
  qed (use assms(1) TBranch.prems in auto)
  then obtain cs where "lz_slots P (lz_node P f buf) buf ?bm [0..<16] (map length ?bs)
       (Suc pos + 2 + ?r + length ?bs * 4) = Ok (cs, Suc pos + 2 + ?r + length ?bs * 4 + length (concat ?bs))"
     "list_all2 (rel_option (repr P)) cs ts" by blast
  then show ?case
    using TBranch.prems h read_tref_at [OF assms(1) h(3)] ones lens
    by (simp add: f codec Let_def length_len_table del: not_None_eq)
next
  case (TAcct p n b c s)
  then obtain f where f: "fuel = Suc f" by (cases fuel) auto
  let ?k = "Suc (Suc pos) + div_ceil2 (length p)"
  have w: "length p \<le> r" "nibs_ok p" "wf0 s 64" "length c = 32"
    using TAcct.prems(1) wf_lengths(4) by blast+
  have h: "has_at buf pos [5]" "has_at buf (Suc pos) (nib_path p)"
    "has_at buf ?k (le_bytes 8 (unat n))" "has_at buf (?k + 8) (be_bytes 32 (unat b))"
    "has_at buf (?k + 8 + 32) c" "has_at buf (?k + 8 + 32 + 32) (enc P s)"
    using TAcct.prems(3) w(4) unfolding enc.simps has_at_append by simp_all
  obtain m where m: "lz_node P f buf (?k + 8 + 32 + 32) = Ok (m, ?k + 8 + 32 + 32 + length (enc P s))"
      "repr P m s"
    using TAcct.IH [of 64 "?k + 8 + 32 + 32" f] TAcct.prems w h f by auto
  then show ?case
    using TAcct.prems w h account_node_mat [OF hash_node_repr [OF m(2)]]
    by (simp add: f read_u8_at read_nib_path_at read_bytes_at nonce_rt balance_rt)
qed

section \<open>Whole records\<close>

lemma parse_node_lazy_raw:
  assumes "keccak_len P" and "repr P (Raw buf off len nref) t" and "wf t r" and "r \<le> 128"
  shows "\<exists>n. parse_node_lazy P buf off len = Ok n \<and> repr P n t \<and> \<not> is_raw n"
proof -
  have h: "has_at buf off (enc P t)" "len = length (enc P t)" "len < 2 ^ 32" using assms(2) by auto
  have "length (enc P t) \<le> Suc (length buf)" using has_at_le [OF h(1)] by simp
  then show ?thesis
    using lz_node_enc [OF assms(1) _ assms(4) h(1), of "Suc (length buf)"] assms(3) h
    by (auto simp: parse_node_lazy_def wf0_def simp del: lz_node.simps)
qed

lemma serialize_repr:
  assumes "repr P n t" and "wf0 t r" and "r \<le> 128" and "nibs_ok pre" and "length pre \<le> 128"
    and "keccak_len P"
  shows "serialize_subtree \<lparr>ds_prefix = pre, ds_node = n\<rparr> =
      Ok (nib_path pre @ enc P t, length (nib_path pre @ enc P t))"
  using write_node_repr [OF assms(1-3)] write_nibble_path_ok [OF assms(4)] assms(5)
    repr_node_size [OF assms(1,6,2)]
  by (simp add: serialize_subtree_def record_size_def)

lemma deserialize_enc:
  assumes "keccak_len P" and "wf0 t r" and "r \<le> 128" and "nibs_ok pre" and "length pre \<le> 128"
    and "length (enc P t) < 2 ^ 32"
  shows "deserialize_subtree P (nib_path pre @ enc P t) = Ok \<lparr>ds_prefix = pre, ds_node = mat P t\<rparr>"
proof -
  let ?buf = "nib_path pre @ enc P t"
  have h: "has_at ?buf 0 (nib_path pre)" "has_at ?buf (length (nib_path pre)) (enc P t)"
    using has_at_whole [of ?buf] unfolding has_at_append by simp_all
  have "read_node P (Suc (length ?buf)) ?buf (length (nib_path pre)) =
      Ok (mat P t, length (nib_path pre) + length (enc P t))"
    by (rule read_node_enc [OF assms(1-3) h(2) assms(6)]) simp
  then show ?thesis
    using read_nib_path_at [OF h(1) assms(4,5)]
    by (simp add: deserialize_subtree_def is_finished_def del: read_node.simps)
qed

lemma deserialize_lazy_at_enc:
  assumes "keccak_len P" and "wf0 t r" and "r \<le> 128" and "nibs_ok pre" and "length pre \<le> 128"
    and "length (enc P t) < 2 ^ 32" and "has_at buf off (nib_path pre @ enc P t)"
  shows "\<exists>n. deserialize_subtree_lazy_at P buf off (length (nib_path pre @ enc P t)) =
       Ok \<lparr>ds_prefix = pre, ds_node = n\<rparr> \<and> repr P n t \<and> \<not> is_raw n"
proof -
  have h: "has_at buf off (nib_path pre)" "has_at buf (off + length (nib_path pre)) (enc P t)"
    using assms(7) unfolding has_at_append by simp_all
  have "length (enc P t) \<le> Suc (length buf)" using has_at_le [OF h(2)] by simp
  then obtain n where "lz_node P (Suc (length buf)) buf (off + length (nib_path pre)) =
      Ok (n, off + length (nib_path pre) + length (enc P t))" "repr P n t" "\<not> is_raw n"
    using lz_node_enc [OF assms(1-3) h(2) assms(6)] by blast
  then show ?thesis
    using read_nib_path_at [OF h(1) assms(4,5)] has_at_le [OF assms(7)]
    by (simp add: deserialize_subtree_lazy_at_def del: lz_node.simps)
qed

lemma deserialize_lazy_whole:
  "(deserialize_subtree_lazy P buf = Ok x) = (deserialize_subtree_lazy_at P buf 0 (length buf) = Ok x)"
  by (auto simp: deserialize_subtree_lazy_def deserialize_subtree_lazy_at_def res_simps
      simp del: lz_node.simps split: prod.splits if_splits)

lemma deserialize_lazy_enc:
  assumes "keccak_len P" and "wf0 t r" and "r \<le> 128" and "nibs_ok pre" and "length pre \<le> 128"
    and "length (enc P t) < 2 ^ 32"
  shows "\<exists>n. deserialize_subtree_lazy P (nib_path pre @ enc P t) = Ok \<lparr>ds_prefix = pre, ds_node = n\<rparr> \<and>
       repr P n t \<and> \<not> is_raw n"
  unfolding deserialize_lazy_whole by (rule deserialize_lazy_at_enc [OF assms has_at_whole])

end
