(* ===== verification/RecordOps.thy ===== *)
theory RecordOps
  imports Repr
begin

text \<open>
  Operations inside one flat-file record (\<^verbatim>\<open>src/lib.rs\<close>): point lookups
  (\<^verbatim>\<open>node_get\<close>, \<^verbatim>\<open>node_get_storage\<close>, \<^verbatim>\<open>follow_key\<close>), the structural
  insert (\<^verbatim>\<open>record_node_insert\<close>, \<^verbatim>\<open>place_new\<close>, \<^verbatim>\<open>rehome\<close>, \<^verbatim>\<open>apply_op\<close>)
  and the structural delete (\<^verbatim>\<open>record_node_delete\<close>, \<^verbatim>\<open>prepend_path\<close>,
  \<^verbatim>\<open>apply_delete_op\<close>). An operation that mutates \<^verbatim>\<open>&mut Node\<close> returns the
  new node. The recursive functions carry a fuel argument; the refinement
  theorems give the amount that is always enough. The \<^verbatim>\<open>store\<close> and
  \<^verbatim>\<open>cfg\<close> arguments the insert only passes down are left out.
\<close>

section \<open>Indexing\<close>

definition from_idx :: "'a list \<Rightarrow> nat \<Rightarrow> 'a list res" where
  "from_idx xs i = (if i \<le> length xs then Ok (drop i xs)
     else Err (Panic ''range start index out of range''))"

definition index :: "'a list \<Rightarrow> nat \<Rightarrow> 'a res" where
  "index xs i = (if i < length xs then Ok (xs ! i) else Err (Panic ''index out of bounds''))"

definition set_idx :: "'a list \<Rightarrow> nat \<Rightarrow> 'a \<Rightarrow> 'a list res" where
  "set_idx xs i x = (if i < length xs then Ok (xs[i := x]) else Err (Panic ''index out of bounds''))"

definition starts_with :: "'a list \<Rightarrow> 'a list \<Rightarrow> bool" where
  "starts_with xs p = (take (length p) xs = p)"

text \<open>One level of a lazily parsed subtree is parsed before it is navigated.\<close>

fun expand :: "prims \<Rightarrow> node \<Rightarrow> node res" where
  "expand P (Raw buf off len nref) = parse_node_lazy P buf off len"
| "expand P n = Ok n"

definition local_depth :: "nibs \<Rightarrow> nat" where
  "local_depth prefix = (if 64 < length prefix then length prefix - 64 else length prefix)"

section \<open>Lookups\<close>

text \<open>\<open>rd\<close> is the store's \<^verbatim>\<open>read_lazy\<close>, used on \<open>Overflow\<close> edges only.\<close>

fun node_get :: "prims \<Rightarrow> (disk_ptr \<Rightarrow> disk_subtree res) \<Rightarrow> nat \<Rightarrow> node \<Rightarrow> nibs \<Rightarrow> nat \<Rightarrow> bytes option res" where
  "node_get P rd 0 nd nibbles depth = Err NoFuel"
| "node_get P rd (Suc f) nd nibbles depth =
     (case nd of
        Empty \<Rightarrow> Ok None
      | Leaf path value nref \<Rightarrow>
          res_map (\<lambda>rest. if rest = path then Some value else None) (from_idx nibbles depth)
      | Account path nonce balance code_hash storage storage_root nref \<Rightarrow>
          res_map (\<lambda>rest. if rest = path
             then Some (account_rlp P (account_contract nonce balance storage_root code_hash))
             else None) (from_idx nibbles depth)
      | Extension path child nref \<Rightarrow>
          res_bind (from_idx nibbles depth) (\<lambda>rest.
            if starts_with rest path then node_get P rd f child nibbles (depth + length path)
            else Ok None)
      | Branch children nref \<Rightarrow>
          res_bind (index nibbles depth) (\<lambda>nib.
          res_bind (index children (unat nib)) (\<lambda>c.
            case c of Some child \<Rightarrow> node_get P rd f child nibbles (depth + 1) | None \<Rightarrow> Ok None))
      | Overflow ptr root \<Rightarrow>
          res_bind (rd ptr) (\<lambda>sub. node_get P rd f (ds_node sub) nibbles (local_depth (ds_prefix sub)))
      | Raw buf off len nref \<Rightarrow>
          res_bind (parse_node_lazy P buf off len) (\<lambda>n. node_get P rd f n nibbles depth))"

fun node_get_storage :: "prims \<Rightarrow> (disk_ptr \<Rightarrow> disk_subtree res) \<Rightarrow> nat \<Rightarrow> node \<Rightarrow> nibs \<Rightarrow> nat \<Rightarrow> bytes
    \<Rightarrow> bytes option res" where
  "node_get_storage P rd 0 nd nibbles depth slot_key = Err NoFuel"
| "node_get_storage P rd (Suc f) nd nibbles depth slot_key =
     (case nd of
        Empty \<Rightarrow> Ok None
      | Leaf path value nref \<Rightarrow> Ok None
      | Account path nonce balance code_hash storage storage_root nref \<Rightarrow>
          res_bind (from_idx nibbles depth) (\<lambda>rest.
            if rest = path then node_get P rd f storage (key_nibbles slot_key) 0 else Ok None)
      | Extension path child nref \<Rightarrow>
          res_bind (from_idx nibbles depth) (\<lambda>rest.
            if starts_with rest path
            then node_get_storage P rd f child nibbles (depth + length path) slot_key
            else Ok None)
      | Branch children nref \<Rightarrow>
          res_bind (index nibbles depth) (\<lambda>nib.
          res_bind (index children (unat nib)) (\<lambda>c.
            case c of Some child \<Rightarrow> node_get_storage P rd f child nibbles (depth + 1) slot_key
            | None \<Rightarrow> Ok None))
      | Overflow ptr root \<Rightarrow>
          res_bind (rd ptr) (\<lambda>sub.
            node_get_storage P rd f (ds_node sub) nibbles (local_depth (ds_prefix sub)) slot_key)
      | Raw buf off len nref \<Rightarrow>
          res_bind (parse_node_lazy P buf off len) (\<lambda>n.
            node_get_storage P rd f n nibbles depth slot_key))"

datatype path_end = PEOverflow disk_ptr | PEInline bool

lemma size_slot:
  assumes "i < length cs" and "cs ! i = Some c"
  shows "size c < size (Branch cs r)"
proof -
  have "size_option size (Some c) \<le> size_list (size_option size) cs"
    using assms by (intro size_list_estimation' [of "Some c"]) (auto intro: slot_mem)
  then show ?thesis by simp
qed

function follow_key :: "node \<Rightarrow> nat \<Rightarrow> bytes \<Rightarrow> path_end res" where
  "follow_key Empty depth key = Ok (PEInline False)"
| "follow_key (Leaf path value nref) depth key =
     res_map (\<lambda>rest. PEInline (rest = path)) (from_idx (key_nibbles key) depth)"
| "follow_key (Account path nonce balance code_hash storage storage_root nref) depth key =
     res_map (\<lambda>rest. PEInline (rest = path)) (from_idx (key_nibbles key) depth)"
| "follow_key (Extension path child nref) depth key =
     (let nibbles = key_nibbles key in
      if depth + length path \<le> length nibbles \<and> slice nibbles depth (length path) = path
      then follow_key child (depth + length path) key
      else Ok (PEInline False))"
| "follow_key (Branch children nref) depth key =
     (if depth div 2 < length key then
        (let idx = unat (nibble_at key depth) in
         if idx < length children then
           (case children ! idx of
              None \<Rightarrow> Ok (PEInline False)
            | Some child \<Rightarrow>
                (case child of Overflow ptr root \<Rightarrow> Ok (PEOverflow ptr)
                 | _ \<Rightarrow> follow_key child (depth + 1) key))
         else Err (Panic ''index out of bounds''))
      else Err (Panic ''index out of bounds''))"
| "follow_key (Overflow ptr root) depth key = Ok (PEOverflow ptr)"
| "follow_key (Raw buf off len nref) depth key =
     Err (Panic ''follow_key on a lazily-parsed record'')"
  by pat_completeness auto
termination
  by (relation "measure (size \<circ> fst)") (use size_slot in \<open>force+\<close>)

section \<open>Insertion\<close>

datatype leaf_op = OpValue bytes | OpAccount u64 u256 bytes | OpStorage bytes bytes

fun rehome :: "prims \<Rightarrow> node \<Rightarrow> nibs \<Rightarrow> node res" where
  "rehome P (Leaf p value nref) path = Ok (leaf_node P path value)"
| "rehome P (Account p nonce balance code_hash storage storage_root nref) path =
     Ok (account_node P path nonce balance code_hash storage)"
| "rehome P _ path = Err (Panic ''only leaf/account nodes are re-homed on divergence'')"

text \<open>
  \<open>ins\<close> is \<^verbatim>\<open>record_node_insert\<close> itself, as the functions it calls see it.
\<close>

type_synonym inserter = "node \<Rightarrow> nat \<Rightarrow> bytes \<Rightarrow> leaf_op \<Rightarrow> node res"

definition place_new :: "prims \<Rightarrow> inserter \<Rightarrow> bytes \<Rightarrow> leaf_op \<Rightarrow> nat \<Rightarrow> node res" where
  "place_new P ins key op depth =
     res_bind (from_idx (key_nibbles key) depth) (\<lambda>path.
       (case op of
          OpValue value \<Rightarrow> Ok (leaf_node P path value)
        | OpAccount nonce balance code_hash \<Rightarrow>
            Ok (account_node P path nonce balance code_hash Empty)
        | OpStorage slot value \<Rightarrow>
            res_bind (ins Empty 0 slot (OpValue value)) (\<lambda>storage.
              Ok (account_node P path 0 0 EMPTY_CODE_HASH storage))))"

fun apply_op :: "prims \<Rightarrow> inserter \<Rightarrow> node \<Rightarrow> nibs \<Rightarrow> leaf_op \<Rightarrow> node res" where
  "apply_op P ins (Leaf _ _ _) path (OpValue value) = Ok (leaf_node P path value)"
| "apply_op P ins (Leaf _ value _) path (OpAccount nonce balance code_hash) =
     (case account_decode P value of
        Some prior \<Rightarrow>
          if a_storage_root prior \<noteq> EMPTY_ROOT
          then Ok (leaf_node P path (account_rlp P
                 (account_contract nonce balance (a_storage_root prior) code_hash)))
          else Ok (account_node P path nonce balance code_hash Empty)
      | None \<Rightarrow> Ok (account_node P path nonce balance code_hash Empty))"
| "apply_op P ins (Account _ _ _ _ storage _ _) path (OpAccount nonce balance code_hash) =
     Ok (account_node P path nonce balance code_hash storage)"
| "apply_op P ins (Account _ nonce balance code_hash storage _ _) path (OpStorage slot value) =
     res_bind (ins storage 0 slot (OpValue value)) (\<lambda>storage.
       Ok (account_node P path nonce balance code_hash storage))"
| "apply_op P ins (Leaf _ value _) path (OpStorage slot sval) =
     (case account_decode P value of
        Some prior \<Rightarrow>
          if a_storage_root prior = EMPTY_ROOT
          then res_bind (ins Empty 0 slot (OpValue sval)) (\<lambda>storage.
                 Ok (account_node P path (a_nonce prior) (a_balance prior) (a_code_hash prior) storage))
          else Err (Bail ''storage write on an account with opaque storage'')
      | None \<Rightarrow> Err (Bail ''leaf op does not match the existing node kind at this key''))"
| "apply_op P ins old path op =
     Err (Bail ''leaf op does not match the existing node kind at this key'')"

text \<open>The two-child branch of a divergence, shared by the leaf and extension arms.\<close>

definition split_branch :: "prims \<Rightarrow> nibs \<Rightarrow> nat \<Rightarrow> node \<Rightarrow> byte \<Rightarrow> node \<Rightarrow> node res" where
  "split_branch P path common o' new_idx n' =
     res_bind (set_idx empty_box_children (unat (path ! common)) (Some o')) (\<lambda>children.
     res_bind (set_idx children (unat new_idx) (Some n')) (\<lambda>children.
     res_bind (make_branch P children) (\<lambda>branch.
       Ok (if common = 0 then branch else make_extension P (take common path) branch))))"

primrec record_node_insert :: "prims \<Rightarrow> nat \<Rightarrow> inserter" where
  "record_node_insert P 0 = (\<lambda>nd depth key op. Err NoFuel)"
| "record_node_insert P (Suc f) = (\<lambda>nd depth key op.
     (let ins = record_node_insert P f; nibbles = key_nibbles key in
      res_bind (expand P nd) (\<lambda>old.
        (let at_leaf = (\<lambda>path.
              res_bind (from_idx nibbles depth) (\<lambda>remaining.
                (let common = common_prefix path remaining in
                 if common = length path then apply_op P ins old path op
                 else
                   res_bind (rehome P old (drop (common + 1) path)) (\<lambda>o'.
                   res_bind (index remaining common) (\<lambda>new_idx.
                   res_bind (place_new P ins key op (depth + common + 1)) (\<lambda>n'.
                     split_branch P path common o' new_idx n')))))) in
        (case old of
           Empty \<Rightarrow> place_new P ins key op depth
         | Leaf path value nref \<Rightarrow> at_leaf path
         | Account path nonce balance code_hash storage storage_root nref \<Rightarrow> at_leaf path
         | Extension path child nref \<Rightarrow>
             res_bind (from_idx nibbles depth) (\<lambda>remaining.
               (let common = common_prefix path remaining in
                if common = length path then
                  res_bind (ins child (depth + length path) key op) (\<lambda>child.
                    Ok (make_extension P path child))
                else
                  (let old_rest = drop (common + 1) path;
                       o' = (if old_rest = [] then child else make_extension P old_rest child) in
                   res_bind (index nibbles (depth + common)) (\<lambda>new_idx.
                   res_bind (place_new P ins key op (depth + common + 1)) (\<lambda>n'.
                     split_branch P path common o' new_idx n')))))
         | Branch children nref \<Rightarrow>
             res_bind (index nibbles depth) (\<lambda>nib.
             res_bind (index children (unat nib)) (\<lambda>slot.
             res_bind (case slot of
                 None \<Rightarrow> place_new P ins key op (depth + 1)
               | Some child \<Rightarrow>
                   (case child of
                      Overflow ptr root \<Rightarrow>
                        Err (Panic ''on-disk Overflow under promote-on-max (option B)'')
                    | _ \<Rightarrow> ins child (depth + 1) key op)) (\<lambda>child.
               make_branch P (children[unat nib := Some child]))))
         | Overflow ptr root \<Rightarrow>
             Err (Panic ''overflow is only reached via its parent branch slot'')
         | Raw buf off len nref \<Rightarrow> Err (Panic ''Raw is expanded before the match''))))))"

declare record_node_insert.simps(2) [simp del]

section \<open>Deletion\<close>

datatype delete_op = DelValue | DelAccount | DelStorage bytes | DelWipeStorage

datatype node_delete = Absent | Changed | Removed

datatype applied = ApAbsent node | ApChanged node | ApRemoved

definition prepend_path :: "prims \<Rightarrow> node \<Rightarrow> nibs \<Rightarrow> node res" where
  "prepend_path P nd edge =
     res_bind (expand P nd) (\<lambda>n.
       if edge = [] then Ok n
       else (case n of
          Leaf path value nref \<Rightarrow> Ok (leaf_node P (edge @ path) value)
        | Account path nonce balance code_hash storage storage_root nref \<Rightarrow>
            Ok (account_node P (edge @ path) nonce balance code_hash storage)
        | Extension path child nref \<Rightarrow> Ok (make_extension P (edge @ path) child)
        | Branch children nref \<Rightarrow> Ok (make_extension P edge (Branch children nref))
        | _ \<Rightarrow> Err (Panic ''only leaf/account/extension/branch survivors are re-rooted'')))"

type_synonym deleter = "node \<Rightarrow> nat \<Rightarrow> bytes \<Rightarrow> delete_op \<Rightarrow> (node \<times> node_delete) res"

fun apply_delete_op :: "prims \<Rightarrow> deleter \<Rightarrow> node \<Rightarrow> delete_op \<Rightarrow> applied res" where
  "apply_delete_op P del (Leaf path value nref) DelValue = Ok ApRemoved"
| "apply_delete_op P del (Leaf path value nref) DelAccount = Ok ApRemoved"
| "apply_delete_op P del (Account path nonce balance code_hash storage storage_root nref) DelAccount =
     Ok ApRemoved"
| "apply_delete_op P del (Account path nonce balance code_hash storage storage_root nref) (DelStorage slot) =
     res_bind (del storage 0 slot DelValue) (\<lambda>(storage, out).
       (case out of
          Absent \<Rightarrow> Ok (ApAbsent (account_node P path nonce balance code_hash storage))
        | Removed \<Rightarrow> Ok (ApChanged (account_node P path nonce balance code_hash Empty))
        | Changed \<Rightarrow> Ok (ApChanged (account_node P path nonce balance code_hash storage))))"
| "apply_delete_op P del (Account path nonce balance code_hash storage storage_root nref) DelWipeStorage =
     (if storage = Empty
      then Ok (ApAbsent (account_node P path nonce balance code_hash Empty))
      else Ok (ApChanged (account_node P path nonce balance code_hash Empty)))"
| "apply_delete_op P del (Leaf path value nref) (DelStorage slot) =
     (case account_decode P value of
        Some prior \<Rightarrow>
          if a_storage_root prior = EMPTY_ROOT then Ok (ApAbsent (Leaf path value nref))
          else Err (Bail ''storage delete on an account with opaque storage'')
      | None \<Rightarrow> Err (Bail ''delete op does not match the existing node kind at this key''))"
| "apply_delete_op P del (Leaf path value nref) DelWipeStorage =
     (case account_decode P value of
        Some prior \<Rightarrow>
          if a_storage_root prior = EMPTY_ROOT then Ok (ApAbsent (leaf_node P path value))
          else Ok (ApChanged (account_node P path (a_nonce prior) (a_balance prior)
                 (a_code_hash prior) Empty))
      | None \<Rightarrow> Err (Bail ''delete op does not match the existing node kind at this key''))"
| "apply_delete_op P del old op =
     Err (Bail ''delete op does not match the existing node kind at this key'')"

text \<open>The branch arm once a child is gone: \<open>children\<close> already has the emptied slot.\<close>

definition drop_child :: "prims \<Rightarrow> node option list \<Rightarrow> (node \<times> node_delete) res" where
  "drop_child P children =
     (case filter (\<lambda>j. children ! j \<noteq> None) [0..<length children] of
        [] \<Rightarrow> Ok (Empty, Removed)
      | [j] \<Rightarrow>
          res_map (\<lambda>n. (n, Changed)) (prepend_path P (the (children ! j)) [word_of_nat j])
      | _ \<Rightarrow> res_map (\<lambda>n. (n, Changed)) (make_branch P children))"

primrec record_node_delete :: "prims \<Rightarrow> nat \<Rightarrow> deleter" where
  "record_node_delete P 0 = (\<lambda>nd depth key op. Err NoFuel)"
| "record_node_delete P (Suc f) = (\<lambda>nd depth key op.
     (let del = record_node_delete P f; nibbles = key_nibbles key in
      res_bind (expand P nd) (\<lambda>old.
        (let at_leaf = (\<lambda>path.
              res_bind (from_idx nibbles depth) (\<lambda>rest.
                if path = rest then
                  res_bind (apply_delete_op P del old op) (\<lambda>a.
                    (case a of
                       ApAbsent n \<Rightarrow> Ok (n, Absent)
                     | ApChanged n \<Rightarrow> Ok (n, Changed)
                     | ApRemoved \<Rightarrow> Ok (Empty, Removed)))
                else Ok (old, Absent))) in
        (case old of
           Empty \<Rightarrow> Ok (Empty, Absent)
         | Leaf path value nref \<Rightarrow> at_leaf path
         | Account path nonce balance code_hash storage storage_root nref \<Rightarrow> at_leaf path
         | Extension path child nref \<Rightarrow>
             res_bind (from_idx nibbles depth) (\<lambda>rest.
               if starts_with rest path then
                 res_bind (del child (depth + length path) key op) (\<lambda>(child, out).
                   (case out of
                      Absent \<Rightarrow> Ok (Extension path child nref, Absent)
                    | Removed \<Rightarrow> Ok (Empty, Removed)
                    | Changed \<Rightarrow> res_map (\<lambda>n. (n, Changed)) (prepend_path P child path)))
               else Ok (Extension path child nref, Absent))
         | Branch children nref \<Rightarrow>
             res_bind (index nibbles depth) (\<lambda>nib.
             res_bind (index children (unat nib)) (\<lambda>slot.
             (case slot of
                None \<Rightarrow> Ok (Branch children nref, Absent)
              | Some c \<Rightarrow>
                  res_bind (case c of
                      Overflow ptr root \<Rightarrow>
                        Err (Panic ''on-disk Overflow under promote-on-max (option B)'')
                    | _ \<Rightarrow> del c (depth + 1) key op) (\<lambda>(c', out).
                    (case out of
                       Absent \<Rightarrow> Ok (Branch (children[unat nib := Some c']) nref, Absent)
                     | Changed \<Rightarrow>
                         res_map (\<lambda>n. (n, Changed)) (make_branch P (children[unat nib := Some c']))
                     | Removed \<Rightarrow> drop_child P (children[unat nib := None]))))))
         | Overflow ptr root \<Rightarrow>
             Err (Panic ''overflow is only reached via its parent branch slot'')
         | Raw buf off len nref \<Rightarrow> Err (Panic ''Raw is expanded before the match''))))))"

declare record_node_delete.simps(2) [simp del]

end
