(* ===== verification/RecordProofs.thy ===== *)
theory RecordProofs
  imports RecordOps
begin

text \<open>
  Refinement of the record operations to the trie specification. \<open>spec_op\<close> and
  \<open>spec_del\<close> say what an operation does to the one leaf it names; the theorems
  show that the structural insert and delete, run on any node that represents a
  canonical trie, return a node that represents that trie with exactly this leaf
  updated, and that they report exactly the errors of the leaf operation.
\<close>

section \<open>What an operation does to its leaf\<close>

definition store_slot :: "trie \<Rightarrow> bytes \<Rightarrow> bytes \<Rightarrow> trie" where
  "store_slot s slot v = tput s (key_nibbles slot) (LVal v)"

fun spec_op :: "prims \<Rightarrow> leaf option \<Rightarrow> leaf_op \<Rightarrow> leaf res" where
  "spec_op P None (OpValue v) = Ok (LVal v)"
| "spec_op P None (OpAccount n b c) = Ok (LAcct n b c TEmpty)"
| "spec_op P None (OpStorage slot v) = Ok (LAcct 0 0 EMPTY_CODE_HASH (store_slot TEmpty slot v))"
| "spec_op P (Some (LVal x)) (OpValue v) = Ok (LVal v)"
| "spec_op P (Some (LVal x)) (OpAccount n b c) =
     (case account_decode P x of
        Some a \<Rightarrow> if a_storage_root a \<noteq> EMPTY_ROOT then Ok (LVal (acct_value P n b c (a_storage_root a)))
                 else Ok (LAcct n b c TEmpty)
      | None \<Rightarrow> Ok (LAcct n b c TEmpty))"
| "spec_op P (Some (LVal x)) (OpStorage slot v) =
     (case account_decode P x of
        Some a \<Rightarrow> if a_storage_root a = EMPTY_ROOT
                 then Ok (LAcct (a_nonce a) (a_balance a) (a_code_hash a) (store_slot TEmpty slot v))
                 else Err (Bail ''storage write on an account with opaque storage'')
      | None \<Rightarrow> Err (Bail ''leaf op does not match the existing node kind at this key''))"
| "spec_op P (Some (LAcct n b c s)) (OpValue v) =
     Err (Bail ''leaf op does not match the existing node kind at this key'')"
| "spec_op P (Some (LAcct n b c s)) (OpAccount n' b' c') = Ok (LAcct n' b' c' s)"
| "spec_op P (Some (LAcct n b c s)) (OpStorage slot v) = Ok (LAcct n b c (store_slot s slot v))"

text \<open>Keys are 32-byte arrays in the source, and so are code hashes.\<close>

fun op_ok :: "leaf_op \<Rightarrow> bool" where
  "op_ok (OpValue v) = True"
| "op_ok (OpAccount n b c) = (length c = 32)"
| "op_ok (OpStorage slot v) = (length slot = 32)"

text \<open>The decoder returns hashes of 32 bytes (its result type holds \<^verbatim>\<open>B256\<close>).\<close>

definition decode_typed :: "prims \<Rightarrow> bool" where
  "decode_typed P = (\<forall>x a. account_decode P x = Some a \<longrightarrow>
     length (a_code_hash a) = 32 \<and> length (a_storage_root a) = 32)"

definition refines :: "prims \<Rightarrow> node res \<Rightarrow> (leaf \<Rightarrow> trie) \<Rightarrow> leaf res \<Rightarrow> bool" where
  "refines P m g s = (case s of Ok l \<Rightarrow> \<exists>n. m = Ok n \<and> repr P n (g l) | Err e \<Rightarrow> m = Err e)"

section \<open>Keys\<close>

lemma length_key_nibbles [simp]: "length (key_nibbles k) = 2 * length k"
  by (induction k) (auto simp: key_nibbles_def)

lemma low_nibble: "b AND 0x0f < (16 :: byte)"
proof -
  have "b AND 0x0f = take_bit 4 b" by (simp add: take_bit_eq_mask mask_eq_exp_minus_1)
  moreover have "unat (take_bit 4 b) = take_bit 4 (unat b)" by (simp add: unsigned_take_bit_eq)
  moreover have "take_bit 4 (unat b) < 16" by (simp add: take_bit_eq_mod)
  ultimately show ?thesis by (simp add: word_less_nat_alt)
qed

lemma high_nibble: "drop_bit 4 b < (16 :: byte)"
proof -
  have "unat (drop_bit 4 b) = drop_bit 4 (unat b)" by (rule unat_drop_bit_eq)
  then show ?thesis using unat_byte_less [of b] by (simp add: word_less_nat_alt drop_bit_eq_div)
qed

lemma nibs_ok_key_nibbles [simp]: "nibs_ok (key_nibbles k)"
  by (induction k) (auto simp: key_nibbles_def low_nibble high_nibble)

section \<open>Constructors\<close>

lemma repr_leaf_node [simp, intro]: "repr P (leaf_node P p v) (TLeaf p v)"
  by (simp add: leaf_node_def)

lemma repr_account_node [intro]:
  "repr P s ts \<Longrightarrow> repr P (account_node P p n b c s) (TAcct p n b c ts)"
  by (simp add: account_node_mat [OF hash_node_repr])

lemma repr_make_extension [intro]: "repr P n t \<Longrightarrow> repr P (make_extension P p n) (TExt p t)"
  by (simp add: make_extension_def hash_node_repr)

lemma branch_items_slots:
  "list_all2 (\<lambda>i r. has_bit bm i = (r \<noteq> None)) is rs \<Longrightarrow>
     branch_items P bm is (somes rs) = Ok (slot_items P rs)"
proof (induction "is" rs rule: list_all2_induct)
  case (Cons i "is" r rs)
  then show ?case by (cases r) (auto simp: slot_items_def)
qed (simp add: slot_items_def)

lemma make_branch_repr:
  assumes "list_all2 (rel_option (repr P)) cs ts" and "length ts = 16"
  shows "make_branch P cs = Ok (Branch cs (tref P (TBranch ts)))"
proof -
  let ?rs = "map (map_option (tref P)) ts"
  have "map (map_option (hash_node P)) cs = ?rs"
    using assms(1) by (induction cs ts rule: list_all2_induct)
      (auto simp: rel_option_iff hash_node_repr split: option.splits)
  then have refs: "map (hash_node P) (somes cs) = somes ?rs" by (metis somes_map)
  have "map (\<lambda>c. c \<noteq> None) cs = map (\<lambda>c. c \<noteq> None) ?rs"
    using repr_present [OF assms(1)] by simp
  moreover have "length ?rs = 16" using assms(2) by simp
  ultimately have "branch_items P (branch_bitmap (map (\<lambda>c. c \<noteq> None) cs)) [0..<16] (somes ?rs) =
      Ok (slot_items P ?rs)"
    by (simp only: branch_items_slots [OF bitmap_slots])
  then show ?thesis
    by (simp add: make_branch_def branch_node_ref_def branch_ref_def refs del: not_None_eq)
qed

lemma expand_repr:
  assumes "keccak_len P" and "repr P n t" and "wf0 t r" and "r \<le> 128"
  obtains n' where "expand P n = Ok n'" and "repr P n' t" and "\<not> is_raw n'"
proof (cases "is_raw n")
  case True
  then obtain buf off len nref where n: "n = Raw buf off len nref" by (cases n) auto
  then have "wf t r" using assms(2,3) by (cases t) (auto simp: wf0_def)
  then show thesis using that parse_node_lazy_raw [of P buf off len nref t r] n assms by auto
next
  case False
  then show thesis using that assms by (cases n) auto
qed

section \<open>Insertion\<close>

lemma repr_fork_branch:
  assumes "repr P o' t" and "repr P n' u" and "i < 16" and "j < 16" and "take c p = q"
    and "p ! c = i" and "c \<le> length p"
  shows "\<exists>n. split_branch P p c o' j n' = Ok n \<and> repr P n (fork q i t j u)"
proof -
  let ?cs = "empty_box_children[unat i := Some o', unat j := Some n']"
  let ?ts = "(replicate 16 None)[unat i := Some t, unat j := Some u]"
  have ij: "unat i < 16" "unat j < 16" using assms(3,4) by (auto intro: nibble_unat)
  moreover have r: "list_all2 (rel_option (repr P)) ?cs ?ts"
    using assms(1,2) ij by (auto simp: empty_box_children_def list_all2_conv_all_nth nth_list_update)
  ultimately show ?thesis
    using assms make_branch_repr [OF r]
    by (auto simp: split_branch_def set_idx_def empty_box_children_def fork_def ext_if_def)
qed

lemma repr_leaf_cases:
  assumes "repr P n (mk_leaf p l)" and "\<not> is_raw n"
  shows "(\<exists>v r. l = LVal v \<and> n = Leaf p v r) \<or>
     (\<exists>no b c ts s sr r. l = LAcct no b c ts \<and> n = Account p no b c s sr r \<and> repr P s ts)"
  using assms by (cases l; cases n) auto

lemma rehome_repr:
  assumes "repr P n (mk_leaf p l)" and "\<not> is_raw n"
  shows "\<exists>n'. rehome P n q = Ok n' \<and> repr P n' (mk_leaf q l)"
  using repr_leaf_cases [OF assms] by (auto intro: repr_account_node)

lemma drop_key:
  assumes "length key = 32" and "d \<le> 64"
  shows "from_idx (key_nibbles key) d = Ok (drop d (key_nibbles key))"
  using assms by (simp add: from_idx_def)

definition op_sound :: "prims \<Rightarrow> bytes \<Rightarrow> leaf_op \<Rightarrow> nat \<Rightarrow> bool" where
  "op_sound P key op k \<longleftrightarrow>
     (\<forall>f d. k \<le> f \<longrightarrow> d \<le> 64 \<longrightarrow>
        refines P (place_new P (record_node_insert P f) key op d) (mk_leaf (drop d (key_nibbles key)))
          (spec_op P None op)) \<and>
     (\<exists>l0. spec_op P None op = Ok l0) \<and>
     (\<forall>f old p l. k \<le> f \<longrightarrow> repr P old (mk_leaf p l) \<longrightarrow> leaf_ok l \<longrightarrow> \<not> is_raw old \<longrightarrow>
        refines P (apply_op P (record_node_insert P f) old p op) (mk_leaf p) (spec_op P (Some l) op))"

lemma op_sound_place:
  assumes "op_sound P key op k" and "k \<le> f" and "d \<le> 64" and "spec_op P None op = Ok l0"
  obtains n where "place_new P (record_node_insert P f) key op d = Ok n"
    and "repr P n (mk_leaf (drop d (key_nibbles key)) l0)"
proof -
  have "refines P (place_new P (record_node_insert P f) key op d) (mk_leaf (drop d (key_nibbles key)))
      (spec_op P None op)"
    using assms(1-3) unfolding op_sound_def by blast
  then show thesis using that assms(4) by (auto simp: refines_def)
qed

lemma op_sound_apply:
  "op_sound P key op k \<Longrightarrow> k \<le> f \<Longrightarrow> repr P old (mk_leaf p l) \<Longrightarrow> leaf_ok l \<Longrightarrow> \<not> is_raw old \<Longrightarrow>
     refines P (apply_op P (record_node_insert P f) old p op) (mk_leaf p) (spec_op P (Some l) op)"
  by (simp add: op_sound_def)

text \<open>Descending to a leaf: update it in place, or split it off below a new branch.\<close>

lemma insert_at_leaf:
  assumes key: "length key = 32" and S: "op_sound P key op k" and f: "k \<le> f"
    and old: "expand P n = Ok old" "repr P old (mk_leaf p l)" "\<not> is_raw old"
    and wf: "wf (mk_leaf p l) r" and d: "d + r = 64"
  shows "refines P (record_node_insert P (Suc f) n d key op) (leaf_put p l (drop d (key_nibbles key)))
    (spec_op P (tlook (mk_leaf p l) (drop d (key_nibbles key))) op)"
proof -
  let ?k = "drop d (key_nibbles key)"
  have len: "length p = length ?k" "nibs_ok p" "leaf_ok l" using wf d key by auto
  have step: "record_node_insert P (Suc f) n d key op =
     (let common = common_prefix p ?k in
      if common = length p then apply_op P (record_node_insert P f) old p op
      else res_bind (rehome P old (drop (common + 1) p)) (\<lambda>o'.
           res_bind (index ?k common) (\<lambda>new_idx.
           res_bind (place_new P (record_node_insert P f) key op (d + common + 1)) (\<lambda>n'.
             split_branch P p common o' new_idx n'))))"
    using repr_leaf_cases [OF old(2,3)] old(1) d drop_key [OF key, of d]
    by (auto simp: record_node_insert.simps Let_def)
  show ?thesis
  proof (cases "common_prefix p ?k = length p")
    case True
    then have "p = ?k" using len common_prefix_eqI [of p ?k] by simp
    moreover have "leaf_put p l ?k = mk_leaf p" using True by (simp add: leaf_put_def fun_eq_iff)
    ultimately show ?thesis
      using op_sound_apply [OF S f old(2) len(3) old(3)] True unfolding step by simp
  next
    case False
    then obtain c q i p' j k' where dv: "common_prefix p ?k = c" "c < length p" "c < length ?k"
      "take c p = q" "p ! c = i" "drop (Suc c) p = p'" "?k ! c = j" "drop (Suc c) ?k = k'"
      "p = q @ i # p'" "?k = q @ j # k'" "i \<noteq> j"
      by (rule diverge) (use len in simp)
    obtain o' where o': "rehome P old p' = Ok o'" "repr P o' (mk_leaf p' l)"
      using rehome_repr [OF old(2,3)] by blast
    obtain l0 where l0: "spec_op P None op = Ok l0" using S by (auto simp: op_sound_def)
    have "d + c + 1 \<le> 64" using dv(3) key by simp
    then obtain n' where n': "place_new P (record_node_insert P f) key op (d + c + 1) = Ok n'"
        "repr P n' (mk_leaf k' l0)"
      using op_sound_place [OF S f _ l0] dv(8) by (metis Suc_eq_plus1 add.commute add_Suc_right drop_drop)
    have nib: "i < 16" "j < 16"
      using len(2) dv(9,10) nibs_ok_drop [OF nibs_ok_key_nibbles, of d key] by auto
    have "?k \<noteq> p" using dv(9-11) by auto
    moreover have "leaf_put p l ?k l0 = fork q i (mk_leaf p' l) j (mk_leaf k' l0)"
      using False dv by (simp add: leaf_put_def)
    moreover obtain m where "split_branch P p c o' j n' = Ok m"
        "repr P m (fork q i (mk_leaf p' l) j (mk_leaf k' l0))"
      using repr_fork_branch [OF o'(2) n'(2) nib dv(4,5)] dv(2) by auto
    moreover have "index ?k c = Ok j" using dv(3,7) by (simp add: index_def)
    ultimately show ?thesis
      using False dv(1,6) o'(1) n'(1) l0 unfolding step by (simp add: refines_def)
  qed
qed

lemma insert_gen:
  assumes K: "keccak_len P" and key: "length key = 32" and S: "op_sound P key op k"
  shows "wf0 t r \<Longrightarrow> d + r = 64 \<Longrightarrow> repr P n t \<Longrightarrow> r + k < fuel \<Longrightarrow>
    refines P (record_node_insert P fuel n d key op) (tput t (drop d (key_nibbles key)))
      (spec_op P (tlook t (drop d (key_nibbles key))) op)"
proof (induction t arbitrary: r d n fuel)
  case TEmpty
  then obtain f where f: "fuel = Suc f" "k \<le> f" by (cases fuel) auto
  obtain n' where "expand P n = Ok n'" "repr P n' TEmpty" "\<not> is_raw n'"
    by (rule expand_repr [OF K TEmpty.prems(3,1)]) (use TEmpty.prems in auto)
  moreover from this have "n' = Empty" by (cases n') auto
  ultimately show ?case
    using S f(2) TEmpty.prems by (auto simp: f record_node_insert.simps op_sound_def)
next
  case (TLeaf p v)
  then obtain f where f: "fuel = Suc f" "k \<le> f" by (cases fuel) auto
  obtain n' where n': "expand P n = Ok n'" "repr P n' (TLeaf p v)" "\<not> is_raw n'"
    by (rule expand_repr [OF K TLeaf.prems(3,1)]) (use TLeaf.prems in auto)
  show ?case
    using insert_at_leaf [OF key S f(2) n'(1) _ n'(3), of p "LVal v"] n'(2) TLeaf.prems f
    by (simp add: wf0_def)
next
  case (TAcct p nn b c s)
  then obtain f where f: "fuel = Suc f" "k \<le> f" by (cases fuel) auto
  obtain n' where n': "expand P n = Ok n'" "repr P n' (TAcct p nn b c s)" "\<not> is_raw n'"
    by (rule expand_repr [OF K TAcct.prems(3,1)]) (use TAcct.prems in auto)
  show ?case
    using insert_at_leaf [OF key S f(2) n'(1) _ n'(3), of p "LAcct nn b c s"] n'(2) TAcct.prems f
    by (simp add: wf0_def)
next
  case (TExt p t)
  let ?k = "drop d (key_nibbles key)"
  have p0: "0 < length p" "length p < r" using TExt.prems(1) by (auto simp: wf0_def)
  obtain f where f0: "fuel = Suc f" using TExt.prems(4) by (cases fuel) auto
  then have f: "fuel = Suc f" "r - length p + k < f" using TExt.prems(4) p0 by linarith+
  obtain n' where n': "expand P n = Ok n'" "repr P n' (TExt p t)" "\<not> is_raw n'"
    by (rule expand_repr [OF K TExt.prems(3,1)]) (use TExt.prems in auto)
  then obtain ch rf where ch: "n' = Extension p ch rf" "repr P ch t" by (cases n') auto
  have w: "length p < r" "nibs_ok p" "wf0 t (r - length p)" "length ?k = r"
    using TExt.prems key by (auto simp: wf0_def)
  have idx: "from_idx (key_nibbles key) d = Ok ?k" using TExt.prems by (intro drop_key [OF key]) auto
  show ?case
  proof (cases "common_prefix p ?k = length p")
    case True
    then have kp: "take (length p) ?k = p" by (simp add: common_prefix_full)
    have "refines P (record_node_insert P f ch (d + length p) key op)
        (tput t (drop (d + length p) (key_nibbles key)))
        (spec_op P (tlook t (drop (d + length p) (key_nibbles key))) op)"
      using TExt.prems w f ch by (intro TExt.IH [where r = "r - length p"]) auto
    then show ?thesis
      using True kp n'(1) ch(1) idx f(1)
      by (auto simp: record_node_insert.simps Let_def refines_def add.commute
          intro: repr_make_extension split: res.splits)
  next
    case False
    then obtain c q i p' j k' where dv: "common_prefix p ?k = c" "c < length p" "c < length ?k"
      "take c p = q" "p ! c = i" "drop (Suc c) p = p'" "?k ! c = j" "drop (Suc c) ?k = k'"
      "p = q @ i # p'" "?k = q @ j # k'" "i \<noteq> j"
      by (rule diverge) (use w in simp)
    obtain l0 where l0: "spec_op P None op = Ok l0" using S by (auto simp: op_sound_def)
    let ?o = "if p' = [] then ch else make_extension P p' ch"
    have o': "repr P ?o (ext_if p' t)" using ch(2) by (auto simp: ext_if_def)
    have "d + c + 1 \<le> 64" "k \<le> f" using dv(3) key f(2) by auto
    then obtain m where m: "place_new P (record_node_insert P f) key op (d + c + 1) = Ok m"
        "repr P m (mk_leaf k' l0)"
      using op_sound_place [OF S _ _ l0] dv(8)
      by (metis Suc_eq_plus1 add.commute add_Suc_right drop_drop)
    have nib: "i < 16" "j < 16"
      using w(2) dv(9,10) nibs_ok_drop [OF nibs_ok_key_nibbles, of d key] by auto
    have "take (length p) ?k \<noteq> p" using False by (simp add: common_prefix_full)
    moreover have "tput (TExt p t) ?k l0 = fork q i (ext_if p' t) j (mk_leaf k' l0)"
      using False dv by (simp add: Let_def)
    moreover obtain x where "split_branch P p c ?o j m = Ok x"
        "repr P x (fork q i (ext_if p' t) j (mk_leaf k' l0))"
      using repr_fork_branch [OF o' m(2) nib dv(4,5)] dv(2) by auto
    moreover have "index (key_nibbles key) (d + c) = Ok j" using dv(3,7) by (auto simp: index_def)
    ultimately show ?thesis
      using False dv(1,6) m(1) l0 n'(1) ch(1) idx f(1)
      by (simp add: refines_def record_node_insert.simps Let_def)
  qed
next
  case (TBranch ts)
  let ?k = "drop d (key_nibbles key)"
  have w: "length ts = 16" "0 < r" "d < 64" using TBranch.prems by (auto simp: wf0_def)
  obtain f where f: "fuel = Suc f" "r - 1 + k < f" "k \<le> f"
    using TBranch.prems(4) w by (cases fuel) auto
  obtain n' where n': "expand P n = Ok n'" "repr P n' (TBranch ts)" "\<not> is_raw n'"
    by (rule expand_repr [OF K TBranch.prems(3,1)]) (use TBranch.prems in auto)
  then obtain cs rf where cs: "n' = Branch cs rf" "list_all2 (rel_option (repr P)) cs ts" by (cases n') auto
  obtain x where x: "key_nibbles key ! d = x" "?k = x # drop (Suc d) (key_nibbles key)"
    using w key by (simp add: Cons_nth_drop_Suc [symmetric])
  have xl: "unat x < 16" using nibs_ok_nth [of "key_nibbles key" d] x w key by (auto intro: nibble_unat)
  have lcs: "length cs = 16" using cs(2) w by (simp add: list_all2_lengthD)
  let ?k' = "drop (Suc d) (key_nibbles key)"
  let ?look = "case ts ! unat x of None \<Rightarrow> None | Some t \<Rightarrow> tlook t ?k'"
  let ?put = "\<lambda>l. case ts ! unat x of None \<Rightarrow> mk_leaf ?k' l | Some t \<Rightarrow> tput t ?k' l"
  let ?sub = "case cs ! unat x of None \<Rightarrow> place_new P (record_node_insert P f) key op (d + 1)
     | Some child \<Rightarrow> (case child of Overflow ptr root \<Rightarrow>
            Err (Panic ''on-disk Overflow under promote-on-max (option B)'')
          | _ \<Rightarrow> record_node_insert P f child (d + 1) key op)"
  have sub: "refines P ?sub ?put (spec_op P ?look op)"
  proof (cases "ts ! unat x")
    case None
    then have "cs ! unat x = None" using repr_branch_child [OF cs(2), of "unat x"] xl w by simp
    then show ?thesis using S None f(3) w unfolding op_sound_def by simp
  next
    case (Some t)
    then obtain c where c: "cs ! unat x = Some c" "repr P c t"
      using repr_branch_child [OF cs(2), of "unat x"] xl w by (auto simp: option_rel_Some2)
    have m: "Some t \<in> set ts" using slot_mem [of "unat x" ts t] xl w Some by simp
    then have "wf0 t (r - 1)" using wf_lengths(3) TBranch.prems(1) by blast
    then have "refines P (record_node_insert P f c (Suc d) key op) (tput t ?k') (spec_op P (tlook t ?k') op)"
      using TBranch.IH [OF m, of t "r - 1" "Suc d" c f] TBranch.prems w c f by simp
    moreover have "?sub = record_node_insert P f c (Suc d) key op" using c by (cases c) auto
    ultimately show ?thesis using Some by simp
  qed
  have mb: "make_branch P (cs[unat x := Some m]) = Ok (Branch (cs[unat x := Some m])
       (tref P (TBranch (ts[unat x := Some u]))))" "repr P (Branch (cs[unat x := Some m])
       (tref P (TBranch (ts[unat x := Some u])))) (TBranch (ts[unat x := Some u]))"
    if "repr P m u" for m u
  proof -
    have "list_all2 (rel_option (repr P)) (cs[unat x := Some m]) (ts[unat x := Some u])"
      using cs(2) that by (intro list_all2_update_cong) auto
    then show "make_branch P (cs[unat x := Some m]) = Ok (Branch (cs[unat x := Some m])
       (tref P (TBranch (ts[unat x := Some u]))))" "repr P (Branch (cs[unat x := Some m])
       (tref P (TBranch (ts[unat x := Some u])))) (TBranch (ts[unat x := Some u]))"
      using make_branch_repr w by auto
  qed
  have step: "record_node_insert P fuel n d key op =
      res_bind ?sub (\<lambda>child. make_branch P (cs[unat x := Some child]))"
    using n'(1) cs(1) x(1) xl lcs w key by (simp add: f(1) record_node_insert.simps index_def Let_def)
  show ?case
    using sub mb xl w unfolding step x(2)
    by (auto simp: refines_def split: res.splits)
qed

lemma refines_Ok: "refines P m g (Ok l) = (\<exists>n. m = Ok n \<and> repr P n (g l))"
  by (simp add: refines_def)

lemma refines_Err: "refines P m g (Err e) = (m = Err e)"
  by (simp add: refines_def)

lemma op_sound_value:
  assumes "length key = 32"
  shows "op_sound P key (OpValue v) 0"
  using assms unfolding op_sound_def
  by (auto simp: refines_def place_new_def drop_key dest!: repr_leaf_cases)

lemma op_sound_account:
  assumes "length key = 32"
  shows "op_sound P key (OpAccount n b c) 0"
  using assms unfolding op_sound_def
  by (auto simp: refines_def place_new_def drop_key acct_value_def dest!: repr_leaf_cases
      intro!: repr_account_node split: option.splits)

text \<open>Nested storage: 64 nibbles below the account, value leaves only.\<close>

lemma insert_slot:
  assumes "keccak_len P" and "length slot = 32" and "repr P n s" and "s = TEmpty \<or> (wf s 64 \<and> val_only s)"
    and "65 \<le> f"
  shows "\<exists>n'. record_node_insert P f n 0 slot (OpValue v) = Ok n' \<and> repr P n' (store_slot s slot v)"
proof -
  let ?k = "key_nibbles slot"
  have "tlook s ?k = None \<or> (\<exists>x. tlook s ?k = Some (LVal x))"
    using assms(4) tlook_val_only [of s ?k] by (cases "tlook s ?k") auto
  then have "spec_op P (tlook s ?k) (OpValue v) = Ok (LVal v)" by auto
  then show ?thesis
    using insert_gen [OF assms(1,2) op_sound_value [OF assms(2)], of s 64 0 n f v] assms(3-5)
    by (auto simp: refines_Ok store_slot_def wf0_def)
qed

lemma op_sound_storage:
  assumes "keccak_len P" and "length key = 32" and "length slot = 32"
  shows "op_sound P key (OpStorage slot v) 65"
  unfolding op_sound_def
proof (intro conjI allI impI)
  fix f d :: nat
  assume f: "65 \<le> f" and "d \<le> 64"
  then show "refines P (place_new P (record_node_insert P f) key (OpStorage slot v) d)
      (mk_leaf (drop d (key_nibbles key))) (spec_op P None (OpStorage slot v))"
    using insert_slot [OF assms(1,3) repr_Empty, of f v] drop_key [OF assms(2), of d]
    by (auto simp: refines_def place_new_def intro: repr_account_node)
next
  fix f :: nat and old p l
  assume f: "65 \<le> f" and "repr P old (mk_leaf p l)" "leaf_ok l" "\<not> is_raw old"
  then consider v' r where "l = LVal v'" "old = Leaf p v' r"
    | no b c ts s sr r where "l = LAcct no b c ts" "old = Account p no b c s sr r" "repr P s ts"
    using repr_leaf_cases [of P old p l] by auto
  then show "refines P (apply_op P (record_node_insert P f) old p (OpStorage slot v)) (mk_leaf p)
      (spec_op P (Some l) (OpStorage slot v))"
  proof cases
    case 1
    then show ?thesis
      using insert_slot [OF assms(1,3) repr_Empty _ f, of v]
      by (auto simp: refines_def intro: repr_account_node split: option.splits)
  next
    case 2
    then show ?thesis
      using insert_slot [OF assms(1,3) 2(3) _ f, of v] \<open>leaf_ok l\<close>
      by (auto simp: refines_def intro: repr_account_node)
  qed
qed simp

definition op_fuel :: "leaf_op \<Rightarrow> nat" where
  "op_fuel op = (case op of OpStorage slot v \<Rightarrow> 65 | _ \<Rightarrow> 0)"

lemma op_sound_all:
  "keccak_len P \<Longrightarrow> length key = 32 \<Longrightarrow> op_ok op \<Longrightarrow> op_sound P key op (op_fuel op)"
  by (cases op) (auto simp: op_fuel_def op_sound_value op_sound_account op_sound_storage)

lemma leaf_ok_spec_op:
  assumes "spec_op P lo op = Ok l" and "op_ok op" and "decode_typed P" and "\<forall>x. lo = Some x \<longrightarrow> leaf_ok x"
  shows "leaf_ok l"
  using assms
  by (cases "(P, lo, op)" rule: spec_op.cases)
    (auto simp: store_slot_def decode_typed_def EMPTY_CODE_HASH_def wf_tput val_only_tput
      split: option.splits if_splits)

lemma record_node_insert_sound:
  assumes "keccak_len P" and "decode_typed P" and "length key = 32" and "op_ok op"
    and "wf0 t r" and "d + r = 64" and "repr P n t" and "r + 65 < fuel"
    and "spec_op P (tlook t (drop d (key_nibbles key))) op = Ok l"
  shows "\<exists>n' t'. record_node_insert P fuel n d key op = Ok n' \<and> repr P n' t' \<and> wf t' r \<and>
    tlook t' = (tlook t)(drop d (key_nibbles key) \<mapsto> l) \<and> hash_node P n' = tref P t'"
proof -
  let ?k = "drop d (key_nibbles key)"
  have k: "length ?k = r" "nibs_ok ?k" using assms(3,6) by auto
  have "op_fuel op \<le> 65" by (cases op) (auto simp: op_fuel_def)
  then have "refines P (record_node_insert P fuel n d key op) (tput t ?k) (spec_op P (tlook t ?k) op)"
    using assms(5-8) by (intro insert_gen [OF assms(1,3) op_sound_all [OF assms(1,3,4)]]) auto
  then obtain n' where n': "record_node_insert P fuel n d key op = Ok n'" "repr P n' (tput t ?k l)"
    using assms(9) by (auto simp: refines_def)
  have l: "leaf_ok l"
    using leaf_ok_spec_op [OF assms(9,4,2)] tlook_leaf_ok [of t r ?k] assms(5) by (auto simp: wf0_def)
  have "wf (tput t ?k l) r \<and> tlook (tput t ?k l) = (tlook t)(?k \<mapsto> l)"
  proof (cases "t = TEmpty")
    case True
    then show ?thesis using k l by (auto simp: fun_eq_iff)
  next
    case False
    then show ?thesis using assms(5) k l wf_tput tlook_tput by (auto simp: wf0_def)
  qed
  then show ?thesis using n' hash_node_repr by blast
qed

lemma record_node_insert_sound_err:
  assumes "keccak_len P" and "length key = 32" and "op_ok op"
    and "wf0 t r" and "d + r = 64" and "repr P n t" and "r + 65 < fuel"
    and "spec_op P (tlook t (drop d (key_nibbles key))) op = Err e"
  shows "record_node_insert P fuel n d key op = Err e"
proof -
  have "op_fuel op \<le> 65" by (cases op) (auto simp: op_fuel_def)
  then have "refines P (record_node_insert P fuel n d key op) (tput t (drop d (key_nibbles key)))
      (spec_op P (tlook t (drop d (key_nibbles key))) op)"
    using assms(4-7) by (intro insert_gen [OF assms(1,2) op_sound_all [OF assms(1-3)]]) auto
  then show ?thesis using assms(8) by (simp add: refines_Err)
qed

section \<open>Deletion\<close>

datatype del_out = DKeep | DUpdate leaf | DRemove

fun spec_del :: "prims \<Rightarrow> leaf \<Rightarrow> delete_op \<Rightarrow> del_out res" where
  "spec_del P (LVal x) DelValue = Ok DRemove"
| "spec_del P (LVal x) DelAccount = Ok DRemove"
| "spec_del P (LVal x) (DelStorage slot) =
     (case account_decode P x of
        Some a \<Rightarrow> if a_storage_root a = EMPTY_ROOT then Ok DKeep
                 else Err (Bail ''storage delete on an account with opaque storage'')
      | None \<Rightarrow> Err (Bail ''delete op does not match the existing node kind at this key''))"
| "spec_del P (LVal x) DelWipeStorage =
     (case account_decode P x of
        Some a \<Rightarrow> if a_storage_root a = EMPTY_ROOT then Ok DKeep
                 else Ok (DUpdate (LAcct (a_nonce a) (a_balance a) (a_code_hash a) TEmpty))
      | None \<Rightarrow> Err (Bail ''delete op does not match the existing node kind at this key''))"
| "spec_del P (LAcct n b c s) DelValue =
     Err (Bail ''delete op does not match the existing node kind at this key'')"
| "spec_del P (LAcct n b c s) DelAccount = Ok DRemove"
| "spec_del P (LAcct n b c s) (DelStorage slot) =
     (if tlook s (key_nibbles slot) = None then Ok DKeep
      else Ok (DUpdate (LAcct n b c (tdel s (key_nibbles slot)))))"
| "spec_del P (LAcct n b c s) DelWipeStorage =
     (if s = TEmpty then Ok DKeep else Ok (DUpdate (LAcct n b c TEmpty)))"

fun del_ok :: "delete_op \<Rightarrow> bool" where
  "del_ok (DelStorage slot) = (length slot = 32)"
| "del_ok _ = True"

definition spec_del0 :: "prims \<Rightarrow> leaf option \<Rightarrow> delete_op \<Rightarrow> del_out res" where
  "spec_del0 P lo op = (case lo of None \<Rightarrow> Ok DKeep | Some l \<Rightarrow> spec_del P l op)"

text \<open>The effect of a deletion, as a new leaf or none.\<close>

definition del_leaf :: "leaf option \<Rightarrow> del_out \<Rightarrow> leaf option" where
  "del_leaf lo o' = (case o' of DKeep \<Rightarrow> lo | DUpdate l \<Rightarrow> Some l | DRemove \<Rightarrow> None)"

definition drefines :: "prims \<Rightarrow> (node \<times> node_delete) res \<Rightarrow> trie \<Rightarrow> nibs \<Rightarrow> del_out res \<Rightarrow> bool" where
  "drefines P m t k s =
     (case s of
        Err e \<Rightarrow> m = Err e
      | Ok DKeep \<Rightarrow> \<exists>n. m = Ok (n, Absent) \<and> repr P n t
      | Ok (DUpdate l) \<Rightarrow> \<exists>n. m = Ok (n, Changed) \<and> repr P n (tput t k l)
      | Ok DRemove \<Rightarrow> if tdel t k = TEmpty then m = Ok (Empty, Removed)
                     else \<exists>n. m = Ok (n, Changed) \<and> repr P n (tdel t k))"

lemma drefines_cases [case_names err keep update remove]:
  fixes s :: "del_out res"
  obtains e where "s = Err e" | "s = Ok DKeep" | l where "s = Ok (DUpdate l)" | "s = Ok DRemove"
  by (metis del_out.exhaust res.exhaust)

definition arefines :: "prims \<Rightarrow> applied res \<Rightarrow> nibs \<Rightarrow> leaf \<Rightarrow> del_out res \<Rightarrow> bool" where
  "arefines P m p l s =
     (case s of
        Err e \<Rightarrow> m = Err e
      | Ok DKeep \<Rightarrow> \<exists>n. m = Ok (ApAbsent n) \<and> repr P n (mk_leaf p l)
      | Ok (DUpdate l') \<Rightarrow> \<exists>n. m = Ok (ApChanged n) \<and> repr P n (mk_leaf p l')
      | Ok DRemove \<Rightarrow> m = Ok ApRemoved)"

definition del_sound :: "prims \<Rightarrow> delete_op \<Rightarrow> nat \<Rightarrow> bool" where
  "del_sound P op k \<longleftrightarrow> (\<forall>f old p l. k \<le> f \<longrightarrow> repr P old (mk_leaf p l) \<longrightarrow> leaf_ok l \<longrightarrow> \<not> is_raw old \<longrightarrow>
     arefines P (apply_delete_op P (record_node_delete P f) old op) p l (spec_del P l op) \<and>
     (\<forall>l'. spec_del P l op = Ok (DUpdate l') \<longrightarrow> leaf_ok l'))"

lemma prepend_path_repr:
  assumes "keccak_len P" and "repr P n u" and "wf u m" and "m \<le> 128" and "e \<noteq> []"
  shows "\<exists>n'. prepend_path P n e = Ok n' \<and> repr P n' (tprep e u)"
proof -
  obtain n' where n': "expand P n = Ok n'" "repr P n' u" "\<not> is_raw n'"
    by (rule expand_repr [OF assms(1,2), of m]) (use assms in \<open>auto simp: wf0_def\<close>)
  then show ?thesis
    using assms(3,5) by (cases n') (auto simp: prepend_path_def ext_if_def intro!: repr_account_node repr_make_extension)
qed

text \<open>The branch arm after its child became empty.\<close>

lemma collapse_repr:
  assumes K: "keccak_len P" and cs: "list_all2 (rel_option (repr P)) cs ts" and l: "length ts = 16"
    and wf: "\<And>t. Some t \<in> set ts \<Longrightarrow> wf t m" and m: "m \<le> 128"
  shows "if collapse ts = TEmpty then drop_child P cs = Ok (Empty, Removed)
       else \<exists>n. drop_child P cs = Ok (n, Changed) \<and> repr P n (collapse ts)"
proof -
  let ?F = "filter (\<lambda>j. ts ! j \<noteq> None) [0..<16]"
  have lcs: "length cs = 16" using cs l by (simp add: list_all2_lengthD)
  have "(cs ! j \<noteq> None) = (ts ! j \<noteq> None)" if "j < 16" for j
    using repr_branch_child [OF cs, of j] that l by (cases "cs ! j"; cases "ts ! j") auto
  then have F: "filter (\<lambda>j. cs ! j \<noteq> None) [0..<length cs] = ?F"
    unfolding lcs by (intro filter_cong) auto
  consider (none) "?F = []" | (one) j where "?F = [j]" | (many) i j js where "?F = i # j # js"
    by (metis list.exhaust)
  then show ?thesis
  proof cases
    case none
    have "collapse ts = TEmpty" unfolding collapse_def none by simp
    then show ?thesis unfolding drop_child_def F none by simp
  next
    case one
    then have "j \<in> set ?F" by (simp only: list.set_intros)
    then have j: "j < 16" "ts ! j \<noteq> None" by auto
    then obtain u where u: "ts ! j = Some u" by blast
    then obtain c where c: "cs ! j = Some c" "repr P c u"
      using repr_branch_child [OF cs, of j] j l by (auto simp: option_rel_Some2)
    have w: "wf u m" using wf slot_mem [of j ts u] u j l by simp
    then have "u \<noteq> TEmpty" by auto
    moreover have "collapse ts = tprep [word_of_nat j] u" unfolding collapse_def one using u by simp
    ultimately show ?thesis
      using prepend_path_repr [OF K c(2) w m, of "[word_of_nat j]"] c(1) unfolding drop_child_def F one by auto
  next
    case many
    have "collapse ts = TBranch ts" unfolding collapse_def many by simp
    then show ?thesis using make_branch_repr [OF cs l] cs unfolding drop_child_def F many by simp
  qed
qed

lemma collapse_many:
  assumes "length ts = 16" and "2 \<le> length (somes ts)"
  shows "collapse ts = TBranch ts"
proof -
  let ?F = "filter (\<lambda>j. ts ! j \<noteq> None) [0..<16]"
  have "2 \<le> length ?F"
    using length_filter_nth [of "\<lambda>c. c \<noteq> None" ts] assms by (simp add: length_somes)
  then obtain i j js where F: "?F = i # j # js" by (auto simp: numeral_2_eq_2 Suc_le_length_iff)
  show ?thesis unfolding collapse_def F by simp
qed

definition dsound_at :: "prims \<Rightarrow> bytes \<Rightarrow> delete_op \<Rightarrow> (node \<times> node_delete) res \<Rightarrow> trie \<Rightarrow> nat \<Rightarrow> bool" where
  "dsound_at P key op m t d \<longleftrightarrow>
     (let k = drop d (key_nibbles key); s = spec_del0 P (tlook t k) op in
      drefines P m t k s \<and> (\<forall>l. s = Ok (DUpdate l) \<longrightarrow> leaf_ok l))"

lemma delete_at_leaf:
  assumes key: "length key = 32" and S: "del_sound P op k" and f: "k \<le> f"
    and old: "expand P n = Ok old" "repr P old (mk_leaf p l)" "\<not> is_raw old"
    and wf: "wf (mk_leaf p l) r" and d: "d + r = 64"
  shows "dsound_at P key op (record_node_delete P (Suc f) n d key op) (mk_leaf p l) d"
proof -
  let ?k = "drop d (key_nibbles key)"
  have step: "record_node_delete P (Suc f) n d key op =
     (if p = ?k then res_bind (apply_delete_op P (record_node_delete P f) old op) (\<lambda>a.
        (case a of ApAbsent n \<Rightarrow> Ok (n, Absent) | ApChanged n \<Rightarrow> Ok (n, Changed)
         | ApRemoved \<Rightarrow> Ok (Empty, Removed))) else Ok (old, Absent))"
    using repr_leaf_cases [OF old(2,3)] old(1) d drop_key [OF key, of d]
    by (auto simp: record_node_delete.simps Let_def)
  show ?thesis
  proof (cases "p = ?k")
    case True
    have "arefines P (apply_delete_op P (record_node_delete P f) old op) p l (spec_del P l op)"
      "\<And>l'. spec_del P l op = Ok (DUpdate l') \<Longrightarrow> leaf_ok l'"
      using S f old(2,3) wf unfolding del_sound_def by auto
    moreover have "tdel (mk_leaf p l) p = TEmpty" "\<And>l'. tput (mk_leaf p l) p l' = mk_leaf p l'"
      using common_prefix_eqI [of p p] by (cases l; simp add: leaf_put_def)+
    ultimately show ?thesis
      using True unfolding step
      by (auto simp: drefines_def arefines_def spec_del0_def dsound_at_def split: res.splits del_out.splits)
  next
    case False
    then show ?thesis using old(2) unfolding step by (auto simp: drefines_def spec_del0_def dsound_at_def)
  qed
qed

lemma delete_at_ext:
  assumes K: "keccak_len P" and key: "length key = 32" and d: "d + r = 64"
    and wf: "wf (TExt p t) r" and n': "expand P n = Ok (Extension p ch rf)" "rf = tref P (TExt p t)"
    and ch: "repr P ch t" and True: "take (length p) (drop d (key_nibbles key)) = p"
    and IH: "dsound_at P key op (record_node_delete P f ch (d + length p) key op) t (d + length p)"
  shows "dsound_at P key op (record_node_delete P (Suc f) n d key op) (TExt p t) d"
proof -
  let ?k = "drop d (key_nibbles key)"
  let ?k' = "drop (length p) ?k"
  have w: "wf t (r - length p)" "is_branch t" "length ?k = r" "p \<noteq> []" using wf key d by auto
  have idx: "from_idx (key_nibbles key) d = Ok ?k" using d by (intro drop_key [OF key]) auto
  have IH': "drefines P (record_node_delete P f ch (d + length p) key op) t ?k' (spec_del0 P (tlook t ?k') op)"
    "\<And>l. spec_del0 P (tlook t ?k') op = Ok (DUpdate l) \<Longrightarrow> leaf_ok l"
    using IH by (auto simp: dsound_at_def Let_def add.commute)
  have k': "length ?k' = r - length p" "nibs_ok ?k'" using w(3) by auto
  have pre: "\<exists>n'. res_map (\<lambda>n. (n, Changed)) (prepend_path P m p) = Ok (n', Changed) \<and> repr P n' (tprep p u)"
    if "repr P m u" "wf u (r - length p)" for m u
  proof -
    have "r - length p \<le> 128" using d by simp
    from prepend_path_repr [OF K that this w(4)] show ?thesis by auto
  qed
  have cp: "common_prefix p ?k = length p" using True by (simp add: common_prefix_full)
  have put: "tprep p (tput t ?k' l) = tput (TExt p t) ?k l" for l
    using cp is_branch_tput [OF w(2), of ?k' l] w(4) by (cases "tput t ?k' l") (auto simp: ext_if_def)
  have step: "record_node_delete P (Suc f) n d key op =
     res_bind (record_node_delete P f ch (d + length p) key op) (\<lambda>(child, out).
       (case out of Absent \<Rightarrow> Ok (Extension p child rf, Absent) | Removed \<Rightarrow> Ok (Empty, Removed)
        | Changed \<Rightarrow> res_map (\<lambda>n. (n, Changed)) (prepend_path P child p)))"
    using n'(1) idx True by (simp add: record_node_delete.simps Let_def starts_with_def)
  have "drefines P (record_node_delete P (Suc f) n d key op) (TExt p t) ?k (spec_del0 P (tlook t ?k') op)"
  proof (cases "spec_del0 P (tlook t ?k') op" rule: drefines_cases)
    case (update l)
    then obtain m where "record_node_delete P f ch (d + length p) key op = Ok (m, Changed)"
        "repr P m (tput t ?k' l)" using IH'(1) by (auto simp: drefines_def)
    then show ?thesis
      using pre [of m "tput t ?k' l"] wf_tput [OF w(1) k' IH'(2)] update put [of l] unfolding step
      by (auto simp: drefines_def simp del: tput.simps)
  next
    case remove
    show ?thesis
    proof (cases "tdel t ?k' = TEmpty")
      case gone: True
      then show ?thesis using IH'(1) remove True unfolding step by (simp add: drefines_def)
    next
      case False
      then obtain m where "record_node_delete P f ch (d + length p) key op = Ok (m, Changed)"
        "repr P m (tdel t ?k')" using IH'(1) remove by (auto simp: drefines_def)
      then show ?thesis
        using pre [of m "tdel t ?k'"] wf_tdel [OF w(1) k'] False remove True unfolding step
        by (auto simp: drefines_def wf0_def)
    qed
  qed (use IH'(1) n'(2) in \<open>auto simp: step drefines_def\<close>)
  then show ?thesis using True IH'(2) by (simp add: dsound_at_def Let_def)
qed

lemma delete_branch_removed:
  assumes K: "keccak_len P" and wf: "wf (TBranch ts) r" "r \<le> 64" and x: "unat x < 16"
    and t: "ts ! unat x = Some t" and k': "length k' = r - 1" "nibs_ok k'"
    and upd: "\<And>c' u. rel_option (repr P) c' u \<Longrightarrow>
       list_all2 (rel_option (repr P)) (cs[unat x := c']) (ts[unat x := u])"
    and IH: "drefines P m t k' (Ok DRemove)"
    and step: "m' = res_bind m (\<lambda>(c', out).
      (case out of
         Absent \<Rightarrow> Ok (Branch (cs[unat x := Some c']) rf, Absent)
       | Changed \<Rightarrow> res_map (\<lambda>n. (n, Changed)) (make_branch P (cs[unat x := Some c']))
       | Removed \<Rightarrow> drop_child P (cs[unat x := None])))"
  shows "drefines P m' (TBranch ts) (x # k') (Ok DRemove)"
proof -
  have l: "length ts = 16" using wf by simp
  have mem: "Some t \<in> set ts" using slot_mem [of "unat x" ts t] t x l by simp
  have wt: "wf t (r - 1)" using mem wf(1) by auto
  have del: "tdel (TBranch ts) (x # k') = collapse (ts[unat x := opt_trie (tdel t k')])"
    using t x l by simp
  show ?thesis
  proof (cases "tdel t k' = TEmpty")
    case True
    let ?ts = "ts[unat x := None]" and ?cs = "cs[unat x := None]"
    have "Some u \<in> set ?ts \<Longrightarrow> wf u (r - 1)" for u
      using wf(1) by (auto dest!: subsetD [OF set_update_subset_insert])
    then have "if collapse ?ts = TEmpty then drop_child P ?cs = Ok (Empty, Removed)
        else \<exists>n. drop_child P ?cs = Ok (n, Changed) \<and> repr P n (collapse ?ts)"
      using l wf(2) by (intro collapse_repr [OF K upd]) auto
    moreover have "m = Ok (Empty, Removed)" using IH True by (simp add: drefines_def)
    ultimately show ?thesis
      using True unfolding step drefines_def by (simp add: del opt_trie_def)
  next
    case False
    then obtain c' where c': "m = Ok (c', Changed)" "repr P c' (tdel t k')"
      using IH by (auto simp: drefines_def)
    have u: "list_all2 (rel_option (repr P)) (cs[unat x := Some c']) (ts[unat x := Some (tdel t k')])"
      using c'(2) by (intro upd) simp
    have "collapse (ts[unat x := Some (tdel t k')]) = TBranch (ts[unat x := Some (tdel t k')])"
      using l wf(1) length_somes_update_Some [of "unat x" ts "tdel t k'"] x by (intro collapse_many) auto
    then show ?thesis
      using make_branch_repr [OF u] u l c'(1) False unfolding step drefines_def
      by (auto simp: del opt_trie_def)
  qed
qed

lemma delete_at_branch:
  assumes K: "keccak_len P" and dr: "d + r = 64" and key: "length key = 32"
    and wf: "wf (TBranch ts) r" "r \<le> 64"
    and n': "expand P n = Ok (Branch cs rf)" "rf = tref P (TBranch ts)" "list_all2 (rel_option (repr P)) cs ts"
    and x: "key_nibbles key ! d = x" and t: "ts ! unat x = Some t" and c: "cs ! unat x = Some c" "repr P c t"
    and IH: "dsound_at P key op (record_node_delete P f c (Suc d) key op) t (Suc d)"
  shows "dsound_at P key op (record_node_delete P (Suc f) n d key op) (TBranch ts) d"
proof -
  let ?k' = "drop (Suc d) (key_nibbles key)"
  have d: "d < 64" using wf dr by auto
  have k: "drop d (key_nibbles key) = x # ?k'" using x d key by (simp add: Cons_nth_drop_Suc [symmetric])
  have l: "length ts = 16" "length cs = 16" using wf(1) n'(3) by (auto simp: list_all2_lengthD)
  have xl: "unat x < 16" using nibs_ok_nth [of "key_nibbles key" d] x d key by (auto intro: nibble_unat)
  have mem: "Some t \<in> set ts" using slot_mem [of "unat x" ts t] t xl l by simp
  have k': "length ?k' = r - 1" "nibs_ok ?k'" using dr key by auto
  let ?m = "record_node_delete P f c (Suc d) key op"
  let ?s = "spec_del0 P (tlook t ?k') op"
  have IH': "drefines P ?m t ?k' ?s" "\<And>l. ?s = Ok (DUpdate l) \<Longrightarrow> leaf_ok l"
    using IH by (auto simp: dsound_at_def Let_def)
  have upd: "list_all2 (rel_option (repr P)) (cs[unat x := c']) (ts[unat x := u])"
    if "rel_option (repr P) c' u" for c' u
    using n'(3) that by (intro list_all2_update_cong)
  have "\<And>ptr root. c \<noteq> Overflow ptr root" using c(2) by auto
  then have sub: "(case c of Overflow ptr root \<Rightarrow>
       Err (Panic ''on-disk Overflow under promote-on-max (option B)'')
     | _ \<Rightarrow> record_node_delete P f c (d + 1) key op) = ?m"
    by (cases c) auto
  have step: "record_node_delete P (Suc f) n d key op = res_bind ?m (\<lambda>(c', out).
      (case out of
         Absent \<Rightarrow> Ok (Branch (cs[unat x := Some c']) rf, Absent)
       | Changed \<Rightarrow> res_map (\<lambda>n. (n, Changed)) (make_branch P (cs[unat x := Some c']))
       | Removed \<Rightarrow> drop_child P (cs[unat x := None])))"
    using n'(1) x xl l d key c(1) sub by (simp add: record_node_delete.simps index_def Let_def)
  have "drefines P (record_node_delete P (Suc f) n d key op) (TBranch ts) (x # ?k') ?s"
  proof (cases ?s rule: drefines_cases)
    case keep
    then obtain c' where "?m = Ok (c', Absent)" "repr P c' t" using IH'(1) by (auto simp: drefines_def)
    moreover have "ts[unat x := Some t] = ts" using t by (metis list_update_id)
    ultimately show ?thesis using keep upd [of "Some c'" "Some t"] n'(2) unfolding step by (simp add: drefines_def)
  next
    case (update u)
    then obtain c' where "?m = Ok (c', Changed)" "repr P c' (tput t ?k' u)"
      using IH'(1) by (auto simp: drefines_def)
    then show ?thesis
      using make_branch_repr [OF upd [of "Some c'" "Some (tput t ?k' u)"]] upd [of "Some c'" "Some (tput t ?k' u)"]
        update t xl l unfolding step by (auto simp: drefines_def)
  next
    case remove
    then show ?thesis using delete_branch_removed [OF K wf xl t _ _ upd _ step] IH'(1) k' by simp
  qed (use IH'(1) in \<open>auto simp: step drefines_def\<close>)
  then show ?thesis using k t xl l IH'(2) by (simp add: dsound_at_def Let_def)
qed

lemma delete_gen:
  assumes K: "keccak_len P" and key: "length key = 32" and S: "del_sound P op k"
  shows "wf0 t r \<Longrightarrow> d + r = 64 \<Longrightarrow> repr P n t \<Longrightarrow> r + k < fuel \<Longrightarrow>
    dsound_at P key op (record_node_delete P fuel n d key op) t d"
proof (induction t arbitrary: r d n fuel)
  case TEmpty
  then obtain f where f: "fuel = Suc f" "k \<le> f" by (cases fuel) auto
  obtain n' where "expand P n = Ok n'" "repr P n' TEmpty" "\<not> is_raw n'"
    by (rule expand_repr [OF K TEmpty.prems(3,1)]) (use TEmpty.prems in auto)
  moreover from this have "n' = Empty" by (cases n') auto
  ultimately show ?case
    by (auto simp: f record_node_delete.simps drefines_def spec_del0_def dsound_at_def)
next
  case (TLeaf p v)
  then obtain f where f: "fuel = Suc f" "k \<le> f" by (cases fuel) auto
  obtain n' where n': "expand P n = Ok n'" "repr P n' (TLeaf p v)" "\<not> is_raw n'"
    by (rule expand_repr [OF K TLeaf.prems(3,1)]) (use TLeaf.prems in auto)
  show ?case
    using delete_at_leaf [OF key S f(2) n'(1) _ n'(3), of p "LVal v"] n'(2) TLeaf.prems f
    by (simp add: wf0_def)
next
  case (TAcct p nn b c s)
  then obtain f where f: "fuel = Suc f" "k \<le> f" by (cases fuel) auto
  obtain n' where n': "expand P n = Ok n'" "repr P n' (TAcct p nn b c s)" "\<not> is_raw n'"
    by (rule expand_repr [OF K TAcct.prems(3,1)]) (use TAcct.prems in auto)
  show ?case
    using delete_at_leaf [OF key S f(2) n'(1) _ n'(3), of p "LAcct nn b c s"] n'(2) TAcct.prems f
    by (simp add: wf0_def)
next
  case (TExt p t)
  have p0: "0 < length p" "length p < r" "wf (TExt p t) r" using TExt.prems(1) by (auto simp: wf0_def)
  obtain f where f0: "fuel = Suc f" using TExt.prems(4) by (cases fuel) auto
  then have f: "r - length p + k < f" using TExt.prems(4) p0 by linarith
  obtain n' where "expand P n = Ok n'" "repr P n' (TExt p t)" "\<not> is_raw n'"
    by (rule expand_repr [OF K TExt.prems(3,1)]) (use TExt.prems in auto)
  then obtain ch rf where n': "expand P n = Ok (Extension p ch rf)" "rf = tref P (TExt p t)" "repr P ch t"
    by (cases n') auto
  have "dsound_at P key op (record_node_delete P f ch (d + length p) key op) t (d + length p)"
    using TExt.IH [of "r - length p" "d + length p" ch f] TExt.prems p0 f n' by (auto simp: wf0_def)
  moreover have "take (length p) (drop d (key_nibbles key)) \<noteq> p \<Longrightarrow> ?case"
    using n' TExt.prems drop_key [OF key, of d] f0
    by (auto simp: record_node_delete.simps Let_def starts_with_def drefines_def spec_del0_def dsound_at_def)
  ultimately show ?case
    using delete_at_ext [OF K key TExt.prems(2) p0(3) n'] f0 by blast
next
  case (TBranch ts)
  let ?k' = "drop (Suc d) (key_nibbles key)"
  have w: "wf (TBranch ts) r" "r \<le> 64" "d < 64" using TBranch.prems by (auto simp: wf0_def)
  obtain f where f: "fuel = Suc f" "r - 1 + k < f" using TBranch.prems(4) w by (cases fuel) auto
  obtain n' where "expand P n = Ok n'" "repr P n' (TBranch ts)" "\<not> is_raw n'"
    by (rule expand_repr [OF K TBranch.prems(3,1)]) (use TBranch.prems in auto)
  then obtain cs rf where n': "expand P n = Ok (Branch cs rf)" "rf = tref P (TBranch ts)"
      "list_all2 (rel_option (repr P)) cs ts" by (cases n') auto
  obtain x where x: "key_nibbles key ! d = x" "drop d (key_nibbles key) = x # ?k'"
    using w key by (simp add: Cons_nth_drop_Suc [symmetric])
  have xl: "unat x < 16" using nibs_ok_nth [of "key_nibbles key" d] x w key by (auto intro: nibble_unat)
  have l: "length cs = 16" using n'(3) w by (simp add: list_all2_lengthD)
  show ?case
  proof (cases "ts ! unat x")
    case None
    then have "cs ! unat x = None" using repr_branch_child [OF n'(3), of "unat x"] xl w by simp
    then show ?thesis
      using None n' x xl l w key f(1)
      by (auto simp: record_node_delete.simps Let_def index_def drefines_def spec_del0_def dsound_at_def)
  next
    case (Some t)
    then obtain c where c: "cs ! unat x = Some c" "repr P c t"
      using repr_branch_child [OF n'(3), of "unat x"] xl w by (auto simp: option_rel_Some2)
    have m: "Some t \<in> set ts" using slot_mem [of "unat x" ts t] xl w Some by simp
    have "dsound_at P key op (record_node_delete P f c (Suc d) key op) t (Suc d)"
      using TBranch.IH [OF m, of t "r - 1" "Suc d" c f] TBranch.prems w c f m by (auto simp: wf0_def)
    then show ?thesis
      using delete_at_branch [OF K TBranch.prems(2) key w(1,2) n' x(1) Some c] f(1) by simp
  qed
qed

lemma del_sound_value: "del_sound P DelValue 0"
  unfolding del_sound_def by (auto simp: arefines_def dest!: repr_leaf_cases)

lemma del_sound_account: "del_sound P DelAccount 0"
  unfolding del_sound_def by (auto simp: arefines_def dest!: repr_leaf_cases)

lemma del_sound_wipe:
  assumes "decode_typed P"
  shows "del_sound P DelWipeStorage 0"
proof -
  have "(s = Empty) = (ts = TEmpty)" if "repr P s ts" for s ts
    using that by (cases s) auto
  then show ?thesis
    using assms unfolding del_sound_def decode_typed_def
    by (auto simp: arefines_def dest!: repr_leaf_cases split: option.splits if_splits intro!: repr_account_node)
qed

lemma delete_slot:
  assumes "keccak_len P" and "length slot = 32" and "repr P n s" and "s = TEmpty \<or> (wf s 64 \<and> val_only s)"
    and "65 \<le> f"
  defines "k \<equiv> key_nibbles slot"
  shows "if tlook s k = None
      then \<exists>n'. record_node_delete P f n 0 slot DelValue = Ok (n', Absent) \<and> repr P n' s
      else if tdel s k = TEmpty then record_node_delete P f n 0 slot DelValue = Ok (Empty, Removed)
      else \<exists>n'. record_node_delete P f n 0 slot DelValue = Ok (n', Changed) \<and> repr P n' (tdel s k)"
proof -
  have "tlook s k = None \<or> (\<exists>x. tlook s k = Some (LVal x))"
    using assms(4) tlook_val_only [of s k] by (cases "tlook s k") auto
  then have "spec_del0 P (tlook s k) DelValue = Ok (if tlook s k = None then DKeep else DRemove)"
    by (auto simp: spec_del0_def)
  moreover have "wf0 s 64" using assms(4) by (auto simp: wf0_def)
  then have "drefines P (record_node_delete P f n 0 slot DelValue) s k (spec_del0 P (tlook s k) DelValue)"
    using delete_gen [OF assms(1,2) del_sound_value _ _ assms(3), of 64 0 f] assms(5)
    by (simp add: dsound_at_def Let_def k_def)
  ultimately show ?thesis by (auto simp: drefines_def split: if_splits)
qed

lemma del_sound_storage:
  assumes "keccak_len P" and "length slot = 32"
  shows "del_sound P (DelStorage slot) 65"
  unfolding del_sound_def
proof (intro allI impI)
  fix f :: nat and old p l
  assume f: "65 \<le> f" and r: "repr P old (mk_leaf p l)" and lk: "leaf_ok l" and "\<not> is_raw old"
  then consider v' r where "l = LVal v'" "old = Leaf p v' r" "repr P old (TLeaf p v')"
    | no b c ts s sr r where "l = LAcct no b c ts" "old = Account p no b c s sr r" "repr P s ts"
    using repr_leaf_cases [of P old p l] by auto
  then show "arefines P (apply_delete_op P (record_node_delete P f) old (DelStorage slot)) p l
        (spec_del P l (DelStorage slot)) \<and>
      (\<forall>l'. spec_del P l (DelStorage slot) = Ok (DUpdate l') \<longrightarrow> leaf_ok l')"
  proof cases
    case 1
    then show ?thesis by (auto simp: arefines_def split: option.splits)
  next
    case 2
    let ?k = "key_nibbles slot"
    have s: "ts = TEmpty \<or> (wf ts 64 \<and> val_only ts)" "length c = 32" using lk 2 by auto
    have "tlook ts ?k \<noteq> None \<Longrightarrow> leaf_ok (LAcct no b c (tdel ts ?k))"
      using s wf_tdel [of ts 64 ?k] val_only_tdel [of ts 64 ?k] assms(2) by (auto simp: wf0_def)
    then show ?thesis
      using delete_slot [OF assms 2(3) s(1) f] 2
      by (auto simp: arefines_def intro: repr_account_node split: if_splits)
  qed
qed

lemma del_sound_mono: "del_sound P op k \<Longrightarrow> k \<le> k' \<Longrightarrow> del_sound P op k'"
  unfolding del_sound_def by (meson le_trans)

lemma del_sound_all:
  "keccak_len P \<Longrightarrow> decode_typed P \<Longrightarrow> del_ok op \<Longrightarrow> del_sound P op 65"
  using del_sound_mono [OF del_sound_value] del_sound_mono [OF del_sound_account]
    del_sound_mono [OF del_sound_wipe] del_sound_storage by (cases op) auto

lemma record_node_delete_sound:
  assumes "keccak_len P" and "decode_typed P" and "length key = 32" and "del_ok op"
    and "wf0 t r" and "d + r = 64" and "repr P n t" and "r + 65 < fuel"
  defines "k \<equiv> drop d (key_nibbles key)"
  shows "case spec_del0 P (tlook t k) op of
      Err e \<Rightarrow> record_node_delete P fuel n d key op = Err e
    | Ok DKeep \<Rightarrow> \<exists>n'. record_node_delete P fuel n d key op = Ok (n', Absent) \<and> repr P n' t
    | Ok (DUpdate l) \<Rightarrow> \<exists>n' t'. record_node_delete P fuel n d key op = Ok (n', Changed) \<and>
        repr P n' t' \<and> wf t' r \<and> tlook t' = (tlook t)(k \<mapsto> l)
    | Ok DRemove \<Rightarrow> \<exists>n' t'. record_node_delete P fuel n d key op =
          Ok (n', if t' = TEmpty then Removed else Changed) \<and>
        repr P n' t' \<and> wf0 t' r \<and> tlook t' = (tlook t)(k := None)"
proof -
  have D: "drefines P (record_node_delete P fuel n d key op) t k (spec_del0 P (tlook t k) op)"
    "\<And>l. spec_del0 P (tlook t k) op = Ok (DUpdate l) \<Longrightarrow> leaf_ok l"
    using delete_gen [OF assms(1,3) del_sound_all [OF assms(1,2,4)] assms(5-8)]
    unfolding dsound_at_def k_def by (auto simp: Let_def)
  have k: "length k = r" "nibs_ok k" using assms(3,6) by (auto simp: k_def)
  have ne: "wf t r" if "spec_del0 P (tlook t k) op = Ok (DUpdate l) \<or> spec_del0 P (tlook t k) op = Ok DRemove" for l
    using that assms(5) by (auto simp: wf0_def spec_del0_def)
  show ?thesis
  proof (cases "spec_del0 P (tlook t k) op" rule: drefines_cases)
    case (update l)
    then show ?thesis
      using D wf_tput [OF ne k D(2)] tlook_tput [OF ne k] by (auto simp: drefines_def)
  next
    case remove
    then show ?thesis
      using D(1) wf_tdel [OF ne k] tlook_tdel [OF ne k]
      by (auto simp: drefines_def split: if_splits intro: exI [of _ TEmpty] exI [of _ "tdel t k"])
  qed (use D(1) in \<open>auto simp: drefines_def\<close>)
qed

section \<open>Lookups\<close>

text \<open>One unit per level and one per lazily parsed slice on the way.\<close>

definition get_fuel :: "node \<Rightarrow> nat \<Rightarrow> nat" where
  "get_fuel n r = (if is_raw n then 2 * r + 2 else 2 * r + 1)"

lemma node_get_gen:
  assumes K: "keccak_len P"
  shows "wf0 t r \<Longrightarrow> d + r = length nibbles \<Longrightarrow> r \<le> 64 \<Longrightarrow> nibs_ok nibbles \<Longrightarrow> repr P n t \<Longrightarrow>
    get_fuel n r \<le> fuel \<Longrightarrow>
    node_get P rd fuel n nibbles d = Ok (map_option (leaf_value P) (tlook t (drop d nibbles)))"
proof (induction fuel arbitrary: t r d n)
  case 0
  then show ?case by (simp add: get_fuel_def split: if_splits)
next
  case (Suc f)
  have idx: "from_idx nibbles d = Ok (drop d nibbles)" using Suc.prems by (simp add: from_idx_def)
  show ?case
  proof (cases n)
    case (Raw buf off len nref)
    then have "wf t r" using Suc.prems by (cases t) (auto simp: wf0_def)
    then obtain n' where n': "parse_node_lazy P buf off len = Ok n'" "repr P n' t" "\<not> is_raw n'"
      using parse_node_lazy_raw [of P buf off len nref t r] K Suc.prems Raw by auto
    then show ?thesis using Suc.IH [OF Suc.prems(1-4) n'(2)] Suc.prems(6) Raw by (simp add: get_fuel_def)
  next
    case (Extension p ch rf)
    then obtain u where u: "t = TExt p u" "repr P ch u" using Suc.prems by auto
    then have w: "p \<noteq> []" "length p < r" "wf0 u (r - length p)" using Suc.prems by (auto simp: wf0_def)
    then have "get_fuel ch (r - length p) \<le> f"
      using Suc.prems(6) Extension by (cases p) (auto simp: get_fuel_def split: if_splits)
    then have "node_get P rd f ch nibbles (d + length p) =
        Ok (map_option (leaf_value P) (tlook u (drop (d + length p) nibbles)))"
      using Suc.IH [of u "r - length p" "d + length p" ch] Suc.prems w u by auto
    then show ?thesis using Extension u idx by (simp add: starts_with_def add.commute)
  next
    case (Branch cs rf)
    then obtain ts where ts: "t = TBranch ts" "list_all2 (rel_option (repr P)) cs ts" using Suc.prems by auto
    then have w: "length ts = 16" "length cs = 16" "0 < r"
      using Suc.prems by (auto simp: wf0_def list_all2_lengthD)
    obtain x where x: "nibbles ! d = x" "drop d nibbles = x # drop (Suc d) nibbles" "d < length nibbles"
      using w Suc.prems by (simp add: Cons_nth_drop_Suc [symmetric])
    have xl: "unat x < 16" using nibs_ok_nth [OF Suc.prems(4) x(3)] x by (auto intro: nibble_unat)
    show ?thesis
    proof (cases "ts ! unat x")
      case None
      then have "cs ! unat x = None" using repr_branch_child [OF ts(2), of "unat x"] xl w by simp
      then show ?thesis using Branch ts None x xl w by (simp add: index_def)
    next
      case (Some u)
      then obtain c where c: "cs ! unat x = Some c" "repr P c u"
        using repr_branch_child [OF ts(2), of "unat x"] xl w by (auto simp: option_rel_Some2)
      have "Some u \<in> set ts" using slot_mem [of "unat x" ts u] xl w Some by simp
      then have "wf0 u (r - 1)" using wf_lengths(3) Suc.prems(1) ts by blast
      moreover have "get_fuel c (r - 1) \<le> f" using Suc.prems(6) Branch w by (cases r) (auto simp: get_fuel_def)
      ultimately have "node_get P rd f c nibbles (Suc d) =
          Ok (map_option (leaf_value P) (tlook u (drop (Suc d) nibbles)))"
        using Suc.IH [of u "r - 1" "Suc d" c] Suc.prems w c by auto
      then show ?thesis using Branch ts Some x xl w c by (simp add: index_def)
    qed
  qed (use Suc.prems idx in \<open>auto simp: acct_value_def troot_def\<close>)
qed

lemma node_get_storage_gen:
  assumes K: "keccak_len P" and slot: "length slot = 32"
  shows "wf0 t r \<Longrightarrow> d + r = length nibbles \<Longrightarrow> r \<le> 64 \<Longrightarrow> nibs_ok nibbles \<Longrightarrow> repr P n t \<Longrightarrow>
    get_fuel n r + 130 \<le> fuel \<Longrightarrow>
    node_get_storage P rd fuel n nibbles d slot = Ok (case tlook t (drop d nibbles) of
        Some (LAcct no b c s) \<Rightarrow> map_option (leaf_value P) (tlook s (key_nibbles slot))
      | _ \<Rightarrow> None)"
proof (induction fuel arbitrary: t r d n)
  case 0
  then show ?case by simp
next
  case (Suc f)
  have idx: "from_idx nibbles d = Ok (drop d nibbles)" using Suc.prems by (simp add: from_idx_def)
  show ?case
  proof (cases n)
    case (Raw buf off len nref)
    then have "wf t r" using Suc.prems by (cases t) (auto simp: wf0_def)
    then obtain n' where n': "parse_node_lazy P buf off len = Ok n'" "repr P n' t" "\<not> is_raw n'"
      using parse_node_lazy_raw [of P buf off len nref t r] K Suc.prems Raw by auto
    then show ?thesis using Suc.IH [OF Suc.prems(1-4) n'(2)] Suc.prems(6) Raw by (simp add: get_fuel_def)
  next
    case (Account p no b c s sr rf)
    then obtain ts where ts: "t = TAcct p no b c ts" "repr P s ts" using Suc.prems by auto
    then have "wf0 ts 64" using Suc.prems(1) wf_lengths(4) by blast
    moreover have "get_fuel s 64 \<le> f" using Suc.prems(6) by (auto simp: get_fuel_def split: if_splits)
    ultimately have "node_get P rd f s (key_nibbles slot) 0 =
        Ok (map_option (leaf_value P) (tlook ts (drop 0 (key_nibbles slot))))"
      using slot ts(2) by (intro node_get_gen [OF K]) auto
    then show ?thesis using Account ts idx by auto
  next
    case (Extension p ch rf)
    then obtain u where u: "t = TExt p u" "repr P ch u" using Suc.prems by auto
    then have w: "p \<noteq> []" "length p < r" "wf0 u (r - length p)" using Suc.prems by (auto simp: wf0_def)
    then have "get_fuel ch (r - length p) + 130 \<le> f"
      using Suc.prems(6) Extension by (cases p) (auto simp: get_fuel_def split: if_splits)
    then show ?thesis
      using Suc.IH [of u "r - length p" "d + length p" ch] Suc.prems w u Extension idx
      by (auto simp: starts_with_def add.commute)
  next
    case (Branch cs rf)
    then obtain ts where ts: "t = TBranch ts" "list_all2 (rel_option (repr P)) cs ts" using Suc.prems by auto
    then have w: "length ts = 16" "length cs = 16" "0 < r"
      using Suc.prems by (auto simp: wf0_def list_all2_lengthD)
    obtain x where x: "nibbles ! d = x" "drop d nibbles = x # drop (Suc d) nibbles" "d < length nibbles"
      using w Suc.prems by (simp add: Cons_nth_drop_Suc [symmetric])
    have xl: "unat x < 16" using nibs_ok_nth [OF Suc.prems(4) x(3)] x by (auto intro: nibble_unat)
    show ?thesis
    proof (cases "ts ! unat x")
      case None
      then have "cs ! unat x = None" using repr_branch_child [OF ts(2), of "unat x"] xl w by simp
      then show ?thesis using Branch ts None x xl w by (simp add: index_def)
    next
      case (Some u)
      then obtain c where c: "cs ! unat x = Some c" "repr P c u"
        using repr_branch_child [OF ts(2), of "unat x"] xl w by (auto simp: option_rel_Some2)
      have "Some u \<in> set ts" using slot_mem [of "unat x" ts u] xl w Some by simp
      then have "wf0 u (r - 1)" using wf_lengths(3) Suc.prems(1) ts by blast
      moreover have "get_fuel c (r - 1) + 130 \<le> f"
        using Suc.prems(6) Branch w by (cases r) (auto simp: get_fuel_def split: if_splits)
      ultimately show ?thesis
        using Suc.IH [of u "r - 1" "Suc d" c] Suc.prems w c Branch ts Some x xl by (auto simp: index_def)
    qed
  qed (use Suc.prems idx in auto)
qed

end
