(* ===== verification/Demo.thy ===== *)
theory Demo
  imports RecordProofs
begin

text \<open>
  A concrete instance of the third-party parameter, used by the witnesses: a
  32-byte digest, the RLP rules for byte strings and lists, and a fixed-width
  account codec. It shows that the hypotheses on \<open>prims\<close> can hold together.
\<close>

definition demo_keccak :: "bytes \<Rightarrow> bytes" where
  "demo_keccak x = (if x = [0x80] then EMPTY_ROOT else if x = [] then EMPTY_CODE_HASH
     else take 32 (x @ replicate 32 0))"

definition demo_len :: "byte \<Rightarrow> nat \<Rightarrow> bytes" where
  "demo_len base n = (if n < 56 then [base + word_of_nat n]
     else if n < 256 then [base + 56, word_of_nat n]
     else (base + 59) # be_bytes 4 n)"

definition demo_rlp :: "bytes \<Rightarrow> bytes" where
  "demo_rlp bs = (case bs of [b] \<Rightarrow> if b < 0x80 then [b] else demo_len 0x80 1 @ bs
     | _ \<Rightarrow> demo_len 0x80 (length bs) @ bs)"

definition demo_account_encode :: "account \<Rightarrow> bytes" where
  "demo_account_encode a =
     le_bytes 8 (unat (a_nonce a)) @ be_bytes 32 (unat (a_balance a)) @ a_storage_root a @ a_code_hash a"

definition demo_account_decode :: "bytes \<Rightarrow> account option" where
  "demo_account_decode bs = (if length bs \<noteq> 104 then None
     else Some \<lparr>a_nonce = word_of_nat (le_val (take 8 bs)),
                a_balance = word_of_nat (be_val (take 32 (drop 8 bs))),
                a_storage_root = take 32 (drop 40 bs), a_code_hash = drop 72 bs\<rparr>)"

definition demo_u256_decode :: "bytes \<Rightarrow> u256 option" where
  "demo_u256_decode bs = (if length bs \<noteq> 33 then None else Some (word_of_nat (be_val (tl bs))))"

definition demo :: prims where
  "demo = \<lparr>keccak256 = demo_keccak, rlp_encode_bytes = demo_rlp,
     rlp_header = (\<lambda>list n. demo_len (if list then 0xc0 else 0x80) n),
     rlp_encode_u256 = (\<lambda>v. demo_rlp (be_bytes 32 (unat v))),
     account_encode = demo_account_encode, account_decode = demo_account_decode,
     rlp_decode_u256 = demo_u256_decode\<rparr>"

lemma keccak_len_demo [simp]: "keccak_len demo"
  by (auto simp: keccak_len_def demo_def demo_keccak_def EMPTY_ROOT_def EMPTY_CODE_HASH_def)

lemma decode_typed_demo [simp]: "decode_typed demo"
  by (auto simp: decode_typed_def demo_def demo_account_decode_def split: if_splits)

lemma rlp_empty_demo [simp]: "rlp_empty demo"
  by (simp add: rlp_empty_def demo_def demo_rlp_def demo_len_def)

lemma account_rt_demo [simp]: "account_rt demo"
  unfolding account_rt_def
proof (intro allI impI)
  fix a :: account
  assume "length (a_storage_root a) = 32" "length (a_code_hash a) = 32"
  then show "account_decode demo (account_encode demo a) = Some a"
    using nonce_rt [of "a_nonce a"] balance_rt [of "a_balance a"]
    by (simp add: demo_def demo_account_decode_def demo_account_encode_def)
qed

lemma demo_rlp_word: "demo_rlp (be_bytes 32 n) = 0xa0 # be_bytes 32 n"
proof -
  have "length (be_bytes 32 n) = 32" by simp
  then show ?thesis by (cases "be_bytes 32 n"; cases "tl (be_bytes 32 n)") (auto simp: demo_rlp_def demo_len_def)
qed

lemma u256_rt_demo [simp]: "u256_rt demo"
  by (simp add: u256_rt_def demo_def demo_u256_decode_def demo_rlp_word balance_rt)

lemma length_demo_storage [simp]: "length (storage_value_rlp demo v) = 33"
  by (simp add: storage_value_rlp_def demo_def demo_rlp_word)

text \<open>Two keys that share their first nibble and a node with the first of them.\<close>

definition demo_key1 :: bytes where "demo_key1 = 0x12 # replicate 31 0"

definition demo_key2 :: bytes where "demo_key2 = 0x15 # replicate 31 0"

definition demo_trie :: trie where "demo_trie = TLeaf (key_nibbles demo_key1) [7]"

lemma length_demo_key [simp]: "length demo_key1 = 32" "length demo_key2 = 32"
  by (simp_all add: demo_key1_def demo_key2_def)

lemma demo_key_neq [simp]: "key_nibbles demo_key1 \<noteq> key_nibbles demo_key2" "key_nibbles demo_key2 \<noteq> key_nibbles demo_key1"
  by (simp_all add: demo_key1_def demo_key2_def key_nibbles_def)

lemma wf_demo_trie [simp]: "wf demo_trie 64" "wf0 demo_trie 64"
  by (simp_all add: demo_trie_def wf0_def)

lemma repr_demo_trie [simp]: "repr demo (mat demo demo_trie) demo_trie"
  by (rule repr_mat)

lemma tlook_demo_trie [simp]:
  "tlook demo_trie (key_nibbles demo_key1) = Some (LVal [7])"
  "tlook demo_trie (key_nibbles demo_key2) = None"
  by (simp_all add: demo_trie_def)

lemma decode_demo: "account_decode demo = demo_account_decode"
  by (simp add: demo_def)

text \<open>A store without overflow records.\<close>

definition demo_rd :: "disk_ptr \<Rightarrow> disk_subtree res" where
  "demo_rd ptr = Err (IoErr ''no such record'')"

text \<open>A trie with a branch and an account that holds one slot.\<close>

definition demo_trie2 :: trie where
  "demo_trie2 = tput demo_trie (key_nibbles demo_key2)
     (LAcct 1 5 EMPTY_CODE_HASH (store_slot TEmpty demo_key1 [9]))"

lemma store_slot_TEmpty [simp]: "store_slot TEmpty slot v = TLeaf (key_nibbles slot) v"
  by (simp add: store_slot_def)

lemma length_EMPTY_CODE_HASH [simp]: "length EMPTY_CODE_HASH = 32"
  by (simp add: EMPTY_CODE_HASH_def)

lemma wf_demo_trie2 [simp]: "wf demo_trie2 64" "wf0 demo_trie2 64"
  by (simp_all add: demo_trie2_def wf0_def wf_tput)

lemma repr_demo_trie2 [simp]: "repr demo (mat demo demo_trie2) demo_trie2"
  by (rule repr_mat)

lemma tlook_demo_trie2 [simp]:
  "tlook demo_trie2 (key_nibbles demo_key1) = Some (LVal [7])"
  "tlook demo_trie2 (key_nibbles demo_key2) =
     Some (LAcct 1 5 EMPTY_CODE_HASH (store_slot TEmpty demo_key1 [9]))"
  by (simp_all add: demo_trie2_def tlook_tput [of _ 64])

end
