(* ===== verification/RecordSpec.thy ===== *)
theory RecordSpec
  imports Demo
begin

text \<open>
  The properties of the record layer: the structural operations against the
  reference root builder, lookups, and the record format.
\<close>

section \<open>Roots\<close>

text \<open>C31: an insert into a record that stands for a canonical trie returns a node
  whose finalized reference is the root the reference builder computes from any
  list of writes with the updated contents.\<close>

theorem insert_root_oracle:
  assumes "keccak_len P" and "decode_typed P" and "rlp_empty P" and "length key = 32" and "op_ok op"
    and "wf0 t 64" and "repr P n t" and "130 \<le> fuel"
    and "spec_op P (tlook t (key_nibbles key)) op = Ok l"
    and "final_map es = map_option (leaf_value P) \<circ> (tlook t)(key_nibbles key \<mapsto> l)"
  shows "\<exists>n'. record_node_insert P fuel n 0 key op = Ok n' \<and>
    eth_root P es = Ok (finalize P (hash_node P n'))"
proof -
  obtain n' t' where n': "record_node_insert P fuel n 0 key op = Ok n'" "wf t' 64"
      "tlook t' = (tlook t)(key_nibbles key \<mapsto> l)" "hash_node P n' = tref P t'"
    using record_node_insert_sound [OF assms(1,2,4,5,6) _ assms(7), of 0 fuel l] assms(8,9) by auto
  have "eth_root P es = Ok (troot P t')"
    using n' assms(10) by (intro eth_root_trie [OF assms(3), of t' 64]) (auto simp: wf0_def)
  then show ?thesis using n' by (simp add: troot_def)
qed

theorem insert_root_oracle_witness:
  "\<exists>n'. record_node_insert demo 130 (mat demo demo_trie) 0 demo_key2 (OpValue [9]) = Ok n' \<and>
    eth_root demo [(demo_key2, [9]), (demo_key1, [7])] = Ok (finalize demo (hash_node demo n'))"
  by (rule insert_root_oracle [where t = demo_trie and l = "LVal [9]"])
    (auto simp: final_map_def fun_eq_iff demo_trie_def wf0_def eth_key_nibbles_def key_nibbles_def [symmetric])



text \<open>the reference builder never fails on the entries of a canonical trie, and
  what it returns is the encoding whose reference the engine caches.\<close>

theorem encode_node_canonical:
  assumes "wf t r"
  shows "\<exists>rlp. encode_node P (entries P t) = Ok rlp \<and> tref P t = mk_ref P rlp"
proof -
  have "t \<noteq> TEmpty" using assms by auto
  then show ?thesis using encode_node_entries [OF assms] tref_trlp by blast
qed

theorem encode_node_canonical_witness:
  "\<exists>rlp. encode_node demo (entries demo demo_trie) = Ok rlp \<and> tref demo demo_trie = mk_ref demo rlp"
  by (rule encode_node_canonical [where r = 64]) simp

text \<open>The reference root depends only on the final contents: later writes win,
  empty values delete, and the order of writes to different keys is irrelevant.\<close>

theorem eth_root_last_write_wins:
  assumes "final_map es = final_map es'"
  shows "eth_root P es = eth_root P es'"
proof -
  have "root_map es = root_map es'"
    using assms by (intro sorted_keys_unique) (auto simp: sorted_root_map map_of_root_map)
  then show ?thesis by (simp add: eth_root_def)
qed

theorem eth_root_last_write_wins_witness:
  "eth_root demo [(demo_key1, [7]), (demo_key2, [5]), (demo_key2, [9])] =
   eth_root demo [(demo_key2, [9]), (demo_key1, [7])]"
  by (rule eth_root_last_write_wins)
    (simp add: final_map_def fun_upd_twist eth_key_nibbles_def key_nibbles_def [symmetric])

section \<open>Structural updates\<close>

text \<open>An insert anywhere in a record returns, with enough fuel, a node with right
  cached references whose trie is canonical and differs from the old one in
  exactly the named leaf.\<close>

theorem insert_refines:
  assumes "keccak_len P" and "decode_typed P" and "length key = 32" and "op_ok op"
    and "wf0 t r" and "d + r = 64" and "repr P n t" and "r + 65 < fuel"
    and "spec_op P (tlook t (drop d (key_nibbles key))) op = Ok l"
  shows "\<exists>n' t'. record_node_insert P fuel n d key op = Ok n' \<and> repr P n' t' \<and> wf t' r \<and>
    tlook t' = (tlook t)(drop d (key_nibbles key) \<mapsto> l) \<and> hash_node P n' = tref P t'"
  using assms by (rule record_node_insert_sound)

theorem insert_refines_witness:
  "\<exists>n' t'. record_node_insert demo 130 (mat demo demo_trie) 0 demo_key2 (OpStorage demo_key1 [9]) = Ok n' \<and>
    repr demo n' t' \<and> wf t' 64 \<and>
    tlook t' = (tlook demo_trie)(drop 0 (key_nibbles demo_key2) \<mapsto>
       LAcct 0 0 EMPTY_CODE_HASH (store_slot TEmpty demo_key1 [9])) \<and>
    hash_node demo n' = tref demo t'"
  by (rule insert_refines) simp_all

text \<open>The insert fails exactly as the operation on the leaf fails: a storage write
  to an account whose storage is not materialized is refused, never guessed.\<close>

theorem insert_errors:
  assumes "keccak_len P" and "length key = 32" and "op_ok op"
    and "wf0 t r" and "d + r = 64" and "repr P n t" and "r + 65 < fuel"
    and "spec_op P (tlook t (drop d (key_nibbles key))) op = Err e"
  shows "record_node_insert P fuel n d key op = Err e"
  using assms by (rule record_node_insert_sound_err)

theorem insert_errors_witness:
  "record_node_insert demo 130 (mat demo demo_trie) 0 demo_key1 (OpStorage demo_key2 [9]) =
     Err (Bail ''leaf op does not match the existing node kind at this key'')"
  by (rule insert_errors [where t = demo_trie and r = 64])
    (simp_all add: decode_demo demo_account_decode_def)

text \<open>A delete reports \<open>Absent\<close> and keeps the trie when there is nothing to delete,
  and otherwise returns the canonical trie of the remaining contents, collapsing
  branches and extensions; \<open>Removed\<close> means that nothing is left.\<close>

theorem delete_refines:
  assumes "keccak_len P" and "decode_typed P" and "length key = 32" and "del_ok op"
    and "wf0 t r" and "d + r = 64" and "repr P n t" and "r + 65 < fuel"
  shows "case spec_del0 P (tlook t (drop d (key_nibbles key))) op of
      Err e \<Rightarrow> record_node_delete P fuel n d key op = Err e
    | Ok DKeep \<Rightarrow> \<exists>n'. record_node_delete P fuel n d key op = Ok (n', Absent) \<and> repr P n' t
    | Ok (DUpdate l) \<Rightarrow> \<exists>n' t'. record_node_delete P fuel n d key op = Ok (n', Changed) \<and>
        repr P n' t' \<and> wf t' r \<and> tlook t' = (tlook t)(drop d (key_nibbles key) \<mapsto> l)
    | Ok DRemove \<Rightarrow> \<exists>n' t'. record_node_delete P fuel n d key op =
          Ok (n', if t' = TEmpty then Removed else Changed) \<and>
        repr P n' t' \<and> wf0 t' r \<and> tlook t' = (tlook t)(drop d (key_nibbles key) := None)"
  using assms by (rule record_node_delete_sound)

theorem delete_refines_witness:
  "\<exists>n' t'. record_node_delete demo 130 (mat demo demo_trie) 0 demo_key1 DelValue =
      Ok (n', if t' = TEmpty then Removed else Changed) \<and>
    repr demo n' t' \<and> wf0 t' 64 \<and> tlook t' = (tlook demo_trie)(drop 0 (key_nibbles demo_key1) := None)"
  using delete_refines [of demo demo_key1 DelValue demo_trie 64 0 "mat demo demo_trie" 130]
  by (simp add: spec_del0_def)

text \<open>Reading back: after an insert every key reads as before except the
  inserted one, which reads as the value of the leaf the operation produced.\<close>

theorem get_after_insert:
  assumes "keccak_len P" and "decode_typed P" and "length key = 32" and "op_ok op"
    and "wf0 t 64" and "repr P n t" and "130 \<le> fuel"
    and "spec_op P (tlook t (key_nibbles key)) op = Ok l" and "length key' = 32"
  shows "\<exists>n'. record_node_insert P fuel n 0 key op = Ok n' \<and>
    node_get P rd fuel n' (key_nibbles key') 0 =
      (if key_nibbles key' = key_nibbles key then Ok (Some (leaf_value P l))
       else node_get P rd fuel n (key_nibbles key') 0)"
proof -
  obtain n' t' where n': "record_node_insert P fuel n 0 key op = Ok n'" "repr P n' t'" "wf t' 64"
      "tlook t' = (tlook t)(key_nibbles key \<mapsto> l)"
    using record_node_insert_sound [OF assms(1-5) _ assms(6), of 0 fuel l] assms(7,8) by auto
  have f: "get_fuel m 64 \<le> fuel" for m using assms(7) by (simp add: get_fuel_def)
  have "node_get P rd fuel n' (key_nibbles key') 0 = Ok (map_option (leaf_value P) (tlook t' (drop 0 (key_nibbles key'))))"
    using n' assms(9) f by (intro node_get_gen [OF assms(1)]) (auto simp: wf0_def)
  moreover have "node_get P rd fuel n (key_nibbles key') 0 = Ok (map_option (leaf_value P) (tlook t (drop 0 (key_nibbles key'))))"
    using assms f by (intro node_get_gen [OF assms(1)]) auto
  ultimately show ?thesis using n' by auto
qed

theorem get_after_insert_witness:
  "\<exists>n'. record_node_insert demo 130 (mat demo demo_trie) 0 demo_key2 (OpValue [9]) = Ok n' \<and>
    node_get demo demo_rd 130 n' (key_nibbles demo_key1) 0 =
      (if key_nibbles demo_key1 = key_nibbles demo_key2 then Ok (Some (leaf_value demo (LVal [9])))
       else node_get demo demo_rd 130 (mat demo demo_trie) (key_nibbles demo_key1) 0)"
  by (rule get_after_insert [where t = demo_trie]) simp_all

text \<open>a lookup descends lazily parsed records without error, whatever the store
  holds, and returns exactly the value of the named leaf.\<close>

theorem node_get_correct:
  assumes "keccak_len P" and "wf0 t r" and "d + r = length nibbles" and "r \<le> 64" and "nibs_ok nibbles"
    and "repr P n t" and "get_fuel n r \<le> fuel"
  shows "node_get P rd fuel n nibbles d = Ok (map_option (leaf_value P) (tlook t (drop d nibbles)))"
  using assms by (rule node_get_gen)

theorem node_get_correct_witness:
  "node_get demo demo_rd 130 (mat demo demo_trie2) (key_nibbles demo_key1) 0 = Ok (Some [7])"
  using node_get_correct [of demo demo_trie2 64 0 "key_nibbles demo_key1" "mat demo demo_trie2" 130 demo_rd]
  by (simp add: get_fuel_def)

text \<open>a storage lookup reaches the account and reads the slot of its nested trie;
  it is empty for absent accounts and for accounts kept as opaque values.\<close>

theorem node_get_storage_correct:
  assumes "keccak_len P" and "length slot = 32" and "wf0 t r" and "d + r = length nibbles" and "r \<le> 64"
    and "nibs_ok nibbles" and "repr P n t" and "get_fuel n r + 130 \<le> fuel"
  shows "node_get_storage P rd fuel n nibbles d slot = Ok (case tlook t (drop d nibbles) of
        Some (LAcct no b c s) \<Rightarrow> map_option (leaf_value P) (tlook s (key_nibbles slot))
      | _ \<Rightarrow> None)"
  using assms by (rule node_get_storage_gen)

theorem node_get_storage_correct_witness:
  "node_get_storage demo demo_rd 260 (mat demo demo_trie2) (key_nibbles demo_key2) 0 demo_key1 = Ok (Some [9])"
  using node_get_storage_correct [of demo demo_key1 demo_trie2 64 0 "key_nibbles demo_key2"
      "mat demo demo_trie2" 260 demo_rd]
  by (simp add: get_fuel_def store_slot_def)

section \<open>The record format\<close>

lemma serialize_demo:
  "serialize_subtree \<lparr>ds_prefix = [3], ds_node = mat demo demo_trie\<rparr> =
     Ok (nib_path [3] @ enc demo demo_trie, length (nib_path [3] @ enc demo demo_trie))"
  by (rule serialize_repr [where P = demo and r = 64]) simp_all

lemma size_demo: "length (nib_path [3] @ enc demo demo_trie) < 2 ^ 32"
proof -
  have "length (write_ref (tref demo demo_trie)) \<le> 33"
    using length_write_ref [OF ref_ok_tref, of demo demo_trie] ref_ok_tref [of demo demo_trie]
    by (cases "tref demo demo_trie") auto
  then show ?thesis by (simp add: demo_trie_def div_ceil2_def)
qed

text \<open>C35: writing a record that represents a canonical trie never fails, and the
  size computed beforehand is the exact number of bytes written.\<close>

theorem serialize_exact_size:
  assumes "keccak_len P" and "repr P n t" and "wf0 t r" and "r \<le> 128" and "nibs_ok pre" and "length pre \<le> 128"
  shows "\<exists>buf. serialize_subtree \<lparr>ds_prefix = pre, ds_node = n\<rparr> = Ok (buf, length buf) \<and>
    length buf = record_size (length pre) n"
  using serialize_repr [OF assms(2-6,1)] repr_node_size [OF assms(2,1,3)]
  by (simp add: record_size_def)

theorem serialize_exact_size_witness:
  "\<exists>buf. serialize_subtree \<lparr>ds_prefix = [], ds_node = mat demo demo_trie2\<rparr> = Ok (buf, length buf) \<and>
    length buf = record_size (length ([] :: nibs)) (mat demo demo_trie2)"
  by (rule serialize_exact_size [where P = demo and t = demo_trie2 and r = 64]) simp_all

text \<open>C33: the eager reader inverts the writer: a written record reads back as the
  same prefix and the fully parsed node of the same trie, so a record without
  lazily parsed slices reads back unchanged.\<close>

theorem serialize_roundtrip:
  assumes "keccak_len P" and "repr P n t" and "wf0 t r" and "r \<le> 128" and "nibs_ok pre" and "length pre \<le> 128"
    and "serialize_subtree \<lparr>ds_prefix = pre, ds_node = n\<rparr> = Ok (buf, sz)" and "sz < 2 ^ 32"
  shows "deserialize_subtree P buf = Ok \<lparr>ds_prefix = pre, ds_node = mat P t\<rparr> \<and>
    (n = mat P t \<longrightarrow> deserialize_subtree P buf = Ok \<lparr>ds_prefix = pre, ds_node = n\<rparr>)"
  using serialize_repr [OF assms(2-6,1)] deserialize_enc [OF assms(1,3-6)] assms(7,8) by auto

theorem serialize_roundtrip_witness:
  "\<exists>buf sz. serialize_subtree \<lparr>ds_prefix = [3], ds_node = mat demo demo_trie\<rparr> = Ok (buf, sz) \<and>
     deserialize_subtree demo buf = Ok \<lparr>ds_prefix = [3], ds_node = mat demo demo_trie\<rparr>"
  using serialize_roundtrip [of demo "mat demo demo_trie" demo_trie 64 "[3]", OF _ _ _ _ _ _ serialize_demo]
    serialize_demo size_demo by auto

text \<open>C34: the lazy reader agrees with the eager one: on a written record, at any
  offset of a larger buffer, it succeeds and its node represents the same trie.\<close>

theorem lazy_read_agrees:
  assumes "keccak_len P" and "repr P n t" and "wf0 t r" and "r \<le> 128" and "nibs_ok pre" and "length pre \<le> 128"
    and "serialize_subtree \<lparr>ds_prefix = pre, ds_node = n\<rparr> = Ok (rec, sz)" and "sz < 2 ^ 32"
    and "has_at buf off rec"
  shows "\<exists>m. deserialize_subtree_lazy_at P buf off (length rec) = Ok \<lparr>ds_prefix = pre, ds_node = m\<rparr> \<and>
    repr P m t \<and> hash_node P m = hash_node P n"
proof -
  have r: "rec = nib_path pre @ enc P t" "length (enc P t) < 2 ^ 32"
    using serialize_repr [OF assms(2-6,1)] assms(7,8) by auto
  show ?thesis
    using deserialize_lazy_at_enc [OF assms(1,3-6) r(2), of buf off] assms(9) r(1)
      hash_node_repr [OF assms(2)] hash_node_repr by auto
qed

theorem lazy_read_agrees_witness:
  "\<exists>m. deserialize_subtree_lazy_at demo ([0, 0] @ nib_path [3] @ enc demo demo_trie) 2
      (length (nib_path [3] @ enc demo demo_trie)) = Ok \<lparr>ds_prefix = [3], ds_node = m\<rparr> \<and>
    repr demo m demo_trie \<and> hash_node demo m = hash_node demo (mat demo demo_trie)"
  by (rule lazy_read_agrees [where r = 64, OF keccak_len_demo _ _ _ _ _ serialize_demo])
    (use size_demo in \<open>auto simp: has_at_def slice_def\<close>)

text \<open>The prefix-only reader returns the prefix of a written record.\<close>

theorem parse_prefix_written:
  assumes "keccak_len P" and "repr P n t" and "wf0 t r" and "r \<le> 128" and "nibs_ok pre" and "length pre \<le> 128"
  shows "\<exists>buf sz. serialize_subtree \<lparr>ds_prefix = pre, ds_node = n\<rparr> = Ok (buf, sz) \<and>
    parse_prefix buf = Ok pre"
  using serialize_repr [OF assms(2-6,1)] read_nib_path_at [OF has_at_prefix assms(5,6)]
  by (simp add: parse_prefix_def)

theorem parse_prefix_written_witness:
  "\<exists>buf sz. serialize_subtree \<lparr>ds_prefix = [3], ds_node = mat demo demo_trie2\<rparr> = Ok (buf, sz) \<and>
    parse_prefix buf = Ok [3]"
  by (rule parse_prefix_written [where P = demo and t = demo_trie2 and r = 64]) simp_all

end
