(* ===== verification/Region.thy ===== *)
theory Region
  imports Eth
begin

text \<open>
  The log-structured space allocator of the flat file (\<^verbatim>\<open>RegionAlloc\<close> in
  \<^verbatim>\<open>src/lib.rs\<close>). The file is a sequence of regions of 512 units; records
  are appended to a head region and whole regions are recycled. Counters that
  the source keeps as \<^verbatim>\<open>u64\<close> or \<^verbatim>\<open>u32\<close> are natural numbers here (the
  invariant bounds the live counts by 512), except the wrapping batch epoch. The
  shared \<^verbatim>\<open>end_page\<close> counter is passed and returned explicitly.

  The specification adds a ghost state to the allocator: the set of live
  records, what every pinned snapshot can still read, and what the last durable
  checkpoint refers to. The invariant says that none of these is ever
  overwritten; the step relation covers every operation of the allocator.
\<close>

section \<open>State\<close>

definition PAGE :: nat where "PAGE = 16384"

definition REGION_PAGES :: nat where "REGION_PAGES = 8"

definition ADDR_UNIT :: nat where "ADDR_UNIT = 256"

definition UNITS_PER_PAGE :: nat where "UNITS_PER_PAGE = PAGE div ADDR_UNIT"

definition REGION_UNITS :: nat where "REGION_UNITS = REGION_PAGES * UNITS_PER_PAGE"

definition REGION_BYTES :: nat where "REGION_BYTES = REGION_PAGES * PAGE"

definition RECORD_HDR :: nat where "RECORD_HDR = 4"

definition MAX_RECORD_BYTES :: nat where "MAX_RECORD_BYTES = REGION_BYTES - RECORD_HDR"

definition div_ceil :: "nat \<Rightarrow> nat \<Rightarrow> nat" where
  "div_ceil a b = (a + b - 1) div b"

definition units_for :: "nat \<Rightarrow> nat" where
  "units_for bs = div_ceil bs ADDR_UNIT"

record region_alloc =
  ra_live :: "nat list"
  ra_epoch_of :: "u32 list"
  ra_epoch :: u32
  ra_head :: nat
  ra_next :: nat
  ra_free :: "nat list"
  ra_fresh :: "bool list"
  ra_quarantine :: "nat list"
  ra_evac_pinned :: "bool list"
  ra_pin_gen :: nat
  ra_pins :: "(nat \<times> nat) list"
  ra_staged :: "nat list"
  ra_hold :: "(nat \<times> nat) list"

text \<open>\<^verbatim>\<open>Default\<close>: everything empty and zero.\<close>

definition ra_default :: region_alloc where
  "ra_default = \<lparr>ra_live = [], ra_epoch_of = [], ra_epoch = 0, ra_head = 0, ra_next = 0,
     ra_free = [], ra_fresh = [], ra_quarantine = [], ra_evac_pinned = [], ra_pin_gen = 0,
     ra_pins = [], ra_staged = [], ra_hold = []\<rparr>"

section \<open>Operations\<close>

definition resize :: "'a list \<Rightarrow> nat \<Rightarrow> 'a \<Rightarrow> 'a list" where
  "resize xs n x = take n xs @ replicate (n - length xs) x"

definition region_of_unit :: "nat \<Rightarrow> nat" where
  "region_of_unit u = u div REGION_UNITS"

definition ensure_region :: "nat \<Rightarrow> region_alloc \<Rightarrow> region_alloc" where
  "ensure_region r a =
     (let a = (if length (ra_fresh a) \<le> r then a\<lparr>ra_fresh := resize (ra_fresh a) (r + 1) False\<rparr> else a);
          a = (if length (ra_evac_pinned a) \<le> r
               then a\<lparr>ra_evac_pinned := resize (ra_evac_pinned a) (r + 1) False\<rparr> else a)
      in if length (ra_live a) \<le> r
         then a\<lparr>ra_live := resize (ra_live a) (r + 1) 0,
                ra_epoch_of := resize (ra_epoch_of a) (r + 1) 0\<rparr>
         else a)"

definition bump_epoch :: "region_alloc \<Rightarrow> region_alloc" where
  "bump_epoch a = a\<lparr>ra_epoch := ra_epoch a + 1\<rparr>"

definition open_new_head :: "region_alloc \<Rightarrow> nat \<Rightarrow> region_alloc" where
  "open_new_head a end_page =
     (let (r, fr) = (if ra_free a = [] then (div_ceil end_page REGION_PAGES, [])
                     else (last (ra_free a), butlast (ra_free a)));
          a = ensure_region r (a\<lparr>ra_free := fr, ra_head := r, ra_next := r * REGION_UNITS\<rparr>)
      in a\<lparr>ra_epoch_of := (ra_epoch_of a)[r := ra_epoch a],
           ra_fresh := (ra_fresh a)[r := True],
           ra_evac_pinned := (ra_evac_pinned a)[r := False]\<rparr>)"

definition alloc :: "region_alloc \<Rightarrow> nat \<Rightarrow> nat \<Rightarrow> nat \<Rightarrow> (nat \<times> region_alloc \<times> nat) res" where
  "alloc a run_units live_units end_page =
     (if REGION_UNITS < run_units then Err (Panic ''run exceeds a region'')
      else
        (let region_end = ra_head a * REGION_UNITS + REGION_UNITS;
             a = (if ra_live a = [] \<or> region_end < ra_next a + run_units
                  then open_new_head a end_page else a);
             unit = ra_next a;
             next = unit + run_units
         in Ok (unit,
                a\<lparr>ra_next := next,
                  ra_live := (ra_live a)[ra_head a := ra_live a ! ra_head a + live_units]\<rparr>,
                max end_page (div_ceil next UNITS_PER_PAGE))))"

definition is_fresh :: "region_alloc \<Rightarrow> nat \<Rightarrow> bool" where
  "is_fresh a r = (r < length (ra_fresh a) \<and> ra_fresh a ! r)"

definition free :: "region_alloc \<Rightarrow> nat \<Rightarrow> nat \<Rightarrow> region_alloc" where
  "free a unit units =
     (let r = region_of_unit unit in
      if length (ra_live a) \<le> r then a
      else
        (let was = ra_live a ! r; a = a\<lparr>ra_live := (ra_live a)[r := was - units]\<rparr> in
         if 0 < was \<and> ra_live a ! r = 0 \<and> r \<noteq> ra_head a then
           (if ra_pins a \<noteq> [] then a\<lparr>ra_hold := ra_hold a @ [(r, ra_pin_gen a)]\<rparr>
            else if is_fresh a r then a\<lparr>ra_staged := ra_staged a @ [r]\<rparr>
            else a\<lparr>ra_quarantine := ra_quarantine a @ [r]\<rparr>)
         else a))"

definition on_persisted :: "region_alloc \<Rightarrow> region_alloc" where
  "on_persisted a =
     (let a = (if ra_pins a \<noteq> [] then
                 a\<lparr>ra_hold := ra_hold a @ map (\<lambda>r. (r, ra_pin_gen a)) (ra_quarantine a),
                   ra_quarantine := []\<rparr>
               else a\<lparr>ra_staged := ra_staged a @ ra_quarantine a, ra_quarantine := []\<rparr>)
      in a\<lparr>ra_fresh := replicate (length (ra_fresh a)) False\<rparr>)"

definition oldest_pin :: "region_alloc \<Rightarrow> nat option" where
  "oldest_pin a = (case ra_pins a of [] \<Rightarrow> None | (g, c) # ps \<Rightarrow> Some g)"

text \<open>The loop of \<^verbatim>\<open>release_snap_hold\<close> over the taken entries; \<open>kept\<close> accumulates.\<close>

fun release_loop :: "nat option \<Rightarrow> (nat \<times> nat) list \<Rightarrow> (nat \<times> nat) list \<Rightarrow> region_alloc \<Rightarrow> region_alloc" where
  "release_loop oldest [] kept a = a\<lparr>ra_hold := kept\<rparr>"
| "release_loop oldest ((r, tag) # rest) kept a =
     (if (case oldest of None \<Rightarrow> False | Some x \<Rightarrow> x \<le> tag) then release_loop oldest rest (kept @ [(r, tag)]) a
      else if is_fresh a r then release_loop oldest rest kept (a\<lparr>ra_staged := ra_staged a @ [r]\<rparr>)
      else release_loop oldest rest kept (a\<lparr>ra_quarantine := ra_quarantine a @ [r]\<rparr>))"

definition release_snap_hold :: "region_alloc \<Rightarrow> region_alloc" where
  "release_snap_hold a = release_loop (oldest_pin a) (ra_hold a) [] (a\<lparr>ra_hold := []\<rparr>)"

definition pins_add :: "nat \<Rightarrow> (nat \<times> nat) list \<Rightarrow> (nat \<times> nat) list" where
  "pins_add g pins = bt_insert g ((case map_of pins g of None \<Rightarrow> 0 | Some c \<Rightarrow> c) + 1) pins"

definition pin :: "region_alloc \<Rightarrow> nat \<times> region_alloc" where
  "pin a = (let g = ra_pin_gen a + 1 in (g, a\<lparr>ra_pin_gen := g, ra_pins := pins_add g (ra_pins a)\<rparr>))"

definition pin_at :: "region_alloc \<Rightarrow> nat \<Rightarrow> region_alloc" where
  "pin_at a g = a\<lparr>ra_pins := pins_add g (ra_pins a)\<rparr>"

definition unpin :: "region_alloc \<Rightarrow> nat \<Rightarrow> region_alloc" where
  "unpin a g = release_snap_hold
     (case map_of (ra_pins a) g of
        None \<Rightarrow> a
      | Some c \<Rightarrow> (let c = c - 1 in
          if c = 0 then a\<lparr>ra_pins := bt_remove g (ra_pins a)\<rparr>
          else a\<lparr>ra_pins := bt_insert g c (ra_pins a)\<rparr>))"

definition drain_staged :: "region_alloc \<Rightarrow> region_alloc" where
  "drain_staged a = a\<lparr>ra_free := ra_free a @ ra_staged a, ra_staged := []\<rparr>"

definition live_units :: "region_alloc \<Rightarrow> nat" where
  "live_units a = sum_list (ra_live a)"

definition free_region_units :: "region_alloc \<Rightarrow> nat" where
  "free_region_units a = length (ra_free a) * REGION_UNITS"

text \<open>
  Victim selection. Floating point is a parameter: \<open>score live age\<close> orders the
  candidates (\<open>score\<close> returns a rank, higher first) and \<open>cap_live\<close> is the
  truncated product \<^verbatim>\<open>REGION_UNITS * max_util\<close>.
\<close>

definition victim_ok :: "region_alloc \<Rightarrow> nat \<Rightarrow> nat \<Rightarrow> bool" where
  "victim_ok a cap_live r =
     (ra_live a ! r \<noteq> 0 \<and> ra_live a ! r \<le> cap_live \<and> r \<noteq> ra_head a \<and> r \<notin> set (ra_free a) \<and>
      \<not> (r < length (ra_evac_pinned a) \<and> ra_evac_pinned a ! r))"

definition select_victims :: "(nat \<Rightarrow> u32 \<Rightarrow> int) \<Rightarrow> region_alloc \<Rightarrow> nat \<Rightarrow> nat \<Rightarrow> nat list" where
  "select_victims score a max_n cap_live =
     (if max_n = 0 then []
      else take max_n (sort_key (\<lambda>r. - score (ra_live a ! r) (ra_epoch a - ra_epoch_of a ! r))
             (filter (victim_ok a cap_live) [0..<length (ra_live a)])))"

definition select_opportunistic :: "region_alloc \<Rightarrow> nat list \<Rightarrow> nat \<Rightarrow> nat list" where
  "select_opportunistic a touched cap_live =
     filter (\<lambda>r. (let l = (if r < length (ra_live a) then ra_live a ! r else 0)
                  in 0 < l \<and> l \<le> cap_live \<and> r \<noteq> ra_head a \<and> r \<notin> set (ra_free a))) touched"

end
