(* ===== verification/RegionProofs.thy ===== *)
theory RegionProofs
  imports Region "HOL-Library.Multiset"
begin

text \<open>
  The allocator invariant and its preservation by every operation: live counts
  are exact, parked regions are dead and distinct, no live record, no record a
  live snapshot can read and no record of the last durable checkpoint is ever
  handed out again.
\<close>

section \<open>Ghost state\<close>

text \<open>A run is a start unit, its reserved units and the units credited as live.\<close>

datatype run = Run (run_start: nat) (run_units: nat) (run_live: nat)

definition run_end :: "run \<Rightarrow> nat" where
  "run_end x = run_start x + run_units x"

lemma run_end_Run [simp]: "run_end (Run u n l) = u + n"
  by (simp add: run_end_def)

definition run_region :: "run \<Rightarrow> nat" where
  "run_region x = region_of_unit (run_start x)"

definition run_ok :: "run \<Rightarrow> bool" where
  "run_ok x = (0 < run_live x \<and> run_start x + run_live x \<le> run_end x \<and>
     run_end x \<le> (run_region x + 1) * REGION_UNITS)"

definition apart :: "run \<Rightarrow> run \<Rightarrow> bool" where
  "apart x y = (run_end x \<le> run_start y \<or> run_end y \<le> run_start x)"

definition parked :: "region_alloc \<Rightarrow> nat list" where
  "parked a = ra_free a @ ra_staged a @ ra_quarantine a @ map fst (ra_hold a)"

text \<open>A run no allocation can reach without its region being recycled first.\<close>

definition sealed :: "region_alloc \<Rightarrow> run \<Rightarrow> bool" where
  "sealed a x = (run_ok x \<and> run_region x < length (ra_live a) \<and>
     (run_region x = ra_head a \<longrightarrow> run_end x \<le> ra_next a))"

definition lengths_in :: "region_alloc \<Rightarrow> nat \<Rightarrow> bool" where
  "lengths_in a e = (length (ra_fresh a) = length (ra_live a) \<and>
     length (ra_evac_pinned a) = length (ra_live a) \<and> length (ra_epoch_of a) = length (ra_live a) \<and>
     length (ra_live a) \<le> div_ceil e REGION_PAGES)"

text \<open>
  The tables cover the regions below the end of the file. A reopened file has one
  region more until its first write: its empty head, which starts at the end.
\<close>

definition empty_head :: "region_alloc \<Rightarrow> nat \<Rightarrow> bool" where
  "empty_head a e = (ra_head a = div_ceil e REGION_PAGES \<and> ra_next a = ra_head a * REGION_UNITS \<and>
     length (ra_live a) = ra_head a + 1)"

definition lengths_ok :: "region_alloc \<Rightarrow> nat \<Rightarrow> bool" where
  "lengths_ok a e = (length (ra_fresh a) = length (ra_live a) \<and>
     length (ra_evac_pinned a) = length (ra_live a) \<and> length (ra_epoch_of a) = length (ra_live a) \<and>
     (length (ra_live a) \<le> div_ceil e REGION_PAGES \<or> empty_head a e))"

definition head_ok :: "region_alloc \<Rightarrow> bool" where
  "head_ok a = (ra_live a \<noteq> [] \<longrightarrow> ra_head a < length (ra_live a) \<and>
     ra_head a * REGION_UNITS \<le> ra_next a \<and> ra_next a \<le> (ra_head a + 1) * REGION_UNITS)"

definition parked_ok :: "region_alloc \<Rightarrow> bool" where
  "parked_ok a = (distinct (parked a) \<and>
     (\<forall>r \<in> set (parked a). r < length (ra_live a) \<and> ra_live a ! r = 0 \<and> r \<noteq> ra_head a))"

definition recs_ok :: "region_alloc \<Rightarrow> run set \<Rightarrow> bool" where
  "recs_ok a R = (finite R \<and> (\<forall>x \<in> R. sealed a x) \<and> (\<forall>x \<in> R. \<forall>y \<in> R. x \<noteq> y \<longrightarrow> apart x y) \<and>
     (\<forall>r < length (ra_live a). ra_live a ! r = sum run_live {x \<in> R. run_region x = r}))"

definition pins_ok :: "region_alloc \<Rightarrow> bool" where
  "pins_ok a = (sorted_keys (ra_pins a) \<and> (\<forall>(g, c) \<in> set (ra_pins a). g \<le> ra_pin_gen a \<and> 0 < c))"

definition ra_inv :: "region_alloc \<Rightarrow> nat \<Rightarrow> run set \<Rightarrow> bool" where
  "ra_inv a e R = (lengths_ok a e \<and> head_ok a \<and> parked_ok a \<and> recs_ok a R \<and> pins_ok a)"

definition pinned :: "region_alloc \<Rightarrow> nat \<Rightarrow> bool" where
  "pinned a g = (g \<in> fst ` set (ra_pins a))"

definition snap_inv :: "region_alloc \<Rightarrow> (nat \<rightharpoonup> run set) \<Rightarrow> bool" where
  "snap_inv a snaps = (\<forall>g F x. snaps g = Some F \<longrightarrow> pinned a g \<longrightarrow> x \<in> F \<longrightarrow>
     sealed a x \<and> run_region x \<notin> set (ra_free a @ ra_staged a @ ra_quarantine a) \<and>
     (\<forall>tag. (run_region x, tag) \<in> set (ra_hold a) \<longrightarrow> g \<le> tag))"

definition dur_inv :: "region_alloc \<Rightarrow> run set \<Rightarrow> bool" where
  "dur_inv a D = (\<forall>x \<in> D. sealed a x \<and> run_region x \<notin> set (ra_free a @ ra_staged a) \<and>
     \<not> is_fresh a (run_region x))"

record gstate =
  g_ra :: region_alloc
  g_end :: nat
  g_recs :: "run set"
  g_snaps :: "nat \<rightharpoonup> run set"
  g_durable :: "run set"

definition g_inv :: "gstate \<Rightarrow> bool" where
  "g_inv s = (ra_inv (g_ra s) (g_end s) (g_recs s) \<and> snap_inv (g_ra s) (g_snaps s) \<and>
     dur_inv (g_ra s) (g_durable s))"

definition g_init :: gstate where
  "g_init = \<lparr>g_ra = ra_default, g_end = 0, g_recs = {}, g_snaps = Map.empty, g_durable = {}\<rparr>"

text \<open>
  One step per allocator operation, as the store drives it. \<open>step_split\<close> is a
  ghost step: a batch reserves one run for many records, which are freed one by
  one later.
\<close>

inductive ra_step :: "gstate \<Rightarrow> gstate \<Rightarrow> bool" where
  step_alloc: "alloc (g_ra s) n l (g_end s) = Ok (u, a', e') \<Longrightarrow> 0 < l \<Longrightarrow> l \<le> n \<Longrightarrow>
     ra_step s (s\<lparr>g_ra := a', g_end := e', g_recs := insert (Run u n l) (g_recs s)\<rparr>)"
| step_free: "Run u n l \<in> g_recs s \<Longrightarrow>
     ra_step s (s\<lparr>g_ra := free (g_ra s) u l, g_recs := g_recs s - {Run u n l}\<rparr>)"
| step_split: "Run u n l \<in> g_recs s \<Longrightarrow> 0 < k \<Longrightarrow> k < l \<Longrightarrow>
     ra_step s (s\<lparr>g_recs := g_recs s - {Run u n l} \<union> {Run u k k, Run (u + k) (n - k) (l - k)}\<rparr>)"
| step_persist: "ra_step s (s\<lparr>g_ra := on_persisted (g_ra s), g_durable := g_recs s\<rparr>)"
| step_pin: "pin (g_ra s) = (g, a') \<Longrightarrow>
     ra_step s (s\<lparr>g_ra := a', g_snaps := (g_snaps s)(g \<mapsto> g_recs s)\<rparr>)"
| step_pin_at: "pinned (g_ra s) g \<Longrightarrow> ra_step s (s\<lparr>g_ra := pin_at (g_ra s) g\<rparr>)"
| step_unpin: "ra_step s (s\<lparr>g_ra := unpin (g_ra s) g\<rparr>)"
| step_drain: "ra_step s (s\<lparr>g_ra := drain_staged (g_ra s)\<rparr>)"
| step_epoch: "ra_step s (s\<lparr>g_ra := bump_epoch (g_ra s)\<rparr>)"

definition reachable :: "gstate \<Rightarrow> bool" where
  "reachable s = ra_step\<^sup>*\<^sup>* g_init s"

section \<open>Arithmetic of regions\<close>

lemma region_consts [simp]: "REGION_UNITS = 512" "REGION_PAGES = 8" "UNITS_PER_PAGE = 64"
  by (simp_all add: REGION_UNITS_def REGION_PAGES_def UNITS_PER_PAGE_def PAGE_def ADDR_UNIT_def)

lemma region_of_unit_iff: "region_of_unit u = r \<longleftrightarrow> r * 512 \<le> u \<and> u < (r + 1) * 512"
  by (auto simp: region_of_unit_def)

lemma apart_sym: "apart x y = apart y x"
  by (auto simp: apart_def)

lemma apart_regions:
  assumes "run_ok x" and "run_ok y" and "run_region x \<noteq> run_region y"
  shows "apart x y"
proof (cases "run_region x < run_region y")
  case True
  then have "(run_region x + 1) * 512 \<le> run_region y * 512" by simp
  moreover have "run_region y * 512 \<le> run_start y"
    by (simp add: run_region_def region_of_unit_def)
  ultimately show ?thesis using assms(1) by (simp add: apart_def run_ok_def)
next
  case False
  then have "(run_region y + 1) * 512 \<le> run_region x * 512" using assms(3) by simp
  moreover have "run_region x * 512 \<le> run_start x"
    by (simp add: run_region_def region_of_unit_def)
  ultimately show ?thesis using assms(2) by (simp add: apart_def run_ok_def)
qed

lemma div_ceil_page:
  assumes "h * 512 < m"
  shows "h + 1 \<le> div_ceil (div_ceil m 64) 8"
proof -
  have "h * 8 + 1 \<le> div_ceil m 64" using assms by (simp add: div_ceil_def less_eq_div_iff_mult_less_eq)
  then show ?thesis by (simp add: div_ceil_def less_eq_div_iff_mult_less_eq)
qed

lemma div_ceil_mono: "m \<le> n \<Longrightarrow> div_ceil m k \<le> div_ceil n k"
  by (simp add: div_ceil_def div_le_mono)

section \<open>Allocation\<close>

lemma resize_grow: "length xs \<le> r \<Longrightarrow> resize xs (Suc r) x = xs @ replicate (Suc r - length xs) x"
  by (simp add: resize_def)

text \<open>What opening a head region changes.\<close>

lemma open_new_head_aux:
  assumes "lengths_in a e" and "parked_ok a" and a1: "a1 = open_new_head a e"
  obtains r where "ra_head a1 = r" "ra_next a1 = r * 512" "r < length (ra_live a1)"
    "r < length (ra_live a) \<longrightarrow> r \<in> set (ra_free a)"
    "set (parked a1) = set (parked a) - {r}" "distinct (parked a1)"
    "set (ra_free a1) \<subseteq> set (ra_free a)" "ra_staged a1 = ra_staged a"
    "ra_quarantine a1 = ra_quarantine a" "ra_hold a1 = ra_hold a"
    "ra_pins a1 = ra_pins a" "ra_pin_gen a1 = ra_pin_gen a"
    "\<exists>k. ra_live a1 = ra_live a @ replicate k 0"
    "\<forall>i < length (ra_live a). i \<noteq> r \<longrightarrow> is_fresh a1 i = is_fresh a i"
    "length (ra_fresh a1) = length (ra_live a1)" "length (ra_evac_pinned a1) = length (ra_live a1)"
    "length (ra_epoch_of a1) = length (ra_live a1)" "ra_live a1 ! r = 0"
    "length (ra_live a1) \<le> max (length (ra_live a)) (r + 1)"
proof (cases "ra_free a = []")
  case True
  let ?r = "div_ceil e 8"
  have l: "length (ra_live a) \<le> ?r" "length (ra_fresh a) = length (ra_live a)"
    "length (ra_evac_pinned a) = length (ra_live a)" "length (ra_epoch_of a) = length (ra_live a)"
    using assms(1) by (auto simp: lengths_in_def)
  then have e: "a1 = a\<lparr>ra_free := [], ra_head := ?r, ra_next := ?r * 512,
      ra_live := ra_live a @ replicate (?r + 1 - length (ra_live a)) 0,
      ra_epoch_of := (ra_epoch_of a @ replicate (?r + 1 - length (ra_live a)) 0)[?r := ra_epoch a],
      ra_fresh := (ra_fresh a @ replicate (?r + 1 - length (ra_live a)) False)[?r := True],
      ra_evac_pinned := (ra_evac_pinned a @ replicate (?r + 1 - length (ra_live a)) False)[?r := False]\<rparr>"
    by (simp add: a1 open_new_head_def ensure_region_def True resize_grow Let_def)
  have "?r \<notin> set (parked a)" using assms(2) l by (auto simp: parked_ok_def)
  then show thesis
    using that [of ?r] l assms(2) True
    by (auto simp: e parked_def parked_ok_def is_fresh_def nth_append nth_list_update)
next
  case False
  let ?r = "last (ra_free a)"
  have bl: "ra_free a = butlast (ra_free a) @ [?r]" using False by simp
  have "?r \<in> set (parked a)" using False by (simp add: parked_def)
  then have l: "?r < length (ra_live a)" "length (ra_fresh a) = length (ra_live a)" "ra_live a ! ?r = 0"
    "length (ra_evac_pinned a) = length (ra_live a)" "length (ra_epoch_of a) = length (ra_live a)"
    using assms by (auto simp: parked_ok_def lengths_in_def)
  then have e: "a1 = a\<lparr>ra_free := butlast (ra_free a), ra_head := ?r, ra_next := ?r * 512,
      ra_epoch_of := (ra_epoch_of a)[?r := ra_epoch a], ra_fresh := (ra_fresh a)[?r := True],
      ra_evac_pinned := (ra_evac_pinned a)[?r := False]\<rparr>"
    using False by (simp add: a1 open_new_head_def ensure_region_def Let_def)
  have d: "distinct (parked a)" using assms(2) by (simp add: parked_ok_def)
  then have d': "distinct (butlast (ra_free a) @ [?r] @ ra_staged a @ ra_quarantine a @ map fst (ra_hold a))"
    using bl unfolding parked_def by (metis append.assoc)
  have "set (ra_free a) = insert ?r (set (butlast (ra_free a)))" using bl by (metis Un_insert_right list.simps(15) set_append sup_bot.right_neutral empty_set)
  then show thesis
    using that [of ?r] l d' False
    by (auto simp: e parked_def is_fresh_def nth_list_update)
qed

lemma open_new_head_facts:
  assumes "lengths_in a e" and "parked_ok a" and a1: "a1 = open_new_head a e"
  shows "ra_next a1 = ra_head a1 * 512"
    "ra_head a1 < length (ra_live a1)"
    "ra_head a1 < length (ra_live a) \<longrightarrow> ra_head a1 \<in> set (ra_free a)"
    "set (parked a1) = set (parked a) - {ra_head a1}"
    "distinct (parked a1)"
    "set (ra_free a1) \<subseteq> set (ra_free a)"
    "ra_staged a1 = ra_staged a"
    "ra_quarantine a1 = ra_quarantine a"
    "ra_hold a1 = ra_hold a"
    "ra_pins a1 = ra_pins a"
    "ra_pin_gen a1 = ra_pin_gen a"
    "\<exists>k. ra_live a1 = ra_live a @ replicate k 0"
    "\<forall>i < length (ra_live a). i \<noteq> ra_head a1 \<longrightarrow> is_fresh a1 i = is_fresh a i"
    "length (ra_fresh a1) = length (ra_live a1)"
    "length (ra_evac_pinned a1) = length (ra_live a1)"
    "length (ra_epoch_of a1) = length (ra_live a1)"
    "ra_live a1 ! ra_head a1 = 0"
    "length (ra_live a1) \<le> max (length (ra_live a)) (ra_head a1 + 1)"
proof -
  obtain r where o: "ra_head a1 = r"
    "ra_next a1 = r * 512"
    "r < length (ra_live a1)"
    "r < length (ra_live a) \<longrightarrow> r \<in> set (ra_free a)"
    "set (parked a1) = set (parked a) - {r}"
    "distinct (parked a1)"
    "set (ra_free a1) \<subseteq> set (ra_free a)"
    "ra_staged a1 = ra_staged a"
    "ra_quarantine a1 = ra_quarantine a"
    "ra_hold a1 = ra_hold a"
    "ra_pins a1 = ra_pins a"
    "ra_pin_gen a1 = ra_pin_gen a"
    "\<exists>k. ra_live a1 = ra_live a @ replicate k 0"
    "\<forall>i < length (ra_live a). i \<noteq> r \<longrightarrow> is_fresh a1 i = is_fresh a i"
    "length (ra_fresh a1) = length (ra_live a1)"
    "length (ra_evac_pinned a1) = length (ra_live a1)"
    "length (ra_epoch_of a1) = length (ra_live a1)"
    "ra_live a1 ! r = 0"
    "length (ra_live a1) \<le> max (length (ra_live a)) (r + 1)"
    using assms by (rule open_new_head_aux)
  show "ra_next a1 = ra_head a1 * 512"
    "ra_head a1 < length (ra_live a1)"
    "ra_head a1 < length (ra_live a) \<longrightarrow> ra_head a1 \<in> set (ra_free a)"
    "set (parked a1) = set (parked a) - {ra_head a1}"
    "distinct (parked a1)"
    "set (ra_free a1) \<subseteq> set (ra_free a)"
    "ra_staged a1 = ra_staged a"
    "ra_quarantine a1 = ra_quarantine a"
    "ra_hold a1 = ra_hold a"
    "ra_pins a1 = ra_pins a"
    "ra_pin_gen a1 = ra_pin_gen a"
    "\<exists>k. ra_live a1 = ra_live a @ replicate k 0"
    "\<forall>i < length (ra_live a). i \<noteq> ra_head a1 \<longrightarrow> is_fresh a1 i = is_fresh a i"
    "length (ra_fresh a1) = length (ra_live a1)"
    "length (ra_evac_pinned a1) = length (ra_live a1)"
    "length (ra_epoch_of a1) = length (ra_live a1)"
    "ra_live a1 ! ra_head a1 = 0"
    "length (ra_live a1) \<le> max (length (ra_live a)) (ra_head a1 + 1)"
    using o by simp_all
qed

text \<open>Reserving a run at the head of a state that has room for it.\<close>

lemma alloc_into:
  assumes h: "ra_head a < length (ra_live a)" "ra_head a * 512 \<le> ra_next a" "ra_next a + n \<le> (ra_head a + 1) * 512"
    and l: "0 < l" "l \<le> n" and pk: "parked_ok a" and rc: "recs_ok a R"
    and x: "x = Run (ra_next a) n l"
    and a': "a' = a\<lparr>ra_next := ra_next a + n, ra_live := (ra_live a)[ra_head a := ra_live a ! ra_head a + l]\<rparr>"
  shows "head_ok a'" "parked_ok a'" "recs_ok a' (insert x R)" "run_ok x" "run_region x = ra_head a"
    "\<And>y. sealed a y \<Longrightarrow> sealed a' y \<and> apart x y"
proof -
  show reg: "run_region x = ra_head a"
    using h l by (simp add: x run_region_def region_of_unit_iff)
  then show ok: "run_ok x" using h l by (simp add: run_ok_def x)
  show "head_ok a'" using h by (simp add: head_ok_def a')
  have "parked a' = parked a" by (simp add: parked_def a')
  then show "parked_ok a'" using pk by (auto simp: parked_ok_def a')
  show sl: "sealed a' y \<and> apart x y" if "sealed a y" for y
  proof -
    have y: "run_ok y" "run_region y < length (ra_live a)" "run_region y = ra_head a \<Longrightarrow> run_end y \<le> ra_next a"
      using that by (auto simp: sealed_def)
    have "apart x y"
    proof (cases "run_region y = ra_head a")
      case True
      then show ?thesis using y(3) by (simp add: apart_def x)
    next
      case False
      then show ?thesis using apart_regions [OF ok y(1)] reg by simp
    qed
    then show ?thesis using y by (auto simp: sealed_def a')
  qed
  have R: "finite R" "\<And>y. y \<in> R \<Longrightarrow> sealed a y" "\<And>y z. y \<in> R \<Longrightarrow> z \<in> R \<Longrightarrow> y \<noteq> z \<Longrightarrow> apart y z"
    "\<And>r. r < length (ra_live a) \<Longrightarrow> ra_live a ! r = sum run_live {x \<in> R. run_region x = r}"
    using rc by (auto simp: recs_ok_def)
  have nin: "x \<notin> R"
  proof
    assume "x \<in> R"
    then have "apart x x" using sl R(2) by blast
    then show False using l by (simp add: apart_def x)
  qed
  have "{y \<in> insert x R. run_region y = r} =
      (if r = ra_head a then insert x {y \<in> R. run_region y = r} else {y \<in> R. run_region y = r})" for r
    using reg by auto
  then have "ra_live a' ! r = sum run_live {y \<in> insert x R. run_region y = r}" if "r < length (ra_live a)" for r
    using that R(1,4) nin h(1) by (simp add: a' nth_list_update x)
  moreover have "sealed a' x" using reg ok h by (simp add: sealed_def a' x)
  moreover have "apart y z" if "y \<in> insert x R" "z \<in> insert x R" "y \<noteq> z" for y z
    using that R(2,3) sl apart_sym by (metis insertE)
  ultimately show "recs_ok a' (insert x R)"
    using R(1,2) sl unfolding recs_ok_def by (auto simp: a')
qed

text \<open>Opening a head keeps every sealed run and every count.\<close>

lemma recs_ok_open:
  assumes "lengths_in a e" and "parked_ok a" and "recs_ok a R" and a1: "a1 = open_new_head a e"
  shows "recs_ok a1 R" "parked_ok a1"
    "\<And>y. sealed a y \<Longrightarrow> run_region y \<notin> set (ra_free a) \<Longrightarrow> sealed a1 y"
proof -
  note F = open_new_head_facts [OF assms(1,2,4)]
  obtain k where k: "ra_live a1 = ra_live a @ replicate k 0" using F(12) by blast
  show sl: "sealed a1 y" if "sealed a y" "run_region y \<notin> set (ra_free a)" for y
    using that F(3) by (auto simp: sealed_def k)
  have dead: "run_region y \<notin> set (ra_free a)" if "y \<in> R" for y
  proof
    assume f: "run_region y \<in> set (ra_free a)"
    have y: "sealed a y" "finite R" using assms(3) that by (auto simp: recs_ok_def)
    have "0 < run_live y" using y by (simp add: sealed_def run_ok_def)
    also have "run_live y \<le> sum run_live {x \<in> R. run_region x = run_region y}"
      using that y(2) by (intro member_le_sum) auto
    also have "\<dots> = 0"
      using f assms(2,3) y(1) by (auto simp: parked_ok_def parked_def recs_ok_def sealed_def)
    finally show False by simp
  qed
  show "parked_ok a1"
    using assms(2) F(4,5) by (auto simp: parked_ok_def k nth_append)
  have "\<And>i. length (ra_live a) \<le> i \<Longrightarrow> {x \<in> R. run_region x = i} = {}"
    using assms(3) by (auto simp: recs_ok_def sealed_def)
  then show "recs_ok a1 R"
    using assms(3) sl dead unfolding recs_ok_def by (auto simp: k nth_append not_less)
qed

definition room :: "region_alloc \<Rightarrow> nat \<Rightarrow> nat \<Rightarrow> region_alloc" where
  "room a n e = (if ra_live a = [] \<or> ra_head a * 512 + 512 < ra_next a + n then open_new_head a e else a)"

lemma alloc_room:
  "alloc a n l e = Ok (u, a', e') \<Longrightarrow> n \<le> 512 \<and> u = ra_next (room a n e) \<and>
     a' = (room a n e)\<lparr>ra_next := u + n, ra_live := (ra_live (room a n e))[ra_head (room a n e) :=
       ra_live (room a n e) ! ra_head (room a n e) + l]\<rparr> \<and> e' = max e (div_ceil (u + n) 64)"
  by (auto simp: alloc_def room_def Let_def split: if_splits)

definition room_ok :: "region_alloc \<Rightarrow> nat \<Rightarrow> run set \<Rightarrow> nat \<Rightarrow> region_alloc \<Rightarrow> bool" where
  "room_ok a e R n b \<longleftrightarrow>
     ra_head b < length (ra_live b) \<and> ra_head b * 512 \<le> ra_next b \<and> ra_next b + n \<le> (ra_head b + 1) * 512 \<and>
     parked_ok b \<and> recs_ok b R \<and> pins_ok b \<and>
     (\<forall>y. sealed a y \<longrightarrow> run_region y \<notin> set (ra_free a) \<longrightarrow>
       sealed b y \<and> is_fresh b (run_region y) = is_fresh a (run_region y)) \<and>
     set (ra_free b) \<subseteq> set (ra_free a) \<and> ra_staged b = ra_staged a \<and> ra_quarantine b = ra_quarantine a \<and>
     ra_hold b = ra_hold a \<and> ra_pins b = ra_pins a \<and> ra_pin_gen b = ra_pin_gen a \<and>
     length (ra_fresh b) = length (ra_live b) \<and> length (ra_evac_pinned b) = length (ra_live b) \<and>
     length (ra_epoch_of b) = length (ra_live b) \<and> length (ra_live b) \<le> max (div_ceil e 8) (ra_head b + 1)"

lemma lengths_full:
  assumes "lengths_ok a e" and "ra_live a = [] \<or> ra_head a * 512 + 512 < ra_next a + n" and "n \<le> 512"
  shows "lengths_in a e"
  using assms by (auto simp: lengths_ok_def lengths_in_def empty_head_def)

lemma room_facts:
  assumes inv: "ra_inv a e R" and n: "n \<le> 512"
  shows "room_ok a e R n (room a n e)"
proof -
  have I: "lengths_ok a e" "head_ok a" "parked_ok a" "recs_ok a R" "pins_ok a"
    and le: "length (ra_live a) \<le> max (div_ceil e 8) (ra_head a + 1)" using inv by (auto simp: ra_inv_def lengths_ok_def empty_head_def)
  show ?thesis
  proof (cases "ra_live a = [] \<or> ra_head a * 512 + 512 < ra_next a + n")
    case True
    let ?b = "open_new_head a e"
    have li: "lengths_in a e" by (rule lengths_full [OF I(1) True n])
    then have le: "length (ra_live a) \<le> div_ceil e 8" by (simp add: lengths_in_def)
    note F = open_new_head_facts [OF li I(3) refl]
    note G = recs_ok_open [OF li I(3,4) refl]
    have fr: "is_fresh ?b (run_region y) = is_fresh a (run_region y)"
      if "sealed a y" "run_region y \<notin> set (ra_free a)" for y
      using that F(3,13) by (auto simp: sealed_def)
    have "pins_ok ?b" using I(5) F(10,11) by (simp add: pins_ok_def)
    moreover have "length (ra_live ?b) \<le> max (div_ceil e 8) (ra_head ?b + 1)" using F(18) le by linarith
    ultimately have "room_ok a e R n ?b"
      using F(1,2,6-11,14-16) G fr n unfolding room_ok_def by simp
    then show ?thesis using True by (simp add: room_def)
  next
    case False
    then have "room_ok a e R n a"
      using I le n by (auto simp: room_ok_def head_ok_def lengths_ok_def)
    then show ?thesis using False by (simp add: room_def)
  qed
qed

lemma alloc_inv:
  assumes inv: "ra_inv a e R" and al: "alloc a n l e = Ok (u, a', e')" and l: "0 < l" "l \<le> n"
  shows "ra_inv a' e' (insert (Run u n l) R)"
    and "\<And>y. sealed a y \<Longrightarrow> run_region y \<notin> set (ra_free a) \<Longrightarrow>
       sealed a' y \<and> apart (Run u n l) y \<and> is_fresh a' (run_region y) = is_fresh a (run_region y)"
    and "set (ra_free a') \<subseteq> set (ra_free a)" "ra_staged a' = ra_staged a" "ra_quarantine a' = ra_quarantine a"
    "ra_hold a' = ra_hold a" "ra_pins a' = ra_pins a" "ra_pin_gen a' = ra_pin_gen a"
    and "run_ok (Run u n l)" and "run_region (Run u n l) \<notin> set (ra_staged a @ ra_quarantine a @ map fst (ra_hold a))"
proof -
  let ?b = "room a n e"
  have A: "n \<le> 512" "u = ra_next ?b" "e' = max e (div_ceil (u + n) 64)"
    "a' = ?b\<lparr>ra_next := ra_next ?b + n, ra_live := (ra_live ?b)[ra_head ?b := ra_live ?b ! ra_head ?b + l]\<rparr>"
    using alloc_room [OF al] by auto
  have B: "room_ok a e R n ?b" by (rule room_facts [OF inv A(1)])
  then have H: "ra_head ?b < length (ra_live ?b)" "ra_head ?b * 512 \<le> ra_next ?b"
    "ra_next ?b + n \<le> (ra_head ?b + 1) * 512" "parked_ok ?b" "recs_ok ?b R"
    by (auto simp: room_ok_def)
  have x: "Run u n l = Run (ra_next ?b) n l" using A(2) by simp
  note C = alloc_into [OF H(1-3) l H(4,5) x A(4)]
  have fe: "\<And>i. is_fresh a' i = is_fresh ?b i" by (simp add: A(4) is_fresh_def)
  show "\<And>y. sealed a y \<Longrightarrow> run_region y \<notin> set (ra_free a) \<Longrightarrow>
       sealed a' y \<and> apart (Run u n l) y \<and> is_fresh a' (run_region y) = is_fresh a (run_region y)"
    using B C(6) fe unfolding room_ok_def by blast
  show S: "set (ra_free a') \<subseteq> set (ra_free a)" "ra_staged a' = ra_staged a" "ra_quarantine a' = ra_quarantine a"
    "ra_hold a' = ra_hold a" "ra_pins a' = ra_pins a" "ra_pin_gen a' = ra_pin_gen a"
    using B by (auto simp: room_ok_def A(4))
  show "run_ok (Run u n l)" by (rule C(4))
  show "run_region (Run u n l) \<notin> set (ra_staged a @ ra_quarantine a @ map fst (ra_hold a))"
    using H(4) B C(5) by (auto simp: parked_ok_def parked_def room_ok_def)
  have "ra_head ?b + 1 \<le> div_ceil (div_ceil (u + n) 64) 8"
    using H(2) l A(2) by (intro div_ceil_page) simp
  also have "\<dots> \<le> div_ceil e' 8" using A(3) by (intro div_ceil_mono) simp
  finally have "ra_head ?b + 1 \<le> div_ceil e' 8" .
  moreover have "div_ceil e 8 \<le> div_ceil e' 8" using A(3) by (intro div_ceil_mono) simp
  ultimately have "length (ra_live ?b) \<le> div_ceil e' 8" using B by (auto simp: room_ok_def)
  then have "lengths_ok a' e'" using B by (simp add: lengths_ok_def room_ok_def A(4))
  moreover have "pins_ok a'" using inv S(5,6) by (simp add: pins_ok_def ra_inv_def)
  ultimately show "ra_inv a' e' (insert (Run u n l) R)" using C(1-3) by (simp add: ra_inv_def)
qed

lemma alloc_snap_dur:
  assumes inv: "ra_inv a e R" and al: "alloc a n l e = Ok (u, a', e')" and l: "0 < l" "l \<le> n"
  shows "snap_inv a snaps \<Longrightarrow> snap_inv a' snaps" and "dur_inv a D \<Longrightarrow> dur_inv a' D"
proof -
  note A = alloc_inv [OF inv al l]
  assume s: "snap_inv a snaps"
  show "snap_inv a' snaps"
    unfolding snap_inv_def
  proof (intro allI impI)
    fix g F x
    assume "snaps g = Some F" "pinned a' g" "x \<in> F"
    then have x: "sealed a x" "run_region x \<notin> set (ra_free a @ ra_staged a @ ra_quarantine a)"
      "\<forall>tag. (run_region x, tag) \<in> set (ra_hold a) \<longrightarrow> g \<le> tag"
      using s A(7) by (auto simp: snap_inv_def pinned_def)
    then show "sealed a' x \<and> run_region x \<notin> set (ra_free a' @ ra_staged a' @ ra_quarantine a') \<and>
       (\<forall>tag. (run_region x, tag) \<in> set (ra_hold a') \<longrightarrow> g \<le> tag)"
      using A(2) [of x] A(3-6) by auto
  qed
next
  note A = alloc_inv [OF inv al l]
  assume d: "dur_inv a D"
  show "dur_inv a' D"
    unfolding dur_inv_def
  proof
    fix x
    assume "x \<in> D"
    then have "sealed a x" "run_region x \<notin> set (ra_free a @ ra_staged a)" "\<not> is_fresh a (run_region x)"
      using d by (auto simp: dur_inv_def)
    then show "sealed a' x \<and> run_region x \<notin> set (ra_free a' @ ra_staged a') \<and> \<not> is_fresh a' (run_region x)"
      using A(2) [of x] A(3,4) by auto
  qed
qed

section \<open>Freeing\<close>

text \<open>Every outcome of a free: the count drops, and at most one region is parked.\<close>

lemma free_facts:
  assumes inv: "ra_inv a e R" and x: "Run u n l \<in> R" and a': "a' = free a u l"
  defines "r \<equiv> run_region (Run u n l)"
  shows "ra_live a' = (ra_live a)[r := ra_live a ! r - l]" "ra_head a' = ra_head a" "ra_next a' = ra_next a"
    "ra_fresh a' = ra_fresh a" "ra_evac_pinned a' = ra_evac_pinned a" "ra_epoch_of a' = ra_epoch_of a"
    "ra_pins a' = ra_pins a" "ra_pin_gen a' = ra_pin_gen a" "ra_free a' = ra_free a" "0 < ra_live a ! r"
    "r < length (ra_live a)" "l \<le> ra_live a ! r"
    "ra_live a ! r - l = 0 \<and> r \<noteq> ra_head a \<and>
       (ra_pins a \<noteq> [] \<and> ra_hold a' = ra_hold a @ [(r, ra_pin_gen a)] \<and> ra_staged a' = ra_staged a \<and> ra_quarantine a' = ra_quarantine a
        \<or> is_fresh a r \<and> ra_hold a' = ra_hold a \<and> ra_staged a' = ra_staged a @ [r] \<and> ra_quarantine a' = ra_quarantine a \<and> ra_pins a = []
        \<or> \<not> is_fresh a r \<and> ra_hold a' = ra_hold a \<and> ra_staged a' = ra_staged a \<and> ra_quarantine a' = ra_quarantine a @ [r] \<and> ra_pins a = [])
     \<or> (ra_live a ! r - l \<noteq> 0 \<or> r = ra_head a) \<and> ra_hold a' = ra_hold a \<and> ra_staged a' = ra_staged a \<and> ra_quarantine a' = ra_quarantine a"
proof -
  have R: "sealed a (Run u n l)" "finite R" "\<And>r. r < length (ra_live a) \<Longrightarrow> ra_live a ! r = sum run_live {x \<in> R. run_region x = r}"
    using inv x by (auto simp: ra_inv_def recs_ok_def)
  show r: "r < length (ra_live a)" using R(1) by (simp add: r_def sealed_def)
  have "run_live (Run u n l) \<le> sum run_live {x \<in> R. run_region x = r}"
    using x R(2) by (intro member_le_sum) (auto simp: r_def)
  then show l: "l \<le> ra_live a ! r" using R(3) [OF r] by simp
  moreover have "0 < l" using R(1) by (simp add: sealed_def run_ok_def)
  ultimately show p: "0 < ra_live a ! r" by simp
  have ru: "region_of_unit u = r" by (simp add: r_def run_region_def)
  have e: "a' = (let a = a\<lparr>ra_live := (ra_live a)[r := ra_live a ! r - l]\<rparr> in
     if ra_live a ! r = 0 \<and> r \<noteq> ra_head a then
           (if ra_pins a \<noteq> [] then a\<lparr>ra_hold := ra_hold a @ [(r, ra_pin_gen a)]\<rparr>
            else if is_fresh a r then a\<lparr>ra_staged := ra_staged a @ [r]\<rparr>
            else a\<lparr>ra_quarantine := ra_quarantine a @ [r]\<rparr>)
         else a)"
    using r p by (simp add: a' free_def ru Let_def)
  show "ra_live a' = (ra_live a)[r := ra_live a ! r - l]" "ra_head a' = ra_head a" "ra_next a' = ra_next a"
    "ra_fresh a' = ra_fresh a" "ra_evac_pinned a' = ra_evac_pinned a" "ra_epoch_of a' = ra_epoch_of a"
    "ra_pins a' = ra_pins a" "ra_pin_gen a' = ra_pin_gen a" "ra_free a' = ra_free a"
    by (simp_all add: e Let_def)
  show "ra_live a ! r - l = 0 \<and> r \<noteq> ra_head a \<and>
       (ra_pins a \<noteq> [] \<and> ra_hold a' = ra_hold a @ [(r, ra_pin_gen a)] \<and> ra_staged a' = ra_staged a \<and> ra_quarantine a' = ra_quarantine a
        \<or> is_fresh a r \<and> ra_hold a' = ra_hold a \<and> ra_staged a' = ra_staged a @ [r] \<and> ra_quarantine a' = ra_quarantine a \<and> ra_pins a = []
        \<or> \<not> is_fresh a r \<and> ra_hold a' = ra_hold a \<and> ra_staged a' = ra_staged a \<and> ra_quarantine a' = ra_quarantine a @ [r] \<and> ra_pins a = [])
     \<or> (ra_live a ! r - l \<noteq> 0 \<or> r = ra_head a) \<and> ra_hold a' = ra_hold a \<and> ra_staged a' = ra_staged a \<and> ra_quarantine a' = ra_quarantine a"
    using r by (simp add: e Let_def is_fresh_def)
qed

lemma sealed_cong:
  "length (ra_live a') = length (ra_live a) \<Longrightarrow> ra_head a' = ra_head a \<Longrightarrow> ra_next a' = ra_next a \<Longrightarrow>
     sealed a' x = sealed a x"
  by (simp add: sealed_def)

lemma free_inv:
  assumes inv: "ra_inv a e R" and x: "Run u n l \<in> R" and a': "a' = free a u l"
  shows "ra_inv a' e (R - {Run u n l})"
proof -
  let ?x = "Run u n l" and ?r = "run_region (Run u n l)"
  note F = free_facts [OF inv x a']
  have I: "lengths_ok a e" "head_ok a" "parked_ok a" "recs_ok a R" "pins_ok a" using inv by (auto simp: ra_inv_def)
  have nz: "?r \<notin> set (parked a)" using I(3) F(10) by (auto simp: parked_ok_def)
  have "lengths_ok a' e" using I(1) F(1-6) by (simp add: lengths_ok_def empty_head_def)
  moreover have "head_ok a'" using I(2) F(1-3) by (auto simp: head_ok_def)
  moreover have "pins_ok a'" using I(5) F(7,8) by (simp add: pins_ok_def)
  moreover have "parked_ok a'"
    using F(13)
  proof
    assume "ra_live a ! ?r - l = 0 \<and> ?r \<noteq> ra_head a \<and>
       (ra_pins a \<noteq> [] \<and> ra_hold a' = ra_hold a @ [(?r, ra_pin_gen a)] \<and> ra_staged a' = ra_staged a \<and> ra_quarantine a' = ra_quarantine a
        \<or> is_fresh a ?r \<and> ra_hold a' = ra_hold a \<and> ra_staged a' = ra_staged a @ [?r] \<and> ra_quarantine a' = ra_quarantine a \<and> ra_pins a = []
        \<or> \<not> is_fresh a ?r \<and> ra_hold a' = ra_hold a \<and> ra_staged a' = ra_staged a \<and> ra_quarantine a' = ra_quarantine a @ [?r] \<and> ra_pins a = [])"
    then have "mset (parked a') = add_mset ?r (mset (parked a))" "ra_live a ! ?r - l = 0" "?r \<noteq> ra_head a"
      using F(9) by (auto simp: parked_def)
    moreover from this(1) have "distinct (parked a') = distinct (?r # parked a)"
      by (intro mset_eq_imp_distinct_iff) simp
    moreover have "set (parked a') = insert ?r (set (parked a))" using calculation(1) by (metis set_mset_add_mset_insert set_mset_mset)
    ultimately show ?thesis
      using I(3) F(1,2,11) nz by (auto simp: parked_ok_def nth_list_update)
  next
    assume "(ra_live a ! ?r - l \<noteq> 0 \<or> ?r = ra_head a) \<and> ra_hold a' = ra_hold a \<and> ra_staged a' = ra_staged a \<and> ra_quarantine a' = ra_quarantine a"
    then have "parked a' = parked a" using F(9) by (simp add: parked_def)
    then show ?thesis using I(3) F(1,2,11) nz by (auto simp: parked_ok_def nth_list_update)
  qed
  moreover have "recs_ok a' (R - {?x})"
  proof -
    have R: "finite R" "\<And>r. r < length (ra_live a) \<Longrightarrow> ra_live a ! r = sum run_live {x \<in> R. run_region x = r}"
      using I(4) by (auto simp: recs_ok_def)
    have split: "{y \<in> R - {?x}. run_region y = r} = {y \<in> R. run_region y = r} - {?x}" for r by auto
    have "ra_live a' ! r = sum run_live {y \<in> R - {?x}. run_region y = r}" if "r < length (ra_live a)" for r
      unfolding split using that R x F(1)
      by (cases "r = ?r") (auto simp: sum_diff1_nat nth_list_update)
    moreover have "\<And>y. sealed a' y = sealed a y" using F(1-3) by (intro sealed_cong) auto
    ultimately show ?thesis using I(4) F(1) by (auto simp: recs_ok_def)
  qed
  ultimately show ?thesis by (simp add: ra_inv_def)
qed

lemma free_snap_dur:
  assumes inv: "ra_inv a e R" and x: "Run u n l \<in> R" and a': "a' = free a u l"
  shows "snap_inv a snaps \<Longrightarrow> snap_inv a' snaps" and "dur_inv a D \<Longrightarrow> dur_inv a' D"
proof -
  note F = free_facts [OF inv x a']
  have sl: "\<And>y. sealed a' y = sealed a y" using F(1-3) by (intro sealed_cong) auto
  have fr: "\<And>r. is_fresh a' r = is_fresh a r" by (simp add: is_fresh_def F(4))
  have g: "g \<le> ra_pin_gen a" if "pinned a g" for g
    using that inv by (auto simp: ra_inv_def pins_ok_def pinned_def)
  have pn: "pinned a' g = pinned a g" "pinned a g \<Longrightarrow> ra_pins a \<noteq> []" for g
    by (auto simp: pinned_def F(7))
  show "snap_inv a' snaps" if "snap_inv a snaps"
    unfolding snap_inv_def
  proof (intro allI impI)
    fix g F x
    assume h: "snaps g = Some F" "pinned a' g" "x \<in> F"
    then have "sealed a x \<and> run_region x \<notin> set (ra_free a @ ra_staged a @ ra_quarantine a) \<and>
     (\<forall>tag. (run_region x, tag) \<in> set (ra_hold a) \<longrightarrow> g \<le> tag)"
      using that pn by (auto simp: snap_inv_def)
    then show "sealed a' x \<and> run_region x \<notin> set (ra_free a' @ ra_staged a' @ ra_quarantine a') \<and>
     (\<forall>tag. (run_region x, tag) \<in> set (ra_hold a') \<longrightarrow> g \<le> tag)"
      using F(9,13) sl g [of g] pn [of g] h(2) by auto
  qed
  show "dur_inv a' D" if "dur_inv a D"
    using that F(9,13) sl fr unfolding dur_inv_def by auto
qed

section \<open>Persisting, pins and draining\<close>

lemma persist_facts:
  assumes "a' = on_persisted a"
  shows "ra_live a' = ra_live a" "ra_head a' = ra_head a" "ra_next a' = ra_next a"
    "ra_free a' = ra_free a" "ra_pins a' = ra_pins a" "ra_pin_gen a' = ra_pin_gen a"
    "ra_epoch_of a' = ra_epoch_of a" "ra_evac_pinned a' = ra_evac_pinned a"
    "ra_fresh a' = replicate (length (ra_fresh a)) False" "ra_quarantine a' = []"
    "mset (parked a') = mset (parked a)"
    "ra_pins a \<noteq> [] \<Longrightarrow> ra_staged a' = ra_staged a \<and> ra_hold a' = ra_hold a @ map (\<lambda>r. (r, ra_pin_gen a)) (ra_quarantine a)"
    "ra_pins a = [] \<Longrightarrow> ra_staged a' = ra_staged a @ ra_quarantine a \<and> ra_hold a' = ra_hold a"
  using assms
  by (auto simp: on_persisted_def Let_def parked_def comp_def image_mset.compositionality)

lemma parked_ok_mset:
  assumes "mset (parked a') = mset (parked a)" and "ra_live a' = ra_live a" and "ra_head a' = ra_head a"
  shows "parked_ok a' = parked_ok a"
  using mset_eq_imp_distinct_iff [OF assms(1)] mset_eq_setD [OF assms(1)] assms(2,3)
  by (simp add: parked_ok_def)

lemma ra_inv_cong:
  assumes "ra_inv a e R" and "ra_live a' = ra_live a" and "ra_head a' = ra_head a" and "ra_next a' = ra_next a"
    and "mset (parked a') = mset (parked a)" and "length (ra_fresh a') = length (ra_fresh a)"
    and "length (ra_evac_pinned a') = length (ra_evac_pinned a)" and "length (ra_epoch_of a') = length (ra_epoch_of a)"
    and "pins_ok a'"
  shows "ra_inv a' e R"
proof -
  have "\<And>x. sealed a' x = sealed a x" using assms(2-4) by (intro sealed_cong) auto
  then show ?thesis
    using assms parked_ok_mset [OF assms(5,2,3)]
    by (simp add: ra_inv_def lengths_ok_def empty_head_def head_ok_def recs_ok_def)
qed

text \<open>A region that holds a live record is not parked.\<close>

lemma live_not_parked:
  assumes "ra_inv a e R" and "x \<in> R"
  shows "run_region x \<notin> set (parked a)"
proof
  assume p: "run_region x \<in> set (parked a)"
  have x: "sealed a x" "finite R" using assms by (auto simp: ra_inv_def recs_ok_def)
  have "0 < run_live x" using x by (simp add: sealed_def run_ok_def)
  also have "run_live x \<le> sum run_live {y \<in> R. run_region y = run_region x}"
    using assms(2) x(2) by (intro member_le_sum) auto
  also have "\<dots> = 0"
    using p assms x(1) by (auto simp: ra_inv_def parked_ok_def recs_ok_def sealed_def)
  finally show False by simp
qed

lemma persist_inv:
  assumes inv: "ra_inv a e R" and a': "a' = on_persisted a"
  shows "ra_inv a' e R" "dur_inv a' R" "snap_inv a snaps \<Longrightarrow> snap_inv a' snaps"
proof -
  note F = persist_facts [OF a']
  have "pins_ok a'" using inv F(5,6) by (simp add: ra_inv_def pins_ok_def)
  then show i: "ra_inv a' e R" using F by (intro ra_inv_cong [OF inv]) auto
  have fr: "\<not> is_fresh a' r" for r by (simp add: is_fresh_def F(9))
  have "sealed a' x" if "x \<in> R" for x using i that by (auto simp: ra_inv_def recs_ok_def)
  then show "dur_inv a' R" using live_not_parked [OF i] fr by (auto simp: dur_inv_def parked_def)
  have sl: "\<And>y. sealed a' y = sealed a y" using F(1-3) by (intro sealed_cong) auto
  have pn: "pinned a' g = pinned a g" "pinned a g \<Longrightarrow> ra_pins a \<noteq> []" for g
    by (auto simp: pinned_def F(5))
  show "snap_inv a' snaps" if "snap_inv a snaps"
    using that F(4,10,12) sl pn unfolding snap_inv_def by fastforce
qed

lemma pins_add_keys: "fst ` set (pins_add g ps) = insert g (fst ` set ps)"
  by (simp add: pins_add_def)

lemma pins_add_ok:
  assumes "sorted_keys ps" and "\<forall>(h, c) \<in> set ps. h \<le> m \<and> 0 < c" and "g \<le> m"
  shows "sorted_keys (pins_add g ps) \<and> (\<forall>(h, c) \<in> set (pins_add g ps). h \<le> m \<and> 0 < c)"
proof -
  have s: "sorted_keys (pins_add g ps)" unfolding pins_add_def by (rule sorted_bt_insert [OF assms(1)])
  have "h \<le> m \<and> 0 < c" if "(h, c) \<in> set (pins_add g ps)" for h c
  proof -
    have "map_of (pins_add g ps) h = Some c"
      using that sorted_keys_distinct [OF s] by (simp del: distinct_map)
    then show ?thesis
      using assms(2,3) by (auto simp: pins_add_def split: if_splits dest: map_of_SomeD)
  qed
  then show ?thesis using s by blast
qed

lemma pin_inv:
  assumes inv: "ra_inv a e R" and p: "pin a = (g, a')"
  shows "ra_inv a' e R" "snap_inv a snaps \<Longrightarrow> snap_inv a' (snaps(g \<mapsto> R))" "dur_inv a D \<Longrightarrow> dur_inv a' D"
proof -
  have g: "g = ra_pin_gen a + 1" and a': "a' = a\<lparr>ra_pin_gen := g, ra_pins := pins_add g (ra_pins a)\<rparr>"
    using p by (auto simp: pin_def Let_def)
  have P: "sorted_keys (ra_pins a)" "\<forall>(h, c) \<in> set (ra_pins a). h \<le> g \<and> 0 < c"
    using inv g by (auto simp: ra_inv_def pins_ok_def)
  have "pins_ok a'" using pins_add_ok [OF P order_refl] by (simp add: pins_ok_def a')
  then show i: "ra_inv a' e R" by (intro ra_inv_cong [OF inv]) (simp_all add: a' parked_def)
  have sl: "\<And>y. sealed a' y = sealed a y" by (intro sealed_cong) (simp_all add: a')
  show "dur_inv a' D" if "dur_inv a D" using that sl by (simp add: dur_inv_def a' is_fresh_def)
  have old: "pinned a' h = (h = g \<or> pinned a h)" for h by (auto simp: pinned_def a' pins_add_keys)
  have new: "sealed a' x \<and> run_region x \<notin> set (parked a')" if "x \<in> R" for x
    using i that live_not_parked [OF i that] by (auto simp: ra_inv_def recs_ok_def)
  show "snap_inv a' (snaps(g \<mapsto> R))" if "snap_inv a snaps"
    unfolding snap_inv_def
  proof (intro allI impI)
    fix h F x
    assume h: "(snaps(g \<mapsto> R)) h = Some F" "pinned a' h" "x \<in> F"
    show "sealed a' x \<and> run_region x \<notin> set (ra_free a' @ ra_staged a' @ ra_quarantine a') \<and>
      (\<forall>tag. (run_region x, tag) \<in> set (ra_hold a') \<longrightarrow> h \<le> tag)"
    proof (cases "h = g")
      case True
      then show ?thesis using h new [of x] by (force simp: parked_def)
    next
      case False
      then show ?thesis using h old that sl by (simp add: snap_inv_def a')
    qed
  qed
qed

lemma pin_at_inv:
  assumes inv: "ra_inv a e R" and p: "pinned a g" and a': "a' = pin_at a g"
  shows "ra_inv a' e R" "snap_inv a snaps \<Longrightarrow> snap_inv a' snaps" "dur_inv a D \<Longrightarrow> dur_inv a' D"
proof -
  have P: "sorted_keys (ra_pins a)" "\<forall>(h, c) \<in> set (ra_pins a). h \<le> ra_pin_gen a \<and> 0 < c" "g \<le> ra_pin_gen a"
    using inv p by (auto simp: ra_inv_def pins_ok_def pinned_def)
  have "pins_ok a'" using pins_add_ok [OF P] by (simp add: pins_ok_def a' pin_at_def)
  then show "ra_inv a' e R" by (intro ra_inv_cong [OF inv]) (simp_all add: a' pin_at_def parked_def)
  have sl: "\<And>y. sealed a' y = sealed a y" by (intro sealed_cong) (simp_all add: a' pin_at_def)
  have pn: "pinned a' h = pinned a h" for h
    using p by (auto simp: pinned_def a' pin_at_def pins_add_keys)
  show "snap_inv a' snaps" if "snap_inv a snaps"
    using that sl pn by (simp add: snap_inv_def a' pin_at_def)
  show "dur_inv a' D" if "dur_inv a D" using that sl by (simp add: dur_inv_def a' pin_at_def is_fresh_def)
qed

lemma drain_inv:
  assumes inv: "ra_inv a e R" and a': "a' = drain_staged a"
  shows "ra_inv a' e R" "snap_inv a snaps \<Longrightarrow> snap_inv a' snaps" "dur_inv a D \<Longrightarrow> dur_inv a' D"
proof -
  have "pins_ok a'" using inv by (simp add: ra_inv_def pins_ok_def a' drain_staged_def)
  then show "ra_inv a' e R" by (intro ra_inv_cong [OF inv]) (simp_all add: a' drain_staged_def parked_def)
  have sl: "\<And>y. sealed a' y = sealed a y" by (intro sealed_cong) (simp_all add: a' drain_staged_def)
  show "snap_inv a' snaps" if "snap_inv a snaps"
    using that sl by (simp add: snap_inv_def a' drain_staged_def pinned_def)
  show "dur_inv a' D" if "dur_inv a D"
    using that sl by (simp add: dur_inv_def a' drain_staged_def is_fresh_def)
qed

lemma bump_inv:
  assumes inv: "ra_inv a e R" and a': "a' = bump_epoch a"
  shows "ra_inv a' e R" "snap_inv a snaps \<Longrightarrow> snap_inv a' snaps" "dur_inv a D \<Longrightarrow> dur_inv a' D"
proof -
  have "pins_ok a'" using inv by (simp add: ra_inv_def pins_ok_def a' bump_epoch_def)
  then show "ra_inv a' e R" by (intro ra_inv_cong [OF inv]) (simp_all add: a' bump_epoch_def parked_def)
  have sl: "\<And>y. sealed a' y = sealed a y" by (intro sealed_cong) (simp_all add: a' bump_epoch_def)
  show "snap_inv a' snaps" if "snap_inv a snaps"
    using that sl by (simp add: snap_inv_def a' bump_epoch_def pinned_def)
  show "dur_inv a' D" if "dur_inv a D"
    using that sl by (simp add: dur_inv_def a' bump_epoch_def is_fresh_def)
qed

text \<open>Releasing parked regions: entries visible to a live pin stay, the others move to
  the staged list (fresh regions) or to quarantine.\<close>

definition keeps :: "nat option \<Rightarrow> nat \<Rightarrow> bool" where
  "keeps oldest tag = (case oldest of None \<Rightarrow> False | Some x \<Rightarrow> x \<le> tag)"

lemma release_loop_frame:
  "let b = release_loop oldest es kept a in
     ra_live b = ra_live a \<and> ra_head b = ra_head a \<and> ra_next b = ra_next a \<and> ra_free b = ra_free a \<and>
     ra_fresh b = ra_fresh a \<and> ra_evac_pinned b = ra_evac_pinned a \<and> ra_epoch_of b = ra_epoch_of a \<and>
     ra_pins b = ra_pins a \<and> ra_pin_gen b = ra_pin_gen a"
  by (induction oldest es kept a rule: release_loop.induct) (simp_all add: Let_def)

lemma release_loop_hold:
  "set (ra_hold (release_loop oldest es kept a)) = set kept \<union> {(r, tag) \<in> set es. keeps oldest tag}"
proof (induction oldest es kept a rule: release_loop.induct)
  case (2 oldest r tag rest kept a)
  show ?case
  proof (cases "keeps oldest tag")
    case True
    then show ?thesis using 2(1) by (auto simp: keeps_def)
  next
    case False
    then show ?thesis using 2(2,3) by (cases "is_fresh a r") (auto simp: keeps_def)
  qed
qed simp

lemma release_loop_staged:
  "set (ra_staged (release_loop oldest es kept a)) =
     set (ra_staged a) \<union> {r. \<exists>tag. (r, tag) \<in> set es \<and> \<not> keeps oldest tag \<and> is_fresh a r}"
proof (induction oldest es kept a rule: release_loop.induct)
  case (2 oldest r tag rest kept a)
  have f: "is_fresh (a\<lparr>ra_staged := x\<rparr>) i = is_fresh a i" "is_fresh (a\<lparr>ra_quarantine := x\<rparr>) i = is_fresh a i" for x i
    by (simp_all add: is_fresh_def)
  show ?case
  proof (cases "keeps oldest tag")
    case True
    then show ?thesis using 2(1) by (auto simp: keeps_def)
  next
    case False
    then show ?thesis using 2(2,3) by (cases "is_fresh a r") (auto simp: keeps_def f)
  qed
qed simp

lemma release_loop_quarantine:
  "set (ra_quarantine (release_loop oldest es kept a)) =
     set (ra_quarantine a) \<union> {r. \<exists>tag. (r, tag) \<in> set es \<and> \<not> keeps oldest tag \<and> \<not> is_fresh a r}"
proof (induction oldest es kept a rule: release_loop.induct)
  case (2 oldest r tag rest kept a)
  have f: "is_fresh (a\<lparr>ra_staged := x\<rparr>) i = is_fresh a i" "is_fresh (a\<lparr>ra_quarantine := x\<rparr>) i = is_fresh a i" for x i
    by (simp_all add: is_fresh_def)
  show ?case
  proof (cases "keeps oldest tag")
    case True
    then show ?thesis using 2(1) by (auto simp: keeps_def)
  next
    case False
    then show ?thesis using 2(2,3) by (cases "is_fresh a r") (auto simp: keeps_def f)
  qed
qed simp

lemma release_loop_mset:
  "mset (ra_staged (release_loop oldest es kept a)) + mset (ra_quarantine (release_loop oldest es kept a)) +
     mset (map fst (ra_hold (release_loop oldest es kept a))) =
   mset (ra_staged a) + mset (ra_quarantine a) + mset (map fst (kept @ es))"
  by (induction oldest es kept a rule: release_loop.induct) simp_all

lemma release_loop_facts:
  assumes "b = release_loop oldest es kept a"
  shows "ra_live b = ra_live a" "ra_head b = ra_head a" "ra_next b = ra_next a" "ra_free b = ra_free a"
    "ra_fresh b = ra_fresh a" "ra_evac_pinned b = ra_evac_pinned a" "ra_epoch_of b = ra_epoch_of a"
    "ra_pins b = ra_pins a" "ra_pin_gen b = ra_pin_gen a"
    "set (ra_hold b) = set kept \<union> {(r, tag) \<in> set es. keeps oldest tag}"
    "set (ra_staged b) = set (ra_staged a) \<union> {r. \<exists>tag. (r, tag) \<in> set es \<and> \<not> keeps oldest tag \<and> is_fresh a r}"
    "set (ra_quarantine b) = set (ra_quarantine a) \<union> {r. \<exists>tag. (r, tag) \<in> set es \<and> \<not> keeps oldest tag \<and> \<not> is_fresh a r}"
    "mset (ra_staged b) + mset (ra_quarantine b) + mset (map fst (ra_hold b)) =
       mset (ra_staged a) + mset (ra_quarantine a) + mset (map fst (kept @ es))"
  unfolding assms
  using release_loop_frame [of oldest es kept a] release_loop_mset [of oldest es kept a]
  by (simp_all only: Let_def release_loop_hold release_loop_staged release_loop_quarantine)

lemma unpin_pins:
  assumes "pins_ok a"
  obtains ps where "unpin a g = release_snap_hold (a\<lparr>ra_pins := ps\<rparr>)" "pins_ok (a\<lparr>ra_pins := ps\<rparr>)"
    "fst ` set ps \<subseteq> fst ` set (ra_pins a)"
proof (cases "map_of (ra_pins a) g")
  case None
  then show thesis using that [of "ra_pins a"] assms by (simp add: unpin_def)
next
  case (Some c)
  have P: "sorted_keys (ra_pins a)" "\<And>h c. (h, c) \<in> set (ra_pins a) \<Longrightarrow> h \<le> ra_pin_gen a \<and> 0 < c"
    using assms by (auto simp: pins_ok_def)
  have g: "(g, c) \<in> set (ra_pins a)" using Some by (rule map_of_SomeD)
  show thesis
  proof (cases "c - 1 = 0")
    case True
    have "set (bt_remove g (ra_pins a)) \<subseteq> set (ra_pins a)" by (auto simp: bt_remove_def)
    then show thesis
      using that [of "bt_remove g (ra_pins a)"] True Some P sorted_bt_remove [OF P(1), of g]
      by (auto simp: unpin_def pins_ok_def)
  next
    case False
    let ?ps = "bt_insert g (c - 1) (ra_pins a)"
    have s: "sorted_keys ?ps" by (rule sorted_bt_insert [OF P(1)])
    have "h \<le> ra_pin_gen a \<and> 0 < d" if "(h, d) \<in> set ?ps" for h d
    proof -
      have "map_of ?ps h = Some d"
        using that sorted_keys_distinct [OF s] by (simp del: distinct_map map_of_bt_insert)
      then show ?thesis using P(2) g False by (auto split: if_splits dest: map_of_SomeD)
    qed
    then have "pins_ok (a\<lparr>ra_pins := ?ps\<rparr>)" using s by (auto simp: pins_ok_def)
    moreover have "g \<in> fst ` set (ra_pins a)" using g by force
    then have "fst ` set ?ps \<subseteq> fst ` set (ra_pins a)" by (simp only: set_keys_bt_insert) blast
    moreover have "unpin a g = release_snap_hold (a\<lparr>ra_pins := ?ps\<rparr>)" using Some False by (simp add: unpin_def)
    ultimately show thesis using that by blast
  qed
qed

lemma unpin_inv:
  assumes inv: "ra_inv a e R" and a': "a' = unpin a g"
  shows "ra_inv a' e R" "snap_inv a snaps \<Longrightarrow> snap_inv a' snaps" "dur_inv a D \<Longrightarrow> dur_inv a' D"
proof -
  have pa: "pins_ok a" using inv by (simp add: ra_inv_def)
  obtain ps where ps: "unpin a g = release_snap_hold (a\<lparr>ra_pins := ps\<rparr>)" "pins_ok (a\<lparr>ra_pins := ps\<rparr>)"
    "fst ` set ps \<subseteq> fst ` set (ra_pins a)"
    by (rule unpin_pins [OF pa])
  let ?b = "a\<lparr>ra_pins := ps, ra_hold := []\<rparr>"
  let ?o = "oldest_pin (a\<lparr>ra_pins := ps\<rparr>)"
  have e: "a' = release_loop ?o (ra_hold a) [] ?b" using a' ps(1) by (simp add: release_snap_hold_def)
  note F = release_loop_facts [OF e]
  have fr: "is_fresh a' r = is_fresh a r" "is_fresh ?b r = is_fresh a r" for r by (simp_all add: is_fresh_def F(5))
  have sl: "\<And>y. sealed a' y = sealed a y" using F(1-3) by (intro sealed_cong) auto
  have "mset (parked a') = mset (parked a)" using F(4,13) by (simp add: parked_def add.assoc)
  moreover have "pins_ok a'" using ps(2) F(8,9) by (simp add: pins_ok_def)
  ultimately show "ra_inv a' e R" using F by (intro ra_inv_cong [OF inv]) auto
  show "dur_inv a' D" if "dur_inv a D"
    using that F(4,11) fr sl by (auto simp: dur_inv_def)
  have oldest: "keeps ?o tag" if "pinned a' h" "h \<le> tag" for h tag
  proof -
    have "h \<in> fst ` set ps" using that F(8) by (simp add: pinned_def)
    moreover have "sorted_keys ps" using ps(2) by (simp add: pins_ok_def)
    ultimately have "\<exists>x c qs. ps = (x, c) # qs \<and> x \<le> h" by (cases ps) force+
    then show ?thesis using that(2) by (auto simp: keeps_def oldest_pin_def)
  qed
  show "snap_inv a' snaps" if s: "snap_inv a snaps"
    unfolding snap_inv_def
  proof (intro allI impI)
    fix h F x
    assume h: "snaps h = Some F" "pinned a' h" "x \<in> F"
    then have "pinned a h" using ps(3) F(8) by (auto simp: pinned_def)
    then have "sealed a x \<and> run_region x \<notin> set (ra_free a @ ra_staged a @ ra_quarantine a) \<and>
      (\<forall>tag. (run_region x, tag) \<in> set (ra_hold a) \<longrightarrow> h \<le> tag)"
      using s h by (auto simp: snap_inv_def)
    then show "sealed a' x \<and> run_region x \<notin> set (ra_free a' @ ra_staged a' @ ra_quarantine a') \<and>
      (\<forall>tag. (run_region x, tag) \<in> set (ra_hold a') \<longrightarrow> h \<le> tag)"
      using F(4,10-12) sl oldest [OF h(2)] by auto
  qed
qed

section \<open>Splitting a run\<close>

lemma split_inv:
  assumes inv: "ra_inv a e R" and x: "Run u n l \<in> R" and k: "0 < k" "k < l"
  shows "ra_inv a e (R - {Run u n l} \<union> {Run u k k, Run (u + k) (n - k) (l - k)})"
proof -
  let ?x = "Run u n l" and ?y = "Run u k k" and ?z = "Run (u + k) (n - k) (l - k)"
  have I: "lengths_ok a e" "head_ok a" "parked_ok a" "pins_ok a" "finite R"
    "\<And>v. v \<in> R \<Longrightarrow> sealed a v" "\<And>v w. v \<in> R \<Longrightarrow> w \<in> R \<Longrightarrow> v \<noteq> w \<Longrightarrow> apart v w"
    "\<And>r. r < length (ra_live a) \<Longrightarrow> ra_live a ! r = sum run_live {v \<in> R. run_region v = r}"
    using inv by (auto simp: ra_inv_def recs_ok_def)
  have ln: "l \<le> n" using I(6) [OF x] by (simp add: sealed_def run_ok_def)
  have reg: "run_region ?y = run_region ?x" "run_region ?z = run_region ?x"
    using I(6) [OF x] k by (auto simp: sealed_def run_ok_def run_region_def region_of_unit_def)
  have sl: "sealed a ?y" "sealed a ?z"
    using I(6) [OF x] reg k ln by (auto simp: sealed_def run_ok_def)
  have ap: "apart ?y v" "apart ?z v" if "v \<in> R - {?x}" for v
    using I(7) [OF x, of v] that k ln by (auto simp: apart_def)
  have nin: "?y \<notin> R - {?x}" "?z \<notin> R - {?x}" "?y \<noteq> ?z"
    using ap(1) [of ?y] ap(2) [of ?z] k ln by (auto simp: apart_def)
  let ?S = "R - {?x} \<union> {?y, ?z}"
  have "sum run_live {v \<in> ?S. run_region v = r} = sum run_live {v \<in> R. run_region v = r}" for r
  proof (cases "r = run_region ?x")
    case True
    define B where "B = {v \<in> R. run_region v = r} - {?x}"
    have B: "finite B" unfolding B_def using I(5) by (intro finite_Diff finite_Collect_conjI) simp
    have B': "?y \<notin> B" "?z \<notin> B" unfolding B_def using nin(1,2) by blast+
    have e: "{v \<in> ?S. run_region v = r} = insert ?y (insert ?z B)" unfolding B_def using True reg by blast
    have "sum run_live {v \<in> ?S. run_region v = r} = k + (l - k + sum run_live B)"
      unfolding e using B B' nin(3) by (simp only: sum.insert finite_insert insert_iff run.sel simp_thms)
    also have "\<dots> = sum run_live {v \<in> R. run_region v = r}"
      using k I(5) x True by (subst sum.remove [of _ ?x]) (auto simp: B_def)
    finally show ?thesis .
  next
    case False
    then have "{v \<in> ?S. run_region v = r} = {v \<in> R. run_region v = r}" using reg by auto
    then show ?thesis by simp
  qed
  moreover have "apart v w" if vw: "v \<in> ?S" "w \<in> ?S" "v \<noteq> w" for v w
  proof -
    have yz: "apart ?y ?z" by (simp add: apart_def)
    consider "v \<in> R - {?x}" | "v = ?y" | "v = ?z" using vw(1) by blast
    then show ?thesis
    proof cases
      case 1
      then show ?thesis using vw(2,3) I(7) [of v w] ap [of v] apart_sym [of v w] by auto
    next
      case 2
      then show ?thesis using vw(2,3) ap(1) [of w] yz by auto
    next
      case 3
      then show ?thesis using vw(2,3) ap(2) [of w] yz apart_sym [of v w] by auto
    qed
  qed
  moreover have "\<forall>v \<in> ?S. sealed a v" using I(6) sl by blast
  ultimately have "recs_ok a ?S" using I(5,8) unfolding recs_ok_def by (simp del: Un_insert_right)
  then show ?thesis using I(1-4) by (simp add: ra_inv_def)
qed

section \<open>Reachable states\<close>

lemma g_inv_init: "g_inv g_init"
  by (simp add: g_inv_def g_init_def ra_default_def ra_inv_def lengths_ok_def head_ok_def parked_ok_def
      parked_def recs_ok_def pins_ok_def snap_inv_def dur_inv_def div_ceil_def)

lemma g_inv_step: "ra_step s t \<Longrightarrow> g_inv s \<Longrightarrow> g_inv t"
proof (induction rule: ra_step.induct)
  case (step_alloc s n l u a' e')
  then show ?case
    using alloc_inv(1) [of "g_ra s" "g_end s" "g_recs s"] alloc_snap_dur [of "g_ra s" "g_end s" "g_recs s"]
    by (auto simp: g_inv_def)
next
  case (step_free u n l s)
  then show ?case
    using free_inv [of "g_ra s" "g_end s" "g_recs s"] free_snap_dur [of "g_ra s" "g_end s" "g_recs s"]
    by (auto simp: g_inv_def)
next
  case (step_split u n l s k)
  then show ?case using split_inv [of "g_ra s" "g_end s" "g_recs s" u n l k] by (simp add: g_inv_def)
next
  case (step_persist s)
  then show ?case using persist_inv [of "g_ra s" "g_end s" "g_recs s"] by (auto simp: g_inv_def)
next
  case (step_pin s g a')
  then show ?case using pin_inv [of "g_ra s" "g_end s" "g_recs s"] by (auto simp: g_inv_def)
next
  case (step_pin_at s g)
  then show ?case using pin_at_inv [of "g_ra s" "g_end s" "g_recs s"] by (auto simp: g_inv_def)
next
  case (step_unpin s g)
  then show ?case using unpin_inv [of "g_ra s" "g_end s" "g_recs s"] by (auto simp: g_inv_def)
next
  case (step_drain s)
  then show ?case using drain_inv [of "g_ra s" "g_end s" "g_recs s"] by (auto simp: g_inv_def)
next
  case (step_epoch s)
  then show ?case using bump_inv [of "g_ra s" "g_end s" "g_recs s"] by (auto simp: g_inv_def)
qed

lemma g_inv_reachable: "reachable s \<Longrightarrow> g_inv s"
  unfolding reachable_def by (induction rule: rtranclp_induct) (auto intro: g_inv_init g_inv_step)

end
