(* ===== verification/Space.thy ===== *)
theory Space
  imports RegionProofs
begin

text \<open>
  The interface between the record store and the space allocator: what a client
  that writes records may rely on. The client lemmas are proved once from the
  contract; the region allocator is shown to satisfy it.
\<close>

section \<open>File contents\<close>

text \<open>\<^verbatim>\<open>write_all_at\<close>: a positioned write, zero-filling a gap past the end.\<close>

definition write_at :: "bytes \<Rightarrow> nat \<Rightarrow> bytes \<Rightarrow> bytes" where
  "write_at d off b = take off (d @ replicate (off - length d) 0) @ b @ drop (off + length b) d"

text \<open>\<^verbatim>\<open>read_exact_at\<close>: fails at the end of the file.\<close>

definition read_exact_at :: "bytes \<Rightarrow> nat \<Rightarrow> nat \<Rightarrow> bytes res" where
  "read_exact_at d off len =
     (if off + len \<le> length d then Ok (slice d off len) else Err (IoErr ''UnexpectedEof''))"

lemma length_write_at [simp]: "length (write_at d off b) = max (length d) (off + length b)"
  by (auto simp: write_at_def max_def)

lemma write_at_nth:
  "i < max (length d) (off + length b) \<Longrightarrow>
     write_at d off b ! i = (if off \<le> i \<and> i < off + length b then b ! (i - off)
       else if i < length d then d ! i else 0)"
  by (auto simp: write_at_def nth_append min_def)

lemma has_at_nth: "has_at d off b = (off + length b \<le> length d \<and> (\<forall>i < length b. d ! (off + i) = b ! i))"
  by (auto simp: has_at_def slice_def list_eq_iff_nth_eq)

lemma has_at_write_at: "has_at (write_at d off b) off b"
  by (simp add: has_at_nth write_at_nth)

lemma has_at_write_other:
  assumes "has_at d p x" and "p + length x \<le> off \<or> off + length b \<le> p"
  shows "has_at (write_at d off b) p x"
  using assms by (auto simp: has_at_nth write_at_nth)

lemma read_exact_has_at: "has_at d off b \<Longrightarrow> n = length b \<Longrightarrow> read_exact_at d off n = Ok b"
  by (simp add: read_exact_at_def has_at_def)

section \<open>The allocator contract\<close>

text \<open>
  \<open>ok s R\<close>: the state is consistent with exactly the runs \<open>R\<close> being live.
\<close>

locale space =
  fixes ok :: "'s \<Rightarrow> run set \<Rightarrow> bool"
    and reserve :: "'s \<Rightarrow> nat \<Rightarrow> nat \<Rightarrow> (nat \<times> 's) res"
    and release :: "'s \<Rightarrow> nat \<Rightarrow> nat \<Rightarrow> 's"
  assumes reserve_total: "n \<le> 512 \<Longrightarrow> \<exists>u s'. reserve s n l = Ok (u, s')"
    and reserve_ok: "ok s R \<Longrightarrow> reserve s n l = Ok (u, s') \<Longrightarrow> 0 < l \<Longrightarrow> l \<le> n \<Longrightarrow>
      ok s' (insert (Run u n l) R) \<and> (\<forall>x \<in> R. apart (Run u n l) x)"
    and release_ok: "ok s R \<Longrightarrow> Run u n l \<in> R \<Longrightarrow> ok (release s u l) (R - {Run u n l})"
begin

text \<open>\<open>C\<close> pairs every live run with the bytes stored at its start.\<close>

definition intact :: "bytes \<Rightarrow> (run \<times> bytes) set \<Rightarrow> bool" where
  "intact d C = (\<forall>(x, b) \<in> C. has_at d (run_start x * 256) b \<and> length b \<le> run_units x * 256)"

lemma write_keeps_intact:
  assumes "ok s (fst ` C)" and "intact d C" and "reserve s n l = Ok (u, s')" and "0 < l" and "l \<le> n"
    and "length b \<le> n * 256"
  shows "ok s' (insert (Run u n l) (fst ` C))"
    and "intact (write_at d (u * 256) b) (insert (Run u n l, b) C)"
proof -
  have A: "ok s' (insert (Run u n l) (fst ` C))" "\<And>y. y \<in> fst ` C \<Longrightarrow> apart (Run u n l) y"
    using reserve_ok [OF assms(1,3-5)] by auto
  show "ok s' (insert (Run u n l) (fst ` C))" by (rule A(1))
  have "has_at (write_at d (u * 256) b) (run_start y * 256) c" if "(y, c) \<in> C" for y c
  proof -
    have y: "has_at d (run_start y * 256) c" "length c \<le> run_units y * 256"
      using assms(2) that by (auto simp: intact_def)
    have "apart (Run u n l) y" using that by (intro A(2)) force
    then have "run_start y * 256 + length c \<le> u * 256 \<or> u * 256 + length b \<le> run_start y * 256"
      using y(2) assms(6) by (auto simp: apart_def run_end_def)
    then show ?thesis using has_at_write_other [OF y(1)] by blast
  qed
  then show "intact (write_at d (u * 256) b) (insert (Run u n l, b) C)"
    using assms(2,6) by (auto simp: intact_def has_at_write_at)
qed

lemma release_keeps_intact:
  assumes "ok s (fst ` C)" and "intact d C" and "Run u n l \<in> fst ` C"
  shows "ok (release s u l) (fst ` C - {Run u n l})" and "intact d {(x, b) \<in> C. x \<noteq> Run u n l}"
  using release_ok [OF assms(1,3)] assms(2) by (auto simp: intact_def)

end

section \<open>The region allocator satisfies the contract\<close>

type_synonym space_state = "region_alloc \<times> nat"

definition ra_ok :: "space_state \<Rightarrow> run set \<Rightarrow> bool" where
  "ra_ok s R = ra_inv (fst s) (snd s) R"

definition ra_reserve :: "space_state \<Rightarrow> nat \<Rightarrow> nat \<Rightarrow> (nat \<times> space_state) res" where
  "ra_reserve s n l = res_map (\<lambda>(u, a, e). (u, (a, e))) (alloc (fst s) n l (snd s))"

definition ra_release :: "space_state \<Rightarrow> nat \<Rightarrow> nat \<Rightarrow> space_state" where
  "ra_release s u l = (free (fst s) u l, snd s)"

interpretation rs: space ra_ok ra_reserve ra_release
proof
  show "\<exists>u s'. ra_reserve s n l = Ok (u, s')" if "n \<le> 512" for s n l
    using that by (simp add: ra_reserve_def alloc_def Let_def)
  show "ra_ok s' (insert (Run u n l) R) \<and> (\<forall>x \<in> R. apart (Run u n l) x)"
    if h: "ra_ok s R" "ra_reserve s n l = Ok (u, s')" "0 < l" "l \<le> n" for s R n l u s'
  proof -
    obtain a' e' where al: "alloc (fst s) n l (snd s) = Ok (u, a', e')" "s' = (a', e')"
      using h(2) by (auto simp: ra_reserve_def res_simps)
    have inv: "ra_inv (fst s) (snd s) R" using h(1) by (simp add: ra_ok_def)
    have "apart (Run u n l) x" if x: "x \<in> R" for x
    proof -
      have "sealed (fst s) x" using inv x by (auto simp: ra_inv_def recs_ok_def)
      then show ?thesis
        using alloc_inv(2) [OF inv al(1) h(3,4)] live_not_parked [OF inv x] by (auto simp: parked_def)
    qed
    then show ?thesis using alloc_inv(1) [OF inv al(1) h(3,4)] al(2) by (simp add: ra_ok_def)
  qed
  show "ra_ok (ra_release s u l) (R - {Run u n l})" if "ra_ok s R" "Run u n l \<in> R" for s R u n l
    using free_inv [OF _ that(2) refl] that(1) by (simp add: ra_ok_def ra_release_def)
qed

end
