(* ===== verification/FlatFile.thy ===== *)
theory FlatFile
  imports Space Repr "HOL-Library.AList"
begin

text \<open>
  The append-mostly record file (\<^verbatim>\<open>FlatFile\<close> in \<^verbatim>\<open>src/lib.rs\<close>): framed
  records at 256-byte units, batched writes packed into region-sized runs, the
  read-ahead cache, and direct I/O's 4 KiB widening. The file is its byte
  sequence; the region allocator and the read-ahead map are fields of the state.
  An operation returns its result together with the state it leaves behind, also
  when the result is an error. Device errors other than reading past the end are
  not modelled, nor are the lock and the atomics: each method is one step.
\<close>

section \<open>State\<close>

definition DIO_ALIGN :: nat where "DIO_ALIGN = 4096"

record flat_file =
  ff_data :: bytes
  ff_seg :: region_alloc
  ff_end :: nat
  ff_direct :: bool
  ff_ahead :: "(u32 \<times> bytes) list"
  ff_ahead_len :: nat

definition ff_new :: "bool \<Rightarrow> flat_file" where
  "ff_new direct = \<lparr>ff_data = [], ff_seg = ra_default, ff_end = 0, ff_direct = direct,
     ff_ahead = [], ff_ahead_len = 0\<rparr>"

text \<open>\<^verbatim>\<open>DiskPtr::offset\<close> and \<^verbatim>\<open>DiskPtr::units\<close>.\<close>

definition dp_offset :: "disk_ptr \<Rightarrow> nat" where
  "dp_offset ptr = unat (dp_unit ptr) * ADDR_UNIT"

definition dp_units :: "disk_ptr \<Rightarrow> nat" where
  "dp_units ptr = units_for (RECORD_HDR + unat (dp_len ptr))"

definition align_units :: "flat_file \<Rightarrow> nat" where
  "align_units f = (if ff_direct f then DIO_ALIGN div ADDR_UNIT else 1)"

definition padded_units :: "flat_file \<Rightarrow> nat \<Rightarrow> nat" where
  "padded_units f units = div_ceil units (align_units f) * align_units f"

section \<open>Read-ahead\<close>

definition read_ahead_take :: "flat_file \<Rightarrow> u32 \<Rightarrow> bytes option" where
  "read_ahead_take f unit = (if ff_ahead_len f = 0 then None else map_of (ff_ahead f) unit)"

definition read_ahead_insert :: "flat_file \<Rightarrow> u32 \<Rightarrow> bytes \<Rightarrow> flat_file" where
  "read_ahead_insert f unit payload =
     (let g = AList.update unit payload (ff_ahead f)
      in f\<lparr>ff_ahead := g, ff_ahead_len := length g\<rparr>)"

definition read_ahead_clear :: "flat_file \<Rightarrow> flat_file" where
  "read_ahead_clear f = f\<lparr>ff_ahead := [], ff_ahead_len := 0, ff_seg := drain_staged (ff_seg f)\<rparr>"

definition drain_staged_if_unaliased :: "flat_file \<Rightarrow> flat_file" where
  "drain_staged_if_unaliased f =
     (if ff_ahead_len f = 0 then f\<lparr>ff_seg := drain_staged (ff_seg f)\<rparr> else f)"

section \<open>Reading\<close>

text \<open>\<^verbatim>\<open>x & !(DIO_ALIGN - 1)\<close> rounds down to the alignment.\<close>

definition align_down :: "nat \<Rightarrow> nat" where
  "align_down x = x - x mod DIO_ALIGN"

definition read_payload :: "flat_file \<Rightarrow> nat \<Rightarrow> nat \<Rightarrow> bytes res" where
  "read_payload f off len =
     (if ff_direct f then
        (let lo = align_down off; hi = align_down (off + len + DIO_ALIGN - 1)
         in res_bind (read_exact_at (ff_data f) lo (hi - lo)) (\<lambda>abuf.
            (let pad = off - lo in
             if pad + len \<le> length abuf then Ok (slice abuf pad len)
             else Err (Panic ''slice out of range''))))
      else read_exact_at (ff_data f) off len)"

definition read :: "prims \<Rightarrow> flat_file \<Rightarrow> disk_ptr \<Rightarrow> disk_subtree res" where
  "read P f ptr = res_bind (read_payload f (dp_offset ptr + RECORD_HDR) (unat (dp_len ptr)))
     (deserialize_subtree P)"

definition read_lazy :: "prims \<Rightarrow> flat_file \<Rightarrow> disk_ptr \<Rightarrow> disk_subtree res" where
  "read_lazy P f ptr =
     res_bind (case read_ahead_take f (dp_unit ptr) of
                 Some pre \<Rightarrow> Ok pre
               | None \<Rightarrow> read_payload f (dp_offset ptr + RECORD_HDR) (unat (dp_len ptr)))
       (deserialize_subtree_lazy P)"

text \<open>A short read leaves the bytes it got in the zeroed buffer.\<close>

definition read_region :: "flat_file \<Rightarrow> nat \<Rightarrow> bytes" where
  "read_region f region =
     (let got = slice (ff_data f) (region * REGION_PAGES * PAGE) (REGION_PAGES * PAGE)
      in got @ replicate (REGION_PAGES * PAGE - length got) 0)"

section \<open>Writing\<close>

text \<open>\<^verbatim>\<open>buf[off..off + n].copy_from_slice(b)\<close>.\<close>

definition copy_in :: "bytes \<Rightarrow> nat \<Rightarrow> bytes \<Rightarrow> bytes res" where
  "copy_in buf off b =
     (if off + length b \<le> length buf then Ok (write_at buf off b)
      else Err (Panic ''slice out of range''))"

definition write_payload :: "flat_file \<Rightarrow> bytes \<Rightarrow> disk_ptr res \<times> flat_file" where
  "write_payload f payload =
     (if MAX_RECORD_BYTES < length payload then (Err (Bail ''record payload exceeds the region capacity''), f)
      else
        (let units = units_for (RECORD_HDR + length payload); run_units = padded_units f units in
         case alloc (ff_seg f) run_units units (ff_end f) of
           Err e \<Rightarrow> (Err e, f)
         | Ok (unit, seg, e) \<Rightarrow>
             (let f = f\<lparr>ff_seg := seg, ff_end := e\<rparr> in
              if 2 ^ 32 - 1 < unit + units then (Err (Bail ''flat file exceeds the DiskPtr addressing limit''), f)
              else
                (case res_bind (copy_in (replicate (run_units * ADDR_UNIT) 0) 0 (le_bytes 4 (length payload)))
                        (\<lambda>record. copy_in record 4 payload) of
                   Err er \<Rightarrow> (Err er, f)
                 | Ok record \<Rightarrow>
                     (Ok \<lparr>dp_unit = of_nat unit, dp_len = of_nat (length payload)\<rparr>,
                      f\<lparr>ff_data := write_at (ff_data f) (unit * ADDR_UNIT) record\<rparr>)))))"

definition aligned :: "nat \<Rightarrow> nat" where
  "aligned bytes = units_for bytes * ADDR_UNIT"

text \<open>
  The inner loop of both batch writers: the run's byte count, the payloads
  \<^verbatim>\<open>[i..j)\<close> of the run and the rest.
\<close>

fun pack_run :: "bool \<Rightarrow> nat \<Rightarrow> bytes list \<Rightarrow> nat \<times> bytes list \<times> bytes list" where
  "pack_run first run_bytes [] = (run_bytes, [], [])"
| "pack_run first run_bytes (p # ps) =
     (let rc = aligned (RECORD_HDR + length p) in
      if \<not> first \<and> REGION_BYTES < run_bytes + rc then (run_bytes, [], p # ps)
      else (let (rb, run, rest) = pack_run False (run_bytes + rc) ps in (rb, p # run, rest)))"

lemma pack_run_length: "pack_run first rb ps = (rb', run, rest) \<Longrightarrow> ps = run @ rest"
  by (induction first rb ps arbitrary: rb' run rest rule: pack_run.induct)
    (auto simp: Let_def split: if_splits prod.splits)

lemma pack_run_progress: "pack_run True rb (p # ps) = (rb', run, rest) \<Longrightarrow> run \<noteq> []"
  by (auto simp: Let_def split: prod.splits)

lemma pack_run_shorter: "pack_run True rb (p # ps) = (rb', run, rest) \<Longrightarrow> length rest \<le> length ps"
  using pack_run_length [of True rb "p # ps"] pack_run_progress [of rb p ps] by (cases run) auto

text \<open>Framing the records of a run into its zeroed buffer.\<close>

fun fill_run :: "bytes \<Rightarrow> nat \<Rightarrow> bytes list \<Rightarrow> bytes res" where
  "fill_run buf off [] = Ok buf"
| "fill_run buf off (p # ps) =
     res_bind (copy_in buf off (le_bytes 4 (length p))) (\<lambda>buf.
     res_bind (copy_in buf (off + 4) p) (\<lambda>buf.
     fill_run buf (off + aligned (RECORD_HDR + length p)) ps))"

fun run_ptrs :: "nat \<Rightarrow> nat \<Rightarrow> bytes list \<Rightarrow> disk_ptr list" where
  "run_ptrs base off [] = []"
| "run_ptrs base off (p # ps) =
     \<lparr>dp_unit = of_nat (base + off div ADDR_UNIT), dp_len = of_nat (length p)\<rparr> #
     run_ptrs base (off + aligned (RECORD_HDR + length p)) ps"

function write_runs :: "flat_file \<Rightarrow> bytes list \<Rightarrow> disk_ptr list res \<times> flat_file" where
  "write_runs f [] = (Ok [], f)"
| "write_runs f (p # ps) =
     (case pack_run True 0 (p # ps) of (run_bytes, run, rest) \<Rightarrow>
       (let live_units = run_bytes div ADDR_UNIT; run_units = padded_units f live_units in
        case alloc (ff_seg f) run_units live_units (ff_end f) of
          Err e \<Rightarrow> (Err e, f)
        | Ok (base, seg, e) \<Rightarrow>
            (let f = f\<lparr>ff_seg := seg, ff_end := e\<rparr> in
             if 2 ^ 32 - 1 < base + run_units
             then (Err (Bail ''flat file exceeds the DiskPtr addressing limit''), f)
             else (case fill_run (replicate (run_units * ADDR_UNIT) 0) 0 run of
                     Err er \<Rightarrow> (Err er, f)
                   | Ok buf \<Rightarrow>
                       (case write_runs (f\<lparr>ff_data := write_at (ff_data f) (base * ADDR_UNIT) buf\<rparr>) rest of
                          (r, f') \<Rightarrow> (res_map (\<lambda>ptrs. run_ptrs base 0 run @ ptrs) r, f'))))))"
  by pat_completeness auto
termination
  by (relation "measure (\<lambda>(f, ps). length ps)") (auto dest!: sym [THEN pack_run_shorter] simp del: pack_run.simps)

definition write_batch :: "flat_file \<Rightarrow> bytes list \<Rightarrow> disk_ptr list res \<times> flat_file" where
  "write_batch f payloads =
     (let f = drain_staged_if_unaliased f in
      if list_ex (\<lambda>p. MAX_RECORD_BYTES < length p) payloads
      then (Err (Bail ''record payload exceeds the region capacity''), f)
      else write_runs f payloads)"

text \<open>The parallel writer allocates every run first and writes afterwards.\<close>

record planned_run =
  pr_base :: nat
  pr_units :: nat
  pr_payloads :: "bytes list"

function plan_runs :: "flat_file \<Rightarrow> bytes list \<Rightarrow> planned_run list res \<times> flat_file" where
  "plan_runs f [] = (Ok [], f)"
| "plan_runs f (p # ps) =
     (case pack_run True 0 (p # ps) of (run_bytes, run, rest) \<Rightarrow>
       (let live_units = run_bytes div ADDR_UNIT; run_units = padded_units f live_units in
        case alloc (ff_seg f) run_units live_units (ff_end f) of
          Err e \<Rightarrow> (Err e, f)
        | Ok (base, seg, e) \<Rightarrow>
            (let f = f\<lparr>ff_seg := seg, ff_end := e\<rparr> in
             if 2 ^ 32 - 1 < base + run_units
             then (Err (Bail ''flat file exceeds the DiskPtr addressing limit''), f)
             else (case plan_runs f rest of
                     (r, f') \<Rightarrow> (res_map (\<lambda>rs. \<lparr>pr_base = base, pr_units = run_units, pr_payloads = run\<rparr> # rs) r, f')))))"
  by pat_completeness auto
termination
  by (relation "measure (\<lambda>(f, ps). length ps)") (auto dest!: sym [THEN pack_run_shorter] simp del: pack_run.simps)

definition write_planned :: "bytes \<Rightarrow> planned_run \<Rightarrow> bytes res" where
  "write_planned d r = res_map (\<lambda>buf. write_at d (pr_base r * ADDR_UNIT) buf)
     (fill_run (replicate (pr_units r * ADDR_UNIT) 0) 0 (pr_payloads r))"

text \<open>
  The worker threads write the planned runs in some order; \<open>order\<close> is the
  schedule, a rearrangement of the plan.
\<close>

definition write_batch_parallel ::
  "(planned_run list \<Rightarrow> planned_run list) \<Rightarrow> flat_file \<Rightarrow> bytes list \<Rightarrow> disk_ptr list res \<times> flat_file" where
  "write_batch_parallel order f payloads =
     (let f = drain_staged_if_unaliased f in
      if list_ex (\<lambda>p. MAX_RECORD_BYTES < length p) payloads
      then (Err (Bail ''record payload exceeds the region capacity''), f)
      else
        (case plan_runs f payloads of
           (Err e, f) \<Rightarrow> (Err e, f)
         | (Ok runs, f) \<Rightarrow>
             (case res_foldM write_planned (ff_data f) (order runs) of
                Err e \<Rightarrow> (Err e, f)
              | Ok d \<Rightarrow> (Ok (concat (map (\<lambda>r. run_ptrs (pr_base r) 0 (pr_payloads r)) runs)),
                         f\<lparr>ff_data := d\<rparr>))))"

section \<open>Freeing, pins and reporting\<close>

definition ff_free :: "flat_file \<Rightarrow> disk_ptr \<Rightarrow> flat_file" where
  "ff_free f ptr = f\<lparr>ff_seg := free (ff_seg f) (unat (dp_unit ptr)) (dp_units ptr)\<rparr>"

definition pin_snapshot :: "flat_file \<Rightarrow> nat \<times> flat_file" where
  "pin_snapshot f = (case pin (ff_seg f) of (g, a) \<Rightarrow> (g, f\<lparr>ff_seg := a\<rparr>))"

definition pin_snapshot_at :: "flat_file \<Rightarrow> nat \<Rightarrow> flat_file" where
  "pin_snapshot_at f g = f\<lparr>ff_seg := pin_at (ff_seg f) g\<rparr>"

definition unpin_snapshot :: "flat_file \<Rightarrow> nat \<Rightarrow> flat_file" where
  "unpin_snapshot f g = f\<lparr>ff_seg := unpin (ff_seg f) g\<rparr>"

definition live_and_free_units :: "flat_file \<Rightarrow> nat \<times> nat" where
  "live_and_free_units f = (live_units (ff_seg f), free_region_units (ff_seg f))"

definition garbage_bytes :: "flat_file \<Rightarrow> nat" where
  "garbage_bytes f = (ff_end f * UNITS_PER_PAGE - fst (live_and_free_units f)) * ADDR_UNIT"

definition free_region_count :: "flat_file \<Rightarrow> nat" where
  "free_region_count f = length (ra_free (ff_seg f))"

end
