(* ===== verification/FlatProofs.thy ===== *)
theory FlatProofs
  imports FlatFile
begin

text \<open>
  The record file implements a finite map from pointers to payloads. \<open>ff_rel f M\<close>
  relates a file to the map of its live records; every operation is shown to act
  on \<open>M\<close> as its specification says, and a read returns \<open>M\<close>'s payload, through the
  read-ahead cache or not, with direct I/O or not.
\<close>

section \<open>Abstraction relation\<close>

definition frame :: "bytes \<Rightarrow> bytes" where
  "frame p = le_bytes 4 (length p) @ p"

definition rec_run :: "(disk_ptr \<Rightarrow> nat) \<Rightarrow> disk_ptr \<Rightarrow> run" where
  "rec_run n ptr = Run (unat (dp_unit ptr)) (n ptr) (dp_units ptr)"

definition space_ok :: "flat_file \<Rightarrow> disk_ptr set \<Rightarrow> bool" where
  "space_ok f D = (\<exists>n. ra_ok (ff_seg f, ff_end f) (rec_run n ` D))"

definition holds :: "bytes \<Rightarrow> disk_ptr \<Rightarrow> bytes \<Rightarrow> bool" where
  "holds d ptr p = (unat (dp_len ptr) = length p \<and> length p \<le> MAX_RECORD_BYTES \<and>
     has_at d (dp_offset ptr) (frame p))"

definition direct_ok :: "flat_file \<Rightarrow> bool" where
  "direct_ok f = (ff_direct f \<longrightarrow> 16 dvd ra_next (ff_seg f) \<and> DIO_ALIGN dvd length (ff_data f))"

text \<open>A record whose bytes are in place and whose units are not handed out.\<close>

definition kept :: "flat_file \<Rightarrow> disk_ptr \<Rightarrow> bytes \<Rightarrow> bool" where
  "kept f ptr p = (\<exists>m. sealed (ff_seg f) (rec_run m ptr) \<and> run_region (rec_run m ptr) \<notin> set (ra_free (ff_seg f)) \<and>
     holds (ff_data f) ptr p)"

text \<open>Every entry of the read-ahead cache is a kept record.\<close>

definition ahead_ok :: "flat_file \<Rightarrow> bool" where
  "ahead_ok f = (ff_ahead_len f = length (ff_ahead f) \<and>
     (\<forall>(u, b) \<in> set (ff_ahead f). kept f \<lparr>dp_unit = u, dp_len = of_nat (length b)\<rparr> b))"

text \<open>
  What must survive besides the records of the frontier: the records of the last
  checkpoint, for every pinned generation the records that were live when it was
  pinned, and the copies of a relocation that is collected and not yet installed;
  with the pins themselves.
\<close>

record frozen =
  fz_durable :: "disk_ptr \<rightharpoonup> bytes"
  fz_snaps :: "nat \<rightharpoonup> (disk_ptr \<rightharpoonup> bytes)"
  fz_copies :: "disk_ptr \<rightharpoonup> bytes"
  fz_pins :: "(nat \<times> nat) list"

definition fz_none :: frozen where
  "fz_none = \<lparr>fz_durable = Map.empty, fz_snaps = Map.empty, fz_copies = Map.empty, fz_pins = []\<rparr>"

definition durable_ok :: "(disk_ptr \<rightharpoonup> bytes) \<Rightarrow> flat_file \<Rightarrow> bool" where
  "durable_ok D f = ((\<exists>n. dur_inv (ff_seg f) (rec_run n ` dom D)) \<and>
     (\<forall>ptr p. D ptr = Some p \<longrightarrow> holds (ff_data f) ptr p))"

definition snaps_ok :: "(nat \<rightharpoonup> (disk_ptr \<rightharpoonup> bytes)) \<Rightarrow> flat_file \<Rightarrow> bool" where
  "snaps_ok S f = ((\<exists>n. snap_inv (ff_seg f) (\<lambda>g. map_option (\<lambda>m. rec_run (n g) ` dom m) (S g))) \<and>
     (\<forall>g m ptr p. pinned (ff_seg f) g \<longrightarrow> S g = Some m \<longrightarrow> m ptr = Some p \<longrightarrow> holds (ff_data f) ptr p))"

definition ff_rel :: "frozen \<Rightarrow> flat_file \<Rightarrow> (disk_ptr \<rightharpoonup> bytes) \<Rightarrow> bool" where
  "ff_rel Z f M = (space_ok f (dom M) \<and> inj_on dp_unit (dom M) \<and>
     (\<forall>ptr p. M ptr = Some p \<longrightarrow> holds (ff_data f) ptr p) \<and> direct_ok f \<and> ahead_ok f \<and>
     durable_ok (fz_durable Z) f \<and> snaps_ok (fz_snaps Z) f \<and> ra_pins (ff_seg f) = fz_pins Z)"

lemma ff_rel_copies [simp]: "ff_rel (Z\<lparr>fz_copies := c\<rparr>) f M = ff_rel Z f M"
  by (simp add: ff_rel_def)

section \<open>Sizes\<close>

lemma unit_consts [simp]: "ADDR_UNIT = 256" "RECORD_HDR = 4" "REGION_BYTES = 131072" "MAX_RECORD_BYTES = 131068"
  by (simp_all add: ADDR_UNIT_def RECORD_HDR_def REGION_BYTES_def MAX_RECORD_BYTES_def PAGE_def REGION_PAGES_def)

lemma length_frame [simp]: "length (frame p) = 4 + length p"
  by (simp add: frame_def)

lemma units_for_bounds: "0 < n \<Longrightarrow> 0 < units_for n" "n \<le> units_for n * 256" "n \<le> k * 256 \<Longrightarrow> units_for n \<le> k"
proof -
  show "0 < n \<Longrightarrow> 0 < units_for n" "n \<le> units_for n * 256"
    by (simp_all add: units_for_def div_ceil_def)
  assume "n \<le> k * 256"
  then have "(n + 255) div 256 \<le> (k * 256 + 255) div 256" by (intro div_le_mono) simp
  then show "units_for n \<le> k" by (simp add: units_for_def div_ceil_def)
qed

lemma units_for_pos [simp]: "0 < units_for (4 + n)" "units_for (4 + n) \<noteq> 0"
  using units_for_bounds(1) [of "4 + n"] by simp_all

lemma aligned_bounds: "n \<le> aligned n" "aligned n div 256 = units_for n" "256 dvd aligned n"
  using units_for_bounds(2) [of n] by (simp_all add: aligned_def)

lemma record_fits: "length p \<le> 131068 \<Longrightarrow> units_for (4 + length p) \<le> 512"
  by (rule units_for_bounds(3)) simp

lemma padded_bounds:
  "units \<le> padded_units f units" "units \<le> 512 \<Longrightarrow> padded_units f units \<le> 512"
  "ff_direct f \<Longrightarrow> 16 dvd padded_units f units"
  by (auto simp: padded_units_def align_units_def div_ceil_def DIO_ALIGN_def)

lemma padded_cong: "ff_direct g = ff_direct f \<Longrightarrow> padded_units g n = padded_units f n"
  by (simp add: padded_units_def align_units_def)

section \<open>Framing a run\<close>

lemma copy_in_Ok: "(copy_in buf off b = Ok buf') = (off + length b \<le> length buf \<and> buf' = write_at buf off b)"
  by (auto simp: copy_in_def)

fun frames_at :: "bytes \<Rightarrow> nat \<Rightarrow> bytes list \<Rightarrow> bool" where
  "frames_at buf off [] = True"
| "frames_at buf off (p # ps) =
     (has_at buf off (frame p) \<and> frames_at buf (off + aligned (4 + length p)) ps)"

definition run_len :: "bytes list \<Rightarrow> nat" where
  "run_len ps = sum_list (map (\<lambda>p. units_for (4 + length p)) ps)"

lemma run_len_simps [simp]: "run_len [] = 0" "run_len (p # ps) = units_for (4 + length p) + run_len ps"
  by (simp_all add: run_len_def)

lemma run_len_pos: "ps \<noteq> [] \<Longrightarrow> 0 < run_len ps"
  by (cases ps) auto

lemma two_copies:
  assumes "off + 4 + length p \<le> length buf"
  shows "has_at (write_at (write_at buf off (le_bytes 4 (length p))) (off + 4) p) off (frame p)"
  unfolding frame_def has_at_append
  using has_at_write_other [OF has_at_write_at, of off "le_bytes 4 (length p)" "off + 4" p buf]
    has_at_write_at [of _ "off + 4" p] by simp

lemma fill_run_keeps:
  "fill_run buf off ps = Ok buf' \<Longrightarrow> has_at buf q x \<Longrightarrow> q + length x \<le> off \<Longrightarrow> has_at buf' q x"
proof (induction buf off ps arbitrary: buf' rule: fill_run.induct)
  case (2 buf off p ps)
  then obtain b1 b2 where b: "copy_in buf off (le_bytes 4 (length p)) = Ok b1" "copy_in b1 (off + 4) p = Ok b2"
    "fill_run b2 (off + aligned (4 + length p)) ps = Ok buf'" by (auto simp: res_simps)
  have "has_at b2 q x"
    using b(1,2) 2(3,4) by (auto simp: copy_in_Ok intro!: has_at_write_other)
  then show ?case using 2(1) [OF b(1,2)] b(3) 2(4) by simp
qed simp

lemma fill_run_total:
  assumes "off + run_len ps * 256 \<le> length buf"
  shows "\<exists>buf'. fill_run buf off ps = Ok buf' \<and> length buf' = length buf \<and> frames_at buf' off ps"
  using assms
proof (induction ps arbitrary: buf off)
  case (Cons p ps)
  let ?k = "aligned (4 + length p)" and ?b1 = "write_at buf off (le_bytes 4 (length p))"
  let ?b2 = "write_at ?b1 (off + 4) p"
  have k: "4 + length p \<le> ?k" "?k = units_for (4 + length p) * 256"
    using aligned_bounds(1) by (simp_all add: aligned_def)
  then have len: "off + 4 + length p \<le> length buf" using Cons.prems by simp
  then have l2: "length ?b2 = length buf" by simp
  have "off + ?k + run_len ps * 256 \<le> length ?b2" using Cons.prems k(2) l2 by (simp add: algebra_simps)
  from Cons.IH [OF this] obtain buf' where
    b: "fill_run ?b2 (off + ?k) ps = Ok buf'" "length buf' = length buf" "frames_at buf' (off + ?k) ps"
    using l2 by auto
  have "has_at buf' off (frame p)"
    using fill_run_keeps [OF b(1) two_copies [OF len]] k(1) by simp
  then show ?case using b len by (simp add: copy_in_def)
qed simp

section \<open>Packing\<close>

lemma pack_run_facts:
  assumes "pack_run first rb ps = (rb', run, rest)" and "\<forall>p \<in> set ps. length p \<le> 131068"
    and "rb \<le> 131072" and "first \<Longrightarrow> rb = 0"
  shows "rb' = rb + run_len run * 256 \<and> rb' \<le> 131072"
  using assms
proof (induction first rb ps arbitrary: rb' run rest rule: pack_run.induct)
  case (2 first rb p ps)
  let ?k = "aligned (4 + length p)"
  show ?case
  proof (cases "\<not> first \<and> 131072 < rb + ?k")
    case True
    then show ?thesis using 2(2,4) by (simp add: Let_def)
  next
    case False
    obtain rb2 run2 where r: "pack_run False (rb + ?k) ps = (rb2, run2, rest)" "rb' = rb2" "run = p # run2"
      using 2(2) False by (auto simp: Let_def split: prod.splits)
    have "?k \<le> 512 * 256" using record_fits [of p] 2(3) by (simp add: aligned_def)
    then have "rb + ?k \<le> 131072" using False 2(5) by auto
    then have "rb2 = rb + ?k + run_len run2 * 256 \<and> rb2 \<le> 131072"
      using 2(1) [OF _ _ _ _ _ FalseE] False r(1) 2(3) by simp
    then show ?thesis using r(2,3) by (simp add: aligned_def algebra_simps)
  qed
qed simp

section \<open>Pointers of a run\<close>

lemma ptr_words:
  assumes "u + units_for (4 + length p) < 2 ^ 32" and "length p \<le> 131068"
    and "ptr = \<lparr>dp_unit = of_nat u, dp_len = of_nat (length p)\<rparr>"
  shows "unat (dp_unit ptr) = u" and "unat (dp_len ptr) = length p" and "dp_units ptr = units_for (4 + length p)"
    and "dp_offset ptr = u * 256"
  using assms by (simp_all add: unat_of_nat dp_units_def dp_offset_def)

lemma run_ptrs_Cons:
  assumes "off = k * 256"
  shows "run_ptrs base off (p # ps) =
    \<lparr>dp_unit = of_nat (base + k), dp_len = of_nat (length p)\<rparr> # run_ptrs base ((k + units_for (4 + length p)) * 256) ps"
  using assms by (simp add: aligned_def algebra_simps)

lemma length_run_ptrs [simp]: "length (run_ptrs base off ps) = length ps"
  by (induction ps arbitrary: off) auto

lemma run_ptrs_range:
  assumes "base + k + run_len ps < 2 ^ 32" and "\<forall>p \<in> set ps. length p \<le> 131068"
    and "ptr \<in> set (run_ptrs base (k * 256) ps)"
  shows "base + k \<le> unat (dp_unit ptr) \<and> unat (dp_unit ptr) < base + k + run_len ps"
  using assms
proof (induction ps arbitrary: k)
  case (Cons p ps)
  let ?ptr = "\<lparr>dp_unit = of_nat (base + k), dp_len = of_nat (length p)\<rparr> :: disk_ptr"
  have u: "unat (dp_unit ?ptr) = base + k"
    using Cons.prems(1,2) by (intro ptr_words(1) [of _ p]) auto
  show ?case
  proof (cases "ptr = ?ptr")
    case True
    then show ?thesis using u Cons.prems(1) by simp
  next
    case False
    then have "ptr \<in> set (run_ptrs base ((k + units_for (4 + length p)) * 256) ps)"
      using Cons.prems(3) run_ptrs_Cons [OF refl, of base k p ps] by simp
    from Cons.IH [OF _ _ this] Cons.prems(1,2) show ?thesis by simp
  qed
qed simp

lemma run_ptrs_holds:
  assumes "frames_at buf (k * 256) ps" and "has_at d (base * 256) buf" and "base + k + run_len ps < 2 ^ 32"
    and "\<forall>p \<in> set ps. length p \<le> 131068" and "(ptr, p) \<in> set (zip (run_ptrs base (k * 256) ps) ps)"
  shows "holds d ptr p"
  using assms
proof (induction ps arbitrary: k)
  case (Cons q ps)
  let ?ptr = "\<lparr>dp_unit = of_nat (base + k), dp_len = of_nat (length q)\<rparr> :: disk_ptr"
  note C = run_ptrs_Cons [OF refl, of base k q ps]
  have w: "unat (dp_len ?ptr) = length q" "dp_offset ?ptr = (base + k) * 256"
    using Cons.prems(3,4) by (intro ptr_words(2,4) [of "base + k" q] refl; simp)+
  show ?case
  proof (cases "(ptr, p) = (?ptr, q)")
    case True
    then show ?thesis
      using w Cons.prems(1,4) has_at_sub [OF Cons.prems(2), of "k * 256" "frame q"]
      by (simp add: holds_def algebra_simps)
  next
    case False
    have "frames_at buf ((k + units_for (4 + length q)) * 256) ps"
      using Cons.prems(1) by (simp add: aligned_def algebra_simps)
    then show ?thesis
      using Cons.IH [of "k + units_for (4 + length q)"] Cons.prems(2-5) False C by auto
  qed
qed simp

section \<open>One reserved run becomes several records\<close>

lemma start_fresh:
  assumes "ra_inv a e (insert x R)" and "x \<notin> R" and "y \<in> R"
  shows "run_start y < run_start x \<or> run_end x \<le> run_start y"
proof -
  have "run_ok x" "run_ok y" "apart x y"
    using assms by (auto simp: ra_inv_def recs_ok_def sealed_def)
  then show ?thesis by (auto simp: apart_def run_ok_def)
qed

lemma rec_run_insert:
  assumes "ptr \<notin> dom M"
  shows "rec_run (nn(ptr := m)) ` dom (M(ptr \<mapsto> p)) =
    insert (Run (unat (dp_unit ptr)) m (dp_units ptr)) (rec_run nn ` dom M)"
proof -
  have "rec_run (nn(ptr := m)) ` dom M = rec_run nn ` dom M"
    using assms by (intro image_cong refl) (auto simp: rec_run_def)
  then show ?thesis by (simp add: rec_run_def)
qed

lemma split_records:
  assumes "ra_inv a e (insert (Run u n (run_len ps)) (rec_run nn ` dom M))"
    and "Run u n (run_len ps) \<notin> rec_run nn ` dom M" and "ps \<noteq> []" and "\<forall>p \<in> set ps. length p \<le> 131068"
    and "u + run_len ps < 2 ^ 32" and "inj_on dp_unit (dom M)" and "u = base + k"
  shows "(\<exists>nn'. ra_inv a e (rec_run nn' ` dom (M(run_ptrs base (k * 256) ps [\<mapsto>] ps)))) \<and>
    inj_on dp_unit (dom (M(run_ptrs base (k * 256) ps [\<mapsto>] ps))) \<and> distinct (run_ptrs base (k * 256) ps) \<and>
    set (run_ptrs base (k * 256) ps) \<inter> dom M = {}"
  using assms
proof (induction ps arbitrary: u n nn M k)
  case (Cons p ps)
  let ?c = "units_for (4 + length p)"
  let ?x = "Run u n (run_len (p # ps))" and ?R = "rec_run nn ` dom M"
  define ptr :: disk_ptr where "ptr = \<lparr>dp_unit = of_nat (base + k), dp_len = of_nat (length p)\<rparr>"
  let ?M = "M(ptr \<mapsto> p)"
  have w: "unat (dp_unit ptr) = u" "dp_units ptr = ?c"
    using Cons.prems(4,5,7) by (intro ptr_words(1,3) [of u p] ptr_def [folded Cons.prems(7)]; simp)+
  have xo: "run_ok ?x" using Cons.prems(1) by (auto simp: ra_inv_def recs_ok_def sealed_def)
  have fresh: "unat (dp_unit q) \<noteq> u" if "q \<in> dom M" for q
    using start_fresh [OF Cons.prems(1,2), of "rec_run nn q"] that xo by (auto simp: rec_run_def run_ok_def)
  then have nin: "ptr \<notin> dom M" using w(1) by blast
  have "dp_unit ptr \<notin> dp_unit ` dom M"
  proof
    assume "dp_unit ptr \<in> dp_unit ` dom M"
    then obtain q where "q \<in> dom M" "dp_unit q = dp_unit ptr" by (metis imageE)
    then show False using fresh [of q] w(1) by simp
  qed
  then have inj: "inj_on dp_unit (dom ?M)" using Cons.prems(6) by (auto simp: inj_on_insert)
  have img: "rec_run (nn(ptr := m)) ` dom ?M = insert (Run u m ?c) ?R" for m
    using rec_run_insert [OF nin] w by simp
  note C = run_ptrs_Cons [OF refl, of base k p ps, folded ptr_def]
  show ?case
  proof (cases "ps = []")
    case True
    then have "ra_inv a e (rec_run (nn(ptr := n)) ` dom ?M)" using Cons.prems(1) by (simp only: img) simp
    moreover have e: "M(run_ptrs base (k * 256) (p # ps) [\<mapsto>] p # ps) = ?M"
      unfolding C map_upds_Cons by (simp add: True)
    moreover have "distinct (run_ptrs base (k * 256) (p # ps)) \<and> set (run_ptrs base (k * 256) (p # ps)) \<inter> dom M = {}"
      unfolding C using True nin by simp
    ultimately show ?thesis unfolding e using inj by blast
  next
    case False
    let ?z = "Run (u + ?c) (n - ?c) (run_len ps)"
    have lt: "?c < run_len (p # ps)" using run_len_pos [OF False] by simp
    have "ra_inv a e (insert ?x ?R - {?x} \<union> {Run u ?c ?c, ?z})"
      using split_inv [OF Cons.prems(1) insertI1 _ lt] by simp
    moreover have "insert ?x ?R - {?x} \<union> {Run u ?c ?c, ?z} = insert ?z (rec_run (nn(ptr := ?c)) ` dom ?M)"
      using Cons.prems(2) unfolding img by auto
    ultimately have inv: "ra_inv a e (insert ?z (rec_run (nn(ptr := ?c)) ` dom ?M))" by simp
    have "?z \<notin> ?R"
      using start_fresh [OF Cons.prems(1,2), of ?z] xo lt by (auto simp: run_ok_def)
    then have nz: "?z \<notin> rec_run (nn(ptr := ?c)) ` dom ?M" unfolding img by simp
    have "(\<exists>nn'. ra_inv a e (rec_run nn' ` dom (?M(run_ptrs base ((k + ?c) * 256) ps [\<mapsto>] ps)))) \<and>
      inj_on dp_unit (dom (?M(run_ptrs base ((k + ?c) * 256) ps [\<mapsto>] ps))) \<and>
      distinct (run_ptrs base ((k + ?c) * 256) ps) \<and> set (run_ptrs base ((k + ?c) * 256) ps) \<inter> dom ?M = {}"
      by (rule Cons.IH [OF inv nz False _ _ inj]) (use Cons.prems(4,5,7) in simp_all)
    moreover have "distinct (ptr # qs) \<and> set (ptr # qs) \<inter> dom M = {}"
      if "distinct qs \<and> set qs \<inter> dom ?M = {}" for qs
      using that nin by auto
    ultimately show ?thesis unfolding C map_upds_Cons by blast
  qed
qed simp

section \<open>Writing one run\<close>

lemma map_upds_Some: "(M(xs [\<mapsto>] ys)) x = Some y \<Longrightarrow> (x, y) \<in> set (zip xs ys) \<or> M x = Some y"
  by (auto simp: map_upds_def map_add_Some_iff dest: map_of_SomeD)

lemma alloc_aligned:
  assumes "alloc a n l e = Ok (u, a', e')" and "16 dvd ra_next a" and "16 dvd n"
  shows "16 dvd u" and "16 dvd ra_next a'"
proof -
  have r: "u = ra_next (room a n e)" "ra_next a' = u + n" using alloc_room [OF assms(1)] by auto
  have "16 dvd ra_next (room a n e)"
    using assms(2) by (auto simp: room_def open_new_head_def ensure_region_def Let_def split: prod.splits)
  then show "16 dvd u" and "16 dvd ra_next a'" using r assms(3) by auto
qed

lemma dio_dvd: "16 dvd u \<Longrightarrow> 16 dvd n \<Longrightarrow> 4096 dvd u * 256 + n * (256 :: nat)"
proof (elim dvdE)
  fix k j
  assume "u = 16 * k" and "n = 16 * j"
  then have "u * 256 + n * 256 = 4096 * (k + j)" by simp
  then show ?thesis by simp
qed

lemma direct_place:
  assumes "alloc (ff_seg f) n l (ff_end f) = Ok (u, seg, e)" and "ff_direct f \<Longrightarrow> 16 dvd n"
    and "direct_ok f" and "length buf = n * 256"
  shows "direct_ok (f\<lparr>ff_seg := seg, ff_end := e, ff_data := write_at (ff_data f) (u * 256) buf\<rparr>)"
proof (cases "ff_direct f")
  case True
  then have n: "16 dvd n" "16 dvd ra_next (ff_seg f)" "4096 dvd length (ff_data f)"
    using assms(2,3) by (simp_all add: direct_ok_def DIO_ALIGN_def)
  from alloc_aligned [OF assms(1) n(2,1)] dio_dvd [of u n] n(1,3) assms(4)
  show ?thesis by (simp add: direct_ok_def DIO_ALIGN_def max_def)
qed (simp add: direct_ok_def)

lemma holds_intact:
  assumes "ff_rel Z f M" and "ra_ok (ff_seg f, ff_end f) (rec_run n ` dom M)"
  shows "rs.intact (ff_data f) ((\<lambda>ptr. (rec_run n ptr, frame (the (M ptr)))) ` dom M)"
proof -
  have "has_at (ff_data f) (run_start (rec_run n ptr) * 256) (frame p) \<and>
      length (frame p) \<le> run_units (rec_run n ptr) * 256" if "M ptr = Some p" for ptr p
  proof -
    have h: "holds (ff_data f) ptr p" using assms(1) that by (simp add: ff_rel_def)
    have "rec_run n ptr \<in> rec_run n ` dom M" using that by (blast intro: domI)
    then have "run_ok (rec_run n ptr)"
      using assms(2) by (auto simp: ra_ok_def ra_inv_def recs_ok_def sealed_def)
    then have "units_for (4 + length p) \<le> n ptr"
      using h by (simp add: run_ok_def rec_run_def run_end_def holds_def dp_units_def)
    then show ?thesis
      using h units_for_bounds(2) [of "4 + length p"] by (simp add: holds_def rec_run_def dp_offset_def)
  qed
  then show ?thesis by (auto simp: rs.intact_def)
qed

lemma run_ok_units: "run_ok (rec_run m ptr) \<Longrightarrow> unat (dp_len ptr) = length p \<Longrightarrow> 4 + length p \<le> m ptr * 256"
  using units_for_bounds(2) [of "4 + length p"]
  by (simp add: run_ok_def rec_run_def dp_units_def)

text \<open>Writing a freshly reserved run leaves every kept record in place.\<close>

lemma write_keeps:
  assumes "ra_inv (ff_seg f) (ff_end f) R" and "alloc (ff_seg f) n l (ff_end f) = Ok (u, seg, e)" and "0 < l" and "l \<le> n"
    and "length buf = n * 256" and "sealed (ff_seg f) (rec_run m ptr)"
    and "run_region (rec_run m ptr) \<notin> set (ra_free (ff_seg f))" and "holds (ff_data f) ptr p"
  shows "holds (write_at (ff_data f) (u * 256) buf) ptr p"
proof -
  have "apart (Run u n l) (rec_run m ptr)" using alloc_inv(2) [OF assms(1-4) assms(6,7)] by blast
  moreover have "4 + length p \<le> m ptr * 256"
    using assms(6,8) run_ok_units by (auto simp: sealed_def holds_def)
  ultimately have "dp_offset ptr + length (frame p) \<le> u * 256 \<or> u * 256 + length buf \<le> dp_offset ptr"
    using assms(5) by (auto simp: apart_def run_end_def rec_run_def dp_offset_def)
  then show ?thesis using has_at_write_other assms(8) by (auto simp: holds_def)
qed

lemma snap_sealed:
  assumes "snap_inv a (\<lambda>g. map_option (\<lambda>x. rec_run (m g) ` dom x) (S g))" and "pinned a g" and "S g = Some x" and "x ptr = Some p"
  shows "sealed a (rec_run (m g) ptr) \<and> run_region (rec_run (m g) ptr) \<notin> set (ra_free a)"
proof -
  have "rec_run (m g) ptr \<in> rec_run (m g) ` dom x" using assms(4) by (blast intro: domI)
  moreover have "map_option (\<lambda>x. rec_run (m g) ` dom x) (S g) = Some (rec_run (m g) ` dom x)" using assms(3) by simp
  ultimately have "sealed a (rec_run (m g) ptr) \<and>
      run_region (rec_run (m g) ptr) \<notin> set (ra_free a @ ra_staged a @ ra_quarantine a)"
    using assms(1,2) unfolding snap_inv_def by blast
  then show ?thesis by simp
qed

lemma frozen_place:
  assumes inv: "ra_inv (ff_seg f) (ff_end f) R" and al: "alloc (ff_seg f) n l (ff_end f) = Ok (u, seg, e)"
    and l: "0 < l" "l \<le> n" and b: "length buf = n * 256"
    and f': "f' = f\<lparr>ff_seg := seg, ff_end := e, ff_data := write_at (ff_data f) (u * 256) buf\<rparr>"
  shows "ahead_ok f \<Longrightarrow> ahead_ok f'" and "durable_ok D f \<Longrightarrow> durable_ok D f'" and "snaps_ok S f \<Longrightarrow> snaps_ok S f'"
proof -
  note W = write_keeps [OF inv al l b]
  note A = alloc_inv [OF inv al l]
  have k: "kept f' ptr p" if "kept f ptr p" for ptr p
    using that W A(2) subsetD [OF A(3)] unfolding kept_def f' by auto blast
  show "ahead_ok f'" if "ahead_ok f" using that k by (auto simp: ahead_ok_def f')
  show "durable_ok D f'" if d: "durable_ok D f"
  proof -
    obtain m where m: "dur_inv (ff_seg f) (rec_run m ` dom D)" using d by (auto simp: durable_ok_def)
    have "holds (ff_data f') ptr p" if "D ptr = Some p" for ptr p
      using W [of m ptr p] d m that by (auto simp: durable_ok_def dur_inv_def f' dom_def)
    then show ?thesis using alloc_snap_dur(2) [OF inv al l m] by (auto simp: durable_ok_def f')
  qed
  show "snaps_ok S f'" if s: "snaps_ok S f"
  proof -
    obtain m where m: "snap_inv (ff_seg f) (\<lambda>g. map_option (\<lambda>x. rec_run (m g) ` dom x) (S g))"
      using s by (auto simp: snaps_ok_def)
    have pn: "pinned seg g = pinned (ff_seg f) g" for g using A(7) by (simp add: pinned_def)
    have "holds (ff_data f') ptr p" if "pinned (ff_seg f) g" "S g = Some x" "x ptr = Some p" for g x ptr p
    proof -
      have "sealed (ff_seg f) (rec_run (m g) ptr) \<and> run_region (rec_run (m g) ptr) \<notin> set (ra_free (ff_seg f))"
        using snap_sealed [OF m that] .
      then show ?thesis using W [of "m g" ptr p] s that by (auto simp: snaps_ok_def f')
    qed
    then show ?thesis using alloc_snap_dur(1) [OF inv al l m] pn unfolding snaps_ok_def f' by auto
  qed
qed

lemma place_run:
  assumes rel: "ff_rel Z f M" and ps: "ps \<noteq> []" "\<forall>p \<in> set ps. length p \<le> 131068"
    and al: "alloc (ff_seg f) n (run_len ps) (ff_end f) = Ok (u, seg, e)" and n: "run_len ps \<le> n"
    and d: "ff_direct f \<Longrightarrow> 16 dvd n" and lim: "u + run_len ps < 2 ^ 32"
    and buf: "length buf = n * 256" "frames_at buf 0 ps"
    and f': "f' = f\<lparr>ff_seg := seg, ff_end := e, ff_data := write_at (ff_data f) (u * 256) buf\<rparr>"
  shows "ff_rel Z f' (M(run_ptrs u 0 ps [\<mapsto>] ps))" and "distinct (run_ptrs u 0 ps)"
    and "set (run_ptrs u 0 ps) \<inter> dom M = {}"
proof -
  let ?M = "M(run_ptrs u 0 ps [\<mapsto>] ps)" and ?x = "Run u n (run_len ps)"
  obtain nn where nn: "ra_ok (ff_seg f, ff_end f) (rec_run nn ` dom M)"
    using rel by (auto simp: ff_rel_def space_ok_def)
  let ?C = "(\<lambda>ptr. (rec_run nn ptr, frame (the (M ptr)))) ` dom M"
  have C: "fst ` ?C = rec_run nn ` dom M" by (force simp: image_iff)
  have rv: "ra_reserve (ff_seg f, ff_end f) n (run_len ps) = Ok (u, (seg, e))" by (simp add: ra_reserve_def al)
  have l: "0 < run_len ps" by (rule run_len_pos [OF ps(1)])
  note W = rs.write_keeps_intact [of _ ?C, unfolded C, OF nn holds_intact [OF rel nn] rv l n]
  have inv: "ra_inv seg e (insert ?x (rec_run nn ` dom M))" using W(1) [of buf] buf(1) by (simp add: ra_ok_def)
  have int: "rs.intact (ff_data f') (insert (?x, buf) ?C)" using W(2) [of buf] buf(1) f' by simp
  have iv: "ra_inv (ff_seg f) (ff_end f) (rec_run nn ` dom M)" using nn by (simp add: ra_ok_def)
  have "apart ?x ?x" if "?x \<in> rec_run nn ` dom M" using rs.reserve_ok [OF nn rv l n] that by blast
  then have "?x \<notin> rec_run nn ` dom M" using l n by (auto simp: apart_def)
  then have S: "(\<exists>nn'. ra_inv seg e (rec_run nn' ` dom ?M)) \<and> inj_on dp_unit (dom ?M) \<and>
      distinct (run_ptrs u 0 ps) \<and> set (run_ptrs u 0 ps) \<inter> dom M = {}"
    using split_records [OF inv _ ps lim, of u 0] rel by (simp add: ff_rel_def)
  then show "distinct (run_ptrs u 0 ps)" and "set (run_ptrs u 0 ps) \<inter> dom M = {}" by auto
  have old: "holds (ff_data f') ptr p" if m: "M ptr = Some p" for ptr p
  proof -
    have "\<forall>ptr \<in> dom M. has_at (ff_data f') (run_start (rec_run nn ptr) * 256) (frame (the (M ptr)))"
      using int unfolding rs.intact_def by blast
    then have "has_at (ff_data f') (dp_offset ptr) (frame p)"
      using m by (force simp: rec_run_def dp_offset_def)
    then show ?thesis using rel m by (simp add: ff_rel_def holds_def)
  qed
  have "has_at (ff_data f') (u * 256) buf" using int by (auto simp: rs.intact_def)
  then have new: "holds (ff_data f') ptr p" if "(ptr, p) \<in> set (zip (run_ptrs u 0 ps) ps)" for ptr p
    using run_ptrs_holds [of buf 0 ps _ u] buf(2) lim ps(2) that by simp
  have dir: "direct_ok f'"
    using rel direct_place [OF al d] f' buf(1) by (simp add: ff_rel_def)
  have "ahead_ok f'" "durable_ok (fz_durable Z) f'" "snaps_ok (fz_snaps Z) f'"
    using frozen_place [OF iv al l n buf(1) f'] rel by (auto simp: ff_rel_def)
  moreover have "space_ok f' (dom ?M)" using S by (auto simp: space_ok_def ra_ok_def f')
  moreover have "\<forall>ptr p. ?M ptr = Some p \<longrightarrow> holds (ff_data f') ptr p"
  proof (intro allI impI)
    fix ptr p
    assume "?M ptr = Some p"
    from map_upds_Some [OF this] show "holds (ff_data f') ptr p" using old new by auto
  qed
  moreover have "ra_pins (ff_seg f') = fz_pins Z" using alloc_inv(7) [OF iv al l n] rel by (simp add: f' ff_rel_def)
  ultimately show "ff_rel Z f' ?M" using S dir unfolding ff_rel_def by blast
qed

section \<open>The writers\<close>

lemma drain_rel:
  assumes "ff_rel Z f M"
  shows "ff_rel Z (drain_staged_if_unaliased f) M"
proof (cases "ff_ahead_len f = 0")
  case True
  let ?a = "drain_staged (ff_seg f)"
  have "ff_ahead f = []" using True assms by (simp add: ff_rel_def ahead_ok_def)
  moreover obtain n where n: "ra_inv (ff_seg f) (ff_end f) (rec_run n ` dom M)"
    using assms by (auto simp: ff_rel_def space_ok_def ra_ok_def)
  note D = drain_inv [OF n refl]
  have "durable_ok (fz_durable Z) (f\<lparr>ff_seg := ?a\<rparr>)" using assms D(3) by (auto simp: ff_rel_def durable_ok_def)
  moreover have "snaps_ok (fz_snaps Z) (f\<lparr>ff_seg := ?a\<rparr>)"
    using assms D(2) unfolding ff_rel_def snaps_ok_def by (auto simp: pinned_def drain_staged_def)
  ultimately show ?thesis
    using assms True D(1) by (auto simp: ff_rel_def space_ok_def ra_ok_def drain_staged_if_unaliased_def
        direct_ok_def ahead_ok_def drain_staged_def)
qed (use assms in \<open>simp add: drain_staged_if_unaliased_def\<close>)

lemma fill_run_fresh:
  assumes "run_len ps \<le> n"
  shows "\<exists>buf. fill_run (replicate (n * 256) 0) 0 ps = Ok buf \<and> length buf = n * 256 \<and> frames_at buf 0 ps"
  using fill_run_total [of 0 ps "replicate (n * 256) 0"] assms by simp

lemma map_upds_concat:
  "length xs = length ys \<Longrightarrow> M(xs [\<mapsto>] ys, xs' [\<mapsto>] ys') = M(xs @ xs' [\<mapsto>] ys @ ys')"
  by (simp add: map_upds_def)

lemma write_payload_as_run:
  assumes "write_payload f p = (Ok ptr, f')"
  obtains u seg e buf where "length p \<le> 131068" "ptr \<in> set (run_ptrs u 0 [p])" "u + run_len [p] < 2 ^ 32"
    "alloc (ff_seg f) (padded_units f (run_len [p])) (run_len [p]) (ff_end f) = Ok (u, seg, e)"
    "fill_run (replicate (padded_units f (run_len [p]) * 256) 0) 0 [p] = Ok buf"
    "f' = f\<lparr>ff_seg := seg, ff_end := e, ff_data := write_at (ff_data f) (u * 256) buf\<rparr>"
  using assms by (auto simp: write_payload_def Let_def split: if_splits res.splits prod.splits)

lemma write_payload_rel:
  assumes "ff_rel Z f M" and "write_payload f p = (Ok ptr, f')"
  shows "ff_rel Z f' (M(ptr \<mapsto> p))" and "ptr \<notin> dom M"
proof -
  obtain u seg e buf where W: "length p \<le> 131068" "ptr \<in> set (run_ptrs u 0 [p])" "u + run_len [p] < 2 ^ 32"
    "alloc (ff_seg f) (padded_units f (run_len [p])) (run_len [p]) (ff_end f) = Ok (u, seg, e)"
    "fill_run (replicate (padded_units f (run_len [p]) * 256) 0) 0 [p] = Ok buf"
    "f' = f\<lparr>ff_seg := seg, ff_end := e, ff_data := write_at (ff_data f) (u * 256) buf\<rparr>"
    by (rule write_payload_as_run [OF assms(2)])
  have b: "length buf = padded_units f (run_len [p]) * 256" "frames_at buf 0 [p]"
    using fill_run_fresh [OF padded_bounds(1) [of "run_len [p]" f]] W(5) by auto
  have "\<forall>q \<in> set [p]. length q \<le> 131068" using W(1) by simp
  note Q = place_run [OF assms(1) _ this W(4) padded_bounds(1) padded_bounds(3) W(3) b W(6)]
  show "ff_rel Z f' (M(ptr \<mapsto> p))" "ptr \<notin> dom M" using Q(1,3) W(2) by simp_all
qed

lemma write_runs_rel:
  assumes "ff_rel Z f M" and "write_runs f ps = (Ok ptrs, f')" and "\<forall>p \<in> set ps. length p \<le> 131068"
  shows "ff_rel Z f' (M(ptrs [\<mapsto>] ps)) \<and> length ptrs = length ps \<and> distinct ptrs \<and> set ptrs \<inter> dom M = {}"
  using assms
proof (induction f ps arbitrary: M ptrs f' rule: write_runs.induct)
  case (2 f p ps)
  obtain rb run rest where pk: "pack_run True 0 (p # ps) = (rb, run, rest)" by (metis prod_cases3)
  have run: "p # ps = run @ rest" "run \<noteq> []" "rb = run_len run * 256"
    using pack_run_length [OF pk] pack_run_progress [OF pk] pack_run_facts [OF pk 2(4)] by auto
  let ?n = "padded_units f (run_len run)"
  obtain base seg e buf ptrs2 where W: "alloc (ff_seg f) ?n (run_len run) (ff_end f) = Ok (base, seg, e)"
    "\<not> 2 ^ 32 - 1 < base + ?n" "fill_run (replicate (?n * 256) 0) 0 run = Ok buf"
    "write_runs (f\<lparr>ff_seg := seg, ff_end := e, ff_data := write_at (ff_data f) (base * 256) buf\<rparr>) rest = (Ok ptrs2, f')"
    "ptrs = run_ptrs base 0 run @ ptrs2"
    using 2(3) pk run(3)
    by (auto simp: Let_def res_simps simp del: pack_run.simps split: if_splits res.splits prod.splits)
  let ?g = "f\<lparr>ff_seg := seg, ff_end := e, ff_data := write_at (ff_data f) (base * 256) buf\<rparr>"
  have b: "length buf = ?n * 256" "frames_at buf 0 run"
    using fill_run_fresh [OF padded_bounds(1) [of "run_len run" f]] W(3) by auto
  have sz: "\<forall>q \<in> set run. length q \<le> 131068" "\<forall>q \<in> set rest. length q \<le> 131068" using 2(4) run(1) by auto
  have lim: "base + run_len run < 2 ^ 32" using W(2) padded_bounds(1) [of "run_len run" f] by simp
  note Q = place_run [OF 2(2) run(2) sz(1) W(1) padded_bounds(1) padded_bounds(3) lim b refl]
  have "ff_rel Z f' (M(run_ptrs base 0 run [\<mapsto>] run, ptrs2 [\<mapsto>] rest)) \<and> length ptrs2 = length rest \<and>
      distinct ptrs2 \<and> set ptrs2 \<inter> dom (M(run_ptrs base 0 run [\<mapsto>] run)) = {}"
    using 2(1) [OF pk [symmetric] refl refl refl _ refl refl refl _ _ _ _ sz(2), of base seg e buf
        "M(run_ptrs base 0 run [\<mapsto>] run)" ptrs2 f'] W(1-4) Q(1) run(3) by simp
  then show ?case
    using Q(2,3) W(5) run(1) map_upds_concat [of "run_ptrs base 0 run" run] by auto
qed simp

lemma write_batch_rel:
  assumes "ff_rel Z f M" and "write_batch f ps = (Ok ptrs, f')"
  shows "ff_rel Z f' (M(ptrs [\<mapsto>] ps)) \<and> length ptrs = length ps \<and> distinct ptrs \<and> set ptrs \<inter> dom M = {}"
proof -
  have "write_runs (drain_staged_if_unaliased f) ps = (Ok ptrs, f')" "\<forall>p \<in> set ps. length p \<le> 131068"
    using assms(2) by (auto simp: write_batch_def Let_def list_ex_iff split: if_splits)
  then show ?thesis using write_runs_rel [OF drain_rel [OF assms(1)]] by blast
qed

section \<open>Reading\<close>

lemma align_down_bounds: "align_down x \<le> x" "x < align_down x + 4096" "4096 dvd align_down x"
proof -
  have e: "align_down x = x div 4096 * 4096" by (simp add: align_down_def DIO_ALIGN_def minus_mod_eq_div_mult)
  show "align_down x \<le> x" "4096 dvd align_down x" "x < align_down x + 4096"
    unfolding e using mod_less_divisor [of 4096 x] div_mult_mod_eq [of x 4096] by (simp, simp, linarith)
qed

lemma align_down_dvd: "4096 dvd n \<Longrightarrow> x \<le> n \<Longrightarrow> align_down (x + 4095) \<le> n"
proof -
  assume "4096 dvd n" and x: "x \<le> n"
  then obtain k where k: "n = k * 4096" by (metis dvdE mult.commute)
  then have "(x + 4095) div 4096 \<le> (k * 4096 + 4095) div 4096" using x by (intro div_le_mono) simp
  then show "align_down (x + 4095) \<le> n"
    by (simp add: align_down_def DIO_ALIGN_def minus_mod_eq_div_mult k)
qed

lemma read_payload_has_at:
  assumes "has_at (ff_data f) off p" and "direct_ok f"
  shows "read_payload f off (length p) = Ok p"
proof (cases "ff_direct f")
  case True
  let ?d = "ff_data f" and ?lo = "align_down off" and ?hi = "align_down (off + length p + 4095)"
  have le: "off + length p \<le> length ?d" using assms(1) by (simp add: has_at_def)
  have hi: "?hi \<le> length ?d" "off + length p \<le> ?hi" "?lo \<le> off"
    using align_down_dvd [OF _ le] assms(2) True align_down_bounds [of "off + length p + 4095"]
      align_down_bounds(1) [of off] by (auto simp: direct_ok_def DIO_ALIGN_def)
  have "slice (slice ?d ?lo (?hi - ?lo)) (off - ?lo) (length p) = slice ?d off (length p)"
    using hi by (simp add: slice_def drop_take min_def)
  also have "\<dots> = p" using assms(1) by (simp add: has_at_def)
  finally have sl: "slice (slice ?d ?lo (?hi - ?lo)) (off - ?lo) (length p) = p" .
  have c: "off + length p + DIO_ALIGN - Suc 0 = off + length p + 4095" by (simp add: DIO_ALIGN_def)
  have "?lo + (?hi - ?lo) \<le> length ?d" "off - ?lo + length p \<le> ?hi - ?lo" using hi by linarith+
  then show ?thesis
    using True sl by (simp add: read_payload_def read_exact_at_def Let_def c del: add.commute)
next
  case False
  then show ?thesis using assms(1) by (simp add: read_payload_def read_exact_has_at)
qed

lemma read_payload_holds:
  assumes "holds (ff_data f) ptr p" and "direct_ok f"
  shows "read_payload f (dp_offset ptr + RECORD_HDR) (unat (dp_len ptr)) = Ok p"
proof -
  have "has_at (ff_data f) (dp_offset ptr + 4) p"
    using assms(1) by (simp add: holds_def frame_def has_at_append)
  from read_payload_has_at [OF this assms(2)] show ?thesis using assms(1) by (simp add: holds_def)
qed

lemma same_frame:
  assumes "has_at d off (frame b)" and "has_at d off (frame p)" and "length b \<le> 131068" and "length p \<le> 131068"
  shows "b = p"
proof -
  have h: "has_at d off (le_bytes 4 (length b))" "has_at d (off + 4) b" "has_at d off (le_bytes 4 (length p))" "has_at d (off + 4) p"
    using assms(1,2) by (simp_all add: frame_def has_at_append)
  then have "le_bytes 4 (length b) = le_bytes 4 (length p)" by (simp add: has_at_def)
  then have "le_val (le_bytes 4 (length b)) = le_val (le_bytes 4 (length p))" by (rule arg_cong)
  then have "length b = length p" unfolding le_val_le_bytes using assms(3,4) by simp
  then show ?thesis using h(2,4) by (simp add: has_at_def)
qed

lemma read_lazy_holds:
  assumes "holds (ff_data f) ptr p" and "direct_ok f" and "ahead_ok f"
  shows "read_lazy P f ptr = deserialize_subtree_lazy P p"
proof -
  have "b = p" if "read_ahead_take f (dp_unit ptr) = Some b" for b
  proof -
    have "(dp_unit ptr, b) \<in> set (ff_ahead f)"
      using that by (auto simp: read_ahead_take_def split: if_splits dest: map_of_SomeD)
    then have "holds (ff_data f) \<lparr>dp_unit = dp_unit ptr, dp_len = of_nat (length b)\<rparr> b"
      using assms(3) by (auto simp: ahead_ok_def kept_def)
    then show ?thesis using assms(1) same_frame by (auto simp: holds_def dp_offset_def)
  qed
  then show ?thesis
    using read_payload_holds [OF assms(1,2)] by (auto simp: read_lazy_def split: option.splits)
qed

lemma read_payload_rel:
  assumes "ff_rel Z f M" and "M ptr = Some p"
  shows "read_payload f (dp_offset ptr + RECORD_HDR) (unat (dp_len ptr)) = Ok p"
  using assms by (intro read_payload_holds) (auto simp: ff_rel_def)

text \<open>A map of records that can all be read back from the file.\<close>

definition readable :: "flat_file \<Rightarrow> (disk_ptr \<rightharpoonup> bytes) \<Rightarrow> bool" where
  "readable f M = (\<forall>ptr p. M ptr = Some p \<longrightarrow> length p \<le> MAX_RECORD_BYTES \<and>
     read_payload f (dp_offset ptr + RECORD_HDR) (unat (dp_len ptr)) = Ok p \<and>
     (\<forall>P. read_lazy P f ptr = deserialize_subtree_lazy P p))"

lemma readable_holds:
  assumes "\<And>ptr p. M ptr = Some p \<Longrightarrow> holds (ff_data f) ptr p" and "direct_ok f" and "ahead_ok f"
  shows "readable f M"
  unfolding readable_def using assms read_payload_holds read_lazy_holds by (metis holds_def)

lemma rel_readable: "ff_rel Z f M \<Longrightarrow> readable f M"
  by (rule readable_holds) (auto simp: ff_rel_def)

lemma durable_readable: "ff_rel Z f M \<Longrightarrow> readable f (fz_durable Z)"
  by (rule readable_holds) (auto simp: ff_rel_def durable_ok_def)

lemma snap_readable: "ff_rel Z f M \<Longrightarrow> pinned (ff_seg f) g \<Longrightarrow> fz_snaps Z g = Some m \<Longrightarrow> readable f m"
  by (rule readable_holds) (auto simp: ff_rel_def snaps_ok_def)

lemma read_lazy_rel: "readable f M \<Longrightarrow> M ptr = Some p \<Longrightarrow> read_lazy P f ptr = deserialize_subtree_lazy P p"
  by (simp add: readable_def)

section \<open>Frees, pins, checkpoints and the cache\<close>

lemma rec_run_inj: "inj_on dp_unit D \<Longrightarrow> inj_on (rec_run n) D"
  by (auto simp: inj_on_def rec_run_def word_unat_eq_iff)

text \<open>An operation of the allocator that moves no live run and hands out nothing.\<close>

lemma seg_frozen:
  assumes "durable_ok D f" and "snaps_ok S f" and "ahead_ok f"
    and "\<And>R. dur_inv (ff_seg f) R \<Longrightarrow> dur_inv a R" and "\<And>S. snap_inv (ff_seg f) S \<Longrightarrow> snap_inv a S"
    and "\<And>g. pinned a g \<Longrightarrow> pinned (ff_seg f) g"
    and "\<And>x. sealed a x = sealed (ff_seg f) x" and "ra_free a = ra_free (ff_seg f)"
  shows "durable_ok D (f\<lparr>ff_seg := a\<rparr>)" and "snaps_ok S (f\<lparr>ff_seg := a\<rparr>)" and "ahead_ok (f\<lparr>ff_seg := a\<rparr>)"
proof -
  show "durable_ok D (f\<lparr>ff_seg := a\<rparr>)" using assms(1,4) by (auto simp: durable_ok_def)
  show "snaps_ok S (f\<lparr>ff_seg := a\<rparr>)" using assms(2,5,6) unfolding snaps_ok_def by fastforce
  show "ahead_ok (f\<lparr>ff_seg := a\<rparr>)" using assms(3,7,8) by (auto simp: ahead_ok_def kept_def)
qed

lemma free_rel:
  assumes "ff_rel Z f M" and "M ptr = Some p"
  shows "ff_rel Z (ff_free f ptr) (M(ptr := None))"
proof -
  obtain n where n: "ra_inv (ff_seg f) (ff_end f) (rec_run n ` dom M)"
    using assms(1) by (auto simp: ff_rel_def space_ok_def ra_ok_def)
  have m: "rec_run n ptr \<in> rec_run n ` dom M" using assms(2) by (blast intro: domI)
  then have m': "Run (unat (dp_unit ptr)) (n ptr) (dp_units ptr) \<in> rec_run n ` dom M" by (simp add: rec_run_def)
  have "rec_run n ` dom M - {rec_run n ptr} = rec_run n ` (dom M - {ptr})"
    using inj_on_image_set_diff [OF rec_run_inj, of "dom M" "dom M" "{ptr}" n] assms
    by (auto simp: ff_rel_def)
  moreover have "ra_ok (ra_release (ff_seg f, ff_end f) (unat (dp_unit ptr)) (dp_units ptr)) (rec_run n ` dom M - {rec_run n ptr})"
    using rs.release_ok n m by (simp add: ra_ok_def rec_run_def)
  ultimately have sp: "space_ok (ff_free f ptr) (dom M - {ptr})"
    by (auto simp: space_ok_def ff_free_def ra_release_def intro: exI [of _ n])
  note F = free_facts [OF n m' refl]
  have "sealed (free (ff_seg f) (unat (dp_unit ptr)) (dp_units ptr)) x = sealed (ff_seg f) x" for x
    using F by (simp add: sealed_def)
  then have "durable_ok (fz_durable Z) (ff_free f ptr)" "snaps_ok (fz_snaps Z) (ff_free f ptr)" "ahead_ok (ff_free f ptr)"
    unfolding ff_free_def using assms(1) F(7,9) free_snap_dur [OF n m' refl]
    by (auto simp: ff_rel_def pinned_def intro!: seg_frozen)
  then show ?thesis
    using assms(1) F(3,7) sp by (auto simp: ff_rel_def ff_free_def direct_ok_def inj_on_diff)
qed

lemma seg_rel:
  assumes "ff_rel Z f M" and "\<And>R. ra_inv (ff_seg f) (ff_end f) R \<Longrightarrow> ra_inv a (ff_end f) R"
    and "ra_live a = ra_live (ff_seg f)" and "ra_head a = ra_head (ff_seg f)" and "ra_next a = ra_next (ff_seg f)"
    and "ra_free a = ra_free (ff_seg f)" and "durable_ok D (f\<lparr>ff_seg := a\<rparr>)" and "snaps_ok S (f\<lparr>ff_seg := a\<rparr>)"
  shows "ff_rel \<lparr>fz_durable = D, fz_snaps = S, fz_copies = C, fz_pins = ra_pins a\<rparr> (f\<lparr>ff_seg := a\<rparr>) M"
proof -
  have "sealed a x = sealed (ff_seg f) x" for x using assms(3-5) by (simp add: sealed_def)
  then show ?thesis
    using assms by (auto simp: ff_rel_def space_ok_def ra_ok_def direct_ok_def ahead_ok_def kept_def)
qed

lemma rel_inv:
  assumes "ff_rel Z f M"
  obtains n where "ra_inv (ff_seg f) (ff_end f) (rec_run n ` dom M)"
  using assms by (auto simp: ff_rel_def space_ok_def ra_ok_def)

lemma pin_rel:
  assumes "ff_rel Z f M" and "pin_snapshot f = (g, f')"
  shows "ff_rel (Z\<lparr>fz_snaps := (fz_snaps Z)(g \<mapsto> M), fz_pins := ra_pins (ff_seg f')\<rparr>) f' M" and "pinned (ff_seg f') g"
proof -
  obtain n where n: "ra_inv (ff_seg f) (ff_end f) (rec_run n ` dom M)" by (rule rel_inv [OF assms(1)])
  obtain a where a: "pin (ff_seg f) = (g, a)" "f' = f\<lparr>ff_seg := a\<rparr>"
    using assms(2) by (auto simp: pin_snapshot_def split: prod.splits)
  have "g = ra_pin_gen (ff_seg f) + 1" and e: "a = (ff_seg f)\<lparr>ra_pin_gen := g, ra_pins := pins_add g (ra_pins (ff_seg f))\<rparr>"
    using a(1) by (auto simp: pin_def Let_def)
  have pn: "pinned a h = (h = g \<or> pinned (ff_seg f) h)" for h by (auto simp: pinned_def e pins_add_keys)
  show "pinned (ff_seg f') g" using pn a(2) by simp
  note P = pin_inv [OF n a(1)]
  obtain m where m: "snap_inv (ff_seg f) (\<lambda>h. map_option (\<lambda>x. rec_run (m h) ` dom x) (fz_snaps Z h))"
    using assms(1) by (auto simp: ff_rel_def snaps_ok_def)
  have "(\<lambda>h. map_option (\<lambda>x. rec_run (m h) ` dom x) (fz_snaps Z h))(g \<mapsto> rec_run n ` dom M) =
      (\<lambda>h. map_option (\<lambda>x. rec_run ((m(g := n)) h) ` dom x) (((fz_snaps Z)(g \<mapsto> M)) h))" by auto
  then have "snap_inv a (\<lambda>h. map_option (\<lambda>x. rec_run ((m(g := n)) h) ` dom x) (((fz_snaps Z)(g \<mapsto> M)) h))"
    using P(2) [OF m] by simp
  moreover have "holds (ff_data f) ptr p" if "pinned a h" "((fz_snaps Z)(g \<mapsto> M)) h = Some x" "x ptr = Some p" for h x ptr p
    using that assms(1) pn by (auto simp: ff_rel_def snaps_ok_def split: if_splits)
  ultimately have s: "snaps_ok ((fz_snaps Z)(g \<mapsto> M)) (f\<lparr>ff_seg := a\<rparr>)" unfolding snaps_ok_def by auto
  have d: "durable_ok (fz_durable Z) (f\<lparr>ff_seg := a\<rparr>)" using assms(1) P(3) by (auto simp: ff_rel_def durable_ok_def)
  have "ff_rel \<lparr>fz_durable = fz_durable Z, fz_snaps = (fz_snaps Z)(g \<mapsto> M), fz_copies = fz_copies Z, fz_pins = ra_pins a\<rparr> (f\<lparr>ff_seg := a\<rparr>) M"
    by (rule seg_rel [OF assms(1) pin_inv(1) [OF _ a(1)] _ _ _ _ d s]) (simp_all add: e)
  then show "ff_rel (Z\<lparr>fz_snaps := (fz_snaps Z)(g \<mapsto> M), fz_pins := ra_pins (ff_seg f')\<rparr>) f' M" unfolding a(2) by (cases Z) simp
qed

lemma seg_rel_same:
  assumes "ff_rel Z f M" and "\<And>R. ra_inv (ff_seg f) (ff_end f) R \<Longrightarrow> ra_inv a (ff_end f) R"
    and "ra_live a = ra_live (ff_seg f)" and "ra_head a = ra_head (ff_seg f)" and "ra_next a = ra_next (ff_seg f)"
    and "ra_free a = ra_free (ff_seg f)" and "\<And>g. pinned a g \<Longrightarrow> pinned (ff_seg f) g"
    and "\<And>R. dur_inv (ff_seg f) R \<Longrightarrow> dur_inv a R" and "\<And>S. snap_inv (ff_seg f) S \<Longrightarrow> snap_inv a S"
  shows "ff_rel (Z\<lparr>fz_pins := ra_pins a\<rparr>) (f\<lparr>ff_seg := a\<rparr>) M"
proof -
  have "sealed a x = sealed (ff_seg f) x" for x using assms(3-5) by (simp add: sealed_def)
  then have "durable_ok (fz_durable Z) (f\<lparr>ff_seg := a\<rparr>)" "snaps_ok (fz_snaps Z) (f\<lparr>ff_seg := a\<rparr>)"
    using assms by (auto simp: ff_rel_def intro!: seg_frozen)
  from seg_rel [OF assms(1-6) this] show ?thesis by (cases Z) simp
qed

lemma unpin_rel:
  assumes "ff_rel Z f M"
  shows "ff_rel (Z\<lparr>fz_pins := ra_pins (unpin (ff_seg f) g)\<rparr>) (unpin_snapshot f g) M"
proof -
  obtain n where n: "ra_inv (ff_seg f) (ff_end f) (rec_run n ` dom M)" by (rule rel_inv [OF assms])
  then have "pins_ok (ff_seg f)" by (simp add: ra_inv_def)
  then obtain ps where ps: "unpin (ff_seg f) g = release_snap_hold ((ff_seg f)\<lparr>ra_pins := ps\<rparr>)" "fst ` set ps \<subseteq> fst ` set (ra_pins (ff_seg f))"
    by (rule unpin_pins)
  note F = ps(1) [unfolded release_snap_hold_def, THEN release_loop_facts(1)]
    ps(1) [unfolded release_snap_hold_def, THEN release_loop_facts(2)]
    ps(1) [unfolded release_snap_hold_def, THEN release_loop_facts(3)]
    ps(1) [unfolded release_snap_hold_def, THEN release_loop_facts(4)]
    ps(1) [unfolded release_snap_hold_def, THEN release_loop_facts(8)]
  note U = unpin_inv [OF n refl]
  show ?thesis
    unfolding unpin_snapshot_def
    by (rule seg_rel_same [OF assms unpin_inv(1) [OF _ refl] _ _ _ _ _ U(3) U(2)]) (use F ps(2) in \<open>auto simp: pinned_def\<close>)
qed

lemma pin_at_rel:
  assumes "ff_rel Z f M" and "pinned (ff_seg f) g"
  shows "ff_rel (Z\<lparr>fz_pins := ra_pins (pin_at (ff_seg f) g)\<rparr>) (pin_snapshot_at f g) M"
proof -
  obtain n where n: "ra_inv (ff_seg f) (ff_end f) (rec_run n ` dom M)" by (rule rel_inv [OF assms(1)])
  note A = pin_at_inv [OF n assms(2) refl]
  have "pinned (pin_at (ff_seg f) g) h \<Longrightarrow> pinned (ff_seg f) h" for h
    using assms(2) by (auto simp: pin_at_def pinned_def pins_add_keys)
  then show ?thesis
    unfolding pin_snapshot_at_def
    by (intro seg_rel_same [OF assms(1) pin_at_inv(1) [OF _ assms(2) refl] _ _ _ _ _ A(3) A(2)]) (simp_all add: pin_at_def)
qed

lemma persisted_rel:
  assumes "ff_rel Z f M"
  shows "ff_rel (Z\<lparr>fz_durable := M\<rparr>) (f\<lparr>ff_seg := on_persisted (ff_seg f)\<rparr>) M"
proof -
  let ?a = "on_persisted (ff_seg f)"
  obtain n where n: "ra_inv (ff_seg f) (ff_end f) (rec_run n ` dom M)" by (rule rel_inv [OF assms])
  note P = persist_inv [OF n refl]
  have pn: "pinned ?a g = pinned (ff_seg f) g" for g by (simp add: pinned_def on_persisted_def Let_def)
  have "durable_ok M (f\<lparr>ff_seg := ?a\<rparr>)" using P(2) assms by (auto simp: durable_ok_def ff_rel_def)
  moreover have "snaps_ok (fz_snaps Z) (f\<lparr>ff_seg := ?a\<rparr>)"
    using assms P(3) pn unfolding ff_rel_def snaps_ok_def by auto
  ultimately have "ff_rel \<lparr>fz_durable = M, fz_snaps = fz_snaps Z, fz_copies = fz_copies Z, fz_pins = ra_pins ?a\<rparr> (f\<lparr>ff_seg := ?a\<rparr>) M"
    by (intro seg_rel [OF assms persist_inv(1) [OF _ refl]]) (simp_all add: on_persisted_def Let_def)
  moreover have "ra_pins ?a = fz_pins Z" using assms by (simp add: on_persisted_def Let_def ff_rel_def)
  ultimately show ?thesis by (cases Z) simp
qed

lemma live_kept:
  assumes "ff_rel Z f M" and "M ptr = Some p"
  shows "kept f ptr p"
proof -
  obtain n where n: "ra_inv (ff_seg f) (ff_end f) (rec_run n ` dom M)" by (rule rel_inv [OF assms(1)])
  have m: "rec_run n ptr \<in> rec_run n ` dom M" using assms(2) by (blast intro: domI)
  then show ?thesis
    using n live_not_parked [OF n m] assms unfolding kept_def
    by (intro exI [of _ n]) (auto simp: ra_inv_def recs_ok_def parked_def ff_rel_def)
qed

lemma set_update_entries: "(u, b) \<in> set (AList.update k v al) \<Longrightarrow> (u, b) = (k, v) \<or> (u, b) \<in> set al"
  by (induction al) (auto split: if_splits)

lemma ahead_insert_rel:
  assumes "ff_rel Z f M" and "M ptr = Some p"
  shows "ff_rel Z (read_ahead_insert f (dp_unit ptr) p) M"
proof -
  have h: "holds (ff_data f) ptr p" using assms by (auto simp: ff_rel_def)
  then have "unat (dp_len ptr) = unat (of_nat (length p) :: u32)" by (simp add: holds_def unat_word32)
  then have "ptr = \<lparr>dp_unit = dp_unit ptr, dp_len = of_nat (length p)\<rparr>" by (simp add: word_unat_eq_iff)
  then have k: "kept f \<lparr>dp_unit = dp_unit ptr, dp_len = of_nat (length p)\<rparr> p" using live_kept [OF assms] by simp
  have "kept f \<lparr>dp_unit = u, dp_len = of_nat (length b)\<rparr> b" if "(u, b) \<in> set (AList.update (dp_unit ptr) p (ff_ahead f))" for u b
    using set_update_entries [OF that] k assms(1) by (auto simp: ff_rel_def ahead_ok_def)
  then have "ahead_ok (read_ahead_insert f (dp_unit ptr) p)"
    by (auto simp: ahead_ok_def read_ahead_insert_def Let_def kept_def)
  then show ?thesis
    using assms(1)
    by (simp add: ff_rel_def read_ahead_insert_def Let_def space_ok_def direct_ok_def durable_ok_def snaps_ok_def)
qed

lemma ahead_clear_rel:
  assumes "ff_rel Z f M"
  shows "ff_rel Z (read_ahead_clear f) M"
proof -
  have "ff_rel Z (f\<lparr>ff_ahead := [], ff_ahead_len := 0\<rparr>) M"
    using assms by (simp add: ff_rel_def space_ok_def direct_ok_def ahead_ok_def durable_ok_def snaps_ok_def)
  from drain_rel [OF this] show ?thesis by (simp add: drain_staged_if_unaliased_def read_ahead_clear_def)
qed

lemma new_rel: "ff_rel fz_none (ff_new direct) Map.empty"
  using g_inv_init
  by (auto simp: ff_rel_def ff_new_def space_ok_def ra_ok_def g_inv_def g_init_def direct_ok_def ahead_ok_def
      ra_default_def durable_ok_def snaps_ok_def fz_none_def snap_inv_def)

section \<open>Histories\<close>

text \<open>
  A history of the file next to the finite map it stands for and what is frozen.
  Every operation of the file is a step; failed writes end a history, as their
  caller aborts.
\<close>

inductive ff_hist :: "frozen \<Rightarrow> flat_file \<Rightarrow> (disk_ptr \<rightharpoonup> bytes) \<Rightarrow> bool" where
  h_new: "ff_hist fz_none (ff_new direct) Map.empty"
| h_write: "ff_hist Z f M \<Longrightarrow> write_payload f p = (Ok ptr, f') \<Longrightarrow> ff_hist Z f' (M(ptr \<mapsto> p))"
| h_batch: "ff_hist Z f M \<Longrightarrow> write_batch f ps = (Ok ptrs, f') \<Longrightarrow> ff_hist Z f' (M(ptrs [\<mapsto>] ps))"
| h_free: "ff_hist Z f M \<Longrightarrow> ptr \<in> dom M \<Longrightarrow> ff_hist Z (ff_free f ptr) (M(ptr := None))"
| h_pin: "ff_hist Z f M \<Longrightarrow> pin_snapshot f = (g, f') \<Longrightarrow> ff_hist (Z\<lparr>fz_snaps := (fz_snaps Z)(g \<mapsto> M), fz_pins := ra_pins (ff_seg f')\<rparr>) f' M"
| h_pin_at: "ff_hist Z f M \<Longrightarrow> pinned (ff_seg f) g \<Longrightarrow> ff_hist (Z\<lparr>fz_pins := ra_pins (pin_at (ff_seg f) g)\<rparr>) (pin_snapshot_at f g) M"
| h_unpin: "ff_hist Z f M \<Longrightarrow> ff_hist (Z\<lparr>fz_pins := ra_pins (unpin (ff_seg f) g)\<rparr>) (unpin_snapshot f g) M"
| h_persist: "ff_hist Z f M \<Longrightarrow> ff_hist (Z\<lparr>fz_durable := M\<rparr>) (f\<lparr>ff_seg := on_persisted (ff_seg f)\<rparr>) M"
| h_ahead: "ff_hist Z f M \<Longrightarrow> M ptr = Some p \<Longrightarrow> ff_hist Z (read_ahead_insert f (dp_unit ptr) p) M"
| h_clear: "ff_hist Z f M \<Longrightarrow> ff_hist Z (read_ahead_clear f) M"

lemma hist_rel: "ff_hist Z f M \<Longrightarrow> ff_rel Z f M"
proof (induction rule: ff_hist.induct)
  case (h_batch Z f M ps ptrs f')
  then show ?case using write_batch_rel by blast
next
  case (h_write Z f M p ptr f')
  then show ?case by (intro write_payload_rel(1))
next
  case (h_free Z f M ptr)
  then show ?case using free_rel by blast
qed (auto intro: new_rel pin_rel(1) pin_at_rel unpin_rel persisted_rel
    ahead_insert_rel ahead_clear_rel)

section \<open>The parallel writer\<close>

definition run_of :: "planned_run \<Rightarrow> run" where
  "run_of r = Run (pr_base r) (pr_units r) (run_len (pr_payloads r))"

definition pr_write :: "planned_run \<Rightarrow> bytes \<Rightarrow> bytes" where
  "pr_write r d = (case write_planned d r of Ok x \<Rightarrow> x | Err e \<Rightarrow> d)"

lemma write_at_commute:
  assumes "p + length x \<le> q \<or> q + length y \<le> p"
  shows "write_at (write_at d p x) q y = write_at (write_at d q y) p x"
proof (rule nth_equalityI)
  fix i
  assume "i < length (write_at (write_at d p x) q y)"
  then show "write_at (write_at d p x) q y ! i = write_at (write_at d q y) p x ! i"
    using assms by (auto simp: write_at_nth less_max_iff_disj)
qed auto

lemma write_planned_Ok:
  assumes "run_len (pr_payloads r) \<le> pr_units r"
  obtains buf where "length buf = pr_units r * 256" "\<And>d. write_planned d r = Ok (write_at d (pr_base r * 256) buf)"
    "\<And>d. pr_write r d = write_at d (pr_base r * 256) buf"
    "fill_run (replicate (pr_units r * 256) 0) 0 (pr_payloads r) = Ok buf"
proof -
  obtain buf where "fill_run (replicate (pr_units r * 256) 0) 0 (pr_payloads r) = Ok buf" "length buf = pr_units r * 256"
    using fill_run_fresh [OF assms] by auto
  then show thesis by (intro that [of buf]) (simp_all add: write_planned_def pr_write_def)
qed

lemma write_all_planned:
  assumes "\<forall>r \<in> set rs. run_len (pr_payloads r) \<le> pr_units r"
  shows "res_foldM write_planned d rs = Ok (fold pr_write rs d)"
  using assms
proof (induction rs arbitrary: d)
  case (Cons r rs)
  then have "run_len (pr_payloads r) \<le> pr_units r" by simp
  then obtain buf where "\<And>d. write_planned d r = Ok (write_at d (pr_base r * 256) buf)"
    "\<And>d. pr_write r d = write_at d (pr_base r * 256) buf" using write_planned_Ok by metis
  then show ?case using Cons by simp
qed simp

lemma pr_write_commute:
  assumes "run_len (pr_payloads r) \<le> pr_units r" and "run_len (pr_payloads q) \<le> pr_units q"
    and "r = q \<or> apart (run_of r) (run_of q)"
  shows "pr_write r \<circ> pr_write q = pr_write q \<circ> pr_write r"
proof -
  obtain b where b: "length b = pr_units r * 256" "\<And>d. pr_write r d = write_at d (pr_base r * 256) b"
    using write_planned_Ok [OF assms(1)] by metis
  obtain c where c: "length c = pr_units q * 256" "\<And>d. pr_write q d = write_at d (pr_base q * 256) c"
    using write_planned_Ok [OF assms(2)] by metis
  show ?thesis
  proof (cases "r = q")
    case False
    then have "pr_base q * 256 + length c \<le> pr_base r * 256 \<or> pr_base r * 256 + length b \<le> pr_base q * 256"
      using assms(3) b(1) c(1) by (auto simp: apart_def run_of_def)
    then show ?thesis using write_at_commute by (intro ext) (simp add: b(2) c(2))
  qed simp
qed

lemma plan_run_cases:
  assumes "plan_runs f (p # ps) = (Ok rs, g)" and "\<forall>q \<in> set (p # ps). length q \<le> 131068"
  obtains run rest base seg e rs2 where "p # ps = run @ rest" "run \<noteq> []"
    "pack_run True 0 (p # ps) = (run_len run * 256, run, rest)"
    "alloc (ff_seg f) (padded_units f (run_len run)) (run_len run) (ff_end f) = Ok (base, seg, e)"
    "\<not> 2 ^ 32 - 1 < base + padded_units f (run_len run)"
    "plan_runs (f\<lparr>ff_seg := seg, ff_end := e\<rparr>) rest = (Ok rs2, g)"
    "rs = \<lparr>pr_base = base, pr_units = padded_units f (run_len run), pr_payloads = run\<rparr> # rs2"
proof -
  obtain rb run rest where pk: "pack_run True 0 (p # ps) = (rb, run, rest)" by (metis prod_cases3)
  have run: "p # ps = run @ rest" "run \<noteq> []" "rb = run_len run * 256"
    using pack_run_length [OF pk] pack_run_progress [OF pk] pack_run_facts [OF pk assms(2)] by auto
  obtain base seg e rs2 where
    "alloc (ff_seg f) (padded_units f (run_len run)) (run_len run) (ff_end f) = Ok (base, seg, e)"
    "\<not> 2 ^ 32 - 1 < base + padded_units f (run_len run)"
    "plan_runs (f\<lparr>ff_seg := seg, ff_end := e\<rparr>) rest = (Ok rs2, g)"
    "rs = \<lparr>pr_base = base, pr_units = padded_units f (run_len run), pr_payloads = run\<rparr> # rs2"
    using assms(1) pk run(3)
    by (auto simp: Let_def res_simps simp del: pack_run.simps split: if_splits res.splits prod.splits)
  then show thesis using that pk run by metis
qed

lemma plan_runs_apart:
  assumes "plan_runs f ps = (Ok rs, g)" and "ra_inv (ff_seg f) (ff_end f) R" and "\<forall>q \<in> set ps. length q \<le> 131068"
  shows "(\<forall>r \<in> set rs. run_len (pr_payloads r) \<le> pr_units r \<and> (\<forall>x \<in> R. apart (run_of r) x)) \<and>
    sorted_wrt (\<lambda>r q. apart (run_of q) (run_of r)) rs"
  using assms
proof (induction "length ps" arbitrary: f ps rs R rule: less_induct)
  case less
  show ?case
  proof (cases ps)
    case Nil
    then show ?thesis using less.prems(1) by simp
  next
    case (Cons p qs)
    obtain run rest base seg e rs2 where P: "p # qs = run @ rest" "run \<noteq> []"
      "alloc (ff_seg f) (padded_units f (run_len run)) (run_len run) (ff_end f) = Ok (base, seg, e)"
      "plan_runs (f\<lparr>ff_seg := seg, ff_end := e\<rparr>) rest = (Ok rs2, g)"
      "rs = \<lparr>pr_base = base, pr_units = padded_units f (run_len run), pr_payloads = run\<rparr> # rs2"
      using less.prems(1,3) unfolding Cons by (elim plan_run_cases) metis
    let ?n = "padded_units f (run_len run)" and ?x = "Run base (padded_units f (run_len run)) (run_len run)"
    have n: "0 < run_len run" "run_len run \<le> ?n" using run_len_pos [OF P(2)] padded_bounds(1) by auto
    have "ra_reserve (ff_seg f, ff_end f) ?n (run_len run) = Ok (base, seg, e)" by (simp add: ra_reserve_def P(3))
    then have A: "ra_inv seg e (insert ?x R)" "\<forall>y \<in> R. apart ?x y"
      using rs.reserve_ok [of "(ff_seg f, ff_end f)" R] less.prems(2) n by (auto simp: ra_ok_def)
    have "length rest < length ps" using P(1,2) Cons by (cases run) auto
    from less.hyps [OF this P(4)] A(1) less.prems(3) P(1) Cons
    have "(\<forall>r \<in> set rs2. run_len (pr_payloads r) \<le> pr_units r \<and> (\<forall>x \<in> insert ?x R. apart (run_of r) x)) \<and>
      sorted_wrt (\<lambda>r q. apart (run_of q) (run_of r)) rs2" by auto
    then show ?thesis using A(2) n P(5) by (auto simp: run_of_def)
  qed
qed

lemma plan_runs_data:
  "plan_runs (f\<lparr>ff_data := d\<rparr>) ps = (case plan_runs f ps of (r, g) \<Rightarrow> (r, g\<lparr>ff_data := d\<rparr>))"
proof (induction f ps rule: plan_runs.induct)
  case (2 f p ps)
  have pad: "padded_units (f\<lparr>ff_data := d\<rparr>) n = padded_units f n" for n by (intro padded_cong) simp
  obtain rb run rest where pk: "pack_run True 0 (p # ps) = (rb, run, rest)" by (metis prod_cases3)
  let ?n = "padded_units f (rb div ADDR_UNIT)"
  show ?case
  proof (cases "alloc (ff_seg f) ?n (rb div ADDR_UNIT) (ff_end f)")
    case (Ok x)
    then obtain base seg e where al: "alloc (ff_seg f) ?n (rb div ADDR_UNIT) (ff_end f) = Ok (base, seg, e)"
      by (metis prod_cases3)
    show ?thesis
    proof (cases "2 ^ 32 - 1 < base + ?n")
      case False
      have "plan_runs (f\<lparr>ff_seg := seg, ff_end := e, ff_data := d\<rparr>) rest =
        (case plan_runs (f\<lparr>ff_seg := seg, ff_end := e\<rparr>) rest of (r, g) \<Rightarrow> (r, g\<lparr>ff_data := d\<rparr>))"
        using 2(1) [OF pk [symmetric] refl refl refl al refl refl refl False] .
      then have "plan_runs (f\<lparr>ff_data := d, ff_seg := seg, ff_end := e\<rparr>) rest =
        (case plan_runs (f\<lparr>ff_seg := seg, ff_end := e\<rparr>) rest of (r, g) \<Rightarrow> (r, g\<lparr>ff_data := d\<rparr>))" by (cases f) simp
      then show ?thesis
        using False al pk by (simp add: pad Let_def del: pack_run.simps split: prod.splits)
    qed (use al pk in \<open>simp add: pad Let_def del: pack_run.simps\<close>)
  qed (use pk in \<open>simp add: pad Let_def del: pack_run.simps\<close>)
qed simp

definition plan_ptrs :: "planned_run list \<Rightarrow> disk_ptr list" where
  "plan_ptrs rs = concat (map (\<lambda>r. run_ptrs (pr_base r) 0 (pr_payloads r)) rs)"

lemma write_runs_plan:
  assumes "write_runs f ps = (Ok ptrs, f')" and "\<forall>q \<in> set ps. length q \<le> 131068"
  shows "\<exists>rs g. plan_runs f ps = (Ok rs, g) \<and> ff_data g = ff_data f \<and> ptrs = plan_ptrs rs \<and>
    f' = g\<lparr>ff_data := fold pr_write rs (ff_data f)\<rparr>"
  using assms
proof (induction f ps arbitrary: ptrs f' rule: write_runs.induct)
  case (1 f)
  then show ?case by (simp add: plan_ptrs_def)
next
  case (2 f p ps)
  obtain rb run rest where pk: "pack_run True 0 (p # ps) = (rb, run, rest)" by (metis prod_cases3)
  have run: "p # ps = run @ rest" "rb = run_len run * 256"
    using pack_run_length [OF pk] pack_run_facts [OF pk 2(3)] by auto
  let ?n = "padded_units f (run_len run)"
  obtain base seg e buf ptrs2 where W: "alloc (ff_seg f) ?n (run_len run) (ff_end f) = Ok (base, seg, e)"
    "\<not> 2 ^ 32 - 1 < base + ?n" "fill_run (replicate (?n * 256) 0) 0 run = Ok buf"
    "write_runs (f\<lparr>ff_seg := seg, ff_end := e, ff_data := write_at (ff_data f) (base * 256) buf\<rparr>) rest = (Ok ptrs2, f')"
    "ptrs = run_ptrs base 0 run @ ptrs2"
    using 2(2) pk run(2)
    by (auto simp: Let_def res_simps simp del: pack_run.simps split: if_splits res.splits prod.splits)
  let ?r = "\<lparr>pr_base = base, pr_units = ?n, pr_payloads = run\<rparr>"
  let ?f = "f\<lparr>ff_seg := seg, ff_end := e\<rparr>" and ?d = "write_at (ff_data f) (base * 256) buf"
  have sz: "\<forall>q \<in> set rest. length q \<le> 131068" using 2(3) run(1) by auto
  obtain rs g where R: "plan_runs (?f\<lparr>ff_data := ?d\<rparr>) rest = (Ok rs, g)" "ff_data g = ?d"
    "ptrs2 = plan_ptrs rs" "f' = g\<lparr>ff_data := fold pr_write rs ?d\<rparr>"
    using 2(1) [OF pk [symmetric] refl refl refl _ refl refl refl _ _ _ sz, of base seg e buf ptrs2 f'] W(1-4) run(2) by auto
  obtain g' where g: "plan_runs ?f rest = (Ok rs, g')" "g = g'\<lparr>ff_data := ?d\<rparr>"
    using R(1) unfolding plan_runs_data by (auto split: prod.splits)
  have "plan_runs (?f\<lparr>ff_data := ff_data f\<rparr>) rest = (Ok rs, g'\<lparr>ff_data := ff_data f\<rparr>)"
    unfolding plan_runs_data g(1) by simp
  then have g': "plan_runs ?f rest = (Ok rs, g'\<lparr>ff_data := ff_data f\<rparr>)" by simp
  have pl: "plan_runs f (p # ps) = (Ok (?r # rs), g'\<lparr>ff_data := ff_data f\<rparr>)"
    using pk run(2) W(1,2) g' by (simp add: Let_def del: pack_run.simps)
  have "pr_write ?r (ff_data f) = ?d" using W(3) by (simp add: pr_write_def write_planned_def)
  then have "f' = g'\<lparr>ff_data := ff_data f\<rparr>\<lparr>ff_data := fold pr_write (?r # rs) (ff_data f)\<rparr>"
    using R(4) g(2) by simp
  moreover have "ptrs = plan_ptrs (?r # rs)" using W(5) R(3) by (simp add: plan_ptrs_def)
  moreover have "ff_data (g'\<lparr>ff_data := ff_data f\<rparr>) = ff_data f" by simp
  ultimately show ?case using pl by blast
qed

lemma parallel_equals_batch:
  assumes "ff_rel Z f M" and "write_batch f ps = (Ok ptrs, f')" and "\<And>rs. mset (order rs) = mset rs"
  shows "write_batch_parallel order f ps = (Ok ptrs, f')"
proof -
  let ?f = "drain_staged_if_unaliased f"
  have W: "write_runs ?f ps = (Ok ptrs, f')" and sz: "\<forall>p \<in> set ps. length p \<le> 131068"
    using assms(2) by (auto simp: write_batch_def Let_def list_ex_iff split: if_splits)
  obtain rs g where P: "plan_runs ?f ps = (Ok rs, g)" "ff_data g = ff_data ?f" "ptrs = plan_ptrs rs"
    "f' = g\<lparr>ff_data := fold pr_write rs (ff_data ?f)\<rparr>"
    using write_runs_plan [OF W sz] by blast
  obtain n where "ra_inv (ff_seg ?f) (ff_end ?f) (rec_run n ` dom M)"
    using drain_rel [OF assms(1)] by (auto simp: ff_rel_def space_ok_def ra_ok_def)
  note A = plan_runs_apart [OF P(1) this sz]
  have st: "set (order rs) = set rs" using assms(3) [of rs] by (metis set_mset_mset)
  have "r = q \<or> apart (run_of r) (run_of q)" if "r \<in> set rs" "q \<in> set rs" for r q
    using A that by (metis apart_sym in_set_conv_nth linorder_neqE_nat sorted_wrt_iff_nth_less)
  then have "fold pr_write rs = fold pr_write (order rs)"
    using A pr_write_commute assms(3) by (intro fold_multiset_equiv) auto
  then have "res_foldM write_planned (ff_data ?f) (order rs) = Ok (fold pr_write rs (ff_data ?f))"
    using write_all_planned [of "order rs"] A st by auto
  moreover have "\<not> list_ex (\<lambda>p. MAX_RECORD_BYTES < length p) ps" using sz by (auto simp: list_ex_iff)
  ultimately show ?thesis
    using P by (simp add: write_batch_parallel_def Let_def plan_ptrs_def)
qed

text \<open>When the parallel writer succeeds, the sequential one does.\<close>

lemma plan_then_write:
  assumes "plan_runs f ps = (Ok rs, g)" and "\<forall>q \<in> set ps. length q \<le> 131068"
  shows "\<exists>ptrs f'. write_runs f ps = (Ok ptrs, f')"
  using assms
proof (induction "length ps" arbitrary: f ps rs g rule: less_induct)
  case less
  show ?case
  proof (cases ps)
    case (Cons p qs)
    obtain run rest base seg e rs2 where P: "p # qs = run @ rest" "run \<noteq> []"
      "pack_run True 0 (p # qs) = (run_len run * 256, run, rest)"
      "alloc (ff_seg f) (padded_units f (run_len run)) (run_len run) (ff_end f) = Ok (base, seg, e)"
      "\<not> 2 ^ 32 - 1 < base + padded_units f (run_len run)"
      "plan_runs (f\<lparr>ff_seg := seg, ff_end := e\<rparr>) rest = (Ok rs2, g)"
      using less.prems(1,2) unfolding Cons by (elim plan_run_cases) metis
    obtain buf where b: "fill_run (replicate (padded_units f (run_len run) * 256) 0) 0 run = Ok buf"
      using fill_run_fresh [OF padded_bounds(1)] by blast
    let ?f = "f\<lparr>ff_seg := seg, ff_end := e\<rparr>" and ?d = "write_at (ff_data f) (base * 256) buf"
    have "plan_runs (?f\<lparr>ff_data := ?d\<rparr>) rest = (Ok rs2, g\<lparr>ff_data := ?d\<rparr>)" unfolding plan_runs_data P(6) by simp
    moreover have "length rest < length ps" using P(1,2) Cons by (cases run) auto
    moreover have "\<forall>q \<in> set rest. length q \<le> 131068" using less.prems(2) P(1) Cons by auto
    ultimately obtain ptrs f' where "write_runs (?f\<lparr>ff_data := ?d\<rparr>) rest = (Ok ptrs, f')" using less.hyps by blast
    then have "write_runs f (p # qs) = (Ok (run_ptrs base 0 run @ ptrs), f')"
      using P(3-5) b by (simp add: Let_def res_map_def del: pack_run.simps)
    then show ?thesis using Cons by blast
  qed simp
qed

lemma parallel_batch:
  assumes "ff_rel Z f M" and "write_batch_parallel order f ps = (Ok ptrs, f')" and "\<And>rs. mset (order rs) = mset rs"
  shows "write_batch f ps = (Ok ptrs, f')"
proof -
  let ?f = "drain_staged_if_unaliased f"
  have sz: "\<not> list_ex (\<lambda>p. MAX_RECORD_BYTES < length p) ps"
    using assms(2) by (auto simp: write_batch_parallel_def Let_def)
  then obtain rs g where "plan_runs ?f ps = (Ok rs, g)"
    using assms(2) by (auto simp: write_batch_parallel_def Let_def split: prod.splits res.splits)
  then obtain ptrs' g' where "write_runs ?f ps = (Ok ptrs', g')"
    using plan_then_write [of ?f ps rs g] sz by (auto simp: list_ex_iff not_less)
  then have w: "write_batch f ps = (Ok ptrs', g')" using sz by (simp add: write_batch_def Let_def)
  from parallel_equals_batch [OF assms(1) this assms(3)] show ?thesis using w assms(2) by simp
qed

end
