(* ===== verification/StoreSpec.thy ===== *)
theory StoreSpec
  imports FlatProofs Demo
begin

text \<open>
  What the space allocator and the record file promise, stated over the
  operations of the code, with a concrete instance of each statement.
\<close>

section \<open>The allocator\<close>

text \<open>A small reachable state: one record of two units, checkpointed, then a snapshot.\<close>

definition demo_ra :: region_alloc where
  "demo_ra = \<lparr>ra_live = [2], ra_epoch_of = [0], ra_epoch = 0, ra_head = 0, ra_next = 2,
     ra_free = [], ra_fresh = [False], ra_quarantine = [], ra_evac_pinned = [False], ra_pin_gen = 1,
     ra_pins = [(1, 1)], ra_staged = [], ra_hold = []\<rparr>"

definition demo_g :: gstate where
  "demo_g = \<lparr>g_ra = demo_ra, g_end = 1, g_recs = {Run 0 2 2}, g_snaps = [1 \<mapsto> {Run 0 2 2}],
     g_durable = {Run 0 2 2}\<rparr>"

lemmas alloc_eval = alloc_def open_new_head_def ensure_region_def resize_def div_ceil_def Let_def
  REGION_UNITS_def REGION_PAGES_def UNITS_PER_PAGE_def PAGE_def ADDR_UNIT_def

lemma demo_g_reachable: "reachable demo_g"
proof -
  define a1 where "a1 = ra_default\<lparr>ra_live := [2], ra_epoch_of := [0], ra_next := 2, ra_fresh := [True], ra_evac_pinned := [False]\<rparr>"
  define s1 where "s1 = g_init\<lparr>g_ra := a1, g_end := 1, g_recs := insert (Run 0 2 2) (g_recs g_init)\<rparr>"
  define s2 where "s2 = s1\<lparr>g_ra := on_persisted (g_ra s1), g_durable := g_recs s1\<rparr>"
  have "alloc (g_ra g_init) 2 2 (g_end g_init) = Ok (0, a1, 1)"
    by (simp add: g_init_def ra_default_def alloc_eval a1_def)
  from step_alloc [OF this] have 1: "ra_step g_init s1" by (simp add: s1_def)
  have 2: "ra_step s1 s2" unfolding s2_def by (rule step_persist)
  have "pin (g_ra s2) = (1, demo_ra)"
    by (simp add: s2_def s1_def a1_def pin_def pins_add_def on_persisted_def ra_default_def demo_ra_def Let_def)
  from step_pin [OF this] have 3: "ra_step s2 demo_g" by (simp add: demo_g_def g_init_def s2_def s1_def)
  show ?thesis
    unfolding reachable_def using 1 2 3 by (meson rtranclp.rtrancl_into_rtrancl rtranclp.rtrancl_refl)
qed

text \<open>C36: in every reachable state the units handed out by an allocation are
  disjoint from every live record, from every record a pinned snapshot can still
  read, and from every record of the last durable checkpoint.\<close>

theorem alloc_never_overwrites:
  assumes "reachable s" and "alloc (g_ra s) n l (g_end s) = Ok (u, a', e')" and "0 < l" and "l \<le> n"
    and "x \<in> g_recs s \<or> x \<in> g_durable s \<or> (\<exists>g F. pinned (g_ra s) g \<and> g_snaps s g = Some F \<and> x \<in> F)"
  shows "apart (Run u n l) x"
proof -
  have I: "ra_inv (g_ra s) (g_end s) (g_recs s)" "snap_inv (g_ra s) (g_snaps s)" "dur_inv (g_ra s) (g_durable s)"
    using g_inv_reachable [OF assms(1)] by (auto simp: g_inv_def)
  have "sealed (g_ra s) x \<and> run_region x \<notin> set (ra_free (g_ra s))"
    using assms(5)
  proof (elim disjE exE conjE)
    assume "x \<in> g_recs s"
    then show ?thesis using I(1) live_not_parked [OF I(1)] by (auto simp: ra_inv_def recs_ok_def parked_def)
  next
    assume "x \<in> g_durable s"
    then show ?thesis using I(3) by (auto simp: dur_inv_def)
  next
    fix g F
    assume "pinned (g_ra s) g" "g_snaps s g = Some F" "x \<in> F"
    then show ?thesis using I(2) unfolding snap_inv_def by auto
  qed
  then show ?thesis using alloc_inv(2) [OF I(1) assms(2-4)] by blast
qed

theorem alloc_never_overwrites_witness:
  "apart (Run 2 16 3) (Run 0 2 2)"
proof -
  have "alloc (g_ra demo_g) 16 3 (g_end demo_g) = Ok (2, demo_ra\<lparr>ra_next := 18, ra_live := [5]\<rparr>, 1)"
    by (simp add: demo_g_def demo_ra_def alloc_eval)
  then show ?thesis
    by (rule alloc_never_overwrites [OF demo_g_reachable]) (simp_all add: demo_g_def)
qed

text \<open>C39: the liveness accounting is exact: in every reachable state the live
  count of a region is the sum of the live units of the records in it, records
  stay inside one region and do not overlap, and a region waiting for reuse (on
  the free, staged, quarantine or hold list) is on exactly one list, holds no
  live record and is not the head.\<close>

theorem liveness_accounting:
  assumes "reachable s"
  shows "(\<forall>r < length (ra_live (g_ra s)). ra_live (g_ra s) ! r = sum run_live {x \<in> g_recs s. run_region x = r})
    \<and> (\<forall>x \<in> g_recs s. run_ok x) \<and> (\<forall>x \<in> g_recs s. \<forall>y \<in> g_recs s. x \<noteq> y \<longrightarrow> apart x y)
    \<and> distinct (parked (g_ra s))
    \<and> (\<forall>r \<in> set (parked (g_ra s)). r \<noteq> ra_head (g_ra s) \<and> (\<forall>x \<in> g_recs s. run_region x \<noteq> r))"
proof -
  have I: "ra_inv (g_ra s) (g_end s) (g_recs s)" using g_inv_reachable [OF assms] by (simp add: g_inv_def)
  have "run_region x \<noteq> r" if "r \<in> set (parked (g_ra s))" "x \<in> g_recs s" for r x
    using live_not_parked [OF I that(2)] that(1) by blast
  then show ?thesis using I by (auto simp: ra_inv_def recs_ok_def parked_ok_def sealed_def)
qed

theorem liveness_accounting_witness:
  "ra_live (g_ra demo_g) ! 0 = sum run_live {x \<in> g_recs demo_g. run_region x = 0}"
  using liveness_accounting [OF demo_g_reachable] by (simp add: demo_g_def demo_ra_def)

text \<open>An allocation of at most one region's worth of units always succeeds;
  the run it returns does not straddle a region and lies below the new end of
  the file.\<close>

theorem alloc_total:
  assumes "reachable s" and "0 < l" and "l \<le> n" and "n \<le> REGION_UNITS"
  shows "\<exists>u a' e'. alloc (g_ra s) n l (g_end s) = Ok (u, a', e') \<and> g_end s \<le> e' \<and>
    region_of_unit u = region_of_unit (u + n - 1) \<and> u + n \<le> e' * UNITS_PER_PAGE"
proof -
  have I: "ra_inv (g_ra s) (g_end s) (g_recs s)" using g_inv_reachable [OF assms(1)] by (simp add: g_inv_def)
  obtain u a' e' where al: "alloc (g_ra s) n l (g_end s) = Ok (u, a', e')"
    using rs.reserve_total [of n "(g_ra s, g_end s)" l] assms(4) by (auto simp: ra_reserve_def res_simps)
  have "run_ok (Run u n l)" by (rule alloc_inv(9) [OF I al assms(2,3)])
  then have "u + n - 1 < (region_of_unit u + 1) * 512" "region_of_unit u * 512 \<le> u + n - 1"
    using assms(2,3) by (auto simp: run_ok_def run_region_def region_of_unit_def)
  then have "region_of_unit u = region_of_unit (u + n - 1)" using region_of_unit_iff by metis
  moreover have e: "e' = max (g_end s) (div_ceil (u + n) 64)" using alloc_room [OF al] by simp
  then have "u + n \<le> e' * 64" by (auto simp: div_ceil_def max_def)
  ultimately show ?thesis using al e by auto
qed

theorem alloc_total_witness:
  "\<exists>u a' e'. alloc (g_ra demo_g) 512 400 (g_end demo_g) = Ok (u, a', e') \<and> 512 \<le> e' * UNITS_PER_PAGE"
  using alloc_total [OF demo_g_reachable, of 400 512] by auto

text \<open>garbage collection only picks regions worth collecting: at most the
  requested number, each once, each with some live data but at most the cap,
  never the head region, a free region or a region pinned against evacuation,
  and every region left out ranks no higher than the ones picked.\<close>

theorem select_victims_sound:
  "distinct (select_victims score a m cap) \<and> length (select_victims score a m cap) \<le> m \<and>
   (\<forall>r \<in> set (select_victims score a m cap). r < length (ra_live a) \<and> victim_ok a cap r \<and>
      (\<forall>q < length (ra_live a). victim_ok a cap q \<longrightarrow> q \<notin> set (select_victims score a m cap) \<longrightarrow>
         score (ra_live a ! q) (ra_epoch a - ra_epoch_of a ! q)
         \<le> score (ra_live a ! r) (ra_epoch a - ra_epoch_of a ! r)))"
proof (cases "m = 0")
  case False
  let ?k = "\<lambda>r. - score (ra_live a ! r) (ra_epoch a - ra_epoch_of a ! r)"
  let ?xs = "sort_key ?k (filter (victim_ok a cap) [0..<length (ra_live a)])"
  have e: "select_victims score a m cap = take m ?xs" using False by (simp add: select_victims_def)
  have d: "distinct ?xs" by simp
  have "?k r \<le> ?k q" if "r \<in> set (take m ?xs)" "q \<in> set ?xs" "q \<notin> set (take m ?xs)" for r q
  proof -
    have "q \<in> set (drop m ?xs)" using that(2,3) by (metis Un_iff append_take_drop_id set_append)
    moreover have "sorted (map ?k (take m ?xs @ drop m ?xs))" by simp
    ultimately show ?thesis using that(1) unfolding map_append sorted_append by auto
  qed
  then show ?thesis unfolding e using d by (auto dest: in_set_takeD)
qed (simp add: select_victims_def)

theorem select_victims_sound_witness:
  "select_victims (\<lambda>live age. 512 - int live) (demo_ra\<lparr>ra_head := 3, ra_live := [9, 0, 5, 7, 300]\<rparr>) 1 100 = [2] \<and>
   victim_ok (demo_ra\<lparr>ra_head := 3, ra_live := [9, 0, 5, 7, 300]\<rparr>) 100 2"
proof -
  let ?a = "demo_ra\<lparr>ra_head := 3, ra_live := [9, 0, 5, 7, 300]\<rparr>"
  have "select_victims (\<lambda>live age. 512 - int live) ?a 1 100 = [2]"
    by (simp add: select_victims_def victim_ok_def demo_ra_def upt_rec)
  then show ?thesis using select_victims_sound [of "\<lambda>live age. 512 - int live" ?a 1 100] by simp
qed

section \<open>A leak\<close>

text \<open>A region that is neither live, nor the head, nor on any list is never used again.\<close>

definition leaked :: "region_alloc \<Rightarrow> nat \<Rightarrow> bool" where
  "leaked a r = (r < length (ra_live a) \<and> ra_live a ! r = 0 \<and> r \<noteq> ra_head a \<and> r \<notin> set (parked a))"

lemma leaked_mset:
  assumes "leaked a r" and "mset (parked a') = mset (parked a)" and "ra_live a' = ra_live a" and "ra_head a' = ra_head a"
  shows "leaked a' r"
  using assms mset_eq_setD [OF assms(2)] by (simp add: leaked_def)

lemma leaked_alloc:
  assumes inv: "ra_inv a e R" and al: "alloc a n l e = Ok (u, a', e')" and lk: "leaked a r"
  shows "leaked a' r"
proof -
  let ?b = "room a n e"
  have "leaked ?b r"
  proof (cases "?b = a")
    case False
    then have b: "?b = open_new_head a e" by (simp add: room_def split: if_splits)
    have "ra_live a = [] \<or> ra_head a * 512 + 512 < ra_next a + n" using False by (simp add: room_def split: if_splits)
    moreover have "n \<le> 512" using alloc_room [OF al] by simp
    ultimately have "lengths_in a e" "parked_ok a" using inv lengths_full [of a e n] by (auto simp: ra_inv_def)
    note F = open_new_head_facts [OF this refl]
    show ?thesis using F(3,4,12) lk unfolding b by (auto simp: leaked_def nth_append parked_def)
  qed (use lk in simp)
  moreover have "a' = ?b\<lparr>ra_next := u + n, ra_live := (ra_live ?b)[ra_head ?b := ra_live ?b ! ra_head ?b + l]\<rparr>"
    using alloc_room [OF al] by simp
  ultimately show ?thesis by (auto simp: leaked_def parked_def)
qed

lemma leaked_free:
  assumes inv: "ra_inv a e R" and x: "Run u n l \<in> R" and lk: "leaked a r"
  shows "leaked (free a u l) r"
proof -
  note F = free_facts [OF inv x refl]
  have "run_region (Run u n l) \<noteq> r" using F(10) lk by (auto simp: leaked_def)
  then show ?thesis using F(1,2,9,13) lk by (auto simp: leaked_def parked_def)
qed

lemma leaked_unpin:
  assumes inv: "ra_inv a e R" and lk: "leaked a r"
  shows "leaked (unpin a g) r"
proof -
  have "pins_ok a" using inv by (simp add: ra_inv_def)
  then obtain ps where u: "unpin a g = release_snap_hold (a\<lparr>ra_pins := ps\<rparr>)" by (rule unpin_pins)
  show ?thesis
    unfolding u release_snap_hold_def
    by (rule leaked_mset [OF lk])
      (use release_loop_facts(1,2,4,13) [OF refl] in \<open>simp_all add: parked_def ac_simps\<close>)
qed

lemma leaked_same: "leaked a r \<Longrightarrow> ra_live b = ra_live a \<Longrightarrow> ra_head b = ra_head a \<Longrightarrow> parked b = parked a \<Longrightarrow> leaked b r"
  by (simp add: leaked_def)

lemma leaked_step: "ra_step s t \<Longrightarrow> g_inv s \<Longrightarrow> leaked (g_ra s) r \<Longrightarrow> leaked (g_ra t) r"
proof (induction rule: ra_step.induct)
  case (step_alloc s n l u a' e')
  then show ?case using leaked_alloc by (auto simp: g_inv_def)
next
  case (step_free u n l s)
  then show ?case using leaked_free by (auto simp: g_inv_def)
next
  case (step_persist s)
  then show ?case using leaked_mset [OF _ persist_facts(11,1,2) [OF refl]] by simp
next
  case (step_pin s g a')
  then show ?case by (auto simp: pin_def Let_def parked_def intro: leaked_same)
next
  case (step_pin_at s g)
  then show ?case by (auto simp: pin_at_def parked_def intro: leaked_same)
next
  case (step_unpin s g)
  then show ?case using leaked_unpin by (auto simp: g_inv_def)
next
  case (step_drain s)
  then show ?case by (auto simp: drain_staged_def parked_def intro!: leaked_mset [of "g_ra s"])
next
  case (step_epoch s)
  then show ?case by (auto simp: bump_epoch_def parked_def intro: leaked_same)
qed simp


definition leak_state :: gstate where
  "leak_state = g_init\<lparr>g_ra := ra_default\<lparr>ra_live := [0, 512], ra_epoch_of := [0, 0], ra_head := 1, ra_next := 1024,
     ra_fresh := [True, True], ra_evac_pinned := [False, False]\<rparr>, g_end := 16, g_recs := {Run 512 512 512}\<rparr>"

lemma leak_state_reachable: "reachable leak_state"
proof -
  define a1 where "a1 = ra_default\<lparr>ra_live := [512], ra_epoch_of := [0], ra_next := 512, ra_fresh := [True], ra_evac_pinned := [False]\<rparr>"
  define s1 where "s1 = g_init\<lparr>g_ra := a1, g_end := 8, g_recs := insert (Run 0 512 512) (g_recs g_init)\<rparr>"
  define s2 where "s2 = s1\<lparr>g_ra := free (g_ra s1) 0 512, g_recs := g_recs s1 - {Run 0 512 512}\<rparr>"
  have "alloc (g_ra g_init) 512 512 (g_end g_init) = Ok (0, a1, 8)"
    by (simp add: g_init_def ra_default_def alloc_eval a1_def)
  from step_alloc [OF this] have 1: "ra_step g_init s1" by (simp add: s1_def)
  have 2: "ra_step s1 s2" unfolding s2_def by (rule step_free) (simp add: s1_def)
  have "alloc (g_ra s2) 512 512 (g_end s2) = Ok (512, g_ra leak_state, 16)"
    by (simp add: s2_def s1_def a1_def ra_default_def leak_state_def g_init_def free_def region_of_unit_def alloc_eval)
  from step_alloc [OF this] have 3: "ra_step s2 leak_state"
    by (simp add: leak_state_def g_init_def s2_def s1_def)
  show ?thesis
    unfolding reachable_def using 1 2 3 by (meson rtranclp.rtrancl_into_rtrancl rtranclp.rtrancl_refl)
qed


section \<open>The record file\<close>

lemma open_new_head_at: "ra_head (open_new_head a e) = (if ra_free a = [] then div_ceil e 8 else last (ra_free a))"
  by (auto simp: open_new_head_def ensure_region_def Let_def)

lemma alloc_limit:
  assumes inv: "ra_inv a e R" and al: "alloc a n l e = Ok (u, a', e')"
  shows "u + n \<le> (div_ceil e 8 + 1) * 512"
proof -
  let ?b = "room a n e"
  have u: "u = ra_next ?b" "n \<le> 512" using alloc_room [OF al] by auto
  have H: "ra_next ?b + n \<le> (ra_head ?b + 1) * 512" using room_facts [OF inv u(2)] by (simp add: room_ok_def)
  have L: "length (ra_live a) \<le> div_ceil e 8 + 1" using inv by (auto simp: ra_inv_def lengths_ok_def empty_head_def)
  have "ra_head ?b \<le> div_ceil e 8"
  proof (cases "ra_live a = [] \<or> ra_head a * 512 + 512 < ra_next a + n")
    case True
    have "last (ra_free a) < length (ra_live a)" if "ra_free a \<noteq> []"
      using inv that by (auto simp: ra_inv_def parked_ok_def parked_def)
    then show ?thesis using True L by (auto simp: room_def open_new_head_at)
  next
    case False
    then have "ra_head a < length (ra_live a)" using inv by (simp add: ra_inv_def head_ok_def)
    then show ?thesis using False L by (simp add: room_def)
  qed
  then show ?thesis using H u(1) by (meson add_le_mono1 le_trans mult_le_mono1)
qed

lemma write_payload_ok:
  assumes "ff_rel Z f M" and "length p \<le> MAX_RECORD_BYTES" and "(div_ceil (ff_end f) 8 + 1) * 512 < 2 ^ 32"
  shows "\<exists>ptr f'. write_payload f p = (Ok ptr, f')"
proof -
  let ?l = "run_len [p]" and ?n = "padded_units f (run_len [p])"
  obtain nn where inv: "ra_inv (ff_seg f) (ff_end f) (rec_run nn ` dom M)"
    using assms(1) by (auto simp: ff_rel_def space_ok_def ra_ok_def)
  have "?n \<le> 512" using padded_bounds(2) [of "?l" f] record_fits [of p] assms(2) by simp
  then obtain u seg e where al: "alloc (ff_seg f) ?n ?l (ff_end f) = Ok (u, seg, e)"
    using rs.reserve_total [of ?n "(ff_seg f, ff_end f)" ?l] by (auto simp: ra_reserve_def res_simps)
  have "u + ?n \<le> (div_ceil (ff_end f) 8 + 1) * 512" by (rule alloc_limit [OF inv al])
  then have lim: "\<not> 4294967295 < u + units_for (4 + length p)"
    using assms(3) padded_bounds(1) [of "?l" f] by simp
  obtain buf where "fill_run (replicate (?n * 256) 0) 0 [p] = Ok buf"
    using fill_run_fresh [OF padded_bounds(1)] by blast
  then show ?thesis using al lim assms(2) by (auto simp: write_payload_def Let_def)
qed

lemma alloc_end:
  assumes inv: "ra_inv a e R" and al: "alloc a n l e = Ok (u, a', e')"
  shows "div_ceil e' 8 \<le> div_ceil e 8 + 1"
proof -
  have "e' = max e (div_ceil (u + n) 64)" using alloc_room [OF al] by simp
  then show ?thesis using alloc_limit [OF inv al] by (auto simp: div_ceil_def max_def)
qed

lemma write_runs_ok:
  assumes "ff_rel Z f M" and "\<forall>p \<in> set ps. length p \<le> 131068" and "(div_ceil (ff_end f) 8 + length ps) * 512 < 2 ^ 32"
  shows "\<exists>ptrs f'. write_runs f ps = (Ok ptrs, f')"
  using assms
proof (induction f ps arbitrary: M rule: write_runs.induct)
  case (2 f p ps)
  obtain rb run rest where pk: "pack_run True 0 (p # ps) = (rb, run, rest)" by (metis prod_cases3)
  have run: "p # ps = run @ rest" "run \<noteq> []" "rb = run_len run * 256" "run_len run \<le> 512"
    using pack_run_length [OF pk] pack_run_progress [OF pk] pack_run_facts [OF pk 2(3)] by auto
  let ?n = "padded_units f (run_len run)"
  obtain nn where inv: "ra_inv (ff_seg f) (ff_end f) (rec_run nn ` dom M)"
    using 2(2) by (auto simp: ff_rel_def space_ok_def ra_ok_def)
  have "?n \<le> 512" using padded_bounds(2) [of "run_len run" f] run(4) by simp
  then obtain base seg e where al: "alloc (ff_seg f) ?n (run_len run) (ff_end f) = Ok (base, seg, e)"
    using rs.reserve_total [of ?n "(ff_seg f, ff_end f)" "run_len run"] by (auto simp: ra_reserve_def res_simps)
  have "base + ?n \<le> (div_ceil (ff_end f) 8 + 1) * 512" by (rule alloc_limit [OF inv al])
  moreover have "(div_ceil (ff_end f) 8 + 1) * 512 \<le> (div_ceil (ff_end f) 8 + length (p # ps)) * 512" by simp
  ultimately have lim: "base + ?n < 2 ^ 32" using 2(4) by linarith
  obtain buf where buf: "fill_run (replicate (?n * 256) 0) 0 run = Ok buf" "length buf = ?n * 256" "frames_at buf 0 run"
    using fill_run_fresh [OF padded_bounds(1) [of "run_len run" f]] by auto
  have sz: "\<forall>q \<in> set run. length q \<le> 131068" "\<forall>q \<in> set rest. length q \<le> 131068" using 2(3) run(1) by auto
  have l: "base + run_len run < 2 ^ 32" using lim padded_bounds(1) [of "run_len run" f] by simp
  note Q = place_run [OF 2(2) run(2) sz(1) al padded_bounds(1) padded_bounds(3) l buf(2,3) refl]
  have "length rest + 1 \<le> length (p # ps)" using run(1,2) by (cases run) auto
  then have "div_ceil e 8 + length rest \<le> div_ceil (ff_end f) 8 + length (p # ps)" using alloc_end [OF inv al] by simp
  then have "(div_ceil e 8 + length rest) * 512 < 2 ^ 32" using 2(4) by (meson le_less_trans mult_le_mono1)
  then obtain ptrs f' where "write_runs (f\<lparr>ff_seg := seg, ff_end := e, ff_data := write_at (ff_data f) (base * 256) buf\<rparr>) rest = (Ok ptrs, f')"
    using 2(1) [OF pk [symmetric] refl refl refl _ refl refl refl _ _ _ sz(2), of base seg e buf
        "M(run_ptrs base 0 run [\<mapsto>] run)"] al lim buf(1) run(3) Q(1) by auto
  then show ?case using pk al lim buf(1) run(3) by (simp add: Let_def del: pack_run.simps)
qed simp

lemma write_batch_ok:
  assumes "ff_rel Z f M" and "\<forall>p \<in> set ps. length p \<le> MAX_RECORD_BYTES" and "(div_ceil (ff_end f) 8 + length ps) * 512 < 2 ^ 32"
  shows "\<exists>ptrs f'. write_batch f ps = (Ok ptrs, f')"
proof -
  have "ff_end (drain_staged_if_unaliased f) = ff_end f" by (simp add: drain_staged_if_unaliased_def)
  then show ?thesis using write_runs_ok [OF drain_rel [OF assms(1)], of ps] assms(2,3)
    by (auto simp: write_batch_def Let_def list_ex_iff)
qed

lemma map_upds_nth:
  "length xs = length ys \<Longrightarrow> distinct xs \<Longrightarrow> i < length xs \<Longrightarrow> (M(xs [\<mapsto>] ys)) (xs ! i) = Some (ys ! i)"
proof (induction xs ys arbitrary: M i rule: list_induct2)
  case (Cons x xs y ys)
  then show ?case using nth_mem [of _ xs] by (cases i) (auto simp: map_upds_apply_nontin)
qed simp

definition demo_file :: flat_file where
  "demo_file = snd (write_payload (ff_new True) [7, 8, 9])"

definition demo_ptr :: disk_ptr where
  "demo_ptr = \<lparr>dp_unit = 0, dp_len = 3\<rparr>"

lemma demo_write: "write_payload (ff_new True) [7, 8, 9] = (Ok demo_ptr, demo_file)"
  by (simp add: demo_file_def write_payload_def units_for_def padded_units_def align_units_def DIO_ALIGN_def
      ff_new_def ra_default_def copy_in_def demo_ptr_def alloc_eval)

lemma demo_hist: "ff_hist fz_none demo_file [demo_ptr \<mapsto> [7, 8, 9]]"
  by (rule h_write [OF h_new demo_write])

lemma demo_batch: "\<exists>ptrs f'. write_batch (ff_new False) [[1], [2, 3]] = (Ok ptrs, f')"
  by (simp add: write_batch_def units_for_def padded_units_def align_units_def aligned_def
      drain_staged_if_unaliased_def drain_staged_def ff_new_def ra_default_def copy_in_def alloc_eval)

text \<open>C37: in every history of the record file, a live pointer reads back exactly
  the payload that was written for it, eagerly or lazily, through the read-ahead
  cache or not, with direct I/O or not, whatever was written, freed, pinned or
  checkpointed in between.\<close>

theorem file_reads_back:
  assumes "ff_hist Z f M" and "M ptr = Some p"
  shows "read_payload f (dp_offset ptr + RECORD_HDR) (unat (dp_len ptr)) = Ok p
    \<and> read P f ptr = deserialize_subtree P p \<and> read_lazy P f ptr = deserialize_subtree_lazy P p"
  using read_payload_rel [OF hist_rel [OF assms(1)] assms(2)] read_lazy_rel [OF rel_readable [OF hist_rel [OF assms(1)]] assms(2)]
  by (simp add: read_def)

theorem file_reads_back_witness:
  "read_payload demo_file (dp_offset demo_ptr + RECORD_HDR) (unat (dp_len demo_ptr)) = Ok [7, 8, 9]"
  using file_reads_back [OF demo_hist, of demo_ptr "[7, 8, 9]"] by simp

text \<open>A batch write that succeeds returns one fresh pointer per payload, all
  distinct and distinct from every live pointer, and acts on the live records as
  the simultaneous insertion of the payloads: nothing else changes.\<close>

theorem write_batch_refines:
  assumes "ff_hist Z f M" and "write_batch f ps = (Ok ptrs, f')"
  shows "length ptrs = length ps \<and> distinct ptrs \<and> set ptrs \<inter> dom M = {} \<and>
    (\<forall>i < length ps. read_payload f' (dp_offset (ptrs ! i) + RECORD_HDR) (unat (dp_len (ptrs ! i))) = Ok (ps ! i)) \<and>
    (\<forall>ptr p. M ptr = Some p \<longrightarrow> read_payload f' (dp_offset ptr + RECORD_HDR) (unat (dp_len ptr)) = Ok p)"
proof -
  have W: "ff_rel Z f' (M(ptrs [\<mapsto>] ps))" "length ptrs = length ps" "distinct ptrs" "set ptrs \<inter> dom M = {}"
    using write_batch_rel [OF hist_rel [OF assms(1)] assms(2)] by auto
  have "(M(ptrs [\<mapsto>] ps)) (ptrs ! i) = Some (ps ! i)" if "i < length ps" for i
    using map_upds_nth [OF W(2,3)] W(2) that by simp
  moreover have "(M(ptrs [\<mapsto>] ps)) ptr = Some p" if "M ptr = Some p" for ptr p
    using W(4) that by (subst map_upds_apply_nontin) auto
  ultimately show ?thesis using W(2-4) read_payload_rel [OF W(1)] by blast
qed

theorem write_batch_refines_witness:
  "\<exists>ptrs f'. write_batch (ff_new False) [[1], [2, 3]] = (Ok ptrs, f') \<and> length ptrs = 2 \<and>
     read_payload f' (dp_offset (ptrs ! 1) + RECORD_HDR) (unat (dp_len (ptrs ! 1))) = Ok [2, 3]"
proof -
  obtain ptrs f' where w: "write_batch (ff_new False) [[1], [2, 3]] = (Ok ptrs, f')" using demo_batch by blast
  from write_batch_refines [OF h_new w] have "length ptrs = 2"
    "read_payload f' (dp_offset (ptrs ! 1) + RECORD_HDR) (unat (dp_len (ptrs ! 1))) = Ok [2, 3]" by auto
  with w show ?thesis by blast
qed

text \<open>C38: the parallel batch writer returns the same pointers and leaves the
  same file as the sequential one, for every order in which the worker threads
  write the planned runs.\<close>

theorem parallel_writer_equiv:
  assumes "ff_hist Z f M" and "write_batch f ps = (Ok ptrs, f')" and "\<And>rs. mset (order rs) = mset rs"
  shows "write_batch_parallel order f ps = (Ok ptrs, f')"
  by (rule parallel_equals_batch [OF hist_rel [OF assms(1)] assms(2,3)])

theorem parallel_writer_equiv_witness:
  "\<exists>ptrs f'. write_batch (ff_new False) [[1], [2, 3]] = (Ok ptrs, f') \<and>
     write_batch_parallel rev (ff_new False) [[1], [2, 3]] = (Ok ptrs, f')"
proof -
  obtain ptrs f' where w: "write_batch (ff_new False) [[1], [2, 3]] = (Ok ptrs, f')" using demo_batch by blast
  from parallel_writer_equiv [OF h_new w, of rev] w show ?thesis by simp
qed

text \<open>Writing one payload fails only for a payload over the region capacity,
  which leaves the file as it was, or when the file has reached the addressing
  limit of 32-bit units.\<close>

theorem write_payload_outcome:
  assumes "ff_hist Z f M"
  shows "(MAX_RECORD_BYTES < length p \<longrightarrow>
       write_payload f p = (Err (Bail ''record payload exceeds the region capacity''), f)) \<and>
    (length p \<le> MAX_RECORD_BYTES \<longrightarrow> (div_ceil (ff_end f) REGION_PAGES + 1) * REGION_UNITS < 2 ^ 32 \<longrightarrow>
       (\<exists>ptr f'. write_payload f p = (Ok ptr, f') \<and> ptr \<notin> dom M \<and> ff_hist Z f' (M(ptr \<mapsto> p))))"
proof -
  have "\<exists>ptr f'. write_payload f p = (Ok ptr, f') \<and> ptr \<notin> dom M \<and> ff_hist Z f' (M(ptr \<mapsto> p))"
    if "length p \<le> MAX_RECORD_BYTES" "(div_ceil (ff_end f) 8 + 1) * 512 < 2 ^ 32"
    using write_payload_ok [OF hist_rel [OF assms] that] write_payload_rel(2) [OF hist_rel [OF assms]]
      ff_hist.h_write [OF assms] by metis
  then show ?thesis by (auto simp: write_payload_def)
qed

theorem write_payload_outcome_witness:
  "\<exists>ptr f'. write_payload demo_file [5] = (Ok ptr, f') \<and> ptr \<noteq> demo_ptr"
proof -
  have "ff_end demo_file = 1"
    by (simp add: demo_file_def write_payload_def units_for_def padded_units_def align_units_def DIO_ALIGN_def
        ff_new_def ra_default_def copy_in_def alloc_eval)
  then show ?thesis using write_payload_outcome [OF demo_hist, of "[5]"] by (auto simp: div_ceil_def)
qed

end
