(* ===== verification/Frontier.thy ===== *)
theory Frontier
  imports RecordOps FlatFile
begin

text \<open>
  The in-RAM frontier (\<^verbatim>\<open>RamNode\<close>, \<^verbatim>\<open>RamChild\<close> in \<^verbatim>\<open>src/lib.rs\<close>): the
  top of the trie held in memory, whose leaves are whole records on disk or in
  RAM and promoted accounts, with point reads, insertion, promotion of oversized
  records, deletion with collapse, and the memoized root hash.

  Operations that use the store take and return the file. \<^verbatim>\<open>Arc\<close> sharing
  and copy-on-write clones are value semantics here; the touched bit of a RAM
  record and the byte counters are not modelled. A failing operation returns its
  error; the half-updated frontier it leaves behind in memory is not represented.
\<close>

section \<open>Operations on the store\<close>

type_synonym 'a fm = "flat_file \<Rightarrow> 'a res \<times> flat_file"

definition fret :: "'a \<Rightarrow> 'a fm" where
  "fret x = (\<lambda>f. (Ok x, f))"

definition flift :: "'a res \<Rightarrow> 'a fm" where
  "flift r = (\<lambda>f. (r, f))"

definition fbind :: "'a fm \<Rightarrow> ('a \<Rightarrow> 'b fm) \<Rightarrow> 'b fm" where
  "fbind m g = (\<lambda>f. case m f of (r, f') \<Rightarrow> (case r of Ok x \<Rightarrow> g x f' | Err e \<Rightarrow> (Err e, f')))"

lemma fbind_cong [fundef_cong]:
  "m = m' \<Longrightarrow> (\<And>x. g x = g' x) \<Longrightarrow> fbind m g = fbind m' g'"
proof -
  assume "m = m'" and "\<And>x. g x = g' x"
  then have "m = m'" "g = g'" by auto
  then show ?thesis by simp
qed

definition fread_lazy :: "prims \<Rightarrow> disk_ptr \<Rightarrow> disk_subtree fm" where
  "fread_lazy P ptr = (\<lambda>f. (read_lazy P f ptr, f))"

definition fwrite :: "bytes \<Rightarrow> disk_ptr fm" where
  "fwrite payload = (\<lambda>f. write_payload f payload)"

definition fwrite_batch :: "bytes list \<Rightarrow> disk_ptr list fm" where
  "fwrite_batch ps = (\<lambda>f. write_batch f ps)"

definition ffree :: "disk_ptr \<Rightarrow> unit fm" where
  "ffree ptr = (\<lambda>f. (Ok (), ff_free f ptr))"

section \<open>State\<close>

text \<open>
  \<open>c_hot\<close> is the process-wide switch \<^verbatim>\<open>hot_records_enabled()\<close>; the other
  fields of \<^verbatim>\<open>Config\<close> are not used by the code below.
\<close>

record config =
  c_max_leaf :: nat
  c_hot :: bool

datatype ram_node =
    REmpty
  | RExtension nibs ram_node "bytes option"
  | RBranch "ram_child option list" "bytes option"
and ram_child =
    RRam ram_node
  | RDisk disk_ptr bytes
  | RAccount nibs u64 bytes bytes ram_node
  | RMem bytes bytes

definition empty_children :: "ram_child option list" where
  "empty_children = replicate 16 None"

definition walk_depth :: "nibs \<Rightarrow> nat" where
  "walk_depth prefix = (if 64 \<le> length prefix then length prefix - 64 else length prefix)"

text \<open>
  The fuel the frontier passes to the record-level functions and to promotion. They
  recurse once per node of a state path and of a storage path, of 64 nibbles each,
  plus a constant; 300 is above every such bound.
\<close>

definition REC_FUEL :: nat where "REC_FUEL = 300"

definition insert_record :: "prims \<Rightarrow> node \<Rightarrow> nat \<Rightarrow> bytes \<Rightarrow> leaf_op \<Rightarrow> node res" where
  "insert_record P = record_node_insert P REC_FUEL"

definition delete_record :: "prims \<Rightarrow> node \<Rightarrow> nat \<Rightarrow> bytes \<Rightarrow> delete_op \<Rightarrow> (node \<times> node_delete) res" where
  "delete_record P = record_node_delete P REC_FUEL"

section \<open>The memoized hash\<close>

text \<open>\<^verbatim>\<open>U256::to_be_bytes\<close> and \<^verbatim>\<open>from_be_bytes\<close> of the stored balance.\<close>

definition bal_bytes :: "u256 \<Rightarrow> bytes" where
  "bal_bytes b = be_bytes 32 (unat b)"

definition bal_of :: "bytes \<Rightarrow> u256" where
  "bal_of bs = word_of_nat (be_val bs)"

definition ram_account_rlp :: "prims \<Rightarrow> u64 \<Rightarrow> bytes \<Rightarrow> bytes \<Rightarrow> bytes \<Rightarrow> bytes" where
  "ram_account_rlp P nonce balance code_hash storage_root =
     account_rlp P (account_contract nonce (bal_of balance) storage_root code_hash)"

text \<open>The hash and the node with the cells filled on the way.\<close>

definition hash_branch :: "prims \<Rightarrow> bytes option list \<Rightarrow> bytes res" where
  "hash_branch P hs = res_map (finalize P)
     (branch_ref P (branch_bitmap (map (\<lambda>h. h \<noteq> None) hs)) (map NHash (somes hs)))"

definition opt_seq :: "'a res option list \<Rightarrow> 'a option list res" where
  "opt_seq xs = res_mapM (\<lambda>x. case x of None \<Rightarrow> Ok None | Some m \<Rightarrow> res_map Some m) xs"

primrec hash_ram :: "prims \<Rightarrow> ram_node \<Rightarrow> (bytes \<times> ram_node) res"
  and ram_child_hash :: "prims \<Rightarrow> ram_child \<Rightarrow> (bytes \<times> ram_child) res" where
  "hash_ram P REmpty = Ok (empty_hash P, REmpty)"
| "hash_ram P (RExtension path child hash) =
     (case hash of
        Some cached \<Rightarrow> Ok (cached, RExtension path child hash)
      | None \<Rightarrow> res_bind (hash_ram P child) (\<lambda>(h, child').
          (let computed = finalize P (ext_ref P path (NHash h))
           in Ok (computed, RExtension path child' (Some computed)))))"
| "hash_ram P (RBranch children hash) =
     (case hash of
        Some cached \<Rightarrow> Ok (cached, RBranch children hash)
      | None \<Rightarrow> res_bind (opt_seq (map (map_option (ram_child_hash P)) children)) (\<lambda>rs.
          res_bind (hash_branch P (map (map_option fst) rs)) (\<lambda>computed.
            Ok (computed, RBranch (map (map_option snd) rs) (Some computed)))))"
| "ram_child_hash P (RRam nd) = res_map (\<lambda>(h, nd'). (h, RRam nd')) (hash_ram P nd)"
| "ram_child_hash P (RDisk ptr root) = Ok (root, RDisk ptr root)"
| "ram_child_hash P (RMem bs root) = Ok (root, RMem bs root)"
| "ram_child_hash P (RAccount path nonce balance code_hash storage) =
     res_map (\<lambda>(sr, storage').
       (finalize P (leaf_ref P path (ram_account_rlp P nonce balance code_hash sr)),
        RAccount path nonce balance code_hash storage')) (hash_ram P storage)"

section \<open>Point reads\<close>

primrec ram_get :: "prims \<Rightarrow> flat_file \<Rightarrow> ram_node \<Rightarrow> nibs \<Rightarrow> nat \<Rightarrow> bytes option res"
  and ram_get_child :: "prims \<Rightarrow> flat_file \<Rightarrow> ram_child \<Rightarrow> nibs \<Rightarrow> nat \<Rightarrow> bytes option res" where
  "ram_get P f REmpty = (\<lambda>nibbles depth. Ok None)"
| "ram_get P f (RExtension path child hash) = (\<lambda>nibbles depth.
     res_bind (from_idx nibbles depth) (\<lambda>rest.
       if starts_with rest path then ram_get P f child nibbles (depth + length path) else Ok None))"
| "ram_get P f (RBranch children hash) = (\<lambda>nibbles depth.
     res_bind (index nibbles depth) (\<lambda>nib.
     res_bind (index (map (map_option (ram_get_child P f)) children) (unat nib)) (\<lambda>slot.
       (case slot of None \<Rightarrow> Ok None | Some g \<Rightarrow> g nibbles (depth + 1)))))"
| "ram_get_child P f (RRam nd) = ram_get P f nd"
| "ram_get_child P f (RDisk ptr root) = (\<lambda>nibbles depth.
     res_bind (read_lazy P f ptr) (\<lambda>sub.
       node_get P (read_lazy P f) REC_FUEL (ds_node sub) nibbles (local_depth (ds_prefix sub))))"
| "ram_get_child P f (RMem bs root) = (\<lambda>nibbles depth.
     res_bind (parse_payload_lazy P bs) (\<lambda>sub.
       node_get P (read_lazy P f) REC_FUEL (ds_node sub) nibbles (local_depth (ds_prefix sub))))"
| "ram_get_child P f (RAccount path nonce balance code_hash storage) = (\<lambda>nibbles depth.
     res_bind (from_idx nibbles depth) (\<lambda>rest.
       if rest = path then
         res_map (\<lambda>(sr, _). Some (ram_account_rlp P nonce balance code_hash sr)) (hash_ram P storage)
       else Ok None))"

primrec ram_get_storage :: "prims \<Rightarrow> flat_file \<Rightarrow> ram_node \<Rightarrow> nibs \<Rightarrow> nat \<Rightarrow> bytes \<Rightarrow> bytes option res"
  and ram_get_storage_child :: "prims \<Rightarrow> flat_file \<Rightarrow> ram_child \<Rightarrow> nibs \<Rightarrow> nat \<Rightarrow> bytes \<Rightarrow> bytes option res" where
  "ram_get_storage P f REmpty = (\<lambda>nibbles depth slot_key. Ok None)"
| "ram_get_storage P f (RExtension path child hash) = (\<lambda>nibbles depth slot_key.
     res_bind (from_idx nibbles depth) (\<lambda>rest.
       if starts_with rest path then ram_get_storage P f child nibbles (depth + length path) slot_key
       else Ok None))"
| "ram_get_storage P f (RBranch children hash) = (\<lambda>nibbles depth slot_key.
     res_bind (index nibbles depth) (\<lambda>nib.
     res_bind (index (map (map_option (ram_get_storage_child P f)) children) (unat nib)) (\<lambda>slot.
       (case slot of None \<Rightarrow> Ok None | Some g \<Rightarrow> g nibbles (depth + 1) slot_key))))"
| "ram_get_storage_child P f (RRam nd) = ram_get_storage P f nd"
| "ram_get_storage_child P f (RDisk ptr root) = (\<lambda>nibbles depth slot_key.
     res_bind (read_lazy P f ptr) (\<lambda>sub.
       node_get_storage P (read_lazy P f) REC_FUEL (ds_node sub) nibbles (local_depth (ds_prefix sub)) slot_key))"
| "ram_get_storage_child P f (RMem bs root) = (\<lambda>nibbles depth slot_key.
     res_bind (parse_payload_lazy P bs) (\<lambda>sub.
       node_get_storage P (read_lazy P f) REC_FUEL (ds_node sub) nibbles (local_depth (ds_prefix sub)) slot_key))"
| "ram_get_storage_child P f (RAccount path nonce balance code_hash storage) = (\<lambda>nibbles depth slot_key.
     res_bind (from_idx nibbles depth) (\<lambda>rest.
       if rest = path then ram_get P f storage (key_nibbles slot_key) 0 else Ok None))"

section \<open>Leaf children\<close>

definition make_mem_leaf :: "prims \<Rightarrow> disk_subtree \<Rightarrow> ram_child res" where
  "make_mem_leaf P subtree =
     (let root = finalize P (hash_node P (ds_node subtree)) in
      res_map (\<lambda>(payload, _). RMem payload root) (serialize_subtree subtree))"

definition make_leaf_child :: "prims \<Rightarrow> config \<Rightarrow> bool \<Rightarrow> disk_subtree \<Rightarrow> ram_child fm" where
  "make_leaf_child P cfg ram subtree =
     (if ram \<or> c_hot cfg then flift (make_mem_leaf P subtree)
      else (let root = finalize P (hash_node P (ds_node subtree)) in
        fbind (flift (serialize_subtree subtree)) (\<lambda>(payload, _).
        fbind (fwrite payload) (\<lambda>ptr. fret (RDisk ptr root)))))"

section \<open>Promotion\<close>

definition top_branch_prefix :: "disk_subtree \<Rightarrow> nibs option" where
  "top_branch_prefix subtree =
     (case ds_node subtree of
        Branch _ _ \<Rightarrow> Some (ds_prefix subtree)
      | Extension path child _ \<Rightarrow>
          (case child of Branch _ _ \<Rightarrow> Some (ds_prefix subtree @ path) | _ \<Rightarrow> None)
      | _ \<Rightarrow> None)"

definition should_promote :: "config \<Rightarrow> disk_subtree \<Rightarrow> bool" where
  "should_promote cfg subtree =
     (c_max_leaf cfg < record_size (length (ds_prefix subtree)) (ds_node subtree) \<and>
      top_branch_prefix subtree \<noteq> None)"

definition should_promote_account :: "config \<Rightarrow> disk_subtree \<Rightarrow> bool" where
  "should_promote_account cfg subtree =
     (if record_size (length (ds_prefix subtree)) (ds_node subtree) \<le> c_max_leaf cfg then False
      else (case ds_node subtree of
              Account _ _ _ _ storage _ _ \<Rightarrow>
                (case storage of Branch _ _ \<Rightarrow> True | Extension _ _ _ \<Rightarrow> True | _ \<Rightarrow> False)
            | _ \<Rightarrow> False))"

text \<open>The extension path and the branch a promotion lifts.\<close>

definition split_top :: "node \<Rightarrow> (nibs \<times> node option list) res" where
  "split_top nd =
     (let at_branch = (\<lambda>p n. (case n of Branch children _ \<Rightarrow> Ok (p, children)
                              | _ \<Rightarrow> Err (Panic ''a leading extension must wrap a branch''))) in
      (case nd of
         Branch _ _ \<Rightarrow> at_branch [] nd
       | Extension path child _ \<Rightarrow> at_branch path child
       | _ \<Rightarrow> Err (Panic ''promote called on a record without a top branch'')))"

definition wrap_branch :: "nibs \<Rightarrow> ram_child option list \<Rightarrow> ram_child" where
  "wrap_branch ext_path children =
     (let branch = RBranch children None in
      if ext_path = [] then RRam branch else RRam (RExtension ext_path branch None))"

text \<open>What the loop over a promoted branch decides for one slot.\<close>

datatype slot_plan = SNone | SChild ram_child | SBatch bytes bytes

fun plan_payloads :: "slot_plan list \<Rightarrow> bytes list" where
  "plan_payloads [] = []"
| "plan_payloads (SBatch root payload # ps) = payload # plan_payloads ps"
| "plan_payloads (_ # ps) = plan_payloads ps"

text \<open>The batched slots take the pointers of the batch in order.\<close>

fun fill_slots :: "slot_plan list \<Rightarrow> disk_ptr list \<Rightarrow> ram_child option list" where
  "fill_slots [] ptrs = []"
| "fill_slots (SNone # ps) ptrs = None # fill_slots ps ptrs"
| "fill_slots (SChild c # ps) ptrs = Some c # fill_slots ps ptrs"
| "fill_slots (SBatch root payload # ps) [] = None # fill_slots ps []"
| "fill_slots (SBatch root payload # ps) (ptr # ptrs) = Some (RDisk ptr root) # fill_slots ps ptrs"

type_synonym promoter = "disk_subtree \<Rightarrow> ram_child fm"

fun promote_slots :: "prims \<Rightarrow> promoter \<Rightarrow> nibs \<Rightarrow> nat \<Rightarrow> node option list \<Rightarrow> slot_plan list fm" where
  "promote_slots P oversized branch_prefix i [] = fret []"
| "promote_slots P oversized branch_prefix i (None # slots) =
     fbind (promote_slots P oversized branch_prefix (i + 1) slots) (\<lambda>ps. fret (SNone # ps))"
| "promote_slots P oversized branch_prefix i (Some other # slots) =
     fbind (case other of
         Overflow ptr root \<Rightarrow> fret (SChild (RDisk ptr root))
       | _ \<Rightarrow>
           (let cp = branch_prefix @ [word_of_nat i]; subtree = \<lparr>ds_prefix = cp, ds_node = other\<rparr> in
            if MAX_RECORD_BYTES < record_size (length cp) other
            then fbind (oversized subtree) (\<lambda>c. fret (SChild c))
            else fbind (flift (serialize_subtree subtree)) (\<lambda>(payload, _).
                   fret (SBatch (finalize P (hash_node P other)) payload)))) (\<lambda>p.
     fbind (promote_slots P oversized branch_prefix (i + 1) slots) (\<lambda>ps. fret (p # ps)))"

fun promote_mem_slots :: "prims \<Rightarrow> promoter \<Rightarrow> nibs \<Rightarrow> nat \<Rightarrow> node option list \<Rightarrow> ram_child option list fm" where
  "promote_mem_slots P oversized branch_prefix i [] = fret []"
| "promote_mem_slots P oversized branch_prefix i (None # slots) =
     fbind (promote_mem_slots P oversized branch_prefix (i + 1) slots) (\<lambda>cs. fret (None # cs))"
| "promote_mem_slots P oversized branch_prefix i (Some boxed # slots) =
     (let cp = branch_prefix @ [word_of_nat i]; subtree = \<lparr>ds_prefix = cp, ds_node = boxed\<rparr> in
      fbind (if MAX_RECORD_BYTES < record_size (length cp) boxed then oversized subtree
             else flift (make_mem_leaf P subtree)) (\<lambda>c.
      fbind (promote_mem_slots P oversized branch_prefix (i + 1) slots) (\<lambda>cs. fret (Some c # cs))))"

text \<open>
  \<open>prr\<close> and \<open>ptm\<close> are \<^verbatim>\<open>promote_record_to_ram\<close> and \<^verbatim>\<open>promote_to_mem\<close> as the
  functions they call see them.
\<close>

definition promote_storage_to_ram :: "promoter \<Rightarrow> promoter \<Rightarrow> node \<Rightarrow> bool \<Rightarrow> nibs \<Rightarrow> ram_node fm" where
  "promote_storage_to_ram prr ptm storage ram acct_prefix =
     (let subtree = \<lparr>ds_prefix = acct_prefix, ds_node = storage\<rparr> in
      fbind (if ram then ptm subtree else prr subtree) (\<lambda>promoted.
        (case promoted of RRam r \<Rightarrow> fret r
         | _ \<Rightarrow> flift (Err (Panic ''promotion returns a Ram node'')))))"

definition promote_account :: "promoter \<Rightarrow> promoter \<Rightarrow> disk_subtree \<Rightarrow> bool \<Rightarrow> ram_child fm" where
  "promote_account prr ptm subtree ram =
     (case ds_node subtree of
        Account path nonce balance code_hash storage _ _ \<Rightarrow>
          fbind (promote_storage_to_ram prr ptm storage ram (ds_prefix subtree @ path)) (\<lambda>storage_ram.
            fret (RAccount path nonce (bal_bytes balance) code_hash storage_ram))
      | _ \<Rightarrow> flift (Err (Panic ''promote_account_to_ram called on a non-account record'')))"

definition promote_oversized :: "config \<Rightarrow> promoter \<Rightarrow> promoter \<Rightarrow> disk_subtree \<Rightarrow> ram_child fm" where
  "promote_oversized cfg prr ptm subtree =
     (case ds_node subtree of
        Branch _ _ \<Rightarrow> prr subtree
      | Extension _ _ _ \<Rightarrow> prr subtree
      | Account _ _ _ _ _ _ _ \<Rightarrow> promote_account prr ptm subtree (c_hot cfg)
      | _ \<Rightarrow> flift (Err (Bail ''oversized unsplittable record'')))"

definition promote_oversized_mem :: "config \<Rightarrow> promoter \<Rightarrow> promoter \<Rightarrow> disk_subtree \<Rightarrow> ram_child fm" where
  "promote_oversized_mem cfg prr ptm subtree =
     (case ds_node subtree of
        Branch _ _ \<Rightarrow> ptm subtree
      | Extension _ _ _ \<Rightarrow> ptm subtree
      | Account _ _ _ _ _ _ _ \<Rightarrow> promote_account prr ptm subtree (c_hot cfg)
      | _ \<Rightarrow> flift (Err (Bail ''oversized unsplittable Mem record'')))"

fun promote_record_to_ram :: "prims \<Rightarrow> config \<Rightarrow> nat \<Rightarrow> promoter"
  and promote_to_mem :: "prims \<Rightarrow> config \<Rightarrow> nat \<Rightarrow> promoter" where
  "promote_record_to_ram P cfg 0 subtree = flift (Err NoFuel)"
| "promote_record_to_ram P cfg (Suc n) subtree =
     (let prr = promote_record_to_ram P cfg n; ptm = promote_to_mem P cfg n in
      fbind (flift (split_top (ds_node subtree))) (\<lambda>(ext_path, children).
      fbind (promote_slots P (promote_oversized cfg prr ptm) (ds_prefix subtree @ ext_path) 0 children) (\<lambda>plan.
      fbind (fwrite_batch (plan_payloads plan)) (\<lambda>ptrs.
        fret (wrap_branch ext_path (fill_slots plan ptrs))))))"
| "promote_to_mem P cfg 0 subtree = flift (Err NoFuel)"
| "promote_to_mem P cfg (Suc n) subtree =
     (let prr = promote_record_to_ram P cfg n; ptm = promote_to_mem P cfg n in
      fbind (flift (split_top (ds_node subtree))) (\<lambda>(ext_path, children).
      fbind (promote_mem_slots P (promote_oversized_mem cfg prr ptm) (ds_prefix subtree @ ext_path) 0 children) (\<lambda>cs.
        fret (wrap_branch ext_path cs))))"

definition promote_account_to_ram :: "prims \<Rightarrow> config \<Rightarrow> disk_subtree \<Rightarrow> bool \<Rightarrow> ram_child fm" where
  "promote_account_to_ram P cfg =
     promote_account (promote_record_to_ram P cfg REC_FUEL) (promote_to_mem P cfg REC_FUEL)"

section \<open>Insertion\<close>

definition new_leaf :: "prims \<Rightarrow> config \<Rightarrow> nibs \<Rightarrow> bytes \<Rightarrow> leaf_op \<Rightarrow> bool \<Rightarrow> ram_child fm" where
  "new_leaf P cfg prefix key op ram =
     fbind (flift (place_new P (insert_record P) key op (walk_depth prefix))) (\<lambda>nd.
       make_leaf_child P cfg ram \<lparr>ds_prefix = prefix, ds_node = nd\<rparr>)"

text \<open>A record rewritten by an insert: promoted, promoted as an account, or a leaf again.\<close>

definition insert_mem :: "prims \<Rightarrow> config \<Rightarrow> bytes \<Rightarrow> bytes \<Rightarrow> leaf_op \<Rightarrow> bool \<Rightarrow> ram_child fm" where
  "insert_mem P cfg bs key op ram =
     fbind (flift (parse_payload_lazy P bs)) (\<lambda>subtree.
     fbind (flift (insert_record P (ds_node subtree) (local_depth (ds_prefix subtree)) key op)) (\<lambda>nd.
       (let subtree = subtree\<lparr>ds_node := nd\<rparr> in
        if should_promote cfg subtree then promote_to_mem P cfg REC_FUEL subtree
        else if should_promote_account cfg subtree
        then promote_account_to_ram P cfg subtree (ram \<or> c_hot cfg)
        else flift (make_mem_leaf P subtree))))"

definition insert_disk :: "prims \<Rightarrow> config \<Rightarrow> disk_ptr \<Rightarrow> bytes \<Rightarrow> leaf_op \<Rightarrow> bool \<Rightarrow> ram_child fm" where
  "insert_disk P cfg ptr key op ram =
     fbind (fread_lazy P ptr) (\<lambda>subtree.
     fbind (flift (insert_record P (ds_node subtree) (local_depth (ds_prefix subtree)) key op)) (\<lambda>nd.
       (let subtree = subtree\<lparr>ds_node := nd\<rparr> in
        if should_promote cfg subtree then
          fbind (ffree ptr) (\<lambda>_. if c_hot cfg then promote_to_mem P cfg REC_FUEL subtree
                              else promote_record_to_ram P cfg REC_FUEL subtree)
        else if should_promote_account cfg subtree then
          fbind (ffree ptr) (\<lambda>_. promote_account_to_ram P cfg subtree (ram \<or> c_hot cfg))
        else if c_hot cfg then fbind (ffree ptr) (\<lambda>_. flift (make_mem_leaf P subtree))
        else
          fbind (flift (serialize_subtree subtree)) (\<lambda>(payload, _).
          fbind (ffree ptr) (\<lambda>_.
          fbind (fwrite payload) (\<lambda>ptr.
            fret (RDisk ptr (finalize P (hash_node P nd)))))))))"

text \<open>
  A different key reaches a promoted account: a branch with the account under a
  shorter path and the new leaf; \<open>common\<close> nibbles are shared.
\<close>

definition split_account :: "prims \<Rightarrow> config \<Rightarrow> ram_child \<Rightarrow> nibs \<Rightarrow> nat \<Rightarrow> nibs \<Rightarrow> bytes \<Rightarrow> leaf_op \<Rightarrow> bool
    \<Rightarrow> ram_child fm" where
  "split_account P cfg rehomed path common child_prefix key op ram =
     (let nibbles = key_nibbles key; d = walk_depth child_prefix in
      fbind (flift (index nibbles (d + common))) (\<lambda>new_idx.
      fbind (new_leaf P cfg (child_prefix @ slice nibbles d (common + 1)) key op ram) (\<lambda>leaf.
      fbind (flift (set_idx empty_children (unat (path ! common)) (Some rehomed))) (\<lambda>children.
      fbind (flift (set_idx children (unat new_idx) (Some leaf))) (\<lambda>children.
        fret (wrap_branch (take common path) children))))))"

text \<open>A key diverges inside an extension: the old child and the new leaf below a branch.\<close>

definition split_extension :: "prims \<Rightarrow> config \<Rightarrow> nibs \<Rightarrow> ram_node \<Rightarrow> nat \<Rightarrow> nibs \<Rightarrow> bytes \<Rightarrow> leaf_op \<Rightarrow> bool
    \<Rightarrow> ram_node fm" where
  "split_extension P cfg path child common prefix key op ram =
     (let nibbles = key_nibbles key;
          rest = drop (common + 1) path;
          old = (if rest = [] then child else RExtension rest child None) in
      fbind (flift (set_idx empty_children (unat (path ! common)) (Some (RRam old)))) (\<lambda>children.
      fbind (flift (index nibbles (walk_depth prefix + common))) (\<lambda>new_idx.
      fbind (new_leaf P cfg (prefix @ take common path @ [new_idx]) key op ram) (\<lambda>leaf.
      fbind (flift (set_idx children (unat new_idx) (Some leaf))) (\<lambda>children.
        (let branch = RBranch children None in
         fret (if common = 0 then branch else RExtension (take common path) branch None)))))))"

primrec insert_ram :: "prims \<Rightarrow> config \<Rightarrow> ram_node \<Rightarrow> nibs \<Rightarrow> bytes \<Rightarrow> leaf_op \<Rightarrow> bool \<Rightarrow> ram_node fm"
  and insert_child :: "prims \<Rightarrow> config \<Rightarrow> ram_child \<Rightarrow> nibs \<Rightarrow> bytes \<Rightarrow> leaf_op \<Rightarrow> bool \<Rightarrow> ram_child fm" where
  "insert_ram P cfg REmpty = (\<lambda>prefix key op ram.
     fbind (flift (index (key_nibbles key) (walk_depth prefix))) (\<lambda>idx.
     fbind (new_leaf P cfg (prefix @ [idx]) key op ram) (\<lambda>leaf.
     fbind (flift (set_idx empty_children (unat idx) (Some leaf))) (\<lambda>children.
       fret (RBranch children None)))))"
| "insert_ram P cfg (RExtension path child hash) = (\<lambda>prefix key op ram.
     fbind (flift (from_idx (key_nibbles key) (walk_depth prefix))) (\<lambda>rest.
       (let common = common_prefix path rest in
        if common < length path then split_extension P cfg path child common prefix key op ram
        else fbind (insert_ram P cfg child (prefix @ path) key op ram) (\<lambda>child.
               fret (RExtension path child None)))))"
| "insert_ram P cfg (RBranch children hash) = (\<lambda>prefix key op ram.
     (if walk_depth prefix = length (key_nibbles key)
      then flift (Err (Bail ''key terminates at a frontier branch; keys must be distinct and fixed-length''))
      else
        fbind (flift (index (key_nibbles key) (walk_depth prefix))) (\<lambda>idx.
        fbind (flift (index (map (map_option (insert_child P cfg)) children) (unat idx))) (\<lambda>slot.
        fbind (case slot of None \<Rightarrow> new_leaf P cfg (prefix @ [idx]) key op ram
               | Some ins \<Rightarrow> ins (prefix @ [idx]) key op ram) (\<lambda>child.
          fret (RBranch (children[unat idx := Some child]) None))))))"
| "insert_child P cfg (RRam nd) = (\<lambda>child_prefix key op ram.
     fbind (insert_ram P cfg nd child_prefix key op ram) (\<lambda>nd. fret (RRam nd)))"
| "insert_child P cfg (RMem bs root) = (\<lambda>child_prefix key op ram. insert_mem P cfg bs key op ram)"
| "insert_child P cfg (RDisk ptr root) = (\<lambda>child_prefix key op ram. insert_disk P cfg ptr key op ram)"
| "insert_child P cfg (RAccount path nonce balance code_hash storage) = (\<lambda>child_prefix key op ram.
     fbind (flift (from_idx (key_nibbles key) (walk_depth child_prefix))) (\<lambda>rest.
       (let common = common_prefix path rest in
        if common = length path then
          (case op of
             OpStorage skey value \<Rightarrow>
               fbind (insert_ram P cfg storage (key_nibbles key) skey (OpValue value) False) (\<lambda>storage.
                 fret (RAccount path nonce balance code_hash storage))
           | OpAccount n b ch \<Rightarrow> fret (RAccount path n (bal_bytes b) ch storage)
           | OpValue _ \<Rightarrow> flift (Err (Bail ''value op on a promoted account leaf'')))
        else split_account P cfg (RAccount (drop (common + 1) path) nonce balance code_hash storage)
               path common child_prefix key op ram)))"

definition insert_into_child :: "prims \<Rightarrow> config \<Rightarrow> ram_child option \<Rightarrow> nibs \<Rightarrow> bytes \<Rightarrow> leaf_op \<Rightarrow> bool
    \<Rightarrow> ram_child fm" where
  "insert_into_child P cfg slot child_prefix key op ram =
     (case slot of None \<Rightarrow> new_leaf P cfg child_prefix key op ram
      | Some c \<Rightarrow> insert_child P cfg c child_prefix key op ram)"

lemma index_map: "index (map g xs) i = res_map g (index xs i)"
  by (simp add: index_def)

lemma insert_ram_RBranch:
  "insert_ram P cfg (RBranch children hash) prefix key op ram =
     (if walk_depth prefix = length (key_nibbles key)
      then flift (Err (Bail ''key terminates at a frontier branch; keys must be distinct and fixed-length''))
      else
        fbind (flift (index (key_nibbles key) (walk_depth prefix))) (\<lambda>idx.
        fbind (flift (index children (unat idx))) (\<lambda>slot.
        fbind (insert_into_child P cfg slot (prefix @ [idx]) key op ram) (\<lambda>child.
          fret (RBranch (children[unat idx := Some child]) None)))))"
proof -
  have "fbind (flift (index (map (map_option (insert_child P cfg)) children) i)) (\<lambda>slot.
        fbind (case slot of None \<Rightarrow> new_leaf P cfg q key op ram | Some ins \<Rightarrow> ins q key op ram) k)
      = fbind (flift (index children i)) (\<lambda>slot. fbind (insert_into_child P cfg slot q key op ram) k)"
    for i q and k :: "ram_child \<Rightarrow> ram_node fm"
    by (auto simp: index_map index_def fbind_def flift_def insert_into_child_def fun_eq_iff split: option.splits)
  then show ?thesis by simp
qed

section \<open>Deletion\<close>

datatype ram_delete = RAbsent | RChanged | RRemoved | RCollapsed nibs ram_child

primrec free_ram_records :: "ram_node \<Rightarrow> unit fm"
  and free_child_records :: "ram_child \<Rightarrow> unit fm" where
  "free_ram_records REmpty = fret ()"
| "free_ram_records (RExtension path child hash) = free_ram_records child"
| "free_ram_records (RBranch children hash) =
     foldr (\<lambda>m k. fbind m (\<lambda>_. k)) (somes (map (map_option free_child_records) children)) (fret ())"
| "free_child_records (RRam sub) = free_ram_records sub"
| "free_child_records (RDisk ptr root) = ffree ptr"
| "free_child_records (RMem bs root) = fret ()"
| "free_child_records (RAccount path nonce balance code_hash storage) = free_ram_records storage"

text \<open>An extension over a node, merging with an extension below it.\<close>

fun merge_extension :: "nibs \<Rightarrow> ram_node \<Rightarrow> ram_node" where
  "merge_extension p (RExtension cp cc h) = RExtension (p @ cp) cc None"
| "merge_extension p other = RExtension p other None"

fun over_ram_child :: "nibs \<Rightarrow> ram_node \<Rightarrow> ram_node res" where
  "over_ram_child p (RExtension cp cc h) = Ok (RExtension (p @ cp) cc None)"
| "over_ram_child p (RBranch cs h) = Ok (RExtension p (RBranch cs h) None)"
| "over_ram_child p REmpty = Err (Panic ''empty RamNode as a branch child'')"

definition rehome_child :: "prims \<Rightarrow> config \<Rightarrow> bool \<Rightarrow> ram_child \<Rightarrow> nibs \<Rightarrow> nibs \<Rightarrow> ram_child fm" where
  "rehome_child P cfg ram survivor edge new_prefix =
     (case survivor of
        RRam sub \<Rightarrow> flift (res_map RRam (over_ram_child edge sub))
      | RDisk ptr root \<Rightarrow>
          fbind (fread_lazy P ptr) (\<lambda>subtree.
          fbind (flift (prepend_path P (ds_node subtree) edge)) (\<lambda>nd.
          fbind (ffree ptr) (\<lambda>_.
            make_leaf_child P cfg ram \<lparr>ds_prefix = new_prefix, ds_node = nd\<rparr>)))
      | RMem bs root \<Rightarrow>
          fbind (flift (parse_payload_lazy P bs)) (\<lambda>subtree.
          fbind (flift (prepend_path P (ds_node subtree) edge)) (\<lambda>nd.
            flift (make_mem_leaf P \<lparr>ds_prefix = new_prefix, ds_node = nd\<rparr>)))
      | RAccount path nonce balance code_hash storage \<Rightarrow>
          fret (RAccount (edge @ path) nonce balance code_hash storage))"

definition materialize_storage_survivor :: "prims \<Rightarrow> ram_child \<Rightarrow> nibs \<Rightarrow> node fm" where
  "materialize_storage_survivor P survivor edge =
     (case survivor of
        RDisk ptr root \<Rightarrow>
          fbind (fread_lazy P ptr) (\<lambda>subtree.
          fbind (flift (prepend_path P (ds_node subtree) edge)) (\<lambda>nd.
          fbind (ffree ptr) (\<lambda>_. fret nd)))
      | RMem bs root \<Rightarrow>
          fbind (flift (parse_payload_lazy P bs)) (\<lambda>subtree.
            flift (prepend_path P (ds_node subtree) edge))
      | _ \<Rightarrow> flift (Err (Panic ''storage frontiers collapse only to record survivors'')))"

definition delete_mem :: "prims \<Rightarrow> bytes \<Rightarrow> bytes \<Rightarrow> bytes \<Rightarrow> delete_op \<Rightarrow> (ram_child option \<times> ram_delete) fm" where
  "delete_mem P bs root key op =
     fbind (flift (parse_payload_lazy P bs)) (\<lambda>subtree.
     fbind (flift (delete_record P (ds_node subtree) (local_depth (ds_prefix subtree)) key op)) (\<lambda>(nd, out).
       (case out of
          Absent \<Rightarrow> fret (Some (RMem bs root), RAbsent)
        | Changed \<Rightarrow> fbind (flift (make_mem_leaf P (subtree\<lparr>ds_node := nd\<rparr>))) (\<lambda>c. fret (Some c, RChanged))
        | Removed \<Rightarrow> fret (None, RRemoved))))"

definition delete_disk :: "prims \<Rightarrow> config \<Rightarrow> disk_ptr \<Rightarrow> bytes \<Rightarrow> bytes \<Rightarrow> delete_op
    \<Rightarrow> (ram_child option \<times> ram_delete) fm" where
  "delete_disk P cfg ptr root key op =
     fbind (fread_lazy P ptr) (\<lambda>subtree.
     fbind (flift (delete_record P (ds_node subtree) (local_depth (ds_prefix subtree)) key op)) (\<lambda>(nd, out).
       (case out of
          Absent \<Rightarrow> fret (Some (RDisk ptr root), RAbsent)
        | Changed \<Rightarrow>
            fbind (ffree ptr) (\<lambda>_.
            fbind (make_leaf_child P cfg False (subtree\<lparr>ds_node := nd\<rparr>)) (\<lambda>c. fret (Some c, RChanged)))
        | Removed \<Rightarrow> fbind (ffree ptr) (\<lambda>_. fret (None, RRemoved)))))"

text \<open>A promoted account becomes a plain record again, unless it is still too big.\<close>

definition demote_account :: "prims \<Rightarrow> config \<Rightarrow> nibs \<Rightarrow> u64 \<Rightarrow> bytes \<Rightarrow> bytes \<Rightarrow> node \<Rightarrow> nibs \<Rightarrow> bool
    \<Rightarrow> ram_child fm" where
  "demote_account P cfg path nonce balance code_hash storage_node child_prefix ram =
     (let subtree = \<lparr>ds_prefix = child_prefix,
            ds_node = account_node P path nonce (bal_of balance) code_hash storage_node\<rparr> in
      if should_promote_account cfg subtree
      then promote_account_to_ram P cfg subtree (ram \<or> c_hot cfg)
      else make_leaf_child P cfg ram subtree)"

text \<open>A branch whose slot became empty.\<close>

definition drop_ram_child :: "ram_child option list \<Rightarrow> (ram_node \<times> ram_delete) res" where
  "drop_ram_child children =
     (case filter (\<lambda>j. children ! j \<noteq> None) [0..<length children] of
        [] \<Rightarrow> Ok (REmpty, RRemoved)
      | [j] \<Rightarrow>
          (case the (children ! j) of
             RRam sub \<Rightarrow> res_map (\<lambda>nd. (nd, RChanged)) (over_ram_child [word_of_nat j] sub)
           | other \<Rightarrow> Ok (REmpty, RCollapsed [word_of_nat j] other))
      | _ \<Rightarrow> Ok (RBranch children None, RChanged))"

primrec delete_ram :: "prims \<Rightarrow> config \<Rightarrow> ram_node \<Rightarrow> nibs \<Rightarrow> bytes \<Rightarrow> delete_op \<Rightarrow> bool \<Rightarrow> (ram_node \<times> ram_delete) fm"
  and delete_child :: "prims \<Rightarrow> config \<Rightarrow> ram_child \<Rightarrow> nibs \<Rightarrow> bytes \<Rightarrow> delete_op \<Rightarrow> bool
    \<Rightarrow> (ram_child option \<times> ram_delete) fm" where
  "delete_ram P cfg REmpty = (\<lambda>prefix key op ram. fret (REmpty, RAbsent))"
| "delete_ram P cfg (RExtension path child hash) = (\<lambda>prefix key op ram.
     fbind (flift (from_idx (key_nibbles key) (walk_depth prefix))) (\<lambda>rest.
       if \<not> starts_with rest path then fret (RExtension path child hash, RAbsent)
       else fbind (delete_ram P cfg child (prefix @ path) key op ram) (\<lambda>(child', out).
         (case out of
            RAbsent \<Rightarrow> fret (RExtension path child' hash, RAbsent)
          | RRemoved \<Rightarrow> fret (REmpty, RRemoved)
          | RCollapsed edge survivor \<Rightarrow> fret (REmpty, RCollapsed (path @ edge) survivor)
          | RChanged \<Rightarrow> fret (merge_extension path child', RChanged)))))"
| "delete_ram P cfg (RBranch children hash) = (\<lambda>prefix key op ram.
     fbind (flift (index (key_nibbles key) (walk_depth prefix))) (\<lambda>idx.
     fbind (flift (index (map (map_option (delete_child P cfg)) children) (unat idx))) (\<lambda>slot.
     fbind (case slot of None \<Rightarrow> fret (None, RAbsent) | Some del \<Rightarrow> del (prefix @ [idx]) key op ram) (\<lambda>(slot', out).
       (let children = children[unat idx := slot'] in
        (case out of
           RAbsent \<Rightarrow> fret (RBranch children hash, RAbsent)
         | RChanged \<Rightarrow> fret (RBranch children None, RChanged)
         | RCollapsed _ _ \<Rightarrow> flift (Err (Panic ''collapse is materialized in delete_in_child''))
         | RRemoved \<Rightarrow> flift (drop_ram_child children)))))))"
| "delete_child P cfg (RRam sub) = (\<lambda>child_prefix key op ram.
     fbind (delete_ram P cfg sub child_prefix key op ram) (\<lambda>(sub', out).
       (case out of
          RAbsent \<Rightarrow> fret (Some (RRam sub'), RAbsent)
        | RChanged \<Rightarrow> fret (Some (RRam sub'), RChanged)
        | RRemoved \<Rightarrow> fret (None, RRemoved)
        | RCollapsed edge survivor \<Rightarrow>
            fbind (rehome_child P cfg ram survivor edge child_prefix) (\<lambda>c. fret (Some c, RChanged)))))"
| "delete_child P cfg (RMem bs root) = (\<lambda>child_prefix key op ram. delete_mem P bs root key op)"
| "delete_child P cfg (RDisk ptr root) = (\<lambda>child_prefix key op ram. delete_disk P cfg ptr root key op)"
| "delete_child P cfg (RAccount path nonce balance code_hash storage) = (\<lambda>child_prefix key op ram.
     fbind (flift (from_idx (key_nibbles key) (walk_depth child_prefix))) (\<lambda>rest.
       if rest \<noteq> path then fret (Some (RAccount path nonce balance code_hash storage), RAbsent)
       else (case op of
          DelValue \<Rightarrow> flift (Err (Bail ''value delete on a promoted account leaf''))
        | DelAccount \<Rightarrow> fbind (free_ram_records storage) (\<lambda>_. fret (None, RRemoved))
        | DelWipeStorage \<Rightarrow>
            fbind (free_ram_records storage) (\<lambda>_.
            fbind (make_leaf_child P cfg ram \<lparr>ds_prefix = child_prefix,
                     ds_node = account_node P path nonce (bal_of balance) code_hash Empty\<rparr>) (\<lambda>c.
              fret (Some c, RChanged)))
        | DelStorage skey \<Rightarrow>
            fbind (delete_ram P cfg storage (key_nibbles key) skey DelValue False) (\<lambda>(storage', out).
              (case out of
                 RAbsent \<Rightarrow> fret (Some (RAccount path nonce balance code_hash storage'), RAbsent)
               | RChanged \<Rightarrow> fret (Some (RAccount path nonce balance code_hash storage'), RChanged)
               | RRemoved \<Rightarrow>
                   fbind (demote_account P cfg path nonce balance code_hash Empty child_prefix ram) (\<lambda>c.
                     fret (Some c, RChanged))
               | RCollapsed edge survivor \<Rightarrow>
                   fbind (materialize_storage_survivor P survivor edge) (\<lambda>storage_node.
                   fbind (demote_account P cfg path nonce balance code_hash storage_node child_prefix ram) (\<lambda>c.
                     fret (Some c, RChanged))))))))"

definition delete_in_child :: "prims \<Rightarrow> config \<Rightarrow> ram_child option \<Rightarrow> nibs \<Rightarrow> bytes \<Rightarrow> delete_op \<Rightarrow> bool
    \<Rightarrow> (ram_child option \<times> ram_delete) fm" where
  "delete_in_child P cfg slot child_prefix key op ram =
     (case slot of None \<Rightarrow> fret (None, RAbsent)
      | Some c \<Rightarrow> delete_child P cfg c child_prefix key op ram)"

definition collapse_root :: "prims \<Rightarrow> config \<Rightarrow> nibs \<Rightarrow> ram_child \<Rightarrow> ram_node fm" where
  "collapse_root P cfg edge survivor =
     fbind (case survivor of
         RDisk ptr root \<Rightarrow>
           fbind (fread_lazy P ptr) (\<lambda>subtree.
           fbind (flift (prepend_path P (ds_node subtree) edge)) (\<lambda>nd.
           fbind (ffree ptr) (\<lambda>_. fret nd)))
       | RMem bs root \<Rightarrow>
           fbind (flift (parse_payload_lazy P bs)) (\<lambda>subtree.
             flift (prepend_path P (ds_node subtree) edge))
       | RAccount _ _ _ _ _ \<Rightarrow>
           flift (Err (Bail ''trie collapsed to a single account at the root (unsupported below 2 keys)''))
       | RRam _ \<Rightarrow> flift (Err (Panic ''Ram survivors merge in place''))) (\<lambda>nd.
     (let subtree = \<lparr>ds_prefix = [], ds_node = nd\<rparr> in
      if top_branch_prefix subtree = None
      then flift (Err (Bail ''trie collapsed to a single leaf at the root (unsupported below 2 keys)''))
      else fbind (promote_record_to_ram P cfg REC_FUEL subtree) (\<lambda>c.
        (case c of RRam r \<Rightarrow> fret r
         | _ \<Rightarrow> flift (Err (Panic ''promote_record_to_ram returns a Ram node''))))))"

section \<open>The database\<close>

text \<open>
  \<^verbatim>\<open>FlatMpt\<close>: the configuration, the frontier, the RAM-build flag and the cleaning rate; the
  store is threaded through the operations.
\<close>

record flat_mpt =
  db_cfg :: config
  db_upper :: ram_node
  db_ram :: bool
  db_gc :: nat

definition db_root :: "prims \<Rightarrow> flat_mpt \<Rightarrow> (bytes \<times> flat_mpt) res" where
  "db_root P db = res_map (\<lambda>(h, u). (h, db\<lparr>db_upper := u\<rparr>)) (hash_ram P (db_upper db))"

definition insert_op :: "prims \<Rightarrow> flat_mpt \<Rightarrow> bytes \<Rightarrow> leaf_op \<Rightarrow> (bytes \<times> flat_mpt) fm" where
  "insert_op P db key op =
     fbind (insert_ram P (db_cfg db) (db_upper db) [] key op (db_ram db)) (\<lambda>u.
       flift (db_root P (db\<lparr>db_upper := u\<rparr>)))"

definition delete_op_db :: "prims \<Rightarrow> flat_mpt \<Rightarrow> bytes \<Rightarrow> delete_op \<Rightarrow> (bytes \<times> flat_mpt) fm" where
  "delete_op_db P db key op =
     fbind (delete_ram P (db_cfg db) (db_upper db) [] key op (db_ram db)) (\<lambda>(u, out).
     fbind (case out of
         RAbsent \<Rightarrow> fret u
       | RChanged \<Rightarrow> fret u
       | RRemoved \<Rightarrow> fret REmpty
       | RCollapsed edge survivor \<Rightarrow> collapse_root P (db_cfg db) edge survivor) (\<lambda>u.
       flift (db_root P (db\<lparr>db_upper := u\<rparr>))))"

definition get_value :: "prims \<Rightarrow> flat_file \<Rightarrow> flat_mpt \<Rightarrow> bytes \<Rightarrow> bytes option res" where
  "get_value P f db key = ram_get P f (db_upper db) (key_nibbles key) 0"

definition get_storage :: "prims \<Rightarrow> flat_file \<Rightarrow> flat_mpt \<Rightarrow> bytes \<Rightarrow> bytes \<Rightarrow> bytes option res" where
  "get_storage P f db account_key slot_key =
     ram_get_storage P f (db_upper db) (key_nibbles account_key) 0 slot_key"

end
