(* ===== verification/FrontierRep.thy ===== *)
theory FrontierRep
  imports Frontier RecordProofs FlatProofs
begin

text \<open>
  What a frontier stands for: \<open>frep\<close> relates a frontier node at a nibble prefix
  to a trie, given the live records of the file; \<open>fptrs\<close> lists the records a
  frontier owns. Point reads return what the trie holds. The rules for
  \<open>fspec\<close> reduce a store operation to its postcondition.
\<close>

section \<open>Postconditions of store operations\<close>

text \<open>
  The failures the frontier operations can have: an error value, or the abort of
  a promotion asked to split an account whose storage is a single oversized slot.
\<close>

definition fails :: "err \<Rightarrow> bool" where
  "fails e \<longleftrightarrow> (\<exists>s. e = Bail s) \<or> e = Panic ''promote called on a record without a top branch''"

lemma fails_simps [simp]: "fails (Bail s)" "\<not> fails NoFuel" "\<not> fails (IoErr s)"
  "fails (Panic s) \<longleftrightarrow> s = ''promote called on a record without a top branch''"
  by (simp_all add: fails_def)

definition fspec :: "'a fm \<Rightarrow> flat_file \<Rightarrow> ('a \<Rightarrow> flat_file \<Rightarrow> bool) \<Rightarrow> bool" where
  "fspec m f Q = (case m f of (Ok x, f') \<Rightarrow> Q x f' | (Err e, f') \<Rightarrow> fails e)"

lemma fspec_bind [simp]: "fspec (fbind m g) f Q = fspec m f (\<lambda>x f'. fspec (g x) f' Q)"
  by (auto simp: fspec_def fbind_def split: prod.splits res.splits)

lemma fspec_ret [simp]: "fspec (fret x) f Q = Q x f"
  by (simp add: fspec_def fret_def)

lemma fspec_lift [simp]: "fspec (flift (Ok x)) f Q = Q x f" "fspec (flift (Err e)) f Q = fails e"
  by (simp_all add: fspec_def flift_def)

lemma fspec_free [simp]: "fspec (ffree ptr) f Q = Q () (ff_free f ptr)"
  by (simp add: fspec_def ffree_def)

lemma fspec_mono: "fspec m f Q \<Longrightarrow> (\<And>x f'. Q x f' \<Longrightarrow> R x f') \<Longrightarrow> fspec m f R"
  by (auto simp: fspec_def split: prod.splits res.splits)

lemma fspec_if [simp]: "fspec (if b then m else m') f Q = (if b then fspec m f Q else fspec m' f Q)"
  by simp

section \<open>Ownership\<close>

primrec fptrs :: "ram_node \<Rightarrow> disk_ptr list" and cptrs :: "ram_child \<Rightarrow> disk_ptr list" where
  "fptrs REmpty = []"
| "fptrs (RExtension p c h) = fptrs c"
| "fptrs (RBranch cs h) = concat (somes (map (map_option cptrs) cs))"
| "cptrs (RRam n) = fptrs n"
| "cptrs (RDisk ptr root) = [ptr]"
| "cptrs (RMem bs root) = []"
| "cptrs (RAccount p n b c st) = fptrs st"

text \<open>The live records change from \<open>M\<close> to \<open>M'\<close> by giving up \<open>A\<close> and creating \<open>B\<close>.\<close>

definition swaps :: "(disk_ptr \<rightharpoonup> bytes) \<Rightarrow> (disk_ptr \<rightharpoonup> bytes) \<Rightarrow> disk_ptr list \<Rightarrow> disk_ptr list \<Rightarrow> bool" where
  "swaps M M' A B \<longleftrightarrow> distinct B \<and> set B \<inter> (dom M - set A) = {} \<and> dom M' = (dom M - set A) \<union> set B \<and>
     (\<forall>p x. M p = Some x \<longrightarrow> p \<notin> set A \<longrightarrow> M' p = Some x)"

lemma swaps_refl: "distinct A \<Longrightarrow> set A \<subseteq> dom M \<Longrightarrow> swaps M M A A"
  by (auto simp: swaps_def)

lemma swaps_trans:
  assumes "swaps M M1 A B" and "swaps M1 M2 B C"
  shows "swaps M M2 A C"
proof -
  have d: "dom M1 - set B = dom M - set A" using assms(1) by (auto simp: swaps_def)
  have "M2 p = Some x" if "M p = Some x" "p \<notin> set A" for p x
  proof -
    have "p \<in> dom M - set A" using that by auto
    then have "p \<notin> set B" using assms(1) by (auto simp: swaps_def)
    then show ?thesis using that assms by (simp add: swaps_def)
  qed
  then show ?thesis using assms d by (simp add: swaps_def)
qed

lemma swaps_frame:
  assumes "swaps M M' A B" and "distinct (L @ A @ R)" and "set (L @ A @ R) \<subseteq> dom M"
  shows "swaps M M' (L @ A @ R) (L @ B @ R)"
  using assms by (auto simp: swaps_def)

lemma swaps_keeps:
  assumes "swaps M M' A B" and "M p = Some x" and "p \<notin> set A"
  shows "M' p = Some x"
  using assms by (auto simp: swaps_def)

lemma swaps_create: "ptr \<notin> dom M \<Longrightarrow> swaps M (M(ptr \<mapsto> x)) [] [ptr]"
  by (auto simp: swaps_def)

lemma swaps_drop: "swaps M (M(ptr := None)) [ptr] []"
  by (auto simp: swaps_def)

lemma slots_ptrs_update:
  assumes "i < length cs"
  shows "concat (somes (map (map_option cptrs) (cs[i := s]))) =
    concat (somes (map (map_option cptrs) (take i cs))) @ (case s of None \<Rightarrow> [] | Some c \<Rightarrow> cptrs c) @
    concat (somes (map (map_option cptrs) (drop (Suc i) cs)))"
  using assms by (cases s) (simp_all add: somes_update map_update take_map drop_map)

lemma slots_ptrs_split:
  assumes "i < length cs"
  shows "concat (somes (map (map_option cptrs) cs)) =
    concat (somes (map (map_option cptrs) (take i cs))) @ (case cs ! i of None \<Rightarrow> [] | Some c \<Rightarrow> cptrs c) @
    concat (somes (map (map_option cptrs) (drop (Suc i) cs)))"
  using slots_ptrs_update [OF assms, of "cs ! i"] by simp

section \<open>Representation\<close>

fun slot_rep :: "(nibs \<Rightarrow> trie \<Rightarrow> bool) option \<Rightarrow> nibs \<Rightarrow> trie option \<Rightarrow> bool" where
  "slot_rep None pre t = (t = None)"
| "slot_rep (Some R) pre t = (\<exists>u. t = Some u \<and> R pre u)"

text \<open>The hash without memoization.\<close>

definition fh_branch :: "prims \<Rightarrow> bytes option list \<Rightarrow> bytes" where
  "fh_branch P hs = finalize P (mk_ref P
     (rlp_list P (slot_items P (map (map_option NHash) hs) @ [rlp_string P []])))"

primrec fh :: "prims \<Rightarrow> ram_node \<Rightarrow> bytes" and ch :: "prims \<Rightarrow> ram_child \<Rightarrow> bytes" where
  "fh P REmpty = empty_hash P"
| "fh P (RExtension p c h) = finalize P (ext_ref P p (NHash (fh P c)))"
| "fh P (RBranch cs h) = fh_branch P (map (map_option (ch P)) cs)"
| "ch P (RRam n) = fh P n"
| "ch P (RDisk ptr root) = root"
| "ch P (RMem bs root) = root"
| "ch P (RAccount p n b c st) = finalize P (leaf_ref P p (ram_account_rlp P n b c (fh P st)))"

definition memo :: "bytes option \<Rightarrow> bytes \<Rightarrow> bool" where
  "memo h x = (h = None \<or> h = Some x)"

primrec frep :: "prims \<Rightarrow> (disk_ptr \<rightharpoonup> bytes) \<Rightarrow> ram_node \<Rightarrow> nibs \<Rightarrow> trie \<Rightarrow> bool"
  and crep :: "prims \<Rightarrow> (disk_ptr \<rightharpoonup> bytes) \<Rightarrow> ram_child \<Rightarrow> nibs \<Rightarrow> trie \<Rightarrow> bool" where
  "frep P M REmpty = (\<lambda>pre t. t = TEmpty)"
| "frep P M (RExtension p c h) = (\<lambda>pre t. memo h (fh P (RExtension p c h)) \<and>
     (\<exists>u. t = TExt p u \<and> frep P M c (pre @ p) u))"
| "frep P M (RBranch cs h) = (\<lambda>pre t. memo h (fh P (RBranch cs h)) \<and>
     (\<exists>ts. t = TBranch ts \<and> length cs = 16 \<and> length ts = 16 \<and>
       (\<forall>i < 16. slot_rep (map (map_option (crep P M)) cs ! i) (pre @ [word_of_nat i]) (ts ! i))))"
| "crep P M (RRam n) = (\<lambda>pre t. frep P M n pre t)"
| "crep P M (RDisk ptr root) = (\<lambda>pre t. M ptr = Some (nib_path pre @ enc P t) \<and> root = troot P t)"
| "crep P M (RMem bs root) = (\<lambda>pre t. bs = nib_path pre @ enc P t \<and> root = troot P t)"
| "crep P M (RAccount p n b c st) = (\<lambda>pre t. length (pre @ p) = 64 \<and>
     (\<exists>bal s. t = TAcct p n bal c s \<and> s \<noteq> TEmpty \<and> b = bal_bytes bal \<and> frep P M st (pre @ p) s))"

lemma frep_RBranch:
  "frep P M (RBranch cs h) pre t \<longleftrightarrow> memo h (fh P (RBranch cs h)) \<and>
     (\<exists>ts. t = TBranch ts \<and> length cs = 16 \<and> length ts = 16 \<and>
       (\<forall>i < 16. rel_option (\<lambda>c u. crep P M c (pre @ [word_of_nat i]) u) (cs ! i) (ts ! i)))"
proof -
  have "slot_rep (map (map_option (crep P M)) cs ! i) q x = rel_option (\<lambda>c u. crep P M c q u) (cs ! i) x"
    if "i < length cs" for i q x
    using that by (cases "cs ! i"; cases x) auto
  then show ?thesis by auto
qed

declare frep.simps(3) [simp del]

lemma memo_None [simp]: "memo None x"
  by (simp add: memo_def)

lemma frep_cong:
  "(\<And>p. p \<in> set (fptrs n) \<Longrightarrow> M' p = M p) \<Longrightarrow> frep P M n pre t \<Longrightarrow> frep P M' n pre t"
  "(\<And>p. p \<in> set (cptrs c) \<Longrightarrow> M' p = M p) \<Longrightarrow> crep P M c pre t \<Longrightarrow> crep P M' c pre t"
proof (induction n and c arbitrary: pre t and pre t)
  case (RBranch cs h)
  obtain ts where ts: "memo h (fh P (RBranch cs h))" "t = TBranch ts" "length cs = 16" "length ts = 16"
    "\<And>i. i < 16 \<Longrightarrow> rel_option (\<lambda>c u. crep P M c (pre @ [word_of_nat i]) u) (cs ! i) (ts ! i)"
    using RBranch.prems(2) unfolding frep_RBranch by auto
  have "rel_option (\<lambda>c u. crep P M' c (pre @ [word_of_nat i]) u) (cs ! i) (ts ! i)" if i: "i < 16" for i
  proof (cases "cs ! i")
    case (Some c)
    then obtain u where u: "ts ! i = Some u" "crep P M c (pre @ [word_of_nat i]) u"
      using ts(5) [OF i] by (auto simp: option_rel_Some1)
    have m: "cs ! i \<in> set cs" "c \<in> set_option (cs ! i)" using i ts(3) Some nth_mem [of i cs] by auto
    have "M' p = M p" if "p \<in> set (cptrs c)" for p
      using RBranch.prems(1) [of p] that slots_ptrs_split [of i cs] i ts(3) Some by auto
    from RBranch.IH [OF m this u(2)] show ?thesis using Some u(1) by simp
  qed (use ts(5) [OF i] in simp)
  then show ?case unfolding frep_RBranch using ts(1-4) by blast
qed auto

lemma frep_ptrs:
  "frep P M n pre t \<Longrightarrow> set (fptrs n) \<subseteq> dom M"
  "crep P M c pre t \<Longrightarrow> set (cptrs c) \<subseteq> dom M"
proof (induction n and c arbitrary: pre t and pre t)
  case (RBranch cs h)
  obtain ts where ts: "length cs = 16"
    "\<And>i. i < 16 \<Longrightarrow> rel_option (\<lambda>c u. crep P M c (pre @ [word_of_nat i]) u) (cs ! i) (ts ! i)"
    using RBranch.prems unfolding frep_RBranch by auto
  show ?case
  proof
    fix p
    assume "p \<in> set (fptrs (RBranch cs h))"
    then obtain c where c: "Some c \<in> set cs" "p \<in> set (cptrs c)"
      by (auto simp: set_somes eq_commute [of "Some _" "map_option _ _"])
    then obtain i where i: "i < 16" "cs ! i = Some c" using ts(1) by (auto simp: in_set_conv_nth)
    then obtain u where "crep P M c (pre @ [word_of_nat i]) u" using ts(2) [OF i(1)] by (auto simp: option_rel_Some1)
    then have "set (cptrs c) \<subseteq> dom M" using RBranch.IH [of "Some c" c] c(1) by auto
    then show "p \<in> dom M" using c(2) by blast
  qed
qed auto

lemma swaps_other:
  assumes "swaps M M' A B" and "crep P M c pre t" and "set (cptrs c) \<inter> set A = {}"
  shows "crep P M' c pre t"
proof (rule frep_cong(2) [OF _ assms(2)])
  fix p
  assume "p \<in> set (cptrs c)"
  then have "p \<in> dom M - set A" using frep_ptrs(2) [OF assms(2)] assms(3) by auto
  then obtain x where "M p = Some x" "p \<notin> set A" by auto
  then show "M' p = M p" using assms(1) by (simp add: swaps_def)
qed

section \<open>Parsed spines\<close>

text \<open>
  A lazily read node is parsed along extensions and into an account's storage:
  only children of branches can still be slices.
\<close>

primrec sp :: "node \<Rightarrow> bool" where
  "sp Empty = True"
| "sp (Leaf p v r) = True"
| "sp (Extension p c r) = (sp c \<and> \<not> is_raw c)"
| "sp (Branch cs r) = list_all (pred_option sp) cs"
| "sp (Overflow ptr root) = True"
| "sp (Raw buf off len r) = True"
| "sp (Account p n b c s sr r) = (sp s \<and> \<not> is_raw s)"

lemma sp_Branch [simp]: "sp (Branch cs r) = (\<forall>c. Some c \<in> set cs \<longrightarrow> sp c)"
  by (auto simp: list_all_iff) (metis option.exhaust option.pred_inject)+

declare sp.simps(4) [simp del]

lemma lz_slots_sp:
  assumes "lz_slots P rd buf bm is lens pos = Ok (cs, pos')" and "\<And>q n q'. rd q = Ok (n, q') \<Longrightarrow> sp n"
    and "Some c \<in> set cs"
  shows "sp c"
  using assms(1,3)
proof (induction "is" arbitrary: lens pos cs)
  case (Cons i "is")
  then show ?case using assms(2)
    by (auto simp: res_simps Let_def split: if_splits prod.splits)
qed simp

lemma lz_node_sp: "lz_node P fuel buf pos = Ok (n, pos') \<Longrightarrow> sp n \<and> \<not> is_raw n"
proof (induction fuel arbitrary: pos n pos')
  case (Suc fuel)
  have "sp c" if "lz_slots P (lz_node P fuel buf) buf bm is lens q = Ok (cs, q')" "Some c \<in> set cs"
    for bm "is" lens q cs q' c
    using lz_slots_sp [OF that(1) _ that(2)] Suc.IH by blast
  then show ?case using Suc.prems Suc.IH
    by (auto simp: res_simps account_node_def Let_def split: if_splits prod.splits)
qed simp

lemma parse_node_sp: "parse_node_lazy P buf off len = Ok n \<Longrightarrow> sp n \<and> \<not> is_raw n"
  using lz_node_sp by (auto simp: parse_node_lazy_def res_simps simp del: lz_node.simps split: if_splits)

lemma expand_sp: "expand P n = Ok n' \<Longrightarrow> sp n \<Longrightarrow> sp n' \<and> \<not> is_raw n'"
  by (cases n) (auto dest: parse_node_sp)

lemma deserialize_lazy_sp: "deserialize_subtree_lazy P buf = Ok sub \<Longrightarrow> sp (ds_node sub) \<and> \<not> is_raw (ds_node sub)"
  using lz_node_sp
  by (auto simp: deserialize_subtree_lazy_def res_simps simp del: lz_node.simps split: if_splits prod.splits)

lemma sp_constructors [simp]:
  "sp (leaf_node P p v)" "\<not> is_raw (leaf_node P p v)" "\<not> is_raw (account_node P p n b c s)"
  "sp (account_node P p n b c s) = (sp s \<and> \<not> is_raw s)" "\<not> is_raw (make_extension P p m)"
  "sp (make_extension P p m) = (sp m \<and> \<not> is_raw m)"
  by (simp_all add: leaf_node_def account_node_def make_extension_def Let_def)

lemma make_branch_sp:
  assumes "make_branch P cs = Ok n" and "\<And>c. Some c \<in> set cs \<Longrightarrow> sp c"
  shows "sp n \<and> \<not> is_raw n"
  using assms by (auto simp: make_branch_def res_simps)

definition keeps_sp :: "inserter \<Rightarrow> bool" where
  "keeps_sp ins = (\<forall>n d key op n'. ins n d key op = Ok n' \<longrightarrow> sp n \<longrightarrow> sp n' \<and> \<not> is_raw n')"

lemma keeps_spD: "keeps_sp ins \<Longrightarrow> ins n d key op = Ok n' \<Longrightarrow> sp n \<Longrightarrow> sp n' \<and> \<not> is_raw n'"
  unfolding keeps_sp_def by blast

lemma place_new_sp: "keeps_sp ins \<Longrightarrow> place_new P ins key op d = Ok n \<Longrightarrow> sp n \<and> \<not> is_raw n"
  by (cases op) (auto simp: place_new_def res_simps dest: keeps_spD)

lemma apply_op_sp: "keeps_sp ins \<Longrightarrow> apply_op P ins old path op = Ok n \<Longrightarrow> sp old \<Longrightarrow> sp n \<and> \<not> is_raw n"
  by (cases old; cases op) (auto simp: res_simps dest: keeps_spD split: option.splits if_splits)

lemma rehome_sp: "rehome P old path = Ok n \<Longrightarrow> sp old \<Longrightarrow> sp n \<and> \<not> is_raw n"
  by (cases old) auto

lemma split_branch_sp:
  assumes "split_branch P path c o' j n' = Ok n" and "sp o'" and "sp n'"
  shows "sp n \<and> \<not> is_raw n"
proof -
  let ?cs = "(replicate 16 None)[unat (path ! c) := Some o', unat j := Some n']"
  have "res_bind (make_branch P ?cs) (\<lambda>b. Ok (if c = 0 then b else make_extension P (take c path) b)) = Ok n"
    using assms(1) by (simp add: split_branch_def set_idx_def empty_box_children_def split: if_splits)
  then obtain b where b: "make_branch P ?cs = Ok b" "n = (if c = 0 then b else make_extension P (take c path) b)"
    by (cases "make_branch P ?cs") auto
  have "set ?cs \<subseteq> {None, Some o', Some n'}"
    by (auto dest!: subsetD [OF set_update_subset_insert])
  then have "sp b \<and> \<not> is_raw b" using make_branch_sp [OF b(1)] assms(2,3) by auto
  then show ?thesis using b(2) by simp
qed

lemma insert_keeps_sp: "keeps_sp (record_node_insert P fuel)"
proof (induction fuel)
  case (Suc f)
  note D = keeps_spD [OF Suc] and N = place_new_sp [OF Suc] and A = apply_op_sp [OF Suc]
  show ?case
    unfolding keeps_sp_def
  proof (intro allI impI)
    fix n d key op n'
    assume ins: "record_node_insert P (Suc f) n d key op = Ok n'" and "sp n"
    from ins obtain old where old: "expand P n = Ok old" by (auto simp: record_node_insert.simps(2) Let_def res_simps)
    then have so: "sp old" "\<not> is_raw old" using expand_sp \<open>sp n\<close> by blast+
    show "sp n' \<and> \<not> is_raw n'"
    proof (cases old)
      case (Branch cs r)
      obtain i slot c where c: "index cs i = Ok slot" "make_branch P (cs[i := Some c]) = Ok n'"
        "(case slot of None \<Rightarrow> place_new P (record_node_insert P f) key op (d + 1)
          | Some child \<Rightarrow> (case child of Overflow ptr root \<Rightarrow>
                Err (Panic ''on-disk Overflow under promote-on-max (option B)'')
              | _ \<Rightarrow> record_node_insert P f child (d + 1) key op)) = Ok c"
        using ins old Branch by (auto simp: record_node_insert.simps(2) Let_def res_simps)
      have "sp x" if "Some x \<in> set cs" for x using so that Branch by simp
      moreover have "slot \<in> set cs" using c(1) by (auto simp: index_def split: if_splits)
      ultimately have sl: "sp x" if "slot = Some x" for x using that by simp
      have "sp c"
      proof (cases slot)
        case (Some child)
        then have "record_node_insert P f child (d + 1) key op = Ok c" using c(3) by (cases child) auto
        then show ?thesis using D sl [OF Some] by blast
      qed (use c(3) N in auto)
      then have "sp x" if "Some x \<in> set (cs[i := Some c])" for x
        using that so Branch set_update_subset_insert [of cs i "Some c"] by auto
      then show ?thesis using make_branch_sp [OF c(2)] by blast
    next
      case (Extension p c r)
      then show ?thesis using ins old so
        by (auto simp: record_node_insert.simps(2) Let_def res_simps split: if_splits
            dest!: split_branch_sp N D)
    next
      case (Leaf p v r)
      then show ?thesis using ins old so
        by (auto simp: record_node_insert.simps(2) Let_def res_simps split: if_splits
            dest!: split_branch_sp rehome_sp N A)
    next
      case (Account p no b c s sr r)
      then show ?thesis using ins old so
        by (auto simp: record_node_insert.simps(2) Let_def res_simps split: if_splits
            dest!: split_branch_sp rehome_sp N A)
    qed (use ins old so N in \<open>auto simp: record_node_insert.simps(2) Let_def res_simps\<close>)
  qed
qed (simp add: keeps_sp_def)

end
