(* ===== verification/FrontierGet.thy ===== *)
theory FrontierGet
  imports FrontierRep
begin

text \<open>
  Positions in the frontier, reading the records below it, the memoized hash and
  the point reads.
\<close>

section \<open>Positions\<close>

text \<open>\<open>r\<close> nibbles of the key remain at prefix \<open>pre\<close>; storage prefixes are composite.\<close>

definition at_depth :: "nibs \<Rightarrow> nat \<Rightarrow> bool" where
  "at_depth pre r = (walk_depth pre + r = 64 \<and> length pre \<le> 128 \<and> nibs_ok pre)"

lemma at_depth_Nil [simp]: "at_depth [] 64"
  by (simp add: at_depth_def walk_depth_def)

lemma at_depth_storage: "length pre = 64 \<Longrightarrow> nibs_ok pre \<Longrightarrow> at_depth pre 64"
  by (simp add: at_depth_def walk_depth_def)

lemma at_depth_bounds: "at_depth pre r \<Longrightarrow> r \<le> 64" "at_depth pre r \<Longrightarrow> walk_depth pre = 64 - r"
  by (auto simp: at_depth_def)

lemma nibble_of_nat: "i < 16 \<Longrightarrow> (word_of_nat i :: byte) < 16" "i < 16 \<Longrightarrow> unat (word_of_nat i :: byte) = i"
  by (simp_all add: word_less_nat_alt unat_of_nat)

lemma at_depth_child:
  assumes "at_depth pre r" and "0 < r" and "length pre \<noteq> 63" and "x < 16"
  shows "at_depth (pre @ [x]) (r - 1)" and "local_depth (pre @ [x]) = 64 - (r - 1)"
    and "walk_depth (pre @ [x]) = walk_depth pre + 1" and "length (pre @ [x]) \<noteq> 64"
  using assms by (auto simp: at_depth_def walk_depth_def local_depth_def split: if_splits)

lemma at_depth_ext:
  assumes "at_depth pre r" and "length p < r" and "nibs_ok p"
  shows "at_depth (pre @ p) (r - length p)" and "walk_depth (pre @ p) = walk_depth pre + length p"
  using assms by (auto simp: at_depth_def walk_depth_def split: if_splits)

lemma drop_child_key:
  assumes "length nibbles = 64" and "d + r = 64" and "0 < r"
  obtains x where "nibbles ! d = x" and "drop d nibbles = x # drop (d + 1) nibbles" and "d < length nibbles"
  using assms that [of "nibbles ! d"] by (simp add: Cons_nth_drop_Suc)

section \<open>Records below the frontier\<close>

lemma payload_parse:
  assumes "keccak_len P" and "wf t r" and "at_depth pre r" and "length (enc P t) < 2 ^ 32"
  obtains n where "deserialize_subtree_lazy P (nib_path pre @ enc P t) = Ok \<lparr>ds_prefix = pre, ds_node = n\<rparr>"
    and "repr P n t" and "\<not> is_raw n" and "sp n"
proof -
  have "r \<le> 128" "nibs_ok pre" "length pre \<le> 128" "wf0 t r"
    using assms(2,3) by (auto simp: at_depth_def wf0_def)
  from deserialize_lazy_enc [OF assms(1) this(4,1-3) assms(4)] obtain n where
    n: "deserialize_subtree_lazy P (nib_path pre @ enc P t) = Ok \<lparr>ds_prefix = pre, ds_node = n\<rparr>"
    "repr P n t" "\<not> is_raw n" by blast
  moreover have "sp n" using deserialize_lazy_sp [OF n(1)] by simp
  ultimately show thesis by (rule that)
qed

lemma disk_read:
  assumes "keccak_len P" and "wf t r" and "at_depth pre r" and "readable f M"
    and "crep P M (RDisk ptr root) pre t"
  obtains n where "read_lazy P f ptr = Ok \<lparr>ds_prefix = pre, ds_node = n\<rparr>"
    and "repr P n t" and "\<not> is_raw n" and "sp n"
proof -
  have m: "M ptr = Some (nib_path pre @ enc P t)" using assms(5) by simp
  then have "length (nib_path pre @ enc P t) \<le> MAX_RECORD_BYTES" using assms(4) unfolding readable_def by blast
  then have "length (enc P t) < 2 ^ 32" by simp
  from payload_parse [OF assms(1-3) this] show thesis
    using that read_lazy_rel [OF assms(4) m, of P] by metis
qed

primrec mem_ok :: "ram_node \<Rightarrow> bool" and mem_ok_child :: "ram_child \<Rightarrow> bool" where
  "mem_ok REmpty = True"
| "mem_ok (RExtension p c h) = mem_ok c"
| "mem_ok (RBranch cs h) = list_all (pred_option mem_ok_child) cs"
| "mem_ok_child (RRam n) = mem_ok n"
| "mem_ok_child (RDisk ptr root) = True"
| "mem_ok_child (RMem bs root) = (length bs < 2 ^ 32)"
| "mem_ok_child (RAccount p n b c st) = mem_ok st"

lemma mem_ok_RBranch [simp]: "mem_ok (RBranch cs h) = (\<forall>c. Some c \<in> set cs \<longrightarrow> mem_ok_child c)"
  by (auto simp: list_all_iff) (metis option.exhaust option.pred_inject)+

declare mem_ok.simps(3) [simp del]

lemma mem_read:
  assumes "keccak_len P" and "wf t r" and "at_depth pre r" and "crep P M (RMem bs root) pre t"
    and "mem_ok_child (RMem bs root)"
  obtains n where "parse_payload_lazy P bs = Ok \<lparr>ds_prefix = pre, ds_node = n\<rparr>"
    and "repr P n t" and "\<not> is_raw n" and "sp n"
proof -
  have "length (enc P t) < 2 ^ 32" using assms(4,5) by simp
  from payload_parse [OF assms(1-3) this] show thesis
    using that assms(4) by (auto simp: parse_payload_lazy_def)
qed

section \<open>Canonical form below the root\<close>

text \<open>
  The root branch may have a single child while the database holds few keys;
  everything below is canonical.
\<close>

definition wfb :: "trie \<Rightarrow> nat \<Rightarrow> bool" where
  "wfb t r = (case t of
     TEmpty \<Rightarrow> True
   | TBranch ts \<Rightarrow> length ts = 16 \<and> 0 < r \<and> (\<forall>u. Some u \<in> set ts \<longrightarrow> wf u (r - 1))
   | _ \<Rightarrow> wf t r)"

lemma wf_wfb: "wf t r \<Longrightarrow> wfb t r"
  by (cases t) (auto simp: wfb_def)

lemma wfb_simps [simp]:
  "wfb TEmpty r" "wfb (TExt p u) r = wf (TExt p u) r"
  "wfb (TBranch ts) r = (length ts = 16 \<and> 0 < r \<and> (\<forall>u. Some u \<in> set ts \<longrightarrow> wf u (r - 1)))"
  by (simp_all add: wfb_def)

section \<open>The memoized hash\<close>

lemma finalize_NHash [simp]: "finalize P (NHash x) = x"
  by simp

lemma hash_branch_eq:
  assumes "length hs = 16"
  shows "hash_branch P hs = Ok (fh_branch P hs)"
proof -
  let ?bm = "branch_bitmap (map (\<lambda>h. h \<noteq> None) hs)"
  have l: "list_all2 (\<lambda>i r. has_bit ?bm i = (r \<noteq> None)) [0..<16] (map (map_option NHash) hs)"
    using assms by (auto simp: list_all2_conv_all_nth has_bit_branch_bitmap)
  have "branch_items P ?bm [0..<16] (map NHash (somes hs)) = Ok (slot_items P (map (map_option NHash) hs))"
    using branch_items_slots [OF l, of P] by (simp add: somes_map)
  then show ?thesis by (simp add: hash_branch_def branch_ref_def fh_branch_def)
qed

lemma opt_seq_map:
  assumes "\<And>c. Some c \<in> set cs \<Longrightarrow> w c = Ok (g c)"
  shows "opt_seq (map (map_option w) cs) = Ok (map (map_option g) cs)"
  unfolding opt_seq_def
  using assms
proof (induction cs)
  case (Cons c cs)
  then show ?case by (cases c) simp_all
qed simp

lemma slot_at:
  assumes "length cs = 16" and "Some c \<in> set cs"
  obtains i where "i < 16" and "cs ! i = Some c"
  using assms by (auto simp: in_set_conv_nth)

text \<open>Memoization is transparent: the result is the hash without memo, and the
  filled cells agree with it.\<close>

definition hash_step :: "prims \<Rightarrow> ram_child \<Rightarrow> ram_child" where
  "hash_step P c = (case ram_child_hash P c of Ok (h, c') \<Rightarrow> c' | _ \<Rightarrow> c)"

lemma hash_branch_frep:
  assumes rep: "frep P M (RBranch cs None) pre t"
    and IH: "\<And>c pre t. Some c \<in> set cs \<Longrightarrow> crep P M c pre t \<Longrightarrow>
      \<exists>c'. ram_child_hash P c = Ok (ch P c, c') \<and> crep P M c' pre t \<and> cptrs c' = cptrs c \<and> ch P c' = ch P c \<and> mem_ok_child c' = mem_ok_child c"
  shows "\<exists>n'. hash_ram P (RBranch cs None) = Ok (fh P (RBranch cs None), n') \<and> frep P M n' pre t \<and>
    fptrs n' = fptrs (RBranch cs None) \<and> fh P n' = fh P (RBranch cs None) \<and> mem_ok n' = mem_ok (RBranch cs None)"
proof -
  obtain ts where ts: "t = TBranch ts" "length cs = 16" "length ts = 16"
    "\<And>i. i < 16 \<Longrightarrow> rel_option (\<lambda>c u. crep P M c (pre @ [word_of_nat i]) u) (cs ! i) (ts ! i)"
    using rep unfolding frep_RBranch by auto
  have one: "ram_child_hash P c = Ok (ch P c, hash_step P c) \<and> cptrs (hash_step P c) = cptrs c \<and>
      ch P (hash_step P c) = ch P c \<and> mem_ok_child (hash_step P c) = mem_ok_child c \<and> (\<forall>pre t. crep P M c pre t \<longrightarrow> crep P M (hash_step P c) pre t)"
    if c: "Some c \<in> set cs" for c
  proof -
    obtain i where i: "i < 16" "cs ! i = Some c" using slot_at [OF ts(2) c] by blast
    then obtain u where "crep P M c (pre @ [word_of_nat i]) u" using ts(4) [OF i(1)] by (auto simp: option_rel_Some1)
    then show ?thesis using IH [OF c] by (fastforce simp: hash_step_def)
  qed
  let ?cs = "map (map_option (hash_step P)) cs" and ?x = "fh P (RBranch cs None)"
  have seq: "opt_seq (map (map_option (ram_child_hash P)) cs) = Ok (map (map_option (\<lambda>c. (ch P c, hash_step P c))) cs)"
    using one by (intro opt_seq_map) blast
  have h: "hash_ram P (RBranch cs None) = Ok (?x, RBranch ?cs (Some ?x))"
    using seq ts(2) by (simp add: hash_branch_eq option.map_comp comp_def)
  have m: "map (map_option (g \<circ> hash_step P)) cs = map (map_option g) cs"
    if "\<And>c. Some c \<in> set cs \<Longrightarrow> g (hash_step P c) = g c" for g :: "ram_child \<Rightarrow> 'b"
  proof (rule map_cong [OF refl])
    fix x
    assume x: "x \<in> set cs"
    show "map_option (g \<circ> hash_step P) x = map_option g x" by (cases x) (use that x in auto)
  qed
  have eq: "fh P (RBranch ?cs (Some ?x)) = ?x" "fptrs (RBranch ?cs (Some ?x)) = fptrs (RBranch cs None)"
    using arg_cong [OF m [of "ch P"], of "fh_branch P"] arg_cong [OF m [of cptrs], of "\<lambda>x. concat (somes x)"] one
    by (simp_all only: fh.simps fptrs.simps map_map option.map_comp comp_def)
  have "rel_option (\<lambda>c u. crep P M c (pre @ [word_of_nat i]) u) (?cs ! i) (ts ! i)" if i: "i < 16" for i
  proof (cases "cs ! i")
    case (Some c)
    then have "Some c \<in> set cs" using i ts(2) nth_mem [of i cs] by simp
    then show ?thesis using one ts(4) [OF i] i ts(2) Some by (auto simp: option_rel_Some1)
  qed (use ts(2) ts(4) [OF i] i in simp)
  then have "frep P M (RBranch ?cs (Some ?x)) pre t"
    unfolding frep_RBranch using ts(1-3) eq(1) by (auto simp: memo_def)
  moreover have "mem_ok (RBranch ?cs (Some ?x)) = mem_ok (RBranch cs None)"
  proof -
    have "Some c \<in> set ?cs \<longleftrightarrow> (\<exists>c0. Some c0 \<in> set cs \<and> c = hash_step P c0)" for c
      by (auto simp: image_iff eq_commute [of "Some _" "map_option _ _"])
    then show ?thesis using one by auto
  qed
  ultimately show ?thesis using h eq by blast
qed

lemma hash_ram_frep:
  "frep P M n pre t \<Longrightarrow> \<exists>n'. hash_ram P n = Ok (fh P n, n') \<and> frep P M n' pre t \<and> fptrs n' = fptrs n \<and> fh P n' = fh P n \<and> mem_ok n' = mem_ok n"
  "crep P M c pre t \<Longrightarrow> \<exists>c'. ram_child_hash P c = Ok (ch P c, c') \<and> crep P M c' pre t \<and> cptrs c' = cptrs c \<and> ch P c' = ch P c \<and> mem_ok_child c' = mem_ok_child c"
proof (induction n and c arbitrary: pre t and pre t)
  case (RExtension p c h)
  then obtain u where u: "t = TExt p u" "frep P M c (pre @ p) u" "memo h (fh P (RExtension p c h))" by auto
  from RExtension.IH [OF u(2)] obtain c' where
    c': "hash_ram P c = Ok (fh P c, c')" "frep P M c' (pre @ p) u" "fptrs c' = fptrs c" "fh P c' = fh P c" "mem_ok c' = mem_ok c" by blast
  then show ?case using u by (cases h) (auto simp: memo_def Let_def)
next
  case (RBranch cs h)
  show ?case
  proof (cases h)
    case None
    show ?thesis unfolding None
    proof (rule hash_branch_frep)
      fix c pre t
      assume "Some c \<in> set cs" "crep P M c pre t"
      then show "\<exists>c'. ram_child_hash P c = Ok (ch P c, c') \<and> crep P M c' pre t \<and> cptrs c' = cptrs c \<and> ch P c' = ch P c \<and> mem_ok_child c' = mem_ok_child c"
        using RBranch.IH [of "Some c" c] by simp
    qed (use RBranch.prems None in simp)
  next
    case (Some x)
    then have "x = fh P (RBranch cs h)" using RBranch.prems unfolding frep_RBranch by (simp add: memo_def)
    then show ?thesis using RBranch.prems Some by simp
  qed
next
  case (RRam n)
  then show ?case by (fastforce simp: res_map_def)
next
  case (RAccount p n b c st)
  then show ?case by (fastforce simp: res_map_def)
qed auto


section \<open>The root\<close>

text \<open>
  The frontier embeds every child as a hash. It computes the root of the trie
  when no node below the root is small enough to be inlined in its parent.
\<close>

primrec hashed :: "prims \<Rightarrow> trie \<Rightarrow> bool" where
  "hashed P TEmpty = True"
| "hashed P (TLeaf p v) = True"
| "hashed P (TExt p u) = (tref P u = NHash (troot P u) \<and> hashed P u)"
| "hashed P (TBranch ts) = list_all (\<lambda>s. case s of None \<Rightarrow> True | Some (a, b) \<Rightarrow> a \<and> b)
     (map (map_option (\<lambda>u. (tref P u = NHash (troot P u), hashed P u))) ts)"
| "hashed P (TAcct p n b c s) = hashed P s"

lemma hashed_TBranch [simp]:
  "hashed P (TBranch ts) = (\<forall>u. Some u \<in> set ts \<longrightarrow> tref P u = NHash (troot P u) \<and> hashed P u)"
  by (induction ts) (auto split: option.splits)

declare hashed.simps(4) [simp del]

lemma bal_of_bytes [simp]: "bal_of (bal_bytes b) = b"
  by (simp add: bal_of_def bal_bytes_def balance_rt)

lemma frep_slot:
  assumes "\<And>i. i < 16 \<Longrightarrow> rel_option (\<lambda>c u. crep P M c (pre @ [word_of_nat i]) u) (cs ! i) (ts ! i)"
    and "length cs = 16" and "length ts = 16" and "i < 16" and "cs ! i = Some c"
  obtains u where "ts ! i = Some u" and "crep P M c (pre @ [word_of_nat i]) u" and "Some u \<in> set ts" and "Some c \<in> set cs"
proof -
  obtain u where u: "ts ! i = Some u" "crep P M c (pre @ [word_of_nat i]) u"
    using assms(1) [OF assms(4)] assms(5) by (auto simp: option_rel_Some1)
  show thesis using that [OF u] nth_mem [of i cs] nth_mem [of i ts] assms(2-5) u(1) by simp
qed

lemma fh_troot:
  "frep P M n pre t \<Longrightarrow> hashed P t \<Longrightarrow> fh P n = troot P t"
  "crep P M c pre t \<Longrightarrow> hashed P t \<Longrightarrow> ch P c = troot P t"
proof (induction n and c arbitrary: pre t and pre t)
  case REmpty
  then show ?case by (simp add: troot_def)
next
  case (RExtension p c h)
  then show ?case by (auto simp: troot_def)
next
  case (RBranch cs h)
  then obtain ts where ts: "t = TBranch ts" "length cs = 16" "length ts = 16"
    "\<And>i. i < 16 \<Longrightarrow> rel_option (\<lambda>c u. crep P M c (pre @ [word_of_nat i]) u) (cs ! i) (ts ! i)"
    unfolding frep_RBranch by auto
  have "map_option NHash (map_option (ch P) (cs ! i)) = map_option (tref P) (ts ! i)" if i: "i < 16" for i
  proof (cases "cs ! i")
    case (Some c)
    from frep_slot [OF ts(4,2,3) i Some] obtain u where
      u: "ts ! i = Some u" "crep P M c (pre @ [word_of_nat i]) u" "Some u \<in> set ts" "Some c \<in> set cs" .
    then have "ch P c = troot P u" using RBranch.IH [of "Some c" c] RBranch.prems(2) ts(1) by auto
    then show ?thesis using u Some RBranch.prems(2) ts(1) by simp
  qed (use ts(4) [OF i] in simp)
  then have "map (map_option NHash) (map (map_option (ch P)) cs) = map (map_option (tref P)) ts"
    using ts(2,3) by (intro nth_equalityI) auto
  then show ?case unfolding ts(1) fh.simps fh_branch_def by (simp only: troot_def tref.simps)
next
  case (RAccount p n b c st)
  then show ?case by (auto simp: troot_def ram_account_rlp_def acct_value_def)
qed auto

section \<open>Point reads\<close>

text \<open>
  Accounts are only above the storage prefixes.
  The prefix of an account leaf directly below the last nibble would have all 64
  nibbles and be taken for a storage root: no branch sits at depth 63.
\<close>

primrec shallow :: "trie \<Rightarrow> nat \<Rightarrow> bool" where
  "shallow TEmpty = (\<lambda>d. True)"
| "shallow (TLeaf p v) = (\<lambda>d. True)"
| "shallow (TExt p u) = (\<lambda>d. shallow u (d + length p))"
| "shallow (TBranch ts) = (\<lambda>d. d \<noteq> 63 \<and> list_all (pred_option (\<lambda>w. w (d + 1))) (map (map_option shallow) ts))"
| "shallow (TAcct p n b c s) = (\<lambda>d. True)"

lemma shallow_TBranch [simp]:
  "shallow (TBranch ts) d = (d \<noteq> 63 \<and> (\<forall>u. Some u \<in> set ts \<longrightarrow> shallow u (d + 1)))"
proof -
  have "list_all (pred_option (\<lambda>w. w (d + 1))) (map (map_option shallow) ts) =
      (\<forall>u. Some u \<in> set ts \<longrightarrow> shallow u (d + 1))"
    by (induction ts) (auto split: option.splits simp: option.pred_map comp_def, (metis option.exhaust option.pred_inject)+)
  then show ?thesis by simp
qed

declare shallow.simps(4) [simp del]

lemma shallow_storage: "64 \<le> d \<Longrightarrow> shallow t d"
proof (induction t arbitrary: d)
  case (TBranch ts)
  show ?case using TBranch.prems TBranch.IH [of "Some _" _ "d + 1"] by auto
qed auto

definition placed :: "nibs \<Rightarrow> trie \<Rightarrow> nat \<Rightarrow> bool" where
  "placed pre t r = (at_depth pre r \<and> shallow t (length pre) \<and> (64 \<le> length pre \<longrightarrow> val_only t))"

lemma placed_child:
  assumes "placed pre (TBranch ts) r" and "wfb (TBranch ts) r" and "i < 16" and "Some u \<in> set ts"
  shows "placed (pre @ [word_of_nat i]) u (r - 1)" and "length (pre @ [word_of_nat i]) \<noteq> 64" and "wf u (r - 1)"
    and "walk_depth (pre @ [word_of_nat i]) = walk_depth pre + 1"
  using assms at_depth_child [of pre r "word_of_nat i"] nibble_of_nat(1) [of i] by (auto simp: placed_def)

lemma placed_ext:
  assumes "placed pre (TExt p u) r" and "wf (TExt p u) r"
  shows "placed (pre @ p) u (r - length p)" and "wf u (r - length p)" and "walk_depth (pre @ p) = walk_depth pre + length p"
  using assms at_depth_ext [of pre r p] by (auto simp: placed_def at_depth_def walk_depth_def split: if_splits)

lemma placed_storage:
  assumes "placed pre (TAcct p n b c s) r" and "wf (TAcct p n b c s) r" and "length (pre @ p) = 64"
  shows "placed (pre @ p) s 64" and "wfb s 64" and "wf0 s 64" and "walk_depth (pre @ p) = 0"
  using assms at_depth_storage [of "pre @ p"] shallow_storage [of 64 s] wf_wfb
  by (auto simp: placed_def at_depth_def wf0_def walk_depth_def wfb_def)

lemma local_walk: "length pre \<noteq> 64 \<Longrightarrow> local_depth pre = walk_depth pre"
  by (auto simp: local_depth_def walk_depth_def)

lemma placed_depth: "placed pre t r \<Longrightarrow> walk_depth pre + r = 64" "placed pre t r \<Longrightarrow> r \<le> 64" "placed pre t r \<Longrightarrow> at_depth pre r"
  by (auto simp: placed_def at_depth_def)


lemma record_reads:
  assumes "keccak_len P" and "wf t r" and "d + r = 64" and "repr P n t" and "length nibbles = 64" and "nibs_ok nibbles"
  shows "node_get P rd REC_FUEL n nibbles d = Ok (map_option (leaf_value P) (tlook t (drop d nibbles)))"
    and "length slot = 32 \<Longrightarrow> node_get_storage P rd REC_FUEL n nibbles d slot =
      Ok (case tlook t (drop d nibbles) of
        Some (LAcct no b c s) \<Rightarrow> map_option (leaf_value P) (tlook s (key_nibbles slot)) | _ \<Rightarrow> None)"
  using assms by (auto intro!: node_get_gen [of P t r d nibbles] node_get_storage_gen [of P slot t r d nibbles]
      simp: wf0_def get_fuel_def REC_FUEL_def)

lemma branch_step:
  assumes "length nibbles = 64" and "nibs_ok nibbles" and "d + r = 64" and "0 < r" and "length (cs :: 'a option list) = 16"
  obtains x i where "index nibbles d = Ok x" and "i = unat x" and "i < 16" and "x = word_of_nat i"
    and "drop d nibbles = x # drop (d + 1) nibbles" and "index cs (unat x) = Ok (cs ! i)"
proof -
  let ?x = "nibbles ! d"
  have d: "d < 64" using assms by simp
  then have x: "?x < 16" using assms(1,2) nibs_ok_nth [of nibbles d] by simp
  then have i: "unat ?x < 16" by (rule nibble_unat)
  show thesis
    by (rule that [of ?x "unat ?x"]) (use d i assms in \<open>simp_all add: index_def Cons_nth_drop_Suc\<close>)
qed

lemma ram_get_rep:
  assumes K: "keccak_len P" and F: "readable f M" and N: "length nibbles = 64" "nibs_ok nibbles"
  shows "frep P M n pre t \<Longrightarrow> wfb t r \<Longrightarrow> placed pre t r \<Longrightarrow> mem_ok n \<Longrightarrow> hashed P t \<Longrightarrow>
      ram_get P f n nibbles (walk_depth pre) = Ok (map_option (leaf_value P) (tlook t (drop (walk_depth pre) nibbles)))"
    and "crep P M c pre t \<Longrightarrow> wf t r \<Longrightarrow> placed pre t r \<Longrightarrow> length pre \<noteq> 64 \<Longrightarrow> mem_ok_child c \<Longrightarrow> hashed P t \<Longrightarrow>
      ram_get_child P f c nibbles (walk_depth pre) = Ok (map_option (leaf_value P) (tlook t (drop (walk_depth pre) nibbles)))"
proof (induction n and c arbitrary: pre t r and pre t r)
  case (RExtension p n h)
  then obtain u where u: "t = TExt p u" "frep P M n (pre @ p) u" by auto
  have w: "wf t r" using RExtension.prems(2) u by simp
  note pl = placed_ext [OF RExtension.prems(3) [unfolded u(1)] w [unfolded u(1)]]
  have "from_idx nibbles (walk_depth pre) = Ok (drop (walk_depth pre) nibbles)"
    using placed_depth [OF RExtension.prems(3)] N by (simp add: from_idx_def)
  then show ?case
    using RExtension.IH [OF u(2) wf_wfb [OF pl(2)] pl(1)] RExtension.prems(4,5) u(1) pl(3)
    by (simp add: starts_with_def add.commute)
next
  case (RBranch cs h)
  then obtain ts where ts: "t = TBranch ts" "length cs = 16" "length ts = 16"
    "\<And>i. i < 16 \<Longrightarrow> rel_option (\<lambda>c u. crep P M c (pre @ [word_of_nat i]) u) (cs ! i) (ts ! i)"
    unfolding frep_RBranch by auto
  have r: "0 < r" using RBranch.prems(2) ts(1) by simp
  from branch_step [OF N placed_depth(1) [OF RBranch.prems(3)] r ts(2)] obtain x i where
    x: "index nibbles (walk_depth pre) = Ok x" "i = unat x" "i < 16" "x = word_of_nat i"
    "drop (walk_depth pre) nibbles = x # drop (walk_depth pre + 1) nibbles" "index cs (unat x) = Ok (cs ! i)" .
  note x' = x(1,2,3,5,6)
  show ?case
  proof (cases "cs ! i")
    case None
    then show ?thesis using ts(4) [OF x(3)] ts(1-3) x' by (simp add: index_map)
  next
    case (Some c)
    from frep_slot [OF ts(4,2,3) x(3) Some] obtain u where
      u: "ts ! i = Some u" "crep P M c (pre @ [word_of_nat i]) u" "Some u \<in> set ts" "Some c \<in> set cs" .
    note pl = placed_child [OF RBranch.prems(3,2) [unfolded ts(1)] x(3) u(3)]
    have "ram_get_child P f c nibbles (walk_depth pre + 1) =
        Ok (map_option (leaf_value P) (tlook u (drop (walk_depth pre + 1) nibbles)))"
      using RBranch.IH [of "Some c" c, OF _ _ u(2) pl(3,1,2)] RBranch.prems(4,5) u ts(1) pl(4) by simp
    then show ?thesis using Some u x' ts(1-3) by (simp add: index_map)
  qed
next
  case (RDisk ptr root)
  obtain m where "read_lazy P f ptr = Ok \<lparr>ds_prefix = pre, ds_node = m\<rparr>" "repr P m t"
    using disk_read [OF K RDisk.prems(2) placed_depth(3) [OF RDisk.prems(3)] F RDisk.prems(1)] by blast
  then show ?case
    using record_reads(1) [OF K RDisk.prems(2) placed_depth(1) [OF RDisk.prems(3)] _ N] local_walk RDisk.prems(4) by simp
next
  case (RMem bs root)
  obtain m where "parse_payload_lazy P bs = Ok \<lparr>ds_prefix = pre, ds_node = m\<rparr>" "repr P m t"
    using mem_read [OF K RMem.prems(2) placed_depth(3) [OF RMem.prems(3)] RMem.prems(1,5)] by blast
  then show ?case
    using record_reads(1) [OF K RMem.prems(2) placed_depth(1) [OF RMem.prems(3)] _ N] local_walk RMem.prems(4) by simp
next
  case (RAccount p n b c st)
  then obtain bal s where s: "t = TAcct p n bal c s" "b = bal_bytes bal" "frep P M st (pre @ p) s" by auto
  have "from_idx nibbles (walk_depth pre) = Ok (drop (walk_depth pre) nibbles)"
    using placed_depth [OF RAccount.prems(3)] N by (simp add: from_idx_def)
  moreover obtain st' where "hash_ram P st = Ok (troot P s, st')"
    using hash_ram_frep(1) [OF s(3)] fh_troot(1) [OF s(3)] RAccount.prems(6) s(1) by auto
  ultimately show ?case using s(1,2) by (simp add: ram_account_rlp_def acct_value_def)
next
  case (RRam n)
  show ?case using RRam.IH [OF _ wf_wfb [OF RRam.prems(2)] RRam.prems(3)] RRam.prems(1,5,6) by simp
qed auto

lemma ram_get_storage_rep:
  assumes K: "keccak_len P" and F: "readable f M" and N: "length nibbles = 64" "nibs_ok nibbles" and S: "length slot = 32"
  shows "frep P M n pre t \<Longrightarrow> wfb t r \<Longrightarrow> placed pre t r \<Longrightarrow> mem_ok n \<Longrightarrow> hashed P t \<Longrightarrow>
      ram_get_storage P f n nibbles (walk_depth pre) slot = Ok (case tlook t (drop (walk_depth pre) nibbles) of
        Some (LAcct no b c s) \<Rightarrow> map_option (leaf_value P) (tlook s (key_nibbles slot)) | _ \<Rightarrow> None)"
    and "crep P M c pre t \<Longrightarrow> wf t r \<Longrightarrow> placed pre t r \<Longrightarrow> length pre \<noteq> 64 \<Longrightarrow> mem_ok_child c \<Longrightarrow> hashed P t \<Longrightarrow>
      ram_get_storage_child P f c nibbles (walk_depth pre) slot = Ok (case tlook t (drop (walk_depth pre) nibbles) of
        Some (LAcct no b c s) \<Rightarrow> map_option (leaf_value P) (tlook s (key_nibbles slot)) | _ \<Rightarrow> None)"
proof (induction n and c arbitrary: pre t r and pre t r)
  case (RExtension p n h)
  then obtain u where u: "t = TExt p u" "frep P M n (pre @ p) u" by auto
  have w: "wf t r" using RExtension.prems(2) u by simp
  note pl = placed_ext [OF RExtension.prems(3) [unfolded u(1)] w [unfolded u(1)]]
  have "from_idx nibbles (walk_depth pre) = Ok (drop (walk_depth pre) nibbles)"
    using placed_depth [OF RExtension.prems(3)] N by (simp add: from_idx_def)
  then show ?case
    using RExtension.IH [OF u(2) wf_wfb [OF pl(2)] pl(1)] RExtension.prems(4,5) u(1) pl(3)
    by (simp add: starts_with_def add.commute)
next
  case (RBranch cs h)
  then obtain ts where ts: "t = TBranch ts" "length cs = 16" "length ts = 16"
    "\<And>i. i < 16 \<Longrightarrow> rel_option (\<lambda>c u. crep P M c (pre @ [word_of_nat i]) u) (cs ! i) (ts ! i)"
    unfolding frep_RBranch by auto
  have r: "0 < r" using RBranch.prems(2) ts(1) by simp
  from branch_step [OF N placed_depth(1) [OF RBranch.prems(3)] r ts(2)] obtain x i where
    x: "index nibbles (walk_depth pre) = Ok x" "i = unat x" "i < 16" "x = word_of_nat i"
    "drop (walk_depth pre) nibbles = x # drop (walk_depth pre + 1) nibbles" "index cs (unat x) = Ok (cs ! i)" .
  note x' = x(1,2,3,5,6)
  show ?case
  proof (cases "cs ! i")
    case None
    then show ?thesis using ts(4) [OF x(3)] ts(1-3) x' by (simp add: index_map)
  next
    case (Some c)
    from frep_slot [OF ts(4,2,3) x(3) Some] obtain u where
      u: "ts ! i = Some u" "crep P M c (pre @ [word_of_nat i]) u" "Some u \<in> set ts" "Some c \<in> set cs" .
    note pl = placed_child [OF RBranch.prems(3,2) [unfolded ts(1)] x(3) u(3)]
    show ?thesis
      using RBranch.IH [of "Some c" c, OF _ _ u(2) pl(3,1,2)] RBranch.prems(4,5) Some u x' ts(1-3) pl(4)
      by (simp add: index_map)
  qed
next
  case (RDisk ptr root)
  obtain m where "read_lazy P f ptr = Ok \<lparr>ds_prefix = pre, ds_node = m\<rparr>" "repr P m t"
    using disk_read [OF K RDisk.prems(2) placed_depth(3) [OF RDisk.prems(3)] F RDisk.prems(1)] by blast
  then show ?case
    using record_reads(2) [OF K RDisk.prems(2) placed_depth(1) [OF RDisk.prems(3)] _ N S] local_walk RDisk.prems(4) by simp
next
  case (RMem bs root)
  obtain m where "parse_payload_lazy P bs = Ok \<lparr>ds_prefix = pre, ds_node = m\<rparr>" "repr P m t"
    using mem_read [OF K RMem.prems(2) placed_depth(3) [OF RMem.prems(3)] RMem.prems(1,5)] by blast
  then show ?case
    using record_reads(2) [OF K RMem.prems(2) placed_depth(1) [OF RMem.prems(3)] _ N S] local_walk RMem.prems(4) by simp
next
  case (RAccount p n b c st)
  then obtain bal s where s: "t = TAcct p n bal c s" "frep P M st (pre @ p) s" "length (pre @ p) = 64" by auto
  have "from_idx nibbles (walk_depth pre) = Ok (drop (walk_depth pre) nibbles)"
    using placed_depth [OF RAccount.prems(3)] N by (simp add: from_idx_def)
  moreover note pl = placed_storage [OF RAccount.prems(3,2) [unfolded s(1)] s(3)]
  have "ram_get P f st (key_nibbles slot) 0 = Ok (map_option (leaf_value P) (tlook s (key_nibbles slot)))"
    using ram_get_rep(1) [OF K F _ _ s(2) pl(2,1), of "key_nibbles slot"] S RAccount.prems(5,6) s(1) pl(4) by simp
  ultimately show ?case using s(1) by simp
next
  case (RRam n)
  show ?case using RRam.IH [OF _ wf_wfb [OF RRam.prems(2)] RRam.prems(3)] RRam.prems(1,5,6) by simp
qed auto

end
