(* ===== verification/FrontierPromote.thy ===== *)
theory FrontierPromote
  imports FrontierGet
begin

text \<open>
  Writing records and promotion: a record that outgrows its size limit is split
  into a frontier branch over records for its children (or an account with a
  storage frontier). The child that results stands for the same trie, owns
  exactly the records that were written and leaves every other record alone.
\<close>

section \<open>The store can only fail with an error value\<close>

lemma alloc_fits: "n \<le> 512 \<Longrightarrow> \<exists>x. alloc a n l e = Ok x"
  by (simp add: alloc_def Let_def)

lemma res_map_Err: "res_map g m = Err e \<longleftrightarrow> m = Err e"
  by (cases m) simp_all

lemma write_payload_err:
  assumes "write_payload f p = (Err e, f')"
  shows "\<exists>s. e = Bail s"
proof (cases "MAX_RECORD_BYTES < length p")
  case True
  then show ?thesis using assms by (auto simp: write_payload_def)
next
  case False
  let ?l = "run_len [p]" and ?n = "padded_units f (run_len [p])"
  have "?n \<le> 512" using padded_bounds(2) [of ?l f] record_fits [of p] False by simp
  then obtain u seg x where al: "alloc (ff_seg f) ?n ?l (ff_end f) = Ok (u, seg, x)"
    using alloc_fits by (metis prod_cases3)
  obtain buf where "fill_run (replicate (?n * 256) 0) 0 [p] = Ok buf"
    using fill_run_fresh [OF padded_bounds(1)] by blast
  then show ?thesis using assms al False by (auto simp: write_payload_def Let_def split: if_splits)
qed

lemma write_runs_err:
  assumes "write_runs f ps = (Err e, f')" and "\<forall>p \<in> set ps. length p \<le> 131068"
  shows "\<exists>s. e = Bail s"
  using assms
proof (induction f ps arbitrary: e f' rule: write_runs.induct)
  case (2 f p ps)
  obtain rb run rest where pk: "pack_run True 0 (p # ps) = (rb, run, rest)" by (metis prod_cases3)
  have run: "p # ps = run @ rest" "rb = run_len run * 256" "rb \<le> 131072"
    using pack_run_length [OF pk] pack_run_facts [OF pk 2(3)] by auto
  let ?n = "padded_units f (run_len run)"
  have "?n \<le> 512" using run(2,3) by (intro padded_bounds(2)) simp
  then obtain base seg x where al: "alloc (ff_seg f) ?n (run_len run) (ff_end f) = Ok (base, seg, x)"
    using alloc_fits by (metis prod_cases3)
  obtain buf where b: "fill_run (replicate (?n * 256) 0) 0 run = Ok buf"
    using fill_run_fresh [OF padded_bounds(1)] by blast
  have sz: "\<forall>q \<in> set rest. length q \<le> 131068" using 2(3) run(1) by (metis Un_iff set_append)
  show ?case
  proof (cases "2 ^ 32 - 1 < base + ?n")
    case True
    then show ?thesis using 2(2) pk run(2) al by (auto simp: Let_def simp del: pack_run.simps)
  next
    case False
    then have "write_runs (f\<lparr>ff_seg := seg, ff_end := x, ff_data := write_at (ff_data f) (base * 256) buf\<rparr>) rest = (Err e, f')"
      using 2(2) pk run(2) al b by (auto simp: Let_def res_map_Err simp del: pack_run.simps split: prod.splits)
    then show ?thesis
      using 2(1) [OF pk [symmetric] refl refl refl _ refl refl refl _ _ _ sz, of base seg x buf e f'] al b run(2) False
      by simp
  qed
qed simp

lemma write_batch_err:
  assumes "write_batch f ps = (Err e, f')"
  shows "\<exists>s. e = Bail s"
proof (cases "\<exists>p \<in> set ps. MAX_RECORD_BYTES < length p")
  case True
  then show ?thesis using assms by (auto simp: write_batch_def Let_def list_ex_iff)
next
  case False
  then have "write_runs (drain_staged_if_unaliased f) ps = (Err e, f')"
    using assms by (auto simp: write_batch_def Let_def list_ex_iff split: if_splits)
  then show ?thesis using write_runs_err False by (metis linorder_not_less unit_consts(4))
qed

lemma fspec_write:
  assumes "ff_rel Z f M" and "\<And>ptr f'. ff_rel Z f' (M(ptr \<mapsto> p)) \<Longrightarrow> ptr \<notin> dom M \<Longrightarrow> Q ptr f'"
  shows "fspec (fwrite p) f Q"
  unfolding fspec_def fwrite_def
  using write_payload_rel [OF assms(1)] write_payload_err assms(2)
  by (fastforce split: prod.splits res.splits)

lemma fspec_write_batch:
  assumes "ff_rel Z f M" and "\<And>ptrs f'. ff_rel Z f' (M(ptrs [\<mapsto>] ps)) \<Longrightarrow> length ptrs = length ps \<Longrightarrow> distinct ptrs \<Longrightarrow>
    set ptrs \<inter> dom M = {} \<Longrightarrow> Q ptrs f'"
  shows "fspec (fwrite_batch ps) f Q"
  unfolding fspec_def fwrite_batch_def
  using write_batch_rel [OF assms(1)] write_batch_err assms(2)
  by (fastforce split: prod.splits res.splits)

section \<open>Growing\<close>

text \<open>An operation that creates a child for a trie and touches nothing else.\<close>

definition grows :: "frozen \<Rightarrow> prims \<Rightarrow> (disk_ptr \<rightharpoonup> bytes) \<Rightarrow> flat_file \<Rightarrow> ram_child fm \<Rightarrow> nibs \<Rightarrow> trie \<Rightarrow> bool" where
  "grows Z P M f m pre t = fspec m f (\<lambda>c f'. \<exists>M'. ff_rel Z f' M' \<and> swaps M M' [] (cptrs c) \<and> crep P M' c pre t)"

definition promotes :: "frozen \<Rightarrow> prims \<Rightarrow> promoter \<Rightarrow> nibs \<Rightarrow> node \<Rightarrow> trie \<Rightarrow> bool" where
  "promotes Z P pm pre n t = (\<forall>f M. ff_rel Z f M \<longrightarrow> grows Z P M f (pm \<lparr>ds_prefix = pre, ds_node = n\<rparr>) pre t)"

lemma swaps_nil: "swaps M M [] []"
  by (simp add: swaps_def)

lemma swaps_le: "swaps M M' [] B \<Longrightarrow> M \<subseteq>\<^sub>m M'"
  by (auto simp: swaps_def map_le_def)

lemma swaps_add:
  assumes "swaps M M1 A B" and "swaps M1 M2 [] C"
  shows "swaps M M2 A (B @ C)"
proof -
  have "set C \<inter> set B = {}" using assms by (auto simp: swaps_def)
  then show ?thesis using assms by (auto simp: swaps_def)
qed

lemma swaps_mset: "swaps M M' A B \<Longrightarrow> mset B = mset C \<Longrightarrow> swaps M M' A C"
  using mset_eq_setD [of B C] mset_eq_imp_distinct_iff [of B C] by (simp add: swaps_def)

lemma swaps_upds:
  assumes "length ptrs = length ps" and "distinct ptrs" and "set ptrs \<inter> dom M = {}"
  shows "swaps M (M(ptrs [\<mapsto>] ps)) [] ptrs"
proof -
  have "(M(ptrs [\<mapsto>] ps)) p = Some x" if "M p = Some x" for p x
    using that assms(3) by (subst map_upds_apply_nontin) auto
  then show ?thesis using assms by (auto simp: swaps_def)
qed

lemma crep_mono: "M \<subseteq>\<^sub>m M' \<Longrightarrow> crep P M c pre t \<Longrightarrow> crep P M' c pre t"
  by (rule frep_cong(2) [of c M' M]) (metis frep_ptrs(2) map_le_def subsetD)

lemma serialize_placed:
  assumes "keccak_len P" and "repr P n t" and "wf t r" and "placed pre t r"
  shows "serialize_subtree \<lparr>ds_prefix = pre, ds_node = n\<rparr> =
    Ok (nib_path pre @ enc P t, length (nib_path pre @ enc P t))"
  using serialize_repr [OF assms(2) _ _ _ _ assms(1), of r pre] assms(3,4)
  by (simp add: placed_def at_depth_def wf0_def)

lemma troot_repr: "repr P n t \<Longrightarrow> finalize P (hash_node P n) = troot P t"
  by (simp add: hash_node_repr troot_def)

lemma make_mem_leaf_rep:
  assumes "keccak_len P" and "repr P n t" and "wf t r" and "placed pre t r"
  shows "make_mem_leaf P \<lparr>ds_prefix = pre, ds_node = n\<rparr> = Ok (RMem (nib_path pre @ enc P t) (troot P t))"
  using serialize_placed [OF assms] troot_repr [OF assms(2)] by (simp add: make_mem_leaf_def)

lemma grows_mem:
  assumes "keccak_len P" and "ff_rel Z f M" and "repr P n t" and "wf t r" and "placed pre t r"
  shows "grows Z P M f (flift (make_mem_leaf P \<lparr>ds_prefix = pre, ds_node = n\<rparr>)) pre t"
  using make_mem_leaf_rep [OF assms(1,3-5)] assms(2) swaps_nil by (auto simp: grows_def)

lemma grows_leaf:
  assumes "keccak_len P" and "ff_rel Z f M" and "repr P n t" and "wf t r" and "placed pre t r"
  shows "grows Z P M f (make_leaf_child P cfg ram \<lparr>ds_prefix = pre, ds_node = n\<rparr>) pre t"
proof (cases "ram \<or> c_hot cfg")
  case True
  then show ?thesis using grows_mem [OF assms] by (simp add: make_leaf_child_def)
next
  case False
  let ?p = "nib_path pre @ enc P t"
  have "fspec (fwrite ?p) f (\<lambda>ptr f'. \<exists>M'. ff_rel Z f' M' \<and> swaps M M' [] [ptr] \<and> M' ptr = Some ?p)"
  proof (rule fspec_write [OF assms(2)])
    fix ptr f'
    assume "ff_rel Z f' (M(ptr \<mapsto> ?p))" "ptr \<notin> dom M"
    then show "\<exists>M'. ff_rel Z f' M' \<and> swaps M M' [] [ptr] \<and> M' ptr = Some ?p"
      by (intro exI [of _ "M(ptr \<mapsto> ?p)"] conjI swaps_create) simp_all
  qed
  then show ?thesis
    using serialize_placed [OF assms(1,3-5)] troot_repr [OF assms(3)] False
    by (auto simp: make_leaf_child_def grows_def Let_def elim!: fspec_mono)
qed

section \<open>Slots\<close>

definition slots_at :: "(nibs \<Rightarrow> 'a \<Rightarrow> trie option \<Rightarrow> bool) \<Rightarrow> nibs \<Rightarrow> nat \<Rightarrow> 'a list \<Rightarrow> trie option list \<Rightarrow> bool" where
  "slots_at R bp i xs ts = (length xs = length ts \<and> (\<forall>j < length ts. R (bp @ [word_of_nat (i + j)]) (xs ! j) (ts ! j)))"

lemma slots_at_Nil [simp]: "slots_at R bp i [] ts = (ts = [])" "slots_at R bp i xs [] = (xs = [])"
  by (auto simp: slots_at_def)

lemma slots_at_Cons [simp]:
  "slots_at R bp i (x # xs) (t # ts) = (R (bp @ [word_of_nat i]) x t \<and> slots_at R bp (Suc i) xs ts)"
  unfolding slots_at_def length_Cons All_less_Suc2 by (auto simp del: of_nat_Suc of_nat_add)

lemma slots_at_mono:
  "slots_at R bp i xs ts \<Longrightarrow> (\<And>q x t. R q x t \<Longrightarrow> R' q x t) \<Longrightarrow> slots_at R' bp i xs ts"
  by (auto simp: slots_at_def)

abbreviation child_rep :: "prims \<Rightarrow> (disk_ptr \<rightharpoonup> bytes) \<Rightarrow> nibs \<Rightarrow> ram_child option \<Rightarrow> trie option \<Rightarrow> bool" where
  "child_rep P M q \<equiv> rel_option (\<lambda>c u. crep P M c q u)"

lemma frep_slots_at:
  "frep P M (RBranch cs h) pre t \<longleftrightarrow> memo h (fh P (RBranch cs h)) \<and>
     (\<exists>ts. t = TBranch ts \<and> length ts = 16 \<and> slots_at (child_rep P M) pre 0 cs ts)"
  unfolding frep_RBranch by (auto simp: slots_at_def)

lemma child_rep_mono: "M \<subseteq>\<^sub>m M' \<Longrightarrow> child_rep P M q c t \<Longrightarrow> child_rep P M' q c t"
  by (auto elim!: option.rel_mono_strong intro: crep_mono)

section \<open>Filling a promoted branch\<close>

fun plan_ptrs :: "slot_plan list \<Rightarrow> disk_ptr list" where
  "plan_ptrs [] = []"
| "plan_ptrs (SChild c # ps) = cptrs c @ plan_ptrs ps"
| "plan_ptrs (_ # ps) = plan_ptrs ps"

fun plan_rep :: "prims \<Rightarrow> (disk_ptr \<rightharpoonup> bytes) \<Rightarrow> nibs \<Rightarrow> slot_plan \<Rightarrow> trie option \<Rightarrow> bool" where
  "plan_rep P M q SNone t = (t = None)"
| "plan_rep P M q (SChild c) t = (\<exists>u. t = Some u \<and> crep P M c q u)"
| "plan_rep P M q (SBatch root payload) t = (\<exists>u. t = Some u \<and> root = troot P u \<and> payload = nib_path q @ enc P u)"

abbreviation slot_ptrs :: "ram_child option list \<Rightarrow> disk_ptr list" where
  "slot_ptrs cs \<equiv> concat (somes (map (map_option cptrs) cs))"

lemma plan_rep_mono: "M \<subseteq>\<^sub>m M' \<Longrightarrow> plan_rep P M q x t \<Longrightarrow> plan_rep P M' q x t"
  by (cases x) (auto intro: crep_mono)

lemma fill_slots_rep:
  assumes "slots_at (plan_rep P M) bp i plan ts" and "M \<subseteq>\<^sub>m M'"
    and "list_all2 (\<lambda>ptr x. M' ptr = Some x) ptrs (plan_payloads plan)"
  shows "slots_at (child_rep P M') bp i (fill_slots plan ptrs) ts \<and>
    mset (slot_ptrs (fill_slots plan ptrs)) = mset (plan_ptrs plan @ ptrs)"
  using assms(1,3)
proof (induction plan arbitrary: i ts ptrs)
  case (Cons x plan)
  then obtain t us where ts: "ts = t # us" by (cases ts) auto
  show ?case
  proof (cases x)
    case SNone
    then show ?thesis using Cons.IH [of "Suc i" us ptrs] Cons.prems ts by simp
  next
    case (SChild c)
    then show ?thesis using Cons.IH [of "Suc i" us ptrs] Cons.prems ts crep_mono [OF assms(2)] by auto
  next
    case (SBatch root payload)
    then obtain ptr ptrs' where "ptrs = ptr # ptrs'" using Cons.prems(2) by (cases ptrs) auto
    then show ?thesis using Cons.IH [of "Suc i" us ptrs'] Cons.prems ts SBatch by auto
  qed
qed auto

lemma upds_at:
  assumes "length ptrs = length ps" and "distinct ptrs"
  shows "list_all2 (\<lambda>ptr x. (M(ptrs [\<mapsto>] ps)) ptr = Some x) ptrs ps"
  using assms
proof (induction ptrs ps arbitrary: M rule: list_induct2)
  case (Cons x xs y ys)
  then show ?case using Cons.IH [of "M(x \<mapsto> y)"] by (simp add: map_upds_apply_nontin del: map_upds_twist)
qed simp

section \<open>The slots of a promoted branch\<close>

definition slot_sound :: "frozen \<Rightarrow> prims \<Rightarrow> promoter \<Rightarrow> nibs \<Rightarrow> node option \<Rightarrow> trie option \<Rightarrow> bool" where
  "slot_sound Z P pm q slot t = rel_option (\<lambda>n u. repr P n u \<and> promotes Z P pm q n u \<and> (\<exists>r. wf u r \<and> placed q u r)) slot t"

lemma slot_sound_simps [simp]:
  "slot_sound Z P pm q None t = (t = None)"
  "slot_sound Z P pm q (Some n) t = (\<exists>u. t = Some u \<and> repr P n u \<and> promotes Z P pm q n u \<and> (\<exists>r. wf u r \<and> placed q u r))"
  by (auto simp: slot_sound_def option_rel_Some1)

lemma promotesD:
  "promotes Z P pm pre n t \<Longrightarrow> ff_rel Z f M \<Longrightarrow>
   fspec (pm \<lparr>ds_prefix = pre, ds_node = n\<rparr>) f (\<lambda>c f'. \<exists>M'. ff_rel Z f' M' \<and> swaps M M' [] (cptrs c) \<and> crep P M' c pre t)"
  by (simp add: promotes_def grows_def)

lemma not_overflow:
  "repr P n t \<Longrightarrow> (case n of Overflow ptr root \<Rightarrow> a ptr root | _ \<Rightarrow> b) = b"
  by (cases n) simp_all

lemma plan_one:
  assumes "keccak_len P" and "ff_rel Z f M" and "slot_sound Z P pm q (Some n) t"
  shows "fspec (case n of
         Overflow ptr root \<Rightarrow> fret (SChild (RDisk ptr root))
       | _ \<Rightarrow>
           (let cp = q; subtree = \<lparr>ds_prefix = cp, ds_node = n\<rparr> in
            if MAX_RECORD_BYTES < record_size (length cp) n
            then fbind (pm subtree) (\<lambda>c. fret (SChild c))
            else fbind (flift (serialize_subtree subtree)) (\<lambda>(payload, _).
                   fret (SBatch (finalize P (hash_node P n)) payload)))) f
     (\<lambda>x f'. \<exists>M'. ff_rel Z f' M' \<and> swaps M M' [] (plan_ptrs [x]) \<and> plan_rep P M' q x t)"
proof -
  obtain u r where u: "t = Some u" "repr P n u" "promotes Z P pm q n u" "wf u r" "placed q u r"
    using assms(3) by auto
  have ser: "serialize_subtree \<lparr>ds_prefix = q, ds_node = n\<rparr> = Ok (nib_path q @ enc P u, length (nib_path q @ enc P u))"
    by (rule serialize_placed [OF assms(1) u(2,4,5)])
  have "fspec (if MAX_RECORD_BYTES < record_size (length q) n
            then fbind (pm \<lparr>ds_prefix = q, ds_node = n\<rparr>) (\<lambda>c. fret (SChild c))
            else fbind (flift (serialize_subtree \<lparr>ds_prefix = q, ds_node = n\<rparr>)) (\<lambda>(payload, _).
                   fret (SBatch (finalize P (hash_node P n)) payload))) f
     (\<lambda>x f'. \<exists>M'. ff_rel Z f' M' \<and> swaps M M' [] (plan_ptrs [x]) \<and> plan_rep P M' q x t)"
    using promotesD [OF u(3) assms(2)] u(1,2) assms(2) swaps_nil ser troot_repr [OF u(2)]
    by (auto simp: elim!: fspec_mono)
  then show ?thesis unfolding not_overflow [OF u(2)] Let_def .
qed

lemma promote_slots_rep:
  assumes "keccak_len P" and "ff_rel Z f M" and "slots_at (slot_sound Z P pm) bp i cs ts"
  shows "fspec (promote_slots P pm bp i cs) f
    (\<lambda>plan f'. \<exists>M'. ff_rel Z f' M' \<and> swaps M M' [] (plan_ptrs plan) \<and> slots_at (plan_rep P M') bp i plan ts)"
  using assms(2,3)
proof (induction cs arbitrary: i ts f M)
  case Nil
  then show ?case using swaps_nil by auto
next
  case (Cons c cs)
  then obtain t us where ts: "ts = t # us" by (cases ts) auto
  show ?case
  proof (cases c)
    case None
    then show ?thesis using Cons.IH [OF Cons.prems(1), of "Suc i" us] Cons.prems(2) ts
      by (auto elim!: fspec_mono)
  next
    case (Some n)
    have s: "slot_sound Z P pm (bp @ [word_of_nat i]) (Some n) t" using Cons.prems(2) ts Some by simp
    show ?thesis
      unfolding Some promote_slots.simps fspec_bind
    proof (rule fspec_mono [OF plan_one [OF assms(1) Cons.prems(1) s]])
      fix x f1
      assume "\<exists>M1. ff_rel Z f1 M1 \<and> swaps M M1 [] (plan_ptrs [x]) \<and> plan_rep P M1 (bp @ [word_of_nat i]) x t"
      then obtain M1 where M1: "ff_rel Z f1 M1" "swaps M M1 [] (plan_ptrs [x])" "plan_rep P M1 (bp @ [word_of_nat i]) x t" by blast
      show "fspec (promote_slots P pm bp (i + 1) cs) f1 (\<lambda>ps f'. fspec (fret (x # ps)) f'
          (\<lambda>plan f'. \<exists>M'. ff_rel Z f' M' \<and> swaps M M' [] (plan_ptrs plan) \<and> slots_at (plan_rep P M') bp i plan ts))"
      proof (rule fspec_mono)
        show "fspec (promote_slots P pm bp (i + 1) cs) f1
          (\<lambda>plan f'. \<exists>M'. ff_rel Z f' M' \<and> swaps M1 M' [] (plan_ptrs plan) \<and> slots_at (plan_rep P M') bp (Suc i) plan us)"
          using Cons.IH [OF M1(1), of "Suc i" us] Cons.prems(2) ts by simp
        fix plan f'
        assume "\<exists>M'. ff_rel Z f' M' \<and> swaps M1 M' [] (plan_ptrs plan) \<and> slots_at (plan_rep P M') bp (Suc i) plan us"
        then obtain M' where M': "ff_rel Z f' M'" "swaps M1 M' [] (plan_ptrs plan)" "slots_at (plan_rep P M') bp (Suc i) plan us" by blast
        have "plan_ptrs [x] @ plan_ptrs plan = plan_ptrs (x # plan)" by (cases x) auto
        then have "swaps M M' [] (plan_ptrs (x # plan))" using swaps_add [OF M1(2) M'(2)] by simp
        moreover have "plan_rep P M' (bp @ [word_of_nat i]) x t" by (rule plan_rep_mono [OF swaps_le [OF M'(2)] M1(3)])
        ultimately show "fspec (fret (x # plan)) f' (\<lambda>plan f'. \<exists>M'. ff_rel Z f' M' \<and> swaps M M' [] (plan_ptrs plan) \<and> slots_at (plan_rep P M') bp i plan ts)"
          using M' ts by auto
      qed
    qed
  qed
qed

lemma promote_mem_slots_rep:
  assumes "keccak_len P" and "ff_rel Z f M" and "slots_at (slot_sound Z P pm) bp i cs ts"
  shows "fspec (promote_mem_slots P pm bp i cs) f
    (\<lambda>rs f'. \<exists>M'. ff_rel Z f' M' \<and> swaps M M' [] (slot_ptrs rs) \<and> slots_at (child_rep P M') bp i rs ts)"
  using assms(2,3)
proof (induction cs arbitrary: i ts f M)
  case Nil
  then show ?case using swaps_nil by auto
next
  case (Cons c cs)
  then obtain t us where ts: "ts = t # us" by (cases ts) auto
  show ?case
  proof (cases c)
    case None
    then show ?thesis using Cons.IH [OF Cons.prems(1), of "Suc i" us] Cons.prems(2) ts
      by (auto elim!: fspec_mono)
  next
    case (Some n)
    let ?q = "bp @ [word_of_nat i]"
    obtain u r where u: "t = Some u" "repr P n u" "promotes Z P pm ?q n u" "wf u r" "placed ?q u r"
      using Cons.prems(2) ts Some by auto
    have one: "grows Z P M f (if MAX_RECORD_BYTES < record_size (length ?q) n then pm \<lparr>ds_prefix = ?q, ds_node = n\<rparr>
        else flift (make_mem_leaf P \<lparr>ds_prefix = ?q, ds_node = n\<rparr>)) ?q u"
      using u(3) Cons.prems(1) grows_mem [OF assms(1) Cons.prems(1) u(2,4,5)] by (simp add: promotes_def)
    show ?thesis
      unfolding Some promote_mem_slots.simps Let_def fspec_bind
    proof (rule fspec_mono [OF one [unfolded grows_def]])
      fix x f1
      assume "\<exists>M1. ff_rel Z f1 M1 \<and> swaps M M1 [] (cptrs x) \<and> crep P M1 x ?q u"
      then obtain M1 where M1: "ff_rel Z f1 M1" "swaps M M1 [] (cptrs x)" "crep P M1 x ?q u" by blast
      show "fspec (promote_mem_slots P pm bp (i + 1) cs) f1 (\<lambda>ps f'. fspec (fret (Some x # ps)) f'
          (\<lambda>rs f'. \<exists>M'. ff_rel Z f' M' \<and> swaps M M' [] (slot_ptrs rs) \<and> slots_at (child_rep P M') bp i rs ts))"
      proof (rule fspec_mono)
        show "fspec (promote_mem_slots P pm bp (i + 1) cs) f1
          (\<lambda>rs f'. \<exists>M'. ff_rel Z f' M' \<and> swaps M1 M' [] (slot_ptrs rs) \<and> slots_at (child_rep P M') bp (Suc i) rs us)"
          using Cons.IH [OF M1(1), of "Suc i" us] Cons.prems(2) ts by simp
        fix rs f'
        assume "\<exists>M'. ff_rel Z f' M' \<and> swaps M1 M' [] (slot_ptrs rs) \<and> slots_at (child_rep P M') bp (Suc i) rs us"
        then obtain M' where M': "ff_rel Z f' M'" "swaps M1 M' [] (slot_ptrs rs)" "slots_at (child_rep P M') bp (Suc i) rs us" by blast
        have "swaps M M' [] (slot_ptrs (Some x # rs))" using swaps_add [OF M1(2) M'(2)] by simp
        moreover have "crep P M' x ?q u" by (rule crep_mono [OF swaps_le [OF M'(2)] M1(3)])
        ultimately show "fspec (fret (Some x # rs)) f' (\<lambda>rs f'. \<exists>M'. ff_rel Z f' M' \<and> swaps M M' [] (slot_ptrs rs) \<and> slots_at (child_rep P M') bp i rs ts)"
          using M' ts u(1) by auto
      qed
    qed
  qed
qed

section \<open>Promotion\<close>

text \<open>Fuel for a promotion at a prefix: the rest of the key, and a whole storage key below an account.\<close>

definition pfuel :: "nibs \<Rightarrow> nat \<Rightarrow> nat" where
  "pfuel pre r = r + (if length pre < 64 then 65 else 0)"

lemma pfuel_bound: "at_depth pre r \<Longrightarrow> pfuel pre r < 300"
  by (auto simp: pfuel_def at_depth_def)

definition lifts :: "frozen \<Rightarrow> prims \<Rightarrow> promoter \<Rightarrow> nibs \<Rightarrow> node \<Rightarrow> trie \<Rightarrow> bool" where
  "lifts Z P pm pre n t = (\<forall>f M. ff_rel Z f M \<longrightarrow> fspec (pm \<lparr>ds_prefix = pre, ds_node = n\<rparr>) f
     (\<lambda>c f'. \<exists>m M'. c = RRam m \<and> t \<noteq> TEmpty \<and> ff_rel Z f' M' \<and> swaps M M' [] (fptrs m) \<and> frep P M' m pre t))"

lemma lifts_promotes: "lifts Z P pm pre n t \<Longrightarrow> promotes Z P pm pre n t"
  unfolding lifts_def promotes_def grows_def by (fastforce elim: fspec_mono)

lemma split_top_rep:
  assumes "repr P n t" and "sp n" and "\<not> is_raw n" and "wf0 t r" and "placed pre t r"
  shows "(\<exists>e. split_top n = Err e \<and> fails e) \<or> (\<exists>ext cs ts r'. split_top n = Ok (ext, cs) \<and>
    t = ext_if ext (TBranch ts) \<and> list_all2 (rel_option (repr P)) cs ts \<and> wf (TBranch ts) r' \<and>
    placed (pre @ ext) (TBranch ts) r' \<and> (\<forall>c. Some c \<in> set cs \<longrightarrow> sp c) \<and> pfuel (pre @ ext) r' \<le> pfuel pre r)"
proof (cases n)
  case (Extension p c rf)
  then obtain u where u: "t = TExt p u" "repr P c u" using assms(1) by auto
  have w: "wf (TExt p u) r" using assms(4) u(1) by (simp add: wf0_def)
  then obtain ts where ts: "u = TBranch ts" by (cases u) auto
  obtain cs rf' where c: "c = Branch cs rf'" using assms(2) u(2) ts Extension by (cases c) auto
  note pl = placed_ext [OF assms(5) [unfolded u(1)] w]
  have "p \<noteq> []" "length p < r" using w by auto
  moreover have "pfuel (pre @ p) (r - length p) \<le> pfuel pre r" by (auto simp: pfuel_def)
  ultimately show ?thesis
    using Extension u ts c pl assms(2)
    by (intro disjI2 exI [of _ p] exI [of _ cs] exI [of _ ts] exI [of _ "r - length p"])
       (simp add: split_top_def ext_if_def)
next
  case (Branch cs rf)
  then show ?thesis
    using assms by (intro disjI2 exI [of _ "[]"] exI [of _ cs] exI [of _ "case t of TBranch ts \<Rightarrow> ts | _ \<Rightarrow> []"] exI [of _ r])
      (auto simp: split_top_def ext_if_def wf0_def)
qed (use assms in \<open>auto simp: split_top_def\<close>)

lemma wrap_branch_rep:
  assumes "slots_at (child_rep P M) (pre @ ext) 0 cs ts" and "length ts = 16"
  obtains m where "wrap_branch ext cs = RRam m" and "frep P M m pre (ext_if ext (TBranch ts))" and "fptrs m = slot_ptrs cs"
proof -
  have "frep P M (RBranch cs None) (pre @ ext) (TBranch ts)"
    unfolding frep_slots_at using assms by auto
  then show thesis
    using that [of "if ext = [] then RBranch cs None else RExtension ext (RBranch cs None) None"]
    by (cases "ext = []") (simp_all add: wrap_branch_def ext_if_def)
qed

lemma account_space:
  assumes "placed pre (TAcct p n b c s) r" and "wf (TAcct p n b c s) r"
  shows "length (pre @ p) = 64" and "length pre < 64 \<or> p = []"
  using assms by (auto simp: placed_def at_depth_def walk_depth_def split: if_splits)

lemma promote_account_sound:
  assumes "\<And>st s. repr P st s \<Longrightarrow> sp st \<Longrightarrow> \<not> is_raw st \<Longrightarrow> wf0 s 64 \<Longrightarrow> placed (pre @ p) s 64 \<Longrightarrow>
      lifts Z P prr (pre @ p) st s \<and> lifts Z P ptm (pre @ p) st s"
    and "repr P n t" and "sp n" and "n = Account p no b co st sr rf" and "wf t r" and "placed pre t r"
  shows "promotes Z P (\<lambda>sub. promote_account prr ptm sub ram) pre n t"
proof -
  obtain s where s: "t = TAcct p no b co s" "repr P st s" using assms(2,4) by auto
  note sp = account_space [OF assms(6) [unfolded s(1)] assms(5) [unfolded s(1)]]
  note pl = placed_storage [OF assms(6) [unfolded s(1)] assms(5) [unfolded s(1)] sp(1)]
  have L: "lifts Z P prr (pre @ p) st s" "lifts Z P ptm (pre @ p) st s"
    using assms(1) [OF s(2) _ _ pl(3,1)] assms(3,4) by auto
  show ?thesis
    unfolding promotes_def grows_def
  proof (intro allI impI)
    fix f M
    assume "ff_rel Z f M"
    then have "fspec (if ram then ptm \<lparr>ds_prefix = pre @ p, ds_node = st\<rparr> else prr \<lparr>ds_prefix = pre @ p, ds_node = st\<rparr>) f
       (\<lambda>c f'. \<exists>m M'. c = RRam m \<and> s \<noteq> TEmpty \<and> ff_rel Z f' M' \<and> swaps M M' [] (fptrs m) \<and> frep P M' m (pre @ p) s)"
      using L by (auto simp: lifts_def)
    then show "fspec (promote_account prr ptm \<lparr>ds_prefix = pre, ds_node = n\<rparr> ram) f
        (\<lambda>c f'. \<exists>M'. ff_rel Z f' M' \<and> swaps M M' [] (cptrs c) \<and> crep P M' c pre t)"
      unfolding promote_account_def promote_storage_to_ram_def assms(4) s(1)
      using sp(1) by (auto simp: Let_def elim!: fspec_mono; blast)
  qed
qed

definition sound_upto :: "frozen \<Rightarrow> prims \<Rightarrow> promoter \<Rightarrow> nat \<Rightarrow> bool" where
  "sound_upto Z P pm k = (\<forall>pre n t r. repr P n t \<longrightarrow> sp n \<longrightarrow> \<not> is_raw n \<longrightarrow> wf0 t r \<longrightarrow> placed pre t r \<longrightarrow>
     pfuel pre r < k \<longrightarrow> lifts Z P pm pre n t)"

lemma sound_uptoD:
  "sound_upto Z P pm k \<Longrightarrow> repr P n t \<Longrightarrow> sp n \<Longrightarrow> \<not> is_raw n \<Longrightarrow> wf0 t r \<Longrightarrow> placed pre t r \<Longrightarrow> pfuel pre r < k \<Longrightarrow>
   lifts Z P pm pre n t"
  unfolding sound_upto_def by blast

lemma promote_account_upto:
  assumes "sound_upto Z P prr k" and "sound_upto Z P ptm k" and "repr P n t" and "sp n"
    and "n = Account p no b co st sr rf" and "wf t r" and "placed pre t r" and "pfuel pre r \<le> k"
  shows "promotes Z P (\<lambda>sub. promote_account prr ptm sub ram) pre n t"
proof (rule promote_account_sound [OF _ assms(3-7)])
  fix st' s
  assume s: "repr P st' s" "sp st'" "\<not> is_raw st'" "wf0 s 64" "placed (pre @ p) s 64"
  obtain s' where t: "t = TAcct p no b co s'" using assms(3,5) by auto
  have l: "length (pre @ p) = 64" by (rule account_space(1)) (use assms(6,7) t in auto)
  moreover have "length p = r" using assms(6) t by simp
  moreover have "length pre < 64" using assms(7) t by (auto simp: placed_def)
  ultimately have "pfuel (pre @ p) 64 < k" using assms(8) by (simp add: pfuel_def)
  then show "lifts Z P prr (pre @ p) st' s \<and> lifts Z P ptm (pre @ p) st' s"
    using sound_uptoD [OF assms(1) s] sound_uptoD [OF assms(2) s] by blast
qed

lemma oversized_sound:
  assumes "sound_upto Z P prr k" and "sound_upto Z P ptm k" and "repr P n t" and "sp n" and "wf t r" and "placed pre t r"
    and "pfuel pre r < k"
  shows "promotes Z P (promote_oversized cfg prr ptm) pre n t" and "promotes Z P (promote_oversized_mem cfg prr ptm) pre n t"
proof -
  have L: "promotes Z P prr pre n t" "promotes Z P ptm pre n t" if "\<not> is_raw n"
    using lifts_promotes sound_uptoD [OF _ assms(3,4) that _ assms(6,7)] assms(1,2,5) by (auto simp: wf0_def)
  have A: "promotes Z P (\<lambda>sub. promote_account prr ptm sub (c_hot cfg)) pre n t" if "n = Account p no b co st sr rf"
    for p no b co st sr rf
    by (rule promote_account_upto [OF assms(1-4) that assms(5,6)]) (use assms(7) in simp)
  show "promotes Z P (promote_oversized cfg prr ptm) pre n t" "promotes Z P (promote_oversized_mem cfg prr ptm) pre n t"
    using L A by (cases n; simp add: promotes_def promote_oversized_def promote_oversized_mem_def grows_def)+
qed

lemma promote_slots_ready:
  assumes "sound_upto Z P prr k" and "sound_upto Z P ptm k" and "list_all2 (rel_option (repr P)) cs ts"
    and "wf (TBranch ts) r" and "placed pre (TBranch ts) r" and "\<And>c. Some c \<in> set cs \<Longrightarrow> sp c" and "pfuel pre r \<le> k"
  shows "slots_at (slot_sound Z P (promote_oversized cfg prr ptm)) pre 0 cs ts"
    and "slots_at (slot_sound Z P (promote_oversized_mem cfg prr ptm)) pre 0 cs ts"
proof -
  have l: "length ts = 16" "length cs = 16" using assms(3,4) by (auto dest: list_all2_lengthD)
  have "slot_sound Z P (promote_oversized cfg prr ptm) (pre @ [word_of_nat j]) (cs ! j) (ts ! j) \<and>
      slot_sound Z P (promote_oversized_mem cfg prr ptm) (pre @ [word_of_nat j]) (cs ! j) (ts ! j)" if j: "j < 16" for j
  proof (cases "cs ! j")
    case None
    then show ?thesis using list_all2_nthD [OF assms(3), of j] j l by simp
  next
    case (Some n)
    then obtain u where u: "ts ! j = Some u" "repr P n u"
      using list_all2_nthD [OF assms(3)] j l by (metis option_rel_Some1)
    have m: "Some u \<in> set ts" "Some n \<in> set cs" using nth_mem [of j ts] nth_mem [of j cs] j l u Some by auto
    note pl = placed_child [OF assms(5) wf_wfb [OF assms(4)] j m(1)]
    have "pfuel (pre @ [word_of_nat j]) (r - 1) < k"
      using assms(4,7) by (auto simp: pfuel_def split: if_splits)
    from oversized_sound [OF assms(1,2) u(2) assms(6) [OF m(2)] pl(3,1) this]
    show ?thesis using u pl(1,3) Some by auto
  qed
  then show "slots_at (slot_sound Z P (promote_oversized cfg prr ptm)) pre 0 cs ts"
    "slots_at (slot_sound Z P (promote_oversized_mem cfg prr ptm)) pre 0 cs ts"
    using l by (auto simp: slots_at_def)
qed

lemma promote_step:
  assumes K: "keccak_len P" and S: "sound_upto Z P (promote_record_to_ram P cfg k) k" "sound_upto Z P (promote_to_mem P cfg k) k"
  shows "sound_upto Z P (promote_record_to_ram P cfg (Suc k)) (Suc k)" and "sound_upto Z P (promote_to_mem P cfg (Suc k)) (Suc k)"
proof -
  have "lifts Z P (promote_record_to_ram P cfg (Suc k)) pre n t \<and> lifts Z P (promote_to_mem P cfg (Suc k)) pre n t"
    if a: "repr P n t" "sp n" "\<not> is_raw n" "wf0 t r" "placed pre t r" "pfuel pre r < Suc k" for pre n t r
    using split_top_rep [OF a(1-5)]
  proof (elim disjE exE conjE)
    fix e
    assume "split_top n = Err e" "fails e"
    then show ?thesis by (simp add: lifts_def)
  next
    fix ext cs ts r'
    assume st: "split_top n = Ok (ext, cs)" "t = ext_if ext (TBranch ts)" "list_all2 (rel_option (repr P)) cs ts"
      "wf (TBranch ts) r'" "placed (pre @ ext) (TBranch ts) r'" "\<forall>c. Some c \<in> set cs \<longrightarrow> sp c"
      "pfuel (pre @ ext) r' \<le> pfuel pre r"
    have "pfuel (pre @ ext) r' \<le> k" using st(7) a(6) by simp
    note ready = promote_slots_ready [OF S st(3-5) _ this, of cfg]
    have l: "length ts = 16" "t \<noteq> TEmpty" using st(2,4) by (auto simp: ext_if_def)
    have "fspec (promote_record_to_ram P cfg (Suc k) \<lparr>ds_prefix = pre, ds_node = n\<rparr>) f
     (\<lambda>c f'. \<exists>m M'. c = RRam m \<and> t \<noteq> TEmpty \<and> ff_rel Z f' M' \<and> swaps M M' [] (fptrs m) \<and> frep P M' m pre t)" if F: "ff_rel Z f M" for f M
      unfolding promote_record_to_ram.simps Let_def disk_subtree.select_convs st(1) fspec_bind fspec_lift split
    proof (rule fspec_mono [OF promote_slots_rep [OF K F]])
      fix plan f1
      assume "\<exists>M'. ff_rel Z f1 M' \<and> swaps M M' [] (plan_ptrs plan) \<and> slots_at (plan_rep P M') (pre @ ext) 0 plan ts"
      then obtain M1 where M1: "ff_rel Z f1 M1" "swaps M M1 [] (plan_ptrs plan)" "slots_at (plan_rep P M1) (pre @ ext) 0 plan ts"
        by blast
      show "fspec (fwrite_batch (plan_payloads plan)) f1 (\<lambda>ptrs f'. fspec (fret (wrap_branch ext (fill_slots plan ptrs))) f'
         (\<lambda>c f'. \<exists>m M'. c = RRam m \<and> t \<noteq> TEmpty \<and> ff_rel Z f' M' \<and> swaps M M' [] (fptrs m) \<and> frep P M' m pre t))"
      proof (rule fspec_write_batch [OF M1(1)])
        fix ptrs f'
        let ?M = "M1(ptrs [\<mapsto>] plan_payloads plan)"
        assume W: "ff_rel Z f' ?M" "length ptrs = length (plan_payloads plan)" "distinct ptrs" "set ptrs \<inter> dom M1 = {}"
        have sw: "swaps M1 ?M [] ptrs" by (rule swaps_upds [OF W(2-4)])
        note fl = fill_slots_rep [OF M1(3) swaps_le [OF sw] upds_at [OF W(2,3)]]
        have "swaps M ?M [] (slot_ptrs (fill_slots plan ptrs))"
          using swaps_mset [OF swaps_add [OF M1(2) sw]] fl by simp
        moreover obtain m where "wrap_branch ext (fill_slots plan ptrs) = RRam m" "frep P ?M m pre (ext_if ext (TBranch ts))"
          "fptrs m = slot_ptrs (fill_slots plan ptrs)"
          using wrap_branch_rep [OF conjunct1 [OF fl] l(1)] by blast
        ultimately show "fspec (fret (wrap_branch ext (fill_slots plan ptrs))) f'
         (\<lambda>c f'. \<exists>m M'. c = RRam m \<and> t \<noteq> TEmpty \<and> ff_rel Z f' M' \<and> swaps M M' [] (fptrs m) \<and> frep P M' m pre t)"
          using W(1) st(2) l(2) by auto
      qed
    qed (use ready(1) st(6) in auto)
    moreover have "fspec (promote_to_mem P cfg (Suc k) \<lparr>ds_prefix = pre, ds_node = n\<rparr>) f
     (\<lambda>c f'. \<exists>m M'. c = RRam m \<and> t \<noteq> TEmpty \<and> ff_rel Z f' M' \<and> swaps M M' [] (fptrs m) \<and> frep P M' m pre t)" if F: "ff_rel Z f M" for f M
      unfolding promote_to_mem.simps Let_def disk_subtree.select_convs st(1) fspec_bind fspec_lift split
    proof (rule fspec_mono [OF promote_mem_slots_rep [OF K F]])
      fix rs f'
      assume "\<exists>M'. ff_rel Z f' M' \<and> swaps M M' [] (slot_ptrs rs) \<and> slots_at (child_rep P M') (pre @ ext) 0 rs ts"
      then obtain M' where M': "ff_rel Z f' M'" "swaps M M' [] (slot_ptrs rs)" "slots_at (child_rep P M') (pre @ ext) 0 rs ts"
        by blast
      obtain m where "wrap_branch ext rs = RRam m" "frep P M' m pre (ext_if ext (TBranch ts))" "fptrs m = slot_ptrs rs"
        using wrap_branch_rep [OF M'(3) l(1)] by blast
      then show "fspec (fret (wrap_branch ext rs)) f'
         (\<lambda>c f'. \<exists>m M'. c = RRam m \<and> t \<noteq> TEmpty \<and> ff_rel Z f' M' \<and> swaps M M' [] (fptrs m) \<and> frep P M' m pre t)"
        using M' st(2) l(2) by auto
    qed (use ready(2) st(6) in auto)
    ultimately show ?thesis by (simp add: lifts_def)
  qed
  then show "sound_upto Z P (promote_record_to_ram P cfg (Suc k)) (Suc k)" "sound_upto Z P (promote_to_mem P cfg (Suc k)) (Suc k)"
    unfolding sound_upto_def by blast+
qed

lemma promote_all:
  assumes "keccak_len P"
  shows "sound_upto Z P (promote_record_to_ram P cfg k) k \<and> sound_upto Z P (promote_to_mem P cfg k) k"
proof (induction k)
  case (Suc k)
  then show ?case using promote_step [OF assms] by blast
qed (simp add: sound_upto_def)

lemma promote_grows:
  assumes "keccak_len P" and "repr P n t" and "sp n" and "\<not> is_raw n" and "wf t r" and "placed pre t r" and "ff_rel Z f M"
  shows "grows Z P M f (promote_record_to_ram P cfg REC_FUEL \<lparr>ds_prefix = pre, ds_node = n\<rparr>) pre t"
    and "grows Z P M f (promote_to_mem P cfg REC_FUEL \<lparr>ds_prefix = pre, ds_node = n\<rparr>) pre t"
proof -
  have "pfuel pre r < REC_FUEL" using pfuel_bound placed_depth(3) [OF assms(6)] by (simp add: REC_FUEL_def)
  then show "grows Z P M f (promote_record_to_ram P cfg REC_FUEL \<lparr>ds_prefix = pre, ds_node = n\<rparr>) pre t"
    "grows Z P M f (promote_to_mem P cfg REC_FUEL \<lparr>ds_prefix = pre, ds_node = n\<rparr>) pre t"
    using lifts_promotes [OF sound_uptoD [OF _ assms(2-4) _ assms(6)]] promote_all [OF assms(1), of Z cfg REC_FUEL] assms(5,7)
    by (auto simp: promotes_def wf0_def)
qed

lemma promote_account_grows:
  assumes "keccak_len P" and "repr P n t" and "sp n" and "n = Account p no b co st sr rf" and "wf t r" and "placed pre t r"
    and "ff_rel Z f M"
  shows "grows Z P M f (promote_account_to_ram P cfg \<lparr>ds_prefix = pre, ds_node = n\<rparr> ram) pre t"
proof -
  have k: "pfuel pre r \<le> REC_FUEL" using pfuel_bound placed_depth(3) [OF assms(6)] by (simp add: REC_FUEL_def less_imp_le)
  note S = promote_all [OF assms(1), of Z cfg REC_FUEL]
  show ?thesis
    using promote_account_upto [OF conjunct1 [OF S] conjunct2 [OF S] assms(2-6) k, of ram] assms(7)
    by (simp add: promotes_def promote_account_to_ram_def)
qed

end
