(* ===== verification/FrontierInsert.thy ===== *)
theory FrontierInsert
  imports FrontierPromote
begin

text \<open>
  Insertion into the frontier. The frontier that results stands for the trie
  with exactly the named leaf updated, and the live records change by exactly the
  records the frontier gave up and the ones it created.
\<close>

section \<open>The trie an insertion yields\<close>

text \<open>An empty frontier becomes a branch at once, even with a single child.\<close>

definition fput :: "trie \<Rightarrow> nibs \<Rightarrow> leaf \<Rightarrow> trie" where
  "fput t k l = (if t = TEmpty then TBranch ((replicate 16 None)[unat (hd k) := Some (mk_leaf (tl k) l)]) else tput t k l)"

definition routed :: "nibs \<Rightarrow> bytes \<Rightarrow> leaf_op \<Rightarrow> bool" where
  "routed pre key op = (length key = 32 \<and> op_ok op \<and>
     (if length pre < 64 then pre = take (length pre) (key_nibbles key) else \<exists>v. op = OpValue v))"

definition node_post :: "frozen \<Rightarrow> prims \<Rightarrow> (disk_ptr \<rightharpoonup> bytes) \<Rightarrow> ram_node \<Rightarrow> nibs \<Rightarrow> trie \<Rightarrow> nibs \<Rightarrow> leaf_op \<Rightarrow> ram_node \<Rightarrow> flat_file \<Rightarrow> bool" where
  "node_post Z P M n pre t k op n' f' = (\<exists>l M'. spec_op P (tlook t k) op = Ok l \<and> ff_rel Z f' M' \<and>
     swaps M M' (fptrs n) (fptrs n') \<and> frep P M' n' pre (fput t k l))"

definition child_post :: "frozen \<Rightarrow> prims \<Rightarrow> (disk_ptr \<rightharpoonup> bytes) \<Rightarrow> disk_ptr list \<Rightarrow> nibs \<Rightarrow> trie \<Rightarrow> nibs \<Rightarrow> leaf_op \<Rightarrow> ram_child \<Rightarrow> flat_file \<Rightarrow> bool" where
  "child_post Z P M A pre t k op c' f' = (\<exists>l M'. spec_op P (tlook t k) op = Ok l \<and> ff_rel Z f' M' \<and>
     swaps M M' A (cptrs c') \<and> crep P M' c' pre (tput t k l))"

lemma spec_op_fails: "spec_op P lo op = Err e \<Longrightarrow> fails e"
  by (cases "(P, lo, op)" rule: spec_op.cases) (auto split: option.splits if_splits)

lemma spec_op_value: "spec_op P lo (OpValue v) = Ok l \<Longrightarrow> l = LVal v"
  by (cases lo rule: option.exhaust) (auto split: option.splits, metis leaf.exhaust res.inject(1) res.distinct(1) spec_op.simps(4,7))

lemma shallow_mk_leaf [simp]: "shallow (mk_leaf p l) d"
  by (cases l) auto

section \<open>New leaves\<close>

lemma new_leaf_rep:
  assumes K: "keccak_len P" and F: "ff_rel Z f M" and D: "at_depth q r" and R: "length key = 32" "op_ok op"
    and S: "64 \<le> length q \<Longrightarrow> \<exists>v. op = OpValue v"
  shows "fspec (new_leaf P cfg q key op ram) f (child_post Z P M [] q TEmpty (drop (walk_depth q) (key_nibbles key)) op)"
proof -
  let ?k = "drop (walk_depth q) (key_nibbles key)"
  have d: "walk_depth q \<le> 64" "length ?k = r" "nibs_ok ?k" using D R(1) by (auto simp: at_depth_def)
  obtain l where l: "spec_op P None op = Ok l" by (cases op) auto
  have lo: "leaf_ok l" using l R(2) by (cases op) (auto simp: EMPTY_CODE_HASH_def store_slot_def)
  have "op_fuel op \<le> REC_FUEL" by (cases op) (auto simp: op_fuel_def REC_FUEL_def)
  from op_sound_place [OF op_sound_all [OF K R] this d(1) l] obtain n where
    n: "place_new P (record_node_insert P REC_FUEL) key op (walk_depth q) = Ok n" "repr P n (mk_leaf ?k l)" .
  have w: "wf (mk_leaf ?k l) r" using d lo by simp
  have "64 \<le> length q \<Longrightarrow> val_only (mk_leaf ?k l)" using S l by auto
  then have pl: "placed q (mk_leaf ?k l) r" using D by (simp add: placed_def)
  have "fspec (new_leaf P cfg q key op ram) f (\<lambda>c f'. \<exists>M'. ff_rel Z f' M' \<and> swaps M M' [] (cptrs c) \<and> crep P M' c q (mk_leaf ?k l))"
    using grows_leaf [OF K F n(2) w pl, of cfg ram] n(1) by (simp add: new_leaf_def insert_record_def grows_def)
  then show ?thesis by (rule fspec_mono) (use l in \<open>auto simp: child_post_def\<close>)
qed

section \<open>Rewriting a record\<close>

lemma insert_record_rep:
  assumes K: "keccak_len P" and T: "decode_typed P" and R: "length key = 32" "op_ok op" and w: "wf t r" and d: "d + r = 64"
    and n: "repr P n t" "sp n"
  defines "k \<equiv> drop d (key_nibbles key)"
  shows "(\<exists>e. insert_record P n d key op = Err e \<and> fails e) \<or>
    (\<exists>n' l. insert_record P n d key op = Ok n' \<and> spec_op P (tlook t k) op = Ok l \<and> repr P n' (tput t k l) \<and>
       wf (tput t k l) r \<and> sp n' \<and> \<not> is_raw n')"
proof -
  have k: "length k = r" "nibs_ok k" using R(1) d by (auto simp: k_def)
  have "op_fuel op \<le> 65" by (cases op) (auto simp: op_fuel_def)
  then have ref: "refines P (insert_record P n d key op) (tput t k) (spec_op P (tlook t k) op)"
    using insert_gen [OF K R(1) op_sound_all [OF K R], of t r d n REC_FUEL] w d n(1)
    unfolding insert_record_def k_def by (simp add: wf0_def REC_FUEL_def)
  show ?thesis
  proof (cases "spec_op P (tlook t k) op")
    case (Err e)
    then show ?thesis using ref spec_op_fails by (auto simp: refines_def)
  next
    case (Ok l)
    then obtain n' where n': "insert_record P n d key op = Ok n'" "repr P n' (tput t k l)" using ref by (auto simp: refines_def)
    have "leaf_ok l" using leaf_ok_spec_op [OF Ok R(2) T] tlook_leaf_ok [OF w] by blast
    then have "wf (tput t k l) r" by (rule wf_tput [OF w k])
    moreover have "sp n' \<and> \<not> is_raw n'"
      using keeps_spD [OF insert_keeps_sp n'(1) [unfolded insert_record_def] n(2)] .
    ultimately show ?thesis using n' Ok by auto
  qed
qed

lemma placed_tput:
  assumes "wf t r" and "placed pre t r" and "routed pre key op" and "k = drop (walk_depth pre) (key_nibbles key)"
    and "shallow (tput t k l) (length pre)" and "spec_op P (tlook t k) op = Ok l"
  shows "placed pre (tput t k l) r"
proof -
  have k: "length k = r" "nibs_ok k" using assms(2-4) by (auto simp: placed_def at_depth_def routed_def)
  have "val_only (tput t k l)" if st: "64 \<le> length pre"
  proof -
    obtain v where "op = OpValue v" using assms(3) st by (auto simp: routed_def)
    then have "l = LVal v" using assms(6) spec_op_value by blast
    then show ?thesis using val_only_tput [OF assms(1) k] assms(2) st by (simp add: placed_def)
  qed
  then show ?thesis using assms(2,5) by (simp add: placed_def)
qed

lemma rewrite_grows:
  assumes "keccak_len P" and "repr P n t" and "sp n" and "\<not> is_raw n" and "wf t r" and "placed pre t r" and "ff_rel Z f M"
  shows "grows Z P M f (if should_promote cfg \<lparr>ds_prefix = pre, ds_node = n\<rparr> then promote_to_mem P cfg REC_FUEL \<lparr>ds_prefix = pre, ds_node = n\<rparr>
        else if should_promote_account cfg \<lparr>ds_prefix = pre, ds_node = n\<rparr>
        then promote_account_to_ram P cfg \<lparr>ds_prefix = pre, ds_node = n\<rparr> ram
        else flift (make_mem_leaf P \<lparr>ds_prefix = pre, ds_node = n\<rparr>)) pre t"
    and "grows Z P M f (if should_promote cfg \<lparr>ds_prefix = pre, ds_node = n\<rparr>
          then if c_hot cfg then promote_to_mem P cfg REC_FUEL \<lparr>ds_prefix = pre, ds_node = n\<rparr>
               else promote_record_to_ram P cfg REC_FUEL \<lparr>ds_prefix = pre, ds_node = n\<rparr>
        else if should_promote_account cfg \<lparr>ds_prefix = pre, ds_node = n\<rparr>
        then promote_account_to_ram P cfg \<lparr>ds_prefix = pre, ds_node = n\<rparr> ram
        else make_leaf_child P cfg False \<lparr>ds_prefix = pre, ds_node = n\<rparr>) pre t"
proof -
  have A: "grows Z P M f (promote_account_to_ram P cfg \<lparr>ds_prefix = pre, ds_node = n\<rparr> ram) pre t"
    if sh: "should_promote_account cfg \<lparr>ds_prefix = pre, ds_node = n\<rparr>"
  proof -
    obtain p no b co st sr rf where "n = Account p no b co st sr rf"
      using sh by (auto simp: should_promote_account_def split: if_splits node.splits)
    from promote_account_grows [OF assms(1-3) this assms(5-7)] show ?thesis .
  qed
  note G = promote_grows [OF assms] grows_mem [OF assms(1,7,2,5,6)] grows_leaf [OF assms(1,7,2,5,6)] A
  show "grows Z P M f (if should_promote cfg \<lparr>ds_prefix = pre, ds_node = n\<rparr> then promote_to_mem P cfg REC_FUEL \<lparr>ds_prefix = pre, ds_node = n\<rparr>
        else if should_promote_account cfg \<lparr>ds_prefix = pre, ds_node = n\<rparr>
        then promote_account_to_ram P cfg \<lparr>ds_prefix = pre, ds_node = n\<rparr> ram
        else flift (make_mem_leaf P \<lparr>ds_prefix = pre, ds_node = n\<rparr>)) pre t"
    "grows Z P M f (if should_promote cfg \<lparr>ds_prefix = pre, ds_node = n\<rparr>
          then if c_hot cfg then promote_to_mem P cfg REC_FUEL \<lparr>ds_prefix = pre, ds_node = n\<rparr>
               else promote_record_to_ram P cfg REC_FUEL \<lparr>ds_prefix = pre, ds_node = n\<rparr>
        else if should_promote_account cfg \<lparr>ds_prefix = pre, ds_node = n\<rparr>
        then promote_account_to_ram P cfg \<lparr>ds_prefix = pre, ds_node = n\<rparr> ram
        else make_leaf_child P cfg False \<lparr>ds_prefix = pre, ds_node = n\<rparr>) pre t"
    using G by presburger+
qed

lemma grows_child_post:
  assumes "grows Z P M f m pre (tput t k l)" and "spec_op P (tlook t k) op = Ok l"
  shows "fspec m f (child_post Z P M [] pre t k op)"
  using assms unfolding grows_def child_post_def by (auto elim!: fspec_mono)

lemma insert_mem_rep:
  assumes K: "keccak_len P" and T: "decode_typed P" and F: "ff_rel Z f M" and c: "crep P M (RMem bs root) pre t"
    and w: "wf t r" and pl: "placed pre t r" "length pre \<noteq> 64" and m: "mem_ok_child (RMem bs root)" and R: "routed pre key op"
    and k: "k = drop (walk_depth pre) (key_nibbles key)" and H: "\<And>l. shallow (tput t k l) (length pre)"
  shows "fspec (insert_mem P cfg bs key op ram) f (child_post Z P M [] pre t k op)"
proof -
  obtain n where n: "parse_payload_lazy P bs = Ok \<lparr>ds_prefix = pre, ds_node = n\<rparr>" "repr P n t" "\<not> is_raw n" "sp n"
    using mem_read [OF K w placed_depth(3) [OF pl(1)] c m] by blast
  have R': "length key = 32" "op_ok op" using R by (simp_all add: routed_def)
  have d: "local_depth pre = walk_depth pre" by (rule local_walk [OF pl(2)])
  from insert_record_rep [OF K T R' w placed_depth(1) [OF pl(1)] n(2,4)] show ?thesis
  proof (elim disjE exE conjE)
    fix n' l
    assume i: "insert_record P n (walk_depth pre) key op = Ok n'"
      "spec_op P (tlook t (drop (walk_depth pre) (key_nibbles key))) op = Ok l"
      "repr P n' (tput t (drop (walk_depth pre) (key_nibbles key)) l)"
      "wf (tput t (drop (walk_depth pre) (key_nibbles key)) l) r" "sp n'" "\<not> is_raw n'"
    note i' = i(2-4) [folded k]
    have "placed pre (tput t k l) r" by (rule placed_tput [OF w pl(1) R k H i'(1)])
    from grows_child_post [OF rewrite_grows(1) [OF K i'(2) i(5,6) i'(3) this F, of cfg "ram \<or> c_hot cfg"] i'(1)]
    show ?thesis using n(1) i(1) d by (simp add: insert_mem_def Let_def split: if_splits)
  qed (use n(1) d in \<open>simp add: insert_mem_def\<close>)
qed

lemma fspec_case_prod [simp]: "fspec (case (a, b) of (x, y) \<Rightarrow> g x y) f Q = fspec (g a b) f Q"
  by simp

lemma insert_disk_rep:
  assumes K: "keccak_len P" and T: "decode_typed P" and F: "ff_rel Z f M" and c: "crep P M (RDisk ptr root) pre t"
    and w: "wf t r" and pl: "placed pre t r" "length pre \<noteq> 64" and R: "routed pre key op"
    and k: "k = drop (walk_depth pre) (key_nibbles key)" and H: "\<And>l. shallow (tput t k l) (length pre)"
  shows "fspec (insert_disk P cfg ptr key op ram) f (child_post Z P M [ptr] pre t k op)"
proof -
  obtain n where n: "read_lazy P f ptr = Ok \<lparr>ds_prefix = pre, ds_node = n\<rparr>" "repr P n t" "\<not> is_raw n" "sp n"
    using disk_read [OF K w placed_depth(3) [OF pl(1)] rel_readable [OF F] c] by blast
  have rd: "fspec (fread_lazy P ptr) f Q = Q \<lparr>ds_prefix = pre, ds_node = n\<rparr> f" for Q
    using n(1) by (simp add: fread_lazy_def fspec_def)
  have R': "length key = 32" "op_ok op" using R by (simp_all add: routed_def)
  have d: "local_depth pre = walk_depth pre" by (rule local_walk [OF pl(2)])
  from insert_record_rep [OF K T R' w placed_depth(1) [OF pl(1)] n(2,4)] show ?thesis
  proof (elim disjE exE conjE)
    fix n' l
    assume i: "insert_record P n (walk_depth pre) key op = Ok n'"
      "spec_op P (tlook t (drop (walk_depth pre) (key_nibbles key))) op = Ok l"
      "repr P n' (tput t (drop (walk_depth pre) (key_nibbles key)) l)"
      "wf (tput t (drop (walk_depth pre) (key_nibbles key)) l) r" "sp n'" "\<not> is_raw n'"
    note i' = i(2-4) [folded k]
    let ?s = "\<lparr>ds_prefix = pre, ds_node = n'\<rparr>" and ?M = "M(ptr := None)" and ?f = "ff_free f ptr"
    have p: "placed pre (tput t k l) r" by (rule placed_tput [OF w pl(1) R k H i'(1)])
    have F': "ff_rel Z ?f ?M" using free_rel [OF F] c by auto
    have up: "fspec m ?f (child_post Z P M [ptr] pre t k op)" if "grows Z P ?M ?f m pre (tput t k l)" for m
      using grows_child_post [OF that i'(1)]
      by (rule fspec_mono) (auto simp: child_post_def intro: swaps_trans [OF swaps_drop])
    note G = rewrite_grows(2) [OF K i'(2) i(5,6) i'(3) p F', of cfg "ram \<or> c_hot cfg"]
    have "insert_disk P cfg ptr key op ram f = fbind (ffree ptr) (\<lambda>_. if should_promote cfg ?s
          then if c_hot cfg then promote_to_mem P cfg REC_FUEL ?s else promote_record_to_ram P cfg REC_FUEL ?s
        else if should_promote_account cfg ?s then promote_account_to_ram P cfg ?s (ram \<or> c_hot cfg)
        else make_leaf_child P cfg False ?s) f"
      using n(1) i(1) d serialize_placed [OF K i'(2,3) p]
      by (simp add: insert_disk_def fbind_def fread_lazy_def flift_def ffree_def make_leaf_child_def Let_def)
    then show ?thesis using up [OF G] by (simp add: fspec_def fbind_def ffree_def)
  qed (use rd d in \<open>simp add: insert_disk_def\<close>)
qed

section \<open>Splitting\<close>

lemma slot_ptrs_put:
  assumes "i < length cs" and "cs ! i = None"
  shows "mset (slot_ptrs (cs[i := Some c])) = mset (slot_ptrs cs) + mset (cptrs c)"
  using slots_ptrs_update [OF assms(1), of "Some c"] slots_ptrs_split [OF assms(1)] assms(2) by simp

lemma slot_ptrs_empty [simp]: "slot_ptrs (replicate n None) = []"
  by (induction n) auto

lemma fork_rep:
  assumes "crep P M a (pre @ p @ [i]) u" and "crep P M b (pre @ p @ [j]) v" and "i \<noteq> j" and "unat i < 16" and "unat j < 16"
  defines "cs \<equiv> empty_children[unat i := Some a, unat j := Some b]"
  obtains m where "wrap_branch p cs = RRam m" and "frep P M m pre (fork p i u j v)"
    and "mset (fptrs m) = mset (cptrs a) + mset (cptrs b)"
proof -
  let ?ts = "(replicate 16 None)[unat i := Some u, unat j := Some v]"
  have ne: "unat i \<noteq> unat j" using assms(3) by (simp add: word_unat_eq_iff)
  have "child_rep P M ((pre @ p) @ [word_of_nat x]) (cs ! x) (?ts ! x)" if x: "x < 16" for x
  proof (cases "x = unat j")
    case True
    then show ?thesis using assms(2,5) by (simp add: cs_def empty_children_def)
  next
    case False
    then show ?thesis using assms(1,4) x by (auto simp: cs_def empty_children_def nth_list_update)
  qed
  then have "slots_at (child_rep P M) (pre @ p) 0 cs ?ts"
    by (simp add: slots_at_def cs_def empty_children_def)
  then obtain m where m: "wrap_branch p cs = RRam m" "frep P M m pre (ext_if p (TBranch ?ts))" "fptrs m = slot_ptrs cs"
    by (rule wrap_branch_rep) simp_all
  have "mset (slot_ptrs cs) = mset (cptrs a) + mset (cptrs b)"
    using slot_ptrs_put [of "unat j" "empty_children[unat i := Some a]" b] slot_ptrs_put [of "unat i" empty_children a]
      ne assms(4,5) by (simp add: cs_def empty_children_def)
  then show thesis using that [OF m(1)] m(2,3) by (simp add: fork_def)
qed

lemma at_depth_split:
  assumes "at_depth pre r" and "length p < r" and "nibs_ok p" and "x < 16" and "length (pre @ p) \<noteq> 63"
  shows "at_depth (pre @ p @ [x]) (r - length p - 1)" and "walk_depth (pre @ p @ [x]) = walk_depth pre + length p + 1"
  using assms by (auto simp: at_depth_def walk_depth_def split: if_splits)

text \<open>The new leaf beside the old subtree, below the shared part of the path.\<close>

lemma split_leaf:
  assumes K: "keccak_len P" and F: "ff_rel Z f M" and D: "at_depth pre r" and R: "length key = 32" "op_ok op"
    "64 \<le> length pre \<Longrightarrow> \<exists>v. op = OpValue v"
    and k: "k = drop (walk_depth pre) (key_nibbles key)" and p: "nibs_ok p" "common_prefix p k < length p" "length p \<le> r"
    and c: "c = common_prefix p k" and ne: "length pre + c \<noteq> 63"
  shows "fspec (new_leaf P cfg (pre @ take c p @ [k ! c]) key op ram) f
      (child_post Z P M [] (pre @ take c p @ [k ! c]) TEmpty (drop (Suc c) k) op)"
    and "unat (k ! c) < 16" and "unat (p ! c) < 16" and "p ! c \<noteq> k ! c"
proof -
  have lk: "length k = r" "nibs_ok k" using D R(1) k by (auto simp: at_depth_def)
  have cl: "c < length p" "c < length k" using p c lk(1) by auto
  show "unat (k ! c) < 16" "unat (p ! c) < 16" "p ! c \<noteq> k ! c"
    using nibble_unat nibs_ok_nth [OF lk(2) cl(2)] nibs_ok_nth [OF p(1) cl(1)] common_prefix_differs [of p k] cl c by auto
  have d: "at_depth (pre @ take c p @ [k ! c]) (r - c - 1)" "walk_depth (pre @ take c p @ [k ! c]) = walk_depth pre + c + 1"
    using at_depth_split [OF D, of "take c p" "k ! c"] cl p ne nibs_ok_nth [OF lk(2) cl(2)] lk(1) nibs_ok_take [OF p(1)] by auto
  have "64 \<le> length (pre @ take c p @ [k ! c]) \<Longrightarrow> \<exists>v. op = OpValue v"
    using R(3) D ne cl lk(1) by (auto simp: at_depth_def walk_depth_def split: if_splits)
  from new_leaf_rep [OF K F d(1) R(1,2) this, of cfg ram]
  show "fspec (new_leaf P cfg (pre @ take c p @ [k ! c]) key op ram) f
      (child_post Z P M [] (pre @ take c p @ [k ! c]) TEmpty (drop (Suc c) k) op)"
    using d(2) by (simp add: k add.commute)
qed

lemma fbind_lift [simp]: "fbind (flift (Ok x)) g = g x" "fbind (flift (Err e)) g = flift (Err e)"
  by (simp_all add: fbind_def flift_def fun_eq_iff)

lemma swaps_beside:
  assumes "swaps M M' [] B" and "distinct A" and "set A \<subseteq> dom M" and "mset C = mset A + mset B"
  shows "swaps M M' A C"
  using swaps_mset [of M M' A "A @ B" C] swaps_frame [OF assms(1), of A "[]"] assms(2-4) by simp

lemma leaf_beside:
  assumes post: "child_post Z P M [] (pre @ p @ [j]) TEmpty k op leaf f'" and old: "crep P M a (pre @ p @ [i]) u"
    and ne: "i \<noteq> j" "unat i < 16" "unat j < 16" and d: "distinct (cptrs a)"
  obtains m l M' where "wrap_branch p (empty_children[unat i := Some a, unat j := Some leaf]) = RRam m"
    and "spec_op P None op = Ok l" and "ff_rel Z f' M'" and "swaps M M' (cptrs a) (fptrs m)"
    and "frep P M' m pre (fork p i u j (mk_leaf k l))"
proof -
  obtain l M' where M': "spec_op P None op = Ok l" "ff_rel Z f' M'" "swaps M M' [] (cptrs leaf)"
    "crep P M' leaf (pre @ p @ [j]) (mk_leaf k l)"
    using post by (auto simp: child_post_def)
  from fork_rep [OF crep_mono [OF swaps_le [OF M'(3)] old] M'(4) ne] obtain m where
    m: "wrap_branch p (empty_children[unat i := Some a, unat j := Some leaf]) = RRam m"
    "frep P M' m pre (fork p i u j (mk_leaf k l))" "mset (fptrs m) = mset (cptrs a) + mset (cptrs leaf)" .
  have "swaps M M' (cptrs a) (fptrs m)" by (rule swaps_beside [OF M'(3) d frep_ptrs(2) [OF old] m(3)])
  then show thesis using that [OF m(1)] M'(1,2) m(2) by blast
qed

lemma split_extension_rep:
  assumes K: "keccak_len P" and F: "ff_rel Z f M" and rep: "frep P M (RExtension p n h) pre t" and w: "wf t r"
    and pl: "placed pre t r" and R: "routed pre key op" and k: "k = drop (walk_depth pre) (key_nibbles key)"
    and H: "\<And>l. shallow (tput t k l) (length pre)" and d: "distinct (fptrs n)" and c: "c = common_prefix p k" "c < length p"
  shows "fspec (split_extension P cfg p n c pre key op ram) f (node_post Z P M (RExtension p n h) pre t k op)"
proof -
  obtain u where u: "t = TExt p u" "frep P M n (pre @ p) u" using rep by auto
  have D: "at_depth pre r" by (rule placed_depth(3) [OF pl])
  have R': "length key = 32" "op_ok op" "64 \<le> length pre \<Longrightarrow> \<exists>v. op = OpValue v" using R by (auto simp: routed_def)
  have p: "p \<noteq> []" "nibs_ok p" "length p < r" using w u(1) by auto
  let ?old = "if drop (Suc c) p = [] then n else RExtension (drop (Suc c) p) n None"
  have pp: "pre @ take c p @ [p ! c] @ drop (Suc c) p = pre @ p" using c(2) by (simp add: id_take_nth_drop [symmetric])
  have old: "crep P M (RRam ?old) (pre @ take c p @ [p ! c]) (ext_if (drop (Suc c) p) u)"
    using u(2) pp by (auto simp: ext_if_def)
  have tp: "tput t k l = fork (take c p) (p ! c) (ext_if (drop (Suc c) p) u) (k ! c) (mk_leaf (drop (Suc c) k) l)" for l
    using u(1) c by (simp add: Let_def)
  have ne: "length pre + c \<noteq> 63"
    using H [of "LVal []"] c(2) unfolding tp by (auto simp: fork_def ext_if_def min_def split: if_splits)
  have dp: "distinct (cptrs (RRam ?old))" "cptrs (RRam ?old) = fptrs n" using d by auto
  note SL = split_leaf [OF K F D R' k p(2) c(2) [unfolded c(1)] less_imp_le [OF p(3)] c(1) ne]
  have i: "index (key_nibbles key) (walk_depth pre + c) = Ok (k ! c)"
    using D R'(1) p(3) c(2) by (auto simp: index_def k at_depth_def)
  have lk: "tlook t k = None"
    using u(1) c common_prefix_full [of p k] by auto
  define cs where "cs leaf = empty_children[unat (p ! c) := Some (RRam ?old), unat (k ! c) := Some leaf]" for leaf
  define W where "W leaf = (if c = 0 then RBranch (cs leaf) None else RExtension (take c p) (RBranch (cs leaf) None) None)" for leaf
  have eq: "split_extension P cfg p n c pre key op ram =
      fbind (new_leaf P cfg (pre @ take c p @ [k ! c]) key op ram) (\<lambda>leaf. fret (W leaf))"
    unfolding split_extension_def Let_def W_def cs_def empty_children_def Suc_eq_plus1
    using SL(2,3) i by (simp add: set_idx_def)
  have W: "wrap_branch (take c p) (cs leaf) = RRam (W leaf)" for leaf
    using p(1) by (simp add: wrap_branch_def W_def Let_def)
  show ?thesis
    unfolding eq fspec_bind fspec_ret
  proof (rule fspec_mono [OF SL(1)])
    fix leaf f'
    assume "child_post Z P M [] (pre @ take c p @ [k ! c]) TEmpty (drop (Suc c) k) op leaf f'"
    from leaf_beside [OF this old SL(4,3,2) dp(1), folded cs_def] obtain m l M' where
      m: "wrap_branch (take c p) (cs leaf) = RRam m" "spec_op P None op = Ok l" "ff_rel Z f' M'"
      "swaps M M' (cptrs (RRam ?old)) (fptrs m)"
      "frep P M' m pre (fork (take c p) (p ! c) (ext_if (drop (Suc c) p) u) (k ! c) (mk_leaf (drop (Suc c) k) l))" .
    have "m = W leaf" using m(1) W by simp
    then show "node_post Z P M (RExtension p n h) pre t k op (W leaf) f'"
      unfolding node_post_def using m(2-5) lk tp u(1) dp(2) by (auto simp: fput_def)
  qed
qed

lemma split_account_rep:
  assumes K: "keccak_len P" and F: "ff_rel Z f M" and rep: "crep P M (RAccount p no b co st) pre t" and w: "wf t r"
    and pl: "placed pre t r" and R: "routed pre key op" and k: "k = drop (walk_depth pre) (key_nibbles key)"
    and H: "\<And>l. shallow (tput t k l) (length pre)" and d: "distinct (fptrs st)" and c: "c = common_prefix p k" "c < length p"
  shows "fspec (split_account P cfg (RAccount (drop (c + 1) p) no b co st) p c pre key op ram) f
    (child_post Z P M (fptrs st) pre t k op)"
proof -
  obtain bal s where s: "t = TAcct p no bal co s" "s \<noteq> TEmpty" "b = bal_bytes bal" "frep P M st (pre @ p) s" "length (pre @ p) = 64"
    using rep by auto
  have D: "at_depth pre r" by (rule placed_depth(3) [OF pl])
  have R': "length key = 32" "op_ok op" "64 \<le> length pre \<Longrightarrow> \<exists>v. op = OpValue v" using R by (auto simp: routed_def)
  have p: "nibs_ok p" "length p = r" using w s(1) by auto
  let ?old = "RAccount (drop (Suc c) p) no b co st"
  have pp: "(pre @ take c p @ [p ! c]) @ drop (Suc c) p = pre @ p" using c(2) by (simp add: id_take_nth_drop [symmetric])
  have old: "crep P M ?old (pre @ take c p @ [p ! c]) (mk_leaf (drop (Suc c) p) (LAcct no bal co s))"
    unfolding crep.simps mk_leaf.simps pp using s by auto
  have tp: "tput t k l = fork (take c p) (p ! c) (mk_leaf (drop (Suc c) p) (LAcct no bal co s)) (k ! c) (mk_leaf (drop (Suc c) k) l)" for l
    using s(1) c by (simp add: Let_def leaf_put_def)
  have ne: "length pre + c \<noteq> 63"
    using H [of "LVal []"] c(2) unfolding tp by (auto simp: fork_def ext_if_def min_def split: if_splits)
  note SL = split_leaf [OF K F D R' k p(1) c(2) [unfolded c(1)] eq_refl [OF p(2)] c(1) ne]
  have lk: "length k = r" using D R'(1) k by (auto simp: at_depth_def)
  have i: "index (key_nibbles key) (walk_depth pre + c) = Ok (k ! c)"
    using D R'(1) p(2) c(2) by (auto simp: index_def k at_depth_def)
  have pre: "slice (key_nibbles key) (walk_depth pre) (c + 1) = take c p @ [k ! c]"
    using common_prefix_take [of p k] c lk p(2) unfolding slice_def k [symmetric] by (simp add: take_Suc_conv_app_nth)
  have no: "tlook t k = None" using s(1) c common_prefix_full [of p k] by auto
  define cs where "cs leaf = empty_children[unat (p ! c) := Some ?old, unat (k ! c) := Some leaf]" for leaf
  have eq: "split_account P cfg (RAccount (drop (c + 1) p) no b co st) p c pre key op ram =
      fbind (new_leaf P cfg (pre @ take c p @ [k ! c]) key op ram) (\<lambda>leaf. fret (wrap_branch (take c p) (cs leaf)))"
    unfolding split_account_def Let_def cs_def empty_children_def pre i
    using SL(2,3) by (simp add: set_idx_def)
  show ?thesis
    unfolding eq fspec_bind fspec_ret
  proof (rule fspec_mono [OF SL(1)])
    fix leaf f'
    assume "child_post Z P M [] (pre @ take c p @ [k ! c]) TEmpty (drop (Suc c) k) op leaf f'"
    from leaf_beside [OF this old SL(4,3,2), folded cs_def] d obtain m l M' where
      m: "wrap_branch (take c p) (cs leaf) = RRam m" "spec_op P None op = Ok l" "ff_rel Z f' M'" "swaps M M' (fptrs st) (fptrs m)"
      "frep P M' m pre (fork (take c p) (p ! c) (mk_leaf (drop (Suc c) p) (LAcct no bal co s)) (k ! c) (mk_leaf (drop (Suc c) k) l))"
      by auto
    then show "child_post Z P M (fptrs st) pre t k op (wrap_branch (take c p) (cs leaf)) f'"
      unfolding child_post_def using no tp by auto
  qed
qed

section \<open>Descending through a branch\<close>

abbreviation slot_trie :: "trie option \<Rightarrow> trie" where
  "slot_trie s \<equiv> case s of None \<Rightarrow> TEmpty | Some u \<Rightarrow> u"

abbreviation slot_recs :: "ram_child option \<Rightarrow> disk_ptr list" where
  "slot_recs s \<equiv> case s of None \<Rightarrow> [] | Some c \<Rightarrow> cptrs c"

lemma apart_middle: "distinct (L @ A @ R) \<Longrightarrow> X \<subseteq> set L \<union> set R \<Longrightarrow> X \<inter> set A = {}"
  by auto

lemma branch_set_rep:
  assumes rep: "frep P M (RBranch cs h) pre (TBranch ts)" and i: "i < 16" and d: "distinct (fptrs (RBranch cs h))"
    and sw: "swaps M M' (slot_recs (cs ! i)) (slot_recs s')" and c: "child_rep P M' (pre @ [word_of_nat i]) s' u"
  shows "frep P M' (RBranch (cs[i := s']) None) pre (TBranch (ts[i := u]))"
    and "swaps M M' (fptrs (RBranch cs h)) (fptrs (RBranch (cs[i := s']) None))"
proof -
  have l: "length cs = 16" "length ts = 16" and sl: "\<And>j. j < 16 \<Longrightarrow> child_rep P M (pre @ [word_of_nat j]) (cs ! j) (ts ! j)"
    using rep unfolding frep_RBranch by auto
  let ?L = "slot_ptrs (take i cs)" and ?R = "slot_ptrs (drop (Suc i) cs)"
  have sp: "fptrs (RBranch cs h) = ?L @ slot_recs (cs ! i) @ ?R"
    using slots_ptrs_split [of i cs] i l(1) by simp
  have sp': "fptrs (RBranch (cs[i := s']) None) = ?L @ slot_recs s' @ ?R"
    using slots_ptrs_update [of i cs s'] i l(1) by simp
  show "swaps M M' (fptrs (RBranch cs h)) (fptrs (RBranch (cs[i := s']) None))"
    unfolding sp sp' by (rule swaps_frame [OF sw d [unfolded sp] frep_ptrs(1) [OF rep, unfolded sp]])
  have "child_rep P M' (pre @ [word_of_nat j]) (cs[i := s'] ! j) (ts[i := u] ! j)" if j: "j < 16" for j
  proof (cases "j = i")
    case True
    then show ?thesis using c i l by simp
  next
    case False
    show ?thesis
    proof (cases "cs ! j")
      case (Some x)
      then obtain v where v: "ts ! j = Some v" "crep P M x (pre @ [word_of_nat j]) v"
        using sl [OF j] by (auto simp: option_rel_Some1)
      have "set (cptrs x) \<subseteq> set ?L \<union> set ?R"
      proof (cases "j < i")
        case True
        then have "take i cs ! j = Some x" "j < length (take i cs)" using Some j l(1) by auto
        then have "Some x \<in> set (take i cs)" by (metis nth_mem)
        then show ?thesis by (force simp: set_somes)
      next
        case f: False
        then have "drop (Suc i) cs ! (j - Suc i) = Some x" "j - Suc i < length (drop (Suc i) cs)"
          using Some j l(1) False by auto
        then have "Some x \<in> set (drop (Suc i) cs)" by (metis nth_mem)
        then show ?thesis by (force simp: set_somes)
      qed
      from apart_middle [OF d [unfolded sp] this] have "set (cptrs x) \<inter> set (slot_recs (cs ! i)) = {}" .
      from swaps_other [OF sw v(2) this] show ?thesis using False Some v(1) by simp
    qed (use sl [OF j] False in simp)
  qed
  then show "frep P M' (RBranch (cs[i := s']) None) pre (TBranch (ts[i := u]))"
    unfolding frep_RBranch using l by auto
qed

lemma branch_put_rep:
  assumes "frep P M (RBranch cs h) pre (TBranch ts)" and "i < 16" and "distinct (fptrs (RBranch cs h))"
    and "swaps M M' (slot_recs (cs ! i)) (cptrs c')" and "crep P M' c' (pre @ [word_of_nat i]) u"
  shows "frep P M' (RBranch (cs[i := Some c']) None) pre (TBranch (ts[i := Some u]))"
    and "swaps M M' (fptrs (RBranch cs h)) (fptrs (RBranch (cs[i := Some c']) None))"
  using branch_set_rep [OF assms(1-3), of M' "Some c'" "Some u"] assms(4,5) by auto

lemma branch_insert_rep:
  assumes rep: "frep P M (RBranch cs h) pre (TBranch ts)" and x: "unat x < 16" and d: "distinct (fptrs (RBranch cs h))"
    and ins: "fspec m f (child_post Z P M (slot_recs (cs ! unat x)) (pre @ [x]) (slot_trie (ts ! unat x)) k op)"
  shows "fspec (fbind m (\<lambda>child. fret (RBranch (cs[unat x := Some child]) None))) f
    (node_post Z P M (RBranch cs h) pre (TBranch ts) (x # k) op)"
proof -
  have l: "length ts = 16" using rep unfolding frep_RBranch by auto
  have tl: "tlook (TBranch ts) (x # k) = tlook (slot_trie (ts ! unat x)) k"
    "\<And>l. tput (TBranch ts) (x # k) l = TBranch (ts[unat x := Some (tput (slot_trie (ts ! unat x)) k l)])"
    using x l by (auto split: option.splits)
  show ?thesis
    unfolding fspec_bind fspec_ret
  proof (rule fspec_mono [OF ins])
    fix c' f'
    assume "child_post Z P M (slot_recs (cs ! unat x)) (pre @ [x]) (slot_trie (ts ! unat x)) k op c' f'"
    then obtain l M' where M': "spec_op P (tlook (slot_trie (ts ! unat x)) k) op = Ok l" "ff_rel Z f' M'"
      "swaps M M' (slot_recs (cs ! unat x)) (cptrs c')" "crep P M' c' (pre @ [x]) (tput (slot_trie (ts ! unat x)) k l)"
      by (auto simp: child_post_def)
    note B = branch_put_rep [OF rep x d M'(3), of "tput (slot_trie (ts ! unat x)) k l"]
    show "node_post Z P M (RBranch cs h) pre (TBranch ts) (x # k) op (RBranch (cs[unat x := Some c']) None) f'"
      unfolding node_post_def using B M' tl by (auto simp: fput_def)
  qed
qed

section \<open>Insertion into the frontier\<close>

lemma tput_nonempty: "t \<noteq> TEmpty \<Longrightarrow> tput t k l \<noteq> TEmpty"
  by (cases t; cases l) (auto simp: leaf_put_def fork_def ext_if_def Let_def tput.simps(5))

lemma frep_nonempty: "frep P M n pre t \<Longrightarrow> t = TEmpty \<longleftrightarrow> n = REmpty"
  by (cases n) (auto simp: frep_RBranch)

lemma frep_pos: "frep P M n pre t \<Longrightarrow> wf t r \<Longrightarrow> 0 < r"
  by (cases n) (auto simp: frep_RBranch)

definition insertable :: "nibs \<Rightarrow> trie \<Rightarrow> nat \<Rightarrow> bytes \<Rightarrow> leaf_op \<Rightarrow> nibs \<Rightarrow> bool" where
  "insertable pre t r key op k = (placed pre t r \<and> routed pre key op \<and> k = drop (walk_depth pre) (key_nibbles key) \<and>
     (\<forall>l. shallow (fput t k l) (length pre)))"

lemma insertableD:
  assumes "insertable pre t r key op k"
  shows "placed pre t r" and "routed pre key op" and "k = drop (walk_depth pre) (key_nibbles key)"
    and "\<And>l. shallow (fput t k l) (length pre)" and "length key = 32" and "op_ok op" and "length k = r" and "nibs_ok k"
  using assms by (auto simp: insertable_def routed_def placed_def at_depth_def)

lemma routed_child:
  assumes "routed pre key op" and "placed pre t r" and "0 < r" and "length pre \<noteq> 63" and "x = hd (drop (walk_depth pre) (key_nibbles key))"
  shows "routed (pre @ [x]) key op"
proof (cases "length pre < 63")
  case True
  then have "pre = take (length pre) (key_nibbles key)" "walk_depth pre = length pre" "length key = 32"
    using assms(1) by (auto simp: routed_def walk_depth_def)
  then have "pre @ [x] = take (Suc (length pre)) (key_nibbles key)"
    using True assms(5) by (simp add: take_Suc_conv_app_nth hd_drop_conv_nth)
  then show ?thesis using assms(1) True by (simp add: routed_def)
next
  case False
  then show ?thesis using assms(1,4) by (auto simp: routed_def)
qed

lemma routed_ext:
  assumes "routed pre key op" and "at_depth pre r" and "length p < r" and "take (length p) (drop (walk_depth pre) (key_nibbles key)) = p"
  shows "routed (pre @ p) key op"
proof (cases "length pre < 64")
  case True
  then have d: "walk_depth pre = length pre" "length pre + length p < 64" "pre = take (length pre) (key_nibbles key)" "length key = 32"
    using assms(1-3) by (auto simp: at_depth_def walk_depth_def routed_def)
  then have "pre @ p = take (length pre + length p) (key_nibbles key)"
    using assms(4) by (simp add: take_add)
  then show ?thesis using assms(1) d by (simp add: routed_def)
next
  case False
  then show ?thesis using assms(1) by (simp add: routed_def)
qed

lemma insertable_child:
  assumes "insertable pre (TBranch ts) r key op (x # k)" and "wfb (TBranch ts) r"
  shows "unat x < 16" and "length (pre @ [x]) \<noteq> 64" and "at_depth (pre @ [x]) (r - 1)" and "routed (pre @ [x]) key op"
    and "k = drop (walk_depth (pre @ [x])) (key_nibbles key)"
    and "\<And>u. ts ! unat x = Some u \<Longrightarrow> u \<noteq> TEmpty \<Longrightarrow> insertable (pre @ [x]) u (r - 1) key op k \<and> wf u (r - 1)"
proof -
  note I = insertableD [OF assms(1)]
  have x: "x < 16" "0 < r" "length pre \<noteq> 63" "length ts = 16" using I(1,7,8) assms(2) by (auto simp: placed_def)
  then show xi: "unat x < 16" by (intro nibble_unat)
  note ch = at_depth_child [OF placed_depth(3) [OF I(1)] x(2,3,1)]
  show d: "length (pre @ [x]) \<noteq> 64" "at_depth (pre @ [x]) (r - 1)" by (rule ch)+
  have hd: "x = hd (drop (walk_depth pre) (key_nibbles key))" using I(3) by (metis list.sel(1))
  show R: "routed (pre @ [x]) key op" by (rule routed_child [OF I(2,1) x(2,3) hd])
  show k: "k = drop (walk_depth (pre @ [x])) (key_nibbles key)"
    using I(3) ch(3) by (metis Suc_eq_plus1 drop_Suc list.sel(3) tl_drop)
  show "insertable (pre @ [x]) u (r - 1) key op k \<and> wf u (r - 1)" if u: "ts ! unat x = Some u" "u \<noteq> TEmpty" for u
  proof -
    have m: "Some u \<in> set ts" using nth_mem [of "unat x" ts] xi x(4) u(1) by simp
    have "placed (pre @ [x]) u (r - 1)" "wf u (r - 1)"
      using placed_child [OF I(1) assms(2) xi m] by simp_all
    moreover have "shallow (fput u k l) (length (pre @ [x]))" for l
    proof -
      have "shallow (TBranch (ts[unat x := Some (tput u k l)])) (length pre)"
        using I(4) [of l] xi x(4) u(1) by (simp add: fput_def)
      moreover have "Some (tput u k l) \<in> set (ts[unat x := Some (tput u k l)])"
        using xi x(4) by (intro set_update_memI) simp
      ultimately show ?thesis using u(2) by (simp add: fput_def)
    qed
    ultimately show ?thesis using R k by (simp add: insertable_def)
  qed
qed

lemma insertable_ext:
  assumes "insertable pre (TExt p u) r key op k" and "wf (TExt p u) r" and "common_prefix p k = length p"
  shows "insertable (pre @ p) u (r - length p) key op (drop (length p) k)" and "wf u (r - length p)"
proof -
  note I = insertableD [OF assms(1)]
  note pl = placed_ext [OF I(1) assms(2)]
  have t: "take (length p) k = p" using assms(3) common_prefix_full by blast
  have "length p < r" using assms(2) by simp
  then have R: "routed (pre @ p) key op"
    using routed_ext [OF I(2) placed_depth(3) [OF I(1)]] t I(3) by blast
  have ne: "u \<noteq> TEmpty" using assms(2) by auto
  have "shallow (fput u (drop (length p) k) l) (length (pre @ p))" for l
    using I(4) [of l] assms(3) ne by (simp add: fput_def Let_def)
  then show "insertable (pre @ p) u (r - length p) key op (drop (length p) k)"
    using pl R I(3) by (simp add: insertable_def add.commute)
  show "wf u (r - length p)" by (rule pl(2))
qed

lemma index_head: "x # k = drop d ns \<Longrightarrow> index ns d = Ok x"
  by (cases "d < length ns") (simp_all add: index_def Cons_nth_drop_Suc [symmetric])

text \<open>The account of a promoted child is updated in place; a storage write goes on below it.\<close>

lemma insert_account_rep:
  assumes K: "keccak_len P" and F: "ff_rel Z f M" and rep: "crep P M (RAccount p no b co st) pre t" and w: "wf t r"
    and I: "insertable pre t r key op k" and d: "distinct (fptrs st)"
    and IH: "\<And>skey v s. insertable (pre @ p) s 64 skey (OpValue v) (key_nibbles skey) \<Longrightarrow> wfb s 64 \<Longrightarrow> frep P M st (pre @ p) s \<Longrightarrow>
      fspec (insert_ram P cfg st (pre @ p) skey (OpValue v) False) f (node_post Z P M st (pre @ p) s (key_nibbles skey) (OpValue v))"
  shows "fspec (insert_child P cfg (RAccount p no b co st) pre key op ram) f
    (child_post Z P M (fptrs st) pre t k op)"
proof -
  obtain bal s where s: "t = TAcct p no bal co s" "s \<noteq> TEmpty" "b = bal_bytes bal" "frep P M st (pre @ p) s" "length (pre @ p) = 64"
    using rep by auto
  note D = insertableD [OF I]
  note pl = placed_storage [OF D(1) [unfolded s(1)] w [unfolded s(1)] s(5)]
  have sh: "shallow (tput t k l) (length pre)" for l using D(4) [of l] s(1) by (simp add: fput_def)
  have lp: "length p = length k" "length pre < 64" using w s(1) D(1,7) by (auto simp: placed_def)
  have rest: "from_idx (key_nibbles key) (walk_depth pre) = Ok k"
    using placed_depth [OF D(1)] D(3,5) by (simp add: from_idx_def)
  define c where "c = common_prefix p k"
  have cl: "c \<le> length p" by (simp add: c_def common_prefix_le1)
  show ?thesis
  proof (cases "c = length p")
    case False
    then have "c < length p" using cl by simp
    from split_account_rep [OF K F rep w D(1-3) sh d c_def this, of cfg ram] show ?thesis
      using rest False by (simp add: Let_def c_def)
  next
    case True
    then have pk: "p = k" using common_prefix_eqI [OF lp(1)] by (simp add: c_def)
    then have key: "pre @ p = key_nibbles key"
      using D(2,3) lp(2) by (metis append_take_drop_id routed_def walk_depth_def linorder_not_less)
    have tl: "tlook t k = Some (LAcct no bal co s)" "\<And>l. tput t k l = mk_leaf p l"
      using s(1) pk by (simp_all add: leaf_put_def common_prefix_eqI)
    have keep: "swaps M M (fptrs st) (fptrs st)" by (rule swaps_refl [OF d frep_ptrs(1) [OF s(4)]])
    show ?thesis
    proof (cases op)
      case (OpValue v)
      then show ?thesis using rest True by (simp add: Let_def c_def)
    next
      case (OpAccount n' b' c')
      have "crep P M (RAccount p n' (bal_bytes b') c' st) pre (TAcct p n' b' c' s)" using s by simp
      then show ?thesis using rest True OpAccount tl keep F by (auto simp: Let_def c_def child_post_def)
    next
      case (OpStorage skey v)
      have sk: "length skey = 32" using D(6) OpStorage by simp
      have "insertable (pre @ p) s 64 skey (OpValue v) (key_nibbles skey)"
        using pl(1) s(5) sk pl(4) shallow_storage by (simp add: insertable_def routed_def)
      note st = IH [OF this pl(2) s(4)]
      have "fspec (insert_ram P cfg st (key_nibbles key) skey (OpValue v) False) f
         (\<lambda>st' f'. child_post Z P M (fptrs st) pre t k op (RAccount p no b co st') f')"
      proof (rule fspec_mono [OF st [unfolded key]])
        fix st' f'
        assume "node_post Z P M st (key_nibbles key) s (key_nibbles skey) (OpValue v) st' f'"
        then obtain l M' where M': "spec_op P (tlook s (key_nibbles skey)) (OpValue v) = Ok l" "ff_rel Z f' M'"
          "swaps M M' (fptrs st) (fptrs st')" "frep P M' st' (pre @ p) (fput s (key_nibbles skey) l)"
          by (auto simp: node_post_def key)
        have "l = LVal v" by (rule spec_op_value [OF M'(1)])
        then have e: "fput s (key_nibbles skey) l = store_slot s skey v" "store_slot s skey v \<noteq> TEmpty"
          using s(2) tput_nonempty by (simp_all add: fput_def store_slot_def)
        show "child_post Z P M (fptrs st) pre t k op (RAccount p no b co st') f'"
          unfolding child_post_def using M' e s tl OpStorage by auto
      qed
      then show ?thesis using rest True OpStorage by (simp add: Let_def c_def)
    qed
  qed
qed

lemma insert_rep:
  assumes K: "keccak_len P" and T: "decode_typed P"
  shows "frep P M n pre t \<Longrightarrow> wfb t r \<Longrightarrow> 0 < r \<Longrightarrow> mem_ok n \<Longrightarrow> distinct (fptrs n) \<Longrightarrow> ff_rel Z f M \<Longrightarrow>
      insertable pre t r key op k \<Longrightarrow> fspec (insert_ram P cfg n pre key op ram) f (node_post Z P M n pre t k op)"
    and "crep P M c pre t \<Longrightarrow> wf t r \<Longrightarrow> length pre \<noteq> 64 \<Longrightarrow> mem_ok_child c \<Longrightarrow> distinct (cptrs c) \<Longrightarrow> ff_rel Z f M \<Longrightarrow>
      insertable pre t r key op k \<Longrightarrow> fspec (insert_child P cfg c pre key op ram) f (child_post Z P M (cptrs c) pre t k op)"
proof (induction n and c arbitrary: pre t r key op k ram and pre t r key op k ram)
  case REmpty
  then have t: "t = TEmpty" by simp
  note D = insertableD [OF REmpty.prems(7)]
  have ne: "length pre \<noteq> 63" using D(4) [of "LVal []"] t by (simp add: fput_def)
  obtain x k' where x: "k = x # k'" using D(7) REmpty.prems(3) by (cases k) auto
  have rep: "frep P M (RBranch empty_children None) pre (TBranch (replicate 16 None))"
    by (simp add: frep_RBranch empty_children_def)
  have xl: "x < 16" "unat x < 16" using D(8) x nibble_unat by auto
  note ch = at_depth_child [OF placed_depth(3) [OF D(1)] REmpty.prems(3) ne xl(1)]
  have k': "k' = drop (walk_depth (pre @ [x])) (key_nibbles key)"
    using D(3) x ch(3) by (metis Suc_eq_plus1 drop_Suc list.sel(3) tl_drop)
  have "64 \<le> length (pre @ [x]) \<Longrightarrow> \<exists>v. op = OpValue v" using D(2) ne by (auto simp: routed_def)
  from new_leaf_rep [OF K REmpty.prems(6) ch(1) D(5,6) this, of cfg ram]
  have "fspec (fbind (new_leaf P cfg (pre @ [x]) key op ram) (\<lambda>child. fret (RBranch (empty_children[unat x := Some child]) None))) f
    (node_post Z P M (RBranch empty_children None) pre (TBranch (replicate 16 None)) (x # k') op)"
    using xl k' by (intro branch_insert_rep [OF rep xl(2)]) (simp_all add: empty_children_def)
  then have "fspec (fbind (new_leaf P cfg (pre @ [x]) key op ram) (\<lambda>child. fret (RBranch (empty_children[unat x := Some child]) None))) f
    (node_post Z P M REmpty pre t k op)"
    by (rule fspec_mono) (use t x xl in \<open>auto simp: node_post_def fput_def empty_children_def\<close>)
  moreover have "index (key_nibbles key) (walk_depth pre) = Ok x"
    by (rule index_head) (use D(3) x in simp)
  ultimately show ?case using xl by (simp add: set_idx_def empty_children_def)
next
  case (RExtension p n h)
  then obtain u where u: "t = TExt p u" "frep P M n (pre @ p) u" by auto
  have w: "wf t r" using RExtension.prems(2) u by simp
  note D = insertableD [OF RExtension.prems(7)]
  have rest: "from_idx (key_nibbles key) (walk_depth pre) = Ok k"
    using placed_depth [OF D(1)] D(3,5) by (simp add: from_idx_def)
  have sh: "shallow (tput t k l) (length pre)" for l using D(4) [of l] u(1) by (simp add: fput_def)
  show ?case
  proof (cases "common_prefix p k < length p")
    case True
    from split_extension_rep [OF K RExtension.prems(6,1) w D(1-3) sh _ refl True, of cfg ram] show ?thesis
      using RExtension.prems(5) rest True by (simp add: Let_def)
  next
    case False
    then have c: "common_prefix p k = length p" using common_prefix_le1 [of p k] by simp
    note E = insertable_ext [OF RExtension.prems(7) [unfolded u(1)] w [unfolded u(1)] c]
    have "fspec (insert_ram P cfg n (pre @ p) key op ram) f (node_post Z P M n (pre @ p) u (drop (length p) k) op)"
      using RExtension.IH [OF u(2) wf_wfb [OF E(2)] frep_pos [OF u(2) E(2)] _ _ RExtension.prems(6) E(1)] RExtension.prems(4,5) by simp
    moreover have "tput t k l = TExt p (fput u (drop (length p) k) l)" "tlook t k = tlook u (drop (length p) k)" for l
      using u(1) c w common_prefix_full [of p k] by (auto simp: Let_def fput_def)
    ultimately have "fspec (insert_ram P cfg n (pre @ p) key op ram) f
        (\<lambda>n' f'. node_post Z P M (RExtension p n h) pre t k op (RExtension p n' None) f')"
      by - (erule fspec_mono, use u(1) in \<open>auto simp: node_post_def fput_def\<close>)
    then show ?thesis using rest c by (simp add: Let_def)
  qed
next
  case (RBranch cs h)
  then obtain ts where ts: "t = TBranch ts" "length cs = 16" "length ts = 16"
    "\<And>i. i < 16 \<Longrightarrow> rel_option (\<lambda>c u. crep P M c (pre @ [word_of_nat i]) u) (cs ! i) (ts ! i)"
    unfolding frep_RBranch by auto
  note D = insertableD [OF RBranch.prems(7)]
  obtain x k' where x: "k = x # k'" using D(7) RBranch.prems(3) by (cases k) auto
  note C = insertable_child [OF RBranch.prems(7,2) [unfolded ts(1) x]]
  have wd: "walk_depth pre < 64" using placed_depth(1) [OF D(1)] RBranch.prems(3) by simp
  have ix: "index (key_nibbles key) (walk_depth pre) = Ok x"
    by (rule index_head) (use D(3) x in simp)
  have ins: "fspec (insert_into_child P cfg (cs ! unat x) (pre @ [x]) key op ram) f
      (child_post Z P M (slot_recs (cs ! unat x)) (pre @ [x]) (slot_trie (ts ! unat x)) k' op)"
  proof (cases "cs ! unat x")
    case None
    have "64 \<le> length (pre @ [x]) \<Longrightarrow> \<exists>v. op = OpValue v" using C(2,4) by (auto simp: routed_def)
    from new_leaf_rep [OF K RBranch.prems(6) C(3) D(5,6) this, of cfg ram] show ?thesis
      using None ts(4) [OF C(1)] C(5) by (simp add: insert_into_child_def)
  next
    case (Some c)
    from frep_slot [OF ts(4,2,3) C(1) Some] obtain u where
      u: "ts ! unat x = Some u" "crep P M c (pre @ [word_of_nat (unat x)]) u" "Some u \<in> set ts" "Some c \<in> set cs" .
    have "wf u (r - 1)" using RBranch.prems(2) ts(1) u(3) by simp
    then have "u \<noteq> TEmpty" by auto
    note CI = C(6) [OF u(1) this]
    have "distinct (cptrs c)" using RBranch.prems(5) slots_ptrs_split [of "unat x" cs] C(1) ts(2) Some by auto
    moreover have "mem_ok_child c" using RBranch.prems(4) u(4) by simp
    ultimately show ?thesis
      using RBranch.IH [of "Some c" c, OF _ _ _ conjunct2 [OF CI] C(2) _ _ RBranch.prems(6) conjunct1 [OF CI], of ram] u Some
      by (simp add: insert_into_child_def)
  qed
  from branch_insert_rep [OF RBranch.prems(1) [unfolded ts(1)] C(1) RBranch.prems(5) ins] show ?case
    using ix wd D(5) C(1) ts(2) unfolding insert_ram_RBranch ts(1) x by (simp add: index_def)
next
  case (RRam n)
  have w: "wfb t r" "0 < r" "t \<noteq> TEmpty" using RRam.prems(1,2) wf_wfb frep_pos by auto
  have "fspec (insert_ram P cfg n pre key op ram) f (node_post Z P M n pre t k op)"
    using RRam.IH [OF _ w(1,2) _ _ RRam.prems(6,7)] RRam.prems(1,4,5) by simp
  then have "fspec (insert_ram P cfg n pre key op ram) f (\<lambda>n' f'. child_post Z P M (cptrs (RRam n)) pre t k op (RRam n') f')"
    by (rule fspec_mono) (use w(3) in \<open>auto simp: node_post_def child_post_def fput_def\<close>)
  then show ?case by simp
next
  case (RDisk ptr root)
  note D = insertableD [OF RDisk.prems(7)]
  have "shallow (tput t k l) (length pre)" for l using D(4) [of l] RDisk.prems(2) by (cases "t = TEmpty") (auto simp: fput_def)
  from insert_disk_rep [OF K T RDisk.prems(6,1,2) D(1) RDisk.prems(3) D(2,3) this, of cfg ram] show ?case by simp
next
  case (RMem bs root)
  note D = insertableD [OF RMem.prems(7)]
  have "shallow (tput t k l) (length pre)" for l using D(4) [of l] RMem.prems(2) by (cases "t = TEmpty") (auto simp: fput_def)
  from insert_mem_rep [OF K T RMem.prems(6,1,2) D(1) RMem.prems(3,4) D(2,3) this, of cfg ram] show ?case by simp
next
  case (RAccount p no b co st)
  have "fspec (insert_ram P cfg st (pre @ p) skey (OpValue v) False) f (node_post Z P M st (pre @ p) s (key_nibbles skey) (OpValue v))"
    if "insertable (pre @ p) s 64 skey (OpValue v) (key_nibbles skey)" "wfb s 64" "frep P M st (pre @ p) s" for skey v s
    using RAccount.IH [OF that(3,2) _ _ _ RAccount.prems(6) that(1)] RAccount.prems(4,5) by simp
  from insert_account_rep [OF K RAccount.prems(6,1,2,7) _ this, of ram] show ?case using RAccount.prems(5) by simp
qed

end
