(* ===== verification/FrontierDelete.thy ===== *)
theory FrontierDelete
  imports FrontierInsert
begin

text \<open>
  Deletion from the frontier: removing a leaf, clearing a slot or the storage of
  an account. Branches that lose all but one child collapse, records below them
  move up, promoted accounts whose storage shrinks become records again, and the
  frontier that results stands for the canonical trie without the leaf.
\<close>

section \<open>The trie a deletion yields\<close>

fun dres :: "trie \<Rightarrow> nibs \<Rightarrow> del_out \<Rightarrow> trie" where
  "dres t k DKeep = t"
| "dres t k (DUpdate l) = tput t k l"
| "dres t k DRemove = tdel t k"

text \<open>A branch is only examined for collapse when a slot became empty.\<close>

definition fdel :: "trie \<Rightarrow> nibs \<Rightarrow> trie" where
  "fdel t k = (case t of
     TBranch ts \<Rightarrow> (case ts ! unat (hd k) of None \<Rightarrow> t
       | Some u \<Rightarrow> if tdel u (tl k) = TEmpty then collapse (ts[unat (hd k) := None])
                  else TBranch (ts[unat (hd k) := Some (tdel u (tl k))]))
   | _ \<Rightarrow> tdel t k)"

fun fdres :: "trie \<Rightarrow> nibs \<Rightarrow> del_out \<Rightarrow> trie" where
  "fdres t k DRemove = fdel t k"
| "fdres t k o' = dres t k o'"

lemma fdel_wf:
  assumes "wf t r" and "length k = r" and "nibs_ok k"
  shows "fdel t k = tdel t k"
proof (cases t)
  case (TBranch ts)
  then obtain x k' where k: "k = x # k'" using assms by (cases k) auto
  have x: "unat x < 16" using assms(3) k nibble_unat by auto
  have l: "length ts = 16" "2 \<le> length (somes ts)" using assms(1) TBranch by auto
  show ?thesis
  proof (cases "ts ! unat x")
    case (Some u)
    have "collapse (ts[unat x := Some v]) = TBranch (ts[unat x := Some v])" for v
      using l x length_somes_update_Some [of "unat x" ts v] by (intro collapse_many) simp_all
    then show ?thesis using TBranch k x l Some by (simp add: fdel_def opt_trie_def)
  qed (use TBranch k x l in \<open>simp add: fdel_def\<close>)
qed (simp_all add: fdel_def)

lemma fdres_wf: "wf t r \<Longrightarrow> length k = r \<Longrightarrow> nibs_ok k \<Longrightarrow> fdres t k o' = dres t k o'"
  by (cases o') (auto simp: fdel_wf)

section \<open>Positions are kept\<close>

lemma shallow_tprep: "shallow u (d + length e) \<Longrightarrow> shallow (tprep e u) d"
  by (cases u) (auto simp: ext_if_def ac_simps)

lemma shallow_collapse:
  assumes "length ts = 16" and "shallow (TBranch ts) d"
  shows "shallow (collapse ts) d"
  using assms(1)
proof (cases rule: collapse_cases)
  case (one i t)
  have "Some t \<in> set ts" using slot_mem [of i ts t] one assms(1) by simp
  then show ?thesis using one assms(2) by (auto intro: shallow_tprep)
qed (use assms in auto)

lemma shallow_tdel:
  "wf t r \<Longrightarrow> length k = r \<Longrightarrow> nibs_ok k \<Longrightarrow> shallow t d \<Longrightarrow> shallow (tdel t k) d"
proof (induction t arbitrary: r k d)
  case (TExt p t)
  then have "shallow (tdel t (drop (length p) k)) (d + length p)" if "take (length p) k = p"
    using TExt.IH [of "r - length p" "drop (length p) k" "d + length p"] by auto
  then show ?case using TExt.prems(4) by (auto intro: shallow_tprep)
next
  case (TBranch ts)
  then obtain x k' where k: "k = x # k'" by (cases k) auto
  have x: "unat x < 16" using TBranch.prems(3) k nibble_unat by auto
  have l: "length ts = 16" using TBranch.prems(1) by auto
  show ?case
  proof (cases "ts ! unat x")
    case (Some u)
    have u: "Some u \<in> set ts" using slot_mem [of "unat x" ts u] Some x l by simp
    then have "shallow (tdel u k') (d + 1)"
      using TBranch.IH [of "Some u" u "r - 1" k' "d + 1"] TBranch.prems k by auto
    moreover have "set (ts[unat x := opt_trie (tdel u k')]) \<subseteq> insert (opt_trie (tdel u k')) (set ts)"
      by (rule set_update_subset_insert)
    ultimately have "shallow (TBranch (ts[unat x := opt_trie (tdel u k')])) d"
      using TBranch.prems(4) by (auto simp: opt_trie_def split: if_splits)
    then show ?thesis using k x l Some by (auto intro: shallow_collapse)
  qed (use TBranch.prems k x l in auto)
qed auto

lemma shallow_tput_present:
  "wf t r \<Longrightarrow> length k = r \<Longrightarrow> nibs_ok k \<Longrightarrow> tlook t k \<noteq> None \<Longrightarrow> shallow t d \<Longrightarrow> shallow (tput t k l) d"
proof (induction t arbitrary: r k d)
  case (TExt p t)
  then have t: "take (length p) k = p" by (auto split: if_splits)
  then have "common_prefix p k = length p" by (simp add: common_prefix_full)
  then show ?case using TExt.IH [of "r - length p" "drop (length p) k" "d + length p"] TExt.prems t
    by (auto simp: Let_def)
next
  case (TBranch ts)
  then obtain x k' where k: "k = x # k'" by (cases k) auto
  have x: "unat x < 16" using TBranch.prems(3) k nibble_unat by auto
  have l: "length ts = 16" using TBranch.prems(1) by auto
  obtain u where u: "ts ! unat x = Some u" "tlook u k' \<noteq> None" using TBranch.prems(4) k x l by (auto split: option.splits)
  have m: "Some u \<in> set ts" using slot_mem [of "unat x" ts u] u x l by simp
  then have "shallow (tput u k' l) (d + 1)"
    using TBranch.IH [of "Some u" u "r - 1" k' "d + 1"] TBranch.prems k u by auto
  moreover have "set (ts[unat x := Some (tput u k' l)]) \<subseteq> insert (Some (tput u k' l)) (set ts)"
    by (rule set_update_subset_insert)
  ultimately show ?case using TBranch.prems(5) k x l u(1) by auto
qed (auto simp: leaf_put_def common_prefix_eqI split: if_splits)

definition droute :: "nibs \<Rightarrow> bytes \<Rightarrow> delete_op \<Rightarrow> bool" where
  "droute pre key op = (length key = 32 \<and> del_ok op \<and>
     (if length pre < 64 then pre = take (length pre) (key_nibbles key) else op = DelValue))"

lemma spec_del_leaf_ok:
  assumes "spec_del0 P lo op = Ok (DUpdate l)" and "decode_typed P" and "\<forall>x. lo = Some x \<longrightarrow> leaf_ok x" and "del_ok op"
  shows "leaf_ok l"
proof -
  obtain x where x: "lo = Some x" "spec_del P x op = Ok (DUpdate l)" "leaf_ok x"
    using assms(1,3) by (auto simp: spec_del0_def split: option.splits)
  have "wf0 (tdel s (key_nibbles slot)) 64 \<and> val_only (tdel s (key_nibbles slot))"
    if "length slot = 32" "wf s 64" "val_only s" for s slot
    using that wf_tdel [of s 64 "key_nibbles slot"] val_only_tdel [of s 64 "key_nibbles slot"] by simp
  then show ?thesis using x assms(2,4)
    by (cases "(P, x, op)" rule: spec_del.cases) (auto simp: decode_typed_def wf0_def split: option.splits if_splits)
qed

lemma spec_del_fails: "spec_del0 P lo op = Err e \<Longrightarrow> fails e"
  unfolding spec_del0_def
  by (cases lo; cases "(P, the lo, op)" rule: spec_del.cases) (auto split: option.splits if_splits)

lemma spec_del_value: "spec_del0 P lo DelValue = Ok o' \<Longrightarrow> o' = DKeep \<or> o' = DRemove"
  unfolding spec_del0_def by (cases lo; cases "the lo") auto

lemma dres_placed:
  assumes T: "decode_typed P" and w: "wf t r" and pl: "placed pre t r" and R: "droute pre key op"
    and k: "k = drop (walk_depth pre) (key_nibbles key)" and o': "spec_del0 P (tlook t k) op = Ok o'" and ne: "dres t k o' \<noteq> TEmpty"
  shows "wf (dres t k o') r" and "placed pre (dres t k o') r"
proof -
  have lk: "length k = r" "nibs_ok k" using pl R k by (auto simp: placed_def at_depth_def droute_def)
  have lo: "leaf_ok l" if "o' = DUpdate l" for l
    using spec_del_leaf_ok [OF o' [unfolded that] T] tlook_leaf_ok [OF w] R by (auto simp: droute_def)
  have pr: "tlook t k \<noteq> None" if "o' = DUpdate l" for l using o' that by (auto simp: spec_del0_def split: option.splits)
  show "wf (dres t k o') r"
    using w wf_tput [OF w lk lo] wf_tdel [OF w lk] ne by (cases o') (auto simp: wf0_def)
  have "shallow (dres t k o') (length pre)"
    using pl shallow_tput_present [OF w lk pr] shallow_tdel [OF w lk] by (cases o') (auto simp: placed_def)
  moreover have "val_only (dres t k o')" if "64 \<le> length pre"
    using that pl R spec_del_value [of P "tlook t k" o'] o' val_only_tdel [OF w lk] by (auto simp: droute_def placed_def)
  ultimately show "placed pre (dres t k o') r" using pl by (simp add: placed_def)
qed

section \<open>Postconditions\<close>

definition cdel_post :: "frozen \<Rightarrow> prims \<Rightarrow> (disk_ptr \<rightharpoonup> bytes) \<Rightarrow> ram_child \<Rightarrow> nibs \<Rightarrow> trie \<Rightarrow> nibs \<Rightarrow> delete_op
    \<Rightarrow> ram_child option \<times> ram_delete \<Rightarrow> flat_file \<Rightarrow> bool" where
  "cdel_post Z P M c pre t k op x f' = (\<exists>o'. spec_del0 P (tlook t k) op = Ok o' \<and>
     (if o' = DKeep then x = (Some c, RAbsent) \<and> ff_rel Z f' M
      else \<exists>M'. ff_rel Z f' M' \<and>
        (if dres t k o' = TEmpty then x = (None, RRemoved) \<and> swaps M M' (cptrs c) []
         else \<exists>c'. x = (Some c', RChanged) \<and> swaps M M' (cptrs c) (cptrs c') \<and> crep P M' c' pre (dres t k o'))))"

fun survives :: "prims \<Rightarrow> (disk_ptr \<rightharpoonup> bytes) \<Rightarrow> nibs \<Rightarrow> nat \<Rightarrow> nibs \<Rightarrow> ram_child \<Rightarrow> trie \<Rightarrow> bool" where
  "survives P M pre r e c t = (\<exists>u. t = tprep e u \<and> e \<noteq> [] \<and> nibs_ok e \<and> length e \<le> r \<and> wf u (r - length e) \<and>
     placed (pre @ e) u (r - length e) \<and> length (pre @ e) \<noteq> 64 \<and> crep P M c (pre @ e) u \<and> mem_ok_child c \<and> (\<forall>m. c \<noteq> RRam m))"

definition ndel_out :: "prims \<Rightarrow> (disk_ptr \<rightharpoonup> bytes) \<Rightarrow> (disk_ptr \<rightharpoonup> bytes) \<Rightarrow> disk_ptr list \<Rightarrow> nibs \<Rightarrow> nat \<Rightarrow> trie
    \<Rightarrow> ram_node \<Rightarrow> ram_delete \<Rightarrow> bool" where
  "ndel_out P M M' A pre r t' n' out = (case out of
     RAbsent \<Rightarrow> False
   | RChanged \<Rightarrow> t' \<noteq> TEmpty \<and> swaps M M' A (fptrs n') \<and> frep P M' n' pre t'
   | RRemoved \<Rightarrow> t' = TEmpty \<and> swaps M M' A []
   | RCollapsed e c \<Rightarrow> swaps M M' A (cptrs c) \<and> survives P M' pre r e c t')"

definition ndel_post :: "frozen \<Rightarrow> prims \<Rightarrow> (disk_ptr \<rightharpoonup> bytes) \<Rightarrow> ram_node \<Rightarrow> nibs \<Rightarrow> nat \<Rightarrow> trie \<Rightarrow> nibs \<Rightarrow> delete_op
    \<Rightarrow> ram_node \<times> ram_delete \<Rightarrow> flat_file \<Rightarrow> bool" where
  "ndel_post Z P M n pre r t k op x f' = (\<exists>o'. spec_del0 P (tlook t k) op = Ok o' \<and>
     (if o' = DKeep then x = (n, RAbsent) \<and> ff_rel Z f' M
      else \<exists>M'. ff_rel Z f' M' \<and> ndel_out P M M' (fptrs n) pre r (fdres t k o') (fst x) (snd x)))"

section \<open>Records\<close>

lemma prepend_path_sp: "prepend_path P n e = Ok n' \<Longrightarrow> sp n \<Longrightarrow> sp n' \<and> \<not> is_raw n'"
  using expand_sp [of P n]
  by (auto simp: prepend_path_def res_simps split: if_splits node.splits)

lemma delete_record_rep:
  assumes K: "keccak_len P" and T: "decode_typed P" and w: "wf t r" and pl: "placed pre t r" and R: "droute pre key op"
    and k: "k = drop (walk_depth pre) (key_nibbles key)" and n: "repr P n t"
  shows "(\<exists>e. delete_record P n (walk_depth pre) key op = Err e \<and> fails e) \<or>
    (\<exists>o' n'. spec_del0 P (tlook t k) op = Ok o' \<and> repr P n' (dres t k o') \<and>
      delete_record P n (walk_depth pre) key op =
        Ok (n', if o' = DKeep then Absent else if dres t k o' = TEmpty then Removed else Changed))"
proof -
  have key: "length key = 32" "del_ok op" using R by (auto simp: droute_def)
  have "dsound_at P key op (delete_record P n (walk_depth pre) key op) t (walk_depth pre)"
    using delete_gen [OF K key(1) del_sound_all [OF K T key(2)], of t r "walk_depth pre" n REC_FUEL] w n placed_depth [OF pl]
    by (simp add: delete_record_def wf0_def REC_FUEL_def)
  then have D: "drefines P (delete_record P n (walk_depth pre) key op) t k (spec_del0 P (tlook t k) op)"
    by (simp add: dsound_at_def Let_def k)
  show ?thesis
  proof (cases "spec_del0 P (tlook t k) op" rule: drefines_cases)
    case (err e)
    then show ?thesis using D spec_del_fails by (auto simp: drefines_def)
  next
    case (update l)
    have "t \<noteq> TEmpty" using w by auto
    then show ?thesis using D update tput_nonempty by (auto simp: drefines_def)
  qed (use D in \<open>auto simp: drefines_def split: if_splits\<close>)
qed

lemma delete_mem_rep:
  assumes K: "keccak_len P" and T: "decode_typed P" and F: "ff_rel Z f M" and c: "crep P M (RMem bs root) pre t"
    and w: "wf t r" and pl: "placed pre t r" "length pre \<noteq> 64" and m: "mem_ok_child (RMem bs root)" and R: "droute pre key op"
    and k: "k = drop (walk_depth pre) (key_nibbles key)"
  shows "fspec (delete_mem P bs root key op) f (cdel_post Z P M (RMem bs root) pre t k op)"
proof -
  obtain n where n: "parse_payload_lazy P bs = Ok \<lparr>ds_prefix = pre, ds_node = n\<rparr>" "repr P n t"
    using mem_read [OF K w placed_depth(3) [OF pl(1)] c m] by blast
  have d: "local_depth pre = walk_depth pre" by (rule local_walk [OF pl(2)])
  have tne: "t \<noteq> TEmpty" using w by auto
  from delete_record_rep [OF K T w pl(1) R k n(2)] show ?thesis
  proof (elim disjE exE conjE)
    fix o' n'
    assume o': "spec_del0 P (tlook t k) op = Ok o'" "repr P n' (dres t k o')"
      "delete_record P n (walk_depth pre) key op =
        Ok (n', if o' = DKeep then Absent else if dres t k o' = TEmpty then Removed else Changed)"
    have leaf: "make_mem_leaf P \<lparr>ds_prefix = pre, ds_node = n'\<rparr> = Ok (RMem (nib_path pre @ enc P (dres t k o')) (troot P (dres t k o')))"
      if ne: "dres t k o' \<noteq> TEmpty"
      using make_mem_leaf_rep [OF K o'(2) dres_placed [OF T w pl(1) R k o'(1) ne]] .
    have "fspec (delete_mem P bs root key op) f (\<lambda>x f'. f' = f \<and>
       (if dres t k o' = TEmpty then x = (None, RRemoved)
        else x = (Some (if o' = DKeep then RMem bs root else RMem (nib_path pre @ enc P (dres t k o')) (troot P (dres t k o'))),
              if o' = DKeep then RAbsent else RChanged)))"
      using n(1) d o'(3) leaf tne by (auto simp: delete_mem_def)
    then show ?thesis
      by (rule fspec_mono) (use o'(1) F c swaps_nil tne in \<open>auto simp: cdel_post_def split: if_splits\<close>)
  qed (use n(1) d in \<open>simp add: delete_mem_def\<close>)
qed

text \<open>A record given up and its content written anew, possibly changed.\<close>

lemma grows_replace:
  assumes "ff_rel Z f M" and "M ptr = Some p" and "\<And>M f. ff_rel Z f M \<Longrightarrow> grows Z P M f m pre t"
  shows "fspec m (ff_free f ptr) (\<lambda>c f'. \<exists>M'. ff_rel Z f' M' \<and> swaps M M' [ptr] (cptrs c) \<and> crep P M' c pre t)"
  using assms(3) [OF free_rel [OF assms(1,2)]] unfolding grows_def
  by (rule fspec_mono) (auto intro: swaps_trans [OF swaps_drop])

lemma delete_disk_rep:
  assumes K: "keccak_len P" and T: "decode_typed P" and F: "ff_rel Z f M" and c: "crep P M (RDisk ptr root) pre t"
    and w: "wf t r" and pl: "placed pre t r" "length pre \<noteq> 64" and R: "droute pre key op"
    and k: "k = drop (walk_depth pre) (key_nibbles key)"
  shows "fspec (delete_disk P cfg ptr root key op) f (cdel_post Z P M (RDisk ptr root) pre t k op)"
proof -
  obtain n where n: "read_lazy P f ptr = Ok \<lparr>ds_prefix = pre, ds_node = n\<rparr>" "repr P n t"
    using disk_read [OF K w placed_depth(3) [OF pl(1)] rel_readable [OF F] c] by blast
  have rd: "fspec (fread_lazy P ptr) f Q = Q \<lparr>ds_prefix = pre, ds_node = n\<rparr> f" for Q
    using n(1) by (simp add: fread_lazy_def fspec_def)
  have mp: "M ptr = Some (nib_path pre @ enc P t)" using c by simp
  have d: "local_depth pre = walk_depth pre" by (rule local_walk [OF pl(2)])
  have tne: "t \<noteq> TEmpty" using w by auto
  from delete_record_rep [OF K T w pl(1) R k n(2)] show ?thesis
  proof (elim disjE exE conjE)
    fix o' n'
    assume o': "spec_del0 P (tlook t k) op = Ok o'" "repr P n' (dres t k o')"
      "delete_record P n (walk_depth pre) key op =
        Ok (n', if o' = DKeep then Absent else if dres t k o' = TEmpty then Removed else Changed)"
    consider (keep) "o' = DKeep" | (gone) "o' \<noteq> DKeep" "dres t k o' = TEmpty" | (new) "o' \<noteq> DKeep" "dres t k o' \<noteq> TEmpty" by blast
    then show ?thesis
    proof cases
      case keep
      then show ?thesis using rd d o' F by (auto simp: delete_disk_def cdel_post_def)
    next
      case gone
      then show ?thesis using rd d o' free_rel [OF F mp] swaps_drop by (auto simp: delete_disk_def cdel_post_def)
    next
      case new
      note G = grows_leaf [OF K _ o'(2) dres_placed [OF T w pl(1) R k o'(1) new(2)]]
      from grows_replace [OF F mp G, of cfg False] show ?thesis
        using rd d o' new by (auto simp: delete_disk_def cdel_post_def elim!: fspec_mono)
    qed
  qed (use rd d in \<open>simp add: delete_disk_def\<close>)
qed

section \<open>Freeing a frontier\<close>

lemma free_fold:
  assumes "\<And>x f M. x \<in> set xs \<Longrightarrow> ff_rel Z f M \<Longrightarrow> set (ps x) \<subseteq> dom M \<Longrightarrow> distinct (ps x) \<Longrightarrow>
      fspec (fr x) f (\<lambda>_ f'. ff_rel Z f' (M |` (- set (ps x))))"
    and "ff_rel Z f M" and "set (concat (map ps xs)) \<subseteq> dom M" and "distinct (concat (map ps xs))"
  shows "fspec (foldr (\<lambda>m k. fbind m (\<lambda>_. k)) (map fr xs) (fret ())) f
    (\<lambda>_ f'. ff_rel Z f' (M |` (- set (concat (map ps xs)))))"
  using assms
proof (induction xs arbitrary: f M)
  case Nil
  then show ?case by (simp add: restrict_map_def)
next
  case (Cons x xs)
  have sub: "set (ps x) \<subseteq> dom M" "distinct (ps x)" "set (ps x) \<inter> set (concat (map ps xs)) = {}"
    "distinct (concat (map ps xs))" "set (concat (map ps xs)) \<subseteq> dom M"
    using Cons.prems(3,4) by auto
  have one: "fspec (fr x) f (\<lambda>_ f'. ff_rel Z f' (M |` (- set (ps x))))"
    using Cons.prems(1) [of x f M] Cons.prems(2) sub(1,2) by simp
  show ?case
    unfolding list.map foldr.simps comp_def fspec_bind
  proof (rule fspec_mono [OF one])
    fix u f1
    let ?M = "M |` (- set (ps x))"
    assume f1: "ff_rel Z f1 ?M"
    have dm: "set (concat (map ps xs)) \<subseteq> dom ?M" unfolding dom_restrict using sub(3,5) by blast
    have "fspec (foldr (\<lambda>m k. fbind m (\<lambda>_. k)) (map fr xs) (fret ())) f1
        (\<lambda>_ f'. ff_rel Z f' (?M |` (- set (concat (map ps xs)))))"
    proof (rule Cons.IH [OF _ f1 dm sub(4)])
      fix y f M
      assume "y \<in> set xs" "ff_rel Z f M" "set (ps y) \<subseteq> dom M" "distinct (ps y)"
      then show "fspec (fr y) f (\<lambda>_ f'. ff_rel Z f' (M |` (- set (ps y))))" using Cons.prems(1) [of y f M] by simp
    qed
    moreover have "?M |` (- set (concat (map ps xs))) = M |` (- set (concat (map ps (x # xs))))"
      by (auto simp: restrict_map_def fun_eq_iff)
    ultimately show "fspec (foldr (\<lambda>m k. fbind m (\<lambda>_. k)) (map fr xs) (fret ())) f1
        (\<lambda>_ f'. ff_rel Z f' (M |` (- set (concat (ps x # map ps xs)))))" by simp
  qed
qed

lemma free_rep:
  "ff_rel Z f M \<Longrightarrow> set (fptrs n) \<subseteq> dom M \<Longrightarrow> distinct (fptrs n) \<Longrightarrow> fspec (free_ram_records n) f (\<lambda>_ f'. ff_rel Z f' (M |` (- set (fptrs n))))"
  "ff_rel Z f M \<Longrightarrow> set (cptrs c) \<subseteq> dom M \<Longrightarrow> distinct (cptrs c) \<Longrightarrow> fspec (free_child_records c) f (\<lambda>_ f'. ff_rel Z f' (M |` (- set (cptrs c))))"
proof (induction n and c arbitrary: f M and f M)
  case (RBranch cs h)
  have s: "somes (map (map_option g) cs) = map g (somes cs)" for g :: "ram_child \<Rightarrow> 'c" by (simp add: somes_map)
  have "fspec (foldr (\<lambda>m k. fbind m (\<lambda>_. k)) (map free_child_records (somes cs)) (fret ())) f
    (\<lambda>_ f'. ff_rel Z f' (M |` (- set (concat (map cptrs (somes cs))))))"
  proof (rule free_fold [OF _ RBranch.prems(1)])
    fix x f M
    assume "x \<in> set (somes cs)" "ff_rel Z f M" "set (cptrs x) \<subseteq> dom M" "distinct (cptrs x)"
    then show "fspec (free_child_records x) f (\<lambda>_ f'. ff_rel Z f' (M |` (- set (cptrs x))))"
      using RBranch.IH [of "Some x" x f M] by (simp add: set_somes)
  qed (use RBranch.prems(2,3) s [of cptrs] in simp_all)
  then show ?case using s [of cptrs] s [of free_child_records] by simp
next
  case (RDisk ptr root)
  then obtain p where "M ptr = Some p" by auto
  from free_rel [OF RDisk.prems(1) this] have "ff_rel Z (ff_free f ptr) (M |` (- {ptr}))"
    by (simp only: restrict_complement_singleton_eq)
  then show ?case unfolding free_child_records.simps fspec_free cptrs.simps list.set .
qed (auto simp: restrict_map_def)

lemma swaps_restrict: "swaps M (M |` (- set A)) A []"
  by (auto simp: swaps_def restrict_map_def split: if_splits)

section \<open>Survivors of a collapse\<close>

lemma prepended:
  assumes "keccak_len P" and "repr P n u" and "sp n" and "wf u m" and "m \<le> 64" and "e \<noteq> []"
  obtains n' where "prepend_path P n e = Ok n'" and "repr P n' (tprep e u)" and "sp n'" and "\<not> is_raw n'"
  using prepend_path_repr [OF assms(1,2,4) _ assms(6)] prepend_path_sp [OF _ assms(3)] assms(5) that by fastforce

lemma survivor_placed:
  assumes "at_depth pre r" and "64 \<le> length pre \<longrightarrow> val_only u" and "nibs_ok e" and "e \<noteq> []" and "length e \<le> r"
    and "wf u (r - length e)" and "placed (pre @ e) u (r - length e)"
  shows "wf (tprep e u) r" and "placed pre (tprep e u) r"
  using assms wf_tprep [OF assms(6,3,4), of r] shallow_tprep [of u "length pre" e] by (auto simp: placed_def)

lemma rehome_child_rep:
  assumes K: "keccak_len P" and F: "ff_rel Z f M" and s: "survives P M pre r e c t" and D: "at_depth pre r" "length pre \<noteq> 64"
    and V: "64 \<le> length pre \<longrightarrow> val_only t" and d: "distinct (cptrs c)"
  shows "fspec (rehome_child P cfg ram c e pre) f (\<lambda>c' f'. \<exists>M'. ff_rel Z f' M' \<and> swaps M M' (cptrs c) (cptrs c') \<and> crep P M' c' pre t)"
proof -
  obtain u where u: "t = tprep e u" "e \<noteq> []" "nibs_ok e" "length e \<le> r" "wf u (r - length e)" "placed (pre @ e) u (r - length e)"
    "length (pre @ e) \<noteq> 64" "crep P M c (pre @ e) u" "mem_ok_child c" "\<And>m. c \<noteq> RRam m"
    using s by auto
  have "64 \<le> length pre \<longrightarrow> val_only u" using V u(1) by simp
  note tp = survivor_placed [OF D(1) this u(3,2,4-6), folded u(1)]
  have r': "r - length e \<le> 64" using placed_depth(2) [OF u(6)] .
  note dp = placed_depth(3) [OF u(6)]
  show ?thesis
  proof (cases c)
    case (RDisk ptr root)
    obtain n where n: "read_lazy P f ptr = Ok \<lparr>ds_prefix = pre @ e, ds_node = n\<rparr>" "repr P n u" "sp n"
      using disk_read [OF K u(5) dp rel_readable [OF F] u(8) [unfolded RDisk]] by blast
    obtain n' where n': "prepend_path P n e = Ok n'" "repr P n' t"
      using prepended [OF K n(2,3) u(5) r' u(2)] u(1) by metis
    have "M ptr = Some (nib_path (pre @ e) @ enc P u)" using u(8) RDisk by simp
    from grows_replace [OF F this grows_leaf [OF K _ n'(2) tp], of cfg ram] show ?thesis
      using n(1) n'(1) RDisk by (simp add: rehome_child_def fspec_def fbind_def fread_lazy_def flift_def ffree_def)
  next
    case (RMem bs root)
    obtain n where n: "parse_payload_lazy P bs = Ok \<lparr>ds_prefix = pre @ e, ds_node = n\<rparr>" "repr P n u" "sp n"
      using mem_read [OF K u(5) dp u(8) [unfolded RMem] u(9) [unfolded RMem]] by blast
    obtain n' where n': "prepend_path P n e = Ok n'" "repr P n' t"
      using prepended [OF K n(2,3) u(5) r' u(2)] u(1) by metis
    show ?thesis using make_mem_leaf_rep [OF K n'(2) tp] n(1) n'(1) RMem F swaps_nil by (auto simp: rehome_child_def)
  next
    case (RAccount p no b co st)
    have "crep P M (RAccount (e @ p) no b co st) pre t" using u(1,8) RAccount by auto
    moreover have "swaps M M (fptrs st) (fptrs st)"
      using d frep_ptrs(2) [OF u(8)] RAccount by (intro swaps_refl) simp_all
    ultimately show ?thesis using RAccount F by (auto simp: rehome_child_def)
  qed (use u(10) in auto)
qed

lemma swaps_gone: "swaps M M' A [] \<Longrightarrow> dom M' = dom M - set A"
  by (auto simp: swaps_def)

text \<open>A storage survivor becomes an inline storage node and its record is freed.\<close>

lemma materialize_rep:
  assumes K: "keccak_len P" and F: "ff_rel Z f M" and s: "survives P M pre r e c t" and V: "val_only t"
  shows "fspec (materialize_storage_survivor P c e) f (\<lambda>n f'. repr P n t \<and> sp n \<and> \<not> is_raw n \<and>
    (\<exists>M'. ff_rel Z f' M' \<and> swaps M M' (cptrs c) []))"
proof -
  obtain u where u: "t = tprep e u" "e \<noteq> []" "nibs_ok e" "length e \<le> r" "wf u (r - length e)" "placed (pre @ e) u (r - length e)"
    "length (pre @ e) \<noteq> 64" "crep P M c (pre @ e) u" "mem_ok_child c" "\<And>m. c \<noteq> RRam m"
    using s by auto
  have r': "r - length e \<le> 64" using placed_depth(2) [OF u(6)] .
  note dp = placed_depth(3) [OF u(6)]
  show ?thesis
  proof (cases c)
    case (RDisk ptr root)
    obtain n where n: "read_lazy P f ptr = Ok \<lparr>ds_prefix = pre @ e, ds_node = n\<rparr>" "repr P n u" "sp n"
      using disk_read [OF K u(5) dp rel_readable [OF F] u(8) [unfolded RDisk]] by blast
    obtain n' where n': "prepend_path P n e = Ok n'" "repr P n' t" "sp n'" "\<not> is_raw n'"
      using prepended [OF K n(2,3) u(5) r' u(2)] u(1) by metis
    have "M ptr = Some (nib_path (pre @ e) @ enc P u)" using u(8) RDisk by simp
    from free_rel [OF F this] show ?thesis
      using n(1) n' RDisk swaps_drop
      by (auto simp: materialize_storage_survivor_def fspec_def fbind_def fread_lazy_def flift_def ffree_def fret_def)
  next
    case (RMem bs root)
    obtain n where n: "parse_payload_lazy P bs = Ok \<lparr>ds_prefix = pre @ e, ds_node = n\<rparr>" "repr P n u" "sp n"
      using mem_read [OF K u(5) dp u(8) [unfolded RMem] u(9) [unfolded RMem]] by blast
    obtain n' where n': "prepend_path P n e = Ok n'" "repr P n' t" "sp n'" "\<not> is_raw n'"
      using prepended [OF K n(2,3) u(5) r' u(2)] u(1) by metis
    show ?thesis using n(1) n' RMem F swaps_nil by (auto simp: materialize_storage_survivor_def)
  next
    case (RAccount p no b co st)
    then show ?thesis using u(1,8) V by auto
  qed (use u(10) in auto)
qed

section \<open>A branch that lost a child\<close>

lemma over_ram_child_rep:
  assumes "frep P M sub (pre @ [x]) u" and "wf u r"
  shows "\<exists>n'. over_ram_child [x] sub = Ok n' \<and> frep P M n' pre (tprep [x] u) \<and> fptrs n' = fptrs sub"
proof (cases sub)
  case (RBranch cs h)
  obtain ts where "u = TBranch ts" using assms(1) [unfolded RBranch frep_RBranch] by blast
  then show ?thesis using RBranch assms(1) by (simp add: ext_if_def)
qed (use assms in auto)

lemma slot_ptrs_none: "(\<And>j. j < length cs \<Longrightarrow> cs ! j = None) \<Longrightarrow> slot_ptrs cs = []"
proof (induction cs)
  case (Cons c cs)
  have "c = None" using Cons.prems [of 0] by simp
  moreover have "cs ! j = None" if "j < length cs" for j using Cons.prems [of "Suc j"] that by simp
  ultimately show ?case using Cons.IH by simp
qed simp

lemma slot_ptrs_one:
  assumes "i < length cs" and "cs ! i = Some c" and "\<And>j. j < length cs \<Longrightarrow> j \<noteq> i \<Longrightarrow> cs ! j = None"
  shows "slot_ptrs cs = cptrs c"
proof -
  have e: "slot_ptrs (take i cs) = []" by (rule slot_ptrs_none) (use assms(1,3) in simp)
  have e': "slot_ptrs (drop (Suc i) cs) = []" by (rule slot_ptrs_none) (use assms(1,3) in simp)
  show ?thesis unfolding slots_ptrs_split [OF assms(1)] e e' assms(2) by simp
qed

lemma child_rep_None: "child_rep P M q c t \<Longrightarrow> (c = None) = (t = None)"
  by (cases c; cases t) auto

lemma drop_ram_child_rep:
  assumes rep: "frep P M' (RBranch cs None) pre (TBranch ts)" and sw: "swaps M M' A (slot_ptrs cs)"
    and w: "wfb (TBranch ts) r" and pl: "placed pre (TBranch ts) r" and m: "\<And>c. Some c \<in> set cs \<Longrightarrow> mem_ok_child c"
  shows "\<exists>n' out. drop_ram_child cs = Ok (n', out) \<and> ndel_out P M M' A pre r (collapse ts) n' out"
proof -
  have l: "length cs = 16" "length ts = 16" and sl: "\<And>j. j < 16 \<Longrightarrow> child_rep P M' (pre @ [word_of_nat j]) (cs ! j) (ts ! j)"
    using rep unfolding frep_RBranch by auto
  let ?F = "filter (\<lambda>j. ts ! j \<noteq> None) [0..<16]"
  have nn: "(cs ! j = None) = (ts ! j = None)" if "j < 16" for j using child_rep_None [OF sl [OF that]] .
  then have F: "filter (\<lambda>j. cs ! j \<noteq> None) [0..<length cs] = ?F"
    unfolding l by (intro filter_cong) auto
  consider (none) "?F = []" | (one) j where "?F = [j]" | (many) i j js where "?F = i # j # js"
    by (metis list.exhaust)
  then show ?thesis
  proof cases
    case none
    have "cs ! j = None" if "j < 16" for j
    proof -
      have "j \<notin> set ?F" unfolding none by simp
      then show ?thesis using nn that by auto
    qed
    then have e: "slot_ptrs cs = []" using l by (intro slot_ptrs_none) simp
    have "swaps M M' A []" using sw unfolding e .
    moreover have "collapse ts = TEmpty" unfolding collapse_def none by simp
    ultimately show ?thesis unfolding drop_ram_child_def F none by (simp add: ndel_out_def)
  next
    case (one j)
    have s: "set ?F = {j}" unfolding one by simp
    then have j: "j < 16" "ts ! j \<noteq> None" by auto
    have others: "cs ! i = None" if "i < 16" "i \<noteq> j" for i
    proof -
      have "i \<notin> set ?F" unfolding s using that(2) by simp
      then show ?thesis using nn that(1) by auto
    qed
    obtain c where c: "cs ! j = Some c" using j nn [OF j(1)] by auto
    from frep_slot [OF sl l j(1) c] obtain u where
      u: "ts ! j = Some u" "crep P M' c (pre @ [word_of_nat j]) u" "Some u \<in> set ts" "Some c \<in> set cs" .
    note ch = placed_child [OF pl w j(1) u(3)]
    have col: "collapse ts = tprep [word_of_nat j] u" unfolding collapse_def one using u(1) by simp
    have ptrs: "slot_ptrs cs = cptrs c" using others j(1) l c by (intro slot_ptrs_one) simp_all
    have un: "u \<noteq> TEmpty" using ch(3) by auto
    have surv: "survives P M' pre r [word_of_nat j] c (collapse ts)" if "\<And>sub. c \<noteq> RRam sub"
      using col u(2) ch that m [OF u(4)] w nibble_of_nat(1) [OF j(1)] by auto
    show ?thesis
    proof (cases "\<exists>sub. c = RRam sub")
      case True
      then obtain sub where sub: "c = RRam sub" by blast
      then have "frep P M' sub (pre @ [word_of_nat j]) u" using u(2) by simp
      from over_ram_child_rep [OF this ch(3)] obtain n' where
        "over_ram_child [word_of_nat j] sub = Ok n'" "frep P M' n' pre (collapse ts)" "fptrs n' = fptrs sub"
        unfolding col by blast
      then show ?thesis unfolding drop_ram_child_def F one using c sub sw ptrs col un by (simp add: ndel_out_def)
    next
      case False
      then have "drop_ram_child cs = Ok (REmpty, RCollapsed [word_of_nat j] c)"
        unfolding drop_ram_child_def F one using c by (cases c) simp_all
      then show ?thesis using False surv sw ptrs by (simp add: ndel_out_def)
    qed
  next
    case many
    have "collapse ts = TBranch ts" unfolding collapse_def many by simp
    then show ?thesis unfolding drop_ram_child_def F many using rep sw by (simp add: ndel_out_def)
  qed
qed

section \<open>Demoting an account\<close>

lemma demote_rep:
  assumes K: "keccak_len P" and F: "ff_rel Z f M" and n: "repr P n s" "sp n" "\<not> is_raw n"
    and w: "wf (TAcct p no bal co s) r" and pl: "placed pre (TAcct p no bal co s) r"
  shows "grows Z P M f (demote_account P cfg p no (bal_bytes bal) co n pre ram) pre (TAcct p no bal co s)"
proof -
  let ?n = "account_node P p no bal co n"
  have a: "repr P ?n (TAcct p no bal co s)" "sp ?n" using n by auto
  have "grows Z P M f (promote_account_to_ram P cfg \<lparr>ds_prefix = pre, ds_node = ?n\<rparr> (ram \<or> c_hot cfg)) pre (TAcct p no bal co s)"
    by (rule promote_account_grows [OF K a _ w pl F]) (simp add: account_node_def Let_def)
  then show ?thesis using grows_leaf [OF K F a(1) w pl, of cfg ram] by (simp add: demote_account_def Let_def)
qed

lemma grows_after:
  assumes "swaps M M1 A []" and "grows Z P M1 f m pre t"
  shows "fspec m f (\<lambda>c f'. \<exists>M'. ff_rel Z f' M' \<and> swaps M M' A (cptrs c) \<and> crep P M' c pre t)"
  using assms(2) unfolding grows_def by (rule fspec_mono) (use swaps_trans [OF assms(1)] in blast)

definition deletable :: "nibs \<Rightarrow> trie \<Rightarrow> nat \<Rightarrow> bytes \<Rightarrow> delete_op \<Rightarrow> nibs \<Rightarrow> bool" where
  "deletable pre t r key op k = (placed pre t r \<and> droute pre key op \<and> k = drop (walk_depth pre) (key_nibbles key))"

lemma deletableD:
  assumes "deletable pre t r key op k"
  shows "placed pre t r" and "droute pre key op" and "k = drop (walk_depth pre) (key_nibbles key)"
    and "length key = 32" and "del_ok op" and "length k = r" and "nibs_ok k"
    and "from_idx (key_nibbles key) (walk_depth pre) = Ok k"
  using assms by (auto simp: deletable_def droute_def placed_def at_depth_def from_idx_def)

lemma droute_child:
  assumes "droute pre key op" and "length pre \<noteq> 63" and "x = hd (drop (walk_depth pre) (key_nibbles key))"
  shows "droute (pre @ [x]) key op"
proof (cases "length pre < 63")
  case True
  then have "pre = take (length pre) (key_nibbles key)" "walk_depth pre = length pre" "length key = 32"
    using assms(1) by (auto simp: droute_def walk_depth_def)
  then have "pre @ [x] = take (Suc (length pre)) (key_nibbles key)"
    using True assms(3) by (simp add: take_Suc_conv_app_nth hd_drop_conv_nth)
  then show ?thesis using assms(1) True by (simp add: droute_def)
next
  case False
  then show ?thesis using assms(1,2) by (auto simp: droute_def)
qed

lemma droute_ext:
  assumes "droute pre key op" and "at_depth pre r" and "length p < r" and "take (length p) (drop (walk_depth pre) (key_nibbles key)) = p"
  shows "droute (pre @ p) key op"
proof (cases "length pre < 64")
  case True
  then have d: "walk_depth pre = length pre" "length pre + length p < 64" "pre = take (length pre) (key_nibbles key)" "length key = 32"
    using assms(1-3) by (auto simp: at_depth_def walk_depth_def droute_def)
  then have "pre @ p = take (length pre + length p) (key_nibbles key)"
    using assms(4) by (simp add: take_add)
  then show ?thesis using assms(1) d by (simp add: droute_def)
next
  case False
  then show ?thesis using assms(1) by (simp add: droute_def)
qed

lemma deletable_child:
  assumes "deletable pre (TBranch ts) r key op (x # k)" and "wfb (TBranch ts) r"
  shows "unat x < 16" and "length (pre @ [x]) \<noteq> 64"
    and "\<And>u. ts ! unat x = Some u \<Longrightarrow> deletable (pre @ [x]) u (r - 1) key op k \<and> wf u (r - 1)"
proof -
  note I = deletableD [OF assms(1)]
  have x: "x < 16" "0 < r" "length pre \<noteq> 63" "length ts = 16" using I(1,6,7) assms(2) by (auto simp: placed_def)
  then show xi: "unat x < 16" by (intro nibble_unat)
  note ch = at_depth_child [OF placed_depth(3) [OF I(1)] x(2,3,1)]
  show "length (pre @ [x]) \<noteq> 64" by (rule ch)
  have hd: "x = hd (drop (walk_depth pre) (key_nibbles key))" using I(3) by (metis list.sel(1))
  have R: "droute (pre @ [x]) key op" by (rule droute_child [OF I(2) x(3) hd])
  have k: "k = drop (walk_depth (pre @ [x])) (key_nibbles key)"
    using I(3) ch(3) by (metis Suc_eq_plus1 drop_Suc list.sel(3) tl_drop)
  show "deletable (pre @ [x]) u (r - 1) key op k \<and> wf u (r - 1)" if u: "ts ! unat x = Some u" for u
  proof -
    have m: "Some u \<in> set ts" using nth_mem [of "unat x" ts] xi x(4) u by simp
    show ?thesis using placed_child [OF I(1) assms(2) xi m] R k by (simp add: deletable_def)
  qed
qed

lemma deletable_ext:
  assumes "deletable pre (TExt p u) r key op k" and "wf (TExt p u) r" and "take (length p) k = p"
  shows "deletable (pre @ p) u (r - length p) key op (drop (length p) k)" and "wf u (r - length p)"
proof -
  note I = deletableD [OF assms(1)]
  note pl = placed_ext [OF I(1) assms(2)]
  have "length p < r" using assms(2) by simp
  then have "droute (pre @ p) key op" using droute_ext [OF I(2) placed_depth(3) [OF I(1)]] assms(3) I(3) by blast
  then show "deletable (pre @ p) u (r - length p) key op (drop (length p) k)"
    using pl I(3) by (simp add: deletable_def add.commute)
  show "wf u (r - length p)" by (rule pl(2))
qed

section \<open>Deletion below a promoted account\<close>

lemma delete_slot_spec:
  assumes "val_only s" and "wf s 64" and "length skey = 32"
  shows "spec_del0 P (tlook s (key_nibbles skey)) DelValue = Ok o' \<Longrightarrow>
    spec_del P (LAcct no bal co s) (DelStorage skey) =
      Ok (if o' = DKeep then DKeep else DUpdate (LAcct no bal co (dres s (key_nibbles skey) o'))) \<and> (o' = DKeep \<or> o' = DRemove)"
  using tlook_val_only [OF assms(1), of "key_nibbles skey"]
  by (auto simp: spec_del0_def split: option.splits)

lemma delete_account_rep:
  assumes K: "keccak_len P" and T: "decode_typed P" and F: "ff_rel Z f M" and rep: "crep P M (RAccount p no b co st) pre t" and w: "wf t r"
    and I: "deletable pre t r key op k" and d: "distinct (fptrs st)"
    and IH: "\<And>skey s. deletable (pre @ p) s 64 skey DelValue (key_nibbles skey) \<Longrightarrow> wfb s 64 \<Longrightarrow> frep P M st (pre @ p) s \<Longrightarrow>
      fspec (delete_ram P cfg st (pre @ p) skey DelValue False) f (ndel_post Z P M st (pre @ p) 64 s (key_nibbles skey) DelValue)"
  shows "fspec (delete_child P cfg (RAccount p no b co st) pre key op ram) f (cdel_post Z P M (RAccount p no b co st) pre t k op)"
proof -
  obtain bal s where s: "t = TAcct p no bal co s" "s \<noteq> TEmpty" "b = bal_bytes bal" "frep P M st (pre @ p) s" "length (pre @ p) = 64"
    using rep by auto
  note D = deletableD [OF I]
  note pl = placed_storage [OF D(1) [unfolded s(1)] w [unfolded s(1)] s(5)]
  have st: "wf s 64" "val_only s" using w s(1,2) by auto
  have lp: "length p = length k" "length pre < 64" using w s(1) D(1,6) by (auto simp: placed_def)
  let ?c = "RAccount p no b co st"
  show ?thesis
  proof (cases "k = p")
    case False
    then show ?thesis using D(8) s(1) F by (auto simp: cdel_post_def spec_del0_def)
  next
    case True
    have key: "pre @ p = key_nibbles key"
      using D(2,3) lp(2) True by (metis append_take_drop_id droute_def walk_depth_def linorder_not_less)
    have tl: "tlook t k = Some (LAcct no bal co s)" "\<And>l. tput t k l = mk_leaf p l" "tdel t k = TEmpty"
      using s(1) True by (simp_all add: leaf_put_def common_prefix_eqI)
    have ac: "wf (TAcct p no bal co s') r" "placed pre (TAcct p no bal co s') r" if "s' = TEmpty \<or> (wf s' 64 \<and> val_only s')" for s'
      using w D(1) s(1) that by (auto simp: placed_def)
    have free: "fspec (free_ram_records st) f (\<lambda>_ f'. ff_rel Z f' (M |` (- set (fptrs st))))"
      by (rule free_rep(1) [OF F frep_ptrs(1) [OF s(4)] d])
    note sw = swaps_restrict [of M "fptrs st"]
    show ?thesis
    proof (cases op)
      case DelValue
      then show ?thesis using D(8) True by simp
    next
      case DelAccount
      have "fspec (free_ram_records st) f (\<lambda>_ f'. cdel_post Z P M ?c pre t k op (None, RRemoved) f')"
        by (rule fspec_mono [OF free]) (use tl sw DelAccount in \<open>auto simp: cdel_post_def spec_del0_def\<close>)
      then show ?thesis using D(8) True DelAccount by simp
    next
      case DelWipeStorage
      let ?t = "TAcct p no bal co TEmpty" and ?n = "account_node P p no bal co Empty"
      have "fspec (free_ram_records st) f (\<lambda>_ f1. fspec (make_leaf_child P cfg ram \<lparr>ds_prefix = pre, ds_node = ?n\<rparr>) f1
          (\<lambda>c f'. cdel_post Z P M ?c pre t k op (Some c, RChanged) f'))"
      proof (rule fspec_mono [OF free])
        fix u f1
        assume f1: "ff_rel Z f1 (M |` (- set (fptrs st)))"
        have "repr P ?n ?t" by auto
        note G = grows_leaf [OF K f1 this ac(1,2) [OF disjI1 [OF refl]], of cfg ram]
        show "fspec (make_leaf_child P cfg ram \<lparr>ds_prefix = pre, ds_node = ?n\<rparr>) f1 (\<lambda>c f'. cdel_post Z P M ?c pre t k op (Some c, RChanged) f')"
          by (rule fspec_mono [OF grows_after [OF sw G]])
            (use tl s(2) DelWipeStorage in \<open>auto simp: cdel_post_def spec_del0_def\<close>)
      qed
      then show ?thesis using D(8) True DelWipeStorage s(3) by simp
    next
      case (DelStorage skey)
      have sk: "length skey = 32" using D(5) DelStorage by simp
      have "deletable (pre @ p) s 64 skey DelValue (key_nibbles skey)"
        using pl(1,4) s(5) sk by (simp add: deletable_def droute_def)
      note N = IH [OF this pl(2) s(4)]
      let ?k = "key_nibbles skey"
      have lk: "length ?k = 64" "nibs_ok ?k" using sk by auto
      define Q where "Q = (\<lambda>x f'. cdel_post Z P M ?c pre t k op x f')"
      have dem: "fspec (demote_account P cfg p no b co n pre ram) f1 (\<lambda>c f'. Q (Some c, RChanged) f')"
        if n: "repr P n (tdel s ?k)" "sp n" "\<not> is_raw n" and M1: "ff_rel Z f1 M1" "swaps M M1 (fptrs st) []"
          and o': "spec_del P (LAcct no bal co s) (DelStorage skey) = Ok (DUpdate (LAcct no bal co (tdel s ?k)))" for n f1 M1
      proof -
        have "tdel s ?k = TEmpty \<or> (wf (tdel s ?k) 64 \<and> val_only (tdel s ?k))"
          using wf_tdel [OF st(1) lk] val_only_tdel [OF st(1) lk st(2)] by (auto simp: wf0_def)
        note G = demote_rep [OF K M1(1) n ac [OF this], of cfg ram]
        show ?thesis unfolding s(3)
          by (rule fspec_mono [OF grows_after [OF M1(2) G]])
            (use tl o' DelStorage in \<open>auto simp: Q_def s(3) cdel_post_def spec_del0_def\<close>)
      qed
      have "fspec (fbind (delete_ram P cfg st (key_nibbles key) skey DelValue False) (\<lambda>(storage', out).
              (case out of
                 RAbsent \<Rightarrow> fret (Some (RAccount p no b co storage'), RAbsent)
               | RChanged \<Rightarrow> fret (Some (RAccount p no b co storage'), RChanged)
               | RRemoved \<Rightarrow>
                   fbind (demote_account P cfg p no b co Empty pre ram) (\<lambda>c. fret (Some c, RChanged))
               | RCollapsed edge survivor \<Rightarrow>
                   fbind (materialize_storage_survivor P survivor edge) (\<lambda>storage_node.
                   fbind (demote_account P cfg p no b co storage_node pre ram) (\<lambda>c.
                     fret (Some c, RChanged)))))) f Q"
        unfolding fspec_bind
      proof (rule fspec_mono [OF N [unfolded key]], clarify)
        fix n' out f1
        assume "ndel_post Z P M st (key_nibbles key) 64 s ?k DelValue (n', out) f1"
        then obtain o' where o': "spec_del0 P (tlook s ?k) DelValue = Ok o'" and post: "if o' = DKeep then (n', out) = (st, RAbsent) \<and> ff_rel Z f1 M
            else \<exists>M'. ff_rel Z f1 M' \<and> ndel_out P M M' (fptrs st) (pre @ p) 64 (fdres s ?k o') n' out"
          unfolding ndel_post_def key fst_conv snd_conv by blast
        note sp = delete_slot_spec [OF st(2,1) sk o', of no bal co]
        show "fspec (case out of
                 RAbsent \<Rightarrow> fret (Some (RAccount p no b co n'), RAbsent)
               | RChanged \<Rightarrow> fret (Some (RAccount p no b co n'), RChanged)
               | RRemoved \<Rightarrow>
                   fbind (demote_account P cfg p no b co Empty pre ram) (\<lambda>c. fret (Some c, RChanged))
               | RCollapsed edge survivor \<Rightarrow>
                   fbind (materialize_storage_survivor P survivor edge) (\<lambda>storage_node.
                   fbind (demote_account P cfg p no b co storage_node pre ram) (\<lambda>c.
                     fret (Some c, RChanged)))) f1 Q"
        proof (cases "o' = DKeep")
          case True
          then show ?thesis using post sp tl DelStorage by (simp add: Q_def cdel_post_def spec_del0_def)
        next
          case False
          then have o'': "o' = DRemove" "fdres s ?k o' = tdel s ?k" using sp fdel_wf [OF st(1) lk] by auto
          then have sd: "spec_del P (LAcct no bal co s) (DelStorage skey) = Ok (DUpdate (LAcct no bal co (tdel s ?k)))" using sp by simp
          obtain M' where M': "ff_rel Z f1 M'" "ndel_out P M M' (fptrs st) (pre @ p) 64 (tdel s ?k) n' out" using post False o''(2) by auto
          show ?thesis
          proof (cases out)
            case RAbsent
            then show ?thesis using M'(2) by (simp add: ndel_out_def)
          next
            case RChanged
            then have "crep P M' (RAccount p no b co n') pre (TAcct p no bal co (tdel s ?k))" "swaps M M' (fptrs st) (fptrs n')"
              using M'(2) s(3,5) by (auto simp: ndel_out_def)
            then show ?thesis using RChanged M'(1) sd tl DelStorage by (auto simp: Q_def cdel_post_def spec_del0_def)
          next
            case RRemoved
            then show ?thesis using dem [of Empty f1 M'] M' sd by (simp add: ndel_out_def)
          next
            case (RCollapsed e c)
            have S: "swaps M M' (fptrs st) (cptrs c)" "survives P M' (pre @ p) 64 e c (tdel s ?k)"
              using M'(2) RCollapsed by (simp_all add: ndel_out_def del: survives.simps)
            have "fspec (materialize_storage_survivor P c e) f1 (\<lambda>n f2. fspec (demote_account P cfg p no b co n pre ram) f2
                (\<lambda>c f'. Q (Some c, RChanged) f'))"
              by (rule fspec_mono [OF materialize_rep [OF K M'(1) S(2) val_only_tdel [OF st(1) lk st(2)]]])
                (use dem sd swaps_trans [OF S(1)] in blast)
            then show ?thesis using RCollapsed by simp
          qed
        qed
      qed
      then show ?thesis using D(8) True DelStorage by (simp add: Q_def)
    qed
  qed
qed

section \<open>Deletion from the frontier\<close>

lemma merge_extension_rep:
  assumes "frep P M n (pre @ p) u" and "u \<noteq> TEmpty" and "p \<noteq> []"
  shows "frep P M (merge_extension p n) pre (tprep p u)" and "fptrs (merge_extension p n) = fptrs n"
proof -
  have "frep P M (merge_extension p n) pre (tprep p u) \<and> fptrs (merge_extension p n) = fptrs n"
  proof (cases n)
    case (RBranch cs h)
    obtain ts where "u = TBranch ts" using assms(1) [unfolded RBranch frep_RBranch] by blast
    then show ?thesis using RBranch assms(1,3) by (simp add: ext_if_def)
  qed (use assms in auto)
  then show "frep P M (merge_extension p n) pre (tprep p u)" "fptrs (merge_extension p n) = fptrs n" by auto
qed

lemma delete_ram_RBranch:
  "delete_ram P cfg (RBranch children hash) prefix key op ram =
     fbind (flift (index (key_nibbles key) (walk_depth prefix))) (\<lambda>idx.
     fbind (flift (index children (unat idx))) (\<lambda>slot.
     fbind (delete_in_child P cfg slot (prefix @ [idx]) key op ram) (\<lambda>(slot', out).
       (let children = children[unat idx := slot'] in
        (case out of
           RAbsent \<Rightarrow> fret (RBranch children hash, RAbsent)
         | RChanged \<Rightarrow> fret (RBranch children None, RChanged)
         | RCollapsed _ _ \<Rightarrow> flift (Err (Panic ''collapse is materialized in delete_in_child''))
         | RRemoved \<Rightarrow> flift (drop_ram_child children))))))"
proof -
  have "fbind (flift (index (map (map_option (delete_child P cfg)) children) i)) (\<lambda>slot.
        fbind (case slot of None \<Rightarrow> fret (None, RAbsent) | Some del \<Rightarrow> del q key op ram) g)
      = fbind (flift (index children i)) (\<lambda>slot. fbind (delete_in_child P cfg slot q key op ram) g)"
    for i q and g :: "ram_child option \<times> ram_delete \<Rightarrow> (ram_node \<times> ram_delete) fm"
    by (auto simp: index_map index_def fbind_def flift_def delete_in_child_def fun_eq_iff split: option.splits)
  then show ?thesis by simp
qed

lemma delete_branch_rep:
  assumes rep: "frep P M (RBranch cs h) pre (TBranch ts)" and w: "wfb (TBranch ts) r" and I: "deletable pre (TBranch ts) r key op (x # k)"
    and m: "mem_ok (RBranch cs h)" and d: "distinct (fptrs (RBranch cs h))" and F: "ff_rel Z f M"
    and c: "cs ! unat x = Some c" and u: "ts ! unat x = Some u"
    and post: "cdel_post Z P M c (pre @ [x]) u k op (slot', out) f'"
  shows "fspec (let children = cs[unat x := slot'] in
        (case out of
           RAbsent \<Rightarrow> fret (RBranch children h, RAbsent)
         | RChanged \<Rightarrow> fret (RBranch children None, RChanged)
         | RCollapsed _ _ \<Rightarrow> flift (Err (Panic ''collapse is materialized in delete_in_child''))
         | RRemoved \<Rightarrow> flift (drop_ram_child children))) f' (ndel_post Z P M (RBranch cs h) pre r (TBranch ts) (x # k) op)"
proof -
  note x = deletable_child(1) [OF I w]
  have l: "length cs = 16" "length ts = 16" using rep unfolding frep_RBranch by auto
  have tl: "tlook (TBranch ts) (x # k) = tlook u k" using x l u by simp
  obtain o' where o': "spec_del0 P (tlook u k) op = Ok o'" and po: "if o' = DKeep then (slot', out) = (Some c, RAbsent) \<and> ff_rel Z f' M
      else \<exists>M'. ff_rel Z f' M' \<and>
        (if dres u k o' = TEmpty then (slot', out) = (None, RRemoved) \<and> swaps M M' (cptrs c) []
         else \<exists>c'. (slot', out) = (Some c', RChanged) \<and> swaps M M' (cptrs c) (cptrs c') \<and> crep P M' c' (pre @ [x]) (dres u k o'))"
    using post unfolding cdel_post_def by blast
  show ?thesis
  proof (cases "o' = DKeep")
    case True
    have "cs[unat x := Some c] = cs" using c by (metis list_update_id)
    then show ?thesis using True po o' tl by (simp add: ndel_post_def)
  next
    case False
    then obtain M' where M': "ff_rel Z f' M'" and po': "if dres u k o' = TEmpty then (slot', out) = (None, RRemoved) \<and> swaps M M' (cptrs c) []
         else \<exists>c'. (slot', out) = (Some c', RChanged) \<and> swaps M M' (cptrs c) (cptrs c') \<and> crep P M' c' (pre @ [x]) (dres u k o')"
      using po by auto
    have wu: "wf u (r - 1)" using deletable_child(3) [OF I w u] by blast
    show ?thesis
    proof (cases "dres u k o' = TEmpty")
      case True
      then have s: "slot' = None" "out = RRemoved" "swaps M M' (cptrs c) []" using po' by auto
      have "u \<noteq> TEmpty" using wu by auto
      then have dr: "o' = DRemove" "tdel u k = TEmpty" using True False tput_nonempty by (cases o'; auto)+
      note B = branch_set_rep [OF rep x d, of M' None None]
      have fr: "frep P M' (RBranch (cs[unat x := None]) None) pre (TBranch (ts[unat x := None]))"
        "swaps M M' (fptrs (RBranch cs h)) (slot_ptrs (cs[unat x := None]))"
        using B s(3) c by auto
      have sub: "set (ts[unat x := None]) \<subseteq> insert None (set ts)" "set (cs[unat x := None]) \<subseteq> insert None (set cs)"
        by (rule set_update_subset_insert)+
      have w': "wfb (TBranch (ts[unat x := None])) r" using w sub(1) by auto
      have pl': "placed pre (TBranch (ts[unat x := None])) r" using deletableD(1) [OF I] sub(1) by (auto simp: placed_def)
      have m': "\<And>c. Some c \<in> set (cs[unat x := None]) \<Longrightarrow> mem_ok_child c" using m sub(2) by auto
      obtain n' out' where "drop_ram_child (cs[unat x := None]) = Ok (n', out')"
        "ndel_out P M M' (fptrs (RBranch cs h)) pre r (collapse (ts[unat x := None])) n' out'"
        using drop_ram_child_rep [OF fr w' pl' m'] by blast
      moreover have "fdel (TBranch ts) (x # k) = collapse (ts[unat x := None])" using u dr by (simp add: fdel_def)
      ultimately show ?thesis using s(1,2) M' o' tl False dr by (auto simp: ndel_post_def)
    next
      case ne: False
      then obtain c' where s: "slot' = Some c'" "out = RChanged" "swaps M M' (cptrs c) (cptrs c')" "crep P M' c' (pre @ [x]) (dres u k o')"
        using po' by auto
      note B = branch_put_rep [OF rep x d, of M' c' "dres u k o'"]
      have "fdres (TBranch ts) (x # k) o' = TBranch (ts[unat x := Some (dres u k o')])"
        using False ne u x l by (cases o') (simp_all add: fdel_def)
      then show ?thesis using s M' o' tl False B c by (auto simp: ndel_post_def ndel_out_def)
    qed
  qed
qed

text \<open>What the slot of a frontier child becomes.\<close>

lemma delete_ram_child:
  assumes K: "keccak_len P" and T: "decode_typed P" and w: "wf t r" and ln: "length pre \<noteq> 64" and I: "deletable pre t r key op k"
    and post: "ndel_post Z P M n pre r t k op (n', out) f'"
  shows "fspec (case out of
          RAbsent \<Rightarrow> fret (Some (RRam n'), RAbsent)
        | RChanged \<Rightarrow> fret (Some (RRam n'), RChanged)
        | RRemoved \<Rightarrow> fret (None, RRemoved)
        | RCollapsed edge survivor \<Rightarrow>
            fbind (rehome_child P cfg ram survivor edge pre) (\<lambda>c. fret (Some c, RChanged))) f' (cdel_post Z P M (RRam n) pre t k op)"
proof -
  note D = deletableD [OF I]
  obtain o' where o': "spec_del0 P (tlook t k) op = Ok o'" and po: "if o' = DKeep then (n', out) = (n, RAbsent) \<and> ff_rel Z f' M
      else \<exists>M'. ff_rel Z f' M' \<and> ndel_out P M M' (fptrs n) pre r (fdres t k o') n' out"
    using post unfolding ndel_post_def fst_conv snd_conv by blast
  show ?thesis
  proof (cases "o' = DKeep")
    case True
    then show ?thesis using po o' by (simp add: cdel_post_def)
  next
    case False
    have e: "fdres t k o' = dres t k o'" by (rule fdres_wf [OF w D(6,7)])
    obtain M' where M': "ff_rel Z f' M'" "ndel_out P M M' (fptrs n) pre r (dres t k o') n' out" using po False e by auto
    show ?thesis
    proof (cases out)
      case (RCollapsed ed c)
      have S: "swaps M M' (fptrs n) (cptrs c)" "survives P M' pre r ed c (dres t k o')"
        using M'(2) RCollapsed by (simp_all add: ndel_out_def del: survives.simps)
      obtain u where "dres t k o' = tprep ed u" "wf u (r - length ed)" using S(2) by auto
      then have ne: "dres t k o' \<noteq> TEmpty" by (cases "u = TEmpty") simp_all
      have V: "64 \<le> length pre \<longrightarrow> val_only (dres t k o')"
        using dres_placed(2) [OF T w D(1-3) o' ne] by (simp add: placed_def)
      have d: "distinct (cptrs c)" using S(1) by (simp add: swaps_def)
      have "fspec (rehome_child P cfg ram c ed pre) f' (\<lambda>c f'. cdel_post Z P M (RRam n) pre t k op (Some c, RChanged) f')"
        by (rule fspec_mono [OF rehome_child_rep [OF K M'(1) S(2) placed_depth(3) [OF D(1)] ln V d]])
          (use o' False ne swaps_trans [OF S(1)] in \<open>auto simp: cdel_post_def\<close>)
      then show ?thesis using RCollapsed by simp
    qed (use M' o' False in \<open>auto simp: ndel_out_def cdel_post_def\<close>)
  qed
qed

lemma tprep_tprep: "e \<noteq> [] \<Longrightarrow> tprep p (tprep e u) = tprep (p @ e) u"
  by (cases u) (auto simp: ext_if_def)

lemma survives_under:
  assumes "survives P M (pre @ p) r' e c t" and "p \<noteq> []" and "nibs_ok p" and "r' = r - length p" and "length p < r"
  shows "survives P M pre r (p @ e) c (tprep p t)"
proof -
  obtain u where u: "t = tprep e u" "e \<noteq> []" "nibs_ok e" "length e \<le> r'" "wf u (r' - length e)"
    "placed ((pre @ p) @ e) u (r' - length e)" "length ((pre @ p) @ e) \<noteq> 64" "crep P M c ((pre @ p) @ e) u" "mem_ok_child c"
    "\<And>m. c \<noteq> RRam m" using assms(1) by auto
  have "r - length (p @ e) = r' - length e" using assms(4) by simp
  then show ?thesis using u assms(2-5) tprep_tprep [OF u(2), of p u] by (auto intro!: exI [of _ u])
qed

lemma delete_rep:
  assumes K: "keccak_len P" and T: "decode_typed P"
  shows "frep P M n pre t \<Longrightarrow> wfb t r \<Longrightarrow> mem_ok n \<Longrightarrow> distinct (fptrs n) \<Longrightarrow> ff_rel Z f M \<Longrightarrow>
      deletable pre t r key op k \<Longrightarrow> fspec (delete_ram P cfg n pre key op ram) f (ndel_post Z P M n pre r t k op)"
    and "crep P M c pre t \<Longrightarrow> wf t r \<Longrightarrow> length pre \<noteq> 64 \<Longrightarrow> mem_ok_child c \<Longrightarrow> distinct (cptrs c) \<Longrightarrow> ff_rel Z f M \<Longrightarrow>
      deletable pre t r key op k \<Longrightarrow> fspec (delete_child P cfg c pre key op ram) f (cdel_post Z P M c pre t k op)"
proof (induction n and c arbitrary: pre t r key op k ram and pre t r key op k ram)
  case REmpty
  then show ?case by (simp add: ndel_post_def spec_del0_def)
next
  case (RExtension p n h)
  then obtain u where u: "t = TExt p u" "frep P M n (pre @ p) u" by auto
  have w: "wf t r" using RExtension.prems(2) u by simp
  note D = deletableD [OF RExtension.prems(6)]
  show ?case
  proof (cases "take (length p) k = p")
    case False
    then show ?thesis using D(8) u(1) RExtension.prems(5) by (simp add: starts_with_def ndel_post_def spec_del0_def)
  next
    case True
    let ?k = "drop (length p) k" and ?r = "r - length p"
    note E = deletable_ext [OF RExtension.prems(6) [unfolded u(1)] w [unfolded u(1)] True]
    note E' = deletableD [OF E(1)]
    have N: "fspec (delete_ram P cfg n (pre @ p) key op ram) f (ndel_post Z P M n (pre @ p) ?r u ?k op)"
      using RExtension.IH [OF u(2) wf_wfb [OF E(2)] _ _ RExtension.prems(5) E(1)] RExtension.prems(3,4) by simp
    have tl: "tlook t k = tlook u ?k" using u(1) True by simp
    have p: "p \<noteq> []" "nibs_ok p" "length p < r" using w u(1) by auto
    have td: "fdres t k o' = tprep p (fdres u ?k o')" if "o' \<noteq> DKeep" "spec_del0 P (tlook u ?k) op = Ok o'" for o'
    proof -
      have b: "is_branch u" using w u(1) by simp
      show ?thesis
      proof (cases o')
        case (DUpdate l)
        have "is_branch (tput u ?k l)" using b by (rule is_branch_tput)
        then have "tprep p (tput u ?k l) = TExt p (tput u ?k l)" using p(1) by (cases "tput u ?k l") (auto simp: ext_if_def)
        then show ?thesis using DUpdate u(1) True common_prefix_full [of p k] by (simp add: Let_def)
      next
        case DRemove
        then show ?thesis
          using fdel_wf [OF w D(6,7)] fdel_wf [OF E(2) E'(6,7)] u(1) True by simp
      qed (use that in simp)
    qed
    have step: "fspec (case out of
            RAbsent \<Rightarrow> fret (RExtension p n' h, RAbsent)
          | RRemoved \<Rightarrow> fret (REmpty, RRemoved)
          | RCollapsed edge survivor \<Rightarrow> fret (REmpty, RCollapsed (p @ edge) survivor)
          | RChanged \<Rightarrow> fret (merge_extension p n', RChanged)) f' (ndel_post Z P M (RExtension p n h) pre r t k op)"
      if N: "ndel_post Z P M n (pre @ p) ?r u ?k op (n', out) f'" for n' out f'
    proof -
      obtain o' where o': "spec_del0 P (tlook u ?k) op = Ok o'" and po: "if o' = DKeep then (n', out) = (n, RAbsent) \<and> ff_rel Z f' M
          else \<exists>M'. ff_rel Z f' M' \<and> ndel_out P M M' (fptrs n) (pre @ p) ?r (fdres u ?k o') n' out"
        using N unfolding ndel_post_def fst_conv snd_conv by blast
      show ?thesis
      proof (cases "o' = DKeep")
        case True
        then show ?thesis using po o' tl by (simp add: ndel_post_def)
      next
        case False
        then obtain M' where M': "ff_rel Z f' M'" "ndel_out P M M' (fptrs n) (pre @ p) ?r (fdres u ?k o') n' out" using po by auto
        have "ndel_out P M M' (fptrs n) pre r (fdres t k o') (fst y) (snd y)"
          if y: "y = (case out of RAbsent \<Rightarrow> (n', RAbsent) | RRemoved \<Rightarrow> (REmpty, RRemoved)
            | RCollapsed edge survivor \<Rightarrow> (REmpty, RCollapsed (p @ edge) survivor)
            | RChanged \<Rightarrow> (merge_extension p n', RChanged))" for y
          unfolding td [OF False o']
          using M'(2) y p survives_under [of P M' pre p ?r _ _ "fdres u ?k o'" r] merge_extension_rep [of P M' n' pre p "fdres u ?k o'"]
          by (cases out) (auto simp: ndel_out_def simp del: survives.simps)
        then have "ndel_post Z P M (RExtension p n h) pre r t k op (case out of RAbsent \<Rightarrow> (n', RAbsent) | RRemoved \<Rightarrow> (REmpty, RRemoved)
            | RCollapsed edge survivor \<Rightarrow> (REmpty, RCollapsed (p @ edge) survivor)
            | RChanged \<Rightarrow> (merge_extension p n', RChanged)) f'"
          unfolding ndel_post_def using o' tl False M'(1) by auto
        then show ?thesis using M'(2) by (cases out) (simp_all add: ndel_out_def)
      qed
    qed
    show ?thesis
      using D(8) True by (simp add: starts_with_def) (rule fspec_mono [OF N], clarify, rule step)
  qed
next
  case (RBranch cs h)
  then obtain ts where ts: "t = TBranch ts" "length cs = 16" "length ts = 16"
    "\<And>i. i < 16 \<Longrightarrow> rel_option (\<lambda>c u. crep P M c (pre @ [word_of_nat i]) u) (cs ! i) (ts ! i)"
    unfolding frep_RBranch by auto
  note D = deletableD [OF RBranch.prems(6)]
  have "0 < r" using RBranch.prems(2) ts(1) by simp
  then obtain x k' where x: "k = x # k'" using D(6) by (cases k) auto
  note C = deletable_child [OF RBranch.prems(6,2) [unfolded ts(1) x]]
  have ix: "index (key_nibbles key) (walk_depth pre) = Ok x" by (rule index_head) (use D(3) x in simp)
  have ic: "index cs (unat x) = Ok (cs ! unat x)" using C(1) ts(2) by (simp add: index_def)
  show ?case
  proof (cases "cs ! unat x")
    case None
    then have "ts ! unat x = None" using ts(4) [OF C(1)] by simp
    moreover have "cs[unat x := None] = cs" using None by (metis list_update_id)
    ultimately show ?thesis
      unfolding delete_ram_RBranch using ix ic None ts(1,3) x C(1) RBranch.prems(5)
      by (simp add: delete_in_child_def ndel_post_def spec_del0_def)
  next
    case (Some c)
    from frep_slot [OF ts(4,2,3) C(1) Some] obtain u where
      u: "ts ! unat x = Some u" "crep P M c (pre @ [word_of_nat (unat x)]) u" "Some u \<in> set ts" "Some c \<in> set cs" .
    note CI = C(3) [OF u(1)]
    have "distinct (cptrs c)" using RBranch.prems(4) slots_ptrs_split [of "unat x" cs] C(1) ts(2) Some by auto
    moreover have "mem_ok_child c" using RBranch.prems(3) u(4) by simp
    ultimately have "fspec (delete_child P cfg c (pre @ [x]) key op ram) f (cdel_post Z P M c (pre @ [x]) u k' op)"
      using RBranch.IH [of "Some c" c, OF _ _ _ conjunct2 [OF CI] C(2) _ _ RBranch.prems(5) conjunct1 [OF CI], of ram] u by simp
    then show ?thesis
      unfolding delete_ram_RBranch ts(1) x using ix ic Some
      by (simp add: delete_in_child_def del: Let_def)
        (erule fspec_mono, clarify, rule delete_branch_rep [OF RBranch.prems(1,2,6) [unfolded ts(1) x] RBranch.prems(3-5) Some u(1)])
  qed
next
  case (RRam n)
  note D = deletableD [OF RRam.prems(7)]
  have N: "fspec (delete_ram P cfg n pre key op ram) f (ndel_post Z P M n pre r t k op)"
    using RRam.IH [OF _ wf_wfb [OF RRam.prems(2)] _ _ RRam.prems(6,7)] RRam.prems(1,4,5) by simp
  show ?case
    by simp (rule fspec_mono [OF N], clarify, rule delete_ram_child [OF K T RRam.prems(2,3,7)])
next
  case (RDisk ptr root)
  note D = deletableD [OF RDisk.prems(7)]
  from delete_disk_rep [OF K T RDisk.prems(6,1,2) D(1) RDisk.prems(3) D(2,3)] show ?case by simp
next
  case (RMem bs root)
  note D = deletableD [OF RMem.prems(7)]
  from delete_mem_rep [OF K T RMem.prems(6,1,2) D(1) RMem.prems(3,4) D(2,3)] show ?case by simp
next
  case (RAccount p no b co st)
  have "fspec (delete_ram P cfg st (pre @ p) skey DelValue False) f (ndel_post Z P M st (pre @ p) 64 s (key_nibbles skey) DelValue)"
    if "deletable (pre @ p) s 64 skey DelValue (key_nibbles skey)" "wfb s 64" "frep P M st (pre @ p) s" for skey s
    using RAccount.IH [OF that(3,2) _ _ RAccount.prems(6) that(1)] RAccount.prems(4,5) by simp
  from delete_account_rep [OF K T RAccount.prems(6,1,2,7) _ this, of ram] show ?case using RAccount.prems(5) by simp
qed

end
