(* ===== verification/FrontierDb.thy ===== *)
theory FrontierDb
  imports FrontierDelete
begin

text \<open>
  The database: the frontier over the record file. \<open>db_inv\<close> is the invariant of
  its states, with the trie the state stands for; the operations refine updates
  of the contents of that trie, and every history of operations refines the
  same history of updates of a map.
\<close>

section \<open>The updated trie\<close>

lemma wfb_cases:
  assumes "wfb t r"
  obtains "t = TEmpty" | "wf t r" | ts where "t = TBranch ts"
  using assms by (cases t) (auto simp: wfb_def)

lemma wfb_branch_child:
  assumes "wfb (TBranch ts) r" and "ts ! i = Some u" and "i < 16"
  shows "wf u (r - 1)" and "Some u \<in> set ts"
  using assms nth_mem [of i ts] by auto

lemma branch_key:
  assumes "wfb (TBranch ts) r" and "length k = r" and "nibs_ok k"
  obtains x k' where "k = x # k'" and "unat x < 16" and "length k' = r - 1" and "nibs_ok k'" and "length ts = 16"
  using assms nibble_unat by (cases k) auto

lemma tlook_branch_update:
  assumes "length ts = 16" and "unat x < 16" and "\<And>k''. tlook (slot_trie s) k'' = ((tlook (slot_trie (ts ! unat x)))(k' := v)) k''"
  shows "tlook (TBranch (ts[unat x := s])) = (tlook (TBranch ts))(x # k' := v)"
proof
  fix q
  show "tlook (TBranch (ts[unat x := s])) q = ((tlook (TBranch ts))(x # k' := v)) q"
  proof (cases q)
    case (Cons y q')
    show ?thesis
    proof (cases "y = x")
      case True
      then show ?thesis using Cons assms(1,2) assms(3) [of q'] by (cases s; cases "ts ! unat x") auto
    next
      case False
      then have "unat y \<noteq> unat x" by (simp add: word_unat_eq_iff)
      then show ?thesis using False Cons assms(1) by simp
    qed
  qed simp
qed

lemma fput_facts:
  assumes "wfb t r" and "0 < r" and "length k = r" and "nibs_ok k" and "leaf_ok l"
  shows "tlook (fput t k l) = (tlook t)(k \<mapsto> l)" and "wfb (fput t k l) r"
proof -
  have "tlook (fput t k l) = (tlook t)(k \<mapsto> l) \<and> wfb (fput t k l) r"
    using assms(1)
  proof (cases rule: wfb_cases)
    case 1
    have "wfb (TBranch (replicate 16 None)) r" using assms(2) by auto
    from branch_key [OF this assms(3,4)] obtain x k' where k: "k = x # k'" "unat x < 16" "length k' = r - 1" "nibs_ok k'" .
    have "tlook (TBranch ((replicate 16 None)[unat x := Some (mk_leaf k' l)])) = (tlook (TBranch (replicate 16 None)))(x # k' \<mapsto> l)"
      using k(2) by (intro tlook_branch_update) auto
    moreover have "tlook (TBranch (replicate 16 None)) = tlook TEmpty"
    proof
      fix q show "tlook (TBranch (replicate 16 None)) q = tlook TEmpty q" by (cases q) auto
    qed
    moreover have "set ((replicate 16 None)[unat x := Some (mk_leaf k' l)]) \<subseteq> {Some (mk_leaf k' l), None}"
      using set_update_subset_insert [of "replicate 16 None" "unat x" "Some (mk_leaf k' l)"] by auto
    ultimately show ?thesis using 1 k assms(2,5) by (auto simp: fput_def)
  next
    case 2
    then have "t \<noteq> TEmpty" by auto
    then show ?thesis using wf_tput [OF 2 assms(3-5)] tlook_tput [OF 2 assms(3,4)] wf_wfb by (simp add: fput_def)
  next
    case (3 ts)
    from branch_key [OF assms(1) [unfolded 3] assms(3,4)] obtain x k' where
      k: "k = x # k'" "unat x < 16" "length k' = r - 1" "nibs_ok k'" "length ts = 16" .
    let ?s = "slot_trie (ts ! unat x)"
    have f: "fput t k l = TBranch (ts[unat x := Some (tput ?s k' l)])"
      using 3 k by (auto simp: fput_def split: option.splits)
    have w: "wf (tput ?s k' l) (r - 1)" and tl: "tlook (tput ?s k' l) = (tlook ?s)(k' \<mapsto> l)"
      using wfb_branch_child [OF assms(1) [unfolded 3], of "unat x"] k assms(5) wf_tput [of _ "r - 1" k' l] tlook_tput [of _ "r - 1" k' l]
      by (auto split: option.splits simp: fun_eq_iff)
    have "tlook (TBranch (ts[unat x := Some (tput ?s k' l)])) = (tlook (TBranch ts))(x # k' \<mapsto> l)"
      using tl by (intro tlook_branch_update [OF k(5,2)]) simp
    moreover have "wfb (TBranch (ts[unat x := Some (tput ?s k' l)])) r"
      using assms(1) 3 w set_update_subset_insert [of ts "unat x" "Some (tput ?s k' l)"] by auto
    ultimately show ?thesis using f 3 k(1) by simp
  qed
  then show "tlook (fput t k l) = (tlook t)(k \<mapsto> l)" "wfb (fput t k l) r" by auto
qed

definition del_map :: "(nibs \<rightharpoonup> leaf) \<Rightarrow> nibs \<Rightarrow> del_out \<Rightarrow> (nibs \<rightharpoonup> leaf)" where
  "del_map m k o' = (case o' of DKeep \<Rightarrow> m | DUpdate l \<Rightarrow> m(k \<mapsto> l) | DRemove \<Rightarrow> m(k := None))"

lemma del_map_leaf: "del_map m k o' = m(k := del_leaf (m k) o')"
  by (cases o') (auto simp: del_map_def del_leaf_def)

lemma dres_facts:
  assumes "wf t r" and "length k = r" and "nibs_ok k" and "\<And>l. o' = DUpdate l \<Longrightarrow> leaf_ok l"
  shows "tlook (dres t k o') = del_map (tlook t) k o'" and "wf0 (dres t k o') r"
  using assms wf_tput [OF assms(1-3)] tlook_tput [OF assms(1-3)] wf_tdel [OF assms(1-3)] tlook_tdel [OF assms(1-3)]
  by (cases o'; auto simp: del_map_def wf0_def)+

lemma fdres_facts:
  assumes w: "wfb t r" and k: "length k = r" "nibs_ok k" and lo: "\<And>l. o' = DUpdate l \<Longrightarrow> leaf_ok l"
    and o': "o' = DKeep \<or> tlook t k \<noteq> None" and sh: "shallow t d"
  shows "tlook (fdres t k o') = del_map (tlook t) k o'" and "wfb (fdres t k o') r" and "shallow (fdres t k o') d"
proof -
  have "tlook (fdres t k o') = del_map (tlook t) k o' \<and> wfb (fdres t k o') r \<and> shallow (fdres t k o') d"
    using w
  proof (cases rule: wfb_cases)
    case 1
    then have "o' = DKeep" using o' by simp
    then show ?thesis using 1 w by (simp add: del_map_def)
  next
    case 2
    have "shallow (dres t k o') d"
      using o' sh shallow_tput_present [OF 2 k] shallow_tdel [OF 2 k] by (cases o') auto
    moreover have "wf0 (dres t k o') r" by (rule dres_facts(2) [OF 2 k lo])
    then have "wfb (dres t k o') r" using wf_wfb by (auto simp: wf0_def)
    moreover have "tlook (dres t k o') = del_map (tlook t) k o'" by (rule dres_facts(1) [OF 2 k lo])
    ultimately show ?thesis using fdres_wf [OF 2 k] by simp
  next
    case (3 ts)
    from branch_key [OF w [unfolded 3] k] obtain x k' where
      x: "k = x # k'" "unat x < 16" "length k' = r - 1" "nibs_ok k'" "length ts = 16" .
    show ?thesis
    proof (cases "o' = DKeep")
      case True
      then show ?thesis using w sh by (simp add: del_map_def)
    next
      case False
      then obtain u where u: "ts ! unat x = Some u" "tlook u k' \<noteq> None" using o' 3 x by (auto split: option.splits)
      note wu = wfb_branch_child [OF w [unfolded 3] u(1) x(2)]
      have D: "tlook (dres u k' o') = del_map (tlook u) k' o'" "wf0 (dres u k' o') (r - 1)"
        by (rule dres_facts(1) [OF wu(1) x(3,4) lo], assumption) (rule dres_facts(2) [OF wu(1) x(3,4) lo])
      have su: "shallow (dres u k' o') (d + 1)"
        using sh 3 wu u(2) shallow_tput_present [OF wu(1) x(3,4)] shallow_tdel [OF wu(1) x(3,4)] by (cases o') auto
      let ?s = "opt_trie (dres u k' o')"
      have sl: "slot_trie ?s = dres u k' o'" by (simp add: opt_trie_def)
      have tl: "tlook (TBranch (ts[unat x := ?s])) = del_map (tlook t) k o'"
      proof -
        have "tlook (slot_trie ?s) q = ((tlook (slot_trie (ts ! unat x)))(k' := del_map (tlook u) k' o' k')) q" for q
          unfolding sl D(1) using u(1) False by (cases o') (auto simp: del_map_def)
        from tlook_branch_update [OF x(5,2) this] show ?thesis
          unfolding x(1) 3 using False by (cases o') (simp_all add: del_map_def)
      qed
      have sub: "set (ts[unat x := ?s]) \<subseteq> insert ?s (set ts)" by (rule set_update_subset_insert)
      have wb: "wfb (TBranch (ts[unat x := ?s])) r" using w 3 sub D(2) by (auto simp: wf0_def opt_trie_def split: if_splits)
      have sb: "shallow (TBranch (ts[unat x := ?s])) d" using sh 3 sub su by (auto simp: opt_trie_def split: if_splits)
      have l: "length (ts[unat x := ?s]) = 16" using x(5) by simp
      have "u \<noteq> TEmpty" using wu(1) by auto
      show ?thesis
      proof (cases "dres u k' o' = TEmpty")
        case True
        then have dr: "o' = DRemove" using False \<open>u \<noteq> TEmpty\<close> tput_nonempty by (cases o') auto
        have e: "fdres t k o' = collapse (ts[unat x := ?s])" using True dr 3 x u(1) by (simp add: fdel_def opt_trie_def)
        have "wf0 (collapse (ts[unat x := ?s])) r" using wb by (intro wf_collapse [OF l]) auto
        then show ?thesis unfolding e using tl tlook_collapse [OF l] shallow_collapse [OF l sb] wf_wfb by (auto simp: wf0_def)
      next
        case ne: False
        then have "fdres t k o' = TBranch (ts[unat x := ?s])"
          using False 3 x u(1) by (cases o') (simp_all add: fdel_def opt_trie_def)
        then show ?thesis using tl wb sb by simp
      qed
    qed
  qed
  then show "tlook (fdres t k o') = del_map (tlook t) k o'" "wfb (fdres t k o') r" "shallow (fdres t k o') d" by auto
qed

section \<open>Rebuilding a collapsed root\<close>

lemma promote_lifts:
  assumes "keccak_len P" and "repr P n t" and "sp n" and "\<not> is_raw n" and "wf t 64" and "placed [] t 64"
  shows "lifts Z P (promote_record_to_ram P cfg REC_FUEL) [] n t"
  using sound_uptoD [OF conjunct1 [OF promote_all [OF assms(1), of Z cfg REC_FUEL]] assms(2-4) _ assms(6)] assms(5)
    pfuel_bound [OF placed_depth(3) [OF assms(6)]] by (simp add: wf0_def REC_FUEL_def)

lemma collapse_root_rep:
  assumes K: "keccak_len P" and F: "ff_rel Z f M" and s: "survives P M [] 64 e c t"
  shows "fspec (collapse_root P cfg e c) f (\<lambda>n f'. \<exists>M'. ff_rel Z f' M' \<and> swaps M M' (cptrs c) (fptrs n) \<and> frep P M' n [] t)"
proof -
  obtain u where u: "t = tprep e u" "e \<noteq> []" "nibs_ok e" "length e \<le> 64" "wf u (64 - length e)" "placed e u (64 - length e)"
    "length e \<noteq> 64" "crep P M c e u" "mem_ok_child c" "\<And>m. c \<noteq> RRam m"
    using s by auto
  have tp: "wf t 64" "placed [] t 64"
    using survivor_placed [of "[]" 64 u e] u by auto
  have r': "64 - length e \<le> 64" by simp
  note dp = placed_depth(3) [OF u(6)]
  have lift: "fspec (promote_record_to_ram P cfg REC_FUEL \<lparr>ds_prefix = [], ds_node = n\<rparr>) f1
      (\<lambda>c' f'. fspec (case c' of RRam r \<Rightarrow> fret r | _ \<Rightarrow> flift (Err (Panic ''promote_record_to_ram returns a Ram node''))) f'
        (\<lambda>n f'. \<exists>M'. ff_rel Z f' M' \<and> swaps M M' (cptrs c) (fptrs n) \<and> frep P M' n [] t))"
    if n: "repr P n t" "sp n" "\<not> is_raw n" and M1: "ff_rel Z f1 M1" "swaps M M1 (cptrs c) []" for n f1 M1
  proof -
    have "fspec (promote_record_to_ram P cfg REC_FUEL \<lparr>ds_prefix = [], ds_node = n\<rparr>) f1
       (\<lambda>c f'. \<exists>m M'. c = RRam m \<and> t \<noteq> TEmpty \<and> ff_rel Z f' M' \<and> swaps M1 M' [] (fptrs m) \<and> frep P M' m [] t)"
      using promote_lifts [OF K n tp] M1(1) by (auto simp: lifts_def)
    then show ?thesis by (rule fspec_mono) (clarsimp, use swaps_trans [OF M1(2)] in blast)
  qed
  show ?thesis
  proof (cases c)
    case (RDisk ptr root)
    obtain n where n: "read_lazy P f ptr = Ok \<lparr>ds_prefix = e, ds_node = n\<rparr>" "repr P n u" "sp n"
      using disk_read [OF K u(5) dp rel_readable [OF F] u(8) [unfolded RDisk]] by blast
    obtain n' where n': "prepend_path P n e = Ok n'" "repr P n' t" "sp n'" "\<not> is_raw n'"
      using prepended [OF K n(2,3) u(5) r' u(2)] u(1) by metis
    have "M ptr = Some (nib_path e @ enc P u)" using u(8) RDisk by simp
    note fr = free_rel [OF F this]
    have rd: "fspec (fread_lazy P ptr) f Q = Q \<lparr>ds_prefix = e, ds_node = n\<rparr> f" for Q
      using n(1) by (simp add: fspec_def fread_lazy_def)
    have fe: "fspec (ffree ptr) f Q = Q () (ff_free f ptr)" for Q
      by (simp add: fspec_def ffree_def)
    from lift [OF n'(2-4) fr] show ?thesis
      using n'(1) RDisk swaps_drop [of M ptr] by (simp add: collapse_root_def Let_def rd fe)
  next
    case (RMem bs root)
    obtain n where n: "parse_payload_lazy P bs = Ok \<lparr>ds_prefix = e, ds_node = n\<rparr>" "repr P n u" "sp n"
      using mem_read [OF K u(5) dp u(8) [unfolded RMem] u(9) [unfolded RMem]] by blast
    obtain n' where n': "prepend_path P n e = Ok n'" "repr P n' t" "sp n'" "\<not> is_raw n'"
      using prepended [OF K n(2,3) u(5) r' u(2)] u(1) by metis
    from lift [OF n'(2-4) F] show ?thesis
      using n(1) n'(1) RMem swaps_nil [of M] by (auto simp: collapse_root_def Let_def)
  next
    case (RAccount p no b co st)
    then show ?thesis by (simp add: collapse_root_def)
  qed (use u(10) in auto)
qed

section \<open>The database invariant\<close>

text \<open>
  The frontier stands for \<open>t\<close>; every live record of the file belongs to exactly
  one place of the frontier, or is a copy that a pending relocation made.
\<close>

definition owned :: "frozen \<Rightarrow> (disk_ptr \<rightharpoonup> bytes) \<Rightarrow> disk_ptr list \<Rightarrow> bool" where
  "owned Z M A = (dom M = set A \<union> dom (fz_copies Z) \<and> set A \<inter> dom (fz_copies Z) = {} \<and> fz_copies Z \<subseteq>\<^sub>m M)"

lemma owned_none: "fz_copies Z = Map.empty \<Longrightarrow> owned Z M A = (dom M = set A)"
  by (simp add: owned_def)

lemma copies_none [simp]: "fz_copies fz_none = Map.empty"
  by (simp add: fz_none_def)

definition db_inv :: "frozen \<Rightarrow> prims \<Rightarrow> flat_file \<Rightarrow> flat_mpt \<Rightarrow> trie \<Rightarrow> bool" where
  "db_inv Z P f db t = (\<exists>M. ff_rel Z f M \<and> frep P M (db_upper db) [] t \<and> wfb t 64 \<and> shallow t 0 \<and>
     distinct (fptrs (db_upper db)) \<and> owned Z M (fptrs (db_upper db)))"

lemma placed_root: "shallow t 0 \<Longrightarrow> placed [] t 64"
  by (simp add: placed_def)

lemma walk_depth_Nil [simp]: "walk_depth [] = 0"
  by (simp add: walk_depth_def)

lemma db_root_inv:
  assumes "ff_rel Z f M" and "frep P M u [] t" and "wfb t 64" and "shallow t 0" and "distinct (fptrs u)" and "owned Z M (fptrs u)"
  shows "\<exists>db'. db_root P (db\<lparr>db_upper := u\<rparr>) = Ok (fh P u, db') \<and> db_inv Z P f db' t \<and> db_cfg db' = db_cfg db \<and>
    db_ram db' = db_ram db \<and> (mem_ok (db_upper db') = mem_ok u)"
proof -
  obtain u' where u': "hash_ram P u = Ok (fh P u, u')" "frep P M u' [] t" "fptrs u' = fptrs u" "mem_ok u' = mem_ok u"
    using hash_ram_frep(1) [OF assms(2)] by blast
  have "db_inv Z P f (db\<lparr>db_upper := u'\<rparr>) t"
    unfolding db_inv_def using assms u' by (intro exI [of _ M]) simp
  then show ?thesis using u' by (simp add: db_root_def)
qed

lemma swaps_owned:
  assumes "swaps M M' A B" and "owned Z M A"
  shows "distinct B \<and> owned Z M' B"
proof -
  have d: "dom M' = (dom M - set A) \<union> set B" "set B \<inter> (dom M - set A) = {}" "distinct B"
    and k: "\<And>p x. M p = Some x \<Longrightarrow> p \<notin> set A \<Longrightarrow> M' p = Some x" using assms(1) by (auto simp: swaps_def)
  have c: "dom M = set A \<union> dom (fz_copies Z)" "set A \<inter> dom (fz_copies Z) = {}" "fz_copies Z \<subseteq>\<^sub>m M"
    using assms(2) by (auto simp: owned_def)
  have "M' p = fz_copies Z p" if p: "p \<in> dom (fz_copies Z)" for p
  proof -
    obtain x where x: "fz_copies Z p = Some x" using p by blast
    then have "M p = Some x" using c(3) p by (simp add: map_le_def)
    then show ?thesis using k x p c(2) by auto
  qed
  then have "fz_copies Z \<subseteq>\<^sub>m M'" by (simp add: map_le_def)
  moreover have "dom M - set A = dom (fz_copies Z)" using c(1,2) by auto
  ultimately show ?thesis using d unfolding owned_def by auto
qed

lemma wfb_leaf_ok:
  assumes "wfb t 64" and "length k = 64" and "nibs_ok k" and x: "tlook t k = Some x"
  shows "leaf_ok x"
  using assms(1)
proof (cases rule: wfb_cases)
  case (3 ts)
  from branch_key [OF assms(1) [unfolded 3] assms(2,3)] obtain y k' where
    y: "k = y # k'" "unat y < 16" "length k' = 63" "nibs_ok k'" "length ts = 16" by auto
  then obtain v where "ts ! unat y = Some v" "tlook v k' = Some x" using x 3 by (auto split: option.splits)
  then show ?thesis using wfb_branch_child [OF assms(1) [unfolded 3] _ y(2)] tlook_leaf_ok by blast
qed (use x tlook_leaf_ok in auto)

lemma insert_op_rep:
  assumes K: "keccak_len P" and T: "decode_typed P" and key: "length key = 32" "op_ok op" and I: "db_inv Z P f db t"
    and m: "mem_ok (db_upper db)" and sh: "\<And>l. shallow (fput t (key_nibbles key) l) 0"
  shows "fspec (insert_op P db key op) f (\<lambda>(h, db') f'. \<exists>l. spec_op P (tlook t (key_nibbles key)) op = Ok l \<and>
    db_inv Z P f' db' (fput t (key_nibbles key) l) \<and> (hashed P (fput t (key_nibbles key) l) \<longrightarrow> h = troot P (fput t (key_nibbles key) l)) \<and>
    tlook (fput t (key_nibbles key) l) = (tlook t)(key_nibbles key \<mapsto> l))"
proof -
  let ?k = "key_nibbles key"
  obtain M where M: "ff_rel Z f M" "frep P M (db_upper db) [] t" "wfb t 64" "shallow t 0" "distinct (fptrs (db_upper db))"
    "owned Z M (fptrs (db_upper db))" using I by (auto simp: db_inv_def)
  have k: "length ?k = 64" "nibs_ok ?k" using key by auto
  have ins: "insertable [] t 64 key op ?k"
    using placed_root [OF M(4)] key sh by (simp add: insertable_def routed_def)
  show ?thesis
    unfolding insert_op_def fspec_bind
  proof (rule fspec_mono [OF insert_rep(1) [OF K T M(2,3) _ m M(5,1) ins]])
    fix u f'
    assume "node_post Z P M (db_upper db) [] t ?k op u f'"
    then obtain l M' where M': "spec_op P (tlook t ?k) op = Ok l" "ff_rel Z f' M'" "swaps M M' (fptrs (db_upper db)) (fptrs u)"
      "frep P M' u [] (fput t ?k l)" by (auto simp: node_post_def)
    have lo: "leaf_ok l" using leaf_ok_spec_op [OF M'(1) key(2) T] wfb_leaf_ok [OF M(3) k] by blast
    note FF = fput_facts [OF M(3) _ k lo]
    have ow: "distinct (fptrs u)" "owned Z M' (fptrs u)" using swaps_owned [OF M'(3) M(6)] by auto
    obtain db' where "db_root P (db\<lparr>db_upper := u\<rparr>) = Ok (fh P u, db')" "db_inv Z P f' db' (fput t ?k l)"
      using db_root_inv [OF M'(2,4) FF(2) sh ow] by auto
    then show "fspec (flift (db_root P (db\<lparr>db_upper := u\<rparr>))) f' (\<lambda>(h, db') f'. \<exists>l. spec_op P (tlook t ?k) op = Ok l \<and>
      db_inv Z P f' db' (fput t ?k l) \<and> (hashed P (fput t ?k l) \<longrightarrow> h = troot P (fput t ?k l)) \<and> tlook (fput t ?k l) = (tlook t)(?k \<mapsto> l))"
      using M'(1) fh_troot(1) [OF M'(4)] FF(1) by auto
  qed simp
qed

lemma spec_del_present: "spec_del0 P lo op = Ok o' \<Longrightarrow> o' = DKeep \<or> lo \<noteq> None"
  by (auto simp: spec_del0_def split: option.splits)

lemma delete_op_rep:
  assumes K: "keccak_len P" and T: "decode_typed P" and key: "length key = 32" "del_ok op" and I: "db_inv Z P f db t"
    and m: "mem_ok (db_upper db)"
  shows "fspec (delete_op_db P db key op) f (\<lambda>(h, db') f'. \<exists>o' t'. spec_del0 P (tlook t (key_nibbles key)) op = Ok o' \<and>
    tlook t' = del_map (tlook t) (key_nibbles key) o' \<and> db_inv Z P f' db' t' \<and> (hashed P t' \<longrightarrow> h = troot P t'))"
    (is "fspec _ _ ?Q")
proof -
  let ?k = "key_nibbles key"
  obtain M where M: "ff_rel Z f M" "frep P M (db_upper db) [] t" "wfb t 64" "shallow t 0" "distinct (fptrs (db_upper db))"
    "owned Z M (fptrs (db_upper db))" using I by (auto simp: db_inv_def)
  have k: "length ?k = 64" "nibs_ok ?k" using key by auto
  have del: "deletable [] t 64 key op ?k" using placed_root [OF M(4)] key by (simp add: deletable_def droute_def)
  have fin: "fspec (flift (db_root P (db\<lparr>db_upper := u\<rparr>))) f' ?Q"
    if o': "spec_del0 P (tlook t ?k) op = Ok o'" and f: "ff_rel Z f' M'" "frep P M' u [] (fdres t ?k o')"
      and ow: "swaps M M' (fptrs (db_upper db)) (fptrs u)" for u f' o' M'
  proof -
    have lo: "leaf_ok l" if "o' = DUpdate l" for l
      using spec_del_leaf_ok [OF o' [unfolded that] T] wfb_leaf_ok [OF M(3) k] key(2) by blast
    note FF = fdres_facts [OF M(3) k lo spec_del_present [OF o'] M(4)]
    have ow': "distinct (fptrs u)" "owned Z M' (fptrs u)" using swaps_owned [OF ow M(6)] by auto
    obtain db' where "db_root P (db\<lparr>db_upper := u\<rparr>) = Ok (fh P u, db')" "db_inv Z P f' db' (fdres t ?k o')"
      using db_root_inv [OF f FF(2,3) ow'] by auto
    then show ?thesis using o' FF(1) fh_troot(1) [OF f(2)] by auto
  qed
  show ?thesis
    unfolding delete_op_db_def fspec_bind
  proof (rule fspec_mono [OF delete_rep(1) [OF K T M(2,3) m M(5,1) del]], clarify)
    fix u out f1
    assume "ndel_post Z P M (db_upper db) [] 64 t ?k op (u, out) f1"
    then obtain o' where o': "spec_del0 P (tlook t ?k) op = Ok o'" and po: "if o' = DKeep then (u, out) = (db_upper db, RAbsent) \<and> ff_rel Z f1 M
        else \<exists>M'. ff_rel Z f1 M' \<and> ndel_out P M M' (fptrs (db_upper db)) [] 64 (fdres t ?k o') u out"
      unfolding ndel_post_def fst_conv snd_conv by blast
    show "fspec (fbind (case out of RAbsent \<Rightarrow> fret u | RChanged \<Rightarrow> fret u | RRemoved \<Rightarrow> fret REmpty
         | RCollapsed edge survivor \<Rightarrow> collapse_root P (db_cfg db) edge survivor)
         (\<lambda>u. flift (db_root P (db\<lparr>db_upper := u\<rparr>)))) f1 ?Q"
    proof (cases "o' = DKeep")
      case True
      have "swaps M M (fptrs (db_upper db)) (fptrs (db_upper db))" using M(5,6) by (intro swaps_refl) (auto simp: owned_def)
      then show ?thesis using fin [OF o', of f1 M u] po True M(2) by simp
    next
      case False
      then obtain M' where M': "ff_rel Z f1 M'" "ndel_out P M M' (fptrs (db_upper db)) [] 64 (fdres t ?k o') u out" using po by auto
      show ?thesis
      proof (cases out)
        case (RCollapsed e c)
        have S: "swaps M M' (fptrs (db_upper db)) (cptrs c)" "survives P M' [] 64 e c (fdres t ?k o')"
          using M'(2) RCollapsed by (simp_all add: ndel_out_def del: survives.simps)
        have "fspec (collapse_root P (db_cfg db) e c) f1 (\<lambda>u f'. fspec (flift (db_root P (db\<lparr>db_upper := u\<rparr>))) f' ?Q)"
          by (rule fspec_mono [OF collapse_root_rep [OF K M'(1) S(2)]])
            (use fin [OF o'] swaps_trans [OF S(1)] in blast)
        then show ?thesis using RCollapsed by simp
      next
        case RRemoved
        then have "frep P M' REmpty [] (fdres t ?k o')" "swaps M M' (fptrs (db_upper db)) (fptrs REmpty)"
          using M'(2) by (simp_all add: ndel_out_def)
        then show ?thesis using fin [OF o' M'(1)] RRemoved by simp
      qed (use M' fin [OF o' M'(1)] in \<open>auto simp: ndel_out_def\<close>)
    qed
  qed
qed

section \<open>Keys that agree on all but the last nibble\<close>

text \<open>Two keys of which one would be a sibling of the other at the last nibble.\<close>

definition apart63 :: "(nibs \<rightharpoonup> leaf) \<Rightarrow> nibs \<Rightarrow> bool" where
  "apart63 m k = (\<forall>k'. m k' \<noteq> None \<longrightarrow> length k' = length k \<longrightarrow> butlast k' = butlast k \<longrightarrow> k' = k)"

lemma apart63D: "apart63 m k \<Longrightarrow> m k' \<noteq> None \<Longrightarrow> length k' = length k \<Longrightarrow> butlast k' = butlast k \<Longrightarrow> k' = k"
  unfolding apart63_def by blast

lemma shallow_ext_if: "shallow (ext_if p t) d = shallow t (d + length p)"
  by (simp add: ext_if_def)

lemma shallow_fork:
  assumes "shallow t (d + length p + 1)" and "shallow u (d + length p + 1)" and "d + length p \<noteq> 63"
  shows "shallow (fork p i t j u) d"
proof -
  let ?ts = "(replicate 16 None)[unat i := Some t, unat j := Some u]"
  have "set ?ts \<subseteq> {None, Some t, Some u}" by (auto dest!: subsetD [OF set_update_subset_insert])
  then show ?thesis using assms unfolding fork_def shallow_ext_if by auto
qed

lemma shallow_leaf_put:
  assumes "length p = r" and "length k = r" and "d + r = 64" and "butlast p = butlast k \<Longrightarrow> p = k"
  shows "shallow (leaf_put p old k l) d"
proof (cases "common_prefix p k = length p")
  case False
  let ?c = "common_prefix p k"
  have c: "?c < length p" "?c < length k" using False common_prefix_le1 [of p k] assms(1,2) by auto
  have "d + ?c \<noteq> 63"
  proof
    assume "d + ?c = 63"
    then have e: "?c = r - 1" "0 < r" using assms(3) c by auto
    have "butlast p = butlast k"
      using common_prefix_take [of p k] e assms(1,2) by (simp add: butlast_conv_take)
    then have "p = k" by (rule assms(4))
    then show False using False common_prefix_full [of p k] by simp
  qed
  then show ?thesis using False c by (auto simp: leaf_put_def Let_def min_def intro!: shallow_fork)
qed (simp add: leaf_put_def)

lemma apart63_sub:
  assumes "apart63 (tlook t) (p @ k)" and "\<And>q. tlook t (p @ q) = tlook u q" and "k \<noteq> []"
  shows "apart63 (tlook u) k"
  unfolding apart63_def
proof (intro allI impI)
  fix k'
  assume k': "tlook u k' \<noteq> None" "length k' = length k" "butlast k' = butlast k"
  have "k' \<noteq> []" using k'(2) assms(3) by auto
  then have "butlast (p @ k') = butlast (p @ k)" using k'(3) assms(3) by (simp add: butlast_append)
  then show "k' = k" using apart63D [OF assms(1), of "p @ k'"] k'(1,2) assms(2) [of k'] by simp
qed

lemma shallow_tput:
  "wf t r \<Longrightarrow> length k = r \<Longrightarrow> nibs_ok k \<Longrightarrow> d + r = 64 \<Longrightarrow> shallow t d \<Longrightarrow> apart63 (tlook t) k \<Longrightarrow> shallow (tput t k l) d"
proof (induction t arbitrary: r k d)
  case (TLeaf p v)
  have "p = k" if "butlast p = butlast k" using apart63D [OF TLeaf.prems(6), of p] that TLeaf.prems by simp
  then show ?case using TLeaf.prems by (auto intro!: shallow_leaf_put)
next
  case (TAcct p n b c s)
  have "p = k" if "butlast p = butlast k" using apart63D [OF TAcct.prems(6), of p] that TAcct.prems by simp
  then show ?case using TAcct.prems by (auto intro!: shallow_leaf_put)
next
  case (TExt p t)
  have w: "wf t (r - length p)" "length p < r" using TExt.prems(1) by auto
  show ?case
  proof (cases "common_prefix p k = length p")
    case True
    then obtain k' where k: "k = p @ k'" by (auto simp: common_prefix_full take_drop_iff)
    have "apart63 (tlook t) k'" 
      by (rule apart63_sub [OF TExt.prems(6) [unfolded k]]) (use TExt.prems(2) w k in auto)
    then have "shallow (tput t k' l) (d + length p)" using TExt.IH [OF w(1), of k' "d + length p"] TExt.prems k w(2) by auto
    then show ?thesis using k True by simp
  next
    case False
    have c: "common_prefix p k < length p" using False common_prefix_le1 [of p k] by simp
    let ?c = "common_prefix p k"
    have q: "length (take ?c p) = ?c" using c by simp
    have "shallow (fork (take ?c p) (p ! ?c) (ext_if (drop (Suc ?c) p) t) (k ! ?c) (mk_leaf (drop (Suc ?c) k) l)) d"
    proof (rule shallow_fork)
      have e: "d + ?c + 1 + (length p - Suc ?c) = d + length p" using c by simp
      show "shallow (ext_if (drop (Suc ?c) p) t) (d + length (take ?c p) + 1)"
        unfolding q shallow_ext_if length_drop e using TExt.prems(5) by simp
      show "d + length (take ?c p) \<noteq> 63" unfolding q using c w(2) TExt.prems(4) by simp
    qed simp
    then show ?thesis using False by (simp add: Let_def)
  qed
next
  case (TBranch ts)
  then obtain x k' where k: "k = x # k'" by (cases k) auto
  have x: "unat x < 16" using TBranch.prems(3) k nibble_unat by auto
  have l: "length ts = 16" using TBranch.prems(1) by auto
  have ne: "k' \<noteq> []" using TBranch.prems(2,4,5) k by auto
  have "shallow (case ts ! unat x of None \<Rightarrow> mk_leaf k' l | Some u \<Rightarrow> tput u k' l) (d + 1)"
  proof (cases "ts ! unat x")
    case (Some u)
    have m: "Some u \<in> set ts" using slot_mem [of "unat x" ts u] Some x l by simp
    have "apart63 (tlook u) k'" 
      by (rule apart63_sub [of "TBranch ts" "[x]"]) (use TBranch.prems(6) ne k x l Some in auto)
    then show ?thesis using TBranch.IH [OF m _, of u "r - 1" k' "d + 1"] TBranch.prems k m Some by auto
  qed simp
  moreover have "set (ts[unat x := v]) \<subseteq> insert v (set ts)" for v by (rule set_update_subset_insert)
  ultimately show ?case using TBranch.prems(5) k x l by (fastforce split: option.splits)
qed auto

lemma shallow_fput:
  assumes w: "wfb t 64" and k: "length k = 64" "nibs_ok k" and sh: "shallow t 0" and a: "apart63 (tlook t) k"
  shows "shallow (fput t k l) 0"
  using w
proof (cases rule: wfb_cases)
  case 1
  have "set ((replicate 16 None)[unat (hd k) := Some (mk_leaf (tl k) l)]) \<subseteq> {Some (mk_leaf (tl k) l), None}"
    using set_update_subset_insert [of "replicate 16 None" "unat (hd k)" "Some (mk_leaf (tl k) l)"] by auto
  then show ?thesis using 1 by (auto simp: fput_def)
next
  case 2
  then have "t \<noteq> TEmpty" by auto
  then show ?thesis using shallow_tput [OF 2 k _ sh a] by (simp add: fput_def)
next
  case (3 ts)
  from branch_key [OF w [unfolded 3] k] obtain x k' where
    x: "k = x # k'" "unat x < 16" "length k' = 64 - 1" "nibs_ok k'" "length ts = 16" .
  have ne: "k' \<noteq> []" using x(3) by auto
  have s: "shallow (case ts ! unat x of None \<Rightarrow> mk_leaf k' l | Some u \<Rightarrow> tput u k' l) (0 + 1)"
  proof (cases "ts ! unat x")
    case (Some u)
    note wu = wfb_branch_child [OF w [unfolded 3] Some x(2)]
    have "apart63 (tlook u) k'" 
      by (rule apart63_sub [of "TBranch ts" "[x]"]) (use a ne x Some 3 in auto)
    then show ?thesis using shallow_tput [OF wu(1) x(3,4), of 1] sh 3 wu(2) Some by auto
  qed simp
  let ?v = "Some (case ts ! unat x of None \<Rightarrow> mk_leaf k' l | Some u \<Rightarrow> tput u k' l)"
  have e: "fput t k l = TBranch (ts[unat x := ?v])" using 3 x by (simp add: fput_def split: option.splits)
  have "Some u \<in> set (ts[unat x := ?v]) \<Longrightarrow> shallow u (0 + 1)" for u
    using set_update_subset_insert [of ts "unat x" ?v] s sh 3 by auto
  then show ?thesis unfolding e by simp
qed

section \<open>When every reference is a hash\<close>

text \<open>
  The frontier embeds child references as 32-byte hashes. This is what Ethereum
  prescribes when no node of the trie encodes in under 32 bytes; RLP never
  shortens a byte string, so it is enough that the leaves are not small.
\<close>

definition rlp_keeps :: "prims \<Rightarrow> bool" where
  "rlp_keeps P = (\<forall>bs. length bs \<le> length (rlp_encode_bytes P bs))"

fun wide :: "prims \<Rightarrow> leaf \<Rightarrow> bool" where
  "wide P (LVal v) = (32 \<le> length v)"
| "wide P (LAcct n b c s) = (32 \<le> length (acct_value P n b c (troot P s)) \<and> hashed P s)"

lemma rlp_list_longer:
  assumes "x \<in> set xs" and "n \<le> length x"
  shows "n \<le> length (rlp_list P xs)"
proof -
  have "length x \<le> length (concat xs)" using assms(1) by (induction xs) auto
  then show ?thesis using assms(2) by (simp add: rlp_list_def)
qed

lemma rlp_string_keeps: "rlp_keeps P \<Longrightarrow> n \<le> length bs \<Longrightarrow> n \<le> length (rlp_string P bs)"
  by (auto simp: rlp_keeps_def rlp_string_def intro: order_trans)

lemma tref_hash: "32 \<le> length (trlp P t) \<Longrightarrow> t \<noteq> TEmpty \<Longrightarrow> tref P t = NHash (troot P t) \<and> length (embed P (tref P t)) = length (rlp_string P (keccak256 P (trlp P t)))"
  by (simp add: tref_trlp mk_ref_def troot_def)

lemma hash_embed:
  assumes "keccak_len P" and "rlp_keeps P" and "32 \<le> length (trlp P t)" and "t \<noteq> TEmpty"
  shows "32 \<le> length (embed P (tref P t))"
proof -
  have "32 \<le> length (rlp_string P (keccak256 P (trlp P t)))"
    using rlp_string_keeps [OF assms(2), of 32 "keccak256 P (trlp P t)"] assms(1) by (simp add: keccak_len_def)
  then show ?thesis using tref_hash [OF assms(3,4)] by metis
qed

lemma wide_hashed:
  assumes "keccak_len P" and "rlp_keeps P"
  shows "wf t r \<Longrightarrow> (\<And>k l. tlook t k = Some l \<Longrightarrow> wide P l) \<Longrightarrow> hashed P t \<and> 32 \<le> length (trlp P t)"
proof (induction t arbitrary: r)
  case (TLeaf p v)
  then have "32 \<le> length v" using TLeaf.prems(2) [of p "LVal v"] by simp
  then show ?case using rlp_string_keeps [OF assms(2)] by (auto intro!: rlp_list_longer)
next
  case (TAcct p n b c s)
  then have "wide P (LAcct n b c s)" using TAcct.prems(2) [of p "LAcct n b c s"] by simp
  then show ?case using rlp_string_keeps [OF assms(2)] by (auto simp: troot_def intro!: rlp_list_longer)
next
  case (TExt p t)
  have w: "wf t (r - length p)" "t \<noteq> TEmpty" using TExt.prems(1) by auto
  have "wide P l" if "tlook t k = Some l" for k l using TExt.prems(2) [of "p @ k" l] that by simp
  then have h: "hashed P t" "32 \<le> length (trlp P t)" using TExt.IH [OF w(1)] by blast+
  have "32 \<le> length (embed P (tref P t))" by (rule hash_embed [OF assms h(2) w(2)])
  then show ?case using h w tref_hash [of P t] by (auto intro: rlp_list_longer)
next
  case (TBranch ts)
  have l: "length ts = 16" using TBranch.prems(1) by simp
  have sub: "hashed P u" "32 \<le> length (trlp P u)" "u \<noteq> TEmpty" if u: "Some u \<in> set ts" for u
  proof -
    obtain i where i: "i < 16" "ts ! i = Some u" using u l by (metis in_set_conv_nth)
    have "wide P l" if "tlook u k = Some l" for k l
      using TBranch.prems(2) [of "word_of_nat i # k" l] that i l by (simp add: nibble_of_nat(2))
    moreover have "wf u (r - 1)" using TBranch.prems(1) u by simp
    ultimately show "hashed P u" "32 \<le> length (trlp P u)" "u \<noteq> TEmpty" using TBranch.IH [OF u, of u "r - 1"] by auto
  qed
  have "somes ts \<noteq> []" using TBranch.prems(1) by auto
  then obtain u where u: "Some u \<in> set ts" using set_somes [of ts] by (metis list.set_intros(1) mem_Collect_eq neq_Nil_conv)
  have "embed P (tref P u) \<in> set (slot_items P (map (map_option (tref P)) ts))"
    using u by (force simp: slot_items_def)
  moreover have "32 \<le> length (embed P (tref P u))" by (rule hash_embed [OF assms sub(2,3) [OF u]])
  ultimately have "32 \<le> length (trlp P (TBranch ts))" by (auto intro!: rlp_list_longer)
  then show ?case using sub tref_hash by auto
qed simp

lemma hashed_root:
  assumes "keccak_len P" and "rlp_keeps P" and "wfb t 64" and "\<And>k l. tlook t k = Some l \<Longrightarrow> wide P l"
  shows "hashed P t"
  using assms(3)
proof (cases rule: wfb_cases)
  case 2
  then show ?thesis using wide_hashed [OF assms(1,2) 2] assms(4) by blast
next
  case (3 ts)
  have l: "length ts = 16" using assms(3) 3 by simp
  have "hashed P u \<and> tref P u = NHash (troot P u)" if u: "Some u \<in> set ts" for u
  proof -
    obtain i where i: "i < 16" "ts ! i = Some u" using u l by (metis in_set_conv_nth)
    have "wide P l" if "tlook u k = Some l" for k l
      using assms(4) [of "word_of_nat i # k" l] 3 that i l by (simp add: nibble_of_nat(2))
    moreover have "wf u 63" using assms(3) 3 u by simp
    ultimately show ?thesis using wide_hashed [OF assms(1,2), of u 63] tref_hash [of P u] by (cases "u = TEmpty") auto
  qed
  then show ?thesis using 3 by simp
qed simp

lemma spread_wf:
  assumes "wfb t 64" and "tlook t k \<noteq> None" and "tlook t k' \<noteq> None" and "hd k \<noteq> hd k'"
  shows "wf t 64"
  using assms(1)
proof (cases rule: wfb_cases)
  case (3 ts)
  have l: "length ts = 16" using assms(1) 3 by simp
  obtain x u y v where x: "unat x < 16" "ts ! unat x = Some u" "hd k = x" "unat y < 16" "ts ! unat y = Some v" "hd k' = y"
    using assms(2,3) 3 l by (cases k; cases k') (auto split: option.splits if_splits)
  have "unat x \<noteq> unat y" using x assms(4) by (auto simp: word_unat_eq_iff)
  then have "2 \<le> length (somes ts)" using x by (cases rule: collapse_cases [OF l]) (auto, metis option.distinct(1))
  then show ?thesis using assms(1) 3 l by simp
qed (use assms(2) in auto)

section \<open>Histories\<close>

text \<open>The operations a client of the database issues, and what they do to a map.\<close>

datatype db_op = Put bytes leaf_op | Del bytes delete_op

fun op_key :: "db_op \<Rightarrow> bytes" where
  "op_key (Put key op) = key"
| "op_key (Del key op) = key"

fun op_run :: "prims \<Rightarrow> (nibs \<rightharpoonup> leaf) \<Rightarrow> db_op \<Rightarrow> (nibs \<rightharpoonup> leaf) res" where
  "op_run P m (Put key op) = res_map (\<lambda>l. m(key_nibbles key \<mapsto> l)) (spec_op P (m (key_nibbles key)) op)"
| "op_run P m (Del key op) = res_map (del_map m (key_nibbles key)) (spec_del0 P (m (key_nibbles key)) op)"

fun map_run :: "prims \<Rightarrow> (nibs \<rightharpoonup> leaf) \<Rightarrow> db_op list \<Rightarrow> (nibs \<rightharpoonup> leaf) res" where
  "map_run P m [] = Ok m"
| "map_run P m (op # ops) = res_bind (op_run P m op) (\<lambda>m'. map_run P m' ops)"

fun exec :: "prims \<Rightarrow> flat_mpt \<Rightarrow> db_op \<Rightarrow> (bytes \<times> flat_mpt) fm" where
  "exec P db (Put key op) = insert_op P db key op"
| "exec P db (Del key op) = delete_op_db P db key op"

fun request_ok :: "db_op \<Rightarrow> bool" where
  "request_ok (Put key op) = (length key = 32 \<and> op_ok op)"
| "request_ok (Del key op) = (length key = 32 \<and> del_ok op)"

text \<open>No two keys of the history are siblings at the last nibble.\<close>

definition spread :: "db_op list \<Rightarrow> bool" where
  "spread ops = (\<forall>a \<in> set ops. \<forall>b \<in> set ops.
     butlast (key_nibbles (op_key a)) = butlast (key_nibbles (op_key b)) \<longrightarrow> key_nibbles (op_key a) = key_nibbles (op_key b))"

definition db_new :: "config \<Rightarrow> bool \<Rightarrow> flat_mpt" where
  "db_new cfg ram = \<lparr>db_cfg = cfg, db_upper = REmpty, db_ram = ram, db_gc = 0\<rparr>"

inductive db_hist :: "prims \<Rightarrow> db_op list \<Rightarrow> bytes \<Rightarrow> flat_file \<Rightarrow> flat_mpt \<Rightarrow> bool" for P where
  h_empty: "db_hist P [] (empty_hash P) (ff_new direct) (db_new cfg ram)"
| h_exec: "db_hist P ops h f db \<Longrightarrow> request_ok op \<Longrightarrow> mem_ok (db_upper db) \<Longrightarrow>
    exec P db op f = (Ok (h', db'), f') \<Longrightarrow> db_hist P (ops @ [op]) h' f' db'"

lemma map_run_snoc: "map_run P m (ops @ [op]) = res_bind (map_run P m ops) (\<lambda>m'. op_run P m' op)"
proof (induction ops arbitrary: m)
  case (Cons a ops)
  then show ?case by (cases "op_run P m a") auto
qed (cases "op_run P m op", auto)

lemma op_run_keys:
  assumes "op_run P m op = Ok m'" and "m' k \<noteq> None"
  shows "m k \<noteq> None \<or> k = key_nibbles (op_key op)"
proof (cases op)
  case (Del key o')
  then obtain x where "m' = del_map m (key_nibbles key) x" using assms(1) by (auto simp: res_map_Ok)
  then show ?thesis using assms(2) Del by (cases x) (auto simp: del_map_def split: if_splits)
qed (use assms in \<open>auto simp: res_map_Ok split: if_splits\<close>)

lemma map_run_keys:
  "map_run P m ops = Ok m' \<Longrightarrow> m' k \<noteq> None \<Longrightarrow> m k \<noteq> None \<or> k \<in> (key_nibbles \<circ> op_key) ` set ops"
proof (induction ops arbitrary: m)
  case (Cons op ops)
  then obtain m1 where "op_run P m op = Ok m1" "map_run P m1 ops = Ok m'" by (cases "op_run P m op") auto
  then show ?case using Cons.IH [of m1] Cons.prems(2) op_run_keys [of P m op m1 k] by auto
qed simp

lemma spread_apart:
  assumes "spread (ops @ [op])" and "map_run P Map.empty ops = Ok m"
  shows "apart63 m (key_nibbles (op_key op))"
  unfolding apart63_def
proof (intro allI impI)
  fix k'
  assume "m k' \<noteq> None" and b: "butlast k' = butlast (key_nibbles (op_key op))"
  then obtain a where "a \<in> set ops" "k' = key_nibbles (op_key a)" using map_run_keys [OF assms(2)] by auto
  then show "k' = key_nibbles (op_key op)" using assms(1) b unfolding spread_def by auto
qed

lemma fspec_Ok: "fspec m f Q \<Longrightarrow> m f = (Ok x, f') \<Longrightarrow> Q x f'"
  by (simp add: fspec_def)

lemma exec_rep:
  assumes "keccak_len P" and "decode_typed P" and "request_ok op" and "db_inv Z P f db t" and "mem_ok (db_upper db)"
    and "apart63 (tlook t) (key_nibbles (op_key op))"
  shows "fspec (exec P db op) f (\<lambda>(h, db') f'. \<exists>t'. op_run P (tlook t) op = Ok (tlook t') \<and> db_inv Z P f' db' t' \<and>
    (hashed P t' \<longrightarrow> h = troot P t'))"
proof (cases op)
  case (Put key o')
  have k: "length (key_nibbles key) = 64" "nibs_ok (key_nibbles key)" using assms(3) Put by auto
  have w: "wfb t 64" "shallow t 0" using assms(4) by (auto simp: db_inv_def)
  have "fspec (insert_op P db key o') f (\<lambda>(h, db') f'. \<exists>l. spec_op P (tlook t (key_nibbles key)) o' = Ok l \<and>
    db_inv Z P f' db' (fput t (key_nibbles key) l) \<and> (hashed P (fput t (key_nibbles key) l) \<longrightarrow> h = troot P (fput t (key_nibbles key) l)) \<and>
    tlook (fput t (key_nibbles key) l) = (tlook t)(key_nibbles key \<mapsto> l))"
    using assms(3,6) Put by (intro insert_op_rep [OF assms(1,2) _ _ assms(4,5)] shallow_fput [OF w(1) k w(2)]) auto
  then show ?thesis unfolding Put exec.simps op_run.simps
    by (rule fspec_mono) (clarsimp, rule exI [of _ "fput t (key_nibbles key) l" for l], auto)
next
  case (Del key o')
  have "fspec (delete_op_db P db key o') f (\<lambda>(h, db') f'. \<exists>o'' t'. spec_del0 P (tlook t (key_nibbles key)) o' = Ok o'' \<and>
    tlook t' = del_map (tlook t) (key_nibbles key) o'' \<and> db_inv Z P f' db' t' \<and> (hashed P t' \<longrightarrow> h = troot P t'))"
    using assms(3) Del by (intro delete_op_rep [OF assms(1,2) _ _ assms(4,5)]) auto
  then show ?thesis unfolding Del exec.simps op_run.simps
    by (rule fspec_mono) (clarsimp, metis)
qed

lemma db_new_inv: "db_inv fz_none P (ff_new direct) (db_new cfg ram) TEmpty"
  unfolding db_inv_def db_new_def using new_rel [of direct] by (intro exI [of _ Map.empty]) (simp add: owned_none)

lemma db_hist_rep:
  assumes "keccak_len P" and "decode_typed P"
  shows "db_hist P ops h f db \<Longrightarrow> spread ops \<Longrightarrow> \<exists>t. map_run P Map.empty ops = Ok (tlook t) \<and> db_inv fz_none P f db t \<and>
    (hashed P t \<longrightarrow> h = troot P t)"
proof (induction rule: db_hist.induct)
  case (h_empty direct cfg ram)
  then show ?case using db_new_inv by (intro exI [of _ TEmpty]) (auto simp: troot_def)
next
  case (h_exec ops h f db op h' db' f')
  have "spread ops" using h_exec.prems by (auto simp: spread_def)
  then obtain t where t: "map_run P Map.empty ops = Ok (tlook t)" "db_inv fz_none P f db t" using h_exec.IH by auto
  have "fspec (exec P db op) f (\<lambda>(h, db') f'. \<exists>t'. op_run P (tlook t) op = Ok (tlook t') \<and> db_inv fz_none P f' db' t' \<and>
    (hashed P t' \<longrightarrow> h = troot P t'))"
    by (rule exec_rep [OF assms h_exec.hyps(2) t(2) h_exec.hyps(3) spread_apart [OF h_exec.prems t(1)]])
  from fspec_Ok [OF this h_exec.hyps(4)] show ?case using t(1) by (auto simp: map_run_snoc)
qed

end
