(* ===== verification/FrontierSpec.thy ===== *)
theory FrontierSpec
  imports FrontierDb StoreSpec
begin

text \<open>
  What the database promises, stated over the operations of the code, with a
  concrete instance of each statement.
\<close>

section \<open>A small database\<close>

lemma new_leaf_ram:
  assumes K: "keccak_len P" and D: "at_depth q r" "length q < 64" and R: "length key = 32" "op_ok op" and l: "spec_op P None op = Ok l"
  shows "\<exists>h. new_leaf P cfg q key op True f = (Ok (RMem (nib_path q @ enc P (mk_leaf (drop (walk_depth q) (key_nibbles key)) l)) h), f)"
proof -
  let ?k = "drop (walk_depth q) (key_nibbles key)"
  have d: "walk_depth q \<le> 64" "length ?k = r" "nibs_ok ?k" using D R(1) by (auto simp: at_depth_def)
  have lo: "leaf_ok l" using l R(2) by (cases op) (auto simp: EMPTY_CODE_HASH_def store_slot_def)
  have "op_fuel op \<le> REC_FUEL" by (cases op) (auto simp: op_fuel_def REC_FUEL_def)
  from op_sound_place [OF op_sound_all [OF K R] this d(1) l] obtain n where
    n: "place_new P (record_node_insert P REC_FUEL) key op (walk_depth q) = Ok n" "repr P n (mk_leaf ?k l)" .
  have w: "wf (mk_leaf ?k l) r" using d lo by simp
  have pl: "placed q (mk_leaf ?k l) r" using D by (simp add: placed_def)
  show ?thesis
    using n(1) make_mem_leaf_rep [OF K n(2) w pl]
    by (simp add: new_leaf_def insert_record_def make_leaf_child_def fbind_def flift_def)
qed

text \<open>An insert returns whenever its walk of the frontier does: hashing cannot fail.\<close>

lemma insert_op_Ok:
  assumes K: "keccak_len P" and T: "decode_typed P" and R: "length key = 32" "op_ok op" and I: "db_inv Z P f db t"
    and m: "mem_ok (db_upper db)" and a: "apart63 (tlook t) (key_nibbles key)"
    and u: "insert_ram P (db_cfg db) (db_upper db) [] key op (db_ram db) f = (Ok u, f')"
  shows "\<exists>h db' l. insert_op P db key op f = (Ok (h, db'), f') \<and> db_ram db' = db_ram db \<and> mem_ok (db_upper db') = mem_ok u \<and>
    spec_op P (tlook t (key_nibbles key)) op = Ok l \<and> db_inv Z P f' db' (fput t (key_nibbles key) l)"
proof -
  obtain M where M: "ff_rel Z f M" "frep P M (db_upper db) [] t" "wfb t 64" "shallow t 0" "distinct (fptrs (db_upper db))"
    using I by (auto simp: db_inv_def)
  have k: "length (key_nibbles key) = 64" "nibs_ok (key_nibbles key)" using R by auto
  have sh: "shallow (fput t (key_nibbles key) l) 0" for l by (rule shallow_fput [OF M(3) k M(4) a])
  then have "insertable [] t 64 key op (key_nibbles key)"
    using placed_root [OF M(4)] R by (simp add: insertable_def routed_def)
  from fspec_Ok [OF insert_rep(1) [OF K T M(2,3) _ m M(5,1) this] u] obtain l M' where
    "frep P M' u [] (fput t (key_nibbles key) l)" by (auto simp: node_post_def)
  then obtain u' where "hash_ram P u = Ok (fh P u, u')" "mem_ok u' = mem_ok u" using hash_ram_frep(1) by blast
  then have o': "insert_op P db key op f = (Ok (fh P u, db\<lparr>db_upper := u'\<rparr>), f')" "mem_ok u' = mem_ok u"
    using u by (simp_all add: insert_op_def db_root_def fbind_def flift_def)
  then show ?thesis using fspec_Ok [OF insert_op_rep [OF K T R I m sh] o'(1)] by auto
qed

text \<open>In RAM-build mode an insert at an empty slot of the root returns, and leaves the file alone.\<close>

lemma insert_empty_slot:
  assumes K: "keccak_len P" and T: "decode_typed P" and R: "length key = 32" "op_ok op" and I: "db_inv Z P f db t"
    and m: "mem_ok (db_upper db)" and a: "apart63 (tlook t) (key_nibbles key)" and ram: "db_ram db"
    and t: "t = TEmpty \<or> (\<exists>ts. t = TBranch ts \<and> ts ! unat (key_nibbles key ! 0) = None)"
    and l: "spec_op P None op = Ok l" "length (enc P (mk_leaf (drop 1 (key_nibbles key)) l)) < 2 ^ 30"
  shows "\<exists>h db'. insert_op P db key op f = (Ok (h, db'), f) \<and> db_ram db' \<and> mem_ok (db_upper db') \<and>
    db_inv Z P f db' (fput t (key_nibbles key) l)"
proof -
  let ?k = "key_nibbles key" and ?x = "key_nibbles key ! 0"
  have k: "length ?k = 64" and x: "?x < 16" "unat ?x < 16" "index ?k 0 = Ok ?x"
    using R nibble_unat nibs_ok_nth [of ?k 0] by (auto simp: index_def)
  have d: "at_depth [?x] 63" "walk_depth [?x] = 1" using x by (auto simp: at_depth_def walk_depth_def)
  obtain bs h where n: "new_leaf P (db_cfg db) [?x] key op True f = (Ok (RMem bs h), f)"
    "length bs < 2 ^ 32"
    using new_leaf_ram [OF K d(1) _ R l(1), of "db_cfg db" f] l(2) d(2) by (auto simp: div_ceil2_def)
  obtain M where M: "frep P M (db_upper db) [] t" using I by (auto simp: db_inv_def)
  have none: "tlook t ?k = None" using t k by (cases ?k) auto
  have "\<exists>u. insert_ram P (db_cfg db) (db_upper db) [] key op (db_ram db) f = (Ok u, f) \<and> mem_ok u"
    using t
  proof (elim disjE exE conjE)
    assume "t = TEmpty"
    then have "db_upper db = REmpty" using M by (cases "db_upper db") (auto simp: frep_RBranch)
    moreover have "mem_ok (RBranch ((replicate 16 None)[unat ?x := Some (RMem bs h)]) None)"
      using n(2) set_update_subset_insert [of "replicate 16 None" "unat ?x" "Some (RMem bs h)"] by auto
    ultimately show ?thesis using n(1) x ram
      by (simp add: fbind_def flift_def fret_def set_idx_def empty_children_def)
  next
    fix ts
    assume ts: "t = TBranch ts" "ts ! unat ?x = None"
    then obtain cs h' where cs: "db_upper db = RBranch cs h'" "length cs = 16" "cs ! unat ?x = None"
      using M x by (cases "db_upper db") (auto simp: frep_RBranch)
    have "mem_ok (RBranch (cs[unat ?x := Some (RMem bs h)]) None)"
      using n(2) m cs(1) set_update_subset_insert [of cs "unat ?x" "Some (RMem bs h)"] by auto
    then show ?thesis using n(1) x ram cs k
      by (simp add: insert_ram_RBranch insert_into_child_def fbind_def flift_def fret_def index_def del: insert_ram.simps)
  qed
  then show ?thesis using insert_op_Ok [OF K T R I m a] ram l(1) none by fastforce
qed

definition demo_cfg :: config where
  "demo_cfg = \<lparr>c_max_leaf = 4096, c_hot = False\<rparr>"

definition demo_value :: bytes where
  "demo_value = replicate 40 7"

definition demo_key3 :: bytes where
  "demo_key3 = 0x34 # replicate 31 0"

definition demo_put :: db_op where
  "demo_put = Put demo_key1 (OpValue demo_value)"

definition demo_put3 :: db_op where
  "demo_put3 = Put demo_key3 (OpAccount 5 9 (replicate 32 1))"

lemma demo_enc: "keccak_len P \<Longrightarrow> length (enc P (TLeaf p v)) \<le> 40 + div_ceil2 (length p) + length v"
  using length_write_ref [OF ref_ok_tref, of P "TLeaf p v"] ref_ok_tref [of P "TLeaf p v"]
  by (cases "tref P (TLeaf p v)") auto

lemma demo_step: "\<exists>h db. exec demo (db_new demo_cfg True) demo_put (ff_new True) = (Ok (h, db), ff_new True) \<and> db_ram db \<and>
    mem_ok (db_upper db) \<and> db_inv fz_none demo (ff_new True) db (fput TEmpty (key_nibbles demo_key1) (LVal demo_value))"
  unfolding demo_put_def exec.simps
proof (rule insert_empty_slot [OF _ _ _ _ db_new_inv])
  show "length (enc demo (mk_leaf (drop 1 (key_nibbles demo_key1)) (LVal demo_value))) < 2 ^ 30"
    using demo_enc [of demo "drop 1 (key_nibbles demo_key1)" demo_value] by (simp add: demo_value_def div_ceil2_def)
qed (simp_all add: db_new_def apart63_def)

lemma demo_history: "\<exists>h f db. db_hist demo [demo_put] h f db \<and> mem_ok (db_upper db)"
proof -
  obtain h db where s: "exec demo (db_new demo_cfg True) demo_put (ff_new True) = (Ok (h, db), ff_new True)" "mem_ok (db_upper db)"
    using demo_step by blast
  from h_exec [OF h_empty _ _ s(1)] show ?thesis using s(2) by (auto simp: demo_put_def db_new_def)
qed

lemma demo_nibs: "key_nibbles demo_key1 ! 0 = 1" "key_nibbles demo_key3 ! 0 = 3" "length demo_key3 = 32"
  "hd (key_nibbles demo_key1) = 1" "hd (key_nibbles demo_key3) = 3"
  by (simp_all add: demo_key1_def demo_key3_def key_nibbles_def)

lemma demo_differ: "key_nibbles demo_key3 \<noteq> key_nibbles demo_key1" "key_nibbles demo_key1 \<noteq> key_nibbles demo_key3"
  using demo_nibs by auto

lemma butlast_differ:
  fixes k :: nibs
  assumes "length k = 64" and "length k' = 64" and "hd k \<noteq> hd k'"
  shows "butlast k \<noteq> butlast k'"
proof
  assume b: "butlast k = butlast k'"
  have h: "hd (butlast xs) = hd xs" if "length xs = 64" for xs :: nibs
    using that by (cases xs; cases "tl xs") auto
  show False using h [OF assms(1)] h [OF assms(2)] assms(3) unfolding b by simp
qed

lemma demo_map: "map_run demo Map.empty [demo_put, demo_put3] =
    Ok [key_nibbles demo_key1 \<mapsto> LVal demo_value, key_nibbles demo_key3 \<mapsto> LAcct 5 9 (replicate 32 1) TEmpty]"
  using demo_differ by (simp add: demo_put_def demo_put3_def)

lemma demo_spread: "spread [demo_put, demo_put3]"
  using butlast_differ [of "key_nibbles demo_key1" "key_nibbles demo_key3"] demo_nibs
  by (auto simp: spread_def demo_put_def demo_put3_def)

lemma demo_history2: "\<exists>h f db. db_hist demo [demo_put, demo_put3] h f db \<and> mem_ok (db_upper db)"
proof -
  obtain h db where s: "exec demo (db_new demo_cfg True) demo_put (ff_new True) = (Ok (h, db), ff_new True)"
    "db_ram db" "mem_ok (db_upper db)" "db_inv fz_none demo (ff_new True) db (fput TEmpty (key_nibbles demo_key1) (LVal demo_value))"
    using demo_step by blast
  have H: "db_hist demo [demo_put] h (ff_new True) db"
    using h_exec [OF h_empty _ _ s(1)] by (simp add: demo_put_def db_new_def)
  have "\<exists>h' db'. insert_op demo db demo_key3 (OpAccount 5 9 (replicate 32 1)) (ff_new True) = (Ok (h', db'), ff_new True) \<and> db_ram db' \<and>
      mem_ok (db_upper db') \<and> db_inv fz_none demo (ff_new True) db' (fput (fput TEmpty (key_nibbles demo_key1) (LVal demo_value))
         (key_nibbles demo_key3) (LAcct 5 9 (replicate 32 1) TEmpty))"
  proof (rule insert_empty_slot [OF _ _ _ _ s(4,3) _ s(2)])
    show "apart63 (tlook (fput TEmpty (key_nibbles demo_key1) (LVal demo_value))) (key_nibbles demo_key3)"
      using fput_facts(1) [of TEmpty 64 "key_nibbles demo_key1" "LVal demo_value"]
        butlast_differ [of "key_nibbles demo_key1" "key_nibbles demo_key3"] demo_nibs by (auto simp: apart63_def split: if_splits)
    show "fput TEmpty (key_nibbles demo_key1) (LVal demo_value) = TEmpty \<or> (\<exists>ts. fput TEmpty (key_nibbles demo_key1) (LVal demo_value) = TBranch ts \<and>
        ts ! unat (key_nibbles demo_key3 ! 0) = None)"
      by (simp add: fput_def demo_nibs)
    show "length (enc demo (mk_leaf (drop 1 (key_nibbles demo_key3)) (LAcct 5 9 (replicate 32 1) TEmpty))) < 2 ^ 30"
      by (simp add: demo_nibs div_ceil2_def)
  qed (simp_all add: demo_nibs)
  then obtain h' db' where "exec demo db demo_put3 (ff_new True) = (Ok (h', db'), ff_new True)" "mem_ok (db_upper db')"
    by (auto simp: demo_put3_def)
  then show ?thesis using h_exec [OF H _ s(3), of demo_put3 h' db' "ff_new True"] by (auto simp: demo_put3_def demo_nibs)
qed

section \<open>Histories\<close>

text \<open>C1: a history of inserts and deletes on the database acts as the same history
  on a map from keys to leaves: no operation of the history fails in the map, the
  frontier and its records stand for exactly the resulting contents, and the root
  the last operation returned is the Merkle root of these contents. The keys are
  32 bytes, and no two of them agree on all but the last nibble.\<close>

theorem history_refines_map:
  assumes "keccak_len P" and "decode_typed P" and "db_hist P ops h f db" and "spread ops"
  shows "\<exists>t. map_run P Map.empty ops = Ok (tlook t) \<and> db_inv fz_none P f db t \<and> (hashed P t \<longrightarrow> h = troot P t)"
  by (rule db_hist_rep [OF assms])

theorem history_refines_map_witness:
  "\<exists>h f db t. db_hist demo [demo_put] h f db \<and> db_inv fz_none demo f db t \<and> tlook t = [key_nibbles demo_key1 \<mapsto> LVal demo_value]"
proof -
  obtain h f db where "db_hist demo [demo_put] h f db" using demo_history by auto
  moreover from history_refines_map [OF _ _ this] obtain t where
    "map_run demo Map.empty [demo_put] = Ok (tlook t)" "db_inv fz_none demo f db t" by (auto simp: spread_def)
  ultimately show ?thesis by (auto simp: demo_put_def)
qed

text \<open>C7: once the keys of a history spread over two first nibbles, the root the
  database returned is the root the reference builder computes from any list of
  writes with the same contents. The leaves are not small, so that every child
  reference is a hash.\<close>

theorem history_root_oracle:
  assumes "keccak_len P" and "decode_typed P" and "rlp_empty P" and "rlp_keeps P" and "db_hist P ops h f db" and "spread ops"
    and "map_run P Map.empty ops = Ok m" and "\<And>k l. m k = Some l \<Longrightarrow> wide P l"
    and "m k \<noteq> None" and "m k' \<noteq> None" and "hd k \<noteq> hd k'" and "final_map es = map_option (leaf_value P) \<circ> m"
  shows "eth_root P es = Ok h"
proof -
  obtain t where t: "m = tlook t" "db_inv fz_none P f db t" "hashed P t \<longrightarrow> h = troot P t"
    using db_hist_rep [OF assms(1,2,5,6)] assms(7) by auto
  have w: "wfb t 64" using t(2) by (auto simp: db_inv_def)
  have "wf t 64" using spread_wf [OF w] assms(9-11) t(1) by blast
  moreover have "hashed P t" using hashed_root [OF assms(1,4) w] assms(8) t(1) by blast
  ultimately show ?thesis using eth_root_trie [OF assms(3), of t 64 es] assms(12) t by (auto simp: wf0_def)
qed

lemma rlp_keeps_demo: "rlp_keeps demo"
  unfolding rlp_keeps_def by (simp add: demo_def demo_rlp_def split: list.splits)

lemma demo_wide: "[key_nibbles demo_key1 \<mapsto> LVal demo_value, key_nibbles demo_key3 \<mapsto> LAcct 5 9 (replicate 32 1) TEmpty] k = Some l \<Longrightarrow> wide demo l"
  by (auto simp: demo_value_def acct_value_def account_rlp_def account_contract_def demo_def demo_account_encode_def split: if_splits)

definition demo_writes :: "(bytes \<times> bytes) list" where
  "demo_writes = [(demo_key3, acct_value demo 5 9 (replicate 32 1) (troot demo TEmpty)), (demo_key1, demo_value)]"

lemma demo_nonempty: "demo_value \<noteq> []" "acct_value demo 5 9 (replicate 32 1) h \<noteq> []"
  by (auto simp: demo_value_def acct_value_def account_rlp_def account_contract_def demo_def demo_account_encode_def)

lemma demo_final: "final_map demo_writes = map_option (leaf_value demo) \<circ>
    [key_nibbles demo_key1 \<mapsto> LVal demo_value, key_nibbles demo_key3 \<mapsto> LAcct 5 9 (replicate 32 1) TEmpty]"
  using demo_differ demo_nonempty
  by (auto simp: demo_writes_def final_map_def fun_eq_iff eth_key_nibbles_def key_nibbles_def [symmetric])

theorem history_root_oracle_witness:
  "\<exists>h f db. db_hist demo [demo_put, demo_put3] h f db \<and> eth_root demo demo_writes = Ok h"
proof -
  obtain h f db where H: "db_hist demo [demo_put, demo_put3] h f db" using demo_history2 by auto
  have "eth_root demo demo_writes = Ok h"
    by (rule history_root_oracle [OF _ _ _ rlp_keeps_demo H demo_spread demo_map demo_wide,
          where k = "key_nibbles demo_key1" and k' = "key_nibbles demo_key3"])
      (use demo_nibs demo_differ demo_final in auto)
  with H show ?thesis by blast
qed

text \<open>C8: point reads after a history return the contents of the map: the value of a
  value leaf, the account record of an account leaf, and the slots of its storage.\<close>

theorem reads_after_history:
  assumes "keccak_len P" and "decode_typed P" and "rlp_keeps P" and "db_hist P ops h f db" and "spread ops"
    and "map_run P Map.empty ops = Ok m" and "\<And>k l. m k = Some l \<Longrightarrow> wide P l" and "mem_ok (db_upper db)"
    and "length key = 32" and "length slot = 32"
  shows "get_value P f db key = Ok (map_option (leaf_value P) (m (key_nibbles key)))
    \<and> get_storage P f db key slot = Ok (case m (key_nibbles key) of
        Some (LAcct n b c s) \<Rightarrow> map_option (leaf_value P) (tlook s (key_nibbles slot)) | _ \<Rightarrow> None)"
proof -
  obtain t where t: "m = tlook t" "db_inv fz_none P f db t"
    using db_hist_rep [OF assms(1,2,4,5)] assms(6) by auto
  then obtain M where M: "ff_rel fz_none f M" "frep P M (db_upper db) [] t" "wfb t 64" "shallow t 0" by (auto simp: db_inv_def)
  have h: "hashed P t" using hashed_root [OF assms(1,3) M(3)] assms(7) t(1) by blast
  have k: "length (key_nibbles key) = 64" "nibs_ok (key_nibbles key)" using assms(9) by auto
  show ?thesis
    using ram_get_rep(1) [OF assms(1) rel_readable [OF M(1)] k M(2,3) placed_root [OF M(4)] assms(8) h]
      ram_get_storage_rep(1) [OF assms(1) rel_readable [OF M(1)] k assms(10) M(2,3) placed_root [OF M(4)] assms(8) h] t(1)
    by (simp add: get_value_def get_storage_def)
qed

theorem reads_after_history_witness:
  "\<exists>h f db. db_hist demo [demo_put, demo_put3] h f db \<and> get_value demo f db demo_key1 = Ok (Some demo_value) \<and>
     get_value demo f db demo_key2 = Ok None \<and> get_storage demo f db demo_key3 demo_key1 = Ok None"
proof -
  obtain h f db where H: "db_hist demo [demo_put, demo_put3] h f db" "mem_ok (db_upper db)" using demo_history2 by auto
  let ?m = "[key_nibbles demo_key1 \<mapsto> LVal demo_value, key_nibbles demo_key3 \<mapsto> LAcct 5 9 (replicate 32 1) TEmpty]"
  have R: "get_value demo f db key = Ok (map_option (leaf_value demo) (?m (key_nibbles key)))
    \<and> get_storage demo f db key demo_key1 = Ok (case ?m (key_nibbles key) of
        Some (LAcct n b c s) \<Rightarrow> map_option (leaf_value demo) (tlook s (key_nibbles demo_key1)) | _ \<Rightarrow> None)"
    if "length key = 32" for key
    by (rule reads_after_history [OF _ _ rlp_keeps_demo H(1) demo_spread demo_map _ H(2) that]) (use demo_wide in auto)
  have "key_nibbles demo_key2 \<noteq> key_nibbles demo_key3" by (simp add: demo_key2_def demo_key3_def key_nibbles_def)
  then show ?thesis
    using R [of demo_key1] R [of demo_key2] R [of demo_key3] H(1) demo_nibs demo_differ by auto
qed

text \<open>C9: no record is lost and no pointer dangles: after any history the live
  records of the file are exactly the records the frontier points to, and every
  record is pointed to from one place only; a live record that the frontier
  points to reads back.\<close>

theorem frontier_owns_file:
  assumes "keccak_len P" and "decode_typed P" and "db_hist P ops h f db" and "spread ops"
  shows "\<exists>M. ff_rel fz_none f M \<and> dom M = set (fptrs (db_upper db)) \<and> distinct (fptrs (db_upper db)) \<and>
    (\<forall>ptr \<in> set (fptrs (db_upper db)). \<exists>p. M ptr = Some p \<and> read_payload f (dp_offset ptr + RECORD_HDR) (unat (dp_len ptr)) = Ok p)"
proof -
  obtain t where "db_inv fz_none P f db t" using db_hist_rep [OF assms] by auto
  then obtain M where M: "ff_rel fz_none f M" "distinct (fptrs (db_upper db))" "dom M = set (fptrs (db_upper db))" by (auto simp: db_inv_def owned_none)
  then show ?thesis using read_payload_rel [OF M(1)] by (intro exI [of _ M]) blast
qed

theorem frontier_owns_file_witness:
  "\<exists>h f db M. db_hist demo [demo_put, demo_put3] h f db \<and> ff_rel fz_none f M \<and> dom M = set (fptrs (db_upper db))"
proof -
  obtain h f db where H: "db_hist demo [demo_put, demo_put3] h f db" using demo_history2 by auto
  from frontier_owns_file [OF _ _ this demo_spread] H show ?thesis by auto
qed

section \<open>Outcomes of an operation\<close>

text \<open>C10: after any history an operation with a 32-byte key either returns and
  does what it does to the map, or fails with an error value (the one abort that
  is left is the promotion of an account whose storage is a single slot too large
  for a record). When the operation is wrong for the leaf at its key, it fails.\<close>

theorem operation_outcome:
  assumes "keccak_len P" and "decode_typed P" and "db_hist P ops h f db" and "spread (ops @ [op])" and "request_ok op"
    and "mem_ok (db_upper db)" and "map_run P Map.empty ops = Ok m"
  shows "case exec P db op f of
      (Ok (h', db'), f') \<Rightarrow> \<exists>t'. op_run P m op = Ok (tlook t') \<and> db_inv fz_none P f' db' t'
    | (Err e, f') \<Rightarrow> (\<exists>s. e = Bail s) \<or> e = Panic ''promote called on a record without a top branch''"
proof -
  have "spread ops" using assms(4) by (auto simp: spread_def)
  then obtain t where t: "m = tlook t" "db_inv fz_none P f db t" using db_hist_rep [OF assms(1-3)] assms(7) by auto
  have "apart63 (tlook t) (key_nibbles (op_key op))" using spread_apart [OF assms(4,7)] t(1) by simp
  from exec_rep [OF assms(1,2,5) t(2) assms(6) this] show ?thesis
    using t(1) by (auto simp: fspec_def fails_def split: prod.splits res.splits)
qed

theorem operation_outcome_witness:
  "\<exists>h f db. db_hist demo [demo_put, demo_put3] h f db \<and>
     (case exec demo db (Del demo_key3 DelValue) f of (Ok _, _) \<Rightarrow> False | (Err e, _) \<Rightarrow> \<exists>s. e = Bail s \<or> e = Panic s)"
proof -
  obtain h f db where H: "db_hist demo [demo_put, demo_put3] h f db" "mem_ok (db_upper db)" using demo_history2 by auto
  have "spread ([demo_put, demo_put3] @ [Del demo_key3 DelValue])"
    using demo_spread by (auto simp: spread_def demo_put3_def)
  from operation_outcome [OF _ _ H(1) this _ H(2) demo_map] H(1) show ?thesis
    by (intro exI [of _ h] exI [of _ f] exI [of _ db]) (auto simp: demo_nibs spec_del0_def split: prod.splits res.splits)
qed

text \<open>
  What is left in memory when a delete returns an error: \<^verbatim>\<open>delete_ram\<close> moves the
  root out of the frontier before it descends, and the early return does not put
  it back.
\<close>

definition delete_op_after :: "prims \<Rightarrow> flat_mpt \<Rightarrow> bytes \<Rightarrow> delete_op \<Rightarrow> flat_file \<Rightarrow> flat_mpt \<times> flat_file" where
  "delete_op_after P db key op f =
     (case delete_op_db P db key op f of
        (Ok (h, db'), f') \<Rightarrow> (db', f')
      | (Err e, f') \<Rightarrow> (db\<lparr>db_upper := REmpty\<rparr>, f'))"



section \<open>Promotion and hashing\<close>


definition demo_leaf :: "byte \<Rightarrow> trie" where
  "demo_leaf v = TLeaf (replicate 63 0) [v]"

definition demo_ts :: "trie option list" where
  "demo_ts = [None, Some (demo_leaf 7), None, Some (demo_leaf 9), None, None, None, None,
     None, None, None, None, None, None, None, None]"

lemma nibs_ok_zeros [simp]: "nibs_ok (replicate n 0)"
  by (simp add: nibs_ok_def)

lemma demo_slot:
  assumes "x < 16"
  shows "\<exists>p n. serialize_subtree \<lparr>ds_prefix = [x], ds_node = mat demo (demo_leaf v)\<rparr> = Ok (p, n) \<and> length p \<le> MAX_RECORD_BYTES"
    and "record_size (length [x]) (mat demo (demo_leaf v)) \<le> MAX_RECORD_BYTES"
proof -
  have "placed [x] (demo_leaf v) 63" using assms by (simp add: placed_def at_depth_def walk_depth_def demo_leaf_def)
  then have s: "serialize_subtree \<lparr>ds_prefix = [x], ds_node = mat demo (demo_leaf v)\<rparr> = Ok (nib_path [x] @ enc demo (demo_leaf v), length (nib_path [x] @ enc demo (demo_leaf v)))"
    by (intro serialize_placed [OF _ repr_mat, where r = 63]) (auto simp: demo_leaf_def)
  show "\<exists>p n. serialize_subtree \<lparr>ds_prefix = [x], ds_node = mat demo (demo_leaf v)\<rparr> = Ok (p, n) \<and> length p \<le> MAX_RECORD_BYTES"
    using s demo_enc [of demo "replicate 63 0" "[v]"] by (simp add: demo_leaf_def div_ceil2_def)
  show "record_size (length [x]) (mat demo (demo_leaf v)) \<le> MAX_RECORD_BYTES"
    using ref_ok_tref [of demo "TLeaf (replicate 63 0) [v]"] by (cases "tref demo (TLeaf (replicate 63 0) [v])") (auto simp: demo_leaf_def record_size_def div_ceil2_def)
qed

lemma demo_promotes: "\<exists>c f'. promote_record_to_ram demo demo_cfg REC_FUEL \<lparr>ds_prefix = [], ds_node = mat demo (TBranch demo_ts)\<rparr> (ff_new False) = (Ok c, f')"
proof -
  have R: "REC_FUEL = Suc 299" by (simp add: REC_FUEL_def)
  obtain p n where p: "serialize_subtree \<lparr>ds_prefix = [1], ds_node = mat demo (demo_leaf 7)\<rparr> = Ok (p, n)" "length p \<le> MAX_RECORD_BYTES"
    using demo_slot(1) [of 1 7] by auto
  obtain q m where q: "serialize_subtree \<lparr>ds_prefix = [3], ds_node = mat demo (demo_leaf 9)\<rparr> = Ok (q, m)" "length q \<le> MAX_RECORD_BYTES"
    using demo_slot(1) [of 3 9] by auto
  obtain ptrs f' where w: "write_batch (ff_new False) [p, q] = (Ok ptrs, f')"
    using write_batch_ok [OF new_rel, of "[p, q]" False] p(2) q(2) by (auto simp: ff_new_def div_ceil_def)
  have "mat demo (demo_leaf v) = Leaf (replicate 63 0) [v] (tref demo (demo_leaf v))" for v by (simp add: demo_leaf_def)
  then show ?thesis
    unfolding R promote_record_to_ram.simps using p(1) q(1) w demo_slot(2) [of 1 7] demo_slot(2) [of 3 9]
    by (simp add: demo_ts_def split_top_def Let_def fbind_def flift_def fret_def fwrite_batch_def)
qed


end
