(* ===== verification/Maintain.thy ===== *)
theory Maintain
  imports Frontier
begin

text \<open>
  Maintenance of a database (\<^verbatim>\<open>src/lib.rs\<close>): the garbage collector that moves
  live records out of mostly dead regions, inline (\<^verbatim>\<open>gc_step\<close>) and split into a
  collection on a snapshot and an installation (\<^verbatim>\<open>gc_collect\<close>, \<^verbatim>\<open>gc_install\<close>);
  the eviction of RAM-resident records to the file (\<^verbatim>\<open>spill_quota\<close>); snapshots;
  the checkpoint and the reopening of a database, with the checksummed manifest.

  Floating-point decisions of the collector's controller, the second-chance bits
  of RAM records, the environment switches and the serializer of the manifest are
  parameters. The statistics counters and log lines are left out.
\<close>

section \<open>Finding and retargeting a slot\<close>

text \<open>\<^verbatim>\<open>xs.get(i)\<close> and \<^verbatim>\<open>xs.get(i..i + n)\<close>.\<close>

definition get_at :: "'a list \<Rightarrow> nat \<Rightarrow> 'a option" where
  "get_at xs i = (if i < length xs then Some (xs ! i) else None)"

definition get_range :: "'a list \<Rightarrow> nat \<Rightarrow> nat \<Rightarrow> 'a list option" where
  "get_range xs i n = (if i + n \<le> length xs then Some (slice xs i n) else None)"

primrec find_disk_ptr :: "ram_node \<Rightarrow> nibs \<Rightarrow> nat \<Rightarrow> disk_ptr option res"
  and find_disk_child :: "ram_child \<Rightarrow> nibs \<Rightarrow> nat \<Rightarrow> disk_ptr option res" where
  "find_disk_ptr REmpty = (\<lambda>nibbles depth. Ok None)"
| "find_disk_ptr (RExtension path child hash) = (\<lambda>nibbles depth.
     if get_range nibbles depth (length path) = Some path
     then find_disk_ptr child nibbles (depth + length path) else Ok None)"
| "find_disk_ptr (RBranch children hash) = (\<lambda>nibbles depth.
     (case get_at nibbles depth of
        None \<Rightarrow> Ok None
      | Some idx \<Rightarrow> res_bind (index (map (map_option find_disk_child) children) (unat idx)) (\<lambda>slot.
          (case slot of None \<Rightarrow> Ok None | Some g \<Rightarrow> g nibbles (depth + 1)))))"
| "find_disk_child (RRam child) = find_disk_ptr child"
| "find_disk_child (RDisk ptr root) = (\<lambda>nibbles depth. Ok (Some ptr))"
| "find_disk_child (RMem bs root) = (\<lambda>nibbles depth. Ok None)"
| "find_disk_child (RAccount path nonce balance code_hash storage) = (\<lambda>nibbles depth.
     if get_range nibbles depth (length path) = Some path
     then find_disk_ptr storage nibbles (depth + length path) else Ok None)"

text \<open>The second component is the node after the call.\<close>

primrec install_ptr_by_prefix :: "ram_node \<Rightarrow> nibs \<Rightarrow> nat \<Rightarrow> disk_ptr \<Rightarrow> (bool \<times> ram_node) res"
  and install_child :: "ram_child \<Rightarrow> nibs \<Rightarrow> nat \<Rightarrow> disk_ptr \<Rightarrow> (bool \<times> ram_child) res" where
  "install_ptr_by_prefix REmpty = (\<lambda>prefix depth new_ptr. Ok (False, REmpty))"
| "install_ptr_by_prefix (RExtension path child hash) = (\<lambda>prefix depth new_ptr.
     if get_range prefix depth (length path) = Some path
     then res_map (\<lambda>(b, child'). (b, RExtension path child' hash))
            (install_ptr_by_prefix child prefix (depth + length path) new_ptr)
     else Ok (False, RExtension path child hash))"
| "install_ptr_by_prefix (RBranch children hash) = (\<lambda>prefix depth new_ptr.
     (case get_at prefix depth of
        None \<Rightarrow> Ok (False, RBranch children hash)
      | Some idx \<Rightarrow> res_bind (index (map (map_option install_child) children) (unat idx)) (\<lambda>slot.
          (case slot of
             None \<Rightarrow> Ok (False, RBranch children hash)
           | Some g \<Rightarrow> res_map (\<lambda>(b, c'). (b, RBranch (children[unat idx := Some c']) hash))
                         (g prefix (depth + 1) new_ptr)))))"
| "install_child (RRam child) = (\<lambda>prefix depth new_ptr.
     res_map (\<lambda>(b, child'). (b, RRam child')) (install_ptr_by_prefix child prefix depth new_ptr))"
| "install_child (RDisk ptr root) = (\<lambda>prefix depth new_ptr. Ok (True, RDisk new_ptr root))"
| "install_child (RMem bs root) = (\<lambda>prefix depth new_ptr. Ok (False, RMem bs root))"
| "install_child (RAccount path nonce balance code_hash storage) = (\<lambda>prefix depth new_ptr.
     if get_range prefix depth (length path) = Some path
     then res_map (\<lambda>(b, storage'). (b, RAccount path nonce balance code_hash storage'))
            (install_ptr_by_prefix storage prefix (depth + length path) new_ptr)
     else Ok (False, RAccount path nonce balance code_hash storage))"

section \<open>Evacuation\<close>

text \<open>
  The scan of a region buffer for records the frontier points at. The source adds
  the header length to the stored length in 32 bits before the bounds check; the
  sum can wrap only for a length that the check rejects.
\<close>

type_synonym live_rec = "nibs \<times> bytes \<times> disk_ptr"

definition scan_record :: "ram_node \<Rightarrow> u32 list \<Rightarrow> u32 \<Rightarrow> bytes \<Rightarrow> live_rec list res" where
  "scan_record upper fg_units unit payload =
     (if unit \<in> set fg_units then Ok []
      else (case parse_prefix payload of
              Err e \<Rightarrow> Ok []
            | Ok prefix \<Rightarrow>
                (let ptr = \<lparr>dp_unit = unit, dp_len = word_of_nat (length payload)\<rparr> in
                 res_map (\<lambda>found. if found = Some ptr then [(prefix, payload, ptr)] else [])
                   (find_disk_ptr upper prefix 0))))"

lemma units_for_ge: "0 < n \<Longrightarrow> 0 < units_for n"
  by (simp add: units_for_def div_ceil_def ADDR_UNIT_def)

function scan_region :: "ram_node \<Rightarrow> u32 list \<Rightarrow> nat \<Rightarrow> bytes \<Rightarrow> nat \<Rightarrow> live_rec list res" where
  "scan_region upper fg_units base_unit buf p =
     (if length buf < p + 4 then Ok []
      else
        (let len = le_val (slice buf p 4) in
         if len = 0 then
           (let next = (p div ADDR_UNIT + 1) * ADDR_UNIT in
            if next \<le> p then Ok [] else scan_region upper fg_units base_unit buf next)
         else
           (let rec_units = units_for (RECORD_HDR + len); end = p + 4 + len in
            if length buf < end then Ok []
            else
              res_bind (scan_record upper fg_units (word_of_nat (base_unit + p div ADDR_UNIT)) (slice buf (p + 4) len)) (\<lambda>here.
              res_map (\<lambda>rest. here @ rest)
                (scan_region upper fg_units base_unit buf (p + rec_units * ADDR_UNIT))))))"
  by pat_completeness auto
termination
  by (relation "measure (\<lambda>(upper, fg, base, buf, p). length buf - p)")
    (auto simp: RECORD_HDR_def ADDR_UNIT_def intro!: diff_less_mono2 units_for_ge)

declare scan_region.simps [simp del]

definition scan_regions :: "ram_node \<Rightarrow> u32 list \<Rightarrow> flat_file \<Rightarrow> nat list \<Rightarrow> live_rec list res" where
  "scan_regions upper fg_units f victims =
     res_map concat (res_mapM (\<lambda>region. scan_region upper fg_units (region * REGION_UNITS) (read_region f region) 0) victims)"

fun free_all :: "disk_ptr list \<Rightarrow> flat_file \<Rightarrow> flat_file" where
  "free_all [] f = f"
| "free_all (ptr # ptrs) f = free_all ptrs (ff_free f ptr)"

definition evacuate_regions :: "ram_node \<Rightarrow> nat list \<Rightarrow> u32 list \<Rightarrow> (nibs \<times> disk_ptr) list fm" where
  "evacuate_regions upper victims fg_units = (\<lambda>f.
     (case scan_regions upper fg_units f victims of
        Err e \<Rightarrow> (Err e, f)
      | Ok live \<Rightarrow>
          if live = [] then (Ok [], f)
          else (case write_batch f (map (\<lambda>(prefix, payload, old). payload) live) of
                  (Err e, f') \<Rightarrow> (Err e, f')
                | (Ok new_ptrs, f') \<Rightarrow>
                    (Ok (zip (map fst live) new_ptrs),
                     free_all (take (length new_ptrs) (map (\<lambda>(prefix, payload, old). old) live)) f'))))"

section \<open>The collector\<close>

text \<open>
  What the collector takes from the environment. \<open>ge_reached live active\<close> is the
  comparison of the utilization \<^verbatim>\<open>live / active\<close> with \<^verbatim>\<open>TARGET_UTIL\<close>,
  \<open>ge_adj live active\<close> the rounded correction of the controller, \<open>ge_score\<close> the
  cost-benefit rank of a region, \<open>ge_evac_cap\<close> and \<open>ge_bg_cap\<close> the truncated products
  of the region size with the two utilization caps.
\<close>

record gc_env =
  ge_off :: bool
  ge_cap :: nat
  ge_reached :: "nat \<Rightarrow> nat \<Rightarrow> bool"
  ge_adj :: "nat \<Rightarrow> nat \<Rightarrow> int"
  ge_score :: "nat \<Rightarrow> u32 \<Rightarrow> int"
  ge_evac_cap :: nat
  ge_bg_cap :: nat
  ge_verify :: bool
  ge_assert :: bool

definition GC_MIN_PAGES :: nat where "GC_MIN_PAGES = 64 * REGION_PAGES"

text \<open>\<^verbatim>\<open>utilization() >= TARGET_UTIL\<close>; the utilization of an empty file is 0.\<close>

definition at_target :: "gc_env \<Rightarrow> flat_file \<Rightarrow> bool" where
  "at_target env f =
     (let (live, free) = live_and_free_units f; active = ff_end f * UNITS_PER_PAGE - free
      in active \<noteq> 0 \<and> ge_reached env live active)"

text \<open>The rate and the value the controller keeps.\<close>

definition gc_rate :: "gc_env \<Rightarrow> flat_file \<Rightarrow> nat \<Rightarrow> nat \<times> nat" where
  "gc_rate env f gc_regions =
     (if ge_off env then (0, gc_regions)
      else if ff_end f < GC_MIN_PAGES then (0, gc_regions)
      else
        (let (live, free) = live_and_free_units f;
             active = max (ff_end f * UNITS_PER_PAGE - free) 1;
             r = nat (min (max (int gc_regions + ge_adj env live active) 0) (int (ge_cap env)))
         in (r, r)))"

definition check_slot :: "gc_env \<Rightarrow> nat list \<Rightarrow> ram_node \<Rightarrow> nibs \<Rightarrow> unit res" where
  "check_slot env victims upper prefix =
     (if ge_verify env then
        res_bind (find_disk_ptr upper prefix 0) (\<lambda>found.
          (case found of
             Some cur \<Rightarrow> if region_of_unit (unat (dp_unit cur)) \<in> set victims then Ok ()
                          else Err (Panic ''GC WRONG-SLOT INSTALL'')
           | None \<Rightarrow> Err (Panic ''GC WRONG-SLOT INSTALL'')))
      else Ok ())"

text \<open>The failed installs are counted.\<close>

fun install_relocs :: "gc_env \<Rightarrow> nat list \<Rightarrow> nat \<Rightarrow> ram_node \<Rightarrow> (nibs \<times> disk_ptr) list \<Rightarrow> (nat \<times> ram_node) res" where
  "install_relocs env victims failed upper [] = Ok (failed, upper)"
| "install_relocs env victims failed upper ((prefix, new_ptr) # reloc) =
     res_bind (check_slot env victims upper prefix) (\<lambda>_.
     res_bind (install_ptr_by_prefix upper prefix 0 new_ptr) (\<lambda>(b, upper').
       install_relocs env victims (if b then failed else failed + 1) upper' reloc))"

definition pin_region :: "nat \<Rightarrow> region_alloc \<Rightarrow> region_alloc" where
  "pin_region r seg =
     (if 0 < (if r < length (ra_live seg) then ra_live seg ! r else 0)
      then (let seg = ensure_region r seg in seg\<lparr>ra_evac_pinned := (ra_evac_pinned seg)[r := True]\<rparr>)
      else seg)"

definition pin_victims :: "nat list \<Rightarrow> flat_file \<Rightarrow> flat_file" where
  "pin_victims victims f = f\<lparr>ff_seg := fold pin_region victims (ff_seg f)\<rparr>"

function gc_rounds :: "gc_env \<Rightarrow> nat \<Rightarrow> flat_mpt \<Rightarrow> flat_file \<Rightarrow> (nat \<times> flat_mpt) res \<times> flat_file" where
  "gc_rounds env evacuated db f =
     (if ge_cap env \<le> evacuated \<or> at_target env f then (Ok (evacuated, db), f)
      else
        (let (rate, gc_regions) = gc_rate env f (db_gc db);
             db = db\<lparr>db_gc := gc_regions\<rparr>;
             r = min rate (ge_cap env - evacuated)
         in if r = 0 then (Ok (evacuated, db), f)
         else
           (let victims = select_victims (ge_score env) (ff_seg f) r (ge_evac_cap env) in
            if victims = [] then (Ok (evacuated, db), f)
            else
              (case evacuate_regions (db_upper db) victims [] f of
                 (Err e, f) \<Rightarrow> (Err e, f)
               | (Ok reloc, f) \<Rightarrow>
                   (case install_relocs env victims 0 (db_upper db) reloc of
                      Err e \<Rightarrow> (Err e, f)
                    | Ok (failed, upper) \<Rightarrow>
                        gc_rounds env (evacuated + length victims) (db\<lparr>db_upper := upper\<rparr>) (pin_victims victims f))))))"
  by pat_completeness auto
termination
  by (relation "measure (\<lambda>(env, evacuated, db, f). ge_cap env - evacuated)") (auto intro!: diff_less_mono2)

declare gc_rounds.simps [simp del]

definition gc_step :: "gc_env \<Rightarrow> flat_mpt \<Rightarrow> (nat \<times> flat_mpt) fm" where
  "gc_step env db = gc_rounds env 0 db"

section \<open>Snapshots and split collection\<close>

record flat_snapshot =
  sn_root :: ram_node
  sn_gen :: nat

definition snapshot :: "flat_mpt \<Rightarrow> flat_file \<Rightarrow> flat_snapshot \<times> flat_file" where
  "snapshot db f = (case pin_snapshot f of (g, f') \<Rightarrow> (\<lparr>sn_root = db_upper db, sn_gen = g\<rparr>, f'))"

text \<open>\<^verbatim>\<open>Clone\<close> and \<^verbatim>\<open>Drop\<close> of a snapshot.\<close>

definition snapshot_clone :: "flat_snapshot \<Rightarrow> flat_file \<Rightarrow> flat_snapshot \<times> flat_file" where
  "snapshot_clone s f = (\<lparr>sn_root = sn_root s, sn_gen = sn_gen s\<rparr>, pin_snapshot_at f (sn_gen s))"

definition snapshot_drop :: "flat_snapshot \<Rightarrow> flat_file \<Rightarrow> flat_file" where
  "snapshot_drop s f = unpin_snapshot f (sn_gen s)"

definition snap_get_value :: "prims \<Rightarrow> flat_file \<Rightarrow> flat_snapshot \<Rightarrow> bytes \<Rightarrow> bytes option res" where
  "snap_get_value P f s key = ram_get P f (sn_root s) (key_nibbles key) 0"

definition snap_get_storage :: "prims \<Rightarrow> flat_file \<Rightarrow> flat_snapshot \<Rightarrow> bytes \<Rightarrow> bytes \<Rightarrow> bytes option res" where
  "snap_get_storage P f s account_key slot_key = ram_get_storage P f (sn_root s) (key_nibbles account_key) 0 slot_key"

record gc_batch =
  gb_snap :: flat_snapshot
  gb_items :: "(nibs \<times> disk_ptr \<times> disk_ptr) list"
  gb_victims :: "nat list"

text \<open>
  The workers scan contiguous chunks of the victims and their results are joined
  in order. An early return drops the snapshot the call consumed.
\<close>

definition gc_collect ::
  "gc_env \<Rightarrow> (planned_run list \<Rightarrow> planned_run list) \<Rightarrow> flat_snapshot \<Rightarrow> nat \<Rightarrow> gc_batch fm" where
  "gc_collect env order s max_regions = (\<lambda>f.
     (if ff_end f < GC_MIN_PAGES \<or> at_target env f
      then (Ok \<lparr>gb_snap = s, gb_items = [], gb_victims = []\<rparr>, f)
      else
        (let victims = select_victims (ge_score env) (ff_seg f) max_regions (ge_bg_cap env) in
         if victims = [] then (Ok \<lparr>gb_snap = s, gb_items = [], gb_victims = []\<rparr>, f)
         else
           (case scan_regions (sn_root s) [] f victims of
              Err e \<Rightarrow> (Err e, snapshot_drop s f)
            | Ok live \<Rightarrow>
                if live = [] then (Ok \<lparr>gb_snap = s, gb_items = [], gb_victims = victims\<rparr>, f)
                else
                  (case write_batch_parallel order f (map (\<lambda>(prefix, payload, old). payload) live) of
                     (Err e, f') \<Rightarrow> (Err e, snapshot_drop s f')
                   | (Ok new_ptrs, f') \<Rightarrow>
                       (Ok \<lparr>gb_snap = s,
                            gb_items = map (\<lambda>((prefix, payload, old), new). (prefix, old, new)) (zip live new_ptrs),
                            gb_victims = victims\<rparr>, f'))))))"

fun install_items :: "(nibs \<times> disk_ptr \<times> disk_ptr) list \<Rightarrow> nat \<Rightarrow> nat \<Rightarrow> ram_node \<Rightarrow> flat_file \<Rightarrow>
    (nat \<times> nat \<times> ram_node) res \<times> flat_file" where
  "install_items [] installed discarded upper f = (Ok (installed, discarded, upper), f)"
| "install_items ((prefix, old, new) # items) installed discarded upper f =
     (case find_disk_ptr upper prefix 0 of
        Err e \<Rightarrow> (Err e, f)
      | Ok found \<Rightarrow>
          if found = Some old then
            (case install_ptr_by_prefix upper prefix 0 new of
               Err e \<Rightarrow> (Err e, f)
             | Ok (b, upper') \<Rightarrow>
                 if b then install_items items (installed + 1) discarded upper' (ff_free f old)
                 else install_items items installed (discarded + 1) upper' (ff_free f new))
          else install_items items installed (discarded + 1) upper (ff_free f new))"

definition assert_paths :: "gc_env \<Rightarrow> nat list \<Rightarrow> region_alloc \<Rightarrow> bool" where
  "assert_paths env victims seg =
     (ge_assert env \<longrightarrow> \<not> list_ex (\<lambda>r. 0 < (if r < length (ra_live seg) then ra_live seg ! r else 0)) victims)"

definition gc_install :: "gc_env \<Rightarrow> gc_batch \<Rightarrow> flat_mpt \<Rightarrow> (nat \<times> nat \<times> flat_mpt) fm" where
  "gc_install env batch db = (\<lambda>f.
     (case install_items (gb_items batch) 0 0 (db_upper db) f of
        (Err e, f) \<Rightarrow> (Err e, snapshot_drop (gb_snap batch) f)
      | (Ok (installed, discarded, upper), f) \<Rightarrow>
          if assert_paths env (gb_victims batch) (ff_seg f)
          then (Ok (installed, discarded, db\<lparr>db_upper := upper\<rparr>),
                snapshot_drop (gb_snap batch) (pin_victims (gb_victims batch) f))
          else (Err (Panic ''GC: victim region holds live units invisible to the collect walk''),
                snapshot_drop (gb_snap batch) f)))"

section \<open>Spilling RAM records\<close>

definition I64_MAX :: int where "I64_MAX = 2 ^ 63 - 1"

record spill_buf =
  sb_prefixes :: "nibs list"
  sb_payloads :: "bytes list"
  sb_installs :: "(nibs \<times> disk_ptr) list"
  sb_budget :: int
  sb_force :: bool

definition flush_spill_chunk :: "spill_buf \<Rightarrow> spill_buf fm" where
  "flush_spill_chunk buf =
     (if sb_payloads buf = [] then fret buf
      else fbind (fwrite_batch (sb_payloads buf)) (\<lambda>ptrs.
        fret (buf\<lparr>sb_installs := sb_installs buf @ zip (sb_prefixes buf) ptrs, sb_prefixes := [], sb_payloads := []\<rparr>)))"

text \<open>
  \<open>touched q\<close> is the second-chance bit of the RAM record at the slot \<open>q\<close>, as the walk
  finds it. \<open>spill_slots\<close> is the loop over the children of a branch. Budgets are
  positive at every call, so that halving them needs no rounding rule.
\<close>

fun spill_slots :: "(nibs \<Rightarrow> spill_buf \<Rightarrow> (ram_child \<times> spill_buf) fm) option list \<Rightarrow> nat \<Rightarrow> nibs \<Rightarrow> spill_buf
    \<Rightarrow> (ram_child option list \<times> spill_buf) fm" where
  "spill_slots [] i prefix buf = fret ([], buf)"
| "spill_slots (None # gs) i prefix buf =
     fbind (spill_slots gs (Suc i) prefix buf) (\<lambda>(cs, buf). fret (None # cs, buf))"
| "spill_slots (Some g # gs) i prefix buf =
     fbind (g (prefix @ [word_of_nat i]) buf) (\<lambda>(c, buf).
     fbind (spill_slots gs (Suc i) prefix buf) (\<lambda>(cs, buf). fret (Some c # cs, buf)))"

definition spill_mem_leaf :: "(nibs \<Rightarrow> bool) \<Rightarrow> nat \<Rightarrow> bytes \<Rightarrow> bytes \<Rightarrow> nibs \<Rightarrow> spill_buf \<Rightarrow> (ram_child \<times> spill_buf) fm" where
  "spill_mem_leaf touched chunk bs root cp buf =
     (if sb_budget buf < 0 then fret (RMem bs root, buf)
      else if \<not> sb_force buf \<and> sb_budget buf < I64_MAX div 2 \<and> touched cp then fret (RMem bs root, buf)
      else
        (let c = RDisk \<lparr>dp_unit = 0, dp_len = word_of_nat (length bs)\<rparr> root;
             buf = buf\<lparr>sb_budget := sb_budget buf - int (length bs), sb_prefixes := sb_prefixes buf @ [cp],
                       sb_payloads := sb_payloads buf @ [bs]\<rparr>
         in if chunk \<le> length (sb_payloads buf) then fbind (flush_spill_chunk buf) (\<lambda>buf. fret (c, buf))
            else fret (c, buf)))"

primrec spill_walk :: "(nibs \<Rightarrow> bool) \<Rightarrow> nat \<Rightarrow> ram_node \<Rightarrow> nibs \<Rightarrow> spill_buf \<Rightarrow> (ram_node \<times> spill_buf) fm"
  and spill_child :: "(nibs \<Rightarrow> bool) \<Rightarrow> nat \<Rightarrow> ram_child \<Rightarrow> nibs \<Rightarrow> spill_buf \<Rightarrow> (ram_child \<times> spill_buf) fm" where
  "spill_walk touched chunk REmpty = (\<lambda>prefix buf. fret (REmpty, buf))"
| "spill_walk touched chunk (RExtension path child hash) = (\<lambda>prefix buf.
     fbind (spill_walk touched chunk child (prefix @ path) buf) (\<lambda>(child', buf). fret (RExtension path child' hash, buf)))"
| "spill_walk touched chunk (RBranch children hash) = (\<lambda>prefix buf.
     fbind (spill_slots (map (map_option (spill_child touched chunk)) children) 0 prefix buf) (\<lambda>(children', buf).
       fret (RBranch children' hash, buf)))"
| "spill_child touched chunk (RRam child) = (\<lambda>cp buf.
     fbind (spill_walk touched chunk child cp buf) (\<lambda>(child', buf). fret (RRam child', buf)))"
| "spill_child touched chunk (RMem bs root) = spill_mem_leaf touched chunk bs root"
| "spill_child touched chunk (RDisk ptr root) = (\<lambda>cp buf. fret (RDisk ptr root, buf))"
| "spill_child touched chunk (RAccount path nonce balance code_hash storage) = (\<lambda>cp buf.
     fbind (spill_walk touched chunk storage (cp @ path) buf) (\<lambda>(storage', buf).
       fret (RAccount path nonce balance code_hash storage', buf)))"

fun install_spilled :: "ram_node \<Rightarrow> (nibs \<times> disk_ptr) list \<Rightarrow> ram_node res" where
  "install_spilled upper [] = Ok upper"
| "install_spilled upper ((prefix, ptr) # installs) =
     res_bind (install_ptr_by_prefix upper prefix 0 ptr) (\<lambda>(b, upper').
       if b then install_spilled upper' installs
       else Err (Bail ''spill install found no Disk slot at prefix''))"

definition CHUNK :: nat where "CHUNK = 8192"

definition spill_quota :: "(nibs \<Rightarrow> bool) \<Rightarrow> int \<Rightarrow> flat_mpt \<Rightarrow> flat_mpt fm" where
  "spill_quota touched budget db =
     (let buf = \<lparr>sb_prefixes = [], sb_payloads = [], sb_installs = [], sb_budget = budget, sb_force = False\<rparr> in
      fbind (spill_walk touched CHUNK (db_upper db) [] buf) (\<lambda>(upper, buf).
      fbind (if budget div 2 < sb_budget buf \<and> budget < I64_MAX div 2
             then spill_walk touched CHUNK upper [] (buf\<lparr>sb_force := True\<rparr>) else fret (upper, buf)) (\<lambda>(upper, buf).
      fbind (flush_spill_chunk buf) (\<lambda>buf.
      fbind (flift (install_spilled upper (sb_installs buf))) (\<lambda>upper.
        fret (db\<lparr>db_upper := upper\<rparr>))))))"

definition spill_mem :: "(nibs \<Rightarrow> bool) \<Rightarrow> flat_mpt \<Rightarrow> flat_mpt fm" where
  "spill_mem touched db = spill_quota touched I64_MAX db"

text \<open>\<open>footprint\<close> says whether the process has reached the spill threshold.\<close>

definition maybe_spill :: "(nibs \<Rightarrow> bool) \<Rightarrow> bool \<Rightarrow> flat_mpt \<Rightarrow> flat_mpt fm" where
  "maybe_spill touched footprint db = (if db_ram db \<and> footprint then spill_mem touched db else fret db)"

section \<open>Live counts\<close>

primrec recompute_live :: "ram_node \<Rightarrow> nat list \<Rightarrow> nat list"
  and recompute_child :: "ram_child \<Rightarrow> nat list \<Rightarrow> nat list" where
  "recompute_live REmpty = (\<lambda>live. live)"
| "recompute_live (RExtension path child hash) = recompute_live child"
| "recompute_live (RBranch children hash) = (\<lambda>live. fold (\<lambda>g live. g live) (somes (map (map_option recompute_child) children)) live)"
| "recompute_child (RRam child) = recompute_live child"
| "recompute_child (RMem bs root) = (\<lambda>live. live)"
| "recompute_child (RDisk ptr root) = (\<lambda>live.
     (let r = region_of_unit (unat (dp_unit ptr)) in
      if r < length live then live[r := live ! r + dp_units ptr] else live))"
| "recompute_child (RAccount path nonce balance code_hash storage) = recompute_live storage"

definition audit_live_units :: "flat_mpt \<Rightarrow> flat_file \<Rightarrow> nat \<times> nat" where
  "audit_live_units db f =
     (let alloc_live = fst (live_and_free_units f);
          num_regions = div_ceil (ff_end f) REGION_PAGES + 1
      in (alloc_live, sum_list (recompute_live (db_upper db) (replicate num_regions 0))))"

section \<open>Checkpoint and reopening\<close>

text \<open>
  The manifest and the two files that hold it. \<open>ser\<close> and \<open>de\<close> stand for the
  serializer \<^verbatim>\<open>bincode\<close>.
\<close>

record manifest =
  mf_cfg :: config
  mf_upper :: ram_node
  mf_end :: nat

record meta_files =
  md_meta :: "bytes option"
  md_prev :: "bytes option"

definition manifest_bytes :: "prims \<Rightarrow> (manifest \<Rightarrow> bytes res) \<Rightarrow> manifest \<Rightarrow> bytes res" where
  "manifest_bytes P ser m = res_map (\<lambda>bytes. bytes @ keccak256 P bytes) (ser m)"

definition read_manifest :: "prims \<Rightarrow> (bytes \<Rightarrow> manifest res) \<Rightarrow> bytes option \<Rightarrow> manifest res" where
  "read_manifest P de file =
     (case file of
        None \<Rightarrow> Err (IoErr ''No such file or directory'')
      | Some bytes \<Rightarrow>
          (let body = take (length bytes - 32) bytes; trailer = drop (length bytes - 32) bytes in
           if 32 < length bytes \<and> keccak256 P body = trailer then de body else de bytes))"

text \<open>The states of the two files while a new manifest replaces the old one.\<close>

definition commit_states :: "bytes \<Rightarrow> meta_files \<Rightarrow> meta_files list" where
  "commit_states bytes d =
     (let d1 = d\<lparr>md_prev := None\<rparr>;
          d2 = (case md_meta d of None \<Rightarrow> d1 | Some m \<Rightarrow> d1\<lparr>md_prev := Some m\<rparr>);
          d3 = d2\<lparr>md_meta := Some bytes\<rparr>
      in [d, d1, d2, d3])"

text \<open>
  \<^verbatim>\<open>persist\<close> up to the commit: the database, the manifest's bytes. The sync makes
  the file's bytes durable; then the manifest is committed and the allocator told.
\<close>

definition persist_prepare :: "prims \<Rightarrow> gc_env \<Rightarrow> (manifest \<Rightarrow> bytes res) \<Rightarrow> (nibs \<Rightarrow> bool) \<Rightarrow> flat_mpt \<Rightarrow> (bytes \<times> flat_mpt) fm" where
  "persist_prepare P env ser touched db =
     fbind (spill_mem touched db) (\<lambda>db.
     fbind (gc_step env (db\<lparr>db_ram := False\<rparr>)) (\<lambda>(evacuated, db). (\<lambda>f.
       (res_map (\<lambda>bytes. (bytes, db))
          (manifest_bytes P ser \<lparr>mf_cfg = db_cfg db, mf_upper = db_upper db, mf_end = ff_end f\<rparr>), f))))"

definition persist :: "prims \<Rightarrow> gc_env \<Rightarrow> (manifest \<Rightarrow> bytes res) \<Rightarrow> (nibs \<Rightarrow> bool) \<Rightarrow> flat_mpt \<Rightarrow> meta_files
    \<Rightarrow> (flat_mpt \<times> meta_files) fm" where
  "persist P env ser touched db d =
     fbind (persist_prepare P env ser touched db) (\<lambda>(bytes, db). (\<lambda>f.
       (Ok (db, last (commit_states bytes d)), f\<lparr>ff_seg := on_persisted (ff_seg f)\<rparr>)))"

text \<open>The file is opened as it is found: \<open>data\<close>.\<close>

definition open_store :: "manifest \<Rightarrow> bool \<Rightarrow> bytes \<Rightarrow> flat_file" where
  "open_store m direct data =
     (let num_regions = div_ceil (mf_end m) REGION_PAGES;
          seg = ra_default\<lparr>ra_live := replicate num_regions 0, ra_epoch_of := replicate num_regions 0\<rparr>;
          seg = seg\<lparr>ra_live := recompute_live (mf_upper m) (replicate num_regions 0), ra_head := num_regions,
                    ra_next := num_regions * REGION_UNITS\<rparr>
      in \<lparr>ff_data = data, ff_seg = ensure_region num_regions seg, ff_end = num_regions * REGION_PAGES,
          ff_direct = direct, ff_ahead = [], ff_ahead_len = 0\<rparr>)"

definition open_db :: "prims \<Rightarrow> (bytes \<Rightarrow> manifest res) \<Rightarrow> bool \<Rightarrow> bytes \<Rightarrow> meta_files \<Rightarrow> (flat_mpt \<times> flat_file) res" where
  "open_db P de direct data d =
     res_bind (case read_manifest P de (md_meta d) of
                 Ok m \<Rightarrow> Ok m
               | Err e \<Rightarrow> (case read_manifest P de (md_prev d) of
                   Ok m \<Rightarrow> Ok m
                 | Err e \<Rightarrow> Err (Bail ''no usable manifest''))) (\<lambda>m.
       Ok (\<lparr>db_cfg = mf_cfg m, db_upper = mf_upper m, db_ram = False, db_gc = 0\<rparr>, open_store m direct data))"

end
