(* ===== verification/Slots.thy ===== *)
theory Slots
  imports Maintain FrontierDb
begin

text \<open>
  The leaf slots of a frontier, addressed by their nibble prefix, and what the
  maintenance operations do to them: finding and retargeting a slot, scanning a
  region for the records the frontier points at, rebuilding the live counts.
\<close>

section \<open>Leaf slots\<close>

text \<open>
  The RAM and disk records of a frontier with their prefixes, and the frontier with
  every one of them replaced.
\<close>

definition branch_slots :: "(nibs \<Rightarrow> 'a list) option list \<Rightarrow> nibs \<Rightarrow> 'a list" where
  "branch_slots gs pre = concat (map (\<lambda>i. case gs ! i of None \<Rightarrow> [] | Some g \<Rightarrow> g (pre @ [word_of_nat i])) [0..<length gs])"

primrec slots :: "ram_node \<Rightarrow> nibs \<Rightarrow> (nibs \<times> ram_child) list" and cslots :: "ram_child \<Rightarrow> nibs \<Rightarrow> (nibs \<times> ram_child) list" where
  "slots REmpty = (\<lambda>pre. [])"
| "slots (RExtension p c h) = (\<lambda>pre. slots c (pre @ p))"
| "slots (RBranch cs h) = branch_slots (map (map_option cslots) cs)"
| "cslots (RRam n) = slots n"
| "cslots (RDisk ptr root) = (\<lambda>pre. [(pre, RDisk ptr root)])"
| "cslots (RMem bs root) = (\<lambda>pre. [(pre, RMem bs root)])"
| "cslots (RAccount p n b c st) = (\<lambda>pre. slots st (pre @ p))"

type_synonym slot_map = "nibs \<Rightarrow> ram_child \<Rightarrow> ram_child"

primrec remap :: "slot_map \<Rightarrow> ram_node \<Rightarrow> nibs \<Rightarrow> ram_node" and cremap :: "slot_map \<Rightarrow> ram_child \<Rightarrow> nibs \<Rightarrow> ram_child" where
  "remap s REmpty = (\<lambda>pre. REmpty)"
| "remap s (RExtension p c h) = (\<lambda>pre. RExtension p (remap s c (pre @ p)) h)"
| "remap s (RBranch cs h) = (\<lambda>pre. RBranch (map (\<lambda>i. map_option (\<lambda>g. g (pre @ [word_of_nat i]))
     (map (map_option (cremap s)) cs ! i)) [0..<length cs]) h)"
| "cremap s (RRam n) = (\<lambda>pre. RRam (remap s n pre))"
| "cremap s (RDisk ptr root) = (\<lambda>pre. s pre (RDisk ptr root))"
| "cremap s (RMem bs root) = (\<lambda>pre. s pre (RMem bs root))"
| "cremap s (RAccount p n b c st) = (\<lambda>pre. RAccount p n b c (remap s st (pre @ p)))"

lemma branch_slots_in:
  "x \<in> set (branch_slots (map (map_option g) cs) pre) \<longleftrightarrow>
     (\<exists>i c. i < length cs \<and> cs ! i = Some c \<and> x \<in> set (g c (pre @ [word_of_nat i])))"
  by (auto simp: branch_slots_def split: option.splits) force+

lemma remap_RBranch [simp]:
  "remap s (RBranch cs h) pre = RBranch (map (\<lambda>i. map_option (\<lambda>c. cremap s c (pre @ [word_of_nat i])) (cs ! i)) [0..<length cs]) h"
  by (auto simp: option.map_comp comp_def)

declare remap.simps(3) [simp del]

lemma remap_slot: "i < length cs \<Longrightarrow> map (\<lambda>i. map_option (\<lambda>c. cremap s c (pre @ [word_of_nat i])) (cs ! i)) [0..<length cs] ! i
    = map_option (\<lambda>c. cremap s c (pre @ [word_of_nat i])) (cs ! i)"
  by simp

text \<open>Every branch has 16 children, as the array of the source has.\<close>

primrec kids :: "ram_node \<Rightarrow> bool" and ckids :: "ram_child \<Rightarrow> bool" where
  "kids REmpty = True"
| "kids (RExtension p c h) = kids c"
| "kids (RBranch cs h) = (length cs = 16 \<and> list_all (\<lambda>b. b = None \<or> b = Some True) (map (map_option ckids) cs))"
| "ckids (RRam n) = kids n"
| "ckids (RDisk ptr root) = True"
| "ckids (RMem bs root) = True"
| "ckids (RAccount p n b c st) = kids st"

lemma kids_RBranch [simp]: "kids (RBranch cs h) = (length cs = 16 \<and> (\<forall>c. Some c \<in> set cs \<longrightarrow> ckids c))"
  by (auto simp: list_all_iff image_iff) (metis option.exhaust option.simps(9))+

declare kids.simps(3) [simp del]

lemma frep_kids:
  "frep P M n pre t \<Longrightarrow> kids n"
  "crep P M c pre t \<Longrightarrow> ckids c"
proof (induction n and c arbitrary: pre t and pre t)
  case (RBranch cs h)
  obtain ts where ts: "length cs = 16" "length ts = 16"
    "\<And>i. i < 16 \<Longrightarrow> rel_option (\<lambda>c u. crep P M c (pre @ [word_of_nat i]) u) (cs ! i) (ts ! i)"
    using RBranch.prems unfolding frep_RBranch by auto
  have "ckids c" if c: "Some c \<in> set cs" for c
  proof -
    obtain i where "i < 16" "cs ! i = Some c" using slot_at [OF ts(1) c] .
    from frep_slot [OF ts(3,1,2) this] obtain u where "crep P M c (pre @ [word_of_nat i]) u" by blast
    then show ?thesis using RBranch.IH [OF c] by simp
  qed
  then show ?case using ts(1) by simp
qed auto

section \<open>Reading the slots\<close>

lemma get_range_Some: "get_range xs i n = Some ys \<longleftrightarrow> i + n \<le> length xs \<and> ys = slice xs i n"
  by (auto simp: get_range_def)

lemma slice_extend: "take i xs = pre \<Longrightarrow> i = length pre \<Longrightarrow> get_range xs i n = Some p \<Longrightarrow>
    take (i + n) xs = pre @ p \<and> i + n = length (pre @ p)"
  by (auto simp: get_range_def slice_def take_add split: if_splits)

lemma get_at_extend: "take i xs = pre \<Longrightarrow> get_at xs i = Some x \<Longrightarrow> take (i + 1) xs = pre @ [x]"
  by (auto simp: get_at_def take_Suc_conv_app_nth split: if_splits)

lemma nibble_word: "(x :: byte) < 16 \<Longrightarrow> word_of_nat (unat x) = x \<and> unat x < 16"
  using nibble_unat by (auto simp: word_unat_eq_iff)

lemma nibs_ok_take_snoc: "nibs_ok xs \<Longrightarrow> get_at xs i = Some x \<Longrightarrow> x < 16"
  using nibs_ok_nth [of xs i] by (auto simp: get_at_def split: if_splits)

lemma find_ok:
  "kids n \<Longrightarrow> nibs_ok q \<Longrightarrow> \<exists>r. find_disk_ptr n q d = Ok r"
  "ckids c \<Longrightarrow> nibs_ok q \<Longrightarrow> \<exists>r. find_disk_child c q d = Ok r"
proof (induction n and c arbitrary: d and d)
  case (RBranch cs h)
  show ?case
  proof (cases "get_at q d")
    case (Some x)
    then have x: "unat x < 16" using nibs_ok_take_snoc [OF RBranch.prems(2)] nibble_word by blast
    show ?thesis
    proof (cases "cs ! unat x")
      case None
      then show ?thesis using Some x RBranch.prems(1) by (simp add: index_def)
    next
      case (Some c)
      then have "Some c \<in> set cs" using x RBranch.prems(1) nth_mem [of "unat x" cs] by simp
      then obtain r where "find_disk_child c q (d + 1) = Ok r"
        using RBranch.IH [of "Some c" c "d + 1"] RBranch.prems by auto
      then show ?thesis using \<open>get_at q d = Some x\<close> Some x RBranch.prems(1) by (simp add: index_def)
    qed
  qed simp
qed auto

text \<open>What finding returns is a disk slot whose prefix is a prefix of the path.\<close>

lemma find_sound:
  "find_disk_ptr n q d = Ok (Some ptr) \<Longrightarrow> kids n \<Longrightarrow> nibs_ok q \<Longrightarrow> take d q = pre \<Longrightarrow> d = length pre \<Longrightarrow>
     \<exists>q' root. (q', RDisk ptr root) \<in> set (slots n pre) \<and> q' = take (length q') q"
  "find_disk_child c q d = Ok (Some ptr) \<Longrightarrow> ckids c \<Longrightarrow> nibs_ok q \<Longrightarrow> take d q = pre \<Longrightarrow> d = length pre \<Longrightarrow>
     \<exists>q' root. (q', RDisk ptr root) \<in> set (cslots c pre) \<and> q' = take (length q') q"
proof (induction n and c arbitrary: d pre and d pre)
  case (RExtension p n h)
  then have g: "get_range q d (length p) = Some p" "find_disk_ptr n q (d + length p) = Ok (Some ptr)" by (auto split: if_splits)
  from slice_extend [OF RExtension.prems(4,5) g(1)] RExtension.IH [OF g(2)] RExtension.prems(2,3) show ?case by auto
next
  case (RBranch cs h)
  then obtain x where x: "get_at q d = Some x" by (auto split: option.splits)
  then have w: "word_of_nat (unat x) = x" "unat x < 16" using nibs_ok_take_snoc [OF RBranch.prems(3)] nibble_word by blast+
  then obtain c where c: "cs ! unat x = Some c" "find_disk_child c q (d + 1) = Ok (Some ptr)"
    using RBranch.prems(1,2) x by (auto simp: index_def split: option.splits)
  have m: "Some c \<in> set cs" using w(2) c(1) RBranch.prems(2) nth_mem [of "unat x" cs] by simp
  have "take (d + 1) q = pre @ [x]" by (rule get_at_extend [OF RBranch.prems(4) x])
  then obtain q' root where q': "(q', RDisk ptr root) \<in> set (cslots c (pre @ [x]))" "q' = take (length q') q"
    using RBranch.IH [OF m _ c(2)] RBranch.prems m by auto
  then have "(q', RDisk ptr root) \<in> set (slots (RBranch cs h) pre)"
    unfolding slots.simps branch_slots_in using w c(1) RBranch.prems(2) by (intro exI [of _ "unat x"] exI [of _ c]) simp
  with q'(2) show ?case by blast
next
  case (RAccount p n b c st)
  then have g: "get_range q d (length p) = Some p" "find_disk_ptr st q (d + length p) = Ok (Some ptr)" by (auto split: if_splits)
  from slice_extend [OF RAccount.prems(4,5) g(1)] RAccount.IH [OF g(2)] RAccount.prems(2,3) show ?case by auto
next
  case (RRam n)
  then show ?case by simp
qed auto

lemma slots_prefix:
  "(q, x) \<in> set (slots n pre) \<Longrightarrow> \<exists>rest. q = pre @ rest"
  "(q, x) \<in> set (cslots c pre) \<Longrightarrow> \<exists>rest. q = pre @ rest"
proof (induction n and c arbitrary: pre and pre)
  case (RBranch cs h)
  then obtain i c where i: "i < length cs" "cs ! i = Some c" "(q, x) \<in> set (cslots c (pre @ [word_of_nat i]))"
    by (auto simp: branch_slots_in)
  then have "Some c \<in> set cs" using nth_mem [of i cs] by simp
  with RBranch.IH [OF this _ i(3)] show ?case by auto
qed fastforce+

lemma remap_id:
  "(\<And>q x. (q, x) \<in> set (slots n pre) \<Longrightarrow> s q x = x) \<Longrightarrow> remap s n pre = n"
  "(\<And>q x. (q, x) \<in> set (cslots c pre) \<Longrightarrow> s q x = x) \<Longrightarrow> cremap s c pre = c"
proof (induction n and c arbitrary: pre and pre)
  case (RBranch cs h)
  have "map_option (\<lambda>c. cremap s c (pre @ [word_of_nat i])) (cs ! i) = cs ! i" if i: "i < length cs" for i
  proof (cases "cs ! i")
    case (Some c)
    then have m: "Some c \<in> set cs" using i nth_mem [of i cs] by simp
    have "cremap s c (pre @ [word_of_nat i]) = c"
      by (rule RBranch.IH [OF m]) (use RBranch.prems i Some in \<open>auto simp: branch_slots_in\<close>)
    then show ?thesis using Some by simp
  qed simp
  then show ?case by (auto intro: nth_equalityI)
qed auto

fun with_ptr :: "disk_ptr \<Rightarrow> ram_child \<Rightarrow> ram_child" where
  "with_ptr new (RDisk ptr root) = RDisk new root"
| "with_ptr new c = c"

definition at_slot :: "nibs \<Rightarrow> disk_ptr \<Rightarrow> slot_map" where
  "at_slot q new = (\<lambda>q' c. if q' = q then with_ptr new c else c)"

fun slot_ptr :: "ram_child \<Rightarrow> disk_ptr option" where
  "slot_ptr (RDisk ptr root) = Some ptr"
| "slot_ptr c = None"

lemma get_at_append: "get_at (pre @ x # rest) (length pre) = Some x"
  by (simp add: get_at_def)

lemma get_range_append: "get_range (pre @ p @ rest) (length pre) (length p) = Some p"
  by (simp add: get_range_def slice_def)

lemma index_slot: "i < length cs \<Longrightarrow> index (map f cs) i = Ok (f (cs ! i))"
  by (simp add: index_def)

text \<open>Finding and retargeting at the exact prefix of a slot.\<close>

lemma slots_find:
  "(q, x) \<in> set (slots n pre) \<Longrightarrow> kids n \<Longrightarrow> find_disk_ptr n q (length pre) = Ok (slot_ptr x)"
  "(q, x) \<in> set (cslots c pre) \<Longrightarrow> ckids c \<Longrightarrow> find_disk_child c q (length pre) = Ok (slot_ptr x)"
proof (induction n and c arbitrary: pre and pre)
  case (RExtension p n h)
  then obtain rest where "q = pre @ p @ rest" using slots_prefix(1) [of q x n "pre @ p"] by auto
  then show ?case using RExtension.IH [of "pre @ p"] RExtension.prems by (simp add: get_range_append)
next
  case (RBranch cs h)
  obtain i c where i: "i < 16" "cs ! i = Some c" "(q, x) \<in> set (cslots c (pre @ [word_of_nat i]))"
    using RBranch.prems by (auto simp: branch_slots_in)
  have m: "Some c \<in> set cs" using i RBranch.prems(2) nth_mem [of i cs] by simp
  obtain rest where q: "q = pre @ word_of_nat i # rest" using slots_prefix(2) [OF i(3)] by auto
  have "find_disk_child c q (length pre + 1) = Ok (slot_ptr x)"
    using RBranch.IH [OF m _ i(3)] RBranch.prems(2) m by simp
  then show ?case using i(1,2) RBranch.prems(2) q by (simp add: get_at_append index_slot nibble_of_nat(2))
next
  case (RAccount p n b c st)
  then obtain rest where "q = pre @ p @ rest" using slots_prefix(1) [of q x st "pre @ p"] by auto
  then show ?case using RAccount.IH [of "pre @ p"] RAccount.prems by (simp add: get_range_append)
qed auto

lemma nibble_inj: "i < 16 \<Longrightarrow> j < 16 \<Longrightarrow> (word_of_nat i :: byte) = word_of_nat j \<longleftrightarrow> i = j"
  using nibble_of_nat(2) by metis

lemma slots_install:
  "(q, x) \<in> set (slots n pre) \<Longrightarrow> kids n \<Longrightarrow>
     install_ptr_by_prefix n q (length pre) new = Ok (slot_ptr x \<noteq> None, remap (at_slot q new) n pre)"
  "(q, x) \<in> set (cslots c pre) \<Longrightarrow> ckids c \<Longrightarrow>
     install_child c q (length pre) new = Ok (slot_ptr x \<noteq> None, cremap (at_slot q new) c pre)"
proof (induction n and c arbitrary: pre and pre)
  case (RExtension p n h)
  then obtain rest where "q = pre @ p @ rest" using slots_prefix(1) [of q x n "pre @ p"] by auto
  then show ?case using RExtension.IH [of "pre @ p"] RExtension.prems by (simp add: get_range_append res_map_def)
next
  case (RBranch cs h)
  obtain i c where i: "i < 16" "cs ! i = Some c" "(q, x) \<in> set (cslots c (pre @ [word_of_nat i]))"
    using RBranch.prems by (auto simp: branch_slots_in)
  have l: "length cs = 16" using RBranch.prems(2) by simp
  have m: "Some c \<in> set cs" using i l nth_mem [of i cs] by simp
  obtain rest where q: "q = pre @ word_of_nat i # rest" using slots_prefix(2) [OF i(3)] by auto
  let ?c = "cremap (at_slot q new) c (pre @ [word_of_nat i])"
  have c: "install_child c q (length pre + 1) new = Ok (slot_ptr x \<noteq> None, ?c)"
    using RBranch.IH [OF m _ i(3)] RBranch.prems(2) m by simp
  have "map_option (\<lambda>c. cremap (at_slot q new) c (pre @ [word_of_nat j])) (cs ! j) = cs ! j" if j: "j < 16" "j \<noteq> i" for j
  proof (cases "cs ! j")
    case (Some c')
    have "at_slot q new q' y = y" if y: "(q', y) \<in> set (cslots c' (pre @ [word_of_nat j]))" for q' y
      using slots_prefix(2) [OF y] q nibble_inj [of i j] i(1) j by (auto simp: at_slot_def)
    then show ?thesis using Some remap_id(2) by simp
  qed simp
  then have "cs[i := Some ?c] = map (\<lambda>j. map_option (\<lambda>c. cremap (at_slot q new) c (pre @ [word_of_nat j])) (cs ! j)) [0..<length cs]"
    using i(1,2) l by (intro nth_equalityI) (auto simp: nth_list_update)
  then show ?case using c i(1,2) l q by (simp add: get_at_append index_slot nibble_of_nat(2) res_map_def)
next
  case (RAccount p n b c st)
  then obtain rest where "q = pre @ p @ rest" using slots_prefix(1) [of q x st "pre @ p"] by auto
  then show ?case using RAccount.IH [of "pre @ p"] RAccount.prems by (simp add: get_range_append res_map_def)
next
  case (RRam n)
  then show ?case by (simp add: res_map_def)
qed (auto simp: at_slot_def)

section \<open>Replacing the slots\<close>

fun is_slot :: "ram_child \<Rightarrow> bool" where
  "is_slot (RDisk ptr root) = True"
| "is_slot (RMem bs root) = True"
| "is_slot c = False"

lemma slots_leaf:
  "(q, x) \<in> set (slots n pre) \<Longrightarrow> is_slot x"
  "(q, x) \<in> set (cslots c pre) \<Longrightarrow> is_slot x"
proof (induction n and c arbitrary: pre and pre)
  case (RBranch cs h)
  then obtain i c where "i < length cs" "cs ! i = Some c" "(q, x) \<in> set (cslots c (pre @ [word_of_nat i]))"
    by (auto simp: branch_slots_in)
  with RBranch.IH [of "Some c" c "pre @ [word_of_nat i]"] show ?case using nth_mem [of i cs] by auto
qed auto

lemma distinct_concat_upt:
  assumes "\<And>i. i < n \<Longrightarrow> distinct (f i)" and "\<And>i j. i < n \<Longrightarrow> j < n \<Longrightarrow> i \<noteq> j \<Longrightarrow> set (f i) \<inter> set (f j) = {}"
  shows "distinct (concat (map f [0..<n]))"
  using assms
proof (induction n)
  case (Suc n)
  have "set (f i) \<inter> set (f n) = {}" if "i < n" for i using Suc.prems(2) [of i n] that by simp
  then have "set (concat (map f [0..<n])) \<inter> set (f n) = {}" by fastforce
  then show ?case using Suc by simp
qed simp

lemma slots_distinct:
  "kids n \<Longrightarrow> distinct (map fst (slots n pre))"
  "ckids c \<Longrightarrow> distinct (map fst (cslots c pre))"
proof (induction n and c arbitrary: pre and pre)
  case (RBranch cs h)
  let ?f = "\<lambda>i. case cs ! i of None \<Rightarrow> [] | Some c \<Rightarrow> map fst (cslots c (pre @ [word_of_nat i]))"
  have l: "length cs = 16" using RBranch.prems by simp
  have e: "map fst (slots (RBranch cs h) pre) = concat (map ?f [0..<16])"
    by (auto simp: branch_slots_def l map_concat intro!: arg_cong [where f = concat] split: option.splits)
  have p: "\<exists>rest. q = pre @ word_of_nat i # rest" if "q \<in> set (?f i)" for q i
    using that slots_prefix(2) [of q _ _ "pre @ [word_of_nat i]"] by (auto split: option.splits)
  have "distinct (?f i)" if i: "i < 16" for i
  proof (cases "cs ! i")
    case (Some c)
    then have m: "Some c \<in> set cs" using i l nth_mem [of i cs] by simp
    show ?thesis using RBranch.IH [OF m] RBranch.prems m Some by simp
  qed simp
  moreover have "set (?f i) \<inter> set (?f j) = {}" if "i < 16" "j < 16" "i \<noteq> j" for i j
  proof -
    have False if q: "q \<in> set (?f i)" "q \<in> set (?f j)" for q
      using p [OF q(1)] p [OF q(2)] nibble_inj [of i j] \<open>i < 16\<close> \<open>j < 16\<close> \<open>i \<noteq> j\<close> by auto
    then show ?thesis by blast
  qed
  ultimately show ?case unfolding e by (intro distinct_concat_upt) auto
qed auto

lemma slots_remap:
  "(\<And>q x. (q, x) \<in> set (slots n pre) \<Longrightarrow> is_slot (s q x)) \<Longrightarrow>
     slots (remap s n pre) pre = map (\<lambda>(q, x). (q, s q x)) (slots n pre)"
  "(\<And>q x. (q, x) \<in> set (cslots c pre) \<Longrightarrow> is_slot (s q x)) \<Longrightarrow>
     cslots (cremap s c pre) pre = map (\<lambda>(q, x). (q, s q x)) (cslots c pre)"
proof (induction n and c arbitrary: pre and pre)
  case (RBranch cs h)
  have "cslots (cremap s c (pre @ [word_of_nat i])) (pre @ [word_of_nat i]) = map (\<lambda>(q, x). (q, s q x)) (cslots c (pre @ [word_of_nat i]))"
    if i: "i < length cs" "cs ! i = Some c" for i c
  proof (rule RBranch.IH [of "Some c"])
    show "is_slot (s q x)" if "(q, x) \<in> set (cslots c (pre @ [word_of_nat i]))" for q x
      using RBranch.prems [of q x] i that by (auto simp: branch_slots_in)
  qed (use i nth_mem [of i cs] in auto)
  then show ?case
    by (auto simp: branch_slots_def map_concat option.map_comp comp_def intro!: arg_cong [where f = concat] split: option.splits)
next
  case (RDisk ptr root)
  then show ?case by (cases "s pre (RDisk ptr root)") auto
next
  case (RMem bs root)
  then show ?case by (cases "s pre (RMem bs root)") auto
qed auto

lemma remap_remap:
  "(\<And>q x. (q, x) \<in> set (slots n pre) \<Longrightarrow> is_slot (s q x)) \<Longrightarrow> remap s2 (remap s n pre) pre = remap (\<lambda>q x. s2 q (s q x)) n pre"
  "(\<And>q x. (q, x) \<in> set (cslots c pre) \<Longrightarrow> is_slot (s q x)) \<Longrightarrow> cremap s2 (cremap s c pre) pre = cremap (\<lambda>q x. s2 q (s q x)) c pre"
proof (induction n and c arbitrary: pre and pre)
  case (RBranch cs h)
  have "cremap s2 (cremap s c (pre @ [word_of_nat i])) (pre @ [word_of_nat i]) = cremap (\<lambda>q x. s2 q (s q x)) c (pre @ [word_of_nat i])"
    if i: "i < length cs" "cs ! i = Some c" for i c
  proof (rule RBranch.IH [of "Some c"])
    show "is_slot (s q x)" if "(q, x) \<in> set (cslots c (pre @ [word_of_nat i]))" for q x
      using RBranch.prems [of q x] i that by (auto simp: branch_slots_in)
  qed (use i nth_mem [of i cs] in auto)
  then show ?case by (auto simp: option.map_comp comp_def intro!: option.map_cong)
next
  case (RDisk ptr root)
  then show ?case by (cases "s pre (RDisk ptr root)") auto
next
  case (RMem bs root)
  then show ?case by (cases "s pre (RMem bs root)") auto
qed auto

lemma remap_cong:
  "(\<And>q x. (q, x) \<in> set (slots n pre) \<Longrightarrow> s q x = s' q x) \<Longrightarrow> remap s n pre = remap s' n pre"
  "(\<And>q x. (q, x) \<in> set (cslots c pre) \<Longrightarrow> s q x = s' q x) \<Longrightarrow> cremap s c pre = cremap s' c pre"
proof (induction n and c arbitrary: pre and pre)
  case (RBranch cs h)
  have "cremap s c (pre @ [word_of_nat i]) = cremap s' c (pre @ [word_of_nat i])" if i: "i < length cs" "cs ! i = Some c" for i c
  proof (rule RBranch.IH [of "Some c"])
    show "s q x = s' q x" if "(q, x) \<in> set (cslots c (pre @ [word_of_nat i]))" for q x
      using RBranch.prems [of q x] i that by (auto simp: branch_slots_in)
  qed (use i nth_mem [of i cs] in auto)
  then show ?case by (auto intro!: option.map_cong)
qed auto

lemma concat_somes: "concat (somes (map (map_option f) cs)) = concat (map (\<lambda>i. case cs ! i of None \<Rightarrow> [] | Some c \<Rightarrow> f c) [0..<length cs])"
proof -
  have "concat (somes (map (map_option f) cs)) = concat (map (case_option [] f) cs)"
  proof (induction cs)
    case (Cons c cs)
    then show ?case by (cases c) auto
  qed simp
  also have "\<dots> = concat (map (\<lambda>i. case_option [] f (cs ! i)) [0..<length cs])"
    by (subst map_nth [of cs, symmetric]) (simp add: comp_def del: map_nth)
  finally show ?thesis .
qed

lemma concat_map_concat: "concat (map f (concat xss)) = concat (map (\<lambda>xs. concat (map f xs)) xss)"
  by (induction xss) auto

lemma fptrs_slots:
  "fptrs n = concat (map (\<lambda>(q, x). cptrs x) (slots n pre))"
  "cptrs c = concat (map (\<lambda>(q, x). cptrs x) (cslots c pre))"
proof (induction n and c arbitrary: pre and pre)
  case (RBranch cs h)
  have "cptrs c = concat (map (\<lambda>(q, x). cptrs x) (cslots c (pre @ [word_of_nat i])))" if "i < length cs" "cs ! i = Some c" for i c
    using that RBranch.IH [of "Some c" c] nth_mem [of i cs] by auto
  then show ?case
    unfolding fptrs.simps concat_somes slots.simps branch_slots_def concat_map_concat
    by (auto simp: intro!: arg_cong [where f = concat] split: option.splits)
qed auto

lemma slot_owned: "(q, RDisk ptr root) \<in> set (slots n pre) \<Longrightarrow> ptr \<in> set (fptrs n)"
  unfolding fptrs_slots(1) [of n pre] by force

lemma owned_slot:
  assumes "ptr \<in> set (fptrs n)"
  obtains q root where "(q, RDisk ptr root) \<in> set (slots n pre)"
proof -
  obtain q x where x: "(q, x) \<in> set (slots n pre)" "ptr \<in> set (cptrs x)"
    using assms unfolding fptrs_slots(1) [of n pre] by auto
  then show thesis using slots_leaf(1) [OF x(1)] that by (cases x) auto
qed

text \<open>The slots of a frontier stand for parts of its trie.\<close>

lemma slots_frep:
  "frep P M n pre t \<Longrightarrow> wfb t r \<Longrightarrow> placed pre t r \<Longrightarrow> (q, x) \<in> set (slots n pre) \<Longrightarrow>
     \<exists>u k. crep P M x q u \<and> wf u k \<and> placed q u k \<and> q \<noteq> []"
  "crep P M c pre t \<Longrightarrow> wf t r \<Longrightarrow> placed pre t r \<Longrightarrow> (q, x) \<in> set (cslots c pre) \<Longrightarrow>
     pre \<noteq> [] \<Longrightarrow> \<exists>u k. crep P M x q u \<and> wf u k \<and> placed q u k \<and> q \<noteq> []"
proof (induction n and c arbitrary: pre t r and pre t r)
  case (RExtension p n h)
  then obtain u where u: "t = TExt p u" "frep P M n (pre @ p) u" by auto
  have w: "wf (TExt p u) r" using RExtension.prems(2) u(1) by (simp add: wfb_def)
  note E = placed_ext [OF RExtension.prems(3) [unfolded u(1)] w]
  from RExtension.IH [OF u(2) wf_wfb [OF E(2)] E(1)] RExtension.prems(4) show ?case by simp
next
  case (RBranch cs h)
  obtain ts where ts: "t = TBranch ts" "length cs = 16" "length ts = 16"
    "\<And>i. i < 16 \<Longrightarrow> rel_option (\<lambda>c u. crep P M c (pre @ [word_of_nat i]) u) (cs ! i) (ts ! i)"
    using RBranch.prems(1) unfolding frep_RBranch by auto
  obtain i c where i: "i < 16" "cs ! i = Some c" "(q, x) \<in> set (cslots c (pre @ [word_of_nat i]))"
    using RBranch.prems(4) ts(2) by (auto simp: branch_slots_in)
  from frep_slot [OF ts(4,2,3) i(1,2)] obtain u where
    u: "crep P M c (pre @ [word_of_nat i]) u" "Some u \<in> set ts" "Some c \<in> set cs" by blast
  note C = placed_child [OF RBranch.prems(3,2) [unfolded ts(1)] i(1) u(2)]
  from RBranch.IH [OF u(3) _ u(1) C(3,1) i(3)] show ?case by simp
next
  case (RAccount p n b c st)
  then obtain bal s where s: "t = TAcct p n bal c s" "frep P M st (pre @ p) s" "length (pre @ p) = 64" by auto
  note S = placed_storage [OF RAccount.prems(3,2) [unfolded s(1)] s(3)]
  from RAccount.IH [OF s(2) S(2,1)] RAccount.prems(4) show ?case by simp
next
  case (RRam n)
  from RRam.IH [OF _ wf_wfb [OF RRam.prems(2)] RRam.prems(3)] RRam.prems(1,4) show ?case by simp
qed auto

lemma remap_fh:
  "(\<And>q x. (q, x) \<in> set (slots n pre) \<Longrightarrow> ch P (s q x) = ch P x) \<Longrightarrow> fh P (remap s n pre) = fh P n"
  "(\<And>q x. (q, x) \<in> set (cslots c pre) \<Longrightarrow> ch P (s q x) = ch P x) \<Longrightarrow> ch P (cremap s c pre) = ch P c"
proof (induction n and c arbitrary: pre and pre)
  case (RBranch cs h)
  have "ch P (cremap s c (pre @ [word_of_nat i])) = ch P c" if i: "i < length cs" "cs ! i = Some c" for i c
  proof (rule RBranch.IH [of "Some c"])
    show "ch P (s q x) = ch P x" if "(q, x) \<in> set (cslots c (pre @ [word_of_nat i]))" for q x
      using RBranch.prems [of q x] i that by (auto simp: branch_slots_in)
  qed (use i nth_mem [of i cs] in auto)
  then have "map_option (ch P) (map_option (\<lambda>c. cremap s c (pre @ [word_of_nat i])) (cs ! i)) = map_option (ch P) (cs ! i)"
    if "i < length cs" for i
    using that by (cases "cs ! i") auto
  then have "map (map_option (ch P)) (map (\<lambda>i. map_option (\<lambda>c. cremap s c (pre @ [word_of_nat i])) (cs ! i)) [0..<length cs]) =
      map (map_option (ch P)) cs"
    by (intro nth_equalityI) auto
  then show ?case by (simp only: remap_RBranch fh.simps)
qed auto

text \<open>A frontier whose slots are replaced by equivalent ones stands for the same trie.\<close>

definition slot_swap :: "prims \<Rightarrow> (disk_ptr \<rightharpoonup> bytes) \<Rightarrow> (disk_ptr \<rightharpoonup> bytes) \<Rightarrow> slot_map \<Rightarrow> nibs \<times> ram_child \<Rightarrow> bool" where
  "slot_swap P M M' s = (\<lambda>(q, x). (\<forall>u. crep P M x q u \<longrightarrow> crep P M' (s q x) q u) \<and> ch P (s q x) = ch P x)"

lemma remap_frep:
  "(\<And>y. y \<in> set (slots n pre) \<Longrightarrow> slot_swap P M M' s y) \<Longrightarrow> frep P M n pre t \<Longrightarrow> frep P M' (remap s n pre) pre t"
  "(\<And>y. y \<in> set (cslots c pre) \<Longrightarrow> slot_swap P M M' s y) \<Longrightarrow> crep P M c pre t \<Longrightarrow> crep P M' (cremap s c pre) pre t"
proof (induction n and c arbitrary: pre t and pre t)
  case (RExtension p n h)
  have "fh P (remap s (RExtension p n h) pre) = fh P (RExtension p n h)"
    by (rule remap_fh(1)) (use RExtension.prems(1) in \<open>fastforce simp: slot_swap_def\<close>)
  then show ?case using RExtension by auto
next
  case (RBranch cs h)
  have f: "fh P (remap s (RBranch cs h) pre) = fh P (RBranch cs h)"
    by (rule remap_fh(1)) (use RBranch.prems(1) in \<open>fastforce simp: slot_swap_def\<close>)
  obtain ts where ts: "memo h (fh P (RBranch cs h))" "t = TBranch ts" "length cs = 16" "length ts = 16"
    "\<And>i. i < 16 \<Longrightarrow> rel_option (\<lambda>c u. crep P M c (pre @ [word_of_nat i]) u) (cs ! i) (ts ! i)"
    using RBranch.prems(2) unfolding frep_RBranch by auto
  have "rel_option (\<lambda>c u. crep P M' c (pre @ [word_of_nat i]) u) (map_option (\<lambda>c. cremap s c (pre @ [word_of_nat i])) (cs ! i)) (ts ! i)"
    if i: "i < 16" for i
  proof (cases "cs ! i")
    case (Some c)
    then obtain u where u: "ts ! i = Some u" "crep P M c (pre @ [word_of_nat i]) u"
      using ts(5) [OF i] by (auto simp: option_rel_Some1)
    have m: "cs ! i \<in> set cs" "c \<in> set_option (cs ! i)" using i ts(3) Some nth_mem [of i cs] by auto
    have "crep P M' (cremap s c (pre @ [word_of_nat i])) (pre @ [word_of_nat i]) u"
      using RBranch.prems(1) i ts(3) Some by (intro RBranch.IH [OF m _ u(2)]) (auto simp: branch_slots_in)
    then show ?thesis using Some u(1) by simp
  qed (use ts(5) [OF i] in simp)
  then show ?case using f ts(1-4) by (auto simp: frep_RBranch)
qed (auto simp: slot_swap_def)

lemma kids_remap:
  "(\<And>q x. (q, x) \<in> set (slots n pre) \<Longrightarrow> is_slot (s q x)) \<Longrightarrow> kids n \<Longrightarrow> kids (remap s n pre)"
  "(\<And>q x. (q, x) \<in> set (cslots c pre) \<Longrightarrow> is_slot (s q x)) \<Longrightarrow> ckids c \<Longrightarrow> ckids (cremap s c pre)"
proof (induction n and c arbitrary: pre and pre)
  case (RBranch cs h)
  have "ckids (cremap s c (pre @ [word_of_nat i]))" if i: "i < length cs" "cs ! i = Some c" for i c
  proof (rule RBranch.IH [of "Some c"])
    show "is_slot (s q x)" if "(q, x) \<in> set (cslots c (pre @ [word_of_nat i]))" for q x
      using RBranch.prems(1) [of q x] i that by (auto simp: branch_slots_in)
  qed (use i nth_mem [of i cs] RBranch.prems(2) in auto)
  then show ?case using RBranch.prems(2) by (auto simp: image_iff eq_commute [of "Some _"])
next
  case (RDisk ptr root)
  then show ?case by (cases "s pre (RDisk ptr root)") auto
next
  case (RMem bs root)
  then show ?case by (cases "s pre (RMem bs root)") auto
qed auto

lemma mem_ok_slots:
  "mem_ok n = (\<forall>(q, x) \<in> set (slots n pre). mem_ok_child x)"
  "mem_ok_child c = (\<forall>(q, x) \<in> set (cslots c pre). mem_ok_child x)"
proof (induction n and c arbitrary: pre and pre)
  case (RBranch cs h)
  have e: "mem_ok_child c = (\<forall>(q, x) \<in> set (cslots c (pre @ [word_of_nat i])). mem_ok_child x)" if "i < length cs" "cs ! i = Some c" for i c
    using that RBranch.IH [of "Some c" c] nth_mem [of i cs] by auto
  have "(\<forall>c. Some c \<in> set cs \<longrightarrow> mem_ok_child c) = (\<forall>i c. i < length cs \<longrightarrow> cs ! i = Some c \<longrightarrow> mem_ok_child c)"
    by (metis in_set_conv_nth)
  also have "\<dots> = (\<forall>i c q x. i < length cs \<longrightarrow> cs ! i = Some c \<longrightarrow> (q, x) \<in> set (cslots c (pre @ [word_of_nat i])) \<longrightarrow> mem_ok_child x)"
    using e by fast
  also have "\<dots> = (\<forall>(q, x) \<in> set (slots (RBranch cs h) pre). mem_ok_child x)"
    unfolding slots.simps Ball_def branch_slots_in by auto
  finally show ?case by simp
qed auto

end
