(* ===== verification/GcProofs.thy ===== *)
theory GcProofs
  imports Slots
begin

text \<open>
  The collector keeps the contents of the database: every record a scan selects is
  the record of the slot its prefix names, its copy replaces it there, and nothing
  else changes. Installation on a later frontier is right because the snapshot
  the collection held keeps the old records in place.
\<close>

section \<open>Roots\<close>

text \<open>A frontier at the root of a database, live or frozen in a snapshot.\<close>

definition froot :: "prims \<Rightarrow> (disk_ptr \<rightharpoonup> bytes) \<Rightarrow> ram_node \<Rightarrow> trie \<Rightarrow> bool" where
  "froot P M n t = (frep P M n [] t \<and> wfb t 64 \<and> shallow t 0 \<and> distinct (fptrs n))"

lemma db_inv_froot: "db_inv Z P f db t = (\<exists>M. ff_rel Z f M \<and> froot P M (db_upper db) t \<and> owned Z M (fptrs (db_upper db)))"
  by (auto simp: db_inv_def froot_def)

lemma parse_prefix_path: "nibs_ok q \<Longrightarrow> length q \<le> 128 \<Longrightarrow> parse_prefix (nib_path q @ xs) = Ok q"
  using read_nibble_path_at [of "nib_path q @ xs" 0 q] has_at_prefix [of "nib_path q" xs]
  by (simp add: parse_prefix_def nib_path_def nibs_ok_def res_map_def)

lemma nibble_loop_ok: "nibble_loop k len path buf pos = Ok (q, pos') \<Longrightarrow> nibs_ok path \<Longrightarrow> nibs_ok q"
proof (induction k len path buf pos arbitrary: q pos' rule: nibble_loop.induct)
  case (2 k len path buf pos)
  then obtain b p where b: "read_u8 buf pos = Ok (b, p)" by (auto simp: res_simps)
  have n: "(drop_bit 4 b :: byte) < 16" "b AND 15 < (16 :: byte)" by (rule high_nibble, rule low_nibble)
  show ?case using 2(1) [OF b refl] 2(2,3) b n by (auto simp: Let_def nibs_ok_def split: if_splits)
qed simp

lemma parse_prefix_nibs: "parse_prefix x = Ok q \<Longrightarrow> nibs_ok q"
  using nibble_loop_ok by (fastforce simp: parse_prefix_def read_nibble_path_def res_simps Let_def nibs_ok_def split: if_splits)

lemma slot_payload:
  assumes "froot P M n t" and "(q, RDisk ptr root) \<in> set (slots n [])"
  shows "\<exists>u. M ptr = Some (nib_path q @ enc P u) \<and> root = troot P u \<and> parse_prefix (nib_path q @ enc P u) = Ok q \<and> nibs_ok q"
proof -
  obtain u k where u: "crep P M (RDisk ptr root) q u" "placed q u k"
    using slots_frep(1) [OF _ _ placed_root assms(2), of P M t] assms(1) by (auto simp: froot_def)
  have "nibs_ok q" "length q \<le> 128" using u(2) by (auto simp: placed_def at_depth_def)
  then show ?thesis using u(1) parse_prefix_path by auto
qed

lemma froot_kids: "froot P M n t \<Longrightarrow> kids n"
  using frep_kids(1) by (auto simp: froot_def)

lemma found_slot:
  assumes "froot P M n t" and "nibs_ok q" and "find_disk_ptr n q 0 = Ok (Some ptr)"
  obtains q' root where "(q', RDisk ptr root) \<in> set (slots n [])"
  using find_sound(1) [OF assms(3) froot_kids [OF assms(1)] assms(2), of "[]"] by auto

section \<open>Scanning a region\<close>

lemma region_slice:
  assumes "has_at (ff_data f) (r * 131072 + p) xs" and "p + length xs \<le> 131072"
  shows "slice (read_region f r) p (length xs) = xs"
proof -
  let ?g = "slice (ff_data f) (r * REGION_PAGES * PAGE) (REGION_PAGES * PAGE)"
  have c: "r * REGION_PAGES * PAGE = r * 131072" "REGION_PAGES * PAGE = 131072" by (simp_all add: REGION_PAGES_def PAGE_def)
  have "p + length xs \<le> length ?g" using has_at_le [OF assms(1)] assms(2) unfolding c by (simp add: slice_def)
  then have "slice (read_region f r) p (length xs) = slice ?g p (length xs)"
    unfolding read_region_def Let_def by (simp add: slice_def)
  also have "\<dots> = slice (ff_data f) (r * 131072 + p) (length xs)"
    unfolding c slice_def using assms(2) by (simp add: drop_take min_def add.commute)
  finally show ?thesis using has_at_slice [OF assms(1)] by simp
qed

lemma length_region [simp]: "length (read_region f r) = 131072"
  by (simp add: read_region_def Let_def slice_def REGION_PAGES_def PAGE_def)

lemma scan_record_ok:
  assumes "kids n"
  shows "\<exists>L. scan_record n fg u x = Ok L"
proof (cases "parse_prefix x")
  case (Ok q)
  obtain r where "find_disk_ptr n q 0 = Ok r" using find_ok(1) [OF assms parse_prefix_nibs [OF Ok]] by blast
  then show ?thesis using Ok by (simp add: scan_record_def Let_def res_map_def)
qed (simp add: scan_record_def)

text \<open>The cases of the scan at an offset.\<close>

lemma scan_cases:
  assumes "kids n"
  obtains "scan_region n fg base buf p = Ok []"
  | q where "p < q" "q mod 256 = 0" "q \<le> length buf + 256" "scan_region n fg base buf p = scan_region n fg base buf q"
  | len q here where "len = le_val (slice buf p 4)" "0 < len" "p + 4 + len \<le> length buf"
      "q = p + units_for (4 + len) * 256" "scan_record n fg (word_of_nat (base + p div 256)) (slice buf (p + 4) len) = Ok here"
      "scan_region n fg base buf p = res_map (\<lambda>rest. here @ rest) (scan_region n fg base buf q)"
proof -
  let ?len = "le_val (slice buf p 4)"
  note S = scan_region.simps [of n fg base buf p]
  consider "length buf < p + 4" | "p + 4 \<le> length buf" "?len = 0" | "p + 4 \<le> length buf" "0 < ?len" "length buf < p + 4 + ?len"
    | "0 < ?len" "p + 4 + ?len \<le> length buf" by linarith
  then show thesis
  proof cases
    case 1
    then show thesis using that(1) S by simp
  next
    case 2
    have "p < (p div 256 + 1) * 256" using dividend_less_div_times [of 256 p] by simp
    moreover have "(p div 256 + 1) * 256 \<le> length buf + 256" using 2(1) div_times_less_eq_dividend [of p 256] by simp
    ultimately show thesis using 2 S by (intro that(2) [of "(p div 256 + 1) * 256"]) (simp_all add: Let_def)
  next
    case 3
    then show thesis using that(1) S by (simp add: Let_def)
  next
    case 4
    obtain here where h: "scan_record n fg (word_of_nat (base + p div 256)) (slice buf (p + 4) ?len) = Ok here"
      using scan_record_ok [OF assms] by blast
    show thesis by (rule that(3) [OF refl 4(1,2) refl h]) (use 4 h S in \<open>simp add: Let_def\<close>)
  qed
qed

lemma scan_ok: "kids n \<Longrightarrow> \<exists>L. scan_region n fg base buf p = Ok L"
proof (induction "length buf + 256 - p" arbitrary: p rule: less_induct)
  case less
  show ?case
  proof (cases rule: scan_cases [OF less.prems, of fg base buf p])
    case (2 q)
    then show ?thesis using less.hyps [of q] less.prems by auto
  next
    case (3 len q here)
    have "0 < units_for (4 + len)" by simp
    then have "length buf + 256 - q < length buf + 256 - p" using 3(3,4) by linarith
    then obtain L where "scan_region n fg base buf q = Ok L" using less.hyps less.prems by blast
    then show ?thesis using 3(6) by (simp add: res_map_def)
  qed auto
qed

text \<open>Every record a scan selects is the record of the slot its prefix names.\<close>

definition scanned :: "ram_node \<Rightarrow> (disk_ptr \<rightharpoonup> bytes) \<Rightarrow> live_rec \<Rightarrow> bool" where
  "scanned n M = (\<lambda>(q, pl, ptr). M ptr = Some pl \<and> (\<exists>root. (q, RDisk ptr root) \<in> set (slots n [])))"

lemma scan_record_sound:
  assumes root: "froot P M n t" and rec: "scan_record n fg (word_of_nat (r * 512 + p div 256)) (slice (read_region f r) (p + 4) len) = Ok here"
    and M: "\<And>ptr x. M ptr = Some x \<Longrightarrow> holds (ff_data f) ptr x" and r: "r * 512 < 2 ^ 32" and p: "p mod 256 = 0" "p + 4 + len \<le> 131072"
  shows "here = [] \<or> (\<exists>x. here = [x] \<and> scanned n M x \<and> unat (dp_unit (snd (snd x))) = r * 512 + p div 256)"
proof (cases "here = []")
  case False
  let ?u = "word_of_nat (r * 512 + p div 256) :: u32" and ?pl = "slice (read_region f r) (p + 4) len"
  let ?ptr = "\<lparr>dp_unit = ?u, dp_len = word_of_nat (length ?pl)\<rparr> :: disk_ptr"
  obtain q where q: "parse_prefix ?pl = Ok q" "find_disk_ptr n q 0 = Ok (Some ?ptr)" "here = [(q, ?pl, ?ptr)]"
    using rec False by (auto simp: scan_record_def Let_def res_simps res_map_Ok split: if_splits res.splits)
  obtain q' rt where s: "(q', RDisk ?ptr rt) \<in> set (slots n [])"
    using found_slot [OF root parse_prefix_nibs [OF q(1)] q(2)] .
  obtain pl where pl: "M ?ptr = Some pl" "parse_prefix pl = Ok q'" using slot_payload [OF root s] by auto
  have h: "unat (dp_len ?ptr) = length pl" "has_at (ff_data f) (dp_offset ?ptr) (frame pl)" using M [OF pl(1)] by (auto simp: holds_def)
  have l: "length ?pl = len" using p(2) by simp
  have "p div 256 < 512" using p(2) by simp
  moreover have "r * 512 + 511 < 2 ^ 32" using r by simp
  ultimately have "r * 512 + p div 256 < 2 ^ 32" by linarith
  then have u: "unat ?u = r * 512 + p div 256" by (simp only: unat_of_nat) simp
  have "length pl = len" using h(1) l p(2) by (simp add: unat_of_nat)
  moreover have "dp_offset ?ptr = r * 131072 + p" using u div_mult_mod_eq [of p 256] p(1) by (simp add: dp_offset_def algebra_simps)
  ultimately have "has_at (ff_data f) (r * 131072 + (p + 4)) pl" using h(2) by (simp add: frame_def has_at_append add.assoc)
  from region_slice [OF this] have "?pl = pl" using p(2) \<open>length pl = len\<close> by simp
  then have "q = q'" using q(1) pl(2) by simp
  then show ?thesis using q(3) s pl(1) \<open>?pl = pl\<close> u unfolding scanned_def by auto
qed simp

lemma scan_region_sound:
  assumes root: "froot P M n t" and M: "\<And>ptr x. M ptr = Some x \<Longrightarrow> holds (ff_data f) ptr x" and r: "r * 512 < 2 ^ 32"
  shows "scan_region n fg (r * 512) (read_region f r) p = Ok L \<Longrightarrow> p mod 256 = 0 \<Longrightarrow>
    (\<forall>x \<in> set L. scanned n M x \<and> r * 512 + p div 256 \<le> unat (dp_unit (snd (snd x))) \<and> unat (dp_unit (snd (snd x))) < r * 512 + 512) \<and>
    distinct (map (\<lambda>x. snd (snd x)) L)"
proof (induction "131072 + 256 - p" arbitrary: p L rule: less_induct)
  case less
  show ?case
  proof (cases rule: scan_cases [OF froot_kids [OF root], of fg "r * 512" "read_region f r" p])
    case 1
    then show ?thesis using less.prems(1) by simp
  next
    case (2 q)
    then have "(\<forall>x \<in> set L. scanned n M x \<and> r * 512 + q div 256 \<le> unat (dp_unit (snd (snd x))) \<and> unat (dp_unit (snd (snd x))) < r * 512 + 512) \<and>
      distinct (map (\<lambda>x. snd (snd x)) L)" using less.hyps [of q L] less.prems by simp
    moreover have "p div 256 \<le> q div 256" using 2(1) by (simp add: div_le_mono)
    ultimately show ?thesis by force
  next
    case (3 len q here)
    obtain L' where L: "scan_region n fg (r * 512) (read_region f r) q = Ok L'" "L = here @ L'"
      using less.prems(1) 3(6) by (auto simp: res_map_Ok)
    have u: "0 < units_for (4 + len)" by simp
    have q: "q mod 256 = 0" "p div 256 < q div 256" using less.prems(2) 3(4) u by (simp_all add: mod_mult_self2)
    then have "p < q" "p < 131072" using 3(3,4) by simp_all
    then have "131072 + 256 - q < 131072 + 256 - p" by linarith
    note IH = less.hyps [OF this L(1) q(1)]
    have "p div 256 < 512" using 3(3) by simp
    moreover have "here = [] \<or> (\<exists>x. here = [x] \<and> scanned n M x \<and> unat (dp_unit (snd (snd x))) = r * 512 + p div 256)"
      using scan_record_sound [OF root 3(5) M r less.prems(2)] 3(3) by simp
    ultimately show ?thesis using IH L(2) q(2) by fastforce
  qed
qed

lemma scan_regions_sound:
  assumes root: "froot P M n t" and M: "\<And>ptr x. M ptr = Some x \<Longrightarrow> holds (ff_data f) ptr x"
    and v: "distinct victims" "\<forall>r \<in> set victims. r * 512 < 2 ^ 32"
  shows "\<exists>L. scan_regions n fg f victims = Ok L \<and> distinct (map (\<lambda>x. snd (snd x)) L) \<and>
    (\<forall>x \<in> set L. scanned n M x \<and> region_of_unit (unat (dp_unit (snd (snd x)))) \<in> set victims)"
  using v
proof (induction victims)
  case (Cons r victims)
  obtain A where A: "scan_region n fg (r * 512) (read_region f r) 0 = Ok A" using scan_ok [OF froot_kids [OF root]] by blast
  have a: "\<forall>x \<in> set A. scanned n M x \<and> region_of_unit (unat (dp_unit (snd (snd x)))) = r" "distinct (map (\<lambda>x. snd (snd x)) A)"
    using scan_region_sound [OF root M _ A] Cons.prems(2) by (auto simp: region_of_unit_iff)
  obtain B where B: "scan_regions n fg f victims = Ok B" "distinct (map (\<lambda>x. snd (snd x)) B)"
    "\<forall>x \<in> set B. scanned n M x \<and> region_of_unit (unat (dp_unit (snd (snd x)))) \<in> set victims" using Cons by auto
  have e: "scan_regions n fg f (r # victims) = Ok (A @ B)"
    using A B(1) by (auto simp: scan_regions_def res_map_Ok res_simps)
  have "(\<lambda>x. snd (snd x)) ` set A \<inter> (\<lambda>x. snd (snd x)) ` set B = {}"
    using a(1) B(3) Cons.prems(1) by fastforce
  then show ?case using e a B by auto
qed (simp add: scan_regions_def res_map_def)

lemma victims_facts:
  assumes "ff_rel Z f M"
  shows "distinct (select_victims score (ff_seg f) k cap)" and "\<forall>r \<in> set (select_victims score (ff_seg f) k cap). r * 512 < 2 ^ 32"
proof -
  show "distinct (select_victims score (ff_seg f) k cap)" by (simp add: select_victims_def)
  obtain n where n: "recs_ok (ff_seg f) (rec_run n ` dom M)" using rel_inv [OF assms] by (auto simp: ra_inv_def)
  show "\<forall>r \<in> set (select_victims score (ff_seg f) k cap). r * 512 < 2 ^ 32"
  proof
    fix r
    assume "r \<in> set (select_victims score (ff_seg f) k cap)"
    then have "r < length (ra_live (ff_seg f))" "ra_live (ff_seg f) ! r \<noteq> 0"
      by (auto simp: select_victims_def victim_ok_def split: if_splits dest!: in_set_takeD)
    then have "sum run_live {x \<in> rec_run n ` dom M. run_region x = r} \<noteq> 0" using n unfolding recs_ok_def by metis
    then have "{x \<in> rec_run n ` dom M. run_region x = r} \<noteq> {}" by (metis sum.empty)
    then obtain ptr where "run_region (rec_run n ptr) = r" by blast
    then have "r * 512 \<le> unat (dp_unit ptr)" by (simp add: run_region_def rec_run_def region_of_unit_iff)
    then show "r * 512 < 2 ^ 32" using unsigned_less [of "dp_unit ptr", where ?'a = nat] by simp
  qed
qed

section \<open>Retargeting a slot\<close>

lemma distinct_concat_same:
  "distinct (concat (map f xs)) \<Longrightarrow> x \<in> set xs \<Longrightarrow> y \<in> set xs \<Longrightarrow> a \<in> set (f x) \<Longrightarrow> a \<in> set (f y) \<Longrightarrow> x = y"
  by (induction xs) auto

lemma slot_unique:
  assumes "distinct (fptrs n)" and "(q, RDisk ptr root) \<in> set (slots n [])" and "(q', RDisk ptr root') \<in> set (slots n [])"
  shows "q' = q \<and> root' = root"
  using distinct_concat_same [OF assms(1) [unfolded fptrs_slots(1) [of n "[]"]] assms(2,3), of ptr] by simp

lemma slot_same: "kids n \<Longrightarrow> (q, x) \<in> set (slots n pre) \<Longrightarrow> (q, y) \<in> set (slots n pre) \<Longrightarrow> x = y"
  by (rule eq_key_imp_eq_value [OF slots_distinct(1)])

definition moved :: "disk_ptr \<Rightarrow> disk_ptr \<Rightarrow> disk_ptr \<Rightarrow> disk_ptr" where
  "moved old new p = (if p = old then new else p)"

lemma at_slot_leaf: "is_slot x \<Longrightarrow> is_slot (at_slot q new q' x)"
  by (cases x) (auto simp: at_slot_def)

lemma install_step:
  assumes root: "froot P M n t" and s: "(q, RDisk old rt) \<in> set (slots n [])" and M: "M new = M old" and new: "new \<notin> set (fptrs n)"
    and n': "n' = remap (at_slot q new) n []"
  shows "install_ptr_by_prefix n q 0 new = Ok (True, n')" and "froot P M n' t" and "fptrs n' = map (moved old new) (fptrs n)"
    and "mem_ok n' = mem_ok n" and "\<And>q' x. q' \<noteq> q \<Longrightarrow> (q', x) \<in> set (slots n []) \<Longrightarrow> (q', x) \<in> set (slots n' [])"
    and "fh P n' = fh P n"
proof -
  have k: "kids n" by (rule froot_kids [OF root])
  have d: "distinct (fptrs n)" "frep P M n [] t" using root by (auto simp: froot_def)
  show "install_ptr_by_prefix n q 0 new = Ok (True, n')" using slots_install(1) [OF s k] n' by simp
  have sl: "slots n' [] = map (\<lambda>(q', x). (q', at_slot q new q' x)) (slots n [])"
    unfolding n' by (rule slots_remap(1)) (use slots_leaf(1) at_slot_leaf in blast)
  show "(q', x) \<in> set (slots n' [])" if "q' \<noteq> q" "(q', x) \<in> set (slots n [])" for q' x
    using that unfolding sl by (force simp: at_slot_def)
  have x: "x = RDisk old rt" if "(q, x) \<in> set (slots n [])" for x using slot_same [OF k that s] .
  have c: "cptrs (at_slot q new q' x) = map (moved old new) (cptrs x)" if y: "(q', x) \<in> set (slots n [])" for q' x
  proof (cases "q' = q")
    case True
    then show ?thesis using x [of x] y by (simp add: at_slot_def moved_def)
  next
    case False
    then have "x \<noteq> RDisk old r" for r using slot_unique [OF d(1) s] y by auto
    then show ?thesis using False slots_leaf(1) [OF y] by (cases x) (auto simp: at_slot_def moved_def)
  qed
  have "fptrs n' = concat (map (\<lambda>(q', x). cptrs (at_slot q new q' x)) (slots n []))"
    unfolding fptrs_slots(1) [of n' "[]"] sl by (simp add: comp_def case_prod_unfold)
  also have "\<dots> = concat (map (\<lambda>(q', x). map (moved old new) (cptrs x)) (slots n []))"
    using c by (intro arg_cong [where f = concat] map_cong) auto
  also have "\<dots> = map (moved old new) (fptrs n)"
    unfolding fptrs_slots(1) [of n "[]"] by (simp add: map_concat comp_def case_prod_unfold)
  finally show f: "fptrs n' = map (moved old new) (fptrs n)" .
  have sw: "slot_swap P M M (at_slot q new) y" if "y \<in> set (slots n [])" for y
  proof (cases y)
    case (Pair q' z)
    then show ?thesis using x [of z] that M by (auto simp: slot_swap_def at_slot_def)
  qed
  have "frep P M n' [] t" unfolding n' by (rule remap_frep(1) [OF sw d(2)])
  moreover have "inj_on (moved old new) (set (fptrs n))" using new by (auto simp: inj_on_def moved_def split: if_splits)
  ultimately show "froot P M n' t" using root f by (simp add: froot_def distinct_map)
  show "fh P n' = fh P n" unfolding n' by (rule remap_fh(1)) (use sw in \<open>fastforce simp: slot_swap_def\<close>)
  have "mem_ok_child (at_slot q new q' z) = mem_ok_child z" for q' z by (cases z) (auto simp: at_slot_def)
  then show "mem_ok n' = mem_ok n" unfolding mem_ok_slots(1) [of n' "[]"] mem_ok_slots(1) [of n "[]"] sl by auto
qed

section \<open>Installing a batch\<close>

text \<open>A relocation that is still to be installed on the frontier \<open>n\<close>.\<close>

definition movable :: "(disk_ptr \<rightharpoonup> bytes) \<Rightarrow> ram_node \<Rightarrow> nibs \<times> disk_ptr \<times> disk_ptr \<Rightarrow> bool" where
  "movable M n = (\<lambda>(q, old, new). (\<exists>root. (q, RDisk old root) \<in> set (slots n [])) \<and> M new = M old)"

abbreviation "item_old \<equiv> (\<lambda>(q, old, new). old) :: nibs \<times> disk_ptr \<times> disk_ptr \<Rightarrow> disk_ptr"
abbreviation "item_new \<equiv> (\<lambda>(q, old, new). new) :: nibs \<times> disk_ptr \<times> disk_ptr \<Rightarrow> disk_ptr"

lemma install_relocs_ok:
  assumes "froot P M n t" and "\<forall>x \<in> set items. movable M n x \<and> region_of_unit (unat (dp_unit (item_old x))) \<in> set victims"
    and "distinct (map item_old items)" and "distinct (map item_new items)" and "set (map item_new items) \<inter> set (fptrs n) = {}"
  shows "\<exists>n'. install_relocs env victims k n (map (\<lambda>(q, old, new). (q, new)) items) = Ok (k, n') \<and> froot P M n' t \<and>
    mem_ok n' = mem_ok n \<and> fh P n' = fh P n \<and>
    set (fptrs n') = (set (fptrs n) - set (map item_old items)) \<union> set (map item_new items)"
  using assms
proof (induction items arbitrary: n)
  case (Cons x items)
  obtain q old new where x: "x = (q, old, new)" by (cases x) auto
  obtain rt where s: "(q, RDisk old rt) \<in> set (slots n [])" and m: "M new = M old"
    using Cons.prems(2) x by (auto simp: movable_def)
  define n1 where "n1 = remap (at_slot q new) n []"
  have new: "new \<notin> set (fptrs n)" using Cons.prems(5) x by auto
  note I = install_step [OF Cons.prems(1) s m new n1_def]
  have f: "set (fptrs n1) = (set (fptrs n) - {old}) \<union> {new}"
    using I(3) slot_owned [OF s] by (auto simp: moved_def image_iff)
  have mv: "movable M n1 y" if y: "y \<in> set items" for y
  proof (cases y)
    case (fields q' o' n')
    obtain r' where r: "(q', RDisk o' r') \<in> set (slots n [])" "M n' = M o'"
      using Cons.prems(2) y fields by (auto simp: movable_def)
    have "o' \<noteq> old" using Cons.prems(3) y fields x by (force simp: image_iff)
    then have "q' \<noteq> q" using slot_same [OF froot_kids [OF Cons.prems(1)] s] r(1) by blast
    then show ?thesis using I(5) r fields by (auto simp: movable_def)
  qed
  have "set (map item_new items) \<inter> set (fptrs n1) = {}" using Cons.prems(4,5) x f by auto
  then obtain n' where n': "install_relocs env victims k n1 (map (\<lambda>(q, old, new). (q, new)) items) = Ok (k, n')" "froot P M n' t"
    "mem_ok n' = mem_ok n1" "fh P n' = fh P n1" "set (fptrs n') = (set (fptrs n1) - set (map item_old items)) \<union> set (map item_new items)"
    using Cons.IH [OF I(2)] mv Cons.prems(2-4) by auto
  have c: "check_slot env victims n q = Ok ()"
    using slots_find(1) [OF s froot_kids [OF Cons.prems(1)]] Cons.prems(2) x by (simp add: check_slot_def)
  have "new \<notin> set (map item_old items)"
  proof
    assume "new \<in> set (map item_old items)"
    then obtain q' n' where "(q', new, n') \<in> set items" by auto
    then obtain r' where "(q', RDisk new r') \<in> set (slots n [])" using Cons.prems(2) by (fastforce simp: movable_def)
    then show False using new slot_owned by blast
  qed
  then have "set (fptrs n') = (set (fptrs n) - set (map item_old (x # items))) \<union> set (map item_new (x # items))"
    unfolding n'(5) f x list.map list.set prod.case using new by blast
  then show ?case using n' I(1,4,6) c x by simp
qed simp

lemma free_all_rel:
  "ff_rel Z f M \<Longrightarrow> distinct olds \<Longrightarrow> set olds \<subseteq> dom M \<Longrightarrow> ff_rel Z (free_all olds f) (M |` (- set olds))"
proof (induction olds arbitrary: f M)
  case (Cons x olds)
  obtain p where "M x = Some p" using Cons.prems(3) by auto
  note F = free_rel [OF Cons.prems(1) this]
  have "set olds \<subseteq> dom (M(x := None))" "distinct olds" using Cons.prems(2,3) by auto
  from Cons.IH [OF F this(2,1)]
  have "ff_rel Z (free_all olds (ff_free f x)) ((M(x := None)) |` (- set olds))" .
  moreover have "(M(x := None)) |` (- set olds) = M |` (- set (x # olds))" by (auto simp: restrict_map_def)
  ultimately show ?case by simp
qed (simp add: restrict_map_def)

lemma froot_cong: "froot P M n t \<Longrightarrow> (\<And>p. p \<in> set (fptrs n) \<Longrightarrow> M' p = M p) \<Longrightarrow> froot P M' n t"
  using frep_cong(1) by (auto simp: froot_def)

lemma froot_owned: "froot P M n t \<Longrightarrow> set (fptrs n) \<subseteq> dom M"
  unfolding froot_def using frep_ptrs(1) by blast

section \<open>Rounds of the collector\<close>

lemma pin_region_facts:
  assumes "length (ra_fresh a) = length (ra_live a)" "length (ra_evac_pinned a) = length (ra_live a)"
  shows "pin_region r a = a \<or> pin_region r a = a\<lparr>ra_evac_pinned := (ra_evac_pinned a)[r := True]\<rparr>"
  using assms by (auto simp: pin_region_def ensure_region_def Let_def)

lemma pin_regions_facts:
  "length (ra_fresh a) = length (ra_live a) \<Longrightarrow> length (ra_evac_pinned a) = length (ra_live a) \<Longrightarrow>
     \<exists>ps. fold pin_region rs a = a\<lparr>ra_evac_pinned := ps\<rparr> \<and> length ps = length (ra_evac_pinned a)"
proof (induction rs arbitrary: a)
  case Nil
  then show ?case by (intro exI [of _ "ra_evac_pinned a"]) simp
next
  case (Cons r rs)
  then obtain ps where p: "pin_region r a = a\<lparr>ra_evac_pinned := ps\<rparr>" "length ps = length (ra_evac_pinned a)"
    using pin_region_facts [of a r] by (metis length_list_update region_alloc.surjective region_alloc.update_convs(9))
  from Cons.IH [of "pin_region r a"] Cons.prems p show ?case by auto
qed

lemma pin_victims_rel:
  assumes "ff_rel Z f M"
  shows "ff_rel Z (pin_victims victims f) M"
proof -
  obtain n where n: "ra_inv (ff_seg f) (ff_end f) (rec_run n ` dom M)" by (rule rel_inv [OF assms])
  then obtain ps where p: "fold pin_region victims (ff_seg f) = (ff_seg f)\<lparr>ra_evac_pinned := ps\<rparr>" "length ps = length (ra_evac_pinned (ff_seg f))"
    using pin_regions_facts [of "ff_seg f" victims] by (auto simp: ra_inv_def lengths_ok_def)
  have i: "ra_inv ((ff_seg f)\<lparr>ra_evac_pinned := ps\<rparr>) (ff_end f) R" if "ra_inv (ff_seg f) (ff_end f) R" for R
    using that p(2) by (intro ra_inv_cong [OF that]) (auto simp: parked_def ra_inv_def pins_ok_def)
  have "Z\<lparr>fz_pins := ra_pins ((ff_seg f)\<lparr>ra_evac_pinned := ps\<rparr>)\<rparr> = Z" using assms by (simp add: ff_rel_def)
  moreover have "ff_rel (Z\<lparr>fz_pins := ra_pins ((ff_seg f)\<lparr>ra_evac_pinned := ps\<rparr>)\<rparr>) (f\<lparr>ff_seg := (ff_seg f)\<lparr>ra_evac_pinned := ps\<rparr>\<rparr>) M"
    by (rule seg_rel_same [OF assms i]) (auto simp: pinned_def dur_inv_def snap_inv_def sealed_def is_fresh_def)
  ultimately show ?thesis unfolding pin_victims_def p(1) by metis
qed

text \<open>What one evacuation leaves: the same contents, at new places.\<close>

lemma map_upds_zip:
  assumes "length xs = length ys" and "distinct xs" and "(x, y) \<in> set (zip xs ys)"
  shows "(M(xs [\<mapsto>] ys)) x = Some y"
proof -
  have "distinct (map fst (rev (zip xs ys)))" using assms(1,2) by (simp add: rev_map [symmetric])
  then have "map_of (rev (zip xs ys)) x = Some y" using assms(3) by (intro map_of_is_SomeI) auto
  then show ?thesis by (simp add: map_upds_def)
qed

lemma evacuated_batch:
  assumes root: "froot P M n t" and own: "owned Z M (fptrs n)" and L: "distinct (map (\<lambda>x. snd (snd x)) L)"
      "\<forall>x \<in> set L. scanned n M x \<and> region_of_unit (unat (dp_unit (snd (snd x)))) \<in> set victims"
    and rel: "ff_rel Z f1 (M(news [\<mapsto>] map (\<lambda>(q, pl, old). pl) L))" and news: "length news = length L" "distinct news" "set news \<inter> dom M = {}"
  shows "\<exists>n' M'. install_relocs env victims k n (zip (map fst L) news) = Ok (k, n') \<and> froot P M' n' t \<and> mem_ok n' = mem_ok n \<and>
    fh P n' = fh P n \<and> owned Z M' (fptrs n') \<and> ff_rel Z (free_all (map (\<lambda>(q, pl, old). old) L) f1) M'"
proof -
  let ?M = "M(news [\<mapsto>] map (\<lambda>(q, pl, old). pl) L)" and ?olds = "map (\<lambda>(q, pl, old). old) L"
  define items where "items = map (\<lambda>((q, pl, old), new). (q, old, new)) (zip L news)"
  have io: "map item_old items = ?olds" "map item_new items = news" "map (\<lambda>(q, old, new). (q, new)) items = zip (map fst L) news"
    unfolding items_def using news(1) [symmetric] by (induct L news rule: list_induct2, simp_all add: case_prod_unfold)
  have same: "?M p = M p" if "p \<notin> set news" for p using that by simp
  have "set (fptrs n) \<subseteq> dom M" by (rule froot_owned [OF root])
  then have fn: "set news \<inter> set (fptrs n) = {}" using news(3) by blast
  have r1: "froot P ?M n t" by (rule froot_cong [OF root]) (use fn same in blast)
  have mv: "movable ?M n x \<and> region_of_unit (unat (dp_unit (item_old x))) \<in> set victims" if x: "x \<in> set items" for x
  proof -
    obtain q pl old new where z: "((q, pl, old), new) \<in> set (zip L news)" "x = (q, old, new)" using x by (auto simp: items_def)
    have sc: "M old = Some pl" "\<exists>rt. (q, RDisk old rt) \<in> set (slots n [])" "region_of_unit (unat (dp_unit old)) \<in> set victims"
      using L(2) set_zip_leftD [OF z(1)] by (fastforce simp: scanned_def)+
    have "(new, pl) \<in> set (zip news (map (\<lambda>(q, pl, old). pl) L))"
      using z(1) news(1) unfolding in_set_zip by auto
    then have "?M new = Some pl" using map_upds_zip [of news "map (\<lambda>(q, pl, old). pl) L"] news by simp
    moreover have "old \<notin> set news" using sc(1) news(3) by blast
    ultimately show ?thesis using sc z(2) same by (simp add: movable_def)
  qed
  have "(\<lambda>(q :: nibs, pl :: bytes, old). old) = (\<lambda>x. snd (snd x))" by auto
  then have d: "distinct ?olds" using L(1) by (simp add: case_prod_unfold)
  obtain n' where n': "install_relocs env victims k n (zip (map fst L) news) = Ok (k, n')" "froot P ?M n' t" "mem_ok n' = mem_ok n" "fh P n' = fh P n"
    "set (fptrs n') = (set (fptrs n) - set ?olds) \<union> set news"
    using install_relocs_ok [OF r1, of items victims env k] mv d news(2) fn unfolding io by auto
  have so: "set ?olds \<subseteq> set (fptrs n)"
    using L(2) slot_owned by (fastforce simp: scanned_def)
  have on: "set ?olds \<inter> set news = {}" using so fn by blast
  have dM: "dom ?M = dom M \<union> set news" using news(1) by auto
  have "set ?olds \<subseteq> dom ?M" using so dM \<open>set (fptrs n) \<subseteq> dom M\<close> by blast
  then have f: "ff_rel Z (free_all ?olds f1) (?M |` (- set ?olds))" using free_all_rel [OF rel d] by blast
  have "p \<notin> set ?olds" if "p \<in> set (fptrs n')" for p using that n'(5) on by blast
  then have "froot P (?M |` (- set ?olds)) n' t" by (intro froot_cong [OF n'(2)]) (simp add: restrict_map_def)
  moreover have "owned Z (?M |` (- set ?olds)) (fptrs n')"
  proof -
    have c: "dom M = set (fptrs n) \<union> dom (fz_copies Z)" "set (fptrs n) \<inter> dom (fz_copies Z) = {}" "fz_copies Z \<subseteq>\<^sub>m M"
      using own by (auto simp: owned_def)
    have "p \<notin> set ?olds" "p \<notin> set news" if "p \<in> dom (fz_copies Z)" for p using that c(1,2) so news(3) by blast+
    then have "fz_copies Z \<subseteq>\<^sub>m ?M |` (- set ?olds)" using c(3) same unfolding map_le_def by simp
    moreover have "dom (?M |` (- set ?olds)) = set (fptrs n') \<union> dom (fz_copies Z)"
      unfolding dom_restrict dM n'(5) using c(1,2) so on by blast
    moreover have "set (fptrs n') \<inter> dom (fz_copies Z) = {}" unfolding n'(5) using c(1,2) news(3) by blast
    ultimately show ?thesis by (simp add: owned_def)
  qed
  ultimately show ?thesis using n'(1,3,4) f by blast
qed

text \<open>The state between two rounds: contents, hash and size bounds are kept.\<close>

definition same_db :: "prims \<Rightarrow> frozen \<Rightarrow> trie \<Rightarrow> flat_mpt \<Rightarrow> flat_mpt \<Rightarrow> flat_file \<Rightarrow> bool" where
  "same_db P Z t db db' f' = (db_inv Z P f' db' t \<and> fh P (db_upper db') = fh P (db_upper db) \<and>
     (mem_ok (db_upper db) \<longrightarrow> mem_ok (db_upper db')) \<and> db_cfg db' = db_cfg db \<and> db_ram db' = db_ram db)"

lemma rel_holds: "ff_rel Z f M \<Longrightarrow> M ptr = Some x \<Longrightarrow> holds (ff_data f) ptr x"
  by (simp add: ff_rel_def)

text \<open>The collector fails only when a write is refused.\<close>

definition gspec :: "'a fm \<Rightarrow> flat_file \<Rightarrow> ('a \<Rightarrow> flat_file \<Rightarrow> bool) \<Rightarrow> bool" where
  "gspec m f Q = (case m f of (Ok x, f') \<Rightarrow> Q x f' | (Err e, f') \<Rightarrow> \<exists>s. e = Bail s)"

lemma gspec_Ok: "gspec m f Q \<Longrightarrow> m f = (Ok x, f') \<Longrightarrow> Q x f'"
  by (simp add: gspec_def)

lemma select_length: "length (select_victims score a k cap) \<le> k"
  by (simp add: select_victims_def)

lemma evacuate_rep:
  assumes I: "db_inv Z P f db t" and v: "distinct victims" "\<forall>r \<in> set victims. r * 512 < 2 ^ 32"
  shows "gspec (evacuate_regions (db_upper db) victims fg) f (\<lambda>reloc f'. \<exists>upper.
    install_relocs env victims 0 (db_upper db) reloc = Ok (0, upper) \<and> same_db P Z t db (db\<lparr>db_upper := upper\<rparr>) f')"
proof -
  let ?n = "db_upper db"
  obtain M where M: "ff_rel Z f M" "froot P M ?n t" "owned Z M (fptrs ?n)" using I by (auto simp: db_inv_froot)
  obtain L where L: "scan_regions ?n fg f victims = Ok L" "distinct (map (\<lambda>x. snd (snd x)) L)"
    "\<forall>x \<in> set L. scanned ?n M x \<and> region_of_unit (unat (dp_unit (snd (snd x)))) \<in> set victims"
    using scan_regions_sound [OF M(2) rel_holds [OF M(1)] v] by blast
  show ?thesis
  proof (cases "L = []")
    case True
    then show ?thesis using L(1) I by (simp add: gspec_def evacuate_regions_def same_db_def)
  next
    case False
    obtain r f1 where w: "write_batch f (map (\<lambda>(q, pl, old). pl) L) = (r, f1)" by fastforce
    show ?thesis
    proof (cases r)
      case (Err e)
      then obtain m where "e = Bail m" using write_batch_err w by blast
      then show ?thesis using w Err L(1) False by (simp add: gspec_def evacuate_regions_def)
    next
      case (Ok news)
      note W = write_batch_rel [OF M(1) w [unfolded Ok]]
      have W': "ff_rel Z f1 (M(news [\<mapsto>] map (\<lambda>(q, pl, old). pl) L))" "length news = length L" "distinct news" "set news \<inter> dom M = {}"
        using W by auto
      obtain n' M' where n': "install_relocs env victims 0 ?n (zip (map fst L) news) = Ok (0, n')" "froot P M' n' t" "mem_ok n' = mem_ok ?n"
        "fh P n' = fh P ?n" "owned Z M' (fptrs n')" "ff_rel Z (free_all (map (\<lambda>(q, pl, old). old) L) f1) M'"
        using evacuated_batch [OF M(2,3) L(2,3) W', of env 0] by blast
      have "same_db P Z t db (db\<lparr>db_upper := n'\<rparr>) (free_all (map (\<lambda>(q, pl, old). old) L) f1)"
        using n' by (auto simp: same_db_def db_inv_froot)
      then show ?thesis using w Ok L(1) False n'(1) W'(2) by (simp add: gspec_def evacuate_regions_def)
    qed
  qed
qed

lemma same_db_gc: "same_db P Z t db (db'\<lparr>db_gc := k\<rparr>) f = same_db P Z t db db' f"
  by (simp add: same_db_def db_inv_froot)

lemma db_inv_gc [simp]: "db_inv Z P f (db\<lparr>db_gc := k\<rparr>) t = db_inv Z P f db t"
  by (simp add: db_inv_def)

lemma same_db_trans: "same_db P Z t db db1 f1 \<Longrightarrow> same_db P Z t db1 db2 f2 \<Longrightarrow> same_db P Z t db db2 f2"
  by (simp add: same_db_def)

lemma pin_victims_inv: "db_inv Z P f db t \<Longrightarrow> db_inv Z P (pin_victims vs f) db t"
  using pin_victims_rel by (fastforce simp: db_inv_def)

lemma gc_rounds_rep:
  "db_inv Z P f db t \<Longrightarrow> gspec (gc_rounds env k db) f (\<lambda>(m, db') f'. same_db P Z t db db' f' \<and> (k \<le> ge_cap env \<longrightarrow> m \<le> ge_cap env))"
proof (induction env k db f rule: gc_rounds.induct)
  case (1 env k db f)
  note R = gc_rounds.simps [of env k db f]
  have triv: ?case if "gc_rounds env k db f = (Ok (k, db\<lparr>db_gc := g\<rparr>), f)" for g
    using that 1(2) by (simp add: gspec_def same_db_def)
  show ?case
  proof (cases "ge_cap env \<le> k \<or> at_target env f")
    case True
    then show ?thesis using R 1(2) by (simp add: gspec_def same_db_def)
  next
    case False
    obtain rate g where g: "gc_rate env f (db_gc db) = (rate, g)" by fastforce
    let ?db = "db\<lparr>db_gc := g\<rparr>"
    define r where r: "r = min rate (ge_cap env - k)"
    define v where v: "v = select_victims (ge_score env) (ff_seg f) r (ge_evac_cap env)"
    have R': "gc_rounds env k db f = (if r = 0 \<or> v = [] then (Ok (k, ?db), f)
      else (case evacuate_regions (db_upper ?db) v [] f of (Err e, f) \<Rightarrow> (Err e, f)
        | (Ok reloc, f) \<Rightarrow> (case install_relocs env v 0 (db_upper ?db) reloc of Err e \<Rightarrow> (Err e, f)
            | Ok (failed, upper) \<Rightarrow> gc_rounds env (k + length v) (?db\<lparr>db_upper := upper\<rparr>) (pin_victims v f))))"
      using R False g by (simp only: Let_def prod.case if_False r [symmetric] v [symmetric]) auto
    show ?thesis
    proof (cases "r = 0 \<or> v = []")
      case True
      then show ?thesis using R' by (intro triv [of g]) auto
    next
      case nv: False
      have "ff_rel Z f M \<Longrightarrow> distinct v \<and> (\<forall>r \<in> set v. r * 512 < 2 ^ 32)" for M using victims_facts unfolding v by blast
      then have vf: "distinct v" "\<forall>r \<in> set v. r * 512 < 2 ^ 32" using 1(2) by (auto simp: db_inv_def)
      have inv: "db_inv Z P f ?db t" using 1(2) by simp
      note E = evacuate_rep [OF inv vf, of "[]" env]
      obtain x f1 where x: "evacuate_regions (db_upper ?db) v [] f = (x, f1)" by fastforce
      show ?thesis
      proof (cases x)
        case (Err e)
        then have "gc_rounds env k db f = (Err e, f1)" using R' nv x by simp
        then show ?thesis using E x Err by (simp add: gspec_def)
      next
        case (Ok reloc)
        then obtain upper where u: "install_relocs env v 0 (db_upper ?db) reloc = Ok (0, upper)"
          "same_db P Z t ?db (?db\<lparr>db_upper := upper\<rparr>) f1" using E x by (auto simp: gspec_def)
        let ?db1 = "?db\<lparr>db_upper := upper\<rparr>" and ?f1 = "pin_victims v f1"
        have s1: "same_db P Z t db ?db1 ?f1" using u(2) pin_victims_inv by (auto simp: same_db_def)
        then have i1: "db_inv Z P ?f1 ?db1 t" by (simp add: same_db_def)
        then have "gspec (gc_rounds env (k + length v) ?db1) ?f1 (\<lambda>(m, db') f'. same_db P Z t ?db1 db' f' \<and> (k + length v \<le> ge_cap env \<longrightarrow> m \<le> ge_cap env))"
          using 1(1) [OF False refl g [symmetric] refl r _ v _ x [symmetric] Ok u(1) refl i1] nv by simp
        moreover have "gc_rounds env k db f = gc_rounds env (k + length v) ?db1 ?f1"
          using R' nv x Ok u(1) by simp
        moreover have "k + length v \<le> ge_cap env"
        proof -
          have "length v \<le> r" unfolding v by (rule select_length)
          moreover have "r \<le> ge_cap env - k" unfolding r by simp
          ultimately show ?thesis using False by linarith
        qed
        ultimately show ?thesis using same_db_trans [OF s1] by (auto simp: gspec_def split: prod.splits res.splits)
      qed
    qed
  qed
qed

end
