(* ===== verification/GcInstall.thy ===== *)
theory GcInstall
  imports GcProofs
begin

text \<open>
  The split collector. \<open>pending\<close> is what holds of a collected batch until it is
  installed, whatever the database does in between; installation keeps the
  contents and leaves no copy behind.
\<close>

section \<open>Collected batches\<close>

definition collected :: "frozen \<Rightarrow> nat \<Rightarrow> nibs \<times> disk_ptr \<times> disk_ptr \<Rightarrow> bool" where
  "collected Z g = (\<lambda>(q, old, new). \<exists>m pl. fz_snaps Z g = Some m \<and> m old = Some pl \<and> fz_copies Z new = Some pl \<and>
     parse_prefix pl = Ok q)"

definition pending :: "frozen \<Rightarrow> gc_batch \<Rightarrow> bool" where
  "pending Z b = (sn_gen (gb_snap b) \<in> fst ` set (fz_pins Z) \<and>
     (\<forall>x \<in> set (gb_items b). collected Z (sn_gen (gb_snap b)) x) \<and> distinct (map item_new (gb_items b)) \<and>
     dom (fz_copies Z) = set (map item_new (gb_items b)))"

lemma pinned_iff: "ff_rel Z f M \<Longrightarrow> pinned (ff_seg f) g = (g \<in> fst ` set (fz_pins Z))"
  by (simp add: ff_rel_def pinned_def)

lemma snap_holds:
  "ff_rel Z f M \<Longrightarrow> g \<in> fst ` set (fz_pins Z) \<Longrightarrow> fz_snaps Z g = Some m \<Longrightarrow> m ptr = Some x \<Longrightarrow> holds (ff_data f) ptr x"
  using pinned_iff [of Z f M g] by (auto simp: ff_rel_def snaps_ok_def)

lemma owned_fresh:
  assumes "ff_rel Z f (M(news [\<mapsto>] ps))" and "length news = length ps" and "distinct news" and "set news \<inter> dom M = {}"
    and "dom M = set A" and "froot P M n t" and "A = fptrs n"
  shows "owned (Z\<lparr>fz_copies := Map.empty(news [\<mapsto>] ps)\<rparr>) (M(news [\<mapsto>] ps)) A" and "froot P (M(news [\<mapsto>] ps)) n t"
proof -
  have d: "dom (Map.empty(news [\<mapsto>] ps)) = set news" "dom (M(news [\<mapsto>] ps)) = dom M \<union> set news" using assms(2) by auto
  have "(Map.empty(news [\<mapsto>] ps)) p = (M(news [\<mapsto>] ps)) p" if p: "p \<in> set news" for p
  proof -
    obtain y where "(p, y) \<in> set (zip news ps)" by (rule in_set_impl_in_set_zip1 [OF assms(2) p])
    from map_upds_zip [OF assms(2,3) this] show ?thesis by metis
  qed
  then show "owned (Z\<lparr>fz_copies := Map.empty(news [\<mapsto>] ps)\<rparr>) (M(news [\<mapsto>] ps)) A"
    unfolding owned_def using d assms(4,5) by (auto simp: map_le_def)
  show "froot P (M(news [\<mapsto>] ps)) n t"
    by (rule froot_cong [OF assms(6)]) (use assms(4,5,7) in \<open>auto intro!: map_upds_apply_nontin\<close>)
qed

lemma gc_collect_rep:
  assumes I: "db_inv Z P f db t" "fz_copies Z = Map.empty" and s: "sn_gen s \<in> fst ` set (fz_pins Z)" "fz_snaps Z (sn_gen s) = Some m"
      "froot P m (sn_root s) t0" and o: "\<And>rs. mset (order rs) = mset rs" and c: "gc_collect env order s k f = (Ok b, f')"
  shows "\<exists>c. db_inv (Z\<lparr>fz_copies := c\<rparr>) P f' db t \<and> pending (Z\<lparr>fz_copies := c\<rparr>) b \<and> gb_snap b = s"
proof -
  let ?v = "select_victims (ge_score env) (ff_seg f) k (ge_bg_cap env)"
  obtain M where M: "ff_rel Z f M" "froot P M (db_upper db) t" "dom M = set (fptrs (db_upper db))"
    using I by (auto simp: db_inv_froot owned_none)
  have none: "Z\<lparr>fz_copies := Map.empty\<rparr> = Z" using I(2) by (cases Z) simp
  obtain L where L: "scan_regions (sn_root s) [] f ?v = Ok L" "\<forall>x \<in> set L. scanned (sn_root s) m x"
    using scan_regions_sound [OF s(3) snap_holds [OF M(1) s(1,2)] victims_facts [OF M(1)]] by blast
  show ?thesis
  proof (cases "ff_end f < GC_MIN_PAGES \<or> at_target env f \<or> ?v = [] \<or> L = []")
    case True
    then have "f' = f" "gb_snap b = s" "gb_items b = []" using c L(1) by (auto simp: gc_collect_def Let_def split: if_splits)
    moreover have "db_inv (Z\<lparr>fz_copies := Map.empty\<rparr>) P f db t" unfolding none by (rule I(1))
    ultimately show ?thesis using s(1) by (intro exI [of _ Map.empty]) (simp add: pending_def)
  next
    case False
    let ?ps = "map (\<lambda>(q, pl, old). pl) L"
    obtain news where w: "write_batch_parallel order f ?ps = (Ok news, f')"
      and b: "b = \<lparr>gb_snap = s, gb_items = map (\<lambda>((q, pl, old), new). (q, old, new)) (zip L news), gb_victims = ?v\<rparr>"
      using c L(1) False by (auto simp: gc_collect_def Let_def split: if_splits prod.splits res.splits)
    have "write_batch f ?ps = (Ok news, f')" by (rule parallel_batch [OF M(1) w o])
    from write_batch_rel [OF M(1) this]
    have W: "ff_rel Z f' (M(news [\<mapsto>] ?ps))" "length news = length ?ps" "distinct news" "set news \<inter> dom M = {}" by auto
    let ?c = "Map.empty(news [\<mapsto>] ?ps)" and ?Z = "Z\<lparr>fz_copies := Map.empty(news [\<mapsto>] ?ps)\<rparr>"
    have "db_inv ?Z P f' db t" using W(1) owned_fresh [OF W M(3,2) refl] by (auto simp: db_inv_froot)
    moreover have io: "map item_new (gb_items b) = news"
      unfolding b using W(2) by (simp add: comp_def case_prod_unfold)
    moreover have "collected ?Z (sn_gen s) x" if x: "x \<in> set (gb_items b)" for x
    proof -
      obtain q pl old new where z: "((q, pl, old), new) \<in> set (zip L news)" "x = (q, old, new)" using x by (auto simp: b)
      then have "scanned (sn_root s) m (q, pl, old)" using L(2) set_zip_leftD by metis
      then obtain rt where sc: "m old = Some pl" "(q, RDisk old rt) \<in> set (slots (sn_root s) [])" by (auto simp: scanned_def)
      have "parse_prefix pl = Ok q" using slot_payload [OF s(3) sc(2)] sc(1) by auto
      moreover have "(new, pl) \<in> set (zip news ?ps)" using z(1) W(2) unfolding in_set_zip by auto
      then have "?c new = Some pl" using map_upds_zip [OF W(2,3)] by blast
      ultimately show ?thesis using sc(1) s(2) z(2) by (simp add: collected_def)
    qed
    ultimately show ?thesis using s(1) W(2,3) b by (intro exI [of _ ?c]) (simp add: pending_def)
  qed
qed

section \<open>Installation\<close>

lemma install_items_ok:
  assumes "ff_rel Z f M" and "froot P M n t" and "owned Z M (fptrs n)" and "g \<in> fst ` set (fz_pins Z)"
    and "\<forall>x \<in> set items. collected Z g x" and "distinct (map item_new items)" and "dom (fz_copies Z) = set (map item_new items)"
  shows "\<exists>i' d' n' f' M'. install_items items i d n f = (Ok (i', d', n'), f') \<and> ff_rel Z f' M' \<and> froot P M' n' t \<and>
    owned (Z\<lparr>fz_copies := Map.empty\<rparr>) M' (fptrs n') \<and> fh P n' = fh P n \<and> mem_ok n' = mem_ok n \<and> i' + d' = i + d + length items"
  using assms
proof (induction items arbitrary: Z f M n i d)
  case Nil
  then show ?case by (auto simp: owned_def)
next
  case (Cons x items)
  obtain q old new where x: "x = (q, old, new)" by (cases x) auto
  obtain m pl where C: "fz_snaps Z g = Some m" "m old = Some pl" "fz_copies Z new = Some pl" "parse_prefix pl = Ok q"
    using Cons.prems(5) x by (auto simp: collected_def)
  define Z1 where "Z1 = Z\<lparr>fz_copies := (fz_copies Z)(new := None)\<rparr>"
  have o: "dom M = set (fptrs n) \<union> dom (fz_copies Z)" "set (fptrs n) \<inter> dom (fz_copies Z) = {}" "fz_copies Z \<subseteq>\<^sub>m M"
    using Cons.prems(3) by (auto simp: owned_def)
  have nn: "new \<in> dom (fz_copies Z)" "new \<notin> set (fptrs n)" using C(3) o(2) by auto
  have Mn: "M new = Some pl" using o(3) C(3) by (auto simp: map_le_def dom_def)
  have D1: "dom (fz_copies Z1) = set (map item_new items)" using Cons.prems(6,7) x by (auto simp: Z1_def)
  have c1: "\<forall>y \<in> set items. collected Z1 g y"
  proof
    fix y
    assume y: "y \<in> set items"
    then have "item_new y \<noteq> new" using Cons.prems(6) x by (force simp: image_iff)
    moreover have "collected Z g y" using Cons.prems(5) y by simp
    ultimately show "collected Z1 g y" by (auto simp: collected_def Z1_def)
  qed
  have p1: "g \<in> fst ` set (fz_pins Z1)" "distinct (map item_new items)" using Cons.prems(4,6) by (simp_all add: Z1_def)
  have R1: "ff_rel Z1 f' M' = ff_rel Z f' M'" for f' M' by (simp add: Z1_def)
  have E1: "Z1\<lparr>fz_copies := Map.empty\<rparr> = Z\<lparr>fz_copies := Map.empty\<rparr>" by (simp add: Z1_def)
  obtain found where fd: "find_disk_ptr n q 0 = Ok found"
    using find_ok(1) [OF froot_kids [OF Cons.prems(2)] parse_prefix_nibs [OF C(4)]] by blast
  have rest: "\<exists>i' d' n' f' M'. install_items items j e n1 f1 = (Ok (i', d', n'), f') \<and> ff_rel Z f' M' \<and> froot P M' n' t \<and>
    owned (Z\<lparr>fz_copies := Map.empty\<rparr>) M' (fptrs n') \<and> fh P n' = fh P n \<and> mem_ok n' = mem_ok n \<and> i' + d' = j + e + length items"
    if "ff_rel Z f1 M1" "froot P M1 n1 t" "owned Z1 M1 (fptrs n1)" "fh P n1 = fh P n" "mem_ok n1 = mem_ok n" for j e n1 f1 M1
    using Cons.IH [of Z1 f1 M1 n1 j e] that p1 c1 D1 R1 E1 by simp
  show ?case
  proof (cases "found = Some old")
    case True
    obtain q' rt where s: "(q', RDisk old rt) \<in> set (slots n [])"
      using found_slot [OF Cons.prems(2) parse_prefix_nibs [OF C(4)] fd [unfolded True]] .
    obtain pl' where pl': "M old = Some pl'" "parse_prefix pl' = Ok q'" using slot_payload [OF Cons.prems(2) s] by auto
    have "holds (ff_data f) old pl'" "holds (ff_data f) old pl"
      using rel_holds [OF Cons.prems(1) pl'(1)] snap_holds [OF Cons.prems(1,4) C(1,2)] .
    then have "pl' = pl" using same_frame by (auto simp: holds_def)
    then have q: "q' = q" and Mo: "M new = M old" using pl' C(4) Mn by auto
    define n1 where "n1 = remap (at_slot q new) n []"
    note I = install_step [OF Cons.prems(2) s [unfolded q] Mo nn(2) n1_def]
    have oo: "old \<in> set (fptrs n)" "old \<noteq> new" using slot_owned [OF s] nn(2) by auto
    have f1: "set (fptrs n1) = (set (fptrs n) - {old}) \<union> {new}" using I(3) oo(1) by (auto simp: moved_def image_iff)
    have "froot P (M(old := None)) n1 t" by (rule froot_cong [OF I(2)]) (use f1 oo(2) in auto)
    moreover have "owned Z1 (M(old := None)) (fptrs n1)"
    proof -
      have "old \<notin> dom (fz_copies Z)" using oo(1) o(2) by blast
      then have "(fz_copies Z)(new := None) \<subseteq>\<^sub>m M(old := None)" using o(3) by (auto simp: map_le_def dom_def)
      then show ?thesis using f1 o(1,2) nn oo by (auto simp: owned_def Z1_def)
    qed
    ultimately show ?thesis
      using rest [OF free_rel [OF Cons.prems(1) pl'(1)], of n1 "i + 1" d] I(1,4,6) fd True x by (auto simp: res_map_def)
  next
    case False
    have "froot P (M(new := None)) n t" by (rule froot_cong [OF Cons.prems(2)]) (use nn(2) in auto)
    moreover have "owned Z1 (M(new := None)) (fptrs n)"
      unfolding owned_def Z1_def using o nn by (auto simp: map_le_def)
    ultimately show ?thesis
      using rest [OF free_rel [OF Cons.prems(1) Mn], of n i "d + 1"] fd False x by auto
  qed
qed

lemma gc_install_rep:
  assumes I: "db_inv Z P f db t" and b: "pending Z b"
  shows "\<exists>i d db' f'. i + d = length (gb_items b) \<and>
    same_db P (Z\<lparr>fz_copies := Map.empty, fz_pins := ra_pins (ff_seg f')\<rparr>) t db db' f' \<and>
    (\<exists>a. ra_pins a = fz_pins Z \<and> ra_pins (ff_seg f') = ra_pins (unpin a (sn_gen (gb_snap b)))) \<and>
    (gc_install env b db f = (Ok (i, d, db'), f') \<or> ge_assert env \<and> (\<exists>s f''. gc_install env b db f = (Err (Panic s), f'')))"
proof -
  obtain M where M: "ff_rel Z f M" "froot P M (db_upper db) t" "owned Z M (fptrs (db_upper db))" using I by (auto simp: db_inv_froot)
  obtain i d n f1 M1 where R: "install_items (gb_items b) 0 0 (db_upper db) f = (Ok (i, d, n), f1)" "ff_rel Z f1 M1" "froot P M1 n t"
    "owned (Z\<lparr>fz_copies := Map.empty\<rparr>) M1 (fptrs n)" "fh P n = fh P (db_upper db)" "mem_ok n = mem_ok (db_upper db)" "i + d = length (gb_items b)"
    using install_items_ok [OF M, of "sn_gen (gb_snap b)" "gb_items b" 0 0] b by (auto simp: pending_def)
  let ?f = "snapshot_drop (gb_snap b) (pin_victims (gb_victims b) f1)"
  let ?Z = "Z\<lparr>fz_copies := Map.empty, fz_pins := ra_pins (ff_seg ?f)\<rparr>"
  have "ff_rel (Z\<lparr>fz_pins := ra_pins (ff_seg ?f)\<rparr>) ?f M1"
    using unpin_rel [OF pin_victims_rel [OF R(2)], of "gb_victims b" "sn_gen (gb_snap b)"] by (simp add: snapshot_drop_def unpin_snapshot_def)
  moreover have "?Z = Z\<lparr>fz_pins := ra_pins (ff_seg ?f)\<rparr>\<lparr>fz_copies := Map.empty\<rparr>" by simp
  ultimately have "ff_rel ?Z ?f M1" by (simp only: ff_rel_copies)
  moreover have "owned ?Z M1 (fptrs n)" using R(4) by (simp add: owned_def)
  ultimately have "same_db P ?Z t db (db\<lparr>db_upper := n\<rparr>) ?f" using R(3,5,6) by (auto simp: same_db_def db_inv_froot)
  moreover have "gc_install env b db f = (Ok (i, d, db\<lparr>db_upper := n\<rparr>), ?f) \<or> ge_assert env \<and> (\<exists>s f''. gc_install env b db f = (Err (Panic s), f''))"
    using R(1) by (auto simp: gc_install_def assert_paths_def)
  moreover have "ra_pins (ff_seg (pin_victims (gb_victims b) f1)) = fz_pins Z" using pin_victims_rel [OF R(2)] by (simp add: ff_rel_def)
  then have "\<exists>a. ra_pins a = fz_pins Z \<and> ra_pins (ff_seg ?f) = ra_pins (unpin a (sn_gen (gb_snap b)))"
    by (auto simp: snapshot_drop_def unpin_snapshot_def)
  ultimately show ?thesis using R(7) by blast
qed

end
