(* ===== verification/SpillProofs.thy ===== *)
theory SpillProofs
  imports GcProofs
begin

text \<open>
  Spilling RAM records keeps the contents: the walk writes the bytes of the records
  it takes and leaves holes, and the holes are filled with the pointers of exactly
  those bytes.
\<close>

section \<open>Holes\<close>

fun punch :: "ram_child \<Rightarrow> ram_child" where
  "punch (RMem bs root) = RDisk \<lparr>dp_unit = 0, dp_len = word_of_nat (length bs)\<rparr> root"
| "punch c = c"

definition hole :: "nibs set \<Rightarrow> slot_map" where
  "hole D = (\<lambda>q x. if q \<in> D then punch x else x)"

lemma hole_slot: "is_slot x \<Longrightarrow> is_slot (hole D q x)"
  by (cases x) (auto simp: hole_def)

text \<open>The records \<open>S\<close> are taken out of the slots \<open>xs\<close>.\<close>

definition takes :: "(nibs \<times> bytes) list \<Rightarrow> (nibs \<times> ram_child) set \<Rightarrow> bool" where
  "takes S xs = (distinct (map fst S) \<and> (\<forall>(q, bs) \<in> set S. \<exists>root. (q, RMem bs root) \<in> xs))"

section \<open>The buffer\<close>

text \<open>
  \<open>T\<close> lists the records taken so far: a written part, with pointers, and the
  pending chunk.
\<close>

definition sb_ok :: "frozen \<Rightarrow> (disk_ptr \<rightharpoonup> bytes) \<Rightarrow> flat_file \<Rightarrow> spill_buf \<Rightarrow> (nibs \<times> bytes) list \<Rightarrow> bool" where
  "sb_ok Z M f buf T = (\<exists>W ptrs. T = W @ zip (sb_prefixes buf) (sb_payloads buf) \<and> length (sb_prefixes buf) = length (sb_payloads buf) \<and>
     length ptrs = length W \<and> sb_installs buf = zip (map fst W) ptrs \<and> distinct ptrs \<and> set ptrs \<inter> dom M = {} \<and>
     ff_rel Z f (M(ptrs [\<mapsto>] map snd W)))"

lemma zip_snd: "length xs = length ys \<Longrightarrow> map snd (zip xs ys) = ys" "length xs = length ys \<Longrightarrow> map fst (zip xs ys) = xs"
  by simp_all

lemma flush_rep:
  assumes "sb_ok Z M f buf T"
  shows "fspec (flush_spill_chunk buf) f (\<lambda>buf' f'. sb_ok Z M f' buf' T \<and> sb_payloads buf' = [] \<and>
    sb_budget buf' = sb_budget buf \<and> sb_force buf' = sb_force buf)"
proof (cases "sb_payloads buf = []")
  case True
  then show ?thesis using assms by (simp add: flush_spill_chunk_def)
next
  case False
  obtain W ptrs where W: "T = W @ zip (sb_prefixes buf) (sb_payloads buf)" "length (sb_prefixes buf) = length (sb_payloads buf)"
    "length ptrs = length W" "sb_installs buf = zip (map fst W) ptrs" "distinct ptrs" "set ptrs \<inter> dom M = {}"
    "ff_rel Z f (M(ptrs [\<mapsto>] map snd W))" using assms by (auto simp: sb_ok_def)
  let ?W = "W @ zip (sb_prefixes buf) (sb_payloads buf)"
  have d: "dom (M(ptrs [\<mapsto>] map snd W)) = dom M \<union> set ptrs" using W(3) by auto
  show ?thesis
    using False unfolding flush_spill_chunk_def fspec_bind if_False fspec_ret
  proof (simp, intro fspec_write_batch [OF W(7)])
    fix ps f'
    assume p: "ff_rel Z f' (M(ptrs [\<mapsto>] map snd W, ps [\<mapsto>] sb_payloads buf))" "length ps = length (sb_payloads buf)" "distinct ps"
      "set ps \<inter> dom (M(ptrs [\<mapsto>] map snd W)) = {}"
    have "M(ptrs [\<mapsto>] map snd W, ps [\<mapsto>] sb_payloads buf) = M(ptrs @ ps [\<mapsto>] map snd ?W)"
      using W(2,3) by (simp add: map_upds_concat)
    then have "sb_ok Z M f' (buf\<lparr>sb_installs := sb_installs buf @ zip (sb_prefixes buf) ps, sb_prefixes := [], sb_payloads := []\<rparr>) T"
      unfolding sb_ok_def using W p d by (intro exI [of _ ?W] exI [of _ "ptrs @ ps"]) auto
    then show "sb_ok Z M f' (buf\<lparr>sb_installs := sb_installs buf @ zip (sb_prefixes buf) ps, sb_prefixes := [], sb_payloads := []\<rparr>) T" .
  qed
qed

lemma sb_ok_push:
  assumes "sb_ok Z M f buf T"
  shows "sb_ok Z M f (buf\<lparr>sb_budget := b, sb_prefixes := sb_prefixes buf @ [q], sb_payloads := sb_payloads buf @ [bs]\<rparr>) (T @ [(q, bs)])"
  using assms unfolding sb_ok_def by fastforce

lemma sb_ok_force [simp]: "sb_ok Z M f (buf\<lparr>sb_force := b\<rparr>) T = sb_ok Z M f buf T"
  by (simp add: sb_ok_def)

section \<open>The walk\<close>

definition child_walk :: "frozen \<Rightarrow> (disk_ptr \<rightharpoonup> bytes) \<Rightarrow> (nibs \<Rightarrow> bool) \<Rightarrow> nat \<Rightarrow> ram_child \<Rightarrow> bool" where
  "child_walk Z M tb chunk c = (\<forall>pre buf f T. ckids c \<longrightarrow> sb_ok Z M f buf T \<longrightarrow> fspec (spill_child tb chunk c pre buf) f (\<lambda>(c', buf') f'.
     \<exists>S. sb_ok Z M f' buf' (T @ S) \<and> c' = cremap (hole (fst ` set S)) c pre \<and> takes S (set (cslots c pre))))"

lemma takes_nil [simp]: "takes [] xs"
  by (simp add: takes_def)

lemma hole_cong: "(q \<in> D \<longleftrightarrow> q \<in> D') \<Longrightarrow> hole D q x = hole D' q x"
  by (simp add: hole_def)

lemma hole_empty [simp]: "hole {} q x = x"
  by (simp add: hole_def)

lemma remap_hole_empty [simp]: "remap (hole {}) n pre = n" "cremap (hole {}) c pre = c"
  by (simp_all add: remap_id)

lemma spill_leaf_rep:
  assumes "sb_ok Z M f buf T"
  shows "fspec (spill_mem_leaf tb chunk bs root q buf) f (\<lambda>(c', buf') f'.
     \<exists>S. sb_ok Z M f' buf' (T @ S) \<and> c' = cremap (hole (fst ` set S)) (RMem bs root) q \<and> takes S (set (cslots (RMem bs root) q)))"
proof -
  let ?b = "buf\<lparr>sb_budget := sb_budget buf - int (length bs), sb_prefixes := sb_prefixes buf @ [q], sb_payloads := sb_payloads buf @ [bs]\<rparr>"
  let ?c = "RDisk \<lparr>dp_unit = 0, dp_len = word_of_nat (length bs)\<rparr> root"
  have stay: "\<exists>S. sb_ok Z M f buf (T @ S) \<and> RMem bs root = cremap (hole (fst ` set S)) (RMem bs root) q \<and> takes S {(q, RMem bs root)}"
    using assms by (intro exI [of _ "[]"]) simp
  have b: "sb_ok Z M f ?b (T @ [(q, bs)])" by (rule sb_ok_push [OF assms])
  have fin: "\<exists>S. sb_ok Z M f' buf' (T @ S) \<and> ?c = cremap (hole (fst ` set S)) (RMem bs root) q \<and> takes S {(q, RMem bs root)}"
    if "sb_ok Z M f' buf' (T @ [(q, bs)])" for f' buf'
    using that by (intro exI [of _ "[(q, bs)]"]) (simp add: hole_def takes_def)
  have "fspec (flush_spill_chunk ?b) f (\<lambda>buf' f'. \<exists>S. sb_ok Z M f' buf' (T @ S) \<and>
      ?c = cremap (hole (fst ` set S)) (RMem bs root) q \<and> takes S {(q, RMem bs root)})"
    by (rule fspec_mono [OF flush_rep [OF b]]) (use fin in blast)
  then show ?thesis
    unfolding spill_mem_leaf_def Let_def using stay fin [OF b] by simp
qed

lemma takes_mono: "takes S xs \<Longrightarrow> xs \<subseteq> ys \<Longrightarrow> takes S ys"
  by (fastforce simp: takes_def)

lemma takes_keys:
  assumes "takes S xs"
  shows "fst ` set S \<subseteq> fst ` xs"
proof
  fix q
  assume "q \<in> fst ` set S"
  then obtain bs where "(q, bs) \<in> set S" by auto
  then obtain root where "(q, RMem bs root) \<in> xs" using assms by (auto simp: takes_def)
  then show "q \<in> fst ` xs" by (metis fst_conv image_eqI)
qed

lemma takes_append:
  assumes "takes S xs" and "takes S' ys" and "fst ` xs \<inter> fst ` ys = {}"
  shows "takes (S @ S') (xs \<union> ys)"
proof -
  have "fst ` set S \<inter> fst ` set S' = {}" using takes_keys [OF assms(1)] takes_keys [OF assms(2)] assms(3) by blast
  then show ?thesis using assms(1,2) unfolding takes_def by (auto simp: case_prod_unfold)
qed

text \<open>The path of the \<open>i\<close>-th child, and the slots of the children of a branch from the \<open>i\<close>-th on.\<close>

definition kid_path :: "nibs \<Rightarrow> nat \<Rightarrow> nibs" where
  "kid_path pre i = pre @ [word_of_nat i]"

fun kid_slots :: "nat \<Rightarrow> nibs \<Rightarrow> ram_child option list \<Rightarrow> (nibs \<times> ram_child) set" where
  "kid_slots i pre [] = {}"
| "kid_slots i pre (c # cs) = (case c of None \<Rightarrow> {} | Some c \<Rightarrow> set (cslots c (kid_path pre i))) \<union> kid_slots (Suc i) pre cs"

lemma kid_slots_in: "(q, x) \<in> kid_slots i pre cs \<longleftrightarrow>
    (\<exists>j c. j < length cs \<and> cs ! j = Some c \<and> (q, x) \<in> set (cslots c (kid_path pre (i + j))))"
proof (induction cs arbitrary: i)
  case (Cons c cs)
  have "(\<exists>j d. j < length (c # cs) \<and> (c # cs) ! j = Some d \<and> (q, x) \<in> set (cslots d (kid_path pre (i + j)))) \<longleftrightarrow>
    (\<exists>d. c = Some d \<and> (q, x) \<in> set (cslots d (kid_path pre i))) \<or>
    (\<exists>j d. j < length cs \<and> cs ! j = Some d \<and> (q, x) \<in> set (cslots d (kid_path pre (Suc i + j))))"
    (is "(\<exists>j d. ?P j d) = (?Q \<or> (\<exists>j d. ?R j d))")
  proof
    assume "\<exists>j d. ?P j d"
    then obtain j d where p: "?P j d" by blast
    show "?Q \<or> (\<exists>j d. ?R j d)"
    proof (cases j)
      case (Suc k)
      then have "?R k d" using p by simp
      then show ?thesis by blast
    qed (use p in simp)
  next
    assume "?Q \<or> (\<exists>j d. ?R j d)"
    then show "\<exists>j d. ?P j d"
    proof
      assume "\<exists>j d. ?R j d"
      then obtain j d where "?R j d" by blast
      then have "?P (Suc j) d" by simp
      then show ?thesis by blast
    qed (auto intro: exI [of _ 0])
  qed
  then show ?case using Cons.IH [of "Suc i"] by (simp add: Un_iff split: option.split)
qed simp

lemma kid_slots_branch: "kid_slots 0 pre cs = set (slots (RBranch cs h) pre)"
proof -
  have "(q, x) \<in> kid_slots 0 pre cs \<longleftrightarrow> (q, x) \<in> set (slots (RBranch cs h) pre)" for q x
    unfolding kid_slots_in slots.simps branch_slots_in kid_path_def add_0 by blast
  then show ?thesis by auto
qed

lemma kid_slots_nibble:
  assumes "(q, x) \<in> kid_slots i pre cs"
  obtains j rest where "j < length cs" "q = pre @ word_of_nat (i + j) # rest"
proof -
  obtain j c where j: "j < length cs" "(q, x) \<in> set (cslots c (kid_path pre (i + j)))" using assms kid_slots_in by blast
  then obtain rest where "q = kid_path pre (i + j) @ rest" using slots_prefix(2) by blast
  then show ?thesis using j(1) by (intro that [of j rest]) (simp_all add: kid_path_def)
qed

fun punched :: "(nibs \<times> bytes) list \<Rightarrow> nat \<Rightarrow> nibs \<Rightarrow> ram_child option list \<Rightarrow> ram_child option list" where
  "punched S i pre [] = []"
| "punched S i pre (c # cs) = map_option (\<lambda>c. cremap (hole (fst ` set S)) c (kid_path pre i)) c # punched S (Suc i) pre cs"

lemma punched_nth: "length (punched S i pre cs) = length cs"
  "j < length cs \<Longrightarrow> punched S i pre cs ! j = map_option (\<lambda>c. cremap (hole (fst ` set S)) c (kid_path pre (i + j))) (cs ! j)"
proof -
  show "length (punched S i pre cs) = length cs" by (induction cs arbitrary: i) simp_all
  show "punched S i pre cs ! j = map_option (\<lambda>c. cremap (hole (fst ` set S)) c (kid_path pre (i + j))) (cs ! j)" if "j < length cs"
    using that
  proof (induction cs arbitrary: i j)
    case (Cons c cs)
    then show ?case by (cases j) simp_all
  qed simp
qed

lemma punched_cong:
  assumes "\<And>q. q \<in> fst ` kid_slots i pre cs \<Longrightarrow> q \<in> fst ` set S \<longleftrightarrow> q \<in> fst ` set S'"
  shows "punched S i pre cs = punched S' i pre cs"
  using assms
proof (induction cs arbitrary: i)
  case (Cons c cs)
  have h: "hole (fst ` set S) q x = hole (fst ` set S') q x" if "(q, x) \<in> kid_slots i pre (c # cs)" for q x
    unfolding hole_def using Cons.prems [of q] that by (metis fst_conv image_eqI)
  have "punched S (Suc i) pre cs = punched S' (Suc i) pre cs"
    by (rule Cons.IH) (use Cons.prems in \<open>auto simp: image_Un\<close>)
  moreover have "map_option (\<lambda>c. cremap (hole (fst ` set S)) c (kid_path pre i)) c =
      map_option (\<lambda>c. cremap (hole (fst ` set S')) c (kid_path pre i)) c"
    using h by (cases c) (auto intro!: remap_cong(2))
  ultimately show ?case by simp
qed simp

lemma spill_slots_rep:
  assumes "\<forall>c. Some c \<in> set cs \<longrightarrow> ckids c \<and> child_walk Z M tb chunk c" and "i + length cs \<le> 16" and "sb_ok Z M f buf T"
  shows "fspec (spill_slots (map (map_option (spill_child tb chunk)) cs) i pre buf) f (\<lambda>(cs', buf') f'. \<exists>S. sb_ok Z M f' buf' (T @ S) \<and>
    takes S (kid_slots i pre cs) \<and> cs' = punched S i pre cs)"
  using assms
proof (induction cs arbitrary: i f buf T)
  case Nil
  then show ?case by (auto intro: exI [of _ "[]"])
next
  case (Cons c cs)
  show ?case
  proof (cases c)
    case None
    have "fspec (spill_slots (map (map_option (spill_child tb chunk)) cs) (Suc i) pre buf) f (\<lambda>(cs', buf') f'. \<exists>S. sb_ok Z M f' buf' (T @ S) \<and>
      takes S (kid_slots (Suc i) pre cs) \<and> cs' = punched S (Suc i) pre cs)" using Cons by auto
    then show ?thesis unfolding None by (simp add: kid_path_def) (erule fspec_mono, auto)
  next
    case (Some d)
    let ?A = "set (cslots d (kid_path pre i))" and ?B = "kid_slots (Suc i) pre cs"
    have dis: "fst ` ?A \<inter> fst ` ?B = {}"
    proof -
      have False if q: "(q, x) \<in> ?A" "(q, y) \<in> ?B" for q x y
      proof -
        obtain r1 where r1: "q = kid_path pre i @ r1" using slots_prefix(2) q(1) by blast
        obtain j r2 where r2: "j < length cs" "q = pre @ word_of_nat (Suc i + j) # r2" using q(2) by (rule kid_slots_nibble)
        have "word_of_nat i = (word_of_nat (Suc i + j) :: 8 word)" using r1 r2(2) unfolding kid_path_def by simp
        moreover have "i < 16" "Suc i + j < 16" using r2(1) Cons.prems(2) by auto
        ultimately have "i = Suc i + j" using nibble_inj by blast
        then show False by simp
      qed
      then show ?thesis by force
    qed
    have rest: "fspec (spill_slots (map (map_option (spill_child tb chunk)) cs) (Suc i) pre b1) f1 (\<lambda>(cs', buf') f'.
        \<exists>S. sb_ok Z M f' buf' (T @ S) \<and> takes S (?A \<union> ?B) \<and> Some c1 # cs' = punched S i pre (Some d # cs))"
      if S1: "sb_ok Z M f1 b1 (T @ S1)" "c1 = cremap (hole (fst ` set S1)) d (kid_path pre i)" "takes S1 ?A" for S1 c1 b1 f1
    proof -
      have "fspec (spill_slots (map (map_option (spill_child tb chunk)) cs) (Suc i) pre b1) f1 (\<lambda>(cs', buf') f'. \<exists>S. sb_ok Z M f' buf' ((T @ S1) @ S) \<and>
        takes S ?B \<and> cs' = punched S (Suc i) pre cs)" using Cons.prems(1,2) S1(1) by (intro Cons.IH) auto
      then show ?thesis
      proof (rule fspec_mono, clarify)
        fix b2 f2 S2
        assume S2: "sb_ok Z M f2 b2 ((T @ S1) @ S2)" "takes S2 ?B"
        have k: "fst ` set S1 \<subseteq> fst ` ?A" "fst ` set S2 \<subseteq> fst ` ?B" using takes_keys S1(3) S2(2) by blast+
        have "c1 = cremap (hole (fst ` set (S1 @ S2))) d (kid_path pre i)"
          unfolding S1(2)
        proof (rule remap_cong(2), rule hole_cong)
          fix q x
          assume "(q, x) \<in> ?A"
          then have "q \<in> fst ` ?A" by (metis fst_conv image_eqI)
          then show "q \<in> fst ` set S1 \<longleftrightarrow> q \<in> fst ` set (S1 @ S2)" using k dis unfolding set_append image_Un by blast
        qed
        moreover have "punched S2 (Suc i) pre cs = punched (S1 @ S2) (Suc i) pre cs"
          by (rule punched_cong) (use k dis in \<open>unfold set_append image_Un, blast\<close>)
        ultimately have "Some c1 # punched S2 (Suc i) pre cs = punched (S1 @ S2) i pre (Some d # cs)" by simp
        then show "\<exists>S. sb_ok Z M f2 b2 (T @ S) \<and> takes S (?A \<union> ?B) \<and> Some c1 # punched S2 (Suc i) pre cs = punched S i pre (Some d # cs)"
          using S2(1) takes_append [OF S1(3) S2(2) dis] by (intro exI [of _ "S1 @ S2"]) simp
      qed
    qed
    have "fspec (spill_child tb chunk d (kid_path pre i) buf) f (\<lambda>(c', buf') f'. \<exists>S. sb_ok Z M f' buf' (T @ S) \<and>
        c' = cremap (hole (fst ` set S)) d (kid_path pre i) \<and> takes S ?A)"
      using Cons.prems(1,3) Some by (simp add: child_walk_def)
    then have "fspec (spill_child tb chunk d (kid_path pre i) buf) f (\<lambda>(c1, b1) f1.
      fspec (spill_slots (map (map_option (spill_child tb chunk)) cs) (Suc i) pre b1) f1 (\<lambda>(cs', buf') f'.
        \<exists>S. sb_ok Z M f' buf' (T @ S) \<and> takes S (?A \<union> ?B) \<and> Some c1 # cs' = punched S i pre (Some d # cs)))"
      by (rule fspec_mono) (use rest in blast)
    then show ?thesis unfolding Some by (simp add: kid_path_def case_prod_unfold)
  qed
qed

lemma spill_walk_rep:
  "kids n \<Longrightarrow> sb_ok Z M f buf T \<Longrightarrow> fspec (spill_walk tb chunk n pre buf) f (\<lambda>(n', buf') f'.
     \<exists>S. sb_ok Z M f' buf' (T @ S) \<and> n' = remap (hole (fst ` set S)) n pre \<and> takes S (set (slots n pre)))"
  "child_walk Z M tb chunk c"
proof (induction n and c arbitrary: f buf T pre)
  case REmpty
  then show ?case by (auto intro: exI [of _ "[]"])
next
  case (RExtension p n h)
  have "fspec (spill_walk tb chunk n (pre @ p) buf) f (\<lambda>(n', buf') f'.
     \<exists>S. sb_ok Z M f' buf' (T @ S) \<and> n' = remap (hole (fst ` set S)) n (pre @ p) \<and> takes S (set (slots n (pre @ p))))"
    using RExtension by simp
  then show ?case by simp (erule fspec_mono, auto)
next
  case (RBranch cs h)
  have "\<forall>c. Some c \<in> set cs \<longrightarrow> ckids c \<and> child_walk Z M tb chunk c" using RBranch by auto
  moreover have "0 + length cs \<le> 16" using RBranch.prems(1) by simp
  ultimately have "fspec (spill_slots (map (map_option (spill_child tb chunk)) cs) 0 pre buf) f (\<lambda>(cs', buf') f'. \<exists>S. sb_ok Z M f' buf' (T @ S) \<and>
    takes S (kid_slots 0 pre cs) \<and> cs' = punched S 0 pre cs)" using RBranch.prems(2) by (rule spill_slots_rep)
  moreover have "RBranch (punched S 0 pre cs) h = remap (hole (fst ` set S)) (RBranch cs h) pre" for S
    unfolding remap_RBranch ram_node.inject by (auto simp: punched_nth kid_path_def intro!: nth_equalityI)
  ultimately show ?case unfolding kid_slots_branch [of pre cs h] spill_walk.simps fspec_bind
    by (elim fspec_mono) auto
next
  case (RRam n)
  show ?case unfolding child_walk_def
  proof (intro allI impI)
    fix pre buf f T
    assume "ckids (RRam n)" "sb_ok Z M f buf T"
    then have "fspec (spill_walk tb chunk n pre buf) f (\<lambda>(n', buf') f'.
      \<exists>S. sb_ok Z M f' buf' (T @ S) \<and> n' = remap (hole (fst ` set S)) n pre \<and> takes S (set (slots n pre)))"
      by (intro RRam.IH) simp_all
    from fspec_mono [OF this] show "fspec (spill_child tb chunk (RRam n) pre buf) f (\<lambda>(c', buf') f'.
      \<exists>S. sb_ok Z M f' buf' (T @ S) \<and> c' = cremap (hole (fst ` set S)) (RRam n) pre \<and> takes S (set (cslots (RRam n) pre)))"
      unfolding spill_child.simps fspec_bind by auto
  qed
next
  case (RMem bs root)
  then show ?case using spill_leaf_rep by (simp add: child_walk_def)
next
  case (RDisk ptr root)
  then show ?case by (auto simp: child_walk_def intro: exI [of _ "[]"])
next
  case (RAccount p no b ch n)
  show ?case unfolding child_walk_def
  proof (intro allI impI)
    fix pre buf f T
    assume "ckids (RAccount p no b ch n)" "sb_ok Z M f buf T"
    then have "fspec (spill_walk tb chunk n (pre @ p) buf) f (\<lambda>(n', buf') f'.
      \<exists>S. sb_ok Z M f' buf' (T @ S) \<and> n' = remap (hole (fst ` set S)) n (pre @ p) \<and> takes S (set (slots n (pre @ p))))"
      by (intro RAccount.IH) simp_all
    from fspec_mono [OF this] show "fspec (spill_child tb chunk (RAccount p no b ch n) pre buf) f (\<lambda>(c', buf') f'.
      \<exists>S. sb_ok Z M f' buf' (T @ S) \<and> c' = cremap (hole (fst ` set S)) (RAccount p no b ch n) pre \<and> takes S (set (cslots (RAccount p no b ch n) pre)))"
      unfolding spill_child.simps fspec_bind by auto
  qed
qed

section \<open>Filling the holes\<close>

definition fill :: "(nibs \<times> disk_ptr) list \<Rightarrow> slot_map" where
  "fill L = (\<lambda>q x. case map_of L q of None \<Rightarrow> x | Some p \<Rightarrow> with_ptr p x)"

lemma with_ptr_slot: "is_slot x \<Longrightarrow> is_slot (with_ptr p x)"
  by (cases x) auto

lemma install_spilled_ok:
  "kids n \<Longrightarrow> distinct (map fst L) \<Longrightarrow> (\<And>q p. (q, p) \<in> set L \<Longrightarrow> \<exists>old r. (q, RDisk old r) \<in> set (slots n [])) \<Longrightarrow>
     install_spilled n L = Ok (remap (fill L) n [])"
proof (induction L arbitrary: n)
  case Nil
  then show ?case by (simp add: fill_def remap_id)
next
  case (Cons y L)
  obtain q p where y: "y = (q, p)" by fastforce
  obtain x r where s: "(q, RDisk x r) \<in> set (slots n [])" using Cons.prems(3) [of q p] y by auto
  have leaf: "is_slot (at_slot q p q' z)" if "(q', z) \<in> set (slots n [])" for q' z
    using slots_leaf(1) [OF that] with_ptr_slot by (simp add: at_slot_def)
  let ?n = "remap (at_slot q p) n []"
  have i: "install_ptr_by_prefix n q 0 p = Ok (True, ?n)" using slots_install(1) [OF s Cons.prems(1)] by simp
  have k: "kids ?n" by (rule kids_remap(1) [OF leaf Cons.prems(1)])
  have sl: "slots ?n [] = map (\<lambda>(q', z). (q', at_slot q p q' z)) (slots n [])" by (rule slots_remap(1) [OF leaf])
  have "\<exists>old r. (q', RDisk old r) \<in> set (slots ?n [])" if m: "(q', p') \<in> set L" for q' p'
  proof -
    obtain o' r' where "(q', RDisk o' r') \<in> set (slots n [])" using Cons.prems(3) [of q' p'] m by auto
    moreover have "q' \<noteq> q" using m Cons.prems(2) y by force
    ultimately show ?thesis unfolding sl by (force simp: at_slot_def)
  qed
  then have "install_spilled ?n L = Ok (remap (fill L) ?n [])" using Cons.prems(2) by (intro Cons.IH [OF k]) auto
  also have "remap (fill L) ?n [] = remap (\<lambda>q' z. fill L q' (at_slot q p q' z)) n []" by (rule remap_remap(1) [OF leaf])
  also have "\<dots> = remap (fill (y # L)) n []"
  proof (rule remap_cong(1))
    fix q' z
    have "q \<notin> fst ` set L" using Cons.prems(2) y by simp
    then have "map_of L q = None" by (simp add: map_of_eq_None_iff)
    then show "fill L q' (at_slot q p q' z) = fill (y # L) q' z" by (simp add: fill_def at_slot_def y)
  qed
  finally show ?case using i y by simp
qed

lemma distinct_concat_keys:
  assumes "distinct (map fst xs)" and "\<And>q x. (q, x) \<in> set xs \<Longrightarrow> distinct (g x)"
    and "\<And>q x q' x'. (q, x) \<in> set xs \<Longrightarrow> (q', x') \<in> set xs \<Longrightarrow> q \<noteq> q' \<Longrightarrow> set (g x) \<inter> set (g x') = {}"
  shows "distinct (concat (map (\<lambda>(q, x). g x) xs))"
  using assms
proof (induction xs)
  case (Cons y xs)
  obtain q x where y: "y = (q, x)" by fastforce
  have "set (g x) \<inter> set (g x') = {}" if "(q', x') \<in> set xs" for q' x'
    using Cons.prems(1) that y by (intro Cons.prems(3) [of q x q' x']) force+
  then have "set (g x) \<inter> set (concat (map (\<lambda>(q, x). g x) xs)) = {}" by fastforce
  moreover have "distinct (concat (map (\<lambda>(q, x). g x) xs))"
    by (rule Cons.IH) (use Cons.prems in \<open>simp, force, meson list.set_intros(2)\<close>)
  ultimately show ?case using Cons.prems(2) [of q x] y by simp
qed simp

text \<open>The frontier after a spill of the records \<open>T\<close> to the places \<open>ptrs\<close>.\<close>

lemma spilled_froot:
  assumes root: "froot P M n t" and own: "owned Z M (fptrs n)" and T: "takes T (set (slots n []))"
    and ptrs: "length ptrs = length T" "distinct ptrs" "set ptrs \<inter> dom M = {}"
    and M': "M' = M(ptrs [\<mapsto>] map snd T)" and s: "s = (\<lambda>q x. fill (zip (map fst T) ptrs) q (hole (fst ` set T) q x))"
  shows "froot P M' (remap s n []) t" and "owned Z M' (fptrs (remap s n []))" and "fh P (remap s n []) = fh P n"
    and "mem_ok n \<Longrightarrow> mem_ok (remap s n [])"
proof -
  let ?L = "zip (map fst T) ptrs" and ?n = "remap s n []"
  have k: "kids n" by (rule froot_kids [OF root])
  have kL: "distinct (map fst ?L)" "fst ` set ?L = fst ` set T" using T ptrs(1) by (auto simp: takes_def simp flip: set_map)
  have new: "\<exists>bs root p. (q, bs) \<in> set T \<and> x = RMem bs root \<and> map_of ?L q = Some p \<and> s q x = RDisk p root \<and> M' p = Some bs \<and> p \<in> set ptrs"
    if x: "(q, x) \<in> set (slots n [])" "q \<in> fst ` set T" for q x
  proof -
    obtain i where i: "i < length T" "fst (T ! i) = q" using x(2) by (auto simp: in_set_conv_nth)
    let ?bs = "snd (T ! i)" and ?p = "ptrs ! i"
    have m: "(q, ?bs) \<in> set T" using i nth_mem [of i T] by (metis prod.collapse)
    then obtain r where r: "(q, RMem ?bs r) \<in> set (slots n [])" using T by (auto simp: takes_def)
    then have xr: "x = RMem ?bs r" using slot_same [OF k x(1)] by blast
    have "(q, ?p) \<in> set ?L" using i ptrs(1) unfolding in_set_zip by (intro exI [of _ i]) simp
    then have L: "map_of ?L q = Some ?p" using kL(1) by simp
    have "(?p, ?bs) \<in> set (zip ptrs (map snd T))" using i ptrs(1) unfolding in_set_zip by (intro exI [of _ i]) simp
    then have "M' ?p = Some ?bs" unfolding M' using ptrs by (intro map_upds_zip) auto
    moreover have "s q x = RDisk ?p r" using L x(2) by (simp add: s xr hole_def fill_def)
    moreover have "?p \<in> set ptrs" using i(1) ptrs(1) by simp
    ultimately show ?thesis using m xr L by blast
  qed
  have old: "s q x = x" if "q \<notin> fst ` set T" for q x
  proof -
    have "map_of ?L q = None" using that kL(2) by (simp add: map_of_eq_None_iff)
    then show ?thesis using that by (simp add: s hole_def fill_def)
  qed
  have dM: "dom M' = dom M \<union> set ptrs" unfolding M' using ptrs(1) by auto
  have same: "M' p = M p" if "p \<notin> set ptrs" for p using that by (simp add: M')
  have leaf: "is_slot (s q x)" if x: "(q, x) \<in> set (slots n [])" for q x
    using new [OF x] old [of q x] slots_leaf(1) [OF x] by (cases "q \<in> fst ` set T") auto
  have sl: "slots ?n [] = map (\<lambda>(q, x). (q, s q x)) (slots n [])" by (rule slots_remap(1) [OF leaf])
  have sw: "slot_swap P M M' s y" if y: "y \<in> set (slots n [])" for y
  proof (cases y)
    case (Pair q x)
    show ?thesis
    proof (cases "q \<in> fst ` set T")
      case True
      then show ?thesis using new [of q x] y Pair by (auto simp: slot_swap_def)
    next
      case False
      have "crep P M' x q u" if c: "crep P M x q u" for u
      proof (cases x)
        case (RDisk p r)
        then have "p \<notin> set ptrs" using c ptrs(3) by auto
        then show ?thesis using c same RDisk by simp
      qed (use c slots_leaf(1) [of q x n "[]"] y Pair in auto)
      then show ?thesis using old [OF False] Pair by (simp add: slot_swap_def)
    qed
  qed
  have sub: "set (fptrs n) \<subseteq> dom M" by (rule froot_owned [OF root])
  have cp: "cptrs (s q x) = (if q \<in> fst ` set T then [the (map_of ?L q)] else cptrs x)" if x: "(q, x) \<in> set (slots n [])" for q x
  proof (cases "q \<in> fst ` set T")
    case True
    then show ?thesis using new [OF x True] by auto
  qed (use old in simp)
  have inT: "the (map_of ?L q) \<in> set ptrs" if q: "q \<in> fst ` set T" for q
  proof -
    obtain bs where "(q, bs) \<in> set T" using q by auto
    then obtain r where "(q, RMem bs r) \<in> set (slots n [])" using T by (auto simp: takes_def)
    then show ?thesis using new q by fastforce
  qed
  have inj: "q = q'" if q: "q \<in> fst ` set T" "q' \<in> fst ` set T" "the (map_of ?L q) = the (map_of ?L q')" for q q'
  proof -
    obtain i j where ij: "i < length T" "fst (T ! i) = q" "j < length T" "fst (T ! j) = q'" using q(1,2) by (auto simp: in_set_conv_nth)
    have "map_of ?L (map fst T ! i) = Some (ptrs ! i)" "map_of ?L (map fst T ! j) = Some (ptrs ! j)"
      using T ptrs(1) ij map_of_zip_nth [of "map fst T" ptrs] unfolding takes_def by (metis length_map)+
    then have "ptrs ! i = ptrs ! j" using q(3) ij by simp
    then have "i = j" using ptrs(1,2) ij nth_eq_iff_index_eq by fastforce
    then show ?thesis using ij by simp
  qed
  have inM: "set (cptrs x) \<subseteq> set (fptrs n)" if "(q, x) \<in> set (slots n [])" for q x
    using that unfolding fptrs_slots(1) [of n "[]"] by force
  have fp: "fptrs ?n = concat (map (\<lambda>(q, x). if q \<in> fst ` set T then [the (map_of ?L q)] else cptrs x) (slots n []))"
    unfolding fptrs_slots(1) [of ?n "[]"] sl map_map comp_def using cp by (intro arg_cong [where f = concat] map_cong) auto
  have d: "distinct (fptrs ?n)"
    unfolding fptrs_slots(1) [of ?n "[]"]
  proof (rule distinct_concat_keys)
    show "distinct (map fst (slots ?n []))" by (rule slots_distinct(1) [OF kids_remap(1) [OF leaf k]])
    have dn: "distinct (concat (map (\<lambda>(q, x). cptrs x) (slots n [])))"
      using root unfolding froot_def fptrs_slots(1) [of n "[]", symmetric] by simp
    fix q y
    assume "(q, y) \<in> set (slots ?n [])"
    then obtain x where x: "(q, x) \<in> set (slots n [])" "y = s q x" unfolding sl by auto
    show "distinct (cptrs y)" using leaf [OF x(1)] unfolding x(2) by (cases "s q x") auto
    fix q' y'
    assume "(q', y') \<in> set (slots ?n [])" and ne: "q \<noteq> q'"
    then obtain x' where x': "(q', x') \<in> set (slots n [])" "y' = s q' x'" unfolding sl by auto
    have "set (cptrs x) \<inter> set (cptrs x') = {}" using distinct_concat_same [OF dn x(1) x'(1)] ne by auto
    then show "set (cptrs y) \<inter> set (cptrs y') = {}"
      unfolding x(2) x'(2) cp [OF x(1)] cp [OF x'(1)]
      using inT [of q] inT [of q'] inj [of q q'] ne inM [OF x(1)] inM [OF x'(1)] sub ptrs(3)
      by (cases "q \<in> fst ` set T"; cases "q' \<in> fst ` set T") (simp_all only: if_True if_False list.set, blast+)
  qed
  have "p \<in> set (fptrs ?n)" if p: "p \<in> set ptrs" for p
  proof -
    obtain i where i: "i < length T" "ptrs ! i = p" using p ptrs(1) by (auto simp: in_set_conv_nth)
    let ?q = "fst (T ! i)"
    have q: "?q \<in> fst ` set T" using i by simp
    have "(?q, snd (T ! i)) \<in> set T" using i by simp
    then obtain r where r: "(?q, RMem (snd (T ! i)) r) \<in> set (slots n [])" using T by (auto simp: takes_def)
    have "map_of ?L (map fst T ! i) = Some p" using T ptrs(1) i map_of_zip_nth [of "map fst T" ptrs] unfolding takes_def by (metis length_map)
    then show ?thesis unfolding fp using r q i(1) by force
  qed
  moreover have "p \<in> set (fptrs ?n)" if p: "p \<in> set (fptrs n)" for p
  proof -
    obtain q r where q: "(q, RDisk p r) \<in> set (slots n [])" by (rule owned_slot [OF p])
    then have "q \<notin> fst ` set T" using new [OF q] by auto
    then show ?thesis unfolding fp using q by force
  qed
  moreover have "set (fptrs ?n) \<subseteq> set (fptrs n) \<union> set ptrs"
  proof -
    have "set (if q \<in> fst ` set T then [the (map_of ?L q)] else cptrs x) \<subseteq> set (fptrs n) \<union> set ptrs" if "(q, x) \<in> set (slots n [])" for q x
      using inT [of q] inM [OF that] by auto
    then show ?thesis unfolding fp by fastforce
  qed
  ultimately have st: "set (fptrs ?n) = set (fptrs n) \<union> set ptrs" by blast
  show "fh P ?n = fh P n" by (rule remap_fh(1)) (use sw in \<open>fastforce simp: slot_swap_def\<close>)
  show "mem_ok ?n" if m: "mem_ok n"
  proof -
    have "mem_ok_child (s q x)" if x: "(q, x) \<in> set (slots n [])" for q x
      using m x new [OF x] old [of q x] unfolding mem_ok_slots(1) [of n "[]"] by (cases "q \<in> fst ` set T") auto
    then show ?thesis unfolding mem_ok_slots(1) [of ?n "[]"] sl by auto
  qed
  have fr: "frep P M n [] t" using root by (simp add: froot_def)
  have "frep P M' ?n [] t" by (rule remap_frep(1) [OF sw fr])
  then show "froot P M' ?n t" using root d by (simp add: froot_def)
  have "fz_copies Z \<subseteq>\<^sub>m M'" using own same ptrs(3) by (fastforce simp: owned_def map_le_def)
  then show "owned Z M' (fptrs ?n)" using own st dM ptrs(3) by (auto simp: owned_def)
qed

lemma kids_hole: "kids n \<Longrightarrow> kids (remap (hole D) n [])"
  by (rule kids_remap(1)) (use slots_leaf(1) hole_slot in blast)+

lemma hole_slots: "slots (remap (hole D) n []) [] = map (\<lambda>(q, x). (q, hole D q x)) (slots n [])"
  by (rule slots_remap(1)) (use slots_leaf(1) hole_slot in blast)

lemma remap_holes: "remap (hole D') (remap (hole D) n []) [] = remap (hole (D \<union> D')) n []"
proof -
  have p: "punch (punch x) = punch x" if "is_slot x" for x using that by (cases x) auto
  have "remap (hole D') (remap (hole D) n []) [] = remap (\<lambda>q x. hole D' q (hole D q x)) n []"
    by (rule remap_remap(1)) (use slots_leaf(1) hole_slot in blast)
  also have "\<dots> = remap (hole (D \<union> D')) n []"
    by (rule remap_cong(1)) (use slots_leaf(1) p in \<open>auto simp: hole_def\<close>)
  finally show ?thesis .
qed

lemma takes_twice:
  assumes "takes S (set (slots n []))" and "takes S' (set (slots (remap (hole (fst ` set S)) n []) []))"
  shows "takes (S @ S') (set (slots n []))"
    and "remap (hole (fst ` set S')) (remap (hole (fst ` set S)) n []) [] = remap (hole (fst ` set (S @ S'))) n []"
proof -
  have mem: "(q, RMem bs r) \<in> set (slots n []) \<and> q \<notin> fst ` set S"
    if "(q, RMem bs r) \<in> set (slots (remap (hole (fst ` set S)) n []) [])" for q bs r
  proof -
    obtain x where x: "(q, x) \<in> set (slots n [])" "hole (fst ` set S) q x = RMem bs r" using \<open>_ \<in> _\<close> unfolding hole_slots by auto
    then show ?thesis using slots_leaf(1) [OF x(1)] by (cases x) (auto simp: hole_def split: if_splits)
  qed
  have "takes S' {(q, x) \<in> set (slots n []). q \<notin> fst ` set S}"
    using assms(2) mem unfolding takes_def by fastforce
  then have "takes (S @ S') ({(q, x) \<in> set (slots n []). q \<in> fst ` set S} \<union> {(q, x) \<in> set (slots n []). q \<notin> fst ` set S})"
    by (intro takes_append) (use assms(1) in \<open>force simp: takes_def\<close>)+
  then show "takes (S @ S') (set (slots n []))" by (rule takes_mono) auto
qed (simp add: remap_holes image_Un)

lemma install_holes:
  assumes k: "kids n" and T: "takes S (set (slots n []))" and l: "length ptrs = length S"
  shows "install_spilled (remap (hole (fst ` set S)) n []) (zip (map fst S) ptrs) =
    Ok (remap (\<lambda>q x. fill (zip (map fst S) ptrs) q (hole (fst ` set S) q x)) n [])"
proof -
  have "install_spilled (remap (hole (fst ` set S)) n []) (zip (map fst S) ptrs) =
    Ok (remap (fill (zip (map fst S) ptrs)) (remap (hole (fst ` set S)) n []) [])"
  proof (rule install_spilled_ok [OF kids_hole [OF k]])
    show "distinct (map fst (zip (map fst S) ptrs))" using T l by (simp add: takes_def)
    fix q p
    assume "(q, p) \<in> set (zip (map fst S) ptrs)"
    then have q: "q \<in> fst ` set S" using set_zip_leftD by fastforce
    then obtain bs r where "(q, RMem bs r) \<in> set (slots n [])" using T by (fastforce simp: takes_def)
    then show "\<exists>old r. (q, RDisk old r) \<in> set (slots (remap (hole (fst ` set S)) n []) [])"
      unfolding hole_slots using q by (force simp: hole_def)
  qed
  also have "remap (fill (zip (map fst S) ptrs)) (remap (hole (fst ` set S)) n []) [] =
      remap (\<lambda>q x. fill (zip (map fst S) ptrs) q (hole (fst ` set S) q x)) n []"
    by (rule remap_remap(1)) (use slots_leaf(1) hole_slot in blast)
  finally show ?thesis .
qed

text \<open>\<^verbatim>\<open>spill_quota\<close> moves records between RAM and the file and changes nothing else.\<close>

lemma spill_quota_rep:
  assumes I: "db_inv Z P f db t"
  shows "fspec (spill_quota tb budget db) f (\<lambda>db' f'. same_db P Z t db db' f')"
proof -
  let ?n = "db_upper db" and ?b = "\<lparr>sb_prefixes = [], sb_payloads = [], sb_installs = [], sb_budget = budget, sb_force = False\<rparr>"
  obtain M where M: "ff_rel Z f M" "froot P M ?n t" "owned Z M (fptrs ?n)" using I by (auto simp: db_inv_froot)
  have k: "kids ?n" by (rule froot_kids [OF M(2)])
  have b0: "sb_ok Z M f ?b []" unfolding sb_ok_def using M(1) by simp
  define Q where "Q = (\<lambda>S n' buf' f'. sb_ok Z M f' buf' S \<and> n' = remap (hole (fst ` set S)) ?n [] \<and> takes S (set (slots ?n [])))"
  have pass1: "fspec (spill_walk tb CHUNK ?n [] ?b) f (\<lambda>(n', buf') f'. \<exists>S. Q S n' buf' f')"
    using spill_walk_rep(1) [OF k b0] unfolding Q_def by simp
  have pass2: "fspec (spill_walk tb CHUNK n1 [] (b1\<lparr>sb_force := True\<rparr>)) f1 (\<lambda>(n', buf') f'. \<exists>S. Q S n' buf' f')"
    if q: "Q S1 n1 b1 f1" for S1 n1 b1 f1
  proof -
    have n1: "n1 = remap (hole (fst ` set S1)) ?n []" and t1: "takes S1 (set (slots ?n []))" and "sb_ok Z M f1 (b1\<lparr>sb_force := True\<rparr>) S1"
      using q by (simp_all add: Q_def)
    then have "fspec (spill_walk tb CHUNK n1 [] (b1\<lparr>sb_force := True\<rparr>)) f1 (\<lambda>(n', buf') f'.
      \<exists>S. sb_ok Z M f' buf' (S1 @ S) \<and> n' = remap (hole (fst ` set S)) n1 [] \<and> takes S (set (slots n1 [])))"
      using kids_hole [OF k] by (intro spill_walk_rep(1)) simp_all
    then show ?thesis
      by (rule fspec_mono) (use takes_twice [OF t1] n1 in \<open>fastforce simp: Q_def\<close>)
  qed
  have fin: "fspec (fbind (flush_spill_chunk b1) (\<lambda>buf. fbind (flift (install_spilled n1 (sb_installs buf))) (\<lambda>upper.
      fret (db\<lparr>db_upper := upper\<rparr>)))) f1 (\<lambda>db' f'. same_db P Z t db db' f')" if q: "Q S n1 b1 f1" for S n1 b1 f1
  proof -
    have n1: "n1 = remap (hole (fst ` set S)) ?n []" and T: "takes S (set (slots ?n []))" and b: "sb_ok Z M f1 b1 S"
      using q by (simp_all add: Q_def)
    show ?thesis
      unfolding fspec_bind
    proof (rule fspec_mono [OF flush_rep [OF b]], clarify)
      fix b2 f2
      assume b2: "sb_ok Z M f2 b2 S" "sb_payloads b2 = []"
      obtain ptrs where p: "length ptrs = length S" "sb_installs b2 = zip (map fst S) ptrs" "distinct ptrs" "set ptrs \<inter> dom M = {}"
        "ff_rel Z f2 (M(ptrs [\<mapsto>] map snd S))" using b2 by (auto simp: sb_ok_def)
      let ?s = "\<lambda>q x. fill (zip (map fst S) ptrs) q (hole (fst ` set S) q x)"
      have i: "install_spilled n1 (sb_installs b2) = Ok (remap ?s ?n [])"
        unfolding p(2) n1 by (rule install_holes [OF k T p(1)])
      note F = spilled_froot [OF M(2,3) T p(1,3,4) refl refl]
      show "fspec (flift (install_spilled n1 (sb_installs b2))) f2 (\<lambda>x f'. fspec (fret (db\<lparr>db_upper := x\<rparr>)) f' (same_db P Z t db))"
        unfolding i fspec_lift fspec_ret using F p(5) by (auto simp: same_db_def db_inv_froot)
    qed
  qed
  define g where "g = (\<lambda>(upper, buf). fbind (flush_spill_chunk buf) (\<lambda>buf. fbind (flift (install_spilled upper (sb_installs buf))) (\<lambda>upper.
      fret (db\<lparr>db_upper := upper\<rparr>))))"
  define m where "m = (\<lambda>(upper, buf). if budget div 2 < sb_budget buf \<and> budget < I64_MAX div 2
      then spill_walk tb CHUNK upper [] (buf\<lparr>sb_force := True\<rparr>) else fret (upper, buf))"
  have G: "fspec (g y) f1 (\<lambda>db' f'. same_db P Z t db db' f')" if "case y of (n1, b1) \<Rightarrow> \<exists>S. Q S n1 b1 f1" for y f1
    using that fin by (auto simp: g_def)
  have "fspec (m (n1, b1)) f1 (\<lambda>(n', buf') f'. \<exists>S. Q S n' buf' f')" if "Q S n1 b1 f1" for S n1 b1 f1
    using that pass2 by (auto simp: m_def)
  then have mq: "fspec (m y) f1 (\<lambda>(n', buf') f'. \<exists>S. Q S n' buf' f')" if "case y of (n1, b1) \<Rightarrow> \<exists>S. Q S n1 b1 f1" for y f1
    using that by auto
  have "fspec (m y) f1 (\<lambda>y f2. fspec (g y) f2 (\<lambda>db' f'. same_db P Z t db db' f'))" if "case y of (n1, b1) \<Rightarrow> \<exists>S. Q S n1 b1 f1" for y f1
    by (rule fspec_mono [OF mq [OF that]]) (rule G, auto)
  then have "fspec (fbind (spill_walk tb CHUNK ?n [] ?b) (\<lambda>y. fbind (m y) g)) f (\<lambda>db' f'. same_db P Z t db db' f')"
    unfolding fspec_bind by (rule fspec_mono [OF pass1]) auto
  moreover have "spill_quota tb budget db = fbind (spill_walk tb CHUNK ?n [] ?b) (\<lambda>y. fbind (m y) g)"
    unfolding spill_quota_def Let_def m_def g_def by (intro arg_cong2 [where f = fbind] refl ext) auto
  ultimately show ?thesis by simp
qed

end
