(* ===== verification/Reopen.thy ===== *)
theory Reopen
  imports GcInstall SpillProofs
begin

text \<open>
  Reopening a database: liveness recomputed from the frontier is the allocator's own
  accounting, a checkpoint whose records are in place opens to the database it was
  taken of, and every crash during the commit leaves a readable manifest.
\<close>

section \<open>Recomputed liveness\<close>

definition count_ptr :: "disk_ptr \<Rightarrow> nat list \<Rightarrow> nat list" where
  "count_ptr ptr live = (let r = region_of_unit (unat (dp_unit ptr)) in
     if r < length live then live[r := live ! r + dp_units ptr] else live)"

lemma fold_somes:
  assumes "\<And>c live. Some c \<in> set cs \<Longrightarrow> g c live = fold h (k c) live"
  shows "fold (\<lambda>x live. x live) (somes (map (map_option g) cs)) live = fold h (concat (somes (map (map_option k) cs))) live"
  using assms
proof (induction cs arbitrary: live)
  case (Cons c cs)
  then show ?case by (cases c) auto
qed simp

lemma recompute_fold:
  "recompute_live n live = fold count_ptr (fptrs n) live"
  "recompute_child c live = fold count_ptr (cptrs c) live"
proof (induction n and c arbitrary: live and live)
  case (RBranch cs h)
  have "recompute_child c live = fold count_ptr (cptrs c) live" if "Some c \<in> set cs" for c live
    using RBranch.IH [OF that] by simp
  then show ?case unfolding recompute_live.simps fptrs.simps by (rule fold_somes)
qed (simp_all add: count_ptr_def Let_def)

lemma length_count [simp]: "length (fold count_ptr ps live) = length live"
  by (induction ps arbitrary: live) (simp_all add: count_ptr_def Let_def)

abbreviation ptr_region :: "disk_ptr \<Rightarrow> nat" where
  "ptr_region p \<equiv> region_of_unit (unat (dp_unit p))"

lemma fold_count_nth:
  "r < length live \<Longrightarrow> fold count_ptr ps live ! r = live ! r + sum_list (map dp_units (filter (\<lambda>p. ptr_region p = r) ps))"
proof (induction ps arbitrary: live)
  case (Cons p ps)
  have "count_ptr p live ! r = live ! r + (if ptr_region p = r then dp_units p else 0)" "length (count_ptr p live) = length live"
    using Cons.prems by (auto simp: count_ptr_def Let_def nth_list_update)
  then show ?case using Cons by simp
qed simp

lemma count_total:
  "(\<forall>p \<in> set ps. ptr_region p < length live) \<Longrightarrow> sum_list (fold count_ptr ps live) = sum_list live + sum_list (map dp_units ps)"
proof (induction ps arbitrary: live)
  case (Cons p ps)
  have "count_ptr p live = live[ptr_region p := live ! ptr_region p + dp_units p]" using Cons.prems by (simp add: count_ptr_def Let_def)
  moreover have "sum_list (live[ptr_region p := live ! ptr_region p + dp_units p]) = sum_list live + dp_units p"
    using Cons.prems by (simp add: sum_list_update elem_le_sum_list)
  ultimately show ?case using Cons by simp
qed simp

section \<open>Placed records\<close>

text \<open>What the file needs of a set of records apart from its bytes.\<close>

definition recs_placed :: "(disk_ptr \<rightharpoonup> bytes) \<Rightarrow> nat \<Rightarrow> bool" where
  "recs_placed M e = (inj_on dp_unit (dom M) \<and> (\<exists>n. finite (rec_run n ` dom M) \<and>
     (\<forall>x \<in> rec_run n ` dom M. run_ok x \<and> run_region x < div_ceil e REGION_PAGES) \<and>
     (\<forall>x \<in> rec_run n ` dom M. \<forall>y \<in> rec_run n ` dom M. x \<noteq> y \<longrightarrow> apart x y)))"

lemma rel_regions:
  assumes "ra_inv a e R" and "x \<in> R"
  shows "run_ok x \<and> run_region x < div_ceil e REGION_PAGES"
proof -
  have s: "sealed a x" using assms by (auto simp: ra_inv_def recs_ok_def)
  have "run_region x < div_ceil e REGION_PAGES" if h: "empty_head a e"
  proof -
    have "run_region x * REGION_UNITS \<le> run_start x" by (simp add: run_region_def region_of_unit_def)
    moreover have "run_start x < run_end x" using s by (auto simp: sealed_def run_ok_def)
    ultimately have "run_region x \<noteq> ra_head a" using s h by (auto simp: sealed_def empty_head_def)
    then show ?thesis using s h by (auto simp: sealed_def empty_head_def)
  qed
  then show ?thesis using s assms(1) by (auto simp: sealed_def ra_inv_def lengths_ok_def)
qed

lemma rel_placed:
  assumes "ff_rel Z f M" and "M' \<subseteq>\<^sub>m M"
  shows "recs_placed M' (ff_end f)"
proof -
  obtain n where n: "ra_inv (ff_seg f) (ff_end f) (rec_run n ` dom M)" by (rule rel_inv [OF assms(1)])
  have d: "dom M' \<subseteq> dom M" by (rule map_le_implies_dom_le [OF assms(2)])
  then have s: "rec_run n ` dom M' \<subseteq> rec_run n ` dom M" by blast
  have r: "finite (rec_run n ` dom M)" "\<forall>x \<in> rec_run n ` dom M. \<forall>y \<in> rec_run n ` dom M. x \<noteq> y \<longrightarrow> apart x y"
    using n by (auto simp: ra_inv_def recs_ok_def)
  have "inj_on dp_unit (dom M')" using assms(1) d by (auto simp: ff_rel_def intro: inj_on_subset)
  moreover have "finite (rec_run n ` dom M')" by (rule finite_subset [OF s r(1)])
  moreover have "\<forall>x \<in> rec_run n ` dom M'. run_ok x \<and> run_region x < div_ceil (ff_end f) REGION_PAGES" using rel_regions [OF n] s by blast
  moreover have "\<forall>x \<in> rec_run n ` dom M'. \<forall>y \<in> rec_run n ` dom M'. x \<noteq> y \<longrightarrow> apart x y" using r(2) s by (meson subset_iff)
  ultimately show ?thesis unfolding recs_placed_def by blast
qed

section \<open>The audit\<close>

lemma live_sum:
  assumes "inj_on dp_unit D" and "finite D"
  shows "sum run_live {x \<in> rec_run n ` D. run_region x = r} = sum dp_units {p \<in> D. ptr_region p = r}"
proof -
  have "{x \<in> rec_run n ` D. run_region x = r} = rec_run n ` {p \<in> D. ptr_region p = r}" by (auto simp: rec_run_def run_region_def)
  moreover have "inj_on (rec_run n) {p \<in> D. ptr_region p = r}"
    using rec_run_inj [OF assms(1)] by (rule inj_on_subset) auto
  ultimately have "sum run_live {x \<in> rec_run n ` D. run_region x = r} = sum (run_live \<circ> rec_run n) {p \<in> D. ptr_region p = r}"
    by (simp add: sum.reindex)
  then show ?thesis by (simp add: comp_def rec_run_def)
qed

lemma sum_filter_distinct: "distinct ps \<Longrightarrow> sum_list (map g (filter Q ps)) = sum g {p \<in> set ps. Q p}"
  by (simp add: sum_list_distinct_conv_sum_set)

lemma audit_rep:
  assumes "db_inv Z P f db t" and "fz_copies Z = Map.empty"
  shows "fst (audit_live_units db f) = snd (audit_live_units db f)"
proof -
  obtain M where M: "ff_rel Z f M" "distinct (fptrs (db_upper db))" "dom M = set (fptrs (db_upper db))"
    using assms by (auto simp: db_inv_def owned_none)
  obtain n where n: "ra_inv (ff_seg f) (ff_end f) (rec_run n ` dom M)" by (rule rel_inv [OF M(1)])
  have inj: "inj_on dp_unit (dom M)" using M(1) by (simp add: ff_rel_def)
  let ?ps = "fptrs (db_upper db)" and ?l = "ra_live (ff_seg f)" and ?k = "div_ceil (ff_end f) REGION_PAGES + 1"
  have f: "finite (dom M)" using M(3) by simp
  have reg: "ptr_region p < length ?l" "ptr_region p < ?k" if p: "p \<in> set ?ps" for p
  proof -
    have x: "rec_run n p \<in> rec_run n ` dom M" using p M(3) by simp
    then have "sealed (ff_seg f) (rec_run n p)" using n by (auto simp: ra_inv_def recs_ok_def)
    then show "ptr_region p < length ?l" "ptr_region p < ?k" using rel_regions [OF n x] by (auto simp: sealed_def rec_run_def run_region_def)
  qed
  have "?l ! r = fold count_ptr ?ps (replicate (length ?l) 0) ! r" if r: "r < length ?l" for r
  proof -
    have "?l ! r = sum dp_units {p \<in> dom M. ptr_region p = r}"
      using n r live_sum [OF inj f] by (simp add: ra_inv_def recs_ok_def)
    then show ?thesis using r M(2,3) by (simp add: fold_count_nth sum_filter_distinct)
  qed
  then have "?l = fold count_ptr ?ps (replicate (length ?l) 0)" by (intro nth_equalityI) simp_all
  then have "sum_list ?l = sum_list (map dp_units ?ps)" using count_total [of ?ps "replicate (length ?l) 0"] reg(1) by (metis (no_types, lifting) add_0 length_replicate sum_list_replicate mult_zero_right)
  moreover have "sum_list (fold count_ptr ?ps (replicate ?k 0)) = sum_list (map dp_units ?ps)"
    using count_total [of ?ps "replicate ?k 0"] reg(2) by (simp del: replicate.simps add: sum_list_replicate)
  ultimately show ?thesis
    by (simp add: audit_live_units_def Let_def live_and_free_units_def live_units_def recompute_fold(1) del: replicate.simps)
qed

section \<open>Opening\<close>

lemma open_seg:
  assumes "num = div_ceil (mf_end m) REGION_PAGES"
  shows "ff_seg (open_store m direct data) = ra_default\<lparr>ra_live := fold count_ptr (fptrs (mf_upper m)) (replicate num 0) @ [0],
    ra_epoch_of := replicate (num + 1) 0, ra_head := num, ra_next := num * REGION_UNITS,
    ra_fresh := replicate (num + 1) False, ra_evac_pinned := replicate (num + 1) False\<rparr>"
  using assms by (simp add: open_store_def Let_def ensure_region_def resize_def ra_default_def recompute_fold(1) replicate_append_same)

definition fz_open :: "(disk_ptr \<rightharpoonup> bytes) \<Rightarrow> frozen" where
  "fz_open M = \<lparr>fz_durable = M, fz_snaps = Map.empty, fz_copies = Map.empty, fz_pins = []\<rparr>"

lemma open_inv:
  assumes M: "recs_placed M (mf_end m)" and A: "dom M = set (fptrs (mf_upper m))" "distinct (fptrs (mf_upper m))"
  obtains n where "ra_inv (ff_seg (open_store m direct data)) (ff_end (open_store m direct data)) (rec_run n ` dom M)"
    "dur_inv (ff_seg (open_store m direct data)) (rec_run n ` dom M)"
proof -
  let ?a = "ff_seg (open_store m direct data)" and ?e = "ff_end (open_store m direct data)"
  define num where "num = div_ceil (mf_end m) REGION_PAGES"
  note S = open_seg [OF num_def, of direct data]
  obtain n where n: "finite (rec_run n ` dom M)" "\<forall>x \<in> rec_run n ` dom M. run_ok x \<and> run_region x < num"
    "\<forall>x \<in> rec_run n ` dom M. \<forall>y \<in> rec_run n ` dom M. x \<noteq> y \<longrightarrow> apart x y" and inj: "inj_on dp_unit (dom M)"
    using M by (auto simp: recs_placed_def num_def)
  have e: "div_ceil ?e REGION_PAGES = num" by (simp add: open_store_def Let_def num_def div_ceil_def REGION_PAGES_def)
  have f: "finite (dom M)" using A(1) by simp
  have sealed: "sealed ?a x" if "x \<in> rec_run n ` dom M" for x
  proof -
    have "run_ok x" "run_region x < num" using n(2) that by blast+
    then show ?thesis by (simp add: sealed_def S)
  qed
  have live: "ra_live ?a ! r = sum run_live {x \<in> rec_run n ` dom M. run_region x = r}" if r: "r < length (ra_live ?a)" for r
  proof (cases "r < num")
    case True
    then show ?thesis using A unfolding live_sum [OF inj f] by (simp add: S nth_append fold_count_nth sum_filter_distinct)
  next
    case False
    then have z: "{x \<in> rec_run n ` dom M. run_region x = r} = {}" using n(2) by auto
    show ?thesis unfolding z using r False by (simp add: S nth_append)
  qed
  have "ra_inv ?a ?e (rec_run n ` dom M)"
    unfolding ra_inv_def
  proof (intro conjI)
    show "lengths_ok ?a ?e" unfolding lengths_ok_def empty_head_def e by (simp add: S)
    show "head_ok ?a" by (simp add: head_ok_def S)
    show "parked_ok ?a" by (simp add: parked_ok_def parked_def S ra_default_def)
    show "pins_ok ?a" by (simp add: pins_ok_def S ra_default_def)
    show "recs_ok ?a (rec_run n ` dom M)" unfolding recs_ok_def using n(1,3) sealed live by blast
  qed
  moreover have "dur_inv ?a (rec_run n ` dom M)"
  proof -
    have "\<not> is_fresh ?a r" for r unfolding is_fresh_def S by (simp del: replicate.simps)
    moreover have "ra_free ?a @ ra_staged ?a = []" by (simp add: S ra_default_def)
    ultimately show ?thesis unfolding dur_inv_def using sealed by simp
  qed
  ultimately show ?thesis by (rule that)
qed

lemma open_rel:
  assumes "recs_placed M (mf_end m)" and "dom M = set (fptrs (mf_upper m))" "distinct (fptrs (mf_upper m))"
    and h: "\<And>ptr p. M ptr = Some p \<Longrightarrow> holds data ptr p" and d: "direct \<Longrightarrow> DIO_ALIGN dvd length data"
  shows "ff_rel (fz_open M) (open_store m direct data) M"
proof -
  let ?f = "open_store m direct data"
  obtain n where n: "ra_inv (ff_seg ?f) (ff_end ?f) (rec_run n ` dom M)" "dur_inv (ff_seg ?f) (rec_run n ` dom M)"
    by (rule open_inv [OF assms(1-3)])
  have data: "ff_data ?f = data" "ff_direct ?f = direct" "ff_ahead ?f = []" "ff_ahead_len ?f = 0" by (simp_all add: open_store_def Let_def)
  have s: "ra_pins (ff_seg ?f) = []" "ra_next (ff_seg ?f) = div_ceil (mf_end m) REGION_PAGES * REGION_UNITS"
    by (simp_all add: open_seg [OF refl] ra_default_def)
  have "16 dvd ra_next (ff_seg ?f)" unfolding s by (simp add: REGION_UNITS_def ADDR_UNIT_def REGION_PAGES_def PAGE_def)
  then have "direct_ok ?f" using d unfolding direct_ok_def data by blast
  moreover have "space_ok ?f (dom M)" using n(1) by (auto simp: space_ok_def ra_ok_def)
  moreover have "durable_ok M ?f" using n(2) h by (auto simp: durable_ok_def data)
  moreover have "snaps_ok Map.empty ?f" by (simp add: snaps_ok_def snap_inv_def)
  ultimately show ?thesis using assms(1) h s(1) by (simp add: ff_rel_def fz_open_def ahead_ok_def data recs_placed_def)
qed

text \<open>The checkpoint \<open>m\<close> with the records \<open>M\<close> stands for the contents \<open>t\<close>.\<close>

definition ckpt_ok :: "prims \<Rightarrow> manifest \<Rightarrow> (disk_ptr \<rightharpoonup> bytes) \<Rightarrow> trie \<Rightarrow> bool" where
  "ckpt_ok P m M t = (froot P M (mf_upper m) t \<and> dom M = set (fptrs (mf_upper m)) \<and> recs_placed M (mf_end m))"

definition db_of :: "manifest \<Rightarrow> flat_mpt" where
  "db_of m = \<lparr>db_cfg = mf_cfg m, db_upper = mf_upper m, db_ram = False, db_gc = 0\<rparr>"

lemma open_ckpt:
  assumes "ckpt_ok P m M t" and "\<And>ptr p. M ptr = Some p \<Longrightarrow> holds data ptr p" and "direct \<Longrightarrow> DIO_ALIGN dvd length data"
  shows "db_inv (fz_open M) P (open_store m direct data) (db_of m) t"
proof -
  have "distinct (fptrs (mf_upper m))" using assms(1) by (simp add: ckpt_ok_def froot_def)
  then have "ff_rel (fz_open M) (open_store m direct data) M" using assms by (intro open_rel) (simp_all add: ckpt_ok_def)
  then show ?thesis using assms(1) by (auto simp: db_inv_froot db_of_def ckpt_ok_def owned_none fz_open_def)
qed

text \<open>Every database is a checkpoint of itself.\<close>

lemma ckpt_of:
  assumes "ff_rel Z f M" and "froot P M (db_upper db) t"
  shows "ckpt_ok P \<lparr>mf_cfg = cfg, mf_upper = db_upper db, mf_end = ff_end f\<rparr> (M |` set (fptrs (db_upper db))) t"
proof -
  let ?M = "M |` set (fptrs (db_upper db))"
  have "recs_placed ?M (ff_end f)" by (rule rel_placed [OF assms(1)]) (auto simp: map_le_def restrict_map_def split: if_splits)
  moreover have "froot P ?M (db_upper db) t" by (rule froot_cong [OF assms(2)]) simp
  ultimately show ?thesis using froot_owned [OF assms(2)] by (auto simp: ckpt_ok_def)
qed

lemma persist_durable:
  assumes "ff_rel Z f M" and "D \<subseteq>\<^sub>m M"
  shows "ff_rel (Z\<lparr>fz_durable := D\<rparr>) (f\<lparr>ff_seg := on_persisted (ff_seg f)\<rparr>) M"
proof -
  let ?f = "f\<lparr>ff_seg := on_persisted (ff_seg f)\<rparr>"
  have r: "ff_rel (Z\<lparr>fz_durable := M\<rparr>) ?f M" by (rule persisted_rel [OF assms(1)])
  then obtain n where n: "dur_inv (ff_seg ?f) (rec_run n ` dom M)" "\<And>ptr p. M ptr = Some p \<Longrightarrow> holds (ff_data ?f) ptr p"
    by (auto simp: ff_rel_def durable_ok_def)
  have "dur_inv (ff_seg ?f) (rec_run n ` dom D)" using n(1) map_le_implies_dom_le [OF assms(2)] unfolding dur_inv_def by blast
  moreover have "holds (ff_data ?f) ptr p" if "D ptr = Some p" for ptr p
    using n(2) [of ptr p] assms(2) that by (metis domI map_le_def)
  ultimately have "durable_ok D ?f" by (auto simp: durable_ok_def)
  then show ?thesis using r by (simp add: ff_rel_def)
qed

section \<open>The manifest\<close>

text \<open>What the manifest relies on of the serializer: what it wrote it reads back.\<close>

definition reads_back :: "(manifest \<Rightarrow> bytes res) \<Rightarrow> (bytes \<Rightarrow> manifest res) \<Rightarrow> bool" where
  "reads_back ser de = (\<forall>m bytes. ser m = Ok bytes \<longrightarrow> de bytes = Ok m \<and> bytes \<noteq> [])"

lemma manifest_read:
  assumes "keccak_len P" and "reads_back ser de" and "manifest_bytes P ser m = Ok bytes"
  shows "read_manifest P de (Some bytes) = Ok m"
proof -
  obtain body where b: "ser m = Ok body" "bytes = body @ keccak256 P body" using assms(3) by (auto simp: manifest_bytes_def res_map_Ok)
  have l: "length (keccak256 P body) = 32" using assms(1) by (simp add: keccak_len_def)
  have "body \<noteq> []" "de body = Ok m" using assms(2) b(1) by (auto simp: reads_back_def)
  then show ?thesis using b(2) l by (simp add: read_manifest_def Let_def)
qed

text \<open>A crash during the commit finds the old manifest or the new one, whole.\<close>

lemma commit_read: "d' \<in> set (commit_states bytes d) \<Longrightarrow> md_meta d' = md_meta d \<or> md_meta d' = Some bytes"
  by (auto simp: commit_states_def Let_def split: option.splits)

lemma commit_last: "md_meta (last (commit_states bytes d)) = Some bytes" "last (commit_states bytes d) \<in> set (commit_states bytes d)"
  by (simp_all add: commit_states_def Let_def)

lemma open_meta:
  assumes "read_manifest P de (md_meta d) = Ok m"
  shows "open_db P de direct data d = Ok (db_of m, open_store m direct data)"
  using assms by (simp add: open_db_def db_of_def)

section \<open>Crashes\<close>

text \<open>
  After a crash every byte of the file is one the file held at some moment since the
  checkpoint's sync: \<open>vs\<close> are the contents since then. The file is no shorter than
  at the sync.
\<close>

definition torn :: "bytes list \<Rightarrow> bytes \<Rightarrow> bool" where
  "torn vs d = ((\<exists>v \<in> set vs. length v \<le> length d) \<and>
     (\<forall>i < length d. (\<exists>v \<in> set vs. i < length v \<and> d ! i = v ! i) \<or> (\<forall>v \<in> set vs. length v \<le> i)))"

lemma torn_holds:
  assumes "torn vs d" and h: "\<And>v. v \<in> set vs \<Longrightarrow> holds v ptr p"
  shows "holds d ptr p"
proof -
  let ?o = "dp_offset ptr" and ?b = "frame p"
  have v: "?o + length ?b \<le> length v" "i < length ?b \<Longrightarrow> v ! (?o + i) = ?b ! i" if "v \<in> set vs" for v i
    using h [OF that] by (auto simp: holds_def has_at_nth)
  obtain u where u: "u \<in> set vs" "length u \<le> length d" using assms(1) by (auto simp: torn_def)
  have l: "?o + length ?b \<le> length d" using v(1) [OF u(1)] u(2) by simp
  have "d ! (?o + i) = ?b ! i" if i: "i < length ?b" for i
  proof -
    have "?o + i < length d" using l i by simp
    moreover have "\<not> length u \<le> ?o + i" using v(1) [OF u(1)] i by simp
    ultimately obtain w where "w \<in> set vs" "d ! (?o + i) = w ! (?o + i)" using assms(1) u(1) unfolding torn_def by blast
    then show ?thesis using v(2) [OF _ i] by simp
  qed
  then have "has_at d ?o ?b" using l by (simp add: has_at_nth)
  then show ?thesis using h [OF u(1)] by (simp add: holds_def)
qed

lemma torn_last: "torn vs v" if "v \<in> set vs"
  using that by (auto simp: torn_def)

end
