(* ===== verification/System.thy ===== *)
theory System
  imports Reopen
begin

text \<open>
  The database at work: client operations, snapshots, both collectors, spills,
  checkpoints and crashes in any order. \<open>sys_step\<close> is one operation of the library
  and \<open>sys_inv\<close> what holds between operations.
\<close>

section \<open>States and steps\<close>

text \<open>
  The file, the database and the manifest files; the snapshots that are held and the
  collected batch. The rest is history: the operations the contents stand for, those
  a snapshot saw, and the last checkpoint, with its operations and the contents
  of the file since.
\<close>

record system =
  sy_file :: flat_file
  sy_db :: flat_mpt
  sy_meta :: meta_files
  sy_snaps :: "(flat_snapshot \<times> db_op list) list"
  sy_batch :: "gc_batch option"
  sy_ops :: "db_op list"
  sy_ckpt :: "(manifest \<times> db_op list \<times> bytes list) option"

definition sys_new :: "config \<Rightarrow> bool \<Rightarrow> bool \<Rightarrow> system" where
  "sys_new cfg ram direct = \<lparr>sy_file = ff_new direct, sy_db = db_new cfg ram, sy_meta = \<lparr>md_meta = None, md_prev = None\<rparr>,
     sy_snaps = [], sy_batch = None, sy_ops = [], sy_ckpt = None\<rparr>"

definition seen :: "flat_file \<Rightarrow> system \<Rightarrow> system" where
  "seen f s = s\<lparr>sy_file := f, sy_ckpt := map_option (\<lambda>(m, o', vs). (m, o', ff_data f # vs)) (sy_ckpt s)\<rparr>"

lemma seen_simps [simp]: "sy_file (seen f s) = f" "sy_db (seen f s) = sy_db s" "sy_meta (seen f s) = sy_meta s"
  "sy_snaps (seen f s) = sy_snaps s" "sy_batch (seen f s) = sy_batch s" "sy_ops (seen f s) = sy_ops s"
  "sy_ckpt (seen f s) = map_option (\<lambda>(m, o', vs). (m, o', ff_data f # vs)) (sy_ckpt s)"
  by (simp_all add: seen_def)

inductive sys_step :: "prims \<Rightarrow> (manifest \<Rightarrow> bytes res) \<Rightarrow> (bytes \<Rightarrow> manifest res) \<Rightarrow> system \<Rightarrow> system \<Rightarrow> bool" for P ser de where
  y_exec: "request_ok op \<Longrightarrow> mem_ok (db_upper (sy_db s)) \<Longrightarrow> spread (sy_ops s @ [op]) \<Longrightarrow>
     exec P (sy_db s) op (sy_file s) = (Ok (h, db), f) \<Longrightarrow>
     sys_step P ser de s ((seen f s)\<lparr>sy_db := db, sy_ops := sy_ops s @ [op]\<rparr>)"
| y_snapshot: "snapshot (sy_db s) (sy_file s) = (sn, f) \<Longrightarrow>
     sys_step P ser de s ((seen f s)\<lparr>sy_snaps := sy_snaps s @ [(sn, sy_ops s)]\<rparr>)"
| y_clone: "(sn, ops) \<in> set (sy_snaps s) \<Longrightarrow> snapshot_clone sn (sy_file s) = (sn', f) \<Longrightarrow>
     sys_step P ser de s ((seen f s)\<lparr>sy_snaps := sy_snaps s @ [(sn', ops)]\<rparr>)"
| y_drop: "sy_snaps s = xs @ (sn, ops) # ys \<Longrightarrow>
     sys_step P ser de s ((seen (snapshot_drop sn (sy_file s)) s)\<lparr>sy_snaps := xs @ ys\<rparr>)"
| y_gc_step: "gc_step env (sy_db s) (sy_file s) = (Ok (k, db), f) \<Longrightarrow> sys_step P ser de s ((seen f s)\<lparr>sy_db := db\<rparr>)"
| y_collect: "sy_batch s = None \<Longrightarrow> sy_snaps s = xs @ (sn, ops) # ys \<Longrightarrow> (\<And>rs. mset (order rs) = mset rs) \<Longrightarrow>
     gc_collect env order sn k (sy_file s) = (Ok b, f) \<Longrightarrow>
     sys_step P ser de s ((seen f s)\<lparr>sy_snaps := xs @ ys, sy_batch := Some b\<rparr>)"
| y_install: "sy_batch s = Some b \<Longrightarrow> gc_install env b (sy_db s) (sy_file s) = (Ok (i, d, db), f) \<Longrightarrow>
     sys_step P ser de s ((seen f s)\<lparr>sy_db := db, sy_batch := None\<rparr>)"
| y_spill: "spill_quota touched budget (sy_db s) (sy_file s) = (Ok db, f) \<Longrightarrow> sys_step P ser de s ((seen f s)\<lparr>sy_db := db\<rparr>)"
| y_persist: "persist P env ser touched (sy_db s) (sy_meta s) (sy_file s) = (Ok (db, d), f) \<Longrightarrow>
     sys_step P ser de s (s\<lparr>sy_file := f, sy_db := db, sy_meta := d,
       sy_ckpt := Some (\<lparr>mf_cfg = db_cfg db, mf_upper = db_upper db, mf_end = ff_end f\<rparr>, sy_ops s, [ff_data f])\<rparr>)"
| y_crash: "sy_ckpt s = Some (m, ops, vs) \<Longrightarrow> torn vs data \<Longrightarrow> (direct \<longrightarrow> DIO_ALIGN dvd length data) \<Longrightarrow>
     open_db P de direct data (sy_meta s) = Ok (db, f) \<Longrightarrow>
     sys_step P ser de s (s\<lparr>sy_file := f, sy_db := db, sy_snaps := [], sy_batch := None, sy_ops := ops,
       sy_ckpt := Some (m, ops, [data])\<rparr>)"

inductive sys_hist :: "prims \<Rightarrow> (manifest \<Rightarrow> bytes res) \<Rightarrow> (bytes \<Rightarrow> manifest res) \<Rightarrow> system \<Rightarrow> bool" for P ser de where
  y_new: "sys_hist P ser de (sys_new cfg ram direct)"
| y_step: "sys_hist P ser de s \<Longrightarrow> sys_step P ser de s s' \<Longrightarrow> sys_hist P ser de s'"

section \<open>The invariant\<close>

definition pin_count :: "(nat \<times> nat) list \<Rightarrow> nat \<Rightarrow> nat" where
  "pin_count ps g = (case map_of ps g of None \<Rightarrow> 0 | Some c \<Rightarrow> c)"

definition handles :: "system \<Rightarrow> nat list" where
  "handles s = map (\<lambda>(sn, ops). sn_gen sn) (sy_snaps s) @ (case sy_batch s of None \<Rightarrow> [] | Some b \<Rightarrow> [sn_gen (gb_snap b)])"

definition snap_ok :: "prims \<Rightarrow> frozen \<Rightarrow> flat_snapshot \<times> db_op list \<Rightarrow> bool" where
  "snap_ok P Z = (\<lambda>(sn, ops). \<exists>m t. fz_snaps Z (sn_gen sn) = Some m \<and> froot P m (sn_root sn) t \<and>
     map_run P Map.empty ops = Ok (tlook t))"

definition ckpt_inv :: "prims \<Rightarrow> (bytes \<Rightarrow> manifest res) \<Rightarrow> meta_files \<Rightarrow> (disk_ptr \<rightharpoonup> bytes) \<Rightarrow>
    (manifest \<times> db_op list \<times> bytes list) option \<Rightarrow> bool" where
  "ckpt_inv P de d D ck = (case ck of None \<Rightarrow> True | Some (m, ops, vs) \<Rightarrow>
     read_manifest P de (md_meta d) = Ok m \<and> (\<exists>t. ckpt_ok P m D t \<and> map_run P Map.empty ops = Ok (tlook t)) \<and>
     (\<forall>v \<in> set vs. \<forall>ptr p. D ptr = Some p \<longrightarrow> holds v ptr p))"

definition sys_inv :: "prims \<Rightarrow> (bytes \<Rightarrow> manifest res) \<Rightarrow> frozen \<Rightarrow> trie \<Rightarrow> system \<Rightarrow> bool" where
  "sys_inv P de Z t s = (db_inv Z P (sy_file s) (sy_db s) t \<and> map_run P Map.empty (sy_ops s) = Ok (tlook t) \<and>
     (\<forall>x \<in> set (sy_snaps s). snap_ok P Z x) \<and> (\<forall>g. pin_count (fz_pins Z) g = count_list (handles s) g) \<and>
     (case sy_batch s of None \<Rightarrow> fz_copies Z = Map.empty | Some b \<Rightarrow> pending Z b) \<and>
     ckpt_inv P de (sy_meta s) (fz_durable Z) (sy_ckpt s))"

lemma pin_count_add: "pin_count (pins_add g ps) h = pin_count ps h + (if h = g then 1 else 0)"
  by (simp add: pin_count_def pins_add_def)

lemma pin_count_unpin: "pin_count (ra_pins (unpin a g)) h = pin_count (ra_pins a) h - (if h = g then 1 else 0)"
proof -
  have "ra_pins (release_snap_hold b) = ra_pins b" for b
    unfolding release_snap_hold_def by (simp add: release_loop_facts(8) [OF refl])
  then show ?thesis by (auto simp: unpin_def pin_count_def Let_def split: option.splits)
qed

lemma count_pinned:
  assumes "ff_rel Z f M" and "0 < pin_count (fz_pins Z) g"
  shows "g \<in> fst ` set (fz_pins Z)" and "pinned (ff_seg f) g" and "g \<le> ra_pin_gen (ff_seg f)"
proof -
  obtain c where "map_of (fz_pins Z) g = Some c" using assms(2) by (auto simp: pin_count_def split: option.splits)
  then have m: "(g, c) \<in> set (fz_pins Z)" by (rule map_of_SomeD)
  then show k: "g \<in> fst ` set (fz_pins Z)" by force
  then show "pinned (ff_seg f) g" using assms(1) by (simp add: ff_rel_def pinned_def)
  obtain n where "ra_inv (ff_seg f) (ff_end f) (rec_run n ` dom M)" by (rule rel_inv [OF assms(1)])
  then show "g \<le> ra_pin_gen (ff_seg f)" using m assms(1) by (auto simp: ra_inv_def pins_ok_def ff_rel_def)
qed

lemma count_keys: "g \<in> fst ` set ps \<Longrightarrow> (\<forall>(h, c) \<in> set ps. 0 < c) \<Longrightarrow> 0 < pin_count ps g"
  by (force simp: pin_count_def dest: map_of_SomeD split: option.splits simp: map_of_eq_None_iff)

lemma ckpt_seen:
  assumes "ckpt_inv P de d (fz_durable Z) ck" and "ff_rel Z f M"
  shows "ckpt_inv P de d (fz_durable Z) (map_option (\<lambda>(m, o', vs). (m, o', ff_data f # vs)) ck)"
  using assms by (auto simp: ckpt_inv_def ff_rel_def durable_ok_def split: option.splits)

text \<open>Steps that change neither pins nor copies.\<close>

lemma inv_work:
  assumes "sys_inv P de Z t s" and "db_inv Z P f db t'" and "map_run P Map.empty ops = Ok (tlook t')"
  shows "sys_inv P de Z t' ((seen f s)\<lparr>sy_db := db, sy_ops := ops\<rparr>)"
proof -
  obtain M where "ff_rel Z f M" using assms(2) by (auto simp: db_inv_def)
  then show ?thesis using assms ckpt_seen [of P de "sy_meta s" Z "sy_ckpt s" f M] by (simp add: sys_inv_def handles_def)
qed

text \<open>What a maintenance operation promises its callers: the contents stay.\<close>

locale keeper =
  fixes run :: "flat_mpt \<Rightarrow> flat_mpt fm"
  assumes keeps: "db_inv Z P f db t \<Longrightarrow> run db f = (Ok db', f') \<Longrightarrow> same_db P Z t db db' f'"
begin

lemma keeps_sys:
  assumes "sys_inv P de Z t s" and "run (sy_db s) (sy_file s) = (Ok db, f)"
  shows "sys_inv P de Z t ((seen f s)\<lparr>sy_db := db\<rparr>)"
proof -
  have "same_db P Z t (sy_db s) db f" using keeps assms by (auto simp: sys_inv_def)
  then have "sys_inv P de Z t ((seen f s)\<lparr>sy_db := db, sy_ops := sy_ops s\<rparr>)"
    by (intro inv_work [OF assms(1)]) (use assms(1) in \<open>auto simp: sys_inv_def same_db_def\<close>)
  then show ?thesis by (simp add: seen_def)
qed

end

definition gc_keep :: "gc_env \<Rightarrow> flat_mpt \<Rightarrow> flat_mpt fm" where
  "gc_keep env db = fbind (gc_step env db) (\<lambda>(k, db). fret db)"

interpretation gc: keeper "gc_keep env" for env
proof
  fix Z P f db t db' f'
  assume I: "db_inv Z P f db t" and r: "gc_keep env db f = (Ok db', f')"
  then obtain k where "gc_rounds env 0 db f = (Ok (k, db'), f')"
    by (auto simp: gc_keep_def gc_step_def fbind_def fret_def split: prod.splits res.splits)
  from gspec_Ok [OF gc_rounds_rep [OF I] this] show "same_db P Z t db db' f'" by simp
qed

interpretation spill: keeper "spill_quota touched budget" for touched budget
  by unfold_locales (use fspec_Ok [OF spill_quota_rep] in blast)

text \<open>Steps that change the pins.\<close>

lemma count_key: "0 < pin_count ps g \<Longrightarrow> g \<in> fst ` set ps"
  by (force simp: pin_count_def dest: map_of_SomeD split: option.splits)

lemma inv_pins:
  assumes I: "sys_inv P de Z t s" and D: "db_inv Z' P f (sy_db s) t" and Z: "fz_durable Z' = fz_durable Z" "fz_copies Z' = fz_copies Z"
    and S: "\<And>x. x \<in> set snaps \<Longrightarrow> snap_ok P Z' x" and C: "\<And>g. pin_count (fz_pins Z') g = count_list (handles (s\<lparr>sy_snaps := snaps\<rparr>)) g"
    and B: "\<And>b. sy_batch s = Some b \<Longrightarrow> fz_snaps Z' (sn_gen (gb_snap b)) = fz_snaps Z (sn_gen (gb_snap b))"
  shows "sys_inv P de Z' t ((seen f s)\<lparr>sy_snaps := snaps\<rparr>)"
proof -
  obtain M where "ff_rel Z' f M" using D by (auto simp: db_inv_def)
  then have "ckpt_inv P de (sy_meta s) (fz_durable Z') (sy_ckpt (seen f s))"
    using I Z(1) ckpt_seen [of P de "sy_meta s" Z' "sy_ckpt s" f M] by (simp add: sys_inv_def)
  moreover have "pending Z' b" if b: "sy_batch s = Some b" for b
  proof -
    have "0 < pin_count (fz_pins Z') (sn_gen (gb_snap b))" unfolding C using b by (simp add: handles_def)
    then show ?thesis using I B [OF b] b Z(2) count_key by (auto simp: sys_inv_def pending_def collected_def)
  qed
  moreover have "handles ((seen f s)\<lparr>sy_snaps := snaps\<rparr>) = handles (s\<lparr>sy_snaps := snaps\<rparr>)" by (simp add: handles_def)
  ultimately show ?thesis using I D Z(2) S C by (auto simp: sys_inv_def split: option.splits)
qed

lemma handle_gen:
  assumes "sys_inv P de Z t s" and "g \<in> set (handles s)"
  shows "0 < pin_count (fz_pins Z) g"
  using assms by (metis count_list_0_iff gr0I sys_inv_def)

lemma snap_handle: "(sn, ops) \<in> set (sy_snaps s) \<Longrightarrow> sn_gen sn \<in> set (handles s)"
  by (force simp: handles_def)

lemma inv_snapshot:
  assumes I: "sys_inv P de Z t s" and s: "snapshot (sy_db s) (sy_file s) = (sn, f)"
  shows "\<exists>Z'. sys_inv P de Z' t ((seen f s)\<lparr>sy_snaps := sy_snaps s @ [(sn, sy_ops s)]\<rparr>)"
proof -
  obtain M where M: "ff_rel Z (sy_file s) M" "froot P M (db_upper (sy_db s)) t" "owned Z M (fptrs (db_upper (sy_db s)))"
    using I by (auto simp: sys_inv_def db_inv_froot)
  obtain g where g: "pin_snapshot (sy_file s) = (g, f)" "sn = \<lparr>sn_root = db_upper (sy_db s), sn_gen = g\<rparr>"
    using s by (auto simp: snapshot_def split: prod.splits)
  let ?Z = "Z\<lparr>fz_snaps := (fz_snaps Z)(g \<mapsto> M), fz_pins := ra_pins (ff_seg f)\<rparr>"
  have R: "ff_rel ?Z f M" by (rule pin_rel(1) [OF M(1) g(1)])
  have new: "g = ra_pin_gen (ff_seg (sy_file s)) + 1" and pins: "ra_pins (ff_seg f) = pins_add g (fz_pins Z)"
    using g(1) M(1) by (auto simp: pin_snapshot_def pin_def Let_def ff_rel_def)
  have old: "h \<noteq> g" if "h \<in> set (handles s)" for h
    using count_pinned(3) [OF M(1) handle_gen [OF I that]] new by simp
  have "sys_inv P de ?Z t ((seen f s)\<lparr>sy_snaps := sy_snaps s @ [(sn, sy_ops s)]\<rparr>)"
  proof (rule inv_pins [OF I])
    show "db_inv ?Z P f (sy_db s) t" using R M(2,3) by (auto simp: db_inv_froot owned_def)
    show "snap_ok P ?Z x" if "x \<in> set (sy_snaps s @ [(sn, sy_ops s)])" for x
    proof (cases "x = (sn, sy_ops s)")
      case True
      then show ?thesis using I M(2) g(2) by (auto simp: snap_ok_def sys_inv_def)
    next
      case False
      then have x: "x \<in> set (sy_snaps s)" using that by auto
      then have "sn_gen (fst x) \<noteq> g" using old snap_handle [of "fst x" "snd x"] by simp
      moreover have "snap_ok P Z x" using I x by (simp add: sys_inv_def)
      ultimately show ?thesis by (auto simp: snap_ok_def)
    qed
    show "pin_count (fz_pins ?Z) h = count_list (handles (s\<lparr>sy_snaps := sy_snaps s @ [(sn, sy_ops s)]\<rparr>)) h" for h
      using I by (simp add: pins pin_count_add sys_inv_def handles_def g(2))
    show "fz_snaps ?Z (sn_gen (gb_snap b)) = fz_snaps Z (sn_gen (gb_snap b))" if "sy_batch s = Some b" for b
      using old [of "sn_gen (gb_snap b)"] that by (simp add: handles_def)
  qed simp_all
  then show ?thesis by blast
qed

lemma inv_clone:
  assumes I: "sys_inv P de Z t s" and s: "(sn, ops) \<in> set (sy_snaps s)" "snapshot_clone sn (sy_file s) = (sn', f)"
  shows "\<exists>Z'. sys_inv P de Z' t ((seen f s)\<lparr>sy_snaps := sy_snaps s @ [(sn', ops)]\<rparr>)"
proof -
  obtain M where M: "ff_rel Z (sy_file s) M" "froot P M (db_upper (sy_db s)) t" "owned Z M (fptrs (db_upper (sy_db s)))"
    using I by (auto simp: sys_inv_def db_inv_froot)
  have f: "f = pin_snapshot_at (sy_file s) (sn_gen sn)" "sn' = sn" using s(2) by (auto simp: snapshot_clone_def)
  let ?Z = "Z\<lparr>fz_pins := ra_pins (pin_at (ff_seg (sy_file s)) (sn_gen sn))\<rparr>"
  have p: "pinned (ff_seg (sy_file s)) (sn_gen sn)" by (rule count_pinned(2) [OF M(1) handle_gen [OF I snap_handle [OF s(1)]]])
  have R: "ff_rel ?Z f M" unfolding f by (rule pin_at_rel [OF M(1) p])
  have pins: "fz_pins ?Z = pins_add (sn_gen sn) (fz_pins Z)" using M(1) by (simp add: pin_at_def ff_rel_def)
  have "sys_inv P de ?Z t ((seen f s)\<lparr>sy_snaps := sy_snaps s @ [(sn', ops)]\<rparr>)"
  proof (rule inv_pins [OF I])
    show "db_inv ?Z P f (sy_db s) t" using R M(2,3) by (auto simp: db_inv_froot owned_def)
    show "snap_ok P ?Z x" if "x \<in> set (sy_snaps s @ [(sn', ops)])" for x
      using I s(1) that f(2) by (auto simp: snap_ok_def sys_inv_def)
    show "pin_count (fz_pins ?Z) h = count_list (handles (s\<lparr>sy_snaps := sy_snaps s @ [(sn', ops)]\<rparr>)) h" for h
      using I unfolding pins by (simp add: pin_count_add sys_inv_def handles_def f(2))
  qed simp_all
  then show ?thesis by blast
qed

lemma inv_drop:
  assumes I: "sys_inv P de Z t s" and s: "sy_snaps s = xs @ (sn, ops) # ys"
  shows "\<exists>Z'. sys_inv P de Z' t ((seen (snapshot_drop sn (sy_file s)) s)\<lparr>sy_snaps := xs @ ys\<rparr>)"
proof -
  obtain M where M: "ff_rel Z (sy_file s) M" "froot P M (db_upper (sy_db s)) t" "owned Z M (fptrs (db_upper (sy_db s)))"
    using I by (auto simp: sys_inv_def db_inv_froot)
  let ?Z = "Z\<lparr>fz_pins := ra_pins (unpin (ff_seg (sy_file s)) (sn_gen sn))\<rparr>" and ?f = "snapshot_drop sn (sy_file s)"
  have R: "ff_rel ?Z ?f M" unfolding snapshot_drop_def by (rule unpin_rel [OF M(1)])
  have "sys_inv P de ?Z t ((seen ?f s)\<lparr>sy_snaps := xs @ ys\<rparr>)"
  proof (rule inv_pins [OF I])
    show "db_inv ?Z P ?f (sy_db s) t" using R M(2,3) by (auto simp: db_inv_froot owned_def)
    show "snap_ok P ?Z x" if "x \<in> set (xs @ ys)" for x
      using I s that by (auto simp: snap_ok_def sys_inv_def)
    show "pin_count (fz_pins ?Z) h = count_list (handles (s\<lparr>sy_snaps := xs @ ys\<rparr>)) h" for h
      using I s M(1) by (simp add: pin_count_unpin sys_inv_def handles_def ff_rel_def)
  qed simp_all
  then show ?thesis by blast
qed

lemma inv_collect:
  assumes I: "sys_inv P de Z t s" and s: "sy_batch s = None" "sy_snaps s = xs @ (sn, ops) # ys" and o: "\<And>rs. mset (order rs) = mset rs"
    and c: "gc_collect env order sn k (sy_file s) = (Ok b, f)"
  shows "\<exists>Z'. sys_inv P de Z' t ((seen f s)\<lparr>sy_snaps := xs @ ys, sy_batch := Some b\<rparr>)"
proof -
  obtain m t0 where m: "fz_snaps Z (sn_gen sn) = Some m" "froot P m (sn_root sn) t0" using I s(2) by (auto simp: sys_inv_def snap_ok_def)
  have D: "db_inv Z P (sy_file s) (sy_db s) t" "fz_copies Z = Map.empty" using I s(1) by (auto simp: sys_inv_def)
  have k: "sn_gen sn \<in> fst ` set (fz_pins Z)"
    using count_key [OF handle_gen [OF I snap_handle [of sn ops]]] s(2) by simp
  obtain c where R: "db_inv (Z\<lparr>fz_copies := c\<rparr>) P f (sy_db s) t" "pending (Z\<lparr>fz_copies := c\<rparr>) b" "gb_snap b = sn"
    using gc_collect_rep [OF D k m o c] by blast
  obtain M where "ff_rel (Z\<lparr>fz_copies := c\<rparr>) f M" using R(1) by (auto simp: db_inv_def)
  then have "ckpt_inv P de (sy_meta s) (fz_durable Z) (sy_ckpt (seen f s))"
    using I ckpt_seen [of P de "sy_meta s" Z "sy_ckpt s" f M] by (simp add: sys_inv_def)
  then have "sys_inv P de (Z\<lparr>fz_copies := c\<rparr>) t ((seen f s)\<lparr>sy_snaps := xs @ ys, sy_batch := Some b\<rparr>)"
    using I R s by (auto simp: sys_inv_def snap_ok_def handles_def)
  then show ?thesis by blast
qed

lemma inv_install:
  assumes I: "sys_inv P de Z t s" and s: "sy_batch s = Some b" and c: "gc_install env b (sy_db s) (sy_file s) = (Ok (i, d, db), f)"
  shows "\<exists>Z'. sys_inv P de Z' t ((seen f s)\<lparr>sy_db := db, sy_batch := None\<rparr>)"
proof -
  have D: "db_inv Z P (sy_file s) (sy_db s) t" "pending Z b" using I s by (auto simp: sys_inv_def)
  let ?Z = "Z\<lparr>fz_copies := Map.empty, fz_pins := ra_pins (ff_seg f)\<rparr>"
  obtain a where R: "same_db P ?Z t (sy_db s) db f" "ra_pins a = fz_pins Z" "ra_pins (ff_seg f) = ra_pins (unpin a (sn_gen (gb_snap b)))"
    using gc_install_rep [OF D, of env] c by auto
  obtain M where "ff_rel ?Z f M" using R(1) by (auto simp: same_db_def db_inv_def)
  then have "ckpt_inv P de (sy_meta s) (fz_durable ?Z) (sy_ckpt (seen f s))"
    using I ckpt_seen [of P de "sy_meta s" ?Z "sy_ckpt s" f M] by (simp add: sys_inv_def)
  then have "sys_inv P de ?Z t ((seen f s)\<lparr>sy_db := db, sy_batch := None\<rparr>)"
    using I R s by (auto simp: sys_inv_def snap_ok_def handles_def same_db_def pin_count_unpin)
  then show ?thesis by blast
qed

section \<open>Checkpoints\<close>

lemma prepare_rep:
  assumes I: "db_inv Z P f db t" and p: "persist_prepare P env ser touched db f = (Ok (bytes, db'), f')"
  shows "db_inv Z P f' db' t" and "manifest_bytes P ser \<lparr>mf_cfg = db_cfg db', mf_upper = db_upper db', mf_end = ff_end f'\<rparr> = Ok bytes"
    and "db_cfg db' = db_cfg db" and "fh P (db_upper db') = fh P (db_upper db)" and "mem_ok (db_upper db) \<Longrightarrow> mem_ok (db_upper db')"
proof -
  obtain db1 f1 where a: "spill_mem touched db f = (Ok db1, f1)"
    using p by (auto simp: persist_prepare_def fbind_def split: prod.splits res.splits)
  then obtain k f2 where b: "gc_step env (db1\<lparr>db_ram := False\<rparr>) f1 = (Ok (k, db'), f2)" "f' = f2"
      "manifest_bytes P ser \<lparr>mf_cfg = db_cfg db', mf_upper = db_upper db', mf_end = ff_end f2\<rparr> = Ok bytes"
    using p by (auto simp: persist_prepare_def fbind_def res_map_Ok split: prod.splits res.splits)
  have s1: "same_db P Z t db db1 f1" using fspec_Ok [OF spill_quota_rep [OF I]] a unfolding spill_mem_def by blast
  then have "db_inv Z P f1 (db1\<lparr>db_ram := False\<rparr>) t" by (simp add: same_db_def db_inv_def)
  then have s2: "same_db P Z t (db1\<lparr>db_ram := False\<rparr>) db' f'"
    using gspec_Ok [OF gc_rounds_rep] b(1,2) unfolding gc_step_def by fastforce
  show "db_inv Z P f' db' t" "db_cfg db' = db_cfg db" "fh P (db_upper db') = fh P (db_upper db)" "mem_ok (db_upper db) \<Longrightarrow> mem_ok (db_upper db')"
    using s1 s2 by (simp_all add: same_db_def)
  show "manifest_bytes P ser \<lparr>mf_cfg = db_cfg db', mf_upper = db_upper db', mf_end = ff_end f'\<rparr> = Ok bytes" using b by simp
qed

lemma inv_persist:
  assumes K: "keccak_len P" "reads_back ser de" and I: "sys_inv P de Z t s"
    and p: "persist P env ser touched (sy_db s) (sy_meta s) (sy_file s) = (Ok (db, d), f)"
  shows "\<exists>Z'. sys_inv P de Z' t (s\<lparr>sy_file := f, sy_db := db, sy_meta := d,
       sy_ckpt := Some (\<lparr>mf_cfg = db_cfg db, mf_upper = db_upper db, mf_end = ff_end f\<rparr>, sy_ops s, [ff_data f])\<rparr>)"
proof -
  obtain bytes f1 where q: "persist_prepare P env ser touched (sy_db s) (sy_file s) = (Ok (bytes, db), f1)"
      "d = last (commit_states bytes (sy_meta s))" "f = f1\<lparr>ff_seg := on_persisted (ff_seg f1)\<rparr>"
    using p by (auto simp: persist_def fbind_def split: prod.splits res.splits)
  have D: "db_inv Z P (sy_file s) (sy_db s) t" using I by (simp add: sys_inv_def)
  let ?m = "\<lparr>mf_cfg = db_cfg db, mf_upper = db_upper db, mf_end = ff_end f1\<rparr>"
  note R = prepare_rep [OF D q(1)]
  obtain M where M: "ff_rel Z f1 M" "froot P M (db_upper db) t" "owned Z M (fptrs (db_upper db))" using R(1) by (auto simp: db_inv_froot)
  define N where "N = M |` set (fptrs (db_upper db))"
  have N: "N \<subseteq>\<^sub>m M" by (auto simp: N_def map_le_def restrict_map_def split: if_splits)
  have F: "ff_rel (Z\<lparr>fz_durable := N\<rparr>) f M" unfolding q(3) by (rule persist_durable [OF M(1) N])
  have c: "ckpt_ok P ?m N t" unfolding N_def by (rule ckpt_of [OF M(1,2)])
  have m: "read_manifest P de (md_meta d) = Ok ?m" unfolding q(2) commit_last(1) by (rule manifest_read [OF K R(2)])
  have h: "\<forall>ptr p. N ptr = Some p \<longrightarrow> holds (ff_data f) ptr p" using F by (auto simp: ff_rel_def durable_ok_def)
  have "ckpt_inv P de d N (Some (?m, sy_ops s, [ff_data f]))"
    using I c m h by (auto simp: ckpt_inv_def sys_inv_def)
  moreover have "db_inv (Z\<lparr>fz_durable := N\<rparr>) P f db t" using F M(2,3) by (auto simp: db_inv_froot owned_def)
  moreover have "pending (Z\<lparr>fz_durable := N\<rparr>) b = pending Z b" for b by (simp add: pending_def collected_def)
  moreover have "snap_ok P (Z\<lparr>fz_durable := N\<rparr>) = snap_ok P Z" by (simp add: snap_ok_def)
  ultimately have "sys_inv P de (Z\<lparr>fz_durable := N\<rparr>) t (s\<lparr>sy_file := f, sy_db := db, sy_meta := d,
       sy_ckpt := Some (\<lparr>mf_cfg = db_cfg db, mf_upper = db_upper db, mf_end = ff_end f\<rparr>, sy_ops s, [ff_data f])\<rparr>)"
    using I q(3) by (simp add: sys_inv_def handles_def split: option.splits)
  then show ?thesis by blast
qed

lemma ckpt_opens:
  assumes "ckpt_inv P de d D (Some (m, ops, vs))" and "torn vs data" and "direct \<longrightarrow> DIO_ALIGN dvd length data"
  obtains t where "open_db P de direct data d = Ok (db_of m, open_store m direct data)"
    "db_inv (fz_open D) P (open_store m direct data) (db_of m) t" "map_run P Map.empty ops = Ok (tlook t)"
    "ckpt_inv P de d D (Some (m, ops, [data]))"
proof -
  obtain t where t: "ckpt_ok P m D t" "map_run P Map.empty ops = Ok (tlook t)" "read_manifest P de (md_meta d) = Ok m"
    using assms(1) by (auto simp: ckpt_inv_def)
  have h: "holds data ptr p" if "D ptr = Some p" for ptr p
    by (rule torn_holds [OF assms(2)]) (use assms(1) that in \<open>auto simp: ckpt_inv_def\<close>)
  have "db_inv (fz_open D) P (open_store m direct data) (db_of m) t" by (rule open_ckpt [OF t(1) h]) (use assms(3) in auto)
  then show ?thesis using t h by (intro that [OF open_meta [OF t(3)] _ t(2)]) (auto simp: ckpt_inv_def)
qed

lemma inv_crash:
  assumes I: "sys_inv P de Z t s" and s: "sy_ckpt s = Some (m, ops, vs)" "torn vs data" "direct \<longrightarrow> DIO_ALIGN dvd length data"
    and o: "open_db P de direct data (sy_meta s) = Ok (db, f)"
  shows "\<exists>Z' t'. sys_inv P de Z' t' (s\<lparr>sy_file := f, sy_db := db, sy_snaps := [], sy_batch := None, sy_ops := ops,
       sy_ckpt := Some (m, ops, [data])\<rparr>)"
proof -
  have c: "ckpt_inv P de (sy_meta s) (fz_durable Z) (Some (m, ops, vs))" using I s(1) by (simp add: sys_inv_def)
  obtain t' where t': "open_db P de direct data (sy_meta s) = Ok (db_of m, open_store m direct data)"
    "db_inv (fz_open (fz_durable Z)) P (open_store m direct data) (db_of m) t'" "map_run P Map.empty ops = Ok (tlook t')"
    "ckpt_inv P de (sy_meta s) (fz_durable Z) (Some (m, ops, [data]))"
    by (rule ckpt_opens [OF c s(2,3)])
  have "sys_inv P de (fz_open (fz_durable Z)) t' (s\<lparr>sy_file := f, sy_db := db, sy_snaps := [], sy_batch := None, sy_ops := ops,
       sy_ckpt := Some (m, ops, [data])\<rparr>)"
    using t' o by (simp add: sys_inv_def handles_def fz_open_def pin_count_def)
  then show ?thesis by blast
qed

section \<open>Every step keeps the invariant\<close>

lemma sys_step_inv:
  assumes K: "keccak_len P" "decode_typed P" "reads_back ser de" and S: "sys_step P ser de s s'" and I: "sys_inv P de Z t s"
  shows "\<exists>Z' t'. sys_inv P de Z' t' s'"
  using S
proof (cases rule: sys_step.cases)
  case (y_exec op h db f)
  have D: "db_inv Z P (sy_file s) (sy_db s) t" "map_run P Map.empty (sy_ops s) = Ok (tlook t)" using I by (auto simp: sys_inv_def)
  have "fspec (exec P (sy_db s) op) (sy_file s) (\<lambda>(h, db') f'. \<exists>t'. op_run P (tlook t) op = Ok (tlook t') \<and> db_inv Z P f' db' t' \<and>
    (hashed P t' \<longrightarrow> h = troot P t'))"
    by (rule exec_rep [OF K(1,2) y_exec(2) D(1) y_exec(3) spread_apart [OF y_exec(4) D(2)]])
  from fspec_Ok [OF this y_exec(5)] obtain t' where "op_run P (tlook t) op = Ok (tlook t')" "db_inv Z P f db t'" by auto
  then show ?thesis unfolding y_exec(1) using inv_work [OF I, of f db t' "sy_ops s @ [op]"] D(2) by (auto simp: map_run_snoc)
next
  case (y_gc_step env k db f)
  then have "gc_keep env (sy_db s) (sy_file s) = (Ok db, f)" by (simp add: gc_keep_def fbind_def fret_def)
  from gc.keeps_sys [OF I this] show ?thesis unfolding y_gc_step(1) by blast
next
  case (y_spill touched budget db f)
  from spill.keeps_sys [OF I y_spill(2)] show ?thesis unfolding y_spill(1) by blast
next
  case (y_snapshot sn f)
  then show ?thesis using inv_snapshot [OF I] by blast
next
  case (y_clone sn ops sn' f)
  then show ?thesis using inv_clone [OF I] by blast
next
  case (y_drop xs sn ops ys)
  then show ?thesis using inv_drop [OF I] by blast
next
  case (y_collect xs sn ops ys order env k b f)
  from inv_collect [OF I y_collect(2-5)] show ?thesis unfolding y_collect(1) by blast
next
  case (y_install b env i d db f)
  then show ?thesis using inv_install [OF I] by blast
next
  case (y_persist env touched db d f)
  from inv_persist [OF K(1,3) I y_persist(2)] show ?thesis unfolding y_persist(1) by blast
next
  case (y_crash m ops vs data direct db f)
  from inv_crash [OF I y_crash(2-5)] show ?thesis unfolding y_crash(1) by blast
qed

lemma sys_new_inv: "sys_inv P de fz_none TEmpty (sys_new cfg ram direct)"
  using db_new_inv by (simp add: sys_inv_def sys_new_def handles_def ckpt_inv_def fz_none_def pin_count_def fun_eq_iff)

lemma sys_hist_inv:
  assumes "keccak_len P" "decode_typed P" "reads_back ser de"
  shows "sys_hist P ser de s \<Longrightarrow> \<exists>Z t. sys_inv P de Z t s"
proof (induction rule: sys_hist.induct)
  case (y_new cfg ram direct)
  then show ?case using sys_new_inv by blast
next
  case (y_step s s')
  then show ?case using sys_step_inv [OF assms] by blast
qed

end
