(* ===== verification/SpillAll.thy ===== *)
theory SpillAll
  imports SpillProofs
begin

text \<open>
  A full spill (\<^verbatim>\<open>spill_mem\<close>) leaves no record in memory, which is what makes the
  frontier serializable.
\<close>

section \<open>Records in memory\<close>

primrec mem_bytes :: "ram_node \<Rightarrow> int" and mem_bytes_child :: "ram_child \<Rightarrow> int" where
  "mem_bytes REmpty = 0"
| "mem_bytes (RExtension p c h) = mem_bytes c"
| "mem_bytes (RBranch cs h) = sum_list (somes (map (map_option mem_bytes_child) cs))"
| "mem_bytes_child (RRam n) = mem_bytes n"
| "mem_bytes_child (RDisk ptr root) = 0"
| "mem_bytes_child (RMem bs root) = int (length bs)"
| "mem_bytes_child (RAccount p n b c st) = mem_bytes st"

primrec no_mem :: "ram_node \<Rightarrow> bool" and no_mem_child :: "ram_child \<Rightarrow> bool" where
  "no_mem REmpty = True"
| "no_mem (RExtension p c h) = no_mem c"
| "no_mem (RBranch cs h) = list_all id (somes (map (map_option no_mem_child) cs))"
| "no_mem_child (RRam n) = no_mem n"
| "no_mem_child (RDisk ptr root) = True"
| "no_mem_child (RMem bs root) = False"
| "no_mem_child (RAccount p n b c st) = no_mem st"

lemma in_somes_map: "x \<in> set (somes (map (map_option g) cs)) \<longleftrightarrow> (\<exists>c. Some c \<in> set cs \<and> x = g c)"
proof (induction cs)
  case (Cons c cs)
  then show ?case by (cases c) auto
qed simp

lemma no_mem_branch: "no_mem (RBranch cs h) = (\<forall>c. Some c \<in> set cs \<longrightarrow> no_mem_child c)"
proof -
  have "no_mem (RBranch cs h) = (\<forall>x. x \<in> set (somes (map (map_option no_mem_child) cs)) \<longrightarrow> x)" by (simp add: list_all_iff Ball_def)
  then show ?thesis unfolding in_somes_map by blast
qed

lemma mem_bytes_nonneg: "0 \<le> mem_bytes n" "0 \<le> mem_bytes_child c"
proof (induction n and c)
  case (RBranch cs h)
  have "0 \<le> sum_list (somes (map (map_option mem_bytes_child) cs))"
    by (rule sum_list_nonneg) (use RBranch.IH in \<open>auto simp: in_somes_map\<close>)
  then show ?case by simp
qed simp_all

section \<open>Nothing is left\<close>

lemma flush_budget:
  assumes "flush_spill_chunk buf f = (Ok buf', f')"
  shows "sb_budget buf' = sb_budget buf"
  using assms by (auto simp: flush_spill_chunk_def fbind_def fret_def split: if_splits prod.splits res.splits)

definition takes_all :: "(nibs \<Rightarrow> bool) \<Rightarrow> nat \<Rightarrow> ram_child \<Rightarrow> bool" where
  "takes_all tb chunk c = (\<forall>pre buf f c' buf' f'. spill_child tb chunk c pre buf f = (Ok (c', buf'), f') \<longrightarrow>
     I64_MAX div 2 + mem_bytes_child c \<le> sb_budget buf \<longrightarrow> no_mem_child c' \<and> sb_budget buf' = sb_budget buf - mem_bytes_child c)"

lemma spill_slots_all:
  assumes "\<forall>c. Some c \<in> set cs \<longrightarrow> takes_all tb chunk c"
    and "spill_slots (map (map_option (spill_child tb chunk)) cs) i pre buf f = (Ok (cs', buf'), f')"
    and "I64_MAX div 2 + sum_list (somes (map (map_option mem_bytes_child) cs)) \<le> sb_budget buf"
  shows "list_all id (somes (map (map_option no_mem_child) cs')) \<and> sb_budget buf' = sb_budget buf - sum_list (somes (map (map_option mem_bytes_child) cs))"
  using assms
proof (induction cs arbitrary: i buf f cs')
  case Nil
  then show ?case by (simp add: fret_def)
next
  case (Cons c cs)
  show ?case
  proof (cases c)
    case None
    then obtain cs1 where "spill_slots (map (map_option (spill_child tb chunk)) cs) (Suc i) pre buf f = (Ok (cs1, buf'), f')" "cs' = None # cs1"
      using Cons.prems(2) by (auto simp: fbind_def fret_def split: prod.splits res.splits)
    then show ?thesis using Cons.IH [of "Suc i" buf f cs1] Cons.prems None by simp
  next
    case (Some d)
    obtain d' b1 f1 where d: "spill_child tb chunk d (pre @ [word_of_nat i]) buf f = (Ok (d', b1), f1)"
      using Cons.prems(2) Some by (auto simp: fbind_def split: prod.splits res.splits)
    then obtain cs1 where r: "spill_slots (map (map_option (spill_child tb chunk)) cs) (Suc i) pre b1 f1 = (Ok (cs1, buf'), f')" "cs' = Some d' # cs1"
      using Cons.prems(2) Some by (auto simp: fbind_def fret_def split: prod.splits res.splits)
    have "0 \<le> sum_list (somes (map (map_option mem_bytes_child) cs))" using mem_bytes_nonneg(1) [of "RBranch cs None"] by simp
    then have D: "no_mem_child d'" "sb_budget b1 = sb_budget buf - mem_bytes_child d"
      using Cons.prems(1,3) d Some unfolding takes_all_def by fastforce+
    then show ?thesis using Cons.IH [OF _ r(1)] Cons.prems(1,3) Some r(2) by simp
  qed
qed

lemma spill_walk_all:
  "spill_walk tb chunk n pre buf f = (Ok (n', buf'), f') \<Longrightarrow> I64_MAX div 2 + mem_bytes n \<le> sb_budget buf \<Longrightarrow>
     no_mem n' \<and> sb_budget buf' = sb_budget buf - mem_bytes n"
  "takes_all tb chunk c"
proof (induction n and c arbitrary: pre buf f n' buf' f')
  case REmpty
  then show ?case by (simp add: fret_def)
next
  case (RExtension p n h)
  obtain c where "spill_walk tb chunk n (pre @ p) buf f = (Ok (c, buf'), f')" "n' = RExtension p c h"
    using RExtension.prems(1) by (auto simp: fbind_def fret_def split: prod.splits res.splits)
  then show ?case using RExtension.IH RExtension.prems(2) by simp
next
  case (RBranch cs h)
  obtain cs' where "spill_slots (map (map_option (spill_child tb chunk)) cs) 0 pre buf f = (Ok (cs', buf'), f')" "n' = RBranch cs' h"
    using RBranch.prems(1) by (auto simp: fbind_def fret_def split: prod.splits res.splits)
  then show ?case using spill_slots_all [of cs tb chunk 0 pre buf f cs' buf' f'] RBranch.IH RBranch.prems(2) by auto
next
  case (RMem bs root)
  have h: "0 < I64_MAX div 2" by (simp add: I64_MAX_def)
  show ?case
    unfolding takes_all_def spill_child.simps spill_mem_leaf_def Let_def using h
    by (auto simp: fbind_def fret_def split: if_splits prod.splits res.splits dest!: flush_budget)
next
  case (RRam n)
  then show ?case unfolding takes_all_def
    by (auto simp: fbind_def fret_def split: prod.splits res.splits)
next
  case (RAccount p no b ch n)
  then show ?case unfolding takes_all_def
    by (auto simp: fbind_def fret_def split: prod.splits res.splits)
next
  case (RDisk ptr root)
  then show ?case by (simp add: takes_all_def fret_def)
qed

lemma install_no_mem:
  "install_ptr_by_prefix n q d p = Ok (b, n') \<Longrightarrow> no_mem n \<Longrightarrow> no_mem n'"
  "install_child c q d p = Ok (b, c') \<Longrightarrow> no_mem_child c \<Longrightarrow> no_mem_child c'"
proof (induction n and c arbitrary: d n' and d c')
  case (RBranch cs h)
  have "n' = RBranch cs h \<or> (\<exists>(x :: 8 word) c c'. unat x < length cs \<and> cs ! unat x = Some c \<and> install_child c q (d + 1) p = Ok (b, c') \<and>
      n' = RBranch (cs[unat x := Some c']) h)"
    using RBranch.prems(1) by (auto simp: index_def res_map_Ok split: option.splits if_splits)
  then consider "n' = RBranch cs h" | x c c' where "unat (x :: 8 word) < length cs" "cs ! unat x = Some c"
    "install_child c q (d + 1) p = Ok (b, c')" "n' = RBranch (cs[unat x := Some c']) h" by blast
  then show ?case
  proof cases
    case x: (2 x c c')
    have c: "Some c \<in> set cs" using x(1,2) by (metis nth_mem)
    then have "no_mem_child c'" using RBranch.IH [OF c _ x(3)] RBranch.prems(2) by (simp add: no_mem_branch del: no_mem.simps)
    then show ?thesis using RBranch.prems(2) set_update_subset_insert [of cs "unat x" "Some c'"]
      unfolding x(4) no_mem_branch by auto
  qed (use RBranch.prems(2) in simp)
qed (auto simp: res_map_Ok split: if_splits)

lemma install_spilled_no_mem: "install_spilled n L = Ok n' \<Longrightarrow> no_mem n \<Longrightarrow> no_mem n'"
proof (induction n L rule: install_spilled.induct)
  case (2 upper prefix ptr installs)
  then obtain u where "install_ptr_by_prefix upper prefix 0 ptr = Ok (True, u)" "install_spilled u installs = Ok n'"
    by (cases "install_ptr_by_prefix upper prefix 0 ptr") (auto split: if_splits)
  then show ?case using 2 install_no_mem(1) by auto
qed simp

lemma spill_mem_all:
  assumes "spill_mem tb db f = (Ok db', f')" and "mem_bytes (db_upper db) \<le> I64_MAX - I64_MAX div 2"
  shows "no_mem (db_upper db')"
proof -
  let ?b = "\<lparr>sb_prefixes = [], sb_payloads = [], sb_installs = [], sb_budget = I64_MAX, sb_force = False\<rparr>"
  have big: "\<not> I64_MAX < I64_MAX div 2" by (simp add: I64_MAX_def)
  obtain u b1 f1 L where w: "spill_walk tb CHUNK (db_upper db) [] ?b f = (Ok (u, b1), f1)"
    "install_spilled u L = Ok (db_upper db')"
    using assms(1) big by (auto simp: spill_mem_def spill_quota_def Let_def fbind_def fret_def flift_def split: prod.splits res.splits)
  have "no_mem u" using spill_walk_all(1) [OF w(1)] assms(2) by simp
  then show ?thesis by (rule install_spilled_no_mem [OF w(2)])
qed

end
