(* ===== verification/SystemSpec.thy ===== *)
theory SystemSpec
  imports System SpillAll FrontierSpec
begin

text \<open>
  What the database promises while snapshots, collectors, spills, checkpoints and
  crashes interleave with the operations of its clients.
\<close>

section \<open>Reads of a frontier\<close>

lemma froot_reads:
  assumes "keccak_len P" and "rlp_keeps P" and "froot P M n t" and "readable f M" and "\<forall>k l. tlook t k = Some l \<longrightarrow> wide P l"
    and "mem_ok n" and "length key = 32" and "length slot = 32"
  shows "ram_get P f n (key_nibbles key) 0 = Ok (map_option (leaf_value P) (tlook t (key_nibbles key)))"
    and "ram_get_storage P f n (key_nibbles key) 0 slot = Ok (case tlook t (key_nibbles key) of
        Some (LAcct n b c s) \<Rightarrow> map_option (leaf_value P) (tlook s (key_nibbles slot)) | _ \<Rightarrow> None)"
proof -
  have F: "frep P M n [] t" "wfb t 64" "shallow t 0" using assms(3) by (auto simp: froot_def)
  have h: "hashed P t" by (rule hashed_root [OF assms(1,2) F(2)]) (use assms(5) in blast)
  have k: "length (key_nibbles key) = 64" "nibs_ok (key_nibbles key)" using assms(7) by auto
  show "ram_get P f n (key_nibbles key) 0 = Ok (map_option (leaf_value P) (tlook t (key_nibbles key)))"
    using ram_get_rep(1) [OF assms(1,4) k F(1,2) placed_root [OF F(3)] assms(6) h] by simp
  show "ram_get_storage P f n (key_nibbles key) 0 slot = Ok (case tlook t (key_nibbles key) of
        Some (LAcct n b c s) \<Rightarrow> map_option (leaf_value P) (tlook s (key_nibbles slot)) | _ \<Rightarrow> None)"
    using ram_get_storage_rep(1) [OF assms(1,4) k assms(8) F(1,2) placed_root [OF F(3)] assms(6) h] by simp
qed

text \<open>A database that answers every point read as the map \<open>m\<close>.\<close>

definition answers :: "prims \<Rightarrow> flat_file \<Rightarrow> flat_mpt \<Rightarrow> (nibs \<rightharpoonup> leaf) \<Rightarrow> bool" where
  "answers P f db m = (\<forall>key slot. length key = 32 \<longrightarrow> length slot = 32 \<longrightarrow>
     get_value P f db key = Ok (map_option (leaf_value P) (m (key_nibbles key))) \<and>
     get_storage P f db key slot = Ok (case m (key_nibbles key) of
       Some (LAcct n b c s) \<Rightarrow> map_option (leaf_value P) (tlook s (key_nibbles slot)) | _ \<Rightarrow> None))"

lemma inv_answers:
  assumes "keccak_len P" and "rlp_keeps P" and "db_inv Z P f db t" and "\<forall>k l. tlook t k = Some l \<longrightarrow> wide P l" and "mem_ok (db_upper db)"
  shows "answers P f db (tlook t)"
proof -
  obtain M where M: "ff_rel Z f M" "froot P M (db_upper db) t" using assms(3) by (auto simp: db_inv_froot)
  show ?thesis
    unfolding answers_def get_value_def get_storage_def
    using froot_reads [OF assms(1,2) M(2) rel_readable [OF M(1)] assms(4,5)] by blast
qed

section \<open>A small history\<close>

definition demo_env :: gc_env where
  "demo_env = \<lparr>ge_off = False, ge_cap = 0, ge_reached = (\<lambda>live active. active \<le> 2 * live), ge_adj = (\<lambda>live active. 1),
     ge_score = (\<lambda>live age. int 512 - int live), ge_evac_cap = 256, ge_bg_cap = 448, ge_verify = True, ge_assert = False\<rparr>"

text \<open>A serializer that knows one manifest.\<close>

definition one_ser :: "manifest \<Rightarrow> manifest \<Rightarrow> bytes res" where
  "one_ser m m' = (if m' = m then Ok [1] else Err (Bail ''not serializable''))"

definition one_de :: "manifest \<Rightarrow> bytes \<Rightarrow> manifest res" where
  "one_de m bytes = (if bytes = [1] then Ok m else Err (Bail ''invalid manifest''))"

lemma one_reads: "reads_back (one_ser m) (one_de m)"
  by (simp add: reads_back_def one_ser_def one_de_def)

lemma demo_upper:
  assumes "db_inv fz_none demo (ff_new True) db (fput TEmpty (key_nibbles demo_key1) (LVal demo_value))"
  obtains bs r h where "db_upper db = RBranch [None, Some (RMem bs r), None, None, None, None, None, None, None, None, None, None, None, None, None, None] h"
    "length bs \<le> 200"
proof -
  let ?u = "mk_leaf (tl (key_nibbles demo_key1)) (LVal demo_value)"
  have f: "fput TEmpty (key_nibbles demo_key1) (LVal demo_value) = TBranch ((replicate 16 None)[1 := Some ?u])"
    by (simp add: fput_def demo_nibs)
  obtain M where M: "ff_rel fz_none (ff_new True) M" "frep demo M (db_upper db) [] (TBranch ((replicate 16 None)[1 := Some ?u]))"
    using assms unfolding f by (auto simp: db_inv_def)
  obtain cs h where cs: "db_upper db = RBranch cs h" "length cs = 16"
    "\<And>i. i < 16 \<Longrightarrow> rel_option (\<lambda>c u. crep demo M c [word_of_nat i] u) (cs ! i) (((replicate 16 None)[1 := Some ?u]) ! i)"
    using M(2) by (cases "db_upper db") (auto simp: frep_RBranch)
  have n: "cs ! i = None" if "i < 16" "i \<noteq> 1" for i using cs(3) [OF that(1)] that by (simp add: nth_list_update)
  obtain c where c: "cs ! 1 = Some c" "crep demo M c [1] ?u" using cs(3) [of 1] by (auto simp: option_rel_Some2)
  have e: "M ptr = None" for ptr
    using M(1) by (auto simp: ff_rel_def holds_def has_at_nth ff_new_def)
  obtain bs r where m: "c = RMem bs r" "bs = nib_path [1] @ enc demo ?u"
  proof (cases c)
    case (RRam n)
    then show ?thesis using c(2) by (cases n) (auto simp: frep_RBranch)
  qed (use c(2) e in auto)
  have "length bs \<le> 200"
    using m(2) demo_enc [of demo "tl (key_nibbles demo_key1)" demo_value] by (simp add: demo_value_def div_ceil2_def nib_path_def)
  moreover have "cs = [None, Some (RMem bs r), None, None, None, None, None, None, None, None, None, None, None, None, None, None]"
  proof -
    have "cs = (replicate 16 None)[1 := Some (RMem bs r)]"
      by (rule nth_equalityI) (use n c(1) m(1) cs(2) in \<open>auto simp: nth_list_update\<close>)
    then show ?thesis by (simp add: numeral_eq_Suc)
  qed
  ultimately show ?thesis using that cs(1) by blast
qed

lemma demo_spill:
  assumes "db_upper db = RBranch [None, Some (RMem bs r), None, None, None, None, None, None, None, None, None, None, None, None, None, None] h"
    and "length bs \<le> 200"
  shows "\<exists>p f. spill_mem touched db (ff_new True) =
    (Ok (db\<lparr>db_upper := RBranch [None, Some (RDisk p r), None, None, None, None, None, None, None, None, None, None, None, None, None, None] h\<rparr>), f)"
proof -
  obtain ps f where w: "write_batch (ff_new True) [bs] = (Ok ps, f)"
    using write_batch_ok [OF new_rel [of True], of "[bs]"] assms(2) by (auto simp: ff_new_def div_ceil_def)
  have "length ps = 1" using write_batch_rel [OF new_rel [of True] w] by simp
  then obtain p where p: "ps = [p]" by (cases ps) auto
  have "spill_mem touched db (ff_new True) = (Ok (db\<lparr>db_upper := RBranch [None, Some (RDisk p r), None, None, None, None, None, None, None, None, None, None, None, None, None, None] h\<rparr>), f)"
    using w p assms by (simp add: spill_mem_def spill_quota_def Let_def spill_mem_leaf_def I64_MAX_def CHUNK_def flush_spill_chunk_def
      fbind_def fret_def flift_def fwrite_batch_def get_at_def index_def res_map_def)
  then show ?thesis by blast
qed

text \<open>One put, a checkpoint, a snapshot, a collection.\<close>

definition demo_sys :: "manifest \<Rightarrow> system \<Rightarrow> bool" where
  "demo_sys m s = (sys_hist demo (one_ser m) (one_de m) s \<and> sy_ops s = [demo_put] \<and> sy_snaps s = [] \<and> sy_batch s = None \<and>
     mem_ok (db_upper (sy_db s)) \<and> (\<exists>v. sy_ckpt s = Some (m, [demo_put], [v])) \<and> mf_upper m = db_upper (sy_db s) \<and>
     (\<exists>b. persist_prepare demo demo_env (one_ser m) (\<lambda>q. False) (sy_db s) (sy_file s) = (Ok (b, sy_db s), sy_file s)))"

lemma demo_system: "\<exists>m s. demo_sys m s"
proof -
  obtain h db where s: "exec demo (db_new demo_cfg True) demo_put (ff_new True) = (Ok (h, db), ff_new True)"
    "mem_ok (db_upper db)" "db_inv fz_none demo (ff_new True) db (fput TEmpty (key_nibbles demo_key1) (LVal demo_value))"
    using demo_step by blast
  obtain bs r h' where u: "db_upper db = RBranch [None, Some (RMem bs r), None, None, None, None, None, None, None, None, None, None, None, None, None, None] h'"
    "length bs \<le> 200" by (rule demo_upper [OF s(3)])
  obtain p f where w: "spill_mem (\<lambda>q. False) db (ff_new True) =
    (Ok (db\<lparr>db_upper := RBranch [None, Some (RDisk p r), None, None, None, None, None, None, None, None, None, None, None, None, None, None] h'\<rparr>), f)"
    using demo_spill [OF u] by blast
  let ?db = "db\<lparr>db_upper := RBranch [None, Some (RDisk p r), None, None, None, None, None, None, None, None, None, None, None, None, None, None] h', db_ram := False\<rparr>"
  let ?f = "f\<lparr>ff_seg := on_persisted (ff_seg f)\<rparr>"
  define m where "m = \<lparr>mf_cfg = db_cfg ?db, mf_upper = db_upper ?db, mf_end = ff_end f\<rparr>"
  have g: "gc_step demo_env ?db f = (Ok (0, ?db), f)" by (simp add: gc_step_def gc_rounds.simps demo_env_def)
  let ?s0 = "sys_new demo_cfg True True"
  let ?s1 = "(seen (ff_new True) ?s0)\<lparr>sy_db := db, sy_ops := [demo_put]\<rparr>"
  have "sys_step demo (one_ser m) (one_de m) ?s0 ((seen (ff_new True) ?s0)\<lparr>sy_db := db, sy_ops := sy_ops ?s0 @ [demo_put]\<rparr>)"
    by (rule y_exec [where h = h]) (use s(1) in \<open>simp_all add: sys_new_def db_new_def demo_put_def spread_def\<close>)
  then have h1: "sys_hist demo (one_ser m) (one_de m) ?s1" using y_step [OF y_new] by (simp add: sys_new_def)
  obtain d where "persist demo demo_env (one_ser m) (\<lambda>q. False) (sy_db ?s1) (sy_meta ?s1) (sy_file ?s1) = (Ok (?db, d), ?f)"
    using w g by (auto simp: persist_def persist_prepare_def fbind_def manifest_bytes_def one_ser_def m_def res_map_def)
  from y_step [OF h1 y_persist [OF this]] have H: "sys_hist demo (one_ser m) (one_de m) (?s1\<lparr>sy_file := ?f, sy_db := ?db, sy_meta := d,
      sy_ckpt := Some (\<lparr>mf_cfg = db_cfg ?db, mf_upper = db_upper ?db, mf_end = ff_end ?f\<rparr>, sy_ops ?s1, [ff_data ?f])\<rparr>)" (is "sys_hist _ _ _ ?s2") .
  have "spill_mem (\<lambda>q. False) ?db ?f = (Ok ?db, ?f)"
    by (simp add: spill_mem_def spill_quota_def Let_def I64_MAX_def flush_spill_chunk_def fbind_def fret_def flift_def)
  moreover have "gc_step demo_env ?db ?f = (Ok (0, ?db), ?f)" by (simp add: gc_step_def gc_rounds.simps demo_env_def)
  ultimately have "\<exists>b. persist_prepare demo demo_env (one_ser m) (\<lambda>q. False) ?db ?f = (Ok (b, ?db), ?f)"
    by (simp add: persist_prepare_def fbind_def manifest_bytes_def one_ser_def m_def res_map_def)
  then have "demo_sys m ?s2" using H by (auto simp: demo_sys_def m_def sys_new_def seen_def)
  then show ?thesis by blast
qed

text \<open>A put, a snapshot, and a second put that the snapshot does not see.\<close>

lemma demo_snapshot: "\<exists>s sn. sys_hist demo ser de s \<and> sy_snaps s = [(sn, [demo_put])] \<and> sy_ops s = [demo_put, demo_put3] \<and> mem_ok (sn_root sn)"
proof -
  obtain h db where s: "exec demo (db_new demo_cfg True) demo_put (ff_new True) = (Ok (h, db), ff_new True)" "db_ram db"
    "mem_ok (db_upper db)" "db_inv fz_none demo (ff_new True) db (fput TEmpty (key_nibbles demo_key1) (LVal demo_value))"
    using demo_step by blast
  let ?s0 = "sys_new demo_cfg True True" and ?t = "fput TEmpty (key_nibbles demo_key1) (LVal demo_value)"
  let ?s1 = "(seen (ff_new True) ?s0)\<lparr>sy_db := db, sy_ops := [demo_put]\<rparr>"
  have "sys_step demo ser de ?s0 ((seen (ff_new True) ?s0)\<lparr>sy_db := db, sy_ops := sy_ops ?s0 @ [demo_put]\<rparr>)"
    by (rule y_exec [where h = h]) (use s(1) in \<open>simp_all add: sys_new_def db_new_def demo_put_def spread_def\<close>)
  then have h1: "sys_hist demo ser de ?s1" using y_step [OF y_new] by (simp add: sys_new_def)
  obtain sn f where sn: "snapshot (sy_db ?s1) (sy_file ?s1) = (sn, f)" by fastforce
  let ?s2 = "(seen f ?s1)\<lparr>sy_snaps := sy_snaps ?s1 @ [(sn, sy_ops ?s1)]\<rparr>"
  have h2: "sys_hist demo ser de ?s2" by (rule y_step [OF h1 y_snapshot [OF sn]])
  obtain g where g: "pin_snapshot (ff_new True) = (g, f)" "sn_root sn = db_upper db"
    using sn by (auto simp: snapshot_def split: prod.splits)
  obtain M where "ff_rel fz_none (ff_new True) M" "froot demo M (db_upper db) ?t" "owned fz_none M (fptrs (db_upper db))"
    using s(4) by (auto simp: db_inv_froot)
  then obtain Z where I: "db_inv Z demo f db ?t" using pin_rel(1) [OF _ g(1)] by (fastforce simp: db_inv_froot owned_def)
  have "\<exists>h' db'. insert_op demo db demo_key3 (OpAccount 5 9 (replicate 32 1)) f = (Ok (h', db'), f) \<and> db_ram db' \<and>
      mem_ok (db_upper db') \<and> db_inv Z demo f db' (fput ?t (key_nibbles demo_key3) (LAcct 5 9 (replicate 32 1) TEmpty))"
  proof (rule insert_empty_slot [OF _ _ _ _ I s(3) _ s(2)])
    show "apart63 (tlook ?t) (key_nibbles demo_key3)"
      using fput_facts(1) [of TEmpty 64 "key_nibbles demo_key1" "LVal demo_value"]
        butlast_differ [of "key_nibbles demo_key1" "key_nibbles demo_key3"] demo_nibs by (auto simp: apart63_def split: if_splits)
    show "?t = TEmpty \<or> (\<exists>ts. ?t = TBranch ts \<and> ts ! unat (key_nibbles demo_key3 ! 0) = None)"
      by (simp add: fput_def demo_nibs)
    show "length (enc demo (mk_leaf (drop 1 (key_nibbles demo_key3)) (LAcct 5 9 (replicate 32 1) TEmpty))) < 2 ^ 30"
      by (simp add: demo_nibs div_ceil2_def)
  qed (simp_all add: demo_nibs)
  then obtain h' db' where e: "exec demo (sy_db ?s2) demo_put3 (sy_file ?s2) = (Ok (h', db'), f)" by (auto simp: demo_put3_def)
  have "sys_step demo ser de ?s2 ((seen f ?s2)\<lparr>sy_db := db', sy_ops := sy_ops ?s2 @ [demo_put3]\<rparr>)"
    by (rule y_exec [OF _ _ _ e]) (use s(3) demo_spread in \<open>simp_all add: demo_put3_def demo_nibs\<close>)
  then have "sys_hist demo ser de ((seen f ?s2)\<lparr>sy_db := db', sy_ops := sy_ops ?s2 @ [demo_put3]\<rparr>)" by (rule y_step [OF h2])
  then show ?thesis using g(2) s(3) by (intro exI [of _ "(seen f ?s2)\<lparr>sy_db := db', sy_ops := sy_ops ?s2 @ [demo_put3]\<rparr>"] exI [of _ sn])
      (simp add: sys_new_def)
qed

lemma demo_map1: "map_run demo Map.empty [demo_put] = Ok [key_nibbles demo_key1 \<mapsto> LVal demo_value]"
  by (simp add: demo_put_def)

lemma demo_wide1: "[key_nibbles demo_key1 \<mapsto> LVal demo_value] k = Some l \<Longrightarrow> wide demo l"
  by (auto simp: demo_value_def split: if_splits)

lemma answers_demo: "answers demo f db [key_nibbles demo_key1 \<mapsto> LVal demo_value] \<Longrightarrow> get_value demo f db demo_key1 = Ok (Some demo_value)"
  unfolding answers_def by (drule spec [of _ demo_key1], drule spec [of _ demo_key1]) simp

section \<open>Maintenance is transparent\<close>

text \<open>C4: whatever interleaving of client operations with snapshots, both collectors,
  spills, checkpoints, crashes and reopenings produced a state, its database answers
  every point read as the map its operations produce; a reopened database
  continues from the operations of its checkpoint.\<close>

theorem maintenance_transparent:
  assumes "keccak_len P" and "decode_typed P" and "rlp_keeps P" and "reads_back ser de" and "sys_hist P ser de s"
    and "map_run P Map.empty (sy_ops s) = Ok m" and "\<And>k l. m k = Some l \<Longrightarrow> wide P l" and "mem_ok (db_upper (sy_db s))"
  shows "answers P (sy_file s) (sy_db s) m"
proof -
  obtain Z t where I: "sys_inv P de Z t s" using sys_hist_inv [OF assms(1,2,4,5)] by blast
  then have t: "m = tlook t" "db_inv Z P (sy_file s) (sy_db s) t" using assms(6) by (auto simp: sys_inv_def)
  show ?thesis unfolding t(1) by (rule inv_answers [OF assms(1,3) t(2) _ assms(8)]) (use assms(7) t(1) in auto)
qed

theorem maintenance_transparent_witness:
  "\<exists>m s. demo_sys m s \<and> get_value demo (sy_file s) (sy_db s) demo_key1 = Ok (Some demo_value)"
proof -
  obtain m s where s: "demo_sys m s" using demo_system by blast
  then have "answers demo (sy_file s) (sy_db s) [key_nibbles demo_key1 \<mapsto> LVal demo_value]"
    by (intro maintenance_transparent [OF _ _ rlp_keeps_demo one_reads [of m]]) (use demo_map1 demo_wide1 in \<open>auto simp: demo_sys_def\<close>)
  then show ?thesis using s answers_demo by blast
qed

text \<open>C3: a held snapshot answers every point read as the map at the moment it was
  taken, whatever the database, the collectors and the checkpoints did since.\<close>

theorem snapshot_isolation:
  assumes "keccak_len P" and "decode_typed P" and "rlp_keeps P" and "reads_back ser de" and "sys_hist P ser de s"
    and "(sn, ops) \<in> set (sy_snaps s)" and "map_run P Map.empty ops = Ok m" and "\<And>k l. m k = Some l \<Longrightarrow> wide P l"
    and "mem_ok (sn_root sn)" and "length key = 32" and "length slot = 32"
  shows "snap_get_value P (sy_file s) sn key = Ok (map_option (leaf_value P) (m (key_nibbles key)))
    \<and> snap_get_storage P (sy_file s) sn key slot = Ok (case m (key_nibbles key) of
        Some (LAcct n b c s) \<Rightarrow> map_option (leaf_value P) (tlook s (key_nibbles slot)) | _ \<Rightarrow> None)"
proof -
  obtain Z t where I: "sys_inv P de Z t s" using sys_hist_inv [OF assms(1,2,4,5)] by blast
  then obtain M t0 where t: "fz_snaps Z (sn_gen sn) = Some M" "froot P M (sn_root sn) t0" "m = tlook t0"
    using assms(6,7) by (force simp: sys_inv_def snap_ok_def)
  obtain N where N: "ff_rel Z (sy_file s) N" using I by (auto simp: sys_inv_def db_inv_def)
  have "readable (sy_file s) M"
    by (rule snap_readable [OF N count_pinned(2) [OF N handle_gen [OF I snap_handle [OF assms(6)]]] t(1)])
  then show ?thesis using froot_reads [OF assms(1,3) t(2) _ _ assms(9-11)] assms(8) unfolding t(3) snap_get_value_def snap_get_storage_def by blast
qed

theorem snapshot_isolation_witness:
  "\<exists>m s sn. sys_hist demo (one_ser m) (one_de m) s \<and> sy_snaps s = [(sn, [demo_put])] \<and> sy_ops s = [demo_put, demo_put3] \<and>
     snap_get_value demo (sy_file s) sn demo_key1 = Ok (Some demo_value) \<and> snap_get_value demo (sy_file s) sn demo_key3 = Ok None"
proof -
  fix m
  obtain s sn where s: "sys_hist demo (one_ser m) (one_de m) s" "sy_snaps s = [(sn, [demo_put])]" "sy_ops s = [demo_put, demo_put3]" "mem_ok (sn_root sn)"
    using demo_snapshot by blast
  have R: "snap_get_value demo (sy_file s) sn key = Ok (map_option (leaf_value demo) ([key_nibbles demo_key1 \<mapsto> LVal demo_value] (key_nibbles key)))
    \<and> snap_get_storage demo (sy_file s) sn key demo_key1 = Ok (case [key_nibbles demo_key1 \<mapsto> LVal demo_value] (key_nibbles key) of
        Some (LAcct n b c s) \<Rightarrow> map_option (leaf_value demo) (tlook s (key_nibbles demo_key1)) | _ \<Rightarrow> None)" if "length key = 32" for key
    by (rule snapshot_isolation [OF _ _ rlp_keeps_demo one_reads s(1) _ demo_map1 _ s(4) that]) (use demo_wide1 s(2) in auto)
  show ?thesis using R [of demo_key1] R [of demo_key3] s demo_nibs demo_differ by auto
qed

section \<open>Crashes\<close>

text \<open>C2: a crash at any moment after a checkpoint leaves a database that opens to the
  checkpoint: each byte of the file may be any the file held since, in any mix.
  The opened database answers every read as the map of the checkpoint's operations,
  and its root is the Merkle root of these contents.\<close>

theorem crash_consistency:
  assumes "keccak_len P" and "decode_typed P" and "rlp_keeps P" and "reads_back ser de" and "sys_hist P ser de s"
    and "sy_ckpt s = Some (mf, ops, vs)" and "torn vs data" and "direct \<longrightarrow> DIO_ALIGN dvd length data"
    and "map_run P Map.empty ops = Ok m" and "\<And>k l. m k = Some l \<Longrightarrow> wide P l" and "mem_ok (mf_upper mf)"
  shows "\<exists>db f t db'. open_db P de direct data (sy_meta s) = Ok (db, f) \<and> answers P f db m \<and>
    m = tlook t \<and> wfb t 64 \<and> db_root P db = Ok (troot P t, db')"
proof -
  obtain Z t where I: "sys_inv P de Z t s" using sys_hist_inv [OF assms(1,2,4,5)] by blast
  then have "ckpt_inv P de (sy_meta s) (fz_durable Z) (Some (mf, ops, vs))" using assms(6) by (simp add: sys_inv_def)
  then obtain t0 where R: "open_db P de direct data (sy_meta s) = Ok (db_of mf, open_store mf direct data)"
    "db_inv (fz_open (fz_durable Z)) P (open_store mf direct data) (db_of mf) t0" "m = tlook t0"
    using ckpt_opens [OF _ assms(7,8)] assms(9) by (metis res.inject(1))
  have a: "answers P (open_store mf direct data) (db_of mf) m"
    unfolding R(3) by (rule inv_answers [OF assms(1,3) R(2)]) (use assms(10,11) R(3) in \<open>auto simp: db_of_def\<close>)
  obtain M where M: "ff_rel (fz_open (fz_durable Z)) (open_store mf direct data) M" "frep P M (mf_upper mf) [] t0" "wfb t0 64" "shallow t0 0"
    "distinct (fptrs (mf_upper mf))" "owned (fz_open (fz_durable Z)) M (fptrs (mf_upper mf))" using R(2) by (auto simp: db_inv_def db_of_def)
  have "hashed P t0" by (rule hashed_root [OF assms(1,3) M(3)]) (use assms(10) R(3) in auto)
  then have "fh P (mf_upper mf) = troot P t0" using fh_troot(1) [OF M(2)] by blast
  then obtain db' where "db_root P (db_of mf) = Ok (troot P t0, db')"
    using db_root_inv [OF M, of "db_of mf"] by (auto simp: db_of_def)
  then show ?thesis using R(1,3) a M(3) by blast
qed

theorem crash_consistency_witness:
  "\<exists>m s v db f. demo_sys m s \<and> sy_ckpt s = Some (m, [demo_put], [v]) \<and> open_db demo (one_de m) False v (sy_meta s) = Ok (db, f) \<and>
     get_value demo f db demo_key1 = Ok (Some demo_value)"
proof -
  obtain m s where s: "demo_sys m s" using demo_system by blast
  then obtain v where v: "sy_ckpt s = Some (m, [demo_put], [v])" by (auto simp: demo_sys_def)
  have "\<exists>db f t db'. open_db demo (one_de m) False v (sy_meta s) = Ok (db, f) \<and> answers demo f db [key_nibbles demo_key1 \<mapsto> LVal demo_value] \<and>
    [key_nibbles demo_key1 \<mapsto> LVal demo_value] = tlook t \<and> wfb t 64 \<and> db_root demo db = Ok (troot demo t, db')"
    by (rule crash_consistency [OF _ _ rlp_keeps_demo one_reads [of m] _ v torn_last _ demo_map1 demo_wide1]) (use s in \<open>auto simp: demo_sys_def\<close>)
  then show ?thesis using s v answers_demo by blast
qed

text \<open>C26: the commit of a checkpoint is atomic: at every moment of the replacement of
  the manifest the database opens, either to the previous checkpoint or to the
  contents at the call.\<close>

theorem commit_atomic:
  assumes "keccak_len P" and "decode_typed P" and "reads_back ser de" and "sys_hist P ser de s"
    and "sy_ckpt s = Some (mf, ops, vs)" and "persist_prepare P env ser touched (sy_db s) (sy_file s) = (Ok (bytes, db'), f')"
    and "d \<in> set (commit_states bytes (sy_meta s))" and "direct \<longrightarrow> ff_direct f'"
  shows "\<exists>db f t D. open_db P de direct (ff_data f') d = Ok (db, f) \<and> db_inv (fz_open D) P f db t \<and>
    (map_run P Map.empty ops = Ok (tlook t) \<or> map_run P Map.empty (sy_ops s) = Ok (tlook t))"
proof -
  obtain Z t where I: "sys_inv P de Z t s" using sys_hist_inv [OF assms(1-4)] by blast
  then have D: "db_inv Z P (sy_file s) (sy_db s) t" "map_run P Map.empty (sy_ops s) = Ok (tlook t)" by (simp_all add: sys_inv_def)
  note R = prepare_rep [OF D(1) assms(6)]
  obtain M where M: "ff_rel Z f' M" "froot P M (db_upper db') t" using R(1) by (auto simp: db_inv_froot)
  have al: "direct \<longrightarrow> DIO_ALIGN dvd length (ff_data f')" using assms(8) M(1) by (simp add: ff_rel_def direct_ok_def)
  let ?m = "\<lparr>mf_cfg = db_cfg db', mf_upper = db_upper db', mf_end = ff_end f'\<rparr>" and ?N = "M |` set (fptrs (db_upper db'))"
  have old: "ckpt_inv P de (sy_meta s) (fz_durable Z) (Some (mf, ops, [ff_data f']))"
    using I assms(5) M(1) by (auto simp: sys_inv_def ckpt_inv_def ff_rel_def durable_ok_def)
  have new: "ckpt_ok P ?m ?N t" "read_manifest P de (Some bytes) = Ok ?m"
    using ckpt_of [OF M, of "db_cfg db'"] manifest_read [OF assms(1,3) R(2)] by simp_all
  consider "md_meta d = md_meta (sy_meta s)" | "md_meta d = Some bytes" using commit_read [OF assms(7)] by blast
  then show ?thesis
  proof cases
    case 1
    then have "ckpt_inv P de d (fz_durable Z) (Some (mf, ops, [ff_data f']))" using old by (simp add: ckpt_inv_def)
    from ckpt_opens [OF this torn_last al] show ?thesis by (metis list.set_intros(1))
  next
    case 2
    have "ckpt_inv P de d ?N (Some (?m, sy_ops s, [ff_data f']))"
      using 2 new D(2) M(1) by (auto simp: ckpt_inv_def ff_rel_def restrict_map_def split: if_splits)
    from ckpt_opens [OF this torn_last al] show ?thesis by (metis list.set_intros(1))
  qed
qed

theorem commit_atomic_witness:
  "\<exists>m s b db f. demo_sys m s \<and> persist_prepare demo demo_env (one_ser m) (\<lambda>q. False) (sy_db s) (sy_file s) = (Ok (b, sy_db s), sy_file s) \<and>
     open_db demo (one_de m) False (ff_data (sy_file s)) (commit_states b (sy_meta s) ! 1) = Ok (db, f)"
proof -
  obtain m s where s: "demo_sys m s" using demo_system by blast
  then obtain v b where v: "sy_ckpt s = Some (m, [demo_put], [v])" "sys_hist demo (one_ser m) (one_de m) s"
    "persist_prepare demo demo_env (one_ser m) (\<lambda>q. False) (sy_db s) (sy_file s) = (Ok (b, sy_db s), sy_file s)" by (auto simp: demo_sys_def)
  have "commit_states b (sy_meta s) ! 1 \<in> set (commit_states b (sy_meta s))" by (simp add: commit_states_def Let_def)
  from commit_atomic [OF _ _ one_reads v(2,1,3) this, of False] obtain db f where
    "open_db demo (one_de m) False (ff_data (sy_file s)) (commit_states b (sy_meta s) ! 1) = Ok (db, f)" by auto
  then show ?thesis using s v(3) by blast
qed

section \<open>Collectors and accounting\<close>

text \<open>C27: the inline collector ends within its cap and never damages the frontier: it
  returns a database with the same contents, having evacuated at most \<open>ge_cap\<close>
  regions, or fails because a write is refused; the guard against an install in
  a wrong slot never fires.\<close>

theorem gc_step_ends:
  assumes "keccak_len P" and "decode_typed P" and "reads_back ser de" and "sys_hist P ser de s"
  shows "(\<exists>k db f. gc_step env (sy_db s) (sy_file s) = (Ok (k, db), f) \<and> k \<le> ge_cap env \<and>
      sys_hist P ser de ((seen f s)\<lparr>sy_db := db\<rparr>) \<and> fh P (db_upper db) = fh P (db_upper (sy_db s))) \<or>
    (\<exists>e f. gc_step env (sy_db s) (sy_file s) = (Err (Bail e), f))"
proof -
  obtain Z t where "sys_inv P de Z t s" using sys_hist_inv [OF assms] by blast
  then have I: "db_inv Z P (sy_file s) (sy_db s) t" by (simp add: sys_inv_def)
  obtain r f where r: "gc_step env (sy_db s) (sy_file s) = (r, f)" by fastforce
  show ?thesis
  proof (cases r)
    case (Ok x)
    then obtain k db where k: "gc_step env (sy_db s) (sy_file s) = (Ok (k, db), f)" using r by (cases x) auto
    have "same_db P Z t (sy_db s) db f \<and> k \<le> ge_cap env"
      using gspec_Ok [OF gc_rounds_rep [OF I], of env 0 "(k, db)" f] k by (simp add: gc_step_def)
    then show ?thesis using k y_step [OF assms(4) y_gc_step [OF k]] by (auto simp: same_db_def)
  next
    case (Err e)
    then show ?thesis using gc_rounds_rep [OF I, of env 0] r by (auto simp: gspec_def gc_step_def)
  qed
qed

theorem gc_step_ends_witness:
  "\<exists>m s k db f. demo_sys m s \<and> gc_step (demo_env\<lparr>ge_off := True\<rparr>) (sy_db s) (sy_file s) = (Ok (k, db), f) \<and> k = 0"
proof -
  obtain m s where s: "demo_sys m s" using demo_system by blast
  then have h: "sys_hist demo (one_ser m) (one_de m) s" by (simp add: demo_sys_def)
  have "gc_step (demo_env\<lparr>ge_off := True\<rparr>) (sy_db s) (sy_file s) \<noteq> (Err (Bail e), f)" for e f
    by (simp add: gc_step_def gc_rounds.simps demo_env_def)
  then show ?thesis using gc_step_ends [OF _ _ one_reads h, of "demo_env\<lparr>ge_off := True\<rparr>"] s by (fastforce simp: demo_env_def)
qed



text \<open>C29: with no batch pending, the live units the allocator tracks are exactly those
  of the records the frontier points to: no operation leaks or double-frees a unit.\<close>

theorem audit_balances:
  assumes "keccak_len P" and "decode_typed P" and "reads_back ser de" and "sys_hist P ser de s" and "sy_batch s = None"
  shows "fst (audit_live_units (sy_db s) (sy_file s)) = snd (audit_live_units (sy_db s) (sy_file s))"
proof -
  obtain Z t where "sys_inv P de Z t s" using sys_hist_inv [OF assms(1-4)] by blast
  then have "db_inv Z P (sy_file s) (sy_db s) t" "fz_copies Z = Map.empty" using assms(5) by (auto simp: sys_inv_def)
  then show ?thesis by (rule audit_rep)
qed

theorem audit_balances_witness:
  "\<exists>m s. demo_sys m s \<and> fst (audit_live_units (sy_db s) (sy_file s)) = snd (audit_live_units (sy_db s) (sy_file s))"
proof -
  obtain m s where s: "demo_sys m s" using demo_system by blast
  then have "fst (audit_live_units (sy_db s) (sy_file s)) = snd (audit_live_units (sy_db s) (sy_file s))"
    by (intro audit_balances [OF _ _ one_reads [of m]]) (auto simp: demo_sys_def)
  then show ?thesis using s by blast
qed

section \<open>What a checkpoint writes\<close>

text \<open>A full spill leaves no record in memory, so that the frontier of a checkpoint
  holds file pointers only, as the manifest's format requires. The total size of
  the records in memory is below half the range of the budget.\<close>

theorem full_spill:
  assumes "spill_mem touched db f = (Ok db', f')" and "mem_bytes (db_upper db) \<le> I64_MAX - I64_MAX div 2"
  shows "no_mem (db_upper db')"
  by (rule spill_mem_all [OF assms])

theorem full_spill_witness:
  "\<exists>db db' f. \<not> no_mem (db_upper db) \<and> spill_mem (\<lambda>q. False) db (ff_new True) = (Ok db', f) \<and> no_mem (db_upper db')"
proof -
  let ?n = "RBranch [None, Some (RMem [1, 2, 3] [0]), None, None, None, None, None, None, None, None, None, None, None, None, None, None] None"
  let ?d = "(db_new demo_cfg True)\<lparr>db_upper := ?n\<rparr>"
  let ?e = "\<lambda>p. ?d\<lparr>db_upper := RBranch [None, Some (RDisk p [0]), None, None, None, None, None, None, None, None, None, None, None, None, None, None] None\<rparr>"
  have "\<exists>p f. spill_mem (\<lambda>q. False) ?d (ff_new True) = (Ok (?e p), f)" 
    by (rule demo_spill [where bs = "[1, 2, 3]" and r = "[0]" and h = None]) (simp_all add: db_new_def)
  then obtain p f where s: "spill_mem (\<lambda>q. False) ?d (ff_new True) = (Ok (?e p), f)" by blast
  have "no_mem (db_upper (?e p))" by (rule full_spill [OF s]) (simp add: I64_MAX_def)
  moreover have "\<not> no_mem (db_upper ?d)" by simp
  ultimately show ?thesis using s by blast
qed

text \<open>The manifest reads back: with its checksum trailer it is recognized and
  yields the configuration, the frontier and the end of the file that were written.\<close>

theorem manifest_roundtrip:
  assumes "keccak_len P" and "reads_back ser de" and "manifest_bytes P ser m = Ok bytes"
  shows "read_manifest P de (Some bytes) = Ok m"
  by (rule manifest_read [OF assms])

theorem manifest_roundtrip_witness:
  "read_manifest demo (one_de \<lparr>mf_cfg = demo_cfg, mf_upper = REmpty, mf_end = 8\<rparr>) (Some ([1] @ keccak256 demo [1])) =
     Ok \<lparr>mf_cfg = demo_cfg, mf_upper = REmpty, mf_end = 8\<rparr>"
  by (rule manifest_roundtrip [OF _ one_reads]) (simp_all add: manifest_bytes_def one_ser_def res_map_def)

end
