(* ===== verification/CodeStore.thy ===== *)
theory CodeStore
  imports Space Eth "HOL-Library.AList"
begin

text \<open>
  The bytecode log of \<^verbatim>\<open>src/state.rs\<close>: records \<open>hash, length, code\<close> appended to a file,
  with an index from hashes to positions that is rebuilt by a scan on opening. A
  torn record at the end of the file is cut off. Device errors are not modelled; the
  position at which the file is written is a field of the state.
\<close>

section \<open>The store\<close>

record code_store =
  cs_file :: bytes
  cs_pos :: nat
  cs_index :: "(bytes \<times> (nat \<times> u32)) list"
  cs_end :: nat

text \<open>\<open>Ok None\<close>: the clean end of the file.\<close>

definition read_exact_or_eof :: "bytes \<Rightarrow> nat \<Rightarrow> nat \<Rightarrow> bytes option res" where
  "read_exact_or_eof file pos n =
     (if n = 0 then Ok (Some [])
      else if length file \<le> pos then Ok None
      else if length file < pos + n then Err (Bail ''truncated code-store record'')
      else Ok (Some (slice file pos n)))"

text \<open>The scan: the file it leaves, the index and the end of the last whole record.\<close>

function code_scan :: "bytes \<Rightarrow> (bytes \<times> (nat \<times> u32)) list \<Rightarrow> nat \<Rightarrow> bytes \<times> (bytes \<times> (nat \<times> u32)) list \<times> nat" where
  "code_scan file index end =
     (case read_exact_or_eof file end 36 of
        Err e \<Rightarrow> (take end file, index, end)
      | Ok None \<Rightarrow> (file, index, end)
      | Ok (Some hdr) \<Rightarrow>
          (let hash = take 32 hdr; len = (word_of_nat (le_val (slice hdr 32 4)) :: u32); data_off = end + 36 in
           if length file < data_off + unat len then (take end file, index, end)
           else code_scan file (AList.update hash (data_off, len) index) (data_off + unat len)))"
  by pat_completeness auto
termination
  by (relation "measure (\<lambda>(file, index, end). length file - end)")
    (auto simp: read_exact_or_eof_def split: if_splits intro!: diff_less_mono2)

declare code_scan.simps [simp del]

definition code_open :: "bytes \<Rightarrow> bool \<Rightarrow> code_store" where
  "code_open file trunc =
     (let file = (if trunc then [] else file);
          (file, index, end) = (if trunc then (file, [], 0) else code_scan file [] 0)
      in \<lparr>cs_file = file, cs_pos = end, cs_index = index, cs_end = end\<rparr>)"

definition code_put :: "prims \<Rightarrow> code_store \<Rightarrow> bytes \<Rightarrow> bytes \<times> code_store" where
  "code_put P cs code =
     (let hash = keccak256 P code in
      if code = [] \<or> map_of (cs_index cs) hash \<noteq> None then (hash, cs)
      else
        (let len = (word_of_nat (length code) :: u32);
             rec = hash @ le_bytes 4 (unat len) @ code;
             data_off = cs_end cs + 36
         in (hash, cs\<lparr>cs_file := write_at (cs_file cs) (cs_pos cs) rec, cs_pos := cs_pos cs + length rec,
                      cs_index := AList.update hash (data_off, len) (cs_index cs), cs_end := data_off + unat len\<rparr>)))"

definition code_get :: "code_store \<Rightarrow> bytes \<Rightarrow> bytes option res" where
  "code_get cs hash =
     (if hash = EMPTY_CODE_HASH then Ok (Some [])
      else (case map_of (cs_index cs) hash of
              None \<Rightarrow> Ok None
            | Some (off, len) \<Rightarrow> res_map Some (read_exact_at (cs_file cs) off (unat len))))"

section \<open>The log\<close>

definition code_rec :: "prims \<Rightarrow> bytes \<Rightarrow> bytes" where
  "code_rec P c = keccak256 P c @ le_bytes 4 (length c) @ c"

definition code_log :: "prims \<Rightarrow> bytes list \<Rightarrow> bytes" where
  "code_log P codes = concat (map (code_rec P) codes)"

fun code_index :: "prims \<Rightarrow> nat \<Rightarrow> bytes list \<Rightarrow> (bytes \<times> (nat \<times> u32)) list" where
  "code_index P off [] = []"
| "code_index P off (c # codes) = (keccak256 P c, (off + 36, word_of_nat (length c))) # code_index P (off + 36 + length c) codes"

definition code_ok :: "bytes \<Rightarrow> bool" where
  "code_ok c = (c \<noteq> [] \<and> length c < 2 ^ 32)"

definition code_rel :: "prims \<Rightarrow> code_store \<Rightarrow> bytes list \<Rightarrow> bool" where
  "code_rel P cs codes = (cs = \<lparr>cs_file = code_log P codes, cs_pos = length (code_log P codes),
       cs_index = code_index P 0 codes, cs_end = length (code_log P codes)\<rparr> \<and>
     distinct (map (keccak256 P) codes) \<and> (\<forall>c \<in> set codes. code_ok c))"

text \<open>The codes whose records end within the first \<open>n\<close> bytes.\<close>

fun whole :: "nat \<Rightarrow> bytes list \<Rightarrow> bytes list" where
  "whole n [] = []"
| "whole n (c # codes) = (if 36 + length c \<le> n then c # whole (n - (36 + length c)) codes else [])"

lemma keccak_length: "keccak_len P \<Longrightarrow> length (keccak256 P c) = 32"
  by (simp add: keccak_len_def)

lemma length_rec: "keccak_len P \<Longrightarrow> length (code_rec P c) = 36 + length c"
  by (simp add: code_rec_def keccak_len_def)

lemma log_simps [simp]: "code_log P [] = []" "code_log P (c # codes) = code_rec P c @ code_log P codes"
  "code_log P (xs @ ys) = code_log P xs @ code_log P ys"
  by (simp_all add: code_log_def)

lemma keys_index [simp]: "map fst (code_index P off codes) = map (keccak256 P) codes"
  by (induction codes arbitrary: off) simp_all

lemma keys_index_set: "fst ` set (code_index P off codes) = keccak256 P ` set codes"
  by (induction codes arbitrary: off) simp_all

lemma index_append: "keccak_len P \<Longrightarrow> code_index P off (xs @ [c]) =
    code_index P off xs @ [(keccak256 P c, (off + length (code_log P xs) + 36, word_of_nat (length c)))]"
  by (induction xs arbitrary: off) (simp_all add: length_rec algebra_simps)

lemma update_new: "k \<notin> fst ` set al \<Longrightarrow> AList.update k v al = al @ [(k, v)]"
  by (induction al) auto

lemma whole_prefix: "\<exists>k. whole n codes = take k codes"
proof (induction codes arbitrary: n)
  case (Cons c codes)
  then obtain k where "whole (n - (36 + length c)) codes = take k codes" by blast
  then show ?case by (cases "36 + length c \<le> n") (auto intro: exI [of _ "Suc k"] exI [of _ 0])
qed simp

lemma whole_set: "set (whole n codes) \<subseteq> set codes"
  using whole_prefix [of n codes] by (metis set_take_subset)

lemma whole_all: "keccak_len P \<Longrightarrow> length (code_log P codes) \<le> n \<Longrightarrow> whole n codes = codes"
  by (induction codes arbitrary: n) (simp_all add: length_rec)

text \<open>What is left of a record that was not written completely.\<close>

definition torn_rec :: "prims \<Rightarrow> bytes \<Rightarrow> bool" where
  "torn_rec P rest = (\<exists>c k. code_ok c \<and> k < 36 + length c \<and> rest = take k (code_rec P c))"

lemma take_log:
  assumes "keccak_len P" and "\<forall>c \<in> set codes. code_ok c"
  shows "\<exists>rest. take n (code_log P codes) = code_log P (whole n codes) @ rest \<and> torn_rec P rest"
  using assms(2)
proof (induction codes arbitrary: n)
  case Nil
  have "torn_rec P []" unfolding torn_rec_def by (intro exI [of _ "[0]"] exI [of _ 0]) (simp add: code_ok_def)
  then show ?case by simp
next
  case (Cons c codes)
  note l = length_rec [OF assms(1), of c]
  show ?case
  proof (cases "36 + length c \<le> n")
    case True
    obtain rest where "take (n - (36 + length c)) (code_log P codes) = code_log P (whole (n - (36 + length c)) codes) @ rest" "torn_rec P rest"
      using Cons by fastforce
    then show ?thesis using True l by simp
  next
    case False
    then have "torn_rec P (take n (code_rec P c))" using Cons.prems unfolding torn_rec_def by (intro exI [of _ c] exI [of _ n]) simp
    then show ?thesis using False l by simp
  qed
qed

lemma read_header:
  assumes "keccak_len P" and "length c < 2 ^ 32"
  shows "take 32 (code_rec P c) = keccak256 P c" and "slice (code_rec P c) 32 4 = le_bytes 4 (length c)"
    and "unat (word_of_nat (le_val (le_bytes 4 (length c))) :: u32) = length c"
proof -
  have k: "length (keccak256 P c) = 32" using assms(1) by (simp add: keccak_len_def)
  then show "take 32 (code_rec P c) = keccak256 P c" "slice (code_rec P c) 32 4 = le_bytes 4 (length c)"
    by (simp_all add: code_rec_def slice_def)
  show "unat (word_of_nat (le_val (le_bytes 4 (length c))) :: u32) = length c"
    using assms(2) by (simp add: le_val_le_bytes unat_of_nat)
qed

lemma scan_torn:
  assumes K: "keccak_len P" and t: "torn_rec P rest"
  shows "code_scan (pre @ rest) idx (length pre) = (pre, idx, length pre)"
proof -
  obtain c k where c: "code_ok c" "k < 36 + length c" "rest = take k (code_rec P c)" using t by (auto simp: torn_rec_def)
  note l = length_rec [OF K, of c]
  have lt: "length rest = k" using c l by simp
  consider "k = 0" | "0 < k" "k < 36" | "36 \<le> k" by linarith
  then show ?thesis
  proof cases
    case 1
    then show ?thesis using lt by (subst code_scan.simps) (simp add: read_exact_or_eof_def)
  next
    case 2
    then show ?thesis using lt by (subst code_scan.simps) (simp add: read_exact_or_eof_def)
  next
    case 3
    have h: "slice (pre @ rest) (length pre) 36 = take 36 (code_rec P c)" using 3 c(3) by (simp add: slice_def min_def)
    have s: "slice (take 36 (code_rec P c)) 32 4 = le_bytes 4 (length c)"
      using read_header(2) [OF K, of c] c(1) by (simp add: slice_def code_ok_def drop_take)
    have "read_exact_or_eof (pre @ rest) (length pre) 36 = Ok (Some (take 36 (code_rec P c)))"
      using 3 lt h by (simp add: read_exact_or_eof_def)
    then show ?thesis using lt c(1,2) read_header(3) [OF K, of c] s
      by (subst code_scan.simps) (simp add: Let_def code_ok_def)
  qed
qed

lemma scan_log:
  assumes K: "keccak_len P" and t: "torn_rec P rest"
  shows "\<forall>c \<in> set codes. code_ok c \<Longrightarrow> distinct (map fst idx @ map (keccak256 P) codes) \<Longrightarrow>
    code_scan (pre @ code_log P codes @ rest) idx (length pre) =
      (pre @ code_log P codes, idx @ code_index P (length pre) codes, length pre + length (code_log P codes))"
proof (induction codes arbitrary: pre idx)
  case Nil
  then show ?case using scan_torn [OF K t, of pre idx] by simp
next
  case (Cons c codes)
  note l = length_rec [OF K, of c]
  have c: "length c < 2 ^ 32" using Cons.prems(1) by (simp add: code_ok_def)
  let ?f = "pre @ code_log P (c # codes) @ rest" and ?e = "(keccak256 P c, (length pre + 36, word_of_nat (length c) :: u32))"
  have h: "slice ?f (length pre) 36 = take 36 (code_rec P c)" using l by (simp add: slice_def)
  have s: "slice (take 36 (code_rec P c)) 32 4 = le_bytes 4 (length c)" "take 32 (take 36 (code_rec P c)) = keccak256 P c"
    using read_header(1,2) [OF K c] by (simp_all add: slice_def drop_take)
  have r: "read_exact_or_eof ?f (length pre) 36 = Ok (Some (take 36 (code_rec P c)))"
    using l h by (simp add: read_exact_or_eof_def)
  have u: "AList.update (keccak256 P c) (length pre + 36, word_of_nat (length c)) idx = idx @ [?e]"
    by (rule update_new) (use Cons.prems(2) in auto)
  have w: "(word_of_nat (le_val (le_bytes 4 (length c))) :: u32) = word_of_nat (length c)"
    using c by (simp add: le_val_le_bytes)
  have "code_scan ?f idx (length pre) = code_scan ?f (idx @ [?e]) (length pre + 36 + length c)"
    using r s u w read_header(3) [OF K c] l by (subst code_scan.simps) (simp add: Let_def)
  also have "\<dots> = code_scan ((pre @ code_rec P c) @ code_log P codes @ rest) (idx @ [?e]) (length (pre @ code_rec P c))"
    using l by (simp add: add.assoc)
  also have "\<dots> = ((pre @ code_rec P c) @ code_log P codes, (idx @ [?e]) @ code_index P (length (pre @ code_rec P c)) codes,
      length (pre @ code_rec P c) + length (code_log P codes))"
    by (rule Cons.IH) (use Cons.prems in auto)
  finally show ?case using l by (simp add: add.assoc)
qed

section \<open>Operations\<close>

lemma code_new_rel: "code_rel P (code_open file True) []"
  by (simp add: code_rel_def code_open_def)

lemma code_put_rel:
  assumes K: "keccak_len P" and R: "code_rel P cs codes" and c: "length c < 2 ^ 32"
  shows "code_put P cs c = (keccak256 P c, cs') \<Longrightarrow>
    code_rel P cs' (if c = [] \<or> keccak256 P c \<in> keccak256 P ` set codes then codes else codes @ [c])"
proof -
  assume p: "code_put P cs c = (keccak256 P c, cs')"
  have cs: "cs = \<lparr>cs_file = code_log P codes, cs_pos = length (code_log P codes), cs_index = code_index P 0 codes, cs_end = length (code_log P codes)\<rparr>"
    using R by (simp add: code_rel_def)
  have k: "fst ` set (code_index P 0 codes) = keccak256 P ` set codes" by (rule keys_index_set)
  then have m: "map_of (code_index P 0 codes) (keccak256 P c) \<noteq> None \<longleftrightarrow> keccak256 P c \<in> keccak256 P ` set codes"
    by (metis map_of_eq_None_iff)
  show "code_rel P cs' (if c = [] \<or> keccak256 P c \<in> keccak256 P ` set codes then codes else codes @ [c])"
  proof (cases "c = [] \<or> keccak256 P c \<in> keccak256 P ` set codes")
    case True
    then have "cs' = cs" using p m by (auto simp: code_put_def cs Let_def)
    then show ?thesis using True R by simp
  next
    case False
    have u: "unat (word_of_nat (length c) :: u32) = length c" using c by (simp add: unat_of_nat)
    have w: "write_at xs (length xs) ys = xs @ ys" for xs ys by (simp add: write_at_def)
    have "cs' = \<lparr>cs_file = code_log P (codes @ [c]), cs_pos = length (code_log P (codes @ [c])), cs_index = code_index P 0 (codes @ [c]),
        cs_end = length (code_log P (codes @ [c]))\<rparr>"
      using p False m k c u update_new [of "keccak256 P c" "code_index P 0 codes"]
        keccak_length [OF K, of c]
      by (auto simp: code_put_def cs Let_def w index_append [OF K] code_rec_def)
    then show ?thesis using False R c by (auto simp: code_rel_def code_ok_def)
  qed
qed

lemma index_found:
  assumes "keccak_len P" and "c \<in> set codes" and "length c < 2 ^ 32"
  shows "\<exists>off. (keccak256 P c, (off, word_of_nat (length c))) \<in> set (code_index P (length pre) codes) \<and>
    read_exact_at (pre @ code_log P codes) off (length c) = Ok c"
  using assms(2)
proof (induction codes arbitrary: pre)
  case (Cons x codes)
  note l = length_rec [OF assms(1), of x]
  show ?case
  proof (cases "c = x")
    case True
    have "has_at (pre @ code_log P (x # codes)) (length pre + 36) x"
      using assms(1) by (simp add: has_at_def slice_def code_rec_def keccak_len_def)
    then show ?thesis using True by (auto intro!: exI [of _ "length pre + 36"] read_exact_has_at)
  next
    case False
    then obtain off where "(keccak256 P c, (off, word_of_nat (length c))) \<in> set (code_index P (length (pre @ code_rec P x)) codes)"
      "read_exact_at ((pre @ code_rec P x) @ code_log P codes) off (length c) = Ok c" using Cons by fastforce
    then show ?thesis using l by (auto simp: add.assoc)
  qed
qed simp

lemma code_get_rel:
  assumes K: "keccak_len P" and R: "code_rel P cs codes" and h: "h \<noteq> EMPTY_CODE_HASH"
  shows "c \<in> set codes \<Longrightarrow> keccak256 P c = h \<Longrightarrow> code_get cs h = Ok (Some c)"
    and "h \<notin> keccak256 P ` set codes \<Longrightarrow> code_get cs h = Ok None"
proof -
  have cs: "cs_file cs = code_log P codes" "cs_index cs = code_index P 0 codes" and d: "distinct (map fst (code_index P 0 codes))"
    and ok: "\<forall>c \<in> set codes. code_ok c" using R by (simp_all add: code_rel_def)
  show "code_get cs h = Ok (Some c)" if c: "c \<in> set codes" "keccak256 P c = h"
  proof -
    have l: "length c < 2 ^ 32" using ok c(1) by (simp add: code_ok_def)
    obtain off where o: "(h, (off, word_of_nat (length c))) \<in> set (code_index P 0 codes)" "read_exact_at (code_log P codes) off (length c) = Ok c"
      using index_found [OF K c(1) l, of "[]"] c(2) by auto
    then have "map_of (code_index P 0 codes) h = Some (off, word_of_nat (length c))" using d by simp
    then show ?thesis using o(2) h l by (simp add: code_get_def cs unat_of_nat)
  qed
  show "code_get cs h = Ok None" if "h \<notin> keccak256 P ` set codes"
  proof -
    have "map_of (code_index P 0 codes) h = None" using that by (simp add: map_of_eq_None_iff keys_index_set)
    then show ?thesis using h by (simp add: code_get_def cs)
  qed
qed

text \<open>A crash leaves a prefix of the file; opening it keeps the whole records.\<close>

lemma code_open_rel:
  assumes K: "keccak_len P" and R: "code_rel P cs codes"
  shows "code_rel P (code_open (take n (cs_file cs)) False) (whole n codes)"
proof -
  have ok: "\<forall>c \<in> set codes. code_ok c" and d: "distinct (map (keccak256 P) codes)" and f: "cs_file cs = code_log P codes"
    using R by (simp_all add: code_rel_def)
  obtain rest where t: "take n (code_log P codes) = code_log P (whole n codes) @ rest" "torn_rec P rest" using take_log [OF K ok] by blast
  obtain k where k: "whole n codes = take k codes" using whole_prefix by blast
  have w: "\<forall>c \<in> set (whole n codes). code_ok c" "distinct (map (keccak256 P) (whole n codes))"
    using ok d whole_set [of n codes] by (blast, simp add: k take_map [symmetric])
  have "code_scan ([] @ code_log P (whole n codes) @ rest) [] (length ([] :: bytes)) =
      ([] @ code_log P (whole n codes), [] @ code_index P (length ([] :: bytes)) (whole n codes), length ([] :: bytes) + length (code_log P (whole n codes)))"
    by (rule scan_log [OF K t(2)]) (use w in simp_all)
  then show ?thesis using t(1) w by (simp add: code_rel_def code_open_def f)
qed

inductive code_hist :: "prims \<Rightarrow> bytes list \<Rightarrow> code_store \<Rightarrow> bool" for P where
  c_new: "code_hist P [] (code_open file True)"
| c_put: "code_hist P codes cs \<Longrightarrow> length c < 2 ^ 32 \<Longrightarrow> code_put P cs c = (h, cs') \<Longrightarrow>
    code_hist P (if c = [] \<or> h \<in> keccak256 P ` set codes then codes else codes @ [c]) cs'"
| c_crash: "code_hist P codes cs \<Longrightarrow> code_hist P (whole n codes) (code_open (take n (cs_file cs)) False)"

lemma code_hist_rel: "code_hist P codes cs \<Longrightarrow> keccak_len P \<Longrightarrow> code_rel P cs codes"
proof (induction rule: code_hist.induct)
  case (c_put codes cs c h cs')
  have "h = keccak256 P c" using c_put.hyps(3) by (auto simp: code_put_def Let_def split: if_splits)
  then show ?case using code_put_rel [of P cs codes c cs'] c_put by simp
next
  case (c_crash codes cs n)
  then show ?case using code_open_rel by blast
qed (rule code_new_rel)

end
