(* ===== verification/EthState.thy ===== *)
theory EthState
  imports FrontierSpec CodeStore Maintain
begin

text \<open>
  The typed Ethereum state of \<^verbatim>\<open>src/state.rs\<close>: accounts and storage slots over the
  database, keyed by the hashes of addresses and slots, and the bytecode store.
  The specification is a map from addresses to accounts whose storage is a map from
  slots to values; every operation of the facade commutes with it.
\<close>

section \<open>The facade\<close>

text \<open>The public single-key operations of the database.\<close>

definition mpt_insert :: "prims \<Rightarrow> flat_mpt \<Rightarrow> bytes \<Rightarrow> bytes \<Rightarrow> (bytes \<times> flat_mpt) fm" where
  "mpt_insert P db key value = insert_op P db key (OpValue value)"

definition mpt_insert_account :: "prims \<Rightarrow> flat_mpt \<Rightarrow> bytes \<Rightarrow> u64 \<Rightarrow> u256 \<Rightarrow> bytes \<Rightarrow> (bytes \<times> flat_mpt) fm" where
  "mpt_insert_account P db key nonce balance code_hash = insert_op P db key (OpAccount nonce balance code_hash)"

definition mpt_insert_storage :: "prims \<Rightarrow> flat_mpt \<Rightarrow> bytes \<Rightarrow> bytes \<Rightarrow> bytes \<Rightarrow> (bytes \<times> flat_mpt) fm" where
  "mpt_insert_storage P db key slot value = insert_op P db key (OpStorage slot value)"

definition mpt_delete_account :: "prims \<Rightarrow> flat_mpt \<Rightarrow> bytes \<Rightarrow> (bytes \<times> flat_mpt) fm" where
  "mpt_delete_account P db key = delete_op_db P db key DelAccount"

definition mpt_delete_storage :: "prims \<Rightarrow> flat_mpt \<Rightarrow> bytes \<Rightarrow> bytes \<Rightarrow> (bytes \<times> flat_mpt) fm" where
  "mpt_delete_storage P db key slot = delete_op_db P db key (DelStorage slot)"

definition mpt_wipe_storage :: "prims \<Rightarrow> flat_mpt \<Rightarrow> bytes \<Rightarrow> (bytes \<times> flat_mpt) fm" where
  "mpt_wipe_storage P db key = delete_op_db P db key DelWipeStorage"

record eth_state =
  es_trie :: flat_mpt
  es_code :: code_store

definition account_key :: "prims \<Rightarrow> bytes \<Rightarrow> bytes" where
  "account_key P addr = keccak256 P addr"

definition slot_bytes :: "u256 \<Rightarrow> bytes" where
  "slot_bytes slot = be_bytes 32 (unat slot)"

definition slot_key :: "prims \<Rightarrow> u256 \<Rightarrow> bytes" where
  "slot_key P slot = keccak256 P (slot_bytes slot)"

text \<open>The new root an operation returns is dropped.\<close>

definition on_trie :: "eth_state \<Rightarrow> (bytes \<times> flat_mpt) fm \<Rightarrow> eth_state fm" where
  "on_trie st m = fbind m (\<lambda>(h, db). fret (st\<lparr>es_trie := db\<rparr>))"

definition set_account :: "prims \<Rightarrow> eth_state \<Rightarrow> bytes \<Rightarrow> account \<Rightarrow> eth_state fm" where
  "set_account P st addr acct =
     (let key = account_key P addr in
      if a_storage_root acct = EMPTY_ROOT
      then on_trie st (mpt_insert_account P (es_trie st) key (a_nonce acct) (a_balance acct) (a_code_hash acct))
      else on_trie st (mpt_insert P (es_trie st) key (account_rlp P acct)))"

definition set_storage :: "prims \<Rightarrow> eth_state \<Rightarrow> bytes \<Rightarrow> u256 \<Rightarrow> u256 \<Rightarrow> eth_state fm" where
  "set_storage P st addr slot v =
     (let slot_key = slot_key P slot in
      if v = 0 then on_trie st (mpt_delete_storage P (es_trie st) (account_key P addr) slot_key)
      else on_trie st (mpt_insert_storage P (es_trie st) (account_key P addr) slot_key (storage_value_rlp P v)))"

definition delete_account :: "prims \<Rightarrow> eth_state \<Rightarrow> bytes \<Rightarrow> eth_state fm" where
  "delete_account P st addr = on_trie st (mpt_delete_account P (es_trie st) (account_key P addr))"

definition delete_storage :: "prims \<Rightarrow> eth_state \<Rightarrow> bytes \<Rightarrow> u256 \<Rightarrow> eth_state fm" where
  "delete_storage P st addr slot =
     on_trie st (mpt_delete_storage P (es_trie st) (account_key P addr) (slot_key P slot))"

definition wipe_storage :: "prims \<Rightarrow> eth_state \<Rightarrow> bytes \<Rightarrow> eth_state fm" where
  "wipe_storage P st addr = on_trie st (mpt_wipe_storage P (es_trie st) (account_key P addr))"

definition eth_get_storage :: "prims \<Rightarrow> flat_file \<Rightarrow> eth_state \<Rightarrow> bytes \<Rightarrow> u256 \<Rightarrow> u256 option res" where
  "eth_get_storage P f st addr slot =
     res_bind (get_storage P f (es_trie st) (account_key P addr) (slot_key P slot)) (\<lambda>r.
       (case r of
          Some bs \<Rightarrow> (case rlp_decode_u256 P bs of Some v \<Rightarrow> Ok (Some v) | None \<Rightarrow> Err (Bail ''invalid RLP''))
        | None \<Rightarrow> Ok None))"

definition get_account :: "prims \<Rightarrow> flat_file \<Rightarrow> eth_state \<Rightarrow> bytes \<Rightarrow> account option res" where
  "get_account P f st addr =
     res_bind (get_value P f (es_trie st) (account_key P addr)) (\<lambda>r.
       (case r of
          Some bs \<Rightarrow> (case account_decode P bs of Some a \<Rightarrow> Ok (Some a) | None \<Rightarrow> Err (Bail ''invalid RLP''))
        | None \<Rightarrow> Ok None))"

definition set_code :: "prims \<Rightarrow> eth_state \<Rightarrow> bytes \<Rightarrow> bytes \<times> eth_state" where
  "set_code P st code = (case code_put P (es_code st) code of (h, cs) \<Rightarrow> (h, st\<lparr>es_code := cs\<rparr>))"

definition get_code :: "eth_state \<Rightarrow> bytes \<Rightarrow> bytes option res" where
  "get_code st code_hash = code_get (es_code st) code_hash"

definition state_root :: "prims \<Rightarrow> eth_state \<Rightarrow> bytes res" where
  "state_root P st = res_map fst (db_root P (es_trie st))"

definition eth_create :: "config \<Rightarrow> bool \<Rightarrow> bytes \<Rightarrow> eth_state" where
  "eth_create cfg ram code_file = \<lparr>es_trie = db_new cfg ram, es_code = code_open code_file True\<rparr>"

text \<open>Flushing the code log changes no contents.\<close>

definition eth_persist :: "prims \<Rightarrow> gc_env \<Rightarrow> (manifest \<Rightarrow> bytes res) \<Rightarrow> (nibs \<Rightarrow> bool) \<Rightarrow> eth_state \<Rightarrow> meta_files \<Rightarrow> (eth_state \<times> meta_files) fm" where
  "eth_persist P env ser touched st d =
     fbind (persist P env ser touched (es_trie st) d) (\<lambda>(db, d). fret (st\<lparr>es_trie := db\<rparr>, d))"

definition eth_open :: "prims \<Rightarrow> (bytes \<Rightarrow> manifest res) \<Rightarrow> bool \<Rightarrow> bytes \<Rightarrow> meta_files \<Rightarrow> bytes \<Rightarrow> (eth_state \<times> flat_file) res" where
  "eth_open P de direct data d code_file =
     res_map (\<lambda>(db, f). (\<lparr>es_trie = db, es_code = code_open code_file False\<rparr>, f)) (open_db P de direct data d)"

text \<open>The writes a client issues.\<close>

datatype eth_op =
    SetAccount bytes account
  | SetStorage bytes u256 u256
  | DeleteAccount bytes
  | DeleteStorage bytes u256
  | WipeStorage bytes

fun eth_exec :: "prims \<Rightarrow> eth_state \<Rightarrow> eth_op \<Rightarrow> eth_state fm" where
  "eth_exec P st (SetAccount addr acct) = set_account P st addr acct"
| "eth_exec P st (SetStorage addr slot v) = set_storage P st addr slot v"
| "eth_exec P st (DeleteAccount addr) = delete_account P st addr"
| "eth_exec P st (DeleteStorage addr slot) = delete_storage P st addr slot"
| "eth_exec P st (WipeStorage addr) = wipe_storage P st addr"

section \<open>The specification\<close>

text \<open>
  An account is either structured, its storage a map from slots to values, or opaque:
  it carries a storage root whose slots the database does not have.
\<close>

datatype eth_acct = Nested u64 u256 bytes "u256 \<rightharpoonup> u256" | Opaque account

type_synonym eth_map = "bytes \<rightharpoonup> eth_acct"

definition with_fields :: "account \<Rightarrow> account \<Rightarrow> account" where
  "with_fields old new = new\<lparr>a_storage_root := a_storage_root old\<rparr>"

fun spec_set :: "eth_acct option \<Rightarrow> account \<Rightarrow> eth_acct res" where
  "spec_set None acct =
     Ok (if a_storage_root acct = EMPTY_ROOT then Nested (a_nonce acct) (a_balance acct) (a_code_hash acct) Map.empty else Opaque acct)"
| "spec_set (Some (Nested n b c s)) acct =
     (if a_storage_root acct = EMPTY_ROOT then Ok (Nested (a_nonce acct) (a_balance acct) (a_code_hash acct) s)
      else Err (Bail ''leaf op does not match the existing node kind at this key''))"
| "spec_set (Some (Opaque old)) acct =
     Ok (Opaque (if a_storage_root acct = EMPTY_ROOT then with_fields old acct else acct))"

fun spec_store :: "eth_acct option \<Rightarrow> u256 \<Rightarrow> u256 \<Rightarrow> eth_acct res" where
  "spec_store None slot v = Ok (Nested 0 0 EMPTY_CODE_HASH [slot \<mapsto> v])"
| "spec_store (Some (Nested n b c s)) slot v = Ok (Nested n b c (s(slot \<mapsto> v)))"
| "spec_store (Some (Opaque old)) slot v = Err (Bail ''storage write on an account with opaque storage'')"

fun spec_unstore :: "eth_acct \<Rightarrow> u256 \<Rightarrow> eth_acct res" where
  "spec_unstore (Nested n b c s) slot = Ok (Nested n b c (s(slot := None)))"
| "spec_unstore (Opaque old) slot = Err (Bail ''storage delete on an account with opaque storage'')"

fun spec_wipe :: "eth_acct \<Rightarrow> eth_acct" where
  "spec_wipe (Nested n b c s) = Nested n b c Map.empty"
| "spec_wipe (Opaque old) = Nested (a_nonce old) (a_balance old) (a_code_hash old) Map.empty"

definition spec_del_slot :: "eth_map \<Rightarrow> bytes \<Rightarrow> u256 \<Rightarrow> eth_map res" where
  "spec_del_slot m addr slot =
     (case m addr of None \<Rightarrow> Ok m | Some a \<Rightarrow> res_map (\<lambda>a. m(addr \<mapsto> a)) (spec_unstore a slot))"

fun eth_spec :: "eth_map \<Rightarrow> eth_op \<Rightarrow> eth_map res" where
  "eth_spec m (SetAccount addr acct) = res_map (\<lambda>a. m(addr \<mapsto> a)) (spec_set (m addr) acct)"
| "eth_spec m (SetStorage addr slot v) =
     (if v = 0 then spec_del_slot m addr slot else res_map (\<lambda>a. m(addr \<mapsto> a)) (spec_store (m addr) slot v))"
| "eth_spec m (DeleteAccount addr) = Ok (m(addr := None))"
| "eth_spec m (DeleteStorage addr slot) = spec_del_slot m addr slot"
| "eth_spec m (WipeStorage addr) = Ok (m(addr := map_option spec_wipe (m addr)))"

fun eth_run :: "eth_map \<Rightarrow> eth_op list \<Rightarrow> eth_map res" where
  "eth_run m [] = Ok m"
| "eth_run m (op # ops) = res_bind (eth_spec m op) (\<lambda>m'. eth_run m' ops)"

section \<open>Operations of the database\<close>

definition acct_typed :: "account \<Rightarrow> bool" where
  "acct_typed a = (length (a_storage_root a) = 32 \<and> length (a_code_hash a) = 32)"

fun eth_ok :: "eth_op \<Rightarrow> bool" where
  "eth_ok (SetAccount addr acct) = acct_typed acct"
| "eth_ok _ = True"

fun op_addr :: "eth_op \<Rightarrow> bytes" where
  "op_addr (SetAccount addr acct) = addr"
| "op_addr (SetStorage addr slot v) = addr"
| "op_addr (DeleteAccount addr) = addr"
| "op_addr (DeleteStorage addr slot) = addr"
| "op_addr (WipeStorage addr) = addr"

fun op_slots :: "eth_op \<Rightarrow> u256 set" where
  "op_slots (SetStorage addr slot v) = {slot}"
| "op_slots (DeleteStorage addr slot) = {slot}"
| "op_slots _ = {}"

fun trie_op :: "prims \<Rightarrow> eth_op \<Rightarrow> db_op" where
  "trie_op P (SetAccount addr acct) = Put (account_key P addr)
     (if a_storage_root acct = EMPTY_ROOT then OpAccount (a_nonce acct) (a_balance acct) (a_code_hash acct)
      else OpValue (account_rlp P acct))"
| "trie_op P (SetStorage addr slot v) =
     (if v = 0 then Del (account_key P addr) (DelStorage (slot_key P slot))
      else Put (account_key P addr) (OpStorage (slot_key P slot) (storage_value_rlp P v)))"
| "trie_op P (DeleteAccount addr) = Del (account_key P addr) DelAccount"
| "trie_op P (DeleteStorage addr slot) = Del (account_key P addr) (DelStorage (slot_key P slot))"
| "trie_op P (WipeStorage addr) = Del (account_key P addr) DelWipeStorage"

lemma eth_exec_trie: "eth_exec P st op = on_trie st (exec P (es_trie st) (trie_op P op))"
  by (cases op) (simp_all add: set_account_def set_storage_def delete_account_def delete_storage_def wipe_storage_def Let_def
    mpt_insert_def mpt_insert_account_def mpt_insert_storage_def mpt_delete_account_def mpt_delete_storage_def mpt_wipe_storage_def)

lemma eth_exec_Ok: "eth_exec P st op f = (Ok st', f') \<longleftrightarrow>
    (\<exists>h db. exec P (es_trie st) (trie_op P op) f = (Ok (h, db), f') \<and> st' = st\<lparr>es_trie := db\<rparr>)"
  by (auto simp: eth_exec_trie on_trie_def fbind_def fret_def split: prod.splits res.splits)

lemma op_key_trie: "op_key (trie_op P op) = account_key P (op_addr op)"
  by (cases op) simp_all

lemma request_trie: "keccak_len P \<Longrightarrow> eth_ok op \<Longrightarrow> request_ok (trie_op P op)"
  by (cases op) (auto simp: account_key_def slot_key_def keccak_len_def acct_typed_def)

section \<open>Keys\<close>

definition akey :: "prims \<Rightarrow> bytes \<Rightarrow> nibs" where
  "akey P addr = key_nibbles (account_key P addr)"

definition skey :: "prims \<Rightarrow> u256 \<Rightarrow> nibs" where
  "skey P slot = key_nibbles (slot_key P slot)"

text \<open>The digests of the inputs that occur differ before their last nibble.\<close>

definition keys_apart :: "prims \<Rightarrow> bytes set \<Rightarrow> bool" where
  "keys_apart P X = inj_on (\<lambda>x. butlast (key_nibbles (keccak256 P x))) X"

lemma key_facts:
  assumes "keccak_len P"
  shows "length (akey P addr) = 64" and "nibs_ok (akey P addr)" and "length (skey P slot) = 64" and "nibs_ok (skey P slot)"
    and "length (account_key P addr) = 32" and "length (slot_key P slot) = 32"
  using assms by (simp_all add: akey_def skey_def account_key_def slot_key_def keccak_len_def)

lemma slot_bytes_inj: "slot_bytes s = slot_bytes s' \<Longrightarrow> s = s'"
  by (metis slot_bytes_def balance_rt)

lemma akey_apart: "keys_apart P A \<Longrightarrow> a \<in> A \<Longrightarrow> a' \<in> A \<Longrightarrow> butlast (akey P a) = butlast (akey P a') \<Longrightarrow> a = a'"
  by (auto simp: keys_apart_def akey_def account_key_def dest: inj_onD)

lemma skey_apart: "keys_apart P (slot_bytes ` S) \<Longrightarrow> s \<in> S \<Longrightarrow> s' \<in> S \<Longrightarrow> butlast (skey P s) = butlast (skey P s') \<Longrightarrow> s = s'"
  unfolding keys_apart_def skey_def slot_key_def
  by (rule slot_bytes_inj) (drule inj_onD, assumption, blast, blast, assumption)

lemma akey_inj: "keys_apart P A \<Longrightarrow> inj_on (akey P) A"
  by (rule inj_onI) (metis akey_apart)

lemma skey_inj: "keys_apart P (slot_bytes ` S) \<Longrightarrow> inj_on (skey P) S"
  by (rule inj_onI) (metis skey_apart)

lemma spread_trie:
  assumes "keys_apart P A" and "op_addr ` set ops \<subseteq> A"
  shows "spread (map (trie_op P) ops)"
proof -
  have key: "akey P a = akey P a'" if "a \<in> A" "a' \<in> A" "butlast (akey P a) = butlast (akey P a')" for a a'
    using akey_apart [OF assms(1) that] by simp
  have "op_addr x \<in> A" if "x \<in> set ops" for x using assms(2) that by blast
  then show ?thesis using key unfolding spread_def set_map ball_simps op_key_trie akey_def [symmetric] by blast
qed

section \<open>Refinement\<close>

definition slots_rel :: "prims \<Rightarrow> u256 set \<Rightarrow> trie \<Rightarrow> (u256 \<rightharpoonup> u256) \<Rightarrow> bool" where
  "slots_rel P S s e = (wf0 s 64 \<and> val_only s \<and> finite (dom e) \<and> dom e \<subseteq> S \<and> (\<forall>k. tlook s k \<noteq> None \<longrightarrow> k \<in> skey P ` S) \<and>
     (\<forall>slot \<in> S. tlook s (skey P slot) = map_option (\<lambda>v. LVal (storage_value_rlp P v)) (e slot)))"

fun acct_rel :: "prims \<Rightarrow> u256 set \<Rightarrow> leaf \<Rightarrow> eth_acct \<Rightarrow> bool" where
  "acct_rel P S (LAcct n b c s) (Nested n' b' c' e) = (n = n' \<and> b = b' \<and> c = c' \<and> length c = 32 \<and> slots_rel P S s e)"
| "acct_rel P S (LVal v) (Opaque a) = (v = account_rlp P a \<and> acct_typed a \<and> a_storage_root a \<noteq> EMPTY_ROOT)"
| "acct_rel P S _ _ = False"

definition state_rel :: "prims \<Rightarrow> bytes set \<Rightarrow> u256 set \<Rightarrow> (nibs \<rightharpoonup> leaf) \<Rightarrow> eth_map \<Rightarrow> bool" where
  "state_rel P A S m e = (finite (dom e) \<and> dom e \<subseteq> A \<and> (\<forall>k. m k \<noteq> None \<longrightarrow> k \<in> akey P ` A) \<and>
     (\<forall>a \<in> A. rel_option (acct_rel P S) (m (akey P a)) (e a)))"

lemma slots_rel_empty: "slots_rel P S TEmpty Map.empty"
  by (simp add: slots_rel_def wf0_def)

lemma slots_rel_put:
  assumes K: "keccak_len P" and I: "inj_on (skey P) S" and s: "slot \<in> S" and R: "slots_rel P S t e"
  shows "slots_rel P S (store_slot t (slot_key P slot) (storage_value_rlp P v)) (e(slot \<mapsto> v))"
proof -
  let ?t = "store_slot t (slot_key P slot) (storage_value_rlp P v)" and ?k = "skey P slot"
  note k = key_facts(3,4) [OF K, of slot]
  have w: "wf ?t 64 \<and> val_only ?t \<and> tlook ?t = (tlook t)(?k \<mapsto> LVal (storage_value_rlp P v))"
  proof (cases "t = TEmpty")
    case True
    then show ?thesis using k by (auto simp: skey_def)
  next
    case False
    then have "wf t 64" "val_only t" using R by (auto simp: slots_rel_def wf0_def)
    then show ?thesis using k by (simp add: store_slot_def skey_def wf_tput val_only_tput tlook_tput)
  qed
  then show ?thesis using R s inj_onD [OF I] by (auto simp: slots_rel_def wf0_def)
qed

lemma slots_rel_del:
  assumes K: "keccak_len P" and I: "inj_on (skey P) S" and s: "slot \<in> S" and R: "slots_rel P S t e"
  shows "slots_rel P S (tdel t (skey P slot)) (e(slot := None))"
proof -
  note k = key_facts(3,4) [OF K, of slot]
  have w: "wf0 (tdel t (skey P slot)) 64 \<and> val_only (tdel t (skey P slot)) \<and> tlook (tdel t (skey P slot)) = (tlook t)(skey P slot := None)"
  proof (cases "t = TEmpty")
    case False
    then have "wf t 64" "val_only t" using R by (auto simp: slots_rel_def wf0_def)
    then show ?thesis using k by (simp add: wf_tdel val_only_tdel tlook_tdel)
  qed (simp add: wf0_def fun_eq_iff)
  then show ?thesis using R s inj_onD [OF I] by (auto simp: slots_rel_def)
qed

lemma state_rel_put:
  assumes I: "inj_on (akey P) A" and a: "a \<in> A" and R: "state_rel P A S m e" and x: "acct_rel P S l x"
  shows "state_rel P A S (m(akey P a \<mapsto> l)) (e(a \<mapsto> x))"
  using R a x inj_onD [OF I] by (auto simp: state_rel_def)

lemma state_rel_del:
  assumes I: "inj_on (akey P) A" and a: "a \<in> A" and R: "state_rel P A S m e"
  shows "state_rel P A S (m(akey P a := None)) (e(a := None))"
  using R a inj_onD [OF I] by (auto simp: state_rel_def)

text \<open>Both sides succeed with related results or fail with the same error.\<close>

definition res_sim :: "('a \<Rightarrow> 'b \<Rightarrow> bool) \<Rightarrow> 'a res \<Rightarrow> 'b res \<Rightarrow> bool" where
  "res_sim R r x = (case x of Ok b \<Rightarrow> \<exists>a. r = Ok a \<and> R a b | Err er \<Rightarrow> r = Err er)"

lemma res_sim_simps [simp]: "res_sim R r (Ok b) = (\<exists>a. r = Ok a \<and> R a b)" "res_sim R r (Err er) = (r = Err er)"
  by (simp_all add: res_sim_def)

lemma res_sim_bind:
  assumes "res_sim R r x" and "\<And>a b. R a b \<Longrightarrow> res_sim R' (g a) (h b)"
  shows "res_sim R' (res_bind r g) (res_bind x h)"
  using assms by (cases x) auto

lemma res_sim_map:
  assumes "res_sim R r x" and "\<And>a b. R a b \<Longrightarrow> R' (g a) (h b)"
  shows "res_sim R' (res_map g r) (res_map h x)"
  using assms by (cases x) auto

definition acct_op :: "prims \<Rightarrow> account \<Rightarrow> leaf_op" where
  "acct_op P acct = (if a_storage_root acct = EMPTY_ROOT then OpAccount (a_nonce acct) (a_balance acct) (a_code_hash acct)
     else OpValue (account_rlp P acct))"

lemma decode_typed_acct: "account_rt P \<Longrightarrow> acct_typed a \<Longrightarrow> account_decode P (account_rlp P a) = Some a"
  by (simp add: account_rt_def account_rlp_def acct_typed_def)

lemma acct_rel_cases [consumes 1, case_names none nested opaque]:
  assumes "rel_option (acct_rel P S) lo eo"
  obtains "lo = None" "eo = None"
  | n b c s e where "lo = Some (LAcct n b c s)" "eo = Some (Nested n b c e)" "length c = 32" "slots_rel P S s e"
  | a where "lo = Some (LVal (account_rlp P a))" "eo = Some (Opaque a)" "acct_typed a" "a_storage_root a \<noteq> EMPTY_ROOT"
proof (cases lo)
  case (Some l)
  then obtain x where "eo = Some x" "acct_rel P S l x" using assms by (cases eo) auto
  then show ?thesis using that(2,3) Some by (cases l; cases x) auto
qed (use assms that(1) in auto)

lemma set_commutes:
  assumes "account_rt P" and "rel_option (acct_rel P S) lo eo" and "acct_typed acct"
  shows "res_sim (acct_rel P S) (spec_op P lo (acct_op P acct)) (spec_set eo acct)"
  using assms(2)
proof (cases rule: acct_rel_cases)
  case (opaque a)
  have "acct_value P n b c (a_storage_root a) = account_rlp P (with_fields a acct)"
    if "n = a_nonce acct" "b = a_balance acct" "c = a_code_hash acct" for n b c
    using that by (cases acct) (simp add: acct_value_def account_contract_def with_fields_def)
  moreover have "acct_typed (with_fields a acct)" using opaque(3) assms(3) by (simp add: acct_typed_def with_fields_def)
  ultimately show ?thesis using opaque decode_typed_acct [OF assms(1) opaque(3)] assms(3)
    by (auto simp: acct_op_def with_fields_def)
qed (use assms(3) in \<open>auto simp: acct_op_def slots_rel_empty acct_typed_def\<close>)

lemma store_commutes:
  assumes "keccak_len P" and "account_rt P" and "inj_on (skey P) S" and "slot \<in> S" and "rel_option (acct_rel P S) lo eo"
  shows "res_sim (acct_rel P S) (spec_op P lo (OpStorage (slot_key P slot) (storage_value_rlp P v))) (spec_store eo slot v)"
  using assms(5)
proof (cases rule: acct_rel_cases)
  case none
  then show ?thesis using slots_rel_put [OF assms(1,3,4) slots_rel_empty, of v] by simp
next
  case (nested n b c s e)
  then show ?thesis using slots_rel_put [OF assms(1,3,4) nested(4), of v] by simp
next
  case (opaque a)
  then show ?thesis using decode_typed_acct [OF assms(2) opaque(3)] by simp
qed

lemma unstore_commutes:
  assumes "keccak_len P" and "account_rt P" and "inj_on (skey P) S" and "slot \<in> S" and "acct_rel P S l x"
  shows "res_sim (\<lambda>o' y. \<exists>l'. del_leaf (Some l) o' = Some l' \<and> acct_rel P S l' y) (spec_del P l (DelStorage (slot_key P slot))) (spec_unstore x slot)"
proof -
  have "rel_option (acct_rel P S) (Some l) (Some x)" using assms(5) by simp
  then show ?thesis
  proof (cases rule: acct_rel_cases)
    case (nested n b c s e)
    have t: "tlook s (key_nibbles (slot_key P slot)) = map_option (\<lambda>v. LVal (storage_value_rlp P v)) (e slot)"
      using nested(4) assms(4) by (simp add: slots_rel_def skey_def)
    show ?thesis
    proof (cases "e slot")
      case None
      then have "e(slot := None) = e" by auto
      then show ?thesis using nested None t by (auto simp: del_leaf_def)
    next
      case (Some v)
      then show ?thesis using nested t slots_rel_del [OF assms(1,3,4) nested(4)] by (auto simp: del_leaf_def skey_def)
    qed
  next
    case (opaque a)
    then show ?thesis using decode_typed_acct [OF assms(2) opaque(3)] by auto
  qed simp
qed

lemma wipe_commutes:
  assumes "account_rt P" and "acct_rel P S l x"
  shows "\<exists>o' l'. spec_del P l DelWipeStorage = Ok o' \<and> del_leaf (Some l) o' = Some l' \<and> acct_rel P S l' (spec_wipe x)"
proof -
  have "rel_option (acct_rel P S) (Some l) (Some x)" using assms(2) by simp
  then show ?thesis
  proof (cases rule: acct_rel_cases)
    case (nested n b c s e)
    have "e = Map.empty" if "s = TEmpty"
    proof
      fix slot
      show "e slot = None" using nested(4) that unfolding slots_rel_def by (cases "slot \<in> S") auto
    qed
    then show ?thesis using nested slots_rel_empty by (auto simp: del_leaf_def)
  next
    case (opaque a)
    then show ?thesis using decode_typed_acct [OF assms(1) opaque(3)] slots_rel_empty by (auto simp: del_leaf_def acct_typed_def)
  qed simp
qed

lemma state_rel_upd:
  assumes "inj_on (akey P) A" and "a \<in> A" and "state_rel P A S m e" and "rel_option (acct_rel P S) lo eo"
  shows "state_rel P A S (m(akey P a := lo)) (e(a := eo))"
  using state_rel_put [OF assms(1-3)] state_rel_del [OF assms(1-3)] assms(4) by (cases lo; cases eo) auto

lemma eth_step:
  assumes K: "keccak_len P" and T: "account_rt P" and I: "inj_on (akey P) A" "inj_on (skey P) S" and R: "state_rel P A S m e"
    and op: "op_addr op \<in> A" "op_slots op \<subseteq> S" "eth_ok op"
  shows "res_sim (state_rel P A S) (op_run P m (trie_op P op)) (eth_spec e op)"
proof -
  have rel: "rel_option (acct_rel P S) (m (akey P a)) (e a)" if "a \<in> A" for a using R that by (simp add: state_rel_def)
  have unstore: "res_sim (state_rel P A S) (op_run P m (Del (account_key P a) (DelStorage (slot_key P slot)))) (spec_del_slot e a slot)"
    if a: "a \<in> A" "slot \<in> S" for a slot
  proof (cases "e a")
    case None
    then have "m (akey P a) = None" using rel [OF a(1)] by simp
    then show ?thesis using None R by (simp add: spec_del_slot_def spec_del0_def del_map_def akey_def)
  next
    case (Some x)
    then obtain l where l: "m (akey P a) = Some l" "acct_rel P S l x" using rel [OF a(1)] by (cases "m (akey P a)") auto
    have "res_sim (state_rel P A S) (res_map (del_map m (akey P a)) (spec_del P l (DelStorage (slot_key P slot)))) (res_map (\<lambda>x. e(a \<mapsto> x)) (spec_unstore x slot))"
      by (rule res_sim_map [OF unstore_commutes [OF K T I(2) a(2) l(2)]])
        (auto simp: del_map_leaf l(1) intro: state_rel_put [OF I(1) a(1) R])
    then show ?thesis using l(1) Some by (simp add: spec_del_slot_def spec_del0_def akey_def)
  qed
  show ?thesis
  proof (cases op)
    case (SetAccount a acct)
    have "res_sim (state_rel P A S) (res_map (\<lambda>l. m(akey P a \<mapsto> l)) (spec_op P (m (akey P a)) (acct_op P acct))) (res_map (\<lambda>x. e(a \<mapsto> x)) (spec_set (e a) acct))"
      using op SetAccount by (intro res_sim_map [OF set_commutes [OF T rel]] state_rel_put [OF I(1) _ R]) auto
    then show ?thesis using SetAccount by (simp add: akey_def acct_op_def)
  next
    case (SetStorage a slot v)
    have "res_sim (state_rel P A S) (res_map (\<lambda>l. m(akey P a \<mapsto> l)) (spec_op P (m (akey P a)) (OpStorage (slot_key P slot) (storage_value_rlp P v))))
        (res_map (\<lambda>x. e(a \<mapsto> x)) (spec_store (e a) slot v))"
      using op SetStorage by (intro res_sim_map [OF store_commutes [OF K T I(2) _ rel]] state_rel_put [OF I(1) _ R]) auto
    then show ?thesis using SetStorage op unstore [of a slot] by (simp add: akey_def)
  next
    case (DeleteAccount a)
    have "spec_del0 P (m (akey P a)) DelAccount = Ok (case m (akey P a) of None \<Rightarrow> DKeep | Some l \<Rightarrow> DRemove)"
      by (cases "m (akey P a)"; cases "the (m (akey P a))") (auto simp: spec_del0_def)
    moreover have "del_map m (akey P a) (case m (akey P a) of None \<Rightarrow> DKeep | Some l \<Rightarrow> DRemove) = m(akey P a := None)"
      by (auto simp: del_map_def split: option.splits)
    ultimately show ?thesis using DeleteAccount op state_rel_del [OF I(1) _ R] by (simp add: akey_def)
  next
    case (DeleteStorage a slot)
    then show ?thesis using op unstore by simp
  next
    case (WipeStorage a)
    have a: "a \<in> A" using WipeStorage op by simp
    show ?thesis
    proof (cases "e a")
      case None
      then have "m (akey P a) = None" "e(a := None) = e" using rel [OF a] by auto
      then show ?thesis using None R WipeStorage by (simp add: spec_del0_def del_map_def akey_def)
    next
      case (Some x)
      then obtain l where l: "m (akey P a) = Some l" "acct_rel P S l x" using rel [OF a] by (cases "m (akey P a)") auto
      then obtain o' l' where o': "spec_del P l DelWipeStorage = Ok o'" "del_leaf (Some l) o' = Some l'" "acct_rel P S l' (spec_wipe x)"
        using wipe_commutes [OF T l(2)] by blast
      then show ?thesis using WipeStorage Some l(1) state_rel_put [OF I(1) a R o'(3)]
        by (simp add: spec_del0_def akey_def del_map_leaf)
    qed
  qed
qed

lemma eth_run_rel:
  assumes K: "keccak_len P" and T: "account_rt P" and I: "inj_on (akey P) A" "inj_on (skey P) S"
  shows "state_rel P A S m e \<Longrightarrow> op_addr ` set ops \<subseteq> A \<Longrightarrow> \<Union> (op_slots ` set ops) \<subseteq> S \<Longrightarrow> \<forall>op \<in> set ops. eth_ok op \<Longrightarrow>
    res_sim (state_rel P A S) (map_run P m (map (trie_op P) ops)) (eth_run e ops)"
proof (induction ops arbitrary: m e)
  case (Cons op ops)
  have "res_sim (state_rel P A S) (op_run P m (trie_op P op)) (eth_spec e op)"
    using Cons.prems by (intro eth_step [OF K T I]) auto
  then show ?case using Cons by (auto intro: res_sim_bind)
qed simp

end
