(* ===== verification/EthSpec.thy ===== *)
theory EthSpec
  imports EthState SystemSpec
begin

text \<open>
  What the typed state promises: its reads and its root are those of a map from
  addresses to accounts, and the bytecode store keeps what was written whole.
\<close>

section \<open>Roots of secure tries\<close>

text \<open>The RLP of an account has room for two hashes.\<close>

definition account_wide :: "prims \<Rightarrow> bool" where
  "account_wide P = (\<forall>a. length (a_storage_root a) = 32 \<longrightarrow> length (a_code_hash a) = 32 \<longrightarrow> 32 \<le> length (account_encode P a))"

definition listing :: "('k::linorder \<rightharpoonup> 'v) \<Rightarrow> ('k \<times> 'v) list" where
  "listing m = map (\<lambda>k. (k, the (m k))) (sorted_list_of_set (dom m))"

definition storage_entries :: "prims \<Rightarrow> (u256 \<rightharpoonup> u256) \<Rightarrow> (bytes \<times> bytes) list" where
  "storage_entries P e = map (\<lambda>(slot, v). (slot_bytes slot, storage_value_rlp P v)) (listing e)"

text \<open>The account record of an account: the root of its slots by the reference builder.\<close>

fun account_of :: "prims \<Rightarrow> eth_acct \<Rightarrow> account res" where
  "account_of P (Opaque a) = Ok a"
| "account_of P (Nested n b c e) = res_map (\<lambda>r. account_contract n b r c) (secure_root P (storage_entries P e))"

definition reference_root :: "prims \<Rightarrow> eth_map \<Rightarrow> bytes res" where
  "reference_root P e =
     res_bind (res_mapM (\<lambda>(addr, x). res_map (\<lambda>a. (addr, account_rlp P a)) (account_of P x)) (listing e)) (secure_root P)"

lemma eth_key_nibbles_eq: "eth_key_nibbles k = key_nibbles k"
  by (simp add: eth_key_nibbles_def key_nibbles_def)

lemma final_map_distinct:
  "distinct (map (key_nibbles \<circ> fst) es) \<Longrightarrow> \<forall>(k, v) \<in> set es. v \<noteq> [] \<Longrightarrow>
    final_map es = map_of (map (\<lambda>(k, v). (key_nibbles k, v)) es)"
proof (induction es rule: rev_induct)
  case (snoc x es)
  obtain k v where x: "x = (k, v)" by (cases x)
  have "final_map (es @ [x]) = (map_of (map (\<lambda>(k, v). (key_nibbles k, v)) es))(key_nibbles k \<mapsto> v)"
    using snoc by (simp add: x final_map_def eth_key_nibbles_eq split: prod.splits)
  moreover have "key_nibbles k \<notin> fst ` set (map (\<lambda>(k, v). (key_nibbles k, v)) es)"
    using snoc.prems(1) by (auto simp: x image_image case_prod_unfold)
  then have "map_of (map (\<lambda>(k, v). (key_nibbles k, v)) es) (key_nibbles k) = None" by (simp add: map_of_eq_None_iff)
  ultimately show ?case by (auto simp: x map_add_def fun_eq_iff split: option.splits)
qed (simp add: final_map_def)

text \<open>A finite map under hashed keys: the entries of its listing are those of the trie.\<close>

lemma final_map_listing:
  fixes e :: "'k::linorder \<rightharpoonup> 'v" and key :: "'k \<Rightarrow> bytes"
  assumes "finite (dom e)" and "inj_on (key_nibbles \<circ> key) (dom e)" and "\<And>k v. e k = Some v \<Longrightarrow> val v \<noteq> []"
    and "\<And>k. k \<in> dom e \<Longrightarrow> m (key_nibbles (key k)) = map_option val (e k)" and "\<And>q. m q \<noteq> None \<Longrightarrow> q \<in> (key_nibbles \<circ> key) ` dom e"
  shows "final_map (map (\<lambda>(k, v). (key k, val v)) (listing e)) = m"
proof -
  let ?es = "map (\<lambda>(k, v). (key k, val v)) (listing e)"
  have s: "set (sorted_list_of_set (dom e)) = dom e" "distinct (sorted_list_of_set (dom e))" using assms(1) by auto
  have k: "map (key_nibbles \<circ> fst) ?es = map (key_nibbles \<circ> key) (sorted_list_of_set (dom e))"
    by (simp add: listing_def)
  have d: "distinct (map (key_nibbles \<circ> fst) ?es)" unfolding k using assms(2) s by (simp add: distinct_map)
  have "\<forall>(k, v) \<in> set ?es. v \<noteq> []" using assms(3) s by (auto simp: listing_def)
  then have f: "final_map ?es = map_of (map (\<lambda>(k, v). (key_nibbles k, v)) ?es)" by (rule final_map_distinct [OF d])
  show ?thesis
  proof
    fix q
    have dd: "distinct (map fst (map (\<lambda>(k, v). (key_nibbles k, v)) ?es))" using d by (simp add: comp_def case_prod_unfold)
    show "final_map ?es q = m q"
    proof (cases "q \<in> (key_nibbles \<circ> key) ` dom e")
      case True
      then obtain a v where a: "q = key_nibbles (key a)" "e a = Some v" by auto
      then have "(q, val v) \<in> set (map (\<lambda>(k, v). (key_nibbles k, v)) ?es)" using s by (force simp: listing_def)
      then have "final_map ?es q = Some (val v)" unfolding f using dd by (rule map_of_is_SomeI [rotated])
      moreover have "m (key_nibbles (key a)) = map_option val (e a)" using a(2) by (intro assms(4)) auto
      ultimately show ?thesis using a by simp
    next
      case False
      then have "q \<notin> fst ` set (map (\<lambda>(k, v). (key_nibbles k, v)) ?es)" using s by (auto simp: listing_def)
      then have "final_map ?es q = None" unfolding f by (simp add: map_of_eq_None_iff)
      then show ?thesis using assms(5) False by (cases "m q") auto
    qed
  qed
qed

lemma slots_root:
  assumes "keccak_len P" and "rlp_empty P" and "u256_rt P" and "inj_on (skey P) S" and R: "slots_rel P S s e"
  shows "secure_root P (storage_entries P e) = Ok (troot P s)"
proof -
  have dom: "dom e \<subseteq> S" "finite (dom e)" using R by (auto simp: slots_rel_def)
  have key: "key_nibbles (slot_key P k) = skey P k" for k by (simp add: skey_def)
  have "final_map (map (\<lambda>(k, v). (slot_key P k, storage_value_rlp P v)) (listing e)) = map_option (leaf_value P) \<circ> tlook s"
  proof (rule final_map_listing [OF dom(2)])
    show "inj_on (key_nibbles \<circ> slot_key P) (dom e)" using inj_on_subset [OF assms(4) dom(1)] by (simp add: comp_def key)
    show "storage_value_rlp P v \<noteq> []" for v using assms(3) by (simp add: u256_rt_def storage_value_rlp_def)
    show "(map_option (leaf_value P) \<circ> tlook s) (key_nibbles (slot_key P k)) = map_option (storage_value_rlp P) (e k)" if "k \<in> dom e" for k
    proof -
      have "k \<in> S" using that dom by blast
      then have "tlook s (skey P k) = map_option (\<lambda>v. LVal (storage_value_rlp P v)) (e k)" using R by (simp add: slots_rel_def)
      then show ?thesis by (simp add: key option.map_comp comp_def)
    qed
    show "q \<in> (key_nibbles \<circ> slot_key P) ` dom e" if "(map_option (leaf_value P) \<circ> tlook s) q \<noteq> None" for q
    proof -
      have "tlook s q \<noteq> None" using that by simp
      then obtain slot where "slot \<in> S" "q = skey P slot" using R by (auto simp: slots_rel_def)
      then show ?thesis using R \<open>tlook s q \<noteq> None\<close> by (force simp: slots_rel_def key)
    qed
  qed
  then have f: "final_map (map (\<lambda>(k, v). (keccak256 P k, v)) (storage_entries P e)) = map_option (leaf_value P) \<circ> tlook s"
    by (simp add: storage_entries_def slot_key_def case_prod_unfold comp_def)
  have "wf0 s 64" using R by (simp add: slots_rel_def)
  from eth_root_trie [OF assms(2) this f] show ?thesis by (simp add: secure_root_def)
qed

lemma acct_root:
  assumes "keccak_len P" and "rlp_empty P" and "u256_rt P" and "account_rt P" and "inj_on (skey P) S" and "acct_rel P S l x"
  shows "\<exists>a. account_of P x = Ok a \<and> acct_typed a \<and> leaf_value P l = account_rlp P a"
proof -
  have "rel_option (acct_rel P S) (Some l) (Some x)" using assms(6) by simp
  then show ?thesis
  proof (cases rule: acct_rel_cases)
    case (nested n b c s e)
    have "length (troot P s) = 32" using assms(1) ref_ok_tref [OF assms(1), of s] by (cases "tref P s") (auto simp: troot_def keccak_len_def)
    then show ?thesis using nested slots_root [OF assms(1-3,5) nested(4)]
      by (simp add: acct_typed_def account_contract_def acct_value_def)
  next
    case (opaque a)
    then show ?thesis by simp
  qed simp
qed

lemma state_reference_root:
  assumes P: "keccak_len P" "rlp_empty P" "u256_rt P" "account_rt P" "account_wide P" and I: "inj_on (akey P) A" "inj_on (skey P) S"
    and R: "state_rel P A S (tlook t) e" and w: "wf0 t 64"
  shows "reference_root P e = Ok (troot P t)"
proof -
  define val where "val x = (case account_of P x of Ok a \<Rightarrow> account_rlp P a | Err er \<Rightarrow> [])" for x
  have fin: "finite (dom e)" "dom e \<subseteq> A" using R by (auto simp: state_rel_def)
  have leaf: "\<exists>a. account_of P x = Ok a \<and> val x = account_rlp P a \<and> val x \<noteq> [] \<and> map_option (leaf_value P) (tlook t (akey P addr)) = Some (val x)"
    if x: "e addr = Some x" for addr x
  proof -
    have "addr \<in> A" using x fin(2) by auto
    then have "rel_option (acct_rel P S) (tlook t (akey P addr)) (e addr)" using R by (simp add: state_rel_def)
    then obtain l where l: "tlook t (akey P addr) = Some l" "acct_rel P S l x" using x by (cases "tlook t (akey P addr)") auto
    obtain a where a: "account_of P x = Ok a" "acct_typed a" "leaf_value P l = account_rlp P a"
      using acct_root [OF P(1-4) I(2) l(2)] by blast
    have "32 \<le> length (account_rlp P a)" using P(5) a(2) by (simp add: account_wide_def acct_typed_def account_rlp_def)
    then show ?thesis using l a by (auto simp: val_def)
  qed
  have some: "e addr = Some x" if "(addr, x) \<in> set (listing e)" for addr x
    using that fin(1) by (auto simp: listing_def)
  have rows: "res_mapM (\<lambda>(addr, x). res_map (\<lambda>a. (addr, account_rlp P a)) (account_of P x)) (listing e) = Ok (map (\<lambda>(addr, x). (addr, val x)) (listing e))"
    by (rule res_mapM_all_Ok) (use some leaf in fastforce)
  have "final_map (map (\<lambda>(k, x). (account_key P k, val x)) (listing e)) = map_option (leaf_value P) \<circ> tlook t"
  proof (rule final_map_listing [OF fin(1)])
    show "inj_on (key_nibbles \<circ> account_key P) (dom e)"
      using inj_on_subset [OF I(1) fin(2)] by (simp add: comp_def akey_def inj_on_def)
    show "val x \<noteq> []" if "e k = Some x" for k x using leaf [OF that] by auto
    show "(map_option (leaf_value P) \<circ> tlook t) (key_nibbles (account_key P k)) = map_option val (e k)" if "k \<in> dom e" for k
      using that leaf by (fastforce simp: akey_def)
    show "q \<in> (key_nibbles \<circ> account_key P) ` dom e" if "(map_option (leaf_value P) \<circ> tlook t) q \<noteq> None" for q
    proof -
      have q: "tlook t q \<noteq> None" using that by simp
      then obtain a where a: "a \<in> A" "q = akey P a" using R by (auto simp: state_rel_def)
      then have "rel_option (acct_rel P S) (tlook t q) (e a)" using R by (simp add: state_rel_def)
      then have "a \<in> dom e" using q by (cases "e a") auto
      then show ?thesis using a(2) by (auto simp: akey_def)
    qed
  qed
  then have f: "final_map (map (\<lambda>(k, v). (keccak256 P k, v)) (map (\<lambda>(addr, x). (addr, val x)) (listing e))) = map_option (leaf_value P) \<circ> tlook t"
    by (simp add: account_key_def case_prod_unfold comp_def)
  from eth_root_trie [OF P(2) w f] show ?thesis unfolding reference_root_def rows by (simp add: secure_root_def)
qed

section \<open>Histories\<close>

inductive eth_hist :: "prims \<Rightarrow> eth_op list \<Rightarrow> bytes list \<Rightarrow> eth_state \<Rightarrow> flat_file \<Rightarrow> bool" for P where
  e_create: "eth_hist P [] [] (eth_create cfg ram code_file) (ff_new direct)"
| e_write: "eth_hist P ops codes st f \<Longrightarrow> eth_ok op \<Longrightarrow> mem_ok (db_upper (es_trie st)) \<Longrightarrow> eth_exec P st op f = (Ok st', f') \<Longrightarrow>
    eth_hist P (ops @ [op]) codes st' f'"
| e_code: "eth_hist P ops codes st f \<Longrightarrow> length c < 2 ^ 32 \<Longrightarrow> set_code P st c = (h, st') \<Longrightarrow>
    eth_hist P ops (if c = [] \<or> h \<in> keccak256 P ` set codes then codes else codes @ [c]) st' f"

lemma eth_hist_parts:
  assumes "keccak_len P"
  shows "eth_hist P ops codes st f \<Longrightarrow> (\<exists>h. db_hist P (map (trie_op P) ops) h f (es_trie st)) \<and> code_hist P codes (es_code st) \<and> (\<forall>op \<in> set ops. eth_ok op)"
proof (induction rule: eth_hist.induct)
  case (e_create cfg ram code_file direct)
  show ?case using h_empty [of P direct cfg ram] c_new [of P code_file] unfolding eth_create_def by fastforce
next
  case (e_write ops codes st f op st' f')
  then obtain h where h: "db_hist P (map (trie_op P) ops) h f (es_trie st)" by blast
  obtain h' db where x: "exec P (es_trie st) (trie_op P op) f = (Ok (h', db), f')" "st' = st\<lparr>es_trie := db\<rparr>"
    using e_write.hyps by (auto simp: eth_exec_Ok)
  from h_exec [OF h request_trie [OF assms e_write.hyps(2)] e_write.hyps(3) x(1)] show ?case using e_write x(2) by auto
next
  case (e_code ops codes st f c h st')
  obtain cs where "code_put P (es_code st) c = (h, cs)" "st' = st\<lparr>es_code := cs\<rparr>"
    using e_code.hyps by (auto simp: set_code_def split: prod.splits)
  then show ?case using e_code c_put [of P codes "es_code st" c h cs] by auto
qed

text \<open>What the histories below share: the documented behaviour of the third-party code and keys that stay apart.\<close>

definition eth_setup :: "prims \<Rightarrow> bytes set \<Rightarrow> u256 set \<Rightarrow> eth_op list \<Rightarrow> bool" where
  "eth_setup P A S ops = (keccak_len P \<and> decode_typed P \<and> rlp_empty P \<and> rlp_keeps P \<and> u256_rt P \<and> account_rt P \<and> account_wide P \<and>
     keys_apart P A \<and> keys_apart P (slot_bytes ` S) \<and> op_addr ` set ops \<subseteq> A \<and> \<Union> (op_slots ` set ops) \<subseteq> S)"

lemma eth_hist_rel:
  assumes "eth_setup P A S ops" and "eth_hist P ops codes st f"
  obtains t e where "eth_run Map.empty ops = Ok e" and "map_run P Map.empty (map (trie_op P) ops) = Ok (tlook t)" and "state_rel P A S (tlook t) e"
    and "db_inv fz_none P f (es_trie st) t" and "code_rel P (es_code st) codes"
proof -
  have S: "keccak_len P" "decode_typed P" "account_rt P" "keys_apart P A" "keys_apart P (slot_bytes ` S)" "op_addr ` set ops \<subseteq> A" "\<Union> (op_slots ` set ops) \<subseteq> S"
    using assms(1) by (simp_all add: eth_setup_def)
  obtain h where h: "db_hist P (map (trie_op P) ops) h f (es_trie st)" "code_hist P codes (es_code st)" "\<forall>op \<in> set ops. eth_ok op"
    using eth_hist_parts [OF S(1) assms(2)] by blast
  obtain t where t: "map_run P Map.empty (map (trie_op P) ops) = Ok (tlook t)" "db_inv fz_none P f (es_trie st) t"
    using db_hist_rep [OF S(1,2) h(1) spread_trie [OF S(4,6)]] by blast
  have "state_rel P A S Map.empty Map.empty" by (simp add: state_rel_def)
  from eth_run_rel [OF S(1,3) akey_inj [OF S(4)] skey_inj [OF S(5)] this S(6,7) h(3)]
  obtain e where "eth_run Map.empty ops = Ok e" "state_rel P A S (tlook t) e" using t(1) by (cases "eth_run Map.empty ops") auto
  then show ?thesis using that t code_hist_rel [OF h(2) S(1)] by blast
qed

text \<open>The leaves are wide as soon as the references inside storage are hashes.\<close>

lemma leaves_wide:
  assumes "eth_setup P A S ops" and "state_rel P A S m e" and "\<And>k n b c s. m k = Some (LAcct n b c s) \<Longrightarrow> hashed P s" and "m k = Some l"
  shows "wide P l"
proof -
  have S: "keccak_len P" "rlp_empty P" "u256_rt P" "account_rt P" "account_wide P" "keys_apart P (slot_bytes ` S)"
    using assms(1) by (simp_all add: eth_setup_def)
  obtain a where a: "a \<in> A" "k = akey P a" using assms(2,4) by (auto simp: state_rel_def)
  then have "rel_option (acct_rel P S) (Some l) (e a)" using assms(2,4) by (auto simp: state_rel_def)
  then obtain x where "acct_rel P S l x" by (cases "e a") auto
  from acct_root [OF S(1-4) skey_inj [OF S(6)] this] obtain b where "acct_typed b" "leaf_value P l = account_rlp P b" by blast
  then have "32 \<le> length (leaf_value P l)" using S(5) by (simp add: account_wide_def acct_typed_def account_rlp_def)
  then show ?thesis using assms(3,4) by (cases l) auto
qed

section \<open>A concrete history\<close>

definition demo_addr1 :: bytes where "demo_addr1 = 0x12 # replicate 19 0"

definition demo_addr2 :: bytes where "demo_addr2 = 0x34 # replicate 19 0"

definition demo_writes2 :: "eth_op list" where
  "demo_writes2 = [SetStorage demo_addr1 7 9, SetAccount demo_addr2 (account_eoa 5 9)]"

lemma demo_account_keys: "account_key demo demo_addr1 = demo_key1" "account_key demo demo_addr2 = demo_key3"
  by (simp_all add: account_key_def demo_def demo_keccak_def demo_addr1_def demo_addr2_def demo_key1_def demo_key3_def numeral_eq_Suc)

lemma demo_account_wide: "account_wide demo"
  by (simp add: account_wide_def demo_def demo_account_encode_def)

lemma demo_setup: "eth_setup demo {demo_addr1, demo_addr2} {7} demo_writes2"
proof -
  have "butlast (key_nibbles demo_key1) \<noteq> butlast (key_nibbles demo_key3)"
    using butlast_differ [of "key_nibbles demo_key1" "key_nibbles demo_key3"] demo_nibs by simp
  then have "keys_apart demo {demo_addr1, demo_addr2}"
    using demo_account_keys by (auto simp: keys_apart_def inj_on_def account_key_def)
  then show ?thesis by (simp add: eth_setup_def rlp_keeps_demo demo_account_wide demo_writes2_def keys_apart_def)
qed

abbreviation demo_leaf1 :: leaf where
  "demo_leaf1 \<equiv> LAcct 0 0 EMPTY_CODE_HASH (TLeaf (skey demo 7) (storage_value_rlp demo 9))"

lemma demo_eth_map: "map_run demo Map.empty (map (trie_op demo) demo_writes2) =
    Ok [key_nibbles demo_key1 \<mapsto> demo_leaf1, key_nibbles demo_key3 \<mapsto> LAcct 5 9 EMPTY_CODE_HASH TEmpty]"
  using demo_differ by (simp add: demo_writes2_def demo_account_keys account_eoa_def skey_def)

lemma demo_eth_run: "eth_run Map.empty demo_writes2 = Ok [demo_addr1 \<mapsto> Nested 0 0 EMPTY_CODE_HASH [7 \<mapsto> 9], demo_addr2 \<mapsto> Nested 5 9 EMPTY_CODE_HASH Map.empty]"
  by (simp add: demo_writes2_def account_eoa_def demo_addr1_def demo_addr2_def)

lemma demo_eth_hist: "\<exists>st f. eth_hist demo demo_writes2 [] st f \<and> mem_ok (db_upper (es_trie st))"
proof -
  let ?st = "eth_create demo_cfg True []" and ?t = "fput TEmpty (key_nibbles demo_key1) demo_leaf1"
  have "\<exists>h db. insert_op demo (db_new demo_cfg True) demo_key1 (OpStorage (slot_key demo 7) (storage_value_rlp demo 9)) (ff_new True) = (Ok (h, db), ff_new True) \<and>
      db_ram db \<and> mem_ok (db_upper db) \<and> db_inv fz_none demo (ff_new True) db ?t"
  proof (rule insert_empty_slot [OF _ _ _ _ db_new_inv])
    show "length (enc demo (mk_leaf (drop 1 (key_nibbles demo_key1)) demo_leaf1)) < 2 ^ 30"
      using demo_enc [of demo "skey demo 7" "storage_value_rlp demo 9"] key_facts(3) [of demo 7]
      by (simp add: div_ceil2_def)
  qed (simp_all add: db_new_def apart63_def key_facts(6) skey_def)
  then obtain h db where s: "exec demo (es_trie ?st) (trie_op demo (SetStorage demo_addr1 7 9)) (ff_new True) = (Ok (h, db), ff_new True)"
    "db_ram db" "mem_ok (db_upper db)" "db_inv fz_none demo (ff_new True) db ?t"
    by (auto simp: eth_create_def demo_account_keys)
  then have e1: "eth_exec demo ?st (SetStorage demo_addr1 7 9) (ff_new True) = (Ok (?st\<lparr>es_trie := db\<rparr>), ff_new True)"
    unfolding eth_exec_Ok by blast
  have "\<exists>h' db'. insert_op demo db demo_key3 (OpAccount 5 9 EMPTY_CODE_HASH) (ff_new True) = (Ok (h', db'), ff_new True) \<and> db_ram db' \<and>
      mem_ok (db_upper db') \<and> db_inv fz_none demo (ff_new True) db' (fput ?t (key_nibbles demo_key3) (LAcct 5 9 EMPTY_CODE_HASH TEmpty))"
  proof (rule insert_empty_slot [OF _ _ _ _ s(4,3) _ s(2)])
    show "apart63 (tlook ?t) (key_nibbles demo_key3)"
      using fput_facts(1) [of TEmpty 64 "key_nibbles demo_key1" demo_leaf1] key_facts(3,4) [of demo 7]
        butlast_differ [of "key_nibbles demo_key1" "key_nibbles demo_key3"] demo_nibs by (auto simp: apart63_def split: if_splits)
    show "?t = TEmpty \<or> (\<exists>ts. ?t = TBranch ts \<and> ts ! unat (key_nibbles demo_key3 ! 0) = None)"
      by (simp add: fput_def demo_nibs)
    show "length (enc demo (mk_leaf (drop 1 (key_nibbles demo_key3)) (LAcct 5 9 EMPTY_CODE_HASH TEmpty))) < 2 ^ 30"
      by (simp add: demo_nibs div_ceil2_def)
  qed (simp_all add: demo_nibs)
  then obtain h' db' where t: "exec demo db (trie_op demo (SetAccount demo_addr2 (account_eoa 5 9))) (ff_new True) = (Ok (h', db'), ff_new True)" "mem_ok (db_upper db')"
    by (auto simp: demo_account_keys account_eoa_def)
  then have e2: "eth_exec demo (?st\<lparr>es_trie := db\<rparr>) (SetAccount demo_addr2 (account_eoa 5 9)) (ff_new True) = (Ok (?st\<lparr>es_trie := db'\<rparr>), ff_new True)"
    unfolding eth_exec_Ok by simp
  have "eth_hist demo ([] @ [SetStorage demo_addr1 7 9]) [] (?st\<lparr>es_trie := db\<rparr>) (ff_new True)"
    by (rule e_write [OF e_create _ _ e1]) (simp_all add: eth_create_def db_new_def)
  from e_write [OF this _ _ e2] have "eth_hist demo demo_writes2 [] (?st\<lparr>es_trie := db'\<rparr>) (ff_new True)"
    using s(3) by (simp add: demo_writes2_def acct_typed_def account_eoa_def EMPTY_ROOT_def)
  then show ?thesis using t(2) by (intro exI [of _ "?st\<lparr>es_trie := db'\<rparr>"] exI [of _ "ff_new True"]) simp
qed

section \<open>Properties\<close>

text \<open>C6: after any history of typed writes the facade reads as the specification: an
  account is returned with the storage root the reference builder computes from its
  slots, a slot with the value last written, and neither read fails. Addresses and
  slots range over sets whose hashes differ before the last nibble, and the
  references inside storage tries are hashes.\<close>

theorem eth_reads_refine:
  assumes "eth_setup P A S ops" and "eth_hist P ops codes st f" and "map_run P Map.empty (map (trie_op P) ops) = Ok m"
    and "\<And>k n b c s. m k = Some (LAcct n b c s) \<Longrightarrow> hashed P s" and "mem_ok (db_upper (es_trie st))"
  shows "\<exists>e. eth_run Map.empty ops = Ok e \<and>
    (\<forall>addr \<in> A. get_account P f st addr = (case e addr of None \<Rightarrow> Ok None | Some x \<Rightarrow> res_map Some (account_of P x))) \<and>
    (\<forall>addr \<in> A. \<forall>slot \<in> S. eth_get_storage P f st addr slot = Ok (case e addr of Some (Nested n b c s) \<Rightarrow> s slot | _ \<Rightarrow> None))"
proof -
  have P: "keccak_len P" "rlp_empty P" "u256_rt P" "account_rt P" "rlp_keeps P" "keys_apart P (slot_bytes ` S)"
    using assms(1) by (simp_all add: eth_setup_def)
  obtain t e where H: "eth_run Map.empty ops = Ok e" "m = tlook t" "state_rel P A S m e" "db_inv fz_none P f (es_trie st) t"
    using eth_hist_rel [OF assms(1,2)] assms(3) by (metis res.inject(1))
  have "\<forall>k l. m k = Some l \<longrightarrow> wide P l"
    by (intro allI impI, rule leaves_wide [OF assms(1) H(3)], erule assms(4), assumption)
  then have an: "answers P f (es_trie st) m" using inv_answers [OF P(1,5) H(4) _ assms(5)] H(2) by blast
  have read: "get_account P f st addr = (case e addr of None \<Rightarrow> Ok None | Some x \<Rightarrow> res_map Some (account_of P x)) \<and>
      (\<forall>slot \<in> S. eth_get_storage P f st addr slot = Ok (case e addr of Some (Nested n b c s) \<Rightarrow> s slot | _ \<Rightarrow> None))" if a: "addr \<in> A" for addr
  proof -
    have gv: "get_value P f (es_trie st) (account_key P addr) = Ok (map_option (leaf_value P) (m (akey P addr)))"
      and gs: "get_storage P f (es_trie st) (account_key P addr) (slot_key P slot) = Ok (case m (akey P addr) of
        Some (LAcct n b c s) \<Rightarrow> map_option (leaf_value P) (tlook s (skey P slot)) | _ \<Rightarrow> None)" for slot
      using an [unfolded answers_def, rule_format, of "account_key P addr" "slot_key P slot" for slot] key_facts(5,6) [OF P(1)]
      unfolding akey_def skey_def by blast+
    have "rel_option (acct_rel P S) (m (akey P addr)) (e addr)" using H(3) a by (simp add: state_rel_def)
    then show ?thesis
    proof (cases rule: acct_rel_cases)
      case none
      then show ?thesis by (simp add: get_account_def eth_get_storage_def gv gs)
    next
      case (nested n b c s g)
      then obtain x where x: "account_of P (Nested n b c g) = Ok x" "acct_typed x" "leaf_value P (LAcct n b c s) = account_rlp P x"
        using acct_root [OF P(1-4) skey_inj [OF P(6)], of "LAcct n b c s" "Nested n b c g"] by auto
      have "tlook s (skey P slot) = map_option (\<lambda>v. LVal (storage_value_rlp P v)) (g slot)" if "slot \<in> S" for slot
        using nested(4) that by (simp add: slots_rel_def)
      moreover have "rlp_decode_u256 P (storage_value_rlp P v) = Some v" for v using P(3) by (simp add: u256_rt_def storage_value_rlp_def)
      ultimately have "eth_get_storage P f st addr slot = Ok (g slot)" if "slot \<in> S" for slot
        using nested that by (cases "g slot") (simp_all add: eth_get_storage_def gs)
      moreover have "get_account P f st addr = Ok (Some x)"
        using nested x(3) decode_typed_acct [OF P(4) x(2)] by (simp add: get_account_def gv)
      ultimately show ?thesis using nested x(1) by simp
    next
      case (opaque o')
      then show ?thesis using decode_typed_acct [OF P(4) opaque(3)] by (simp add: get_account_def eth_get_storage_def gv gs)
    qed
  qed
  show ?thesis using H(1) read by blast
qed

lemma demo_storage_hashed: "[key_nibbles demo_key1 \<mapsto> demo_leaf1, key_nibbles demo_key3 \<mapsto> LAcct 5 9 EMPTY_CODE_HASH TEmpty] k = Some (LAcct n b c s) \<Longrightarrow> hashed demo s"
  by (auto split: if_splits)

theorem eth_reads_refine_witness:
  "\<exists>st f. eth_hist demo demo_writes2 [] st f \<and> eth_get_storage demo f st demo_addr1 7 = Ok (Some 9) \<and>
     eth_get_storage demo f st demo_addr2 7 = Ok None"
proof -
  obtain st f where H: "eth_hist demo demo_writes2 [] st f" "mem_ok (db_upper (es_trie st))" using demo_eth_hist by blast
  have "demo_addr1 \<noteq> demo_addr2" by (simp add: demo_addr1_def demo_addr2_def)
  then show ?thesis
    using eth_reads_refine [OF demo_setup H(1) demo_eth_map demo_storage_hashed H(2)] demo_eth_run H(1)
    by (intro exI [of _ st] exI [of _ f]) simp
qed

lemma state_root_inv:
  assumes "keccak_len P" and "db_inv Z P f (es_trie st) t" and "hashed P t"
  shows "state_root P st = Ok (troot P t)"
proof -
  obtain M where M: "frep P M (db_upper (es_trie st)) [] t" using assms(2) by (auto simp: db_inv_def)
  have "fh P (db_upper (es_trie st)) = troot P t" by (rule fh_troot(1) [OF M assms(3)])
  then show ?thesis using hash_ram_frep(1) [OF M] by (auto simp: state_root_def db_root_def)
qed



fun leaf_typed :: "prims \<Rightarrow> leaf \<Rightarrow> bool" where
  "leaf_typed P (LVal v) = (case account_decode P v of None \<Rightarrow> False | Some a \<Rightarrow> acct_typed a \<and> a_storage_root a \<noteq> EMPTY_ROOT)"
| "leaf_typed P (LAcct n b c s) = (length c = 32 \<and> (\<forall>k l. tlook s k = Some l \<longrightarrow>
     (case l of LVal v \<Rightarrow> rlp_decode_u256 P v \<noteq> None | LAcct _ _ _ _ \<Rightarrow> False)))"

text \<open>C24: the leaves of the state trie are typed: a value leaf decodes to an account with
  a storage root of its own, an account leaf has a 32-byte code hash, and every
  leaf of its storage is a value leaf that decodes to a 256-bit number.\<close>

theorem eth_leaves_typed:
  assumes "eth_setup P A S ops" and "eth_hist P ops codes st f"
  shows "\<exists>t. db_inv fz_none P f (es_trie st) t \<and> (\<forall>k l. tlook t k = Some l \<longrightarrow> leaf_typed P l)"
proof -
  have P: "account_rt P" "u256_rt P" using assms(1) by (simp_all add: eth_setup_def)
  obtain t e where H: "state_rel P A S (tlook t) e" "db_inv fz_none P f (es_trie st) t" by (rule eth_hist_rel [OF assms])
  have "leaf_typed P l" if "tlook t k = Some l" for k l
  proof -
    obtain a where a: "a \<in> A" "k = akey P a" using H(1) \<open>tlook t k = Some l\<close> by (auto simp: state_rel_def)
    then have "rel_option (acct_rel P S) (Some l) (e a)" using H(1) \<open>tlook t k = Some l\<close> by (auto simp: state_rel_def)
    then show ?thesis
    proof (cases rule: acct_rel_cases)
      case (nested n b c s g)
      have "case x of LVal v \<Rightarrow> rlp_decode_u256 P v \<noteq> None | LAcct _ _ _ _ \<Rightarrow> False" if x: "tlook s q = Some x" for q x
      proof -
        obtain slot where "slot \<in> S" "q = skey P slot" using nested(4) x by (auto simp: slots_rel_def)
        then obtain v where "x = LVal (storage_value_rlp P v)" using nested(4) x by (auto simp: slots_rel_def)
        then show ?thesis using P(2) by (simp add: u256_rt_def storage_value_rlp_def)
      qed
      then show ?thesis using nested by simp
    next
      case (opaque b)
      then show ?thesis using decode_typed_acct [OF P(1) opaque(3)] by simp
    qed simp
  qed
  then show ?thesis using H(2) by blast
qed

theorem eth_leaves_typed_witness:
  "\<exists>st f t. eth_hist demo demo_writes2 [] st f \<and> db_inv fz_none demo f (es_trie st) t \<and> (\<forall>k l. tlook t k = Some l \<longrightarrow> leaf_typed demo l)"
proof -
  obtain st f where H: "eth_hist demo demo_writes2 [] st f" using demo_eth_hist by blast
  from eth_leaves_typed [OF demo_setup H] H show ?thesis by blast
qed

text \<open>C25: the bytecode log survives a crash: a file cut at any point opens, the codes whose
  records are whole are returned by their hashes and no other hash finds a code.\<close>

theorem code_log_recovers:
  assumes "keccak_len P" and "code_hist P codes cs"
  shows "(\<forall>c \<in> set (whole n codes). keccak256 P c \<noteq> EMPTY_CODE_HASH \<longrightarrow>
      code_get (code_open (take n (cs_file cs)) False) (keccak256 P c) = Ok (Some c)) \<and>
    (\<forall>h. h \<notin> keccak256 P ` set (whole n codes) \<longrightarrow> h \<noteq> EMPTY_CODE_HASH \<longrightarrow>
      code_get (code_open (take n (cs_file cs)) False) h = Ok None)"
  using code_get_rel [OF assms(1) code_open_rel [OF assms(1) code_hist_rel [OF assms(2,1)]]] by blast

text \<open>Two codes, the second record torn.\<close>

lemma demo_digests: "hd (keccak256 demo [1]) = 1" "hd (keccak256 demo [2, 3]) = 2" "hd EMPTY_CODE_HASH = 0xc5"
  by (simp_all add: demo_def demo_keccak_def EMPTY_CODE_HASH_def)

lemma code_put_hash: "\<exists>cs'. code_put P cs c = (keccak256 P c, cs')"
  using prod.collapse [of "code_put P cs c"] by (simp add: code_put_def Let_def split: if_splits)

lemma demo_codes: "\<exists>cs. code_hist demo [[1], [2, 3]] cs"
proof -
  let ?h = "\<lambda>c. keccak256 demo c" and ?c0 = "code_open [] True"
  have k: "?h [1] \<noteq> ?h [2, 3]" using demo_digests by auto
  obtain c1 where c1: "code_put demo ?c0 [1] = (?h [1], c1)" using code_put_hash by blast
  have h1: "code_hist demo [[1]] c1" using c_put [OF c_new _ c1] by simp
  obtain c2 where c2: "code_put demo c1 [2, 3] = (?h [2, 3], c2)" using code_put_hash by blast
  show ?thesis using c_put [OF h1 _ c2] k by auto
qed

theorem code_log_recovers_witness:
  "\<exists>cs. code_hist demo [[1], [2, 3]] cs \<and> code_get (code_open (take 40 (cs_file cs)) False) (keccak256 demo [1]) = Ok (Some [1]) \<and>
     code_get (code_open (take 40 (cs_file cs)) False) (keccak256 demo [2, 3]) = Ok None"
proof -
  obtain cs where H: "code_hist demo [[1], [2, 3]] cs" using demo_codes by blast
  have "keccak256 demo [1] \<noteq> EMPTY_CODE_HASH" "keccak256 demo [2, 3] \<noteq> EMPTY_CODE_HASH" "keccak256 demo [2, 3] \<noteq> keccak256 demo [1]"
    using demo_digests by auto
  then show ?thesis using code_log_recovers [OF _ H, of 40] H by auto
qed


end
