(* ===== verification/Block.thy ===== *)
theory Block
  imports Frontier
begin

text \<open>
  Block-level updates of \<^verbatim>\<open>src/lib.rs\<close>: the operations of a block are folded into
  one net update per account (\<^verbatim>\<open>normalize_block\<close>), and a net update is applied to
  the record that holds the account (\<^verbatim>\<open>apply_net_in_record\<close>), which reports the
  operations that undo it.
\<close>

section \<open>Operations and net updates\<close>

datatype state_op =
    SoSetAccount u64 u256 bytes
  | SoDeleteAccount
  | SoWipeStorage
  | SoSetStorage bytes bytes
  | SoDeleteStorage bytes

datatype account_outcome = AoKeep | AoSet u64 u256 bytes | AoDelete

record net_update =
  nu_wipe :: bool
  nu_account :: account_outcome
  nu_slots :: "(bytes \<times> bytes option) list"

definition creates :: "net_update \<Rightarrow> bool" where
  "creates upd = ((case nu_account upd of AoSet _ _ _ \<Rightarrow> True | _ \<Rightarrow> False) \<or> (\<exists>(k, v) \<in> set (nu_slots upd). v \<noteq> None))"

section \<open>Normalization\<close>

text \<open>The update of an account, with the index of its slot list (\<^verbatim>\<open>slot_idx\<close> of one key).\<close>

definition nu_new :: net_update where
  "nu_new = \<lparr>nu_wipe = False, nu_account = AoKeep, nu_slots = []\<rparr>"

type_synonym slot_index = "bytes \<times> bytes \<rightharpoonup> nat"

definition put_slot :: "bytes \<Rightarrow> bytes \<Rightarrow> bytes option \<Rightarrow> net_update \<Rightarrow> slot_index \<Rightarrow> (net_update \<times> slot_index) res" where
  "put_slot key slot v upd idx =
     (case idx (key, slot) of
        Some i \<Rightarrow> res_bind (index (nu_slots upd) i) (\<lambda>(k, _).
          Ok (upd\<lparr>nu_slots := (nu_slots upd)[i := (k, v)]\<rparr>, idx))
      | None \<Rightarrow> Ok (upd\<lparr>nu_slots := nu_slots upd @ [(slot, v)]\<rparr>, idx((key, slot) \<mapsto> length (nu_slots upd))))"

definition drain_slots :: "bytes \<Rightarrow> net_update \<Rightarrow> slot_index \<Rightarrow> net_update \<times> slot_index" where
  "drain_slots key upd idx = (upd\<lparr>nu_slots := []\<rparr>, fold (\<lambda>(k, _) idx. idx((key, k) := None)) (nu_slots upd) idx)"

fun norm_op :: "bytes \<Rightarrow> state_op \<Rightarrow> net_update \<Rightarrow> slot_index \<Rightarrow> (net_update \<times> slot_index) res" where
  "norm_op key (SoSetAccount nonce balance code_hash) upd idx = Ok (upd\<lparr>nu_account := AoSet nonce balance code_hash\<rparr>, idx)"
| "norm_op key SoDeleteAccount upd idx = Ok (drain_slots key (upd\<lparr>nu_account := AoDelete, nu_wipe := True\<rparr>) idx)"
| "norm_op key SoWipeStorage upd idx = Ok (drain_slots key (upd\<lparr>nu_wipe := True\<rparr>) idx)"
| "norm_op key (SoSetStorage slot value) upd idx =
     put_slot key slot (Some value) (if nu_account upd = AoDelete then upd\<lparr>nu_account := AoSet 0 0 EMPTY_CODE_HASH\<rparr> else upd) idx"
| "norm_op key (SoDeleteStorage slot) upd idx =
     (if nu_account upd = AoDelete then Ok (upd, idx) else put_slot key slot None upd idx)"

text \<open>The \<^verbatim>\<open>BTreeMap\<close> is an association list in key order.\<close>

definition norm_step :: "(bytes \<times> net_update) list \<times> slot_index \<Rightarrow> bytes \<times> state_op \<Rightarrow> ((bytes \<times> net_update) list \<times> slot_index) res" where
  "norm_step = (\<lambda>(m, idx) (key, op).
     res_map (\<lambda>(upd, idx). (bt_insert key upd m, idx))
       (norm_op key op (case map_of m key of Some upd \<Rightarrow> upd | None \<Rightarrow> nu_new) idx))"

definition normalize_block :: "(bytes \<times> state_op) list \<Rightarrow> (bytes \<times> net_update) list res" where
  "normalize_block ops = res_map fst (res_foldM norm_step ([], Map.empty) ops)"

section \<open>Collecting storage\<close>

text \<open>\<open>chunks(2)\<close> with a fixed 32-byte result: a 33rd pair is out of range.\<close>

fun pack_key :: "nibs \<Rightarrow> bytes res" where
  "pack_key [] = Ok []"
| "pack_key [a] = Err (Panic ''index out of bounds'')"
| "pack_key (a # b # rest) = res_map (Cons (push_bit 4 a OR b)) (pack_key rest)"

definition nibbles_to_key :: "nibs \<Rightarrow> bytes res" where
  "nibbles_to_key nibbles =
     (if 64 < length nibbles then Err (Panic ''index out of bounds'')
      else res_map (\<lambda>k. k @ replicate (32 - length k) 0) (pack_key nibbles))"

type_synonym slot_list = "(bytes \<times> bytes) list"

fun collect_slots :: "(node \<Rightarrow> nibs \<Rightarrow> slot_list res) \<Rightarrow> node option list \<Rightarrow> nat \<Rightarrow> nibs \<Rightarrow> slot_list res" where
  "collect_slots rec [] i path = Ok []"
| "collect_slots rec (c # cs) i path =
     res_bind (case c of None \<Rightarrow> Ok [] | Some c \<Rightarrow> rec c (path @ [word_of_nat i])) (\<lambda>out.
       res_map ((@) out) (collect_slots rec cs (i + 1) path))"

primrec collect_storage_subtree :: "prims \<Rightarrow> nat \<Rightarrow> node \<Rightarrow> nibs \<Rightarrow> slot_list res" where
  "collect_storage_subtree P 0 = (\<lambda>nd path. Err NoFuel)"
| "collect_storage_subtree P (Suc f) = (\<lambda>nd path.
     (case nd of
        Empty \<Rightarrow> Ok []
      | Leaf lp value nref \<Rightarrow> res_map (\<lambda>k. [(k, value)]) (nibbles_to_key (path @ lp))
      | Extension ep child nref \<Rightarrow> collect_storage_subtree P f child (path @ ep)
      | Branch children nref \<Rightarrow> collect_slots (collect_storage_subtree P f) children 0 path
      | Raw buf off len nref \<Rightarrow> res_bind (parse_node_lazy P buf off len) (\<lambda>n. collect_storage_subtree P f n path)
      | _ \<Rightarrow> Err (Panic ''storage subtrees contain only value nodes'')))"

declare collect_storage_subtree.simps(2) [simp del]

primrec node_collect_storage :: "prims \<Rightarrow> nat \<Rightarrow> node \<Rightarrow> nibs \<Rightarrow> nat \<Rightarrow> slot_list res" where
  "node_collect_storage P 0 = (\<lambda>nd nibbles depth. Err NoFuel)"
| "node_collect_storage P (Suc f) = (\<lambda>nd nibbles depth.
     (case nd of
        Empty \<Rightarrow> Ok []
      | Leaf path value nref \<Rightarrow> Ok []
      | Account path nonce balance code_hash storage storage_root nref \<Rightarrow>
          res_bind (from_idx nibbles depth) (\<lambda>rest.
            if rest = path then collect_storage_subtree P f storage [] else Ok [])
      | Extension path child nref \<Rightarrow>
          res_bind (from_idx nibbles depth) (\<lambda>rest.
            if starts_with rest path then node_collect_storage P f child nibbles (depth + length path) else Ok [])
      | Branch children nref \<Rightarrow>
          res_bind (index nibbles depth) (\<lambda>nib.
          res_bind (index children (unat nib)) (\<lambda>c.
            case c of Some child \<Rightarrow> node_collect_storage P f child nibbles (depth + 1) | None \<Rightarrow> Ok []))
      | Raw buf off len nref \<Rightarrow> res_bind (parse_node_lazy P buf off len) (\<lambda>n. node_collect_storage P f n nibbles depth)
      | Overflow ptr root \<Rightarrow> Err (Panic ''on-disk Overflow under promote-on-max'')))"

declare node_collect_storage.simps(2) [simp del]

definition node_prior_account :: "prims \<Rightarrow> (disk_ptr \<Rightarrow> disk_subtree res) \<Rightarrow> node \<Rightarrow> nibs \<Rightarrow> nat \<Rightarrow> account option res" where
  "node_prior_account P rd nd nibbles depth =
     res_bind (node_get P rd REC_FUEL nd nibbles depth) (\<lambda>v.
       (case v of
          None \<Rightarrow> Ok None
        | Some rlp \<Rightarrow> (case account_decode P rlp of
            Some a \<Rightarrow> Ok (Some a)
          | None \<Rightarrow> Err (Bail ''account leaf did not decode''))))"

section \<open>Applying a net update to a record\<close>

type_synonym inverse = "(bytes \<times> state_op) list"

text \<open>The slot loop; the flag says whether the record changed.\<close>

fun apply_slots :: "prims \<Rightarrow> (disk_ptr \<Rightarrow> disk_subtree res) \<Rightarrow> nat \<Rightarrow> bytes \<Rightarrow> bool \<Rightarrow> (bytes \<times> bytes option) list \<Rightarrow>
    node \<times> bool \<times> inverse \<Rightarrow> (node \<times> bool \<times> inverse) res" where
  "apply_slots P rd depth key created [] s = Ok s"
| "apply_slots P rd depth key created ((skey, val) # slots) (nd, changed, undo) =
     res_bind (node_get_storage P rd REC_FUEL nd (key_nibbles key) depth skey) (\<lambda>prior_slot.
       (let undo = (if created then undo
                   else (case prior_slot of
                           Some pv \<Rightarrow> undo @ [(key, SoSetStorage skey pv)]
                         | None \<Rightarrow> (if val = None then undo else undo @ [(key, SoDeleteStorage skey)]))) in
        (case val of
           Some v \<Rightarrow> res_bind (record_node_insert P REC_FUEL nd depth key (OpStorage skey v)) (\<lambda>nd.
             apply_slots P rd depth key created slots (nd, True, undo))
         | None \<Rightarrow> res_bind (record_node_delete P REC_FUEL nd depth key (DelStorage skey)) (\<lambda>(nd, out).
             apply_slots P rd depth key created slots (nd, changed \<or> out \<noteq> Absent, undo)))))"

definition apply_wipe :: "prims \<Rightarrow> node \<Rightarrow> nat \<Rightarrow> bytes \<Rightarrow> account option \<Rightarrow> inverse \<Rightarrow> (node \<times> bool \<times> inverse) res" where
  "apply_wipe P nd depth key prior undo =
     res_bind (node_collect_storage P REC_FUEL nd (key_nibbles key) depth) (\<lambda>slots.
       (let undo = (if prior = None then undo
                   else undo @ [(key, SoWipeStorage)] @ map (\<lambda>(skey, v). (key, SoSetStorage skey v)) slots);
            opaque_nonempty = (slots = [] \<and> (case prior of None \<Rightarrow> False | Some p \<Rightarrow> a_storage_root p \<noteq> EMPTY_ROOT)) in
        if slots \<noteq> [] \<or> opaque_nonempty
        then res_map (\<lambda>(nd, out). (nd, out \<noteq> Absent, undo)) (record_node_delete P REC_FUEL nd depth key DelWipeStorage)
        else Ok (nd, False, undo)))"

definition apply_net_in_record :: "prims \<Rightarrow> (disk_ptr \<Rightarrow> disk_subtree res) \<Rightarrow> node \<Rightarrow> nat \<Rightarrow> bytes \<Rightarrow> net_update \<Rightarrow> inverse \<Rightarrow>
    (node \<times> node_delete \<times> inverse) res" where
  "apply_net_in_record P rd nd depth key upd undo =
     res_bind (node_prior_account P rd nd (key_nibbles key) depth) (\<lambda>prior.
       (case nu_account upd of
          AoDelete \<Rightarrow>
            (case prior of
               None \<Rightarrow> Ok (nd, Absent, undo)
             | Some pf \<Rightarrow>
                 res_bind (node_collect_storage P REC_FUEL nd (key_nibbles key) depth) (\<lambda>slots.
                   (let undo = undo @ [(key, SoWipeStorage), (key, SoSetAccount (a_nonce pf) (a_balance pf) (a_code_hash pf))] @
                          map (\<lambda>(skey, v). (key, SoSetStorage skey v)) slots in
                    res_map (\<lambda>(nd, out). (nd, out, undo)) (record_node_delete P REC_FUEL nd depth key DelAccount))))
        | outcome \<Rightarrow>
            res_bind (if nu_wipe upd then apply_wipe P nd depth key prior undo else Ok (nd, False, undo)) (\<lambda>(nd, changed, undo).
            res_bind (case outcome of
                AoSet nonce balance code_hash \<Rightarrow>
                  (let undo = (case prior of None \<Rightarrow> undo
                                | Some pf \<Rightarrow> undo @ [(key, SoSetAccount (a_nonce pf) (a_balance pf) (a_code_hash pf))]) in
                   res_map (\<lambda>nd. (nd, True, undo)) (record_node_insert P REC_FUEL nd depth key (OpAccount nonce balance code_hash)))
              | _ \<Rightarrow> Ok (nd, changed, undo)) (\<lambda>s.
            res_map (\<lambda>(nd, changed, undo).
                (nd, if changed then Changed else Absent, if prior = None \<and> changed then undo @ [(key, SoDeleteAccount)] else undo))
              (apply_slots P rd depth key (prior = None) (nu_slots upd) s)))))"

end
