(* ===== verification/BlockNorm.thy ===== *)
theory BlockNorm
  imports Block
begin

text \<open>
  What the operations of a block mean, one after the other, and what a net update
  means; normalization turns the one into the other.
\<close>

section \<open>Accounts\<close>

text \<open>The fields and the slots of an account, absent or structured.\<close>

type_synonym acct_view = "(u64 \<times> u256 \<times> bytes \<times> (bytes \<rightharpoonup> bytes)) option"

definition empty_acct :: acct_view where
  "empty_acct = Some (0, 0, EMPTY_CODE_HASH, Map.empty)"

definition slots_of :: "acct_view \<Rightarrow> (bytes \<rightharpoonup> bytes)" where
  "slots_of a = (case a of None \<Rightarrow> Map.empty | Some (n, b, c, s) \<Rightarrow> s)"

definition put_view :: "bytes \<Rightarrow> bytes \<Rightarrow> acct_view \<Rightarrow> acct_view" where
  "put_view k v a = (case a of None \<Rightarrow> Some (0, 0, EMPTY_CODE_HASH, [k \<mapsto> v]) | Some (n, b, c, s) \<Rightarrow> Some (n, b, c, s(k \<mapsto> v)))"

definition del_view :: "bytes \<Rightarrow> acct_view \<Rightarrow> acct_view" where
  "del_view k a = map_option (\<lambda>(n, b, c, s). (n, b, c, s(k := None))) a"

definition wipe_view :: "acct_view \<Rightarrow> acct_view" where
  "wipe_view a = map_option (\<lambda>(n, b, c, s). (n, b, c, Map.empty)) a"

fun so_spec :: "state_op \<Rightarrow> acct_view \<Rightarrow> acct_view" where
  "so_spec (SoSetAccount n b c) a = Some (n, b, c, slots_of a)"
| "so_spec SoDeleteAccount a = None"
| "so_spec SoWipeStorage a = wipe_view a"
| "so_spec (SoSetStorage k v) a = put_view k v a"
| "so_spec (SoDeleteStorage k) a = del_view k a"

fun slot_spec :: "bytes \<times> bytes option \<Rightarrow> acct_view \<Rightarrow> acct_view" where
  "slot_spec (k, Some v) a = put_view k v a"
| "slot_spec (k, None) a = del_view k a"

definition fields_spec :: "net_update \<Rightarrow> acct_view \<Rightarrow> acct_view" where
  "fields_spec upd a =
     (let a = (if nu_wipe upd then wipe_view a else a)
      in case nu_account upd of AoSet n b c \<Rightarrow> Some (n, b, c, slots_of a) | _ \<Rightarrow> a)"

text \<open>The fixed order of a net update: wipe, outcome, slots.\<close>

definition net_spec :: "net_update \<Rightarrow> acct_view \<Rightarrow> acct_view" where
  "net_spec upd a = (if nu_account upd = AoDelete then None else fold slot_spec (nu_slots upd) (fields_spec upd a))"

lemma view_simps [simp]:
  "put_view k v None = Some (0, 0, EMPTY_CODE_HASH, [k \<mapsto> v])" "put_view k v (Some (n, b, c, s)) = Some (n, b, c, s(k \<mapsto> v))"
  "del_view k None = None" "del_view k (Some (n, b, c, s)) = Some (n, b, c, s(k := None))"
  "wipe_view None = None" "wipe_view (Some (n, b, c, s)) = Some (n, b, c, Map.empty)"
  "slots_of None = Map.empty" "slots_of (Some (n, b, c, s)) = s"
  by (simp_all add: put_view_def del_view_def wipe_view_def slots_of_def)

section \<open>Slot lists\<close>

definition overlay :: "(bytes \<rightharpoonup> bytes) \<Rightarrow> (bytes \<times> bytes option) list \<Rightarrow> (bytes \<rightharpoonup> bytes)" where
  "overlay s slots = (\<lambda>k. case map_of slots k of None \<Rightarrow> s k | Some v \<Rightarrow> v)"

definition writes :: "(bytes \<times> bytes option) list \<Rightarrow> bool" where
  "writes slots = (\<exists>(k, v) \<in> set slots. v \<noteq> None)"

lemma overlay_Nil [simp]: "overlay s [] = s"
  by (simp add: overlay_def)

lemma overlay_Cons:
  assumes "k \<notin> fst ` set slots"
  shows "overlay s ((k, v) # slots) = overlay (s(k := v)) slots"
proof -
  have "map_of slots k = None" using assms by (simp add: map_of_eq_None_iff)
  then show ?thesis by (auto simp: overlay_def fun_eq_iff split: option.splits)
qed

lemma fold_slots_Some:
  "distinct (map fst slots) \<Longrightarrow> fold slot_spec slots (Some (n, b, c, s)) = Some (n, b, c, overlay s slots)"
proof (induction slots arbitrary: s)
  case (Cons x slots)
  obtain k v where x: "x = (k, v)" by (cases x)
  then show ?case using Cons by (cases v) (simp_all add: overlay_Cons)
qed simp

lemma fold_slots_None:
  "distinct (map fst slots) \<Longrightarrow> fold slot_spec slots None =
    (if writes slots then Some (0, 0, EMPTY_CODE_HASH, overlay Map.empty slots) else None)"
proof (induction slots)
  case (Cons x slots)
  obtain k v where x: "x = (k, v)" by (cases x)
  show ?case
  proof (cases v)
    case None
    have "(Map.empty :: bytes \<rightharpoonup> bytes)(k := None) = Map.empty" by auto
    then show ?thesis using Cons x None by (auto simp: overlay_Cons writes_def)
  next
    case (Some w)
    then show ?thesis using Cons.prems x by (auto simp: fold_slots_Some overlay_Cons writes_def)
  qed
qed (simp add: writes_def)

lemma overlay_no_writes: "\<not> writes slots \<Longrightarrow> overlay Map.empty slots = Map.empty"
proof
  fix k
  assume n: "\<not> writes slots"
  have "v = None" if "map_of slots k = Some v" for v using map_of_SomeD [OF that] n by (auto simp: writes_def)
  then show "overlay Map.empty slots k = Map.empty k" by (auto simp: overlay_def split: option.splits)
qed

lemma net_spec_closed:
  assumes "distinct (map fst (nu_slots upd))" and "nu_account upd \<noteq> AoDelete"
  shows "net_spec upd a = (case fields_spec upd a of
      None \<Rightarrow> if writes (nu_slots upd) then Some (0, 0, EMPTY_CODE_HASH, overlay Map.empty (nu_slots upd)) else None
    | Some (n, b, c, s) \<Rightarrow> Some (n, b, c, overlay s (nu_slots upd)))"
  using assms by (auto simp: net_spec_def fold_slots_None fold_slots_Some split: option.splits)

text \<open>Setting a slot of a list with distinct keys.\<close>

definition set_slot :: "bytes \<Rightarrow> bytes option \<Rightarrow> (bytes \<times> bytes option) list \<Rightarrow> (bytes \<times> bytes option) list" where
  "set_slot k v slots = (if k \<in> fst ` set slots then map (\<lambda>(k', v'). (k', if k' = k then v else v')) slots else slots @ [(k, v)])"

lemma set_slot_keys: "map fst (set_slot k v slots) = (if k \<in> fst ` set slots then map fst slots else map fst slots @ [k])"
  by (simp add: set_slot_def comp_def case_prod_unfold)

lemma set_slot_distinct: "distinct (map fst slots) \<Longrightarrow> distinct (map fst (set_slot k v slots))"
  unfolding set_slot_keys by simp

lemma map_of_set_slot: "map_of (set_slot k v slots) = (map_of slots)(k \<mapsto> v)"
proof -
  have "map_of (map (\<lambda>(k', v'). (k', if k' = k then v else v')) slots) q = (if q = k then map_option (\<lambda>_. v) (map_of slots k) else map_of slots q)" for q
    by (induction slots) auto
  moreover have "k \<in> fst ` set slots \<Longrightarrow> map_of slots k \<noteq> None" by (simp add: map_of_eq_None_iff)
  moreover have "k \<notin> fst ` set slots \<Longrightarrow> map_of slots k = None" by (simp add: map_of_eq_None_iff)
  ultimately show ?thesis by (auto simp: set_slot_def fun_eq_iff map_add_def split: option.splits)
qed

lemma overlay_set_slot: "overlay s (set_slot k v slots) = (overlay s slots)(k := v)"
  by (auto simp: overlay_def map_of_set_slot fun_eq_iff)

lemma writes_map: "distinct (map fst slots) \<Longrightarrow> writes slots = (\<exists>k v. map_of slots k = Some (Some v))"
  by (force simp: writes_def)

lemma set_slot_nth:
  assumes "distinct (map fst slots)" and "i < length slots" and "fst (slots ! i) = k"
  shows "slots[i := (k, v)] = set_slot k v slots"
proof -
  have k: "k \<in> fst ` set slots" using assms(2,3) by force
  have "slots[i := (k, v)] = map (\<lambda>(k', v'). (k', if k' = k then v else v')) slots"
  proof (rule nth_equalityI)
    fix j
    assume "j < length (slots[i := (k, v)])"
    then show "slots[i := (k, v)] ! j = map (\<lambda>(k', v'). (k', if k' = k then v else v')) slots ! j"
      using assms nth_eq_iff_index_eq [OF assms(1), of i j] by (cases "slots ! j") (auto simp: nth_list_update)
  qed simp
  then show ?thesis using k by (simp add: set_slot_def)
qed

section \<open>Normalization\<close>

definition upd_ok :: "net_update \<Rightarrow> bool" where
  "upd_ok upd = (distinct (map fst (nu_slots upd)) \<and> (nu_account upd = AoDelete \<longrightarrow> nu_slots upd = [] \<and> nu_wipe upd))"

definition idx_ok :: "slot_index \<Rightarrow> bytes \<Rightarrow> net_update \<Rightarrow> bool" where
  "idx_ok idx key upd = (\<forall>slot i. idx (key, slot) = Some i \<longleftrightarrow> i < length (nu_slots upd) \<and> fst (nu_slots upd ! i) = slot)"

text \<open>The step without the index.\<close>

fun norm_upd :: "state_op \<Rightarrow> net_update \<Rightarrow> net_update" where
  "norm_upd (SoSetAccount n b c) upd = upd\<lparr>nu_account := AoSet n b c\<rparr>"
| "norm_upd SoDeleteAccount upd = upd\<lparr>nu_account := AoDelete, nu_wipe := True, nu_slots := []\<rparr>"
| "norm_upd SoWipeStorage upd = upd\<lparr>nu_wipe := True, nu_slots := []\<rparr>"
| "norm_upd (SoSetStorage k v) upd =
     (if nu_account upd = AoDelete then upd\<lparr>nu_account := AoSet 0 0 EMPTY_CODE_HASH\<rparr> else upd)\<lparr>nu_slots := set_slot k (Some v) (nu_slots upd)\<rparr>"
| "norm_upd (SoDeleteStorage k) upd =
     (if nu_account upd = AoDelete then upd else upd\<lparr>nu_slots := set_slot k None (nu_slots upd)\<rparr>)"

definition others_same :: "bytes \<Rightarrow> slot_index \<Rightarrow> slot_index \<Rightarrow> bool" where
  "others_same key idx idx' = (\<forall>k slot. k \<noteq> key \<longrightarrow> idx' (k, slot) = idx (k, slot))"

lemma put_slot_ok:
  assumes "idx_ok idx key upd" and "distinct (map fst (nu_slots upd))"
  shows "\<exists>idx'. put_slot key slot v upd idx = Ok (upd\<lparr>nu_slots := set_slot slot v (nu_slots upd)\<rparr>, idx') \<and>
    idx_ok idx' key (upd\<lparr>nu_slots := set_slot slot v (nu_slots upd)\<rparr>) \<and> others_same key idx idx'"
proof (cases "idx (key, slot)")
  case None
  have n: "slot \<notin> fst ` set (nu_slots upd)"
  proof
    assume "slot \<in> fst ` set (nu_slots upd)"
    then obtain i where "i < length (nu_slots upd)" "fst (nu_slots upd ! i) = slot" by (auto simp: in_set_conv_nth)
    then have "idx (key, slot) = Some i" using assms(1) unfolding idx_ok_def by blast
    then show False using None by simp
  qed
  then have "set_slot slot v (nu_slots upd) = nu_slots upd @ [(slot, v)]" by (simp add: set_slot_def)
  moreover have "fst (nu_slots upd ! i) \<noteq> slot" if "i < length (nu_slots upd)" for i using n that by force
  ultimately show ?thesis using assms(1) None
    by (auto simp: put_slot_def idx_ok_def others_same_def nth_append less_Suc_eq)
next
  case (Some i)
  then have i: "i < length (nu_slots upd)" "fst (nu_slots upd ! i) = slot" using assms(1) by (auto simp: idx_ok_def)
  have s: "(nu_slots upd)[i := (slot, v)] = set_slot slot v (nu_slots upd)" by (rule set_slot_nth [OF assms(2) i])
  obtain w where w: "nu_slots upd ! i = (slot, w)" using i(2) by (cases "nu_slots upd ! i") auto
  have k: "map fst (set_slot slot v (nu_slots upd)) = map fst (nu_slots upd)"
    unfolding s [symmetric] map_update using i by (metis fst_conv list_update_id nth_map)
  then have "length (set_slot slot v (nu_slots upd)) = length (nu_slots upd)" by (metis length_map)
  moreover from this have "fst (set_slot slot v (nu_slots upd) ! j) = fst (nu_slots upd ! j)" if "j < length (nu_slots upd)" for j
    using arg_cong [OF k, of "\<lambda>xs. xs ! j"] that by simp
  ultimately have "idx_ok idx key (upd\<lparr>nu_slots := set_slot slot v (nu_slots upd)\<rparr>)" using assms(1) by (auto simp: idx_ok_def)
  then show ?thesis using Some i w s by (simp add: put_slot_def index_def others_same_def)
qed

lemma drain_index: "fold (\<lambda>(k, _) idx. idx((key, k) := None)) slots idx (q, s) = (if q = key \<and> s \<in> fst ` set slots then None else idx (q, s))"
  by (induction slots arbitrary: idx) auto

lemma drain_ok:
  assumes "idx_ok idx key upd"
  shows "\<exists>idx'. drain_slots key upd idx = (upd\<lparr>nu_slots := []\<rparr>, idx') \<and> idx_ok idx' key (upd\<lparr>nu_slots := []\<rparr>) \<and> others_same key idx idx'"
proof -
  have "idx (key, s) = None" if "s \<notin> fst ` set (nu_slots upd)" for s
  proof (cases "idx (key, s)")
    case (Some i)
    then have "i < length (nu_slots upd)" "fst (nu_slots upd ! i) = s" using assms by (auto simp: idx_ok_def)
    then show ?thesis using that by force
  qed simp
  then show ?thesis by (auto simp: drain_slots_def idx_ok_def others_same_def drain_index)
qed

lemma norm_op_ok:
  assumes "upd_ok upd" and I: "idx_ok idx key upd"
  shows "\<exists>idx'. norm_op key op upd idx = Ok (norm_upd op upd, idx') \<and> idx_ok idx' key (norm_upd op upd) \<and> others_same key idx idx'"
proof (cases op)
  case SoDeleteAccount
  have "idx_ok idx key (upd\<lparr>nu_account := AoDelete, nu_wipe := True\<rparr>)" using I by (simp add: idx_ok_def)
  from drain_ok [OF this] show ?thesis using SoDeleteAccount by auto
next
  case SoWipeStorage
  have "idx_ok idx key (upd\<lparr>nu_wipe := True\<rparr>)" using I by (simp add: idx_ok_def)
  from drain_ok [OF this] show ?thesis using SoWipeStorage by auto
next
  case (SoSetStorage k v)
  let ?u = "if nu_account upd = AoDelete then upd\<lparr>nu_account := AoSet 0 0 EMPTY_CODE_HASH\<rparr> else upd"
  have u: "idx_ok idx key ?u" "distinct (map fst (nu_slots ?u))" "nu_slots ?u = nu_slots upd" using assms by (auto simp: idx_ok_def upd_ok_def)
  show ?thesis using put_slot_ok [OF u(1,2), of k "Some v"] unfolding SoSetStorage norm_op.simps norm_upd.simps u(3) .
next
  case (SoDeleteStorage k)
  then show ?thesis using put_slot_ok [OF I, of k None] assms by (auto simp: upd_ok_def others_same_def)
qed (use I in \<open>auto simp: idx_ok_def others_same_def\<close>)

lemma norm_upd_ok: "upd_ok upd \<Longrightarrow> upd_ok (norm_upd op upd)"
  by (cases op) (auto simp: upd_ok_def set_slot_distinct)

text \<open>
  A net update follows the operations it was made of, on every account: the results
  agree, or the account did not exist and only writes of slots have created it.
\<close>

definition follows :: "net_update \<Rightarrow> acct_view \<Rightarrow> acct_view \<Rightarrow> bool" where
  "follows upd a x = (x = net_spec upd a \<or>
     (a = None \<and> nu_account upd = AoKeep \<and> x = Some (0, 0, EMPTY_CODE_HASH, overlay Map.empty (nu_slots upd))))"

lemma fields_spec_simps:
  "nu_account upd = AoKeep \<Longrightarrow> fields_spec upd None = None"
  "nu_account upd = AoKeep \<Longrightarrow> fields_spec upd (Some (n, b, c, s)) = Some (n, b, c, if nu_wipe upd then Map.empty else s)"
  "nu_account upd = AoSet n' b' c' \<Longrightarrow> fields_spec upd a = Some (n', b', c', if nu_wipe upd then Map.empty else slots_of a)"
  by (auto simp: fields_spec_def Let_def slots_of_def wipe_view_def split: option.splits)

lemma net_spec_cases:
  assumes "upd_ok upd"
  shows "nu_account upd = AoDelete \<Longrightarrow> net_spec upd a = None"
    and "nu_account upd = AoKeep \<Longrightarrow> net_spec upd None = (if writes (nu_slots upd) then Some (0, 0, EMPTY_CODE_HASH, overlay Map.empty (nu_slots upd)) else None)"
    and "nu_account upd = AoKeep \<Longrightarrow> net_spec upd (Some (n, b, c, s)) = Some (n, b, c, overlay (if nu_wipe upd then Map.empty else s) (nu_slots upd))"
    and "nu_account upd = AoSet n' b' c' \<Longrightarrow> net_spec upd a = Some (n', b', c', overlay (if nu_wipe upd then Map.empty else slots_of a) (nu_slots upd))"
  using assms by (auto simp: net_spec_closed upd_ok_def fields_spec_simps) (simp add: net_spec_def)

lemma follows_step:
  assumes "upd_ok upd" and "follows upd a x"
  shows "follows (norm_upd op upd) a (so_spec op x)"
proof -
  note N = net_spec_cases [OF assms(1)] and N' = net_spec_cases [OF norm_upd_ok [OF assms(1)], of op]
  have w: "overlay Map.empty (nu_slots upd) = Map.empty" if "\<not> writes (nu_slots upd)" by (rule overlay_no_writes [OF that])
  have d: "overlay s (set_slot k v (nu_slots upd)) = (overlay s (nu_slots upd))(k := v)" for s k v by (rule overlay_set_slot)
  consider "nu_account upd = AoDelete" "nu_slots upd = []" "nu_wipe upd" | n b c where "nu_account upd = AoSet n b c"
    | "nu_account upd = AoKeep" "a \<noteq> None" | "nu_account upd = AoKeep" "a = None"
    using assms(1) by (cases "nu_account upd"; cases a) (auto simp: upd_ok_def)
  then show ?thesis
  proof cases
    case 1
    then have "x = None" using assms(2) N(1) by (auto simp: follows_def)
    then show ?thesis using 1 N' by (cases op) (auto simp: follows_def set_slot_def overlay_def)
  next
    case (2 n b c)
    then have "x = Some (n, b, c, overlay (if nu_wipe upd then Map.empty else slots_of a) (nu_slots upd))"
      using assms(2) N(4) by (auto simp: follows_def)
    then show ?thesis using 2 N' by (cases op) (auto simp: follows_def d)
  next
    case 3
    then obtain n b c s where a: "a = Some (n, b, c, s)" by auto
    then have "x = Some (n, b, c, overlay (if nu_wipe upd then Map.empty else s) (nu_slots upd))"
      using assms(2) 3 N(3) by (auto simp: follows_def)
    then show ?thesis using 3 a N' by (cases op) (auto simp: follows_def d)
  next
    case 4
    consider "x = Some (0, 0, EMPTY_CODE_HASH, overlay Map.empty (nu_slots upd))" | "x = None" "\<not> writes (nu_slots upd)"
      using assms(2) 4 N(2) by (auto simp: follows_def split: if_splits)
    then show ?thesis
    proof cases
      case 1
      then show ?thesis using 4 N' by (cases op) (auto simp: follows_def d)
    next
      case 2
      have "\<not> writes (set_slot k None (nu_slots upd))" for k
        using 2(2) by (auto simp: set_slot_def writes_def split: if_splits)
      then show ?thesis using 4 2 N' w [OF 2(2)] by (cases op) (auto simp: follows_def d writes_def)
    qed
  qed
qed

text \<open>The loop over the operations of a block.\<close>

definition upd_of :: "(bytes \<times> net_update) list \<Rightarrow> bytes \<Rightarrow> net_update" where
  "upd_of m key = (case map_of m key of Some upd \<Rightarrow> upd | None \<Rightarrow> nu_new)"

definition ops_of :: "(bytes \<times> state_op) list \<Rightarrow> bytes \<Rightarrow> state_op list" where
  "ops_of ops key = map snd (filter (\<lambda>(k, _). k = key) ops)"

definition norm_inv :: "(bytes \<times> state_op) list \<Rightarrow> (bytes \<times> net_update) list \<times> slot_index \<Rightarrow> bool" where
  "norm_inv ops = (\<lambda>(m, idx). sorted_keys m \<and> (\<forall>key. map_of m key = None \<longleftrightarrow> ops_of ops key = []) \<and>
     (\<forall>key. upd_of m key = fold norm_upd (ops_of ops key) nu_new \<and> upd_ok (upd_of m key) \<and> idx_ok idx key (upd_of m key) \<and>
       (\<forall>a. follows (upd_of m key) a (fold so_spec (ops_of ops key) a))))"

lemma ops_of_snoc: "ops_of (ops @ [(k, op)]) key = (if k = key then ops_of ops key @ [op] else ops_of ops key)"
  by (simp add: ops_of_def)

lemma norm_step_inv:
  assumes "norm_inv ops s"
  shows "\<exists>s'. norm_step s (key, op) = Ok s' \<and> norm_inv (ops @ [(key, op)]) s'"
proof -
  obtain m idx where s: "s = (m, idx)" by (cases s)
  have I: "sorted_keys m" "\<And>k. map_of m k = None \<longleftrightarrow> ops_of ops k = []" "\<And>k. upd_ok (upd_of m k)" "\<And>k. idx_ok idx k (upd_of m k)"
    "\<And>k a. follows (upd_of m k) a (fold so_spec (ops_of ops k) a)"
    "\<And>k. upd_of m k = fold norm_upd (ops_of ops k) nu_new"
    using assms unfolding norm_inv_def s split_conv by blast+
  obtain idx' where o': "norm_op key op (upd_of m key) idx = Ok (norm_upd op (upd_of m key), idx')"
    "idx_ok idx' key (norm_upd op (upd_of m key))" "others_same key idx idx'"
    using norm_op_ok [OF I(3,4)] by blast
  let ?m = "bt_insert key (norm_upd op (upd_of m key)) m"
  have u: "upd_of ?m k = (if k = key then norm_upd op (upd_of m key) else upd_of m k)" for k
    by (simp add: upd_of_def)
  have "norm_step s (key, op) = Ok (?m, idx')" using o'(1) by (simp add: norm_step_def s upd_of_def)
  moreover have "idx_ok idx' k (upd_of ?m k)" for k
    using o'(2,3) I(4) [of k] by (auto simp: u idx_ok_def others_same_def)
  moreover have "follows (upd_of ?m k) a (fold so_spec (ops_of (ops @ [(key, op)]) k) a)" for k a
    using follows_step [OF I(3) I(5), where op = op and a = a, of k] I(5) [of k a] by (auto simp: u ops_of_snoc)
  moreover have "upd_of ?m k = fold norm_upd (ops_of (ops @ [(key, op)]) k) nu_new" for k
    using I(6) [of k] by (auto simp: u ops_of_snoc)
  moreover have "upd_ok (upd_of ?m k)" for k using I(3) norm_upd_ok by (simp add: u)
  moreover have "sorted_keys ?m" "map_of ?m k = None \<longleftrightarrow> ops_of (ops @ [(key, op)]) k = []" for k
    using sorted_bt_insert [OF I(1)] I(2) [of k] by (simp_all add: ops_of_snoc)
  ultimately show ?thesis unfolding norm_inv_def by blast
qed

lemma norm_loop:
  "norm_inv done' s \<Longrightarrow> \<exists>s'. res_foldM norm_step s ops = Ok s' \<and> norm_inv (done' @ ops) s'"
proof (induction ops arbitrary: done' s)
  case (Cons x ops)
  obtain key op where x: "x = (key, op)" by (cases x)
  obtain s1 where s1: "norm_step s (key, op) = Ok s1" "norm_inv (done' @ [(key, op)]) s1" using norm_step_inv [OF Cons.prems] by blast
  then show ?case using Cons.IH [OF s1(2)] by (simp add: x)
qed simp

lemma norm_start: "norm_inv [] ([], Map.empty)"
  by (auto simp: norm_inv_def ops_of_def upd_of_def nu_new_def upd_ok_def idx_ok_def follows_def net_spec_def fields_spec_def)

lemma normalize_block_inv: "\<exists>m idx. normalize_block ops = Ok m \<and> norm_inv ops (m, idx)"
  using norm_loop [OF norm_start, of ops] by (auto simp: normalize_block_def)

end
