(* ===== verification/BlockRecord.thy ===== *)
theory BlockRecord
  imports BlockNorm FrontierDb
begin

text \<open>
  Net updates on a record: the record afterwards stands for the trie with exactly this
  account changed as \<open>net_spec\<close> says, and the reported operations undo the update.
\<close>

section \<open>Keys from nibbles\<close>

fun key_of :: "nibs \<Rightarrow> bytes" where
  "key_of (a # b # rest) = (push_bit 4 a OR b) # key_of rest"
| "key_of _ = []"

lemma join_nibbles:
  fixes a b :: byte
  assumes "a < 16" and "b < 16"
  shows "drop_bit 4 (push_bit 4 a OR b) = a" and "(push_bit 4 a OR b) AND 0x0f = b"
proof -
  have m: "(0x0f :: byte) = mask 4" by (simp add: mask_eq_exp_minus_1)
  have a: "take_bit 4 a = a" and b: "take_bit 4 b = b" using less_mask_eq [of a 4] less_mask_eq [of b 4] assms by (simp_all add: take_bit_eq_mask)
  have ba: "bit a n \<Longrightarrow> n < 4" and bb: "bit b n \<Longrightarrow> n < 4" for n
    using a b by (metis bit_take_bit_iff)+
  show "drop_bit 4 (push_bit 4 a OR b) = a"
    by (rule bit_word_eqI) (use ba bb in \<open>fastforce simp: bit_simps\<close>)
  show "(push_bit 4 a OR b) AND 0x0f = b"
    unfolding m by (rule bit_word_eqI) (use bb in \<open>auto simp: bit_simps\<close>)
qed

lemma split_byte: "push_bit 4 (drop_bit 4 b) OR (b AND 0x0f) = (b :: byte)"
proof -
  have m: "(0x0f :: byte) = mask 4" by (simp add: mask_eq_exp_minus_1)
  show ?thesis unfolding m by (rule bit_word_eqI) (auto simp: bit_simps)
qed

lemma key_of_nibbles [simp]: "key_of (key_nibbles k) = k"
  by (induction k) (simp_all add: key_nibbles_def split_byte)

lemma key_nibbles_inj: "key_nibbles k = key_nibbles k' \<longleftrightarrow> k = k'"
  by (metis key_of_nibbles)

lemma nibbles_key_of: "nibs_ok q \<Longrightarrow> even (length q) \<Longrightarrow> key_nibbles (key_of q) = q"
proof (induction q rule: key_of.induct)
  case (1 a b rest)
  then have "a < 16" "b < 16" "nibs_ok rest" by (auto simp: nibs_ok_def)
  then show ?case using 1 unfolding key_of.simps key_nibbles_def list.map concat.simps
    by (simp only: join_nibbles) simp
qed (auto simp: key_nibbles_def)

lemma length_key_of: "length (key_of q) = length q div 2"
  by (induction q rule: key_of.induct) auto

lemma pack_key_even: "even (length q) \<Longrightarrow> pack_key q = Ok (key_of q)"
  by (induction q rule: pack_key.induct) auto

lemma nibbles_to_key_64: "length q = 64 \<Longrightarrow> nibbles_to_key q = Ok (key_of q)"
  by (simp add: nibbles_to_key_def pack_key_even length_key_of)

section \<open>Collecting storage\<close>

definition entry_slots :: "nibs \<Rightarrow> (nibs \<times> bytes) list \<Rightarrow> slot_list" where
  "entry_slots path es = map (\<lambda>(k, v). (key_of (path @ k), v)) es"

lemma entry_slots_simps [simp]:
  "entry_slots path [] = []" "entry_slots path (xs @ ys) = entry_slots path xs @ entry_slots path ys"
  "entry_slots path (pre_entries p es) = entry_slots (path @ p) es"
  by (simp_all add: entry_slots_def pre_entries_def case_prod_unfold)

lemma collect_slots_entries:
  assumes "list_all2 (rel_option R) cs ts"
    and "\<And>j c u. j < length cs \<Longrightarrow> cs ! j = Some c \<Longrightarrow> ts ! j = Some u \<Longrightarrow> R c u \<Longrightarrow>
      rec c (path @ [word_of_nat (i + j)]) = Ok (entry_slots (path @ [word_of_nat (i + j)]) (entries P u))"
  shows "collect_slots rec cs i path = Ok (entry_slots path (slot_entries i (map (map_option (entries P)) ts)))"
  using assms
proof (induction cs ts arbitrary: i rule: list_all2_induct)
  case (Cons c cs t ts)
  have IH: "collect_slots rec cs (i + 1) path = Ok (entry_slots path (slot_entries (i + 1) (map (map_option (entries P)) ts)))"
    by (rule Cons.IH) (use Cons.prems [of "Suc j" for j] in fastforce)
  show ?case
  proof (cases c)
    case None
    then show ?thesis using IH Cons.hyps(1) by simp
  next
    case (Some x)
    then obtain u where u: "t = Some u" "R x u" using Cons.hyps(1) by (cases t) auto
    then show ?thesis using IH Cons.prems [of 0 x u] Some by simp
  qed
qed simp

lemma collect_storage_gen:
  assumes K: "keccak_len P"
  shows "wf0 t r \<Longrightarrow> val_only t \<Longrightarrow> length path + r = 64 \<Longrightarrow> repr P n t \<Longrightarrow> get_fuel n r \<le> fuel \<Longrightarrow>
    collect_storage_subtree P fuel n path = Ok (entry_slots path (entries P t))"
proof (induction fuel arbitrary: t r n path)
  case 0
  then show ?case by (simp add: get_fuel_def split: if_splits)
next
  case (Suc f)
  show ?case
  proof (cases n)
    case (Raw buf off len nref)
    then have "wf t r" using Suc.prems by (cases t) (auto simp: wf0_def)
    then obtain n' where n': "parse_node_lazy P buf off len = Ok n'" "repr P n' t" "\<not> is_raw n'"
      using parse_node_lazy_raw [of P buf off len nref t r] K Suc.prems Raw by auto
    then show ?thesis using Suc.IH [OF Suc.prems(1-3) n'(2)] Suc.prems(5) Raw by (simp add: get_fuel_def collect_storage_subtree.simps)
  next
    case (Leaf p v rf)
    then have "t = TLeaf p v" using Suc.prems by auto
    moreover from this have "length p = r" using Suc.prems by (simp add: wf0_def)
    ultimately show ?thesis using Leaf Suc.prems(3)
      by (simp add: collect_storage_subtree.simps nibbles_to_key_64 entry_slots_def)
  next
    case (Extension p ch rf)
    then obtain u where u: "t = TExt p u" "repr P ch u" using Suc.prems by auto
    then have w: "p \<noteq> []" "length p < r" "wf0 u (r - length p)" "val_only u" using Suc.prems by (auto simp: wf0_def)
    then have "get_fuel ch (r - length p) \<le> f"
      using Suc.prems(5) Extension by (cases p) (auto simp: get_fuel_def split: if_splits)
    then have "collect_storage_subtree P f ch (path @ p) = Ok (entry_slots (path @ p) (entries P u))"
      using Suc.prems(3) w u by (intro Suc.IH) auto
    then show ?thesis using Extension u by (simp add: collect_storage_subtree.simps)
  next
    case (Branch cs rf)
    then obtain ts where ts: "t = TBranch ts" "list_all2 (rel_option (repr P)) cs ts" using Suc.prems by auto
    then have w: "length ts = 16" "length cs = 16" "0 < r"
      using Suc.prems by (auto simp: wf0_def list_all2_lengthD)
    have "collect_slots (collect_storage_subtree P f) cs 0 path = Ok (entry_slots path (slot_entries 0 (map (map_option (entries P)) ts)))"
    proof (rule collect_slots_entries [OF ts(2)])
      fix j c u
      assume j: "j < length cs" "cs ! j = Some c" "ts ! j = Some u" "repr P c u"
      then have m: "Some u \<in> set ts" using w by (metis nth_mem)
      then have "wf0 u (r - 1)" "val_only u" using wf_lengths(3) Suc.prems(1,2) ts by (blast, simp)
      moreover have "get_fuel c (r - 1) \<le> f" using Suc.prems(5) Branch w by (cases r) (auto simp: get_fuel_def)
      ultimately show "collect_storage_subtree P f c (path @ [word_of_nat (0 + j)]) =
          Ok (entry_slots (path @ [word_of_nat (0 + j)]) (entries P u))"
        using Suc.prems(3) w(3) j(4) by (intro Suc.IH) auto
    qed
    then show ?thesis unfolding Branch ts(1) entries_TBranch by (simp add: collect_storage_subtree.simps)
  qed (use Suc.prems in \<open>auto simp: collect_storage_subtree.simps\<close>)
qed

lemma node_collect_gen:
  assumes K: "keccak_len P"
  shows "wf0 t r \<Longrightarrow> d + r = length nibbles \<Longrightarrow> r \<le> 64 \<Longrightarrow> nibs_ok nibbles \<Longrightarrow> repr P n t \<Longrightarrow>
    get_fuel n r + 130 \<le> fuel \<Longrightarrow>
    node_collect_storage P fuel n nibbles d = Ok (case tlook t (drop d nibbles) of
        Some (LAcct no b c s) \<Rightarrow> entry_slots [] (entries P s)
      | _ \<Rightarrow> [])"
proof (induction fuel arbitrary: t r d n)
  case 0
  then show ?case by simp
next
  case (Suc f)
  have idx: "from_idx nibbles d = Ok (drop d nibbles)" using Suc.prems by (simp add: from_idx_def)
  show ?case
  proof (cases n)
    case (Raw buf off len nref)
    then have "wf t r" using Suc.prems by (cases t) (auto simp: wf0_def)
    then obtain n' where n': "parse_node_lazy P buf off len = Ok n'" "repr P n' t" "\<not> is_raw n'"
      using parse_node_lazy_raw [of P buf off len nref t r] K Suc.prems Raw by auto
    then show ?thesis using Suc.IH [OF Suc.prems(1-4) n'(2)] Suc.prems(6) Raw by (simp add: get_fuel_def node_collect_storage.simps)
  next
    case (Account p no b c s sr rf)
    then obtain ts where ts: "t = TAcct p no b c ts" "repr P s ts" using Suc.prems by auto
    then have "wf0 ts 64" using Suc.prems(1) wf_lengths(4) by blast
    moreover have "val_only ts" using Suc.prems(1) ts(1) by (auto simp: wf0_def)
    moreover have "get_fuel s 64 \<le> f" using Suc.prems(6) by (auto simp: get_fuel_def split: if_splits)
    ultimately have "collect_storage_subtree P f s [] = Ok (entry_slots [] (entries P ts))"
      using ts(2) by (intro collect_storage_gen [OF K]) auto
    then show ?thesis using Account ts idx by (auto simp: node_collect_storage.simps)
  next
    case (Extension p ch rf)
    then obtain u where u: "t = TExt p u" "repr P ch u" using Suc.prems by auto
    then have w: "p \<noteq> []" "length p < r" "wf0 u (r - length p)" using Suc.prems by (auto simp: wf0_def)
    then have "get_fuel ch (r - length p) + 130 \<le> f"
      using Suc.prems(6) Extension by (cases p) (auto simp: get_fuel_def split: if_splits)
    then show ?thesis
      using Suc.IH [of u "r - length p" "d + length p" ch] Suc.prems w u Extension idx
      by (auto simp: starts_with_def add.commute node_collect_storage.simps)
  next
    case (Branch cs rf)
    then obtain ts where ts: "t = TBranch ts" "list_all2 (rel_option (repr P)) cs ts" using Suc.prems by auto
    then have w: "length ts = 16" "length cs = 16" "0 < r"
      using Suc.prems by (auto simp: wf0_def list_all2_lengthD)
    obtain x where x: "nibbles ! d = x" "drop d nibbles = x # drop (Suc d) nibbles" "d < length nibbles"
      using w Suc.prems by (simp add: Cons_nth_drop_Suc [symmetric])
    have xl: "unat x < 16" using nibs_ok_nth [OF Suc.prems(4) x(3)] x by (auto intro: nibble_unat)
    show ?thesis
    proof (cases "ts ! unat x")
      case None
      then have "cs ! unat x = None" using repr_branch_child [OF ts(2), of "unat x"] xl w by simp
      then show ?thesis using Branch ts None x xl w by (simp add: index_def node_collect_storage.simps)
    next
      case (Some u)
      then obtain c where c: "cs ! unat x = Some c" "repr P c u"
        using repr_branch_child [OF ts(2), of "unat x"] xl w by (auto simp: option_rel_Some2)
      have "Some u \<in> set ts" using slot_mem [of "unat x" ts u] xl w Some by simp
      then have "wf0 u (r - 1)" using wf_lengths(3) Suc.prems(1) ts by blast
      moreover have "get_fuel c (r - 1) + 130 \<le> f"
        using Suc.prems(6) Branch w by (cases r) (auto simp: get_fuel_def split: if_splits)
      ultimately show ?thesis
        using Suc.IH [of u "r - 1" "Suc d" c] Suc.prems w c Branch ts Some x xl by (auto simp: index_def node_collect_storage.simps)
    qed
  qed (use Suc.prems idx in \<open>auto simp: node_collect_storage.simps\<close>)
qed

section \<open>Leaves as accounts\<close>

text \<open>Opaque leaves have no view; the statements below are about the others.\<close>

definition view :: "prims \<Rightarrow> leaf option \<Rightarrow> acct_view" where
  "view P lo = (case lo of Some (LAcct n b c s) \<Rightarrow>
       Some (n, b, c, \<lambda>k. if length k = 32 then map_option (leaf_value P) (tlook s (key_nibbles k)) else None)
     | _ \<Rightarrow> None)"

definition structured :: "leaf option \<Rightarrow> bool" where
  "structured lo = (case lo of Some (LVal v) \<Rightarrow> False | Some (LAcct n b c s) \<Rightarrow> leaf_ok (LAcct n b c s) | None \<Rightarrow> True)"

lemma structured_cases [consumes 1, case_names absent acct]:
  assumes "structured lo"
  obtains "lo = None" | n b c s where "lo = Some (LAcct n b c s)" "leaf_ok (LAcct n b c s)"
  using assms by (cases lo; cases "the lo") (auto simp: structured_def)

lemma view_None [simp]: "view P None = None"
  by (simp add: view_def)

lemma view_none_iff: "structured lo \<Longrightarrow> view P lo = None \<longleftrightarrow> lo = None"
  by (cases rule: structured_cases) (auto simp: view_def)

text \<open>Keys of a trie are sequences of nibbles.\<close>

lemma wf_key_nibs: "wf t r \<Longrightarrow> tlook t k \<noteq> None \<Longrightarrow> nibs_ok k"
proof (induction t arbitrary: k r)
  case (TExt p t)
  then have "take (length p) k = p" "tlook t (drop (length p) k) \<noteq> None" by (auto split: if_splits)
  then have "nibs_ok (drop (length p) k)" "nibs_ok p" using TExt.IH TExt.prems(1) by auto
  moreover have "set k = set p \<union> set (drop (length p) k)"
    using \<open>take (length p) k = p\<close> by (metis append_take_drop_id set_append)
  ultimately show ?case by (auto simp: nibs_ok_def)
next
  case (TBranch ts)
  then obtain x k' where k: "k = x # k'" by (cases k) auto
  then obtain u where u: "unat x < 16" "ts ! unat x = Some u" "tlook u k' \<noteq> None"
    using TBranch.prems by (auto split: if_splits option.splits)
  then have m: "Some u \<in> set ts" using TBranch.prems by (metis nth_mem wf_TBranch)
  then have "nibs_ok k'" using TBranch.IH [OF m, of u "r - 1" k'] TBranch.prems u(3) by auto
  then show ?case using u(1) k by (simp add: nibs_ok_def word_less_nat_alt)
qed (auto split: if_splits)

text \<open>The slots of an account, as collected, are its view.\<close>

lemma entry_slots_view:
  assumes "leaf_ok (LAcct n b c s)"
  shows "map_of (entry_slots [] (entries P s)) = slots_of (view P (Some (LAcct n b c s)))"
    and "distinct (map fst (entry_slots [] (entries P s)))"
    and "\<forall>k \<in> fst ` set (entry_slots [] (entries P s)). length k = 32"
    and "entry_slots [] (entries P s) = [] \<longleftrightarrow> s = TEmpty"
proof -
  have w: "wf0 s 64" using assms by (auto simp: wf0_def)
  note m = map_of_entries [OF w, of P] and d = sorted_keys_distinct [OF sorted_entries [OF w, of P]]
  have q: "length q = 64 \<and> nibs_ok q" if "q \<in> fst ` set (entries P s)" for q
  proof -
    have "tlook s q \<noteq> None" using that m [of q] by (metis map_of_eq_None_iff option.map_disc_iff)
    then show ?thesis using w wf_key_length wf_key_nibs by (cases "s = TEmpty") (auto simp: wf0_def)
  qed
  have inj: "inj_on key_of (fst ` set (entries P s))"
    by (rule inj_onI) (metis even_numeral nibbles_key_of q)
  have f: "map fst (entry_slots [] (entries P s)) = map key_of (map fst (entries P s))" by (simp add: entry_slots_def case_prod_unfold comp_def)
  then show dd: "distinct (map fst (entry_slots [] (entries P s)))" using d inj by (simp add: distinct_map comp_inj_on)
  have fs: "fst ` set (entry_slots [] (entries P s)) = key_of ` fst ` set (entries P s)" using arg_cong [OF f, of set] by (simp add: image_image)
  then show len: "\<forall>k \<in> fst ` set (entry_slots [] (entries P s)). length k = 32" using q by (auto simp: length_key_of)
  show "map_of (entry_slots [] (entries P s)) = slots_of (view P (Some (LAcct n b c s)))"
  proof
    fix k
    show "map_of (entry_slots [] (entries P s)) k = slots_of (view P (Some (LAcct n b c s))) k"
    proof (cases "k \<in> fst ` set (entry_slots [] (entries P s))")
      case True
      then obtain q' v where v: "(q', v) \<in> set (entries P s)" "k = key_of q'" using fs by auto
      then have "(k, v) \<in> set (entry_slots [] (entries P s))" by (force simp: entry_slots_def)
      then have "map_of (entry_slots [] (entries P s)) k = Some v" using dd by simp
      moreover have "key_nibbles k = q'" using v q [of q'] by (force intro: nibbles_key_of)
      moreover have "map_of (entries P s) q' = Some v" using v(1) d by simp
      moreover have "length k = 32" using len True by blast
      ultimately show ?thesis using m [of q'] by (auto simp: view_def)
    next
      case False
      then have "map_of (entry_slots [] (entries P s)) k = None" by (simp add: map_of_eq_None_iff)
      moreover have "key_nibbles k \<notin> fst ` set (entries P s)" using False fs by (metis image_eqI key_of_nibbles)
      then have "map_of (entries P s) (key_nibbles k) = None" by (simp add: map_of_eq_None_iff)
      ultimately show ?thesis using m by (simp add: view_def)
    qed
  qed
  show "entry_slots [] (entries P s) = [] \<longleftrightarrow> s = TEmpty"
    using entries_nonempty [of s 64 P] w by (auto simp: entry_slots_def wf0_def)
qed

text \<open>The operations on a structured leaf, in the view.\<close>

lemma view_set:
  assumes "structured lo" and "length c = 32"
  shows "\<exists>l. spec_op P lo (OpAccount n b c) = Ok l \<and> structured (Some l) \<and> view P (Some l) = Some (n, b, c, slots_of (view P lo))"
  using assms(1)
proof (cases rule: structured_cases)
  case absent
  then show ?thesis using assms(2) by (auto simp: structured_def view_def fun_eq_iff)
next
  case (acct n' b' c' s)
  then show ?thesis using assms(2) by (auto simp: structured_def view_def)
qed

lemma store_slot_facts:
  assumes "leaf_ok (LAcct n b c s)" and "length k = 32"
  shows "leaf_ok (LAcct n b c (store_slot s k v))" and "tlook (store_slot s k v) = (tlook s)(key_nibbles k \<mapsto> LVal v)"
proof -
  have kk: "length (key_nibbles k) = 64" "nibs_ok (key_nibbles k)" using assms(2) by auto
  have "leaf_ok (LAcct n b c (store_slot s k v)) \<and> tlook (store_slot s k v) = (tlook s)(key_nibbles k \<mapsto> LVal v)"
  proof (cases "s = TEmpty")
    case True
    then show ?thesis using kk assms(1) by (auto simp: store_slot_def)
  next
    case False
    then have "wf s 64" "val_only s" using assms(1) by auto
    then show ?thesis using kk assms(1) wf_tput [of s 64 "key_nibbles k" "LVal v"] val_only_tput [of s 64 "key_nibbles k" v]
        tlook_tput [of s 64 "key_nibbles k" "LVal v"]
      by (simp add: store_slot_def)
  qed
  then show "leaf_ok (LAcct n b c (store_slot s k v))" "tlook (store_slot s k v) = (tlook s)(key_nibbles k \<mapsto> LVal v)" by auto
qed

lemma view_put:
  assumes "structured lo" and "length k = 32"
  shows "\<exists>l. spec_op P lo (OpStorage k v) = Ok l \<and> structured (Some l) \<and> view P (Some l) = put_view k v (view P lo)"
  using assms(1)
proof (cases rule: structured_cases)
  case absent
  have "leaf_ok (LAcct 0 0 EMPTY_CODE_HASH TEmpty)" by (simp add: EMPTY_CODE_HASH_def)
  from store_slot_facts [OF this assms(2), of v] show ?thesis
    using absent assms(2) by (auto simp: structured_def view_def fun_eq_iff key_nibbles_inj)
next
  case (acct n b c s)
  from store_slot_facts [OF acct(2) assms(2), of v] show ?thesis
    using acct(1) assms(2) by (auto simp: structured_def view_def fun_eq_iff key_nibbles_inj)
qed

lemma view_del:
  assumes "structured lo" and "length k = 32"
  shows "\<exists>o'. spec_del0 P lo (DelStorage k) = Ok o' \<and> o' \<noteq> DRemove \<and> structured (del_leaf lo o') \<and> view P (del_leaf lo o') = del_view k (view P lo)"
  using assms(1)
proof (cases rule: structured_cases)
  case (acct n b c s)
  have kk: "length (key_nibbles k) = 64" "nibs_ok (key_nibbles k)" using assms(2) by auto
  show ?thesis
  proof (cases "tlook s (key_nibbles k)")
    case None
    then show ?thesis using acct assms(2) by (auto simp: spec_del0_def del_leaf_def structured_def view_def fun_eq_iff)
  next
    case (Some x)
    then have "wf s 64" "val_only s" using acct(2) by auto
    then have "leaf_ok (LAcct n b c (tdel s (key_nibbles k)))" "tlook (tdel s (key_nibbles k)) = (tlook s)(key_nibbles k := None)"
      using kk acct(2) wf_tdel [of s 64 "key_nibbles k"] val_only_tdel [of s 64 "key_nibbles k"] tlook_tdel [of s 64 "key_nibbles k"] by (auto simp: wf0_def)
    then show ?thesis using acct(1) Some assms(2)
      by (auto simp: spec_del0_def del_leaf_def structured_def view_def fun_eq_iff key_nibbles_inj)
  qed
qed (simp add: spec_del0_def del_leaf_def structured_def)

lemma view_wipe:
  assumes "structured lo"
  shows "\<exists>o'. spec_del0 P lo DelWipeStorage = Ok o' \<and> o' \<noteq> DRemove \<and> structured (del_leaf lo o') \<and> view P (del_leaf lo o') = wipe_view (view P lo)"
  using assms
  by (cases rule: structured_cases) (auto simp: spec_del0_def del_leaf_def structured_def view_def fun_eq_iff)

section \<open>One step on a record\<close>

text \<open>The record stands for \<open>t\<close> with the leaf at \<open>k\<close> replaced.\<close>

definition rec_at :: "prims \<Rightarrow> trie \<Rightarrow> nibs \<Rightarrow> nat \<Rightarrow> node \<Rightarrow> leaf option \<Rightarrow> bool" where
  "rec_at P t k r nd lo = (\<exists>u. repr P nd u \<and> wf0 u r \<and> tlook u = (tlook t)(k := lo))"

definition rec_setup :: "prims \<Rightarrow> bytes \<Rightarrow> nat \<Rightarrow> nat \<Rightarrow> nibs \<Rightarrow> bool" where
  "rec_setup P key d r k = (keccak_len P \<and> decode_typed P \<and> account_rt P \<and> length key = 32 \<and> d + r = 64 \<and> k = drop d (key_nibbles key))"

lemma rec_insert:
  assumes S: "rec_setup P key d r k" and R: "rec_at P t k r nd lo" and o': "op_ok op" "spec_op P lo op = Ok l"
  shows "\<exists>nd'. record_node_insert P REC_FUEL nd d key op = Ok nd' \<and> rec_at P t k r nd' (Some l)"
proof -
  obtain u where u: "repr P nd u" "wf0 u r" "tlook u = (tlook t)(k := lo)" using R by (auto simp: rec_at_def)
  have s: "spec_op P (tlook u (drop d (key_nibbles key))) op = Ok l" using u(3) o'(2) S by (simp add: rec_setup_def)
  have "\<exists>n' t'. record_node_insert P REC_FUEL nd d key op = Ok n' \<and> repr P n' t' \<and> wf t' r \<and>
      tlook t' = (tlook u)(drop d (key_nibbles key) \<mapsto> l) \<and> hash_node P n' = tref P t'"
    by (rule record_node_insert_sound [OF _ _ _ o'(1) u(2) _ u(1) _ s]) (use S in \<open>auto simp: rec_setup_def REC_FUEL_def\<close>)
  then show ?thesis using u(3) S by (auto simp: rec_at_def rec_setup_def wf0_def)
qed

lemma rec_delete:
  assumes S: "rec_setup P key d r k" and R: "rec_at P t k r nd lo" and o': "del_ok op" "spec_del0 P lo op = Ok o'"
  shows "\<exists>nd' out. record_node_delete P REC_FUEL nd d key op = Ok (nd', out) \<and> rec_at P t k r nd' (del_leaf lo o') \<and>
    (out = Absent \<longleftrightarrow> o' = DKeep) \<and> (out = Removed \<longleftrightarrow> o' \<noteq> DKeep \<and> nd' = Empty)"
proof -
  obtain u where u: "repr P nd u" "wf0 u r" "tlook u = (tlook t)(k := lo)" using R by (auto simp: rec_at_def)
  have e: "repr P n' x \<Longrightarrow> x = TEmpty \<longleftrightarrow> n' = Empty" for n' x by (cases n') auto
  have lo: "tlook u (drop d (key_nibbles key)) = lo" using u(3) S by (simp add: rec_setup_def)
  note D = record_node_delete_sound [of P key op u r d nd REC_FUEL, unfolded lo o'(2)]
  have p: "keccak_len P" "decode_typed P" "length key = 32" "d + r = 64" "r + 65 < REC_FUEL" "k = drop d (key_nibbles key)"
    using S by (auto simp: rec_setup_def REC_FUEL_def)
  note D = D [OF p(1-3) o'(1) u(2) p(4) u(1) p(5), folded p(6)]
  show ?thesis
  proof (cases o')
    case DKeep
    then show ?thesis using D u by (auto simp: rec_at_def del_leaf_def)
  next
    case (DUpdate l)
    then obtain n' x where x: "record_node_delete P REC_FUEL nd d key op = Ok (n', Changed)" "repr P n' x" "wf x r" "tlook x = (tlook u)(k \<mapsto> l)"
      using D by auto
    then have "n' \<noteq> Empty" by auto
    then show ?thesis using x u(3) DUpdate by (auto simp: rec_at_def del_leaf_def wf0_def)
  next
    case DRemove
    then obtain n' x where x: "record_node_delete P REC_FUEL nd d key op = Ok (n', if x = TEmpty then Removed else Changed)"
      "repr P n' x" "wf0 x r" "tlook x = (tlook u)(k := None)"
      using D by auto
    show ?thesis using x u(3) DRemove e [OF x(2)] by (auto simp: rec_at_def del_leaf_def)
  qed
qed

lemma rec_reads:
  assumes S: "rec_setup P key d r k" and R: "rec_at P t k r nd lo" and st: "structured lo"
  shows "length skey = 32 \<Longrightarrow> node_get_storage P rd REC_FUEL nd (key_nibbles key) d skey = Ok (slots_of (view P lo) skey)"
    and "\<exists>prior. node_prior_account P rd nd (key_nibbles key) d = Ok prior \<and>
      (prior = None \<longleftrightarrow> lo = None) \<and> (\<forall>p. prior = Some p \<longrightarrow> (\<exists>s. view P lo = Some (a_nonce p, a_balance p, a_code_hash p, s)))"
    and "\<exists>slots. node_collect_storage P REC_FUEL nd (key_nibbles key) d = Ok slots \<and> map_of slots = slots_of (view P lo) \<and>
      distinct (map fst slots) \<and> (\<forall>k \<in> fst ` set slots. length k = 32)"
proof -
  obtain u where u: "repr P nd u" "wf0 u r" "tlook u = (tlook t)(k := lo)" using R by (auto simp: rec_at_def)
  have p: "keccak_len P" "account_rt P" "length key = 32" "d + r = length (key_nibbles key)" "r \<le> 64" "k = drop d (key_nibbles key)" "nibs_ok (key_nibbles key)"
    using S by (auto simp: rec_setup_def)
  have f: "get_fuel nd r + 130 \<le> REC_FUEL" "get_fuel nd r \<le> REC_FUEL" using p(5) by (auto simp: get_fuel_def REC_FUEL_def)
  have lo: "tlook u (drop d (key_nibbles key)) = lo" using u(3) p(6) by simp
  show "node_get_storage P rd REC_FUEL nd (key_nibbles key) d skey = Ok (slots_of (view P lo) skey)" if l: "length skey = 32"
    using st node_get_storage_gen [OF p(1) l u(2) p(4,5,7) u(1) f(1), of rd] l unfolding lo
    by (cases rule: structured_cases) (auto simp: view_def)
  show "\<exists>slots. node_collect_storage P REC_FUEL nd (key_nibbles key) d = Ok slots \<and> map_of slots = slots_of (view P lo) \<and>
      distinct (map fst slots) \<and> (\<forall>k \<in> fst ` set slots. length k = 32)"
    using st
  proof (cases rule: structured_cases)
    case (acct n b c s)
    then show ?thesis using node_collect_gen [OF p(1) u(2) p(4,5,7) u(1) f(1)] entry_slots_view(1-3) [OF acct(2), of P] unfolding lo by simp
  next
    case absent
    then show ?thesis using node_collect_gen [OF p(1) u(2) p(4,5,7) u(1) f(1)] unfolding lo by simp
  qed
  have g: "node_get P rd REC_FUEL nd (key_nibbles key) d = Ok (map_option (leaf_value P) lo)"
    using node_get_gen [OF p(1) u(2) p(4,5,7) u(1) f(2), of rd] unfolding lo .
  show "\<exists>prior. node_prior_account P rd nd (key_nibbles key) d = Ok prior \<and>
      (prior = None \<longleftrightarrow> lo = None) \<and> (\<forall>p. prior = Some p \<longrightarrow> (\<exists>s. view P lo = Some (a_nonce p, a_balance p, a_code_hash p, s)))"
    using st
  proof (cases rule: structured_cases)
    case absent
    then show ?thesis using g by (simp add: node_prior_account_def)
  next
    case (acct n b c s)
    have "length (troot P s) = 32" using ref_ok_tref [OF p(1), of s] p(1) by (cases "tref P s") (auto simp: troot_def keccak_len_def)
    then have "account_decode P (leaf_value P (LAcct n b c s)) = Some (account_contract n b (troot P s) c)"
      using p(2) acct(2) by (simp add: account_rt_def acct_value_def account_rlp_def account_contract_def)
    then show ?thesis using g acct(1) by (simp add: node_prior_account_def view_def account_contract_def)
  qed
qed

section \<open>Undoing\<close>

text \<open>Slot keys and code hashes have 32 bytes, as their Rust types say.\<close>

fun so_typed :: "state_op \<Rightarrow> bool" where
  "so_typed (SoSetAccount n b c) = (length c = 32)"
| "so_typed (SoSetStorage k v) = (length k = 32)"
| "so_typed (SoDeleteStorage k) = (length k = 32)"
| "so_typed _ = True"

definition undo_slot :: "(bytes \<rightharpoonup> bytes) \<Rightarrow> bytes \<times> bytes option \<Rightarrow> state_op list" where
  "undo_slot s = (\<lambda>(k, v). case s k of Some pv \<Rightarrow> [SoSetStorage k pv] | None \<Rightarrow> if v = None then [] else [SoDeleteStorage k])"

abbreviation run_ops :: "state_op list \<Rightarrow> acct_view \<Rightarrow> acct_view" where
  "run_ops ops \<equiv> fold so_spec ops"

lemma run_sets:
  "distinct (map fst es) \<Longrightarrow> run_ops (map (\<lambda>(k, v). SoSetStorage k v) es) (Some (n, b, c, s)) = Some (n, b, c, s ++ map_of es)"
proof (induction es arbitrary: s)
  case (Cons x es)
  obtain k v where x: "x = (k, v)" by (cases x)
  have "k \<notin> dom (map_of es)" using Cons.prems x by (auto simp: dom_map_of_conv_image_fst)
  then have "s(k \<mapsto> v) ++ map_of es = (s ++ map_of es)(k \<mapsto> v)" by (simp add: map_add_upd_left)
  then show ?case using Cons x by (auto simp: fun_eq_iff map_add_def split: option.splits)
qed simp

text \<open>A slot of the list is set back to \<open>s\<close>, unless it was absent and is deleted.\<close>

definition undone :: "(bytes \<rightharpoonup> bytes) \<Rightarrow> (bytes \<times> bytes option) list \<Rightarrow> (bytes \<rightharpoonup> bytes) \<Rightarrow> (bytes \<rightharpoonup> bytes)" where
  "undone s slots x = (\<lambda>k. case map_of slots k of None \<Rightarrow> x k | Some v \<Rightarrow> if s k = None \<and> v = None then x k else s k)"

lemma run_undo_slots:
  "distinct (map fst slots) \<Longrightarrow> run_ops (concat (map (undo_slot s) slots)) (Some (n, b, c, x)) = Some (n, b, c, undone s slots x)"
proof (induction slots arbitrary: x)
  case (Cons y slots)
  obtain k v where y: "y = (k, v)" by (cases y)
  have k: "map_of slots k = None" using Cons.prems y by (simp add: map_of_eq_None_iff)
  let ?x = "if s k = None \<and> v = None then x else x(k := s k)"
  have step: "run_ops (undo_slot s (k, v)) (Some (n, b, c, x)) = Some (n, b, c, ?x)"
    by (cases "s k"; cases v) (auto simp: undo_slot_def)
  have "run_ops (concat (map (undo_slot s) slots)) (Some (n, b, c, ?x)) = Some (n, b, c, undone s slots ?x)"
    by (rule Cons.IH) (use Cons.prems y in simp)
  moreover have "undone s slots ?x = undone s (y # slots) x" using k by (auto simp: undone_def y fun_eq_iff split: option.splits)
  ultimately show ?case using step by (simp add: y)
qed (simp add: undone_def)

lemma undo_typed: "\<forall>k \<in> fst ` set slots. length k = 32 \<Longrightarrow> list_all so_typed (concat (map (undo_slot s) slots))"
  by (induction slots) (auto simp: undo_slot_def split: option.splits)

lemma sets_typed: "\<forall>k \<in> fst ` set es. length k = 32 \<Longrightarrow> list_all so_typed (map (\<lambda>(k, v). SoSetStorage k v) es)"
  by (induction es) auto

lemma structured_code: "structured lo \<Longrightarrow> view P lo = Some (n, b, c, s) \<Longrightarrow> length c = 32"
  by (cases rule: structured_cases) (auto simp: view_def)

section \<open>A net update on a record\<close>

fun upd_typed :: "net_update \<Rightarrow> bool" where
  "upd_typed upd = (distinct (map fst (nu_slots upd)) \<and> (\<forall>k \<in> fst ` set (nu_slots upd). length k = 32) \<and>
     (case nu_account upd of AoSet n b c \<Rightarrow> length c = 32 | _ \<Rightarrow> True))"

lemma apply_slots_rep:
  assumes S: "rec_setup P key d r k"
  shows "rec_at P t k r nd lo \<Longrightarrow> structured lo \<Longrightarrow> distinct (map fst slots) \<Longrightarrow> \<forall>k \<in> fst ` set slots. length k = 32 \<Longrightarrow>
    \<exists>nd' cg' lo'. apply_slots P rd d key created slots (nd, cg, undo) =
        Ok (nd', cg', undo @ map (Pair key) (if created then [] else concat (map (undo_slot (slots_of (view P lo))) slots))) \<and>
      rec_at P t k r nd' lo' \<and> structured lo' \<and> view P lo' = fold slot_spec slots (view P lo) \<and>
      (cg \<longrightarrow> cg') \<and> (\<not> cg' \<longrightarrow> lo' = lo) \<and> (cg' \<longrightarrow> cg \<or> lo' \<noteq> None) \<and> (lo \<noteq> None \<longrightarrow> lo' \<noteq> None)"
proof (induction slots arbitrary: nd lo cg undo)
  case (Cons y slots)
  obtain sk v where y: "y = (sk, v)" by (cases y)
  have sk: "length sk = 32" "sk \<notin> fst ` set slots" using Cons.prems(3,4) y by auto
  let ?s = "slots_of (view P lo)"
  define undo' where "undo' = undo @ map (Pair key) (if created then [] else undo_slot ?s (sk, v))"
  have g: "node_get_storage P rd REC_FUEL nd (key_nibbles key) d sk = Ok (?s sk)" by (rule rec_reads(1) [OF S Cons.prems(1,2) sk(1)])
  have u: "(if created then undo else (case ?s sk of Some pv \<Rightarrow> undo @ [(key, SoSetStorage sk pv)]
      | None \<Rightarrow> (if v = None then undo else undo @ [(key, SoDeleteStorage sk)]))) = undo'"
    by (auto simp: undo'_def undo_slot_def split: option.splits)
  have ap: "apply_slots P rd d key created (y # slots) (nd, cg, undo) = (case v of
      Some w \<Rightarrow> res_bind (record_node_insert P REC_FUEL nd d key (OpStorage sk w)) (\<lambda>nd. apply_slots P rd d key created slots (nd, True, undo'))
    | None \<Rightarrow> res_bind (record_node_delete P REC_FUEL nd d key (DelStorage sk)) (\<lambda>(nd, out).
        apply_slots P rd d key created slots (nd, cg \<or> out \<noteq> Absent, undo')))"
    by (simp only: y apply_slots.simps g res_bind.simps Let_def u)
  obtain nd1 cg1 lo1 where n1: "apply_slots P rd d key created (y # slots) (nd, cg, undo) = apply_slots P rd d key created slots (nd1, cg1, undo')"
    "rec_at P t k r nd1 lo1" "structured lo1" "view P lo1 = slot_spec (sk, v) (view P lo)" "cg \<longrightarrow> cg1" "\<not> cg1 \<longrightarrow> lo1 = lo"
    "cg1 \<longrightarrow> cg \<or> lo1 \<noteq> None" "lo \<noteq> None \<longrightarrow> lo1 \<noteq> None"
  proof (cases v)
    case (Some w)
    obtain l where l: "spec_op P lo (OpStorage sk w) = Ok l" "structured (Some l)" "view P (Some l) = put_view sk w (view P lo)"
      using view_put [OF Cons.prems(2) sk(1)] by blast
    obtain nd1 where "record_node_insert P REC_FUEL nd d key (OpStorage sk w) = Ok nd1" "rec_at P t k r nd1 (Some l)"
      using rec_insert [OF S Cons.prems(1) _ l(1)] sk(1) by auto
    then show ?thesis using l ap Some by (intro that [of nd1 True "Some l"]) simp_all
  next
    case None
    obtain o' where o': "spec_del0 P lo (DelStorage sk) = Ok o'" "o' \<noteq> DRemove" "structured (del_leaf lo o')" "view P (del_leaf lo o') = del_view sk (view P lo)"
      using view_del [OF Cons.prems(2) sk(1)] by blast
    obtain nd1 out where d: "record_node_delete P REC_FUEL nd d key (DelStorage sk) = Ok (nd1, out)" "rec_at P t k r nd1 (del_leaf lo o')" "out = Absent \<longleftrightarrow> o' = DKeep"
      using rec_delete [OF S Cons.prems(1) _ o'(1)] sk(1) by auto
    have "o' = DKeep \<Longrightarrow> del_leaf lo o' = lo" "o' \<noteq> DKeep \<Longrightarrow> del_leaf lo o' \<noteq> None" "lo \<noteq> None \<Longrightarrow> del_leaf lo o' \<noteq> None"
      using o'(2) by (cases o'; simp add: del_leaf_def)+
    then show ?thesis using d o' ap None by (intro that [of nd1 "cg \<or> out \<noteq> Absent" "del_leaf lo o'"]) auto
  qed
  have other: "slots_of (view P lo1) q = ?s q" if "q \<noteq> sk" for q
    using n1(4) that by (cases v; cases "view P lo") auto
  have "undo_slot (slots_of (view P lo1)) z = undo_slot ?s z" if "z \<in> set slots" for z
  proof -
    have "fst z \<noteq> sk" using sk(2) that by auto
    then show ?thesis using other [of "fst z"] by (cases z) (simp add: undo_slot_def)
  qed
  then have mm: "map (undo_slot (slots_of (view P lo1))) slots = map (undo_slot ?s) slots" by simp
  have un: "undo' @ map (Pair key) (if created then [] else concat (map (undo_slot (slots_of (view P lo1))) slots)) =
      undo @ map (Pair key) (if created then [] else concat (map (undo_slot ?s) (y # slots)))"
    by (simp only: mm) (simp add: undo'_def y)
  have rest: "distinct (map fst slots)" "\<forall>k \<in> fst ` set slots. length k = 32" using Cons.prems(3,4) by auto
  obtain nd' cg' lo' where "apply_slots P rd d key created slots (nd1, cg1, undo') =
        Ok (nd', cg', undo' @ map (Pair key) (if created then [] else concat (map (undo_slot (slots_of (view P lo1))) slots)))"
      "rec_at P t k r nd' lo'" "structured lo'" "view P lo' = fold slot_spec slots (view P lo1)"
      "cg1 \<longrightarrow> cg'" "\<not> cg' \<longrightarrow> lo' = lo1" "cg' \<longrightarrow> cg1 \<or> lo' \<noteq> None" "lo1 \<noteq> None \<longrightarrow> lo' \<noteq> None"
    using Cons.IH [OF n1(2,3) rest, of cg1 undo'] by blast
  then show ?case unfolding n1(1) un using n1(4-8) y by (intro exI [of _ nd'] exI [of _ cg'] exI [of _ lo']) auto
next
  case Nil
  then show ?case by (intro exI [of _ nd] exI [of _ cg] exI [of _ lo]) simp
qed

lemma apply_wipe_rep:
  assumes S: "rec_setup P key d r k" and R: "rec_at P t k r nd lo" "structured lo" and p: "prior = None \<longleftrightarrow> lo = None"
  shows "\<exists>nd' cg lo' es. apply_wipe P nd d key prior undo =
        Ok (nd', cg, undo @ map (Pair key) (if lo = None then [] else SoWipeStorage # map (\<lambda>(k, v). SoSetStorage k v) es)) \<and>
      rec_at P t k r nd' lo' \<and> structured lo' \<and> view P lo' = wipe_view (view P lo) \<and> (\<not> cg \<longrightarrow> lo' = lo) \<and> (lo' = None \<longleftrightarrow> lo = None) \<and>
      (cg \<longrightarrow> lo \<noteq> None) \<and> map_of es = slots_of (view P lo) \<and> distinct (map fst es) \<and> (\<forall>k \<in> fst ` set es. length k = 32)"
proof -
  obtain es where es: "node_collect_storage P REC_FUEL nd (key_nibbles key) d = Ok es" "map_of es = slots_of (view P lo)" "distinct (map fst es)" "\<forall>k \<in> fst ` set es. length k = 32"
    using rec_reads(3) [OF S R] by blast
  let ?u = "undo @ map (Pair key) (if lo = None then [] else SoWipeStorage # map (\<lambda>(k, v). SoSetStorage k v) es)"
  have u: "(if prior = None then undo else undo @ [(key, SoWipeStorage)] @ map (\<lambda>(skey, v). (key, SoSetStorage skey v)) es) = ?u"
    using p by (simp add: case_prod_unfold comp_def)
  obtain o' where o': "spec_del0 P lo DelWipeStorage = Ok o'" "o' \<noteq> DRemove" "structured (del_leaf lo o')" "view P (del_leaf lo o') = wipe_view (view P lo)"
    using view_wipe [OF R(2)] by blast
  obtain nd1 out where d: "record_node_delete P REC_FUEL nd d key DelWipeStorage = Ok (nd1, out)" "rec_at P t k r nd1 (del_leaf lo o')" "out = Absent \<longleftrightarrow> o' = DKeep"
    using rec_delete [OF S R(1) _ o'(1)] by auto
  have del: "o' = DKeep \<Longrightarrow> del_leaf lo o' = lo" "lo = None \<Longrightarrow> o' = DKeep" "lo \<noteq> None \<Longrightarrow> del_leaf lo o' \<noteq> None"
    using o'(1,2) by (cases o'; auto simp: del_leaf_def spec_del0_def)+
  have dn: "del_leaf lo o' = None \<longleftrightarrow> lo = None" using del by metis
  consider "es \<noteq> [] \<or> (es = [] \<and> (case prior of None \<Rightarrow> False | Some p \<Rightarrow> a_storage_root p \<noteq> EMPTY_ROOT))" |
    "\<not> (es \<noteq> [] \<or> (es = [] \<and> (case prior of None \<Rightarrow> False | Some p \<Rightarrow> a_storage_root p \<noteq> EMPTY_ROOT)))" by blast
  then show ?thesis
  proof cases
    case 1
    then have "apply_wipe P nd d key prior undo = Ok (nd1, out \<noteq> Absent, ?u)"
      using es(1) d(1) u by (auto simp: apply_wipe_def Let_def)
    then show ?thesis using d o' del(1,2) dn es(2-4)
      by (intro exI [of _ nd1] exI [of _ "out \<noteq> Absent"] exI [of _ "del_leaf lo o'"] exI [of _ es]) auto
  next
    case 2
    then have "apply_wipe P nd d key prior undo = Ok (nd, False, ?u)"
      unfolding apply_wipe_def es(1) res_bind.simps Let_def u by (rule if_not_P)
    moreover have "view P lo = wipe_view (view P lo)" using 2 es(2) by (cases "view P lo") auto
    ultimately show ?thesis using R es(2-4)
      by (intro exI [of _ nd] exI [of _ False] exI [of _ lo] exI [of _ es]) auto
  qed
qed

text \<open>The inverse loses a slot that a wipe and a later write of the same update both touch.\<close>

definition loses_slot :: "net_update \<Rightarrow> acct_view \<Rightarrow> bool" where
  "loses_slot upd a = (nu_wipe upd \<and> nu_account upd \<noteq> AoDelete \<and> (\<exists>(k, v) \<in> set (nu_slots upd). v \<noteq> None \<and> slots_of a k \<noteq> None))"

lemma undone_wiped:
  assumes "distinct (map fst slots)"
  shows "undone Map.empty slots s = s \<longleftrightarrow> (\<forall>(k, v) \<in> set slots. v \<noteq> None \<longrightarrow> s k = None)"
proof
  assume u: "undone Map.empty slots s = s"
  show "\<forall>(k, v) \<in> set slots. v \<noteq> None \<longrightarrow> s k = None"
  proof clarify
    fix k v
    assume "(k, Some v) \<in> set slots"
    then have "undone Map.empty slots s k = None" using assms by (simp add: undone_def)
    then show "s k = None" using u by simp
  qed
qed (force simp: undone_def fun_eq_iff split: option.splits dest: map_of_SomeD)

lemma undone_overlay: "undone s slots (overlay s slots) = s"
  by (auto simp: undone_def overlay_def fun_eq_iff split: option.splits)

lemma apply_delete_rep:
  assumes S: "rec_setup P key d r k" and R: "rec_at P t k r nd lo" "structured lo" and a: "nu_account upd = AoDelete"
  shows "\<exists>nd' out ops. apply_net_in_record P rd nd d key upd undo = Ok (nd', out, undo @ map (Pair key) ops) \<and>
    rec_at P t k r nd' None \<and> (out = Absent \<longleftrightarrow> lo = None) \<and> (out = Removed \<longleftrightarrow> lo \<noteq> None \<and> nd' = Empty) \<and>
    run_ops ops None = view P lo \<and> list_all so_typed ops \<and> (lo \<noteq> None \<longrightarrow> (\<exists>n b c. SoSetAccount n b c \<in> set ops))"
proof -
  obtain prior where p: "node_prior_account P rd nd (key_nibbles key) d = Ok prior" "prior = None \<longleftrightarrow> lo = None"
    "\<And>p. prior = Some p \<Longrightarrow> \<exists>s. view P lo = Some (a_nonce p, a_balance p, a_code_hash p, s)"
    using rec_reads(2) [OF S R, of rd] by blast
  show ?thesis
  proof (cases prior)
    case None
    then have "apply_net_in_record P rd nd d key upd undo = Ok (nd, Absent, undo @ map (Pair key) [])"
      using p a by (simp add: apply_net_in_record_def)
    then show ?thesis using None p R by (intro exI [of _ nd] exI [of _ Absent] exI [of _ "[]"]) simp
  next
    case (Some pf)
    obtain s where s: "view P lo = Some (a_nonce pf, a_balance pf, a_code_hash pf, s)" using p(3) Some by blast
    obtain es where es: "node_collect_storage P REC_FUEL nd (key_nibbles key) d = Ok es" "map_of es = slots_of (view P lo)" "distinct (map fst es)" "\<forall>k \<in> fst ` set es. length k = 32"
      using rec_reads(3) [OF S R] by blast
    have lo: "lo \<noteq> None" using p(2) Some by simp
    have o': "spec_del0 P lo DelAccount = Ok DRemove" using lo by (cases lo; cases "the lo") (auto simp: spec_del0_def)
    obtain nd1 out where d: "record_node_delete P REC_FUEL nd d key DelAccount = Ok (nd1, out)" "rec_at P t k r nd1 None" "out \<noteq> Absent"
      "out = Removed \<longleftrightarrow> nd1 = Empty"
      using rec_delete [OF S R(1) _ o'] by (auto simp: del_leaf_def)
    let ?ops = "[SoWipeStorage, SoSetAccount (a_nonce pf) (a_balance pf) (a_code_hash pf)] @ map (\<lambda>(k, v). SoSetStorage k v) es"
    have "apply_net_in_record P rd nd d key upd undo = Ok (nd1, out, undo @ map (Pair key) ?ops)"
      using p(1) a Some es(1) d(1) by (simp add: apply_net_in_record_def case_prod_unfold comp_def)
    moreover have "run_ops ?ops None = view P lo" using run_sets [OF es(3)] es(2) s by simp
    moreover have "list_all so_typed ?ops" using sets_typed [OF es(4)] structured_code [OF R(2) s] by simp
    ultimately show ?thesis using d lo by (intro exI [of _ nd1] exI [of _ out] exI [of _ ?ops]) auto
  qed
qed

lemma rec_at_nonempty: "rec_at P t k r nd (Some l) \<Longrightarrow> nd \<noteq> Empty"
  by (auto simp: rec_at_def fun_eq_iff split: if_splits)

text \<open>The wipe of an update, with what it adds to the inverse.\<close>

lemma net_wipe_stage:
  assumes S: "rec_setup P key d r k" and R: "rec_at P t k r nd lo" "structured lo" and p: "prior = None \<longleftrightarrow> lo = None"
  shows "\<exists>nd1 cg lo1 w. (if nu_wipe upd then apply_wipe P nd d key prior undo else Ok (nd, False, undo)) = Ok (nd1, cg, undo @ map (Pair key) w) \<and>
    rec_at P t k r nd1 lo1 \<and> structured lo1 \<and> view P lo1 = (if nu_wipe upd then wipe_view (view P lo) else view P lo) \<and>
    (cg \<or> lo1 = lo) \<and> (lo1 = None \<longleftrightarrow> lo = None) \<and> (cg \<longrightarrow> lo \<noteq> None) \<and> (lo = None \<longrightarrow> w = []) \<and> list_all so_typed w \<and>
    (lo \<noteq> None \<longrightarrow> (\<forall>n b c x. run_ops w (Some (n, b, c, x)) = Some (n, b, c, if nu_wipe upd then slots_of (view P lo) else x)))"
proof (cases "nu_wipe upd")
  case True
  obtain nd1 cg lo1 es where e: "apply_wipe P nd d key prior undo =
      Ok (nd1, cg, undo @ map (Pair key) (if lo = None then [] else SoWipeStorage # map (\<lambda>(k, v). SoSetStorage k v) es))"
    "rec_at P t k r nd1 lo1" "structured lo1" "view P lo1 = wipe_view (view P lo)" "\<not> cg \<longrightarrow> lo1 = lo" "lo1 = None \<longleftrightarrow> lo = None"
    "cg \<longrightarrow> lo \<noteq> None" "map_of es = slots_of (view P lo)" "distinct (map fst es)" "\<forall>k \<in> fst ` set es. length k = 32"
    using apply_wipe_rep [OF S R p, of undo] by blast
  have "run_ops (SoWipeStorage # map (\<lambda>(k, v). SoSetStorage k v) es) (Some (n, b, c, x)) = Some (n, b, c, slots_of (view P lo))" for n b c x
    using run_sets [OF e(9), of n b c Map.empty] e(8) by simp
  then show ?thesis using e True sets_typed [OF e(10)]
    by (intro exI [of _ nd1] exI [of _ cg] exI [of _ lo1] exI [of _ "if lo = None then [] else SoWipeStorage # map (\<lambda>(k, v). SoSetStorage k v) es"]) auto
next
  case False
  then show ?thesis using R by (intro exI [of _ nd] exI [of _ False] exI [of _ lo] exI [of _ "[]"]) auto
qed

text \<open>Its account outcome.\<close>

lemma net_account_stage:
  assumes S: "rec_setup P key d r k" and R: "rec_at P t k r nd lo1" "structured lo1" and u: "upd_typed upd" "nu_account upd \<noteq> AoDelete"
    and p: "prior = None \<longleftrightarrow> lo1 = None" "\<forall>p. prior = Some p \<longrightarrow> (\<exists>s. a = Some (a_nonce p, a_balance p, a_code_hash p, s))"
    and v: "view P lo1 = (if nu_wipe upd then wipe_view a else a)" and cg: "cg \<longrightarrow> lo1 \<noteq> None"
    and c: "\<forall>n b c s. a = Some (n, b, c, s) \<longrightarrow> length c = 32"
  shows "\<exists>nd2 cg2 lo2 w. (case nu_account upd of
      AoSet nonce balance code_hash \<Rightarrow>
        (let undo = (case prior of None \<Rightarrow> undo
                      | Some pf \<Rightarrow> undo @ [(key, SoSetAccount (a_nonce pf) (a_balance pf) (a_code_hash pf))]) in
         res_map (\<lambda>nd. (nd, True, undo)) (record_node_insert P REC_FUEL nd d key (OpAccount nonce balance code_hash)))
    | _ \<Rightarrow> Ok (nd, cg, undo)) = Ok (nd2, cg2, undo @ map (Pair key) w) \<and>
    rec_at P t k r nd2 lo2 \<and> structured lo2 \<and> view P lo2 = fields_spec upd a \<and>
    (cg2 \<or> lo2 = lo1 \<and> \<not> cg) \<and> (cg2 \<longrightarrow> lo2 \<noteq> None) \<and> (lo1 \<noteq> None \<longrightarrow> lo2 \<noteq> None) \<and> (lo1 = None \<longrightarrow> w = []) \<and> list_all so_typed w \<and>
    (lo1 \<noteq> None \<longrightarrow> (\<exists>n b c s. a = Some (n, b, c, s) \<and> (\<exists>n' b' c' s'. view P lo2 = Some (n', b', c', s') \<and>
       (\<forall>x. run_ops w (Some (n', b', c', x)) = Some (n, b, c, x)))))"
proof (cases "nu_account upd")
  case (AoSet n b c)
  obtain l where l: "spec_op P lo1 (OpAccount n b c) = Ok l" "structured (Some l)" "view P (Some l) = Some (n, b, c, slots_of (view P lo1))"
    using view_set [OF R(2), of c P n b] u AoSet by auto
  obtain nd2 where nd2: "record_node_insert P REC_FUEL nd d key (OpAccount n b c) = Ok nd2" "rec_at P t k r nd2 (Some l)"
    using rec_insert [OF S R(1) _ l(1)] u AoSet by auto
  let ?w = "case prior of None \<Rightarrow> [] | Some pf \<Rightarrow> [SoSetAccount (a_nonce pf) (a_balance pf) (a_code_hash pf)]"
  show ?thesis using nd2 l v AoSet p c
    by (intro exI [of _ nd2] exI [of _ True] exI [of _ "Some l"] exI [of _ ?w]) (auto simp: fields_spec_def split: option.splits)
next
  case AoKeep
  show ?thesis using R v AoKeep p cg
    by (intro exI [of _ nd] exI [of _ cg] exI [of _ lo1] exI [of _ "[]"]) (auto simp: fields_spec_def split: if_splits)
qed (use u in simp)

lemma apply_update_rep:
  assumes S: "rec_setup P key d r k" and R: "rec_at P t k r nd lo" "structured lo" and u: "upd_typed upd" "nu_account upd \<noteq> AoDelete"
  shows "\<exists>nd' cg lo' ops. apply_net_in_record P rd nd d key upd undo = Ok (nd', if cg then Changed else Absent, undo @ map (Pair key) ops) \<and>
    rec_at P t k r nd' lo' \<and> structured lo' \<and> view P lo' = net_spec upd (view P lo) \<and> (cg \<or> lo' = lo) \<and> (cg \<longrightarrow> lo' \<noteq> None) \<and> list_all so_typed ops \<and>
    (run_ops ops (view P lo') = view P lo \<longleftrightarrow> \<not> loses_slot upd (view P lo))"
proof -
  let ?a = "view P lo"
  let ?s = "if nu_wipe upd then Map.empty else slots_of ?a"
  obtain prior where p: "node_prior_account P rd nd (key_nibbles key) d = Ok prior" "prior = None \<longleftrightarrow> lo = None"
    "\<forall>p. prior = Some p \<longrightarrow> (\<exists>s. ?a = Some (a_nonce p, a_balance p, a_code_hash p, s))"
    using rec_reads(2) [OF S R, of rd] by blast
  obtain nd1 cg1 lo1 w1 where s1: "(if nu_wipe upd then apply_wipe P nd d key prior undo else Ok (nd, False, undo)) = Ok (nd1, cg1, undo @ map (Pair key) w1)"
    "rec_at P t k r nd1 lo1" "structured lo1" "view P lo1 = (if nu_wipe upd then wipe_view ?a else ?a)" "cg1 \<or> lo1 = lo" "lo1 = None \<longleftrightarrow> lo = None"
    "cg1 \<longrightarrow> lo \<noteq> None" "lo = None \<longrightarrow> w1 = []" "list_all so_typed w1"
    "lo \<noteq> None \<longrightarrow> (\<forall>n b c x. run_ops w1 (Some (n, b, c, x)) = Some (n, b, c, if nu_wipe upd then slots_of ?a else x))"
    using net_wipe_stage [OF S R p(2), of upd undo] by blast
  have code: "\<forall>n b c s. ?a = Some (n, b, c, s) \<longrightarrow> length c = 32" using structured_code [OF R(2)] by blast
  have cg1: "prior = None \<longleftrightarrow> lo1 = None" "cg1 \<longrightarrow> lo1 \<noteq> None" using p(2) s1(6,7) by auto
  obtain nd2 cg2 lo2 w2 where s2: "(case nu_account upd of
      AoSet nonce balance code_hash \<Rightarrow>
        (let undo = (case prior of None \<Rightarrow> undo @ map (Pair key) w1
                      | Some pf \<Rightarrow> (undo @ map (Pair key) w1) @ [(key, SoSetAccount (a_nonce pf) (a_balance pf) (a_code_hash pf))]) in
         res_map (\<lambda>nd. (nd, True, undo)) (record_node_insert P REC_FUEL nd1 d key (OpAccount nonce balance code_hash)))
    | _ \<Rightarrow> Ok (nd1, cg1, undo @ map (Pair key) w1)) = Ok (nd2, cg2, (undo @ map (Pair key) w1) @ map (Pair key) w2)"
    "rec_at P t k r nd2 lo2" "structured lo2" "view P lo2 = fields_spec upd ?a" "cg2 \<or> lo2 = lo1 \<and> \<not> cg1" "cg2 \<longrightarrow> lo2 \<noteq> None"
    "lo1 \<noteq> None \<longrightarrow> lo2 \<noteq> None" "lo1 = None \<longrightarrow> w2 = []" "list_all so_typed w2"
    "lo1 \<noteq> None \<longrightarrow> (\<exists>n b c s. ?a = Some (n, b, c, s) \<and> (\<exists>n' b' c' s'. view P lo2 = Some (n', b', c', s') \<and>
       (\<forall>x. run_ops w2 (Some (n', b', c', x)) = Some (n, b, c, x))))"
    using net_account_stage [OF S s1(2,3) u cg1(1) p(3) s1(4) cg1(2) code, of "undo @ map (Pair key) w1"]
    by (elim exE conjE) (rule that, assumption+)
  have ss: "slots_of (view P lo2) = ?s" by (cases ?a; cases "nu_account upd") (auto simp: s2(4) fields_spec_def Let_def)
  have typed: "distinct (map fst (nu_slots upd))" "\<forall>k \<in> fst ` set (nu_slots upd). length k = 32" using u(1) by auto
  define w3 where "w3 = (if prior = None then [] else concat (map (undo_slot ?s) (nu_slots upd)))"
  obtain nd3 cg3 lo3 where s3: "apply_slots P rd d key (prior = None) (nu_slots upd) (nd2, cg2, (undo @ map (Pair key) w1) @ map (Pair key) w2) =
      Ok (nd3, cg3, ((undo @ map (Pair key) w1) @ map (Pair key) w2) @ map (Pair key) w3)"
    "rec_at P t k r nd3 lo3" "structured lo3" "view P lo3 = fold slot_spec (nu_slots upd) (view P lo2)"
    "cg2 \<longrightarrow> cg3" "\<not> cg3 \<longrightarrow> lo3 = lo2" "cg3 \<longrightarrow> cg2 \<or> lo3 \<noteq> None" "lo2 \<noteq> None \<longrightarrow> lo3 \<noteq> None"
    using apply_slots_rep [OF S s2(2,3) typed, where created = "prior = None" and cg = cg2 and rd = rd and undo = "(undo @ map (Pair key) w1) @ map (Pair key) w2",
      unfolded ss, folded w3_def] by (elim exE conjE) (rule that, assumption+)
  define ops where "ops = w1 @ w2 @ w3 @ (if prior = None \<and> cg3 then [SoDeleteAccount] else [])"
  have "apply_net_in_record P rd nd d key upd undo = Ok (nd3, if cg3 then Changed else Absent, undo @ map (Pair key) ops)"
  proof -
    have "apply_net_in_record P rd nd d key upd undo = res_map (\<lambda>(nd, changed, undo).
        (nd, if changed then Changed else Absent, if prior = None \<and> changed then undo @ [(key, SoDeleteAccount)] else undo))
      (apply_slots P rd d key (prior = None) (nu_slots upd) (nd2, cg2, (undo @ map (Pair key) w1) @ map (Pair key) w2))"
      unfolding apply_net_in_record_def p(1) res_bind.simps s1(1) using s2(1) u(2) by (cases "nu_account upd") simp_all
    then show ?thesis unfolding s3(1) by (simp add: ops_def)
  qed
  moreover have "view P lo3 = net_spec upd ?a" using s3(4) s2(4) u(2) by (simp add: net_spec_def)
  moreover have "cg3 \<or> lo3 = lo" "cg3 \<longrightarrow> lo3 \<noteq> None" using s1(5) s2(5,6) s3(5-8) by auto
  moreover have "run_ops ops (view P lo3) = ?a \<longleftrightarrow> \<not> loses_slot upd ?a"
  proof (cases "lo = None")
    case True
    then have "ops = (if cg3 then [SoDeleteAccount] else [])" using p(2) s1(6,8) s2(8) by (simp add: ops_def w3_def)
    then show ?thesis using True \<open>cg3 \<or> lo3 = lo\<close> by (auto simp: loses_slot_def)
  next
    case False
    then obtain n b c s n' b' c' s' where a: "?a = Some (n, b, c, s)" "view P lo2 = Some (n', b', c', s')"
      and w2: "\<And>x. run_ops w2 (Some (n', b', c', x)) = Some (n, b, c, x)"
      using s1(6) s2(10) by blast
    have w1: "\<And>x. run_ops w1 (Some (n', b', c', x)) = Some (n', b', c', if nu_wipe upd then s else x)" using s1(10) False a(1) by simp
    have "view P lo3 = Some (n', b', c', overlay ?s (nu_slots upd))" using s3(4) a(2) ss fold_slots_Some [OF typed(1)] by simp
    moreover have "ops = w1 @ w2 @ concat (map (undo_slot ?s) (nu_slots upd))" using False p(2) by (auto simp: ops_def w3_def)
    moreover have "undone ?s (nu_slots upd) (if nu_wipe upd then s else overlay ?s (nu_slots upd)) = s \<longleftrightarrow> \<not> loses_slot upd ?a"
      using undone_wiped [OF typed(1), of s] undone_overlay [of s] a(1) u(2) by (auto simp: loses_slot_def)
    ultimately show ?thesis using a(1) by (simp add: w1 w2 run_undo_slots [OF typed(1)])
  qed
  moreover have "list_all so_typed ops" using s1(9) s2(9) undo_typed [OF typed(2)] by (simp add: ops_def w3_def)
  ultimately show ?thesis using s3(2,3) by blast
qed

text \<open>Both together.\<close>

lemma apply_net_rep:
  assumes S: "rec_setup P key d r k" and R: "rec_at P t k r nd lo" "structured lo" and u: "upd_typed upd"
  shows "\<exists>nd' out lo' ops. apply_net_in_record P rd nd d key upd undo = Ok (nd', out, undo @ map (Pair key) ops) \<and>
    rec_at P t k r nd' lo' \<and> structured lo' \<and> view P lo' = net_spec upd (view P lo) \<and>
    (out = Absent \<longrightarrow> lo' = lo) \<and> (out = Removed \<longrightarrow> nd' = Empty) \<and> (out = Changed \<longrightarrow> nd' \<noteq> Empty) \<and>
    list_all so_typed ops \<and> (lo \<noteq> None \<and> lo' = None \<longrightarrow> (\<exists>n b c. SoSetAccount n b c \<in> set ops)) \<and>
    (run_ops ops (view P lo') = view P lo \<longleftrightarrow> \<not> loses_slot upd (view P lo))"
proof (cases "nu_account upd = AoDelete")
  case True
  obtain nd' out ops where d: "apply_net_in_record P rd nd d key upd undo = Ok (nd', out, undo @ map (Pair key) ops)"
    "rec_at P t k r nd' None" "out = Absent \<longleftrightarrow> lo = None" "out = Removed \<longleftrightarrow> lo \<noteq> None \<and> nd' = Empty" "run_ops ops None = view P lo" "list_all so_typed ops"
    "lo \<noteq> None \<longrightarrow> (\<exists>n b c. SoSetAccount n b c \<in> set ops)"
    using apply_delete_rep [OF S R True, of rd undo] by (elim exE conjE) (rule that, assumption+)
  then show ?thesis using True
    by (intro exI [of _ nd'] exI [of _ out] exI [of _ None] exI [of _ ops]) (cases out, auto simp: net_spec_def structured_def loses_slot_def)
next
  case False
  obtain nd' cg lo' ops where e: "apply_net_in_record P rd nd d key upd undo = Ok (nd', if cg then Changed else Absent, undo @ map (Pair key) ops)"
    "rec_at P t k r nd' lo'" "structured lo'" "view P lo' = net_spec upd (view P lo)" "cg \<or> lo' = lo" "cg \<longrightarrow> lo' \<noteq> None" "list_all so_typed ops"
    "run_ops ops (view P lo') = view P lo \<longleftrightarrow> \<not> loses_slot upd (view P lo)"
    using apply_update_rep [OF S R u False, of rd undo] by (elim exE conjE) (rule that, assumption+)
  then show ?thesis
    by (intro exI [of _ nd'] exI [of _ "if cg then Changed else Absent"] exI [of _ lo'] exI [of _ ops]) (auto dest: rec_at_nonempty)
qed

end
