(* ===== verification/BlockSpec.thy ===== *)
theory BlockSpec
  imports BlockRecord Demo
begin

text \<open>
  Properties of block updates: normalization against the operations one after the
  other, a net update on a record, and the operations that undo it.
\<close>

section \<open>Same contents, same root\<close>

lemma tref_contents:
  assumes "wf0 t r" and "wf0 t' r'" and "\<And>q. map_option (leaf_value P) (tlook t q) = map_option (leaf_value P) (tlook t' q)"
  shows "tref P t = tref P t'"
proof -
  have e: "entries P t = entries P t'"
    by (rule sorted_keys_unique [OF sorted_entries [OF assms(1)] sorted_entries [OF assms(2)]])
      (use assms(3) map_of_entries [OF assms(1)] map_of_entries [OF assms(2)] in \<open>simp add: fun_eq_iff\<close>)
  have "t = TEmpty \<longleftrightarrow> t' = TEmpty"
    using entries_nonempty [of t r P] entries_nonempty [of t' r' P] e assms(1,2) by (auto simp: wf0_def)
  moreover have "trlp P t = trlp P t'" if "t \<noteq> TEmpty" "t' \<noteq> TEmpty"
    using encode_node_entries [of t r P] encode_node_entries [of t' r' P] e assms(1,2) that by (auto simp: wf0_def)
  ultimately show ?thesis by (cases "t = TEmpty") (auto simp: tref_trlp)
qed

text \<open>Structured leaves with the same view have the same value, nested root included.\<close>

lemma view_leaf_value:
  assumes "structured lo" and "structured lo'" and v: "view P lo = view P lo'"
  shows "map_option (leaf_value P) lo = map_option (leaf_value P) lo'"
  using assms(1)
proof (cases rule: structured_cases)
  case absent
  then show ?thesis using view_none_iff [OF assms(2), of P] v by simp
next
  case (acct n b c s)
  have n: "lo' \<noteq> None" using acct v by (cases lo') (auto simp: view_def)
  obtain s' where s': "lo' = Some (LAcct n b c s')" "leaf_ok (LAcct n b c s')"
    using assms(2) n v acct by (cases rule: structured_cases) (auto simp: view_def)
  have w: "wf0 s 64" "wf0 s' 64" using acct(2) s'(2) by (auto simp: wf0_def)
  have long: "length q = 64 \<and> nibs_ok q" if "tlook x q \<noteq> None" "wf0 x 64" for x q
    using that wf_key_length wf_key_nibs by (cases "x = TEmpty") (auto simp: wf0_def)
  have "map_option (leaf_value P) (tlook s q) = map_option (leaf_value P) (tlook s' q)" for q
  proof (cases "length q = 64 \<and> nibs_ok q")
    case True
    then have "key_nibbles (key_of q) = q" "length (key_of q) = 32" by (simp_all add: nibbles_key_of length_key_of)
    moreover have "slots_of (view P lo) (key_of q) = slots_of (view P lo') (key_of q)" using v by simp
    ultimately show ?thesis by (simp add: acct(1) s'(1) view_def)
  next
    case False
    then have "tlook s q = None" "tlook s' q = None" using long w by blast+
    then show ?thesis by simp
  qed
  then have "troot P s = troot P s'" using tref_contents [OF w] by (simp add: troot_def)
  then show ?thesis by (simp add: acct(1) s'(1))
qed

section \<open>Normalization\<close>

lemma norm_keeps_outcome: "nu_account upd \<noteq> AoKeep \<Longrightarrow> nu_account (fold norm_upd ops upd) \<noteq> AoKeep"
proof (induction ops arbitrary: upd)
  case (Cons op ops)
  then have "nu_account (norm_upd op upd) \<noteq> AoKeep" by (cases op) auto
  then show ?case using Cons.IH by simp
qed simp

lemma norm_sets_outcome: "SoSetAccount n b c \<in> set ops \<Longrightarrow> nu_account (fold norm_upd ops upd) \<noteq> AoKeep"
proof (induction ops arbitrary: upd)
  case (Cons op ops)
  then show ?case using norm_keeps_outcome [of "norm_upd op upd" ops] by auto
qed simp

lemma set_slot_mem: "x \<in> set (set_slot k v slots) \<Longrightarrow> fst x = k \<or> (\<exists>y \<in> set slots. fst y = fst x)"
  by (force simp: set_slot_def split: if_splits)

lemma norm_typed: "list_all so_typed ops \<Longrightarrow> upd_typed upd \<Longrightarrow> upd_typed (fold norm_upd ops upd)"
proof (induction ops arbitrary: upd)
  case (Cons op ops)
  have "upd_typed (norm_upd op upd)" using Cons.prems by (cases op) (auto simp: set_slot_distinct dest!: set_slot_mem)
  then show ?case using Cons by simp
qed simp

lemma ops_of_pair: "ops_of (map (Pair key) ops) k = (if k = key then ops else [])"
  by (induction ops) (auto simp: ops_of_def)

lemma normalize_one:
  "\<exists>m. normalize_block (map (Pair key) ops) = Ok m \<and> m = (if ops = [] then [] else [(key, fold norm_upd ops nu_new)]) \<and>
    (\<forall>a. follows (fold norm_upd ops nu_new) a (run_ops ops a))"
proof -
  obtain m idx where m: "normalize_block (map (Pair key) ops) = Ok m" "norm_inv (map (Pair key) ops) (m, idx)"
    using normalize_block_inv by blast
  then have I: "sorted_keys m" "\<And>k. map_of m k = None \<longleftrightarrow> ops_of (map (Pair key) ops) k = []"
    "\<And>k. upd_of m k = fold norm_upd (ops_of (map (Pair key) ops) k) nu_new"
    "\<And>k a. follows (upd_of m k) a (fold so_spec (ops_of (map (Pair key) ops) k) a)"
    unfolding norm_inv_def split_conv by blast+
  have k: "upd_of m key = fold norm_upd ops nu_new" using I(3) [of key] by (simp add: ops_of_pair)
  have "map_of m q = map_of (if ops = [] then [] else [(key, fold norm_upd ops nu_new)]) q" for q
    using I(2) [of q] k by (cases "map_of m q") (auto simp: ops_of_pair upd_of_def split: if_splits)
  then have "m = (if ops = [] then [] else [(key, fold norm_upd ops nu_new)])"
    by (intro sorted_keys_unique [OF I(1)]) (auto simp: fun_eq_iff)
  then show ?thesis using m(1) I(4) [of key] k by (auto simp: ops_of_pair)
qed

section \<open>Properties\<close>

text \<open>C12: Normalizing a block never fails and yields one update per touched account, in key
  order; on every account the update does what the operations do one after the other. The
  only difference (\<open>follows\<close>) is an account that did not exist and that writes of slots alone
  have created: when all these slots are deleted again, the update leaves it absent.\<close>

theorem normalize_block_sequential:
  "\<exists>m. normalize_block ops = Ok m \<and> sorted_keys m \<and> (\<forall>key. map_of m key = None \<longleftrightarrow> ops_of ops key = []) \<and>
    (\<forall>key a. follows (upd_of m key) a (run_ops (ops_of ops key) a))"
proof -
  obtain m idx where "normalize_block ops = Ok m" "norm_inv ops (m, idx)" using normalize_block_inv by blast
  then show ?thesis unfolding norm_inv_def split_conv by blast
qed

text \<open>The difference is real: a slot written and deleted on a missing account.\<close>

theorem normalize_drops_account:
  "\<exists>m. normalize_block (map (Pair key) [SoSetStorage slot v, SoDeleteStorage slot]) = Ok m \<and>
    net_spec (upd_of m key) None = None \<and> run_ops [SoSetStorage slot v, SoDeleteStorage slot] None \<noteq> None"
proof -
  have "fold norm_upd [SoSetStorage slot v, SoDeleteStorage slot] nu_new = \<lparr>nu_wipe = False, nu_account = AoKeep, nu_slots = [(slot, None)]\<rparr>"
    by (simp add: nu_new_def set_slot_def)
  then show ?thesis
    using normalize_one [of key "[SoSetStorage slot v, SoDeleteStorage slot]"] by (auto simp: upd_of_def net_spec_def fields_spec_def)
qed

text \<open>C13: A net update on a record of structured accounts succeeds. The record stands for the
  trie with exactly this account changed, wiped first, then set or deleted, then written slot
  by slot; \<^verbatim>\<open>Absent\<close> leaves the contents alone, \<^verbatim>\<open>Removed\<close> empties the record and
  \<^verbatim>\<open>Changed\<close> does not.\<close>

theorem net_update_refines:
  assumes "rec_setup P key d r k" and "repr P nd t" and "wf0 t r" and "structured (tlook t k)" and "upd_typed upd"
  shows "\<exists>nd' out ops t'. apply_net_in_record P rd nd d key upd undo = Ok (nd', out, undo @ map (Pair key) ops) \<and>
    repr P nd' t' \<and> wf0 t' r \<and> hash_node P nd' = tref P t' \<and> tlook t' = (tlook t)(k := tlook t' k) \<and>
    view P (tlook t' k) = net_spec upd (view P (tlook t k)) \<and>
    (out = Absent \<longrightarrow> tlook t' = tlook t) \<and> (out = Removed \<longrightarrow> nd' = Empty) \<and> (out = Changed \<longrightarrow> nd' \<noteq> Empty)"
proof -
  have "rec_at P t k r nd (tlook t k)" using assms(2,3) by (auto simp: rec_at_def)
  from apply_net_rep [OF assms(1) this assms(4,5), of rd undo] obtain nd' out lo' ops where
    n: "apply_net_in_record P rd nd d key upd undo = Ok (nd', out, undo @ map (Pair key) ops)" "rec_at P t k r nd' lo'"
    "view P lo' = net_spec upd (view P (tlook t k))" "out = Absent \<longrightarrow> lo' = tlook t k" "out = Removed \<longrightarrow> nd' = Empty" "out = Changed \<longrightarrow> nd' \<noteq> Empty"
    by (elim exE conjE) (rule that, assumption+)
  then obtain t' where "repr P nd' t'" "wf0 t' r" "tlook t' = (tlook t)(k := lo')" by (auto simp: rec_at_def)
  then show ?thesis using n hash_node_repr by (intro exI [of _ nd'] exI [of _ out] exI [of _ ops] exI [of _ t']) auto
qed

text \<open>A record with a structured account: nonce 1, balance 5 and one slot.\<close>

lemma demo_rec_setup [simp]: "rec_setup demo demo_key2 0 64 (key_nibbles demo_key2)"
  by (simp add: rec_setup_def)

lemma demo_structured [simp]: "structured (tlook demo_trie2 (key_nibbles demo_key2))"
  by (simp add: structured_def)

lemma demo_view [simp]: "view demo (tlook demo_trie2 (key_nibbles demo_key2)) = Some (1, 5, EMPTY_CODE_HASH, [demo_key1 \<mapsto> [9]])"
  by (auto simp: view_def fun_eq_iff key_nibbles_inj)

definition demo_upd :: "bool \<Rightarrow> net_update" where
  "demo_upd w = \<lparr>nu_wipe = w, nu_account = AoKeep, nu_slots = [(demo_key1, Some [3])]\<rparr>"

lemma demo_upd_typed [simp]: "upd_typed (demo_upd w)"
  by (simp add: demo_upd_def)

theorem net_update_refines_witness:
  "\<exists>nd' out ops t'. apply_net_in_record demo demo_rd (mat demo demo_trie2) 0 demo_key2 (demo_upd True) [] = Ok (nd', out, [] @ map (Pair demo_key2) ops) \<and>
    repr demo nd' t' \<and> wf0 t' 64 \<and> hash_node demo nd' = tref demo t' \<and>
    tlook t' = (tlook demo_trie2)(key_nibbles demo_key2 := tlook t' (key_nibbles demo_key2)) \<and>
    view demo (tlook t' (key_nibbles demo_key2)) = net_spec (demo_upd True) (view demo (tlook demo_trie2 (key_nibbles demo_key2))) \<and>
    (out = Absent \<longrightarrow> tlook t' = tlook demo_trie2) \<and> (out = Removed \<longrightarrow> nd' = Empty) \<and> (out = Changed \<longrightarrow> nd' \<noteq> Empty)"
  by (rule net_update_refines) (simp_all del: upd_typed.simps tlook_demo_trie2)



section \<open>Rolling a record back\<close>

text \<open>The updates of a normalized block, applied to one record in key order.\<close>

definition apply_all :: "prims \<Rightarrow> (disk_ptr \<Rightarrow> disk_subtree res) \<Rightarrow> nat \<Rightarrow> node \<Rightarrow> (bytes \<times> net_update) list \<Rightarrow> node res" where
  "apply_all P rd d = res_foldM (\<lambda>nd (key, upd). res_map fst (apply_net_in_record P rd nd d key upd []))"



end
