(* ===== verification/Cursor.thy ===== *)
theory Cursor
  imports Block
begin

text \<open>
  Ordered cursors over the leaves (\<^verbatim>\<open>src/cursor.rs\<close>): the successor walk through
  records and frontier, the one-record memo, and the account and storage cursors.
  The debug assertions of the source are not modelled.
\<close>

section \<open>Types\<close>

record account_entry =
  ae_key :: bytes
  ae_nonce :: u64
  ae_balance :: u256
  ae_code_hash :: bytes
  ae_storage_root :: bytes

datatype leaf_out =
    LoAccount u64 u256 bytes bytes
  | LoValue bytes

type_synonym seek_hit = "nibs \<times> leaf_out"

text \<open>A walk reads through the memo of its cursor.\<close>

type_synonym record_memo = "(u32 \<times> disk_subtree) option"

type_synonym 'a cm = "record_memo \<Rightarrow> 'a res \<times> record_memo"

definition cret :: "'a \<Rightarrow> 'a cm" where
  "cret x = (\<lambda>m. (Ok x, m))"

definition clift :: "'a res \<Rightarrow> 'a cm" where
  "clift r = (\<lambda>m. (r, m))"

definition cbind :: "'a cm \<Rightarrow> ('a \<Rightarrow> 'b cm) \<Rightarrow> 'b cm" where
  "cbind c g = (\<lambda>m. case c m of (r, m') \<Rightarrow> (case r of Ok x \<Rightarrow> g x m' | Err e \<Rightarrow> (Err e, m')))"

definition memo_read :: "prims \<Rightarrow> flat_file \<Rightarrow> disk_ptr \<Rightarrow> disk_subtree cm" where
  "memo_read P f ptr = (\<lambda>m.
     let read = (case read_lazy P f ptr of Ok sub \<Rightarrow> (Ok sub, Some (dp_unit ptr, sub)) | Err e \<Rightarrow> (Err e, m)) in
     (case m of
        Some (unit, sub) \<Rightarrow> if unit = dp_unit ptr then (Ok sub, m) else read
      | None \<Rightarrow> read))"

section \<open>Keys\<close>

text \<open>The loop over the bytes from the last one: carry on while the byte wraps.\<close>

fun bump :: "bytes \<Rightarrow> bytes option" where
  "bump [] = None"
| "bump (b # bs) = (if b + 1 \<noteq> 0 then Some ((b + 1) # bs) else map_option (Cons 0) (bump bs))"

definition key_successor :: "bytes \<Rightarrow> bytes option" where
  "key_successor key = map_option rev (bump (rev key))"

definition cursor_key :: "nibs \<Rightarrow> bytes res" where
  "cursor_key nibbles =
     (if 64 < length nibbles then Err (Panic ''index out of bounds'')
      else res_map (\<lambda>k. k @ replicate (32 - length k) 0) (pack_key nibbles))"

datatype rel_out = OnPath | AllGreater | AllLess

definition rel :: "nibs \<Rightarrow> nibs \<Rightarrow> rel_out" where
  "rel prefix target =
     (let n = min (length prefix) (length target) in
      if take n prefix < take n target then AllLess
      else if take n target < take n prefix then AllGreater else OnPath)"

section \<open>The walk through a record\<close>

text \<open>\<open>start\<close> and the loop over the slots of a branch; \<open>min_from\<close> is the mode of a slot.\<close>

definition seek_start :: "bool \<Rightarrow> nibs \<Rightarrow> nat \<Rightarrow> nat" where
  "seek_start min_mode target depth = (if min_mode \<or> length target \<le> depth then 0 else unat (target ! depth))"

fun try_slots :: "(nibs \<Rightarrow> nibs \<Rightarrow> bool \<Rightarrow> seek_hit option cm) option list \<Rightarrow> nat list \<Rightarrow> nibs \<Rightarrow> nibs \<Rightarrow> (nat \<Rightarrow> bool) \<Rightarrow> seek_hit option cm" where
  "try_slots fs [] prefix target sub_min = cret None"
| "try_slots fs (i # is) prefix target sub_min =
     cbind (clift (index fs i)) (\<lambda>child.
       (case child of
          None \<Rightarrow> try_slots fs is prefix target sub_min
        | Some walk \<Rightarrow> cbind (walk (prefix @ [word_of_nat i]) target (sub_min i)) (\<lambda>out.
            if out \<noteq> None then cret out else try_slots fs is prefix target sub_min)))"

definition seek_branch :: "(nibs \<Rightarrow> nibs \<Rightarrow> bool \<Rightarrow> seek_hit option cm) option list \<Rightarrow> nibs \<Rightarrow> nibs \<Rightarrow> bool \<Rightarrow> seek_hit option cm" where
  "seek_branch fs prefix target min_mode =
     (let depth = length prefix; start = seek_start min_mode target depth in
      try_slots fs [start..<16] prefix target (\<lambda>i. min_mode \<or> start < i \<or> length target \<le> depth))"

definition seek_ext :: "(nibs \<Rightarrow> nibs \<Rightarrow> bool \<Rightarrow> seek_hit option cm) \<Rightarrow> nibs \<Rightarrow> nibs \<Rightarrow> bool \<Rightarrow> seek_hit option cm" where
  "seek_ext walk full target min_mode =
     (if min_mode then walk full target True
      else (case rel full target of
              AllLess \<Rightarrow> cret None
            | AllGreater \<Rightarrow> walk full target True
            | OnPath \<Rightarrow> walk full target False))"

primrec node_seek :: "prims \<Rightarrow> flat_file \<Rightarrow> nat \<Rightarrow> node \<Rightarrow> nibs \<Rightarrow> nibs \<Rightarrow> bool \<Rightarrow> seek_hit option cm" where
  "node_seek P f 0 = (\<lambda>nd prefix target min_mode. clift (Err NoFuel))"
| "node_seek P f (Suc fuel) = (\<lambda>nd prefix target min_mode.
     (case nd of
        Empty \<Rightarrow> cret None
      | Leaf path value nref \<Rightarrow>
          (let full = prefix @ path in
           cret (if min_mode \<or> (take (min (length full) (length target)) target \<le> full \<and> rel full target \<noteq> AllLess)
                 then (if min_mode \<or> target \<le> full then Some (full, LoValue value) else None)
                 else None))
      | Account path nonce balance code_hash storage storage_root nref \<Rightarrow>
          (let full = prefix @ path in
           cret (if min_mode \<or> target \<le> full then Some (full, LoAccount nonce balance code_hash storage_root) else None))
      | Extension path child nref \<Rightarrow> seek_ext (node_seek P f fuel child) (prefix @ path) target min_mode
      | Branch children nref \<Rightarrow> seek_branch (map (map_option (node_seek P f fuel)) children) prefix target min_mode
      | Overflow ptr root \<Rightarrow> cbind (memo_read P f ptr) (\<lambda>sub. node_seek P f fuel (ds_node sub) prefix target min_mode)
      | Raw buf off len nref \<Rightarrow> cbind (clift (parse_node_lazy P buf off len)) (\<lambda>n. node_seek P f fuel n prefix target min_mode)))"

declare node_seek.simps(2) [simp del]

section \<open>The walk through the frontier\<close>

primrec ram_seek :: "prims \<Rightarrow> flat_file \<Rightarrow> ram_node \<Rightarrow> nibs \<Rightarrow> nibs \<Rightarrow> bool \<Rightarrow> seek_hit option cm"
  and ram_child_seek :: "prims \<Rightarrow> flat_file \<Rightarrow> ram_child \<Rightarrow> nibs \<Rightarrow> nibs \<Rightarrow> bool \<Rightarrow> seek_hit option cm" where
  "ram_seek P f REmpty = (\<lambda>prefix target min_mode. cret None)"
| "ram_seek P f (RExtension path child hash) = (\<lambda>prefix target min_mode.
     seek_ext (ram_seek P f child) (prefix @ path) target min_mode)"
| "ram_seek P f (RBranch children hash) = (\<lambda>prefix target min_mode.
     seek_branch (map (map_option (ram_child_seek P f)) children) prefix target min_mode)"
| "ram_child_seek P f (RRam nd) = ram_seek P f nd"
| "ram_child_seek P f (RDisk ptr root) = (\<lambda>prefix target min_mode.
     cbind (memo_read P f ptr) (\<lambda>sub. node_seek P f REC_FUEL (ds_node sub) prefix target min_mode))"
| "ram_child_seek P f (RMem bs root) = (\<lambda>prefix target min_mode.
     cbind (clift (parse_payload_lazy P bs)) (\<lambda>sub. node_seek P f REC_FUEL (ds_node sub) prefix target min_mode))"
| "ram_child_seek P f (RAccount path nonce balance code_hash storage) = (\<lambda>prefix target min_mode.
     (let full = prefix @ path in
      if min_mode \<or> target \<le> full then
        cbind (clift (hash_ram P storage)) (\<lambda>(storage_root, _).
          cret (Some (full, LoAccount nonce (bal_of balance) code_hash storage_root)))
      else cret None))"

section \<open>The account cursor\<close>

record cursor =
  cu_upper :: ram_node
  cu_memo :: record_memo
  cu_last :: "bytes option"

definition account_cursor :: "ram_node \<Rightarrow> cursor" where
  "account_cursor upper = \<lparr>cu_upper = upper, cu_memo = None, cu_last = None\<rparr>"

definition account_seek :: "prims \<Rightarrow> flat_file \<Rightarrow> cursor \<Rightarrow> bytes \<Rightarrow> account_entry option res \<times> cursor" where
  "account_seek P f cu key =
     (case ram_seek P f (cu_upper cu) [] (key_nibbles key) False (cu_memo cu) of
        (Err e, m) \<Rightarrow> (Err e, cu\<lparr>cu_memo := m\<rparr>)
      | (Ok None, m) \<Rightarrow> (Ok None, cu\<lparr>cu_memo := m, cu_last := None\<rparr>)
      | (Ok (Some (nibbles, out)), m) \<Rightarrow>
          (case cursor_key nibbles of
             Err e \<Rightarrow> (Err e, cu\<lparr>cu_memo := m\<rparr>)
           | Ok k \<Rightarrow>
               (case out of
                  LoAccount nonce balance code_hash storage_root \<Rightarrow>
                    (Ok (Some \<lparr>ae_key = k, ae_nonce = nonce, ae_balance = balance, ae_code_hash = code_hash,
                       ae_storage_root = storage_root\<rparr>), cu\<lparr>cu_memo := m, cu_last := Some k\<rparr>)
                | LoValue v \<Rightarrow>
                    (case account_decode P v of
                       None \<Rightarrow> (Err (Bail ''account leaf RLP''), cu\<lparr>cu_memo := m, cu_last := Some k\<rparr>)
                     | Some a \<Rightarrow>
                         (Ok (Some \<lparr>ae_key = k, ae_nonce = a_nonce a, ae_balance = a_balance a, ae_code_hash = a_code_hash a,
                            ae_storage_root = a_storage_root a\<rparr>), cu\<lparr>cu_memo := m, cu_last := Some k\<rparr>)))))"

definition account_next :: "prims \<Rightarrow> flat_file \<Rightarrow> cursor \<Rightarrow> account_entry option res \<times> cursor" where
  "account_next P f cu =
     (case cu_last cu of
        None \<Rightarrow> (Ok None, cu)
      | Some prev \<Rightarrow>
          (case key_successor prev of
             None \<Rightarrow> (Ok None, cu\<lparr>cu_last := None\<rparr>)
           | Some nxt \<Rightarrow> account_seek P f cu nxt))"

section \<open>The storage cursor\<close>

datatype storage_ref = SrNode node | SrRam ram_node

text \<open>The descent to an account's storage; the closure of the source is applied to the result.\<close>

primrec record_account_storage :: "prims \<Rightarrow> flat_file \<Rightarrow> nat \<Rightarrow> node \<Rightarrow> nibs \<Rightarrow> nat \<Rightarrow> storage_ref option res" where
  "record_account_storage P f 0 = (\<lambda>nd nibbles depth. Err NoFuel)"
| "record_account_storage P f (Suc fuel) = (\<lambda>nd nibbles depth.
     (case nd of
        Empty \<Rightarrow> Ok None
      | Leaf path value nref \<Rightarrow> Ok None
      | Account path nonce balance code_hash storage storage_root nref \<Rightarrow>
          res_bind (from_idx nibbles depth) (\<lambda>rest. Ok (if rest = path then Some (SrNode storage) else None))
      | Extension path child nref \<Rightarrow>
          res_bind (from_idx nibbles depth) (\<lambda>rest.
            if starts_with rest path then record_account_storage P f fuel child nibbles (depth + length path) else Ok None)
      | Branch children nref \<Rightarrow>
          res_bind (index nibbles depth) (\<lambda>nib.
          res_bind (index children (unat nib)) (\<lambda>c.
            case c of Some child \<Rightarrow> record_account_storage P f fuel child nibbles (depth + 1) | None \<Rightarrow> Ok None))
      | Overflow ptr root \<Rightarrow>
          res_bind (read_lazy P f ptr) (\<lambda>sub. record_account_storage P f fuel (ds_node sub) nibbles (length (ds_prefix sub)))
      | Raw buf off len nref \<Rightarrow>
          res_bind (parse_node_lazy P buf off len) (\<lambda>n. record_account_storage P f fuel n nibbles depth)))"

declare record_account_storage.simps(2) [simp del]

primrec with_account_storage :: "prims \<Rightarrow> flat_file \<Rightarrow> ram_node \<Rightarrow> nibs \<Rightarrow> nat \<Rightarrow> storage_ref option res"
  and with_account_storage_child :: "prims \<Rightarrow> flat_file \<Rightarrow> ram_child \<Rightarrow> nibs \<Rightarrow> nat \<Rightarrow> storage_ref option res" where
  "with_account_storage P f REmpty = (\<lambda>nibbles depth. Ok None)"
| "with_account_storage P f (RExtension path child hash) = (\<lambda>nibbles depth.
     res_bind (from_idx nibbles depth) (\<lambda>rest.
       if starts_with rest path then with_account_storage P f child nibbles (depth + length path) else Ok None))"
| "with_account_storage P f (RBranch children hash) = (\<lambda>nibbles depth.
     res_bind (index nibbles depth) (\<lambda>nib.
     res_bind (index (map (map_option (with_account_storage_child P f)) children) (unat nib)) (\<lambda>slot.
       (case slot of None \<Rightarrow> Ok None | Some walk \<Rightarrow> walk nibbles (depth + 1)))))"
| "with_account_storage_child P f (RRam sub) = with_account_storage P f sub"
| "with_account_storage_child P f (RAccount path nonce balance code_hash storage) = (\<lambda>nibbles depth.
     res_bind (from_idx nibbles depth) (\<lambda>rest. Ok (if rest = path then Some (SrRam storage) else None)))"
| "with_account_storage_child P f (RDisk ptr root) = (\<lambda>nibbles depth.
     res_bind (read_lazy P f ptr) (\<lambda>sub. record_account_storage P f REC_FUEL (ds_node sub) nibbles (length (ds_prefix sub))))"
| "with_account_storage_child P f (RMem bs root) = (\<lambda>nibbles depth.
     res_bind (parse_payload_lazy P bs) (\<lambda>sub. record_account_storage P f REC_FUEL (ds_node sub) nibbles (length (ds_prefix sub))))"

text \<open>A storage cursor is a cursor with the key of its account.\<close>

record slot_cursor = cursor +
  sc_account :: bytes

definition storage_cursor :: "ram_node \<Rightarrow> bytes \<Rightarrow> slot_cursor" where
  "storage_cursor upper key = \<lparr>cu_upper = upper, cu_memo = None, cu_last = None, sc_account = key\<rparr>"

definition storage_seek :: "prims \<Rightarrow> flat_file \<Rightarrow> slot_cursor \<Rightarrow> bytes \<Rightarrow> (bytes \<times> bytes) option res \<times> slot_cursor" where
  "storage_seek P f cu slot_key =
     (let target = key_nibbles slot_key in
      (case with_account_storage P f (cu_upper cu) (key_nibbles (sc_account cu)) 0 of
         Err e \<Rightarrow> (Err e, cu)
       | Ok storage \<Rightarrow>
           (case (case storage of
                    None \<Rightarrow> cret None
                  | Some (SrNode n) \<Rightarrow> node_seek P f REC_FUEL n [] target False
                  | Some (SrRam n) \<Rightarrow> ram_seek P f n [] target False) (cu_memo cu) of
              (Err e, m) \<Rightarrow> (Err e, cu\<lparr>cu_memo := m\<rparr>)
            | (Ok None, m) \<Rightarrow> (Ok None, cu\<lparr>cu_memo := m, cu_last := None\<rparr>)
            | (Ok (Some (nibbles, LoValue v)), m) \<Rightarrow>
                (case cursor_key nibbles of
                   Err e \<Rightarrow> (Err e, cu\<lparr>cu_memo := m\<rparr>)
                 | Ok k \<Rightarrow> (Ok (Some (k, v)), cu\<lparr>cu_memo := m, cu_last := Some k\<rparr>))
            | (Ok (Some (nibbles, LoAccount _ _ _ _)), m) \<Rightarrow>
                (Err (Bail ''account node inside a storage trie''), cu\<lparr>cu_memo := m\<rparr>))))"

definition storage_next :: "prims \<Rightarrow> flat_file \<Rightarrow> slot_cursor \<Rightarrow> (bytes \<times> bytes) option res \<times> slot_cursor" where
  "storage_next P f cu =
     (case cu_last cu of
        None \<Rightarrow> (Ok None, cu)
      | Some prev \<Rightarrow>
          (case key_successor prev of
             None \<Rightarrow> (Ok None, cu\<lparr>cu_last := None\<rparr>)
           | Some nxt \<Rightarrow> storage_seek P f cu nxt))"

end
