(* ===== verification/CursorProofs.thy ===== *)
theory CursorProofs
  imports Cursor BlockRecord FrontierGet
begin

text \<open>
  The successor walk finds the least leaf from its target on, in records and in the
  frontier, and keeps its memo true to the file.
\<close>

section \<open>The least entry from a bound on\<close>

definition least_from :: "('k::linorder \<rightharpoonup> 'v) \<Rightarrow> 'k \<Rightarrow> ('k \<times> 'v) option \<Rightarrow> bool" where
  "least_from m x r = (case r of
      None \<Rightarrow> (\<forall>k. m k \<noteq> None \<longrightarrow> k < x)
    | Some (k, v) \<Rightarrow> m k = Some v \<and> x \<le> k \<and> (\<forall>k'. m k' \<noteq> None \<longrightarrow> x \<le> k' \<longrightarrow> k \<le> k'))"

lemma least_from_None [simp]: "least_from m x None = (\<forall>k. m k \<noteq> None \<longrightarrow> k < x)"
  by (simp add: least_from_def)

lemma least_from_Some [simp]:
  "least_from m x (Some (k, v)) = (m k = Some v \<and> x \<le> k \<and> (\<forall>k'. m k' \<noteq> None \<longrightarrow> x \<le> k' \<longrightarrow> k \<le> k'))"
  by (simp add: least_from_def)

lemma least_from_unique: "least_from m x r \<Longrightarrow> least_from m x r' \<Longrightarrow> r = r'"
  by (cases r; cases r'; clarsimp simp del: not_None_eq; metis antisym leD option.distinct(1) option.inject)

lemma append_le [simp]: "p @ a \<le> p @ b \<longleftrightarrow> a \<le> (b :: 'a::linorder list)"
  by (induction p) auto

lemma append_less [simp]: "p @ a < p @ b \<longleftrightarrow> a < (b :: 'a::linorder list)"
  by (induction p) auto

lemma less_take: "length p = n \<Longrightarrow> n \<le> length x \<Longrightarrow> p < take n x \<Longrightarrow> p @ k < (x :: 'a::linorder list)"
proof (induction p arbitrary: n x)
  case (Cons a p)
  then obtain b y where "x = b # y" by (cases x) auto
  then show ?case using Cons by auto
qed auto

lemma take_less: "length p = n \<Longrightarrow> n \<le> length x \<Longrightarrow> take n x < p \<Longrightarrow> x < p @ (k :: 'a::linorder list)"
proof (induction p arbitrary: n x)
  case (Cons a p)
  then obtain b y where "x = b # y" by (cases x) auto
  then show ?case using Cons by auto
qed auto

section \<open>Walks\<close>

definition memo_ok :: "prims \<Rightarrow> (disk_ptr \<rightharpoonup> bytes) \<Rightarrow> record_memo \<Rightarrow> bool" where
  "memo_ok P M m = (\<forall>unit sub ptr p. m = Some (unit, sub) \<longrightarrow> M ptr = Some p \<longrightarrow> dp_unit ptr = unit \<longrightarrow>
     deserialize_subtree_lazy P p = Ok sub)"

text \<open>The unit of a record determines it.\<close>

definition one_record :: "(disk_ptr \<rightharpoonup> bytes) \<Rightarrow> bool" where
  "one_record M = (\<forall>ptr ptr' p p'. M ptr = Some p \<longrightarrow> M ptr' = Some p' \<longrightarrow> dp_unit ptr = dp_unit ptr' \<longrightarrow> p = p')"

lemma holds_same:
  assumes "holds d ptr p" and "holds d ptr' p'" and "dp_unit ptr = dp_unit ptr'"
  shows "p = p'"
proof -
  have o': "dp_offset ptr = dp_offset ptr'" using assms(3) by (simp add: dp_offset_def)
  have h: "has_at d (dp_offset ptr) (le_bytes 4 (length p) @ p)" "has_at d (dp_offset ptr) (le_bytes 4 (length p') @ p')"
    using assms(1,2) o' by (auto simp: holds_def frame_def)
  then have a: "has_at d (dp_offset ptr) (le_bytes 4 (length p))" "has_at d (dp_offset ptr) (le_bytes 4 (length p'))"
    and b: "has_at d (dp_offset ptr + 4) p" "has_at d (dp_offset ptr + 4) p'"
    unfolding has_at_append length_le_bytes by blast+
  have "le_bytes 4 (length p) = le_bytes 4 (length p')" using a by (metis has_at_def length_le_bytes)
  moreover have "length p < 256 ^ 4" "length p' < 256 ^ 4" using assms(1,2) by (simp_all add: holds_def)
  ultimately have "length p = length p'" by (metis le_val_le_bytes mod_less)
  then show ?thesis using b by (metis has_at_def)
qed

lemma holds_one_record: "(\<And>ptr p. M ptr = Some p \<Longrightarrow> holds d ptr p) \<Longrightarrow> one_record M"
  unfolding one_record_def using holds_same by blast

definition walks :: "prims \<Rightarrow> (disk_ptr \<rightharpoonup> bytes) \<Rightarrow> 'a cm \<Rightarrow> ('a \<Rightarrow> bool) \<Rightarrow> bool" where
  "walks P M c Q = (\<forall>m. memo_ok P M m \<longrightarrow> (\<exists>x m'. c m = (Ok x, m') \<and> memo_ok P M m' \<and> Q x))"

lemma walks_ret [simp]: "walks P M (cret x) Q \<longleftrightarrow> Q x \<or> (\<forall>m. \<not> memo_ok P M m)"
  by (auto simp: walks_def cret_def)

lemma walks_retI: "Q x \<Longrightarrow> walks P M (cret x) Q"
  by simp

lemma walks_lift [simp]: "cbind (clift (Ok x)) g = g x"
  by (simp add: cbind_def clift_def)

lemma walks_bind: "walks P M c Q \<Longrightarrow> (\<And>x. Q x \<Longrightarrow> walks P M (g x) R) \<Longrightarrow> walks P M (cbind c g) R"
  unfolding walks_def cbind_def by fastforce

lemma walks_mono: "walks P M c Q \<Longrightarrow> (\<And>x. Q x \<Longrightarrow> R x) \<Longrightarrow> walks P M c R"
  unfolding walks_def by blast

lemma memo_read_walks:
  assumes "readable f M" and "one_record M" and "M ptr = Some p" and "deserialize_subtree_lazy P p = Ok sub"
  shows "walks P M (memo_read P f ptr) (\<lambda>s. s = sub)"
  unfolding walks_def
proof (intro allI impI)
  fix m
  assume m: "memo_ok P M m"
  have r: "read_lazy P f ptr = Ok sub" using read_lazy_rel [OF assms(1,3)] assms(4) by simp
  have "p' = p" if "M ptr' = Some p'" "dp_unit ptr' = dp_unit ptr" for ptr' p'
    using assms(2,3) that unfolding one_record_def by blast
  then have "memo_ok P M (Some (dp_unit ptr, sub))" unfolding memo_ok_def using assms(4) by (metis option.inject prod.inject)
  moreover have "s = sub" if "m = Some (dp_unit ptr, s)" for s using m assms(3,4) that by (auto simp: memo_ok_def)
  ultimately show "\<exists>x m'. memo_read P f ptr m = (Ok x, m') \<and> memo_ok P M m' \<and> x = sub"
    using r m by (auto simp: memo_read_def Let_def split: option.splits)
qed

section \<open>Hits\<close>

primrec leaf_hit :: "prims \<Rightarrow> leaf \<Rightarrow> leaf_out" where
  "leaf_hit P (LVal v) = LoValue v"
| "leaf_hit P (LAcct n b c s) = LoAccount n b c (troot P s)"

definition hits :: "prims \<Rightarrow> (nibs \<rightharpoonup> leaf) \<Rightarrow> nibs \<Rightarrow> nibs \<Rightarrow> seek_hit option \<Rightarrow> bool" where
  "hits P m prefix x out = (\<exists>r. least_from m x r \<and> out = map_option (\<lambda>(k, l). (prefix @ k, leaf_hit P l)) r)"

lemma hitsI: "least_from m x r \<Longrightarrow> out = map_option (\<lambda>(k, l). (prefix @ k, leaf_hit P l)) r \<Longrightarrow> hits P m prefix x out"
  unfolding hits_def by blast

text \<open>A walk that knows its bound: the rest of the target on its path, nothing in minimum mode.\<close>

definition bound :: "nibs \<Rightarrow> nibs \<Rightarrow> bool \<Rightarrow> nibs" where
  "bound prefix target min_mode = (if min_mode then [] else drop (length prefix) target)"

definition on_path :: "nibs \<Rightarrow> nibs \<Rightarrow> bool \<Rightarrow> nat \<Rightarrow> bool" where
  "on_path prefix target min_mode r = (length target = 64 \<and> nibs_ok target \<and> length prefix + r = 64 \<and>
     (min_mode \<or> take (length prefix) target = prefix))"

lemma on_path_split: "on_path prefix target False r \<Longrightarrow> target = prefix @ drop (length prefix) target"
  by (metis append_take_drop_id on_path_def)

text \<open>Below an extension.\<close>

lemma ext_hits:
  assumes "hits P m (prefix @ p) x out" and "x = [] \<or> y = p @ x" and "x = [] \<longrightarrow> y \<le> p"
  shows "hits P (\<lambda>k. if take (length p) k = p then m (drop (length p) k) else None) prefix y out"
proof -
  let ?m = "\<lambda>k. if take (length p) k = p then m (drop (length p) k) else None"
  obtain r where r: "least_from m x r" "out = map_option (\<lambda>(k, l). ((prefix @ p) @ k, leaf_hit P l)) r"
    using assms(1) by (auto simp: hits_def)
  have key: "\<exists>k'. k = p @ k' \<and> m k' = ?m k" if "?m k \<noteq> None" for k
    using that by (metis append_take_drop_id)
  have ge: "y \<le> p @ k \<longleftrightarrow> x \<le> k" for k
  proof (cases "x = []")
    case True
    have "p @ [] \<le> p @ k" unfolding append_le by simp
    then show ?thesis using True assms(3) order_trans [of y p "p @ k"] by simp
  next
    case False
    then show ?thesis using assms(2) by simp
  qed
  have "least_from ?m y (map_option (\<lambda>(k, l). (p @ k, l)) r)"
  proof (cases r)
    case None
    then show ?thesis using r(1) key ge by (auto simp: not_le [symmetric]) (metis)
  next
    case (Some kl)
    then obtain k l where "r = Some (k, l)" by (cases kl) auto
    then show ?thesis using r(1) key ge by (auto) (metis append_le)
  qed
  then show ?thesis using r(2) by (intro hitsI) (auto simp: option.map_comp comp_def case_prod_unfold)
qed

section \<open>The slots of a branch\<close>

lemma next_slot: "s < 16 \<Longrightarrow> (word_of_nat s :: byte) < a \<longleftrightarrow> word_of_nat (Suc s) \<le> a"
  by (simp add: word_less_nat_alt word_le_nat_alt unat_of_nat Suc_le_eq del: of_nat_Suc)

lemma skip_slot:
  assumes "least_from m [word_of_nat (Suc s)] r" and "s < 16" and "\<And>k. m (word_of_nat s # k) \<noteq> None \<Longrightarrow> k < y" and "m [] = None"
  shows "least_from m (word_of_nat s # y) (r :: (nibs \<times> leaf) option)"
proof -
  have eq: "word_of_nat s # y \<le> k \<longleftrightarrow> [word_of_nat (Suc s)] \<le> k" if mk: "m k \<noteq> None" for k
  proof -
    obtain a k' where k: "k = a # k'" using mk assms(4) by (cases k) auto
    show ?thesis
    proof (cases "a = word_of_nat s")
      case True
      then show ?thesis using assms(2) assms(3) [of k'] mk k next_slot [of s a] by (auto simp: leD)
    next
      case False
      then show ?thesis using k next_slot [OF assms(2), of a] by auto
    qed
  qed
  show ?thesis
  proof (cases r)
    case None
    then show ?thesis using assms(1) eq by (auto simp: not_le [symmetric])
  next
    case (Some kl)
    then obtain k v where "r = Some (k, v)" by (cases kl) auto
    then show ?thesis using assms(1) eq by auto
  qed
qed

lemma take_slot:
  assumes "least_from (tlook u) y (Some (k, l))" and "ts ! s = Some u" and "length ts = 16" and "s < 16"
  shows "least_from (tlook (TBranch ts)) (word_of_nat s # y) (Some (word_of_nat s # k, l))"
proof -
  have s: "unat (word_of_nat s :: byte) = s" using assms(4) by (simp add: unat_of_nat)
  have "word_of_nat s # k \<le> k'" if m: "tlook (TBranch ts) k' \<noteq> None" "word_of_nat s # y \<le> k'" for k'
  proof -
    obtain a q where k': "k' = a # q" using m(1) by (cases k') auto
    show ?thesis
    proof (cases "a = word_of_nat s")
      case True
      then show ?thesis using m assms k' s by simp
    next
      case False
      then show ?thesis using m(2) k' by auto
    qed
  qed
  then show ?thesis using assms s by simp
qed

lemma try_slots_walks:
  assumes L: "length fs = 16" "length ts = 16"
    and "\<And>i. s \<le> i \<Longrightarrow> i < 16 \<Longrightarrow> (case ts ! i of None \<Rightarrow> fs ! i = None
      | Some u \<Rightarrow> \<exists>g. fs ! i = Some g \<and> walks P M (g (prefix @ [word_of_nat i]) target (sm i)) (hits P (tlook u) (prefix @ [word_of_nat i]) (xs i)))"
    and "\<And>i. s < i \<Longrightarrow> xs i = []" and "s \<le> 16"
  shows "walks P M (try_slots fs [s..<16] prefix target sm) (hits P (tlook (TBranch ts)) prefix (word_of_nat s # xs s))"
  using assms(3-5)
proof (induction "16 - s" arbitrary: s)
  case 0
  then have s: "s = 16" by simp
  have "k < word_of_nat 16 # xs 16" if k: "tlook (TBranch ts) k \<noteq> None" for k
  proof -
    obtain a q where a: "k = a # q" using k by (cases k) auto
    then have "unat a < 16" using k L(2) by (auto split: if_splits)
    then show ?thesis using a by (simp add: word_less_nat_alt)
  qed
  then have "hits P (tlook (TBranch ts)) prefix (word_of_nat 16 # xs 16) None" by (intro hitsI [of _ _ None]) auto
  then show ?case using s by simp
next
  case (Suc d)
  then have s: "s < 16" by simp
  then have up: "[s..<16] = s # [Suc s..<16]" by (simp add: upt_conv_Cons)
  have w: "unat (word_of_nat s :: byte) = s" using s by (simp add: unat_of_nat)
  let ?m = "tlook (TBranch ts)"
  have xs: "xs (Suc s) = []" using Suc.prems(2) by simp
  have rest: "walks P M (try_slots fs [Suc s..<16] prefix target sm) (hits P ?m prefix [word_of_nat (Suc s)])"
    using Suc.hyps(1) [of "Suc s"] Suc.hyps(2) Suc.prems(1,2) s unfolding xs by simp
  have skip: "walks P M (try_slots fs [Suc s..<16] prefix target sm) (hits P ?m prefix (word_of_nat s # xs s))"
    if "\<And>k. ?m (word_of_nat s # k) \<noteq> None \<Longrightarrow> k < xs s"
  proof (rule walks_mono [OF rest])
    fix out
    assume "hits P ?m prefix [word_of_nat (Suc s)] out"
    then obtain r where r: "least_from ?m [word_of_nat (Suc s)] r" "out = map_option (\<lambda>(k, l). (prefix @ k, leaf_hit P l)) r"
      by (auto simp: hits_def)
    show "hits P ?m prefix (word_of_nat s # xs s) out"
      by (rule hitsI [OF skip_slot [OF r(1) s that] r(2)]) simp_all
  qed
  show ?case
  proof (cases "ts ! s")
    case None
    then have "fs ! s = None" using Suc.prems(1) [of s] s by simp
    then show ?thesis using skip None w L s by (simp add: up index_def)
  next
    case (Some u)
    then obtain g where g: "fs ! s = Some g" "walks P M (g (prefix @ [word_of_nat s]) target (sm s)) (hits P (tlook u) (prefix @ [word_of_nat s]) (xs s))"
      using Suc.prems(1) [of s] s by auto
    have "walks P M (if out \<noteq> None then cret out else try_slots fs [Suc s..<16] prefix target sm) (hits P ?m prefix (word_of_nat s # xs s))"
      if h: "hits P (tlook u) (prefix @ [word_of_nat s]) (xs s) out" for out
    proof -
      obtain r where r: "least_from (tlook u) (xs s) r" "out = map_option (\<lambda>(k, l). ((prefix @ [word_of_nat s]) @ k, leaf_hit P l)) r"
        using h by (auto simp: hits_def)
      show ?thesis
      proof (cases r)
        case None
        then have "walks P M (try_slots fs [Suc s..<16] prefix target sm) (hits P ?m prefix (word_of_nat s # xs s))"
          using skip r(1) Some w L s by simp
        then show ?thesis using r(2) None by simp
      next
        case (Some kl)
        then obtain k l where kl: "r = Some (k, l)" by (cases kl) auto
        have "hits P ?m prefix (word_of_nat s # xs s) out"
          by (rule hitsI [OF take_slot [OF r(1) [unfolded kl] \<open>ts ! s = Some u\<close> L(2) s]]) (use r(2) kl in simp)
        then show ?thesis using r(2) kl by simp
      qed
    qed
    then have "walks P M (cbind (g (prefix @ [word_of_nat s]) target (sm s)) (\<lambda>out. if out \<noteq> None then cret out else try_slots fs [Suc s..<16] prefix target sm))
        (hits P ?m prefix (word_of_nat s # xs s))"
      by (rule walks_bind [OF g(2)])
    then show ?thesis using g(1) L s by (simp add: up index_def)
  qed
qed

section \<open>The walks find the least leaf\<close>

lemma bound_child:
  assumes "on_path prefix target mm r" and "0 < r" and "start = seek_start mm target (length prefix)"
  shows "start < 16" and "\<not> mm \<Longrightarrow> drop (length prefix) target = word_of_nat start # drop (Suc (length prefix)) target"
    and "mm \<Longrightarrow> start = 0" and "\<not> mm \<Longrightarrow> on_path (prefix @ [word_of_nat start]) target False (r - 1)"
    and "on_path (prefix @ [word_of_nat i]) target True (r - 1)"
proof -
  have l: "length prefix < length target" using assms(1,2) by (auto simp: on_path_def)
  have x: "unat (target ! length prefix) < 16" using assms(1) l nibs_ok_nth [of target "length prefix"] by (auto simp: on_path_def intro: nibble_unat)
  show "start < 16" and z: "mm \<Longrightarrow> start = 0" using x l assms(3) by (auto simp: seek_start_def)
  have w: "word_of_nat start = target ! length prefix" if "\<not> mm" using that assms(3) l by (simp add: seek_start_def)
  then show d: "drop (length prefix) target = word_of_nat start # drop (Suc (length prefix)) target" if "\<not> mm"
    using that l by (simp add: Cons_nth_drop_Suc)
  have "take (Suc (length prefix)) target = prefix @ [word_of_nat start]" if "\<not> mm"
    using that l assms(1) w by (simp add: take_Suc_conv_app_nth on_path_def)
  then show "on_path (prefix @ [word_of_nat start]) target False (r - 1)" if "\<not> mm" using that assms(1,2) by (auto simp: on_path_def)
  show "on_path (prefix @ [word_of_nat i]) target True (r - 1)" using assms(1,2) by (auto simp: on_path_def)
qed

lemma seek_branch_walks:
  assumes T: "on_path prefix target mm r" "0 < r" and L: "length fs = 16" "length ts = 16"
    and slot: "\<And>i mm'. i < 16 \<Longrightarrow> on_path (prefix @ [word_of_nat i]) target mm' (r - 1) \<Longrightarrow> (case ts ! i of None \<Rightarrow> fs ! i = None
      | Some u \<Rightarrow> \<exists>g. fs ! i = Some g \<and> walks P M (g (prefix @ [word_of_nat i]) target mm') (hits P (tlook u) (prefix @ [word_of_nat i]) (bound (prefix @ [word_of_nat i]) target mm')))"
  shows "walks P M (seek_branch fs prefix target mm) (hits P (tlook (TBranch ts)) prefix (bound prefix target mm))"
proof -
  define start where "start = seek_start mm target (length prefix)"
  note B = bound_child [OF T start_def]
  let ?sm = "\<lambda>i. mm \<or> start < i \<or> length target \<le> length prefix"
  have l: "length prefix < length target" using T by (auto simp: on_path_def)
  define xs where "xs = (\<lambda>i. bound (prefix @ [word_of_nat i]) target (?sm i))"
  have op: "on_path (prefix @ [word_of_nat i]) target (?sm i) (r - 1)" if "start \<le> i" for i
    using that B(4,5) l by (cases "i = start"; cases mm) auto
  have "walks P M (try_slots fs [start..<16] prefix target ?sm) (hits P (tlook (TBranch ts)) prefix (word_of_nat start # xs start))"
  proof (rule try_slots_walks [OF L])
    show "case ts ! i of None \<Rightarrow> fs ! i = None
      | Some u \<Rightarrow> \<exists>g. fs ! i = Some g \<and> walks P M (g (prefix @ [word_of_nat i]) target (?sm i)) (hits P (tlook u) (prefix @ [word_of_nat i]) (xs i))"
      if "start \<le> i" "i < 16" for i unfolding xs_def using slot [OF that(2) op [OF that(1)]] .
  qed (use B(1) in \<open>auto simp: xs_def bound_def\<close>)
  moreover have "hits P (tlook (TBranch ts)) prefix (bound prefix target mm) out"
    if h: "hits P (tlook (TBranch ts)) prefix (word_of_nat start # xs start) out" for out
  proof (cases mm)
    case False
    then have "bound prefix target mm = word_of_nat start # xs start" using B(2) l by (simp add: bound_def xs_def)
    then show ?thesis using h by simp
  next
    case True
    have x: "word_of_nat start # xs start = [0]" using True B(3) by (simp add: xs_def bound_def)
    have ge: "[0] \<le> k" if k: "tlook (TBranch ts) k \<noteq> None" for k
      using k by (cases k) (auto simp: word_gt_0)
    obtain r where r: "least_from (tlook (TBranch ts)) [0] r" "out = map_option (\<lambda>(k, l). (prefix @ k, leaf_hit P l)) r"
      using h unfolding x hits_def by blast
    have "least_from (tlook (TBranch ts)) [] r"
    proof (cases r)
      case None
      then show ?thesis using r(1) ge by (auto simp del: tlook.simps simp: not_le [symmetric])
    next
      case (Some kl)
      then obtain k l where "r = Some (k, l)" by (cases kl) auto
      then show ?thesis using r(1) ge by (auto simp del: tlook.simps)
    qed
    then show ?thesis using True r(2) by (intro hitsI) (auto simp: bound_def)
  qed
  ultimately show ?thesis unfolding seek_branch_def Let_def start_def [symmetric] by (rule walks_mono)
qed

lemma seek_ext_walks:
  assumes T: "on_path prefix target mm r" and p: "length p < r"
    and W: "\<And>mm'. on_path (prefix @ p) target mm' (r - length p) \<Longrightarrow>
      walks P M (walk (prefix @ p) target mm') (hits P (tlook u) (prefix @ p) (bound (prefix @ p) target mm'))"
  shows "walks P M (seek_ext walk (prefix @ p) target mm) (hits P (tlook (TExt p u)) prefix (bound prefix target mm))"
proof -
  have up: "hits P (tlook (TExt p u)) prefix y out" if "hits P (tlook u) (prefix @ p) x out" "x = [] \<or> y = p @ x" "x = [] \<longrightarrow> y \<le> p" for x y out
    using ext_hits [OF that] by simp
  have o': "on_path (prefix @ p) target True (r - length p)" using T p by (simp add: on_path_def)
  show ?thesis
  proof (cases mm)
    case True
    have "walks P M (walk (prefix @ p) target True) (hits P (tlook (TExt p u)) prefix [])"
      by (rule walks_mono [OF W [OF o']]) (rule up, auto simp: bound_def)
    then show ?thesis using True by (simp add: seek_ext_def bound_def)
  next
    case False
    define y where "y = drop (length prefix) target"
    have y: "target = prefix @ y" "length y = r" "bound prefix target mm = y" "take (length (prefix @ p)) target = prefix @ take (length p) y"
      using T False on_path_split [of prefix target r] by (auto simp: y_def on_path_def bound_def take_add)
    have n: "min (length (prefix @ p)) (length target) = length (prefix @ p)" using p y(1,2) by simp
    have rel: "rel (prefix @ p) target = (if p < take (length p) y then AllLess else if take (length p) y < p then AllGreater else OnPath)"
      unfolding rel_def n Let_def y(4) by simp
    have py: "length p \<le> length y" using p y(2) by simp
    consider (less) "p < take (length p) y" | (greater) "take (length p) y < p" | (eq) "p = take (length p) y" by (rule linorder_cases)
    then show ?thesis
    proof cases
      case less
      have "least_from (tlook (TExt p u)) y None"
        using less_take [OF refl py less] by (auto split: if_splits) (metis append_take_drop_id)
      then have "hits P (tlook (TExt p u)) prefix y None" by (rule hitsI) simp
      then show ?thesis using less False rel y(3) by (simp add: seek_ext_def)
    next
      case greater
      have g: "y \<le> p" using take_less [OF refl py greater, of "[]"] by simp
      have "walks P M (walk (prefix @ p) target True) (hits P (tlook (TExt p u)) prefix y)"
        by (rule walks_mono [OF W [OF o']]) (rule up, auto simp: bound_def g)
      moreover have "rel (prefix @ p) target = AllGreater" using rel greater order.asym [OF greater] by simp
      ultimately show ?thesis using False y(3) by (simp add: seek_ext_def)
    next
      case eq
      have o: "on_path (prefix @ p) target False (r - length p)" using T p y(4) eq by (simp add: on_path_def)
      have d: "drop (length (prefix @ p)) target = drop (length p) y" using y(1) by simp
      have "y = p @ drop (length p) y" using eq by (metis append_take_drop_id)
      then have "walks P M (walk (prefix @ p) target False) (hits P (tlook (TExt p u)) prefix y)"
        using p y(2) d by (intro walks_mono [OF W [OF o]]) (rule up, auto simp: bound_def)
      then show ?thesis using eq False rel y(3) by (simp add: seek_ext_def)
    qed
  qed
qed

text \<open>A leaf or an account at the end of its path.\<close>

lemma leaf_walks:
  assumes T: "on_path prefix target mm r" and m: "\<And>k. m k = (if k = p then Some l else None)" and p: "length p = r"
  shows "mm \<or> target \<le> prefix @ p \<Longrightarrow> hits P m prefix (bound prefix target mm) (Some (prefix @ p, leaf_hit P l))"
    and "\<not> mm \<Longrightarrow> \<not> target \<le> prefix @ p \<Longrightarrow> hits P m prefix (bound prefix target mm) None"
proof -
  have t: "target \<le> prefix @ p \<longleftrightarrow> drop (length prefix) target \<le> p" if "\<not> mm"
  proof -
    have "target = prefix @ drop (length prefix) target" using T that by (metis append_take_drop_id on_path_def)
    then show ?thesis by (metis append_le)
  qed
  show "hits P m prefix (bound prefix target mm) (Some (prefix @ p, leaf_hit P l))" if "mm \<or> target \<le> prefix @ p"
    by (rule hitsI [of _ _ "Some (p, l)"]) (use that t m in \<open>auto simp: bound_def\<close>)
  show "hits P m prefix (bound prefix target mm) None" if "\<not> mm" "\<not> target \<le> prefix @ p"
    by (rule hitsI [of _ _ None]) (use that t m in \<open>auto simp: bound_def not_le\<close>)
qed

lemma wf0_branch: "wf0 (TBranch ts) r \<Longrightarrow> length ts = 16 \<and> 0 < r"
  by (auto simp: wf0_def)

lemma node_seek_walks:
  assumes K: "keccak_len P"
  shows "wf0 t r \<Longrightarrow> on_path prefix target mm r \<Longrightarrow> repr P n t \<Longrightarrow> get_fuel n r \<le> fuel \<Longrightarrow>
    walks P M (node_seek P f fuel n prefix target mm) (hits P (tlook t) prefix (bound prefix target mm))"
proof (induction fuel arbitrary: t r prefix n mm)
  case 0
  then show ?case by (simp add: get_fuel_def split: if_splits)
next
  case (Suc fu)
  have r: "r \<le> 64" using Suc.prems(2) by (simp add: on_path_def)
  show ?case
  proof (cases n)
    case Empty
    then have "t = TEmpty" using Suc.prems(3) by simp
    then show ?thesis using Empty by (auto simp: node_seek.simps intro!: hitsI [of _ _ None])
  next
    case (Raw buf off len nref)
    then have "wf t r" using Suc.prems by (cases t) (auto simp: wf0_def)
    then obtain n' where n': "parse_node_lazy P buf off len = Ok n'" "repr P n' t" "\<not> is_raw n'"
      using parse_node_lazy_raw [of P buf off len nref t r] K r Suc.prems Raw by auto
    then show ?thesis using Suc.IH [OF Suc.prems(1,2) n'(2)] Suc.prems(4) Raw by (simp add: get_fuel_def node_seek.simps)
  next
    case (Leaf p v rf)
    then have t: "t = TLeaf p v" "length p = r" using Suc.prems by (auto simp: wf0_def)
    note W = leaf_walks [OF Suc.prems(2) _ t(2), of "tlook t" "LVal v"]
    have ge: "take (min (length (prefix @ p)) (length target)) target = target" "rel (prefix @ p) target = AllLess \<longleftrightarrow> \<not> target \<le> prefix @ p"
      using Suc.prems(2) t(2) by (auto simp: on_path_def rel_def)
    show ?thesis
    proof (cases "mm \<or> target \<le> prefix @ p")
      case True
      then show ?thesis using W(1) t(1) ge Leaf by (auto simp: node_seek.simps Let_def)
    next
      case False
      then show ?thesis using W(2) t(1) ge Leaf by (auto simp: node_seek.simps Let_def)
    qed
  next
    case (Account p no b c s sr rf)
    then obtain ts where t: "t = TAcct p no b c ts" "length p = r" "sr = troot P ts" using Suc.prems by (auto simp: wf0_def)
    note W = leaf_walks [OF Suc.prems(2) _ t(2), of "tlook t" "LAcct no b c ts"]
    show ?thesis
    proof (cases "mm \<or> target \<le> prefix @ p")
      case True
      then show ?thesis using W(1) t Account by (auto simp: node_seek.simps Let_def)
    next
      case False
      then show ?thesis using W(2) t Account by (auto simp: node_seek.simps Let_def)
    qed
  next
    case (Extension p c rf)
    then obtain u where u: "t = TExt p u" "repr P c u" using Suc.prems by auto
    then have w: "p \<noteq> []" "length p < r" "wf0 u (r - length p)" using Suc.prems by (auto simp: wf0_def)
    then have fu: "get_fuel c (r - length p) \<le> fu"
      using Suc.prems(4) Extension by (cases p) (auto simp: get_fuel_def split: if_splits)
    have "walks P M (seek_ext (node_seek P f fu c) (prefix @ p) target mm) (hits P (tlook (TExt p u)) prefix (bound prefix target mm))"
      by (rule seek_ext_walks [OF Suc.prems(2) w(2)]) (rule Suc.IH [OF w(3) _ u(2) fu])
    then show ?thesis using u(1) Extension by (simp add: node_seek.simps)
  next
    case (Branch cs rf)
    then obtain ts where ts: "t = TBranch ts" "list_all2 (rel_option (repr P)) cs ts" using Suc.prems by auto
    then have w: "length ts = 16" "length cs = 16" "0 < r" using Suc.prems(1) wf0_branch by (auto simp: list_all2_lengthD)
    let ?fs = "map (map_option (node_seek P f fu)) cs"
    have "walks P M (seek_branch ?fs prefix target mm) (hits P (tlook (TBranch ts)) prefix (bound prefix target mm))"
    proof (rule seek_branch_walks [OF Suc.prems(2) w(3) _ w(1)])
      fix i mm'
      assume i: "i < 16" and o': "on_path (prefix @ [word_of_nat i]) target mm' (r - 1)"
      show "case ts ! i of None \<Rightarrow> ?fs ! i = None
        | Some u \<Rightarrow> \<exists>g. ?fs ! i = Some g \<and> walks P M (g (prefix @ [word_of_nat i]) target mm') (hits P (tlook u) (prefix @ [word_of_nat i]) (bound (prefix @ [word_of_nat i]) target mm'))"
      proof (cases "ts ! i")
        case None
        then have "cs ! i = None" using repr_branch_child [OF ts(2), of i] i w by simp
        then show ?thesis using None i w by simp
      next
        case (Some u)
        then obtain c where c: "cs ! i = Some c" "repr P c u"
          using repr_branch_child [OF ts(2), of i] i w by (auto simp: option_rel_Some2)
        have "Some u \<in> set ts" using i w Some by (metis nth_mem)
        then have wu: "wf0 u (r - 1)" using wf_lengths(3) Suc.prems(1) ts by blast
        have fu: "get_fuel c (r - 1) \<le> fu" using Suc.prems(4) Branch w by (cases r) (auto simp: get_fuel_def)
        show ?thesis using Suc.IH [OF wu o' c(2) fu] Some c i w by simp
      qed
    qed (use w in simp)
    then show ?thesis using Branch ts(1) by (simp add: node_seek.simps)
  qed (use Suc.prems in simp)
qed

lemma record_walks:
  assumes K: "keccak_len P" and W: "wf t r" "on_path q target mm r" and n: "repr P n t" "\<not> is_raw n"
  shows "walks P M (node_seek P f REC_FUEL n q target mm) (hits P (tlook t) q (bound q target mm))"
proof -
  have "wf0 t r" "r \<le> 64" using W by (auto simp: wf0_def on_path_def)
  then show ?thesis using node_seek_walks [OF K _ W(2) n(1)] n(2) by (simp add: get_fuel_def REC_FUEL_def)
qed

lemma ram_seek_walks:
  assumes K: "keccak_len P" and F: "readable f M" "one_record M"
  shows "frep P M n pre t \<Longrightarrow> wfb t r \<Longrightarrow> placed pre t r \<Longrightarrow> mem_ok n \<Longrightarrow> hashed P t \<Longrightarrow> on_path q target mm r \<Longrightarrow>
      walks P M (ram_seek P f n q target mm) (hits P (tlook t) q (bound q target mm))"
    and "crep P M c pre t \<Longrightarrow> wf t r \<Longrightarrow> placed pre t r \<Longrightarrow> mem_ok_child c \<Longrightarrow> hashed P t \<Longrightarrow> on_path q target mm r \<Longrightarrow>
      walks P M (ram_child_seek P f c q target mm) (hits P (tlook t) q (bound q target mm))"
proof (induction n and c arbitrary: pre t r q mm and pre t r q mm)
  case REmpty
  then show ?case by (auto intro!: hitsI [of _ _ None])
next
  case (RExtension p n h)
  then obtain u where u: "t = TExt p u" "frep P M n (pre @ p) u" by auto
  have w: "wf t r" using RExtension.prems(2) u by simp
  then have p: "length p < r" using u(1) by auto
  note pl = placed_ext [OF RExtension.prems(3) [unfolded u(1)] w [unfolded u(1)]]
  have m: "mem_ok n" "hashed P u" using RExtension.prems(4,5) u(1) by auto
  have "walks P M (seek_ext (ram_seek P f n) (q @ p) target mm) (hits P (tlook (TExt p u)) q (bound q target mm))"
    by (rule seek_ext_walks [OF RExtension.prems(6) p]) (rule RExtension.IH [OF u(2) wf_wfb [OF pl(2)] pl(1) m])
  then show ?case using u(1) by simp
next
  case (RBranch cs h)
  then obtain ts where ts: "t = TBranch ts" "length cs = 16" "length ts = 16"
    "\<And>i. i < 16 \<Longrightarrow> rel_option (\<lambda>c u. crep P M c (pre @ [word_of_nat i]) u) (cs ! i) (ts ! i)"
    unfolding frep_RBranch by auto
  have r: "0 < r" using RBranch.prems(2) ts(1) by simp
  let ?fs = "map (map_option (ram_child_seek P f)) cs"
  have "walks P M (seek_branch ?fs q target mm) (hits P (tlook (TBranch ts)) q (bound q target mm))"
  proof (rule seek_branch_walks [OF RBranch.prems(6) r _ ts(3)])
    fix i mm'
    assume i: "i < 16" and o': "on_path (q @ [word_of_nat i]) target mm' (r - 1)"
    show "case ts ! i of None \<Rightarrow> ?fs ! i = None
      | Some u \<Rightarrow> \<exists>g. ?fs ! i = Some g \<and> walks P M (g (q @ [word_of_nat i]) target mm') (hits P (tlook u) (q @ [word_of_nat i]) (bound (q @ [word_of_nat i]) target mm'))"
    proof (cases "cs ! i")
      case None
      then have "ts ! i = None" using ts(4) [OF i] by simp
      then show ?thesis using None i ts(2) by simp
    next
      case (Some c)
      from frep_slot [OF ts(4,2,3) i Some] obtain u where
        u: "ts ! i = Some u" "crep P M c (pre @ [word_of_nat i]) u" "Some u \<in> set ts" "Some c \<in> set cs" .
      note pl = placed_child [OF RBranch.prems(3,2) [unfolded ts(1)] i u(3)]
      have m: "mem_ok_child c" "hashed P u" using RBranch.prems(4,5) u(3,4) ts(1) by auto
      have "walks P M (ram_child_seek P f c (q @ [word_of_nat i]) target mm')
          (hits P (tlook u) (q @ [word_of_nat i]) (bound (q @ [word_of_nat i]) target mm'))"
        using RBranch.IH [of "Some c" c, OF _ _ u(2) pl(3,1) m o'] u(4) by simp
      then show ?thesis using Some u(1) i ts(2) by simp
    qed
  qed (use ts(2) in simp)
  then show ?case using ts(1) by simp
next
  case (RDisk ptr root)
  have m: "M ptr = Some (nib_path pre @ enc P t)" using RDisk.prems(1) by simp
  obtain n where n: "read_lazy P f ptr = Ok \<lparr>ds_prefix = pre, ds_node = n\<rparr>" "repr P n t" "\<not> is_raw n"
    using disk_read [OF K RDisk.prems(2) placed_depth(3) [OF RDisk.prems(3)] F(1) RDisk.prems(1)] by blast
  have d: "deserialize_subtree_lazy P (nib_path pre @ enc P t) = Ok \<lparr>ds_prefix = pre, ds_node = n\<rparr>"
    using n(1) read_lazy_rel [OF F(1) m] by simp
  show ?case unfolding ram_child_seek.simps
    by (rule walks_bind [OF memo_read_walks [OF F m d]]) (use record_walks [OF K RDisk.prems(2,6) n(2,3)] in simp)
next
  case (RMem bs root)
  obtain n where n: "parse_payload_lazy P bs = Ok \<lparr>ds_prefix = pre, ds_node = n\<rparr>" "repr P n t" "\<not> is_raw n"
    using mem_read [OF K RMem.prems(2) placed_depth(3) [OF RMem.prems(3)] RMem.prems(1,4)] by blast
  then show ?case using record_walks [OF K RMem.prems(2,6) n(2,3)] by simp
next
  case (RAccount p n b c st)
  then obtain bal s where s: "t = TAcct p n bal c s" "b = bal_bytes bal" "frep P M st (pre @ p) s" by auto
  obtain st' where h: "hash_ram P st = Ok (troot P s, st')"
    using hash_ram_frep(1) [OF s(3)] fh_troot(1) [OF s(3)] RAccount.prems(5) s(1) by auto
  have p: "length p = r" using RAccount.prems(2) s(1) by simp
  note W = leaf_walks [OF RAccount.prems(6) _ p, of "tlook t" "LAcct n bal c s"]
  show ?case
  proof (cases "mm \<or> target \<le> q @ p")
    case True
    then show ?thesis using W(1) s h by (auto simp: Let_def)
  next
    case False
    then show ?thesis using W(2) s h by (auto simp: Let_def)
  qed
next
  case (RRam n)
  then show ?case using RRam.IH [OF _ wf_wfb [OF RRam.prems(2)] RRam.prems(3)] by simp
qed

section \<open>Keys and their order\<close>

lemma div_order:
  fixes x y :: nat
  assumes x: "a * 16 + x mod 16 = x" and y: "a' * 16 + y mod 16 = y"
  shows "x < y \<longleftrightarrow> a < a' \<or> a = a' \<and> x mod 16 < y mod 16"
proof (cases a a' rule: linorder_cases)
  case less
  then have "a * 16 + 16 \<le> a' * 16" by simp
  moreover have "x mod 16 < 16" by simp
  ultimately have "x < y" using x y by linarith
  then show ?thesis using less by simp
next
  case equal
  then have "x < y \<longleftrightarrow> x mod 16 < y mod 16" using x y by linarith
  then show ?thesis using equal by simp
next
  case greater
  then have "a' * 16 + 16 \<le> a * 16" by simp
  moreover have "y mod 16 < 16" by simp
  ultimately have "y < x" using x y by linarith
  then show ?thesis using greater by simp
qed

lemma byte_order: "b < b' \<longleftrightarrow> drop_bit 4 b < drop_bit 4 b' \<or> drop_bit 4 b = drop_bit 4 b' \<and> b AND 0x0f < b' AND (0x0f :: byte)"
proof -
  have m: "(0x0f :: byte) = mask 4" by (simp add: mask_eq_exp_minus_1)
  have u: "unat (drop_bit 4 x) = unat x div 16" "unat (x AND 0x0f) = unat x mod 16" for x :: byte
    by (simp_all add: m drop_bit_eq_div take_bit_eq_mask [symmetric] take_bit_eq_mod unat_div_distrib unat_mod_distrib)
  show ?thesis
    unfolding word_less_nat_alt word_unat_eq_iff u by (rule div_order) simp_all
qed

lemma nibbles_less: "length k = length k' \<Longrightarrow> key_nibbles k < key_nibbles k' \<longleftrightarrow> k < k'"
proof (induction k k' rule: list_induct2)
  case (Cons b k b' k')
  have "b = b' \<longleftrightarrow> drop_bit 4 b = drop_bit 4 b' \<and> b AND 0x0f = b' AND 0x0f" by (metis split_byte)
  then show ?case using Cons byte_order [of b b'] by (auto simp: key_nibbles_def)
qed (simp add: key_nibbles_def)

lemma nibbles_le: "length k = length k' \<Longrightarrow> key_nibbles k \<le> key_nibbles k' \<longleftrightarrow> k \<le> k'"
  by (metis nibbles_less not_less)

text \<open>The successor is the least key above.\<close>

lemma bump_snoc:
  "bump (bs @ [b]) = (case bump bs of Some bs' \<Rightarrow> Some (bs' @ [b])
     | None \<Rightarrow> if b + 1 \<noteq> 0 then Some (replicate (length bs) 0 @ [b + 1]) else None)"
  by (induction bs) (auto split: option.splits)

lemma bump_length: "bump bs = Some bs' \<Longrightarrow> length bs' = length bs"
  by (induction bs arbitrary: bs') (auto split: if_splits)

lemma key_successor_Cons:
  "key_successor (b # bs) = (case key_successor bs of Some bs' \<Rightarrow> Some (b # bs')
     | None \<Rightarrow> if b + 1 \<noteq> 0 then Some ((b + 1) # replicate (length bs) 0) else None)"
  by (auto simp: key_successor_def bump_snoc split: option.splits)

lemma zeros_le: "replicate (length q) 0 \<le> (q :: bytes)"
  by (induction q) (auto simp: word_gt_0)

lemma inc_le: "(b :: byte) + 1 \<noteq> 0 \<Longrightarrow> b + 1 \<le> x \<longleftrightarrow> b < x"
  using unatSuc [of b] by (auto simp: word_le_nat_alt word_less_nat_alt add.commute)

lemma top_byte: "(b :: byte) + 1 = 0 \<Longrightarrow> \<not> b < x"
proof -
  assume "b + 1 = 0"
  then have "b = - 1" by (simp add: add_eq_0_iff2)
  then show "\<not> b < x" by (simp add: word_not_simps)
qed

lemma key_successor_least:
  "length q = length k \<Longrightarrow> (case key_successor k of None \<Rightarrow> \<not> k < q | Some k' \<Rightarrow> length k' = length k \<and> (k' \<le> q \<longleftrightarrow> k < q))"
proof (induction k arbitrary: q)
  case Nil
  then show ?case by (simp add: key_successor_def)
next
  case (Cons b k)
  then obtain x q' where q: "q = x # q'" "length q' = length k" by (cases q) auto
  show ?case
  proof (cases "key_successor k")
    case None
    then have "\<not> k < q'" using Cons.IH [OF q(2)] by simp
    then show ?thesis using None q zeros_le [of q'] inc_le [of b x] top_byte [of b x]
      by (cases "b + 1 = 0") (auto simp: key_successor_Cons le_less)
  next
    case (Some k')
    then show ?thesis using Cons.IH [OF q(2)] q by (auto simp: key_successor_Cons)
  qed
qed

section \<open>The account cursor\<close>

text \<open>The accounts of a map of leaves, under their keys.\<close>

definition entry_of :: "prims \<Rightarrow> bytes \<Rightarrow> leaf \<Rightarrow> account_entry option" where
  "entry_of P k l = (case l of
      LAcct n b c s \<Rightarrow> Some \<lparr>ae_key = k, ae_nonce = n, ae_balance = b, ae_code_hash = c, ae_storage_root = troot P s\<rparr>
    | LVal v \<Rightarrow> map_option (\<lambda>a. \<lparr>ae_key = k, ae_nonce = a_nonce a, ae_balance = a_balance a, ae_code_hash = a_code_hash a,
        ae_storage_root = a_storage_root a\<rparr>) (account_decode P v))"

definition account_map :: "prims \<Rightarrow> (nibs \<rightharpoonup> leaf) \<Rightarrow> bytes \<rightharpoonup> account_entry" where
  "account_map P m = (\<lambda>k. if length k = 32 then Option.bind (m (key_nibbles k)) (entry_of P k) else None)"

definition entries_typed :: "prims \<Rightarrow> (nibs \<rightharpoonup> leaf) \<Rightarrow> bool" where
  "entries_typed P m = (\<forall>k l. m k = Some l \<longrightarrow> entry_of P [] l \<noteq> None)"

lemma entry_of_key: "entry_of P k l = Some e \<Longrightarrow> ae_key e = k"
  by (auto simp: entry_of_def split: leaf.splits)

lemma entry_of_None: "entry_of P k l = None \<longleftrightarrow> entry_of P [] l = None"
  by (auto simp: entry_of_def split: leaf.splits)

lemma cursor_key_64: "length q = 64 \<Longrightarrow> cursor_key q = Ok (key_of q)"
  using nibbles_to_key_64 by (simp add: cursor_key_def nibbles_to_key_def)

text \<open>Keys of a trie at the root.\<close>

lemma wfb_key:
  assumes w: "wfb t r" and l: "tlook t k \<noteq> None"
  shows "length k = r \<and> nibs_ok k"
proof (cases "\<exists>ts. t = TBranch ts")
  case True
  then obtain ts where TBranch: "t = TBranch ts" by blast
  obtain x q where k: "k = x # q" using l TBranch by (cases k) auto
  then obtain u where u: "unat x < 16" "ts ! unat x = Some u" "tlook u q \<noteq> None"
    using w l TBranch by (auto split: if_splits option.splits)
  then have "wf u (r - 1)" using w TBranch by (metis nth_mem wfb_simps(3))
  then have "length q = r - 1" "nibs_ok q" using u(3) wf_key_length wf_key_nibs by blast+
  then show ?thesis using w TBranch k u(1) by (auto simp: nibs_ok_def word_less_nat_alt)
next
  case False
  then have "wf t r" using w l by (cases t) (auto simp: wfb_def)
  then show ?thesis using wf_key_length wf_key_nibs l by blast
qed

lemma key_least:
  assumes "least_from m (key_nibbles key) r" and "\<And>k. m k \<noteq> None \<Longrightarrow> length k = 64 \<and> nibs_ok k" and "length key = 32"
    and "\<And>k l. m k = Some l \<Longrightarrow> \<exists>v. e (key_of k) l = Some v"
  shows "least_from (\<lambda>k. if length k = 32 then Option.bind (m (key_nibbles k)) (e k) else None) key
    (Option.bind r (\<lambda>(k, l). map_option (Pair (key_of k)) (e (key_of k) l)))"
proof -
  let ?A = "\<lambda>k. if length k = 32 then Option.bind (m (key_nibbles k)) (e k) else None"
  have dom: "length k = 32 \<and> m (key_nibbles k) \<noteq> None" if "?A k \<noteq> None" for k
    using that by (cases "m (key_nibbles k)") (auto split: if_splits)
  show ?thesis
  proof (cases r)
    case None
    then have "k < key" if "?A k \<noteq> None" for k
      using assms(1,3) dom [OF that] nibbles_less [of k key] by simp
    then show ?thesis using None by simp
  next
    case (Some kl)
    then obtain k l where r: "r = Some (k, l)" by (cases kl) auto
    then have k: "m k = Some l" "key_nibbles key \<le> k" "\<And>k'. m k' \<noteq> None \<Longrightarrow> key_nibbles key \<le> k' \<Longrightarrow> k \<le> k'" using assms(1) by auto
    then have kn: "length (key_of k) = 32" "key_nibbles (key_of k) = k" using assms(2) [of k] by (auto simp: length_key_of nibbles_key_of)
    obtain v where v: "e (key_of k) l = Some v" using assms(4) k(1) by blast
    have "key_of k \<le> k'" if "?A k' \<noteq> None" "key \<le> k'" for k'
      using k(3) [of "key_nibbles k'"] dom [OF that(1)] that(2) nibbles_le [of key k'] nibbles_le [of "key_of k" k'] kn assms(3) by simp
    moreover have "key \<le> key_of k" using k(2) kn nibbles_le [of key "key_of k"] assms(3) by simp
    ultimately show ?thesis using r v k(1) kn by simp
  qed
qed

definition cursor_ok :: "prims \<Rightarrow> (disk_ptr \<rightharpoonup> bytes) \<Rightarrow> ram_node \<Rightarrow> 'a cursor_scheme \<Rightarrow> bool" where
  "cursor_ok P M upper cu = (cu_upper cu = upper \<and> memo_ok P M (cu_memo cu) \<and> (\<forall>k. cu_last cu = Some k \<longrightarrow> length k = 32))"

text \<open>A frontier at the root that a cursor can walk.\<close>

definition walkable :: "prims \<Rightarrow> flat_file \<Rightarrow> (disk_ptr \<rightharpoonup> bytes) \<Rightarrow> ram_node \<Rightarrow> trie \<Rightarrow> bool" where
  "walkable P f M n t = (keccak_len P \<and> readable f M \<and> one_record M \<and> frep P M n [] t \<and> wfb t 64 \<and> placed [] t 64 \<and>
     mem_ok n \<and> hashed P t)"

lemma account_seek_finds:
  assumes W: "walkable P f M upper t" and C: "cursor_ok P M upper cu" and k: "length key = 32" and T: "entries_typed P (tlook t)"
  shows "\<exists>r cu'. account_seek P f cu key = (Ok r, cu') \<and> cursor_ok P M upper cu' \<and> cu_last cu' = map_option ae_key r \<and>
    least_from (account_map P (tlook t)) key (map_option (\<lambda>e. (ae_key e, e)) r)"
proof -
  have o': "on_path [] (key_nibbles key) False 64" using k by (simp add: on_path_def)
  have "walks P M (ram_seek P f upper [] (key_nibbles key) False) (hits P (tlook t) [] (bound [] (key_nibbles key) False))"
    using W ram_seek_walks(1) [OF _ _ _ _ _ _ _ _ o'] unfolding walkable_def by blast
  then obtain out m where s: "ram_seek P f upper [] (key_nibbles key) False (cu_memo cu) = (Ok out, m)" "memo_ok P M m"
    "hits P (tlook t) [] (key_nibbles key) out"
    using C unfolding walks_def cursor_ok_def bound_def by fastforce
  then obtain r where r: "least_from (tlook t) (key_nibbles key) r" "out = map_option (\<lambda>(k, l). (k, leaf_hit P l)) r"
    by (auto simp: hits_def)
  have key: "length q = 64 \<and> nibs_ok q" if "tlook t q \<noteq> None" for q using wfb_key [OF _ that, of 64] W by (simp add: walkable_def)
  have ent: "\<exists>v. entry_of P (key_of q) l = Some v" if "tlook t q = Some l" for q l
    using T that entry_of_None [of P "key_of q" l] unfolding entries_typed_def by (metis not_None_eq)
  note L = key_least [where e = "entry_of P", OF r(1) key k ent]
  show ?thesis
  proof (cases r)
    case None
    then show ?thesis using s r(2) L C by (auto simp: account_seek_def account_map_def cursor_ok_def)
  next
    case (Some kl)
    then obtain q l where q: "r = Some (q, l)" by (cases kl) auto
    then have ql: "tlook t q = Some l" using r(1) by simp
    obtain e where e: "entry_of P (key_of q) l = Some e" using ent [OF ql] by blast
    have ck: "cursor_key q = Ok (key_of q)" "length (key_of q) = 32" using key [of q] ql cursor_key_64 by (auto simp: length_key_of)
    have "account_seek P f cu key = (Ok (Some e), cu\<lparr>cu_memo := m, cu_last := Some (key_of q)\<rparr>)"
      using s(1) r(2) q ck(1) e C by (cases l) (auto simp: account_seek_def cursor_ok_def entry_of_def)
    moreover have "least_from (account_map P (tlook t)) key (Some (key_of q, e))" using L q e by (simp add: account_map_def)
    ultimately show ?thesis using entry_of_key [OF e] C s(2) ck(2) by (auto simp: cursor_ok_def)
  qed
qed

text \<open>The least entry above a key.\<close>

definition least_above :: "(bytes \<rightharpoonup> 'v) \<Rightarrow> bytes \<Rightarrow> (bytes \<times> 'v) option \<Rightarrow> bool" where
  "least_above m x r = (case r of
      None \<Rightarrow> (\<forall>k. m k \<noteq> None \<longrightarrow> k \<le> x)
    | Some (k, v) \<Rightarrow> m k = Some v \<and> x < k \<and> (\<forall>k'. m k' \<noteq> None \<longrightarrow> x < k' \<longrightarrow> k \<le> k'))"

lemma above_successor:
  assumes "key_successor x = Some x'" and "\<And>k. m k \<noteq> None \<Longrightarrow> length k = length x"
  shows "least_above m x r = least_from m x' r"
proof -
  have up: "x' \<le> k \<longleftrightarrow> x < k" if "m k \<noteq> None" for k
    using key_successor_least [OF assms(2) [OF that]] assms(1) by simp
  then have down: "k < x' \<longleftrightarrow> k \<le> x" if "m k \<noteq> None" for k using that by (metis not_less)
  show ?thesis
  proof (cases r)
    case None
    then show ?thesis unfolding least_above_def least_from_def using down by simp
  next
    case (Some kv)
    then obtain k v where "r = Some (k, v)" by (cases kv) auto
    then show ?thesis unfolding least_above_def least_from_def using up by auto
  qed
qed

lemma above_top:
  assumes "key_successor x = None" and "\<And>k. m k \<noteq> None \<Longrightarrow> length k = length x"
  shows "least_above m x None"
  using key_successor_least [OF assms(2)] assms(1) by (auto simp: least_above_def not_less)

lemma account_map_key: "account_map P m k \<noteq> None \<Longrightarrow> length k = 32"
  by (auto simp: account_map_def split: if_splits)

lemma account_next_finds:
  assumes W: "walkable P f M upper t" and C: "cursor_ok P M upper cu" and l: "cu_last cu = Some k" and T: "entries_typed P (tlook t)"
  shows "\<exists>r cu'. account_next P f cu = (Ok r, cu') \<and> cursor_ok P M upper cu' \<and> cu_last cu' = map_option ae_key r \<and>
    least_above (account_map P (tlook t)) k (map_option (\<lambda>e. (ae_key e, e)) r)"
proof -
  have k: "length k = 32" using C l by (simp add: cursor_ok_def)
  have A: "\<And>q. account_map P (tlook t) q \<noteq> None \<Longrightarrow> length q = length k" using account_map_key k by metis
  show ?thesis
  proof (cases "key_successor k")
    case None
    then show ?thesis using above_top [OF None A] C l by (auto simp: account_next_def cursor_ok_def)
  next
    case (Some k')
    have "length k' = 32" using key_successor_least [of k k] Some k by simp
    moreover have "least_above (account_map P (tlook t)) k x = least_from (account_map P (tlook t)) k' x" for x
      by (rule above_successor [OF Some A])
    ultimately show ?thesis
      using account_seek_finds [OF W C _ T, of k'] by (simp only: account_next_def l option.case Some)
  qed
qed

section \<open>A full scan\<close>

text \<open>The loop of a client: \<open>seek\<close> once, then \<open>next\<close> until there is no entry.\<close>

primrec scan_rest :: "prims \<Rightarrow> flat_file \<Rightarrow> nat \<Rightarrow> account_entry option \<times> cursor \<Rightarrow> account_entry list res" where
  "scan_rest P f 0 = (\<lambda>_. Err NoFuel)"
| "scan_rest P f (Suc n) = (\<lambda>(entry, cu). (case entry of
      None \<Rightarrow> Ok []
    | Some e \<Rightarrow> (case account_next P f cu of
        (Err x, _) \<Rightarrow> Err x
      | (Ok entry, cu) \<Rightarrow> res_map (Cons e) (scan_rest P f n (entry, cu)))))"

definition scan_accounts :: "prims \<Rightarrow> flat_file \<Rightarrow> nat \<Rightarrow> ram_node \<Rightarrow> account_entry list res" where
  "scan_accounts P f n upper = (case account_seek P f (account_cursor upper) (replicate 32 0) of
      (Err x, _) \<Rightarrow> Err x
    | (Ok entry, cu) \<Rightarrow> scan_rest P f n (entry, cu))"

lemma finite_account_map: "finite (dom (account_map P m))"
proof (rule finite_subset)
  show "dom (account_map P m) \<subseteq> {k. set k \<subseteq> UNIV \<and> length k = 32}" using account_map_key by blast
qed (rule finite_lists_length_eq, simp)

lemma sorted_list_least:
  assumes "finite A" and "k \<in> A" and "\<And>x. x \<in> A \<Longrightarrow> k \<le> x"
  shows "sorted_list_of_set A = k # sorted_list_of_set {x \<in> A. k < (x :: 'a::linorder)}"
proof -
  have "A = insert k {x \<in> A. k < x}" using assms(2,3) by force
  moreover have "sorted_list_of_set (insert k {x \<in> A. k < x}) = k # sorted_list_of_set {x \<in> A. k < x}"
    using assms(1) insort_is_Cons [of "sorted_list_of_set {x \<in> A. k < x}" "\<lambda>x. x" k] by (simp add: less_imp_le)
  ultimately show ?thesis by simp
qed

lemma scan_rest_complete:
  assumes W: "walkable P f M upper t" and T: "entries_typed P (tlook t)"
  shows "cursor_ok P M upper cu \<Longrightarrow> cu_last cu = map_option ae_key entry \<Longrightarrow>
    A = {k \<in> dom (account_map P (tlook t)). case entry of None \<Rightarrow> False | Some e \<Rightarrow> ae_key e \<le> k} \<Longrightarrow>
    (\<And>e. entry = Some e \<Longrightarrow> account_map P (tlook t) (ae_key e) = Some e) \<Longrightarrow> card A < n \<Longrightarrow>
    \<exists>es. scan_rest P f n (entry, cu) = Ok es \<and> map ae_key es = sorted_list_of_set A \<and> (\<forall>e \<in> set es. account_map P (tlook t) (ae_key e) = Some e)"
proof (induction n arbitrary: entry cu A)
  case (Suc n)
  show ?case
  proof (cases entry)
    case None
    then show ?thesis using Suc.prems(3) by simp
  next
    case (Some e)
    let ?m = "account_map P (tlook t)"
    have l: "cu_last cu = Some (ae_key e)" using Suc.prems(2) Some by simp
    obtain r cu' where r: "account_next P f cu = (Ok r, cu')" "cursor_ok P M upper cu'" "cu_last cu' = map_option ae_key r"
      "least_above ?m (ae_key e) (map_option (\<lambda>e. (ae_key e, e)) r)"
      using account_next_finds [OF W Suc.prems(1) l T] by blast
    define B where "B = {k \<in> dom ?m. case r of None \<Rightarrow> False | Some e \<Rightarrow> ae_key e \<le> k}"
    have A: "A = {k \<in> dom ?m. ae_key e \<le> k}" "finite A" "ae_key e \<in> A"
      using Suc.prems(3,4) Some finite_account_map [of P "tlook t"] by auto
    have B: "B = {k \<in> A. ae_key e < k}"
    proof (cases r)
      case None
      then show ?thesis using r(4) unfolding B_def A(1) by (auto simp: least_above_def not_le [symmetric] simp del: not_None_eq)
    next
      case r': (Some e')
      then have "ae_key e < ae_key e'" "\<And>k. ?m k \<noteq> None \<Longrightarrow> ae_key e < k \<Longrightarrow> ae_key e' \<le> k" using r(4) by (auto simp: least_above_def)
      note step = this
      show ?thesis
      proof (intro set_eqI iffI)
        fix k
        assume "k \<in> B"
        then have "k \<in> dom ?m" "ae_key e' \<le> k" by (simp_all add: B_def r')
        then show "k \<in> {k \<in> A. ae_key e < k}" using less_le_trans [OF step(1)] by (simp add: A(1) less_imp_le)
      next
        fix k
        assume "k \<in> {k \<in> A. ae_key e < k}"
        then show "k \<in> B" using step(2) [of k] by (auto simp: B_def r' A(1))
      qed
    qed
    have "B \<subset> A" using A(3) B by auto
    from psubset_card_mono [OF A(2) this] have "card B < n" using Suc.prems(5) by linarith
    moreover have "\<And>e. r = Some e \<Longrightarrow> ?m (ae_key e) = Some e" using r(4) by (auto simp: least_above_def)
    ultimately obtain es where es: "scan_rest P f n (r, cu') = Ok es" "map ae_key es = sorted_list_of_set B" "\<forall>e \<in> set es. ?m (ae_key e) = Some e"
      using Suc.IH [OF r(2,3) B_def] by blast
    have "sorted_list_of_set A = ae_key e # sorted_list_of_set B" unfolding B by (rule sorted_list_least) (use A in auto)
    then show ?thesis using es r(1) Some Suc.prems(4) by simp
  qed
qed simp

lemma scan_complete:
  assumes W: "walkable P f M upper t" and T: "entries_typed P (tlook t)" and n: "card (dom (account_map P (tlook t))) < n"
  shows "\<exists>es. scan_accounts P f n upper = Ok es \<and> map ae_key es = sorted_list_of_set (dom (account_map P (tlook t))) \<and>
    (\<forall>e \<in> set es. account_map P (tlook t) (ae_key e) = Some e)"
proof -
  let ?m = "account_map P (tlook t)"
  have C: "cursor_ok P M upper (account_cursor upper)" by (simp add: cursor_ok_def account_cursor_def memo_ok_def)
  obtain r cu where r: "account_seek P f (account_cursor upper) (replicate 32 0) = (Ok r, cu)" "cursor_ok P M upper cu"
    "cu_last cu = map_option ae_key r" "least_from ?m (replicate 32 0) (map_option (\<lambda>e. (ae_key e, e)) r)"
    using account_seek_finds [OF W C _ T, of "replicate 32 0"] by auto
  have z: "replicate 32 0 \<le> k" if "?m k \<noteq> None" for k using zeros_le [of k] account_map_key [OF that] by simp
  have D: "dom ?m = {k \<in> dom ?m. case r of None \<Rightarrow> False | Some e \<Rightarrow> ae_key e \<le> k}"
    using r(4) z by (cases r) (force simp: not_le [symmetric])+
  have "\<And>e. r = Some e \<Longrightarrow> ?m (ae_key e) = Some e" using r(4) by auto
  from scan_rest_complete [OF W T r(2,3) D this n] show ?thesis using r(1) by (simp add: scan_accounts_def)
qed

section \<open>The storage of an account\<close>

definition storage_rep :: "prims \<Rightarrow> (disk_ptr \<rightharpoonup> bytes) \<Rightarrow> leaf option \<Rightarrow> storage_ref option \<Rightarrow> bool" where
  "storage_rep P M lo out = (case lo of
      Some (LAcct no b c s) \<Rightarrow> wf0 s 64 \<and> val_only s \<and> (\<exists>sref. out = Some sref \<and> (case sref of
          SrNode n \<Rightarrow> repr P n s
        | SrRam n \<Rightarrow> \<exists>pre. frep P M n pre s \<and> placed pre s 64 \<and> mem_ok n \<and> hashed P s))
    | _ \<Rightarrow> out = None)"

lemma storage_rep_None [simp]: "storage_rep P M None out = (out = None)" "storage_rep P M (Some (LVal v)) out = (out = None)"
  by (simp_all add: storage_rep_def)

lemma storage_rep_node: "storage_rep P M (Some (LAcct no b c s)) (Some (SrNode n)) = (wf0 s 64 \<and> val_only s \<and> repr P n s)"
  by (simp add: storage_rep_def)

lemma record_storage_gen:
  assumes K: "keccak_len P"
  shows "wf0 t r \<Longrightarrow> d + r = length nibbles \<Longrightarrow> r \<le> 64 \<Longrightarrow> nibs_ok nibbles \<Longrightarrow> repr P n t \<Longrightarrow> get_fuel n r \<le> fuel \<Longrightarrow>
    \<exists>out. record_account_storage P f fuel n nibbles d = Ok out \<and> storage_rep P M (tlook t (drop d nibbles)) out"
proof (induction fuel arbitrary: t r d n)
  case 0
  then show ?case by (simp add: get_fuel_def split: if_splits)
next
  case (Suc fu)
  have idx: "from_idx nibbles d = Ok (drop d nibbles)" using Suc.prems by (simp add: from_idx_def)
  show ?case
  proof (cases n)
    case (Raw buf off len nref)
    then have "wf t r" using Suc.prems by (cases t) (auto simp: wf0_def)
    then obtain n' where n': "parse_node_lazy P buf off len = Ok n'" "repr P n' t" "\<not> is_raw n'"
      using parse_node_lazy_raw [of P buf off len nref t r] K Suc.prems Raw by auto
    then show ?thesis using Suc.IH [OF Suc.prems(1-4) n'(2)] Suc.prems(6) Raw by (simp add: get_fuel_def record_account_storage.simps)
  next
    case (Account p no b c s sr rf)
    then obtain ts where ts: "t = TAcct p no b c ts" "repr P s ts" using Suc.prems by auto
    then have "wf0 ts 64" using Suc.prems(1) wf_lengths(4) by blast
    moreover have "val_only ts" using Suc.prems(1) ts(1) by (auto simp: wf0_def)
    ultimately show ?thesis using ts Account idx
      by (auto simp: record_account_storage.simps storage_rep_node intro!: exI [of _ "Some (SrNode s)"])
  next
    case (Extension p ch rf)
    then obtain u where u: "t = TExt p u" "repr P ch u" using Suc.prems by auto
    then have w: "p \<noteq> []" "length p < r" "wf0 u (r - length p)" using Suc.prems by (auto simp: wf0_def)
    then have "get_fuel ch (r - length p) \<le> fu"
      using Suc.prems(6) Extension by (cases p) (auto simp: get_fuel_def split: if_splits)
    then show ?thesis
      using Suc.IH [of u "r - length p" "d + length p" ch] Suc.prems w u Extension idx
      by (auto simp: starts_with_def add.commute record_account_storage.simps)
  next
    case (Branch cs rf)
    then obtain ts where ts: "t = TBranch ts" "list_all2 (rel_option (repr P)) cs ts" using Suc.prems by auto
    then have w: "length ts = 16" "length cs = 16" "0 < r"
      using Suc.prems by (auto simp: wf0_def list_all2_lengthD)
    obtain x where x: "nibbles ! d = x" "drop d nibbles = x # drop (Suc d) nibbles" "d < length nibbles"
      using w Suc.prems by (simp add: Cons_nth_drop_Suc [symmetric])
    have xl: "unat x < 16" using nibs_ok_nth [OF Suc.prems(4) x(3)] x by (auto intro: nibble_unat)
    show ?thesis
    proof (cases "ts ! unat x")
      case None
      then have "cs ! unat x = None" using repr_branch_child [OF ts(2), of "unat x"] xl w by simp
      then show ?thesis using Branch ts None x xl w by (simp add: index_def record_account_storage.simps)
    next
      case (Some u)
      then obtain c where c: "cs ! unat x = Some c" "repr P c u"
        using repr_branch_child [OF ts(2), of "unat x"] xl w by (auto simp: option_rel_Some2)
      have "Some u \<in> set ts" using slot_mem [of "unat x" ts u] xl w Some by simp
      then have "wf0 u (r - 1)" using wf_lengths(3) Suc.prems(1) ts by blast
      moreover have "get_fuel c (r - 1) \<le> fu" using Suc.prems(6) Branch w by (cases r) (auto simp: get_fuel_def)
      ultimately show ?thesis
        using Suc.IH [of u "r - 1" "Suc d" c] Suc.prems w c Branch ts Some x xl by (auto simp: index_def record_account_storage.simps)
    qed
  qed (use Suc.prems idx in \<open>auto simp: record_account_storage.simps\<close>)
qed

lemma with_storage_rep:
  assumes K: "keccak_len P" and F: "readable f M" and N: "length nibbles = 64" "nibs_ok nibbles"
  shows "frep P M n pre t \<Longrightarrow> wfb t r \<Longrightarrow> placed pre t r \<Longrightarrow> length pre < 64 \<Longrightarrow> mem_ok n \<Longrightarrow> hashed P t \<Longrightarrow>
      \<exists>out. with_account_storage P f n nibbles (length pre) = Ok out \<and> storage_rep P M (tlook t (drop (length pre) nibbles)) out"
    and "crep P M c pre t \<Longrightarrow> wf t r \<Longrightarrow> placed pre t r \<Longrightarrow> length pre < 64 \<Longrightarrow> mem_ok_child c \<Longrightarrow> hashed P t \<Longrightarrow>
      \<exists>out. with_account_storage_child P f c nibbles (length pre) = Ok out \<and> storage_rep P M (tlook t (drop (length pre) nibbles)) out"
proof (induction n and c arbitrary: pre t r and pre t r)
  case (RExtension p n h)
  then obtain u where u: "t = TExt p u" "frep P M n (pre @ p) u" by auto
  have w: "wf t r" using RExtension.prems(2) u by simp
  note pl = placed_ext [OF RExtension.prems(3) [unfolded u(1)] w [unfolded u(1)]]
  have d: "walk_depth pre = length pre" "length pre + r = 64" "length p < r"
    using placed_depth(1) [OF RExtension.prems(3)] RExtension.prems(4) w u(1) by (auto simp: walk_depth_def)
  have "from_idx nibbles (length pre) = Ok (drop (length pre) nibbles)" using d N by (simp add: from_idx_def)
  then show ?case
    using RExtension.IH [OF u(2) wf_wfb [OF pl(2)] pl(1)] RExtension.prems(5,6) u(1) d
    by (auto simp: starts_with_def add.commute)
next
  case (RBranch cs h)
  then obtain ts where ts: "t = TBranch ts" "length cs = 16" "length ts = 16"
    "\<And>i. i < 16 \<Longrightarrow> rel_option (\<lambda>c u. crep P M c (pre @ [word_of_nat i]) u) (cs ! i) (ts ! i)"
    unfolding frep_RBranch by auto
  have r: "0 < r" using RBranch.prems(2) ts(1) by simp
  have d: "length pre + r = 64" using placed_depth(1) [OF RBranch.prems(3)] RBranch.prems(4) by (simp add: walk_depth_def)
  from branch_step [OF N d r ts(2)] obtain x i where
    x: "index nibbles (length pre) = Ok x" "i = unat x" "i < 16" "x = word_of_nat i"
    "drop (length pre) nibbles = x # drop (length pre + 1) nibbles" "index cs (unat x) = Ok (cs ! i)" .
  note x' = x(1,2,3,5,6)
  show ?case
  proof (cases "cs ! i")
    case None
    then show ?thesis using ts(4) [OF x(3)] ts(1-3) x' by (simp add: index_map)
  next
    case (Some c)
    from frep_slot [OF ts(4,2,3) x(3) Some] obtain u where
      u: "ts ! i = Some u" "crep P M c (pre @ [word_of_nat i]) u" "Some u \<in> set ts" "Some c \<in> set cs" .
    note pl = placed_child [OF RBranch.prems(3,2) [unfolded ts(1)] x(3) u(3)]
    have m: "length (pre @ [word_of_nat i]) < 64" "mem_ok_child c" "hashed P u"
      using pl(2) RBranch.prems(4-6) u(3,4) ts(1) by auto
    have "\<exists>out. with_account_storage_child P f c nibbles (length pre + 1) = Ok out \<and>
        storage_rep P M (tlook u (drop (length pre + 1) nibbles)) out"
      using RBranch.IH [of "Some c" c, OF _ _ u(2) pl(3,1) m] u(4) by simp
    then show ?thesis using Some u x' ts(1-3) by (simp add: index_map)
  qed
next
  case (RDisk ptr root)
  obtain m where m: "read_lazy P f ptr = Ok \<lparr>ds_prefix = pre, ds_node = m\<rparr>" "repr P m t"
    using disk_read [OF K RDisk.prems(2) placed_depth(3) [OF RDisk.prems(3)] F RDisk.prems(1)] by blast
  have "wf0 t r" "length pre + r = length nibbles" "r \<le> 64" "get_fuel m r \<le> REC_FUEL"
    using RDisk.prems(2) placed_depth(1,2) [OF RDisk.prems(3)] RDisk.prems(4) N by (auto simp: wf0_def walk_depth_def get_fuel_def REC_FUEL_def)
  from record_storage_gen [OF K this(1-3) N(2) m(2) this(4), where f = f and M = M] show ?case using m(1) by simp
next
  case (RMem bs root)
  obtain m where m: "parse_payload_lazy P bs = Ok \<lparr>ds_prefix = pre, ds_node = m\<rparr>" "repr P m t"
    using mem_read [OF K RMem.prems(2) placed_depth(3) [OF RMem.prems(3)] RMem.prems(1,5)] by blast
  have "wf0 t r" "length pre + r = length nibbles" "r \<le> 64" "get_fuel m r \<le> REC_FUEL"
    using RMem.prems(2) placed_depth(1,2) [OF RMem.prems(3)] RMem.prems(4) N by (auto simp: wf0_def walk_depth_def get_fuel_def REC_FUEL_def)
  from record_storage_gen [OF K this(1-3) N(2) m(2) this(4), where f = f and M = M] show ?case using m(1) by simp
next
  case (RAccount p n b c st)
  then obtain bal s where s: "t = TAcct p n bal c s" "frep P M st (pre @ p) s" "length (pre @ p) = 64" by auto
  note pl = placed_storage [OF RAccount.prems(3,2) [unfolded s(1)] s(3)]
  have "val_only s" "hashed P s" "mem_ok st" using RAccount.prems(2,5,6) s(1) by auto
  then have "storage_rep P M (Some (LAcct n bal c s)) (Some (SrRam st))" using pl(1,3) s(2) by (auto simp: storage_rep_def)
  moreover have "from_idx nibbles (length pre) = Ok (drop (length pre) nibbles)" using RAccount.prems(4) N by (simp add: from_idx_def)
  ultimately show ?case using s(1) by auto
next
  case (RRam n)
  show ?case using RRam.IH [OF _ wf_wfb [OF RRam.prems(2)] RRam.prems(3,4)] RRam.prems(1,5,6) by simp
qed auto

section \<open>The storage cursor\<close>

lemma wf0_key: "wf0 t r \<Longrightarrow> tlook t k \<noteq> None \<Longrightarrow> length k = r \<and> nibs_ok k"
  using wf_key_length wf_key_nibs by (cases "t = TEmpty") (auto simp: wf0_def)

definition storage_walk :: "prims \<Rightarrow> flat_file \<Rightarrow> storage_ref option \<Rightarrow> nibs \<Rightarrow> seek_hit option cm" where
  "storage_walk P f storage target = (case storage of
      None \<Rightarrow> cret None
    | Some (SrNode n) \<Rightarrow> node_seek P f REC_FUEL n [] target False
    | Some (SrRam n) \<Rightarrow> ram_seek P f n [] target False)"

lemma storage_walks:
  assumes K: "keccak_len P" and F: "readable f M" "one_record M" and S: "storage_rep P M (Some (LAcct no b c s)) out" and k: "length slot = 32"
  shows "walks P M (storage_walk P f out (key_nibbles slot)) (hits P (tlook s) [] (key_nibbles slot))"
proof -
  have o': "on_path [] (key_nibbles slot) False 64" using k by (simp add: on_path_def)
  have b: "bound [] (key_nibbles slot) False = key_nibbles slot" by (simp add: bound_def)
  from S obtain sref where sref: "wf0 s 64" "val_only s" "out = Some sref" "case sref of SrNode n \<Rightarrow> repr P n s
      | SrRam n \<Rightarrow> \<exists>pre. frep P M n pre s \<and> placed pre s 64 \<and> mem_ok n \<and> hashed P s"
    by (auto simp: storage_rep_def)
  show ?thesis
  proof (cases sref)
    case (SrNode n)
    then have "get_fuel n 64 \<le> REC_FUEL" "repr P n s" using sref(4) by (auto simp: get_fuel_def REC_FUEL_def)
    from node_seek_walks [OF K sref(1) o' this(2,1), of M f] show ?thesis unfolding b by (simp add: storage_walk_def sref(3) SrNode)
  next
    case (SrRam n)
    then obtain pre where n: "frep P M n pre s" "placed pre s 64" "mem_ok n" "hashed P s" using sref(4) by auto
    have "wfb s 64" using sref(1) wf_wfb by (auto simp: wf0_def)
    from ram_seek_walks(1) [OF K F n(1) this n(2-4) o'] show ?thesis unfolding b by (simp add: storage_walk_def sref(3) SrRam)
  qed
qed

lemma storage_seek_finds:
  assumes W: "walkable P f M upper t" and C: "cursor_ok P M upper cu" and a: "length (sc_account cu) = 32" and k: "length slot = 32"
  shows "\<exists>r cu'. storage_seek P f cu slot = (Ok r, cu') \<and> cursor_ok P M upper cu' \<and> sc_account cu' = sc_account cu \<and>
    cu_last cu' = map_option fst r \<and> least_from (slots_of (view P (tlook t (key_nibbles (sc_account cu))))) slot r"
proof -
  let ?lo = "tlook t (key_nibbles (sc_account cu))"
  have w: "keccak_len P" "readable f M" "one_record M" using W by (auto simp: walkable_def)
  obtain out where out: "with_account_storage P f upper (key_nibbles (sc_account cu)) 0 = Ok out" "storage_rep P M ?lo out"
    using with_storage_rep(1) [OF w(1,2), of "key_nibbles (sc_account cu)" upper "[]" t 64] W a by (auto simp: walkable_def)
  have seek: "storage_seek P f cu slot = (case storage_walk P f out (key_nibbles slot) (cu_memo cu) of
      (Err e, m) \<Rightarrow> (Err e, cu\<lparr>cu_memo := m\<rparr>)
    | (Ok None, m) \<Rightarrow> (Ok None, cu\<lparr>cu_memo := m, cu_last := None\<rparr>)
    | (Ok (Some (nibbles, LoValue v)), m) \<Rightarrow>
        (case cursor_key nibbles of
           Err e \<Rightarrow> (Err e, cu\<lparr>cu_memo := m\<rparr>)
         | Ok k \<Rightarrow> (Ok (Some (k, v)), cu\<lparr>cu_memo := m, cu_last := Some k\<rparr>))
    | (Ok (Some (nibbles, LoAccount _ _ _ _)), m) \<Rightarrow> (Err (Bail ''account node inside a storage trie''), cu\<lparr>cu_memo := m\<rparr>))"
    using C out(1) by (simp add: storage_seek_def storage_walk_def Let_def cursor_ok_def)
  show ?thesis
  proof (cases "\<exists>no b c s. ?lo = Some (LAcct no b c s)")
    case False
    then have "out = None" "slots_of (view P ?lo) = Map.empty" using out(2) by (auto simp: storage_rep_def view_def split: option.splits leaf.splits)
    then show ?thesis using seek C by (auto simp: storage_walk_def cret_def cursor_ok_def)
  next
    case True
    then obtain no b c s where lo: "?lo = Some (LAcct no b c s)" by blast
    have s: "wf0 s 64" "val_only s" using out(2) lo by (auto simp: storage_rep_def)
    obtain hit m where h: "storage_walk P f out (key_nibbles slot) (cu_memo cu) = (Ok hit, m)" "memo_ok P M m" "hits P (tlook s) [] (key_nibbles slot) hit"
      using storage_walks [OF w out(2) [unfolded lo] k] C unfolding walks_def cursor_ok_def by blast
    then obtain r where r: "least_from (tlook s) (key_nibbles slot) r" "hit = map_option (\<lambda>(k, l). (k, leaf_hit P l)) r"
      by (auto simp: hits_def)
    note L = key_least [where e = "\<lambda>k l. Some (leaf_value P l)", OF r(1) wf0_key [OF s(1)] k]
    have v: "slots_of (view P ?lo) = (\<lambda>k. if length k = 32 then Option.bind (tlook s (key_nibbles k)) (\<lambda>l. Some (leaf_value P l)) else None)"
      by (auto simp: lo view_def map_option_case split: option.splits)
    show ?thesis
    proof (cases r)
      case None
      then show ?thesis using h r(2) L C unfolding v seek by (auto simp: cursor_ok_def)
    next
      case (Some kl)
      then obtain q l where q: "r = Some (q, l)" by (cases kl) auto
      then have ql: "tlook s q = Some l" using r(1) by simp
      then obtain x where x: "l = LVal x" using tlook_val_only [OF s(2)] by blast
      have ck: "cursor_key q = Ok (key_of q)" "length (key_of q) = 32" using wf0_key [OF s(1), of q] ql cursor_key_64 by (auto simp: length_key_of)
      have "storage_seek P f cu slot = (Ok (Some (key_of q, x)), cu\<lparr>cu_memo := m, cu_last := Some (key_of q)\<rparr>)"
        using h(1) r(2) q ck(1) x unfolding seek by simp
      moreover have "least_from (slots_of (view P ?lo)) slot (Some (key_of q, x))" using L q x unfolding v by simp
      ultimately show ?thesis using C h(2) ck(2) by (auto simp: cursor_ok_def)
    qed
  qed
qed

lemma slots_key: "slots_of (view P lo) k \<noteq> None \<Longrightarrow> length k = 32"
  by (auto simp: view_def slots_of_def split: option.splits leaf.splits if_splits)

lemma storage_next_finds:
  assumes W: "walkable P f M upper t" and C: "cursor_ok P M upper cu" and a: "length (sc_account cu) = 32" and l: "cu_last cu = Some k"
  shows "\<exists>r cu'. storage_next P f cu = (Ok r, cu') \<and> cursor_ok P M upper cu' \<and> sc_account cu' = sc_account cu \<and>
    cu_last cu' = map_option fst r \<and> least_above (slots_of (view P (tlook t (key_nibbles (sc_account cu))))) k r"
proof -
  let ?m = "slots_of (view P (tlook t (key_nibbles (sc_account cu))))"
  have k: "length k = 32" using C l by (simp add: cursor_ok_def)
  have A: "\<And>q. ?m q \<noteq> None \<Longrightarrow> length q = length k" using slots_key k by metis
  show ?thesis
  proof (cases "key_successor k")
    case None
    then show ?thesis using above_top [where m = ?m, OF None A] C l by (auto simp: storage_next_def cursor_ok_def)
  next
    case (Some k')
    have "length k' = 32" using key_successor_least [of k k] Some k by simp
    moreover have "least_above ?m k x = least_from ?m k' x" for x by (rule above_successor [OF Some A])
    ultimately show ?thesis
      using storage_seek_finds [OF W C a, of k'] by (simp only: storage_next_def l option.case Some)
  qed
qed

end
