(* ===== verification/CursorSpec.thy ===== *)
theory CursorSpec
  imports CursorProofs SystemSpec
begin

text \<open>
  What the cursors promise over the live database and over snapshots, after any
  interleaving of operations, maintenance, crashes and reopenings.
\<close>

section \<open>Views\<close>

text \<open>A frontier to read from, with the contents it stands for: the live one or that of a snapshot.\<close>

definition view_of :: "prims \<Rightarrow> system \<Rightarrow> ram_node \<Rightarrow> (nibs \<rightharpoonup> leaf) \<Rightarrow> bool" where
  "view_of P s upper m = ((upper = db_upper (sy_db s) \<and> map_run P Map.empty (sy_ops s) = Ok m) \<or>
     (\<exists>sn ops. (sn, ops) \<in> set (sy_snaps s) \<and> upper = sn_root sn \<and> map_run P Map.empty ops = Ok m))"

lemma view_walkable:
  assumes "keccak_len P" and "decode_typed P" and "rlp_keeps P" and "reads_back ser de" and "sys_hist P ser de s"
    and "view_of P s upper m" and "\<forall>k l. m k = Some l \<longrightarrow> wide P l" and "mem_ok upper"
  shows "\<exists>M t. walkable P (sy_file s) M upper t \<and> m = tlook t"
proof -
  obtain Z t where I: "sys_inv P de Z t s" using sys_hist_inv [OF assms(1,2,4,5)] by blast
  obtain N where N: "ff_rel Z (sy_file s) N" "froot P N (db_upper (sy_db s)) t"
    using I by (auto simp: sys_inv_def db_inv_froot)
  obtain M u where M: "froot P M upper u" "readable (sy_file s) M" "one_record M" "m = tlook u"
    using assms(6) unfolding view_of_def
  proof (elim disjE exE conjE)
    assume live: "upper = db_upper (sy_db s)" "map_run P Map.empty (sy_ops s) = Ok m"
    have "one_record N" by (rule holds_one_record [of N "ff_data (sy_file s)"]) (use N(1) in \<open>auto simp: ff_rel_def\<close>)
    then show ?thesis using that [of N t] N live I rel_readable [OF N(1)] by (simp add: sys_inv_def)
  next
    fix sn ops
    assume sn: "(sn, ops) \<in> set (sy_snaps s)" "upper = sn_root sn" "map_run P Map.empty ops = Ok m"
    then obtain m0 t0 where t: "fz_snaps Z (sn_gen sn) = Some m0" "froot P m0 (sn_root sn) t0" "m = tlook t0"
      using I by (force simp: sys_inv_def snap_ok_def)
    have p: "pinned (ff_seg (sy_file s)) (sn_gen sn)"
      by (rule count_pinned(2) [OF N(1) handle_gen [OF I snap_handle [OF sn(1)]]])
    have "one_record m0"
      by (rule holds_one_record [of m0 "ff_data (sy_file s)"]) (use N(1) p t(1) in \<open>auto simp: ff_rel_def snaps_ok_def\<close>)
    then show ?thesis using that [of m0 t0] t sn(2) snap_readable [OF N(1) p t(1)] by simp
  qed
  have F: "frep P M upper [] u" "wfb u 64" "shallow u 0" using M(1) by (auto simp: froot_def)
  have "hashed P u" by (rule hashed_root [OF assms(1,3) F(2)]) (use assms(7) M(4) in blast)
  then have "walkable P (sy_file s) M upper u"
    using assms(1,8) F M(2,3) placed_root [OF F(3)] by (simp add: walkable_def)
  then show ?thesis using M(4) by blast
qed

section \<open>Account cursors\<close>

text \<open>The cursors a client can hold: opened on a frontier, moved by seeks and nexts.\<close>

inductive cursor_run :: "prims \<Rightarrow> flat_file \<Rightarrow> ram_node \<Rightarrow> cursor \<Rightarrow> bool" for P f upper where
  cr_open: "cursor_run P f upper (account_cursor upper)"
| cr_seek: "cursor_run P f upper cu \<Longrightarrow> length key = 32 \<Longrightarrow> account_seek P f cu key = (r, cu') \<Longrightarrow> cursor_run P f upper cu'"
| cr_next: "cursor_run P f upper cu \<Longrightarrow> account_next P f cu = (r, cu') \<Longrightarrow> cursor_run P f upper cu'"

lemma next_at_end: "cu_last cu = None \<Longrightarrow> account_next P f cu = (Ok None, cu)"
  by (simp add: account_next_def)

lemma cursor_run_ok:
  assumes W: "walkable P f M upper t" and T: "entries_typed P (tlook t)"
  shows "cursor_run P f upper cu \<Longrightarrow> cursor_ok P M upper cu"
proof (induction rule: cursor_run.induct)
  case cr_open
  then show ?case by (simp add: cursor_ok_def account_cursor_def memo_ok_def)
next
  case (cr_seek cu key r cu')
  then show ?case using account_seek_finds [OF W cr_seek.IH cr_seek.hyps(2) T] by auto
next
  case (cr_next cu r cu')
  then show ?case
  proof (cases "cu_last cu")
    case None
    then show ?thesis using cr_next next_at_end by force
  next
    case (Some k)
    then show ?thesis using account_next_finds [OF W cr_next.IH Some T] cr_next.hyps(2) by auto
  qed
qed

text \<open>C16: Over the live database or a snapshot, an account cursor moved in any way seeks to the
  first account whose key is not below the target, with the fields and the storage root the
  history gave it; \<^verbatim>\<open>next\<close> moves to the first account above the last one found, and the
  one-record memo never returns another record's nodes.\<close>

theorem account_cursor_finds:
  assumes "keccak_len P" and "decode_typed P" and "rlp_keeps P" and "reads_back ser de" and "sys_hist P ser de s"
    and "view_of P s upper m" and "\<forall>k l. m k = Some l \<longrightarrow> wide P l" and "mem_ok upper" and "entries_typed P m"
    and "cursor_run P (sy_file s) upper cu" and "length key = 32"
  shows "(\<exists>r cu'. account_seek P (sy_file s) cu key = (Ok r, cu') \<and> least_from (account_map P m) key (map_option (\<lambda>e. (ae_key e, e)) r)) \<and>
    (\<exists>r cu'. account_next P (sy_file s) cu = (Ok r, cu') \<and>
      (case cu_last cu of None \<Rightarrow> r = None | Some k \<Rightarrow> least_above (account_map P m) k (map_option (\<lambda>e. (ae_key e, e)) r)))"
proof -
  obtain M t where W: "walkable P (sy_file s) M upper t" "m = tlook t" using view_walkable [OF assms(1-8)] by blast
  have T: "entries_typed P (tlook t)" using assms(9) W(2) by simp
  have C: "cursor_ok P M upper cu" by (rule cursor_run_ok [OF W(1) T assms(10)])
  show ?thesis
  proof (cases "cu_last cu")
    case None
    then show ?thesis using account_seek_finds [OF W(1) C assms(11) T] W(2) by (auto simp: next_at_end)
  next
    case (Some k)
    then show ?thesis using account_seek_finds [OF W(1) C assms(11) T] account_next_finds [OF W(1) C Some T] W(2) by auto
  qed
qed

text \<open>C17: A full scan, one seek to the zero key and \<^verbatim>\<open>next\<close> until there is no entry, ends and
  lists every account of the view exactly once, in key order.\<close>

theorem account_scan_complete:
  assumes "keccak_len P" and "decode_typed P" and "rlp_keeps P" and "reads_back ser de" and "sys_hist P ser de s"
    and "view_of P s upper m" and "\<forall>k l. m k = Some l \<longrightarrow> wide P l" and "mem_ok upper" and "entries_typed P m"
  shows "\<exists>es. scan_accounts P (sy_file s) (card (dom (account_map P m)) + 1) upper = Ok es \<and>
    map ae_key es = sorted_list_of_set (dom (account_map P m)) \<and> (\<forall>e \<in> set es. account_map P m (ae_key e) = Some e)"
proof -
  obtain M t where W: "walkable P (sy_file s) M upper t" "m = tlook t" using view_walkable [OF assms(1-8)] by blast
  show ?thesis unfolding W(2) by (rule scan_complete [OF W(1)]) (use assms(9) W(2) in simp_all)
qed

section \<open>Storage cursors\<close>

inductive storage_run :: "prims \<Rightarrow> flat_file \<Rightarrow> ram_node \<Rightarrow> bytes \<Rightarrow> slot_cursor \<Rightarrow> bool" for P f upper account where
  sr_open: "storage_run P f upper account (storage_cursor upper account)"
| sr_seek: "storage_run P f upper account cu \<Longrightarrow> length slot = 32 \<Longrightarrow> storage_seek P f cu slot = (r, cu') \<Longrightarrow> storage_run P f upper account cu'"
| sr_next: "storage_run P f upper account cu \<Longrightarrow> storage_next P f cu = (r, cu') \<Longrightarrow> storage_run P f upper account cu'"

lemma storage_at_end: "cu_last cu = None \<Longrightarrow> storage_next P f cu = (Ok None, cu)"
  by (simp add: storage_next_def)

lemma storage_run_ok:
  assumes W: "walkable P f M upper t" and a: "length account = 32"
  shows "storage_run P f upper account cu \<Longrightarrow> cursor_ok P M upper cu \<and> sc_account cu = account"
proof (induction rule: storage_run.induct)
  case sr_open
  then show ?case by (simp add: cursor_ok_def storage_cursor_def memo_ok_def)
next
  case (sr_seek cu slot r cu')
  then show ?case using storage_seek_finds [OF W, of cu slot] a by auto
next
  case (sr_next cu r cu')
  then show ?case
  proof (cases "cu_last cu")
    case None
    then show ?thesis using sr_next storage_at_end by force
  next
    case (Some k)
    then show ?thesis using storage_next_finds [OF W, of cu k] sr_next a by auto
  qed
qed


section \<open>Witnesses\<close>

definition demo_put_slot :: db_op where
  "demo_put_slot = Put demo_key3 (OpStorage demo_key1 demo_value)"

definition demo_cursor_leaf :: leaf where
  "demo_cursor_leaf = LAcct 0 0 EMPTY_CODE_HASH (TLeaf (key_nibbles demo_key1) demo_value)"

lemma demo_put_slot_map: "map_run demo Map.empty [demo_put_slot] = Ok [key_nibbles demo_key3 \<mapsto> demo_cursor_leaf]"
  by (simp add: demo_put_slot_def demo_cursor_leaf_def)

lemma demo_put_wide: "\<forall>k l. [key_nibbles demo_key3 \<mapsto> demo_cursor_leaf] k = Some l \<longrightarrow> wide demo l"
  by (auto simp: demo_cursor_leaf_def acct_value_def account_rlp_def account_contract_def demo_def demo_account_encode_def demo_value_def)

lemma demo_cursor_system: "\<exists>s. sys_hist demo ser de s \<and> sy_ops s = [demo_put_slot] \<and> mem_ok (db_upper (sy_db s))"
proof -
  let ?db = "db_new demo_cfg True" and ?s0 = "sys_new demo_cfg True True"
  have "\<exists>h db'. insert_op demo ?db demo_key3 (OpStorage demo_key1 demo_value) (ff_new True) = (Ok (h, db'), ff_new True) \<and> db_ram db' \<and>
      mem_ok (db_upper db') \<and> db_inv fz_none demo (ff_new True) db' (fput TEmpty (key_nibbles demo_key3) demo_cursor_leaf)"
  proof (rule insert_empty_slot [OF _ _ _ _ db_new_inv])
    show "length (enc demo (mk_leaf (drop 1 (key_nibbles demo_key3)) demo_cursor_leaf)) < 2 ^ 30"
      using demo_enc [of demo "key_nibbles demo_key1" demo_value] by (simp add: demo_cursor_leaf_def demo_value_def div_ceil2_def demo_nibs)
  qed (simp_all add: db_new_def apart63_def demo_nibs demo_cursor_leaf_def)
  then obtain h db' where e: "insert_op demo ?db demo_key3 (OpStorage demo_key1 demo_value) (ff_new True) = (Ok (h, db'), ff_new True)"
    "mem_ok (db_upper db')" by blast
  have "sys_step demo ser de ?s0 ((seen (ff_new True) ?s0)\<lparr>sy_db := db', sy_ops := sy_ops ?s0 @ [demo_put_slot]\<rparr>)"
    by (rule y_exec [where h = h]) (use e in \<open>simp_all add: sys_new_def db_new_def demo_put_slot_def spread_def demo_nibs\<close>)
  from y_step [OF y_new this] show ?thesis
    using e(2) by (intro exI [of _ "(seen (ff_new True) ?s0)\<lparr>sy_db := db', sy_ops := sy_ops ?s0 @ [demo_put_slot]\<rparr>"]) (simp add: sys_new_def)
qed

lemma demo_accounts: "dom (account_map demo [key_nibbles demo_key3 \<mapsto> demo_cursor_leaf]) = {demo_key3}"
  by (auto simp: account_map_def demo_cursor_leaf_def entry_of_def key_nibbles_inj demo_nibs split: if_splits)

lemma demo_slots_of: "slots_of (view demo (([key_nibbles demo_key3 \<mapsto> demo_cursor_leaf]) (key_nibbles demo_key3))) = [demo_key1 \<mapsto> demo_value]"
  by (auto simp: demo_cursor_leaf_def view_def key_nibbles_inj)

lemma demo_entries: "entries_typed demo [key_nibbles demo_key3 \<mapsto> demo_cursor_leaf]"
  by (simp add: entries_typed_def entry_of_def demo_cursor_leaf_def)

lemma demo_view_of: "sy_ops s = [demo_put_slot] \<Longrightarrow> view_of demo s (db_upper (sy_db s)) [key_nibbles demo_key3 \<mapsto> demo_cursor_leaf]"
  unfolding view_of_def by (intro disjI1 conjI refl) (simp only: demo_put_slot_map)

theorem account_cursor_finds_witness:
  "\<exists>m s r cu'. sys_hist demo (one_ser m) (one_de m) s \<and>
     account_seek demo (sy_file s) (account_cursor (db_upper (sy_db s))) (replicate 32 0) = (Ok r, cu') \<and> map_option ae_key r = Some demo_key3"
proof -
  fix m
  obtain s where s: "sys_hist demo (one_ser m) (one_de m) s" "sy_ops s = [demo_put_slot]" "mem_ok (db_upper (sy_db s))" using demo_cursor_system by blast
  obtain r cu' where r: "account_seek demo (sy_file s) (account_cursor (db_upper (sy_db s))) (replicate 32 0) = (Ok r, cu')"
    "least_from (account_map demo [key_nibbles demo_key3 \<mapsto> demo_cursor_leaf]) (replicate 32 0) (map_option (\<lambda>e. (ae_key e, e)) r)"
    using account_cursor_finds [OF _ _ rlp_keeps_demo one_reads s(1) demo_view_of [OF s(2)] demo_put_wide s(3) demo_entries cr_open, of "replicate 32 0"] by auto
  have "map_option ae_key r = Some demo_key3"
  proof (cases r)
    case None
    have "demo_key3 \<in> dom (account_map demo [key_nibbles demo_key3 \<mapsto> demo_cursor_leaf])" using demo_accounts by blast
    then have "demo_key3 < replicate 32 0" using r(2) None by auto
    then show ?thesis using zeros_le [of demo_key3] by (simp add: demo_nibs leD)
  next
    case (Some e)
    then show ?thesis using r(2) demo_accounts by auto
  qed
  then show ?thesis using s(1) r(1) by blast
qed

theorem account_scan_complete_witness:
  "\<exists>m s es. sys_hist demo (one_ser m) (one_de m) s \<and> scan_accounts demo (sy_file s) 2 (db_upper (sy_db s)) = Ok es \<and> map ae_key es = [demo_key3]"
proof -
  fix m
  obtain s where s: "sys_hist demo (one_ser m) (one_de m) s" "sy_ops s = [demo_put_slot]" "mem_ok (db_upper (sy_db s))" using demo_cursor_system by blast
  let ?m = "[key_nibbles demo_key3 \<mapsto> demo_cursor_leaf]"
  obtain es where es: "scan_accounts demo (sy_file s) (Suc (card (dom (account_map demo ?m)))) (db_upper (sy_db s)) = Ok es"
    "map ae_key es = sorted_list_of_set (dom (account_map demo ?m))"
    using account_scan_complete [OF _ _ rlp_keeps_demo one_reads s(1) demo_view_of [OF s(2)] demo_put_wide s(3) demo_entries] by auto
  show ?thesis
    by (rule exI [of _ m], rule exI [of _ s], rule exI [of _ es]) (use s(1) es in \<open>simp add: demo_accounts numeral_2_eq_2\<close>)
qed


end
