(* ===== verification/Reveal.thy ===== *)
theory Reveal
  imports Cursor Maintain
begin

text \<open>
  \<^verbatim>\<open>src/src/reveal.rs\<close>: the nodes on the paths of keys, copied out of the store with the
  references it already holds, for a sparse trie that applies updates elsewhere. A walk
  threads an emitter (\<open>em\<close>): the record memo, the nodes emitted and the positions seen.
\<close>

section \<open>Revealed nodes\<close>

datatype reveal_ref = RvHash bytes | RvInline bytes

datatype reveal_node =
    RvBranch nibs "reveal_ref option list" u16 u16
  | RvExtension nibs nibs reveal_ref
  | RvLeaf nibs nibs bytes
  | RvEmptyRoot

primrec copy_ref :: "node_ref \<Rightarrow> reveal_ref" where
  "copy_ref (NHash h) = RvHash h"
| "copy_ref (NInline b) = RvInline b"

primrec node_child_ref :: "prims \<Rightarrow> nat \<Rightarrow> node \<Rightarrow> reveal_ref res" where
  "node_child_ref P 0 = (\<lambda>nd. Err NoFuel)"
| "node_child_ref P (Suc fuel) = (\<lambda>nd.
     (case nd of
        Leaf path value nref \<Rightarrow> Ok (copy_ref nref)
      | Account path nonce balance code_hash storage storage_root nref \<Rightarrow> Ok (copy_ref nref)
      | Extension path child nref \<Rightarrow> Ok (copy_ref nref)
      | Branch children nref \<Rightarrow> Ok (copy_ref nref)
      | Overflow ptr root \<Rightarrow> Ok (RvHash root)
      | Raw buf off len nref \<Rightarrow> res_bind (parse_node_lazy P buf off len) (node_child_ref P fuel)
      | Empty \<Rightarrow> Err (Bail ''empty child has no ref'')))"

definition is_hash :: "node_ref \<Rightarrow> bool" where
  "is_hash r = (case r of NHash h \<Rightarrow> True | NInline b \<Rightarrow> False)"

definition is_branch_node :: "node \<Rightarrow> bool" where
  "is_branch_node nd = (case nd of Branch children nref \<Rightarrow> True | _ \<Rightarrow> False)"

primrec node_child_masks :: "prims \<Rightarrow> nat \<Rightarrow> node \<Rightarrow> (bool \<times> bool) res" where
  "node_child_masks P 0 = (\<lambda>nd. Err NoFuel)"
| "node_child_masks P (Suc fuel) = (\<lambda>nd.
     (case nd of
        Empty \<Rightarrow> Ok (False, False)
      | Leaf path value nref \<Rightarrow> Ok (False, is_hash nref)
      | Account path nonce balance code_hash storage storage_root nref \<Rightarrow> Ok (False, is_hash nref)
      | Extension path child nref \<Rightarrow>
          res_map (\<lambda>(tree, _). (tree \<or> is_branch_node child, is_hash nref)) (node_child_masks P fuel child)
      | Branch children nref \<Rightarrow> Ok (True, is_hash nref)
      | Overflow ptr root \<Rightarrow> Ok (True, True)
      | Raw buf off len nref \<Rightarrow> res_bind (parse_node_lazy P buf off len) (node_child_masks P fuel)))"

declare node_child_ref.simps(2) [simp del] node_child_masks.simps(2) [simp del]

section \<open>The emitter\<close>

record emitter =
  em_memo :: record_memo
  em_out :: "reveal_node list"
  em_seen :: "nibs set"

type_synonym 'a em = "emitter \<Rightarrow> 'a res \<times> emitter"

definition eret :: "'a \<Rightarrow> 'a em" where
  "eret x = (\<lambda>e. (Ok x, e))"

definition elift :: "'a res \<Rightarrow> 'a em" where
  "elift r = (\<lambda>e. (r, e))"

definition ebind :: "'a em \<Rightarrow> ('a \<Rightarrow> 'b em) \<Rightarrow> 'b em" where
  "ebind c g = (\<lambda>e. case c e of (Ok x, e') \<Rightarrow> g x e' | (Err x, e') \<Rightarrow> (Err x, e'))"

definition eread :: "prims \<Rightarrow> flat_file \<Rightarrow> disk_ptr \<Rightarrow> disk_subtree em" where
  "eread P f ptr = (\<lambda>e. case memo_read P f ptr (em_memo e) of (r, m) \<Rightarrow> (r, e\<lparr>em_memo := m\<rparr>))"

definition emit :: "nibs \<Rightarrow> reveal_node res \<Rightarrow> unit em" where
  "emit path node = (\<lambda>e.
     if path \<in> em_seen e then (Ok (), e)
     else (let e = e\<lparr>em_seen := insert path (em_seen e)\<rparr> in
           case node of
             Err x \<Rightarrow> (Err x, e)
           | Ok n \<Rightarrow> (Ok (), e\<lparr>em_out := em_out e @ [n]\<rparr>)))"

text \<open>The loop over the slots of a branch: references and the two masks. The first argument
  gives the reference and the mask bits of a child.\<close>

fun reveal_slots :: "('c \<Rightarrow> (reveal_ref \<times> bool \<times> bool) res) \<Rightarrow> (nat \<times> 'c option) list \<Rightarrow>
    reveal_ref option list \<times> u16 \<times> u16 \<Rightarrow> (reveal_ref option list \<times> u16 \<times> u16) res" where
  "reveal_slots info [] acc = Ok acc"
| "reveal_slots info ((i, None) # slots) acc = reveal_slots info slots acc"
| "reveal_slots info ((i, Some c) # slots) (out, tree, hash) =
     res_bind (info c) (\<lambda>(r, t, h).
       reveal_slots info slots (out[i := Some r], if t then tree OR push_bit i 1 else tree, if h then hash OR push_bit i 1 else hash))"

definition reveal_branch :: "('c \<Rightarrow> (reveal_ref \<times> bool \<times> bool) res) \<Rightarrow> nibs \<Rightarrow> 'c option list \<Rightarrow> reveal_node res" where
  "reveal_branch info path children =
     res_map (\<lambda>(out, tree, hash). RvBranch path out tree hash)
       (reveal_slots info (enumerate 0 children) (replicate 16 None, 0, 0))"

definition is_ram_inner :: "ram_node \<Rightarrow> bool" where
  "is_ram_inner nd = (case nd of REmpty \<Rightarrow> False | _ \<Rightarrow> True)"

definition ram_child_info :: "prims \<Rightarrow> ram_child \<Rightarrow> (reveal_ref \<times> bool \<times> bool) res" where
  "ram_child_info P c =
     res_map (\<lambda>(h, _). (RvHash h, (case c of
          RRam sub \<Rightarrow> (is_ram_inner sub, True)
        | RDisk ptr root \<Rightarrow> (True, True)
        | RMem bs root \<Rightarrow> (True, True)
        | RAccount path nonce balance code_hash storage \<Rightarrow> (False, False)))) (ram_child_hash P c)"

definition node_child_info :: "prims \<Rightarrow> node \<Rightarrow> (reveal_ref \<times> bool \<times> bool) res" where
  "node_child_info P c =
     res_bind (node_child_ref P REC_FUEL c) (\<lambda>r. res_map (Pair r) (node_child_masks P REC_FUEL c))"

definition emit_ram_branch :: "prims \<Rightarrow> nibs \<Rightarrow> ram_child option list \<Rightarrow> unit em" where
  "emit_ram_branch P path children = emit path (reveal_branch (ram_child_info P) path children)"

definition emit_node_branch :: "prims \<Rightarrow> nibs \<Rightarrow> node option list \<Rightarrow> unit em" where
  "emit_node_branch P path children = emit path (reveal_branch (node_child_info P) path children)"

definition emit_ext :: "nibs \<Rightarrow> nibs \<Rightarrow> reveal_ref \<Rightarrow> unit em" where
  "emit_ext path key child = emit path (Ok (RvExtension path key child))"

definition emit_leaf :: "nibs \<Rightarrow> nibs \<Rightarrow> bytes \<Rightarrow> unit em" where
  "emit_leaf path key value = emit path (Ok (RvLeaf path key value))"

section \<open>The walk through a record\<close>

fun walk_node :: "prims \<Rightarrow> flat_file \<Rightarrow> nat \<Rightarrow> node \<Rightarrow> nibs \<Rightarrow> nibs \<Rightarrow> unit em"
  and walk_node_step :: "prims \<Rightarrow> flat_file \<Rightarrow> nat \<Rightarrow> node \<Rightarrow> nibs \<Rightarrow> nibs \<Rightarrow> unit em" where
  "walk_node P f 0 nd prefix target = elift (Err NoFuel)"
| "walk_node P f (Suc fuel) nd prefix target =
     (case nd of
        Empty \<Rightarrow> eret ()
      | Leaf path value nref \<Rightarrow> emit_leaf prefix path value
      | Account path nonce balance code_hash storage storage_root nref \<Rightarrow>
          emit_leaf prefix path (account_rlp P (account_contract nonce balance storage_root code_hash))
      | Extension path child nref \<Rightarrow>
          ebind (elift (node_child_ref P REC_FUEL child)) (\<lambda>r.
          ebind (emit_ext prefix path r) (\<lambda>_.
          ebind (elift (from_idx target (length prefix))) (\<lambda>rest.
            walk_node_step P f fuel child (prefix @ path) (if starts_with rest path then target else []))))
      | Branch children nref \<Rightarrow>
          ebind (emit_node_branch P prefix children) (\<lambda>_.
            if length target \<le> length prefix then eret ()
            else (let nib = target ! length prefix in
                  ebind (elift (index children (unat nib))) (\<lambda>slot.
                    (case slot of
                       None \<Rightarrow> eret ()
                     | Some child \<Rightarrow> walk_node P f fuel child (prefix @ [nib]) target))))
      | Overflow ptr root \<Rightarrow> ebind (eread P f ptr) (\<lambda>sub. walk_node P f fuel (ds_node sub) prefix target)
      | Raw buf off len nref \<Rightarrow> ebind (elift (parse_node_lazy P buf off len)) (\<lambda>n. walk_node P f fuel n prefix target))"
| "walk_node_step P f 0 nd prefix target = elift (Err NoFuel)"
| "walk_node_step P f (Suc fuel) nd prefix target =
     (if target = [] then
        (case nd of
           Branch children nref \<Rightarrow> emit_node_branch P prefix children
         | Overflow ptr root \<Rightarrow> ebind (eread P f ptr) (\<lambda>sub. walk_node_step P f fuel (ds_node sub) prefix [])
         | Raw buf off len nref \<Rightarrow> ebind (elift (parse_node_lazy P buf off len)) (\<lambda>n. walk_node_step P f fuel n prefix [])
         | other \<Rightarrow> walk_node P f fuel other prefix [])
      else walk_node P f fuel nd prefix target)"

declare walk_node.simps(2) [simp del] walk_node_step.simps(2) [simp del]

section \<open>The walk through the frontier\<close>

definition walk_ram_step :: "prims \<Rightarrow> ram_node \<Rightarrow> nibs \<Rightarrow> unit em" where
  "walk_ram_step P nd prefix = (case nd of RBranch children hash \<Rightarrow> emit_ram_branch P prefix children | _ \<Rightarrow> eret ())"

primrec walk_ram :: "prims \<Rightarrow> flat_file \<Rightarrow> ram_node \<Rightarrow> nibs \<Rightarrow> nibs \<Rightarrow> unit em"
  and walk_ram_child :: "prims \<Rightarrow> flat_file \<Rightarrow> ram_child \<Rightarrow> nibs \<Rightarrow> nibs \<Rightarrow> unit em" where
  "walk_ram P f REmpty = (\<lambda>prefix target. if prefix = [] then emit [] (Ok RvEmptyRoot) else eret ())"
| "walk_ram P f (RExtension path child hash) = (\<lambda>prefix target.
     ebind (elift (hash_ram P child)) (\<lambda>(h, _).
     ebind (emit_ext prefix path (RvHash h)) (\<lambda>_.
     ebind (elift (from_idx target (length prefix))) (\<lambda>rest.
       if starts_with rest path then walk_ram P f child (prefix @ path) target
       else walk_ram_step P child (prefix @ path)))))"
| "walk_ram P f (RBranch children hash) = (\<lambda>prefix target.
     ebind (emit_ram_branch P prefix children) (\<lambda>_.
       if length target \<le> length prefix then eret ()
       else (let nib = target ! length prefix in
             ebind (elift (index (map (map_option (walk_ram_child P f)) children) (unat nib))) (\<lambda>slot.
               (case slot of
                  None \<Rightarrow> eret ()
                | Some walk \<Rightarrow> walk (prefix @ [nib]) target)))))"
| "walk_ram_child P f (RRam sub) = walk_ram P f sub"
| "walk_ram_child P f (RDisk ptr root) = (\<lambda>prefix target.
     ebind (eread P f ptr) (\<lambda>sub. walk_node P f REC_FUEL (ds_node sub) prefix target))"
| "walk_ram_child P f (RMem bs root) = (\<lambda>prefix target.
     ebind (elift (parse_payload_lazy P bs)) (\<lambda>sub. walk_node P f REC_FUEL (ds_node sub) prefix target))"
| "walk_ram_child P f (RAccount path nonce balance code_hash storage) = (\<lambda>prefix target.
     ebind (elift (hash_ram P storage)) (\<lambda>(h, _).
       emit_leaf prefix path (account_rlp P (account_contract nonce (bal_of balance) h code_hash))))"

section \<open>Paths of accounts and slots\<close>

definition emitter_new :: emitter where
  "emitter_new = \<lparr>em_memo = None, em_out = [], em_seen = {}\<rparr>"

primrec walk_keys :: "(nibs \<Rightarrow> unit em) \<Rightarrow> bytes list \<Rightarrow> unit em" where
  "walk_keys walk [] = eret ()"
| "walk_keys walk (k # ks) = ebind (walk (key_nibbles k)) (\<lambda>_. walk_keys walk ks)"

definition reveal_account_paths :: "prims \<Rightarrow> flat_file \<Rightarrow> ram_node \<Rightarrow> bytes list \<Rightarrow> reveal_node list res" where
  "reveal_account_paths P f upper keys =
     (case walk_keys (walk_ram P f upper []) keys emitter_new of
        (Err x, e) \<Rightarrow> Err x
      | (Ok _, e) \<Rightarrow> Ok (em_out e))"

definition reveal_storage_paths :: "prims \<Rightarrow> flat_file \<Rightarrow> ram_node \<Rightarrow> bytes \<Rightarrow> bytes list \<Rightarrow> reveal_node list option res" where
  "reveal_storage_paths P f upper account slots =
     res_bind (with_account_storage P f upper (key_nibbles account) 0) (\<lambda>storage.
       (case storage of
          None \<Rightarrow> Ok None
        | Some sr \<Rightarrow>
            (case walk_keys (case sr of
                SrNode n \<Rightarrow> walk_node P f REC_FUEL n []
              | SrRam n \<Rightarrow> walk_ram P f n []) slots emitter_new of
               (Err x, e) \<Rightarrow> Err x
             | (Ok _, e) \<Rightarrow> Ok (Some (if em_out e = [] then [RvEmptyRoot] else em_out e)))))"

fun extract_exact :: "reveal_node list \<Rightarrow> nibs \<Rightarrow> bytes option" where
  "extract_exact [] target = None"
| "extract_exact (RvLeaf path rest value # ns) target =
     (if length path + length rest = length target \<and> take (length path) target = path \<and> drop (length path) target = rest
      then Some value else extract_exact ns target)"
| "extract_exact (n # ns) target = extract_exact ns target"

definition get_value_reveal :: "prims \<Rightarrow> flat_file \<Rightarrow> flat_snapshot \<Rightarrow> bytes \<Rightarrow> (bytes option \<times> reveal_node list) res" where
  "get_value_reveal P f s key =
     res_map (\<lambda>nodes. (extract_exact nodes (key_nibbles key), nodes)) (reveal_account_paths P f (sn_root s) [key])"

definition get_storage_reveal :: "prims \<Rightarrow> flat_file \<Rightarrow> flat_snapshot \<Rightarrow> bytes \<Rightarrow> bytes \<Rightarrow> (bytes option \<times> reveal_node list option) res" where
  "get_storage_reveal P f s account slot =
     res_bind (reveal_storage_paths P f (sn_root s) account [slot]) (\<lambda>out.
       (case out of
          Some nodes \<Rightarrow> Ok (extract_exact nodes (key_nibbles slot), Some nodes)
        | None \<Rightarrow> res_map (\<lambda>v. (v, None)) (snap_get_storage P f s account slot)))"

end
