(* ===== verification/RevealProofs.thy ===== *)
theory RevealProofs
  imports Reveal CursorProofs
begin

text \<open>
  A walk emits the nodes of the trie on the path of its key, each with the references
  of its children; the nodes emitted are a Merkle proof of what the trie holds.
\<close>

section \<open>Positions\<close>

primrec sub_at :: "trie \<Rightarrow> nibs \<Rightarrow> trie option" where
  "sub_at TEmpty = (\<lambda>q. if q = [] then Some TEmpty else None)"
| "sub_at (TLeaf p v) = (\<lambda>q. if q = [] then Some (TLeaf p v) else None)"
| "sub_at (TExt p u) = (\<lambda>q. if q = [] then Some (TExt p u)
     else if take (length p) q = p then sub_at u (drop (length p) q) else None)"
| "sub_at (TBranch ts) = (\<lambda>q. case q of [] \<Rightarrow> Some (TBranch ts)
     | x # q' \<Rightarrow> (if unat x < length ts
                  then case map (map_option sub_at) ts ! unat x of None \<Rightarrow> None | Some g \<Rightarrow> g q' else None))"
| "sub_at (TAcct p n b c s) = (\<lambda>q. if q = [] then Some (TAcct p n b c s) else None)"

lemma sub_at_Nil [simp]: "sub_at t [] = Some t"
  by (cases t) auto

lemma sub_at_Cons [simp]: "sub_at (TBranch ts) (x # q) =
    (if unat x < length ts then case ts ! unat x of None \<Rightarrow> None | Some u \<Rightarrow> sub_at u q else None)"
  by (auto split: option.splits)

declare sub_at.simps(4) [simp del]

lemma take_le: "take (length p) q = p \<Longrightarrow> length p \<le> length q"
  by (metis length_take min.cobounded1)

lemma sub_at_trans: "sub_at T q = Some t \<Longrightarrow> sub_at t q' = Some u \<Longrightarrow> sub_at T (q @ q') = Some u"
proof (induction T arbitrary: q)
  case (TBranch ts)
  show ?case
  proof (cases q)
    case Nil
    then show ?thesis using TBranch.prems by simp
  next
    case (Cons x r)
    then obtain v where v: "unat x < length ts" "ts ! unat x = Some v" "sub_at v r = Some t"
      using TBranch.prems(1) by (auto split: if_splits option.splits)
    then have "Some v \<in> set ts" by (metis nth_mem)
    then show ?thesis using TBranch.IH [of "Some v" v] v TBranch.prems(2) Cons by simp
  qed
qed (auto split: if_splits intro: take_le)

lemma sub_at_look: "sub_at T q = Some t \<Longrightarrow> tlook T (q @ k) = tlook t k"
proof (induction T arbitrary: q)
  case (TBranch ts)
  show ?case
  proof (cases q)
    case Nil
    then show ?thesis using TBranch.prems by simp
  next
    case (Cons x r)
    then obtain v where v: "unat x < length ts" "ts ! unat x = Some v" "sub_at v r = Some t"
      using TBranch.prems(1) by (auto split: if_splits option.splits)
    then have "Some v \<in> set ts" by (metis nth_mem)
    then show ?thesis using TBranch.IH [of "Some v" v] v Cons by simp
  qed
qed (auto split: if_splits)

lemma sub_at_ext: "sub_at T q = Some (TExt p u) \<Longrightarrow> p \<noteq> [] \<Longrightarrow> sub_at T (q @ p) = Some u"
  by (rule sub_at_trans) auto

lemma sub_at_branch: "sub_at T q = Some (TBranch ts) \<Longrightarrow> unat x < length ts \<Longrightarrow> ts ! unat x = Some u \<Longrightarrow> sub_at T (q @ [x]) = Some u"
  by (rule sub_at_trans) auto

text \<open>The positions of the nodes on a path; below an extension that leaves the path, its branch.\<close>

primrec steps :: "trie \<Rightarrow> nibs \<Rightarrow> nibs \<Rightarrow> nibs set" where
  "steps TEmpty = (\<lambda>q k. {})"
| "steps (TLeaf p v) = (\<lambda>q k. {q})"
| "steps (TExt p u) = (\<lambda>q k. insert q (if take (length p) k = p then steps u (q @ p) (drop (length p) k) else {q @ p}))"
| "steps (TBranch ts) = (\<lambda>q k. insert q (case k of [] \<Rightarrow> {}
     | x # k' \<Rightarrow> (if unat x < length ts
                  then case map (map_option steps) ts ! unat x of None \<Rightarrow> {} | Some g \<Rightarrow> g (q @ [x]) k' else {})))"
| "steps (TAcct p n b c s) = (\<lambda>q k. {q})"

lemma steps_Cons [simp]: "steps (TBranch ts) q (x # k) =
    insert q (if unat x < length ts then case ts ! unat x of None \<Rightarrow> {} | Some u \<Rightarrow> steps u (q @ [x]) k else {})"
  by (auto split: option.splits)

declare steps.simps(4) [simp del]

text \<open>A node with something below it: a branch, or an extension over one.\<close>

primrec inner :: "trie \<Rightarrow> bool" where
  "inner TEmpty = False" | "inner (TLeaf p v) = False" | "inner (TAcct p n b c s) = False"
| "inner (TExt p u) = True" | "inner (TBranch ts) = True"

definition masks :: "prims \<Rightarrow> trie option list \<Rightarrow> u16 \<Rightarrow> u16 \<Rightarrow> bool" where
  "masks P ts tree hash = (\<forall>i < 16. (bit tree i \<longrightarrow> ts ! i \<noteq> None) \<and> (\<forall>u. ts ! i = Some u \<and> inner u \<longrightarrow> bit tree i) \<and>
     (bit hash i \<longrightarrow> (\<exists>u. ts ! i = Some u \<and> is_hash (tref P u))))"

definition rv_path :: "reveal_node \<Rightarrow> nibs" where
  "rv_path n = (case n of RvBranch q cs t h \<Rightarrow> q | RvExtension q k r \<Rightarrow> q | RvLeaf q k v \<Rightarrow> q | RvEmptyRoot \<Rightarrow> [])"

lemma rv_path_simps [simp]: "rv_path (RvBranch q cs t h) = q" "rv_path (RvExtension q k r) = q" "rv_path (RvLeaf q k v) = q"
  "rv_path RvEmptyRoot = []"
  by (simp_all add: rv_path_def)

primrec shows_node :: "prims \<Rightarrow> trie \<Rightarrow> reveal_node \<Rightarrow> bool" where
  "shows_node P TEmpty = (\<lambda>n. n = RvEmptyRoot)"
| "shows_node P (TLeaf p v) = (\<lambda>n. n = RvLeaf (rv_path n) p v)"
| "shows_node P (TExt p u) = (\<lambda>n. n = RvExtension (rv_path n) p (copy_ref (tref P u)))"
| "shows_node P (TBranch ts) = (\<lambda>n. \<exists>tree hash. n = RvBranch (rv_path n) (map (map_option (\<lambda>u. copy_ref (tref P u))) ts) tree hash \<and> masks P ts tree hash)"
| "shows_node P (TAcct p n b c s) = (\<lambda>nd. nd = RvLeaf (rv_path nd) p (acct_value P n b c (troot P s)))"

section \<open>Emitters\<close>

text \<open>Emitted nodes are nodes of the trie, one per position.\<close>

definition em_ok :: "prims \<Rightarrow> (disk_ptr \<rightharpoonup> bytes) \<Rightarrow> trie \<Rightarrow> emitter \<Rightarrow> bool" where
  "em_ok P M T e = (memo_ok P M (em_memo e) \<and> em_seen e = rv_path ` set (em_out e) \<and> distinct (map rv_path (em_out e)) \<and>
     (\<forall>n \<in> set (em_out e). \<exists>u. sub_at T (rv_path n) = Some u \<and> shows_node P u n))"

definition emits :: "prims \<Rightarrow> (disk_ptr \<rightharpoonup> bytes) \<Rightarrow> trie \<Rightarrow> unit em \<Rightarrow> nibs set \<Rightarrow> bool" where
  "emits P M T c S = (\<forall>e. em_ok P M T e \<longrightarrow> (\<exists>e'. c e = (Ok (), e') \<and> em_ok P M T e' \<and> em_seen e' = em_seen e \<union> S))"

lemma emits_ret [simp]: "emits P M T (eret ()) {}"
  by (simp add: emits_def eret_def)

lemma elift_bind [simp]: "ebind (elift (Ok x)) g = g x"
  by (simp add: ebind_def elift_def)

lemma emits_bind: "emits P M T c S \<Longrightarrow> emits P M T g S' \<Longrightarrow> emits P M T (ebind c (\<lambda>_. g)) (S \<union> S')"
  unfolding emits_def ebind_def by (fastforce simp: Un_assoc)

lemma emits_insert: "emits P M T c {q} \<Longrightarrow> emits P M T g S \<Longrightarrow> emits P M T (ebind c (\<lambda>_. g)) (insert q S)"
  using emits_bind [of P M T c "{q}" g S] by simp

lemma emits_read:
  assumes "readable f M" and "one_record M" and "M ptr = Some p" and "deserialize_subtree_lazy P p = Ok sub" and "emits P M T (g sub) S"
  shows "emits P M T (ebind (eread P f ptr) g) S"
  unfolding emits_def
proof (intro allI impI)
  fix e
  assume e: "em_ok P M T e"
  then obtain m' where m: "memo_read P f ptr (em_memo e) = (Ok sub, m')" "memo_ok P M m'"
    using memo_read_walks [OF assms(1-4)] unfolding walks_def em_ok_def by blast
  then have "em_ok P M T (e\<lparr>em_memo := m'\<rparr>)" using e by (simp add: em_ok_def)
  then obtain e' where "g sub (e\<lparr>em_memo := m'\<rparr>) = (Ok (), e')" "em_ok P M T e'" "em_seen e' = em_seen e \<union> S"
    using assms(5) unfolding emits_def by fastforce
  then show "\<exists>e'. ebind (eread P f ptr) g e = (Ok (), e') \<and> em_ok P M T e' \<and> em_seen e' = em_seen e \<union> S"
    using m(1) by (simp add: ebind_def eread_def)
qed

lemma emit_emits:
  assumes "sub_at T q = Some u" and "shows_node P u n" and "rv_path n = q"
  shows "emits P M T (emit q (Ok n)) {q}"
  unfolding emits_def
proof (intro allI impI)
  fix e
  assume "em_ok P M T e"
  then show "\<exists>e'. emit q (Ok n) e = (Ok (), e') \<and> em_ok P M T e' \<and> em_seen e' = em_seen e \<union> {q}"
    using assms by (cases "q \<in> em_seen e") (auto simp: emit_def em_ok_def Let_def)
qed

section \<open>Branches\<close>

text \<open>The accumulators of the loop after the first \<open>k\<close> slots.\<close>

definition slots_done :: "'c option list \<Rightarrow> ('c \<Rightarrow> reveal_ref) \<Rightarrow> ('c \<Rightarrow> bool) \<Rightarrow> ('c \<Rightarrow> bool) \<Rightarrow> nat \<Rightarrow>
    reveal_ref option list \<times> u16 \<times> u16 \<Rightarrow> bool" where
  "slots_done cs rf tr ha k = (\<lambda>(out, tree, hash). length out = 16 \<and> (\<forall>i < 16.
     out ! i = (if i < k then map_option rf (cs ! i) else None) \<and>
     bit tree i = (i < k \<and> pred_option tr (cs ! i) \<and> cs ! i \<noteq> None) \<and> bit hash i = (i < k \<and> pred_option ha (cs ! i) \<and> cs ! i \<noteq> None)))"

lemma slots_done_start: "slots_done cs rf tr ha 0 (replicate 16 None, 0, 0)"
  by (simp add: slots_done_def)

lemma set_mask: "i < 16 \<Longrightarrow> k < 16 \<Longrightarrow> bit (if b then w OR push_bit k (1 :: u16) else w) i = (bit w i \<or> b \<and> i = k)"
  by (auto simp: bit_simps)

lemma slots_done_next:
  assumes "slots_done cs rf tr ha k (out, tree, hash)" and "k < 16"
  shows "cs ! k = None \<Longrightarrow> slots_done cs rf tr ha (Suc k) (out, tree, hash)"
    and "cs ! k = Some c \<Longrightarrow> slots_done cs rf tr ha (Suc k)
      (out[k := Some (rf c)], if tr c then tree OR push_bit k 1 else tree, if ha c then hash OR push_bit k 1 else hash)"
proof -
  show "slots_done cs rf tr ha (Suc k) (out, tree, hash)" if "cs ! k = None"
    using assms that by (auto simp: slots_done_def less_Suc_eq)
  show "slots_done cs rf tr ha (Suc k) (out[k := Some (rf c)], if tr c then tree OR push_bit k 1 else tree, if ha c then hash OR push_bit k 1 else hash)"
    if "cs ! k = Some c"
    unfolding slots_done_def prod.case
  proof (intro conjI allI impI)
    fix i :: nat
    assume i: "i < 16"
    note A = assms(1) [unfolded slots_done_def prod.case, THEN conjunct2, rule_format, OF i]
    show "out[k := Some (rf c)] ! i = (if i < Suc k then map_option rf (cs ! i) else None)"
      using A assms i that by (cases "i = k") (auto simp: slots_done_def nth_list_update)
    show "bit (if tr c then tree OR push_bit k 1 else tree) i = (i < Suc k \<and> pred_option tr (cs ! i) \<and> cs ! i \<noteq> None)"
      "bit (if ha c then hash OR push_bit k 1 else hash) i = (i < Suc k \<and> pred_option ha (cs ! i) \<and> cs ! i \<noteq> None)"
      unfolding set_mask [OF i assms(2)] using A that by (cases "i = k"; auto)+
  qed (use assms in \<open>simp add: slots_done_def\<close>)
qed

lemma reveal_slots_ok:
  assumes "length cs = 16" and "\<And>c. Some c \<in> set cs \<Longrightarrow> info c = Ok (rf c, tr c, ha c)"
  shows "slots_done cs rf tr ha k acc \<Longrightarrow> k \<le> 16 \<Longrightarrow>
    \<exists>acc'. reveal_slots info (enumerate k (drop k cs)) acc = Ok acc' \<and> slots_done cs rf tr ha 16 acc'"
proof (induction "16 - k" arbitrary: k acc)
  case 0
  then show ?case using assms(1) by simp
next
  case (Suc d)
  then have k: "k < 16" by simp
  then have e: "enumerate k (drop k cs) = (k, cs ! k) # enumerate (Suc k) (drop (Suc k) cs)"
    using assms(1) by (simp add: Cons_nth_drop_Suc [symmetric])
  obtain out tree hash where acc: "acc = (out, tree, hash)" by (cases acc)
  show ?case
  proof (cases "cs ! k")
    case None
    then show ?thesis using Suc.hyps(1) [OF _ slots_done_next(1) [OF Suc.prems(1) [unfolded acc] k None]] Suc.hyps(2) k e acc by simp
  next
    case (Some c)
    then have "Some c \<in> set cs" using k assms(1) by (metis nth_mem)
    then show ?thesis
      using Suc.hyps(1) [OF _ slots_done_next(2) [OF Suc.prems(1) [unfolded acc] k Some]] Suc.hyps(2) k e acc Some assms(2) by simp
  qed
qed

lemma reveal_branch_shows:
  assumes L: "length cs = 16" "length ts = 16"
    and R: "\<And>i. i < 16 \<Longrightarrow> rel_option (\<lambda>c u. info c = Ok (copy_ref (tref P u), tr c, ha c) \<and> (inner u \<longrightarrow> tr c) \<and> (ha c \<longrightarrow> is_hash (tref P u))) (cs ! i) (ts ! i)"
  shows "\<exists>n. reveal_branch info q cs = Ok n \<and> rv_path n = q \<and> shows_node P (TBranch ts) n"
proof -
  define rf where "rf = (\<lambda>c. case info c of Ok (r, x) \<Rightarrow> r | Err e \<Rightarrow> RvHash [])"
  have i: "info c = Ok (rf c, tr c, ha c)" if c: "Some c \<in> set cs" for c
  proof -
    obtain j where "j < 16" "cs ! j = Some c" using c L(1) by (auto simp: in_set_conv_nth)
    then show ?thesis using R [of j] by (auto simp: option_rel_Some1 rf_def)
  qed
  obtain out tree hash where r: "reveal_slots info (enumerate 0 cs) (replicate 16 None, 0, 0) = Ok (out, tree, hash)"
    "slots_done cs rf tr ha 16 (out, tree, hash)"
    using reveal_slots_ok [OF L(1), of info rf tr ha 0, OF i slots_done_start] by auto
  have out: "out = map (map_option (\<lambda>u. copy_ref (tref P u))) ts"
  proof (rule nth_equalityI)
    fix j
    assume "j < length out"
    then have j: "j < 16" using r(2) by (simp add: slots_done_def)
    then show "out ! j = map (map_option (\<lambda>u. copy_ref (tref P u))) ts ! j"
      using R [OF j] r(2) L(2) by (cases "cs ! j") (auto simp: slots_done_def rf_def option_rel_Some1)
  qed (use r(2) L(2) in \<open>simp add: slots_done_def\<close>)
  have "masks P ts tree hash"
    unfolding masks_def
  proof (intro allI impI)
    fix j :: nat
    assume j: "j < 16"
    show "(bit tree j \<longrightarrow> ts ! j \<noteq> None) \<and> (\<forall>u. ts ! j = Some u \<and> inner u \<longrightarrow> bit tree j) \<and> (bit hash j \<longrightarrow> (\<exists>u. ts ! j = Some u \<and> is_hash (tref P u)))"
      using R [OF j] r(2) j by (cases "cs ! j") (auto simp: slots_done_def option_rel_Some1)
  qed
  then show ?thesis using r(1) out by (auto simp: reveal_branch_def)
qed

section \<open>The walk through a record\<close>

lemma copied_ref: "repr P n u \<Longrightarrow> \<not> is_raw n \<Longrightarrow> u \<noteq> TEmpty \<Longrightarrow> node_child_ref P (Suc fu) n = Ok (copy_ref (tref P u))"
  by (cases n) (auto simp: node_child_ref.simps)

lemma child_ref:
  assumes "keccak_len P" and "repr P n u" and "wf u r" and "r \<le> 64" and "2 \<le> fuel"
  shows "node_child_ref P fuel n = Ok (copy_ref (tref P u))"
proof -
  obtain fu where fu: "fuel = Suc (Suc fu)" using assms(5) by (auto simp: le_iff_add eval_nat_numeral)
  have e: "u \<noteq> TEmpty" using assms(3) by auto
  show ?thesis
  proof (cases n)
    case (Raw buf off len nref)
    then obtain n' where "parse_node_lazy P buf off len = Ok n'" "repr P n' u" "\<not> is_raw n'"
      using parse_node_lazy_raw [of P buf off len nref u r] assms by auto
    then show ?thesis using Raw fu copied_ref [of P n' u fu] e by (simp add: node_child_ref.simps(2) [of _ "Suc fu"])
  qed (use copied_ref [of P n u "Suc fu"] assms(2) e fu in auto)
qed

lemma masks_branch:
  assumes "keccak_len P" and "repr P n (TBranch ts)" and "wf (TBranch ts) r" and "r \<le> 64" and "2 \<le> fuel"
  shows "node_child_masks P fuel n = Ok (True, is_hash (tref P (TBranch ts)))"
proof -
  obtain fu where fu: "fuel = Suc (Suc fu)" using assms(5) by (auto simp: le_iff_add eval_nat_numeral)
  show ?thesis
  proof (cases n)
    case (Raw buf off len nref)
    then obtain n' where n': "parse_node_lazy P buf off len = Ok n'" "repr P n' (TBranch ts)" "\<not> is_raw n'"
      using parse_node_lazy_raw [of P buf off len nref "TBranch ts" r] assms by auto
    then show ?thesis using Raw fu by (cases n') (auto simp: node_child_masks.simps)
  qed (use assms(2) fu in \<open>auto simp: node_child_masks.simps\<close>)
qed

lemma masks_parsed:
  assumes "keccak_len P" and "repr P n u" and "wf u r" and "r \<le> 64" and "\<not> is_raw n"
  shows "node_child_masks P (Suc (Suc (Suc fu))) n = Ok (inner u, is_hash (tref P u))"
proof (cases n)
  case (Extension p c rf)
  then obtain v where v: "u = TExt p v" "repr P c v" using assms(2) by auto
  then obtain ts where ts: "v = TBranch ts" "wf v (r - length p)" using assms(3) by (cases v) auto
  then have "node_child_masks P (Suc (Suc fu)) c = Ok (True, is_hash (tref P v))"
    using masks_branch [of P c ts "r - length p" "Suc (Suc fu)"] v assms(1,4) by simp
  then show ?thesis using Extension v assms(2) by (auto simp: node_child_masks.simps(2) [of _ "Suc (Suc fu)"])
qed (use assms in \<open>auto simp: node_child_masks.simps\<close>)

lemma child_masks:
  assumes "keccak_len P" and "repr P n u" and "wf u r" and "r \<le> 64" and "4 \<le> fuel"
  shows "node_child_masks P fuel n = Ok (inner u, is_hash (tref P u))"
proof -
  obtain fu where fu: "fuel = Suc (Suc (Suc (Suc fu)))" using assms(5) by (auto simp: le_iff_add eval_nat_numeral)
  show ?thesis
  proof (cases n)
    case (Raw buf off len nref)
    then obtain n' where "parse_node_lazy P buf off len = Ok n'" "repr P n' u" "\<not> is_raw n'"
      using parse_node_lazy_raw [of P buf off len nref u r] assms by auto
    then show ?thesis using Raw fu masks_parsed [of P n' u r fu] assms by (simp add: node_child_masks.simps(2) [of _ "Suc (Suc (Suc fu))"])
  qed (use masks_parsed [of P n u r "Suc fu"] assms fu in auto)
qed

lemma node_branch_emits:
  assumes K: "keccak_len P" and B: "list_all2 (rel_option (repr P)) cs ts" "wf (TBranch ts) r" "r \<le> 64" and S: "sub_at T q = Some (TBranch ts)"
  shows "emits P M T (emit_node_branch P q cs) {q}"
proof -
  have L: "length ts = 16" "length cs = 16" using B by (auto simp: list_all2_lengthD)
  define ms where "ms = (\<lambda>c. case node_child_masks P REC_FUEL c of Ok m \<Rightarrow> m | Err e \<Rightarrow> (False, False))"
  have "\<exists>n. reveal_branch (node_child_info P) q cs = Ok n \<and> rv_path n = q \<and> shows_node P (TBranch ts) n"
  proof (rule reveal_branch_shows [OF L(2,1), where tr = "\<lambda>c. fst (ms c)" and ha = "\<lambda>c. snd (ms c)"])
    fix i :: nat
    assume i: "i < 16"
    show "rel_option (\<lambda>c u. node_child_info P c = Ok (copy_ref (tref P u), fst (ms c), snd (ms c)) \<and> (inner u \<longrightarrow> fst (ms c)) \<and>
        (snd (ms c) \<longrightarrow> is_hash (tref P u))) (cs ! i) (ts ! i)"
    proof (cases "ts ! i")
      case None
      then show ?thesis using repr_branch_child [OF B(1), of i] i L by simp
    next
      case (Some u)
      then obtain c where c: "cs ! i = Some c" "repr P c u" using repr_branch_child [OF B(1), of i] i L by (auto simp: option_rel_Some2)
      have "Some u \<in> set ts" using i L Some by (metis nth_mem)
      then have u: "wf u (r - 1)" "r - 1 \<le> 64" using B by auto
      have m: "node_child_masks P REC_FUEL c = Ok (inner u, is_hash (tref P u))" "node_child_ref P REC_FUEL c = Ok (copy_ref (tref P u))"
        using child_masks [OF K c(2) u] child_ref [OF K c(2) u] by (simp_all add: REC_FUEL_def)
      then have "ms c = (inner u, is_hash (tref P u))" by (simp add: ms_def)
      then show ?thesis using c(1) Some m by (simp add: node_child_info_def)
    qed
  qed
  then obtain n where n: "reveal_branch (node_child_info P) q cs = Ok n" "shows_node P (TBranch ts) n" "rv_path n = q" by blast
  show ?thesis unfolding emit_node_branch_def n(1) by (rule emit_emits [OF S n(2,3)])
qed

lemma step_branch_emits:
  assumes K: "keccak_len P" and B: "repr P n (TBranch ts)" "wf (TBranch ts) r" "r \<le> 64" and S: "sub_at T q = Some (TBranch ts)" and fu: "2 \<le> fuel"
  shows "emits P M T (walk_node_step P f fuel n q []) {q}"
proof -
  obtain fu where fu: "fuel = Suc (Suc fu)" using assms(6) by (auto simp: le_iff_add eval_nat_numeral)
  have parsed: "emits P M T (walk_node_step P f (Suc fu') n' q []) {q}" if n': "repr P n' (TBranch ts)" "\<not> is_raw n'" for n' fu'
  proof -
    obtain cs nref where "n' = Branch cs nref" "list_all2 (rel_option (repr P)) cs ts" using n' by (cases n') auto
    then show ?thesis using node_branch_emits [OF K _ B(2,3) S] by (simp add: walk_node_step.simps)
  qed
  show ?thesis
  proof (cases n)
    case (Raw buf off len nref)
    then obtain n' where "parse_node_lazy P buf off len = Ok n'" "repr P n' (TBranch ts)" "\<not> is_raw n'"
      using parse_node_lazy_raw [of P buf off len nref "TBranch ts" r] K B by auto
    then show ?thesis using Raw fu parsed [of n' fu] by (simp add: walk_node_step.simps(2) [of _ _ "Suc fu"])
  qed (use parsed [of n "Suc fu"] B fu in auto)
qed

lemma walk_node_emits:
  assumes K: "keccak_len P" and N: "length target = 64" "nibs_ok target"
  shows "wf0 t r \<Longrightarrow> length q + r = 64 \<Longrightarrow> take (length q) target = q \<Longrightarrow> repr P n t \<Longrightarrow> sub_at T q = Some t \<Longrightarrow>
    (if is_raw n then 3 * r + 2 else 3 * r + 1) \<le> fuel \<Longrightarrow>
    emits P M T (walk_node P f fuel n q target) (steps t q (drop (length q) target))"
proof (induction r arbitrary: t q n fuel rule: less_induct)
  case (less r)
  have parsed: "emits P M T (walk_node P f fuel' n' q target) (steps t q (drop (length q) target))"
    if n': "repr P n' t" "\<not> is_raw n'" "3 * r + 1 \<le> fuel'" for n' fuel'
  proof -
    obtain fu where fu: "fuel' = Suc fu" "3 * r \<le> fu" using n'(3) by (cases fuel') auto
    show ?thesis
    proof (cases n')
      case (Leaf p v nref)
      then show ?thesis using n' fu emit_emits [OF less.prems(5), of P "RvLeaf q p v"] by (auto simp: walk_node.simps emit_leaf_def)
    next
      case (Account p no b c s sr nref)
      then obtain ts where "t = TAcct p no b c ts" "sr = troot P ts" using n'(1) by auto
      then show ?thesis using Account fu emit_emits [OF less.prems(5), of P "RvLeaf q p (acct_value P no b c sr)"]
        by (auto simp: walk_node.simps emit_leaf_def acct_value_def)
    next
      case (Extension p c nref)
      then obtain u where u: "t = TExt p u" "repr P c u" using n'(1) by auto
      then have w: "p \<noteq> []" "length p < r" "wf u (r - length p)" using less.prems(1) by (auto simp: wf0_def)
      then obtain ts where ts: "u = TBranch ts" using less.prems(1) u(1) by (cases u) (auto simp: wf0_def)
      have S: "sub_at T (q @ p) = Some u" using sub_at_ext [OF less.prems(5) [unfolded u(1)] w(1)] .
      have r: "r \<le> 64" "r - length p \<le> 64" using less.prems(2) by auto
      have cr: "node_child_ref P REC_FUEL c = Ok (copy_ref (tref P u))" by (rule child_ref [OF K u(2) w(3) r(2)]) (simp add: REC_FUEL_def)
      have idx: "from_idx target (length q) = Ok (drop (length q) target)" using less.prems(2) N by (simp add: from_idx_def)
      have fu2: "3 * (r - length p) + 3 \<le> fu" using fu(2) w(1,2) by (cases p) auto
      then obtain fv where fv: "fu = Suc fv" "3 * (r - length p) + 2 \<le> fv" by (cases fu) auto
      have e: "emits P M T (emit_ext q p (copy_ref (tref P u))) {q}"
        unfolding emit_ext_def by (rule emit_emits [OF less.prems(5)]) (simp_all add: u(1))
      have tl: "target \<noteq> []" using N by auto
      have "emits P M T (walk_node_step P f fu c (q @ p) (if starts_with (drop (length q) target) p then target else []))
          (if take (length p) (drop (length q) target) = p then steps u (q @ p) (drop (length (q @ p)) target) else {q @ p})"
      proof (cases "take (length p) (drop (length q) target) = p")
        case True
        have "take (length (q @ p)) target = q @ p" using True less.prems(3) by (simp add: take_add)
        then have "emits P M T (walk_node P f fv c (q @ p) target) (steps u (q @ p) (drop (length (q @ p)) target))"
          using w less.prems(2) fv(2) by (intro less.IH [of "r - length p", OF _ _ _ _ u(2) S]) (auto simp: wf0_def)
        then show ?thesis using True tl fv(1) by (simp add: starts_with_def walk_node_step.simps)
      next
        case False
        then show ?thesis using step_branch_emits [OF K u(2) [unfolded ts] w(3) [unfolded ts] r(2) S [unfolded ts]] fu2
          by (simp add: starts_with_def)
      qed
      from emits_insert [OF e this] show ?thesis
        using Extension fu(1) cr idx u(1)
        by (cases "take (length p) (drop (length q) target) = p") (simp_all add: walk_node.simps starts_with_def add.commute)
    next
      case (Branch cs nref)
      then obtain ts where ts: "t = TBranch ts" "list_all2 (rel_option (repr P)) cs ts" using n'(1) by auto
      then have w: "wf (TBranch ts) r" "length ts = 16" "length cs = 16" "0 < r"
        using less.prems(1) by (auto simp: wf0_def list_all2_lengthD)
      have r: "r \<le> 64" using less.prems(2) by simp
      note e = node_branch_emits [OF K ts(2) w(1) r less.prems(5) [unfolded ts(1)], of M]
      have lq: "length q < length target" using w(4) less.prems(2) N by simp
      define x where "x = target ! length q"
      have x: "drop (length q) target = x # drop (Suc (length q)) target" "unat x < 16"
        using lq nibs_ok_nth [OF N(2) lq] by (simp_all add: x_def Cons_nth_drop_Suc nibble_unat)
      have "emits P M T (case cs ! unat x of None \<Rightarrow> eret () | Some child \<Rightarrow> walk_node P f fu child (q @ [x]) target)
          (case ts ! unat x of None \<Rightarrow> {} | Some u \<Rightarrow> steps u (q @ [x]) (drop (Suc (length q)) target))"
      proof (cases "ts ! unat x")
        case None
        then show ?thesis using repr_branch_child [OF ts(2), of "unat x"] x w by simp
      next
        case (Some u)
        then obtain c where c: "cs ! unat x = Some c" "repr P c u"
          using repr_branch_child [OF ts(2), of "unat x"] x w by (auto simp: option_rel_Some2)
        have "Some u \<in> set ts" using x(2) w Some by (metis nth_mem)
        then have u: "wf0 u (r - 1)" using w by (auto simp: wf0_def)
        have S: "sub_at T (q @ [x]) = Some u" using sub_at_branch [OF less.prems(5) [unfolded ts(1)]] x(2) w(2) Some by simp
        have "take (length (q @ [x])) target = q @ [x]" using less.prems(3) lq by (simp add: take_Suc_conv_app_nth x_def)
        then have "emits P M T (walk_node P f fu c (q @ [x]) target) (steps u (q @ [x]) (drop (length (q @ [x])) target))"
          by (intro less.IH [of "r - 1", OF _ u _ _ c(2) S]) (use w(4) less.prems(2) fu(2) in auto)
        then show ?thesis using Some c(1) by simp
      qed
      from emits_insert [OF e this] show ?thesis
        using Branch fu(1) ts(1) x w lq by (simp add: walk_node.simps index_def Let_def x_def [symmetric])
    qed (use n' fu in \<open>auto simp: walk_node.simps\<close>)
  qed
  show ?case
  proof (cases n)
    case (Raw buf off len nref)
    then have w: "wf t r" using less.prems by (cases t) (auto simp: wf0_def)
    obtain fu where fu: "fuel = Suc fu" "3 * r + 1 \<le> fu" using less.prems(6) Raw by (cases fuel) auto
    have "r \<le> 64" using less.prems(2) by simp
    then obtain n' where "parse_node_lazy P buf off len = Ok n'" "repr P n' t" "\<not> is_raw n'"
      using parse_node_lazy_raw [of P buf off len nref t r] K w less.prems(4) Raw by auto
    then show ?thesis using Raw fu parsed [of n' fu] by (simp add: walk_node.simps(2))
  qed (use parsed [of n fuel] less.prems in auto)
qed

section \<open>The walk through the frontier\<close>

lemma ram_branch_emits:
  assumes F: "frep P M (RBranch cs h) pre (TBranch ts)" and H: "hashed P (TBranch ts)" and W: "wfb (TBranch ts) r"
    and S: "sub_at T q = Some (TBranch ts)"
  shows "emits P M' T (emit_ram_branch P q cs) {q}"
proof -
  have ts: "length cs = 16" "length ts = 16" "\<And>i. i < 16 \<Longrightarrow> rel_option (\<lambda>c u. crep P M c (pre @ [word_of_nat i]) u) (cs ! i) (ts ! i)"
    using F unfolding frep_RBranch by auto
  define tr where "tr = (\<lambda>c. case c of RRam sub \<Rightarrow> is_ram_inner sub | RAccount p n b c s \<Rightarrow> False | _ \<Rightarrow> True)"
  define ha where "ha = (\<lambda>c. case c of RAccount p n b c s \<Rightarrow> False | _ \<Rightarrow> True)"
  have "\<exists>n. reveal_branch (ram_child_info P) q cs = Ok n \<and> rv_path n = q \<and> shows_node P (TBranch ts) n"
  proof (rule reveal_branch_shows [OF ts(1,2), where tr = tr and ha = ha])
    fix i :: nat
    assume i: "i < 16"
    show "rel_option (\<lambda>c u. ram_child_info P c = Ok (copy_ref (tref P u), tr c, ha c) \<and> (inner u \<longrightarrow> tr c) \<and> (ha c \<longrightarrow> is_hash (tref P u))) (cs ! i) (ts ! i)"
    proof (cases "cs ! i")
      case None
      then show ?thesis using ts(3) [OF i] by simp
    next
      case (Some c)
      from frep_slot [OF ts(3,1,2) i Some] obtain u where
        u: "ts ! i = Some u" "crep P M c (pre @ [word_of_nat i]) u" "Some u \<in> set ts" "Some c \<in> set cs" .
      have h: "tref P u = NHash (troot P u)" "hashed P u" using H u(3) by auto
      obtain c' where c': "ram_child_hash P c = Ok (troot P u, c')" using hash_ram_frep(2) [OF u(2)] fh_troot(2) [OF u(2) h(2)] by auto
      have "wf u (r - 1)" using W u(3) by simp
      then have "u \<noteq> TEmpty" by auto
      then have "inner u \<longrightarrow> tr c" using u(2) by (cases c) (auto simp: tr_def is_ram_inner_def split: ram_node.splits)
      then show ?thesis using Some u(1) c' h(1) by (cases c) (auto simp: ram_child_info_def tr_def ha_def is_hash_def)
    qed
  qed
  then obtain n where n: "reveal_branch (ram_child_info P) q cs = Ok n" "shows_node P (TBranch ts) n" "rv_path n = q" by blast
  show ?thesis unfolding emit_ram_branch_def n(1) by (rule emit_emits [OF S n(2,3)])
qed

lemma record_emits:
  assumes "keccak_len P" and "length target = 64" and "nibs_ok target" and "wf t r" and "length q + r = 64"
    and "take (length q) target = q" and "repr P n t" and "\<not> is_raw n" and "sub_at T q = Some t"
  shows "emits P M T (walk_node P f REC_FUEL n q target) (steps t q (drop (length q) target))"
proof -
  have "wf0 t r" using assms(4) by (simp add: wf0_def)
  from walk_node_emits [OF assms(1-3) this assms(5-7,9)] show ?thesis using assms(5,8) by (simp add: REC_FUEL_def)
qed

lemma walk_ram_emits:
  assumes K: "keccak_len P" and F: "readable f M" "one_record M" and N: "length target = 64" "nibs_ok target"
  shows "frep P M n pre t \<Longrightarrow> wfb t r \<Longrightarrow> t \<noteq> TEmpty \<Longrightarrow> placed pre t r \<Longrightarrow> mem_ok n \<Longrightarrow> hashed P t \<Longrightarrow> length q + r = 64 \<Longrightarrow>
      take (length q) target = q \<Longrightarrow> sub_at T q = Some t \<Longrightarrow>
      emits P M T (walk_ram P f n q target) (steps t q (drop (length q) target))"
    and "crep P M c pre t \<Longrightarrow> wf t r \<Longrightarrow> placed pre t r \<Longrightarrow> mem_ok_child c \<Longrightarrow> hashed P t \<Longrightarrow> length q + r = 64 \<Longrightarrow>
      take (length q) target = q \<Longrightarrow> sub_at T q = Some t \<Longrightarrow>
      emits P M T (walk_ram_child P f c q target) (steps t q (drop (length q) target))"
proof (induction n and c arbitrary: pre t r q and pre t r q)
  case (RExtension p n h)
  then obtain u where u: "t = TExt p u" "frep P M n (pre @ p) u" by auto
  have w: "wf t r" using RExtension.prems(2) u by simp
  then have p: "length p < r" "p \<noteq> []" using u(1) by auto
  note pl = placed_ext [OF RExtension.prems(4) [unfolded u(1)] w [unfolded u(1)]]
  have m: "mem_ok n" "hashed P u" "tref P u = NHash (troot P u)" using RExtension.prems(5,6) u(1) by auto
  obtain ts where ts: "u = TBranch ts" using w u(1) by (cases u) auto
  then obtain cs g where n: "n = RBranch cs g" using u(2) by (cases n) auto
  obtain n' where h: "hash_ram P n = Ok (troot P u, n')" using hash_ram_frep(1) [OF u(2)] fh_troot(1) [OF u(2) m(2)] by auto
  have S: "sub_at T (q @ p) = Some u" using sub_at_ext [OF RExtension.prems(9) [unfolded u(1)] p(2)] .
  have idx: "from_idx target (length q) = Ok (drop (length q) target)" using RExtension.prems(7) N by (simp add: from_idx_def)
  have e: "emits P M T (emit_ext q p (RvHash (troot P u))) {q}"
    unfolding emit_ext_def by (rule emit_emits [OF RExtension.prems(9)]) (simp_all add: u(1) m(3))
  have "emits P M T (if take (length p) (drop (length q) target) = p then walk_ram P f n (q @ p) target else walk_ram_step P n (q @ p))
      (if take (length p) (drop (length q) target) = p then steps u (q @ p) (drop (length (q @ p)) target) else {q @ p})"
  proof (cases "take (length p) (drop (length q) target) = p")
    case True
    have a: "length (q @ p) + (r - length p) = 64" "take (length (q @ p)) target = q @ p"
      using True RExtension.prems(7,8) p(1) by (simp_all add: take_add)
    have "emits P M T (walk_ram P f n (q @ p) target) (steps u (q @ p) (drop (length (q @ p)) target))"
      by (rule RExtension.IH [OF u(2) wf_wfb [OF pl(2)] _ pl(1) m(1,2) a S]) (simp add: ts)
    then show ?thesis using True by simp
  next
    case False
    have "emits P M T (walk_ram_step P n (q @ p)) {q @ p}"
      using ram_branch_emits [OF u(2) [unfolded n ts] m(2) [unfolded ts] wf_wfb [OF pl(2), unfolded ts] S [unfolded ts]]
      by (simp add: walk_ram_step_def n)
    then show ?thesis using False by simp
  qed
  from emits_insert [OF e this] show ?case using h idx u(1)
    by (cases "take (length p) (drop (length q) target) = p") (simp_all add: starts_with_def add.commute)
next
  case (RBranch cs h)
  then obtain ts where ts: "t = TBranch ts" "length cs = 16" "length ts = 16"
    "\<And>i. i < 16 \<Longrightarrow> rel_option (\<lambda>c u. crep P M c (pre @ [word_of_nat i]) u) (cs ! i) (ts ! i)"
    unfolding frep_RBranch by auto
  have r: "0 < r" using RBranch.prems(2) ts(1) by simp
  note e = ram_branch_emits [OF RBranch.prems(1,6,2,9) [unfolded ts(1)], of M]
  from branch_step [OF N RBranch.prems(7) r ts(2)] obtain x i where
    x: "index target (length q) = Ok x" "i = unat x" "i < 16" "x = word_of_nat i"
    "drop (length q) target = x # drop (length q + 1) target" "index cs (unat x) = Ok (cs ! i)" .
  have lq: "length q < length target" "target ! length q = x" using x(1) by (auto simp: index_def split: if_splits)
  have "emits P M T (case cs ! i of None \<Rightarrow> eret () | Some c \<Rightarrow> walk_ram_child P f c (q @ [x]) target)
      (case ts ! i of None \<Rightarrow> {} | Some u \<Rightarrow> steps u (q @ [x]) (drop (Suc (length q)) target))"
  proof (cases "cs ! i")
    case None
    then show ?thesis using ts(4) [OF x(3)] by simp
  next
    case (Some c)
    from frep_slot [OF ts(4,2,3) x(3) Some] obtain u where
      u: "ts ! i = Some u" "crep P M c (pre @ [word_of_nat i]) u" "Some u \<in> set ts" "Some c \<in> set cs" .
    note pl = placed_child [OF RBranch.prems(4,2) [unfolded ts(1)] x(3) u(3)]
    have m: "mem_ok_child c" "hashed P u" using RBranch.prems(5,6) u(3,4) ts(1) by auto
    have S: "sub_at T (q @ [x]) = Some u" using sub_at_branch [OF RBranch.prems(9) [unfolded ts(1)]] x(2,3) ts(3) u(1) by simp
    have a: "length (q @ [x]) + (r - 1) = 64" "take (length (q @ [x])) target = q @ [x]"
      using RBranch.prems(7,8) r lq by (simp_all add: take_Suc_conv_app_nth)
    have "emits P M T (walk_ram_child P f c (q @ [x]) target) (steps u (q @ [x]) (drop (length (q @ [x])) target))"
      using RBranch.IH [of "Some c" c, OF _ _ u(2) pl(3,1) m a S] u(4) by simp
    then show ?thesis using Some u(1) by simp
  qed
  from emits_insert [OF e this] show ?case
    using ts(1,2,3) x(2,3,5) lq by (cases "cs ! i") (simp_all add: index_def Let_def)
next
  case (RDisk ptr root)
  have m: "M ptr = Some (nib_path pre @ enc P t)" using RDisk.prems(1) by simp
  obtain n where n: "read_lazy P f ptr = Ok \<lparr>ds_prefix = pre, ds_node = n\<rparr>" "repr P n t" "\<not> is_raw n"
    using disk_read [OF K RDisk.prems(2) placed_depth(3) [OF RDisk.prems(3)] F(1) RDisk.prems(1)] by blast
  have d: "deserialize_subtree_lazy P (nib_path pre @ enc P t) = Ok \<lparr>ds_prefix = pre, ds_node = n\<rparr>"
    using n(1) read_lazy_rel [OF F(1) m] by simp
  show ?case unfolding walk_ram_child.simps
    by (rule emits_read [OF F m d]) (use record_emits [OF K N RDisk.prems(2,6,7) n(2,3) RDisk.prems(8)] in simp)
next
  case (RMem bs root)
  obtain n where n: "parse_payload_lazy P bs = Ok \<lparr>ds_prefix = pre, ds_node = n\<rparr>" "repr P n t" "\<not> is_raw n"
    using mem_read [OF K RMem.prems(2) placed_depth(3) [OF RMem.prems(3)] RMem.prems(1,4)] by blast
  then show ?case using record_emits [OF K N RMem.prems(2,6,7) n(2,3) RMem.prems(8)] by simp
next
  case (RAccount p n b c st)
  then obtain bal s where s: "t = TAcct p n bal c s" "b = bal_bytes bal" "frep P M st (pre @ p) s" by auto
  obtain st' where h: "hash_ram P st = Ok (troot P s, st')"
    using hash_ram_frep(1) [OF s(3)] fh_troot(1) [OF s(3)] RAccount.prems(5) s(1) by auto
  have "emits P M T (emit_leaf q p (acct_value P n bal c (troot P s))) {q}"
    unfolding emit_leaf_def by (rule emit_emits [OF RAccount.prems(8)]) (simp_all add: s(1))
  then show ?case using s(1,2) h by (simp add: acct_value_def)
next
  case (RRam n)
  have "t \<noteq> TEmpty" using RRam.prems(2) by auto
  then show ?case using RRam.IH [OF _ wf_wfb [OF RRam.prems(2)] _ RRam.prems(3)] RRam.prems(1,4-8) by simp
qed simp
end
