(* ===== verification/RevealSpec.thy ===== *)
theory RevealSpec
  imports RevealProofs CursorSpec
begin

text \<open>
  The revealed nodes are a Merkle proof: checked against the root alone, they prove what
  the key holds, or that it holds nothing. Reads that reveal on the way return what the
  plain reads return.
\<close>

section \<open>Checking a proof\<close>

primrec held_ref :: "reveal_ref \<Rightarrow> node_ref" where
  "held_ref (RvHash h) = NHash h"
| "held_ref (RvInline b) = NInline b"

lemma held_copy [simp]: "held_ref (copy_ref r) = r"
  by (cases r) simp_all

text \<open>The reference of a node, computed from the node alone.\<close>

definition revealed_ref :: "prims \<Rightarrow> reveal_node \<Rightarrow> node_ref" where
  "revealed_ref P n = (case n of
      RvBranch q cs tree hash \<Rightarrow> mk_ref P (rlp_list P (slot_items P (map (map_option held_ref) cs) @ [rlp_string P []]))
    | RvExtension q k r \<Rightarrow> ext_ref P k (held_ref r)
    | RvLeaf q k v \<Rightarrow> leaf_ref P k v
    | RvEmptyRoot \<Rightarrow> NHash (empty_hash P))"

text \<open>
  A checker follows a key from a reference: the node at the position must have the
  reference its parent holds. No answer means the proof is not valid.
\<close>

primrec follow :: "prims \<Rightarrow> reveal_node list \<Rightarrow> nat \<Rightarrow> node_ref \<Rightarrow> nibs \<Rightarrow> nibs \<Rightarrow> bytes option option" where
  "follow P ns 0 = (\<lambda>r q k. None)"
| "follow P ns (Suc fuel) = (\<lambda>r q k.
     (case find (\<lambda>n. rv_path n = q) ns of
        None \<Rightarrow> None
      | Some n \<Rightarrow>
          if revealed_ref P n \<noteq> r then None
          else (case n of
                  RvLeaf _ p v \<Rightarrow> Some (if p = k then Some v else None)
                | RvExtension _ p c \<Rightarrow>
                    (if take (length p) k = p then follow P ns fuel (held_ref c) (q @ p) (drop (length p) k) else Some None)
                | RvBranch _ cs tree hash \<Rightarrow>
                    (case k of
                       [] \<Rightarrow> Some None
                     | x # k' \<Rightarrow> (case cs ! unat x of None \<Rightarrow> Some None | Some c \<Rightarrow> follow P ns fuel (held_ref c) (q @ [x]) k'))
                | RvEmptyRoot \<Rightarrow> Some None)))"

declare follow.simps(2) [simp del]

definition proves :: "prims \<Rightarrow> bytes \<Rightarrow> reveal_node list \<Rightarrow> nibs \<Rightarrow> bytes option option" where
  "proves P root ns k = (case find (\<lambda>n. rv_path n = []) ns of
      None \<Rightarrow> None
    | Some n \<Rightarrow> if finalize P (revealed_ref P n) = root then follow P ns 65 (revealed_ref P n) [] k else None)"

lemma revealed_shows: "shows_node P u n \<Longrightarrow> revealed_ref P n = tref P u"
proof (cases u)
  case (TBranch ts)
  assume "shows_node P u n"
  then obtain q tree hash where n: "n = RvBranch q (map (map_option (\<lambda>u. copy_ref (tref P u))) ts) tree hash" unfolding TBranch shows_node.simps by blast
  then show ?thesis using TBranch by (simp add: revealed_ref_def comp_def option.map_comp)
qed (auto simp: revealed_ref_def acct_value_def troot_def split: reveal_node.splits)

definition shown :: "prims \<Rightarrow> trie \<Rightarrow> reveal_node list \<Rightarrow> bool" where
  "shown P T ns = (distinct (map rv_path ns) \<and> (\<forall>n \<in> set ns. \<exists>u. sub_at T (rv_path n) = Some u \<and> shows_node P u n))"

lemma shown_find:
  assumes "shown P T ns" and "q \<in> rv_path ` set ns" and "sub_at T q = Some t"
  obtains n where "find (\<lambda>n. rv_path n = q) ns = Some n" and "shows_node P t n" and "rv_path n = q" and "n \<in> set ns"
proof -
  obtain n where n: "find (\<lambda>n. rv_path n = q) ns = Some n"
    using assms(2) by (cases "find (\<lambda>n. rv_path n = q) ns") (auto simp: find_None_iff)
  then have m: "n \<in> set ns" "rv_path n = q" by (auto simp: find_Some_iff)
  then show thesis using that [OF n] assms(1,3) by (auto simp: shown_def)
qed

lemma steps_start: "t \<noteq> TEmpty \<Longrightarrow> q \<in> steps t q k"
  by (cases t; cases k) (auto simp: steps.simps)

lemma follow_complete:
  assumes T: "shown P T ns"
  shows "sub_at T q = Some t \<Longrightarrow> wfb t r \<Longrightarrow> t \<noteq> TEmpty \<Longrightarrow> steps t q k \<subseteq> rv_path ` set ns \<Longrightarrow> length k = r \<Longrightarrow> nibs_ok k \<Longrightarrow> r < fuel \<Longrightarrow>
    follow P ns fuel (tref P t) q k = Some (map_option (leaf_value P) (tlook t k))"
proof (induction fuel arbitrary: t q k r)
  case (Suc fuel)
  have "q \<in> rv_path ` set ns" using steps_start [OF Suc.prems(3)] Suc.prems(4) by blast
  from shown_find [OF T this Suc.prems(1)] obtain n where
    n: "find (\<lambda>n. rv_path n = q) ns = Some n" "shows_node P t n" "rv_path n = q" .
  note S = follow.simps(2) n(1) revealed_shows [OF n(2)]
  show ?case
  proof (cases t)
    case (TLeaf p v)
    then have "n = RvLeaf q p v" using n(2,3) by simp
    then show ?thesis using S TLeaf by auto
  next
    case (TAcct p no b c s)
    then have "n = RvLeaf q p (acct_value P no b c (troot P s))" using n(2,3) by simp
    then show ?thesis using S TAcct by auto
  next
    case (TExt p u)
    then have w: "p \<noteq> []" "length p < r" "wf u (r - length p)" using Suc.prems(2) by auto
    have nn: "n = RvExtension q p (copy_ref (tref P u))" using n(2,3) TExt by simp
    show ?thesis
    proof (cases "take (length p) k = p")
      case True
      have "u \<noteq> TEmpty" using w(3) by auto
      have less: "r - length p < fuel" using w(1,2) Suc.prems(7) by (cases p) auto
      have "follow P ns fuel (tref P u) (q @ p) (drop (length p) k) = Some (map_option (leaf_value P) (tlook u (drop (length p) k)))"
        by (rule Suc.IH [OF sub_at_ext [OF Suc.prems(1) [unfolded TExt] w(1)] wf_wfb [OF w(3)] \<open>u \<noteq> TEmpty\<close>])
          (use Suc.prems(4-6) less TExt True w in \<open>auto simp: nibs_ok_def dest: in_set_dropD\<close>)
      then show ?thesis using S TExt True nn by simp
    next
      case False
      then show ?thesis using S TExt nn by simp
    qed
  next
    case (TBranch ts)
    then have w: "length ts = 16" "0 < r" "\<And>u. Some u \<in> set ts \<Longrightarrow> wf u (r - 1)" using Suc.prems(2) by auto
    obtain x k' where k: "k = x # k'" using w(2) Suc.prems(5) by (cases k) auto
    have x: "unat x < 16" "nibs_ok k'" "length k' = r - 1" using Suc.prems(5,6) k by (auto simp: nibs_ok_def intro: nibble_unat)
    obtain tree hash where nn: "n = RvBranch q (map (map_option (\<lambda>u. copy_ref (tref P u))) ts) tree hash"
      using n(2,3) unfolding TBranch shows_node.simps by auto
    show ?thesis
    proof (cases "ts ! unat x")
      case None
      then show ?thesis using S TBranch nn k x w by simp
    next
      case (Some u)
      then have u: "wf u (r - 1)" using w x by (metis nth_mem)
      then have e: "u \<noteq> TEmpty" by auto
      have "sub_at T (q @ [x]) = Some u" using sub_at_branch [OF Suc.prems(1) [unfolded TBranch]] w x Some by simp
      then have "follow P ns fuel (tref P u) (q @ [x]) k' = Some (map_option (leaf_value P) (tlook u k'))"
        by (rule Suc.IH [OF _ wf_wfb [OF u] e]) (use Suc.prems(4,7) TBranch k x w Some in auto)
      then show ?thesis using S TBranch nn k x w Some by simp
    qed
  qed (use Suc.prems(3) in simp)
qed simp

lemma proves_complete:
  assumes "shown P T ns" and "wfb T 64" and "steps T [] k \<subseteq> rv_path ` set ns" and "T = TEmpty \<longrightarrow> ns = [RvEmptyRoot]" and "length k = 64" and "nibs_ok k"
  shows "proves P (troot P T) ns k = Some (map_option (leaf_value P) (tlook T k))"
proof (cases "T = TEmpty")
  case True
  have "follow P [RvEmptyRoot] (Suc 64) (NHash (empty_hash P)) [] k = Some None" unfolding follow.simps(2) by (simp add: revealed_ref_def)
  then show ?thesis using True assms(4) by (simp add: proves_def revealed_ref_def troot_def)
next
  case False
  have "[] \<in> rv_path ` set ns" using steps_start [OF False] assms(3) by blast
  from shown_find [OF assms(1) this sub_at_Nil] obtain n where n: "find (\<lambda>n. rv_path n = []) ns = Some n" "shows_node P T n" .
  have "follow P ns 65 (tref P T) [] k = Some (map_option (leaf_value P) (tlook T k))"
    by (rule follow_complete [OF assms(1) sub_at_Nil assms(2) False assms(3,5,6)]) simp
  then show ?thesis using n revealed_shows [OF n(2)] by (simp add: proves_def troot_def)
qed

section \<open>The leaf of the key\<close>

lemma extract_sound: "extract_exact ns k = Some v \<Longrightarrow> \<exists>q p. RvLeaf q p v \<in> set ns \<and> k = q @ p"
proof (induction ns k rule: extract_exact.induct)
  case (2 path tail v' ns target)
  then show ?case by (auto split: if_splits) (metis append_take_drop_id)
qed auto

lemma extract_complete: "RvLeaf q p v \<in> set ns \<Longrightarrow> extract_exact ns (q @ p) \<noteq> None"
proof (induction ns)
  case (Cons n ns)
  then show ?case by (cases n) auto
qed simp

lemma steps_leaf: "tlook t k = Some l \<Longrightarrow> wfb t r \<Longrightarrow> \<exists>q' p. q @ q' \<in> steps t q k \<and> k = q' @ p \<and>
    (case l of LVal v \<Rightarrow> sub_at t q' = Some (TLeaf p v) | LAcct n b c s \<Rightarrow> sub_at t q' = Some (TAcct p n b c s))"
proof (induction t arbitrary: q k r)
  case (TExt p u)
  then have k: "take (length p) k = p" "tlook u (drop (length p) k) = Some l" by (auto split: if_splits)
  have w: "p \<noteq> []" "wf u (r - length p)" using TExt.prems(2) by auto
  obtain q' p' where q': "(q @ p) @ q' \<in> steps u (q @ p) (drop (length p) k)" "drop (length p) k = q' @ p'"
    "case l of LVal v \<Rightarrow> sub_at u q' = Some (TLeaf p' v) | LAcct n b c s \<Rightarrow> sub_at u q' = Some (TAcct p' n b c s)"
    using TExt.IH [OF k(2) wf_wfb [OF w(2)], of "q @ p"] by blast
  have "k = (p @ q') @ p'" using k(1) q'(2) by (metis append.assoc append_take_drop_id)
  then show ?case using q' k w by (intro exI [of _ "p @ q'"] exI [of _ p']) (auto split: leaf.splits)
next
  case (TBranch ts)
  then obtain x k' where k: "k = x # k'" by (cases k) auto
  then obtain u where u: "unat x < length ts" "ts ! unat x = Some u" "tlook u k' = Some l"
    using TBranch.prems(1) by (auto split: if_splits option.splits)
  then have m: "Some u \<in> set ts" by (metis nth_mem)
  then have "wfb u (r - 1)" using TBranch.prems(2) wf_wfb by auto
  then obtain q' p' where q': "(q @ [x]) @ q' \<in> steps u (q @ [x]) k'" "k' = q' @ p'"
    "case l of LVal v \<Rightarrow> sub_at u q' = Some (TLeaf p' v) | LAcct n b c s \<Rightarrow> sub_at u q' = Some (TAcct p' n b c s)"
    using TBranch.IH [of "Some u" u, OF m _ u(3), of "r - 1" "q @ [x]"] by auto
  then show ?case using u k by (intro exI [of _ "x # q'"] exI [of _ p']) (auto split: leaf.splits)
qed (auto split: if_splits)

lemma extract_look:
  assumes "shown P T ns" and "wfb T 64" and "steps T [] k \<subseteq> rv_path ` set ns"
  shows "extract_exact ns k = map_option (leaf_value P) (tlook T k)"
proof -
  have sound: "map_option (leaf_value P) (tlook T k) = Some v" if e: "extract_exact ns k = Some v" for v
  proof -
    obtain q p where q: "RvLeaf q p v \<in> set ns" "k = q @ p" using extract_sound [OF e] by blast
    then obtain u where u: "sub_at T q = Some u" "shows_node P u (RvLeaf q p v)" using assms(1) by (force simp: shown_def)
    then have "map_option (leaf_value P) (tlook u p) = Some v" by (cases u) auto
    then show ?thesis using sub_at_look [OF u(1), of p] q(2) by simp
  qed
  show ?thesis
  proof (cases "tlook T k")
    case None
    then show ?thesis using sound by (cases "extract_exact ns k") auto
  next
    case (Some l)
    from steps_leaf [OF Some assms(2), of "[]"] obtain q p where q: "q \<in> steps T [] k" "k = q @ p"
      "case l of LVal v \<Rightarrow> sub_at T q = Some (TLeaf p v) | LAcct n b c s \<Rightarrow> sub_at T q = Some (TAcct p n b c s)" by auto
    then obtain u where u: "sub_at T q = Some u" "u = (case l of LVal v \<Rightarrow> TLeaf p v | LAcct n b c s \<Rightarrow> TAcct p n b c s)" by (auto split: leaf.splits)
    have "q \<in> rv_path ` set ns" using q(1) assms(3) by blast
    from shown_find [OF assms(1) this u(1)] obtain n where n: "shows_node P u n" "rv_path n = q" "n \<in> set ns" .
    then have "RvLeaf q p (leaf_value P l) \<in> set ns" using u(2) by (cases l) auto
    then have "extract_exact ns k \<noteq> None" using extract_complete q(2) by blast
    then show ?thesis using sound by (cases "extract_exact ns k") auto
  qed
qed

section \<open>Entry points\<close>

lemma emitter_new_ok: "em_ok P M T emitter_new"
  by (simp add: em_ok_def emitter_new_def memo_ok_def)

lemma shown_out: "em_ok P M T e \<Longrightarrow> shown P T (em_out e)"
  by (simp add: em_ok_def shown_def)

lemma walk_keys_emits:
  "(\<And>k. k \<in> set ks \<Longrightarrow> emits P M T (walk (key_nibbles k)) (S k)) \<Longrightarrow> emits P M T (walk_keys walk ks) (\<Union>k \<in> set ks. S k)"
proof (induction ks)
  case (Cons k ks)
  then have "emits P M T (walk_keys walk (k # ks)) (S k \<union> (\<Union>k \<in> set ks. S k))"
    unfolding walk_keys.simps by (intro emits_bind) auto
  then show ?case by simp
qed simp

lemma walk_keys_out:
  assumes "\<And>k. k \<in> set ks \<Longrightarrow> emits P M T (walk (key_nibbles k)) (S k)"
  shows "\<exists>e. walk_keys walk ks emitter_new = (Ok (), e) \<and> shown P T (em_out e) \<and> rv_path ` set (em_out e) = (\<Union>k \<in> set ks. S k)"
proof -
  obtain e where e: "walk_keys walk ks emitter_new = (Ok (), e)" "em_ok P M T e" "em_seen e = em_seen emitter_new \<union> (\<Union>k \<in> set ks. S k)"
    using walk_keys_emits [where walk = walk and S = S, OF assms] emitter_new_ok unfolding emits_def by blast
  moreover have "em_seen emitter_new = {}" by (simp add: emitter_new_def)
  ultimately show ?thesis using shown_out by (auto simp: em_ok_def)
qed

text \<open>A walk through a frontier, empty or not.\<close>

definition walked :: "trie \<Rightarrow> bytes \<Rightarrow> nibs set" where
  "walked t key = (if t = TEmpty then {[]} else steps t [] (key_nibbles key))"

lemma walk_root_emits:
  assumes "keccak_len P" and "readable f M" and "one_record M" and "length key = 32"
    and "frep P M n pre t" and "wfb t 64" and "placed pre t 64" and "mem_ok n" and "hashed P t"
  shows "emits P M t (walk_ram P f n [] (key_nibbles key)) (walked t key)"
proof (cases "t = TEmpty")
  case True
  then have "n = REmpty" using assms(5) by (cases n) (auto simp: frep_RBranch)
  then show ?thesis using emit_emits [of t "[]" t P RvEmptyRoot M] True by (simp add: walked_def)
next
  case False
  have N: "length (key_nibbles key) = 64" "nibs_ok (key_nibbles key)" using assms(4) by auto
  show ?thesis using walk_ram_emits(1) [OF assms(1-3) N assms(5,6) False assms(7-9), of "[]"] False by (simp add: walked_def)
qed

text \<open>What the emitted nodes prove.\<close>

lemma walked_proves:
  assumes S: "shown P t ns" and W: "wfb t 64" and k: "length key = 32" and V: "walked t key \<subseteq> rv_path ` set ns"
  shows "proves P (troot P t) ns (key_nibbles key) = Some (map_option (leaf_value P) (tlook t (key_nibbles key)))"
    and "extract_exact ns (key_nibbles key) = map_option (leaf_value P) (tlook t (key_nibbles key))"
proof -
  have N: "length (key_nibbles key) = 64" "nibs_ok (key_nibbles key)" using k by auto
  have st: "steps t [] (key_nibbles key) \<subseteq> rv_path ` set ns" using V by (auto simp: walked_def split: if_splits)
  have e: "ns = [RvEmptyRoot]" if t: "t = TEmpty"
  proof -
    have all: "n = RvEmptyRoot" if "n \<in> set ns" for n using S that t by (auto simp: shown_def split: if_splits)
    have "ns \<noteq> []" using V t by (auto simp: walked_def)
    then obtain n ns' where ns: "ns = n # ns'" by (cases ns) auto
    moreover have "ns' = []" using S all ns by (cases ns') (auto simp: shown_def)
    ultimately show ?thesis using all by simp
  qed
  show "proves P (troot P t) ns (key_nibbles key) = Some (map_option (leaf_value P) (tlook t (key_nibbles key)))"
    by (rule proves_complete [OF S W st _ N]) (use e in blast)
  show "extract_exact ns (key_nibbles key) = map_option (leaf_value P) (tlook t (key_nibbles key))"
    by (rule extract_look [OF S W st])
qed

lemma account_paths:
  assumes W: "walkable P f M upper t" and K: "\<forall>k \<in> set keys. length k = 32"
  shows "\<exists>ns. reveal_account_paths P f upper keys = Ok ns \<and> shown P t ns \<and> rv_path ` set ns = (\<Union>k \<in> set keys. walked t k)"
proof -
  have "emits P M t (walk_ram P f upper [] (key_nibbles k)) (walked t k)" if "k \<in> set keys" for k
    using walk_root_emits [of P f M k upper "[]" t] W K that by (simp add: walkable_def)
  from walk_keys_out [where walk = "walk_ram P f upper []" and S = "walked t" and ks = keys, OF this] show ?thesis by (auto simp: reveal_account_paths_def)
qed

lemma storage_paths:
  assumes W: "walkable P f M upper t" and a: "length account = 32" and K: "\<forall>k \<in> set ks. length k = 32"
  shows "case tlook t (key_nibbles account) of
      Some (LAcct n b c s) \<Rightarrow> wfb s 64 \<and> (\<exists>ns. reveal_storage_paths P f upper account ks = Ok (Some ns) \<and> (ks = [] \<longrightarrow> ns = [RvEmptyRoot]) \<and>
        (ks \<noteq> [] \<longrightarrow> shown P s ns \<and> rv_path ` set ns = (\<Union>k \<in> set ks. walked s k)))
    | _ \<Rightarrow> reveal_storage_paths P f upper account ks = Ok None"
proof -
  let ?lo = "tlook t (key_nibbles account)"
  have w: "keccak_len P" "readable f M" "one_record M" using W by (auto simp: walkable_def)
  obtain out where out: "with_account_storage P f upper (key_nibbles account) 0 = Ok out" "storage_rep P M ?lo out"
    using with_storage_rep(1) [OF w(1,2), of "key_nibbles account" upper "[]" t 64] W a by (auto simp: walkable_def)
  show ?thesis
  proof (cases "\<exists>no b c s. ?lo = Some (LAcct no b c s)")
    case False
    then show ?thesis using out by (auto simp: storage_rep_def reveal_storage_paths_def split: option.splits leaf.splits)
  next
    case True
    then obtain no b c s where lo: "?lo = Some (LAcct no b c s)" by blast
    obtain sref where sref: "wf0 s 64" "out = Some sref" "case sref of SrNode n \<Rightarrow> repr P n s
        | SrRam n \<Rightarrow> \<exists>pre. frep P M n pre s \<and> placed pre s 64 \<and> mem_ok n \<and> hashed P s"
      using out(2) lo by (auto simp: storage_rep_def)
    have ws: "wfb s 64" using sref(1) wf_wfb by (auto simp: wf0_def)
    define walk where "walk = (case sref of SrNode n \<Rightarrow> walk_node P f REC_FUEL n [] | SrRam n \<Rightarrow> walk_ram P f n [])"
    have R: "reveal_storage_paths P f upper account ks = (case walk_keys walk ks emitter_new of
        (Err x, e) \<Rightarrow> Err x | (Ok _, e) \<Rightarrow> Ok (Some (if em_out e = [] then [RvEmptyRoot] else em_out e)))"
      using out(1) sref(2) by (simp add: reveal_storage_paths_def walk_def)
    have "\<exists>ns. reveal_storage_paths P f upper account ks = Ok (Some ns) \<and> (ks = [] \<longrightarrow> ns = [RvEmptyRoot]) \<and>
        (ks \<noteq> [] \<longrightarrow> shown P s ns \<and> rv_path ` set ns = (\<Union>k \<in> set ks. walked s k))"
    proof (cases "ks = []")
      case True
      then show ?thesis using R by (simp add: eret_def emitter_new_def)
    next
      case False
      show ?thesis
      proof (cases "\<exists>n. sref = SrNode n \<and> s = TEmpty")
        case True
        then obtain n where n: "sref = SrNode n" "repr P n TEmpty" using sref(3) by auto
        then have "n = Empty" by (cases n) auto
        then have "emits P M s (walk (key_nibbles k)) {}" for k using n True by (simp add: walk_def REC_FUEL_def walk_node.simps numeral_eq_Suc)
        from walk_keys_out [where walk = walk and S = "\<lambda>k. {}", OF this] obtain e where e: "walk_keys walk ks emitter_new = (Ok (), e)" "em_out e = []" by fastforce
        then show ?thesis using R True False by (auto simp: shown_def walked_def)
      next
        case no_node: False
        have "emits P M s (walk (key_nibbles k)) (walked s k)" if k: "k \<in> set ks" for k
        proof (cases sref)
          case (SrNode n)
          then have "s \<noteq> TEmpty" using no_node by blast
          moreover have "emits P M s (walk_node P f REC_FUEL n [] (key_nibbles k)) (steps s [] (key_nibbles k))"
            using walk_node_emits [OF w(1), where q = "[]" and target = "key_nibbles k" and r = 64 and t = s and T = s and n = n and fuel = REC_FUEL and f = f and M = M]
              K k sref(1,3) SrNode by (simp add: REC_FUEL_def)
          ultimately show ?thesis using SrNode by (simp add: walk_def walked_def)
        next
          case (SrRam n)
          then obtain pre where n: "frep P M n pre s" "placed pre s 64" "mem_ok n" "hashed P s" using sref(3) by auto
          have "length k = 32" using K k by blast
          from walk_root_emits [OF w this n(1) ws n(2-4)] show ?thesis by (simp add: walk_def SrRam)
        qed
        from walk_keys_out [where walk = walk and S = "walked s" and ks = ks, OF this] obtain e where e: "walk_keys walk ks emitter_new = (Ok (), e)" "shown P s (em_out e)"
          "rv_path ` set (em_out e) = (\<Union>k \<in> set ks. walked s k)" by blast
        obtain k0 where "k0 \<in> set ks" using False by (cases ks) auto
        moreover have "[] \<in> walked s k0" using steps_start [of s "[]"] by (simp add: walked_def)
        ultimately have "[] \<in> (\<Union>k \<in> set ks. walked s k)" by blast
        then have "em_out e \<noteq> []" using e(3) by auto
        then show ?thesis using R e False by simp
      qed
    qed
    then show ?thesis using lo ws by simp
  qed
qed


section \<open>The guarantees\<close>

text \<open>The root of a view: what hashing its frontier returns.\<close>

lemma walkable_root: "walkable P f M upper t \<Longrightarrow> \<exists>n'. hash_ram P upper = Ok (troot P t, n')"
  using hash_ram_frep(1) fh_troot(1) unfolding walkable_def by metis

lemma walkable_reads:
  assumes W: "walkable P f M upper t" and "length key = 32" and "length slot = 32"
  shows "ram_get P f upper (key_nibbles key) 0 = Ok (map_option (leaf_value P) (tlook t (key_nibbles key)))"
    and "ram_get_storage P f upper (key_nibbles key) 0 slot = Ok (case tlook t (key_nibbles key) of
        Some (LAcct n b c s) \<Rightarrow> map_option (leaf_value P) (tlook s (key_nibbles slot)) | _ \<Rightarrow> None)"
  using ram_get_rep(1) [of P f M "key_nibbles key" upper "[]" t 64] ram_get_storage_rep(1) [of P f M "key_nibbles key" slot upper "[]" t 64] assms
  by (simp_all add: walkable_def)

text \<open>C21: For any keys, over the live database or a snapshot, the reveal walk succeeds with one node
  per position, and these nodes are a Merkle proof for each key: a checker that has the
  root only derives exactly the value of the key, or that it is absent.\<close>

theorem reveal_proves_accounts:
  assumes "keccak_len P" and "decode_typed P" and "rlp_keeps P" and "reads_back ser de" and "sys_hist P ser de s"
    and "view_of P s upper m" and "\<forall>k l. m k = Some l \<longrightarrow> wide P l" and "mem_ok upper" and "\<forall>key \<in> set keys. length key = 32"
  shows "\<exists>root upper' ns. hash_ram P upper = Ok (root, upper') \<and> reveal_account_paths P (sy_file s) upper keys = Ok ns \<and>
    distinct (map rv_path ns) \<and>
    (\<forall>key \<in> set keys. proves P root ns (key_nibbles key) = Some (map_option (leaf_value P) (m (key_nibbles key))))"
proof -
  obtain M t where W: "walkable P (sy_file s) M upper t" "m = tlook t" using view_walkable [OF assms(1-8)] by blast
  obtain ns where ns: "reveal_account_paths P (sy_file s) upper keys = Ok ns" "shown P t ns" "rv_path ` set ns = (\<Union>k \<in> set keys. walked t k)"
    using account_paths [OF W(1) assms(9)] by blast
  have "proves P (troot P t) ns (key_nibbles key) = Some (map_option (leaf_value P) (tlook t (key_nibbles key)))" if "key \<in> set keys" for key
    by (rule walked_proves(1) [OF ns(2)]) (use W(1) ns(3) assms(9) that in \<open>auto simp: walkable_def\<close>)
  moreover have "distinct (map rv_path ns)" using ns(2) by (simp add: shown_def)
  ultimately show ?thesis using walkable_root [OF W(1)] ns(1) W(2) by blast
qed

text \<open>C22: The reveal walk over the storage of an account gives a Merkle proof of each slot against
  the storage root in the account's own value; an absent or opaque account gives none. With
  no slots asked for, the answer is the empty root, whatever the storage holds.\<close>

theorem reveal_proves_slots:
  assumes "keccak_len P" and "decode_typed P" and "rlp_keeps P" and "reads_back ser de" and "sys_hist P ser de s"
    and "view_of P s upper m" and "\<forall>k l. m k = Some l \<longrightarrow> wide P l" and "mem_ok upper"
    and "length account = 32" and "\<forall>k \<in> set ks. length k = 32"
  shows "case m (key_nibbles account) of
      Some (LAcct n b c st) \<Rightarrow> (\<exists>ns. reveal_storage_paths P (sy_file s) upper account ks = Ok (Some ns) \<and> (ks = [] \<longrightarrow> ns = [RvEmptyRoot]) \<and>
        (\<forall>k \<in> set ks. proves P (troot P st) ns (key_nibbles k) = Some (map_option (leaf_value P) (tlook st (key_nibbles k)))))
    | _ \<Rightarrow> reveal_storage_paths P (sy_file s) upper account ks = Ok None"
proof -
  obtain M t where W: "walkable P (sy_file s) M upper t" "m = tlook t" using view_walkable [OF assms(1-8)] by blast
  note S = storage_paths [OF W(1) assms(9,10), folded W(2)]
  show ?thesis
  proof (cases "\<exists>n b c st. m (key_nibbles account) = Some (LAcct n b c st)")
    case True
    then obtain n b c st where lo: "m (key_nibbles account) = Some (LAcct n b c st)" by blast
    then obtain ns where ns: "wfb st 64" "reveal_storage_paths P (sy_file s) upper account ks = Ok (Some ns)" "ks = [] \<longrightarrow> ns = [RvEmptyRoot]"
      "ks \<noteq> [] \<longrightarrow> shown P st ns \<and> rv_path ` set ns = (\<Union>k \<in> set ks. walked st k)" using S by auto
    have "proves P (troot P st) ns (key_nibbles k) = Some (map_option (leaf_value P) (tlook st (key_nibbles k)))" if k: "k \<in> set ks" for k
      by (rule walked_proves(1) [OF _ ns(1)]) (use ns(4) k assms(10) in \<open>auto split: if_splits\<close>)
    then show ?thesis using lo ns by auto
  next
    case False
    then show ?thesis using S by (auto split: option.splits leaf.splits)
  qed
qed

text \<open>C23: A read that reveals on the way returns what the plain read of the snapshot returns, for
  accounts and for slots, present or absent, and the nodes of the reveal walk.\<close>

theorem reveal_reads_agree:
  assumes "keccak_len P" and "decode_typed P" and "rlp_keeps P" and "reads_back ser de" and "sys_hist P ser de s"
    and "(sn, ops) \<in> set (sy_snaps s)" and "map_run P Map.empty ops = Ok m" and "\<forall>k l. m k = Some l \<longrightarrow> wide P l"
    and "mem_ok (sn_root sn)" and "length key = 32" and "length slot = 32"
  shows "\<exists>v ns w out. get_value_reveal P (sy_file s) sn key = Ok (v, ns) \<and> snap_get_value P (sy_file s) sn key = Ok v \<and>
      v = map_option (leaf_value P) (m (key_nibbles key)) \<and> reveal_account_paths P (sy_file s) (sn_root sn) [key] = Ok ns \<and>
    get_storage_reveal P (sy_file s) sn key slot = Ok (w, out) \<and> snap_get_storage P (sy_file s) sn key slot = Ok w \<and>
      reveal_storage_paths P (sy_file s) (sn_root sn) key [slot] = Ok out"
proof -
  have V: "view_of P s (sn_root sn) m" using assms(6,7) unfolding view_of_def by blast
  obtain M t where W: "walkable P (sy_file s) M (sn_root sn) t" "m = tlook t" using view_walkable [OF assms(1-5) V assms(8,9)] by blast
  note R = walkable_reads [OF W(1) assms(10,11), folded W(2) snap_get_value_def snap_get_storage_def]
  obtain ns where ns: "reveal_account_paths P (sy_file s) (sn_root sn) [key] = Ok ns" "shown P t ns" "rv_path ` set ns = walked t key"
    using account_paths [OF W(1), of "[key]"] assms(10) by auto
  have v: "extract_exact ns (key_nibbles key) = map_option (leaf_value P) (m (key_nibbles key))"
    unfolding W(2) by (rule walked_proves(2) [OF ns(2)]) (use W(1) ns(3) assms(10) in \<open>auto simp: walkable_def\<close>)
  note S = storage_paths [OF W(1) assms(10), of "[slot]", folded W(2)]
  have "\<exists>w out. get_storage_reveal P (sy_file s) sn key slot = Ok (w, out) \<and> snap_get_storage P (sy_file s) sn key slot = Ok w \<and>
      reveal_storage_paths P (sy_file s) (sn_root sn) key [slot] = Ok out"
  proof (cases "\<exists>n b c st. m (key_nibbles key) = Some (LAcct n b c st)")
    case True
    then obtain n b c st where lo: "m (key_nibbles key) = Some (LAcct n b c st)" by blast
    then obtain ns' where ns': "wfb st 64" "reveal_storage_paths P (sy_file s) (sn_root sn) key [slot] = Ok (Some ns')"
      "shown P st ns'" "rv_path ` set ns' = walked st slot" using S assms(11) by auto
    have "extract_exact ns' (key_nibbles slot) = map_option (leaf_value P) (tlook st (key_nibbles slot))"
      by (rule walked_proves(2) [OF ns'(3,1) assms(11)]) (use ns'(4) in simp)
    then show ?thesis using ns'(2) R lo by (simp add: get_storage_reveal_def)
  next
    case False
    then have "reveal_storage_paths P (sy_file s) (sn_root sn) key [slot] = Ok None" using S assms(11) by (auto split: option.splits leaf.splits)
    then show ?thesis using R by (simp add: get_storage_reveal_def)
  qed
  then show ?thesis using ns(1) v R by (simp add: get_value_reveal_def)
qed

section \<open>Witnesses\<close>

theorem reveal_proves_accounts_witness:
  "\<exists>m s root upper' ns. sys_hist demo (one_ser m) (one_de m) s \<and> hash_ram demo (db_upper (sy_db s)) = Ok (root, upper') \<and>
     reveal_account_paths demo (sy_file s) (db_upper (sy_db s)) [demo_key3, demo_key1] = Ok ns \<and>
     proves demo root ns (key_nibbles demo_key3) = Some (Some (leaf_value demo demo_cursor_leaf)) \<and>
     proves demo root ns (key_nibbles demo_key1) = Some None"
proof -
  fix m
  obtain s where s: "sys_hist demo (one_ser m) (one_de m) s" "sy_ops s = [demo_put_slot]" "mem_ok (db_upper (sy_db s))" using demo_cursor_system by blast
  have k: "\<forall>key \<in> set [demo_key3, demo_key1]. length key = 32" by (simp add: demo_nibs)
  obtain root upper' ns where r: "hash_ram demo (db_upper (sy_db s)) = Ok (root, upper')"
    "reveal_account_paths demo (sy_file s) (db_upper (sy_db s)) [demo_key3, demo_key1] = Ok ns"
    "\<forall>key \<in> set [demo_key3, demo_key1]. proves demo root ns (key_nibbles key) =
      Some (map_option (leaf_value demo) ([key_nibbles demo_key3 \<mapsto> demo_cursor_leaf] (key_nibbles key)))"
    using reveal_proves_accounts [OF _ _ rlp_keeps_demo one_reads s(1) demo_view_of [OF s(2)] demo_put_wide s(3) k] by auto
  have "key_nibbles demo_key1 \<noteq> key_nibbles demo_key3" using demo_differ by (auto simp: demo_nibs key_nibbles_inj)
  then have "proves demo root ns (key_nibbles demo_key3) = Some (Some (leaf_value demo demo_cursor_leaf))" "proves demo root ns (key_nibbles demo_key1) = Some None"
    using r(3) by simp_all
  then show ?thesis using s(1) r(1,2) by blast
qed

theorem reveal_proves_slots_witness:
  "\<exists>m s ns. sys_hist demo (one_ser m) (one_de m) s \<and>
     reveal_storage_paths demo (sy_file s) (db_upper (sy_db s)) demo_key3 [demo_key1] = Ok (Some ns) \<and>
     proves demo (troot demo (TLeaf (key_nibbles demo_key1) demo_value)) ns (key_nibbles demo_key1) = Some (Some demo_value)"
proof -
  fix m
  obtain s where s: "sys_hist demo (one_ser m) (one_de m) s" "sy_ops s = [demo_put_slot]" "mem_ok (db_upper (sy_db s))" using demo_cursor_system by blast
  show ?thesis
    using reveal_proves_slots [OF _ _ rlp_keeps_demo one_reads s(1) demo_view_of [OF s(2)] demo_put_wide s(3), of demo_key3 "[demo_key1]"] s(1)
    by (auto simp: demo_cursor_leaf_def demo_nibs)
qed

theorem reveal_reads_agree_witness:
  "\<exists>m s sn ns. sys_hist demo (one_ser m) (one_de m) s \<and> sy_snaps s = [(sn, [demo_put])] \<and>
     get_value_reveal demo (sy_file s) sn demo_key1 = Ok (Some demo_value, ns)"
proof -
  fix m
  obtain s sn where s: "sys_hist demo (one_ser m) (one_de m) s" "sy_snaps s = [(sn, [demo_put])]" "mem_ok (sn_root sn)"
    using demo_snapshot by blast
  have w: "\<forall>k l. [key_nibbles demo_key1 \<mapsto> LVal demo_value] k = Some l \<longrightarrow> wide demo l" using demo_wide1 by blast
  have l: "length demo_key1 = 32" by simp
  have i: "(sn, [demo_put]) \<in> set (sy_snaps s)" using s(2) by simp
  show ?thesis using reveal_reads_agree [OF _ _ rlp_keeps_demo one_reads s(1) i demo_map1 w s(3) l l] s by auto
qed

end
