(* ===== verification/BranchCursor.thy ===== *)
theory BranchCursor
  imports Reveal
begin

text \<open>
  The second half of \<^verbatim>\<open>src/src/cursor.rs\<close>: ordered cursors over the branch nodes of the
  account trie and of the storage of an account, which return for each branch the
  masks and hashes of its children. The walks thread the record memo (\<open>cm\<close>).
\<close>

section \<open>Entries\<close>

record trie_node_entry =
  tn_path :: nibs
  tn_state :: u16
  tn_tree :: u16
  tn_hash :: u16
  tn_hashes :: "bytes list"

record child_info =
  ci_hash :: "bytes option"
  ci_below :: bool

definition ref_hash :: "node_ref \<Rightarrow> bytes option" where
  "ref_hash r = (case r of NHash h \<Rightarrow> Some h | NInline b \<Rightarrow> None)"

primrec classify_node_child :: "prims \<Rightarrow> flat_file \<Rightarrow> nat \<Rightarrow> node \<Rightarrow> child_info cm" where
  "classify_node_child P f 0 = (\<lambda>nd. clift (Err NoFuel))"
| "classify_node_child P f (Suc fuel) = (\<lambda>nd.
     (case nd of
        Empty \<Rightarrow> cret \<lparr>ci_hash = None, ci_below = False\<rparr>
      | Leaf path value nref \<Rightarrow> cret \<lparr>ci_hash = ref_hash nref, ci_below = False\<rparr>
      | Account path nonce balance code_hash storage storage_root nref \<Rightarrow> cret \<lparr>ci_hash = ref_hash nref, ci_below = False\<rparr>
      | Extension path child nref \<Rightarrow> cbind (classify_node_child P f fuel child) (\<lambda>below.
          cret \<lparr>ci_hash = ref_hash nref, ci_below = ci_below below \<or> is_branch_node child\<rparr>)
      | Branch children nref \<Rightarrow> cret \<lparr>ci_hash = ref_hash nref, ci_below = True\<rparr>
      | Overflow ptr root \<Rightarrow> cbind (memo_read P f ptr) (\<lambda>sub. cbind (classify_node_child P f fuel (ds_node sub)) (\<lambda>below.
          cret \<lparr>ci_hash = Some root, ci_below = is_branch_node (ds_node sub) \<or> ci_below below\<rparr>))
      | Raw buf off len nref \<Rightarrow> cbind (clift (parse_node_lazy P buf off len)) (classify_node_child P f fuel)))"

declare classify_node_child.simps(2) [simp del]

definition classify_ram_child :: "prims \<Rightarrow> flat_file \<Rightarrow> ram_child \<Rightarrow> child_info cm" where
  "classify_ram_child P f child =
     (case child of
        RRam sub \<Rightarrow> cbind (clift (hash_ram P sub)) (\<lambda>(h, _). cret \<lparr>ci_hash = Some h, ci_below = is_ram_inner sub\<rparr>)
      | RDisk ptr root \<Rightarrow> cbind (memo_read P f ptr) (\<lambda>sub. cbind (classify_node_child P f REC_FUEL (ds_node sub)) (\<lambda>below.
          cret \<lparr>ci_hash = Some root, ci_below = ci_below below \<or> is_branch_node (ds_node sub)\<rparr>))
      | RMem bs root \<Rightarrow> cbind (clift (parse_payload_lazy P bs)) (\<lambda>sub. cbind (classify_node_child P f REC_FUEL (ds_node sub)) (\<lambda>below.
          cret \<lparr>ci_hash = Some root, ci_below = ci_below below \<or> is_branch_node (ds_node sub)\<rparr>))
      | RAccount path nonce balance code_hash storage \<Rightarrow> cret \<lparr>ci_hash = None, ci_below = False\<rparr>)"

fun mask_slots :: "('c \<Rightarrow> child_info cm) \<Rightarrow> (nat \<times> 'c option) list \<Rightarrow> trie_node_entry \<Rightarrow> trie_node_entry cm" where
  "mask_slots info [] e = cret e"
| "mask_slots info ((i, None) # slots) e = mask_slots info slots e"
| "mask_slots info ((i, Some c) # slots) e = cbind (info c) (\<lambda>ci.
     mask_slots info slots (e\<lparr>tn_state := tn_state e OR push_bit i 1,
       tn_tree := (if ci_below ci then tn_tree e OR push_bit i 1 else tn_tree e),
       tn_hash := (if ci_hash ci \<noteq> None then tn_hash e OR push_bit i 1 else tn_hash e),
       tn_hashes := (case ci_hash ci of None \<Rightarrow> tn_hashes e | Some h \<Rightarrow> tn_hashes e @ [h])\<rparr>))"

definition build_branch_entry :: "('c \<Rightarrow> child_info cm) \<Rightarrow> nibs \<Rightarrow> 'c option list \<Rightarrow> trie_node_entry cm" where
  "build_branch_entry info path children =
     mask_slots info (enumerate 0 children) \<lparr>tn_path = path, tn_state = 0, tn_tree = 0, tn_hash = 0, tn_hashes = []\<rparr>"

section \<open>The order of positions\<close>

definition lex_ge :: "nibs \<Rightarrow> nibs \<Rightarrow> bool" where
  "lex_ge path target =
     (let n = min (length path) (length target) in
      if take n target < take n path then True
      else if take n path < take n target then False else length target \<le> length path)"

definition prefix_range_all_less :: "nibs \<Rightarrow> nibs \<Rightarrow> bool" where
  "prefix_range_all_less prefix target =
     (let n = min (length prefix) (length target) in take n prefix < take n target)"

section \<open>The walk to the next branch\<close>

type_synonym branch_walk = "nibs \<Rightarrow> nibs \<Rightarrow> trie_node_entry option cm"

definition below_prefix :: "branch_walk \<Rightarrow> branch_walk" where
  "below_prefix walk = (\<lambda>prefix target. if prefix_range_all_less prefix target then cret None else walk prefix target)"

fun try_branches :: "branch_walk option list \<Rightarrow> nat list \<Rightarrow> branch_walk" where
  "try_branches fs [] prefix target = cret None"
| "try_branches fs (i # is) prefix target =
     cbind (clift (index fs i)) (\<lambda>child.
       (case child of
          None \<Rightarrow> try_branches fs is prefix target
        | Some walk \<Rightarrow> cbind (below_prefix walk (prefix @ [word_of_nat i]) target) (\<lambda>out.
            if out \<noteq> None then cret out else try_branches fs is prefix target)))"

definition branch_here :: "trie_node_entry cm \<Rightarrow> branch_walk option list \<Rightarrow> branch_walk" where
  "branch_here entry fs prefix target =
     (if lex_ge prefix target then cbind entry (\<lambda>e. cret (Some e)) else try_branches fs [0..<16] prefix target)"

primrec node_branch_seek :: "prims \<Rightarrow> flat_file \<Rightarrow> nat \<Rightarrow> node \<Rightarrow> branch_walk" where
  "node_branch_seek P f 0 = (\<lambda>nd prefix target. clift (Err NoFuel))"
| "node_branch_seek P f (Suc fuel) = (\<lambda>nd prefix target.
     (case nd of
        Empty \<Rightarrow> cret None
      | Leaf path value nref \<Rightarrow> cret None
      | Account path nonce balance code_hash storage storage_root nref \<Rightarrow> cret None
      | Extension path child nref \<Rightarrow> below_prefix (node_branch_seek P f fuel child) (prefix @ path) target
      | Branch children nref \<Rightarrow>
          branch_here (build_branch_entry (classify_node_child P f REC_FUEL) prefix children)
            (map (map_option (node_branch_seek P f fuel)) children) prefix target
      | Overflow ptr root \<Rightarrow> cbind (memo_read P f ptr) (\<lambda>sub. node_branch_seek P f fuel (ds_node sub) prefix target)
      | Raw buf off len nref \<Rightarrow> cbind (clift (parse_node_lazy P buf off len)) (\<lambda>n. node_branch_seek P f fuel n prefix target)))"

declare node_branch_seek.simps(2) [simp del]

text \<open>In the frontier; \<open>ram_child_branch_seek\<close> is the match on the kind of a child.\<close>

primrec ram_branch_seek :: "prims \<Rightarrow> flat_file \<Rightarrow> ram_node \<Rightarrow> branch_walk"
  and ram_child_branch_seek :: "prims \<Rightarrow> flat_file \<Rightarrow> ram_child \<Rightarrow> branch_walk" where
  "ram_branch_seek P f REmpty = (\<lambda>prefix target. cret None)"
| "ram_branch_seek P f (RExtension path child hash) = (\<lambda>prefix target.
     below_prefix (ram_branch_seek P f child) (prefix @ path) target)"
| "ram_branch_seek P f (RBranch children hash) = (\<lambda>prefix target.
     branch_here (build_branch_entry (classify_ram_child P f) prefix children)
       (map (map_option (ram_child_branch_seek P f)) children) prefix target)"
| "ram_child_branch_seek P f (RRam sub) = ram_branch_seek P f sub"
| "ram_child_branch_seek P f (RDisk ptr root) = (\<lambda>prefix target.
     cbind (memo_read P f ptr) (\<lambda>sub. node_branch_seek P f REC_FUEL (ds_node sub) prefix target))"
| "ram_child_branch_seek P f (RMem bs root) = (\<lambda>prefix target.
     cbind (clift (parse_payload_lazy P bs)) (\<lambda>sub. node_branch_seek P f REC_FUEL (ds_node sub) prefix target))"
| "ram_child_branch_seek P f (RAccount path nonce balance code_hash storage) = (\<lambda>prefix target. cret None)"

section \<open>The cursors\<close>

record branch_cursor =
  bc_upper :: ram_node
  bc_memo :: record_memo
  bc_last :: "nibs option"

definition trie_node_cursor :: "ram_node \<Rightarrow> branch_cursor" where
  "trie_node_cursor upper = \<lparr>bc_upper = upper, bc_memo = None, bc_last = None\<rparr>"

text \<open>An empty target becomes the first nibble: the root branch is never returned.\<close>

definition skip_root :: "nibs \<Rightarrow> nibs" where
  "skip_root path = (if path = [] then [0] else path)"

definition trie_node_seek :: "prims \<Rightarrow> flat_file \<Rightarrow> branch_cursor \<Rightarrow> nibs \<Rightarrow> trie_node_entry option res \<times> branch_cursor" where
  "trie_node_seek P f cu path =
     (case ram_branch_seek P f (bc_upper cu) [] (skip_root path) (bc_memo cu) of
        (Err e, m) \<Rightarrow> (Err e, cu\<lparr>bc_memo := m\<rparr>)
      | (Ok out, m) \<Rightarrow> (Ok out, cu\<lparr>bc_memo := m, bc_last := map_option tn_path out\<rparr>))"

definition trie_node_next :: "prims \<Rightarrow> flat_file \<Rightarrow> branch_cursor \<Rightarrow> trie_node_entry option res \<times> branch_cursor" where
  "trie_node_next P f cu = (case bc_last cu of None \<Rightarrow> (Ok None, cu) | Some prev \<Rightarrow> trie_node_seek P f cu (prev @ [0]))"

record slot_branch_cursor = branch_cursor +
  bc_account :: bytes

definition storage_trie_node_cursor :: "ram_node \<Rightarrow> bytes \<Rightarrow> slot_branch_cursor" where
  "storage_trie_node_cursor upper key = \<lparr>bc_upper = upper, bc_memo = None, bc_last = None, bc_account = key\<rparr>"

definition storage_trie_node_seek :: "prims \<Rightarrow> flat_file \<Rightarrow> slot_branch_cursor \<Rightarrow> nibs \<Rightarrow> trie_node_entry option res \<times> slot_branch_cursor" where
  "storage_trie_node_seek P f cu path =
     (case with_account_storage P f (bc_upper cu) (key_nibbles (bc_account cu)) 0 of
        Err e \<Rightarrow> (Err e, cu)
      | Ok storage \<Rightarrow>
          (case (case storage of
                   None \<Rightarrow> cret None
                 | Some (SrNode n) \<Rightarrow> node_branch_seek P f REC_FUEL n [] (skip_root path)
                 | Some (SrRam n) \<Rightarrow> ram_branch_seek P f n [] (skip_root path)) (bc_memo cu) of
             (Err e, m) \<Rightarrow> (Err e, cu\<lparr>bc_memo := m\<rparr>)
           | (Ok out, m) \<Rightarrow> (Ok out, cu\<lparr>bc_memo := m, bc_last := map_option tn_path out\<rparr>)))"

definition storage_trie_node_next :: "prims \<Rightarrow> flat_file \<Rightarrow> slot_branch_cursor \<Rightarrow> trie_node_entry option res \<times> slot_branch_cursor" where
  "storage_trie_node_next P f cu =
     (case bc_last cu of None \<Rightarrow> (Ok None, cu) | Some prev \<Rightarrow> storage_trie_node_seek P f cu (prev @ [0]))"

end
