(* ===== verification/BranchCursorProofs.thy ===== *)
theory BranchCursorProofs
  imports BranchCursor RevealProofs
begin

text \<open>
  The branch walk finds the first branch from its target on in the order of positions,
  a parent before its children, and its entry describes the children of that branch.
\<close>

section \<open>Entries\<close>

text \<open>What an entry says of the branch with the children \<open>ts\<close>. A promoted account is the only
  child whose hash may be left out.\<close>

definition entry_shows :: "prims \<Rightarrow> trie option list \<Rightarrow> trie_node_entry \<Rightarrow> bool" where
  "entry_shows P ts e = ((\<forall>i < 16. (bit (tn_state e) i \<longleftrightarrow> ts ! i \<noteq> None) \<and>
       (bit (tn_tree e) i \<longleftrightarrow> (\<exists>u. ts ! i = Some u \<and> inner u)) \<and>
       (bit (tn_hash e) i \<longrightarrow> (\<exists>u h. ts ! i = Some u \<and> tref P u = NHash h)) \<and>
       (\<forall>u h. ts ! i = Some u \<longrightarrow> tref P u = NHash h \<longrightarrow> bit (tn_hash e) i \<or> (\<exists>p n b c s. u = TAcct p n b c s))) \<and>
     tn_hashes e = map (\<lambda>i. troot P (the (ts ! i))) (filter (bit (tn_hash e)) [0..<16]))"

text \<open>The entry after the first \<open>k\<close> slots.\<close>

definition entry_upto :: "prims \<Rightarrow> trie option list \<Rightarrow> nat \<Rightarrow> trie_node_entry \<Rightarrow> bool" where
  "entry_upto P ts k e = ((\<forall>i < 16. (bit (tn_state e) i \<longleftrightarrow> i < k \<and> ts ! i \<noteq> None) \<and>
       (bit (tn_tree e) i \<longleftrightarrow> i < k \<and> (\<exists>u. ts ! i = Some u \<and> inner u)) \<and>
       (bit (tn_hash e) i \<longrightarrow> i < k \<and> (\<exists>u h. ts ! i = Some u \<and> tref P u = NHash h)) \<and>
       (i < k \<longrightarrow> (\<forall>u h. ts ! i = Some u \<longrightarrow> tref P u = NHash h \<longrightarrow> bit (tn_hash e) i \<or> (\<exists>p n b c s. u = TAcct p n b c s)))) \<and>
     tn_hashes e = map (\<lambda>i. troot P (the (ts ! i))) (filter (bit (tn_hash e)) [0..<k]))"

lemma entry_upto_all: "entry_upto P ts 16 e = entry_shows P ts e"
  by (simp add: entry_upto_def entry_shows_def)

text \<open>What is known of one child.\<close>

definition child_shows :: "prims \<Rightarrow> trie \<Rightarrow> child_info \<Rightarrow> bool" where
  "child_shows P u ci = (ci_below ci = inner u \<and> (\<forall>h. ci_hash ci = Some h \<longrightarrow> tref P u = NHash h) \<and>
     (ci_hash ci = None \<longrightarrow> (\<exists>p n b c s. u = TAcct p n b c s) \<or> \<not> is_hash (tref P u)))"

lemma entry_next:
  assumes E: "entry_upto P ts k e" and k: "k < 16" and u: "ts ! k = Some u" and C: "child_shows P u ci"
  shows "entry_upto P ts (Suc k) (e\<lparr>tn_state := tn_state e OR push_bit k 1,
       tn_tree := (if ci_below ci then tn_tree e OR push_bit k 1 else tn_tree e),
       tn_hash := (if ci_hash ci \<noteq> None then tn_hash e OR push_bit k 1 else tn_hash e),
       tn_hashes := (case ci_hash ci of None \<Rightarrow> tn_hashes e | Some h \<Rightarrow> tn_hashes e @ [h])\<rparr>)"
proof -
  have set: "bit (if b then w OR push_bit k (1 :: u16) else w) i = (bit w i \<or> b \<and> i = k)" if "i < 16" for b w i
    using set_mask [OF that k] .
  have set': "bit (w OR push_bit k (1 :: u16)) i = (bit w i \<or> i = k)" if "i < 16" for w i
    using set [OF that, of True] by simp
  define hash where "hash = (if ci_hash ci \<noteq> None then tn_hash e OR push_bit k 1 else tn_hash e)"
  have h: "bit hash i = (bit (tn_hash e) i \<or> ci_hash ci \<noteq> None \<and> i = k)" if "i < 16" for i
    unfolding hash_def by (rule set [OF that])
  have nk: "\<not> bit (tn_hash e) k" using E k by (auto simp: entry_upto_def)
  have low: "filter (bit hash) [0..<k] = filter (bit (tn_hash e)) [0..<k]"
    by (rule filter_cong) (use h k in auto)
  have root: "ci_hash ci = Some x \<Longrightarrow> troot P u = x" for x using C by (auto simp: child_shows_def troot_def)
  have "(case ci_hash ci of None \<Rightarrow> tn_hashes e | Some h \<Rightarrow> tn_hashes e @ [h]) =
      map (\<lambda>i. troot P (the (ts ! i))) (filter (bit hash) [0..<Suc k])"
    using E low root h [OF k] nk u by (auto simp: entry_upto_def split: option.splits)
  moreover have "(bit (tn_state e OR push_bit k 1) i \<longleftrightarrow> i < Suc k \<and> ts ! i \<noteq> None) \<and>
       (bit (if ci_below ci then tn_tree e OR push_bit k 1 else tn_tree e) i \<longleftrightarrow> i < Suc k \<and> (\<exists>u. ts ! i = Some u \<and> inner u)) \<and>
       (bit hash i \<longrightarrow> i < Suc k \<and> (\<exists>u h. ts ! i = Some u \<and> tref P u = NHash h)) \<and>
       (i < Suc k \<longrightarrow> (\<forall>u h. ts ! i = Some u \<longrightarrow> tref P u = NHash h \<longrightarrow> bit hash i \<or> (\<exists>p n b c s. u = TAcct p n b c s)))"
    if i: "i < 16" for i
  proof (cases "i = k")
    case True
    then show ?thesis using set [OF i] set' [OF i] h [OF i] C u nk E k
      by (auto simp: entry_upto_def child_shows_def is_hash_def split: if_splits)
  next
    case False
    then show ?thesis using set [OF i] set' [OF i] h [OF i] E i by (auto simp: entry_upto_def less_Suc_eq)
  qed
  ultimately show ?thesis unfolding entry_upto_def hash_def by simp
qed

lemma mask_slots_walks:
  assumes L: "length cs = 16" "length ts = 16"
    and C: "\<And>i. i < 16 \<Longrightarrow> (case ts ! i of None \<Rightarrow> cs ! i = None | Some u \<Rightarrow> \<exists>c. cs ! i = Some c \<and> walks P M (info c) (child_shows P u))"
  shows "entry_upto P ts k e \<Longrightarrow> k \<le> 16 \<Longrightarrow> walks P M (mask_slots info (enumerate k (drop k cs)) e) (\<lambda>e'. entry_shows P ts e' \<and> tn_path e' = tn_path e)"
proof (induction "16 - k" arbitrary: k e)
  case 0
  then show ?case using L by (simp add: entry_upto_all)
next
  case (Suc d)
  then have k: "k < 16" by simp
  then have e: "enumerate k (drop k cs) = (k, cs ! k) # enumerate (Suc k) (drop (Suc k) cs)"
    using L(1) by (simp add: Cons_nth_drop_Suc [symmetric])
  show ?case
  proof (cases "ts ! k")
    case None
    then have n: "cs ! k = None" using C [OF k] by simp
    have "entry_upto P ts (Suc k) e" using Suc.prems(1) None k by (auto simp: entry_upto_def less_Suc_eq)
    from Suc.hyps(1) [OF _ this] show ?thesis using Suc.hyps(2) k by (simp add: e n)
  next
    case (Some u)
    then obtain c where c: "cs ! k = Some c" "walks P M (info c) (child_shows P u)" using C [OF k] by auto
    show ?thesis unfolding e c(1) mask_slots.simps
    proof (rule walks_bind [OF c(2)])
      fix ci
      assume ci: "child_shows P u ci"
      let ?e = "e\<lparr>tn_state := tn_state e OR push_bit k 1,
       tn_tree := (if ci_below ci then tn_tree e OR push_bit k 1 else tn_tree e),
       tn_hash := (if ci_hash ci \<noteq> None then tn_hash e OR push_bit k 1 else tn_hash e),
       tn_hashes := (case ci_hash ci of None \<Rightarrow> tn_hashes e | Some h \<Rightarrow> tn_hashes e @ [h])\<rparr>"
      have "walks P M (mask_slots info (enumerate (Suc k) (drop (Suc k) cs)) ?e) (\<lambda>e'. entry_shows P ts e' \<and> tn_path e' = tn_path ?e)"
        by (rule Suc.hyps(1) [OF _ entry_next [OF Suc.prems(1) k Some ci]]) (use Suc.hyps(2) k in auto)
      then show "walks P M (mask_slots info (enumerate (Suc k) (drop (Suc k) cs)) ?e) (\<lambda>e'. entry_shows P ts e' \<and> tn_path e' = tn_path e)"
        by simp
    qed
  qed
qed

lemma build_branch_entry_walks:
  assumes "length cs = 16" and "length ts = 16"
    and "\<And>i. i < 16 \<Longrightarrow> (case ts ! i of None \<Rightarrow> cs ! i = None | Some u \<Rightarrow> \<exists>c. cs ! i = Some c \<and> walks P M (info c) (child_shows P u))"
  shows "walks P M (build_branch_entry info q cs) (\<lambda>e. entry_shows P ts e \<and> tn_path e = q)"
proof -
  let ?e = "\<lparr>tn_path = q, tn_state = 0, tn_tree = 0, tn_hash = 0, tn_hashes = []\<rparr>"
  have "entry_upto P ts 0 ?e" by (simp add: entry_upto_def)
  from mask_slots_walks [OF assms this] show ?thesis by (simp add: build_branch_entry_def)
qed

section \<open>Children\<close>

lemma ref_hash_shows: "ref_hash r = Some h \<longleftrightarrow> r = NHash h" "ref_hash r = None \<longleftrightarrow> \<not> is_hash r"
  by (auto simp: ref_hash_def is_hash_def split: node_ref.splits)

lemma classify_branch:
  assumes "keccak_len P" and "repr P n (TBranch ts)" and "wf (TBranch ts) r" and "r \<le> 64" and "2 \<le> fuel"
  shows "walks P M (classify_node_child P f fuel n) ci_below"
proof -
  obtain fu where fu: "fuel = Suc (Suc fu)" using assms(5) by (auto simp: le_iff_add eval_nat_numeral)
  show ?thesis
  proof (cases n)
    case (Raw buf off len nref)
    then obtain n' where n': "parse_node_lazy P buf off len = Ok n'" "repr P n' (TBranch ts)" "\<not> is_raw n'"
      using parse_node_lazy_raw [of P buf off len nref "TBranch ts" r] assms by auto
    then show ?thesis using Raw fu by (cases n') (auto simp: classify_node_child.simps)
  qed (use assms(2) fu in \<open>auto simp: classify_node_child.simps\<close>)
qed

lemma classify_parsed:
  assumes "keccak_len P" and "repr P n u" and "wf u r" and "r \<le> 64" and "\<not> is_raw n"
  shows "walks P M (classify_node_child P f (Suc (Suc (Suc fu))) n) (child_shows P u)"
proof (cases n)
  case (Extension p c rf)
  then obtain v where v: "u = TExt p v" "repr P c v" "rf = tref P u" using assms(2) by auto
  then obtain ts where ts: "v = TBranch ts" "wf v (r - length p)" using assms(3) by (cases v) auto
  have "walks P M (classify_node_child P f (Suc (Suc fu)) c) ci_below"
    by (rule classify_branch [OF assms(1) v(2) [unfolded ts(1)] ts(2) [unfolded ts(1)]]) (use assms(4) in auto)
  then show ?thesis unfolding Extension classify_node_child.simps(2) [of _ _ "Suc (Suc fu)"] node.case
    by (rule walks_bind) (use v ref_hash_shows in \<open>auto simp: child_shows_def\<close>)
qed (use assms ref_hash_shows in \<open>auto simp: classify_node_child.simps child_shows_def\<close>)

lemma classify_walks:
  assumes "keccak_len P" and "repr P n u" and "wf u r" and "r \<le> 64"
  shows "walks P M (classify_node_child P f REC_FUEL n) (child_shows P u)"
proof -
  have f: "REC_FUEL = Suc (Suc (Suc (Suc 296)))" by (simp add: REC_FUEL_def)
  show ?thesis
  proof (cases n)
    case (Raw buf off len nref)
    then obtain n' where n': "parse_node_lazy P buf off len = Ok n'" "repr P n' u" "\<not> is_raw n'"
      using parse_node_lazy_raw [of P buf off len nref u r] assms by auto
    then show ?thesis using classify_parsed [OF assms(1) n'(2) assms(3,4) n'(3), of M f 296]
      unfolding f Raw classify_node_child.simps(2) [of _ _ "Suc (Suc (Suc 296))"] by simp
  qed (use classify_parsed [OF assms, of M f "Suc 296"] f in auto)
qed

lemma classify_ram_walks:
  assumes K: "keccak_len P" and F: "readable f M" "one_record M"
    and C: "crep P M c pre u" "wf u r" "placed pre u r" "mem_ok_child c" "hashed P u" "tref P u = NHash (troot P u)"
  shows "walks P M (classify_ram_child P f c) (child_shows P u)"
proof (cases c)
  case (RRam n)
  then obtain n' where h: "hash_ram P n = Ok (troot P u, n')"
    using hash_ram_frep(1) [of P M n pre u] fh_troot(1) [of P M n pre u] C by auto
  have "u \<noteq> TEmpty" using C(2) by auto
  then have "is_ram_inner n = inner u" using C(1) RRam by (cases n) (auto simp: is_ram_inner_def frep_RBranch)
  then show ?thesis using RRam h C(6) by (simp add: classify_ram_child_def child_shows_def)
next
  case (RDisk ptr root)
  then have m: "M ptr = Some (nib_path pre @ enc P u)" "root = troot P u" using C(1) by simp_all
  have c: "crep P M (RDisk ptr root) pre u" using C(1) RDisk by simp
  obtain n where n: "read_lazy P f ptr = Ok \<lparr>ds_prefix = pre, ds_node = n\<rparr>" "repr P n u" "\<not> is_raw n"
    using disk_read [OF K C(2) placed_depth(3) [OF C(3)] F(1) c] by blast
  have d: "deserialize_subtree_lazy P (nib_path pre @ enc P u) = Ok \<lparr>ds_prefix = pre, ds_node = n\<rparr>"
    using n(1) read_lazy_rel [OF F(1) m(1)] by simp
  have r: "r \<le> 64" by (rule placed_depth(2) [OF C(3)])
  have b: "is_branch_node n \<Longrightarrow> inner u" using n(2) by (cases n) (auto simp: is_branch_node_def)
  show ?thesis unfolding RDisk classify_ram_child_def ram_child.case
    by (rule walks_bind [OF memo_read_walks [OF F m(1) d]], simp only: disk_subtree.simps, rule walks_bind [OF classify_walks [OF K n(2) C(2) r]])
      (use b C(6) m(2) in \<open>auto simp: child_shows_def\<close>)
next
  case (RMem bs root)
  then have c: "crep P M (RMem bs root) pre u" "mem_ok_child (RMem bs root)" "root = troot P u" using C(1,4) by simp_all
  obtain n where n: "parse_payload_lazy P bs = Ok \<lparr>ds_prefix = pre, ds_node = n\<rparr>" "repr P n u" "\<not> is_raw n"
    using mem_read [OF K C(2) placed_depth(3) [OF C(3)] c(1,2)] by blast
  have r: "r \<le> 64" by (rule placed_depth(2) [OF C(3)])
  have b: "is_branch_node n \<Longrightarrow> inner u" using n(2) by (cases n) (auto simp: is_branch_node_def)
  show ?thesis unfolding RMem classify_ram_child_def ram_child.case n(1) walks_lift
    by (simp only: disk_subtree.simps, rule walks_bind [OF classify_walks [OF K n(2) C(2) r]])
      (use b C(6) c(3) in \<open>auto simp: child_shows_def\<close>)
next
  case (RAccount p n b c' st)
  then show ?thesis using C(1) by (auto simp: classify_ram_child_def child_shows_def)
qed

section \<open>Positions of branches\<close>

definition branch_at :: "trie \<Rightarrow> nibs \<rightharpoonup> trie option list" where
  "branch_at t q = (case sub_at t q of Some (TBranch ts) \<Rightarrow> Some ts | _ \<Rightarrow> None)"

definition shifted :: "nibs \<Rightarrow> (nibs \<rightharpoonup> 'v) \<Rightarrow> nibs \<rightharpoonup> 'v" where
  "shifted p m k = (if take (length p) k = p then m (drop (length p) k) else None)"

lemma shifted_at [simp]: "shifted p m (p @ k) = m k"
  by (simp add: shifted_def)

lemma shifted_Nil [simp]: "shifted [] m = m"
  by (simp add: shifted_def fun_eq_iff)

lemma shifted_key: "shifted p m k \<noteq> None \<Longrightarrow> \<exists>k'. k = p @ k' \<and> m k' \<noteq> None"
  by (metis append_take_drop_id shifted_def)

lemma shifted_append: "shifted (p @ q) m = shifted p (shifted q m)"
proof
  fix k
  show "shifted (p @ q) m k = shifted p (shifted q m) k"
  proof (cases "take (length p) k = p")
    case True
    then obtain k' where "k = p @ k'" by (metis append_take_drop_id)
    then show ?thesis by (simp add: shifted_def)
  next
    case False
    then have "take (length (p @ q)) k \<noteq> p @ q" by (metis append_eq_conv_conj append_take_drop_id append.assoc)
    then show ?thesis using False by (simp add: shifted_def)
  qed
qed

lemma branch_at_simps [simp]: "branch_at TEmpty = Map.empty" "branch_at (TLeaf p v) = Map.empty" "branch_at (TAcct p n b c s) = Map.empty"
  "branch_at (TBranch ts) [] = Some ts"
  "branch_at (TBranch ts) (x # q) = (if unat x < length ts then Option.bind (ts ! unat x) (\<lambda>u. branch_at u q) else None)"
  by (auto simp: branch_at_def fun_eq_iff split: option.splits)

lemma branch_at_ext: "p \<noteq> [] \<Longrightarrow> branch_at (TExt p u) = shifted p (branch_at u)"
  by (auto simp: branch_at_def shifted_def fun_eq_iff)

definition finds :: "prims \<Rightarrow> (nibs \<rightharpoonup> trie option list) \<Rightarrow> nibs \<Rightarrow> trie_node_entry option \<Rightarrow> bool" where
  "finds P m x out = (\<exists>r. least_from m x r \<and> rel_option (\<lambda>(q, ts) e. tn_path e = q \<and> entry_shows P ts e) r out)"

lemma finds_None [simp]: "finds P m x None = (\<forall>k. m k \<noteq> None \<longrightarrow> k < x)"
  by (auto simp: finds_def)

lemma finds_Some [simp]: "finds P m x (Some e) = (\<exists>ts. m (tn_path e) = Some ts \<and> entry_shows P ts e \<and> x \<le> tn_path e \<and>
    (\<forall>k'. m k' \<noteq> None \<longrightarrow> x \<le> k' \<longrightarrow> tn_path e \<le> k'))"
proof
  assume "finds P m x (Some e)"
  then show "\<exists>ts. m (tn_path e) = Some ts \<and> entry_shows P ts e \<and> x \<le> tn_path e \<and> (\<forall>k'. m k' \<noteq> None \<longrightarrow> x \<le> k' \<longrightarrow> tn_path e \<le> k')"
    unfolding finds_def option_rel_Some2 by auto
next
  assume "\<exists>ts. m (tn_path e) = Some ts \<and> entry_shows P ts e \<and> x \<le> tn_path e \<and> (\<forall>k'. m k' \<noteq> None \<longrightarrow> x \<le> k' \<longrightarrow> tn_path e \<le> k')"
  then obtain ts where "least_from m x (Some (tn_path e, ts))" "entry_shows P ts e" by auto
  then show "finds P m x (Some e)" unfolding finds_def by (intro exI [of _ "Some (tn_path e, ts)"]) simp
qed

lemma all_less: "prefix_range_all_less p x \<Longrightarrow> p @ k < x"
proof -
  assume a: "prefix_range_all_less p x"
  let ?n = "min (length p) (length x)"
  have "take ?n p @ (drop ?n p @ k) < x"
    by (rule less_take [of _ ?n]) (use a in \<open>auto simp: prefix_range_all_less_def Let_def\<close>)
  then show ?thesis by (simp flip: append_assoc)
qed

lemma lex_ge_le: "lex_ge p x \<longleftrightarrow> x \<le> p"
proof -
  let ?n = "min (length p) (length x)"
  consider (gt) "take ?n x < take ?n p" | (lt) "take ?n p < take ?n x" | (eq) "take ?n x = take ?n p" by (rule linorder_cases)
  then show ?thesis
  proof cases
    case gt
    have "x < take ?n p @ drop ?n p" by (rule take_less [of _ ?n]) (use gt in auto)
    then have "x < p" by simp
    then show ?thesis using gt by (simp add: lex_ge_def Let_def less_imp_le)
  next
    case lt
    have "take ?n p @ drop ?n p < x" by (rule less_take [of _ ?n]) (use lt in auto)
    then have "p < x" by simp
    then show ?thesis using lt order.asym [OF lt] by (simp add: lex_ge_def Let_def leD)
  next
    case eq
    have "x \<le> p \<longleftrightarrow> take ?n x @ drop ?n x \<le> take ?n p @ drop ?n p" by (simp only: append_take_drop_id)
    also have "\<dots> \<longleftrightarrow> drop ?n x \<le> drop ?n p" by (simp only: eq append_le)
    also have "\<dots> \<longleftrightarrow> length x \<le> length p"
    proof (cases "length x \<le> length p")
      case True
      then show ?thesis by simp
    next
      case False
      then have "drop ?n p = []" "drop ?n x \<noteq> []" by auto
      then show ?thesis using False by (cases "drop ?n x") auto
    qed
    finally show ?thesis using eq by (simp add: lex_ge_def Let_def)
  qed
qed

lemma below_prefix_walks: "walks P M (g p x) (finds P (shifted p m) x) \<Longrightarrow> walks P M (below_prefix g p x) (finds P (shifted p m) x)"
proof (cases "prefix_range_all_less p x")
  case True
  have "k < x" if k: "shifted p m k \<noteq> None" for k
  proof -
    obtain k' where "k = p @ k'" using shifted_key [OF k] by blast
    then show ?thesis using all_less [OF True] by simp
  qed
  then show ?thesis using True by (simp add: below_prefix_def)
qed (simp add: below_prefix_def)

section \<open>The slots of a branch\<close>

definition from_slot :: "trie option list \<Rightarrow> nat \<Rightarrow> nibs \<rightharpoonup> trie option list" where
  "from_slot ts s q = (case q of [] \<Rightarrow> None
     | a # q' \<Rightarrow> if s \<le> unat a \<and> unat a < 16 then Option.bind (ts ! unat a) (\<lambda>u. branch_at u q') else None)"

lemma from_slot_simps [simp]: "from_slot ts s [] = None"
  "from_slot ts s (a # q) = (if s \<le> unat a \<and> unat a < 16 then Option.bind (ts ! unat a) (\<lambda>u. branch_at u q) else None)"
  by (simp_all add: from_slot_def)

lemma from_slot_skip: "s < 16 \<Longrightarrow> ts ! s = None \<Longrightarrow> from_slot ts s = from_slot ts (Suc s)"
proof
  fix q
  assume "s < 16" "ts ! s = None"
  then show "from_slot ts s q = from_slot ts (Suc s) q" by (cases q) (auto simp: Suc_le_eq le_less)
qed

text \<open>The keys of a slot: those of its child come before those of the later slots.\<close>

lemma from_slot_split:
  assumes "s < 16" and "ts ! s = Some u"
  shows "from_slot ts s k = (case shifted [word_of_nat s] (branch_at u) k of Some v \<Rightarrow> Some v | None \<Rightarrow> from_slot ts (Suc s) k)"
proof (cases k)
  case (Cons a q)
  have w: "unat (word_of_nat s :: byte) = s" using assms(1) by (simp add: unat_of_nat)
  show ?thesis
  proof (cases "a = word_of_nat s")
    case True
    then show ?thesis using Cons assms w by (simp add: shifted_def split: option.splits)
  next
    case False
    then have "unat a \<noteq> s" by auto
    then show ?thesis using Cons False by (auto simp: shifted_def)
  qed
qed (simp add: shifted_def)

lemma slot_order: "s < 16 \<Longrightarrow> from_slot ts (Suc s) k \<noteq> None \<Longrightarrow> word_of_nat s # q < k"
proof (cases k)
  case (Cons a r)
  assume s: "s < 16" "from_slot ts (Suc s) k \<noteq> None"
  then have "Suc s \<le> unat a" using Cons by (auto split: if_splits)
  then have "(word_of_nat s :: byte) < a" using s(1) by (simp add: word_less_nat_alt unat_of_nat)
  then show ?thesis using Cons by simp
qed simp

lemma try_branches_walks:
  assumes L: "length fs = 16" "length ts = 16"
    and C: "\<And>i. i < 16 \<Longrightarrow> (case ts ! i of None \<Rightarrow> fs ! i = None
      | Some u \<Rightarrow> \<exists>g. fs ! i = Some g \<and> walks P M (g (q @ [word_of_nat i]) x) (finds P (shifted (q @ [word_of_nat i]) (branch_at u)) x))"
  shows "s \<le> 16 \<Longrightarrow> walks P M (try_branches fs [s..<16] q x) (finds P (shifted q (from_slot ts s)) x)"
proof (induction "16 - s" arbitrary: s)
  case 0
  then have s: "s = 16" by simp
  have "from_slot ts 16 k = None" for k by (cases k) auto
  then show ?case using s by (simp add: shifted_def)
next
  case (Suc d)
  then have s: "s < 16" by simp
  then have up: "[s..<16] = s # [Suc s..<16]" by (simp add: upt_conv_Cons)
  have rest: "walks P M (try_branches fs [Suc s..<16] q x) (finds P (shifted q (from_slot ts (Suc s))) x)"
    using Suc.hyps(1) [of "Suc s"] Suc.hyps(2) s by simp
  show ?case
  proof (cases "ts ! s")
    case None
    then have "fs ! s = None" using C [OF s] by simp
    then show ?thesis using rest L s from_slot_skip [OF s None] by (simp add: up index_def)
  next
    case (Some u)
    then obtain g where g: "fs ! s = Some g" "walks P M (g (q @ [word_of_nat s]) x) (finds P (shifted (q @ [word_of_nat s]) (branch_at u)) x)"
      using C [OF s] by auto
    let ?c = "shifted (q @ [word_of_nat s]) (branch_at u)" and ?m = "shifted q (from_slot ts s)" and ?r = "shifted q (from_slot ts (Suc s))"
    have split: "?m k = (case ?c k of Some v \<Rightarrow> Some v | None \<Rightarrow> ?r k)" for k
      using from_slot_split [OF s Some, of "drop (length q) k"] by (auto simp: shifted_append shifted_def split: option.splits)
    have order: "k < k'" if kk: "?c k \<noteq> None" "?r k' \<noteq> None" for k k'
    proof -
      obtain a where a: "k = (q @ [word_of_nat s]) @ a" using shifted_key [OF kk(1)] by blast
      obtain b where b: "k' = q @ b" "from_slot ts (Suc s) b \<noteq> None" using shifted_key [OF kk(2)] by blast
      show ?thesis using slot_order [OF s b(2), of a] a b(1) by simp
    qed
    have "walks P M (if out \<noteq> None then cret out else try_branches fs [Suc s..<16] q x) (finds P ?m x)"
      if out: "finds P ?c x out" for out
    proof (cases out)
      case None
      then have low: "?c k \<noteq> None \<Longrightarrow> k < x" for k using out by simp
      have "finds P ?m x o'" if o': "finds P ?r x o'" for o'
      proof (cases o')
        case None
        then show ?thesis using o' low split by (auto split: option.splits)
      next
        case e: (Some e)
        then obtain ts' where t: "?r (tn_path e) = Some ts'" "entry_shows P ts' e" "x \<le> tn_path e" "\<And>k. ?r k \<noteq> None \<Longrightarrow> x \<le> k \<Longrightarrow> tn_path e \<le> k"
          using o' by auto
        have "?c (tn_path e) = None" using low [of "tn_path e"] t(3) by (cases "?c (tn_path e)") auto
        then have "?m (tn_path e) = Some ts'" using split t(1) by simp
        moreover have "tn_path e \<le> k" if k: "?m k \<noteq> None" "x \<le> k" for k
        proof -
          have "?c k = None" using low [of k] k(2) by (cases "?c k") auto
          then show ?thesis using t(4) [of k] k split by simp
        qed
        ultimately show ?thesis using e t(2,3) by auto
      qed
      then show ?thesis using None by (simp add: walks_mono [OF rest])
    next
      case e: (Some e)
      then obtain ts' where t: "?c (tn_path e) = Some ts'" "entry_shows P ts' e" "x \<le> tn_path e" "\<And>k. ?c k \<noteq> None \<Longrightarrow> x \<le> k \<Longrightarrow> tn_path e \<le> k"
        using out by auto
      have "?m (tn_path e) = Some ts'" using split t(1) by simp
      moreover have "tn_path e \<le> k" if k: "?m k \<noteq> None" "x \<le> k" for k
      proof (cases "?c k")
        case None
        then have "?r k \<noteq> None" using k(1) split by simp
        then show ?thesis using order [of "tn_path e" k] t(1) by simp
      next
        case (Some v)
        then show ?thesis using t(4) [of k] k(2) by simp
      qed
      ultimately have "finds P ?m x out" using e t(2,3) by auto
      then show ?thesis using e by simp
    qed
    then have "walks P M (cbind (below_prefix g (q @ [word_of_nat s]) x) (\<lambda>out. if out \<noteq> None then cret out else try_branches fs [Suc s..<16] q x)) (finds P ?m x)"
      by (rule walks_bind [OF below_prefix_walks [where g = g, OF g(2)]])
    then show ?thesis using g(1) L s by (simp add: up index_def)
  qed
qed

lemma branch_here_walks:
  assumes L: "length fs = 16" "length ts = 16"
    and E: "walks P M entry (\<lambda>e. entry_shows P ts e \<and> tn_path e = q)"
    and C: "\<And>i. i < 16 \<Longrightarrow> (case ts ! i of None \<Rightarrow> fs ! i = None
      | Some u \<Rightarrow> \<exists>g. fs ! i = Some g \<and> walks P M (g (q @ [word_of_nat i]) x) (finds P (shifted (q @ [word_of_nat i]) (branch_at u)) x))"
  shows "walks P M (branch_here entry fs q x) (finds P (shifted q (branch_at (TBranch ts))) x)"
proof -
  have eq: "branch_at (TBranch ts) k = (if k = [] then Some ts else from_slot ts 0 k)" for k
    using L(2) by (cases k) auto
  show ?thesis
  proof (cases "x \<le> q")
    case True
    have "q \<le> k" if k: "shifted q (branch_at (TBranch ts)) k \<noteq> None" for k
    proof -
      obtain k' where "k = q @ k'" using shifted_key [OF k] by blast
      then show ?thesis using append_le [of q "[]" k'] by simp
    qed
    moreover have "shifted q (branch_at (TBranch ts)) q = Some ts" using shifted_at [of q "branch_at (TBranch ts)" "[]"] by simp
    ultimately have "finds P (shifted q (branch_at (TBranch ts))) x (Some e)" if "entry_shows P ts e \<and> tn_path e = q" for e
      using that True by auto
    then show ?thesis using True lex_ge_le [of q x] by (simp add: branch_here_def walks_bind [OF E])
  next
    case False
    then have q: "q < x" by simp
    have same: "shifted q (branch_at (TBranch ts)) k = shifted q (from_slot ts 0) k" if "x \<le> k" for k
    proof -
      have "drop (length q) k \<noteq> []" if "take (length q) k = q" using that q \<open>x \<le> k\<close> by (metis append_Nil2 append_take_drop_id leD)
      then show ?thesis by (auto simp: shifted_def eq)
    qed
    have low: "shifted q (branch_at (TBranch ts)) k \<noteq> None \<longrightarrow> k < x" if "shifted q (from_slot ts 0) k \<noteq> None \<longrightarrow> k < x" for k
      using same [of k] that by (cases "x \<le> k") auto
    have "finds P (shifted q (branch_at (TBranch ts))) x out" if out: "finds P (shifted q (from_slot ts 0)) x out" for out
      using out same low by (cases out) auto
    then have "walks P M (try_branches fs [0..<16] q x) (finds P (shifted q (branch_at (TBranch ts))) x)"
      using walks_mono [OF try_branches_walks [OF L C, of 0]] by simp
    then show ?thesis using False lex_ge_le [of q x] by (simp add: branch_here_def)
  qed
qed

section \<open>The walks\<close>

lemma node_branch_seek_walks:
  assumes K: "keccak_len P"
  shows "wf0 t r \<Longrightarrow> r \<le> 64 \<Longrightarrow> repr P n t \<Longrightarrow> get_fuel n r \<le> fuel \<Longrightarrow>
    walks P M (node_branch_seek P f fuel n q x) (finds P (shifted q (branch_at t)) x)"
proof (induction fuel arbitrary: t r q n)
  case 0
  then show ?case by (simp add: get_fuel_def split: if_splits)
next
  case (Suc fu)
  show ?case
  proof (cases n)
    case (Raw buf off len nref)
    then have "wf t r" using Suc.prems by (cases t) (auto simp: wf0_def)
    then obtain n' where n': "parse_node_lazy P buf off len = Ok n'" "repr P n' t" "\<not> is_raw n'"
      using parse_node_lazy_raw [of P buf off len nref t r] K Suc.prems Raw by auto
    then show ?thesis using Suc.IH [OF Suc.prems(1,2) n'(2)] Suc.prems(4) Raw by (simp add: get_fuel_def node_branch_seek.simps)
  next
    case (Extension p c rf)
    then obtain u where u: "t = TExt p u" "repr P c u" using Suc.prems by auto
    then have w: "p \<noteq> []" "length p < r" "wf0 u (r - length p)" "r - length p \<le> 64" using Suc.prems by (auto simp: wf0_def)
    then have fu: "get_fuel c (r - length p) \<le> fu"
      using Suc.prems(4) Extension by (cases p) (auto simp: get_fuel_def split: if_splits)
    have "walks P M (below_prefix (node_branch_seek P f fu c) (q @ p) x) (finds P (shifted (q @ p) (branch_at u)) x)"
      by (rule below_prefix_walks, rule Suc.IH [OF w(3,4) u(2) fu])
    then show ?thesis using u(1) Extension branch_at_ext [OF w(1), of u] by (simp add: node_branch_seek.simps shifted_append)
  next
    case (Branch cs rf)
    then obtain ts where ts: "t = TBranch ts" "list_all2 (rel_option (repr P)) cs ts" using Suc.prems by auto
    then have w: "wf (TBranch ts) r" "length ts = 16" "length cs = 16" "0 < r" using Suc.prems(1) by (auto simp: wf0_def list_all2_lengthD)
    have child: "case ts ! i of None \<Rightarrow> cs ! i = None | Some u \<Rightarrow> \<exists>c. cs ! i = Some c \<and> repr P c u \<and> wf u (r - 1)" if i: "i < 16" for i
    proof (cases "ts ! i")
      case None
      then show ?thesis using repr_branch_child [OF ts(2), of i] i w by simp
    next
      case (Some u)
      then have "Some u \<in> set ts" using i w by (metis nth_mem)
      then show ?thesis using repr_branch_child [OF ts(2), of i] i w Some by (auto simp: option_rel_Some2)
    qed
    have r: "r - 1 \<le> 64" using Suc.prems(2) by simp
    have "walks P M (branch_here (build_branch_entry (classify_node_child P f REC_FUEL) q cs) (map (map_option (node_branch_seek P f fu)) cs) q x)
        (finds P (shifted q (branch_at (TBranch ts))) x)"
    proof (rule branch_here_walks [OF _ w(2)])
      show "walks P M (build_branch_entry (classify_node_child P f REC_FUEL) q cs) (\<lambda>e. entry_shows P ts e \<and> tn_path e = q)"
      proof (rule build_branch_entry_walks [OF w(3,2)])
        show "case ts ! i of None \<Rightarrow> cs ! i = None | Some u \<Rightarrow> \<exists>c. cs ! i = Some c \<and> walks P M (classify_node_child P f REC_FUEL c) (child_shows P u)"
          if "i < 16" for i using child [OF that] classify_walks [OF K _ _ r] by (auto split: option.splits)
      qed
      show "case ts ! i of None \<Rightarrow> map (map_option (node_branch_seek P f fu)) cs ! i = None
        | Some u \<Rightarrow> \<exists>g. map (map_option (node_branch_seek P f fu)) cs ! i = Some g \<and>
            walks P M (g (q @ [word_of_nat i]) x) (finds P (shifted (q @ [word_of_nat i]) (branch_at u)) x)" if i: "i < 16" for i
      proof (cases "ts ! i")
        case None
        then show ?thesis using child [OF i] i w by simp
      next
        case (Some u)
        then obtain c where c: "cs ! i = Some c" "repr P c u" "wf0 u (r - 1)" using child [OF i] by (auto simp: wf0_def)
        have "get_fuel c (r - 1) \<le> fu" using Suc.prems(4) Branch w by (cases r) (auto simp: get_fuel_def)
        from Suc.IH [OF c(3) r c(2) this] show ?thesis using Some c(1) i w by simp
      qed
    qed (use w in simp)
    then show ?thesis using Branch ts(1) by (simp add: node_branch_seek.simps)
  qed (use Suc.prems in \<open>auto simp: node_branch_seek.simps shifted_def\<close>)
qed

lemma record_branch_walks:
  assumes "keccak_len P" and "wf t r" and "r \<le> 64" and "repr P n t" and "\<not> is_raw n"
  shows "walks P M (node_branch_seek P f REC_FUEL n q x) (finds P (shifted q (branch_at t)) x)"
  using node_branch_seek_walks [OF assms(1) _ assms(3,4), of REC_FUEL M f q x] assms by (simp add: wf0_def get_fuel_def REC_FUEL_def)

lemma ram_branch_seek_walks:
  assumes K: "keccak_len P" and F: "readable f M" "one_record M"
  shows "frep P M n pre t \<Longrightarrow> wfb t r \<Longrightarrow> placed pre t r \<Longrightarrow> mem_ok n \<Longrightarrow> hashed P t \<Longrightarrow>
      walks P M (ram_branch_seek P f n q x) (finds P (shifted q (branch_at t)) x)"
    and "crep P M c pre t \<Longrightarrow> wf t r \<Longrightarrow> placed pre t r \<Longrightarrow> mem_ok_child c \<Longrightarrow> hashed P t \<Longrightarrow>
      walks P M (ram_child_branch_seek P f c q x) (finds P (shifted q (branch_at t)) x)"
proof (induction n and c arbitrary: pre t r q and pre t r q)
  case REmpty
  then show ?case by (simp add: shifted_def)
next
  case (RExtension p n h)
  then obtain u where u: "t = TExt p u" "frep P M n (pre @ p) u" by auto
  have w: "wf t r" using RExtension.prems(2) u by simp
  then have p: "p \<noteq> []" using u(1) by auto
  note pl = placed_ext [OF RExtension.prems(3) [unfolded u(1)] w [unfolded u(1)]]
  have m: "mem_ok n" "hashed P u" using RExtension.prems(4,5) u(1) by auto
  have "walks P M (below_prefix (ram_branch_seek P f n) (q @ p) x) (finds P (shifted (q @ p) (branch_at u)) x)"
    by (rule below_prefix_walks, rule RExtension.IH [OF u(2) wf_wfb [OF pl(2)] pl(1) m])
  then show ?case using u(1) branch_at_ext [OF p, of u] by (simp add: shifted_append)
next
  case (RBranch cs h)
  then obtain ts where ts: "t = TBranch ts" "length cs = 16" "length ts = 16"
    "\<And>i. i < 16 \<Longrightarrow> rel_option (\<lambda>c u. crep P M c (pre @ [word_of_nat i]) u) (cs ! i) (ts ! i)"
    unfolding frep_RBranch by auto
  have child: "\<exists>u. ts ! i = Some u \<and> crep P M c (pre @ [word_of_nat i]) u \<and> Some c \<in> set cs \<and> wf u (r - 1) \<and> placed (pre @ [word_of_nat i]) u (r - 1) \<and>
      mem_ok_child c \<and> hashed P u \<and> tref P u = NHash (troot P u)" if i: "i < 16" "cs ! i = Some c" for i c
  proof -
    from frep_slot [OF ts(4,2,3) i] obtain u where
      u: "ts ! i = Some u" "crep P M c (pre @ [word_of_nat i]) u" "Some u \<in> set ts" "Some c \<in> set cs" .
    note pl = placed_child [OF RBranch.prems(3,2) [unfolded ts(1)] i(1) u(3)]
    have "mem_ok_child c" "hashed P u" "tref P u = NHash (troot P u)" using RBranch.prems(4,5) u(3,4) ts(1) by auto
    then show ?thesis using u pl by blast
  qed
  have none: "ts ! i = None \<Longrightarrow> cs ! i = None" if "i < 16" for i using ts(4) [OF that] by simp
  have some: "ts ! i = Some u \<Longrightarrow> \<exists>c. cs ! i = Some c" if "i < 16" for i u using ts(4) [OF that] by (auto simp: option_rel_Some2)
  have "walks P M (branch_here (build_branch_entry (classify_ram_child P f) q cs) (map (map_option (ram_child_branch_seek P f)) cs) q x)
      (finds P (shifted q (branch_at (TBranch ts))) x)"
  proof (rule branch_here_walks [OF _ ts(3)])
    show "walks P M (build_branch_entry (classify_ram_child P f) q cs) (\<lambda>e. entry_shows P ts e \<and> tn_path e = q)"
    proof (rule build_branch_entry_walks [OF ts(2,3)])
      fix i :: nat
      assume i: "i < 16"
      show "case ts ! i of None \<Rightarrow> cs ! i = None | Some u \<Rightarrow> \<exists>c. cs ! i = Some c \<and> walks P M (classify_ram_child P f c) (child_shows P u)"
      proof (cases "ts ! i")
        case None
        then show ?thesis using none [OF i] by simp
      next
        case (Some u)
        then obtain c where c: "cs ! i = Some c" using some [OF i] by blast
        then show ?thesis using child [OF i c] classify_ram_walks [OF K F, of c "pre @ [word_of_nat i]" u "r - 1"] Some by auto
      qed
    qed
    fix i :: nat
    assume i: "i < 16"
    show "case ts ! i of None \<Rightarrow> map (map_option (ram_child_branch_seek P f)) cs ! i = None
      | Some u \<Rightarrow> \<exists>g. map (map_option (ram_child_branch_seek P f)) cs ! i = Some g \<and>
          walks P M (g (q @ [word_of_nat i]) x) (finds P (shifted (q @ [word_of_nat i]) (branch_at u)) x)"
    proof (cases "ts ! i")
      case None
      then show ?thesis using none [OF i] ts(2) i by simp
    next
      case (Some u)
      then obtain c where c: "cs ! i = Some c" using some [OF i] by blast
      have a: "crep P M c (pre @ [word_of_nat i]) u" "Some c \<in> set cs" "wf u (r - 1)" "placed (pre @ [word_of_nat i]) u (r - 1)"
        "mem_ok_child c" "hashed P u" using child [OF i c] Some by auto
      have "walks P M (ram_child_branch_seek P f c (q @ [word_of_nat i]) x) (finds P (shifted (q @ [word_of_nat i]) (branch_at u)) x)"
        using RBranch.IH [of "Some c" c, OF a(2) _ a(1,3-6)] by simp
      then show ?thesis using Some c ts(2) i by simp
    qed
  qed (use ts(2) in simp)
  then show ?case using ts(1) by simp
next
  case (RDisk ptr root)
  have m: "M ptr = Some (nib_path pre @ enc P t)" using RDisk.prems(1) by simp
  obtain n where n: "read_lazy P f ptr = Ok \<lparr>ds_prefix = pre, ds_node = n\<rparr>" "repr P n t" "\<not> is_raw n"
    using disk_read [OF K RDisk.prems(2) placed_depth(3) [OF RDisk.prems(3)] F(1) RDisk.prems(1)] by blast
  have d: "deserialize_subtree_lazy P (nib_path pre @ enc P t) = Ok \<lparr>ds_prefix = pre, ds_node = n\<rparr>"
    using n(1) read_lazy_rel [OF F(1) m] by simp
  show ?case unfolding ram_child_branch_seek.simps
    by (rule walks_bind [OF memo_read_walks [OF F m d]]) (use record_branch_walks [OF K RDisk.prems(2) placed_depth(2) [OF RDisk.prems(3)] n(2,3)] in simp)
next
  case (RMem bs root)
  obtain n where n: "parse_payload_lazy P bs = Ok \<lparr>ds_prefix = pre, ds_node = n\<rparr>" "repr P n t" "\<not> is_raw n"
    using mem_read [OF K RMem.prems(2) placed_depth(3) [OF RMem.prems(3)] RMem.prems(1,4)] by blast
  then show ?case using record_branch_walks [OF K RMem.prems(2) placed_depth(2) [OF RMem.prems(3)] n(2,3)] by simp
next
  case (RAccount p n b c st)
  then show ?case by (auto simp: shifted_def)
next
  case (RRam n)
  then show ?case using RRam.IH [OF _ wf_wfb [OF RRam.prems(2)] RRam.prems(3)] by simp
qed

end
