(* ===== verification/BranchCursorSpec.thy ===== *)
theory BranchCursorSpec
  imports BranchCursorProofs CursorSpec
begin

text \<open>
  What the branch cursors promise over the live database and over snapshots.
\<close>

section \<open>Forks\<close>

text \<open>In terms of the contents alone: a position where two keys part.\<close>

definition forks :: "(nibs \<rightharpoonup> 'v) \<Rightarrow> nibs \<Rightarrow> bool" where
  "forks m q = (\<exists>a b k k'. a \<noteq> b \<and> m (q @ a # k) \<noteq> None \<and> m (q @ b # k') \<noteq> None)"

lemma wf_has_key: "wf t r \<Longrightarrow> \<exists>k. tlook t k \<noteq> None"
proof (induction t arbitrary: r)
  case (TExt p u)
  then have "wf u (r - length p)" by simp
  then obtain k where "tlook u k \<noteq> None" using TExt.IH by blast
  then show ?case by (intro exI [of _ "p @ k"]) simp
next
  case (TBranch ts)
  then have "somes ts \<noteq> []" by auto
  then obtain u where u: "Some u \<in> set ts" by (metis set_somes list.set_intros(1) mem_Collect_eq neq_Nil_conv)
  then obtain i where i: "i < 16" "ts ! i = Some u" using TBranch.prems by (auto simp: in_set_conv_nth)
  have w: "wf u (r - 1)" using TBranch.prems u by simp
  have "\<exists>k. tlook u k \<noteq> None" by (rule TBranch.IH [OF u _ w]) simp
  then obtain k where "tlook u k \<noteq> None" by blast
  then show ?case using i TBranch.prems by (intro exI [of _ "word_of_nat i # k"]) (simp add: unat_of_nat)
qed auto

lemma two_slots:
  assumes "2 \<le> length (somes ts)"
  obtains i j u v where "i < j" and "j < length ts" and "ts ! i = Some u" and "ts ! j = Some v"
proof -
  have "\<exists>i j u v. i < j \<and> j < length ts \<and> ts ! i = Some u \<and> ts ! j = Some v" using assms
  proof (induction ts)
    case (Cons t ts)
    show ?case
    proof (cases t)
      case None
      then obtain i j u v where "i < j" "j < length ts" "ts ! i = Some u" "ts ! j = Some v" using Cons by auto
      then show ?thesis by (intro exI [of _ "Suc i"] exI [of _ "Suc j"]) auto
    next
      case (Some u)
      then have "somes ts \<noteq> []" using Cons.prems by auto
      then obtain v where "Some v \<in> set ts" by (metis set_somes list.set_intros(1) mem_Collect_eq neq_Nil_conv)
      then obtain j where "j < length ts" "ts ! j = Some v" by (auto simp: in_set_conv_nth)
      then show ?thesis using Some by (intro exI [of _ 0] exI [of _ "Suc j"]) auto
    qed
  qed simp
  then show thesis using that by blast
qed

lemma forks_shift: "forks m (p @ q) = forks (\<lambda>k. m (p @ k)) q"
  by (simp add: forks_def)

lemma wf_forks: "wf t r \<Longrightarrow> branch_at t q \<noteq> None \<longleftrightarrow> forks (tlook t) q"
proof (induction t arbitrary: r q)
  case (TExt p u)
  then have w: "p \<noteq> []" "wf u (r - length p)" by auto
  have key: "tlook (TExt p u) k \<noteq> None \<Longrightarrow> \<exists>k'. k = p @ k'" for k by (metis append_take_drop_id tlook.simps(3))
  show ?case
  proof (cases "take (length p) q = p")
    case True
    then obtain q' where "q = p @ q'" by (metis append_take_drop_id)
    then show ?thesis using TExt.IH [OF w(2), of q'] w(1) by (simp add: branch_at_ext forks_shift)
  next
    case False
    have "\<not> forks (tlook (TExt p u)) q"
    proof
      assume "forks (tlook (TExt p u)) q"
      then obtain a b k k' where k: "a \<noteq> b" "tlook (TExt p u) (q @ a # k) \<noteq> None" "tlook (TExt p u) (q @ b # k') \<noteq> None"
        unfolding forks_def by blast
      obtain x where x: "q @ a # k = p @ x" using key [OF k(2)] by blast
      obtain y where y: "q @ b # k' = p @ y" using key [OF k(3)] by blast
      have "length q < length p"
      proof (rule ccontr)
        assume "\<not> length q < length p"
        then have "take (length p) q = take (length p) (q @ a # k)" by simp
        then show False using x False by simp
      qed
      then have "a = p ! length q" "b = p ! length q" using x y by (metis nth_append nth_append_length)+
      then show False using k(1) by simp
    qed
    then show ?thesis using False w(1) by (simp add: branch_at_ext shifted_def)
  qed
next
  case (TBranch ts)
  show ?case
  proof (cases q)
    case Nil
    have two: "2 \<le> length (somes ts)" using TBranch.prems by simp
    from two_slots [OF two] obtain i j u v where ij: "i < j" "j < length ts" "ts ! i = Some u" "ts ! j = Some v" .
    then have "Some u \<in> set ts" "Some v \<in> set ts" by (metis nth_mem order.strict_trans)+
    then obtain k k' where "tlook u k \<noteq> None" "tlook v k' \<noteq> None" using TBranch.prems wf_has_key by (metis wf_TBranch)
    moreover have "unat (word_of_nat i :: byte) = i" "unat (word_of_nat j :: byte) = j" using ij TBranch.prems by (simp_all add: unat_of_nat)
    moreover from this ij(1) have "(word_of_nat i :: byte) \<noteq> word_of_nat j" by (metis less_irrefl)
    ultimately have "forks (tlook (TBranch ts)) []" unfolding forks_def using ij
      by (intro exI [of _ "word_of_nat i"] exI [of _ "word_of_nat j"] exI [of _ k] exI [of _ k']) simp
    then show ?thesis using Nil by simp
  next
    case (Cons x q')
    show ?thesis
    proof (cases "unat x < length ts \<and> ts ! unat x \<noteq> None")
      case True
      then obtain u where u: "unat x < length ts" "ts ! unat x = Some u" by auto
      then have m: "Some u \<in> set ts" by (metis nth_mem)
      then have "wf u (r - 1)" using TBranch.prems by simp
      then show ?thesis using TBranch.IH [of "Some u" u, OF m] u Cons by (simp add: forks_def)
    next
      case False
      then show ?thesis using Cons by (auto simp: forks_def)
    qed
  qed
qed (auto simp: forks_def)

lemma wfb_forks: "wfb t r \<Longrightarrow> q \<noteq> [] \<Longrightarrow> branch_at t q \<noteq> None \<longleftrightarrow> forks (tlook t) q"
proof (cases "\<exists>ts. t = TBranch ts")
  case True
  assume w: "wfb t r" "q \<noteq> []"
  obtain ts x q' where t: "t = TBranch ts" "q = x # q'" using True w(2) by (cases q) auto
  show ?thesis
  proof (cases "unat x < length ts \<and> ts ! unat x \<noteq> None")
    case True
    then obtain u where u: "unat x < length ts" "ts ! unat x = Some u" by auto
    then have "Some u \<in> set ts" by (metis nth_mem)
    then have "wf u (r - 1)" using w(1) t(1) by simp
    then show ?thesis using wf_forks [of u "r - 1" q'] u t by (simp add: forks_def)
  next
    case False
    then show ?thesis using t by (auto simp: forks_def)
  qed
next
  case False
  assume w: "wfb t r"
  show ?thesis
  proof (cases "t = TEmpty")
    case True
    then show ?thesis by (simp add: forks_def)
  next
    case ne: False
    then have "wf t r" using w False by (cases t) (auto simp: wfb_def)
    then show ?thesis by (rule wf_forks)
  qed
qed

section \<open>Seeking\<close>

text \<open>The branches a cursor returns: the root branch is left out.\<close>

definition nonroot :: "(nibs \<rightharpoonup> 'v) \<Rightarrow> nibs \<rightharpoonup> 'v" where
  "nonroot m q = (if q = [] then None else m q)"

lemma zero_least: "[0] \<le> (k :: nibs) \<longleftrightarrow> k \<noteq> []"
  by (cases k) (auto simp: word_gt_0)

lemma skip_root_finds: "finds P m (skip_root path) r \<Longrightarrow> finds P (nonroot m) path r"
proof (cases "path = []")
  case True
  assume r: "finds P m (skip_root path) r"
  then have r: "finds P m [0] r" using True by (simp add: skip_root_def)
  have none: "m k = None" if "\<And>k. m k \<noteq> None \<Longrightarrow> k < [0]" "k \<noteq> []" for k
    using that(1) [of k] that(2) zero_least [of k] by (cases "m k") (auto simp: leD)
  show ?thesis
  proof (cases r)
    case None
    then have "nonroot m k = None" for k using r none by (auto simp: nonroot_def)
    then show ?thesis using None by simp
  next
    case (Some e)
    then show ?thesis using r zero_least True by (auto simp: nonroot_def)
  qed
next
  case False
  assume r: "finds P m (skip_root path) r"
  then have r: "finds P m path r" using False by (simp add: skip_root_def)
  have e: "[] < path" using False by (cases path) auto
  show ?thesis
  proof (cases r)
    case None
    then show ?thesis using r by (auto simp: nonroot_def)
  next
    case (Some x)
    then have "tn_path x \<noteq> []" using r False by auto
    then show ?thesis using r Some by (auto simp: nonroot_def)
  qed
qed

definition finds_above :: "prims \<Rightarrow> (nibs \<rightharpoonup> trie option list) \<Rightarrow> nibs \<Rightarrow> trie_node_entry option \<Rightarrow> bool" where
  "finds_above P m x out = (case out of
      None \<Rightarrow> (\<forall>k. m k \<noteq> None \<longrightarrow> k \<le> x)
    | Some e \<Rightarrow> (\<exists>ts. m (tn_path e) = Some ts \<and> entry_shows P ts e \<and> x < tn_path e \<and> (\<forall>k. m k \<noteq> None \<longrightarrow> x < k \<longrightarrow> tn_path e \<le> k)))"

lemma just_above: "x @ [0] \<le> (k :: nibs) \<longleftrightarrow> x < k"
proof (induction x arbitrary: k)
  case Nil
  show ?case by (cases k) (auto simp: word_gt_0)
next
  case (Cons a x)
  then show ?case by (cases k) simp_all
qed

lemma finds_just_above: "finds P m (x @ [0]) out = finds_above P m x out"
proof -
  have l: "k < x @ [0] \<longleftrightarrow> k \<le> x" for k :: nibs by (meson just_above not_le)
  show ?thesis by (cases out) (simp_all add: finds_above_def just_above l)
qed

definition branch_cursor_ok :: "prims \<Rightarrow> (disk_ptr \<rightharpoonup> bytes) \<Rightarrow> ram_node \<Rightarrow> 'a branch_cursor_scheme \<Rightarrow> bool" where
  "branch_cursor_ok P M upper cu = (bc_upper cu = upper \<and> memo_ok P M (bc_memo cu))"

lemma trie_node_seek_finds:
  assumes W: "walkable P f M upper t" and C: "branch_cursor_ok P M upper cu"
  shows "\<exists>r cu'. trie_node_seek P f cu path = (Ok r, cu') \<and> branch_cursor_ok P M upper cu' \<and> bc_last cu' = map_option tn_path r \<and>
    finds P (nonroot (branch_at t)) path r"
proof -
  have "walks P M (ram_branch_seek P f upper [] (skip_root path)) (finds P (shifted [] (branch_at t)) (skip_root path))"
    using ram_branch_seek_walks(1) [of P f M upper "[]" t 64 "[]" "skip_root path"] W by (simp add: walkable_def)
  then obtain r m where s: "ram_branch_seek P f upper [] (skip_root path) (bc_memo cu) = (Ok r, m)" "memo_ok P M m"
    "finds P (branch_at t) (skip_root path) r"
    using C unfolding walks_def branch_cursor_ok_def by fastforce
  then show ?thesis using C skip_root_finds [OF s(3)] by (simp add: trie_node_seek_def branch_cursor_ok_def)
qed

lemma trie_node_next_finds:
  assumes W: "walkable P f M upper t" and C: "branch_cursor_ok P M upper cu"
  shows "\<exists>r cu'. trie_node_next P f cu = (Ok r, cu') \<and> branch_cursor_ok P M upper cu' \<and>
    (case bc_last cu of None \<Rightarrow> r = None | Some prev \<Rightarrow> finds_above P (nonroot (branch_at t)) prev r)"
proof (cases "bc_last cu")
  case None
  then show ?thesis using C by (simp add: trie_node_next_def)
next
  case (Some prev)
  then show ?thesis using trie_node_seek_finds [OF W C, of "prev @ [0]"] by (auto simp: trie_node_next_def finds_just_above)
qed

definition storage_branch_walk :: "prims \<Rightarrow> flat_file \<Rightarrow> storage_ref option \<Rightarrow> nibs \<Rightarrow> trie_node_entry option cm" where
  "storage_branch_walk P f storage target = (case storage of
      None \<Rightarrow> cret None
    | Some (SrNode n) \<Rightarrow> node_branch_seek P f REC_FUEL n [] target
    | Some (SrRam n) \<Rightarrow> ram_branch_seek P f n [] target)"

text \<open>The storage trie of a leaf, if it has one.\<close>

definition storage_of :: "leaf option \<Rightarrow> trie" where
  "storage_of lo = (case lo of Some (LAcct n b c s) \<Rightarrow> s | _ \<Rightarrow> TEmpty)"

lemma storage_branch_walks:
  assumes K: "keccak_len P" and F: "readable f M" "one_record M" and S: "storage_rep P M lo out"
  shows "walks P M (storage_branch_walk P f out x) (finds P (branch_at (storage_of lo)) x)"
proof (cases "\<exists>n b c s. lo = Some (LAcct n b c s)")
  case False
  then have "out = None" "storage_of lo = TEmpty" using S by (auto simp: storage_rep_def storage_of_def split: option.splits leaf.splits)
  then show ?thesis by (simp add: storage_branch_walk_def)
next
  case True
  then obtain no b c s where lo: "lo = Some (LAcct no b c s)" by blast
  then obtain sref where sref: "wf0 s 64" "out = Some sref" "case sref of SrNode n \<Rightarrow> repr P n s
      | SrRam n \<Rightarrow> \<exists>pre. frep P M n pre s \<and> placed pre s 64 \<and> mem_ok n \<and> hashed P s"
    using S by (auto simp: storage_rep_def)
  have so: "storage_of lo = s" by (simp add: storage_of_def lo)
  show ?thesis
  proof (cases sref)
    case (SrNode n)
    then have n: "get_fuel n 64 \<le> REC_FUEL" "repr P n s" using sref(3) by (auto simp: get_fuel_def REC_FUEL_def)
    show ?thesis using node_branch_seek_walks [OF K sref(1) _ n(2,1), of M f "[]" x] sref(2) SrNode so by (simp add: storage_branch_walk_def)
  next
    case (SrRam n)
    then obtain pre where n: "frep P M n pre s" "placed pre s 64" "mem_ok n" "hashed P s" using sref(3) by auto
    have "wfb s 64" using sref(1) wf_wfb by (auto simp: wf0_def)
    from ram_branch_seek_walks(1) [OF K F n(1) this n(2-4), of "[]" x] show ?thesis using sref(2) SrRam so by (simp add: storage_branch_walk_def)
  qed
qed

lemma storage_trie_node_seek_finds:
  assumes W: "walkable P f M upper t" and C: "branch_cursor_ok P M upper cu" and a: "length (bc_account cu) = 32"
  shows "\<exists>r cu'. storage_trie_node_seek P f cu path = (Ok r, cu') \<and> branch_cursor_ok P M upper cu' \<and> bc_account cu' = bc_account cu \<and>
    finds P (nonroot (branch_at (storage_of (tlook t (key_nibbles (bc_account cu)))))) path r"
proof -
  let ?lo = "tlook t (key_nibbles (bc_account cu))"
  have w: "keccak_len P" "readable f M" "one_record M" using W by (auto simp: walkable_def)
  obtain out where out: "with_account_storage P f upper (key_nibbles (bc_account cu)) 0 = Ok out" "storage_rep P M ?lo out"
    using with_storage_rep(1) [OF w(1,2), of "key_nibbles (bc_account cu)" upper "[]" t 64] W a by (auto simp: walkable_def)
  obtain r m where s: "storage_branch_walk P f out (skip_root path) (bc_memo cu) = (Ok r, m)" "memo_ok P M m"
    "finds P (branch_at (storage_of ?lo)) (skip_root path) r"
    using storage_branch_walks [OF w out(2), of "skip_root path"] C unfolding walks_def branch_cursor_ok_def by blast
  have "storage_trie_node_seek P f cu path = (case storage_branch_walk P f out (skip_root path) (bc_memo cu) of
      (Err e, m) \<Rightarrow> (Err e, cu\<lparr>bc_memo := m\<rparr>) | (Ok out, m) \<Rightarrow> (Ok out, cu\<lparr>bc_memo := m, bc_last := map_option tn_path out\<rparr>))"
    using C out(1) by (simp add: storage_trie_node_seek_def storage_branch_walk_def branch_cursor_ok_def)
  then show ?thesis using s C skip_root_finds [OF s(3)] by (simp add: branch_cursor_ok_def)
qed

lemma storage_trie_node_next_finds:
  assumes W: "walkable P f M upper t" and C: "branch_cursor_ok P M upper cu" and a: "length (bc_account cu) = 32"
  shows "\<exists>r cu'. storage_trie_node_next P f cu = (Ok r, cu') \<and> branch_cursor_ok P M upper cu' \<and> bc_account cu' = bc_account cu \<and>
    (case bc_last cu of None \<Rightarrow> r = None
      | Some prev \<Rightarrow> finds_above P (nonroot (branch_at (storage_of (tlook t (key_nibbles (bc_account cu)))))) prev r)"
proof (cases "bc_last cu")
  case None
  then show ?thesis using C by (simp add: storage_trie_node_next_def)
next
  case (Some prev)
  then show ?thesis using storage_trie_node_seek_finds [OF W C a, of "prev @ [0]"] by (auto simp: storage_trie_node_next_def finds_just_above)
qed

section \<open>The guarantees\<close>

inductive branch_run :: "prims \<Rightarrow> flat_file \<Rightarrow> ram_node \<Rightarrow> branch_cursor \<Rightarrow> bool" for P f upper where
  br_open: "branch_run P f upper (trie_node_cursor upper)"
| br_seek: "branch_run P f upper cu \<Longrightarrow> trie_node_seek P f cu path = (r, cu') \<Longrightarrow> branch_run P f upper cu'"
| br_next: "branch_run P f upper cu \<Longrightarrow> trie_node_next P f cu = (r, cu') \<Longrightarrow> branch_run P f upper cu'"

inductive slot_branch_run :: "prims \<Rightarrow> flat_file \<Rightarrow> ram_node \<Rightarrow> bytes \<Rightarrow> slot_branch_cursor \<Rightarrow> bool" for P f upper account where
  sb_open: "slot_branch_run P f upper account (storage_trie_node_cursor upper account)"
| sb_seek: "slot_branch_run P f upper account cu \<Longrightarrow> storage_trie_node_seek P f cu path = (r, cu') \<Longrightarrow> slot_branch_run P f upper account cu'"
| sb_next: "slot_branch_run P f upper account cu \<Longrightarrow> storage_trie_node_next P f cu = (r, cu') \<Longrightarrow> slot_branch_run P f upper account cu'"

lemma branch_run_ok:
  assumes W: "walkable P f M upper t"
  shows "branch_run P f upper cu \<Longrightarrow> branch_cursor_ok P M upper cu"
proof (induction rule: branch_run.induct)
  case br_open
  then show ?case by (simp add: branch_cursor_ok_def trie_node_cursor_def memo_ok_def)
next
  case (br_seek cu path r cu')
  then show ?case using trie_node_seek_finds [OF W br_seek.IH, of path] by auto
next
  case (br_next cu r cu')
  then show ?case using trie_node_next_finds [OF W br_next.IH] by auto
qed

lemma slot_branch_run_ok:
  assumes W: "walkable P f M upper t" and a: "length account = 32"
  shows "slot_branch_run P f upper account cu \<Longrightarrow> branch_cursor_ok P M upper cu \<and> bc_account cu = account"
proof (induction rule: slot_branch_run.induct)
  case sb_open
  then show ?case by (simp add: branch_cursor_ok_def storage_trie_node_cursor_def memo_ok_def)
next
  case (sb_seek cu path r cu')
  then show ?case using storage_trie_node_seek_finds [OF W, of cu path] a by auto
next
  case (sb_next cu r cu')
  then show ?case using storage_trie_node_next_finds [OF W, of cu] a by auto
qed


text \<open>C20: The branch cursor of an account does the same over the storage trie of the account, wherever
  it lies; absent and opaque accounts have no branches.\<close>

theorem storage_branch_cursor_finds:
  assumes "keccak_len P" and "decode_typed P" and "rlp_keeps P" and "reads_back ser de" and "sys_hist P ser de s"
    and "view_of P s upper m" and "\<forall>k l. m k = Some l \<longrightarrow> wide P l" and "mem_ok upper"
    and "length account = 32" and "slot_branch_run P (sy_file s) upper account cu"
  shows "(\<exists>r cu'. storage_trie_node_seek P (sy_file s) cu path = (Ok r, cu') \<and>
      finds P (nonroot (branch_at (storage_of (m (key_nibbles account))))) path r) \<and>
    (\<exists>r cu'. storage_trie_node_next P (sy_file s) cu = (Ok r, cu') \<and>
      (case bc_last cu of None \<Rightarrow> r = None
        | Some prev \<Rightarrow> finds_above P (nonroot (branch_at (storage_of (m (key_nibbles account))))) prev r))"
proof -
  obtain M t where W: "walkable P (sy_file s) M upper t" "m = tlook t" using view_walkable [OF assms(1-8)] by blast
  have C: "branch_cursor_ok P M upper cu" "bc_account cu = account" using slot_branch_run_ok [OF W(1) assms(9,10)] by auto
  then have a: "length (bc_account cu) = 32" using assms(9) by simp
  show ?thesis
    using storage_trie_node_seek_finds [OF W(1) C(1) a, of path] storage_trie_node_next_finds [OF W(1) C(1) a] C(2) W(2) by fastforce
qed

section \<open>Witnesses\<close>

lemma one_key_no_forks: "\<not> forks [k0 \<mapsto> v] q"
  by (auto simp: forks_def split: if_splits)


theorem storage_branch_cursor_finds_witness:
  "\<exists>m s cu'. sys_hist demo (one_ser m) (one_de m) s \<and>
     storage_trie_node_seek demo (sy_file s) (storage_trie_node_cursor (db_upper (sy_db s)) demo_key3) [] = (Ok None, cu')"
proof -
  fix m
  obtain s where s: "sys_hist demo (one_ser m) (one_de m) s" "sy_ops s = [demo_put_slot]" "mem_ok (db_upper (sy_db s))" using demo_cursor_system by blast
  obtain r cu' where r: "storage_trie_node_seek demo (sy_file s) (storage_trie_node_cursor (db_upper (sy_db s)) demo_key3) [] = (Ok r, cu')"
    "finds demo (nonroot (branch_at (TLeaf (key_nibbles demo_key1) demo_value))) [] r"
    using storage_branch_cursor_finds [OF _ _ rlp_keeps_demo one_reads s(1) demo_view_of [OF s(2)] demo_put_wide s(3) _ sb_open, of demo_key3 "[]"]
    by (auto simp: demo_nibs storage_of_def demo_cursor_leaf_def)
  have "r = None" using r(2) by (cases r) (auto simp: nonroot_def)
  then show ?thesis using s(1) r(1) by blast
qed

end
