(* ===== verification/Spec2Isabelle.thy ===== *)
theory Spec2Isabelle
  imports RecordSpec StoreSpec FrontierSpec SystemSpec EthSpec BlockSpec CursorSpec RevealSpec BranchCursorSpec
begin

text \<open>
  \<^bold>\<open>Verification of mpt-flat-poc\<close>

  The program stores the Ethereum state trie in one flat file. The top of the
  trie is an in-memory \<^emph>\<open>frontier\<close>; below it hang \<^emph>\<open>records\<close>, subtrees serialized
  as one byte string each. A record that outgrows its bound is promoted: its top
  branch joins the frontier and its children become records. The record file is
  log-structured: records are appended to a head region and whole regions are
  recycled. The sources are \<^verbatim>\<open>src/src/eth.rs\<close> (Ethereum encoding and a reference
  root builder), \<^verbatim>\<open>src/src/lib.rs\<close> (the engine) and
  \<^verbatim>\<open>src/src/state.rs\<close> (a typed Ethereum state on top of it).

  \<^bold>\<open>Theories\<close>

  \<^descr> \<open>Prelude\<close>: results with error values (\<open>res\<close>: \<^verbatim>\<open>bail!\<close>, panics, I/O errors and
  fuel exhaustion are distinct values), byte strings, slices and optional slots.
  \<^descr> \<open>Eth\<close> models \<^verbatim>\<open>eth.rs\<close>. Keccak, the RLP primitives and the account codec are
  third-party code: they are the fields of the parameter \<open>prims\<close>, and what the
  code relies on is stated as \<open>keccak_len\<close>, \<open>decode_typed\<close>, \<open>rlp_empty\<close>,
  \<open>account_rt\<close> and \<open>rlp_keeps\<close>. \<open>Demo\<close> shows that they can hold together.
  \<^descr> \<open>Node\<close>, \<open>Codec\<close>, \<open>RecordOps\<close>: the \<^verbatim>\<open>Node\<close> tree with its cached references,
  the record writer with the eager and the lazy reader, and insert, delete and
  lookup inside one record.
  \<^descr> \<open>Trie\<close>, \<open>TrieRoot\<close>: the abstract specification, a canonical trie with its
  contents (\<open>tlook\<close>), update (\<open>tput\<close>, \<open>tdel\<close>) and reference (\<open>tref\<close>), which is
  shown to be what the reference builder computes from the contents.
  \<^descr> \<open>Repr\<close>, \<open>RecordProofs\<close>, \<open>RecordSpec\<close>: \<open>repr\<close> relates a node, parsed or not, to
  the trie it stands for; the operations on records refine the operations on
  tries, and writing and reading are inverse.
  \<^descr> \<open>Region\<close>, \<open>RegionProofs\<close>, \<open>Space\<close>: the region allocator, its step relation
  with a ghost state (live records, records of pinned snapshots, records of the
  last checkpoint), its invariant, and the contract \<open>space\<close> a client relies on.
  \<^descr> \<open>FlatFile\<close>, \<open>FlatProofs\<close>, \<open>StoreSpec\<close>: the record file. \<open>ff_rel\<close> relates it to
  the map of its live records; writing, freeing, pinning and checkpointing refine
  updates of that map, and the parallel batch writer equals the sequential one.
  \<^descr> \<open>Frontier\<close>: \<^verbatim>\<open>RamNode\<close>/\<^verbatim>\<open>RamChild\<close> and the database operations of
  \<^verbatim>\<open>FlatMpt\<close>, as functions that thread the record file (\<open>fm\<close>).
  \<^descr> \<open>FrontierRep\<close>, \<open>FrontierGet\<close>, \<open>FrontierPromote\<close>, \<open>FrontierInsert\<close>,
  \<open>FrontierDelete\<close>, \<open>FrontierDb\<close>, \<open>FrontierSpec\<close>: \<open>frep\<close> relates a frontier and
  the live records to the trie they stand for, with the ownership of the records;
  hashing, lookup, promotion, insert and delete are shown correct for it, and
  every history of operations refines the same history on a map.

  \<^descr> \<open>Maintain\<close>: the operations that move records without changing the contents: the
  inline collector (\<^verbatim>\<open>gc_step\<close>), the split collector (\<^verbatim>\<open>gc_collect\<close>,
  \<^verbatim>\<open>gc_install\<close>), the spill of RAM records, snapshots, checkpoints (\<^verbatim>\<open>persist\<close>) and
  reopening (\<^verbatim>\<open>open\<close>).
  \<^descr> \<open>Slots\<close>, \<open>GcProofs\<close>, \<open>GcInstall\<close>, \<open>SpillProofs\<close>, \<open>SpillAll\<close>, \<open>Reopen\<close>: the record
  slots of a frontier and their replacement; a scan selects records of the slots
  their prefixes name, relocations and spills keep contents and ownership, a full
  spill leaves nothing in memory, recomputed liveness is the allocator's, and a
  checkpoint whose records are in place opens to what it was taken of.
  \<^descr> \<open>System\<close>, \<open>SystemSpec\<close>: all operations as one step relation, with crashes; its
  invariant, and the guarantees that span the components: isolation of
  snapshots, consistency after a crash, transparency of all maintenance.
  \<^descr> \<open>CodeStore\<close>, \<open>EthState\<close>, \<open>EthSpec\<close> model \<^verbatim>\<open>state.rs\<close>: the bytecode log with its
  recovery scan, and the typed accounts and slots over the database. The
  specification is a map from addresses to accounts that are structured, with a map
  of slots, or opaque; every write commutes with it (\<open>eth_step\<close>), reads return it,
  and the state root is the one the reference builder computes from it. Addresses
  and slots range over sets whose hashes differ before the last nibble
  (\<open>keys_apart\<close>), the documented behaviour of keccak.
  \<^descr> \<open>Block\<close>, \<open>BlockNorm\<close>, \<open>BlockRecord\<close>, \<open>BlockSpec\<close>: the operations of a block, their
  normalization to one net update per account, and a net update on the record of an
  account with the operations that undo it. An account is seen as its fields and a map
  of slots (\<open>view\<close>); \<open>so_spec\<close> is an operation and \<open>net_spec\<close> a net update on it.
  \<^descr> \<open>Cursor\<close>, \<open>CursorProofs\<close>, \<open>CursorSpec\<close> model the leaf cursors of \<^verbatim>\<open>cursor.rs\<close>:
  the successor walks over frontier and records, threading the memo of the last record
  read (\<open>cm\<close>), the account cursor and the storage cursor. \<open>least_from\<close> is their
  specification over the map of accounts (\<open>account_map\<close>) and of slots (\<open>slots_of\<close>);
  \<open>view_of\<close> says what map the database or a held snapshot stands for. The debug
  assertions on prefix lengths are left out.
  \<^descr> \<open>Reveal\<close>, \<open>RevealProofs\<close>, \<open>RevealSpec\<close> model \<^verbatim>\<open>reveal.rs\<close>: the walks that
  copy out the nodes on the paths of keys. A node shows a subtrie when it has its path
  and the references of its children (\<open>shows_node\<close>); \<open>proves\<close> is a checker that has the
  root only, and accepts the revealed nodes as a Merkle proof of every key. Of the masks
  it is shown that no branch below is missed (\<open>masks\<close>).
  \<^descr> \<open>BranchCursor\<close>, \<open>BranchCursorProofs\<close>, \<open>BranchCursorSpec\<close>: the cursors of
  \<^verbatim>\<open>cursor.rs\<close> over branch nodes. \<open>finds\<close> says that a walk returns the first branch
  from a target on with an entry that describes its children (\<open>entry_shows\<close>); the
  branches are the positions where two keys of the contents part (\<open>forks\<close>).

  \<^bold>\<open>Correspondence\<close>

  Names are those of the sources; a \<^verbatim>\<open>_\<close>-suffix or a prefix is added only on a
  clash. A mutated \<^verbatim>\<open>&mut\<close> argument is returned; the file, the allocator and the
  shared end-of-file counter are explicit. \<^verbatim>\<open>Arc\<close> sharing and copy-on-write are
  value semantics. A memoized hash is an optional field that hashing fills in, so
  hashing returns the updated node. Words keep their width where the code relies
  on it (pointers, nonces, balances, bitmaps, bytes); counters bounded by the
  invariant are natural numbers. The process-wide switch for hot records is the
  field \<open>c_hot\<close> of the configuration. Statistics and timers are left out. The
  floating-point parts of the collector (utilization against its target, the
  controller's adjustment, the victims' scores), its caps and its environment
  switches are fields of \<open>gc_env\<close>; the theorems hold for all of them. The second-chance
  bits of RAM records are an argument of the spill.

  \<^bold>\<open>Crashes\<close>

  A crash happens between two operations that succeeded, or between two steps of
  the replacement of the manifest. The file is then any sequence of bytes in which
  every byte is one the file held after some operation since the last checkpoint,
  no shorter than one of these contents (\<open>torn\<close>); what was synced at the checkpoint is
  the first of them. The serializer of the manifest is a parameter, \<open>ser\<close> and \<open>de\<close>,
  with the hypothesis \<open>reads_back\<close>. A rename is atomic.

  \<^bold>\<open>Fuel\<close>

  The functions on records recurse on lazily parsed bytes and carry fuel. The
  bounds are proved: an insert or delete at nibble depth \<open>d\<close> needs less than
  \<open>(64 - d) + 66\<close>, a lookup at most \<open>260\<close>, and promotion less than \<open>300\<close>; the
  frontier passes 300 (\<open>REC_FUEL\<close>), and no operation of a history ever reports
  exhausted fuel (\<open>operation_outcome\<close>).

  \<^bold>\<open>Hypotheses of the database theorems\<close>

  \<^item> keys and slots have 32 bytes and hashes have 32 bytes, as the source's types say;
  \<^item> \<open>spread\<close>: no two keys agree on the first 63 nibbles. The frontier takes a
  prefix of 64 nibbles for the root of an account's storage, so a branch whose
  children sit at depth 64 of the state trie has no faithful position;
  \<^item> \<open>wide\<close>/\<open>hashed\<close> (only for roots and for the RLP of promoted accounts): every
  child reference is a hash, because the frontier embeds children as hashes;
  \<^item> \<open>mem_ok\<close>: in-memory records are below 4 GiB, the width of their length fields.

  The reference root is only claimed when the keys have two different first
  nibbles: before that the root of the frontier is a branch with one child.

  \<^bold>\<open>Not modelled\<close>

  The walk of a net update through the frontier (\<^verbatim>\<open>apply_ram_group\<close>), the thread fan-out of
  \<^verbatim>\<open>apply_block\<close> and the batch inserts, device errors, crashes in the middle of an operation,
  statistics, environment knobs and the examples.
\<close>

end
